(* ===== verification/Prelude.thy ===== *)
theory Prelude
  imports Main "HOL-Library.Word"
begin

text \<open>
  What every component shares: the machine integers of the LP64 targets the pods are
  built for, C's unsigned arithmetic on sizes, memory as byte lists with a write
  primitive, the byte / integer conversions, and the two collections the component
  proofs draw on (\<open>c_mem\<close> for memory writes, \<open>c_word\<close> for words).
\<close>

unbundle bit_operations_syntax

section \<open>Machine integers\<close>

type_synonym u8 = "8 word"
type_synonym u16 = "16 word"
type_synonym u32 = "32 word"
type_synonym u64 = "64 word"

text \<open>
  A \<open>size_t\<close> is a natural number; where the code relies on, or tests for, its wrap
  around, the wrapping is written out with these.
\<close>

definition SIZE_MOD :: nat where
  "SIZE_MOD = 2 ^ 64"

definition INT_MAX :: nat where
  "INT_MAX = 2147483647"

definition UINT_MAX :: nat where
  "UINT_MAX = 4294967295"

definition size_add :: "nat \<Rightarrow> nat \<Rightarrow> nat" where
  "size_add a b = (a + b) mod SIZE_MOD"

definition size_mul :: "nat \<Rightarrow> nat \<Rightarrow> nat" where
  "size_mul a b = (a * b) mod SIZE_MOD"

named_theorems c_mem
named_theorems c_word

lemma SIZE_MOD_pos [simp]: "0 < SIZE_MOD"
  by (simp add: SIZE_MOD_def)

lemma size_add_lt_SIZE_MOD [simp]: "size_add a b < SIZE_MOD"
  by (simp add: size_add_def)

text \<open>The overflow test of the C code: a sum of sizes wrapped iff it is below an operand.\<close>

lemma size_add_wraps_iff:
  assumes "a < SIZE_MOD" "b < SIZE_MOD"
  shows "size_add a b < a \<longleftrightarrow> SIZE_MOD \<le> a + b"
proof (cases "a + b < SIZE_MOD")
  case True
  then show ?thesis by (simp add: size_add_def)
next
  case False
  then have "(a + b) mod SIZE_MOD = a + b - SIZE_MOD"
    using assms by (simp add: mod_if)
  then show ?thesis using False assms by (simp add: size_add_def)
qed

lemma size_add_exact: "a + b < SIZE_MOD \<Longrightarrow> size_add a b = a + b"
  by (simp add: size_add_def)

definition size_sub :: "nat \<Rightarrow> nat \<Rightarrow> nat" where
  "size_sub a b = (a + SIZE_MOD - b) mod SIZE_MOD"

text \<open>A failed \<^verbatim>\<open>assert\<close> is no result.\<close>

definition C_assert :: "bool \<Rightarrow> unit option" where
  "C_assert b = (if b then Some () else None)"

lemma C_assert_bind [simp]: "Option.bind (C_assert b) f = (if b then f () else None)"
  by (simp add: C_assert_def)

lemma size_sub_exact:
  assumes "b \<le> a" "a < SIZE_MOD"
  shows "size_sub a b = a - b"
proof -
  have "a + SIZE_MOD - b = (a - b) + SIZE_MOD" using assms(1) by (rule Nat.diff_add_assoc2)
  then show ?thesis using assms(2) unfolding size_sub_def by (simp only: mod_add_self2) simp
qed

lemma size_sub_self: "size_sub a a = 0"
  by (simp add: size_sub_def)

lemma option_eqI: "(\<And>d. x = Some d \<longleftrightarrow> y = Some d) \<Longrightarrow> x = y"
  by (cases x; cases y) auto

section \<open>Memory\<close>

text \<open>
  \<open>overwrite m i bs\<close> is memory \<open>m\<close> after storing \<open>bs\<close> from index \<open>i\<close> on: what a
  \<open>memcpy\<close> (or \<open>memmove\<close>, the source being read first) to \<open>m + i\<close> leaves. A write
  that runs past the end of \<open>m\<close> makes the list longer, so that \<open>length\<close> shows it.
\<close>

definition overwrite :: "'a list \<Rightarrow> nat \<Rightarrow> 'a list \<Rightarrow> 'a list" where
  "overwrite m i bs = take i m @ bs @ drop (i + length bs) m"

lemma length_overwrite [simp, c_mem]:
  "i + length bs \<le> length m \<Longrightarrow> length (overwrite m i bs) = length m"
  by (simp add: overwrite_def)

lemma overwrite_Nil [simp, c_mem]: "overwrite m i [] = m"
  by (simp add: overwrite_def)

lemma overwrite_at_end [c_mem]: "length m \<le> i \<Longrightarrow> overwrite m i bs = m @ bs"
  by (simp add: overwrite_def)

lemma take_overwrite_below [c_mem]:
  "n \<le> i \<Longrightarrow> take n (overwrite m i bs) = take n m" if "i \<le> length m"
  using that by (simp add: overwrite_def)

lemma take_overwrite_upto [c_mem]:
  "i \<le> length m \<Longrightarrow> take (i + length bs) (overwrite m i bs) = take i m @ bs"
  by (simp add: overwrite_def)

lemma overwrite_split:
  "length p = i \<Longrightarrow> length old = length bs \<Longrightarrow> overwrite (p @ old @ s) i bs = p @ bs @ s"
  by (simp add: overwrite_def)

lemma drop_overwrite [c_mem]:
  "i \<le> length m \<Longrightarrow> drop (i + length bs) (overwrite m i bs) = drop (i + length bs) m"
  by (simp add: overwrite_def)

lemma nth_overwrite [c_mem]:
  assumes "i + length bs \<le> length m" "j < length m"
  shows "overwrite m i bs ! j =
    (if i \<le> j \<and> j < i + length bs then bs ! (j - i) else m ! j)"
  using assms by (auto simp: overwrite_def nth_append min_def)

section \<open>Bytes and big-endian integers\<close>

lemma unat_u8_lt: "unat (b :: u8) < 256"
  using unsigned_less[of b, where 'a=nat] by simp

lemma bit_u8_high [c_word]: "8 \<le> n \<Longrightarrow> \<not> bit (w :: u8) n"
  using bit_imp_le_length[of w n] by auto

lemma u8_and_7f [c_word]: "unat (l AND 0x7f :: u8) = unat l mod 128"
proof -
  have "l AND 0x7f = take_bit 7 l" by (simp add: take_bit_eq_mask mask_eq_exp_minus_1)
  then have "unat (l AND 0x7f) = take_bit 7 (unat l)" by (simp only: unsigned_take_bit_eq)
  then show ?thesis by (simp add: take_bit_eq_mod)
qed

lemma and_push_bit_1_eq_0: "(l AND push_bit n 1 = 0) = (\<not> bit (l :: 'a :: len word) n)"
  by (cases "n < LENGTH('a)") (auto simp: and_exp_eq_0_iff_not_bit push_bit_eq_mult)

lemma bit_u8_iff: "n < 8 \<Longrightarrow> bit (l :: u8) n \<longleftrightarrow> odd (unat l div 2 ^ n)"
proof -
  assume "n < 8"
  then have "bit l n = bit (unat l) n" by (simp add: bit_unsigned_iff)
  then show ?thesis by (simp only: bit_iff_odd)
qed

lemma u8_and_80 [c_word]: "(l AND 0x80 = 0) \<longleftrightarrow> unat (l :: u8) < 128"
proof -
  have "(l AND 0x80 = 0) = (\<not> bit l 7)" using and_push_bit_1_eq_0[of l 7] by (simp add: push_bit_eq_mult)
  also have "\<dots> = even (unat l div 128)" by (simp only: bit_u8_iff) simp
  also have "\<dots> = (unat l div 128 = 0)"
  proof -
    have "unat l div 128 < 2" using unat_u8_lt[of l] by (simp add: div_less_iff_less_mult)
    then have "unat l div 128 = 0 \<or> unat l div 128 = 1" by linarith
    then show ?thesis by (elim disjE) (simp_all only: even_zero odd_one zero_neq_one one_neq_zero simp_thms)
  qed
  also have "\<dots> = (unat l < 128)" by (simp add: div_eq_0_iff)
  finally show ?thesis .
qed

lemma word_eq_of_nat: "unat w = n \<Longrightarrow> w = of_nat n"
  by (drule sym) simp

text \<open>Assembling a 32-bit value from bytes: disjoint bits, so \<open>OR\<close> is addition.\<close>

lemma unat_ucast_u8_u32: "unat (ucast (a :: u8) :: u32) = unat a"
  using unat_u8_lt[of a] by (simp add: unsigned_ucast_eq take_bit_nat_eq_self_iff)

lemma unat_ucast_u8_u64: "unat (ucast (a :: u8) :: u64) = unat a"
  using unat_u8_lt[of a] by (simp add: unsigned_ucast_eq take_bit_nat_eq_self_iff)

lemma unat_push_bit_or [c_word]:
  fixes x y :: "'a :: len word"
  assumes "unat y < 2 ^ k" "unat x * 2 ^ k < 2 ^ LENGTH('a)"
  shows "unat (push_bit k x OR y) = unat x * 2 ^ k + unat y"
proof -
  have y: "\<not> bit y n" if "k \<le> n" for n
  proof -
    have "unat y < 2 ^ n" using assms(1) that by (meson less_le_trans one_le_numeral power_increasing)
    then have "\<not> bit (unat y) n" by (simp add: bit_iff_odd)
    then show ?thesis by (auto simp: bit_unsigned_iff dest: bit_imp_le_length)
  qed
  have "push_bit k x OR y = push_bit k x + y"
    by (rule disjunctive_add[symmetric]) (metis bit_push_bit_iff y)
  moreover have p: "unat (push_bit k x) = unat x * 2 ^ k"
    using assms(2) by (simp add: unsigned_push_bit_eq push_bit_nat_def take_bit_nat_eq_self)
  moreover have "unat x * 2 ^ k + unat y < 2 ^ LENGTH('a)"
  proof -
    have "k \<le> LENGTH('a) \<or> unat x = 0"
      using assms(2) power_increasing[of "Suc LENGTH('a)" k "2 :: nat"] by (cases "unat x"; cases "k \<le> LENGTH('a)") auto
    then show ?thesis
    proof
      assume "unat x = 0"
      then show ?thesis using unsigned_less[of y, where 'a=nat] by simp
    next
      assume "k \<le> LENGTH('a)"
      then obtain j where "LENGTH('a) = k + j" using le_Suc_ex by blast
      then have e: "(2::nat) ^ LENGTH('a) = 2 ^ j * 2 ^ k" by (metis power_add mult.commute)
      from assms(2) have "unat x * 2 ^ k < 2 ^ j * 2 ^ k" by (simp only: e)
      then have "unat x < 2 ^ j" by (simp only: mult_less_cancel2)
      then have "(unat x + 1) * 2 ^ k \<le> 2 ^ j * 2 ^ k" by (intro mult_le_mono1) simp
      with assms(1) e show ?thesis by simp
    qed
  qed
  ultimately show ?thesis by (simp add: unat_word_ariths)
qed

text \<open>A property of all eight bits of a byte is eight properties.\<close>

lemma lt_8_cases:
  "n < LENGTH(8) \<Longrightarrow>
   n = 0 \<or> n = 1 \<or> n = 2 \<or> n = 3 \<or> n = 4 \<or> n = 5 \<or> n = 6 \<or> n = (7 :: nat)"
  by auto

text \<open>The value of a big-endian byte string, and the \<open>n\<close>-byte big-endian form of a value.\<close>

definition be_val :: "u8 list \<Rightarrow> nat" where
  "be_val bs = foldl (\<lambda>a b. a * 256 + unat b) 0 bs"

fun be_bytes :: "nat \<Rightarrow> nat \<Rightarrow> u8 list" where
  "be_bytes 0 v = []"
| "be_bytes (Suc n) v = be_bytes n (v div 256) @ [of_nat v]"

lemma length_be_bytes [simp]: "length (be_bytes n v) = n"
  by (induction n v rule: be_bytes.induct) simp_all

lemma be_val_Nil [simp]: "be_val [] = 0"
  by (simp add: be_val_def)

lemma be_val_snoc [simp]: "be_val (bs @ [b]) = be_val bs * 256 + unat b"
  by (simp add: be_val_def)

lemma be_val_Cons: "be_val (b # bs) = unat b * 256 ^ length bs + be_val bs"
  by (induction bs rule: rev_induct) (simp_all add: be_val_snoc[of "_ # _", simplified] algebra_simps, simp add: be_val_def)

lemma be_val_lt: "be_val bs < 256 ^ length bs"
proof (induction bs rule: rev_induct)
  case Nil
  then show ?case by simp
next
  case (snoc b bs)
  then have "be_val bs + 1 \<le> 256 ^ length bs" by simp
  then have "(be_val bs + 1) * 256 \<le> 256 ^ length bs * 256"
    by (rule mult_le_mono1)
  then have "256 + be_val bs * 256 \<le> 256 ^ length bs * 256" by simp
  then have "be_val bs * 256 + unat b < 256 ^ length bs * 256"
    using unat_u8_lt[of b] by linarith
  then show ?case by (simp add: mult.commute)
qed

lemma be_val_be_bytes [simp]: "be_val (be_bytes n v) = v mod 256 ^ n"
proof (induction n v rule: be_bytes.induct)
  case (1 v)
  then show ?case by simp
next
  case (2 n v)
  have "v mod 256 ^ Suc n = (v div 256) mod 256 ^ n * 256 + v mod 256"
    using mod_mult2_eq[of v 256 "256 ^ n"] by (simp add: mult.commute)
  with 2 show ?case by (simp add: unat_of_nat)
qed

lemma be_bytes_be_val: "length bs = n \<Longrightarrow> be_bytes n (be_val bs) = bs"
proof (induction bs arbitrary: n rule: rev_induct)
  case Nil
  then show ?case by simp
next
  case (snoc b bs)
  then obtain m where n: "n = Suc m" and "length bs = m" by (cases n) auto
  let ?v = "be_val bs * 256 + unat b"
  have d: "?v div 256 = be_val bs"
    using unat_u8_lt[of b] by (simp add: div_add1_eq)
  have "unat (of_nat ?v :: u8) = ?v mod 256"
    unfolding unat_of_nat by simp
  also have "\<dots> = unat b"
    using unat_u8_lt[of b] by (simp only: mod_mult_self3 mod_less)
  finally have e: "(of_nat ?v :: u8) = b"
    by (rule word_unat_eq_iff[THEN iffD2])
  show ?case
    using snoc.IH[OF \<open>length bs = m\<close>]
    by (simp only: n be_bytes.simps be_val_snoc d e)
qed

lemma be_bytes_mod: "be_bytes n (v mod 256 ^ n) = be_bytes n v"
  by (metis be_bytes_be_val be_val_be_bytes length_be_bytes mod_mod_trivial)

lemma be_bytes_split: "be_bytes (m + k) v = be_bytes m (v div 256 ^ k) @ be_bytes k v"
proof (induction k arbitrary: v)
  case 0
  then show ?case by simp
next
  case (Suc k)
  have "v div 256 div 256 ^ k = v div 256 ^ Suc k" by (simp add: div_mult2_eq)
  then show ?case using Suc[of "v div 256"] by simp
qed

lemma be_bytes_append: "b < 256 ^ n \<Longrightarrow> be_bytes m a @ be_bytes n b = be_bytes (m + n) (a * 256 ^ n + b)"
proof -
  assume "b < 256 ^ n"
  then have "(a * 256 ^ n + b) div 256 ^ n = a" "(a * 256 ^ n + b) mod 256 ^ n = b" by simp_all
  then show ?thesis by (metis be_bytes_split be_bytes_mod)
qed

text \<open>The shortest big-endian form of a value (empty for zero).\<close>

fun be_min :: "nat \<Rightarrow> u8 list" where
  "be_min v = (if v = 0 then [] else be_min (v div 256) @ [of_nat v])"

declare be_min.simps [simp del]

lemma be_min_0 [simp]: "be_min 0 = []"
  by (simp add: be_min.simps)

lemma be_min_pos: "0 < v \<Longrightarrow> be_min v = be_min (v div 256) @ [of_nat v]"
  by (simp add: be_min.simps[of v])

lemma be_min_eq_Nil [simp]: "be_min v = [] \<longleftrightarrow> v = 0"
  by (cases "v = 0") (simp_all add: be_min_pos)

lemma be_val_be_min [simp]: "be_val (be_min v) = v"
proof (induction v rule: be_min.induct)
  case (1 v)
  then show ?case by (cases "v = 0") (simp_all add: be_min_pos unat_of_nat)
qed

lemma hd_be_min: "0 < v \<Longrightarrow> hd (be_min v) \<noteq> 0"
proof (induction v rule: be_min.induct)
  case (1 v)
  show ?case
  proof (cases "v div 256 = 0")
    case True
    then have "v < 256" by (simp add: div_eq_0_iff)
    then have "unat (of_nat v :: u8) = v" by (simp add: unat_of_nat)
    with 1 True show ?thesis by (auto simp: be_min_pos[of v])
  next
    case False
    then have "be_min (v div 256) \<noteq> []" by (simp only: be_min_eq_Nil not_False_eq_True)
    moreover have "hd (be_min (v div 256)) \<noteq> 0" using 1 False by (cases "v = 0") auto
    ultimately show ?thesis using 1(2) by (simp only: be_min_pos[of v] hd_append if_False not_False_eq_True)
  qed
qed

lemma be_min_be_val: "bs = [] \<or> hd bs \<noteq> 0 \<Longrightarrow> be_min (be_val bs) = bs"
proof (induction bs rule: rev_induct)
  case Nil
  then show ?case by simp
next
  case (snoc b bs)
  let ?v = "be_val bs * 256 + unat b"
  have d: "?v div 256 = be_val bs"
    using unat_u8_lt[of b] by (simp add: div_add1_eq)
  have e: "(of_nat ?v :: u8) = b"
    using unat_u8_lt[of b] by (intro word_unat_eq_iff[THEN iffD2])
      (simp add: unat_of_nat del: of_nat_add of_nat_mult)
  have IH: "be_min (be_val bs) = bs"
    using snoc by (cases bs) auto
  have "?v \<noteq> 0"
  proof (cases "bs = []")
    case True
    with snoc.prems show ?thesis by (simp add: unat_eq_0)
  next
    case False
    then have "be_val bs \<noteq> 0" using IH by (metis be_min_0)
    then show ?thesis by simp
  qed
  then have "be_min ?v = be_min (?v div 256) @ [of_nat ?v]" by (simp only: be_min_pos)
  then show ?case by (simp only: be_val_snoc d e IH)
qed

lemma length_be_min_le: "length (be_min v) \<le> k \<longleftrightarrow> v < 256 ^ k"
proof (induction v arbitrary: k rule: be_min.induct)
  case (1 v)
  show ?case
  proof (cases "v = 0")
    case True
    then show ?thesis by simp
  next
    case False
    show ?thesis
    proof (cases k)
      case 0
      with False show ?thesis by simp
    next
      case (Suc j)
      have "v div 256 < 256 ^ j \<longleftrightarrow> v < 256 ^ Suc j"
        by (simp add: div_less_iff_less_mult mult.commute)
      with 1 False Suc show ?thesis by (simp add: be_min_pos[of v])
    qed
  qed
qed

end
