(* ===== verification/Constant_Time.thy ===== *)
theory Constant_Time
  imports Prelude
begin

text \<open>
  The constant-time primitives of \<^verbatim>\<open>crypto/internal.h\<close> and \<^verbatim>\<open>CRYPTO_memcmp\<close> of
  \<^verbatim>\<open>crypto/mem.c\<close>: branch-free comparisons that return masks, and the selection
  functions that consume them. \<open>crypto_word_t\<close> is the 64-bit native word, an \<open>int\<close> a
  32-bit word whose conversion to \<open>crypto_word_t\<close> sign-extends. The lemmas, collected in
  \<open>ct\<close>, give each primitive the branching meaning its comment states, so that the code
  that uses them is reasoned about without unfolding bit tricks.
\<close>

named_theorems ct

section \<open>Definitions\<close>

definition CONSTTIME_TRUE_W :: u64 where "CONSTTIME_TRUE_W = NOT 0"
definition CONSTTIME_FALSE_W :: u64 where "CONSTTIME_FALSE_W = 0"
definition CONSTTIME_TRUE_8 :: u8 where "CONSTTIME_TRUE_8 = 0xff"
definition CONSTTIME_FALSE_8 :: u8 where "CONSTTIME_FALSE_8 = 0"

definition constant_time_msb_w :: "u64 \<Rightarrow> u64" where
  "constant_time_msb_w a = 0 - drop_bit 63 a"

definition constant_time_lt_w :: "u64 \<Rightarrow> u64 \<Rightarrow> u64" where
  "constant_time_lt_w a b = constant_time_msb_w (a XOR ((a XOR b) OR ((a - b) XOR a)))"

definition constant_time_lt_8 :: "u64 \<Rightarrow> u64 \<Rightarrow> u8" where
  "constant_time_lt_8 a b = ucast (constant_time_lt_w a b)"

definition constant_time_ge_w :: "u64 \<Rightarrow> u64 \<Rightarrow> u64" where
  "constant_time_ge_w a b = NOT (constant_time_lt_w a b)"

definition constant_time_ge_8 :: "u64 \<Rightarrow> u64 \<Rightarrow> u8" where
  "constant_time_ge_8 a b = ucast (constant_time_ge_w a b)"

definition constant_time_is_zero_w :: "u64 \<Rightarrow> u64" where
  "constant_time_is_zero_w a = constant_time_msb_w (NOT a AND (a - 1))"

definition constant_time_is_zero_8 :: "u64 \<Rightarrow> u8" where
  "constant_time_is_zero_8 a = ucast (constant_time_is_zero_w a)"

definition constant_time_eq_w :: "u64 \<Rightarrow> u64 \<Rightarrow> u64" where
  "constant_time_eq_w a b = constant_time_is_zero_w (a XOR b)"

definition constant_time_eq_8 :: "u64 \<Rightarrow> u64 \<Rightarrow> u8" where
  "constant_time_eq_8 a b = ucast (constant_time_eq_w a b)"

definition constant_time_eq_int :: "32 word \<Rightarrow> 32 word \<Rightarrow> u64" where
  "constant_time_eq_int a b = constant_time_eq_w (scast a) (scast b)"

definition constant_time_eq_int_8 :: "32 word \<Rightarrow> 32 word \<Rightarrow> u8" where
  "constant_time_eq_int_8 a b = constant_time_eq_8 (scast a) (scast b)"

definition constant_time_select_w :: "u64 \<Rightarrow> u64 \<Rightarrow> u64 \<Rightarrow> u64" where
  "constant_time_select_w msk a b = ((msk AND a) OR (NOT msk AND b))"

definition constant_time_select_8 :: "u8 \<Rightarrow> u8 \<Rightarrow> u8 \<Rightarrow> u8" where
  "constant_time_select_8 msk a b =
     ucast (constant_time_select_w (ucast msk) (ucast a) (ucast b))"

definition constant_time_select_int :: "u64 \<Rightarrow> 32 word \<Rightarrow> 32 word \<Rightarrow> 32 word" where
  "constant_time_select_int msk a b =
     ucast (constant_time_select_w msk (scast a) (scast b))"

text \<open>\<^verbatim>\<open>CRYPTO_memcmp\<close> over the first \<open>len\<close> bytes of two buffers.\<close>

fun CRYPTO_memcmp_loop :: "u8 \<Rightarrow> u8 list \<Rightarrow> u8 list \<Rightarrow> nat \<Rightarrow> u8" where
  "CRYPTO_memcmp_loop x a b 0 = x"
| "CRYPTO_memcmp_loop x a b (Suc n) =
     CRYPTO_memcmp_loop (x OR (hd a XOR hd b)) (tl a) (tl b) n"

definition CRYPTO_memcmp :: "u8 list \<Rightarrow> u8 list \<Rightarrow> nat \<Rightarrow> u8" where
  "CRYPTO_memcmp in_a in_b len = CRYPTO_memcmp_loop 0 in_a in_b len"

section \<open>The masks mean what their comments say\<close>

lemma bit_63_iff: "bit (a :: u64) 63 \<longleftrightarrow> 2 ^ 63 \<le> unat a"
proof -
  have "unat a < 2 ^ 64" using unsigned_less[of a, where 'a=nat] by simp
  then have "unat a div 2 ^ 63 = (if 2 ^ 63 \<le> unat a then 1 else 0)" by auto
  moreover have "bit (unat a) 63 \<longleftrightarrow> odd (unat a div 2 ^ 63)"
    by (rule bit_iff_odd)
  moreover have "bit (unat a) 63 \<longleftrightarrow> bit a 63"
    by (simp add: bit_unsigned_iff)
  ultimately show ?thesis by (simp split: if_splits)
qed

lemma msb_w_bit [ct]: "constant_time_msb_w a = (if bit a 63 then - 1 else 0)"
proof -
  have "bit (drop_bit 63 a) n \<longleftrightarrow> n = 0 \<and> bit a 63" for n
    by (cases "n = 0") (auto simp: bit_simps dest: bit_imp_le_length)
  then have "drop_bit 63 a = (if bit a 63 then 1 else 0)"
    by (intro bit_word_eqI) (simp add: bit_1_iff)
  then show ?thesis by (simp add: constant_time_msb_w_def)
qed

text \<open>\<open>a < b\<close> is read off the top bit of the borrow expression.\<close>

lemma lt_w_bit:
  fixes a b :: u64
  shows "bit (a XOR ((a XOR b) OR ((a - b) XOR a))) 63 \<longleftrightarrow> a < b"
proof -
  have ab: "unat a < 2 ^ 64" "unat b < 2 ^ 64"
    using unsigned_less[of a, where 'a=nat] unsigned_less[of b, where 'a=nat] by simp_all
  have "unat (a - b) = (if unat b \<le> unat a then unat a - unat b else unat a + 2 ^ 64 - unat b)"
    by (simp add: unat_sub_if')
  with ab have "bit (a - b) 63 \<longleftrightarrow> a < b" if "bit a 63 = bit b 63"
    using that unfolding bit_63_iff word_less_nat_alt by (cases "unat b \<le> unat a") auto
  moreover have "a < b \<longleftrightarrow> bit b 63" if "bit a 63 \<noteq> bit b 63"
    using that unfolding bit_63_iff word_less_nat_alt by linarith
  ultimately show ?thesis
    by (auto simp: bit_xor_iff bit_or_iff)
qed

lemma constant_time_lt_w_eq [ct]:
  "constant_time_lt_w a b = (if a < b then - 1 else 0)"
  by (simp only: constant_time_lt_w_def msb_w_bit lt_w_bit)

lemma constant_time_is_zero_w_eq [ct]:
  "constant_time_is_zero_w a = (if a = 0 then - 1 else 0)"
proof -
  have a: "unat a < 2 ^ 64" using unsigned_less[of a, where 'a=nat] by simp
  have "bit (NOT a AND (a - 1)) 63 \<longleftrightarrow> a = 0"
  proof (cases "a = 0")
    case True
    then show ?thesis by (simp add: bit_simps)
  next
    case False
    then have "unat (a - 1) = unat a - 1"
      by (simp add: unat_minus_one)
    with False a have "\<not> (\<not> bit a 63 \<and> bit (a - 1) 63)"
      unfolding bit_63_iff by linarith
    with False show ?thesis by (simp add: bit_and_iff bit_not_iff)
  qed
  then show ?thesis by (simp only: constant_time_is_zero_w_def msb_w_bit)
qed

lemma xor_eq_0_word [simp, c_word]: "a XOR b = 0 \<longleftrightarrow> a = (b :: 'a::len word)"
proof
  assume "a XOR b = 0"
  then have "(a XOR b) XOR b = 0 XOR b" by simp
  then show "a = b" by (simp add: xor.assoc)
qed simp

lemma or_eq_0_word [simp, c_word]: "a OR b = 0 \<longleftrightarrow> a = 0 \<and> (b :: 'a::len word) = 0"
  by (auto simp: bit_eq_iff bit_simps)

lemma constant_time_eq_w_eq [ct]:
  "constant_time_eq_w a b = (if a = b then - 1 else 0)"
  by (simp add: constant_time_eq_w_def ct)

lemma ucast_minus_1_u8 [simp, c_word]: "(ucast (- 1 :: u64) :: u8) = 255"
  by code_simp

lemma constant_time_select_w_true [ct]: "constant_time_select_w (- 1) a b = a"
  and constant_time_select_w_false [ct]: "constant_time_select_w 0 a b = b"
  by (simp_all add: constant_time_select_w_def)

lemma constant_time_lt_8_eq [ct]: "constant_time_lt_8 a b = (if a < b then 255 else 0)"
  by (simp add: constant_time_lt_8_def ct)

lemma constant_time_ge_w_eq [ct]: "constant_time_ge_w a b = (if b \<le> a then - 1 else 0)"
  by (auto simp: constant_time_ge_w_def ct not_less)

lemma constant_time_ge_8_eq [ct]: "constant_time_ge_8 a b = (if b \<le> a then 255 else 0)"
  by (simp add: constant_time_ge_8_def ct)

lemma constant_time_is_zero_8_eq [ct]: "constant_time_is_zero_8 a = (if a = 0 then 255 else 0)"
  by (simp add: constant_time_is_zero_8_def ct)

lemma constant_time_eq_8_eq [ct]: "constant_time_eq_8 a b = (if a = b then 255 else 0)"
  by (simp add: constant_time_eq_8_def ct)

lemma ucast_scast_32_64: "(ucast (scast (a :: 32 word) :: u64) :: 32 word) = a"
  by (rule bit_word_eqI) (auto simp: bit_simps)

lemma scast_32_64_inj: "(scast (a :: 32 word) :: u64) = scast b \<longleftrightarrow> a = b"
proof
  assume "(scast a :: u64) = scast b"
  then have "(ucast (scast a :: u64) :: 32 word) = ucast (scast b :: u64)" by simp
  then show "a = b" by (simp add: ucast_scast_32_64)
qed simp

lemma constant_time_eq_int_eq [ct]: "constant_time_eq_int a b = (if a = b then - 1 else 0)"
  by (simp add: constant_time_eq_int_def ct scast_32_64_inj)

lemma constant_time_eq_int_8_eq [ct]: "constant_time_eq_int_8 a b = (if a = b then 255 else 0)"
  by (simp add: constant_time_eq_int_8_def ct scast_32_64_inj)

lemma constant_time_select_8_true [ct]: "constant_time_select_8 255 a b = a"
proof (rule bit_word_eqI)
  fix n assume n: "n < LENGTH(8)"
  then have "n \<in> {0, 1, 2, 3, 4, 5, 6, 7}" by auto
  then have "bit (255 :: u8) n" by auto
  with n show "bit (constant_time_select_8 255 a b) n = bit a n"
    by (simp add: constant_time_select_8_def constant_time_select_w_def bit_simps)
qed

lemma constant_time_select_8_false [ct]: "constant_time_select_8 0 a b = b"
  by (rule bit_word_eqI)
     (simp add: constant_time_select_8_def constant_time_select_w_def bit_simps)

lemma constant_time_select_int_true [ct]: "constant_time_select_int (- 1) a b = a"
  and constant_time_select_int_false [ct]: "constant_time_select_int 0 a b = b"
  by (simp_all add: constant_time_select_int_def ct ucast_scast_32_64)

text \<open>The constant-time comparison of buffers is zero exactly on equal contents.\<close>

lemma CRYPTO_memcmp_loop_zero:
  "length a = n \<Longrightarrow> length b = n \<Longrightarrow>
   CRYPTO_memcmp_loop x a b n = 0 \<longleftrightarrow> x = 0 \<and> a = b"
proof (induction n arbitrary: x a b)
  case 0
  then show ?case by simp
next
  case (Suc n)
  then obtain p a' q b' where "a = p # a'" "b = q # b'" "length a' = n" "length b' = n"
    by (auto simp: length_Suc_conv)
  with Suc.IH[of a' b'] show ?case by auto
qed

lemma CRYPTO_memcmp_loop_take:
  "n \<le> length a \<Longrightarrow> n \<le> length b \<Longrightarrow>
   CRYPTO_memcmp_loop x a b n = CRYPTO_memcmp_loop x (take n a) (take n b) n"
proof (induction n arbitrary: x a b)
  case (Suc n)
  from Suc.prems obtain p a' q b' where "a = p # a'" "b = q # b'"
    by (cases a; cases b) auto
  moreover from this Suc.prems have "n \<le> length a'" "n \<le> length b'" by auto
  ultimately show ?case
    by (simp only: CRYPTO_memcmp_loop.simps list.sel take_Suc_Cons Suc.IH[of a' b'])
qed simp

lemma CRYPTO_memcmp_zero_iff [ct]:
  assumes "n \<le> length a" "n \<le> length b"
  shows "CRYPTO_memcmp a b n = 0 \<longleftrightarrow> take n a = take n b"
proof -
  have "CRYPTO_memcmp a b n = CRYPTO_memcmp_loop 0 (take n a) (take n b) n"
    unfolding CRYPTO_memcmp_def by (rule CRYPTO_memcmp_loop_take) (use assms in simp_all)
  then show ?thesis
    using assms CRYPTO_memcmp_loop_zero[of "take n a" n "take n b" 0] by simp
qed

end
