(* ===== verification/Mem.thy ===== *)
theory Mem
  imports Prelude
begin

text \<open>
  The allocator wrappers and string helpers of \<^verbatim>\<open>crypto/mem.c\<close>. The system's
  \<open>malloc\<close> is not under our control: it is a parameter \<open>sys\<close>, a predicate that says for
  which request sizes it returns a block. A block is the list of its bytes, \<open>None\<close> for
  one that was never written. A C string is the memory from the pointer to the end of its
  object; a function that would read past that end returns \<open>None\<close>.
\<close>

type_synonym cell = "u8 option"
type_synonym sys_malloc = "nat \<Rightarrow> bool"

section \<open>Allocation\<close>

definition OPENSSL_MALLOC_PREFIX :: nat where
  "OPENSSL_MALLOC_PREFIX = 8"

text \<open>
  The block returned is what is left of the system's block behind the size prefix: the sum
  is computed as a \<open>size_t\<close>, without an overflow check, as in the code.
\<close>

definition OPENSSL_malloc :: "sys_malloc \<Rightarrow> nat \<Rightarrow> cell list option" where
  "OPENSSL_malloc sys n =
     (let req = size_add n OPENSSL_MALLOC_PREFIX
      in if \<not> sys req then None else Some (replicate (req - OPENSSL_MALLOC_PREFIX) None))"

text \<open>\<open>orig\<close> is \<open>None\<close> for a NULL pointer; the old size is that of the block.\<close>

definition OPENSSL_realloc :: "sys_malloc \<Rightarrow> cell list option \<Rightarrow> nat \<Rightarrow> cell list option" where
  "OPENSSL_realloc sys orig new_size =
     (case orig of
        None \<Rightarrow> OPENSSL_malloc sys new_size
      | Some old \<Rightarrow>
          (case OPENSSL_malloc sys new_size of
             None \<Rightarrow> None
           | Some ret \<Rightarrow>
               let to_copy = (if length old < new_size then length old else new_size)
               in Some (overwrite ret 0 (take to_copy old))))"

section \<open>Hashing and strings\<close>

definition OPENSSL_hash32 :: "u8 list \<Rightarrow> u32" where
  "OPENSSL_hash32 bs = foldl (\<lambda>h b. (h XOR ucast b) * 16777619) 2166136261 bs"

fun strlen :: "u8 list \<Rightarrow> nat option" where
  "strlen [] = None"
| "strlen (c # s) = (if c = 0 then Some 0 else map_option Suc (strlen s))"

fun OPENSSL_strnlen :: "u8 list \<Rightarrow> nat \<Rightarrow> nat option" where
  "OPENSSL_strnlen s 0 = Some 0"
| "OPENSSL_strnlen [] (Suc n) = None"
| "OPENSSL_strnlen (c # s) (Suc n) =
     (if c = 0 then Some 0 else map_option Suc (OPENSSL_strnlen s n))"

text \<open>The outer \<open>None\<close> is a read past the end, the inner one the NULL result.\<close>

definition OPENSSL_strdup :: "sys_malloc \<Rightarrow> u8 list \<Rightarrow> cell list option option" where
  "OPENSSL_strdup sys s =
     (case strlen s of
        None \<Rightarrow> None
      | Some n \<Rightarrow>
          let len = n + 1
          in case OPENSSL_malloc sys len of
               None \<Rightarrow> Some None
             | Some ret \<Rightarrow> Some (Some (overwrite ret 0 (map Some (take len s)))))"

definition OPENSSL_tolower :: "int \<Rightarrow> int" where
  "OPENSSL_tolower c = (if 65 \<le> c \<and> c \<le> 90 then c + (97 - 65) else c)"

text \<open>\<open>char\<close> is signed on the targets: \<open>a[i]\<close> promotes to \<open>sint\<close>.\<close>

fun OPENSSL_strcasecmp :: "u8 list \<Rightarrow> u8 list \<Rightarrow> int option" where
  "OPENSSL_strcasecmp (a # as) (b # bs) =
     (let aa = OPENSSL_tolower (sint a); bb = OPENSSL_tolower (sint b)
      in if aa < bb then Some (- 1)
         else if aa > bb then Some 1
         else if aa = 0 then Some 0
         else OPENSSL_strcasecmp as bs)"
| "OPENSSL_strcasecmp _ _ = None"

fun OPENSSL_strncasecmp :: "u8 list \<Rightarrow> u8 list \<Rightarrow> nat \<Rightarrow> int option" where
  "OPENSSL_strncasecmp _ _ 0 = Some 0"
| "OPENSSL_strncasecmp (a # as) (b # bs) (Suc n) =
     (let aa = OPENSSL_tolower (sint a); bb = OPENSSL_tolower (sint b)
      in if aa < bb then Some (- 1)
         else if aa > bb then Some 1
         else if aa = 0 then Some 0
         else OPENSSL_strncasecmp as bs n)"
| "OPENSSL_strncasecmp _ _ (Suc n) = None"

section \<open>Lemmas\<close>

text \<open>What every \<^verbatim>\<open>malloc\<close> promises: no object of \<open>PTRDIFF_MAX\<close> bytes or more.\<close>

definition malloc_bounded :: "sys_malloc \<Rightarrow> bool" where
  "malloc_bounded sys \<longleftrightarrow> (\<forall>n. sys n \<longrightarrow> n < 2 ^ 63)"


text \<open>Requests that leave room for the prefix get a block of the size asked for.\<close>

lemma OPENSSL_malloc_Some:
  assumes "n + 8 < SIZE_MOD"
  shows "OPENSSL_malloc sys n = (if sys (n + 8) then Some (replicate n None) else None)"
  using assms by (simp add: OPENSSL_malloc_def OPENSSL_MALLOC_PREFIX_def size_add_exact)

lemma OPENSSL_realloc_Some:
  assumes "n + 8 < SIZE_MOD" "OPENSSL_realloc sys orig n = Some blk"
  shows "length blk = n \<and>
    (\<forall>old. orig = Some old \<longrightarrow> take (min n (length old)) blk = take n old)"
  using assms
  by (auto simp: OPENSSL_realloc_def OPENSSL_malloc_Some Let_def overwrite_def min_def
      split: option.splits if_splits)

lemma OPENSSL_realloc_None_iff:
  assumes "n + 8 < SIZE_MOD"
  shows "OPENSSL_realloc sys orig n = None \<longleftrightarrow> \<not> sys (n + 8)"
  using assms by (auto simp: OPENSSL_realloc_def OPENSSL_malloc_Some split: option.splits)

lemma strlen_string: "0 \<notin> set s \<Longrightarrow> strlen (s @ 0 # t) = Some (length s)"
  by (induction s) auto

lemma OPENSSL_strnlen_string:
  "0 \<notin> set s \<Longrightarrow> OPENSSL_strnlen (s @ 0 # t) n = Some (min n (length s))"
  by (induction s n rule: OPENSSL_strnlen.induct) auto

lemma OPENSSL_strnlen_prefix:
  "0 \<notin> set s \<Longrightarrow> n \<le> length s \<Longrightarrow> OPENSSL_strnlen s n = Some n"
  by (induction s n rule: OPENSSL_strnlen.induct) auto

section \<open>Properties\<close>

text \<open>
  \<open>OPENSSL_malloc\<close> adds its 8-byte prefix to the request with no overflow
  check. For the last eight sizes the sum wraps: the system is asked for a few bytes, and
  when it answers the caller gets a non-NULL block that holds none of the \<open>n\<close> bytes it
  asked for.
\<close>

theorem OPENSSL_malloc_prefix_overflow:
  assumes "SIZE_MOD - 8 \<le> n" "n < SIZE_MOD"
  shows "OPENSSL_malloc sys n =
    (if sys (n - (SIZE_MOD - 8)) then Some [] else None) \<and> n - (SIZE_MOD - 8) < 8"
proof -
  have e: "n + 8 = SIZE_MOD + (n - (SIZE_MOD - 8))" and l: "n - (SIZE_MOD - 8) < 8"
    using assms by (simp_all add: SIZE_MOD_def)
  have "(n + 8) mod SIZE_MOD = n - (SIZE_MOD - 8)"
    unfolding e mod_add_self1 using l by (intro mod_less) (simp add: SIZE_MOD_def)
  then show ?thesis
    using l by (simp add: OPENSSL_malloc_def OPENSSL_MALLOC_PREFIX_def size_add_def Let_def)
qed

theorem OPENSSL_malloc_prefix_overflow_witness:
  "OPENSSL_malloc (\<lambda>n. n \<le> 64) (SIZE_MOD - 1) = Some []"
  using OPENSSL_malloc_prefix_overflow[of "SIZE_MOD - 1" "\<lambda>n. n \<le> 64"]
  by (simp add: SIZE_MOD_def)

text \<open>
  For all other sizes \<open>OPENSSL_realloc\<close> returns, when the system has the
  memory, a block of the new size that begins with the old contents, as far as both go.
\<close>

theorem OPENSSL_realloc_keeps_contents:
  assumes "n + 8 < SIZE_MOD" "sys (n + 8)"
  shows "\<exists>blk. OPENSSL_realloc sys (Some old) n = Some blk \<and> length blk = n \<and>
    take (min n (length old)) blk = take (min n (length old)) old"
proof -
  obtain blk where "OPENSSL_realloc sys (Some old) n = Some blk"
    using OPENSSL_realloc_None_iff[OF assms(1), of sys "Some old"] assms(2) by auto
  moreover have "take (min n (length old)) old = take n old" by (simp add: min_def)
  ultimately show ?thesis using OPENSSL_realloc_Some[OF assms(1)] by metis
qed

theorem OPENSSL_realloc_keeps_contents_witness:
  "\<exists>blk. OPENSSL_realloc (\<lambda>_. True) (Some [Some 7, None]) 3 = Some blk \<and> length blk = 3 \<and>
    take 2 blk = [Some 7, None]"
proof -
  have "(3 :: nat) + 8 < SIZE_MOD" by (simp add: SIZE_MOD_def)
  then show ?thesis
    using OPENSSL_realloc_keeps_contents[of 3 "\<lambda>_. True" "[Some 7, None]"]
    by (simp add: numeral_2_eq_2)
qed

end
