(* ===== verification/Base64.thy ===== *)
theory Base64
  imports Constant_Time
begin

text \<open>
  \<^verbatim>\<open>crypto/base64/base64.c\<close>: the constant-time character conversions, the one-shot
  encoder and decoder and the streaming interface over \<open>EVP_ENCODE_CTX\<close>. A buffer the
  caller supplies for output is the list of the bytes stored from its start; the NUL the
  encoder puts after its output is part of that list. \<open>int\<close> results are \<open>int\<close>, sizes
  are \<open>nat\<close> with the wrap-around tests of the code written out.
\<close>

section \<open>Characters\<close>

definition constant_time_lt_args_8 :: "u8 \<Rightarrow> u8 \<Rightarrow> u8" where
  "constant_time_lt_args_8 a b =
     (let aw = (ucast a :: u64); bw = (ucast b :: u64)
      in ucast (constant_time_msb_w (aw - bw)))"

definition constant_time_in_range_8 :: "u8 \<Rightarrow> u8 \<Rightarrow> u8 \<Rightarrow> u8" where
  "constant_time_in_range_8 a lo hi =
     (let a = a - lo in constant_time_lt_args_8 a (hi - lo + 1))"

text \<open>\<open>'+'\<close> is 43, \<open>'/'\<close> 47, \<open>'0'\<close> 48, \<open>'A'\<close> 65, \<open>'a'\<close> 97, \<open>'='\<close> 61.\<close>

definition conv_bin2ascii :: "u8 \<Rightarrow> u8" where
  "conv_bin2ascii a0 =
     (let a = a0 AND 0x3f;
          ret = constant_time_select_8 (constant_time_eq_8 (ucast a) 62) 43 47;
          ret = constant_time_select_8 (constant_time_lt_args_8 a 62) (a - 52 + 48) ret;
          ret = constant_time_select_8 (constant_time_lt_args_8 a 52) (a - 26 + 97) ret;
          ret = constant_time_select_8 (constant_time_lt_args_8 a 26) (a + 65) ret
      in ret)"

definition base64_ascii_to_bin :: "u8 \<Rightarrow> u8" where
  "base64_ascii_to_bin a =
     (let is_upper = constant_time_in_range_8 a 65 90;
          is_lower = constant_time_in_range_8 a 97 122;
          is_digit = constant_time_in_range_8 a 48 57;
          is_plus = constant_time_eq_8 (ucast a) 43;
          is_slash = constant_time_eq_8 (ucast a) 47;
          is_equals = constant_time_eq_8 (ucast a) 61;
          ret = 0xff;
          ret = constant_time_select_8 is_upper (a - 65) ret;
          ret = constant_time_select_8 is_lower (a - 97 + 26) ret;
          ret = constant_time_select_8 is_digit (a - 48 + 52) ret;
          ret = constant_time_select_8 is_plus 62 ret;
          ret = constant_time_select_8 is_slash 63 ret;
          ret = constant_time_select_8 is_equals 0 ret
      in ret)"

section \<open>Encoding\<close>

record EVP_ENCODE_CTX =
  ctx_data_used :: nat
  ctx_data :: "u8 list"
  ctx_eof_seen :: bool
  ctx_error_encountered :: bool

definition EVP_EncodedLength :: "nat \<Rightarrow> nat option" where
  "EVP_EncodedLength len =
     (if size_add len 2 < len then None
      else let len = size_add len 2 div 3
        in if size_mul len 4 div 4 \<noteq> len then None
        else let len = size_mul len 4
          in if size_add len 1 < len then None else Some (size_add len 1))"

text \<open>
  The four characters of a full group, and of the last one or two bytes. The count is unbounded here: the
  output, of which it is the length, is an object and so fits in \<^verbatim>\<open>size_t\<close>.
\<close>

fun EVP_EncodeBlock_loop :: "u8 list \<Rightarrow> u8 list \<times> nat" where
  "EVP_EncodeBlock_loop [] = ([], 0)"
| "EVP_EncodeBlock_loop (s0 # s1 # s2 # src) =
     (let l = push_bit 16 (ucast s0 :: u32) OR push_bit 8 (ucast s1) OR ucast s2;
          (dst, ret) = EVP_EncodeBlock_loop src
      in (conv_bin2ascii (ucast (drop_bit 18 l)) # conv_bin2ascii (ucast (drop_bit 12 l)) #
          conv_bin2ascii (ucast (drop_bit 6 l)) # conv_bin2ascii (ucast l) # dst, ret + 4))"
| "EVP_EncodeBlock_loop [s0, s1] =
     (let l = push_bit 16 (ucast s0 :: u32) OR push_bit 8 (ucast s1)
      in ([conv_bin2ascii (ucast (drop_bit 18 l)), conv_bin2ascii (ucast (drop_bit 12 l)),
           conv_bin2ascii (ucast (drop_bit 6 l)), 61], 4))"
| "EVP_EncodeBlock_loop [s0] =
     (let l = push_bit 16 (ucast s0 :: u32)
      in ([conv_bin2ascii (ucast (drop_bit 18 l)), conv_bin2ascii (ucast (drop_bit 12 l)),
           61, 61], 4))"

definition EVP_EncodeBlock :: "u8 list \<Rightarrow> u8 list \<times> nat" where
  "EVP_EncodeBlock src = (let (dst, ret) = EVP_EncodeBlock_loop src in (dst @ [0], ret))"

definition EVP_EncodeInit :: EVP_ENCODE_CTX where
  "EVP_EncodeInit = \<lparr>ctx_data_used = 0, ctx_data = replicate 48 0,
     ctx_eof_seen = False, ctx_error_encountered = False\<rparr>"

text \<open>
  One encoded line: \<^verbatim>\<open>EVP_EncodeBlock(out, ...); out += encoded; *(out++) = '\n'; *out = 0\<close>,
  with \<open>pos\<close> the position of \<open>out\<close>.
\<close>

definition emit_line :: "u8 list \<Rightarrow> nat \<Rightarrow> u8 list \<Rightarrow> u8 list \<times> nat \<times> nat" where
  "emit_line out pos src =
     (let (dst, encoded) = EVP_EncodeBlock src;
          out = overwrite out pos dst;
          pos = pos + encoded;
          out = overwrite out pos [10];
          pos = pos + 1;
          out = overwrite out pos [0]
      in (out, pos, encoded))"

function EVP_EncodeUpdate_loop ::
    "u8 list \<Rightarrow> nat \<Rightarrow> u8 list \<Rightarrow> nat \<Rightarrow> bool \<times> u8 list \<times> u8 list \<times> nat" where
  "EVP_EncodeUpdate_loop out pos inp tot =
     (if 48 \<le> length inp
      then let (out, pos, encoded) = emit_line out pos (take 48 inp);
               inp = drop 48 inp;
               tot' = size_add (size_add tot encoded) 1
           in if tot' < tot then (True, out, inp, tot)
              else EVP_EncodeUpdate_loop out pos inp tot'
      else (False, out, inp, tot))"
  by pat_completeness auto
termination
  by (relation "measure (\<lambda>(out, pos, inp, tot). length inp)") auto

declare EVP_EncodeUpdate_loop.simps [simp del]

definition EVP_EncodeUpdate ::
    "EVP_ENCODE_CTX \<Rightarrow> u8 list \<Rightarrow> EVP_ENCODE_CTX \<times> u8 list \<times> nat" where
  "EVP_EncodeUpdate ctx inp =
     (if length inp = 0 then (ctx, [], 0)
      else if 48 - ctx_data_used ctx > length inp
      then (ctx\<lparr>ctx_data := overwrite (ctx_data ctx) (ctx_data_used ctx) inp,
                ctx_data_used := ctx_data_used ctx + length inp\<rparr>, [], 0)
      else
        let (ctx, inp, out, pos, tot) =
          (if ctx_data_used ctx \<noteq> 0
           then let todo = 48 - ctx_data_used ctx;
                    ctx = ctx\<lparr>ctx_data :=
                      overwrite (ctx_data ctx) (ctx_data_used ctx) (take todo inp)\<rparr>;
                    inp = drop todo inp;
                    (out, pos, encoded) = emit_line [] 0 (ctx_data ctx)
                in (ctx\<lparr>ctx_data_used := 0\<rparr>, inp, out, pos, encoded + 1)
           else (ctx, inp, [], 0, 0));
            (overflowed, out, inp, tot) = EVP_EncodeUpdate_loop out pos inp tot
        in if overflowed then (ctx, out, 0)
           else let ctx = (if length inp \<noteq> 0
                           then ctx\<lparr>ctx_data := overwrite (ctx_data ctx) 0 inp\<rparr> else ctx);
                    ctx = ctx\<lparr>ctx_data_used := length inp\<rparr>;
                    tot = (if tot > INT_MAX then 0 else tot)
                in (ctx, out, tot))"

definition EVP_EncodeFinal :: "EVP_ENCODE_CTX \<Rightarrow> EVP_ENCODE_CTX \<times> u8 list \<times> nat" where
  "EVP_EncodeFinal ctx =
     (if ctx_data_used ctx = 0 then (ctx, [], 0)
      else let (out, encoded) = EVP_EncodeBlock (take (ctx_data_used ctx) (ctx_data ctx));
               out = overwrite out encoded [10];
               encoded = encoded + 1;
               out = overwrite out encoded [0]
           in (ctx\<lparr>ctx_data_used := 0\<rparr>, out, encoded))"

section \<open>Decoding\<close>

definition EVP_DecodedLength :: "nat \<Rightarrow> nat option" where
  "EVP_DecodedLength len = (if len mod 4 \<noteq> 0 then None else Some (len div 4 * 3))"

definition EVP_DecodeInit :: EVP_ENCODE_CTX where
  "EVP_DecodeInit = \<lparr>ctx_data_used = 0, ctx_data = replicate 48 0,
     ctx_eof_seen = False, ctx_error_encountered = False\<rparr>"

text \<open>The decoder of one quad: \<open>None\<close> is the return value 0, \<open>Some bs\<close> the bytes stored.\<close>

definition base64_decode_quad :: "u8 list \<Rightarrow> u8 list option" where
  "base64_decode_quad inp =
     (let a = base64_ascii_to_bin (inp ! 0);
          b = base64_ascii_to_bin (inp ! 1);
          c = base64_ascii_to_bin (inp ! 2);
          d = base64_ascii_to_bin (inp ! 3)
      in if a = 0xff \<or> b = 0xff \<or> c = 0xff \<or> d = 0xff then None
      else
        let v = (push_bit 18 (ucast a :: u32) OR push_bit 12 (ucast b) OR
                 push_bit 6 (ucast c) OR ucast d);
            padding_pattern = (push_bit 3 (of_bool (inp ! 0 = 61) :: u32) OR
                 push_bit 2 (of_bool (inp ! 1 = 61)) OR
                 push_bit 1 (of_bool (inp ! 2 = 61)) OR of_bool (inp ! 3 = 61))
        in if padding_pattern = 0 then
             Some [ucast (drop_bit 16 v), ucast (drop_bit 8 v), ucast v]
           else if padding_pattern = 1 then Some [ucast (drop_bit 16 v), ucast (drop_bit 8 v)]
           else if padding_pattern = 3 then Some [ucast (drop_bit 16 v)]
           else None)"

definition is_b64_space :: "u8 \<Rightarrow> bool" where
  "is_b64_space c \<longleftrightarrow> c = 32 \<or> c = 9 \<or> c = 13 \<or> c = 10"

text \<open>The loop of \<open>EVP_DecodeUpdate\<close>; the flag is true when the input was used up.\<close>

fun EVP_DecodeUpdate_loop ::
    "EVP_ENCODE_CTX \<Rightarrow> u8 list \<Rightarrow> u8 list \<Rightarrow> bool \<times> EVP_ENCODE_CTX \<times> u8 list" where
  "EVP_DecodeUpdate_loop ctx out [] = (True, ctx, out)"
| "EVP_DecodeUpdate_loop ctx out (c # inp) =
     (if is_b64_space c then EVP_DecodeUpdate_loop ctx out inp
      else if ctx_eof_seen ctx then (False, ctx\<lparr>ctx_error_encountered := True\<rparr>, out)
      else
        let ctx = ctx\<lparr>ctx_data := (ctx_data ctx)[ctx_data_used ctx := c],
                      ctx_data_used := ctx_data_used ctx + 1\<rparr>
        in if ctx_data_used ctx = 4
           then (case base64_decode_quad (take 4 (ctx_data ctx)) of
                   None \<Rightarrow> (False, ctx\<lparr>ctx_error_encountered := True\<rparr>, out)
                 | Some bs \<Rightarrow>
                     let ctx = ctx\<lparr>ctx_data_used := 0\<rparr>;
                         ctx = (if length bs < 3 then ctx\<lparr>ctx_eof_seen := True\<rparr> else ctx)
                     in EVP_DecodeUpdate_loop ctx (out @ bs) inp)
           else EVP_DecodeUpdate_loop ctx out inp)"

definition EVP_DecodeUpdate ::
    "EVP_ENCODE_CTX \<Rightarrow> u8 list \<Rightarrow> EVP_ENCODE_CTX \<times> u8 list \<times> nat \<times> int" where
  "EVP_DecodeUpdate ctx inp =
     (if ctx_error_encountered ctx then (ctx, [], 0, - 1)
      else let (ok, ctx, out) = EVP_DecodeUpdate_loop ctx [] inp
        in if \<not> ok then (ctx, out, 0, - 1)
        else if length out > INT_MAX
        then (ctx\<lparr>ctx_error_encountered := True\<rparr>, out, 0, - 1)
        else (ctx, out, length out, if ctx_eof_seen ctx then 0 else 1))"

definition EVP_DecodeFinal :: "EVP_ENCODE_CTX \<Rightarrow> nat \<times> int" where
  "EVP_DecodeFinal ctx =
     (0, if ctx_error_encountered ctx \<or> ctx_data_used ctx \<noteq> 0 then - 1 else 1)"

text \<open>The results are the return value, \<open>*out_len\<close> and the bytes stored at \<open>out\<close>.\<close>

function EVP_DecodeBase64_loop :: "u8 list \<Rightarrow> u8 list \<Rightarrow> bool \<times> u8 list" where
  "EVP_DecodeBase64_loop out inp =
     (if inp = [] then (True, out)
      else case base64_decode_quad (take 4 inp) of
          None \<Rightarrow> (False, out)
        | Some bs \<Rightarrow>
            if length bs \<noteq> 3 \<and> length inp \<noteq> 4 then (False, out @ bs)
            else EVP_DecodeBase64_loop (out @ bs) (drop 4 inp))"
  by pat_completeness auto
termination
  by (relation "measure (\<lambda>(out, inp). length inp)") auto

declare EVP_DecodeBase64_loop.simps [simp del]

definition EVP_DecodeBase64 :: "nat \<Rightarrow> u8 list \<Rightarrow> bool \<times> nat \<times> u8 list" where
  "EVP_DecodeBase64 max_out inp =
     (if length inp mod 4 \<noteq> 0 then (False, 0, [])
      else case EVP_DecodedLength (length inp) of
          None \<Rightarrow> (False, 0, [])
        | Some max_len \<Rightarrow>
            if max_out < max_len then (False, 0, [])
            else let (ok, out) = EVP_DecodeBase64_loop [] inp
                 in if ok then (True, length out, out) else (False, 0, out))"

function pad_to_3 :: "u8 list \<Rightarrow> u8 list" where
  "pad_to_3 dst = (if length dst mod 3 \<noteq> 0 then pad_to_3 (dst @ [0]) else dst)"
  by pat_completeness auto
termination
proof (relation "measure (\<lambda>dst. (3 - length dst mod 3) mod 3)")
  fix dst :: "u8 list"
  assume "length dst mod 3 \<noteq> 0"
  then have "length dst mod 3 = 1 \<or> length dst mod 3 = 2" by linarith
  then show "(dst @ [0], dst) \<in> measure (\<lambda>dst. (3 - length dst mod 3) mod 3)"
    by (auto simp: mod_Suc)
qed simp

declare pad_to_3.simps [simp del]

definition EVP_DecodeBlock :: "u8 list \<Rightarrow> u8 list \<times> int" where
  "EVP_DecodeBlock src0 =
     (let src = dropWhile (\<lambda>c. c = 32 \<or> c = 9) src0;
          src = rev (dropWhile is_b64_space (rev src))
      in case EVP_DecodedLength (length src) of
          None \<Rightarrow> ([], - 1)
        | Some dst_len \<Rightarrow>
            if dst_len > INT_MAX then ([], - 1)
            else let (ok, out_len, dst) = EVP_DecodeBase64 dst_len src
                 in if \<not> ok then (dst, - 1)
                    else let dst = pad_to_3 dst in (dst, int (length dst)))"

section \<open>The character conversions are the base64 alphabet\<close>

definition b64_alphabet :: "u8 list" where
  "b64_alphabet = map of_nat ([65..<91] @ [97..<123] @ [48..<58] @ [43, 47])"

lemma constant_time_lt_args_8_eq [ct]:
  "constant_time_lt_args_8 a b = (if a < b then 255 else 0)"
proof -
  have u: "unat (ucast a :: u64) = unat a" "unat (ucast b :: u64) = unat b"
    using unat_u8_lt[of a] unat_u8_lt[of b]
    by (simp_all add: unsigned_ucast_eq take_bit_nat_eq_self_iff)
  have "bit ((ucast a :: u64) - ucast b) 63 \<longleftrightarrow> a < b"
    using unat_u8_lt[of a] unat_u8_lt[of b]
    unfolding bit_63_iff unat_sub_if' u word_less_nat_alt by auto
  then show ?thesis
    by (simp add: constant_time_lt_args_8_def Let_def msb_w_bit)
qed

lemma constant_time_in_range_8_eq [ct]:
  assumes "lo \<le> hi" "unat hi - unat lo < 255"
  shows "constant_time_in_range_8 a lo hi = (if lo \<le> a \<and> a \<le> hi then 255 else 0)"
proof -
  have "unat (hi - lo + 1) = unat hi - unat lo + 1"
    using assms by (simp add: unat_sub unat_word_ariths word_le_nat_alt)
  moreover have "unat (a - lo) =
      (if unat lo \<le> unat a then unat a - unat lo else unat a + 256 - unat lo)"
    by (simp add: unat_sub_if')
  ultimately have "a - lo < hi - lo + 1 \<longleftrightarrow> lo \<le> a \<and> a \<le> hi"
    using assms unat_u8_lt[of hi] unat_u8_lt[of a]
    unfolding word_less_nat_alt word_le_nat_alt by auto
  then show ?thesis by (simp add: constant_time_in_range_8_def Let_def ct)
qed

lemma and_63_lt_64: "unat ((a :: u8) AND 63) < 64"
proof -
  have "a AND 63 \<le> 63" by (rule word_and_le1)
  then show ?thesis by (simp add: word_le_nat_alt)
qed

lemma conv_bin2ascii_and_63: "conv_bin2ascii (a AND 63) = conv_bin2ascii a"
  by (simp add: conv_bin2ascii_def and.assoc)

lemma conv_bin2ascii_table:
  "\<forall>n \<in> set [0..<64]. conv_bin2ascii (of_nat n) = b64_alphabet ! n"
  by code_simp

lemma conv_bin2ascii_eq: "conv_bin2ascii a = b64_alphabet ! unat (a AND 63)"
proof -
  have "conv_bin2ascii (of_nat (unat (a AND 63))) = b64_alphabet ! unat (a AND 63)"
    using and_63_lt_64[of a] by (intro conv_bin2ascii_table[rule_format]) simp
  then show ?thesis by (simp add: conv_bin2ascii_and_63)
qed

lemma ascii_to_bin_closed:
  "base64_ascii_to_bin a =
     (if a = 61 then 0 else if a = 47 then 63 else if a = 43 then 62
      else if 48 \<le> a \<and> a \<le> 57 then a + 4
      else if 97 \<le> a \<and> a \<le> 122 then a - 71
      else if 65 \<le> a \<and> a \<le> 90 then a - 65 else 255)"
proof -
  have u: "(ucast a :: u64) = 43 \<longleftrightarrow> a = 43" "(ucast a :: u64) = 47 \<longleftrightarrow> a = 47"
    "(ucast a :: u64) = 61 \<longleftrightarrow> a = 61"
    by (simp_all add: word_unat_eq_iff unat_ucast_u8_u64)
  show ?thesis
    by (simp add: base64_ascii_to_bin_def Let_def ct u)
qed

lemma conv_bin2ascii_closed:
  assumes "x = a AND 63"
  shows "conv_bin2ascii a =
    (if x < 26 then x + 65 else if x < 52 then x + 71 else if x < 62 then x - 4
     else if x = 62 then 43 else 47)"
proof -
  have u: "(ucast x :: u64) = 62 \<longleftrightarrow> x = 62"
    by (simp add: word_unat_eq_iff unat_ucast_u8_u64)
  show ?thesis
    by (simp add: conv_bin2ascii_def Let_def ct u flip: assms)
qed

lemmas u8_nat = word_less_nat_alt word_le_nat_alt word_unat_eq_iff unat_word_ariths unat_sub_if'

lemma conv_props:
  "base64_ascii_to_bin (conv_bin2ascii a) = a AND 63"
  "conv_bin2ascii a \<noteq> 61" "\<not> is_b64_space (conv_bin2ascii a)"
proof -
  obtain x where x: "x = a AND 63" by simp
  then have x64: "unat x < 64" using and_63_lt_64[of a] by simp
  have b: "conv_bin2ascii a = (if x < 26 then x + 65 else if x < 52 then x + 71
     else if x < 62 then x - 4 else if x = 62 then 43 else 47)"
    by (rule conv_bin2ascii_closed) (rule x)
  consider "unat x < 26" | "26 \<le> unat x" "unat x < 52" | "52 \<le> unat x" "unat x < 62"
    | "unat x = 62" | "unat x = 63"
    using x64 by linarith
  then have "base64_ascii_to_bin (conv_bin2ascii a) = x \<and>
      conv_bin2ascii a \<noteq> 61 \<and> \<not> is_b64_space (conv_bin2ascii a)"
    by cases (auto simp: b ascii_to_bin_closed is_b64_space_def u8_nat)
  then show "base64_ascii_to_bin (conv_bin2ascii a) = a AND 63"
    "conv_bin2ascii a \<noteq> 61" "\<not> is_b64_space (conv_bin2ascii a)"
    by (simp_all add: x)
qed

section \<open>Quads\<close>

lemma and_63_take_bit: "(a :: u8) AND 63 = take_bit 6 a"
  by (simp add: take_bit_eq_mask mask_numeral)

lemma take_bit_6_ne_255: "take_bit 6 (a :: u8) \<noteq> 255"
  using and_63_lt_64[of a] by (auto simp: word_unat_eq_iff and_63_take_bit)

lemma decode_quad_full:
  fixes s0 s1 s2 :: u8
  defines "l \<equiv> push_bit 16 (ucast s0 :: u32) OR push_bit 8 (ucast s1) OR ucast s2"
  shows "base64_decode_quad [conv_bin2ascii (ucast (drop_bit 18 l)),
      conv_bin2ascii (ucast (drop_bit 12 l)), conv_bin2ascii (ucast (drop_bit 6 l)),
      conv_bin2ascii (ucast l)] = Some [s0, s1, s2]"
proof -
  let ?v = "push_bit 18 (ucast (take_bit 6 (ucast (drop_bit 18 l) :: u8)) :: u32) OR
     push_bit 12 (ucast (take_bit 6 (ucast (drop_bit 12 l) :: u8))) OR
     push_bit 6 (ucast (take_bit 6 (ucast (drop_bit 6 l) :: u8))) OR
     ucast (take_bit 6 (ucast l :: u8))"
  have "ucast (drop_bit 16 ?v) = s0" "ucast (drop_bit 8 ?v) = s1" "ucast ?v = s2"
    by (rule bit_word_eqI, drule lt_8_cases, elim disjE; simp add: l_def bit_simps bit_u8_high)+
  then show ?thesis
    by (simp add: base64_decode_quad_def Let_def conv_props take_bit_6_ne_255 and_63_take_bit)
qed

lemma decode_quad_two:
  fixes s0 s1 :: u8
  defines "l \<equiv> push_bit 16 (ucast s0 :: u32) OR push_bit 8 (ucast s1)"
  shows "base64_decode_quad [conv_bin2ascii (ucast (drop_bit 18 l)),
      conv_bin2ascii (ucast (drop_bit 12 l)), conv_bin2ascii (ucast (drop_bit 6 l)), 61]
    = Some [s0, s1]"
proof -
  let ?v = "push_bit 18 (ucast (take_bit 6 (ucast (drop_bit 18 l) :: u8)) :: u32) OR
     push_bit 12 (ucast (take_bit 6 (ucast (drop_bit 12 l) :: u8))) OR
     push_bit 6 (ucast (take_bit 6 (ucast (drop_bit 6 l) :: u8)))"
  have "ucast (drop_bit 16 ?v) = s0" "ucast (drop_bit 8 ?v) = s1"
    by (rule bit_word_eqI, drule lt_8_cases, elim disjE;
        simp add: l_def bit_simps bit_u8_high)+
  then show ?thesis
    by (simp add: base64_decode_quad_def Let_def conv_props take_bit_6_ne_255 and_63_take_bit
        ascii_to_bin_closed[of 61])
qed

lemma decode_quad_one:
  fixes s0 :: u8
  defines "l \<equiv> push_bit 16 (ucast s0 :: u32)"
  shows "base64_decode_quad [conv_bin2ascii (ucast (drop_bit 18 l)),
      conv_bin2ascii (ucast (drop_bit 12 l)), 61, 61] = Some [s0]"
proof -
  let ?v = "push_bit 18 (ucast (take_bit 6 (ucast (drop_bit 18 l) :: u8)) :: u32) OR
     push_bit 12 (ucast (take_bit 6 (ucast (drop_bit 12 l) :: u8)))"
  have "ucast (drop_bit 16 ?v) = s0"
    by (rule bit_word_eqI, drule lt_8_cases, elim disjE;
        simp add: l_def bit_simps bit_u8_high)
  then show ?thesis
    by (simp add: base64_decode_quad_def Let_def conv_props take_bit_6_ne_255 and_63_take_bit
        ascii_to_bin_closed[of 61])
qed

lemma and_63_id: "unat (b :: u8) < 64 \<Longrightarrow> b AND 63 = b"
  by (rule word_unat_eq_iff[THEN iffD2])
     (simp add: and_63_take_bit unsigned_take_bit_eq take_bit_nat_eq_self_iff)

lemma conv_bin2ascii_nat:
  assumes "unat b < 64"
  shows "conv_bin2ascii b = (if unat b < 26 then b + 65 else if unat b < 52 then b + 71
    else if unat b < 62 then b - 4 else if unat b = 62 then 43 else 47)"
  using conv_bin2ascii_closed[OF and_63_id[OF assms, symmetric]]
  by (simp add: word_less_nat_alt word_unat_eq_iff)

lemma ascii_to_bin_inverse:
  assumes "base64_ascii_to_bin c \<noteq> 255" "c \<noteq> 61"
  shows "conv_bin2ascii (base64_ascii_to_bin c) = c \<and> unat (base64_ascii_to_bin c) < 64"
proof -
  let ?b = "base64_ascii_to_bin c"
  consider "c = 47" | "c = 43" | "48 \<le> unat c" "unat c \<le> 57"
    | "97 \<le> unat c" "unat c \<le> 122" | "65 \<le> unat c" "unat c \<le> 90"
    using assms by (auto simp: ascii_to_bin_closed word_le_nat_alt split: if_splits)
  then show ?thesis
  proof cases
    case 3
    then have "?b = c + 4" "unat (c + 4) = unat c + 4"
      by (auto simp: ascii_to_bin_closed u8_nat)
    with 3 show ?thesis by (simp add: conv_bin2ascii_nat)
  next
    case 4
    then have "?b = c - 71" "unat (c - 71) = unat c - 71"
      by (auto simp: ascii_to_bin_closed u8_nat)
    with 4 show ?thesis by (auto simp: conv_bin2ascii_nat)
  next
    case 5
    then have "?b = c - 65" "unat (c - 65) = unat c - 65"
      by (auto simp: ascii_to_bin_closed u8_nat)
    with 5 show ?thesis by (simp add: conv_bin2ascii_nat)
  qed (simp_all add: ascii_to_bin_closed conv_bin2ascii_nat)
qed

section \<open>One-shot encoding and decoding\<close>

text \<open>The characters of a byte string, without the NUL.\<close>

definition b64_chars :: "u8 list \<Rightarrow> u8 list" where
  "b64_chars src = fst (EVP_EncodeBlock_loop src)"

lemma encode_loop_ret: "snd (EVP_EncodeBlock_loop src) = length (b64_chars src)"
  unfolding b64_chars_def
  by (induction src rule: EVP_EncodeBlock_loop.induct)
     (simp_all add: Let_def case_prod_beta)

lemma EVP_EncodeBlock_eq: "EVP_EncodeBlock src = (b64_chars src @ [0], length (b64_chars src))"
  by (simp add: EVP_EncodeBlock_def b64_chars_def encode_loop_ret[unfolded b64_chars_def]
      case_prod_beta)

lemma div_5_plus: "(5 + n) div 3 = Suc (Suc (Suc n) div 3)" for n :: nat
  by presburger

lemma length_b64_chars: "length (b64_chars src) = 4 * ((length src + 2) div 3)"
  unfolding b64_chars_def
  by (induction src rule: EVP_EncodeBlock_loop.induct)
     (auto simp: Let_def case_prod_beta div_5_plus)

lemma b64_chars_Nil [simp]: "b64_chars [] = []"
  by (simp add: b64_chars_def)

lemma b64_chars_no_space: "c \<in> set (b64_chars src) \<Longrightarrow> \<not> is_b64_space c"
  unfolding b64_chars_def
  by (induction src rule: EVP_EncodeBlock_loop.induct)
     (auto simp: Let_def conv_props is_b64_space_def[of 61] case_prod_beta)

lemma b64_chars_Cons3:
  "b64_chars (s0 # s1 # s2 # src) = b64_chars [s0, s1, s2] @ b64_chars src"
  by (simp add: b64_chars_def Let_def case_prod_beta)

lemma decode_quad_chars:
  "src = [s0] \<or> src = [s0, s1] \<or> src = [s0, s1, s2] \<Longrightarrow>
   base64_decode_quad (b64_chars src) = Some src"
  using decode_quad_one[of s0] decode_quad_two[of s0 s1] decode_quad_full[of s0 s1 s2]
  by (auto simp: b64_chars_def Let_def)

lemma DecodeBase64_loop_Nil [simp]: "EVP_DecodeBase64_loop out [] = (True, out)"
  by (simp add: EVP_DecodeBase64_loop.simps)

lemma DecodeBase64_loop_quad:
  assumes "length q = 4" "base64_decode_quad q = Some bs" "length bs = 3 \<or> inp = []"
  shows "EVP_DecodeBase64_loop out (q @ inp) = EVP_DecodeBase64_loop (out @ bs) inp"
proof -
  have "q \<noteq> []" using assms(1) by auto
  with assms show ?thesis
    by (subst EVP_DecodeBase64_loop.simps) auto
qed

lemma DecodeBase64_loop_chars:
  "EVP_DecodeBase64_loop out (b64_chars src) = (True, out @ src)"
proof (induction src arbitrary: out rule: EVP_EncodeBlock_loop.induct)
  case (2 s0 s1 s2 src)
  then show ?case
    using DecodeBase64_loop_quad[of "b64_chars [s0, s1, s2]" "[s0, s1, s2]" "b64_chars src" out]
      decode_quad_chars[of "[s0, s1, s2]" s0 s1 s2]
    by (simp add: b64_chars_Cons3[of s0 s1 s2 src] length_b64_chars)
next
  case (3 s0 s1)
  then show ?case
    using DecodeBase64_loop_quad[of "b64_chars [s0, s1]" "[s0, s1]" "[]" out]
      decode_quad_chars[of "[s0, s1]" s0 s1]
    by (simp add: length_b64_chars)
next
  case (4 s0)
  then show ?case
    using DecodeBase64_loop_quad[of "b64_chars [s0]" "[s0]" "[]" out]
      decode_quad_chars[of "[s0]" s0]
    by (simp add: length_b64_chars)
qed simp

section \<open>Streaming encoding\<close>

text \<open>The reference: every 48 bytes are a line of 64 characters and a newline.\<close>

function b64_lines :: "u8 list \<Rightarrow> u8 list" where
  "b64_lines bs = (if bs = [] then [] else b64_chars (take 48 bs) @ [10] @ b64_lines (drop 48 bs))"
  by pat_completeness auto
termination
  by (relation "measure length") auto

declare b64_lines.simps [simp del]

lemma b64_lines_Nil [simp]: "b64_lines [] = []"
  by (simp add: b64_lines.simps)

lemma b64_lines_append:
  "length xs = 48 * k \<Longrightarrow> b64_lines (xs @ ys) = b64_lines xs @ b64_lines ys"
proof (induction k arbitrary: xs)
  case (Suc k)
  then have "length (drop 48 xs) = 48 * k" "xs \<noteq> []" "48 \<le> length xs" by auto
  with Suc.IH[of "drop 48 xs"] show ?case
    by (simp add: b64_lines.simps[of xs] b64_lines.simps[of "xs @ ys"])
qed simp

lemma b64_lines_one:
  assumes "length l = 48"
  shows "b64_lines (l @ ys) = b64_chars l @ [10] @ b64_lines ys"
proof -
  have "l @ ys \<noteq> []" using assms by auto
  with assms show ?thesis by (subst b64_lines.simps) simp
qed

lemma emit_line_eq:
  assumes "take pos out = c" "length c = pos" "length out \<le> Suc pos"
  shows "emit_line out pos src =
    (c @ b64_chars src @ [10, 0], pos + length (b64_chars src) + 1, length (b64_chars src))"
  using assms by (simp add: emit_line_def EVP_EncodeBlock_eq overwrite_def)

lemma EncodeUpdate_loop_eq:
  assumes "take pos out = c" "length c = pos" "length out \<le> Suc pos"
    and "length inp = 48 * k + r" "r < 48" "pos + 65 * k < SIZE_MOD"
  shows "\<exists>out'. EVP_EncodeUpdate_loop out pos inp pos = (False, out', drop (48 * k) inp, pos + 65 * k)
    \<and> take (pos + 65 * k) out' = c @ b64_lines (take (48 * k) inp)"
  using assms
proof (induction k arbitrary: out pos c inp)
  case 0
  then show ?case by (simp add: EVP_EncodeUpdate_loop.simps)
next
  case (Suc k)
  let ?L = "b64_chars (take 48 inp)" and ?inp = "drop 48 inp"
  have L: "length ?L = 64" using Suc.prems(4) by (simp add: length_b64_chars)
  have sz: "size_add (size_add pos 64) 1 = pos + 65"
    using Suc.prems(6) by (simp add: size_add_exact)
  have "EVP_EncodeUpdate_loop out pos inp pos =
      EVP_EncodeUpdate_loop (c @ ?L @ [10, 0]) (pos + 65) ?inp (pos + 65)"
    using Suc.prems(4) emit_line_eq[OF Suc.prems(1-3), of "take 48 inp"] L sz
    by (subst EVP_EncodeUpdate_loop.simps) (simp add: Let_def add.commute)
  moreover obtain out' where
    "EVP_EncodeUpdate_loop (c @ ?L @ [10, 0]) (pos + 65) ?inp (pos + 65) =
      (False, out', drop (48 * k) ?inp, pos + 65 + 65 * k)"
    "take (pos + 65 + 65 * k) out' = (c @ ?L @ [10]) @ b64_lines (take (48 * k) ?inp)"
    using Suc.IH[of "pos + 65" "c @ ?L @ [10, 0]" "c @ ?L @ [10]" ?inp] Suc.prems L by auto
  moreover have "b64_lines (take (48 * Suc k) inp) = ?L @ [10] @ b64_lines (take (48 * k) ?inp)"
  proof -
    have "take (48 * Suc k) inp \<noteq> []" using Suc.prems(4) by auto
    then show ?thesis
      by (subst b64_lines.simps) (simp add: drop_take)
  qed
  moreover have "pos + 65 + 65 * k = pos + 65 * Suc k"
    "drop (48 * k) ?inp = drop (48 * Suc k) inp" by (simp_all add: add.commute)
  ultimately show ?case
    by (intro exI[of _ out']) (simp only: append_assoc)
qed

text \<open>
  The encoder's state: less than one line is buffered, at the start of a 48-byte array.
\<close>

definition enc_inv :: "EVP_ENCODE_CTX \<Rightarrow> bool" where
  "enc_inv ctx \<longleftrightarrow> ctx_data_used ctx < 48 \<and> length (ctx_data ctx) = 48"

definition enc_pending :: "EVP_ENCODE_CTX \<Rightarrow> u8 list" where
  "enc_pending ctx = take (ctx_data_used ctx) (ctx_data ctx)"

lemma length_enc_pending: "enc_inv ctx \<Longrightarrow> length (enc_pending ctx) = ctx_data_used ctx"
  by (simp add: enc_inv_def enc_pending_def)

lemma EncodeUpdate_short:
  assumes "enc_inv ctx" "ctx_data_used ctx + length inp < 48"
  shows "\<exists>ctx'. EVP_EncodeUpdate ctx inp = (ctx', [], 0) \<and> enc_inv ctx' \<and>
    enc_pending ctx' = enc_pending ctx @ inp"
  using assms
  by (auto simp: EVP_EncodeUpdate_def enc_inv_def enc_pending_def take_overwrite_upto)

text \<open>Once a line is complete: what has been put out, and what stays buffered.\<close>

lemma EncodeUpdate_lines:
  assumes inv: "enc_inv ctx"
    and len: "length (enc_pending ctx @ inp) = 48 * Suc k + r" "r < 48"
    and small: "65 * Suc k \<le> INT_MAX"
  shows "\<exists>ctx' out. EVP_EncodeUpdate ctx inp = (ctx', out, 65 * Suc k) \<and> enc_inv ctx' \<and>
    take (65 * Suc k) out = b64_lines (take (48 * Suc k) (enc_pending ctx @ inp)) \<and>
    enc_pending ctx' = drop (48 * Suc k) (enc_pending ctx @ inp)"
proof -
  let ?u = "ctx_data_used ctx" and ?b = "enc_pending ctx"
  have u: "?u < 48" "length (ctx_data ctx) = 48" "length ?b = ?u"
    using inv by (simp_all add: enc_inv_def length_enc_pending)
  have inp: "48 - ?u \<le> length inp" "inp \<noteq> []" using len(1) u by auto
  have sm: "65 * Suc k < SIZE_MOD" using small by (simp add: INT_MAX_def SIZE_MOD_def)
  show ?thesis
  proof (cases "?u = 0")
    case True
    then have b: "?b = []" using u by simp
    obtain out where "EVP_EncodeUpdate_loop [] 0 inp 0 =
        (False, out, drop (48 * Suc k) inp, 65 * Suc k)"
      "take (65 * Suc k) out = b64_lines (take (48 * Suc k) inp)"
      using EncodeUpdate_loop_eq[of 0 "[]" "[]" inp "Suc k" r] len sm b by auto
    moreover have "length (drop (48 * Suc k) inp) = r" using len b by simp
    ultimately show ?thesis
      using True b inp u len small
      by (auto simp: EVP_EncodeUpdate_def enc_inv_def enc_pending_def overwrite_def)
  next
    case False
    let ?todo = "48 - ?u" and ?line = "?b @ take (48 - ?u) inp"
    have L: "length ?line = 48" "length (b64_chars ?line) = 64"
      using u inp by (simp_all add: length_b64_chars)
    have data: "overwrite (ctx_data ctx) ?u (take ?todo inp) = ?line"
      using u inp by (simp add: overwrite_def enc_pending_def)
    let ?c = "b64_chars ?line @ [10]"
    have e: "emit_line [] 0 ?line = (?c @ [0], 65, 64)"
      using emit_line_eq[of 0 "[]" "[]" ?line] L by simp
    have ln: "length (drop ?todo inp) = 48 * k + r" using len u inp by auto
    obtain out where loop: "EVP_EncodeUpdate_loop (?c @ [0]) 65 (drop ?todo inp) 65 =
        (False, out, drop (48 * k) (drop ?todo inp), 65 + 65 * k)"
      and out: "take (65 + 65 * k) out = ?c @ b64_lines (take (48 * k) (drop ?todo inp))"
      using EncodeUpdate_loop_eq[OF _ _ _ ln, of 65 "?c @ [0]" ?c] len(2) L sm by auto
    have dr: "drop (48 * k) (drop ?todo inp) = drop (48 * Suc k) (?b @ inp)"
      and tk: "?line @ take (48 * k) (drop ?todo inp) = take (48 * Suc k) (?b @ inp)"
      using u inp by (simp_all add: take_add[symmetric] add.commute)
    have rest: "length (drop (48 * Suc k) (?b @ inp)) = r" using len by simp
    have "b64_lines (take (48 * Suc k) (?b @ inp)) =
        ?c @ b64_lines (take (48 * k) (drop ?todo inp))"
      unfolding tk[symmetric] b64_lines_one[OF L(1)] by simp
    moreover have "EVP_EncodeUpdate ctx inp =
      (ctx\<lparr>ctx_data := overwrite ?line 0 (drop (48 * Suc k) (?b @ inp)),
           ctx_data_used := r\<rparr>, out, 65 * Suc k)"
      using False inp u small loop
      by (simp add: EVP_EncodeUpdate_def data e Let_def dr rest[symmetric] del: drop_append drop_drop)
    ultimately show ?thesis
      using out rest len(2) L(1)
      by (auto simp: enc_inv_def enc_pending_def overwrite_def)
  qed
qed

section \<open>The alphabet and grouping of RFC 4648\<close>

definition rfc4648_digit :: "nat \<Rightarrow> nat \<Rightarrow> u8" where
  "rfc4648_digit n k = b64_alphabet ! (n div 64 ^ k mod 64)"

fun rfc4648 :: "u8 list \<Rightarrow> u8 list" where
  "rfc4648 [] = []"
| "rfc4648 (a # b # c # bs) =
     map (rfc4648_digit (be_val [a, b, c])) [3, 2, 1, 0] @ rfc4648 bs"
| "rfc4648 [a, b] = map (rfc4648_digit (be_val [a, b, 0])) [3, 2, 1] @ [61]"
| "rfc4648 [a] = map (rfc4648_digit (be_val [a, 0, 0])) [3, 2] @ [61, 61]"

lemma conv_digit:
  fixes l :: u32
  shows "conv_bin2ascii (ucast (drop_bit k l)) = b64_alphabet ! (unat l div 2 ^ k mod 64)"
proof -
  have "unat ((ucast (drop_bit k l) :: u8) AND 63) = unat l div 2 ^ k mod 64"
    by (simp only: and_63_take_bit unsigned_take_bit_eq unsigned_ucast_eq unsigned_drop_bit_eq
        take_bit_take_bit)
       (use unsigned_less[of l, where 'a=nat] in \<open>simp add: take_bit_eq_mod drop_bit_eq_div\<close>)
  then show ?thesis by (simp add: conv_bin2ascii_eq)
qed

lemma conv_digit_0: "conv_bin2ascii (ucast (l :: u32)) = b64_alphabet ! (unat l mod 64)"
  using conv_digit[of 0 l] by simp

lemma unat_group3:
  "unat (push_bit 16 (ucast a :: u32) OR push_bit 8 (ucast b) OR ucast c) = be_val [a, b, c]"
proof -
  let ?bc = "push_bit 8 (ucast (b :: u8)) OR ucast (c :: u8) :: u32"
  have bc: "unat ?bc = unat b * 256 + unat c"
    using unat_u8_lt[of b] unat_u8_lt[of c]
    by (subst unat_push_bit_or) (simp_all add: unat_ucast_u8_u32)
  have "unat (push_bit 16 (ucast a :: u32) OR ?bc) = unat a * 65536 + (unat b * 256 + unat c)"
    using unat_u8_lt[of a] unat_u8_lt[of b] unat_u8_lt[of c]
    by (subst unat_push_bit_or) (simp_all add: unat_ucast_u8_u32 bc)
  then show ?thesis by (simp add: be_val_def or.assoc)
qed

lemma unat_group2: "unat (push_bit 16 (ucast a :: u32) OR push_bit 8 (ucast b)) = be_val [a, b, 0]"
  using unat_group3[of a b 0] by simp

lemma unat_group1: "unat (push_bit 16 (ucast a :: u32)) = be_val [a, 0, 0]"
  using unat_group3[of a 0 0] by simp

lemma b64_chars_rfc4648: "b64_chars src = rfc4648 src"
  unfolding b64_chars_def
  by (induction src rule: EVP_EncodeBlock_loop.induct)
     (simp_all only: EVP_EncodeBlock_loop.simps Let_def case_prod_beta fst_conv conv_digit
        unat_group3 unat_group2 unat_group1,
      simp_all add: conv_digit_0 rfc4648_digit_def unat_group3)

section \<open>Streaming decoding\<close>

lemma DecodeUpdate_loop_append:
  "EVP_DecodeUpdate_loop ctx out (xs @ ys) =
    (case EVP_DecodeUpdate_loop ctx out xs of
       (True, ctx', out') \<Rightarrow> EVP_DecodeUpdate_loop ctx' out' ys
     | (False, ctx', out') \<Rightarrow> (False, ctx', out'))"
  by (induction ctx out xs rule: EVP_DecodeUpdate_loop.induct)
     (auto simp: Let_def split: option.splits prod.splits)

lemma DecodeUpdate_loop_filter:
  "EVP_DecodeUpdate_loop ctx out inp =
   EVP_DecodeUpdate_loop ctx out (filter (\<lambda>c. \<not> is_b64_space c) inp)"
  by (induction ctx out inp rule: EVP_DecodeUpdate_loop.induct)
     (auto simp: Let_def split: option.splits)

lemma DecodeUpdate_loop_out_append:
  "EVP_DecodeUpdate_loop ctx (prev @ out) inp =
    (case EVP_DecodeUpdate_loop ctx out inp of (ok, ctx', out') \<Rightarrow> (ok, ctx', prev @ out'))"
  by (induction ctx out inp rule: EVP_DecodeUpdate_loop.induct)
     (auto simp: Let_def split: option.splits)

lemmas DecodeUpdate_loop_out = DecodeUpdate_loop_out_append[where out = "[]", simplified]

definition dec_ready :: "EVP_ENCODE_CTX \<Rightarrow> bool" where
  "dec_ready ctx \<longleftrightarrow> ctx_data_used ctx = 0 \<and> length (ctx_data ctx) = 48 \<and>
     \<not> ctx_eof_seen ctx \<and> \<not> ctx_error_encountered ctx"

lemma DecodeUpdate_loop_quad:
  assumes "dec_ready ctx" "length q = 4" "\<forall>c \<in> set q. \<not> is_b64_space c"
    and "base64_decode_quad q = Some bs"
  shows "\<exists>ctx'. ctx_data_used ctx' = 0 \<and> length (ctx_data ctx') = 48 \<and>
    (ctx_eof_seen ctx' \<longleftrightarrow> length bs < 3) \<and> \<not> ctx_error_encountered ctx' \<and>
    EVP_DecodeUpdate_loop ctx out (q @ inp) = EVP_DecodeUpdate_loop ctx' (out @ bs) inp"
proof -
  obtain c0 c1 c2 c3 where q: "q = [c0, c1, c2, c3]"
    using assms(2) by (auto simp: length_Suc_conv numeral_eq_Suc)
  obtain d0 d1 d2 d3 d where d: "ctx_data ctx = d0 # d1 # d2 # d3 # d"
    using assms(1) by (auto simp: dec_ready_def length_Suc_conv numeral_eq_Suc)
  let ?ctx = "ctx\<lparr>ctx_data := c0 # c1 # c2 # c3 # d, ctx_data_used := 0\<rparr>"
  let ?ctx' = "if length bs < 3 then ?ctx\<lparr>ctx_eof_seen := True\<rparr> else ?ctx"
  have "EVP_DecodeUpdate_loop ctx out (q @ inp) = EVP_DecodeUpdate_loop ?ctx' (out @ bs) inp"
    using assms by (simp add: q d dec_ready_def Let_def)
  then show ?thesis
    using assms(1) d by (intro exI[of _ ?ctx']) (simp add: dec_ready_def)
qed

lemma DecodeUpdate_loop_chars:
  assumes "dec_ready ctx"
  shows "\<exists>ctx'. EVP_DecodeUpdate_loop ctx out (b64_chars src) = (True, ctx', out @ src) \<and>
    ctx_data_used ctx' = 0 \<and> \<not> ctx_error_encountered ctx'"
  using assms
proof (induction src arbitrary: ctx out rule: EVP_EncodeBlock_loop.induct)
  case 1
  then show ?case by (simp add: dec_ready_def)
next
  case (2 s0 s1 s2 src)
  obtain ctx' where "dec_ready ctx'" and
    "EVP_DecodeUpdate_loop ctx out (b64_chars [s0, s1, s2] @ b64_chars src) =
     EVP_DecodeUpdate_loop ctx' (out @ [s0, s1, s2]) (b64_chars src)"
    using DecodeUpdate_loop_quad[OF 2(2), of "b64_chars [s0, s1, s2]" "[s0, s1, s2]" out "b64_chars src"]
      decode_quad_chars[of "[s0, s1, s2]" s0 s1 s2] b64_chars_no_space[of _ "[s0, s1, s2]"]
    by (auto simp: length_b64_chars dec_ready_def)
  with 2(1)[OF refl, of ctx' "out @ [s0, s1, s2]"] show ?case
    by (auto simp: b64_chars_Cons3[of s0 s1 s2 src])
next
  case (3 s0 s1)
  show ?case
    using DecodeUpdate_loop_quad[OF 3, of "b64_chars [s0, s1]" "[s0, s1]" out "[]"]
      decode_quad_chars[of "[s0, s1]" s0 s1] b64_chars_no_space[of _ "[s0, s1]"]
    by (auto simp: length_b64_chars)
next
  case (4 s0)
  show ?case
    using DecodeUpdate_loop_quad[OF 4, of "b64_chars [s0]" "[s0]" out "[]"]
      decode_quad_chars[of "[s0]" s0] b64_chars_no_space[of _ "[s0]"]
    by (auto simp: length_b64_chars)
qed

text \<open>
  A caller of the streaming interface: it initialises the context, feeds the input in
  any pieces, keeps the \<open>*out_len\<close> bytes of each call and finishes.
\<close>

fun EVP_encode_run :: "EVP_ENCODE_CTX \<Rightarrow> u8 list list \<Rightarrow> u8 list" where
  "EVP_encode_run ctx [] = (let (ctx, out, n) = EVP_EncodeFinal ctx in take n out)"
| "EVP_encode_run ctx (c # cs) =
     (let (ctx, out, n) = EVP_EncodeUpdate ctx c in take n out @ EVP_encode_run ctx cs)"

fun EVP_decode_run :: "EVP_ENCODE_CTX \<Rightarrow> u8 list list \<Rightarrow> u8 list option" where
  "EVP_decode_run ctx [] = (if snd (EVP_DecodeFinal ctx) = 1 then Some [] else None)"
| "EVP_decode_run ctx (c # cs) =
     (let (ctx, out, n, ret) = EVP_DecodeUpdate ctx c
      in if ret = - 1 then None else map_option (\<lambda>r. take n out @ r) (EVP_decode_run ctx cs))"

lemma EncodeFinal_eq:
  assumes "enc_inv ctx"
  shows "\<exists>ctx' out. EVP_EncodeFinal ctx = (ctx', out, length (b64_lines (enc_pending ctx))) \<and>
    take (length (b64_lines (enc_pending ctx))) out = b64_lines (enc_pending ctx)"
proof (cases "ctx_data_used ctx = 0")
  case True
  then show ?thesis by (simp add: EVP_EncodeFinal_def enc_pending_def)
next
  case False
  then have "enc_pending ctx \<noteq> []" using length_enc_pending[OF assms] by auto
  moreover have "length (enc_pending ctx) \<le> 48"
    using length_enc_pending[OF assms] assms by (simp add: enc_inv_def)
  ultimately have "b64_lines (enc_pending ctx) = b64_chars (enc_pending ctx) @ [10]"
    by (subst b64_lines.simps) simp
  with False show ?thesis
    by (simp add: EVP_EncodeFinal_def EVP_EncodeBlock_eq overwrite_def enc_pending_def)
qed

lemma encode_run_pending:
  assumes "enc_inv ctx" "\<forall>c \<in> set cs. length c \<le> 2 ^ 30"
  shows "EVP_encode_run ctx cs = b64_lines (enc_pending ctx @ concat cs)"
  using assms
proof (induction cs arbitrary: ctx)
  case Nil
  then show ?case using EncodeFinal_eq[OF Nil(1)] by auto
next
  case (Cons c cs)
  let ?buf = "enc_pending ctx @ c"
  show ?case
  proof (cases "ctx_data_used ctx + length c < 48")
    case True
    then show ?thesis
      using EncodeUpdate_short[OF Cons.prems(1) True] Cons.IH Cons.prems by auto
  next
    case False
    define k where "k = length ?buf div 48 - 1"
    define r where "r = length ?buf mod 48"
    have "48 \<le> length ?buf" using False length_enc_pending[OF Cons.prems(1)] by simp
    then have len: "length ?buf = 48 * Suc k + r" "r < 48"
      by (auto simp: k_def r_def)
    moreover have "65 * Suc k \<le> INT_MAX"
      using len Cons.prems length_enc_pending[OF Cons.prems(1)]
      by (simp add: INT_MAX_def enc_inv_def)
    ultimately obtain ctx' out where
      "EVP_EncodeUpdate ctx c = (ctx', out, 65 * Suc k)" "enc_inv ctx'"
      "take (65 * Suc k) out = b64_lines (take (48 * Suc k) ?buf)"
      "enc_pending ctx' = drop (48 * Suc k) ?buf"
      using EncodeUpdate_lines[OF Cons.prems(1)] by blast
    moreover have "length (take (48 * Suc k) ?buf) = 48 * Suc k" using len by simp
    moreover have "enc_pending ctx @ concat (c # cs) =
        take (48 * Suc k) ?buf @ drop (48 * Suc k) ?buf @ concat cs"
      by (simp only: append_assoc[symmetric] append_take_drop_id) simp
    ultimately show ?thesis
      using Cons.IH[of ctx'] Cons.prems
      by (simp only: EVP_encode_run.simps Let_def prod.case b64_lines_append) simp
  qed
qed

lemma DecodeUpdate_loop_error:
  "EVP_DecodeUpdate_loop ctx out inp = (True, ctx', out') \<Longrightarrow>
   ctx_error_encountered ctx' = ctx_error_encountered ctx"
  by (induction ctx out inp rule: EVP_DecodeUpdate_loop.induct)
     (auto simp: Let_def split: if_splits option.splits)

lemma decode_run_loop:
  assumes "EVP_DecodeUpdate_loop ctx [] (concat cs) = (True, ctx', out)"
    and "ctx_data_used ctx' = 0" "\<not> ctx_error_encountered ctx'" "length out \<le> INT_MAX"
  shows "EVP_decode_run ctx cs = Some out"
  using assms
proof (induction cs arbitrary: ctx out)
  case Nil
  then show ?case by (simp add: EVP_DecodeFinal_def)
next
  case (Cons c cs)
  obtain ctx1 o1 where c: "EVP_DecodeUpdate_loop ctx [] c = (True, ctx1, o1)"
    and rest: "EVP_DecodeUpdate_loop ctx1 o1 (concat cs) = (True, ctx', out)"
    using Cons.prems(1) by (auto simp: DecodeUpdate_loop_append split: prod.splits bool.splits)
  then obtain o2 where o2: "EVP_DecodeUpdate_loop ctx1 [] (concat cs) = (True, ctx', o2)"
    and out: "out = o1 @ o2"
    by (auto simp: DecodeUpdate_loop_out[of ctx1 o1] split: prod.splits)
  have "\<not> ctx_error_encountered ctx"
    using DecodeUpdate_loop_error[OF c] DecodeUpdate_loop_error[OF rest] Cons.prems(3) by simp
  moreover have "EVP_decode_run ctx1 cs = Some o2"
    using Cons.IH[OF o2] Cons.prems out by simp
  ultimately show ?case
    using Cons.prems(4) by (simp add: EVP_DecodeUpdate_def c out)
qed

lemma dec_ready_Init: "dec_ready EVP_DecodeInit"
  by (simp add: dec_ready_def EVP_DecodeInit_def)

lemma decode_run_chars:
  assumes "filter (\<lambda>c. \<not> is_b64_space c) (concat cs) = b64_chars src" "length src \<le> INT_MAX"
  shows "EVP_decode_run EVP_DecodeInit cs = Some src"
proof -
  obtain ctx' where "EVP_DecodeUpdate_loop EVP_DecodeInit [] (concat cs) = (True, ctx', src)"
    "ctx_data_used ctx' = 0" "\<not> ctx_error_encountered ctx'"
    using DecodeUpdate_loop_chars[OF dec_ready_Init, of "[]" src]
      DecodeUpdate_loop_filter[of EVP_DecodeInit "[]" "concat cs"] assms(1) by auto
  then show ?thesis using assms(2) by (rule decode_run_loop)
qed

lemma b64_chars_append: "length xs = 3 * k \<Longrightarrow> b64_chars (xs @ ys) = b64_chars xs @ b64_chars ys"
proof (induction k arbitrary: xs)
  case (Suc k)
  then obtain a b c xs' where "xs = a # b # c # xs'" "length xs' = 3 * k"
    by (auto simp: length_Suc_conv numeral_eq_Suc)
  then show ?case
    using Suc.IH[of xs'] b64_chars_Cons3[of a b c xs'] b64_chars_Cons3[of a b c "xs' @ ys"] by simp
qed simp

lemma filter_b64_lines: "filter (\<lambda>c. \<not> is_b64_space c) (b64_lines bs) = b64_chars bs"
proof (induction bs rule: b64_lines.induct)
  case (1 bs)
  have f: "filter (\<lambda>c. \<not> is_b64_space c) (b64_chars xs) = b64_chars xs" for xs
    by (simp add: filter_id_conv b64_chars_no_space)
  have nl: "is_b64_space 10" by (simp add: is_b64_space_def)
  show ?case
  proof (cases "length bs < 48")
    case True
    then show ?thesis using f nl by (subst b64_lines.simps) simp
  next
    case False
    then have "b64_chars (take 48 bs @ drop 48 bs) = b64_chars (take 48 bs) @ b64_chars (drop 48 bs)"
      by (intro b64_chars_append[of _ 16]) simp
    moreover have "bs \<noteq> []" using False by auto
    ultimately show ?thesis using f nl 1 by (subst b64_lines.simps) simp
  qed
qed

lemma length_decode_quad: "base64_decode_quad q = Some bs \<Longrightarrow> length bs \<le> 3"
  by (auto simp: base64_decode_quad_def Let_def split: if_splits)

lemma DecodeBase64_loop_length:
  "EVP_DecodeBase64_loop out inp = (ok, out') \<Longrightarrow> length inp mod 4 = 0 \<Longrightarrow>
   length out' \<le> length out + length inp div 4 * 3"
proof (induction out inp rule: EVP_DecodeBase64_loop.induct)
  case (1 out inp)
  show ?case
  proof (cases "inp = []")
    case True
    then show ?thesis using 1 by simp
  next
    case False
    then have "0 < length inp" by simp
    then obtain k where k: "length inp = 4 * Suc k"
      using 1(3) by (cases "length inp div 4") (auto simp: mod_eq_0_iff_dvd elim!: dvdE)
    show ?thesis
    proof (cases "base64_decode_quad (take 4 inp)")
      case None
      then show ?thesis using False 1(2) by (subst (asm) EVP_DecodeBase64_loop.simps) auto
    next
      case (Some bs)
      note len = length_decode_quad[OF Some]
      show ?thesis
      proof (cases "length bs \<noteq> 3 \<and> length inp \<noteq> 4")
        case True
        then show ?thesis
          using False 1(2) Some len k by (subst (asm) EVP_DecodeBase64_loop.simps) auto
      next
        case t: False
        then have "EVP_DecodeBase64_loop (out @ bs) (drop 4 inp) = (ok, out')"
          using False 1(2) Some by (subst (asm) EVP_DecodeBase64_loop.simps) auto
        then show ?thesis using 1(1)[OF False Some t] k len by auto
      qed
    qed
  qed
qed

section \<open>Properties\<close>

text \<open>
  The branch-free character conversions are exactly the base64 alphabet: the
  encoder looks its six bits up in it, the decoder inverts that, and a character the
  decoder does not reject is \<open>'='\<close> or the encoding of the value it returns.
\<close>

theorem b64_conversions_inverse:
  "conv_bin2ascii a = b64_alphabet ! unat (a AND 63) \<and>
   base64_ascii_to_bin (conv_bin2ascii a) = a AND 63 \<and>
   (base64_ascii_to_bin c = 255 \<or> c = 61 \<or>
    conv_bin2ascii (base64_ascii_to_bin c) = c \<and> unat (base64_ascii_to_bin c) < 64)"
  using conv_bin2ascii_eq[of a] conv_props(1)[of a] ascii_to_bin_inverse[of c] by auto

text \<open>
  Property C16: \<open>EVP_EncodeBlock\<close> computes the encoding of RFC 4648 (groups of three bytes
  read big-endian, four base-64 digits each, padded with \<open>'='\<close>), followed by a NUL that
  its return value does not count.
\<close>

theorem EVP_EncodeBlock_rfc4648:
  "EVP_EncodeBlock src = (rfc4648 src @ [0], 4 * ((length src + 2) div 3))"
  using length_b64_chars[of src] by (simp add: EVP_EncodeBlock_eq b64_chars_rfc4648)

text \<open>
  The length computation: \<open>EVP_EncodedLength\<close> returns exactly the number of bytes \<open>EVP_EncodeBlock\<close>
  stores (the NUL included), and fails exactly when that number is not a \<open>size_t\<close>.
\<close>

theorem EVP_EncodedLength_exact:
  assumes "length src < SIZE_MOD"
  shows "EVP_EncodedLength (length src) =
    (if 4 * ((length src + 2) div 3) + 1 < SIZE_MOD
     then Some (length (fst (EVP_EncodeBlock src))) else None)"
proof -
  let ?n = "length src"
  have fst: "length (fst (EVP_EncodeBlock src)) = 4 * ((?n + 2) div 3) + 1"
    using length_b64_chars[of src] by (simp add: EVP_EncodeBlock_eq)
  show ?thesis
  proof (cases "?n + 2 < SIZE_MOD")
    case False
    then have "size_add ?n 2 < ?n"
      using assms size_add_wraps_iff[of ?n 2] by (simp add: SIZE_MOD_def)
    moreover have "\<not> 4 * ((?n + 2) div 3) + 1 < SIZE_MOD"
      using False by (simp add: SIZE_MOD_def)
    ultimately show ?thesis by (simp add: EVP_EncodedLength_def)
  next
    case True
    let ?g = "(?n + 2) div 3"
    have "size_mul ?g 4 div 4 = ?g \<longleftrightarrow> 4 * ?g < SIZE_MOD"
    proof
      assume "size_mul ?g 4 div 4 = ?g"
      moreover have "size_mul ?g 4 < SIZE_MOD" by (simp add: size_mul_def)
      ultimately show "4 * ?g < SIZE_MOD" by (simp add: SIZE_MOD_def)
    qed (simp add: size_mul_def mult.commute)
    moreover have "size_mul ?g 4 = 4 * ?g" if "4 * ?g < SIZE_MOD"
      using that by (simp add: size_mul_def mult.commute)
    moreover have "size_add (4 * ?g) 1 < 4 * ?g \<longleftrightarrow> \<not> 4 * ?g + 1 < SIZE_MOD"
      if "4 * ?g < SIZE_MOD"
      using size_add_wraps_iff[of "4 * ?g" 1] that by (simp add: SIZE_MOD_def)
    ultimately show ?thesis
      using True by (auto simp: EVP_EncodedLength_def Let_def fst size_add_exact)
  qed
qed

theorem EVP_EncodedLength_exact_witness:
  "EVP_EncodedLength (length [72, 105 :: u8]) = Some (length (fst (EVP_EncodeBlock [72, 105])))"
  using EVP_EncodedLength_exact[of "[72, 105]"] by (simp add: SIZE_MOD_def)

text \<open>
  the streaming encoder is insensitive to how its input is cut up: for
  pieces of up to \<open>2 ^ 30\<close> bytes (so that no call has more than \<open>INT_MAX\<close> bytes to put
  out), the output is the 48-bytes-to-a-line encoding of their concatenation.
\<close>

theorem EVP_encode_stream_reference:
  assumes "\<forall>c \<in> set cs. length c \<le> 2 ^ 30"
  shows "EVP_encode_run EVP_EncodeInit cs = b64_lines (concat cs)"
  using encode_run_pending[of EVP_EncodeInit cs] assms
  by (simp add: enc_inv_def enc_pending_def EVP_EncodeInit_def)

theorem EVP_encode_stream_reference_witness:
  "EVP_encode_run EVP_EncodeInit [[72], [], [105, 33]] = b64_lines [72, 105, 33]"
  using EVP_encode_stream_reference[of "[[72], [], [105, 33]]"] by simp

text \<open>
  Property C15: streaming round trip. Whatever text has the encoder's output as its
  contents up to white space, cut into pieces in any way, the streaming decoder returns
  the original bytes, with no call failing and \<open>EVP_DecodeFinal\<close> succeeding. The pieces of the message
  have at most \<open>2 ^ 30\<close> bytes and the message at most \<open>INT_MAX\<close>, since the calls count in \<^verbatim>\<open>int\<close>.
\<close>

theorem EVP_base64_stream_roundtrip:
  assumes "\<forall>c \<in> set cs. length c \<le> 2 ^ 30" "length (concat cs) \<le> INT_MAX"
    and "filter (\<lambda>c. \<not> is_b64_space c) (concat ds) =
         filter (\<lambda>c. \<not> is_b64_space c) (EVP_encode_run EVP_EncodeInit cs)"
  shows "EVP_decode_run EVP_DecodeInit ds = Some (concat cs)"
proof -
  have "EVP_encode_run EVP_EncodeInit cs = b64_lines (concat cs)"
    using encode_run_pending[of EVP_EncodeInit cs] assms(1)
    by (simp add: enc_inv_def enc_pending_def EVP_EncodeInit_def)
  with assms show ?thesis
    by (intro decode_run_chars) (simp_all add: filter_b64_lines)
qed

theorem EVP_base64_stream_roundtrip_witness:
  "EVP_decode_run EVP_DecodeInit [[83, 71, 32], [107, 61, 10]] = Some (concat [[72], [105]])"
proof (rule EVP_base64_stream_roundtrip)
  have "EVP_encode_run EVP_EncodeInit [[72], [105]] = b64_lines (concat [[72], [105]])"
    using encode_run_pending[of EVP_EncodeInit "[[72], [105]]"]
    by (simp add: enc_inv_def enc_pending_def EVP_EncodeInit_def)
  moreover have "b64_chars [72, 105] = [83, 71, 107, 61]" by code_simp
  ultimately show "filter (\<lambda>c. \<not> is_b64_space c) (concat [[83, 71, 32], [107, 61, 10]]) =
      filter (\<lambda>c. \<not> is_b64_space c) (EVP_encode_run EVP_EncodeInit [[72], [105]])"
    using filter_b64_lines[of "[72, 105]"] by (simp add: is_b64_space_def)
qed (simp_all add: INT_MAX_def)

text \<open>
  \<open>EVP_DecodeBase64\<close> never stores more than \<open>max_out\<close> bytes, on any input
  and also when it fails, and reports exactly what it stored when it succeeds.
\<close>

theorem EVP_DecodeBase64_bounded:
  "case EVP_DecodeBase64 max_out inp of
     (ok, out_len, out) \<Rightarrow> length out \<le> max_out \<and> out_len = (if ok then length out else 0)"
proof -
  obtain ok out where loop: "EVP_DecodeBase64_loop [] inp = (ok, out)" by fastforce
  then have "length inp mod 4 = 0 \<Longrightarrow> length out \<le> length inp div 4 * 3"
    using DecodeBase64_loop_length[OF loop] by simp
  then show ?thesis
    by (auto simp: EVP_DecodeBase64_def EVP_DecodedLength_def loop)
qed

lemma round_up_3: "n + (3 - n mod 3) mod 3 = (n + 2) div 3 * (3 :: nat)"
proof -
  define q where "q = n div 3"
  have "n mod 3 = 0 \<or> n mod 3 = 1 \<or> n mod 3 = 2" by auto
  moreover have "n = 3 * q + n mod 3" by (simp add: q_def)
  ultimately have "n = 3 * q \<or> n = 3 * q + 1 \<or> n = 3 * q + 2" by force
  then show ?thesis by (auto simp: mod_Suc)
qed

lemma pad_to_3_eq: "pad_to_3 dst = dst @ replicate ((3 - length dst mod 3) mod 3) 0"
proof (induction dst rule: pad_to_3.induct)
  case (1 dst)
  consider "length dst mod 3 = 0" | "length dst mod 3 = 1" | "length dst mod 3 = 2"
    using mod_less_divisor[of 3 "length dst"] by linarith
  then show ?case
    using 1 by cases (simp_all add: pad_to_3.simps[of dst] mod_Suc numeral_2_eq_2)
qed

text \<open>
  the one-shot decoder undoes the one-shot encoder, with white space allowed
  before (space, tab) and after (also CR, LF) the text; the bytes the padding stands for
  come back as NULs and are counted.
\<close>

theorem EVP_DecodeBlock_EncodeBlock:
  assumes "set ws1 \<subseteq> {32, 9}" "set ws2 \<subseteq> {32, 9, 13, 10}"
    and "(length src + 2) div 3 * 3 \<le> INT_MAX" "src \<noteq> []"
  shows "EVP_DecodeBlock (ws1 @ rfc4648 src @ ws2) =
    (src @ replicate ((3 - length src mod 3) mod 3) 0, int ((length src + 2) div 3 * 3))"
proof -
  let ?t = "b64_chars src"
  let ?sp = "\<lambda>c :: u8. c = 32 \<or> c = 9"
  have ne: "?t \<noteq> []" using assms(4) length_b64_chars[of src] by (cases src) auto
  have hd: "\<not> ?sp (hd ?t)" and la: "\<not> is_b64_space (last ?t)"
    using b64_chars_no_space[of "hd ?t" src] b64_chars_no_space[of "last ?t" src] ne
    by (auto simp: is_b64_space_def)
  have "dropWhile ?sp (ws1 @ ?t @ ws2) = ?t @ ws2"
    using assms(1) hd ne by (subst dropWhile_append2) (auto simp: neq_Nil_conv)
  moreover have "dropWhile is_b64_space (rev (?t @ ws2)) = rev ?t"
    using assms(2) la ne
    by (subst rev_append, subst dropWhile_append2)
       (auto simp: is_b64_space_def dropWhile_eq_self_iff hd_rev)
  moreover have "EVP_DecodeBase64 (length ?t div 4 * 3) ?t = (True, length src, src)"
    using DecodeBase64_loop_chars[of "[]" src]
    by (simp add: EVP_DecodeBase64_def EVP_DecodedLength_def length_b64_chars)
  moreover note round_up_3[of "length src"]
  ultimately show ?thesis
    using assms(3)
    by (simp add: EVP_DecodeBlock_def EVP_DecodedLength_def b64_chars_rfc4648[symmetric]
        length_b64_chars pad_to_3_eq Let_def)
qed

theorem EVP_DecodeBlock_EncodeBlock_witness:
  "EVP_DecodeBlock ([32] @ rfc4648 [72, 105] @ [10]) = ([72, 105, 0], 3)"
  using EVP_DecodeBlock_EncodeBlock[of "[32]" "[10]" "[72, 105]"] by (simp add: INT_MAX_def)

end
