(* ===== verification/Buf.thy ===== *)
theory Buf
  imports Mem
begin

text \<open>
  \<^verbatim>\<open>crypto/buf/buf.c\<close>: the growable byte buffer \<open>BUF_MEM\<close> and the bounded string
  functions. Every function that changes a buffer returns it with its \<open>int\<close> or
  \<open>size_t\<close> result; the entries the failing paths push on the error queue are not part of
  the state.
\<close>

section \<open>\<open>BUF_MEM\<close>\<close>

record BUF_MEM =
  bm_length :: nat
  bm_data :: "cell list option"
  bm_max :: nat

definition BUF_MEM_new :: BUF_MEM where
  "BUF_MEM_new = \<lparr>bm_length = 0, bm_data = None, bm_max = 0\<rparr>"

definition BUF_MEM_reserve :: "sys_malloc \<Rightarrow> BUF_MEM \<Rightarrow> nat \<Rightarrow> BUF_MEM \<times> bool" where
  "BUF_MEM_reserve sys buf cap =
     (if bm_max buf \<ge> cap then (buf, True)
      else let n = size_add cap 3
        in if n < cap then (buf, False)
        else let n = n div 3; alloc_size = size_mul n 4
          in if alloc_size div 4 \<noteq> n then (buf, False)
          else case OPENSSL_realloc sys (bm_data buf) alloc_size of
              None \<Rightarrow> (buf, False)
            | Some new_buf \<Rightarrow> (buf\<lparr>bm_data := Some new_buf, bm_max := alloc_size\<rparr>, True))"

text \<open>A store through a NULL \<open>data\<close> pointer of zero bytes is no store.\<close>

definition bm_store :: "BUF_MEM \<Rightarrow> nat \<Rightarrow> u8 list \<Rightarrow> BUF_MEM" where
  "bm_store buf i bs = buf\<lparr>bm_data := map_option (\<lambda>d. overwrite d i (map Some bs)) (bm_data buf)\<rparr>"

definition BUF_MEM_grow :: "sys_malloc \<Rightarrow> BUF_MEM \<Rightarrow> nat \<Rightarrow> BUF_MEM \<times> nat" where
  "BUF_MEM_grow sys buf len =
     (let (buf, ok) = BUF_MEM_reserve sys buf len
      in if \<not> ok then (buf, 0)
         else let buf = (if bm_length buf < len
                         then bm_store buf (bm_length buf) (replicate (len - bm_length buf) 0)
                         else buf)
              in (buf\<lparr>bm_length := len\<rparr>, len))"

definition BUF_MEM_grow_clean :: "sys_malloc \<Rightarrow> BUF_MEM \<Rightarrow> nat \<Rightarrow> BUF_MEM \<times> nat" where
  "BUF_MEM_grow_clean sys buf len = BUF_MEM_grow sys buf len"

definition BUF_MEM_append :: "sys_malloc \<Rightarrow> BUF_MEM \<Rightarrow> u8 list \<Rightarrow> BUF_MEM \<times> bool" where
  "BUF_MEM_append sys buf inp =
     (let len = length inp; new_len = size_add (bm_length buf) len
      in if new_len < len then (buf, False)
         else let (buf, ok) = BUF_MEM_reserve sys buf new_len
           in if \<not> ok then (buf, False)
              else ((bm_store buf (bm_length buf) inp)\<lparr>bm_length := new_len\<rparr>, True))"

section \<open>Strings\<close>

fun BUF_strnlen :: "u8 list \<Rightarrow> nat \<Rightarrow> nat option" where
  "BUF_strnlen str 0 = Some 0"
| "BUF_strnlen [] (Suc n) = None"
| "BUF_strnlen (c # str) (Suc n) =
     (if c = 0 then Some 0 else map_option Suc (BUF_strnlen str n))"

text \<open>
  \<open>str = None\<close> is a NULL argument. The outer \<open>None\<close> of the result is a read past the end
  of the object, the inner one the NULL result.
\<close>

definition BUF_strndup :: "sys_malloc \<Rightarrow> u8 list option \<Rightarrow> nat \<Rightarrow> cell list option option" where
  "BUF_strndup sys str size0 =
     (case str of
        None \<Rightarrow> Some None
      | Some s \<Rightarrow>
          (case BUF_strnlen s size0 of
             None \<Rightarrow> None
           | Some n \<Rightarrow>
               let alloc_size = size_add n 1
               in if alloc_size < n then Some None
                  else case OPENSSL_malloc sys alloc_size of
                      None \<Rightarrow> Some None
                    | Some ret \<Rightarrow>
                        Some (Some (overwrite (overwrite ret 0 (map Some (take n s))) n [Some 0]))))"

definition BUF_strdup :: "sys_malloc \<Rightarrow> u8 list option \<Rightarrow> cell list option option" where
  "BUF_strdup sys str =
     (case str of
        None \<Rightarrow> Some None
      | Some s \<Rightarrow> (case strlen s of None \<Rightarrow> None | Some n \<Rightarrow> BUF_strndup sys str n))"

text \<open>
  The destination is the memory from \<open>dst\<close> to the end of its object; \<open>None\<close> is an access
  outside the source or the destination object.
\<close>

definition strlcpy_final :: "u8 list \<Rightarrow> u8 list \<Rightarrow> nat \<Rightarrow> (u8 list \<times> nat) option" where
  "strlcpy_final dst src dst_size =
     (if dst_size \<noteq> 0
      then (case dst of
              [] \<Rightarrow> None
            | _ # d \<Rightarrow> map_option (\<lambda>n. (0 # d, n)) (strlen src))
      else map_option (\<lambda>n. (dst, n)) (strlen src))"

fun BUF_strlcpy :: "u8 list \<Rightarrow> u8 list \<Rightarrow> nat \<Rightarrow> (u8 list \<times> nat) option" where
  "BUF_strlcpy dst src dst_size =
     (if dst_size > 1 then
        (case src of
           [] \<Rightarrow> None
         | s # src' \<Rightarrow>
             if s \<noteq> 0 then
               (case dst of
                  [] \<Rightarrow> None
                | _ # dst' \<Rightarrow>
                    map_option (\<lambda>(d, n). (s # d, n + 1)) (BUF_strlcpy dst' src' (dst_size - 1)))
             else strlcpy_final dst src dst_size)
      else strlcpy_final dst src dst_size)"

declare BUF_strlcpy.simps [simp del]

fun BUF_strlcat :: "u8 list \<Rightarrow> u8 list \<Rightarrow> nat \<Rightarrow> (u8 list \<times> nat) option" where
  "BUF_strlcat dst src dst_size =
     (if dst_size > 0 then
        (case dst of
           [] \<Rightarrow> None
         | c # dst' \<Rightarrow>
             if c \<noteq> 0
             then map_option (\<lambda>(d, n). (c # d, n + 1)) (BUF_strlcat dst' src (dst_size - 1))
             else BUF_strlcpy dst src dst_size)
      else BUF_strlcpy dst src dst_size)"

declare BUF_strlcat.simps [simp del]

definition BUF_memdup :: "sys_malloc \<Rightarrow> u8 list \<Rightarrow> cell list option" where
  "BUF_memdup sys data =
     (if length data = 0 then None
      else case OPENSSL_malloc sys (length data) of
          None \<Rightarrow> None
        | Some ret \<Rightarrow> Some (overwrite ret 0 (map Some data)))"

section \<open>The buffer as a byte string\<close>

text \<open>
  The contract: a well-formed buffer holds the bytes \<open>bm_bytes\<close>, all of them
  initialised, within its allocation.
\<close>

definition bm_cells :: "BUF_MEM \<Rightarrow> cell list" where
  "bm_cells buf = (case bm_data buf of None \<Rightarrow> [] | Some d \<Rightarrow> d)"

definition bm_bytes :: "BUF_MEM \<Rightarrow> u8 list" where
  "bm_bytes buf = map the (take (bm_length buf) (bm_cells buf))"

definition bm_wf :: "BUF_MEM \<Rightarrow> bool" where
  "bm_wf buf \<longleftrightarrow> length (bm_cells buf) = bm_max buf \<and> bm_length buf \<le> bm_max buf \<and>
     None \<notin> set (take (bm_length buf) (bm_cells buf))"

lemma bm_wf_new: "bm_wf BUF_MEM_new \<and> bm_bytes BUF_MEM_new = []"
  by (simp add: bm_wf_def BUF_MEM_new_def bm_cells_def bm_bytes_def)

lemma BUF_MEM_reserve_cases:
  assumes wf: "bm_wf buf" and cap: "cap \<le> 2 ^ 62"
    and res: "BUF_MEM_reserve sys buf cap = (buf', ok)"
  shows "bm_wf buf' \<and> bm_bytes buf' = bm_bytes buf \<and> bm_length buf' = bm_length buf \<and>
    (ok \<longleftrightarrow> cap \<le> bm_max buf') \<and> (\<not> ok \<longrightarrow> buf' = buf)"
proof (cases "bm_max buf \<ge> cap")
  case True
  then show ?thesis using assms by (auto simp: BUF_MEM_reserve_def)
next
  case False
  define a where "a = (cap + 3) div 3 * 4"
  have a: "a + 8 < SIZE_MOD" "cap \<le> a" "a div 4 = (cap + 3) div 3"
    using cap by (simp_all add: a_def SIZE_MOD_def)
  have e: "size_add cap 3 = cap + 3" "size_mul ((cap + 3) div 3) 4 = a"
    using a cap by (simp_all add: size_add_exact size_mul_def a_def SIZE_MOD_def)
  have "BUF_MEM_reserve sys buf cap =
      (case OPENSSL_realloc sys (bm_data buf) a of None \<Rightarrow> (buf, False)
       | Some d \<Rightarrow> (buf\<lparr>bm_data := Some d, bm_max := a\<rparr>, True))"
    using False a(3) by (simp add: BUF_MEM_reserve_def e)
  with res consider "buf' = buf" "\<not> ok"
    | d where "OPENSSL_realloc sys (bm_data buf) a = Some d" "ok"
        "buf' = buf\<lparr>bm_data := Some d, bm_max := a\<rparr>"
    by (auto split: option.splits)
  then show ?thesis
  proof cases
    case 1
    then show ?thesis using wf False by simp
  next
    case 2
    have d: "length d = a" "take (bm_length buf) d = take (bm_length buf) (bm_cells buf)"
    proof -
      show "length d = a" using OPENSSL_realloc_Some[OF a(1) 2(1)] by simp
      show "take (bm_length buf) d = take (bm_length buf) (bm_cells buf)"
      proof (cases "bm_data buf")
        case None
        then show ?thesis using wf by (simp add: bm_wf_def bm_cells_def)
      next
        case (Some old)
        then have "length old = bm_max buf" using wf by (simp add: bm_wf_def bm_cells_def)
        moreover have "take (min a (length old)) d = take a old"
          using OPENSSL_realloc_Some[OF a(1) 2(1)] Some by simp
        ultimately have "take (bm_max buf) d = old"
          using False a(2) by (simp add: min_def)
        then have "take (bm_length buf) (take (bm_max buf) d) = take (bm_length buf) old" by simp
        then show ?thesis
          using wf Some by (simp add: bm_cells_def bm_wf_def min_def split: if_splits)
      qed
    qed
    show ?thesis
      using 2 d a(2) wf False by (simp add: bm_wf_def bm_bytes_def bm_cells_def)
  qed
qed

lemma bm_store_end:
  assumes "bm_wf buf" "bm_length buf + length bs \<le> bm_max buf"
  shows "bm_wf ((bm_store buf (bm_length buf) bs)\<lparr>bm_length := bm_length buf + length bs\<rparr>) \<and>
    bm_bytes ((bm_store buf (bm_length buf) bs)\<lparr>bm_length := bm_length buf + length bs\<rparr>) =
    bm_bytes buf @ bs"
proof (cases "bm_data buf")
  case None
  then show ?thesis using assms by (simp add: bm_wf_def bm_store_def bm_cells_def bm_bytes_def)
next
  case (Some d)
  have "take (bm_length buf + length bs) (overwrite d (bm_length buf) (map Some bs)) =
      take (bm_length buf) d @ map Some bs"
    using assms Some take_overwrite_upto[of "bm_length buf" d "map Some bs"]
    by (simp add: bm_wf_def bm_cells_def)
  then show ?thesis
    using assms Some by (auto simp: bm_wf_def bm_store_def bm_cells_def bm_bytes_def comp_def)
qed

lemma BUF_MEM_grow_rep:
  assumes "bm_wf buf" "len \<le> 2 ^ 62"
  shows "case BUF_MEM_grow_clean sys buf len of (buf', n) \<Rightarrow>
      bm_wf buf' \<and> (n = len \<and> bm_bytes buf' =
          take len (bm_bytes buf) @ replicate (len - length (bm_bytes buf)) 0
        \<or> n = 0 \<and> buf' = buf)"
proof -
  obtain b2 ok2 where r: "BUF_MEM_reserve sys buf len = (b2, ok2)"
    by fastforce
  note c = BUF_MEM_reserve_cases[OF assms r]
  have lb: "length (bm_bytes b2) = bm_length b2"
    using c by (auto simp: bm_bytes_def bm_wf_def)
  show ?thesis
  proof (cases "ok2 \<and> bm_length b2 < len")
    case True
    then have "BUF_MEM_grow sys buf len = ((bm_store b2 (bm_length b2)
        (replicate (len - bm_length b2) 0))\<lparr>bm_length := len\<rparr>, len)"
      by (simp add: BUF_MEM_grow_def r Let_def)
    then show ?thesis
      using True c lb bm_store_end[of b2 "replicate (len - bm_length b2) 0"]
      by (auto simp: BUF_MEM_grow_clean_def)
  next
    case False
    then have "BUF_MEM_grow sys buf len = (if ok2 then (b2\<lparr>bm_length := len\<rparr>, len) else (b2, 0))"
      by (simp add: BUF_MEM_grow_def r Let_def)
    moreover have "bm_wf (b2\<lparr>bm_length := len\<rparr>) \<and> bm_bytes (b2\<lparr>bm_length := len\<rparr>) = take len (bm_bytes b2)"
      if "ok2"
    proof -
      have l: "len \<le> bm_length b2" using False that by simp
      then have "take len (bm_cells b2) = take len (take (bm_length b2) (bm_cells b2))"
        by simp
      then have "None \<notin> set (take len (bm_cells b2))"
        using c by (metis bm_wf_def in_set_takeD)
      with l c show ?thesis
        by (auto simp: bm_wf_def bm_bytes_def bm_cells_def take_map split: option.splits)
    qed
    ultimately show ?thesis using False c lb by (auto simp: BUF_MEM_grow_clean_def)
  qed
qed

lemma bm_store_within:
  assumes "bm_wf buf" "i + length bs = bm_length buf"
  shows "bm_wf (bm_store buf i bs) \<and> bm_bytes (bm_store buf i bs) = take i (bm_bytes buf) @ bs \<and>
    bm_length (bm_store buf i bs) = bm_length buf"
proof (cases "bm_data buf")
  case None
  then have "bm_length buf = 0" "bs = []" using assms by (auto simp: bm_wf_def bm_cells_def)
  then show ?thesis using assms None by (simp add: bm_wf_def bm_store_def bm_cells_def bm_bytes_def)
next
  case (Some d)
  have t: "take (bm_length buf) (overwrite d i (map Some bs)) = take i d @ map Some bs"
    using assms Some take_overwrite_upto[of i d "map Some bs"] by (simp add: bm_wf_def bm_cells_def)
  have "take i d = take i (take (bm_length buf) d)" using assms(2) by simp
  then have "None \<notin> set (take i d)" using assms(1) Some by (metis bm_wf_def bm_cells_def in_set_takeD option.simps(5))
  moreover have "take i (bm_bytes buf) = map the (take i d)"
    using assms(2) Some by (simp add: bm_bytes_def bm_cells_def take_map)
  ultimately show ?thesis
    using assms Some t by (auto simp: bm_wf_def bm_store_def bm_cells_def bm_bytes_def comp_def)
qed

section \<open>Properties\<close>

text \<open>
  Property C37: \<open>BUF_MEM_append\<close> implements appending to a byte string, for sizes up to
  \<open>2 ^ 62\<close>: the buffer stays well-formed (its bytes initialised and inside the
  allocation), and a failing call leaves it as it was.
\<close>

theorem BUF_MEM_append_refines:
  assumes "bm_wf buf" "bm_length buf + length inp \<le> 2 ^ 62"
  shows "case BUF_MEM_append sys buf inp of (buf', ok) \<Rightarrow>
    bm_wf buf' \<and> bm_bytes buf' = bm_bytes buf @ (if ok then inp else []) \<and> (ok \<or> buf' = buf)"
proof -
  obtain b1 ok1 where r: "BUF_MEM_reserve sys buf (bm_length buf + length inp) = (b1, ok1)"
    by fastforce
  note c = BUF_MEM_reserve_cases[OF assms r]
  have "size_add (bm_length buf) (length inp) = bm_length buf + length inp"
    using assms(2) by (intro size_add_exact) (simp add: SIZE_MOD_def)
  then have "BUF_MEM_append sys buf inp =
      (if ok1 then ((bm_store b1 (bm_length b1) inp)\<lparr>bm_length := bm_length b1 + length inp\<rparr>, True)
       else (buf, False))"
    using c by (auto simp: BUF_MEM_append_def r Let_def)
  then show ?thesis
    using c assms(1) bm_store_end[of b1 inp] by auto
qed

theorem BUF_MEM_append_refines_witness:
  "case BUF_MEM_append (\<lambda>_. True) BUF_MEM_new [1, 2] of (buf', ok) \<Rightarrow>
    bm_wf buf' \<and> bm_bytes buf' = bm_bytes BUF_MEM_new @ (if ok then [1, 2] else []) \<and>
    (ok \<or> buf' = BUF_MEM_new)"
  using BUF_MEM_append_refines[of BUF_MEM_new "[1, 2]" "\<lambda>_. True"] bm_wf_new
  by (simp add: BUF_MEM_new_def)

text \<open>
  \<open>BUF_MEM_grow\<close> (and \<open>BUF_MEM_grow_clean\<close>) sets the length: a shorter one
  truncates, a longer one extends with zeros, so that no byte of the buffer is ever
  uninitialised; a failing call returns 0 and leaves the buffer as it was.
\<close>

theorem BUF_MEM_grow_refines:
  assumes "bm_wf buf" "len \<le> 2 ^ 62"
  shows "case BUF_MEM_grow_clean sys buf len of (buf', n) \<Rightarrow>
      bm_wf buf' \<and> (n = len \<and> bm_bytes buf' =
          take len (bm_bytes buf) @ replicate (len - length (bm_bytes buf)) 0
        \<or> n = 0 \<and> buf' = buf)"
  using assms by (rule BUF_MEM_grow_rep)

theorem BUF_MEM_grow_refines_witness:
  "case BUF_MEM_grow_clean (\<lambda>_. True) BUF_MEM_new 3 of (buf', n) \<Rightarrow>
      bm_wf buf' \<and> (n = 3 \<and> bm_bytes buf' =
          take 3 (bm_bytes BUF_MEM_new) @ replicate (3 - length (bm_bytes BUF_MEM_new)) 0
        \<or> n = 0 \<and> buf' = BUF_MEM_new)"
  using BUF_MEM_grow_refines[of BUF_MEM_new 3 "\<lambda>_. True"] bm_wf_new by simp

lemma strlcpy_copies:
  assumes "0 \<notin> set s" "n \<le> length dst"
  shows "BUF_strlcpy dst (s @ 0 # t) n = Some
    (if n = 0 then dst else overwrite dst 0 (take (n - 1) s @ [0]), length s)"
  using assms
proof (induction s arbitrary: dst n)
  case Nil
  then show ?case
    by (cases dst; cases n)
       (auto simp: BUF_strlcpy.simps strlcpy_final_def overwrite_def)
next
  case (Cons c s)
  show ?case
  proof (cases "n > 1")
    case True
    then obtain x d m where "dst = x # d" "n = Suc (Suc m)"
      using Cons.prems by (cases dst; cases n; cases "n - 1") auto
    then show ?thesis
      using Cons.IH[of "Suc m" d] Cons.prems
      by (subst BUF_strlcpy.simps) (simp add: overwrite_def)
  next
    case False
    then have "n = 0 \<or> n = 1" by auto
    then show ?thesis
      using Cons.prems strlen_string[of "c # s" t]
      by (cases dst) (auto simp: BUF_strlcpy.simps strlcpy_final_def overwrite_def)
  qed
qed

text \<open>
  \<open>BUF_strlcpy\<close> on a C string \<open>s\<close> and a destination of at least \<open>n\<close> bytes
  stays inside both objects, copies as much as fits, always terminates what it wrote
  (unless \<open>n\<close> is 0), leaves the rest of the destination alone and returns \<open>strlen(s)\<close>,
  so that a result \<open>\<ge> n\<close> signals truncation.
\<close>

theorem BUF_strlcpy_spec:
  assumes "0 \<notin> set s" "n \<le> length dst"
  shows "BUF_strlcpy dst (s @ 0 # t) n = Some
    (if n = 0 then dst else take (n - 1) s @ [0] @ drop (min n (length s + 1)) dst, length s)"
  using strlcpy_copies[OF assms] assms(2)
  by (cases n) (auto simp: overwrite_def min_def not_le less_Suc_eq_le dest: le_antisym)

theorem BUF_strlcpy_spec_witness:
  "BUF_strlcpy [9, 9, 9, 9] ([72, 105, 33] @ 0 # []) 3 = Some ([72, 105, 0, 9], 3)"
  using BUF_strlcpy_spec[of "[72, 105, 33]" 3 "[9, 9, 9, 9]" "[]"] by simp

lemma BUF_strnlen_prefix:
  "0 \<notin> set s \<Longrightarrow> n \<le> length s \<Longrightarrow> BUF_strnlen s n = Some n"
  by (induction s n rule: BUF_strnlen.induct) auto

lemma BUF_strnlen_string:
  "0 \<notin> set s \<Longrightarrow> BUF_strnlen (s @ 0 # t) n = Some (min n (length s))"
  by (induction s n rule: BUF_strnlen.induct) auto

end
