(* ===== verification/CBS.thy ===== *)
theory CBS
  imports Buf Constant_Time
begin

text \<open>
  \<^verbatim>\<open>crypto/bytestring/cbs.c\<close>: the byte-string parser. A \<open>CBS\<close> is a window into a
  buffer: the buffer its \<open>data\<close> pointer points into, the offset of \<open>data\<close> in it and the
  length of the window. Parsing functions return their result as an option (\<open>None\<close> is the
  return value 0) together with the window they leave in \<open>*cbs\<close>, on failure too: some of
  them leave it advanced. Output parameters are described on success only, and pointers to
  them are not NULL. A reader indexes a list whose length it has compared first; \<^verbatim>\<open>assert(0)\<close> is the
  failure that the code returns without assertions.
\<close>

section \<open>The window\<close>

record CBS =
  cbs_buf :: "u8 list"
  cbs_off :: nat
  cbs_len :: nat

text \<open>The \<open>n\<close> bytes a pointer into \<open>m\<close> at offset \<open>p\<close> points to.\<close>

definition mem_bytes :: "u8 list \<Rightarrow> nat \<Rightarrow> nat \<Rightarrow> u8 list" where
  "mem_bytes m p n = take n (drop p m)"

definition CBS_init :: "u8 list \<Rightarrow> nat \<Rightarrow> nat \<Rightarrow> CBS" where
  "CBS_init buf off len = \<lparr>cbs_buf = buf, cbs_off = off, cbs_len = len\<rparr>"

text \<open>The contents of a window, and a window over a whole buffer.\<close>

definition cbs_view :: "CBS \<Rightarrow> u8 list" where
  "cbs_view c = mem_bytes (cbs_buf c) (cbs_off c) (cbs_len c)"

definition cbs_of :: "u8 list \<Rightarrow> CBS" where
  "cbs_of bs = CBS_init bs 0 (length bs)"

definition cbs_get :: "CBS \<Rightarrow> nat \<Rightarrow> nat option \<times> CBS" where
  "cbs_get c n =
     (if cbs_len c < n then (None, c)
      else (Some (cbs_off c), c\<lparr>cbs_off := cbs_off c + n, cbs_len := cbs_len c - n\<rparr>))"

definition CBS_skip :: "CBS \<Rightarrow> nat \<Rightarrow> bool \<times> CBS" where
  "CBS_skip c len = (let (dummy, c) = cbs_get c len in (dummy \<noteq> None, c))"

definition CBS_data :: "CBS \<Rightarrow> nat" where
  "CBS_data c = cbs_off c"

definition CBS_len :: "CBS \<Rightarrow> nat" where
  "CBS_len c = cbs_len c"

text \<open>Results: the return value, \<open>*out_ptr\<close> and \<open>*out_len\<close>.\<close>

definition CBS_stow :: "sys_malloc \<Rightarrow> CBS \<Rightarrow> bool \<times> cell list option \<times> nat" where
  "CBS_stow sys c =
     (if cbs_len c = 0 then (True, None, 0)
      else case BUF_memdup sys (cbs_view c) of
          None \<Rightarrow> (False, None, 0)
        | Some p \<Rightarrow> (True, Some p, cbs_len c))"

text \<open>
  \<open>BUF_strndup\<close> reads no further than the window; an empty \<open>CBS\<close> with a NULL \<open>data\<close>
  pointer is told from an empty window by \<open>is_null\<close>.
\<close>

definition CBS_strdup :: "sys_malloc \<Rightarrow> bool \<Rightarrow> CBS \<Rightarrow> (bool \<times> cell list option) option" where
  "CBS_strdup sys is_null c =
     map_option (\<lambda>p. (p \<noteq> None, p))
       (BUF_strndup sys (if is_null then None else Some (drop (cbs_off c) (cbs_buf c))) (cbs_len c))"

definition CBS_contains_zero_byte :: "CBS \<Rightarrow> bool" where
  "CBS_contains_zero_byte c = list_ex (\<lambda>b. b = 0) (cbs_view c)"

definition CBS_mem_equal :: "CBS \<Rightarrow> u8 list \<Rightarrow> nat \<Rightarrow> bool" where
  "CBS_mem_equal c data len =
     (if len \<noteq> cbs_len c then False
      else CRYPTO_memcmp (drop (cbs_off c) (cbs_buf c)) data len = 0)"

section \<open>Integers and byte strings\<close>

definition cbs_get_u :: "CBS \<Rightarrow> nat \<Rightarrow> u32 option \<times> CBS" where
  "cbs_get_u c len =
     (case cbs_get c len of
        (None, c) \<Rightarrow> (None, c)
      | (Some data, c) \<Rightarrow>
          (Some (foldl (\<lambda>result b. push_bit 8 result OR ucast b) 0 (mem_bytes (cbs_buf c) data len)), c))"

definition CBS_get_u8 :: "CBS \<Rightarrow> u8 option \<times> CBS" where
  "CBS_get_u8 c =
     (case cbs_get c 1 of
        (None, c) \<Rightarrow> (None, c)
      | (Some v, c) \<Rightarrow> (Some (cbs_buf c ! v), c))"

definition CBS_get_u16 :: "CBS \<Rightarrow> u16 option \<times> CBS" where
  "CBS_get_u16 c = (let (v, c) = cbs_get_u c 2 in (map_option ucast v, c))"

definition CBS_get_u24 :: "CBS \<Rightarrow> u32 option \<times> CBS" where
  "CBS_get_u24 c = cbs_get_u c 3"

definition CBS_get_u32 :: "CBS \<Rightarrow> u32 option \<times> CBS" where
  "CBS_get_u32 c = cbs_get_u c 4"

definition CBS_get_last_u8 :: "CBS \<Rightarrow> u8 option \<times> CBS" where
  "CBS_get_last_u8 c =
     (if cbs_len c = 0 then (None, c)
      else (Some (cbs_buf c ! (cbs_off c + (cbs_len c - 1))), c\<lparr>cbs_len := cbs_len c - 1\<rparr>))"

definition CBS_get_bytes :: "CBS \<Rightarrow> nat \<Rightarrow> CBS option \<times> CBS" where
  "CBS_get_bytes c len =
     (case cbs_get c len of
        (None, c) \<Rightarrow> (None, c)
      | (Some v, c) \<Rightarrow> (Some (CBS_init (cbs_buf c) v len), c))"

definition CBS_copy_bytes :: "CBS \<Rightarrow> nat \<Rightarrow> u8 list option \<times> CBS" where
  "CBS_copy_bytes c len =
     (case cbs_get c len of
        (None, c) \<Rightarrow> (None, c)
      | (Some v, c) \<Rightarrow> (Some (mem_bytes (cbs_buf c) v len), c))"

definition cbs_get_length_prefixed :: "CBS \<Rightarrow> nat \<Rightarrow> CBS option \<times> CBS" where
  "cbs_get_length_prefixed c len_len =
     (case cbs_get_u c len_len of
        (None, c) \<Rightarrow> (None, c)
      | (Some len, c) \<Rightarrow> CBS_get_bytes c (unat len))"

definition CBS_get_u8_length_prefixed :: "CBS \<Rightarrow> CBS option \<times> CBS" where
  "CBS_get_u8_length_prefixed c = cbs_get_length_prefixed c 1"

definition CBS_get_u16_length_prefixed :: "CBS \<Rightarrow> CBS option \<times> CBS" where
  "CBS_get_u16_length_prefixed c = cbs_get_length_prefixed c 2"

definition CBS_get_u24_length_prefixed :: "CBS \<Rightarrow> CBS option \<times> CBS" where
  "CBS_get_u24_length_prefixed c = cbs_get_length_prefixed c 3"

section \<open>ASN.1 elements\<close>

text \<open>Tags are \<open>unsigned\<close>.\<close>

definition CBS_ASN1_BOOLEAN :: u32 where "CBS_ASN1_BOOLEAN = 0x1"
definition CBS_ASN1_INTEGER :: u32 where "CBS_ASN1_INTEGER = 0x2"
definition CBS_ASN1_OCTETSTRING :: u32 where "CBS_ASN1_OCTETSTRING = 0x4"
definition CBS_ASN1_CONSTRUCTED :: u32 where "CBS_ASN1_CONSTRUCTED = 0x20"

text \<open>The result: \<open>*out\<close>, \<open>*out_tag\<close> and \<open>*out_header_len\<close>.\<close>

definition cbs_get_any_asn1_element :: "CBS \<Rightarrow> bool \<Rightarrow> (CBS \<times> u32 \<times> nat) option \<times> CBS" where
  "cbs_get_any_asn1_element c ber_ok =
     (case CBS_get_u8 c of
        (None, header) \<Rightarrow> (None, c)
      | (Some tag, header) \<Rightarrow>
     (case CBS_get_u8 header of
        (None, header) \<Rightarrow> (None, c)
      | (Some length_byte, header) \<Rightarrow>
     (if tag AND 0x1f = 0x1f then (None, c)
      else
        let out_tag = (ucast tag :: u32);
            get = (\<lambda>len header_len.
              case CBS_get_bytes c len of
                (None, c) \<Rightarrow> (None, c)
              | (Some out, c) \<Rightarrow> (Some (out, out_tag, header_len), c))
        in if length_byte AND 0x80 = 0 then get (unat length_byte + 2) 2
           else
             let num_bytes = unat (length_byte AND 0x7f)
             in if ber_ok \<and> ucast tag AND CBS_ASN1_CONSTRUCTED \<noteq> 0 \<and> num_bytes = 0 then get 2 2
                else if num_bytes = 0 \<or> num_bytes > 4 then (None, c)
                else
                  (case cbs_get_u header num_bytes of
                     (None, header) \<Rightarrow> (None, c)
                   | (Some len32, header) \<Rightarrow>
                       if len32 < 128 then (None, c)
                       else if drop_bit ((num_bytes - 1) * 8) len32 = 0 then (None, c)
                       else
                         let len = unat len32
                         in if size_add (size_add len 2) num_bytes < len then (None, c)
                            else get (size_add len (size_add 2 num_bytes)) (2 + num_bytes)))))"

definition CBS_get_any_asn1_element :: "CBS \<Rightarrow> (CBS \<times> u32 \<times> nat) option \<times> CBS" where
  "CBS_get_any_asn1_element c = cbs_get_any_asn1_element c False"

definition CBS_get_any_ber_asn1_element :: "CBS \<Rightarrow> (CBS \<times> u32 \<times> nat) option \<times> CBS" where
  "CBS_get_any_ber_asn1_element c = cbs_get_any_asn1_element c True"

definition CBS_get_any_asn1 :: "CBS \<Rightarrow> (CBS \<times> u32) option \<times> CBS" where
  "CBS_get_any_asn1 c =
     (case CBS_get_any_asn1_element c of
        (None, c) \<Rightarrow> (None, c)
      | (Some (out, tag, header_len), c) \<Rightarrow>
          let (ok, out) = CBS_skip out header_len
          in if \<not> ok then (None, c) else (Some (out, tag), c))"

definition cbs_get_asn1 :: "CBS \<Rightarrow> u32 \<Rightarrow> bool \<Rightarrow> CBS option \<times> CBS" where
  "cbs_get_asn1 c tag_value skip_header =
     (case CBS_get_any_asn1_element c of
        (None, c) \<Rightarrow> (None, c)
      | (Some (out, tag, header_len), c) \<Rightarrow>
          if tag \<noteq> tag_value then (None, c)
          else if skip_header
          then (let (ok, out) = CBS_skip out header_len
                in if \<not> ok then (None, c) else (Some out, c))
          else (Some out, c))"

definition CBS_get_asn1 :: "CBS \<Rightarrow> u32 \<Rightarrow> CBS option \<times> CBS" where
  "CBS_get_asn1 c tag_value = cbs_get_asn1 c tag_value True"

definition CBS_get_asn1_element :: "CBS \<Rightarrow> u32 \<Rightarrow> CBS option \<times> CBS" where
  "CBS_get_asn1_element c tag_value = cbs_get_asn1 c tag_value False"

definition CBS_peek_asn1_tag :: "CBS \<Rightarrow> u32 \<Rightarrow> bool" where
  "CBS_peek_asn1_tag c tag_value =
     (if CBS_len c < 1 then False else ucast (cbs_buf c ! CBS_data c) = tag_value)"

text \<open>The accumulation loop: \<open>None\<close> when the value does not fit 64 bits.\<close>

fun asn1_uint64_loop :: "u64 \<Rightarrow> u8 list \<Rightarrow> u64 option" where
  "asn1_uint64_loop out [] = Some out"
| "asn1_uint64_loop out (b # data) =
     (if drop_bit 56 out \<noteq> 0 then None
      else asn1_uint64_loop (push_bit 8 out OR ucast b) data)"

definition CBS_get_asn1_uint64 :: "CBS \<Rightarrow> u64 option \<times> CBS" where
  "CBS_get_asn1_uint64 c =
     (case CBS_get_asn1 c CBS_ASN1_INTEGER of
        (None, c) \<Rightarrow> (None, c)
      | (Some bytes, c) \<Rightarrow>
          let data = cbs_view bytes; len = CBS_len bytes
          in if len = 0 then (None, c)
             else if data ! 0 AND 0x80 \<noteq> 0 then (None, c)
             else if data ! 0 = 0 \<and> len > 1 \<and> data ! 1 AND 0x80 = 0 then (None, c)
             else (asn1_uint64_loop 0 data, c))"

text \<open>Success with \<open>None\<close> inside is an absent element (\<open>*out_present\<close> is 0).\<close>

definition CBS_get_optional_asn1 :: "CBS \<Rightarrow> u32 \<Rightarrow> CBS option option \<times> CBS" where
  "CBS_get_optional_asn1 c tag =
     (if CBS_peek_asn1_tag c tag
      then (case CBS_get_asn1 c tag of
              (None, c) \<Rightarrow> (None, c)
            | (Some out, c) \<Rightarrow> (Some (Some out), c))
      else (Some None, c))"

text \<open>The result: \<open>*out\<close> and \<open>*out_present\<close>.\<close>

definition CBS_get_optional_asn1_octet_string :: "CBS \<Rightarrow> u32 \<Rightarrow> (CBS \<times> bool) option \<times> CBS" where
  "CBS_get_optional_asn1_octet_string c tag =
     (case CBS_get_optional_asn1 c tag of
        (None, c) \<Rightarrow> (None, c)
      | (Some (Some child), c) \<Rightarrow>
          (case CBS_get_asn1 child CBS_ASN1_OCTETSTRING of
             (None, child) \<Rightarrow> (None, c)
           | (Some out, child) \<Rightarrow>
               if CBS_len child \<noteq> 0 then (None, c) else (Some (out, True), c))
      | (Some None, c) \<Rightarrow> (Some (CBS_init [] 0 0, False), c))"

definition CBS_get_optional_asn1_uint64 :: "CBS \<Rightarrow> u32 \<Rightarrow> u64 \<Rightarrow> u64 option \<times> CBS" where
  "CBS_get_optional_asn1_uint64 c tag default_value =
     (case CBS_get_optional_asn1 c tag of
        (None, c) \<Rightarrow> (None, c)
      | (Some (Some child), c) \<Rightarrow>
          (case CBS_get_asn1_uint64 child of
             (None, child) \<Rightarrow> (None, c)
           | (Some out, child) \<Rightarrow> if CBS_len child \<noteq> 0 then (None, c) else (Some out, c))
      | (Some None, c) \<Rightarrow> (Some default_value, c))"

definition CBS_get_optional_asn1_bool :: "CBS \<Rightarrow> u32 \<Rightarrow> int \<Rightarrow> int option \<times> CBS" where
  "CBS_get_optional_asn1_bool c tag default_value =
     (case CBS_get_optional_asn1 c tag of
        (None, c) \<Rightarrow> (None, c)
      | (Some (Some child), c) \<Rightarrow>
          (case CBS_get_asn1 child CBS_ASN1_BOOLEAN of
             (None, child) \<Rightarrow> (None, c)
           | (Some child2, child) \<Rightarrow>
               if CBS_len child2 \<noteq> 1 \<or> CBS_len child \<noteq> 0 then (None, c)
               else let boolean = cbs_buf child2 ! CBS_data child2
                 in if boolean = 0 then (Some 0, c)
                    else if boolean = 0xff then (Some 1, c)
                    else (None, c))
      | (Some None, c) \<Rightarrow> (Some default_value, c))"

definition CBS_is_valid_asn1_bitstring :: "CBS \<Rightarrow> bool" where
  "CBS_is_valid_asn1_bitstring c =
     (case CBS_get_u8 c of
        (None, inp) \<Rightarrow> False
      | (Some num_unused_bits, inp) \<Rightarrow>
          if num_unused_bits > 7 then False
          else if num_unused_bits = 0 then True
          else case CBS_get_last_u8 inp of
              (None, inp) \<Rightarrow> False
            | (Some last_byte, inp) \<Rightarrow> last_byte AND (push_bit (unat num_unused_bits) 1 - 1) = 0)"

definition CBS_asn1_bitstring_has_bit :: "CBS \<Rightarrow> u32 \<Rightarrow> bool" where
  "CBS_asn1_bitstring_has_bit c bit_index =
     (if \<not> CBS_is_valid_asn1_bitstring c then False
      else let byte_num = drop_bit 3 bit_index + 1; bit_num = 7 - (bit_index AND 7)
        in unat byte_num < CBS_len c \<and>
           cbs_buf c ! (CBS_data c + unat byte_num) AND push_bit (unat bit_num) 1 \<noteq> 0)"

section \<open>Windows as byte strings\<close>

text \<open>A window lies in its buffer; \<open>cbs_adv\<close> is the window after \<open>n\<close> bytes were read.\<close>

definition cbs_wf :: "CBS \<Rightarrow> bool" where
  "cbs_wf c \<longleftrightarrow> cbs_off c + cbs_len c \<le> length (cbs_buf c)"

definition cbs_adv :: "nat \<Rightarrow> CBS \<Rightarrow> CBS" where
  "cbs_adv n c = c\<lparr>cbs_off := cbs_off c + n, cbs_len := cbs_len c - n\<rparr>"

named_theorems cbs

lemma length_cbs_view [simp, cbs]: "cbs_wf c \<Longrightarrow> length (cbs_view c) = cbs_len c"
  by (auto simp: cbs_wf_def cbs_view_def mem_bytes_def)

lemma cbs_wf_adv [simp, cbs]: "cbs_wf c \<Longrightarrow> n \<le> cbs_len c \<Longrightarrow> cbs_wf (cbs_adv n c)"
  by (simp add: cbs_wf_def cbs_adv_def)

lemma cbs_view_adv [simp, cbs]: "cbs_view (cbs_adv n c) = drop n (cbs_view c)"
  by (simp add: cbs_view_def mem_bytes_def cbs_adv_def drop_take add.commute)

lemma cbs_adv_len [simp]: "cbs_len (cbs_adv n c) = cbs_len c - n"
  by (simp add: cbs_adv_def)

lemma cbs_adv_off [simp]: "cbs_off (cbs_adv n c) = cbs_off c + n"
  by (simp add: cbs_adv_def)

lemma cbs_adv_buf [simp]: "cbs_buf (cbs_adv n c) = cbs_buf c"
  by (simp add: cbs_adv_def)

lemma cbs_adv_adv [simp, cbs]: "cbs_adv m (cbs_adv n c) = cbs_adv (n + m) c"
  by (simp add: cbs_adv_def)

lemma cbs_adv_0 [simp]: "cbs_adv 0 c = c"
  by (simp add: cbs_adv_def)

lemma mem_bytes_view [cbs]:
  "n \<le> cbs_len c \<Longrightarrow> mem_bytes (cbs_buf c) (cbs_off c) n = take n (cbs_view c)"
  by (simp add: cbs_view_def mem_bytes_def min_def)

lemma nth_cbs_buf [cbs]:
  "i < cbs_len c \<Longrightarrow> cbs_wf c \<Longrightarrow> cbs_buf c ! (cbs_off c + i) = cbs_view c ! i"
  by (simp add: cbs_view_def mem_bytes_def cbs_wf_def)

lemma cbs_view_of [simp]: "cbs_view (cbs_of bs) = bs"
  by (simp add: cbs_view_def cbs_of_def CBS_init_def mem_bytes_def)

lemma cbs_wf_of [simp]: "cbs_wf (cbs_of bs)"
  by (simp add: cbs_wf_def cbs_of_def CBS_init_def)

lemma cbs_view_init [simp]:
  "n \<le> cbs_len c \<Longrightarrow> cbs_view (CBS_init (cbs_buf c) (cbs_off c) n) = take n (cbs_view c)"
  by (simp add: cbs_view_def CBS_init_def mem_bytes_def)

lemma cbs_wf_init [simp]:
  "cbs_wf c \<Longrightarrow> n \<le> cbs_len c \<Longrightarrow> cbs_wf (CBS_init (cbs_buf c) (cbs_off c) n)"
  by (simp add: cbs_wf_def CBS_init_def)

lemma cbs_init_fields [simp]:
  "cbs_buf (CBS_init b p n) = b" "cbs_off (CBS_init b p n) = p" "cbs_len (CBS_init b p n) = n"
  by (simp_all add: CBS_init_def)

text \<open>Every reader in these terms.\<close>

lemma cbs_get_eq [cbs]:
  "cbs_get c n = (if n \<le> cbs_len c then (Some (cbs_off c), cbs_adv n c) else (None, c))"
  by (simp add: cbs_get_def cbs_adv_def)

lemma CBS_skip_eq [cbs]:
  "CBS_skip c n = (if n \<le> cbs_len c then (True, cbs_adv n c) else (False, c))"
  by (simp add: CBS_skip_def cbs_get_eq)

lemma CBS_get_u8_eq:
  "cbs_wf c \<Longrightarrow> CBS_get_u8 c =
     (case cbs_view c of [] \<Rightarrow> (None, c) | b # bs \<Rightarrow> (Some b, cbs_adv 1 c))"
  using nth_cbs_buf[of 0 c] length_cbs_view[of c]
  by (cases "cbs_view c") (auto simp: CBS_get_u8_def cbs_get_eq)

lemma CBS_get_bytes_eq [cbs]:
  "CBS_get_bytes c n =
     (if n \<le> cbs_len c then (Some (CBS_init (cbs_buf c) (cbs_off c) n), cbs_adv n c) else (None, c))"
  by (simp add: CBS_get_bytes_def cbs_get_eq)

lemma CBS_copy_bytes_eq:
  "CBS_copy_bytes c n = (if n \<le> cbs_len c then (Some (take n (cbs_view c)), cbs_adv n c) else (None, c))"
  by (simp add: CBS_copy_bytes_def cbs_get_eq mem_bytes_view)

lemma foldl_shift_u32:
  "length bs \<le> 4 \<Longrightarrow>
   unat (foldl (\<lambda>result b. push_bit 8 result OR ucast (b :: u8)) (0 :: u32) bs) = be_val bs"
proof (induction bs rule: rev_induct)
  case Nil
  then show ?case by simp
next
  case (snoc b bs)
  have "be_val bs < 256 ^ length bs" by (rule be_val_lt)
  also have "\<dots> \<le> 256 ^ 3" using snoc.prems by (intro power_increasing) simp_all
  finally have "be_val bs * 2 ^ 8 < 2 ^ 32" by simp
  with snoc unat_u8_lt[of b] show ?case
    by (simp add: unat_push_bit_or unat_ucast_u8_u32)
qed

lemma cbs_get_u_eq:
  "n \<le> 4 \<Longrightarrow> cbs_get_u c n =
     (if n \<le> cbs_len c then (Some (of_nat (be_val (take n (cbs_view c)))), cbs_adv n c) else (None, c))"
proof -
  assume "n \<le> 4"
  then have "unat (foldl (\<lambda>result b. push_bit 8 result OR ucast b) (0 :: u32) (take n (cbs_view c)))
      = be_val (take n (cbs_view c))"
    by (intro foldl_shift_u32) simp
  then have "foldl (\<lambda>result b. push_bit 8 result OR ucast b) (0 :: u32) (take n (cbs_view c))
      = of_nat (be_val (take n (cbs_view c)))"
    by (rule word_eq_of_nat)
  then show ?thesis by (simp add: cbs_get_u_def cbs_get_eq mem_bytes_view)
qed

text \<open>The header of an element, read off the front of a byte string: tag, element length, header length.\<close>

fun asn1_header :: "bool \<Rightarrow> u8 list \<Rightarrow> (u8 \<times> nat \<times> nat) option" where
  "asn1_header ber (tag # l # bs) =
     (if tag AND 0x1f = 0x1f then None
      else if unat l < 128 then Some (tag, unat l + 2, 2)
      else let k = unat l - 128; n = be_val (take k bs)
        in if ber \<and> bit tag 5 \<and> k = 0 then Some (tag, 2, 2)
           else if k = 0 \<or> 4 < k \<or> length bs < k \<or> n < 128 \<or> n < 256 ^ (k - 1) then None
           else Some (tag, n + 2 + k, 2 + k))"
| "asn1_header ber bs = None"

lemma asn1_constructed_bit:
  "(ucast (tag :: u8) :: u32) AND CBS_ASN1_CONSTRUCTED \<noteq> 0 \<longleftrightarrow> bit tag 5"
  using and_push_bit_1_eq_0[of "ucast tag :: u32" 5]
  by (simp add: CBS_ASN1_CONSTRUCTED_def push_bit_eq_mult bit_ucast_iff)

lemma u32_length_tests:
  assumes "be_val bs < 256 ^ 4" "k \<le> 4" "0 < k"
  shows "(of_nat (be_val bs) :: u32) < 128 \<longleftrightarrow> be_val bs < 128"
    and "drop_bit ((k - 1) * 8) (of_nat (be_val bs) :: u32) = 0 \<longleftrightarrow> be_val bs < 256 ^ (k - 1)"
    and "unat (of_nat (be_val bs) :: u32) = be_val bs"
proof -
  show u: "unat (of_nat (be_val bs) :: u32) = be_val bs"
    using assms(1) by (simp add: unat_of_nat)
  show "(of_nat (be_val bs) :: u32) < 128 \<longleftrightarrow> be_val bs < 128"
    by (simp add: word_less_nat_alt u)
  have e: "(2::nat) ^ ((k - 1) * 8) = 256 ^ (k - 1)"
    by (simp only: mult.commute[of "k - 1"] power_mult) simp
  have "drop_bit ((k - 1) * 8) (of_nat (be_val bs) :: u32) = 0 \<longleftrightarrow>
      unat (drop_bit ((k - 1) * 8) (of_nat (be_val bs) :: u32)) = 0"
    by (simp only: unat_eq_0)
  also have "\<dots> \<longleftrightarrow> be_val bs div 256 ^ (k - 1) = 0"
    unfolding unat_drop_bit_eq u by (simp only: drop_bit_eq_div e)
  also have "\<dots> \<longleftrightarrow> be_val bs < 256 ^ (k - 1)" by (simp add: div_eq_0_iff)
  finally show "drop_bit ((k - 1) * 8) (of_nat (be_val bs) :: u32) = 0 \<longleftrightarrow>
    be_val bs < 256 ^ (k - 1)" .
qed

lemma cbs_get_any_asn1_element_eq:
  assumes "cbs_wf c"
  shows "cbs_get_any_asn1_element c ber =
    (case asn1_header ber (cbs_view c) of
       None \<Rightarrow> (None, c)
     | Some (tag, n, hl) \<Rightarrow>
         if n \<le> cbs_len c
         then (Some (CBS_init (cbs_buf c) (cbs_off c) n, ucast tag, hl), cbs_adv n c)
         else (None, c))"
proof -
  consider "cbs_view c = []" | tag where "cbs_view c = [tag]"
    | tag l bs where "cbs_view c = tag # l # bs"
    by (metis neq_Nil_conv)
  then show ?thesis
  proof cases
    case 1
    then show ?thesis using assms by (simp add: cbs_get_any_asn1_element_def CBS_get_u8_eq)
  next
    case 2
    then have "cbs_len c = 1" using length_cbs_view[OF assms] by simp
    with 2 show ?thesis using assms by (simp add: cbs_get_any_asn1_element_def CBS_get_u8_eq)
  next
    case (3 tag l bs)
    let ?k = "unat (l AND 0x7f)"
    have len: "cbs_len c = length bs + 2" using length_cbs_view[OF assms] 3 by simp
    show ?thesis
    proof (cases "unat l < 128")
      case True
      then show ?thesis using assms 3 len
        by (simp add: cbs_get_any_asn1_element_def CBS_get_u8_eq u8_and_80 CBS_get_bytes_eq Let_def)
    next
      case False
      then have k: "?k = unat l - 128" using unat_u8_lt[of l] by (simp add: u8_and_7f mod_if)
      show ?thesis
      proof (cases "?k = 0 \<or> 4 < ?k")
        case True
        then show ?thesis using assms 3 len False k
          by (auto simp: cbs_get_any_asn1_element_def CBS_get_u8_eq u8_and_80 CBS_get_bytes_eq Let_def
              asn1_constructed_bit)
      next
        case k4: False
        have "be_val (take ?k bs) < 256 ^ length (take ?k bs)" by (rule be_val_lt)
        also have "\<dots> \<le> 256 ^ 4" using k4 by (intro power_increasing) auto
        finally have n: "be_val (take ?k bs) < 256 ^ 4" .
        have "be_val (take ?k bs) + 2 + ?k < SIZE_MOD"
          using n k4 by (simp add: SIZE_MOD_def)
        then have "size_add (size_add (be_val (take ?k bs)) 2) ?k = be_val (take ?k bs) + 2 + ?k"
          "size_add (be_val (take ?k bs)) (size_add 2 ?k) = be_val (take ?k bs) + 2 + ?k"
          by (simp_all add: size_add_def)
        moreover have "\<not> unat (l AND 0x7f) = 0" "\<not> 4 < unat (l AND 0x7f)" using k4 by simp_all
        moreover note u32_length_tests[OF n, of ?k]
        ultimately show ?thesis using assms 3 len False k4
          apply (simp add: cbs_get_any_asn1_element_def CBS_get_u8_eq u8_and_80 CBS_get_bytes_eq Let_def
              asn1_constructed_bit cbs_get_u_eq k[symmetric] del: unat_eq_zero not_less)
          done
      qed
    qed
  qed
qed

section \<open>DER as a reference\<close>

text \<open>
  The DER encoding (X.690): the length in the short form below 128, else in the long form
  with as few bytes as possible.
\<close>

definition der_len :: "nat \<Rightarrow> u8 list" where
  "der_len n = (if n < 128 then [of_nat n] else of_nat (128 + length (be_min n)) # be_min n)"

definition der_element :: "u8 \<Rightarrow> u8 list \<Rightarrow> u8 list" where
  "der_element tag contents = tag # der_len (length contents) @ contents"

definition der_tag_ok :: "u8 \<Rightarrow> bool" where
  "der_tag_ok tag \<longleftrightarrow> tag AND 0x1f \<noteq> 0x1f"

lemma length_be_min_4: "n < 2 ^ 32 \<Longrightarrow> length (be_min n) \<le> 4"
  by (simp add: length_be_min_le)

lemma be_min_not_shorter: "0 < n \<Longrightarrow> 256 ^ (length (be_min n) - 1) \<le> n"
  using length_be_min_le[of n "length (be_min n) - 1"] by (cases "length (be_min n)") auto

lemma asn1_header_der:
  assumes "der_tag_ok tag" "m < 2 ^ 32"
  shows "asn1_header ber (tag # der_len m @ r) =
    Some (tag, 1 + length (der_len m) + m, 1 + length (der_len m))"
proof (cases "m < 128")
  case True
  then have "unat (of_nat m :: u8) = m" by (simp add: unat_of_nat)
  with True show ?thesis using assms(1) by (simp add: der_tag_ok_def der_len_def)
next
  case False
  let ?k = "length (be_min m)"
  have k: "0 < ?k" "?k \<le> 4" using False length_be_min_4[OF assms(2)] by auto
  then have u: "unat (of_nat (128 + ?k) :: u8) = 128 + ?k" by (simp add: unat_of_nat del: of_nat_add)
  have "be_val (take ?k (be_min m @ r)) = m" by simp
  moreover have "256 ^ (?k - 1) \<le> m" using False by (intro be_min_not_shorter) simp
  ultimately show ?thesis using assms(1) False k u
    by (simp add: der_tag_ok_def der_len_def Let_def not_less del: of_nat_add)
qed

lemma be_min_bounded:
  assumes "length bs = k" "256 ^ (k - 1) \<le> be_val bs"
  shows "be_min (be_val bs) = bs"
proof (rule be_min_be_val, rule ccontr)
  assume "\<not> (bs = [] \<or> hd bs \<noteq> 0)"
  then obtain bs' where bs: "bs = 0 # bs'" by (cases bs) auto
  have "be_val (0 # bs') = be_val bs'" by (simp add: be_val_def)
  then have "be_val bs < 256 ^ (k - 1)" using be_val_lt[of bs'] bs assms(1) by auto
  with assms(2) show False by simp
qed

lemma asn1_header_is_der:
  assumes "asn1_header False bs = Some (tag, n, hl)"
  shows "\<exists>m r. bs = tag # der_len m @ r \<and> der_tag_ok tag \<and> m < 2 ^ 32 \<and>
    hl = 1 + length (der_len m) \<and> n = hl + m"
proof -
  from assms obtain l bs' where bs: "bs = tag # l # bs'"
    by (cases "(False, bs)" rule: asn1_header.cases) (auto simp: Let_def split: if_splits)
  have ok: "der_tag_ok tag" using assms by (auto simp: bs der_tag_ok_def split: if_splits)
  show ?thesis
  proof (cases "unat l < 128")
    case True
    then have "der_len (unat l) = [l]" by (simp add: der_len_def)
    then show ?thesis using assms True ok
      by (intro exI[of _ "unat l"] exI[of _ bs']) (auto simp: bs der_tag_ok_def)
  next
    case False
    let ?k = "unat l - 128"
    let ?m = "be_val (take ?k bs')"
    have c: "0 < ?k" "?k \<le> 4" "?k \<le> length bs'" "128 \<le> ?m" "256 ^ (?k - 1) \<le> ?m"
      "n = ?m + 2 + ?k" "hl = 2 + ?k"
      using assms False by (auto simp: bs Let_def split: if_splits)
    have m: "be_min ?m = take ?k bs'" using c by (intro be_min_bounded[of _ ?k]) auto
    have "?m < 256 ^ length (take ?k bs')" by (rule be_val_lt)
    also have "\<dots> \<le> 256 ^ 4" using c by (intro power_increasing) auto
    finally have lt: "?m < 2 ^ 32" by simp
    have "of_nat (128 + ?k) = l" using False by simp
    then have "der_len ?m = l # take ?k bs'" using c m by (simp add: der_len_def del: of_nat_add)
    moreover from this have "length (der_len ?m) = Suc ?k" using c by simp
    moreover have "hl + ?m = n" using c(6,7) by linarith
    moreover have "bs = tag # der_len ?m @ drop ?k bs'" using calculation(1) by (simp add: bs)
    ultimately show ?thesis using ok c(7) lt
      by (intro exI[of _ ?m] exI[of _ "drop ?k bs'"] conjI) (assumption | linarith)+
  qed
qed

section \<open>Elements\<close>

text \<open>What an element parser leaves: a window split into the element and what follows it.\<close>

definition cbs_splits :: "CBS \<Rightarrow> CBS \<Rightarrow> CBS \<Rightarrow> bool" where
  "cbs_splits c out rest \<longleftrightarrow>
     cbs_wf out \<and> cbs_wf rest \<and> cbs_buf out = cbs_buf c \<and> cbs_buf rest = cbs_buf c \<and>
     cbs_off out = cbs_off c \<and> cbs_off rest = cbs_off c + cbs_len out \<and>
     cbs_len c = cbs_len out + cbs_len rest"

lemma cbs_splits_init_adv:
  "cbs_wf c \<Longrightarrow> n \<le> cbs_len c \<Longrightarrow>
   cbs_splits c (CBS_init (cbs_buf c) (cbs_off c) n) (cbs_adv n c)"
  by (simp add: cbs_splits_def)

lemma asn1_header_len: "asn1_header ber bs = Some (tag, n, hl) \<Longrightarrow> 2 \<le> hl \<and> hl \<le> n \<and> hl \<le> length bs"
  by (cases "(ber, bs)" rule: asn1_header.cases)
    (auto simp: Let_def split: if_splits, linarith)

text \<open>The element parser on a window that starts with a DER element, and on one that does not.\<close>

lemma get_any_der_element:
  assumes "cbs_wf c" "cbs_view c = der_element tag contents @ r"
    "der_tag_ok tag" "length contents < 2 ^ 32"
  shows "CBS_get_any_asn1_element c =
    (Some (CBS_init (cbs_buf c) (cbs_off c) (length (der_element tag contents)), ucast tag,
       1 + length (der_len (length contents))),
     cbs_adv (length (der_element tag contents)) c)"
proof -
  have "cbs_len c = length (der_element tag contents @ r)"
    using length_cbs_view[OF assms(1)] assms(2) by simp
  then show ?thesis
    using assms asn1_header_der[OF assms(3,4), of False "contents @ r"]
    by (simp add: CBS_get_any_asn1_element_def cbs_get_any_asn1_element_eq der_element_def)
qed

lemma get_any_der_elementD:
  assumes "cbs_wf c" "CBS_get_any_asn1_element c = (Some (out, tag, hl), c')"
  obtains t contents r where "cbs_view c = der_element t contents @ r" "der_tag_ok t"
    "length contents < 2 ^ 32" "tag = ucast t" "hl = 1 + length (der_len (length contents))"
    "out = CBS_init (cbs_buf c) (cbs_off c) (length (der_element t contents))"
    "c' = cbs_adv (length (der_element t contents)) c"
proof -
  from assms obtain t n where h: "asn1_header False (cbs_view c) = Some (t, n, hl)"
    and n: "n \<le> cbs_len c" and tag: "tag = ucast t"
    and out: "out = CBS_init (cbs_buf c) (cbs_off c) n" and c': "c' = cbs_adv n c"
    by (auto simp: CBS_get_any_asn1_element_def cbs_get_any_asn1_element_eq
        split: option.splits if_splits)
  from asn1_header_is_der[OF h] obtain m r where m: "cbs_view c = t # der_len m @ r"
    "der_tag_ok t" "m < 2 ^ 32" "hl = 1 + length (der_len m)" "n = hl + m"
    by blast
  have "cbs_len c = hl + length r" using m length_cbs_view[OF assms(1)] by simp
  then have mr: "m \<le> length r" using n m(5) by simp
  show ?thesis
  proof (rule that[of t "take m r" "drop m r"])
    show "length (take m r) < 2 ^ 32" using m(3) mr by simp
  qed (use m mr tag out c' in \<open>simp_all add: der_element_def\<close>)
qed

lemma get_asn1_der:
  assumes "cbs_wf c" "cbs_view c = der_element tag contents @ r"
    "der_tag_ok tag" "length contents < 2 ^ 32"
  shows "CBS_get_asn1 c (ucast tag) =
    (Some (CBS_init (cbs_buf c) (cbs_off c + 1 + length (der_len (length contents))) (length contents)),
     cbs_adv (length (der_element tag contents)) c)"
  using get_any_der_element[OF assms]
  by (simp add: CBS_get_asn1_def cbs_get_asn1_def CBS_skip_eq der_element_def cbs_adv_def CBS_init_def)

lemma ucast_u8_u32_eq [simp]: "(ucast (a :: u8) :: u32) = ucast b \<longleftrightarrow> a = b"
  by (metis unat_ucast_u8_u32 word_unat_eq_iff)

lemma get_asn1_derD:
  assumes "cbs_wf c" "CBS_get_asn1 c tag = (Some out, c')"
  obtains t contents r where "cbs_view c = der_element t contents @ r" "der_tag_ok t"
    "length contents < 2 ^ 32" "tag = ucast t"
    "out = CBS_init (cbs_buf c) (cbs_off c + 1 + length (der_len (length contents))) (length contents)"
    "c' = cbs_adv (length (der_element t contents)) c"
proof -
  from assms(2) obtain el hl where e: "CBS_get_any_asn1_element c = (Some (el, tag, hl), c')"
    and out: "CBS_skip el hl = (True, out)"
    by (auto simp: CBS_get_asn1_def cbs_get_asn1_def split: prod.splits option.splits if_splits)
  from get_any_der_elementD[OF assms(1) e] obtain t contents r where
    "cbs_view c = der_element t contents @ r" "der_tag_ok t" "length contents < 2 ^ 32"
    "tag = ucast t" "hl = 1 + length (der_len (length contents))"
    "el = CBS_init (cbs_buf c) (cbs_off c) (length (der_element t contents))"
    "c' = cbs_adv (length (der_element t contents)) c" .
  then show ?thesis using out that
    by (auto simp: CBS_skip_eq der_element_def cbs_adv_def CBS_init_def split: if_splits)
qed

lemma cbs_view_contents:
  assumes "cbs_wf c" "cbs_view c = der_element tag contents @ r"
  shows "cbs_view (CBS_init (cbs_buf c) (cbs_off c + 1 + length (der_len (length contents)))
    (length contents)) = contents"
    and "cbs_wf (CBS_init (cbs_buf c) (cbs_off c + 1 + length (der_len (length contents)))
    (length contents))"
proof -
  let ?h = "1 + length (der_len (length contents))"
  have len: "cbs_len c = ?h + length contents + length r"
    using length_cbs_view[OF assms(1)] assms(2) by (simp add: der_element_def)
  have e: "CBS_init (cbs_buf c) (cbs_off c + 1 + length (der_len (length contents))) (length contents)
      = CBS_init (cbs_buf (cbs_adv ?h c)) (cbs_off (cbs_adv ?h c)) (length contents)"
    by simp
  show "cbs_view (CBS_init (cbs_buf c) (cbs_off c + 1 + length (der_len (length contents)))
    (length contents)) = contents"
    unfolding e using len assms by (subst cbs_view_init) (simp_all add: der_element_def)
  show "cbs_wf (CBS_init (cbs_buf c) (cbs_off c + 1 + length (der_len (length contents)))
    (length contents))"
    unfolding e using len assms(1) by (intro cbs_wf_init) simp_all
qed

section \<open>Integers\<close>

definition der_uint :: "nat \<Rightarrow> u8 list" where
  "der_uint v =
     (if v = 0 then [0] else if unat (hd (be_min v)) \<ge> 128 then 0 # be_min v else be_min v)"

lemma der_uint_neq_Nil [simp]: "der_uint v \<noteq> []"
  by (simp add: der_uint_def)

lemma be_val_der_uint [simp]: "be_val (der_uint v) = v"
  by (simp add: der_uint_def be_val_Cons)

lemma asn1_uint64_loop_eq:
  "asn1_uint64_loop out data =
     (let v = unat out * 256 ^ length data + be_val data
      in if v < 2 ^ 64 then Some (of_nat v) else None)"
proof (induction out data rule: asn1_uint64_loop.induct)
  case (1 out)
  show ?case using unsigned_less[of out, where 'a=nat] by simp
next
  case (2 out b data)
  let ?o = "push_bit 8 out OR ucast b"
  have d: "drop_bit 56 out = 0 \<longleftrightarrow> unat out < 2 ^ 56"
  proof -
    have "drop_bit 56 out = 0 \<longleftrightarrow> unat (drop_bit 56 out) = 0" by (simp only: unat_eq_0)
    also have "\<dots> \<longleftrightarrow> unat out < 2 ^ 56"
      unfolding unat_drop_bit_eq by (simp only: drop_bit_eq_div div_eq_0_iff) simp
    finally show ?thesis .
  qed
  have v: "unat out * 256 ^ length (b # data) + be_val (b # data)
      = (unat out * 256 + unat b) * 256 ^ length data + be_val data"
    by (simp add: be_val_Cons algebra_simps)
  show ?case
  proof (cases "unat out < 2 ^ 56")
    case True
    then have o: "unat ?o = unat out * 256 + unat b"
      using unat_u8_lt[of b] by (subst unat_push_bit_or) (simp_all add: unat_ucast_u8_u64)
    show ?thesis unfolding asn1_uint64_loop.simps using 2 True d v o by (simp only: Let_def) simp
  next
    case False
    then have "2 ^ 64 \<le> unat out * 256" by simp
    also have "\<dots> \<le> (unat out * 256 + unat b) * 1" by simp
    also have "\<dots> \<le> (unat out * 256 + unat b) * 256 ^ length data" by (intro mult_le_mono2) simp
    finally show ?thesis unfolding asn1_uint64_loop.simps using False d v by (simp add: Let_def)
  qed
qed

lemma der_uint_iff:
  "data \<noteq> [] \<and> data ! 0 AND 0x80 = 0 \<and>
   \<not> (data ! 0 = 0 \<and> length data > 1 \<and> data ! 1 AND 0x80 = 0) \<longleftrightarrow> data = der_uint (be_val data)"
  (is "?ok \<longleftrightarrow> _")
proof
  assume ok: ?ok
  then obtain d ds where data: "data = d # ds" by (cases data) auto
  show "data = der_uint (be_val data)"
  proof (cases "d = 0")
    case False
    then have "be_min (be_val data) = data" by (intro be_min_be_val) (simp add: data)
    then show ?thesis using ok by (auto simp: der_uint_def data u8_and_80)
  next
    case True
    show ?thesis
    proof (cases ds)
      case Nil
      then show ?thesis using True by (simp add: data der_uint_def be_val_Cons)
    next
      case (Cons e es)
      then have e: "128 \<le> unat e" using ok True by (simp add: data u8_and_80)
      then have "be_min (be_val ds) = ds" by (intro be_min_be_val) (auto simp: Cons)
      then show ?thesis using True Cons e by (auto simp: data der_uint_def be_val_Cons)
    qed
  qed
next
  assume "data = der_uint (be_val data)"
  moreover obtain b bs where "be_val data = 0 \<or> be_min (be_val data) = b # bs"
    by (metis be_min_eq_Nil neq_Nil_conv)
  moreover have "be_val data \<noteq> 0 \<Longrightarrow> hd (be_min (be_val data)) \<noteq> 0"
    by (intro hd_be_min) simp
  ultimately show ?ok
    by (auto simp: der_uint_def u8_and_80 not_less split: if_splits)
qed

section \<open>What the parsers accept\<close>

text \<open>
  Property C3: the element parsers (DER and BER) never leave the window. On success the window
  is split into the element and the rest, both inside the same buffer, and the reported header
  lies inside the element; on failure the caller's window is untouched.
\<close>

theorem cbs_get_any_asn1_element_window:
  assumes "cbs_wf c"
  shows "case cbs_get_any_asn1_element c ber of
      (None, c') \<Rightarrow> c' = c
    | (Some (out, tag, header_len), c') \<Rightarrow>
        cbs_splits c out c' \<and> 2 \<le> header_len \<and> header_len \<le> cbs_len out"
  unfolding cbs_get_any_asn1_element_eq[OF assms]
  using assms
  by (auto simp: cbs_splits_init_adv dest: asn1_header_len split: option.splits)

theorem cbs_get_any_asn1_element_window_witness:
  "case cbs_get_any_asn1_element (cbs_of [0x30, 0x80, 7]) True of
      (None, c') \<Rightarrow> c' = cbs_of [0x30, 0x80, 7]
    | (Some (out, tag, header_len), c') \<Rightarrow>
        cbs_splits (cbs_of [0x30, 0x80, 7]) out c' \<and> 2 \<le> header_len \<and> header_len \<le> cbs_len out"
  by (rule cbs_get_any_asn1_element_window) simp

text \<open>
  Property C2: \<^verbatim>\<open>CBS_get_any_asn1\<close> is an exact DER element parser: it yields a tag, contents
  and rest if and only if the window is the DER encoding of that tag and those contents,
  followed by that rest, for a single-byte tag and contents below \<open>2 ^ 32\<close> bytes. In
  particular non-minimal lengths and the indefinite form are rejected.
\<close>

theorem CBS_get_any_asn1_iff_der:
  assumes "cbs_wf c"
  shows "(\<exists>out c'. CBS_get_any_asn1 c = (Some (out, tag), c') \<and>
            cbs_view out = contents \<and> cbs_view c' = r) \<longleftrightarrow>
         (\<exists>t. tag = ucast t \<and> der_tag_ok t \<and> length contents < 2 ^ 32 \<and>
            cbs_view c = der_element t contents @ r)"
    (is "?parse \<longleftrightarrow> ?der")
proof
  assume ?parse
  then obtain out c' where p: "CBS_get_any_asn1 c = (Some (out, tag), c')"
    and v: "cbs_view out = contents" "cbs_view c' = r" by blast
  then obtain el hl where e: "CBS_get_any_asn1_element c = (Some (el, tag, hl), c')"
    and out: "CBS_skip el hl = (True, out)"
    by (auto simp: CBS_get_any_asn1_def split: prod.splits option.splits if_splits)
  from e have "CBS_get_asn1 c tag = (Some out, c')"
    using out by (simp add: CBS_get_asn1_def cbs_get_asn1_def)
  from get_asn1_derD[OF assms this] obtain t contents' r' where
    d: "cbs_view c = der_element t contents' @ r'" "der_tag_ok t" "length contents' < 2 ^ 32"
    "tag = ucast t"
    and o: "out = CBS_init (cbs_buf c) (cbs_off c + 1 + length (der_len (length contents')))
      (length contents')"
    and c': "c' = cbs_adv (length (der_element t contents')) c" .
  have "contents' = contents" using v(1) cbs_view_contents(1)[OF assms d(1)] by (simp add: o)
  moreover have "r' = r" using v(2) d(1) by (simp add: c')
  ultimately show ?der using d by blast
next
  assume ?der
  then obtain t where t: "tag = ucast t" "der_tag_ok t" "length contents < 2 ^ 32"
    and v: "cbs_view c = der_element t contents @ r" by blast
  note get_any_der_element[OF assms v t(2,3)]
  moreover have "cbs_view (cbs_adv (length (der_element t contents)) c) = r" using v by simp
  ultimately show ?parse using t(1) cbs_view_contents(1)[OF assms v]
    by (simp add: CBS_get_any_asn1_def CBS_skip_eq der_element_def cbs_adv_def CBS_init_def)
qed

theorem CBS_get_any_asn1_iff_der_witness:
  "\<exists>out c'. CBS_get_any_asn1 (cbs_of [4, 2, 7, 8, 9]) = (Some (out, 4), c') \<and>
     cbs_view out = [7, 8] \<and> cbs_view c' = [9]"
  using CBS_get_any_asn1_iff_der[of "cbs_of [4, 2, 7, 8, 9]" 4 "[7, 8]" "[9]"]
  by (simp add: exI[of _ 4] der_tag_ok_def der_element_def der_len_def)

text \<open>
  Property C32: \<^verbatim>\<open>CBS_get_asn1_uint64\<close> accepts exactly the canonical encodings: it returns \<open>v\<close>
  and leaves \<open>r\<close> if and only if the window is the DER \<^verbatim>\<open>INTEGER\<close> of \<open>v\<close> (shortest
  non-negative two's complement form) followed by \<open>r\<close>; values of 64 bits and more, negative
  ones and redundant leading zeros are rejected.
\<close>

theorem CBS_get_asn1_uint64_canonical:
  assumes "cbs_wf c"
  shows "(\<exists>c'. CBS_get_asn1_uint64 c = (Some v, c') \<and> cbs_view c' = r) \<longleftrightarrow>
         cbs_view c = der_element 2 (der_uint (unat v)) @ r"
    (is "?parse \<longleftrightarrow> ?der")
proof
  assume ?parse
  then obtain out c' where a: "CBS_get_asn1 c 2 = (Some out, c')"
    and r: "cbs_view c' = r"
    and d: "cbs_len out \<noteq> 0" "\<not> cbs_view out ! 0 AND 0x80 \<noteq> 0"
      "\<not> (cbs_view out ! 0 = 0 \<and> cbs_len out > 1 \<and> cbs_view out ! 1 AND 0x80 = 0)"
    and l: "asn1_uint64_loop 0 (cbs_view out) = Some v"
    by (auto simp: CBS_get_asn1_uint64_def CBS_ASN1_INTEGER_def Let_def CBS_len_def
        split: prod.splits option.splits if_splits)
  from get_asn1_derD[OF assms a] obtain t contents r' where
    t: "cbs_view c = der_element t contents @ r'" "(2 :: u32) = ucast t"
    and o: "out = CBS_init (cbs_buf c) (cbs_off c + 1 + length (der_len (length contents)))
      (length contents)"
    and c': "c' = cbs_adv (length (der_element t contents)) c" .
  have vo: "cbs_view out = contents" "cbs_len out = length contents"
    using cbs_view_contents(1)[OF assms t(1)] by (simp_all add: o)
  have "contents = der_uint (be_val contents)"
    using d der_uint_iff[of contents] unfolding vo by auto
  moreover have "unat v = be_val contents"
    using l by (auto simp: asn1_uint64_loop_eq Let_def vo unat_of_nat split: if_splits)
  moreover have "t = 2" using t(2) ucast_u8_u32_eq[of t 2] by simp
  moreover have "r' = r" using r t(1) by (simp add: c')
  ultimately show ?der using t(1) by simp
next
  assume v: ?der
  let ?d = "der_uint (unat v)"
  have "unat v < 256 ^ 8" using unsigned_less[of v, where 'a=nat] by simp
  then have "length (be_min (unat v)) \<le> 8" by (simp only: length_be_min_le)
  then have len: "length ?d < 2 ^ 32" by (simp add: der_uint_def)
  have "CBS_get_asn1 c (ucast (2 :: u8)) =
    (Some (CBS_init (cbs_buf c) (cbs_off c + 1 + length (der_len (length ?d))) (length ?d)),
     cbs_adv (length (der_element 2 ?d)) c)"
    by (rule get_asn1_der[OF assms v _ len]) (simp add: der_tag_ok_def)
  then have "CBS_get_asn1 c CBS_ASN1_INTEGER =
    (Some (CBS_init (cbs_buf c) (cbs_off c + 1 + length (der_len (length ?d))) (length ?d)),
     cbs_adv (length (der_element 2 ?d)) c)"
    by (simp add: CBS_ASN1_INTEGER_def)
  moreover have "asn1_uint64_loop 0 ?d = Some v"
    using unsigned_less[of v, where 'a=nat] by (simp add: asn1_uint64_loop_eq)
  moreover have "?d ! 0 AND 0x80 = 0 \<and> \<not> (?d ! 0 = 0 \<and> length ?d > 1 \<and> ?d ! 1 AND 0x80 = 0)"
    using der_uint_iff[of ?d] by simp
  moreover have "cbs_view (cbs_adv (length (der_element 2 ?d)) c) = r" using v by simp
  ultimately show ?parse
    unfolding CBS_get_asn1_uint64_def
    by (simp add: Let_def CBS_len_def cbs_view_contents(1)[OF assms v, simplified])
qed

theorem CBS_get_asn1_uint64_canonical_witness:
  "(\<exists>c'. CBS_get_asn1_uint64 (cbs_of [2, 2, 0, 200, 5]) = (Some 200, c') \<and> cbs_view c' = [5])"
  using CBS_get_asn1_uint64_canonical[of "cbs_of [2, 2, 0, 200, 5]" 200 "[5]"]
  by (simp add: der_element_def der_len_def der_uint_def be_min.simps)

section \<open>Bit strings\<close>

text \<open>The bits a DER BIT STRING has after its unused-bits byte \<open>u\<close>; unused bits are zero.\<close>

definition bitstring_ok :: "u8 \<Rightarrow> u8 list \<Rightarrow> bool" where
  "bitstring_ok u body \<longleftrightarrow>
     unat u \<le> 7 \<and> (u = 0 \<or> body \<noteq> [] \<and> (\<forall>j<unat u. \<not> bit (last body) j))"

lemma and_mask_eq_0_iff: "(b :: u8) AND (push_bit n 1 - 1) = 0 \<longleftrightarrow> (\<forall>j<n. \<not> bit b j)"
proof -
  have "b AND (push_bit n 1 - 1) = take_bit n b"
    by (simp add: take_bit_eq_mask mask_eq_exp_minus_1 push_bit_eq_mult)
  moreover have "take_bit n b = 0 \<longleftrightarrow> (\<forall>j<n. \<not> bit b j)"
    using bit_imp_le_length[of b] by (auto simp: bit_eq_iff bit_take_bit_iff)
  ultimately show ?thesis by simp
qed

lemma CBS_is_valid_asn1_bitstring_eq:
  assumes "cbs_wf c" "cbs_view c = u # body"
  shows "CBS_is_valid_asn1_bitstring c \<longleftrightarrow> bitstring_ok u body"
proof -
  have len: "cbs_len c = Suc (length body)" using length_cbs_view[OF assms(1)] assms(2) by simp
  have "cbs_buf (cbs_adv 1 c) ! (cbs_off (cbs_adv 1 c) + (length body - 1)) = last body" if "body \<noteq> []"
    using nth_cbs_buf[of "length body - 1" "cbs_adv 1 c"] that assms len
    by (simp add: last_conv_nth)
  then show ?thesis
    using assms len and_mask_eq_0_iff[of "last body" "unat u"]
    by (auto simp: CBS_is_valid_asn1_bitstring_def CBS_get_u8_eq CBS_get_last_u8_def bitstring_ok_def
        word_less_nat_alt word_le_nat_alt)
qed

lemma u32_bit_index:
  shows "unat (drop_bit 3 (i :: u32) + 1) = unat i div 8 + 1"
    and "unat (7 - (i AND 7)) = 7 - unat i mod 8"
proof -
  have d: "unat (drop_bit 3 i) = unat i div 8"
    unfolding unat_drop_bit_eq by (simp add: drop_bit_eq_div)
  moreover have "unat i div 8 + 1 < 2 ^ 32" using unsigned_less[of i, where 'a=nat] by simp
  ultimately show "unat (drop_bit 3 i + 1) = unat i div 8 + 1"
    by (simp add: unat_word_ariths)
  have "i AND 7 = take_bit 3 i" by (simp add: take_bit_eq_mask mask_eq_exp_minus_1)
  then have "unat (i AND 7) = take_bit 3 (unat i)" by (simp only: unsigned_take_bit_eq)
  then have a: "unat (i AND 7) = unat i mod 8" by (simp add: take_bit_eq_mod)
  then have "i AND 7 \<le> 7" by (simp add: word_le_nat_alt)
  then show "unat (7 - (i AND 7)) = 7 - unat i mod 8" by (simp add: unat_sub a)
qed

text \<open>
  \<^verbatim>\<open>CBS_asn1_bitstring_has_bit\<close> answers, for every index of an \<^verbatim>\<open>unsigned\<close>, whether
  the bit string is well formed and has that bit, counted from the most significant bit of the
  first byte, among its used bits and set; bits past the end and unused bits are never set,
  although the code only compares byte lengths.
\<close>

theorem CBS_asn1_bitstring_has_bit_spec:
  assumes "cbs_wf c" "cbs_view c = u # body"
  shows "CBS_asn1_bitstring_has_bit c i \<longleftrightarrow>
    bitstring_ok u body \<and> unat i < 8 * length body - unat u \<and>
    bit (body ! (unat i div 8)) (7 - unat i mod 8)"
proof -
  let ?n = "unat i div 8"
  let ?b = "7 - unat i mod 8"
  have len: "cbs_len c = Suc (length body)" using length_cbs_view[OF assms(1)] assms(2) by simp
  have "cbs_buf c ! (cbs_off c + (?n + 1)) = body ! ?n" if "?n < length body"
    using nth_cbs_buf[of "?n + 1" c] that assms len by simp
  then have has: "CBS_asn1_bitstring_has_bit c i \<longleftrightarrow>
      bitstring_ok u body \<and> ?n < length body \<and> bit (body ! ?n) ?b"
    using len
    by (auto simp: CBS_asn1_bitstring_has_bit_def CBS_is_valid_asn1_bitstring_eq[OF assms] Let_def
        u32_bit_index CBS_len_def CBS_data_def and_exp_eq_0_iff_not_bit push_bit_eq_mult)
  have "unat i < 8 * length body - unat u"
    if ok: "bitstring_ok u body" and n: "?n < length body" and b: "bit (body ! ?n) ?b"
  proof (cases "?n = length body - 1")
    case False
    then have "?n + 1 \<le> length body - 1" using n by linarith
    then have "8 * ?n + 16 \<le> 8 * length body" using n by linarith
    moreover have "unat u \<le> 7" using ok by (auto simp: bitstring_ok_def)
    ultimately show ?thesis by presburger
  next
    case True
    then have l: "body ! ?n = last body" using n by (cases body rule: rev_cases) auto
    have "unat u \<le> ?b"
    proof (rule ccontr)
      assume "\<not> unat u \<le> ?b"
      then have "?b < unat u" by simp
      moreover from this have "u \<noteq> 0" by auto
      ultimately show False using ok b l by (auto simp: bitstring_ok_def)
    qed
    moreover have "unat i = 8 * ?n + unat i mod 8" by simp
    moreover have "unat i mod 8 < 8" by simp
    ultimately show ?thesis using True n by linarith
  qed
  moreover have "?n < length body" if "unat i < 8 * length body - unat u"
    using that by (simp add: div_less_iff_less_mult)
  ultimately show ?thesis using has by blast
qed

theorem CBS_asn1_bitstring_has_bit_spec_witness:
  "CBS_asn1_bitstring_has_bit (cbs_of [6, 0x40]) 1"
proof -
  have "\<forall>j<6. \<not> bit (0x40 :: u8) j"
    using and_mask_eq_0_iff[of "0x40" 6] by (simp add: push_bit_eq_mult)
  then have "bitstring_ok 6 [0x40]" by (simp add: bitstring_ok_def)
  then show ?thesis
    using CBS_asn1_bitstring_has_bit_spec[of "cbs_of [6, 0x40]" 6 "[0x40]" 1] by simp
qed

end
