(* ===== verification/CBB.thy ===== *)
theory CBB
  imports CBS
begin

text \<open>
  \<^verbatim>\<open>crypto/bytestring/cbb.c\<close> and \<^verbatim>\<open>asn1_compat.c\<close>: the byte-string builder. The \<open>CBB\<close>
  structs that write to one buffer live in a store indexed by their address; they share the
  buffer object their \<open>base\<close> pointers point to, and form a chain through their \<open>child\<close>
  pointers. An operation returns \<open>Some (ok, w)\<close>: its return value and the new store; \<open>None\<close>
  stands for a call that does not return (a cyclic chain) or dereferences a NULL \<open>base\<close>. The
  asserts of the code are left out, and a store behind the buffer does nothing or extends the list of cells.
\<close>

section \<open>State\<close>

record cbb_buffer =
  bb_buf :: "cell list option"
  bb_len :: nat
  bb_cap :: nat
  bb_can_resize :: bool
  bb_error :: bool

record cbb =
  cbb_base :: bool
  cbb_child :: "nat option"
  cbb_offset :: nat
  cbb_pending_len_len :: nat
  cbb_pending_is_asn1 :: bool
  cbb_is_top_level :: bool

text \<open>\<open>cbb_base\<close> says whether the \<open>base\<close> pointer is set; there is one object it can point to.\<close>

record cbb_world =
  base :: cbb_buffer
  cbbs :: "nat \<Rightarrow> cbb"

type_synonym 'a cbb_result = "('a \<times> cbb_world) option"

definition upd_cbb :: "nat \<Rightarrow> (cbb \<Rightarrow> cbb) \<Rightarrow> cbb_world \<Rightarrow> cbb_world" where
  "upd_cbb p f w = w\<lparr>cbbs := (cbbs w)(p := f (cbbs w p))\<rparr>"

definition upd_base :: "(cbb_buffer \<Rightarrow> cbb_buffer) \<Rightarrow> cbb_world \<Rightarrow> cbb_world" where
  "upd_base f w = w\<lparr>base := f (base w)\<rparr>"

definition set_error :: "cbb_world \<Rightarrow> cbb_world" where
  "set_error w = upd_base (\<lambda>b. b\<lparr>bb_error := True\<rparr>) w"

definition bb_map :: "(cell list \<Rightarrow> cell list) \<Rightarrow> cbb_buffer \<Rightarrow> cbb_buffer" where
  "bb_map f b = b\<lparr>bb_buf := map_option f (bb_buf b)\<rparr>"

text \<open>\<open>if (!m) return 0;\<close> followed by \<open>f\<close>.\<close>

definition and_then :: "bool cbb_result \<Rightarrow> (cbb_world \<Rightarrow> bool cbb_result) \<Rightarrow> bool cbb_result" where
  "and_then m f =
     (case m of
        None \<Rightarrow> None
      | Some (ok, w) \<Rightarrow> if \<not> ok then Some (False, w) else f w)"

section \<open>Initialisation\<close>

definition cbb_zeroed :: cbb where
  "cbb_zeroed =
     \<lparr>cbb_base = False, cbb_child = None, cbb_offset = 0, cbb_pending_len_len = 0,
      cbb_pending_is_asn1 = False, cbb_is_top_level = False\<rparr>"

definition CBB_zero :: "cbb_world \<Rightarrow> nat \<Rightarrow> cbb_world" where
  "CBB_zero w p = upd_cbb p (\<lambda>_. cbb_zeroed) w"

definition sizeof_cbb_buffer :: nat where
  "sizeof_cbb_buffer = 32"

definition cbb_init :: "sys_malloc \<Rightarrow> cbb_world \<Rightarrow> nat \<Rightarrow> cell list option \<Rightarrow> nat \<Rightarrow> bool \<times> cbb_world" where
  "cbb_init sys w p buf cap =
     (case OPENSSL_malloc sys sizeof_cbb_buffer of
        None \<Rightarrow> (False, w)
      | Some _ \<Rightarrow>
          let b = \<lparr>bb_buf = buf, bb_len = 0, bb_cap = cap, bb_can_resize = True, bb_error = False\<rparr>
          in (True, upd_cbb p (\<lambda>c. c\<lparr>cbb_base := True, cbb_is_top_level := True\<rparr>) (w\<lparr>base := b\<rparr>)))"

definition CBB_init :: "sys_malloc \<Rightarrow> cbb_world \<Rightarrow> nat \<Rightarrow> nat \<Rightarrow> bool \<times> cbb_world" where
  "CBB_init sys w p initial_capacity =
     (let w = CBB_zero w p; buf = OPENSSL_malloc sys initial_capacity
      in if initial_capacity > 0 \<and> buf = None then (False, w)
         else let (ok, w) = cbb_init sys w p buf initial_capacity
              in if \<not> ok then (False, w) else (True, w))"

definition CBB_init_fixed ::
  "sys_malloc \<Rightarrow> cbb_world \<Rightarrow> nat \<Rightarrow> cell list option \<Rightarrow> nat \<Rightarrow> bool \<times> cbb_world" where
  "CBB_init_fixed sys w p buf len =
     (let w = CBB_zero w p; (ok, w) = cbb_init sys w p buf len
      in if \<not> ok then (False, w)
         else (True, upd_base (\<lambda>b. b\<lparr>bb_can_resize := False\<rparr>) w))"

definition CBB_cleanup :: "cbb_world \<Rightarrow> nat \<Rightarrow> cbb_world" where
  "CBB_cleanup w p =
     (let w = (if cbb_base (cbbs w p) \<and> bb_can_resize (base w)
               then upd_base (\<lambda>b. b\<lparr>bb_buf := None\<rparr>) w else w)
      in upd_cbb p (\<lambda>c. c\<lparr>cbb_base := False\<rparr>) w)"

section \<open>The buffer\<close>

text \<open>
  \<open>b\<close> says whether the \<open>base\<close> argument is not NULL; the results are \<open>*out\<close>, as an index
  into the buffer, or \<open>None\<close> for failure.
\<close>

definition cbb_buffer_reserve :: "sys_malloc \<Rightarrow> cbb_world \<Rightarrow> bool \<Rightarrow> nat \<Rightarrow> nat option \<times> cbb_world" where
  "cbb_buffer_reserve sys w b len =
     (if \<not> b then (None, w)
      else let newlen = size_add (bb_len (base w)) len
        in if newlen < bb_len (base w) then (None, set_error w)
        else if newlen > bb_cap (base w)
        then let newcap = size_mul (bb_cap (base w)) 2
          in if \<not> bb_can_resize (base w) then (None, set_error w)
          else let newcap = (if newcap < bb_cap (base w) \<or> newcap < newlen then newlen else newcap)
            in (case OPENSSL_realloc sys (bb_buf (base w)) newcap of
                  None \<Rightarrow> (None, set_error w)
                | Some newbuf \<Rightarrow>
                    (Some (bb_len (base w)),
                     upd_base (\<lambda>b. b\<lparr>bb_buf := Some newbuf, bb_cap := newcap\<rparr>) w))
        else (Some (bb_len (base w)), w))"

definition cbb_buffer_add :: "sys_malloc \<Rightarrow> cbb_world \<Rightarrow> bool \<Rightarrow> nat \<Rightarrow> nat option \<times> cbb_world" where
  "cbb_buffer_add sys w b len =
     (case cbb_buffer_reserve sys w b len of
        (None, w) \<Rightarrow> (None, w)
      | (Some out, w) \<Rightarrow> (Some out, upd_base (\<lambda>b. b\<lparr>bb_len := bb_len b + len\<rparr>) w))"

text \<open>The byte loop, from the last byte down: the buffer and what is left of \<open>v\<close>.\<close>

fun add_u_loop :: "cell list \<Rightarrow> nat \<Rightarrow> nat \<Rightarrow> nat \<Rightarrow> cell list \<times> nat" where
  "add_u_loop buf at 0 v = (buf, v)"
| "add_u_loop buf at (Suc i) v = add_u_loop (buf[at + i := Some (of_nat v)]) at i (v div 256)"

definition store_be :: "cbb_world \<Rightarrow> nat \<Rightarrow> nat \<Rightarrow> nat \<Rightarrow> cbb_world \<times> nat" where
  "store_be w at n v =
     (upd_base (bb_map (\<lambda>m. fst (add_u_loop m at n v))) w, snd (add_u_loop [] at n v))"

definition cbb_buffer_add_u :: "sys_malloc \<Rightarrow> cbb_world \<Rightarrow> bool \<Rightarrow> u32 \<Rightarrow> nat \<Rightarrow> bool \<times> cbb_world" where
  "cbb_buffer_add_u sys w b v len_len =
     (if len_len = 0 then (True, w)
      else case cbb_buffer_add sys w b len_len of
          (None, w) \<Rightarrow> (False, w)
        | (Some buf, w) \<Rightarrow>
            let (w, v) = store_be w buf len_len (unat v)
            in if v \<noteq> 0 then (False, set_error w) else (True, w))"

section \<open>Flushing\<close>

text \<open>
  The length bytes of a pending ASN.1 header: \<open>len_len\<close>, the first of them, and the \<open>len\<close>
  left for the others; \<open>None\<close> when the contents are too long.
\<close>

definition asn1_len_len :: "nat \<Rightarrow> (nat \<times> u8 \<times> nat) option" where
  "asn1_len_len len =
     (if len > 0xfffffffe then None
      else if len > 0xffffff then Some (5, 0x80 OR 4, len)
      else if len > 0xffff then Some (4, 0x80 OR 3, len)
      else if len > 0xff then Some (3, 0x80 OR 2, len)
      else if len > 0x7f then Some (2, 0x80 OR 1, len)
      else Some (1, of_nat len, 0))"

text \<open>Making room for the length bytes: the contents move up by \<open>extra_bytes\<close>.\<close>

definition flush_move :: "cbb_world \<Rightarrow> nat \<Rightarrow> nat \<Rightarrow> nat \<Rightarrow> cbb_world" where
  "flush_move w child_start extra_bytes len =
     upd_base (bb_map (\<lambda>m. overwrite m (child_start + extra_bytes) (take len (drop child_start m)))) w"

text \<open>
  The ASN.1 half of \<^verbatim>\<open>CBB_flush\<close> for the child at \<open>q\<close>: the \<open>len\<close> left to write, or \<open>None\<close>
  for \<open>goto err\<close>.
\<close>

definition flush_asn1 ::
  "sys_malloc \<Rightarrow> cbb_world \<Rightarrow> bool \<Rightarrow> nat \<Rightarrow> nat \<Rightarrow> nat \<Rightarrow> nat option \<times> cbb_world" where
  "flush_asn1 sys w b q child_start len =
     (case asn1_len_len len of
        None \<Rightarrow> (None, w)
      | Some (len_len, initial_length_byte, len') \<Rightarrow>
          let (ok, w) =
            (if len_len \<noteq> 1
             then let extra_bytes = len_len - 1
               in case cbb_buffer_add sys w b extra_bytes of
                    (None, w) \<Rightarrow> (False, w)
                  | (Some _, w) \<Rightarrow> (True, flush_move w child_start extra_bytes len')
             else (True, w))
          in if \<not> ok then (None, w)
             else let off = cbb_offset (cbbs w q);
                 w = upd_base (bb_map (\<lambda>m. m[off := Some initial_length_byte])) w;
                 w = upd_cbb q (\<lambda>c. c\<lparr>cbb_offset := off + 1, cbb_pending_len_len := len_len - 1\<rparr>) w
               in (Some len', w))"

text \<open>What \<^verbatim>\<open>CBB_flush\<close> of \<open>p\<close> does once its child \<open>q\<close> has been flushed.\<close>

definition flush_child :: "sys_malloc \<Rightarrow> cbb_world \<Rightarrow> nat \<Rightarrow> nat \<Rightarrow> nat \<Rightarrow> bool \<times> cbb_world" where
  "flush_child sys w p q child_start =
     (if child_start < cbb_offset (cbbs w q) \<or> bb_len (base w) < child_start
      then (False, set_error w)
      else let len = bb_len (base w) - child_start;
          (len, w) = (if cbb_pending_is_asn1 (cbbs w q)
             then flush_asn1 sys w (cbb_base (cbbs w p)) q child_start len
             else (Some len, w))
        in case len of
             None \<Rightarrow> (False, set_error w)
           | Some len \<Rightarrow>
               let (w, len) = store_be w (cbb_offset (cbbs w q)) (cbb_pending_len_len (cbbs w q)) len
               in if len \<noteq> 0 then (False, set_error w)
                  else (True, upd_cbb p (\<lambda>c. c\<lparr>cbb_child := None\<rparr>)
                          (upd_cbb q (\<lambda>c. c\<lparr>cbb_base := False\<rparr>) w)))"

partial_function (option) CBB_flush :: "sys_malloc \<Rightarrow> cbb_world \<Rightarrow> nat \<Rightarrow> bool cbb_result" where
  "CBB_flush sys w p =
     (if \<not> cbb_base (cbbs w p) \<or> bb_error (base w) then Some (False, w)
      else case cbb_child (cbbs w p) of
          None \<Rightarrow> Some (True, w)
        | Some q \<Rightarrow>
            if cbb_pending_len_len (cbbs w q) = 0 then Some (True, w)
            else let child_start = size_add (cbb_offset (cbbs w q)) (cbb_pending_len_len (cbbs w q))
              in Option.bind (CBB_flush sys w q) (\<lambda>(ok, w).
                   if \<not> ok then Some (False, set_error w)
                   else Some (flush_child sys w p q child_start)))"

definition CBB_finish ::
  "sys_malloc \<Rightarrow> cbb_world \<Rightarrow> nat \<Rightarrow> bool \<Rightarrow> bool \<Rightarrow> ((cell list option \<times> nat) option) cbb_result" where
  "CBB_finish sys w p out_data_null out_len_null =
     (if \<not> cbb_is_top_level (cbbs w p) then Some (None, w)
      else case CBB_flush sys w p of
          None \<Rightarrow> None
        | Some (ok, w) \<Rightarrow>
            if \<not> ok then Some (None, w)
            else if bb_can_resize (base w) \<and> (out_data_null \<or> out_len_null) then Some (None, w)
            else let out = (bb_buf (base w), bb_len (base w));
                w = upd_base (\<lambda>b. b\<lparr>bb_buf := None\<rparr>) w
              in Some (Some out, CBB_cleanup w p))"

text \<open>The pointer returned, as an index into the buffer.\<close>

definition CBB_data :: "cbb_world \<Rightarrow> nat \<Rightarrow> nat" where
  "CBB_data w p = cbb_offset (cbbs w p) + cbb_pending_len_len (cbbs w p)"

definition CBB_len :: "cbb_world \<Rightarrow> nat \<Rightarrow> nat" where
  "CBB_len w p = bb_len (base w) - cbb_offset (cbbs w p) - cbb_pending_len_len (cbbs w p)"

section \<open>Writing\<close>

text \<open>\<open>out_contents\<close> becomes the child of \<open>cbb\<close>.\<close>

definition link_child :: "cbb_world \<Rightarrow> nat \<Rightarrow> nat \<Rightarrow> nat \<Rightarrow> nat \<Rightarrow> bool \<Rightarrow> cbb_world" where
  "link_child w p out_contents off len_len is_asn1 =
     (let w = upd_cbb out_contents (\<lambda>_. cbb_zeroed) w;
          w = upd_cbb out_contents (\<lambda>c. c\<lparr>cbb_base := cbb_base (cbbs w p)\<rparr>) w;
          w = upd_cbb p (\<lambda>c. c\<lparr>cbb_child := Some out_contents\<rparr>) w
      in upd_cbb out_contents
           (\<lambda>c. c\<lparr>cbb_offset := off, cbb_pending_len_len := len_len, cbb_pending_is_asn1 := is_asn1\<rparr>) w)"

definition cbb_add_length_prefixed ::
  "sys_malloc \<Rightarrow> cbb_world \<Rightarrow> nat \<Rightarrow> nat \<Rightarrow> nat \<Rightarrow> bool cbb_result" where
  "cbb_add_length_prefixed sys w p out_contents len_len =
     and_then (CBB_flush sys w p) (\<lambda>w.
       let off = bb_len (base w)
       in case cbb_buffer_add sys w (cbb_base (cbbs w p)) len_len of
            (None, w) \<Rightarrow> Some (False, w)
          | (Some prefix_bytes, w) \<Rightarrow>
              let w = upd_base (bb_map (\<lambda>m. overwrite m prefix_bytes (replicate len_len (Some 0)))) w
              in Some (True, link_child w p out_contents off len_len False))"

definition CBB_add_u8_length_prefixed where
  "CBB_add_u8_length_prefixed sys w p out_contents = cbb_add_length_prefixed sys w p out_contents 1"

definition CBB_add_u16_length_prefixed where
  "CBB_add_u16_length_prefixed sys w p out_contents = cbb_add_length_prefixed sys w p out_contents 2"

definition CBB_add_u24_length_prefixed where
  "CBB_add_u24_length_prefixed sys w p out_contents = cbb_add_length_prefixed sys w p out_contents 3"

text \<open>\<^verbatim>\<open>CBB_add_u8\<close> and its siblings: flush, then an integer of \<open>len_len\<close> bytes.\<close>

definition CBB_add_u8 :: "sys_malloc \<Rightarrow> cbb_world \<Rightarrow> nat \<Rightarrow> u8 \<Rightarrow> bool cbb_result" where
  "CBB_add_u8 sys w p v =
     and_then (CBB_flush sys w p) (\<lambda>w. Some (cbb_buffer_add_u sys w (cbb_base (cbbs w p)) (ucast v) 1))"

definition CBB_add_u16 :: "sys_malloc \<Rightarrow> cbb_world \<Rightarrow> nat \<Rightarrow> u16 \<Rightarrow> bool cbb_result" where
  "CBB_add_u16 sys w p v =
     and_then (CBB_flush sys w p) (\<lambda>w. Some (cbb_buffer_add_u sys w (cbb_base (cbbs w p)) (ucast v) 2))"

definition CBB_add_u24 :: "sys_malloc \<Rightarrow> cbb_world \<Rightarrow> nat \<Rightarrow> u32 \<Rightarrow> bool cbb_result" where
  "CBB_add_u24 sys w p v =
     and_then (CBB_flush sys w p) (\<lambda>w. Some (cbb_buffer_add_u sys w (cbb_base (cbbs w p)) v 3))"

definition CBB_add_u32 :: "sys_malloc \<Rightarrow> cbb_world \<Rightarrow> nat \<Rightarrow> u32 \<Rightarrow> bool cbb_result" where
  "CBB_add_u32 sys w p v =
     and_then (CBB_flush sys w p) (\<lambda>w. Some (cbb_buffer_add_u sys w (cbb_base (cbbs w p)) v 4))"

definition CBB_add_asn1 :: "sys_malloc \<Rightarrow> cbb_world \<Rightarrow> nat \<Rightarrow> nat \<Rightarrow> u32 \<Rightarrow> bool cbb_result" where
  "CBB_add_asn1 sys w p out_contents tag =
     (if tag > 0xff \<or> tag AND 0x1f = 0x1f
      then (if \<not> cbb_base (cbbs w p) then None else Some (False, set_error w))
      else and_then (CBB_flush sys w p) (\<lambda>w.
        and_then (CBB_add_u8 sys w p (ucast tag)) (\<lambda>w.
          let off = bb_len (base w)
          in and_then (CBB_add_u8 sys w p 0) (\<lambda>w.
               Some (True, link_child w p out_contents off 1 True)))))"

definition CBB_add_bytes :: "sys_malloc \<Rightarrow> cbb_world \<Rightarrow> nat \<Rightarrow> u8 list \<Rightarrow> bool cbb_result" where
  "CBB_add_bytes sys w p data =
     and_then (CBB_flush sys w p) (\<lambda>w.
       case cbb_buffer_add sys w (cbb_base (cbbs w p)) (length data) of
         (None, w) \<Rightarrow> Some (False, w)
       | (Some dest, w) \<Rightarrow>
           Some (True, upd_base (bb_map (\<lambda>m. overwrite m dest (map Some data))) w))"

text \<open>The pointer to the space, as an index into the buffer.\<close>

definition CBB_add_space :: "sys_malloc \<Rightarrow> cbb_world \<Rightarrow> nat \<Rightarrow> nat \<Rightarrow> (nat option) cbb_result" where
  "CBB_add_space sys w p len =
     (case CBB_flush sys w p of
        None \<Rightarrow> None
      | Some (ok, w) \<Rightarrow>
          if \<not> ok then Some (None, w) else Some (cbb_buffer_add sys w (cbb_base (cbbs w p)) len))"

definition CBB_reserve :: "sys_malloc \<Rightarrow> cbb_world \<Rightarrow> nat \<Rightarrow> nat \<Rightarrow> (nat option) cbb_result" where
  "CBB_reserve sys w p len =
     (case CBB_flush sys w p of
        None \<Rightarrow> None
      | Some (ok, w) \<Rightarrow>
          if \<not> ok then Some (None, w) else Some (cbb_buffer_reserve sys w (cbb_base (cbbs w p)) len))"

definition CBB_did_write :: "cbb_world \<Rightarrow> nat \<Rightarrow> nat \<Rightarrow> bool cbb_result" where
  "CBB_did_write w p len =
     (if \<not> cbb_base (cbbs w p) then None
      else let newlen = size_add (bb_len (base w)) len
        in if cbb_child (cbbs w p) \<noteq> None \<or> newlen < bb_len (base w) \<or> newlen > bb_cap (base w)
           then Some (False, w)
           else Some (True, upd_base (\<lambda>b. b\<lparr>bb_len := newlen\<rparr>) w))"

definition CBB_discard_child :: "cbb_world \<Rightarrow> nat \<Rightarrow> cbb_world option" where
  "CBB_discard_child w p =
     (case cbb_child (cbbs w p) of
        None \<Rightarrow> Some w
      | Some q \<Rightarrow>
          if \<not> cbb_base (cbbs w p) then None
          else let w = upd_base (\<lambda>b. b\<lparr>bb_len := cbb_offset (cbbs w q)\<rparr>) w;
              w = upd_cbb q (\<lambda>c. c\<lparr>cbb_base := False\<rparr>) w
            in Some (upd_cbb p (\<lambda>c. c\<lparr>cbb_child := None\<rparr>) w))"

text \<open>The byte loop of \<^verbatim>\<open>CBB_add_asn1_uint64\<close>, from byte \<open>8 - n\<close> on, with \<open>started\<close>.\<close>

fun asn1_uint64_bytes ::
  "sys_malloc \<Rightarrow> nat \<Rightarrow> u64 \<Rightarrow> nat \<Rightarrow> bool \<Rightarrow> cbb_world \<Rightarrow> (bool \<times> bool \<times> cbb_world) option" where
  "asn1_uint64_bytes sys child v 0 started w = Some (True, started, w)"
| "asn1_uint64_bytes sys child v (Suc n) started w =
     (let byte = (ucast (drop_bit (8 * n) v) :: u8)
      in if \<not> started \<and> byte = 0 then asn1_uint64_bytes sys child v n started w
         else
           case (if \<not> started \<and> byte AND 0x80 \<noteq> 0 then CBB_add_u8 sys w child 0 else Some (True, w)) of
             None \<Rightarrow> None
           | Some (ok, w) \<Rightarrow>
               if \<not> ok then Some (False, started, w)
               else case CBB_add_u8 sys w child byte of
                   None \<Rightarrow> None
                 | Some (ok, w) \<Rightarrow>
                     if \<not> ok then Some (False, True, w)
                     else asn1_uint64_bytes sys child v n True w)"

text \<open>\<open>child\<close> is the address of the local variable of that name.\<close>

definition CBB_add_asn1_uint64 :: "sys_malloc \<Rightarrow> cbb_world \<Rightarrow> nat \<Rightarrow> nat \<Rightarrow> u64 \<Rightarrow> bool cbb_result" where
  "CBB_add_asn1_uint64 sys w p child v =
     and_then (CBB_add_asn1 sys w p child CBS_ASN1_INTEGER) (\<lambda>w.
       case asn1_uint64_bytes sys child v 8 False w of
         None \<Rightarrow> None
       | Some (ok, started, w) \<Rightarrow>
           if \<not> ok then Some (False, w)
           else and_then (if \<not> started then CBB_add_u8 sys w child 0 else Some (True, w)) (\<lambda>w.
             CBB_flush sys w p))"

section \<open>Object identifiers\<close>

function base128_len :: "u32 \<Rightarrow> nat" where
  "base128_len copy = (if copy > 0 then Suc (base128_len (drop_bit 7 copy)) else 0)"
  by pat_completeness auto

text \<open>The byte of index \<open>i\<close>, and the loop from index \<open>i - 1\<close> down to 0.\<close>

definition base128_byte :: "u32 \<Rightarrow> nat \<Rightarrow> u8" where
  "base128_byte v i =
     (let byte = ucast (drop_bit (7 * i) v) AND 0x7f in if i \<noteq> 0 then byte OR 0x80 else byte)"

fun base128_loop :: "sys_malloc \<Rightarrow> cbb_world \<Rightarrow> nat \<Rightarrow> u32 \<Rightarrow> nat \<Rightarrow> bool cbb_result" where
  "base128_loop sys w p v 0 = Some (True, w)"
| "base128_loop sys w p v (Suc i) =
     and_then (CBB_add_u8 sys w p (base128_byte v i)) (\<lambda>w. base128_loop sys w p v i)"

termination base128_len
proof (relation "measure unat")
  fix copy :: u32
  assume "copy > 0"
  then have "0 < unat copy" by (simp add: word_less_nat_alt)
  moreover have "unat (drop_bit 7 copy) = unat copy div 2 ^ 7"
    unfolding unat_drop_bit_eq by (simp only: drop_bit_eq_div)
  ultimately show "(drop_bit 7 copy, copy) \<in> measure unat"
    unfolding in_measure by (simp only: div_less_dividend) simp
qed simp

declare base128_len.simps [simp del]

definition add_base128_integer :: "sys_malloc \<Rightarrow> cbb_world \<Rightarrow> nat \<Rightarrow> u32 \<Rightarrow> bool cbb_result" where
  "add_base128_integer sys w p v =
     (let len_len = base128_len v; len_len = (if len_len = 0 then 1 else len_len)
      in base128_loop sys w p v len_len)"

text \<open>The results: the return value, \<open>*out\<close> and the window left.\<close>

lemma CBS_get_u8_shrinks: "CBS_get_u8 c = (Some u, c') \<Longrightarrow> cbs_len c' < cbs_len c"
  by (auto simp: CBS_get_u8_def cbs_get_def split: if_splits)

function parse_dotted_loop :: "CBS \<Rightarrow> u32 \<Rightarrow> bool \<Rightarrow> bool \<times> u32 \<times> CBS" where
  "parse_dotted_loop c out seen_digit =
     (case CBS_get_u8 c of
        (None, c) \<Rightarrow> (seen_digit, out, c)
      | (Some u, c) \<Rightarrow>
          if u = 46 \<and> CBS_len c > 0 then (seen_digit, out, c)
          else if u < 48 \<or> u > 57 \<or> (seen_digit \<and> out = 0) \<or> out > 0xffffffff div 10 \<or>
            out * 10 > 0xffffffff - ucast (u - 48)
          then (False, out, c)
          else parse_dotted_loop c (out * 10 + ucast (u - 48)) True)"
  by pat_completeness auto

termination parse_dotted_loop
  by (relation "measure (\<lambda>(c, out, seen_digit). cbs_len c)") (auto dest: CBS_get_u8_shrinks[OF sym])

declare parse_dotted_loop.simps [simp del]

definition parse_dotted_decimal :: "CBS \<Rightarrow> bool \<times> u32 \<times> CBS" where
  "parse_dotted_decimal c = parse_dotted_loop c 0 False"

lemma parse_dotted_loop_len:
  "parse_dotted_loop c out seen_digit = (ok, a, c') \<Longrightarrow> cbs_len c' \<le> cbs_len c \<and>
   (ok \<and> \<not> seen_digit \<longrightarrow> cbs_len c' < cbs_len c)"
proof (induction c out seen_digit rule: parse_dotted_loop.induct)
  case (1 c out seen_digit)
  show ?case
  proof (cases "CBS_get_u8 c")
    case (Pair r c1)
    show ?thesis
    proof (cases r)
      case None
      then have "c1 = c" using Pair by (auto simp: CBS_get_u8_def cbs_get_def split: if_splits)
      then show ?thesis using 1(2) Pair None by (simp add: parse_dotted_loop.simps[of c])
    next
      case (Some u)
      then have l: "cbs_len c1 < cbs_len c" using Pair CBS_get_u8_shrinks by simp
      show ?thesis
        using 1(1)[OF Pair[symmetric] Some] 1(2) Pair Some l
        by (subst (asm) (2) parse_dotted_loop.simps) (fastforce split: if_splits)
    qed
  qed
qed

lemma parse_dotted_decimal_shrinks:
  "parse_dotted_decimal c = (ok, a, c') \<Longrightarrow> ok \<Longrightarrow> cbs_len c' < cbs_len c"
  by (auto simp: parse_dotted_decimal_def dest: parse_dotted_loop_len)

function oid_components :: "sys_malloc \<Rightarrow> nat \<Rightarrow> CBS \<Rightarrow> cbb_world \<Rightarrow> bool cbb_result" where
  "oid_components sys p c w =
     (if CBS_len c > 0
      then (case parse_dotted_decimal c of (ok, a, c') \<Rightarrow>
        if \<not> ok then Some (False, w)
        else and_then (add_base128_integer sys w p a) (\<lambda>w. oid_components sys p c' w))
      else Some (True, w))"
  by pat_completeness auto

termination oid_components
  by (relation "measure (\<lambda>(sys, p, c, w). cbs_len c)") (auto dest: parse_dotted_decimal_shrinks[OF sym])

declare oid_components.simps [simp del]

definition CBB_add_asn1_oid_from_text ::
  "sys_malloc \<Rightarrow> cbb_world \<Rightarrow> nat \<Rightarrow> u8 list \<Rightarrow> nat \<Rightarrow> bool cbb_result" where
  "CBB_add_asn1_oid_from_text sys w p txt len =
     and_then (CBB_flush sys w p) (\<lambda>w.
       let c = CBS_init txt 0 len; (ok1, a, c) = parse_dotted_decimal c
       in if \<not> ok1 then Some (False, w)
          else let (ok2, b, c) = parse_dotted_decimal c
            in if \<not> ok2 then Some (False, w)
               else if a > 2 \<or> (a < 2 \<and> b > 39) \<or> b > 0xffffffff - 80 then Some (False, w)
               else and_then (add_base128_integer sys w p (40 * a + b)) (\<lambda>w.
                 oid_components sys p c w))"

section \<open>\<^verbatim>\<open>asn1_compat.c\<close>\<close>

text \<open>
  \<open>outp\<close>: NULL, the address of a NULL pointer, or of a pointer into a buffer. The result:
  the return value and what \<open>*outp\<close> points to afterwards, the buffer with the encoding
  copied to its front or the new allocation.
\<close>

datatype i2d_out = I2D_NULL | I2D_ALLOC | I2D_BUFFER "cell list"

definition CBB_finish_i2d :: "sys_malloc \<Rightarrow> cbb_world \<Rightarrow> nat \<Rightarrow> i2d_out \<Rightarrow>
    (int \<times> cell list option) cbb_result" where
  "CBB_finish_i2d sys w p outp =
     (case CBB_finish sys w p False False of
        None \<Rightarrow> None
      | Some (None, w) \<Rightarrow> Some ((- 1, None), CBB_cleanup w p)
      | Some (Some (der, der_length), w) \<Rightarrow>
          if der_length > INT_MAX then Some ((- 1, None), w)
          else case outp of
              I2D_NULL \<Rightarrow> Some ((int der_length, None), w)
            | I2D_ALLOC \<Rightarrow> Some ((int der_length, der), w)
            | I2D_BUFFER m \<Rightarrow>
                Some ((int der_length,
                  Some (overwrite m 0 (case der of None \<Rightarrow> [] | Some d \<Rightarrow> take der_length d))), w))"

section \<open>The buffer invariant\<close>

text \<open>
  The buffer holds \<open>bs\<close>: initialised bytes up to \<open>len\<close>, the rest of the allocation behind
  them.
\<close>

definition buf_rep :: "cbb_buffer \<Rightarrow> u8 list \<Rightarrow> bool" where
  "buf_rep b bs \<longleftrightarrow>
     \<not> bb_error b \<and> bb_len b = length bs \<and>
     (\<exists>unused. bb_buf b = Some (map Some bs @ unused) \<and> bb_cap b = length bs + length unused) \<and>
     bb_cap b + 8 < 2 ^ 63"

text \<open>There is room for \<open>n\<close> bytes in all: in the buffer, or by growing it.\<close>

definition room :: "sys_malloc \<Rightarrow> cbb_buffer \<Rightarrow> nat \<Rightarrow> bool" where
  "room sys b n \<longleftrightarrow>
     n \<le> bb_cap b \<or>
     bb_can_resize b \<and> bb_cap b \<le> 2 ^ 62 \<and> n \<le> 2 ^ 61 \<and> (\<forall>m \<le> 2 ^ 62 + 8. sys m)"

named_theorems cbb

lemma upd_simps [simp, cbb]:
  "base (upd_cbb p f w) = base w"
  "cbbs (upd_cbb p f w) = (cbbs w)(p := f (cbbs w p))"
  "base (upd_base g w) = g (base w)"
  "cbbs (upd_base g w) = cbbs w"
  "base (set_error w) = (base w)\<lparr>bb_error := True\<rparr>"
  "cbbs (set_error w) = cbbs w"
  by (simp_all add: upd_cbb_def upd_base_def set_error_def)

lemma bb_map_simps [simp, cbb]:
  "bb_buf (bb_map f b) = map_option f (bb_buf b)"
  "bb_len (bb_map f b) = bb_len b"
  "bb_cap (bb_map f b) = bb_cap b"
  "bb_can_resize (bb_map f b) = bb_can_resize b"
  "bb_error (bb_map f b) = bb_error b"
  by (simp_all add: bb_map_def)

lemma room_mono: "room sys b n \<Longrightarrow> m \<le> n \<Longrightarrow> room sys b m"
  by (auto simp: room_def)

end
