(* ===== verification/CBB_Spec.thy ===== *)
theory CBB_Spec
  imports CBB
begin

text \<open>
  The abstract builder that \<^verbatim>\<open>cbb.c\<close> implements: a stack of open length-prefixed frames with
  the bytes written to each, closed by putting the encoded length in front of them. The
  refinement lemmas show that the code's pending prefixes, moved contents and shared buffer
  compute exactly that, and from them come the correctness of the operations.
\<close>

section \<open>The buffer\<close>

lemma cbb_buffer_reserve_rep:
  assumes b: "buf_rep (base w) bs" and sys: "malloc_bounded sys" and n: "n + 8 < 2 ^ 63"
  shows "case cbb_buffer_reserve sys w True n of
      (None, w') \<Rightarrow> w' = set_error w \<and> \<not> room sys (base w) (length bs + n)
    | (Some out, w') \<Rightarrow> out = length bs \<and> cbbs w' = cbbs w \<and> buf_rep (base w') bs \<and>
        length bs + n \<le> bb_cap (base w') \<and> bb_can_resize (base w') = bb_can_resize (base w) \<and>
        (\<forall>m. room sys (base w) m \<longrightarrow> length bs + n \<le> m \<longrightarrow> room sys (base w') m)"
proof -
  obtain unused where u: "bb_buf (base w) = Some (map Some bs @ unused)"
    and cap: "bb_cap (base w) = length bs + length unused"
    and len: "bb_len (base w) = length bs" and bound: "bb_cap (base w) + 8 < 2 ^ 63"
    and ne: "\<not> bb_error (base w)"
    using b by (auto simp: buf_rep_def)
  have nl: "size_add (length bs) n = length bs + n" and nw: "\<not> length bs + n < length bs"
    using cap bound n by (auto simp: size_add_def SIZE_MOD_def)
  show ?thesis
  proof (cases "bb_cap (base w) < length bs + n")
    case False
    then show ?thesis using b nl nw len by (simp add: cbb_buffer_reserve_def)
  next
    case grow: True
    let ?c2 = "bb_cap (base w) * 2"
    have c2: "size_mul (bb_cap (base w)) 2 = ?c2"
      using bound by (simp add: size_mul_def SIZE_MOD_def)
    define newcap where "newcap = (if ?c2 < length bs + n then length bs + n else ?c2)"
    have nc: "newcap + 8 < SIZE_MOD" "length bs + n \<le> newcap"
      using bound n cap by (auto simp: newcap_def SIZE_MOD_def)
    have eq: "cbb_buffer_reserve sys w True n =
      (if \<not> bb_can_resize (base w) then (None, set_error w)
       else (case OPENSSL_realloc sys (bb_buf (base w)) newcap of
               None \<Rightarrow> (None, set_error w)
             | Some newbuf \<Rightarrow> (Some (bb_len (base w)),
                 upd_base (\<lambda>b. b\<lparr>bb_buf := Some newbuf, bb_cap := newcap\<rparr>) w)))"
    proof -
      have nd: "(if ?c2 < bb_cap (base w) \<or> ?c2 < length bs + n then length bs + n else ?c2) = newcap"
        by (auto simp: newcap_def)
      show ?thesis
        unfolding cbb_buffer_reserve_def Let_def len c2 nl nd using grow nw by simp
    qed
    show ?thesis
    proof (cases "bb_can_resize (base w)")
      case False
      then show ?thesis using grow eq by (simp add: room_def)
    next
      case resize: True
      show ?thesis
      proof (cases "OPENSSL_realloc sys (bb_buf (base w)) newcap")
        case None
        then have "\<not> sys (newcap + 8)" using OPENSSL_realloc_None_iff[OF nc(1)] by simp
        moreover have "bb_cap (base w) \<le> 2 ^ 62 \<Longrightarrow> length bs + n \<le> 2 ^ 61 \<Longrightarrow> newcap \<le> 2 ^ 62"
          using grow by (auto simp: newcap_def)
        ultimately have "\<not> room sys (base w) (length bs + n)"
          using grow by (auto simp: room_def intro!: exI[of _ "newcap + 8"])
        then show ?thesis using eq resize None by simp
      next
        case (Some newbuf)
        then have s8: "sys (newcap + 8)" using OPENSSL_realloc_None_iff[OF nc(1), of sys "bb_buf (base w)"] by auto
        then have small: "newcap + 8 < 2 ^ 63" using sys by (auto simp: malloc_bounded_def)
        have l: "length newbuf = newcap"
          and t: "take (min newcap (length (map Some bs @ unused))) newbuf = take newcap (map Some bs @ unused)"
          using OPENSSL_realloc_Some[OF nc(1) Some] u by auto
        have "length (map Some bs @ unused) \<le> newcap" using nc(2) grow cap by simp
        then have "take (length (map Some bs @ unused)) newbuf = map Some bs @ unused"
          using t by (simp add: min_def split: if_splits)
        then have "take (length bs) newbuf = map Some bs"
          by (metis append_eq_conv_conj append_take_drop_id append.assoc length_map)
        then have "newbuf = map Some bs @ drop (length bs) newbuf"
          by (metis append_take_drop_id)
        then have rep: "buf_rep ((base w)\<lparr>bb_buf := Some newbuf, bb_cap := newcap\<rparr>) bs"
          unfolding buf_rep_def using ne len l nc(2) small
          by (intro conjI exI[of _ "drop (length bs) newbuf"]) simp_all
        have room: "room sys ((base w)\<lparr>bb_buf := Some newbuf, bb_cap := newcap\<rparr>) m"
          if "room sys (base w) m" "length bs + n \<le> m" for m
          using that grow by (auto simp: room_def newcap_def)
        show ?thesis using eq resize Some rep nc(2) room len by simp
      qed
    qed
  qed
qed

text \<open>After \<^verbatim>\<open>cbb_buffer_add\<close>: \<open>n\<close> more bytes, not yet written.\<close>

definition buf_alloc :: "cbb_buffer \<Rightarrow> u8 list \<Rightarrow> nat \<Rightarrow> bool" where
  "buf_alloc b bs n \<longleftrightarrow>
     \<not> bb_error b \<and> bb_len b = length bs + n \<and>
     (\<exists>unused. bb_buf b = Some (map Some bs @ unused) \<and> bb_cap b = length bs + length unused \<and>
        n \<le> length unused) \<and>
     bb_cap b + 8 < 2 ^ 63"

text \<open>What an operation on the buffer changes besides its contents: nothing.\<close>

definition same_buffer :: "sys_malloc \<Rightarrow> nat \<Rightarrow> cbb_world \<Rightarrow> cbb_world \<Rightarrow> bool" where
  "same_buffer sys n w w' \<longleftrightarrow>
     bb_can_resize (base w') = bb_can_resize (base w) \<and>
     (\<forall>m\<ge>n. room sys (base w) m \<longrightarrow> room sys (base w') m)"

lemma same_buffer_refl [simp]: "same_buffer sys n w w"
  by (simp add: same_buffer_def)

lemma same_buffer_trans:
  "same_buffer sys n w w' \<Longrightarrow> same_buffer sys m w' w'' \<Longrightarrow> n \<le> m \<Longrightarrow> same_buffer sys m w w''"
  by (simp add: same_buffer_def)

lemma same_buffer_mono: "same_buffer sys n w w' \<Longrightarrow> n \<le> m \<Longrightarrow> same_buffer sys m w w'"
  by (simp add: same_buffer_def)

lemma same_buffer_base: "base w'' = base w' \<Longrightarrow> same_buffer sys n w w'' = same_buffer sys n w w'"
  by (simp add: same_buffer_def)

lemma same_buffer_write [simp]:
  "same_buffer sys n w (upd_base (bb_map f) w') = same_buffer sys n w w'"
  by (simp add: same_buffer_def room_def)

lemma cbb_buffer_add_rep:
  assumes "buf_rep (base w) bs" "malloc_bounded sys" "n + 8 < 2 ^ 63"
  shows "case cbb_buffer_add sys w True n of
      (None, w') \<Rightarrow> w' = set_error w \<and> \<not> room sys (base w) (length bs + n)
    | (Some out, w') \<Rightarrow> out = length bs \<and> cbbs w' = cbbs w \<and> buf_alloc (base w') bs n \<and>
        same_buffer sys (length bs + n) w w'"
proof (cases "cbb_buffer_reserve sys w True n")
  case (Pair out w')
  show ?thesis
  proof (cases out)
    case None
    then show ?thesis using cbb_buffer_reserve_rep[OF assms] Pair by (simp add: cbb_buffer_add_def)
  next
    case (Some o')
    then show ?thesis using cbb_buffer_reserve_rep[OF assms] Pair
      by (auto simp: cbb_buffer_add_def buf_rep_def buf_alloc_def same_buffer_def room_def)
  qed
qed

lemma buf_alloc_write:
  assumes "buf_alloc (base w) bs n" "length data = n"
  shows "buf_rep (base (upd_base (bb_map (\<lambda>m. overwrite m (length bs) (map Some data))) w)) (bs @ data)"
proof -
  obtain unused where u: "bb_buf (base w) = Some (map Some bs @ unused)"
    "bb_cap (base w) = length bs + length unused" "n \<le> length unused"
    using assms(1) by (auto simp: buf_alloc_def)
  then have "overwrite (map Some bs @ unused) (length bs) (map Some data) =
      map Some (bs @ data) @ drop n unused"
    using assms(2) by (simp add: overwrite_def)
  then show ?thesis using u assms by (auto simp: buf_alloc_def buf_rep_def)
qed

lemma overwrite_snoc:
  "i + length xs < length m \<Longrightarrow> overwrite (m[i + length xs := y]) i xs = overwrite m i (xs @ [y])"
  by (simp add: overwrite_def upd_conv_take_nth_drop min_def)

lemma add_u_loop_eq:
  "at + n \<le> length m \<Longrightarrow>
   fst (add_u_loop m at n v) = overwrite m at (map Some (be_bytes n v))"
proof (induction m at n v rule: add_u_loop.induct)
  case (1 buf at v)
  then show ?case by simp
next
  case (2 buf at i v)
  then show ?case
    using overwrite_snoc[of at "map Some (be_bytes i (v div 256))" buf "Some (of_nat v)"] by simp
qed

lemma add_u_loop_rest: "snd (add_u_loop m at n v) = v div 256 ^ n"
  by (induction m at n v rule: add_u_loop.induct) (simp_all add: div_mult2_eq)

lemma store_be_eq:
  assumes "bb_buf (base w) = Some m" "at + n \<le> length m"
  shows "store_be w at n v =
    (upd_base (bb_map (\<lambda>m. overwrite m at (map Some (be_bytes n v)))) w, v div 256 ^ n)"
  using assms add_u_loop_eq[of at n m v]
  by (simp add: store_be_def add_u_loop_rest upd_base_def bb_map_def)

lemma cbb_buffer_add_u_rep:
  assumes "buf_rep (base w) bs" "malloc_bounded sys" "0 < n" "n \<le> 8"
  shows "case cbb_buffer_add_u sys w True v n of
      (False, w') \<Rightarrow> bb_error (base w') \<and> \<not> (room sys (base w) (length bs + n) \<and> unat v < 256 ^ n)
    | (True, w') \<Rightarrow> unat v < 256 ^ n \<and> cbbs w' = cbbs w \<and> buf_rep (base w') (bs @ be_bytes n (unat v)) \<and>
        same_buffer sys (length bs + n) w w'"
proof -
  have n: "n + 8 < 2 ^ 63" using assms(4) by simp
  show ?thesis
  proof (cases "cbb_buffer_add sys w True n")
    case (Pair out w')
    note spec = cbb_buffer_add_rep[OF assms(1,2) n]
    show ?thesis
    proof (cases out)
      case None
      then show ?thesis using spec Pair assms(3) by (simp add: cbb_buffer_add_u_def)
    next
      case (Some o')
      then have a: "o' = length bs" "cbbs w' = cbbs w" "buf_alloc (base w') bs n"
        "same_buffer sys (length bs + n) w w'"
        using spec Pair by auto
      then obtain m where m: "bb_buf (base w') = Some m" "length bs + n \<le> length m"
        by (auto simp: buf_alloc_def)
      have z: "unat v div 256 ^ n = 0 \<longleftrightarrow> unat v < 256 ^ n" by (simp add: div_eq_0_iff)
      show ?thesis
        using assms(3) Pair Some a store_be_eq[OF m] buf_alloc_write[OF a(3), of "be_bytes n (unat v)"] z
        by (auto simp: cbb_buffer_add_u_def Let_def)
    qed
  qed
qed

section \<open>The abstract builder\<close>

text \<open>
  A frame is an open \<open>CBB\<close>: its address, what kind of prefix it owes, and the bytes written
  to it directly. The frames are listed from the top-level one down to the innermost child.
\<close>

datatype frame_kind = Top | Len nat | Asn1

type_synonym frame = "nat \<times> frame_kind \<times> u8 list"

fun pending :: "frame_kind \<Rightarrow> nat" where
  "pending Top = 0"
| "pending (Len n) = n"
| "pending Asn1 = 1"

text \<open>What closing a frame puts into its parent; \<open>None\<close> when the length does not fit.\<close>

fun encode :: "frame_kind \<Rightarrow> u8 list \<Rightarrow> u8 list option" where
  "encode Top bs = Some bs"
| "encode (Len n) bs = (if length bs < 256 ^ n then Some (be_bytes n (length bs) @ bs) else None)"
| "encode Asn1 bs = (if length bs \<le> 0xfffffffe then Some (der_len (length bs) @ bs) else None)"

fun close_frames :: "frame list \<Rightarrow> u8 list option" where
  "close_frames [] = Some []"
| "close_frames ((q, k, bs) # fs) =
     (case close_frames fs of None \<Rightarrow> None | Some ts \<Rightarrow> encode k (bs @ ts))"

text \<open>How the code lays the frames out: zeroed prefixes in one buffer, linked structs.\<close>

fun flat :: "frame list \<Rightarrow> u8 list" where
  "flat [] = []"
| "flat ((p, k, bs) # fs) = replicate (pending k) 0 @ bs @ flat fs"

definition cbb_ok :: "cbb \<Rightarrow> frame_kind \<Rightarrow> nat \<Rightarrow> nat option \<Rightarrow> bool" where
  "cbb_ok c k off nxt \<longleftrightarrow>
     cbb_base c \<and> cbb_child c = nxt \<and> cbb_offset c = off \<and> cbb_pending_len_len c = pending k \<and>
     cbb_pending_is_asn1 c = (k = Asn1) \<and> cbb_is_top_level c = (k = Top)"

definition child_of :: "frame list \<Rightarrow> nat option \<Rightarrow> nat option" where
  "child_of fs nxt = (case fs of [] \<Rightarrow> nxt | f # _ \<Rightarrow> Some (fst f))"

fun chain_ok :: "(nat \<Rightarrow> cbb) \<Rightarrow> nat \<Rightarrow> frame list \<Rightarrow> nat option \<Rightarrow> bool" where
  "chain_ok cs off [] nxt = True"
| "chain_ok cs off ((p, k, bs) # fs) nxt =
     (cbb_ok (cs p) k off (child_of fs nxt) \<and> chain_ok cs (off + pending k + length bs) fs nxt)"

definition kinds_ok :: "frame list \<Rightarrow> bool" where
  "kinds_ok fs \<longleftrightarrow>
     fs \<noteq> [] \<and> fst (snd (hd fs)) = Top \<and> (\<forall>f\<in>set (tl fs). 0 < pending (fst (snd f)) \<and> pending (fst (snd f)) \<le> 3)"

definition rep :: "cbb_world \<Rightarrow> frame list \<Rightarrow> bool" where
  "rep w fs \<longleftrightarrow>
     kinds_ok fs \<and> distinct (map fst fs) \<and> chain_ok (cbbs w) 0 fs None \<and> buf_rep (base w) (flat fs)"

lemma flat_append [simp]: "flat (xs @ ys) = flat xs @ flat ys"
  by (induction xs rule: flat.induct) simp_all

lemma child_of_simps [simp]:
  "child_of [] nxt = nxt" "child_of (f # fs) nxt = Some (fst f)"
  "child_of (fs @ gs) nxt = child_of fs (child_of gs nxt)"
  by (simp_all add: child_of_def split: list.split)

lemma chain_ok_append:
  "chain_ok cs off (xs @ ys) nxt \<longleftrightarrow>
     chain_ok cs off xs (child_of ys nxt) \<and> chain_ok cs (off + length (flat xs)) ys nxt"
  by (induction cs off xs nxt rule: chain_ok.induct) (auto simp: add.assoc)

lemma chain_ok_cong:
  "(\<And>p. p \<in> fst ` set fs \<Longrightarrow> cs' p = cs p) \<Longrightarrow> chain_ok cs' off fs nxt = chain_ok cs off fs nxt"
  by (induction cs off fs nxt rule: chain_ok.induct) auto

lemma kinds_ok_snoc:
  "kinds_ok (pre @ [(p, k, bs), f]) \<Longrightarrow> kinds_ok (pre @ [(p, k, bs')])"
  by (cases pre) (auto simp: kinds_ok_def)

section \<open>Closing one frame\<close>

definition buf_cells :: "cbb_buffer \<Rightarrow> cell list \<Rightarrow> bool" where
  "buf_cells b cs \<longleftrightarrow>
     \<not> bb_error b \<and> bb_len b = length cs \<and>
     (\<exists>unused. bb_buf b = Some (cs @ unused) \<and> bb_cap b = length cs + length unused) \<and>
     bb_cap b + 8 < 2 ^ 63"

lemma buf_rep_cells: "buf_rep b bs \<longleftrightarrow> buf_cells b (map Some bs)"
  by (simp add: buf_rep_def buf_cells_def)

lemma buf_alloc_cells:
  "buf_alloc b bs n \<Longrightarrow> \<exists>X. length X = n \<and> buf_cells b (map Some bs @ X)"
proof -
  assume a: "buf_alloc b bs n"
  then obtain u where "bb_buf b = Some (map Some bs @ u)" "bb_cap b = length bs + length u" "n \<le> length u"
    by (auto simp: buf_alloc_def)
  then have "buf_cells b (map Some bs @ take n u)"
    using a by (auto simp: buf_alloc_def buf_cells_def intro!: exI[of _ "drop n u"])
  then show ?thesis using \<open>n \<le> length u\<close> by (intro exI[of _ "take n u"]) simp
qed

lemma buf_cells_write:
  assumes "buf_cells (base w) (xs @ old @ ys)" "length old = length new"
  shows "buf_cells (base (upd_base (bb_map (\<lambda>m. overwrite m (length xs) new)) w)) (xs @ new @ ys)"
  using assms by (auto simp: buf_cells_def overwrite_def)

lemma buf_cells_write1:
  assumes "buf_cells (base w) (xs @ old # ys)"
  shows "buf_cells (base (upd_base (bb_map (\<lambda>m. m[length xs := new])) w)) (xs @ new # ys)"
  using assms by (auto simp: buf_cells_def list_update_append)

lemma store_be_cells:
  assumes "buf_cells (base w) (xs @ old @ ys)" "length old = n"
  shows "store_be w (length xs) n v =
      (upd_base (bb_map (\<lambda>m. overwrite m (length xs) (map Some (be_bytes n v)))) w, v div 256 ^ n)"
    and "buf_cells (base (fst (store_be w (length xs) n v))) (xs @ map Some (be_bytes n v) @ ys)"
proof -
  obtain unused where "bb_buf (base w) = Some ((xs @ old @ ys) @ unused)"
    using assms(1) by (auto simp: buf_cells_def)
  then show e: "store_be w (length xs) n v =
      (upd_base (bb_map (\<lambda>m. overwrite m (length xs) (map Some (be_bytes n v)))) w, v div 256 ^ n)"
    using assms(2) by (intro store_be_eq) auto
  show "buf_cells (base (fst (store_be w (length xs) n v))) (xs @ map Some (be_bytes n v) @ ys)"
    unfolding e fst_conv using assms by (intro buf_cells_write[of w xs old ys]) simp_all
qed

text \<open>The code's case split on the length against the DER reference.\<close>

lemma be_bytes_minimal:
  "0 < k \<Longrightarrow> 256 ^ (k - 1) \<le> n \<Longrightarrow> n < 256 ^ k \<Longrightarrow> be_min n = be_bytes k n"
  using be_min_bounded[of "be_bytes k n" k] by simp

lemma asn1_len_len_der:
  "asn1_len_len n = (if n \<le> 0xfffffffe
     then Some (length (der_len n), hd (der_len n), if n < 128 then 0 else n) else None)"
  "n \<le> 0xfffffffe \<Longrightarrow>
     der_len n = hd (der_len n) # be_bytes (length (der_len n) - 1) (if n < 128 then 0 else n)"
  "n \<le> 0xfffffffe \<Longrightarrow> (if n < 128 then 0 else n) < 256 ^ (length (der_len n) - 1)"
  "length (der_len n) = 1 \<longleftrightarrow> n < 128"
proof -
  have l4: "\<exists>k. 0 < k \<and> k \<le> 4 \<and> 256 ^ (k - 1) \<le> n \<and> n < 256 ^ k" if "n \<le> 0xfffffffe" "\<not> n < 128"
  proof -
    consider "n \<le> 0xff" | "0xff < n" "n \<le> 0xffff" | "0xffff < n" "n \<le> 0xffffff" | "0xffffff < n"
      by linarith
    then show ?thesis
    proof cases
      case 1 then show ?thesis using that by (intro exI[of _ 1]) simp
    next
      case 2 then show ?thesis using that by (intro exI[of _ 2]) simp
    next
      case 3 then show ?thesis using that by (intro exI[of _ 3]) simp
    next
      case 4 then show ?thesis using that by (intro exI[of _ 4]) simp
    qed
  qed
  show "length (der_len n) = 1 \<longleftrightarrow> n < 128"
    by (auto simp: der_len_def)
  show "der_len n = hd (der_len n) # be_bytes (length (der_len n) - 1) (if n < 128 then 0 else n)"
    if le: "n \<le> 0xfffffffe"
  proof (cases "n < 128")
    case False
    then obtain k where "0 < k" "256 ^ (k - 1) \<le> n" "n < 256 ^ k" using l4[OF le False] by blast
    then have "be_min n = be_bytes k n" by (rule be_bytes_minimal)
    then show ?thesis using False by (simp add: der_len_def)
  qed (simp add: der_len_def)
  show "(if n < 128 then 0 else n) < 256 ^ (length (der_len n) - 1)" if "n \<le> 0xfffffffe"
    using length_be_min_le[of n "length (be_min n)"] by (simp add: der_len_def)
  show "asn1_len_len n = (if n \<le> 0xfffffffe
     then Some (length (der_len n), hd (der_len n), if n < 128 then 0 else n) else None)"
  proof (cases "n \<le> 0xfffffffe \<and> \<not> n < 128")
    case False
    then show ?thesis by (auto simp: asn1_len_len_def der_len_def)
  next
    case True
    then obtain k where k: "0 < k" "k \<le> 4" "256 ^ (k - 1) \<le> n" "n < 256 ^ k"
      using l4[OF conjunct1[OF True] conjunct2[OF True]] by blast
    then have d: "der_len n = of_nat (128 + k) # be_bytes k n"
      using True be_bytes_minimal[OF k(1,3,4)] by (simp add: der_len_def)
    have l: "length (der_len n) = Suc k" "hd (der_len n) = of_nat (128 + k)" unfolding d by simp_all
    consider "k = 1" | "k = 2" | "k = 3" | "k = 4" using k(1,2) by linarith
    then show ?thesis unfolding l using True k(3,4) by cases (simp_all add: asn1_len_len_def)
  qed
qed

lemma flush_move_cells:
  assumes "buf_cells (base w) (xs @ body @ X)" "length X = n"
  shows "\<exists>Y. length Y = n \<and>
    buf_cells (base (flush_move w (length xs) n (length body))) (xs @ Y @ body)"
proof -
  obtain unused where u: "bb_buf (base w) = Some ((xs @ body @ X) @ unused)"
    "bb_cap (base w) = length (xs @ body @ X) + length unused"
    using assms(1) by (auto simp: buf_cells_def)
  have "overwrite ((xs @ body @ X) @ unused) (length xs + n) (take (length body) (drop (length xs) ((xs @ body @ X) @ unused)))
    = (xs @ take n (body @ X) @ body) @ unused"
    using assms(2) by (simp add: overwrite_def)
  then have "buf_cells (base (flush_move w (length xs) n (length body))) (xs @ take n (body @ X) @ body)"
    using assms u by (auto simp: buf_cells_def flush_move_def)
  then show ?thesis using assms(2) by (intro exI[of _ "take n (body @ X)"]) simp
qed

lemma flush_asn1_rep:
  assumes b: "buf_rep (base w) (F @ 0 # body)" and sys: "malloc_bounded sys"
    and off: "cbb_offset (cbbs w q) = length F"
  shows "case flush_asn1 sys w True q (length F + 1) (length body) of
      (None, w') \<Rightarrow>
        \<not> (length body \<le> 0xfffffffe \<and> room sys (base w) (length F + length (der_len (length body)) + length body))
    | (Some len, w') \<Rightarrow> length body \<le> 0xfffffffe \<and> len < 256 ^ (length (der_len (length body)) - 1) \<and>
        der_len (length body) = hd (der_len (length body)) # be_bytes (length (der_len (length body)) - 1) len \<and>
        (\<exists>Y. length Y = length (der_len (length body)) - 1 \<and>
          buf_cells (base w') (map Some (F @ [hd (der_len (length body))]) @ Y @ map Some body)) \<and>
        cbbs w' = (cbbs w)(q := (cbbs w q)\<lparr>cbb_offset := length F + 1,
          cbb_pending_len_len := length (der_len (length body)) - 1\<rparr>) \<and>
        same_buffer sys (length F + length (der_len (length body)) + length body) w w'"
proof (cases "length body \<le> 0xfffffffe")
  case False
  then show ?thesis by (simp add: flush_asn1_def asn1_len_len_der(1))
next
  case True
  let ?d = "der_len (length body)"
  let ?n = "length ?d - 1"
  let ?l = "if length body < 128 then 0 else length body"
  note d = asn1_len_len_der(2,3)[OF True]
  have pos: "0 < length ?d" by (simp add: der_len_def)
  have fin: ?thesis
    if eq: "flush_asn1 sys w True q (length F + 1) (length body) =
        (Some ?l, upd_cbb q (\<lambda>c. c\<lparr>cbb_offset := length F + 1, cbb_pending_len_len := ?n\<rparr>)
          (upd_base (bb_map (\<lambda>m. m[length F := Some (hd ?d)])) w1))"
      and Y: "length Y = ?n" "buf_cells (base w1) (map Some (F @ [0]) @ Y @ map Some body)"
      and w1: "cbbs w1 = cbbs w" "same_buffer sys (length F + length ?d + length body) w w1" for w1 Y
  proof -
    have "buf_cells (base (upd_base (bb_map (\<lambda>m. m[length F := Some (hd ?d)])) w1))
        (map Some (F @ [hd ?d]) @ Y @ map Some body)"
      using buf_cells_write1[of w1 "map Some F" "Some 0" "Y @ map Some body"] Y by simp
    then show ?thesis
      unfolding eq using True d Y w1 same_buffer_write[of sys _ w _ w1]
      by (simp add: same_buffer_base[of "upd_cbb q _ _" "upd_base _ _"]) blast
  qed
  show ?thesis
  proof (cases "length ?d = 1")
    case one: True
    then show ?thesis
      using b off by (intro fin[of w "[]"])
        (simp_all add: flush_asn1_def asn1_len_len_der(1) True buf_rep_cells asn1_len_len_der(4) Let_def)
  next
    case False
    then have ge: "\<not> length body < 128" by (simp only: asn1_len_len_der(4) not_False_eq_True)
    have "?n \<le> 4"
      using length_be_min_4[of "length body"] True ge by (simp add: der_len_def)
    then have n: "?n + 8 < 2 ^ 63" by simp
    have tot: "length (F @ 0 # body) + ?n = length F + length ?d + length body"
      using pos by simp
    note add = cbb_buffer_add_rep[OF b sys n, unfolded tot]
    show ?thesis
    proof (cases "cbb_buffer_add sys w True ?n")
      case (Pair out w2)
      show ?thesis
      proof (cases out)
        case None
        then show ?thesis
          using add Pair True False by (simp add: flush_asn1_def asn1_len_len_der(1))
      next
        case (Some o')
        then have a: "cbbs w2 = cbbs w" "buf_alloc (base w2) (F @ 0 # body) ?n"
          "same_buffer sys (length F + length ?d + length body) w w2"
          using add Pair by simp_all
        from buf_alloc_cells[OF a(2)] obtain X where X: "length X = ?n"
          "buf_cells (base w2) (map Some (F @ 0 # body) @ X)" by blast
        have "buf_cells (base w2) (map Some (F @ [0]) @ map Some body @ X)" using X(2) by simp
        from flush_move_cells[OF this X(1)] obtain Y where Y: "length Y = ?n"
          "buf_cells (base (flush_move w2 (length F + 1) ?n (length body))) (map Some (F @ [0]) @ Y @ map Some body)"
          by auto
        show ?thesis
        proof (rule fin[OF _ Y])
          show "flush_asn1 sys w True q (length F + 1) (length body) =
            (Some ?l, upd_cbb q (\<lambda>c. c\<lparr>cbb_offset := length F + 1, cbb_pending_len_len := ?n\<rparr>)
              (upd_base (bb_map (\<lambda>m. m[length F := Some (hd ?d)]))
                (flush_move w2 (length F + 1) ?n (length body))))"
            using Pair Some True False ge off a(1)
            by (simp add: flush_asn1_def asn1_len_len_der(1) Let_def flush_move_def)
        qed (use a in \<open>simp_all add: flush_move_def\<close>)
      qed
    qed
  qed
qed

text \<open>Closing the child \<open>q\<close> of \<open>p\<close>.\<close>

lemma flush_child_buffer:
  assumes b: "buf_rep (base w) (F @ replicate (pending k) 0 @ body)" and sys: "malloc_bounded sys"
    and q: "cbb_ok (cbbs w q) k (length F) None" and p: "cbb_base (cbbs w p)" and "p \<noteq> q"
    and k: "0 < pending k"
  shows "case flush_child sys w p q (length F + pending k) of
      (False, w') \<Rightarrow> bb_error (base w') \<and>
        \<not> (\<exists>e. encode k body = Some e \<and> room sys (base w) (length F + length e))
    | (True, w') \<Rightarrow> (\<exists>e. encode k body = Some e \<and> buf_rep (base w') (F @ e) \<and>
        same_buffer sys (length F + length e) w w') \<and>
        (\<exists>cq. \<not> cbb_base cq \<and> cbbs w' = (cbbs w)(q := cq, p := (cbbs w p)\<lparr>cbb_child := None\<rparr>))"
proof -
  have len: "bb_len (base w) - (length F + pending k) = length body"
    "\<not> bb_len (base w) < length F + pending k"
    using b by (simp_all add: buf_rep_def)
  have off: "cbb_offset (cbbs w q) = length F" using q by (simp add: cbb_ok_def)
  show ?thesis
  proof (cases k)
    case Top
    with k show ?thesis by simp
  next
    case (Len n)
    have c: "buf_cells (base w) (map Some F @ replicate n (Some 0) @ map Some body)"
      using b by (simp add: buf_rep_cells Len)
    note st = store_be_cells[OF c, of n "length body"]
    have z: "length body div 256 ^ n = 0 \<longleftrightarrow> length body < 256 ^ n" by (simp add: div_eq_0_iff)
    have "flush_child sys w p q (length F + n) =
      (let (w, len) = store_be w (length F) n (length body)
       in if len \<noteq> 0 then (False, set_error w)
          else (True, upd_cbb p (\<lambda>c. c\<lparr>cbb_child := None\<rparr>) (upd_cbb q (\<lambda>c. c\<lparr>cbb_base := False\<rparr>) w)))"
      using q len by (simp add: flush_child_def off Len cbb_ok_def Let_def)
    then show ?thesis
      using st z \<open>p \<noteq> q\<close>
      by (auto simp: Len buf_rep_cells same_buffer_def room_def intro!: exI[of _ "(cbbs w q)\<lparr>cbb_base := False\<rparr>"])
  next
    case Asn1
    let ?d = "der_len (length body)"
    have b1: "buf_rep (base w) (F @ 0 # body)" using b by (simp add: Asn1)
    note fl = flush_asn1_rep[OF b1 sys off]
    have eq: "flush_child sys w p q (length F + 1) =
      (case flush_asn1 sys w True q (length F + 1) (length body) of
         (None, w) \<Rightarrow> (False, set_error w)
       | (Some len, w) \<Rightarrow>
           let (w, len) = store_be w (cbb_offset (cbbs w q)) (cbb_pending_len_len (cbbs w q)) len
           in if len \<noteq> 0 then (False, set_error w)
              else (True, upd_cbb p (\<lambda>c. c\<lparr>cbb_child := None\<rparr>) (upd_cbb q (\<lambda>c. c\<lparr>cbb_base := False\<rparr>) w)))"
      using q len p by (simp add: flush_child_def off Asn1 cbb_ok_def Let_def split: prod.split option.split)
    show ?thesis
    proof (cases "flush_asn1 sys w True q (length F + 1) (length body)")
      case (Pair r w1)
      show ?thesis
      proof (cases r)
        case None
        then show ?thesis using fl Pair eq by (simp add: Asn1 add.assoc)
      next
        case (Some l)
        then obtain Y where Y: "length Y = length ?d - 1"
          "buf_cells (base w1) (map Some (F @ [hd ?d]) @ Y @ map Some body)"
          and le: "length body \<le> 0xfffffffe" and l: "l < 256 ^ (length ?d - 1)"
          and d: "?d = hd ?d # be_bytes (length ?d - 1) l"
          and w1: "cbbs w1 = (cbbs w)(q := (cbbs w q)\<lparr>cbb_offset := length F + 1,
            cbb_pending_len_len := length ?d - 1\<rparr>)"
          and sb: "same_buffer sys (length F + length ?d + length body) w w1"
          using fl Pair by auto
        have yl: "length (map Some (F @ [hd ?d])) = Suc (length F)" by simp
        note st = store_be_cells[OF Y(2,1), of l, unfolded yl]
        define w2 where "w2 = upd_base (bb_map (\<lambda>m. overwrite m (Suc (length F))
          (map Some (be_bytes (length ?d - 1) l)))) w1"
        have s1: "store_be w1 (Suc (length F)) (length ?d - 1) l = (w2, 0)"
          using st(1) l by (simp add: w2_def)
        then have "buf_cells (base w2) (map Some (F @ [hd ?d]) @ map Some (be_bytes (length ?d - 1) l) @ map Some body)"
          using st(2) by simp
        then have r2: "buf_rep (base w2) (F @ ?d @ body)"
          by (subst d) (simp add: buf_rep_cells)
        have w2: "cbbs w2 = cbbs w1" "same_buffer sys (length F + length ?d + length body) w w2"
          using sb by (simp_all add: w2_def)
        have fc: "flush_child sys w p q (length F + 1) =
          (True, upd_cbb p (\<lambda>c. c\<lparr>cbb_child := None\<rparr>) (upd_cbb q (\<lambda>c. c\<lparr>cbb_base := False\<rparr>) w2))"
          unfolding eq Pair Some using s1 w1 by simp
        show ?thesis
          unfolding Asn1 pending.simps fc using r2 w2 w1 le \<open>p \<noteq> q\<close>
          by (auto simp: add.assoc same_buffer_base[of "upd_cbb p _ _" w2]
              intro!: exI[of _ "(cbbs w q)\<lparr>cbb_offset := length F + 1,
                cbb_pending_len_len := length ?d - 1, cbb_base := False\<rparr>"])
      qed
    qed
  qed
qed

section \<open>Flushing\<close>

lemma encode_length: "encode k body = Some e \<Longrightarrow> pending k + length body \<le> length e"
  by (cases k) (auto split: if_splits simp: der_len_def)

definition others_same :: "nat set \<Rightarrow> cbb_world \<Rightarrow> cbb_world \<Rightarrow> bool" where
  "others_same A w w' \<longleftrightarrow> (\<forall>a. a \<notin> A \<longrightarrow> cbbs w' a = cbbs w a)"

text \<open>
  What a flush of \<open>p\<close> promises: the children are closed into \<open>p\<close> and become stale, nothing
  else changes; or the builder is in the error state, which happens only when a length does
  not fit its prefix or there is no room.
\<close>

definition flush_promise ::
  "sys_malloc \<Rightarrow> cbb_world \<Rightarrow> frame list \<Rightarrow> nat \<Rightarrow> frame_kind \<Rightarrow> u8 list \<Rightarrow> frame list \<Rightarrow> bool \<Rightarrow> cbb_world \<Rightarrow> bool" where
  "flush_promise sys w pre p k bs fs ok w' \<longleftrightarrow>
     (if ok then \<exists>ts. close_frames fs = Some ts \<and> rep w' (pre @ [(p, k, bs @ ts)]) \<and>
          same_buffer sys (length (flat (pre @ [(p, k, bs @ ts)]))) w w' \<and>
          others_same (insert p (fst ` set fs)) w w' \<and>
          (\<forall>a\<in>fst ` set fs. \<not> cbb_base (cbbs w' a))
      else bb_error (base w') \<and>
        \<not> (\<exists>ts. close_frames fs = Some ts \<and> room sys (base w) (length (flat (pre @ [(p, k, bs @ ts)])))))"

lemma rep_frame:
  assumes "rep w (pre @ (p, k, bs) # fs)"
  shows "cbb_ok (cbbs w p) k (length (flat pre)) (child_of fs None)"
    and "\<not> bb_error (base w)" and "cbb_base (cbbs w p)"
  using assms by (auto simp: rep_def chain_ok_append buf_rep_def cbb_ok_def)

lemma rep_no_child: "rep w (pre @ [(p, k, bs)]) \<Longrightarrow> CBB_flush sys w p = Some (True, w)"
  using rep_frame[of w pre p k bs "[]"] by (subst CBB_flush.simps) (simp add: cbb_ok_def)

lemma rep_offset:
  assumes "rep w (pre @ (p, k, bs) # fs)"
  shows "size_add (length (flat pre)) (pending k) = length (flat pre) + pending k"
  using assms by (auto simp: rep_def buf_rep_def size_add_def SIZE_MOD_def)

lemma rep_close_last:
  assumes "rep w (pre @ [(p, k, bs), (q, k', body)])" "buf_rep (base w') (flat (pre @ [(p, k, bs)]) @ e)"
    "cbbs w' = (cbbs w)(q := cq, p := (cbbs w p)\<lparr>cbb_child := None\<rparr>)"
  shows "rep w' (pre @ [(p, k, bs @ e)])"
proof -
  have d: "distinct (map fst (pre @ [(p, k, bs), (q, k', body)]))"
    and c: "chain_ok (cbbs w) 0 (pre @ [(p, k, bs), (q, k', body)]) None"
    and ki: "kinds_ok (pre @ [(p, k, bs), (q, k', body)])"
    using assms(1) by (auto simp: rep_def)
  have "chain_ok (cbbs w') 0 pre (Some p) = chain_ok (cbbs w) 0 pre (Some p)"
    using d by (intro chain_ok_cong) (auto simp: assms(3))
  moreover have "cbb_ok (cbbs w' p) k (length (flat pre)) None"
    using c by (simp add: chain_ok_append cbb_ok_def assms(3))
  ultimately have "chain_ok (cbbs w') 0 (pre @ [(p, k, bs @ e)]) None"
    using c by (simp add: chain_ok_append)
  then show ?thesis
    using d kinds_ok_snoc[OF ki] assms(2) by (simp add: rep_def)
qed

lemma CBB_flush_rep:
  assumes sys: "malloc_bounded sys"
  shows "rep w (pre @ (p, k, bs) # fs) \<Longrightarrow>
    \<exists>ok w'. CBB_flush sys w p = Some (ok, w') \<and> flush_promise sys w pre p k bs fs ok w'"
proof (induction fs arbitrary: w pre p k bs)
  case Nil
  then show ?case using rep_no_child[OF Nil, of sys]
    by (auto simp: flush_promise_def others_same_def)
next
  case (Cons f fs)
  obtain q k' bs' where f: "f = (q, k', bs')" by (cases f)
  let ?F = "flat (pre @ [(p, k, bs)])"
  have r: "rep w ((pre @ [(p, k, bs)]) @ (q, k', bs') # fs)" using Cons.prems f by simp
  from Cons.IH[OF r] obtain ok1 w1 where q: "CBB_flush sys w q = Some (ok1, w1)"
    and prom: "flush_promise sys w (pre @ [(p, k, bs)]) q k' bs' fs ok1 w1" by blast
  have pk: "0 < pending k'" using r by (cases pre) (auto simp: rep_def kinds_ok_def)
  have dist: "p \<noteq> q" "q \<notin> fst ` set fs" "p \<notin> fst ` set fs" using Cons.prems f by (auto simp: rep_def)
  have cs: "cbb_ok (cbbs w p) k (length (flat pre)) (Some q)"
    "cbb_ok (cbbs w q) k' (length ?F) (child_of fs None)"
    using rep_frame(1)[OF Cons.prems] rep_frame(1)[OF r] by (simp_all add: f)
  have fl: "CBB_flush sys w p = (if \<not> ok1 then Some (False, set_error w1)
      else Some (flush_child sys w1 p q (length ?F + pending k')))"
    using cs pk rep_frame(2,3)[OF Cons.prems] rep_offset[OF r] q
    by (subst CBB_flush.simps) (simp add: cbb_ok_def)
  show ?case
  proof (cases ok1)
    case False
    have "\<not> (\<exists>ts. close_frames ((q, k', bs') # fs) = Some ts \<and>
        room sys (base w) (length (flat (pre @ [(p, k, bs @ ts)]))))"
    proof
      assume "\<exists>ts. close_frames ((q, k', bs') # fs) = Some ts \<and>
        room sys (base w) (length (flat (pre @ [(p, k, bs @ ts)])))"
      then obtain ts' ts where t: "close_frames fs = Some ts'" "encode k' (bs' @ ts') = Some ts"
        "room sys (base w) (length (flat (pre @ [(p, k, bs @ ts)])))"
        by (auto split: option.splits)
      have "room sys (base w) (length (flat ((pre @ [(p, k, bs)]) @ [(q, k', bs' @ ts')])))"
        using encode_length[OF t(2)] by (intro room_mono[OF t(3)]) simp
      then show False using prom t(1) False by (auto simp: flush_promise_def)
    qed
    then show ?thesis using fl False by (auto simp: flush_promise_def f)
  next
    case True
    then obtain ts where ts: "close_frames fs = Some ts"
      and r1: "rep w1 (pre @ [(p, k, bs), (q, k', bs' @ ts)])"
      and sb: "same_buffer sys (length ?F + pending k' + length (bs' @ ts)) w w1"
      and os: "others_same (insert q (fst ` set fs)) w w1" "\<forall>a\<in>fst ` set fs. \<not> cbb_base (cbbs w1 a)"
      using prom by (auto simp: flush_promise_def add.assoc)
    have r1': "rep w1 ((pre @ [(p, k, bs)]) @ [(q, k', bs' @ ts)])" using r1 by simp
    have b1: "buf_rep (base w1) (?F @ replicate (pending k') 0 @ bs' @ ts)"
      using r1 by (simp add: rep_def)
    have q1: "cbb_ok (cbbs w1 q) k' (length ?F) None" using rep_frame(1)[OF r1'] by simp
    have p1: "cbb_base (cbbs w1 p)" using rep_frame(3)[of w1 pre p k bs] r1 by simp
    note fc = flush_child_buffer[OF b1 sys q1 p1 dist(1) pk]
    obtain ok2 w2 where f2: "flush_child sys w1 p q (length ?F + pending k') = (ok2, w2)"
      by (cases "flush_child sys w1 p q (length ?F + pending k')")
    have pr: "CBB_flush sys w p = Some (ok2, w2)" using fl True f2 by simp
    show ?thesis
    proof (cases ok2)
      case False
      have "\<not> room sys (base w) (length (flat (pre @ [(p, k, bs @ e)])))"
        if e: "encode k' (bs' @ ts) = Some e" for e
      proof
        assume "room sys (base w) (length (flat (pre @ [(p, k, bs @ e)])))"
        then have "room sys (base w) (length ?F + length e)" by (simp add: add.assoc)
        then have "room sys (base w1) (length ?F + length e)"
          using sb encode_length[OF e] by (simp add: same_buffer_def)
        then show False using fc f2 False e by auto
      qed
      then show ?thesis using pr False fc f2 ts by (auto simp: flush_promise_def f)
    next
      case ok: True
      then obtain e cq where e: "encode k' (bs' @ ts) = Some e" "buf_rep (base w2) (?F @ e)"
        "same_buffer sys (length ?F + length e) w1 w2"
        and cq: "\<not> cbb_base cq" "cbbs w2 = (cbbs w1)(q := cq, p := (cbbs w1 p)\<lparr>cbb_child := None\<rparr>)"
        using fc f2 by auto
      have "rep w2 (pre @ [(p, k, bs @ e)])" by (rule rep_close_last[OF r1 e(2) cq(2)])
      moreover have "same_buffer sys (length ?F + length e) w w2"
        using encode_length[OF e(1)] by (intro same_buffer_trans[OF sb e(3)]) simp
      moreover have "others_same (insert p (fst ` set (f # fs))) w w2"
        using os(1) by (auto simp: others_same_def cq(2) f)
      moreover have "\<forall>a\<in>fst ` set (f # fs). \<not> cbb_base (cbbs w2 a)"
        using os(2) dist cq by (auto simp: f)
      ultimately have "flush_promise sys w pre p k bs (f # fs) True w2"
        unfolding flush_promise_def using ts e(1) f by (auto simp: add.assoc)
      then show ?thesis using pr ok by auto
    qed
  qed
qed

section \<open>Writing\<close>

text \<open>The same promise for an operation that flushes \<open>p\<close> and then appends \<open>data\<close> to it.\<close>

definition write_promise ::
  "sys_malloc \<Rightarrow> cbb_world \<Rightarrow> frame list \<Rightarrow> nat \<Rightarrow> frame_kind \<Rightarrow> u8 list \<Rightarrow> frame list \<Rightarrow> u8 list \<Rightarrow>
    bool \<Rightarrow> cbb_world \<Rightarrow> bool" where
  "write_promise sys w pre p k bs fs data ok w' \<longleftrightarrow>
     (if ok then \<exists>ts. close_frames fs = Some ts \<and> rep w' (pre @ [(p, k, bs @ ts @ data)]) \<and>
          same_buffer sys (length (flat (pre @ [(p, k, bs @ ts @ data)]))) w w' \<and>
          others_same (insert p (fst ` set fs)) w w' \<and>
          (\<forall>a\<in>fst ` set fs. \<not> cbb_base (cbbs w' a))
      else bb_error (base w') \<and>
        \<not> (\<exists>ts. close_frames fs = Some ts \<and>
             room sys (base w) (length (flat (pre @ [(p, k, bs @ ts @ data)])))))"

lemma rep_append:
  assumes "rep w (pre @ [(p, k, bs)])" "cbbs w' = cbbs w" "buf_rep (base w') (flat (pre @ [(p, k, bs)]) @ data)"
  shows "rep w' (pre @ [(p, k, bs @ data)])"
proof -
  have "kinds_ok (pre @ [(p, k, bs @ data)])"
    using assms(1) by (cases pre) (auto simp: rep_def kinds_ok_def)
  then show ?thesis using assms by (simp add: rep_def chain_ok_append)
qed

text \<open>
  The operations all have this shape: flush, then an operation on the buffer that appends
  \<open>data\<close> or fails with the error set, and fails only for lack of room.
\<close>

lemma write_promiseI:
  assumes sys: "malloc_bounded sys" and r: "rep w (pre @ (p, k, bs) # fs)"
    and buf: "\<And>w1 cs. buf_rep (base w1) cs \<Longrightarrow> cbb_base (cbbs w1 p) \<Longrightarrow> \<exists>ok w2. f w1 = Some (ok, w2) \<and>
      (if ok then cbbs w2 = cbbs w1 \<and> buf_rep (base w2) (cs @ data) \<and> same_buffer sys (length cs + length data) w1 w2
       else bb_error (base w2) \<and> (fits \<longrightarrow> \<not> room sys (base w1) (length cs + length data)))"
    and "fits"
  shows "\<exists>ok w'. and_then (CBB_flush sys w p) f = Some (ok, w') \<and> write_promise sys w pre p k bs fs data ok w'"
proof -
  from CBB_flush_rep[OF sys r] obtain ok1 w1 where fl: "CBB_flush sys w p = Some (ok1, w1)"
    and prom: "flush_promise sys w pre p k bs fs ok1 w1" by blast
  show ?thesis
  proof (cases ok1)
    case False
    have "room sys (base w) (length (flat (pre @ [(p, k, bs @ ts @ data)]))) \<Longrightarrow>
        room sys (base w) (length (flat (pre @ [(p, k, bs @ ts)])))" for ts
      by (erule room_mono) simp
    then have "write_promise sys w pre p k bs fs data False w1"
      using prom False by (auto simp: write_promise_def flush_promise_def)
    then show ?thesis using fl False by (intro exI[of _ False] exI[of _ w1]) (simp add: and_then_def)
  next
    case True
    then obtain ts where ts: "close_frames fs = Some ts" "rep w1 (pre @ [(p, k, bs @ ts)])"
      "same_buffer sys (length (flat (pre @ [(p, k, bs @ ts)]))) w w1"
      "others_same (insert p (fst ` set fs)) w w1" "\<forall>a\<in>fst ` set fs. \<not> cbb_base (cbbs w1 a)"
      using prom by (auto simp: flush_promise_def)
    let ?cs = "flat (pre @ [(p, k, bs @ ts)])"
    from ts(2) have b: "buf_rep (base w1) ?cs" "cbb_base (cbbs w1 p)"
      using rep_frame(3)[of w1 pre p k "bs @ ts" "[]"] by (simp_all add: rep_def)
    from buf[OF b] obtain ok w2 where f: "f w1 = Some (ok, w2)"
      and ok: "if ok then cbbs w2 = cbbs w1 \<and> buf_rep (base w2) (?cs @ data) \<and>
          same_buffer sys (length ?cs + length data) w1 w2
        else bb_error (base w2) \<and> (fits \<longrightarrow> \<not> room sys (base w1) (length ?cs + length data))"
      by blast
    have len: "length (flat (pre @ [(p, k, bs @ ts @ data)])) = length ?cs + length data" by simp
    have "write_promise sys w pre p k bs fs data ok w2"
    proof (cases ok)
      case False
      then have nr: "\<not> room sys (base w1) (length ?cs + length data)" using ok \<open>fits\<close> by simp
      then have "\<not> room sys (base w) (length ?cs + length data)" using ts(3) by (auto simp: same_buffer_def)
      then show ?thesis using False ok ts(1) unfolding write_promise_def len[symmetric] by simp
    next
      case True
      then have "rep w2 (pre @ [(p, k, (bs @ ts) @ data)])" using ok by (intro rep_append[OF ts(2)]) simp_all
      moreover have "same_buffer sys (length ?cs + length data) w w2"
        using True ok by (intro same_buffer_trans[OF ts(3)]) simp_all
      ultimately show ?thesis
        using True ok ts(1,4,5) unfolding write_promise_def len by (simp add: others_same_def add.assoc)
    qed
    then show ?thesis using fl True f by (simp add: and_then_def)
  qed
qed

lemma add_u_write:
  assumes sys: "malloc_bounded sys" and n: "0 < n" "n \<le> 8"
    and b: "buf_rep (base w1) cs" "cbb_base (cbbs w1 p)"
  shows "\<exists>ok w2. Some (cbb_buffer_add_u sys w1 (cbb_base (cbbs w1 p)) v n) = Some (ok, w2) \<and>
      (if ok then cbbs w2 = cbbs w1 \<and> buf_rep (base w2) (cs @ be_bytes n (unat v)) \<and>
         same_buffer sys (length cs + length (be_bytes n (unat v))) w1 w2
       else bb_error (base w2) \<and>
         (unat v < 256 ^ n \<longrightarrow> \<not> room sys (base w1) (length cs + length (be_bytes n (unat v)))))"
  using cbb_buffer_add_u_rep[OF b(1) sys n, of v] b(2)
  by (cases "cbb_buffer_add_u sys w1 True v n") (auto split: bool.splits)

lemma be_bytes_u8: "be_bytes 1 (unat (v :: u8)) = [v]"
  by simp

lemma CBB_add_u_rep:
  assumes "malloc_bounded sys" "rep w (pre @ (p, k, bs) # fs)" "0 < n" "n \<le> 8" "unat v < 256 ^ n"
  shows "\<exists>ok w'. and_then (CBB_flush sys w p)
      (\<lambda>w. Some (cbb_buffer_add_u sys w (cbb_base (cbbs w p)) v n)) = Some (ok, w') \<and>
    write_promise sys w pre p k bs fs (be_bytes n (unat v)) ok w'"
  by (rule write_promiseI[OF assms(1,2), where fits="unat v < 256 ^ n"])
    (rule add_u_write[OF assms(1,3,4)], assumption, assumption, rule assms(5))

lemma CBB_add_u8_rep:
  assumes "malloc_bounded sys" "rep w (pre @ (p, k, bs) # fs)"
  shows "\<exists>ok w'. CBB_add_u8 sys w p v = Some (ok, w') \<and> write_promise sys w pre p k bs fs [v] ok w'"
proof -
  have u: "unat (ucast v :: u32) = unat v" by (rule unat_ucast_u8_u32)
  show ?thesis
    using CBB_add_u_rep[OF assms, of 1 "ucast v"] unat_u8_lt[of v]
    by (simp only: CBB_add_u8_def u be_bytes_u8) simp
qed

lemma CBB_add_bytes_rep:
  assumes "malloc_bounded sys" "rep w (pre @ (p, k, bs) # fs)" "length data + 8 < 2 ^ 63"
  shows "\<exists>ok w'. CBB_add_bytes sys w p data = Some (ok, w') \<and> write_promise sys w pre p k bs fs data ok w'"
  unfolding CBB_add_bytes_def
proof (rule write_promiseI[OF assms(1,2), where fits=True])
  fix w1 :: cbb_world and cs
  assume b: "buf_rep (base w1) cs" "cbb_base (cbbs w1 p)"
  show "\<exists>ok w2. (case cbb_buffer_add sys w1 (cbb_base (cbbs w1 p)) (length data) of
         (None, w) \<Rightarrow> Some (False, w)
       | (Some dest, w) \<Rightarrow> Some (True, upd_base (bb_map (\<lambda>m. overwrite m dest (map Some data))) w)) = Some (ok, w2) \<and>
      (if ok then cbbs w2 = cbbs w1 \<and> buf_rep (base w2) (cs @ data) \<and> same_buffer sys (length cs + length data) w1 w2
       else bb_error (base w2) \<and> (True \<longrightarrow> \<not> room sys (base w1) (length cs + length data)))"
  proof (cases "cbb_buffer_add sys w1 True (length data)")
    case (Pair r w2)
    show ?thesis
    proof (cases r)
      case None
      then show ?thesis using cbb_buffer_add_rep[OF b(1) assms(1,3)] b(2) Pair
        by (intro exI[of _ False] exI[of _ w2]) simp
    next
      case (Some dest)
      then have a: "dest = length cs" "cbbs w2 = cbbs w1" "buf_alloc (base w2) cs (length data)"
        "same_buffer sys (length cs + length data) w1 w2"
        using cbb_buffer_add_rep[OF b(1) assms(1,3)] Pair by simp_all
      then show ?thesis using b(2) Pair Some buf_alloc_write[OF a(3)]
        by (intro exI[of _ True] exI[of _ "upd_base (bb_map (\<lambda>m. overwrite m dest (map Some data))) w2"]) simp
    qed
  qed
qed simp

section \<open>Operations in sequence\<close>

text \<open>
  The promise with an arbitrary target: the frames the abstract builder would have, if it
  accepts the operations at all. \<open>A\<close> holds the structs that may change, \<open>S\<close> those that are
  stale afterwards.
\<close>

definition promise ::
  "sys_malloc \<Rightarrow> cbb_world \<Rightarrow> frame list option \<Rightarrow> nat set \<Rightarrow> nat set \<Rightarrow> bool \<Rightarrow> cbb_world \<Rightarrow> bool" where
  "promise sys w target A S ok w' \<longleftrightarrow>
     (if ok then \<exists>fs. target = Some fs \<and> rep w' fs \<and> same_buffer sys (length (flat fs)) w w' \<and>
          others_same A w w' \<and> (\<forall>a\<in>S. \<not> cbb_base (cbbs w' a))
      else bb_error (base w') \<and>
        \<not> (\<exists>fs. target = Some fs \<and> room sys (base w) (length (flat fs))))"

definition appended :: "frame list \<Rightarrow> nat \<Rightarrow> frame_kind \<Rightarrow> u8 list \<Rightarrow> frame list \<Rightarrow> u8 list \<Rightarrow> frame list option" where
  "appended pre p k bs fs data = map_option (\<lambda>ts. pre @ [(p, k, bs @ ts @ data)]) (close_frames fs)"

lemma appended_Nil [simp]: "appended pre p k bs [] data = Some (pre @ [(p, k, bs @ data)])"
  by (simp add: appended_def)

lemma write_promise_iff:
  "write_promise sys w pre p k bs fs data ok w' \<longleftrightarrow>
   promise sys w (appended pre p k bs fs data) (insert p (fst ` set fs)) (fst ` set fs) ok w'"
  by (auto simp: write_promise_def promise_def appended_def)

lemma flush_promise_iff:
  "flush_promise sys w pre p k bs fs ok w' \<longleftrightarrow>
   promise sys w (appended pre p k bs fs []) (insert p (fst ` set fs)) (fst ` set fs) ok w'"
  by (auto simp: flush_promise_def promise_def appended_def)

lemma promise_then:
  assumes m: "m = Some (ok1, w1)" "promise sys w T1 A1 S1 ok1 w1"
    and f: "\<And>fs1 w1. T1 = Some fs1 \<Longrightarrow> rep w1 fs1 \<Longrightarrow>
      \<exists>ok w2. f w1 = Some (ok, w2) \<and> promise sys w1 (G fs1) A2 S2 ok w2"
    and mono: "\<And>fs1 fs2. T1 = Some fs1 \<Longrightarrow> G fs1 = Some fs2 \<Longrightarrow> length (flat fs1) \<le> length (flat fs2)"
  shows "\<exists>ok w2. and_then m f = Some (ok, w2) \<and>
    promise sys w (Option.bind T1 G) (A1 \<union> A2) (S1 - A2 \<union> S2) ok w2"
proof (cases ok1)
  case False
  have "\<not> room sys (base w) (length (flat fs2))" if "T1 = Some fs1" "G fs1 = Some fs2" for fs1 fs2
    using m(2) False that mono[OF that] room_mono by (auto simp: promise_def)
  then have "promise sys w (Option.bind T1 G) (A1 \<union> A2) (S1 - A2 \<union> S2) False w1"
    using m(2) False by (auto simp: promise_def bind_eq_Some_conv)
  then show ?thesis using m(1) False by (intro exI[of _ False] exI[of _ w1]) (simp add: and_then_def)
next
  case True
  then obtain fs1 where fs1: "T1 = Some fs1" "rep w1 fs1" "same_buffer sys (length (flat fs1)) w w1"
    "others_same A1 w w1" "\<forall>a\<in>S1. \<not> cbb_base (cbbs w1 a)"
    using m(2) by (auto simp: promise_def)
  from f[OF fs1(1,2)] obtain ok w2 where w2: "f w1 = Some (ok, w2)" "promise sys w1 (G fs1) A2 S2 ok w2"
    by blast
  have "promise sys w (Option.bind T1 G) (A1 \<union> A2) (S1 - A2 \<union> S2) ok w2"
  proof (cases ok)
    case False
    then show ?thesis using w2(2) fs1(1,3) mono[OF fs1(1)] by (auto simp: promise_def same_buffer_def)
  next
    case ok: True
    then obtain fs2 where fs2: "G fs1 = Some fs2" "rep w2 fs2" "same_buffer sys (length (flat fs2)) w1 w2"
      "others_same A2 w1 w2" "\<forall>a\<in>S2. \<not> cbb_base (cbbs w2 a)"
      using w2(2) by (auto simp: promise_def)
    have "same_buffer sys (length (flat fs2)) w w2"
      by (rule same_buffer_trans[OF fs1(3) fs2(3) mono[OF fs1(1) fs2(1)]])
    then show ?thesis using ok fs1 fs2 by (auto simp: promise_def others_same_def)
  qed
  then show ?thesis using m(1) True w2(1) by (simp add: and_then_def)
qed

lemma promise_weaken:
  "promise sys w T A S ok w' \<Longrightarrow> A \<subseteq> A' \<Longrightarrow> S' \<subseteq> S \<Longrightarrow> promise sys w T A' S' ok w'"
  unfolding promise_def others_same_def by (auto simp: subset_iff; blast)

text \<open>Opening a child.\<close>

lemma link_child_simps:
  "p \<noteq> q \<Longrightarrow> cbbs (link_child w p q off n is_asn1) = (cbbs w)(p := (cbbs w p)\<lparr>cbb_child := Some q\<rparr>,
    q := \<lparr>cbb_base = cbb_base (cbbs w p), cbb_child = None, cbb_offset = off,
      cbb_pending_len_len = n, cbb_pending_is_asn1 = is_asn1, cbb_is_top_level = False\<rparr>)"
  "base (link_child w p q off n is_asn1) = base w"
  by (auto simp: link_child_def Let_def cbb_zeroed_def)

lemma link_child_rep:
  assumes r: "rep w (pre @ [(p, k, c @ replicate n 0)])" and q: "q \<notin> insert p (fst ` set pre)"
    and kk: "kk = (if is_asn1 then Asn1 else Len n)" "pending kk = n" "0 < n" "n \<le> 3"
  shows "rep (link_child w p q (length (flat (pre @ [(p, k, c)]))) n is_asn1) (pre @ [(p, k, c), (q, kk, [])])"
    (is "rep ?w _")
proof -
  have d: "distinct (map fst (pre @ [(p, k, c @ replicate n 0)]))" using r by (simp add: rep_def)
  have pq: "p \<noteq> q" using q by auto
  note cb = link_child_simps(1)[OF pq]
  have "chain_ok (cbbs ?w) 0 pre (Some p) = chain_ok (cbbs w) 0 pre (Some p)"
    using d q by (intro chain_ok_cong) (auto simp: cb)
  then have "chain_ok (cbbs ?w) 0 (pre @ [(p, k, c), (q, kk, [])]) None"
    using r q kk by (auto simp: rep_def chain_ok_append cbb_ok_def cb)
  moreover have "kinds_ok (pre @ [(p, k, c), (q, kk, [])])"
    using r kk by (cases pre) (auto simp: rep_def kinds_ok_def)
  ultimately show ?thesis using r q kk by (simp add: rep_def link_child_simps(2))
qed

definition opened ::
  "frame list \<Rightarrow> nat \<Rightarrow> frame_kind \<Rightarrow> u8 list \<Rightarrow> frame list \<Rightarrow> u8 list \<Rightarrow> nat \<Rightarrow> frame_kind \<Rightarrow> frame list option" where
  "opened pre p k bs fs data q kk =
     map_option (\<lambda>ts. pre @ [(p, k, bs @ ts @ data), (q, kk, [])]) (close_frames fs)"

lemma opened_Nil [simp]: "opened pre p k bs [] data q kk = Some (pre @ [(p, k, bs @ data), (q, kk, [])])"
  by (simp add: opened_def)

lemma link_child_promise:
  assumes "rep w (pre @ [(p, k, c @ replicate n 0)])" "q \<notin> insert p (fst ` set pre)"
    "kk = (if is_asn1 then Asn1 else Len n)" "pending kk = n" "0 < n" "n \<le> 3"
    "off = length (flat (pre @ [(p, k, c)]))"
  shows "promise sys w (Some (pre @ [(p, k, c), (q, kk, [])])) {p, q} {} True (link_child w p q off n is_asn1)"
  using link_child_rep[OF assms(1-6)] assms(7)
  by (auto simp: promise_def same_buffer_def link_child_def Let_def others_same_def)

lemma promise_seq:
  assumes "m = Some (ok1, w1)" "promise sys w (Some fs1) A1 S1 ok1 w1"
    and "\<And>w1. rep w1 fs1 \<Longrightarrow> \<exists>ok w2. f w1 = Some (ok, w2) \<and> promise sys w1 (Some fs2) A2 S2 ok w2"
    and "length (flat fs1) \<le> length (flat fs2)"
  shows "\<exists>ok w2. and_then m f = Some (ok, w2) \<and> promise sys w (Some fs2) (A1 \<union> A2) (S1 - A2 \<union> S2) ok w2"
proof -
  have "\<exists>ok w2. and_then m f = Some (ok, w2) \<and>
    promise sys w (Option.bind (Some fs1) (\<lambda>_. Some fs2)) (A1 \<union> A2) (S1 - A2 \<union> S2) ok w2"
    by (rule promise_then[OF assms(1,2)]) (use assms(3,4) in auto)
  then show ?thesis by simp
qed

lemma CBB_add_u8_promise:
  assumes "malloc_bounded sys" "rep w (pre @ [(p, k, bs)])"
  shows "\<exists>ok w'. CBB_add_u8 sys w p v = Some (ok, w') \<and>
    promise sys w (Some (pre @ [(p, k, bs @ [v])])) {p} {} ok w'"
  using CBB_add_u8_rep[OF assms(1), of w pre p k bs "[]" v] assms(2) by (simp add: write_promise_iff)

lemma rep_len: "rep w fs \<Longrightarrow> bb_len (base w) = length (flat fs)"
  by (simp add: rep_def buf_rep_def)

lemma ucast_tag:
  "(ucast (t :: u8) :: u32) AND 0x1f = 0x1f \<longleftrightarrow> t AND 0x1f = 0x1f" "\<not> (ucast t :: u32) > 0xff"
proof -
  have "(ucast t :: u32) AND 0x1f = ucast (t AND 0x1f)" by (simp add: unsigned_and_eq)
  then show "(ucast (t :: u8) :: u32) AND 0x1f = 0x1f \<longleftrightarrow> t AND 0x1f = 0x1f"
    using ucast_u8_u32_eq[of "t AND 0x1f" "0x1f"] by simp
  show "\<not> (ucast t :: u32) > 0xff"
    using unat_u8_lt[of t] by (simp add: word_less_nat_alt unat_ucast_u8_u32)
qed

lemma ucast_ucast_u8 [simp]: "ucast (ucast (t :: u8) :: u32) = t"
  by (rule bit_word_eqI) (simp add: bit_ucast_iff)

lemma CBB_add_asn1_rep:
  assumes sys: "malloc_bounded sys" and r: "rep w (pre @ (p, k, bs) # fs)"
    and q: "q \<notin> insert p (fst ` set pre)" and t: "der_tag_ok t"
  shows "\<exists>ok w'. CBB_add_asn1 sys w p q (ucast t) = Some (ok, w') \<and>
    promise sys w (opened pre p k bs fs [t] q Asn1) (insert q (insert p (fst ` set fs))) (fst ` set fs - {p, q}) ok w'"
proof -
  let ?f = "\<lambda>w. and_then (CBB_add_u8 sys w p t) (\<lambda>w. let off = bb_len (base w)
          in and_then (CBB_add_u8 sys w p 0) (\<lambda>w. Some (True, link_child w p q off 1 True)))"
  let ?G = "\<lambda>fs. Some (butlast fs @ [(p, k, snd (snd (last fs)) @ [t]), (q, Asn1, [])])"
  have step: "\<exists>ok w2. ?f w1 = Some (ok, w2) \<and>
      promise sys w1 (Some (pre @ [(p, k, c @ [t]), (q, Asn1, [])])) {p, q} {} ok w2"
    if r1: "rep w1 (pre @ [(p, k, c)])" for w1 c
  proof -
    from CBB_add_u8_promise[OF sys r1] obtain ok2 w2 where m: "CBB_add_u8 sys w1 p t = Some (ok2, w2)"
      "promise sys w1 (Some (pre @ [(p, k, c @ [t])])) {p} {} ok2 w2" by blast
    have "\<exists>ok w2. ?f w1 = Some (ok, w2) \<and> promise sys w1 (Some (pre @ [(p, k, c @ [t]), (q, Asn1, [])]))
       ({p} \<union> ({p} \<union> {p, q})) ({} - ({p} \<union> {p, q}) \<union> ({} - {p, q} \<union> {})) ok w2"
    proof (rule promise_seq[OF m])
      fix w3
      assume r3: "rep w3 (pre @ [(p, k, c @ [t])])"
      from CBB_add_u8_promise[OF sys r3] obtain ok4 w4 where m4: "CBB_add_u8 sys w3 p 0 = Some (ok4, w4)"
        "promise sys w3 (Some (pre @ [(p, k, (c @ [t]) @ [0])])) {p} {} ok4 w4" by blast
      have "\<exists>ok w5. and_then (CBB_add_u8 sys w3 p 0) (\<lambda>w. Some (True, link_child w p q (bb_len (base w3)) 1 True))
          = Some (ok, w5) \<and>
        promise sys w3 (Some (pre @ [(p, k, c @ [t]), (q, Asn1, [])])) ({p} \<union> {p, q}) ({} - {p, q} \<union> {}) ok w5"
      proof (rule promise_seq[OF m4])
        fix w5
        assume r5: "rep w5 (pre @ [(p, k, (c @ [t]) @ [0])])"
        have "promise sys w5 (Some (pre @ [(p, k, c @ [t]), (q, Asn1, [])])) {p, q} {} True
            (link_child w5 p q (bb_len (base w3)) 1 True)"
          using r5 q rep_len[OF r3] by (intro link_child_promise) simp_all
        then show "\<exists>ok w2. Some (True, link_child w5 p q (bb_len (base w3)) 1 True) = Some (ok, w2) \<and>
            promise sys w5 (Some (pre @ [(p, k, c @ [t]), (q, Asn1, [])])) {p, q} {} ok w2"
          by blast
      qed simp
      then show "\<exists>ok w2. (let off = bb_len (base w3)
          in and_then (CBB_add_u8 sys w3 p 0) (\<lambda>w. Some (True, link_child w p q off 1 True))) = Some (ok, w2) \<and>
        promise sys w3 (Some (pre @ [(p, k, c @ [t]), (q, Asn1, [])])) ({p} \<union> {p, q}) ({} - {p, q} \<union> {}) ok w2"
        by (simp only: Let_def)
    qed simp
    moreover have "{p} \<union> ({p} \<union> {p, q}) = {p, q}" by auto
    ultimately show ?thesis by simp
  qed
  from CBB_flush_rep[OF sys r] obtain ok1 w1 where m: "CBB_flush sys w p = Some (ok1, w1)"
    "promise sys w (appended pre p k bs fs []) (insert p (fst ` set fs)) (fst ` set fs) ok1 w1"
    unfolding flush_promise_iff by blast
  have "\<exists>ok w2. and_then (CBB_flush sys w p) ?f = Some (ok, w2) \<and>
      promise sys w (Option.bind (appended pre p k bs fs []) ?G)
        (insert p (fst ` set fs) \<union> {p, q}) (fst ` set fs - {p, q} \<union> {}) ok w2"
  proof (rule promise_then[OF m])
    fix fs1 w1
    assume f1: "appended pre p k bs fs [] = Some fs1" and r1: "rep w1 fs1"
    then obtain ts where fs1: "fs1 = pre @ [(p, k, bs @ ts)]" by (auto simp: appended_def)
    show "\<exists>ok w2. ?f w1 = Some (ok, w2) \<and> promise sys w1 (?G fs1) {p, q} {} ok w2"
      using step[of w1 "bs @ ts"] r1 by (simp add: fs1)
  qed (auto simp: appended_def)
  moreover have "Option.bind (appended pre p k bs fs []) ?G = opened pre p k bs fs [t] q Asn1"
    by (cases "close_frames fs") (simp_all add: appended_def opened_def)
  ultimately show ?thesis
    using t by (simp add: CBB_add_asn1_def ucast_tag der_tag_ok_def Un_commute insert_commute)
qed

lemma cbb_add_length_prefixed_rep:
  assumes sys: "malloc_bounded sys" and r: "rep w (pre @ (p, k, bs) # fs)"
    and q: "q \<notin> insert p (fst ` set pre)" and n: "0 < n" "n \<le> 3"
  shows "\<exists>ok w'. cbb_add_length_prefixed sys w p q n = Some (ok, w') \<and>
    promise sys w (opened pre p k bs fs [] q (Len n)) (insert q (insert p (fst ` set fs))) (fst ` set fs - {p, q}) ok w'"
proof -
  let ?f = "\<lambda>w. let off = bb_len (base w)
       in case cbb_buffer_add sys w (cbb_base (cbbs w p)) n of
            (None, w) \<Rightarrow> Some (False, w)
          | (Some prefix_bytes, w) \<Rightarrow>
              let w = upd_base (bb_map (\<lambda>m. overwrite m prefix_bytes (replicate n (Some 0)))) w
              in Some (True, link_child w p q off n False)"
  let ?G = "\<lambda>fs. Some (butlast fs @ [(p, k, snd (snd (last fs))), (q, Len n, [])])"
  have step: "\<exists>ok w2. ?f w1 = Some (ok, w2) \<and>
      promise sys w1 (Some (pre @ [(p, k, c), (q, Len n, [])])) {p, q} {} ok w2"
    if r1: "rep w1 (pre @ [(p, k, c)])" for w1 c
  proof (cases "cbb_buffer_add sys w1 True n")
    case (Pair out w2)
    let ?cs = "flat (pre @ [(p, k, c)])"
    have b: "buf_rep (base w1) ?cs" using r1 by (simp add: rep_def)
    have p: "cbb_base (cbbs w1 p)" using rep_frame(3)[of w1 pre p k c "[]"] r1 by simp
    have "n + 8 < 2 ^ 63" using n by simp
    note add = cbb_buffer_add_rep[OF b sys this]
    show ?thesis
    proof (cases out)
      case None
      then show ?thesis using add Pair p
        by (intro exI[of _ False] exI[of _ w2]) (simp add: promise_def add.assoc)
    next
      case (Some o')
      then have a: "o' = length ?cs" "cbbs w2 = cbbs w1" "buf_alloc (base w2) ?cs n"
        "same_buffer sys (length ?cs + n) w1 w2"
        using add Pair by simp_all
      let ?w3 = "upd_base (bb_map (\<lambda>m. overwrite m (length ?cs) (replicate n (Some 0)))) w2"
      have "rep ?w3 (pre @ [(p, k, c @ replicate n 0)])"
        using buf_alloc_write[OF a(3), of "replicate n 0"] a(2) by (intro rep_append[OF r1]) simp_all
      then have "promise sys ?w3 (Some (pre @ [(p, k, c), (q, Len n, [])])) {p, q} {} True
          (link_child ?w3 p q (length ?cs) n False)"
        using q n by (intro link_child_promise) simp_all
      then have "promise sys w1 (Some (pre @ [(p, k, c), (q, Len n, [])])) {p, q} {} True
          (link_child ?w3 p q (length ?cs) n False)"
        using a(2,4) by (auto simp: promise_def others_same_def same_buffer_def room_def add.assoc)
      then show ?thesis using Pair Some a(1) p rep_len[OF r1]
        by (intro exI[of _ True] exI[of _ "link_child ?w3 p q (length ?cs) n False"]) (simp add: Let_def)
    qed
  qed
  from CBB_flush_rep[OF sys r] obtain ok1 w1 where m: "CBB_flush sys w p = Some (ok1, w1)"
    "promise sys w (appended pre p k bs fs []) (insert p (fst ` set fs)) (fst ` set fs) ok1 w1"
    unfolding flush_promise_iff by blast
  have "\<exists>ok w2. and_then (CBB_flush sys w p) ?f = Some (ok, w2) \<and>
      promise sys w (Option.bind (appended pre p k bs fs []) ?G)
        (insert p (fst ` set fs) \<union> {p, q}) (fst ` set fs - {p, q} \<union> {}) ok w2"
  proof (rule promise_then[OF m])
    fix fs1 w1
    assume f1: "appended pre p k bs fs [] = Some fs1" and r1: "rep w1 fs1"
    then obtain ts where fs1: "fs1 = pre @ [(p, k, bs @ ts)]" by (auto simp: appended_def)
    show "\<exists>ok w2. ?f w1 = Some (ok, w2) \<and> promise sys w1 (?G fs1) {p, q} {} ok w2"
      using step[of w1 "bs @ ts"] r1 unfolding fs1 by simp
  qed (auto simp: appended_def)
  moreover have "Option.bind (appended pre p k bs fs []) ?G = opened pre p k bs fs [] q (Len n)"
    by (cases "close_frames fs") (simp_all add: appended_def opened_def)
  ultimately show ?thesis
    by (simp add: cbb_add_length_prefixed_def Un_commute insert_commute)
qed

section \<open>Integers\<close>

text \<open>The bytes \<^verbatim>\<open>CBB_add_asn1_uint64\<close> writes from byte \<open>8 - n\<close> on.\<close>

fun emitted :: "u64 \<Rightarrow> nat \<Rightarrow> bool \<Rightarrow> u8 list" where
  "emitted v 0 started = []"
| "emitted v (Suc n) started =
     (let byte = ucast (drop_bit (8 * n) v)
      in if \<not> started \<and> byte = 0 then emitted v n started
         else (if \<not> started \<and> byte AND 0x80 \<noteq> 0 then [0] else []) @ byte # emitted v n True)"

lemma be_bytes_Suc: "be_bytes (Suc n) v = of_nat (v div 256 ^ n) # be_bytes n v"
  by (induction n arbitrary: v) (simp_all add: div_mult2_eq)

lemma u64_byte: "(ucast (drop_bit (8 * n) (v :: u64)) :: u8) = of_nat (unat v div 256 ^ n)"
proof -
  have "unat (drop_bit (8 * n) v) = unat v div 256 ^ n"
    unfolding unat_drop_bit_eq by (simp add: drop_bit_eq_div power_mult)
  then show ?thesis by (metis of_nat_unat)
qed

lemma emitted_started: "emitted v n True = be_bytes n (unat v)"
  by (induction n) (simp_all add: be_bytes_Suc u64_byte Let_def del: be_bytes.simps(2))

lemma emitted_der:
  "emitted v n False = (let m = unat v mod 256 ^ n in if m = 0 then [] else der_uint m)"
proof (induction n)
  case 0
  then show ?case by simp
next
  case (Suc n)
  let ?u = "unat v"
  let ?b = "of_nat (?u div 256 ^ n) :: u8"
  have b: "?b = 0 \<longleftrightarrow> (?u div 256 ^ n) mod 256 = 0"
    using word_of_nat_eq_0_iff[where 'a=8, of "?u div 256 ^ n"] by (simp add: dvd_eq_mod_eq_0)
  have m: "?u mod 256 ^ Suc n = (?u div 256 ^ n) mod 256 * 256 ^ n + ?u mod 256 ^ n"
    using mod_mult2_eq[of ?u "256 ^ n" 256] by (simp add: mult.commute)
  show ?case
  proof (cases "?b = 0")
    case True
    then show ?thesis using Suc m b by (simp add: u64_byte Let_def)
  next
    case False
    let ?m = "?u mod 256 ^ Suc n"
    have "1 \<le> (?u div 256 ^ n) mod 256" using b False by simp
    then have "1 * 256 ^ n \<le> (?u div 256 ^ n) mod 256 * 256 ^ n" by (rule mult_le_mono1)
    then have ge: "256 ^ n \<le> ?m" unfolding m mult_1 by (rule trans_le_add1)
    moreover have "?m < 256 ^ Suc n" by (rule mod_less_divisor) simp
    ultimately have "be_min ?m = be_bytes (Suc n) ?m" by (intro be_bytes_minimal) simp_all
    then have bm: "be_min ?m = ?b # be_bytes n ?u" by (simp only: be_bytes_mod be_bytes_Suc)
    have "?m \<noteq> 0" using ge by (metis le_zero_eq power_not_zero zero_neq_numeral)
    then show ?thesis using False bm
      by (simp add: u64_byte Let_def emitted_started der_uint_def u8_and_80 not_less del: power_Suc of_nat_div)
  qed
qed

lemma emitted_8: "(if emitted v 8 False = [] then [0] else emitted v 8 False) = der_uint (unat v)"
proof -
  have "unat v < 256 ^ 8" using unsigned_less[of v, where 'a=nat] by simp
  then have "unat v mod 256 ^ 8 = unat v" by (rule mod_less)
  then show ?thesis by (simp only: emitted_der Let_def) (simp add: der_uint_def)
qed

lemma promise_trans:
  assumes "promise sys w (Some fs1) A S ok1 w1" ok1 "promise sys w1 (Some fs2) A' S' ok w2"
    and len: "length (flat fs1) \<le> length (flat fs2)"
  shows "promise sys w (Some fs2) (A \<union> A') (S - A' \<union> S') ok w2"
proof -
  have 1: "same_buffer sys (length (flat fs1)) w w1" "others_same A w w1" "\<forall>a\<in>S. \<not> cbb_base (cbbs w1 a)"
    using assms(1,2) by (simp_all add: promise_def)
  show ?thesis
  proof (cases ok)
    case False
    then show ?thesis using assms(3) 1(1) len by (auto simp: promise_def same_buffer_def)
  next
    case True
    then have 2: "rep w2 fs2" "same_buffer sys (length (flat fs2)) w1 w2" "others_same A' w1 w2"
      "\<forall>a\<in>S'. \<not> cbb_base (cbbs w2 a)"
      using assms(3) by (simp_all add: promise_def)
    have "same_buffer sys (length (flat fs2)) w w2" by (rule same_buffer_trans[OF 1(1) 2(2) len])
    then show ?thesis using True 1 2 unfolding promise_def others_same_def by auto
  qed
qed

lemma promise_fail:
  "promise sys w (Some fs1) A S False w1 \<Longrightarrow> length (flat fs1) \<le> length (flat fs2) \<Longrightarrow>
   promise sys w (Some fs2) A' S' False w1"
  by (auto simp: promise_def dest: room_mono)

lemma promise_refl: "rep w fs \<Longrightarrow> promise sys w (Some fs) A {} True w"
  by (simp add: promise_def others_same_def)

lemma uint64_bytes_rep:
  assumes sys: "malloc_bounded sys"
  shows "rep w (pre @ [(q, kk, ds)]) \<Longrightarrow>
    \<exists>ok st w'. asn1_uint64_bytes sys q v n started w = Some (ok, st, w') \<and>
      promise sys w (Some (pre @ [(q, kk, ds @ emitted v n started)])) {q} {} ok w' \<and>
      (ok \<longrightarrow> st = (started \<or> emitted v n started \<noteq> []))"
proof (induction n arbitrary: w ds started)
  case 0
  then show ?case by (auto intro: promise_refl)
next
  case (Suc n)
  let ?b = "ucast (drop_bit (8 * n) v) :: u8"
  let ?pad = "\<not> started \<and> ?b AND 0x80 \<noteq> 0"
  let ?p = "if ?pad then [0] else []"
  let ?T = "\<lambda>xs. Some (pre @ [(q, kk, ds @ xs)])"
  show ?case
  proof (cases "\<not> started \<and> ?b = 0")
    case True
    then show ?thesis using Suc.IH[OF Suc.prems, of started] by (simp add: Let_def)
  next
    case False
    then have em: "emitted v (Suc n) started = ?p @ ?b # emitted v n True" by (auto simp: Let_def)
    have code: "asn1_uint64_bytes sys q v (Suc n) started w =
      (case (if ?pad then CBB_add_u8 sys w q 0 else Some (True, w)) of
         None \<Rightarrow> None
       | Some (ok, w) \<Rightarrow>
           if \<not> ok then Some (False, started, w)
           else case CBB_add_u8 sys w q ?b of
               None \<Rightarrow> None
             | Some (ok, w) \<Rightarrow>
                 if \<not> ok then Some (False, True, w) else asn1_uint64_bytes sys q v n True w)"
    proof -
      have "(\<not> started \<and> ?b = 0) = False" using False by simp
      then show ?thesis unfolding asn1_uint64_bytes.simps Let_def by (simp only: if_False)
    qed
    obtain ok1 w1 where p1: "(if ?pad then CBB_add_u8 sys w q 0 else Some (True, w)) = Some (ok1, w1)"
      and pr1: "promise sys w (?T ?p) {q} {} ok1 w1"
      using CBB_add_u8_promise[OF sys Suc.prems, of 0] promise_refl[OF Suc.prems] by (cases ?pad) auto
    show ?thesis
    proof (cases ok1)
      case False
      then have "promise sys w (?T ?p) {q} {} False w1" using pr1 by simp
      then have "promise sys w (?T (emitted v (Suc n) started)) {q} {} False w1"
        by (rule promise_fail) (simp add: em del: emitted.simps)
      then show ?thesis using code p1 False
        by (intro exI[of _ False] exI[of _ started] exI[of _ w1])
          (simp del: emitted.simps asn1_uint64_bytes.simps)
    next
      case True
      then have "rep w1 (pre @ [(q, kk, ds @ ?p)])" using pr1 by (auto simp: promise_def)
      from CBB_add_u8_promise[OF sys this, of ?b] obtain ok2 w2 where
        p2: "CBB_add_u8 sys w1 q ?b = Some (ok2, w2)"
        and "promise sys w1 (Some (pre @ [(q, kk, (ds @ ?p) @ [?b])])) {q} {} ok2 w2" by blast
      then have pr2: "promise sys w (Some (pre @ [(q, kk, (ds @ ?p) @ [?b])])) {q} {} ok2 w2"
        using promise_trans[OF pr1 True] by fastforce
      show ?thesis
      proof (cases ok2)
        case False
        then have "promise sys w (Some (pre @ [(q, kk, (ds @ ?p) @ [?b])])) {q} {} False w2" using pr2 by simp
        then have "promise sys w (?T (emitted v (Suc n) started)) {q} {} False w2"
          by (rule promise_fail) (simp add: em del: emitted.simps)
        then show ?thesis using code p1 True p2 False
          by (intro exI[of _ False] exI[of _ True] exI[of _ w2])
            (simp del: emitted.simps asn1_uint64_bytes.simps)
      next
        case ok2: True
        then have "rep w2 (pre @ [(q, kk, (ds @ ?p) @ [?b])])" using pr2 by (auto simp: promise_def)
        from Suc.IH[OF this, of True] obtain ok3 st w3 where
          p3: "asn1_uint64_bytes sys q v n True w2 = Some (ok3, st, w3)" "ok3 \<longrightarrow> st"
          and "promise sys w2 (Some (pre @ [(q, kk, ((ds @ ?p) @ [?b]) @ emitted v n True)])) {q} {} ok3 w3"
          by auto
        then have "promise sys w (Some (pre @ [(q, kk, ((ds @ ?p) @ [?b]) @ emitted v n True)])) {q} {} ok3 w3"
          using promise_trans[OF pr2 ok2] by fastforce
        then have "promise sys w (?T (emitted v (Suc n) started)) {q} {} ok3 w3" by (simp add: em del: emitted.simps)
        then show ?thesis using code p1 True p2 ok2 p3 em
          by (intro exI[of _ ok3] exI[of _ st] exI[of _ w3])
            (simp del: emitted.simps asn1_uint64_bytes.simps)
      qed
    qed
  qed
qed

lemma CBB_add_asn1_uint64_rep:
  assumes sys: "malloc_bounded sys" and r: "rep w (pre @ (p, k, bs) # fs)"
    and q: "q \<notin> insert p (fst ` set pre)"
  shows "\<exists>ok w'. CBB_add_asn1_uint64 sys w p q v = Some (ok, w') \<and>
    promise sys w (appended pre p k bs fs (der_element 2 (der_uint (unat v))))
      (insert q (insert p (fst ` set fs))) {} ok w'"
proof -
  let ?d = "der_uint (unat v)"
  let ?g = "\<lambda>w. case asn1_uint64_bytes sys q v 8 False w of
         None \<Rightarrow> None
       | Some (ok, started, w) \<Rightarrow>
           if \<not> ok then Some (False, w)
           else and_then (if \<not> started then CBB_add_u8 sys w q 0 else Some (True, w)) (\<lambda>w.
             CBB_flush sys w p)"
  have l8: "length ?d < 128"
  proof -
    have "unat v < 256 ^ 8" using unsigned_less[of v, where 'a=nat] by simp
    then have "length (be_min (unat v)) \<le> 8" by (simp only: length_be_min_le)
    then show ?thesis by (simp add: der_uint_def)
  qed
  have tot: "close_frames [(q, Asn1, ?d)] = Some (der_len (length ?d) @ ?d)" using l8 by simp
  have step: "\<exists>ok w2. ?g w1 = Some (ok, w2) \<and>
      promise sys w1 (Some (pre @ [(p, k, c @ der_len (length ?d) @ ?d)])) {p, q} {} ok w2"
    if r1: "rep w1 (pre @ [(p, k, c), (q, Asn1, [])])" for w1 c
  proof -
    let ?F = "pre @ [(p, k, c)]"
    have r1': "rep w1 (?F @ [(q, Asn1, [])])" using r1 by simp
    from uint64_bytes_rep[OF sys r1', of v 8 False] obtain ok1 st w2 where
      m1: "asn1_uint64_bytes sys q v 8 False w1 = Some (ok1, st, w2)"
      and pr1: "promise sys w1 (Some (?F @ [(q, Asn1, emitted v 8 False)])) {q} {} ok1 w2"
      and st: "ok1 \<longrightarrow> st = (emitted v 8 False \<noteq> [])" by auto
    have ed: "emitted v 8 False = [] \<longrightarrow> ?d = [0]" "emitted v 8 False \<noteq> [] \<longrightarrow> ?d = emitted v 8 False"
      using emitted_8[of v] by auto
    have mono: "length (flat (?F @ [(q, Asn1, emitted v 8 False)])) \<le> length (flat (?F @ [(q, Asn1, ?d)]))"
      using ed by (cases "emitted v 8 False = []") simp_all
    have mono2: "length (flat (?F @ [(q, Asn1, ?d)])) \<le>
        length (flat (pre @ [(p, k, c @ der_len (length ?d) @ ?d)]))"
      using l8 by (simp add: der_len_def)
    show ?thesis
    proof (cases ok1)
      case False
      then show ?thesis using m1 pr1 mono mono2
        by (intro exI[of _ False] exI[of _ w2]) (auto intro: promise_fail)
    next
      case True
      then have r2: "rep w2 (?F @ [(q, Asn1, emitted v 8 False)])" using pr1 by (auto simp: promise_def)
      obtain ok3 w3 where m3: "(if \<not> st then CBB_add_u8 sys w2 q 0 else Some (True, w2)) = Some (ok3, w3)"
        and pr3: "promise sys w2 (Some (?F @ [(q, Asn1, ?d)])) {q} {} ok3 w3"
        using CBB_add_u8_promise[OF sys r2, of 0] promise_refl[OF r2] st True ed by (cases st) auto
      have fl: "\<exists>ok w'. CBB_flush sys w p = Some (ok, w') \<and>
          promise sys w (Some (pre @ [(p, k, c @ der_len (length ?d) @ ?d)])) {p, q} {q} ok w'"
        if "rep w (?F @ [(q, Asn1, ?d)])" for w
        using CBB_flush_rep[OF sys, of w pre p k c "[(q, Asn1, ?d)]"] that tot
        by (simp add: flush_promise_iff appended_def del: close_frames.simps)
      from promise_seq[OF m3 pr3 fl mono2] obtain ok4 w4 where
        m4: "and_then (if \<not> st then CBB_add_u8 sys w2 q 0 else Some (True, w2)) (\<lambda>w. CBB_flush sys w p) = Some (ok4, w4)"
        and "promise sys w2 (Some (pre @ [(p, k, c @ der_len (length ?d) @ ?d)])) ({q} \<union> {p, q}) ({} - {p, q} \<union> {q}) ok4 w4"
        by blast
      then have "promise sys w1 (Some (pre @ [(p, k, c @ der_len (length ?d) @ ?d)])) ({q} \<union> ({q} \<union> {p, q}))
          ({} - ({q} \<union> {p, q}) \<union> ({} - {p, q} \<union> {q})) ok4 w4"
        using mono mono2 by (intro promise_trans[OF pr1 True]) auto
      then have "promise sys w1 (Some (pre @ [(p, k, c @ der_len (length ?d) @ ?d)])) {p, q} {} ok4 w4"
        by (rule promise_weaken) auto
      then show ?thesis using m1 True m4 by auto
    qed
  qed
  have "der_tag_ok 2" by (simp add: der_tag_ok_def)
  from CBB_add_asn1_rep[OF sys r q this] obtain ok1 w1 where
    m: "CBB_add_asn1 sys w p q CBS_ASN1_INTEGER = Some (ok1, w1)"
    and pr: "promise sys w (opened pre p k bs fs [2] q Asn1) (insert q (insert p (fst ` set fs)))
      (fst ` set fs - {p, q}) ok1 w1"
    by (auto simp: CBS_ASN1_INTEGER_def)
  let ?G = "\<lambda>fs. case rev fs of _ # (_, _, c) # _ \<Rightarrow> Some (pre @ [(p, k, c @ der_len (length ?d) @ ?d)]) | _ \<Rightarrow> None"
  have "\<exists>ok w2. and_then (CBB_add_asn1 sys w p q CBS_ASN1_INTEGER) ?g = Some (ok, w2) \<and>
    promise sys w (Option.bind (opened pre p k bs fs [2] q Asn1) ?G)
      (insert q (insert p (fst ` set fs)) \<union> {p, q}) (fst ` set fs - {p, q} - {p, q} \<union> {}) ok w2"
  proof (rule promise_then[OF m pr])
    fix fs1 w1
    assume o: "opened pre p k bs fs [2] q Asn1 = Some fs1" and r1: "rep w1 fs1"
    then obtain ts where fs1: "fs1 = pre @ [(p, k, bs @ ts @ [2]), (q, Asn1, [])]"
      by (auto simp: opened_def)
    show "\<exists>ok w2. ?g w1 = Some (ok, w2) \<and> promise sys w1 (?G fs1) {p, q} {} ok w2"
      using step[of w1 "bs @ ts @ [2]"] r1 unfolding fs1 by simp
  qed (use l8 in \<open>auto simp: opened_def der_len_def\<close>)
  moreover have "Option.bind (opened pre p k bs fs [2] q Asn1) ?G =
      appended pre p k bs fs (der_element 2 ?d)"
    by (cases "close_frames fs") (simp_all add: opened_def appended_def der_element_def)
  ultimately show ?thesis
    unfolding CBB_add_asn1_uint64_def by (auto elim!: promise_weaken)
qed

section \<open>Initialisation and the end\<close>

lemma cbb_init_rep:
  assumes "cbb_init sys (CBB_zero w p) p (Some m) (length m) = (True, w')" "length m + 8 < 2 ^ 63"
  shows "rep w' [(p, Top, [])]"
  using assms
  by (auto simp: cbb_init_def CBB_zero_def cbb_zeroed_def rep_def kinds_ok_def cbb_ok_def buf_rep_def
      split: option.splits)

lemma CBB_init_rep:
  assumes "CBB_init sys w p cap = (True, w')" "cap + 8 < 2 ^ 63" "malloc_bounded sys"
    "OPENSSL_malloc sys cap \<noteq> None"
  shows "rep w' [(p, Top, [])]"
proof -
  have "cap + 8 < SIZE_MOD" using assms(2) by (simp add: SIZE_MOD_def)
  then obtain m where m: "OPENSSL_malloc sys cap = Some m" "length m = cap"
    using assms(4) by (auto simp: OPENSSL_malloc_Some split: if_splits)
  then have "cbb_init sys (CBB_zero w p) p (Some m) (length m) = (True, w')"
    using assms(1) by (auto simp: CBB_init_def split: prod.splits if_splits)
  then show ?thesis using cbb_init_rep m(2) assms(2) by blast
qed

lemma CBB_finish_rep:
  assumes sys: "malloc_bounded sys" and r: "rep w ((p, Top, bs) # fs)"
  shows "\<exists>out w'. CBB_finish sys w p False False = Some (out, w') \<and>
    (case out of
       None \<Rightarrow> \<not> (\<exists>ts. close_frames fs = Some ts \<and> room sys (base w) (length (bs @ ts)))
     | Some (buf, n) \<Rightarrow> \<exists>ts m. close_frames fs = Some ts \<and> n = length (bs @ ts) \<and>
         buf = Some m \<and> take n m = map Some (bs @ ts))"
proof -
  have r': "rep w ([] @ (p, Top, bs) # fs)" using r by simp
  from CBB_flush_rep[OF sys r'] obtain ok w1 where fl: "CBB_flush sys w p = Some (ok, w1)"
    and pr: "flush_promise sys w [] p Top bs fs ok w1" by blast
  have top: "cbb_is_top_level (cbbs w p)" using rep_frame(1)[OF r'] by (simp add: cbb_ok_def)
  show ?thesis
  proof (cases ok)
    case False
    then show ?thesis using fl pr top
      by (intro exI[of _ None] exI[of _ w1]) (auto simp: CBB_finish_def flush_promise_def)
  next
    case True
    then obtain ts where ts: "close_frames fs = Some ts" "rep w1 [(p, Top, bs @ ts)]"
      using pr by (auto simp: flush_promise_def)
    then obtain unused where u: "bb_buf (base w1) = Some (map Some (bs @ ts) @ unused)"
      "bb_len (base w1) = length (bs @ ts)"
      by (auto simp: rep_def buf_rep_def)
    then show ?thesis using fl True top ts(1)
      by (simp add: CBB_finish_def)
  qed
qed

section \<open>What the builder guarantees\<close>

text \<open>
  Property C1: \<^verbatim>\<open>CBB_flush\<close> refines the abstract builder. On a builder that holds any chain of
  open children below \<open>p\<close>, it returns; if it reports success, the children have been closed
  into \<open>p\<close>, innermost first, each with the DER or fixed-width length of its contents in front
  of them, no other struct changed and the children are stale; if it reports failure, the
  builder is in the error state, and some length did not fit its prefix or there was no room.
\<close>

theorem CBB_flush_refines:
  assumes "malloc_bounded sys" "rep w (pre @ (p, k, bs) # fs)"
  shows "\<exists>ok w'. CBB_flush sys w p = Some (ok, w') \<and>
    promise sys w (appended pre p k bs fs []) (insert p (fst ` set fs)) (fst ` set fs) ok w'"
  using CBB_flush_rep[OF assms] by (simp add: flush_promise_iff)

theorem CBB_flush_refines_witness:
  "\<exists>ok w'. CBB_flush (\<lambda>n. n < 1000)
     \<lparr>base = \<lparr>bb_buf = Some [Some 0, Some 7, None], bb_len = 2, bb_cap = 3, bb_can_resize = True, bb_error = False\<rparr>,
      cbbs = \<lambda>a. \<lparr>cbb_base = True, cbb_child = (if a = 5 then Some 6 else None), cbb_offset = 0,
        cbb_pending_len_len = (if a = 6 then 1 else 0), cbb_pending_is_asn1 = False,
        cbb_is_top_level = (a = 5)\<rparr>\<rparr> 5 = Some (ok, w') \<and>
    promise (\<lambda>n. n < 1000)
     \<lparr>base = \<lparr>bb_buf = Some [Some 0, Some 7, None], bb_len = 2, bb_cap = 3, bb_can_resize = True, bb_error = False\<rparr>,
      cbbs = \<lambda>a. \<lparr>cbb_base = True, cbb_child = (if a = 5 then Some 6 else None), cbb_offset = 0,
        cbb_pending_len_len = (if a = 6 then 1 else 0), cbb_pending_is_asn1 = False,
        cbb_is_top_level = (a = 5)\<rparr>\<rparr> (Some [(5, Top, [1, 7])]) {5, 6} {6} ok w'"
proof -
  let ?w = "\<lparr>base = \<lparr>bb_buf = Some [Some 0, Some 7, None], bb_len = 2, bb_cap = 3, bb_can_resize = True, bb_error = False\<rparr>,
      cbbs = \<lambda>a. \<lparr>cbb_base = True, cbb_child = (if a = 5 then Some 6 else None), cbb_offset = 0,
        cbb_pending_len_len = (if a = 6 then 1 else 0), cbb_pending_is_asn1 = False,
        cbb_is_top_level = (a = 5)\<rparr>\<rparr> :: cbb_world"
  have "malloc_bounded (\<lambda>n. n < 1000)" by (simp add: malloc_bounded_def)
  moreover have "rep ?w ([] @ (5, Top, []) # [(6, Len 1, [7])])"
    by (simp add: rep_def kinds_ok_def cbb_ok_def buf_rep_def)
  ultimately show ?thesis
    using CBB_flush_refines[of "\<lambda>n. n < 1000" ?w "[]" 5 Top "[]" "[(6, Len 1, [7])]"]
    by (simp add: appended_def)
qed

text \<open>
  \<^verbatim>\<open>CBB_add_bytes\<close> closes the open children of \<open>p\<close> and appends exactly the given
  bytes to it, never writing past the buffer's capacity (the invariant \<open>rep\<close> is kept); it
  fails only when a length does not fit or there is no room, and then leaves the error state.
\<close>

theorem CBB_add_bytes_refines:
  assumes "malloc_bounded sys" "rep w (pre @ (p, k, bs) # fs)" "length data + 8 < 2 ^ 63"
  shows "\<exists>ok w'. CBB_add_bytes sys w p data = Some (ok, w') \<and>
    promise sys w (appended pre p k bs fs data) (insert p (fst ` set fs)) (fst ` set fs) ok w'"
  using CBB_add_bytes_rep[OF assms] by (simp add: write_promise_iff)

theorem CBB_add_bytes_refines_witness:
  "\<exists>ok w'. CBB_add_bytes (\<lambda>n. n < 1000)
     \<lparr>base = \<lparr>bb_buf = Some [Some 9, None], bb_len = 1, bb_cap = 2, bb_can_resize = False, bb_error = False\<rparr>,
      cbbs = \<lambda>_. \<lparr>cbb_base = True, cbb_child = None, cbb_offset = 0,
        cbb_pending_len_len = 0, cbb_pending_is_asn1 = False, cbb_is_top_level = True\<rparr>\<rparr> 3 [8] = Some (ok, w') \<and>
    promise (\<lambda>n. n < 1000)
     \<lparr>base = \<lparr>bb_buf = Some [Some 9, None], bb_len = 1, bb_cap = 2, bb_can_resize = False, bb_error = False\<rparr>,
      cbbs = \<lambda>_. \<lparr>cbb_base = True, cbb_child = None, cbb_offset = 0,
        cbb_pending_len_len = 0, cbb_pending_is_asn1 = False, cbb_is_top_level = True\<rparr>\<rparr>
      (Some [(3, Top, [9, 8])]) {3} {} ok w'"
proof -
  let ?w = "\<lparr>base = \<lparr>bb_buf = Some [Some 9, None], bb_len = 1, bb_cap = 2, bb_can_resize = False, bb_error = False\<rparr>,
      cbbs = \<lambda>_. \<lparr>cbb_base = True, cbb_child = None, cbb_offset = 0,
        cbb_pending_len_len = 0, cbb_pending_is_asn1 = False, cbb_is_top_level = True\<rparr>\<rparr> :: cbb_world"
  have "malloc_bounded (\<lambda>n. n < 1000)" by (simp add: malloc_bounded_def)
  moreover have "rep ?w ([] @ (3, Top, [9]) # [])"
    by (simp add: rep_def kinds_ok_def cbb_ok_def buf_rep_def)
  ultimately show ?thesis
    using CBB_add_bytes_refines[of "\<lambda>n. n < 1000" ?w "[]" 3 Top "[9]" "[]" "[8]"] by simp
qed

text \<open>
  The error flag: once the buffer is in the error state, the operations below, which start with
  \<^verbatim>\<open>CBB_flush\<close>, fail and leave the whole builder as it is, and \<^verbatim>\<open>CBB_finish\<close> fails. \<^verbatim>\<open>CBB_did_write\<close> and
  \<^verbatim>\<open>CBB_discard_child\<close> do not look at the flag.
\<close>

lemma CBB_error_sticky:
  assumes "bb_error (base w)"
  shows "CBB_flush sys w p = Some (False, w) \<and>
    CBB_add_bytes sys w p data = Some (False, w) \<and>
    CBB_add_u8 sys w p b = Some (False, w) \<and> CBB_add_u16 sys w p s = Some (False, w) \<and>
    CBB_add_u24 sys w p v = Some (False, w) \<and> CBB_add_u32 sys w p v = Some (False, w) \<and>
    CBB_add_u8_length_prefixed sys w p q = Some (False, w) \<and>
    CBB_add_u16_length_prefixed sys w p q = Some (False, w) \<and>
    CBB_add_u24_length_prefixed sys w p q = Some (False, w) \<and>
    CBB_add_space sys w p n = Some (None, w) \<and> CBB_reserve sys w p n = Some (None, w) \<and>
    CBB_add_asn1_oid_from_text sys w p txt n = Some (False, w) \<and>
    CBB_finish sys w p d l = Some (None, w)"
proof -
  have "CBB_flush sys w p = Some (False, w)" using assms by (subst CBB_flush.simps) simp
  then show ?thesis
    by (simp add: and_then_def CBB_add_bytes_def CBB_add_u8_def CBB_add_u16_def CBB_add_u24_def
        CBB_add_u32_def CBB_add_u8_length_prefixed_def CBB_add_u16_length_prefixed_def
        CBB_add_u24_length_prefixed_def cbb_add_length_prefixed_def CBB_add_space_def
        CBB_reserve_def CBB_add_asn1_oid_from_text_def CBB_finish_def)
qed

text \<open>
  \<^verbatim>\<open>CBB_add_asn1_uint64\<close> appends exactly the DER \<^verbatim>\<open>INTEGER\<close> of its argument: the
  byte loop with its \<open>started\<close> flag and padding byte writes the shortest non-negative form,
  and flushing the local child puts the right length in front of it.
\<close>

theorem CBB_add_asn1_uint64_der:
  assumes "malloc_bounded sys" "rep w (pre @ (p, k, bs) # fs)" "child \<notin> insert p (fst ` set pre)"
  shows "\<exists>ok w'. CBB_add_asn1_uint64 sys w p child v = Some (ok, w') \<and>
    promise sys w (appended pre p k bs fs (der_element 2 (der_uint (unat v))))
      (insert child (insert p (fst ` set fs))) {} ok w'"
  by (rule CBB_add_asn1_uint64_rep[OF assms])

theorem CBB_add_asn1_uint64_der_witness:
  "\<exists>ok w'. CBB_add_asn1_uint64 (\<lambda>n. n < 1000)
     \<lparr>base = \<lparr>bb_buf = Some [], bb_len = 0, bb_cap = 0, bb_can_resize = True, bb_error = False\<rparr>,
      cbbs = \<lambda>_. \<lparr>cbb_base = True, cbb_child = None, cbb_offset = 0,
        cbb_pending_len_len = 0, cbb_pending_is_asn1 = False, cbb_is_top_level = True\<rparr>\<rparr> 3 4 200 = Some (ok, w') \<and>
    promise (\<lambda>n. n < 1000)
     \<lparr>base = \<lparr>bb_buf = Some [], bb_len = 0, bb_cap = 0, bb_can_resize = True, bb_error = False\<rparr>,
      cbbs = \<lambda>_. \<lparr>cbb_base = True, cbb_child = None, cbb_offset = 0,
        cbb_pending_len_len = 0, cbb_pending_is_asn1 = False, cbb_is_top_level = True\<rparr>\<rparr>
      (Some [(3, Top, [2, 2, 0, 200])]) {4, 3} {} ok w'"
proof -
  let ?w = "\<lparr>base = \<lparr>bb_buf = Some [], bb_len = 0, bb_cap = 0, bb_can_resize = True, bb_error = False\<rparr>,
      cbbs = \<lambda>_. \<lparr>cbb_base = True, cbb_child = None, cbb_offset = 0,
        cbb_pending_len_len = 0, cbb_pending_is_asn1 = False, cbb_is_top_level = True\<rparr>\<rparr> :: cbb_world"
  have "malloc_bounded (\<lambda>n. n < 1000)" by (simp add: malloc_bounded_def)
  moreover have "rep ?w ([] @ (3, Top, []) # [])"
    by (simp add: rep_def kinds_ok_def cbb_ok_def buf_rep_def)
  moreover have "der_element 2 (der_uint 200) = [2, 2, 0, 200]"
    by (simp add: der_element_def der_len_def der_uint_def be_min.simps)
  ultimately show ?thesis
    using CBB_add_asn1_uint64_der[of "\<lambda>n. n < 1000" ?w "[]" 3 Top "[]" "[]" 4 200] by simp
qed

end
