(* ===== verification/Ber.thy ===== *)
theory Ber
  imports CBB_Spec
begin

text \<open>
  \<^verbatim>\<open>crypto/bytestring/ber.c\<close>: the conversion of BER with indefinite lengths and constructed
  strings to DER. The recursive walk \<^verbatim>\<open>cbs_find_ber\<close> and the recursive copy
  \<^verbatim>\<open>cbs_convert_ber\<close> are modelled on the windows of CBS and the store of CBB; the local
  variable \<^verbatim>\<open>out_contents_storage\<close> of the activation at depth \<open>d\<close> has the address \<open>loc d\<close>.
\<close>

section \<open>Tags\<close>

definition kMaxDepth :: nat where
  "kMaxDepth = 2048"

text \<open>The universal string tags, in the order of the \<^verbatim>\<open>switch\<close>.\<close>

definition string_tags :: "u32 list" where
  "string_tags = [0x3, 0x4, 0xc, 0x12, 0x13, 0x14, 0x15, 0x16, 0x19, 0x1a, 0x1b, 0x1c, 0x1e]"

definition is_string_type :: "u32 \<Rightarrow> bool" where
  "is_string_type tag = (if tag AND 0xc0 \<noteq> 0 then False else tag AND 0x1f \<in> set string_tags)"

definition is_constructed :: "u32 \<Rightarrow> bool" where
  "is_constructed tag \<longleftrightarrow> tag AND CBS_ASN1_CONSTRUCTED \<noteq> 0"

text \<open>The test for an indefinite-length element, in both functions.\<close>

definition is_indefinite :: "CBS \<Rightarrow> nat \<Rightarrow> bool" where
  "is_indefinite contents header_len \<longleftrightarrow>
     CBS_len contents = header_len \<and> header_len > 0 \<and>
     cbs_buf contents ! (CBS_data contents + (header_len - 1)) = 0x80"

definition is_eoc :: "nat \<Rightarrow> CBS \<Rightarrow> bool" where
  "is_eoc header_len contents \<longleftrightarrow>
     header_len = 2 \<and> CBS_len contents = 2 \<and> cbs_view contents = [0, 0]"

section \<open>Finding BER\<close>

text \<open>Every element takes bytes off the window, and its body is shorter than the window.\<close>

lemma get_any_ber_consumes:
  assumes "CBS_get_any_ber_asn1_element c = (Some (out, tag, hl), c')"
  shows "cbs_len c = cbs_len out + cbs_len c' \<and> 2 \<le> hl \<and> hl \<le> cbs_len out"
proof -
  have lt: "unat (v :: u32) < 2 ^ 32" for v using unsigned_less[of v, where 'a=nat] by simp
  have ex: "size_add (unat (v :: u32)) (size_add 2 n) = unat v + (2 + n)" if "n \<le> 4" for v n
    using lt[of v] that by (simp add: size_add_def SIZE_MOD_def)
  show ?thesis
    using assms
    by (auto simp: CBS_get_any_ber_asn1_element_def cbs_get_any_asn1_element_def CBS_get_bytes_eq Let_def ex
        split: option.splits prod.splits if_splits)
qed

lemma CBS_skip_len: "CBS_skip c n = (ok, c') \<Longrightarrow> cbs_len c' \<le> cbs_len c - (if ok then n else 0)"
  by (auto simp: CBS_skip_eq split: if_splits)

text \<open>
  The results: \<open>None\<close> for the return value 0, \<open>Some ber_found\<close> for 1. The loop carries
  \<open>*ber_found\<close>, which the recursive call writes to.
\<close>

function cbs_find_ber :: "CBS \<Rightarrow> nat \<Rightarrow> bool option"
  and cbs_find_ber_loop :: "CBS \<Rightarrow> bool \<Rightarrow> nat \<Rightarrow> bool option" where
  "cbs_find_ber orig_in depth =
     (if depth > kMaxDepth then None else cbs_find_ber_loop orig_in False depth)"
| "cbs_find_ber_loop inp ber_found depth =
     (if CBS_len inp > 0
      then (case CBS_get_any_ber_asn1_element inp of
          (None, inp') \<Rightarrow> None
        | (Some (contents, tag, header_len), inp') \<Rightarrow>
            if is_indefinite contents header_len then Some True
            else if is_constructed tag
            then (if is_string_type tag then Some True
                  else case CBS_skip contents header_len of (ok, contents') \<Rightarrow>
                    if \<not> ok then None
                    else case cbs_find_ber contents' (depth + 1) of
                        None \<Rightarrow> None
                      | Some ber_found' \<Rightarrow> cbs_find_ber_loop inp' ber_found' depth)
            else cbs_find_ber_loop inp' ber_found depth)
      else Some ber_found)"
  by pat_completeness auto

termination
proof (relation "measure (\<lambda>x. case x of Inl (c, _) \<Rightarrow> 2 * cbs_len c + 1 | Inr (c, _, _) \<Rightarrow> 2 * cbs_len c)")
qed (auto dest!: get_any_ber_consumes[OF sym] CBS_skip_len[OF sym])

declare cbs_find_ber.simps [simp del] cbs_find_ber_loop.simps [simp del]

section \<open>Conversion\<close>

text \<open>
  Where an element's contents go: \<open>out\<close> itself inside a constructed string, a new child of
  \<open>out\<close> otherwise. The result: the return value so far, \<open>out_contents\<close> and
  \<open>child_string_tag\<close>.
\<close>

definition convert_open ::
  "sys_malloc \<Rightarrow> cbb_world \<Rightarrow> nat \<Rightarrow> nat \<Rightarrow> u32 \<Rightarrow> u32 \<Rightarrow> (bool \<times> nat \<times> u32 \<times> cbb_world) option" where
  "convert_open sys w out storage string_tag tag =
     (if string_tag \<noteq> 0
      then (if tag AND NOT CBS_ASN1_CONSTRUCTED \<noteq> string_tag then Some (False, out, string_tag, w)
            else Some (True, out, string_tag, w))
      else let (out_tag, child_string_tag) =
             (if is_constructed tag \<and> is_string_type tag
              then (tag AND NOT CBS_ASN1_CONSTRUCTED, tag AND NOT CBS_ASN1_CONSTRUCTED)
              else (tag, string_tag))
           in case CBB_add_asn1 sys w out storage out_tag of
                None \<Rightarrow> None
              | Some (ok, w) \<Rightarrow> Some (ok, storage, child_string_tag, w))"

text \<open>
  One activation: the loop is the tail call, which tests the unchanged \<open>depth\<close> again. The
  result: the return value, \<open>*in\<close> and the store.
\<close>

partial_function (option) cbs_convert_ber ::
  "sys_malloc \<Rightarrow> (nat \<Rightarrow> nat) \<Rightarrow> cbb_world \<Rightarrow> CBS \<Rightarrow> nat \<Rightarrow> u32 \<Rightarrow> bool \<Rightarrow> nat \<Rightarrow>
    (bool \<times> CBS \<times> cbb_world) option" where
  "cbs_convert_ber sys loc w inp out string_tag looking_for_eoc depth =
     (if depth > kMaxDepth then Some (False, inp, w)
      else if CBS_len inp > 0
      then (case CBS_get_any_ber_asn1_element inp of
          (None, inp) \<Rightarrow> Some (False, inp, w)
        | (Some (contents, tag, header_len), inp) \<Rightarrow>
            if is_eoc header_len contents then Some (looking_for_eoc, inp, w)
            else case convert_open sys w out (loc depth) string_tag tag of
                None \<Rightarrow> None
              | Some (ok, out_contents, child_string_tag, w) \<Rightarrow>
                  if \<not> ok then Some (False, inp, w)
                  else if is_indefinite contents header_len
                  then Option.bind
                    (cbs_convert_ber sys loc w inp out_contents child_string_tag True (depth + 1))
                    (\<lambda>(ok, inp, w).
                      if \<not> ok then Some (False, inp, w)
                      else case CBB_flush sys w out of
                          None \<Rightarrow> None
                        | Some (ok, w) \<Rightarrow>
                            if \<not> ok then Some (False, inp, w)
                            else cbs_convert_ber sys loc w inp out string_tag looking_for_eoc depth)
                  else case CBS_skip contents header_len of (ok, contents) \<Rightarrow>
                    if \<not> ok then Some (False, inp, w)
                    else Option.bind
                      (if is_constructed tag
                       then Option.bind
                         (cbs_convert_ber sys loc w contents out_contents child_string_tag False (depth + 1))
                         (\<lambda>(ok, contents, w). Some (ok, w))
                       else CBB_add_bytes sys w out_contents (cbs_view contents))
                      (\<lambda>(ok, w).
                        if \<not> ok then Some (False, inp, w)
                        else case CBB_flush sys w out of
                            None \<Rightarrow> None
                          | Some (ok, w) \<Rightarrow>
                              if \<not> ok then Some (False, inp, w)
                              else cbs_convert_ber sys loc w inp out string_tag looking_for_eoc depth))
      else Some (\<not> looking_for_eoc, inp, w))"

text \<open>
  The result: the return value, \<open>*out\<close> and \<open>*out_len\<close> (set on success), \<open>*in\<close>; \<open>p\<close> is
  the address of the local \<^verbatim>\<open>cbb\<close>.
\<close>

definition CBS_asn1_ber_to_der ::
  "sys_malloc \<Rightarrow> (nat \<Rightarrow> nat) \<Rightarrow> cbb_world \<Rightarrow> nat \<Rightarrow> CBS \<Rightarrow>
    (bool \<times> cell list option \<times> nat \<times> CBS \<times> cbb_world) option" where
  "CBS_asn1_ber_to_der sys loc w p inp =
     (case cbs_find_ber inp 0 of
        None \<Rightarrow> Some (False, None, 0, inp, w)
      | Some conversion_needed \<Rightarrow>
          if \<not> conversion_needed then Some (True, None, 0, inp, w)
          else let (ok, w) = CBB_init sys w p (CBS_len inp)
            in if \<not> ok then Some (False, None, 0, inp, CBB_cleanup w p)
               else case cbs_convert_ber sys loc w inp p 0 False 0 of
                   None \<Rightarrow> None
                 | Some (ok, inp, w) \<Rightarrow>
                     if \<not> ok then Some (False, None, 0, inp, CBB_cleanup w p)
                     else case CBB_finish sys w p False False of
                         None \<Rightarrow> None
                       | Some (None, w) \<Rightarrow> Some (False, None, 0, inp, CBB_cleanup w p)
                       | Some (Some (out, out_len), w) \<Rightarrow> Some (True, out, out_len, inp, w))"

section \<open>Implicitly tagged strings\<close>

lemma CBS_get_asn1_consumes:
  assumes "CBS_get_asn1 c tag = (Some out, c')"
  shows "cbs_len c' < cbs_len c"
proof -
  have lt: "unat (v :: u32) < 2 ^ 32" for v using unsigned_less[of v, where 'a=nat] by simp
  have ex: "size_add (unat (v :: u32)) (size_add 2 n) = unat v + (2 + n)" if "n \<le> 4" for v n
    using lt[of v] that by (simp add: size_add_def SIZE_MOD_def)
  show ?thesis
    using assms
    by (auto simp: CBS_get_asn1_def cbs_get_asn1_def CBS_get_any_asn1_element_def
        cbs_get_any_asn1_element_def CBS_get_bytes_eq Let_def ex
        split: option.splits prod.splits if_splits)
qed

function implicit_chunks :: "sys_malloc \<Rightarrow> nat \<Rightarrow> u32 \<Rightarrow> CBS \<Rightarrow> cbb_world \<Rightarrow> bool cbb_result" where
  "implicit_chunks sys p inner_tag child w =
     (if CBS_len child > 0
      then (case CBS_get_asn1 child inner_tag of
          (None, child') \<Rightarrow> Some (False, w)
        | (Some chunk, child') \<Rightarrow>
            and_then (CBB_add_bytes sys w p (cbs_view chunk))
              (\<lambda>w. implicit_chunks sys p inner_tag child' w))
      else Some (True, w))"
  by pat_completeness auto

termination implicit_chunks
  by (relation "measure (\<lambda>(sys, p, inner_tag, child, w). cbs_len child)")
    (auto dest: CBS_get_asn1_consumes[OF sym])

declare implicit_chunks.simps [simp del]

text \<open>
  The result: the return value, \<open>*out\<close>, \<open>*out_storage\<close> and \<open>*in\<close>. A window into the
  finished buffer sees its initialised bytes.
\<close>

definition CBS_get_asn1_implicit_string ::
  "sys_malloc \<Rightarrow> cbb_world \<Rightarrow> nat \<Rightarrow> CBS \<Rightarrow> u32 \<Rightarrow> u32 \<Rightarrow>
    (CBS option \<times> cell list option \<times> CBS \<times> cbb_world) option" where
  "CBS_get_asn1_implicit_string sys w p inp outer_tag inner_tag =
     (if CBS_peek_asn1_tag inp outer_tag
      then (let (out, inp) = CBS_get_asn1 inp outer_tag in Some (out, None, inp, w))
      else let (ok, w) = CBB_init sys w p (CBS_len inp)
        in if \<not> ok then Some (None, None, inp, CBB_cleanup w p)
           else (case CBS_get_asn1 inp (outer_tag OR CBS_ASN1_CONSTRUCTED) of
               (None, inp) \<Rightarrow> Some (None, None, inp, CBB_cleanup w p)
             | (Some child, inp) \<Rightarrow>
                 case implicit_chunks sys p inner_tag child w of
                   None \<Rightarrow> None
                 | Some (ok, w) \<Rightarrow>
                     if \<not> ok then Some (None, None, inp, CBB_cleanup w p)
                     else case CBB_finish sys w p False False of
                         None \<Rightarrow> None
                       | Some (None, w) \<Rightarrow> Some (None, None, inp, CBB_cleanup w p)
                       | Some (Some (data, len), w) \<Rightarrow>
                           let m = (case data of None \<Rightarrow> [] | Some d \<Rightarrow> d)
                           in Some (Some (CBS_init (map the (take len m)) 0 len), data, inp, w)))"

section \<open>DER trees\<close>

text \<open>
  Nested elements as trees, their DER encoding, and the trees DER allows: primitive elements
  without the constructed bit, constructed ones with it and not of a string type.
\<close>

datatype der_tree = Prim u8 "u8 list" | Constr u8 "der_tree list"

fun forest_enc :: "der_tree list \<Rightarrow> u8 list" where
  "forest_enc [] = []"
| "forest_enc (Prim t bs # ts) = der_element t bs @ forest_enc ts"
| "forest_enc (Constr t us # ts) = der_element t (forest_enc us) @ forest_enc ts"

fun forest_height :: "der_tree list \<Rightarrow> nat" where
  "forest_height [] = 0"
| "forest_height (Prim t bs # ts) = forest_height ts"
| "forest_height (Constr t us # ts) = max (Suc (forest_height us)) (forest_height ts)"

fun forest_ok :: "der_tree list \<Rightarrow> bool" where
  "forest_ok [] = True"
| "forest_ok (Prim t bs # ts) =
     (der_tag_ok t \<and> \<not> bit t 5 \<and> length bs < 2 ^ 32 \<and> forest_ok ts)"
| "forest_ok (Constr t us # ts) =
     (der_tag_ok t \<and> bit t 5 \<and> \<not> is_string_type (ucast t) \<and> length (forest_enc us) < 2 ^ 32 \<and>
      forest_ok us \<and> forest_ok ts)"

lemma is_constructed_bit: "is_constructed (ucast (t :: u8)) \<longleftrightarrow> bit t 5"
  by (simp add: is_constructed_def asn1_constructed_bit)

lemma get_any_ber_der:
  assumes "cbs_wf c" "cbs_view c = der_element t bs @ r" "der_tag_ok t" "length bs < 2 ^ 32"
  shows "CBS_get_any_ber_asn1_element c =
    (Some (CBS_init (cbs_buf c) (cbs_off c) (length (der_element t bs)), ucast t, 1 + length (der_len (length bs))),
     cbs_adv (length (der_element t bs)) c)"
proof -
  have "cbs_len c = length (der_element t bs @ r)"
    using length_cbs_view[OF assms(1)] assms(2) by simp
  then show ?thesis
    using assms asn1_header_der[OF assms(3,4), of True "bs @ r"]
    by (simp add: CBS_get_any_ber_asn1_element_def cbs_get_any_asn1_element_eq der_element_def)
qed

lemma der_not_indefinite:
  assumes "cbs_wf c" "cbs_view c = der_element t bs @ r"
  shows "\<not> is_indefinite (CBS_init (cbs_buf c) (cbs_off c) (length (der_element t bs)))
    (1 + length (der_len (length bs)))"
proof (cases "bs = []")
  case True
  have len: "cbs_len c = length (der_element t bs @ r)"
    using length_cbs_view[OF assms(1)] assms(2) by simp
  have "cbs_buf c ! (cbs_off c + 1) = cbs_view c ! 1"
    using len assms(1) True by (intro nth_cbs_buf) (simp_all add: der_element_def der_len_def)
  also have "\<dots> = 0" using assms(2) True by (simp add: der_element_def der_len_def)
  finally show ?thesis using True by (simp add: is_indefinite_def CBS_data_def der_len_def)
next
  case False
  then show ?thesis by (simp add: is_indefinite_def CBS_len_def der_element_def)
qed

lemma skip_header_view:
  assumes "cbs_wf c" "cbs_view c = der_element t bs @ r"
  shows "\<exists>c'. CBS_skip (CBS_init (cbs_buf c) (cbs_off c) (length (der_element t bs)))
      (1 + length (der_len (length bs))) = (True, c') \<and> cbs_wf c' \<and> cbs_view c' = bs"
proof -
  let ?el = "CBS_init (cbs_buf c) (cbs_off c) (length (der_element t bs))"
  have "cbs_len c = length (der_element t bs @ r)"
    using length_cbs_view[OF assms(1)] assms(2) by simp
  then have "cbs_wf ?el" "cbs_view ?el = der_element t bs" using assms by simp_all
  then show ?thesis
    by (auto simp: CBS_skip_eq der_element_def intro!: cbs_wf_adv)
qed

lemma find_ber_forest:
  "cbs_wf c \<Longrightarrow> cbs_view c = forest_enc ts \<Longrightarrow> forest_ok ts \<Longrightarrow> depth + forest_height ts \<le> kMaxDepth \<Longrightarrow>
   cbs_find_ber_loop c False depth = Some False"
proof (induction ts arbitrary: c depth rule: forest_height.induct)
  case 1
  then have "cbs_len c = 0" using length_cbs_view[of c] by simp
  then show ?case by (simp add: cbs_find_ber_loop.simps CBS_len_def)
next
  case (2 t bs ts)
  let ?n = "length (der_element t bs)"
  have v: "cbs_view c = der_element t bs @ forest_enc ts" using 2 by simp
  then have len: "cbs_len c = ?n + length (forest_enc ts)" using length_cbs_view[OF 2(2)] by simp
  then have "0 < cbs_len c" by (simp add: der_element_def)
  moreover have "cbs_find_ber_loop (cbs_adv ?n c) False depth = Some False"
    using 2 len by (intro 2(1)) simp_all
  ultimately show ?case
    using 2 get_any_ber_der[OF 2(2) v] der_not_indefinite[OF 2(2) v]
    by (simp add: cbs_find_ber_loop.simps[of c] CBS_len_def is_constructed_bit)
next
  case (3 t us ts)
  let ?n = "length (der_element t (forest_enc us))"
  have v: "cbs_view c = der_element t (forest_enc us) @ forest_enc ts" using 3 by simp
  then have len: "cbs_len c = ?n + length (forest_enc ts)" using length_cbs_view[OF 3(3)] by simp
  then have pos: "0 < cbs_len c" by (simp add: der_element_def)
  have rest: "cbs_find_ber_loop (cbs_adv ?n c) False depth = Some False"
    using 3 len by (intro 3(2)) simp_all
  obtain c' where c': "CBS_skip (CBS_init (cbs_buf c) (cbs_off c) ?n) (1 + length (der_len (length (forest_enc us))))
      = (True, c')" "cbs_wf c'" "cbs_view c' = forest_enc us"
    using skip_header_view[OF 3(3) v] by blast
  then have "cbs_find_ber_loop c' False (Suc depth) = Some False"
    using 3 by (intro 3(1)) simp_all
  then have "cbs_find_ber c' (Suc depth) = Some False"
    using 3(6) by (simp add: cbs_find_ber.simps)
  then show ?case
    using 3 get_any_ber_der[OF 3(3) v] der_not_indefinite[OF 3(3) v] pos rest c'(1)
    by (simp add: cbs_find_ber_loop.simps[of c] CBS_len_def is_constructed_bit)
qed

section \<open>What the conversion decides\<close>

text \<open>
  Property C34: DER is left alone. On any sequence of DER elements nested at most
  \<^verbatim>\<open>kMaxDepth\<close> deep, \<^verbatim>\<open>CBS_asn1_ber_to_der\<close> succeeds without converting: no output is
  allocated, \<open>*out\<close> is NULL, and neither the input window nor any builder is touched.
\<close>

theorem CBS_asn1_ber_to_der_keeps_der:
  assumes "cbs_wf c" "cbs_view c = forest_enc ts" "forest_ok ts" "forest_height ts \<le> kMaxDepth"
  shows "CBS_asn1_ber_to_der sys loc w p c = Some (True, None, 0, c, w)"
  using find_ber_forest[OF assms(1-3), of 0] assms(4)
  by (simp add: CBS_asn1_ber_to_der_def cbs_find_ber.simps)

theorem CBS_asn1_ber_to_der_keeps_der_witness:
  "\<forall>w. CBS_asn1_ber_to_der (\<lambda>_. False) id w 0 (cbs_of [0x30, 3, 4, 1, 7]) =
     Some (True, None, 0, cbs_of [0x30, 3, 4, 1, 7], w)"
proof -
  have "\<not> bit (4 :: u8) 5" "bit (0x30 :: u8) 5" by (simp_all add: bit_u8_iff)
  then show ?thesis
    using CBS_asn1_ber_to_der_keeps_der[of "cbs_of [0x30, 3, 4, 1, 7]" "[Constr 0x30 [Prim 4 [7]]]"]
    by (simp add: der_element_def der_len_def der_tag_ok_def is_string_type_def string_tags_def kMaxDepth_def)
qed

text \<open>
  the walk can forget what it found. An indefinite-length element nested in a
  constructed element is found, but when another constructed element follows, the recursive
  call for that one overwrites \<open>*ber_found\<close> with 0 and the loop does not stop on a nested
  find: \<^verbatim>\<open>CBS_asn1_ber_to_der\<close> then reports success without converting an input that is
  not DER.
\<close>

theorem cbs_find_ber_forgets:
  "cbs_find_ber (cbs_of [0x30, 4, 0x30, 0x80, 0, 0]) 0 = Some True \<and>
   cbs_find_ber (cbs_of [0x30, 4, 0x30, 0x80, 0, 0, 0x30, 0]) 0 = Some False \<and>
   CBS_asn1_ber_to_der sys loc w p (cbs_of [0x30, 4, 0x30, 0x80, 0, 0, 0x30, 0]) =
     Some (True, None, 0, cbs_of [0x30, 4, 0x30, 0x80, 0, 0, 0x30, 0], w)"
proof -
  have 1: "cbs_find_ber (cbs_of [0x30, 4, 0x30, 0x80, 0, 0]) 0 = Some True" by code_simp
  have 2: "cbs_find_ber (cbs_of [0x30, 4, 0x30, 0x80, 0, 0, 0x30, 0]) 0 = Some False" by code_simp
  show ?thesis using 1 2 by (simp add: CBS_asn1_ber_to_der_def)
qed

end
