(* ===== verification/Lhash.thy ===== *)
theory Lhash
  imports Mem "HOL-Library.Multiset"
begin

text \<open>
  \<^verbatim>\<open>crypto/lhash/lhash.c\<close>: the chained hash table. A bucket is the list of its chain's
  items, each the \<open>data\<close> pointer and the cached hash; \<open>LHASH_ITEM **\<close> pointers are a bucket
  number and a position in the chain. \<open>'a\<close> stands for \<open>void *\<close>; the hash and comparison
  functions are the table's own fields, and what they owe the table is the locale
  \<open>hash_key\<close>. Callbacks of \<^verbatim>\<open>lh_doall\<close> change a state of their own, not the table.
\<close>

section \<open>The table\<close>

definition kMinNumBuckets :: nat where "kMinNumBuckets = 16"
definition kMaxAverageChainLength :: nat where "kMaxAverageChainLength = 2"
definition kMinAverageChainLength :: nat where "kMinAverageChainLength = 1"

record 'a lhash =
  lh_num_items :: nat
  lh_buckets :: "('a \<times> u32) list list"
  lh_num_buckets :: nat
  lh_callback_depth :: nat
  lh_comp :: "'a \<Rightarrow> 'a \<Rightarrow> int"
  lh_hash :: "'a \<Rightarrow> u32"

text \<open>\<^verbatim>\<open>sizeof\<close> the table, an item and a bucket pointer.\<close>

definition sizeof_LHASH :: nat where "sizeof_LHASH = 48"
definition sizeof_LHASH_ITEM :: nat where "sizeof_LHASH_ITEM = 24"
definition sizeof_ptr :: nat where "sizeof_ptr = 8"

definition lh_new :: "sys_malloc \<Rightarrow> ('a \<Rightarrow> u32) \<Rightarrow> ('a \<Rightarrow> 'a \<Rightarrow> int) \<Rightarrow> 'a lhash option" where
  "lh_new sys hash cmp =
     (if OPENSSL_malloc sys sizeof_LHASH = None then None
      else if OPENSSL_malloc sys (size_mul sizeof_ptr kMinNumBuckets) = None then None
      else Some \<lparr>lh_num_items = 0, lh_buckets = replicate kMinNumBuckets [],
             lh_num_buckets = kMinNumBuckets, lh_callback_depth = 0, lh_comp = cmp, lh_hash = hash\<rparr>)"

fun chain_index :: "('a \<Rightarrow> 'a \<Rightarrow> int) \<Rightarrow> ('a \<times> u32) list \<Rightarrow> 'a \<Rightarrow> nat" where
  "chain_index cmp [] data = 0"
| "chain_index cmp (cur # rest) data =
     (if cmp (fst cur) data = 0 then 0 else Suc (chain_index cmp rest data))"

text \<open>The pointer returned and \<open>*out_hash\<close>; \<open>chain_at\<close> dereferences the pointer.\<close>

definition get_next_ptr_and_hash :: "'a lhash \<Rightarrow> 'a \<Rightarrow> (nat \<times> nat) \<times> u32" where
  "get_next_ptr_and_hash lh data =
     (let hash = lh_hash lh data; b = unat hash mod lh_num_buckets lh
      in ((b, chain_index (lh_comp lh) (lh_buckets lh ! b) data), hash))"

definition chain_at :: "'a lhash \<Rightarrow> nat \<times> nat \<Rightarrow> ('a \<times> u32) option" where
  "chain_at lh ptr =
     (let chain = lh_buckets lh ! fst ptr
      in if snd ptr < length chain then Some (chain ! snd ptr) else None)"

definition lh_retrieve :: "'a lhash \<Rightarrow> 'a \<Rightarrow> 'a option" where
  "lh_retrieve lh data =
     (let (next_ptr, _) = get_next_ptr_and_hash lh data
      in case chain_at lh next_ptr of None \<Rightarrow> None | Some item \<Rightarrow> Some (fst item))"

section \<open>Resizing\<close>

text \<open>The loop moves every item to the head of its new bucket.\<close>

definition rebucket_step :: "nat \<Rightarrow> ('a \<times> u32) list list \<Rightarrow> 'a \<times> u32 \<Rightarrow> ('a \<times> u32) list list" where
  "rebucket_step new_num_buckets new_buckets cur =
     (let new_bucket = unat (snd cur) mod new_num_buckets
      in new_buckets[new_bucket := cur # new_buckets ! new_bucket])"

definition lh_rebucket :: "sys_malloc \<Rightarrow> 'a lhash \<Rightarrow> nat \<Rightarrow> 'a lhash" where
  "lh_rebucket sys lh new_num_buckets =
     (let alloc_size = size_mul sizeof_ptr new_num_buckets
      in if alloc_size div sizeof_ptr \<noteq> new_num_buckets then lh
         else if OPENSSL_malloc sys alloc_size = None then lh
         else lh\<lparr>lh_num_buckets := new_num_buckets,
                lh_buckets := foldl (foldl (rebucket_step new_num_buckets))
                  (replicate new_num_buckets []) (lh_buckets lh)\<rparr>)"

definition lh_maybe_resize :: "sys_malloc \<Rightarrow> 'a lhash \<Rightarrow> 'a lhash" where
  "lh_maybe_resize sys lh =
     (if lh_callback_depth lh > 0 then lh
      else let avg_chain_length = lh_num_items lh div lh_num_buckets lh
        in if avg_chain_length > kMaxAverageChainLength
           then (let new_num_buckets = size_mul (lh_num_buckets lh) 2
                 in if new_num_buckets > lh_num_buckets lh then lh_rebucket sys lh new_num_buckets else lh)
           else if avg_chain_length < kMinAverageChainLength \<and> lh_num_buckets lh > kMinNumBuckets
           then (let new_num_buckets = lh_num_buckets lh div 2;
                   new_num_buckets = (if new_num_buckets < kMinNumBuckets then kMinNumBuckets else new_num_buckets)
                 in lh_rebucket sys lh new_num_buckets)
           else lh)"

section \<open>Insertion, deletion, iteration\<close>

definition set_chain :: "'a lhash \<Rightarrow> nat \<Rightarrow> ('a \<times> u32) list \<Rightarrow> 'a lhash" where
  "set_chain lh b chain = lh\<lparr>lh_buckets := (lh_buckets lh)[b := chain]\<rparr>"

text \<open>The result: the return value, \<open>*old_data\<close> and the table.\<close>

definition lh_insert :: "sys_malloc \<Rightarrow> 'a lhash \<Rightarrow> 'a \<Rightarrow> bool \<times> 'a option \<times> 'a lhash" where
  "lh_insert sys lh data =
     (let (next_ptr, hash) = get_next_ptr_and_hash lh data; (b, i) = next_ptr;
          chain = lh_buckets lh ! b
      in case chain_at lh next_ptr of
           Some item \<Rightarrow> (True, Some (fst item), set_chain lh b (chain[i := (data, snd item)]))
         | None \<Rightarrow>
             if OPENSSL_malloc sys sizeof_LHASH_ITEM = None then (False, None, lh)
             else let lh = set_chain lh b (chain @ [(data, hash)]);
                      lh = lh\<lparr>lh_num_items := lh_num_items lh + 1\<rparr>
               in (True, None, lh_maybe_resize sys lh))"

definition lh_delete :: "sys_malloc \<Rightarrow> 'a lhash \<Rightarrow> 'a \<Rightarrow> 'a option \<times> 'a lhash" where
  "lh_delete sys lh data =
     (let (next_ptr, _) = get_next_ptr_and_hash lh data; (b, i) = next_ptr;
          chain = lh_buckets lh ! b
      in case chain_at lh next_ptr of
           None \<Rightarrow> (None, lh)
         | Some item \<Rightarrow>
             let lh = set_chain lh b (take i chain @ drop (Suc i) chain);
                 lh = lh\<lparr>lh_num_items := lh_num_items lh - 1\<rparr>
             in (Some (fst item), lh_maybe_resize sys lh))"

text \<open>\<open>f\<close> is whichever callback is set; a NULL table is \<open>None\<close>.\<close>

definition lh_doall_internal ::
  "sys_malloc \<Rightarrow> 'a lhash option \<Rightarrow> ('a \<Rightarrow> 's \<Rightarrow> 's) \<Rightarrow> 's \<Rightarrow> 's \<times> 'a lhash option" where
  "lh_doall_internal sys lh f s =
     (case lh of
        None \<Rightarrow> (s, None)
      | Some lh \<Rightarrow>
          let lh = (if lh_callback_depth lh < UINT_MAX
                    then lh\<lparr>lh_callback_depth := lh_callback_depth lh + 1\<rparr> else lh);
              s = foldl (foldl (\<lambda>s cur. f (fst cur) s)) s (lh_buckets lh);
              lh = (if lh_callback_depth lh < UINT_MAX
                    then lh\<lparr>lh_callback_depth := lh_callback_depth lh - 1\<rparr> else lh)
          in (s, Some (lh_maybe_resize sys lh)))"

definition lh_doall :: "sys_malloc \<Rightarrow> 'a lhash option \<Rightarrow> ('a \<Rightarrow> 's \<Rightarrow> 's) \<Rightarrow> 's \<Rightarrow> 's \<times> 'a lhash option" where
  "lh_doall sys lh func s = lh_doall_internal sys lh func s"

definition lh_doall_arg ::
  "sys_malloc \<Rightarrow> 'a lhash option \<Rightarrow> ('a \<Rightarrow> 'b \<Rightarrow> 's \<Rightarrow> 's) \<Rightarrow> 'b \<Rightarrow> 's \<Rightarrow> 's \<times> 'a lhash option" where
  "lh_doall_arg sys lh func arg s = lh_doall_internal sys lh (\<lambda>data. func data arg) s"

text \<open>A C string is the memory up to the end of its object; \<open>None\<close> inside is NULL.\<close>

definition lh_strhash :: "u8 list option \<Rightarrow> u32 option" where
  "lh_strhash c =
     (case c of
        None \<Rightarrow> Some 0
      | Some s \<Rightarrow> map_option (\<lambda>n. OPENSSL_hash32 (take n s)) (strlen s))"

section \<open>Invariant and abstraction\<close>

text \<open>
  The invariant: every item sits in the bucket of its hash, the cached hash is the item's,
  no two items are equal, the count is right. The abstraction: what a key is mapped to.
\<close>

definition lh_items :: "'a lhash \<Rightarrow> ('a \<times> u32) list" where
  "lh_items lh = concat (lh_buckets lh)"

definition unequal :: "('a \<Rightarrow> 'a \<Rightarrow> int) \<Rightarrow> 'a \<times> u32 \<Rightarrow> 'a \<times> u32 \<Rightarrow> bool" where
  "unequal cmp x y \<longleftrightarrow> cmp (fst x) (fst y) \<noteq> 0 \<and> cmp (fst y) (fst x) \<noteq> 0"

definition buckets_ok :: "nat \<Rightarrow> ('a \<times> u32) list list \<Rightarrow> bool" where
  "buckets_ok n bs \<longleftrightarrow> length bs = n \<and> (\<forall>i<n. \<forall>x\<in>set (bs ! i). unat (snd x) mod n = i)"

definition lh_wf :: "'a lhash \<Rightarrow> bool" where
  "lh_wf lh \<longleftrightarrow>
     kMinNumBuckets \<le> lh_num_buckets lh \<and> buckets_ok (lh_num_buckets lh) (lh_buckets lh) \<and>
     (\<forall>x\<in>set (lh_items lh). snd x = lh_hash lh (fst x)) \<and>
     sorted_wrt (unequal (lh_comp lh)) (lh_items lh) \<and>
     lh_num_items lh = length (lh_items lh)"

definition lh_map :: "'a lhash \<Rightarrow> 'a \<Rightarrow> 'a option" where
  "lh_map lh k = map_option fst (find (\<lambda>x. lh_comp lh (fst x) k = 0) (lh_items lh))"

lemma set_chain_simps [simp]:
  "lh_num_items (set_chain lh b c) = lh_num_items lh" "lh_comp (set_chain lh b c) = lh_comp lh"
  "lh_hash (set_chain lh b c) = lh_hash lh"
  by (simp_all add: set_chain_def)

lemma lh_wf_chain:
  assumes "lh_wf lh" "b < length (lh_buckets lh)"
  shows "\<forall>x\<in>set (lh_buckets lh ! b). unat (snd x) mod lh_num_buckets lh = b \<and> snd x = lh_hash lh (fst x)"
proof -
  have "set (lh_buckets lh ! b) \<subseteq> set (lh_items lh)"
    using nth_mem[OF assms(2)] by (force simp: lh_items_def)
  then have "\<forall>x\<in>set (lh_buckets lh ! b). snd x = lh_hash lh (fst x)" using assms(1) by (auto simp: lh_wf_def)
  moreover have "\<forall>x\<in>set (lh_buckets lh ! b). unat (snd x) mod lh_num_buckets lh = b"
    using assms by (simp add: lh_wf_def buckets_ok_def)
  ultimately show ?thesis by blast
qed

lemma sorted_wrt_mset:
  assumes "mset xs = mset ys" "\<And>x y. R x y \<Longrightarrow> R y x"
  shows "sorted_wrt R xs \<Longrightarrow> sorted_wrt R ys"
  using assms(1)
proof (induction xs arbitrary: ys)
  case (Cons x xs)
  from Cons.prems(2) have "x \<in> set ys" by (metis list.set_intros(1) set_mset_mset)
  then obtain as bs where ys: "ys = as @ x # bs" by (meson split_list)
  then have m: "mset xs = mset (as @ bs)" using Cons.prems(2) by simp
  have s: "sorted_wrt R (as @ bs)" using Cons.IH[OF _ m] Cons.prems(1) by simp
  have "R x y" if "y \<in> set (as @ bs)" for y
    using that Cons.prems(1) mset_eq_setD[OF m] by auto
  then show ?case using s assms(2) unfolding ys by (auto simp: sorted_wrt_append)
qed simp

lemma concat_bucket:
  assumes "b < length bs"
  obtains xs ys where "concat bs = xs @ bs ! b @ ys" "\<And>c. concat (bs[b := c]) = xs @ c @ ys"
proof
  show "concat bs = concat (take b bs) @ bs ! b @ concat (drop (Suc b) bs)"
    using id_take_nth_drop[OF assms] by (metis concat.simps(2) concat_append)
  show "concat (bs[b := c]) = concat (take b bs) @ c @ concat (drop (Suc b) bs)" for c
    using assms by (simp add: upd_conv_take_nth_drop)
qed

lemma chain_index_le: "chain_index cmp c d \<le> length c"
  by (induction c) auto

lemma chain_index_found:
  "chain_index cmp c d < length c \<Longrightarrow> cmp (fst (c ! chain_index cmp c d)) d = 0"
  by (induction c) (auto split: if_splits)

lemma chain_index_missing:
  "\<not> chain_index cmp c d < length c \<Longrightarrow> x \<in> set c \<Longrightarrow> cmp (fst x) d \<noteq> 0"
  by (induction c) (auto split: if_splits)

section \<open>Resizing keeps the contents\<close>

lemma rebucket_step_ok:
  assumes "buckets_ok n bs" "0 < n"
  shows "buckets_ok n (rebucket_step n bs x)"
    and "mset (concat (rebucket_step n bs x)) = add_mset x (mset (concat bs))"
proof -
  let ?b = "unat (snd x) mod n"
  have b: "?b < length bs" using assms by (simp add: buckets_ok_def)
  show "buckets_ok n (rebucket_step n bs x)"
    using assms b by (auto simp: buckets_ok_def rebucket_step_def Let_def nth_list_update)
  obtain xs ys where "concat bs = xs @ bs ! ?b @ ys" "\<And>c. concat (bs[?b := c]) = xs @ c @ ys"
    using concat_bucket[OF b] by blast
  then show "mset (concat (rebucket_step n bs x)) = add_mset x (mset (concat bs))"
    by (simp add: rebucket_step_def Let_def)
qed

lemma rebucket_chain_ok:
  "buckets_ok n bs \<Longrightarrow> 0 < n \<Longrightarrow>
   buckets_ok n (foldl (rebucket_step n) bs c) \<and>
   mset (concat (foldl (rebucket_step n) bs c)) = mset c + mset (concat bs)"
  by (induction c arbitrary: bs) (simp_all add: rebucket_step_ok)

lemma rebucket_ok:
  "buckets_ok n bs \<Longrightarrow> 0 < n \<Longrightarrow>
   buckets_ok n (foldl (foldl (rebucket_step n)) bs css) \<and>
   mset (concat (foldl (foldl (rebucket_step n)) bs css)) = mset (concat css) + mset (concat bs)"
  by (induction css arbitrary: bs) (simp_all add: rebucket_chain_ok)

lemma unequal_sym: "unequal cmp x y \<Longrightarrow> unequal cmp y x"
  by (simp add: unequal_def)

lemma lh_rebucket_ok:
  assumes "lh_wf lh" "kMinNumBuckets \<le> n"
  shows "lh_wf (lh_rebucket sys lh n)"
    and "mset (lh_items (lh_rebucket sys lh n)) = mset (lh_items lh)"
proof -
  have "0 < n" using assms(2) by (simp add: kMinNumBuckets_def)
  moreover have "buckets_ok n (replicate n [])" by (simp add: buckets_ok_def)
  ultimately have r: "buckets_ok n (foldl (foldl (rebucket_step n)) (replicate n []) (lh_buckets lh))"
    "mset (concat (foldl (foldl (rebucket_step n)) (replicate n []) (lh_buckets lh))) = mset (lh_items lh)"
    using rebucket_ok[of n "replicate n []" "lh_buckets lh"] by (auto simp: lh_items_def)
  show m: "mset (lh_items (lh_rebucket sys lh n)) = mset (lh_items lh)"
    using r(2) by (simp add: lh_rebucket_def Let_def lh_items_def)
  have s: "set (lh_items (lh_rebucket sys lh n)) = set (lh_items lh)"
    using m by (rule mset_eq_setD)
  have "sorted_wrt (unequal (lh_cmp lh)) (lh_items (lh_rebucket sys lh n))" if "lh_cmp = lh_comp" for lh_cmp
    using assms(1) m that sorted_wrt_mset[OF m[symmetric], of "unequal (lh_comp lh)"]
    by (auto simp: lh_wf_def intro: unequal_sym)
  then have sw: "sorted_wrt (unequal (lh_comp lh)) (lh_items (lh_rebucket sys lh n))" by blast
  have "length (lh_items (lh_rebucket sys lh n)) = length (lh_items lh)" using m by (rule mset_eq_length)
  then show "lh_wf (lh_rebucket sys lh n)"
    using assms r(1) sw s by (auto simp: lh_wf_def lh_rebucket_def Let_def)
qed

lemma lh_rebucket_fields [simp]:
  "lh_comp (lh_rebucket sys lh n) = lh_comp lh" "lh_hash (lh_rebucket sys lh n) = lh_hash lh"
  "lh_num_items (lh_rebucket sys lh n) = lh_num_items lh"
  by (simp_all add: lh_rebucket_def Let_def)

lemma lh_maybe_resize_fields [simp]:
  "lh_comp (lh_maybe_resize sys lh) = lh_comp lh" "lh_hash (lh_maybe_resize sys lh) = lh_hash lh"
  "lh_num_items (lh_maybe_resize sys lh) = lh_num_items lh"
  by (simp_all add: lh_maybe_resize_def Let_def)

lemma lh_maybe_resize_cases:
  assumes "lh_wf lh"
  shows "lh_maybe_resize sys lh = lh \<or>
    (\<exists>n\<ge>kMinNumBuckets. lh_maybe_resize sys lh = lh_rebucket sys lh n)"
proof -
  let ?n = "lh_num_buckets lh"
  have "kMinNumBuckets \<le> ?n" using assms by (simp add: lh_wf_def)
  then have "lh_maybe_resize sys lh \<in> insert lh (lh_rebucket sys lh ` {kMinNumBuckets..})"
    by (auto simp: lh_maybe_resize_def Let_def)
  then show ?thesis by auto
qed

lemma lh_maybe_resize_ok:
  assumes "lh_wf lh"
  shows "lh_wf (lh_maybe_resize sys lh)"
    and "mset (lh_items (lh_maybe_resize sys lh)) = mset (lh_items lh)"
  using lh_maybe_resize_cases[OF assms, of sys] lh_rebucket_ok[OF assms] assms by auto

section \<open>What the functions owe the table\<close>

locale hash_key =
  fixes hash :: "'a \<Rightarrow> u32" and cmp :: "'a \<Rightarrow> 'a \<Rightarrow> int"
  assumes cmp_refl: "cmp a a = 0"
    and cmp_sym: "cmp a b = 0 \<Longrightarrow> cmp b a = 0"
    and cmp_trans: "cmp a b = 0 \<Longrightarrow> cmp b c = 0 \<Longrightarrow> cmp a c = 0"
    and hash_eq: "cmp a b = 0 \<Longrightarrow> hash a = hash b"
begin

lemma unequal_iff: "unequal cmp x y \<longleftrightarrow> cmp (fst x) (fst y) \<noteq> 0"
  using cmp_sym by (auto simp: unequal_def)

lemma items_unique:
  "sorted_wrt (unequal cmp) xs \<Longrightarrow> x \<in> set xs \<Longrightarrow> y \<in> set xs \<Longrightarrow> cmp (fst x) (fst y) = 0 \<Longrightarrow> x = y"
  by (induction xs) (auto simp: unequal_iff dest: cmp_sym)

lemma find_iff:
  assumes "sorted_wrt (unequal cmp) xs"
  shows "map_option fst (find (\<lambda>x. cmp (fst x) k = 0) xs) = Some d \<longleftrightarrow>
    (\<exists>h. (d, h) \<in> set xs) \<and> cmp d k = 0" (is "?l = _ \<longleftrightarrow> ?r")
proof
  assume "?l = Some d"
  then obtain x where x: "find (\<lambda>x. cmp (fst x) k = 0) xs = Some x" "d = fst x" by auto
  then have "x \<in> set xs" "cmp (fst x) k = 0" by (auto simp: find_Some_iff)
  then show ?r using x(2) by (metis prod.collapse)
next
  assume ?r
  then obtain h where h: "(d, h) \<in> set xs" "cmp d k = 0" by blast
  then obtain x where x: "find (\<lambda>x. cmp (fst x) k = 0) xs = Some x"
    by (cases "find (\<lambda>x. cmp (fst x) k = 0) xs") (auto simp: find_None_iff)
  then have "x \<in> set xs" "cmp (fst x) k = 0" by (auto simp: find_Some_iff)
  moreover from this have "cmp (fst x) (fst (d, h)) = 0" using cmp_trans[OF _ cmp_sym[OF h(2)]] by simp
  ultimately have "x = (d, h)" using items_unique[OF assms] h by blast
  then show "?l = Some d" using x by simp
qed

text \<open>The table's view of a key in terms of the set of its items.\<close>

lemma lh_map_iff:
  assumes "lh_wf lh" "lh_comp lh = cmp"
  shows "lh_map lh k = Some d \<longleftrightarrow> (\<exists>h. (d, h) \<in> set (lh_items lh)) \<and> cmp d k = 0"
  using find_iff[of "lh_items lh" k d] assms by (simp add: lh_map_def lh_wf_def)

lemma lh_map_None:
  assumes "lh_wf lh" "lh_comp lh = cmp"
  shows "lh_map lh k = None \<longleftrightarrow> (\<forall>x\<in>set (lh_items lh). cmp (fst x) k \<noteq> 0)"
proof -
  have "lh_map lh k = None \<longleftrightarrow> \<not> (\<exists>d. lh_map lh k = Some d)" by simp
  also have "\<dots> \<longleftrightarrow> (\<forall>x\<in>set (lh_items lh). cmp (fst x) k \<noteq> 0)"
    unfolding lh_map_iff[OF assms] by force
  finally show ?thesis .
qed

lemma lh_map_items:
  assumes "lh_wf lh" "lh_comp lh = cmp" "lh_wf lh'" "lh_comp lh' = cmp"
    "set (lh_items lh') = set (lh_items lh)"
  shows "lh_map lh' = lh_map lh"
proof
  fix k
  show "lh_map lh' k = lh_map lh k"
    by (rule option_eqI) (simp add: lh_map_iff assms)
qed

text \<open>Where the items equal to \<open>k\<close> are.\<close>

lemma lh_locate:
  assumes wf: "lh_wf lh" and c: "lh_comp lh = cmp" "lh_hash lh = hash"
    and g: "get_next_ptr_and_hash lh k = ((b, i), h)"
  obtains xs ys where "lh_items lh = xs @ lh_buckets lh ! b @ ys"
    "\<And>c. lh_items (set_chain lh b c) = xs @ c @ ys" "h = hash k" "b < length (lh_buckets lh)"
    "unat h mod lh_num_buckets lh = b"
    "i < length (lh_buckets lh ! b) \<Longrightarrow> cmp (fst (lh_buckets lh ! b ! i)) k = 0"
    "\<not> i < length (lh_buckets lh ! b) \<Longrightarrow> \<forall>x\<in>set (lh_items lh). cmp (fst x) k \<noteq> 0"
proof -
  let ?n = "lh_num_buckets lh"
  have n: "0 < ?n" "buckets_ok ?n (lh_buckets lh)" using wf by (auto simp: lh_wf_def kMinNumBuckets_def)
  have g': "h = hash k" "b = unat h mod ?n" "i = chain_index cmp (lh_buckets lh ! b) k"
    using g c by (auto simp: get_next_ptr_and_hash_def Let_def)
  then have b: "b < length (lh_buckets lh)" using n by (simp add: buckets_ok_def)
  obtain xs ys where sp: "lh_items lh = xs @ lh_buckets lh ! b @ ys"
    "\<And>c. lh_items (set_chain lh b c) = xs @ c @ ys"
    using concat_bucket[OF b] by (metis lh_items_def set_chain_def lhash.select_convs(2)
        lhash.surjective lhash.update_convs(2))
  show ?thesis
  proof (rule that[OF sp g'(1) b g'(2)[symmetric]])
    assume "i < length (lh_buckets lh ! b)"
    then show "cmp (fst (lh_buckets lh ! b ! i)) k = 0"
      using chain_index_found[of cmp] g'(3) by simp
  next
    assume miss: "\<not> i < length (lh_buckets lh ! b)"
    show "\<forall>x\<in>set (lh_items lh). cmp (fst x) k \<noteq> 0"
    proof (intro ballI notI)
      fix x
      assume x: "x \<in> set (lh_items lh)" "cmp (fst x) k = 0"
      then have "snd x = h" using wf c hash_eq g'(1) by (auto simp: lh_wf_def)
      moreover obtain c where "c \<in> set (lh_buckets lh)" "x \<in> set c"
        using x(1) by (auto simp: lh_items_def)
      moreover from this obtain j where "j < ?n" "x \<in> set (lh_buckets lh ! j)"
        using n(2) by (auto simp: in_set_conv_nth[of c] buckets_ok_def)
      ultimately have "x \<in> set (lh_buckets lh ! b)" using n(2) g'(2) by (auto simp: buckets_ok_def)
      then show False using chain_index_missing[of cmp] miss g'(3) x(2) by blast
    qed
  qed
qed

lemma lh_retrieve_map:
  assumes wf: "lh_wf lh" and c: "lh_comp lh = cmp" "lh_hash lh = hash"
  shows "lh_retrieve lh k = lh_map lh k"
proof -
  obtain b i h where g: "get_next_ptr_and_hash lh k = ((b, i), h)" by (metis surj_pair)
  from lh_locate[OF wf c g] obtain xs ys where l: "lh_items lh = xs @ lh_buckets lh ! b @ ys"
    "i < length (lh_buckets lh ! b) \<Longrightarrow> cmp (fst (lh_buckets lh ! b ! i)) k = 0"
    "\<not> i < length (lh_buckets lh ! b) \<Longrightarrow> \<forall>x\<in>set (lh_items lh). cmp (fst x) k \<noteq> 0"
    by metis
  show ?thesis
  proof (cases "i < length (lh_buckets lh ! b)")
    case True
    then have "lh_buckets lh ! b ! i \<in> set (lh_items lh)" using l(1) by simp
    then have "lh_map lh k = Some (fst (lh_buckets lh ! b ! i))"
      using l(2)[OF True] lh_map_iff[OF wf c(1)] by (metis prod.collapse)
    then show ?thesis using g True by (simp add: lh_retrieve_def chain_at_def)
  next
    case False
    then have "lh_map lh k = None" using l(3) lh_map_None[OF wf c(1)] by blast
    then show ?thesis using g False by (simp add: lh_retrieve_def chain_at_def)
  qed
qed

lemma sorted_replace:
  assumes "sorted_wrt (unequal cmp) (P @ x # S)" "cmp (fst x) (fst z) = 0"
  shows "sorted_wrt (unequal cmp) (P @ z # S)"
proof -
  have "unequal cmp z y" if "unequal cmp x y" for y
    using that cmp_trans[OF assms(2), of "fst y"] by (auto simp: unequal_iff)
  moreover have "unequal cmp y z" if "unequal cmp y x" for y
    using that cmp_trans[OF _ cmp_sym[OF assms(2)], of "fst y"] by (auto simp: unequal_iff)
  ultimately show ?thesis using assms(1) by (auto simp: sorted_wrt_append)
qed

lemma sorted_add:
  assumes "sorted_wrt (unequal cmp) (P @ S)" "\<forall>x\<in>set (P @ S). cmp (fst x) (fst z) \<noteq> 0"
  shows "sorted_wrt (unequal cmp) (P @ z # S)"
  using assms cmp_sym by (auto simp: sorted_wrt_append unequal_iff)

lemma wf_set_chain:
  assumes "lh_wf lh" "b < length (lh_buckets lh)"
    "\<forall>x\<in>set c. unat (snd x) mod lh_num_buckets lh = b \<and> snd x = lh_hash lh (fst x)"
    "sorted_wrt (unequal (lh_comp lh)) (lh_items (set_chain lh b c))"
  shows "lh_wf ((set_chain lh b c)\<lparr>lh_num_items := length (lh_items (set_chain lh b c))\<rparr>)"
proof -
  obtain xs ys where "concat (lh_buckets lh) = xs @ lh_buckets lh ! b @ ys"
    "\<And>c. concat ((lh_buckets lh)[b := c]) = xs @ c @ ys"
    using concat_bucket[OF assms(2)] by blast
  then have "set (lh_items (set_chain lh b c)) \<subseteq> set c \<union> set (lh_items lh)"
    by (auto simp: lh_items_def set_chain_def)
  moreover have "\<forall>x\<in>set c \<union> set (lh_items lh). snd x = lh_hash lh (fst x)"
    using assms(1,3) by (auto simp: lh_wf_def)
  ultimately have "\<forall>x\<in>set (lh_items (set_chain lh b c)). snd x = lh_hash lh (fst x)" by blast
  moreover have "buckets_ok (lh_num_buckets lh) ((lh_buckets lh)[b := c])"
  proof -
    have "buckets_ok (lh_num_buckets lh) (lh_buckets lh)" using assms(1) by (simp add: lh_wf_def)
    moreover have "\<forall>x\<in>set c. unat (snd x) mod lh_num_buckets lh = b" using assms(3) by blast
    ultimately show ?thesis using assms(2) by (simp add: buckets_ok_def nth_list_update)
  qed
  moreover have "kMinNumBuckets \<le> lh_num_buckets lh" using assms(1) by (simp add: lh_wf_def)
  ultimately show ?thesis
    using assms(4) by (simp add: lh_wf_def set_chain_def lh_items_def)
qed

lemma lh_insert_map:
  assumes wf: "lh_wf lh" and c: "lh_comp lh = cmp" "lh_hash lh = hash"
  shows "case lh_insert sys lh data of
      (True, old, lh') \<Rightarrow> lh_wf lh' \<and> lh_comp lh' = cmp \<and> lh_hash lh' = hash \<and>
        old = lh_map lh data \<and> lh_map lh' = (\<lambda>k. if cmp data k = 0 then Some data else lh_map lh k)
    | (False, old, lh') \<Rightarrow> old = None \<and> lh' = lh"
proof -
  obtain b i h where g: "get_next_ptr_and_hash lh data = ((b, i), h)" by (metis surj_pair)
  from lh_locate[OF wf c g] obtain xs ys where l: "lh_items lh = xs @ lh_buckets lh ! b @ ys"
    "\<And>c. lh_items (set_chain lh b c) = xs @ c @ ys" "h = hash data" "b < length (lh_buckets lh)"
    "unat h mod lh_num_buckets lh = b"
    "i < length (lh_buckets lh ! b) \<Longrightarrow> cmp (fst (lh_buckets lh ! b ! i)) data = 0"
    "\<not> i < length (lh_buckets lh ! b) \<Longrightarrow> \<forall>x\<in>set (lh_items lh). cmp (fst x) data \<noteq> 0"
    by metis
  let ?ch = "lh_buckets lh ! b"
  have ch: "\<forall>x\<in>set ?ch. unat (snd x) mod lh_num_buckets lh = b \<and> snd x = lh_hash lh (fst x)"
    by (rule lh_wf_chain[OF wf l(4)])
  have sorted: "sorted_wrt (unequal cmp) (lh_items lh)" "lh_num_items lh = length (lh_items lh)"
    using wf c by (simp_all add: lh_wf_def)
  show ?thesis
  proof (cases "i < length ?ch")
    case True
    let ?it = "?ch ! i"
    let ?lh = "set_chain lh b (?ch[i := (data, snd ?it)])"
    let ?P = "xs @ take i ?ch" and ?S = "drop (Suc i) ?ch @ ys"
    have it: "lh_items lh = ?P @ ?it # ?S" "lh_items ?lh = ?P @ (data, snd ?it) # ?S"
      using l(1,2) True by (simp_all add: id_take_nth_drop[symmetric] upd_conv_take_nth_drop)
    have cmp0: "cmp (fst ?it) data = 0" using l(6) True by simp
    have "hash (fst ?it) = hash data" using hash_eq cmp0 by simp
    then have "\<forall>x\<in>set (?ch[i := (data, snd ?it)]). unat (snd x) mod lh_num_buckets lh = b \<and> snd x = lh_hash lh (fst x)"
    proof (intro ballI)
      fix x
      assume "x \<in> set (?ch[i := (data, snd ?it)])"
      then have "x = (data, snd ?it) \<or> x \<in> set ?ch"
        using set_update_subset_insert[of ?ch i "(data, snd ?it)"] by blast
      moreover have "?it \<in> set ?ch" using True by simp
      ultimately show "unat (snd x) mod lh_num_buckets lh = b \<and> snd x = lh_hash lh (fst x)"
        using ch c \<open>hash (fst ?it) = hash data\<close> by fastforce
    qed
    moreover have "sorted_wrt (unequal (lh_comp lh)) (lh_items ?lh)"
    proof -
      have "sorted_wrt (unequal cmp) (?P @ ?it # ?S)" using sorted(1) unfolding it(1) .
      then have "sorted_wrt (unequal cmp) (?P @ (data, snd ?it) # ?S)"
        by (rule sorted_replace) (simp add: cmp0)
      then show ?thesis unfolding c it(2) .
    qed
    ultimately have "lh_wf (?lh\<lparr>lh_num_items := length (lh_items ?lh)\<rparr>)"
      by (rule wf_set_chain[OF wf l(4)])
    moreover have "length (lh_items ?lh) = lh_num_items lh" unfolding it(2) using sorted(2) unfolding it(1) by simp
    moreover have "?lh\<lparr>lh_num_items := lh_num_items lh\<rparr> = ?lh" by (cases lh) (simp add: set_chain_def)
    ultimately have wf': "lh_wf ?lh" by simp
    have f: "lh_comp ?lh = cmp" "lh_hash ?lh = hash" using c by (simp_all add: set_chain_def)
    have old: "lh_map lh data = Some (fst ?it)"
      using lh_map_iff[OF wf c(1)] cmp0 it(1) by (metis in_set_conv_decomp prod.collapse)
    have "lh_map ?lh k = Some d \<longleftrightarrow> (if cmp data k = 0 then Some data else lh_map lh k) = Some d" for k d
    proof (cases "cmp data k = 0")
      case True
      have "lh_map ?lh k = Some data" using True it(2) lh_map_iff[OF wf' f(1)] by auto
      then show ?thesis using True by simp
    next
      case False
      then have "cmp (fst ?it) k \<noteq> 0" using cmp0 cmp_trans cmp_sym by blast
      then have "x \<in> set (lh_items ?lh) \<longleftrightarrow> x \<in> set (lh_items lh)" if "cmp (fst x) k = 0" for x
        using that False unfolding it by auto
      then have "(\<exists>h. (d, h) \<in> set (lh_items ?lh)) \<and> cmp d k = 0 \<longleftrightarrow>
          (\<exists>h. (d, h) \<in> set (lh_items lh)) \<and> cmp d k = 0"
        by (metis fst_conv)
      then show ?thesis using False by (simp add: lh_map_iff[OF wf c(1)] lh_map_iff[OF wf' f(1)])
    qed
    then have "lh_map ?lh = (\<lambda>k. if cmp data k = 0 then Some data else lh_map lh k)"
      by (intro ext option_eqI)
    moreover have "lh_insert sys lh data = (True, Some (fst ?it), ?lh)"
      using g True by (simp add: lh_insert_def chain_at_def)
    ultimately show ?thesis using wf' f old by simp
  next
    case False
    let ?lh = "(set_chain lh b (?ch @ [(data, h)]))\<lparr>lh_num_items := lh_num_items lh + 1\<rparr>"
    have it: "lh_items lh = (xs @ ?ch) @ ys" "lh_items ?lh = (xs @ ?ch) @ (data, h) # ys"
      using l(1,2) by (simp_all add: lh_items_def)
    have none: "\<forall>x\<in>set (lh_items lh). cmp (fst x) data \<noteq> 0" using l(7) False by simp
    have items: "lh_items (set_chain lh b (?ch @ [(data, h)])) = (xs @ ?ch) @ (data, h) # ys"
      using l(2) by simp
    have srt: "sorted_wrt (unequal cmp) ((xs @ ?ch) @ (data, h) # ys)"
      using sorted(1) none unfolding it(1) by (intro sorted_add) simp_all
    have "lh_wf ((set_chain lh b (?ch @ [(data, h)]))\<lparr>lh_num_items :=
        length (lh_items (set_chain lh b (?ch @ [(data, h)])))\<rparr>)"
    proof (rule wf_set_chain[OF wf l(4)])
      show "\<forall>x\<in>set (?ch @ [(data, h)]). unat (snd x) mod lh_num_buckets lh = b \<and> snd x = lh_hash lh (fst x)"
        using ch l(3,5) c by auto
      show "sorted_wrt (unequal (lh_comp lh)) (lh_items (set_chain lh b (?ch @ [(data, h)])))"
        unfolding items c by (rule srt)
    qed
    moreover have "length (lh_items (set_chain lh b (?ch @ [(data, h)]))) = lh_num_items lh + 1"
      unfolding items using sorted(2) unfolding it(1) by simp
    ultimately have wf': "lh_wf ?lh" by simp
    let ?r = "lh_maybe_resize sys ?lh"
    note r = lh_maybe_resize_ok[OF wf', of sys]
    have f: "lh_comp ?r = cmp" "lh_hash ?r = hash" "lh_comp ?lh = cmp" using c by (simp_all add: set_chain_def)
    have map: "lh_map ?r = lh_map ?lh"
      using mset_eq_setD[OF r(2)] by (intro lh_map_items[OF wf' f(3) r(1) f(1)])
    have "lh_map ?lh k = Some d \<longleftrightarrow> (if cmp data k = 0 then Some data else lh_map lh k) = Some d" for k d
    proof (cases "cmp data k = 0")
      case True
      have "lh_map ?lh k = Some data" using True it(2) lh_map_iff[OF wf' f(3)] by auto
      then show ?thesis using True by simp
    next
      case False
      then have "(\<exists>h. (d, h) \<in> set (lh_items ?lh)) \<and> cmp d k = 0 \<longleftrightarrow>
          (\<exists>h. (d, h) \<in> set (lh_items lh)) \<and> cmp d k = 0"
        unfolding it by auto
      then show ?thesis using False by (simp only: lh_map_iff[OF wf c(1)] lh_map_iff[OF wf' f(3)] if_False)
    qed
    then have "lh_map ?lh = (\<lambda>k. if cmp data k = 0 then Some data else lh_map lh k)"
      by (intro ext option_eqI)
    moreover have "lh_map lh data = None" using none lh_map_None[OF wf c(1)] by blast
    moreover have "lh_insert sys lh data =
        (if OPENSSL_malloc sys sizeof_LHASH_ITEM = None then (False, None, lh) else (True, None, ?r))"
      using g False by (simp add: lh_insert_def chain_at_def Let_def)
    ultimately show ?thesis using r(1) f(1,2) map by simp
  qed
qed

lemma lh_delete_map:
  assumes wf: "lh_wf lh" and c: "lh_comp lh = cmp" "lh_hash lh = hash"
  shows "case lh_delete sys lh data of (old, lh') \<Rightarrow>
    lh_wf lh' \<and> lh_comp lh' = cmp \<and> lh_hash lh' = hash \<and> old = lh_map lh data \<and>
    lh_map lh' = (\<lambda>k. if cmp data k = 0 then None else lh_map lh k)"
proof -
  obtain b i h where g: "get_next_ptr_and_hash lh data = ((b, i), h)" by (metis surj_pair)
  from lh_locate[OF wf c g] obtain xs ys where l: "lh_items lh = xs @ lh_buckets lh ! b @ ys"
    "\<And>c. lh_items (set_chain lh b c) = xs @ c @ ys" "b < length (lh_buckets lh)"
    "i < length (lh_buckets lh ! b) \<Longrightarrow> cmp (fst (lh_buckets lh ! b ! i)) data = 0"
    "\<not> i < length (lh_buckets lh ! b) \<Longrightarrow> \<forall>x\<in>set (lh_items lh). cmp (fst x) data \<noteq> 0"
    by metis
  let ?ch = "lh_buckets lh ! b"
  have sorted: "sorted_wrt (unequal cmp) (lh_items lh)" "lh_num_items lh = length (lh_items lh)"
    using wf c by (simp_all add: lh_wf_def)
  show ?thesis
  proof (cases "i < length ?ch")
    case False
    then have none: "\<forall>x\<in>set (lh_items lh). cmp (fst x) data \<noteq> 0" using l(5) by simp
    then have "lh_map lh data = None" using lh_map_None[OF wf c(1)] by blast
    moreover have "lh_map lh k = None" if "cmp data k = 0" for k
      using none that cmp_trans cmp_sym lh_map_None[OF wf c(1)] by blast
    then have "lh_map lh = (\<lambda>k. if cmp data k = 0 then None else lh_map lh k)" by auto
    ultimately show ?thesis using g False wf c by (simp add: lh_delete_def chain_at_def)
  next
    case True
    let ?it = "?ch ! i"
    let ?c = "take i ?ch @ drop (Suc i) ?ch"
    let ?lh = "(set_chain lh b ?c)\<lparr>lh_num_items := lh_num_items lh - 1\<rparr>"
    let ?P = "xs @ take i ?ch" and ?S = "drop (Suc i) ?ch @ ys"
    have it: "lh_items lh = ?P @ ?it # ?S" "lh_items ?lh = ?P @ ?S" "lh_items (set_chain lh b ?c) = ?P @ ?S"
      using l(1,2) True by (simp_all add: id_take_nth_drop[symmetric] lh_items_def)
    have cmp0: "cmp (fst ?it) data = 0" using l(4) True by simp
    have "set ?c \<subseteq> set ?ch" by (auto dest: in_set_takeD in_set_dropD)
    moreover have "\<forall>x\<in>set ?ch. unat (snd x) mod lh_num_buckets lh = b \<and> snd x = lh_hash lh (fst x)"
      by (rule lh_wf_chain[OF wf l(3)])
    moreover have "sorted_wrt (unequal cmp) (?P @ ?S)"
      using sorted(1) unfolding it(1) by (simp add: sorted_wrt_append)
    ultimately have "lh_wf ((set_chain lh b ?c)\<lparr>lh_num_items := length (?P @ ?S)\<rparr>)"
      using wf_set_chain[OF wf l(3), of ?c] c it(3) by auto
    moreover have "length (?P @ ?S) = lh_num_items lh - 1" using sorted(2) unfolding it(1) by simp
    ultimately have wf': "lh_wf ?lh" by simp
    let ?r = "lh_maybe_resize sys ?lh"
    note r = lh_maybe_resize_ok[OF wf', of sys]
    have f: "lh_comp ?r = cmp" "lh_hash ?r = hash" "lh_comp ?lh = cmp" using c by (simp_all add: set_chain_def)
    have map: "lh_map ?r = lh_map ?lh"
      using mset_eq_setD[OF r(2)] by (intro lh_map_items[OF wf' f(3) r(1) f(1)])
    have old: "lh_map lh data = Some (fst ?it)"
      using lh_map_iff[OF wf c(1)] cmp0 it(1) by (metis in_set_conv_decomp prod.collapse)
    have others: "cmp (fst x) (fst ?it) \<noteq> 0" if "x \<in> set (?P @ ?S)" for x
      using sorted(1) that unfolding it(1) by (auto simp: sorted_wrt_append unequal_def)
    have "lh_map ?lh k = Some d \<longleftrightarrow> (if cmp data k = 0 then None else lh_map lh k) = Some d" for k d
    proof (cases "cmp data k = 0")
      case True
      then have "cmp (fst ?it) k = 0" using cmp0 cmp_trans by blast
      then have "\<forall>x\<in>set (lh_items ?lh). cmp (fst x) k \<noteq> 0"
        using others cmp_trans cmp_sym unfolding it(2) by blast
      then have "lh_map ?lh k = None" using lh_map_None[OF wf' f(3)] by blast
      then show ?thesis using True by simp
    next
      case False
      then have "cmp (fst ?it) k \<noteq> 0" using cmp0 cmp_trans cmp_sym by blast
      then have "x \<in> set (lh_items ?lh) \<longleftrightarrow> x \<in> set (lh_items lh)" if "cmp (fst x) k = 0" for x
        using that False unfolding it by auto
      then have "(\<exists>h. (d, h) \<in> set (lh_items ?lh)) \<and> cmp d k = 0 \<longleftrightarrow>
          (\<exists>h. (d, h) \<in> set (lh_items lh)) \<and> cmp d k = 0"
        by (metis fst_conv)
      then show ?thesis using False by (simp only: lh_map_iff[OF wf c(1)] lh_map_iff[OF wf' f(3)] if_False)
    qed
    then have "lh_map ?lh = (\<lambda>k. if cmp data k = 0 then None else lh_map lh k)"
      by (intro ext option_eqI)
    moreover have "lh_delete sys lh data = (Some (fst ?it), ?r)"
      using g True by (simp add: lh_delete_def chain_at_def Let_def)
    ultimately show ?thesis using r(1) f(1,2) map old by (simp only: prod.case)
  qed
qed

end

section \<open>Strings as keys\<close>

text \<open>
  \<^verbatim>\<open>lh_strhash\<close> with C's \<^verbatim>\<open>strcmp\<close>, on strings as lists of non-zero bytes, meets the contract;
  on memory it is the hash of the string in front of the terminator.
\<close>

fun strcmp :: "u8 list \<Rightarrow> u8 list \<Rightarrow> int" where
  "strcmp [] [] = 0"
| "strcmp [] (b # bs) = -1"
| "strcmp (a # as) [] = 1"
| "strcmp (a # as) (b # bs) = (if a = b then strcmp as bs else uint a - uint b)"

lemma strcmp_eq_0_iff [simp]: "strcmp a b = 0 \<longleftrightarrow> a = b"
  by (induction a b rule: strcmp.induct) (auto simp: word_uint_eq_iff)

interpretation str_key: hash_key OPENSSL_hash32 strcmp
  by unfold_locales auto

lemma lh_strhash_string:
  "0 \<notin> set s \<Longrightarrow> lh_strhash (Some (s @ 0 # rest)) = Some (OPENSSL_hash32 s)"
  by (simp add: lh_strhash_def strlen_string)

lemma lh_new_wf:
  "lh_new sys hash cmp = Some lh \<Longrightarrow>
   lh_wf lh \<and> lh_comp lh = cmp \<and> lh_hash lh = hash \<and> lh_map lh = (\<lambda>_. None)"
  by (auto simp: lh_new_def lh_wf_def lh_items_def buckets_ok_def lh_map_def kMinNumBuckets_def
      fun_eq_iff split: if_splits)

section \<open>The table is a map\<close>

text \<open>
  Property C4: \<^verbatim>\<open>lh_insert\<close> refines a map update. When the hash and comparison functions agree
  (equality is an equivalence, equal keys hash equally), inserting into a well-formed table
  either fails without any change, or returns the element that was equal to the new one, maps
  exactly the keys equal to it to the new one and keeps the table well-formed, across the
  rehashing it may trigger.
\<close>

theorem lh_insert_refines:
  assumes "lh_wf lh" "hash_key (lh_hash lh) (lh_comp lh)"
  shows "case lh_insert sys lh data of
      (True, old, lh') \<Rightarrow> lh_wf lh' \<and> lh_comp lh' = lh_comp lh \<and> lh_hash lh' = lh_hash lh \<and>
        old = lh_map lh data \<and>
        lh_map lh' = (\<lambda>k. if lh_comp lh data k = 0 then Some data else lh_map lh k)
    | (False, old, lh') \<Rightarrow> old = None \<and> lh' = lh"
  by (rule hash_key.lh_insert_map[OF assms(2,1) refl refl])

theorem lh_insert_refines_witness:
  "case lh_insert (\<lambda>_. True) \<lparr>lh_num_items = 0, lh_buckets = replicate 16 [], lh_num_buckets = 16,
      lh_callback_depth = 0, lh_comp = strcmp, lh_hash = OPENSSL_hash32\<rparr> [97] of
      (True, old, lh') \<Rightarrow> lh_wf lh' \<and> lh_comp lh' = strcmp \<and> lh_hash lh' = OPENSSL_hash32 \<and>
        old = None \<and> lh_map lh' = (\<lambda>k. if strcmp [97] k = 0 then Some [97] else None)
    | (False, old, lh') \<Rightarrow> old = None \<and> lh' = \<lparr>lh_num_items = 0, lh_buckets = replicate 16 [],
        lh_num_buckets = 16, lh_callback_depth = 0, lh_comp = strcmp, lh_hash = OPENSSL_hash32\<rparr>"
proof -
  let ?lh = "\<lparr>lh_num_items = 0, lh_buckets = replicate 16 [], lh_num_buckets = 16,
      lh_callback_depth = 0, lh_comp = strcmp, lh_hash = OPENSSL_hash32\<rparr>"
  have "lh_new (\<lambda>_. True) OPENSSL_hash32 strcmp = Some ?lh"
    by (simp add: lh_new_def OPENSSL_malloc_def Let_def kMinNumBuckets_def)
  then have "lh_wf ?lh \<and> lh_map ?lh = (\<lambda>_. None)" using lh_new_wf by blast
  then have wf: "lh_wf ?lh" and m: "lh_map ?lh = (\<lambda>_. None)" by simp_all
  have "hash_key (lh_hash ?lh) (lh_comp ?lh)" using str_key.hash_key_axioms by simp
  from lh_insert_refines[OF wf this, of "[97]" "\<lambda>_. True", unfolded m lhash.select_convs if_cancel]
  show ?thesis .
qed

text \<open>
  Property C5: \<^verbatim>\<open>lh_delete\<close> refines removal from a map, under the same contract: it returns
  the element equal to the key, removes exactly the keys equal to it and keeps the table
  well-formed, across the shrinking it may trigger.
\<close>

theorem lh_delete_refines:
  assumes "lh_wf lh" "hash_key (lh_hash lh) (lh_comp lh)"
  shows "case lh_delete sys lh data of (old, lh') \<Rightarrow>
    lh_wf lh' \<and> lh_comp lh' = lh_comp lh \<and> lh_hash lh' = lh_hash lh \<and> old = lh_map lh data \<and>
    lh_map lh' = (\<lambda>k. if lh_comp lh data k = 0 then None else lh_map lh k)"
  by (rule hash_key.lh_delete_map[OF assms(2,1) refl refl])

theorem lh_delete_refines_witness:
  "case lh_delete (\<lambda>_. True) \<lparr>lh_num_items = 0, lh_buckets = replicate 16 [], lh_num_buckets = 16,
      lh_callback_depth = 0, lh_comp = strcmp, lh_hash = OPENSSL_hash32\<rparr> [97] of (old, lh') \<Rightarrow>
     lh_wf lh' \<and> lh_comp lh' = strcmp \<and> lh_hash lh' = OPENSSL_hash32 \<and> old = None \<and> lh_map lh' = (\<lambda>k. None)"
proof -
  let ?lh = "\<lparr>lh_num_items = 0, lh_buckets = replicate 16 [], lh_num_buckets = 16,
      lh_callback_depth = 0, lh_comp = strcmp, lh_hash = OPENSSL_hash32\<rparr>"
  have "lh_new (\<lambda>_. True) OPENSSL_hash32 strcmp = Some ?lh"
    by (simp add: lh_new_def OPENSSL_malloc_def Let_def kMinNumBuckets_def)
  then have "lh_wf ?lh \<and> lh_map ?lh = (\<lambda>_. None)" using lh_new_wf by blast
  then have wf: "lh_wf ?lh" and m: "lh_map ?lh = (\<lambda>_. None)" by simp_all
  have "hash_key (lh_hash ?lh) (lh_comp ?lh)" using str_key.hash_key_axioms by simp
  from lh_delete_refines[OF wf this, of "[97]" "\<lambda>_. True", unfolded m lhash.select_convs if_cancel]
  show ?thesis .
qed

text \<open>
  \<^verbatim>\<open>lh_retrieve\<close> is lookup in the map the whole table stands for, although it
  searches one chain only.
\<close>

theorem lh_retrieve_refines:
  assumes "lh_wf lh" "hash_key (lh_hash lh) (lh_comp lh)"
  shows "lh_retrieve lh k = lh_map lh k"
  by (rule hash_key.lh_retrieve_map[OF assms(2,1) refl refl])

theorem lh_retrieve_refines_witness:
  "lh_retrieve \<lparr>lh_num_items = 0, lh_buckets = replicate 16 [], lh_num_buckets = 16,
      lh_callback_depth = 0, lh_comp = strcmp, lh_hash = OPENSSL_hash32\<rparr> [97] = None"
proof -
  let ?lh = "\<lparr>lh_num_items = 0, lh_buckets = replicate 16 [], lh_num_buckets = 16,
      lh_callback_depth = 0, lh_comp = strcmp, lh_hash = OPENSSL_hash32\<rparr>"
  have "lh_new (\<lambda>_. True) OPENSSL_hash32 strcmp = Some ?lh"
    by (simp add: lh_new_def OPENSSL_malloc_def Let_def kMinNumBuckets_def)
  then have "lh_wf ?lh \<and> lh_map ?lh = (\<lambda>_. None)" using lh_new_wf by blast
  moreover have "hash_key (lh_hash ?lh) (lh_comp ?lh)" using str_key.hash_key_axioms by simp
  ultimately show ?thesis using lh_retrieve_refines[of ?lh "[97]"] by simp
qed

end
