(* ===== verification/Stack.thy ===== *)
theory Stack
  imports Mem "HOL-Library.Multiset"
begin

text \<open>
  \<^verbatim>\<open>crypto/stack/stack.c\<close>: the growable array of pointers. A pointer is an \<open>'a option\<close>,
  \<open>None\<close> for NULL; a slot of the array is \<open>None\<close> when it was never written. A comparison
  function is a number (its address) looked up in \<open>env\<close>, since the code compares function
  pointers. \<^verbatim>\<open>qsort\<close> and \<^verbatim>\<open>bsearch\<close> are parameters, with what C promises of them as the locale
  \<open>libc_sort\<close>. A NULL stack is \<open>None\<close>.
\<close>

section \<open>The stack\<close>

type_synonym 'a ptr = "'a option"
type_synonym 'a cmp = "'a ptr \<Rightarrow> 'a ptr \<Rightarrow> int"
type_synonym 'a env = "nat \<Rightarrow> 'a cmp"

record 'a stack =
  st_num :: nat
  st_data :: "'a ptr option list"
  st_sorted :: bool
  st_num_alloc :: nat
  st_comp :: "nat option"

definition kMinSize :: nat where "kMinSize = 4"
definition sizeof_STACK :: nat where "sizeof_STACK = 40"
definition sizeof_voidp :: nat where "sizeof_voidp = 8"

definition sk_new :: "sys_malloc \<Rightarrow> nat option \<Rightarrow> 'a stack option" where
  "sk_new sys cmp =
     (if OPENSSL_malloc sys sizeof_STACK = None then None
      else if OPENSSL_malloc sys (size_mul sizeof_voidp kMinSize) = None then None
      else Some \<lparr>st_num = 0, st_data = replicate kMinSize (Some None), st_sorted = False,
             st_num_alloc = kMinSize, st_comp = cmp\<rparr>)"

definition sk_new_null :: "sys_malloc \<Rightarrow> 'a stack option" where
  "sk_new_null sys = sk_new sys None"

definition sk_num :: "'a stack option \<Rightarrow> nat" where
  "sk_num sk = (case sk of None \<Rightarrow> 0 | Some sk \<Rightarrow> st_num sk)"

text \<open>The pointer stored at index \<open>i\<close>.\<close>

definition st_get :: "'a stack \<Rightarrow> nat \<Rightarrow> 'a ptr" where
  "st_get sk i = the (st_data sk ! i)"

definition sk_zero :: "'a stack option \<Rightarrow> 'a stack option" where
  "sk_zero sk =
     (case sk of
        None \<Rightarrow> None
      | Some sk \<Rightarrow>
          if st_num sk = 0 then Some sk
          else Some (sk\<lparr>st_data := overwrite (st_data sk) 0 (replicate (st_num sk) (Some None)),
                  st_num := 0, st_sorted := False\<rparr>))"

definition sk_value :: "'a stack option \<Rightarrow> nat \<Rightarrow> 'a ptr" where
  "sk_value sk i =
     (case sk of
        None \<Rightarrow> None
      | Some sk \<Rightarrow> if i \<ge> st_num sk then None else st_get sk i)"

definition sk_set :: "'a stack option \<Rightarrow> nat \<Rightarrow> 'a ptr \<Rightarrow> 'a ptr \<times> 'a stack option" where
  "sk_set sk i v =
     (case sk of
        None \<Rightarrow> (None, None)
      | Some sk \<Rightarrow>
          if i \<ge> st_num sk then (None, Some sk)
          else (v, Some (sk\<lparr>st_data := (st_data sk)[i := Some v]\<rparr>)))"

text \<open>\<open>func\<close> acts on a state of its own; the stack is gone afterwards.\<close>

definition sk_pop_free :: "'a stack option \<Rightarrow> ('a \<Rightarrow> 's \<Rightarrow> 's) \<Rightarrow> 's \<Rightarrow> 's" where
  "sk_pop_free sk func s =
     (case sk of
        None \<Rightarrow> s
      | Some sk \<Rightarrow>
          foldl (\<lambda>s i. case st_get sk i of None \<Rightarrow> s | Some x \<Rightarrow> func x s) s [0..<st_num sk])"

section \<open>Insertion and deletion\<close>

text \<open>Growing the array: \<open>None\<close> for the early \<^verbatim>\<open>return 0\<close>.\<close>

definition sk_grow :: "sys_malloc \<Rightarrow> 'a stack \<Rightarrow> 'a stack option" where
  "sk_grow sys sk =
     (if st_num_alloc sk \<le> size_add (st_num sk) 1
      then let new_alloc = size_mul (st_num_alloc sk) 2;
               alloc_size = size_mul new_alloc sizeof_voidp;
               overflowed = (new_alloc < st_num_alloc sk \<or> alloc_size div sizeof_voidp \<noteq> new_alloc);
               new_alloc = (if overflowed then size_add (st_num_alloc sk) 1 else new_alloc);
               alloc_size = (if overflowed then size_mul new_alloc sizeof_voidp else alloc_size)
           in if new_alloc < st_num_alloc sk \<or> alloc_size div sizeof_voidp \<noteq> new_alloc then None
              else if OPENSSL_malloc sys alloc_size = None then None
              else Some (sk\<lparr>st_data := take new_alloc (st_data sk) @
                        replicate (new_alloc - length (st_data sk)) None,
                      st_num_alloc := new_alloc\<rparr>)
      else Some sk)"

definition sk_insert :: "sys_malloc \<Rightarrow> 'a stack option \<Rightarrow> 'a ptr \<Rightarrow> nat \<Rightarrow> nat \<times> 'a stack option" where
  "sk_insert sys sk p pos =
     (case sk of
        None \<Rightarrow> (0, None)
      | Some sk0 \<Rightarrow>
          (case sk_grow sys sk0 of
             None \<Rightarrow> (0, Some sk0)
           | Some sk \<Rightarrow>
               let data = (if pos \<ge> st_num sk then (st_data sk)[st_num sk := Some p]
                     else (overwrite (st_data sk) (pos + 1)
                            (take (st_num sk - pos) (drop pos (st_data sk))))[pos := Some p])
               in (size_add (st_num sk) 1,
                   Some (sk\<lparr>st_data := data, st_num := size_add (st_num sk) 1, st_sorted := False\<rparr>))))"

definition sk_delete :: "'a stack option \<Rightarrow> nat \<Rightarrow> 'a ptr \<times> 'a stack option" where
  "sk_delete sk pos =
     (case sk of
        None \<Rightarrow> (None, None)
      | Some sk \<Rightarrow>
          if pos \<ge> st_num sk then (None, Some sk)
          else let ret = st_get sk pos;
                   data = (if pos \<noteq> st_num sk - 1
                     then overwrite (st_data sk) pos
                            (take (st_num sk - pos - 1) (drop (pos + 1) (st_data sk)))
                     else st_data sk)
               in (ret, Some (sk\<lparr>st_data := data, st_num := st_num sk - 1\<rparr>)))"

text \<open>The first index below \<open>n\<close>, counted from \<open>i\<close> on, at which \<open>P\<close> holds.\<close>

fun first_index :: "(nat \<Rightarrow> bool) \<Rightarrow> nat \<Rightarrow> nat \<Rightarrow> nat option" where
  "first_index P i 0 = None"
| "first_index P i (Suc n) = (if P i then Some i else first_index P (Suc i) n)"

definition sk_delete_ptr :: "'a stack option \<Rightarrow> 'a ptr \<Rightarrow> 'a ptr \<times> 'a stack option" where
  "sk_delete_ptr sk p =
     (case sk of
        None \<Rightarrow> (None, None)
      | Some st \<Rightarrow>
          (case first_index (\<lambda>i. st_get st i = p) 0 (st_num st) of
             None \<Rightarrow> (None, Some st)
           | Some i \<Rightarrow> sk_delete sk i))"

definition sk_shift :: "'a stack option \<Rightarrow> 'a ptr \<times> 'a stack option" where
  "sk_shift sk =
     (case sk of
        None \<Rightarrow> (None, None)
      | Some st \<Rightarrow> if st_num st = 0 then (None, Some st) else sk_delete sk 0)"

text \<open>\<open>sk->num\<close> is read before \<open>sk\<close> is tested: no result for a NULL stack.\<close>

definition sk_push :: "sys_malloc \<Rightarrow> 'a stack option \<Rightarrow> 'a ptr \<Rightarrow> (nat \<times> 'a stack option) option" where
  "sk_push sys sk p = (case sk of None \<Rightarrow> None | Some st \<Rightarrow> Some (sk_insert sys sk p (st_num st)))"

definition sk_pop :: "'a stack option \<Rightarrow> 'a ptr \<times> 'a stack option" where
  "sk_pop sk =
     (case sk of
        None \<Rightarrow> (None, None)
      | Some st \<Rightarrow> if st_num st = 0 then (None, Some st) else sk_delete sk (st_num st - 1))"

definition sk_dup :: "sys_malloc \<Rightarrow> 'a stack option \<Rightarrow> 'a stack option" where
  "sk_dup sys sk =
     (case sk of
        None \<Rightarrow> None
      | Some st \<Rightarrow>
          (case sk_new sys (st_comp st) of
             None \<Rightarrow> None
           | Some ret \<Rightarrow>
               let alloc_size = size_mul sizeof_voidp (st_num_alloc st)
               in if OPENSSL_malloc sys alloc_size = None then None
                  else let n = alloc_size div sizeof_voidp;
                           s = take n (st_data ret) @ replicate (n - length (st_data ret)) None
                       in Some \<lparr>st_num = st_num st,
                            st_data = overwrite s 0 (take (st_num st) (st_data st)),
                            st_sorted = st_sorted st, st_num_alloc = st_num_alloc st,
                            st_comp = st_comp st\<rparr>))"

section \<open>Sorting and searching\<close>

type_synonym 'a qsort = "'a cmp \<Rightarrow> 'a ptr list \<Rightarrow> 'a ptr list"
type_synonym 'a bsearch = "'a cmp \<Rightarrow> 'a ptr \<Rightarrow> 'a ptr list \<Rightarrow> nat option"

text \<open>The elements, as the library functions see them.\<close>

definition st_elems :: "'a stack \<Rightarrow> 'a ptr list" where
  "st_elems sk = map the (take (st_num sk) (st_data sk))"

definition sk_sort :: "'a qsort \<Rightarrow> 'a env \<Rightarrow> 'a stack option \<Rightarrow> 'a stack option" where
  "sk_sort qsort env sk =
     (case sk of
        None \<Rightarrow> None
      | Some st \<Rightarrow>
          (case st_comp st of
             None \<Rightarrow> Some st
           | Some cmp \<Rightarrow>
               if st_sorted st then Some st
               else Some (st\<lparr>st_data := overwrite (st_data st) 0 (map Some (qsort (env cmp) (st_elems st))),
                       st_sorted := True\<rparr>)))"

definition sk_is_sorted :: "'a stack option \<Rightarrow> bool" where
  "sk_is_sorted sk = (case sk of None \<Rightarrow> True | Some st \<Rightarrow> st_sorted st)"

text \<open>The loop back to the first of the equal elements.\<close>

fun sk_find_first :: "'a cmp \<Rightarrow> 'a stack \<Rightarrow> 'a ptr \<Rightarrow> nat \<Rightarrow> nat" where
  "sk_find_first cmp sk p 0 = 0"
| "sk_find_first cmp sk p (Suc i) =
     (if cmp p (st_get sk i) = 0 then sk_find_first cmp sk p i else Suc i)"

text \<open>The result: \<open>*out_index\<close> on success, and the stack, which may have been sorted.\<close>

definition sk_find :: "'a qsort \<Rightarrow> 'a bsearch \<Rightarrow> 'a env \<Rightarrow> 'a stack option \<Rightarrow> 'a ptr \<Rightarrow> nat option \<times> 'a stack option" where
  "sk_find qsort bsearch env sk p =
     (case sk of
        None \<Rightarrow> (None, None)
      | Some st \<Rightarrow>
          (case st_comp st of
             None \<Rightarrow> (first_index (\<lambda>i. st_get st i = p) 0 (st_num st), Some st)
           | Some cmp \<Rightarrow>
               if p = None then (None, Some st)
               else let sk = sk_sort qsort env sk; st = the sk
                 in case bsearch (env cmp) p (st_elems st) of
                      None \<Rightarrow> (None, sk)
                    | Some idx \<Rightarrow> (Some (sk_find_first (env cmp) st p idx), sk)))"

definition sk_set_cmp_func :: "'a stack \<Rightarrow> nat option \<Rightarrow> nat option \<times> 'a stack" where
  "sk_set_cmp_func sk cmp =
     (let old = st_comp sk; sk = (if st_comp sk \<noteq> cmp then sk\<lparr>st_sorted := False\<rparr> else sk)
      in (old, sk\<lparr>st_comp := cmp\<rparr>))"

section \<open>Deep copies\<close>

text \<open>
  The loop of \<^verbatim>\<open>sk_deep_copy\<close>: the copies made, the pointers to go, and the callbacks' state;
  \<open>None\<close> when a copy failed, after the copies made were freed.
\<close>

fun deep_copy_loop ::
  "('a \<Rightarrow> 's \<Rightarrow> 'a ptr \<times> 's) \<Rightarrow> ('a \<Rightarrow> 's \<Rightarrow> 's) \<Rightarrow> 'a ptr list \<Rightarrow> 'a ptr list \<Rightarrow> 's \<Rightarrow>
    'a ptr list option \<times> 's" where
  "deep_copy_loop copy_func free_func copied [] s = (Some copied, s)"
| "deep_copy_loop copy_func free_func copied (None # rest) s =
     deep_copy_loop copy_func free_func (copied @ [None]) rest s"
| "deep_copy_loop copy_func free_func copied (Some x # rest) s =
     (case copy_func x s of
        (None, s) \<Rightarrow> (None, foldl (\<lambda>s p. case p of None \<Rightarrow> s | Some y \<Rightarrow> free_func y s) s copied)
      | (Some y, s) \<Rightarrow> deep_copy_loop copy_func free_func (copied @ [Some y]) rest s)"

definition sk_deep_copy ::
  "sys_malloc \<Rightarrow> 'a stack option \<Rightarrow> ('a \<Rightarrow> 's \<Rightarrow> 'a ptr \<times> 's) \<Rightarrow> ('a \<Rightarrow> 's \<Rightarrow> 's) \<Rightarrow> 's \<Rightarrow>
    'a stack option \<times> 's" where
  "sk_deep_copy sys sk copy_func free_func s =
     (case sk_dup sys sk of
        None \<Rightarrow> (None, s)
      | Some ret \<Rightarrow>
          (case deep_copy_loop copy_func free_func [] (st_elems ret) s of
             (None, s) \<Rightarrow> (None, s)
           | (Some copies, s) \<Rightarrow>
               (Some (ret\<lparr>st_data := overwrite (st_data ret) 0 (map Some copies)\<rparr>), s)))"

section \<open>The stack as a list\<close>

definition st_wf :: "'a stack \<Rightarrow> bool" where
  "st_wf st \<longleftrightarrow>
     st_num st < st_num_alloc st \<and> length (st_data st) = st_num_alloc st \<and> st_num_alloc st < 2 ^ 60 \<and>
     (\<forall>i < st_num st. st_data st ! i \<noteq> None)"

lemma st_wf_split:
  "st_wf st \<Longrightarrow> st_data st = map Some (st_elems st) @ drop (st_num st) (st_data st)"
proof -
  assume "st_wf st"
  then have "take (st_num st) (st_data st) = map Some (st_elems st)"
    by (intro nth_equalityI) (auto simp: st_wf_def st_elems_def)
  then show ?thesis by (metis append_take_drop_id)
qed

lemma length_st_elems: "st_wf st \<Longrightarrow> length (st_elems st) = st_num st"
  by (simp add: st_elems_def st_wf_def)

lemma st_get_elems: "st_wf st \<Longrightarrow> i < st_num st \<Longrightarrow> st_get st i = st_elems st ! i"
  by (simp add: st_get_def st_elems_def st_wf_def)

text \<open>Introducing a stack over a list, whatever is behind the elements.\<close>

lemma st_wfI:
  assumes "st_data st = map Some xs @ rest" "st_num st = length xs" "st_num st < st_num_alloc st"
    "length (st_data st) = st_num_alloc st" "st_num_alloc st < 2 ^ 60"
  shows "st_wf st \<and> st_elems st = xs"
  using assms by (simp add: st_wf_def st_elems_def nth_append comp_def)

text \<open>The array is full when one more element would leave no free slot; it then doubles, if there is memory.\<close>

definition st_full :: "'a stack \<Rightarrow> bool" where
  "st_full st \<longleftrightarrow> st_num_alloc st \<le> st_num st + 1"

lemma sk_grow_eq:
  assumes "st_wf st"
  shows "sk_grow sys st =
    (if \<not> st_full st then Some st
     else if sys (16 * st_num_alloc st + 8)
          then Some (st\<lparr>st_data := st_data st @ replicate (st_num_alloc st) None, st_num_alloc := 2 * st_num_alloc st\<rparr>)
          else None)"
proof -
  let ?n = "st_num_alloc st"
  have n: "?n < 2 ^ 60" "st_num st < ?n" "length (st_data st) = ?n" using assms by (auto simp: st_wf_def)
  have s: "size_add (st_num st) (Suc 0) = Suc (st_num st)" "size_mul ?n 2 = 2 * ?n" "size_mul (2 * ?n) 8 = 16 * ?n"
    using n by (simp_all add: size_add_def size_mul_def SIZE_MOD_def)
  have "16 * ?n + 8 < SIZE_MOD" using n(1) by (simp add: SIZE_MOD_def)
  from OPENSSL_malloc_Some[OF this, of sys] have "OPENSSL_malloc sys (16 * ?n) = None \<longleftrightarrow> \<not> sys (16 * ?n + 8)" by simp
  then show ?thesis using n by (simp add: sk_grow_def st_full_def s sizeof_voidp_def Let_def)
qed

lemma sk_grow_wf:
  assumes "st_wf st" "malloc_bounded sys" "sk_grow sys st = Some st'"
  shows "st_wf st' \<and> st_elems st' = st_elems st \<and> st_num st' = st_num st \<and>
    st_num st + 1 < st_num_alloc st' \<and> st_comp st' = st_comp st \<and>
    st_num_alloc st' = (if st_full st then 2 * st_num_alloc st else st_num_alloc st)"
proof (cases "st_full st")
  case False
  then show ?thesis using assms sk_grow_eq[OF assms(1), of sys] by (auto simp: st_full_def)
next
  case True
  let ?n = "st_num_alloc st"
  have n: "st_num st < ?n" "0 < ?n" "length (st_data st) = ?n" using assms(1) by (auto simp: st_wf_def)
  have g: "sys (16 * ?n + 8)" "st' = st\<lparr>st_data := st_data st @ replicate ?n None, st_num_alloc := 2 * ?n\<rparr>"
    using assms(3) sk_grow_eq[OF assms(1), of sys] True by (auto split: if_splits)
  have small: "2 * ?n < 2 ^ 60" using assms(2) g(1) by (auto simp: malloc_bounded_def)
  have "st_data st' = map Some (st_elems st) @ (drop (st_num st) (st_data st) @ replicate ?n None)"
    using st_wf_split[OF assms(1)] by (simp add: g(2))
  then have "st_wf st' \<and> st_elems st' = st_elems st"
    by (rule st_wfI) (use small n length_st_elems[OF assms(1)] in \<open>simp_all add: g(2)\<close>)
  then show ?thesis using n True by (simp add: g(2) st_full_def)
qed

lemma sk_insert_wf:
  assumes "st_wf st" "malloc_bounded sys"
  shows "case sk_insert sys (Some st) p pos of
      (n, None) \<Rightarrow> False
    | (n, Some st') \<Rightarrow>
        if st_full st \<and> \<not> sys (16 * st_num_alloc st + 8) then n = 0 \<and> st' = st
        else st_wf st' \<and> n = length (st_elems st) + 1 \<and> st_comp st' = st_comp st \<and> \<not> st_sorted st' \<and>
          st_elems st' = take pos (st_elems st) @ p # drop pos (st_elems st) \<and>
          st_num_alloc st' = (if st_full st then 2 * st_num_alloc st else st_num_alloc st)"
proof (cases "sk_grow sys st")
  case None
  then show ?thesis using sk_grow_eq[OF assms(1), of sys] by (simp add: sk_insert_def split: if_splits)
next
  case (Some s)
  have mem: "\<not> (st_full st \<and> \<not> sys (16 * st_num_alloc st + 8))"
    using Some sk_grow_eq[OF assms(1), of sys] by (auto split: if_splits)
  note g = sk_grow_wf[OF assms Some]
  let ?xs = "st_elems st"
  have wf: "st_wf s" "st_elems s = ?xs" "st_num s + 1 < st_num_alloc s" "length ?xs = st_num s"
    using g length_st_elems[OF assms(1)] by simp_all
  obtain r rest where d: "st_data s = map Some ?xs @ r # rest"
  proof -
    have "drop (st_num s) (st_data s) \<noteq> []" using wf by (simp add: st_wf_def)
    then obtain r rest where "drop (st_num s) (st_data s) = r # rest" by (meson neq_Nil_conv)
    then show ?thesis using that st_wf_split[OF wf(1)] wf(2) by metis
  qed
  let ?data = "if pos \<ge> st_num s then (st_data s)[st_num s := Some p]
    else (overwrite (st_data s) (pos + 1) (take (st_num s - pos) (drop pos (st_data s))))[pos := Some p]"
  have data: "?data = map Some (take pos ?xs @ p # drop pos ?xs) @ rest"
  proof (cases "pos \<ge> st_num s")
    case True
    then show ?thesis using d wf(4) by (simp add: list_update_append)
  next
    case False
    have "overwrite (st_data s) (pos + 1) (take (st_num s - pos) (drop pos (st_data s)))
        = take (pos + 1) (map Some ?xs) @ map Some (drop pos ?xs) @ rest"
      using False wf(4) by (simp add: d overwrite_def take_map drop_map)
    also have "\<dots>[pos := Some p] = map Some (take pos ?xs @ p # drop pos ?xs) @ rest"
      using False wf(4) by (simp add: list_update_append take_map take_Suc_conv_app_nth)
    finally show ?thesis using False by simp
  qed
  have sz: "size_add (st_num s) 1 = st_num s + 1"
    using wf(1,3) by (simp add: size_add_def SIZE_MOD_def st_wf_def)
  let ?s = "s\<lparr>st_data := ?data, st_num := st_num s + 1, st_sorted := False\<rparr>"
  have "length (st_data s) = st_num_alloc s" "st_num_alloc s < 2 ^ 60" using wf(1) by (simp_all add: st_wf_def)
  then have "st_wf ?s \<and> st_elems ?s = take pos ?xs @ p # drop pos ?xs"
    using wf(3,4) data d by (intro st_wfI) simp_all
  moreover have "sk_insert sys (Some st) p pos = (st_num s + 1, Some ?s)"
    using Some sz by (simp add: sk_insert_def)
  ultimately show ?thesis using g wf(4) mem by simp
qed

lemma sk_delete_wf:
  assumes "st_wf st"
  shows "case sk_delete (Some st) pos of
      (ret, None) \<Rightarrow> False
    | (ret, Some st') \<Rightarrow>
        if pos < length (st_elems st)
        then ret = st_elems st ! pos \<and> st_wf st' \<and>
          st_elems st' = take pos (st_elems st) @ drop (Suc pos) (st_elems st) \<and>
          st_sorted st' = st_sorted st \<and> st_comp st' = st_comp st
        else ret = None \<and> st' = st"
proof (cases "pos < st_num st")
  case False
  then show ?thesis using length_st_elems[OF assms] by (simp add: sk_delete_def)
next
  case True
  let ?xs = "st_elems st"
  obtain rest where d: "st_data st = map Some ?xs @ rest" using st_wf_split[OF assms] by blast
  have len: "length ?xs = st_num st" by (rule length_st_elems[OF assms])
  let ?data = "if pos \<noteq> st_num st - 1
    then overwrite (st_data st) pos (take (st_num st - pos - 1) (drop (pos + 1) (st_data st))) else st_data st"
  let ?s = "st\<lparr>st_data := ?data, st_num := st_num st - 1\<rparr>"
  have "\<exists>r. ?data = map Some (take pos ?xs @ drop (Suc pos) ?xs) @ r"
  proof (cases "pos = st_num st - 1")
    case True
    then have "drop (Suc pos) ?xs = []" using len by simp
    moreover have "?xs = take pos ?xs @ drop pos ?xs" by simp
    ultimately show ?thesis using True d by (metis append.assoc append_Nil2 map_append)
  next
    case False
    have "overwrite (st_data st) pos (take (st_num st - pos - 1) (drop (pos + 1) (st_data st)))
        = map Some (take pos ?xs @ drop (Suc pos) ?xs) @ map Some (drop (st_num st - 1) ?xs) @ rest"
      using \<open>pos < st_num st\<close> len by (simp add: d overwrite_def take_map drop_map min_def)
    then show ?thesis using False by auto
  qed
  then obtain r where r: "?data = map Some (take pos ?xs @ drop (Suc pos) ?xs) @ r" by blast
  have "length ?data = length (st_data st)"
    using True assms by (auto simp: st_wf_def)
  then have "st_wf ?s \<and> st_elems ?s = take pos ?xs @ drop (Suc pos) ?xs"
    using True assms len r by (intro st_wfI[where rest=r]) (auto simp: st_wf_def)
  then show ?thesis using True len st_get_elems[OF assms True] by (simp add: sk_delete_def)
qed

section \<open>What the C library owes \<^verbatim>\<open>sk_find\<close>\<close>

text \<open>A comparison function that is a total preorder, as C demands of it.\<close>

definition cmp_total :: "'a cmp \<Rightarrow> bool" where
  "cmp_total cmp \<longleftrightarrow>
     (\<forall>a b. cmp a b < 0 \<longleftrightarrow> cmp b a > 0) \<and> (\<forall>a b c. cmp a b \<le> 0 \<longrightarrow> cmp b c \<le> 0 \<longrightarrow> cmp a c \<le> 0)"

definition cmp_sorted :: "'a cmp \<Rightarrow> 'a ptr list \<Rightarrow> bool" where
  "cmp_sorted cmp xs \<longleftrightarrow> sorted_wrt (\<lambda>a b. cmp a b \<le> 0) xs"

lemma cmp_total_flip: "cmp_total cmp \<Longrightarrow> cmp a b \<le> 0 \<longleftrightarrow> 0 \<le> cmp b a"
  by (metis cmp_total_def not_le)

lemma cmp_total_eq: "cmp_total cmp \<Longrightarrow> cmp a b = 0 \<longleftrightarrow> cmp b a = 0"
  using cmp_total_flip[of cmp a b] cmp_total_flip[of cmp b a] by auto

lemma cmp_total_trans: "cmp_total cmp \<Longrightarrow> cmp a b \<le> 0 \<Longrightarrow> cmp b c \<le> 0 \<Longrightarrow> cmp a c \<le> 0"
  unfolding cmp_total_def by blast

lemma cmp_sorted_nth:
  "cmp_total cmp \<Longrightarrow> cmp_sorted cmp xs \<Longrightarrow> i \<le> j \<Longrightarrow> j < length xs \<Longrightarrow> cmp (xs ! i) (xs ! j) \<le> 0"
  using cmp_total_flip[of cmp "xs ! i" "xs ! i"]
  by (cases "i = j") (auto simp: cmp_sorted_def sorted_wrt_iff_nth_less)

locale libc_sort =
  fixes qsort :: "'a qsort" and bsearch :: "'a bsearch"
  assumes qsort_mset: "cmp_total cmp \<Longrightarrow> mset (qsort cmp xs) = mset xs"
    and qsort_sorted: "cmp_total cmp \<Longrightarrow> cmp_sorted cmp (qsort cmp xs)"
    and bsearch_Some: "cmp_total cmp \<Longrightarrow> cmp_sorted cmp xs \<Longrightarrow> bsearch cmp p xs = Some i \<Longrightarrow>
      i < length xs \<and> cmp p (xs ! i) = 0"
    and bsearch_None: "cmp_total cmp \<Longrightarrow> cmp_sorted cmp xs \<Longrightarrow> bsearch cmp p xs = None \<Longrightarrow>
      x \<in> set xs \<Longrightarrow> cmp p x \<noteq> 0"
begin

lemma sk_sort_wf:
  assumes "st_wf st" "st_comp st = Some c" "cmp_total (env c)"
    "st_sorted st \<longrightarrow> cmp_sorted (env c) (st_elems st)"
  obtains st' where "sk_sort qsort env (Some st) = Some st'" "st_wf st'" "st_comp st' = Some c"
    "st_sorted st'" "mset (st_elems st') = mset (st_elems st)" "cmp_sorted (env c) (st_elems st')"
proof (cases "st_sorted st")
  case True
  then show ?thesis using assms that[of st] by (simp add: sk_sort_def)
next
  case False
  let ?ys = "qsort (env c) (st_elems st)"
  let ?s = "st\<lparr>st_data := overwrite (st_data st) 0 (map Some ?ys), st_sorted := True\<rparr>"
  have l: "length ?ys = st_num st"
    using qsort_mset[OF assms(3), of "st_elems st"] length_st_elems[OF assms(1)] by (metis mset_eq_length)
  have "st_data ?s = map Some ?ys @ drop (st_num st) (st_data st)"
    using l by (simp add: overwrite_def)
  then have "st_wf ?s \<and> st_elems ?s = ?ys"
    by (rule st_wfI) (use assms(1) l in \<open>auto simp: st_wf_def\<close>)
  then show ?thesis
    using False assms(2) qsort_mset[OF assms(3)] qsort_sorted[OF assms(3)] that[of ?s]
    by (simp add: sk_sort_def)
qed

lemma sk_find_first_spec:
  assumes "st_wf st" "cmp_total cmp" "cmp_sorted cmp (st_elems st)" "i < length (st_elems st)"
    "cmp p (st_elems st ! i) = 0"
  shows "let k = sk_find_first cmp st p i in
    k < length (st_elems st) \<and> cmp p (st_elems st ! k) = 0 \<and> (\<forall>j<k. cmp p (st_elems st ! j) \<noteq> 0)"
  using assms(4,5)
proof (induction i)
  case 0
  then show ?case by simp
next
  case (Suc i)
  have i: "i < st_num st" using Suc.prems(1) length_st_elems[OF assms(1)] by simp
  show ?case
  proof (cases "cmp p (st_get st i) = 0")
    case True
    then show ?thesis using Suc st_get_elems[OF assms(1) i] by simp
  next
    case False
    then have ne: "cmp p (st_elems st ! i) \<noteq> 0" using st_get_elems[OF assms(1) i] by simp
    have "cmp p (st_elems st ! j) \<noteq> 0" if "j < Suc i" for j
    proof
      assume j: "cmp p (st_elems st ! j) = 0"
      have "cmp (st_elems st ! j) (st_elems st ! i) \<le> 0"
        using that Suc.prems(1) by (intro cmp_sorted_nth[OF assms(2,3)]) simp_all
      then have le: "cmp p (st_elems st ! i) \<le> 0" using j cmp_total_trans[OF assms(2), of p "st_elems st ! j"] by simp
      have "cmp (st_elems st ! i) (st_elems st ! Suc i) \<le> 0"
        using Suc.prems(1) by (intro cmp_sorted_nth[OF assms(2,3)]) simp_all
      moreover have "cmp (st_elems st ! Suc i) p \<le> 0"
        using Suc.prems(2) cmp_total_eq[OF assms(2), of p] by simp
      ultimately have "cmp (st_elems st ! i) p \<le> 0" using cmp_total_trans[OF assms(2)] by blast
      then show False using le ne cmp_total_flip[OF assms(2)] by force
    qed
    then show ?thesis using False Suc.prems by simp
  qed
qed

lemma sk_find_spec:
  assumes "st_wf st" "st_comp st = Some c" "cmp_total (env c)"
    "st_sorted st \<longrightarrow> cmp_sorted (env c) (st_elems st)" "p \<noteq> None"
  shows "case sk_find qsort bsearch env (Some st) p of
      (r, None) \<Rightarrow> False
    | (r, Some st') \<Rightarrow> st_wf st' \<and> mset (st_elems st') = mset (st_elems st) \<and>
        st_sorted st' \<and> cmp_sorted (env c) (st_elems st') \<and>
        (case r of
           None \<Rightarrow> \<forall>x\<in>set (st_elems st). env c p x \<noteq> 0
         | Some i \<Rightarrow> i < length (st_elems st') \<and> env c p (st_elems st' ! i) = 0 \<and>
             (\<forall>j<i. env c p (st_elems st' ! j) \<noteq> 0))"
proof -
  from sk_sort_wf[where env=env, OF assms(1-4)] obtain st' where s: "sk_sort qsort env (Some st) = Some st'" "st_wf st'"
    "st_sorted st'" "mset (st_elems st') = mset (st_elems st)" "cmp_sorted (env c) (st_elems st')"
    by metis
  obtain y where p: "p = Some y" using assms(5) by auto
  show ?thesis
  proof (cases "bsearch (env c) p (st_elems st')")
    case None
    then have "\<forall>x\<in>set (st_elems st). env c p x \<noteq> 0"
      using bsearch_None[OF assms(3) s(5) None] mset_eq_setD[OF s(4)] by auto
    then show ?thesis using None s assms(2) by (simp add: sk_find_def p)
  next
    case (Some i)
    from bsearch_Some[OF assms(3) s(5) Some]
    have "i < length (st_elems st')" "env c p (st_elems st' ! i) = 0" by simp_all
    then show ?thesis using Some s assms(2) sk_find_first_spec[OF s(2) assms(3) s(5)]
      by (simp add: sk_find_def Let_def p)
  qed
qed

end

section \<open>A C library that keeps its promises\<close>

fun insort_by :: "'a cmp \<Rightarrow> 'a ptr \<Rightarrow> 'a ptr list \<Rightarrow> 'a ptr list" where
  "insort_by cmp x [] = [x]"
| "insort_by cmp x (y # ys) = (if cmp x y \<le> 0 then x # y # ys else y # insort_by cmp x ys)"

definition insertion_sort :: "'a qsort" where
  "insertion_sort cmp xs = foldr (insort_by cmp) xs []"

function binary_search :: "'a cmp \<Rightarrow> 'a ptr \<Rightarrow> 'a ptr list \<Rightarrow> nat \<Rightarrow> nat \<Rightarrow> nat option" where
  "binary_search cmp p xs lo hi =
     (if lo \<ge> hi then None
      else let mid = (lo + hi) div 2; r = cmp p (xs ! mid)
        in if r = 0 then Some mid
           else if r < 0 then binary_search cmp p xs lo mid
           else binary_search cmp p xs (mid + 1) hi)"
  by pat_completeness auto

termination
  by (relation "measure (\<lambda>(cmp, p, xs, lo, hi). hi - lo)") auto

declare binary_search.simps [simp del]

definition bsearch_array :: "'a bsearch" where
  "bsearch_array cmp p xs = binary_search cmp p xs 0 (length xs)"

lemma mset_insort_by [simp]: "mset (insort_by cmp x ys) = add_mset x (mset ys)"
  by (induction ys) simp_all

lemma set_insort_by [simp]: "set (insort_by cmp x ys) = insert x (set ys)"
  by (induction ys) auto

lemma sorted_insort_by:
  assumes "cmp_total cmp"
  shows "cmp_sorted cmp ys \<Longrightarrow> cmp_sorted cmp (insort_by cmp x ys)"
proof (induction ys)
  case Nil
  then show ?case by (simp add: cmp_sorted_def)
next
  case (Cons y ys)
  show ?case
  proof (cases "cmp x y \<le> 0")
    case True
    then show ?thesis using Cons.prems cmp_total_trans[OF assms True] by (auto simp: cmp_sorted_def)
  next
    case False
    then have "cmp y x \<le> 0" using cmp_total_flip[OF assms, of y x] by simp
    then show ?thesis using Cons False by (simp add: cmp_sorted_def)
  qed
qed

lemma binary_search_Some:
  "binary_search cmp p xs lo hi = Some i \<Longrightarrow> hi \<le> length xs \<Longrightarrow> i < length xs \<and> cmp p (xs ! i) = 0"
  by (induction cmp p xs lo hi rule: binary_search.induct)
    (subst (asm) (3) binary_search.simps, auto simp: Let_def split: if_splits)

lemma binary_search_None:
  assumes "cmp_total cmp" "cmp_sorted cmp xs"
  shows "binary_search cmp p xs lo hi = None \<Longrightarrow> hi \<le> length xs \<Longrightarrow> lo \<le> i \<Longrightarrow> i < hi \<Longrightarrow>
    cmp p (xs ! i) \<noteq> 0"
proof (induction "hi - lo" arbitrary: lo hi rule: less_induct)
  case less
  let ?m = "(lo + hi) div 2"
  have m: "lo \<le> ?m" "?m < hi" "?m < length xs" using less.prems by auto
  have r: "cmp p (xs ! ?m) \<noteq> 0" "cmp p (xs ! ?m) < 0 \<Longrightarrow> binary_search cmp p xs lo ?m = None"
    "\<not> cmp p (xs ! ?m) < 0 \<Longrightarrow> binary_search cmp p xs (?m + 1) hi = None"
    using less.prems m by (subst (asm) binary_search.simps; simp add: Let_def split: if_splits)+
  show ?case
  proof (cases "cmp p (xs ! ?m) < 0")
    case True
    show ?thesis
    proof (cases "i < ?m")
      case True
      then show ?thesis using less m r(2) \<open>cmp p (xs ! ?m) < 0\<close> by (intro less.hyps[of ?m lo]) auto
    next
      case False
      have "cmp (xs ! ?m) (xs ! i) \<le> 0"
        using False less.prems by (intro cmp_sorted_nth[OF assms]) simp_all
      then have "\<not> cmp (xs ! i) p \<le> 0"
        using True cmp_total_trans[OF assms(1), of "xs ! ?m" "xs ! i" p] cmp_total_flip[OF assms(1), of "xs ! ?m" p]
        by auto
      then show ?thesis using cmp_total_eq[OF assms(1)] by force
    qed
  next
    case ge: False
    show ?thesis
    proof (cases "?m < i")
      case True
      then show ?thesis using less m r(3)[OF ge] by (intro less.hyps[of hi "?m + 1"]) auto
    next
      case False
      have "cmp (xs ! i) (xs ! ?m) \<le> 0"
        using False m by (intro cmp_sorted_nth[OF assms]) simp_all
      then have "\<not> cmp p (xs ! i) \<le> 0"
        using ge r(1) cmp_total_trans[OF assms(1), of p "xs ! i" "xs ! ?m"] by auto
      then show ?thesis by simp
    qed
  qed
qed

interpretation ref_sort: libc_sort insertion_sort bsearch_array
proof
  fix cmp :: "'a cmp" and xs p i x
  assume t: "cmp_total cmp"
  show "mset (insertion_sort cmp xs) = mset xs"
    by (induction xs) (simp_all add: insertion_sort_def)
  show "cmp_sorted cmp (insertion_sort cmp xs)"
    by (induction xs) (simp_all add: insertion_sort_def sorted_insort_by[OF t], simp add: cmp_sorted_def)
  assume s: "cmp_sorted cmp xs"
  show "bsearch_array cmp p xs = Some i \<Longrightarrow> i < length xs \<and> cmp p (xs ! i) = 0"
    by (simp add: bsearch_array_def binary_search_Some)
  show "bsearch_array cmp p xs = None \<Longrightarrow> x \<in> set xs \<Longrightarrow> cmp p x \<noteq> 0"
    using binary_search_None[OF t s, of p 0 "length xs"] by (auto simp: bsearch_array_def in_set_conv_nth)
qed

text \<open>Comparison of pointers by the number they point to, NULL first.\<close>

definition nat_cmp :: "nat cmp" where
  "nat_cmp a b = (case a of None \<Rightarrow> - 1 | Some x \<Rightarrow> int x) - (case b of None \<Rightarrow> - 1 | Some y \<Rightarrow> int y)"

lemma nat_cmp_total: "cmp_total nat_cmp"
  by (auto simp: cmp_total_def nat_cmp_def)

section \<open>What the stack guarantees\<close>

text \<open>
  Property C35: \<^verbatim>\<open>sk_insert\<close> (and so \<^verbatim>\<open>sk_push\<close>) is list insertion. It puts the pointer in front
  of position \<open>pos\<close>, or at the end when \<open>pos\<close> is past it, returns the new length and clears the sorted
  flag. A full array is first doubled, any other keeps its size, so there is always room for the write. It returns 0 and changes
  nothing exactly when the array is full and the system refuses twice the memory.
\<close>

theorem sk_insert_refines:
  assumes "st_wf st" "malloc_bounded sys"
  shows "(case sk_insert sys (Some st) p pos of
      (n, None) \<Rightarrow> False
    | (n, Some st') \<Rightarrow>
        if st_full st \<and> \<not> sys (16 * st_num_alloc st + 8) then n = 0 \<and> st' = st
        else st_wf st' \<and> n = length (st_elems st) + 1 \<and> st_comp st' = st_comp st \<and> \<not> st_sorted st' \<and>
          st_elems st' = take pos (st_elems st) @ p # drop pos (st_elems st) \<and>
          st_num_alloc st' = (if st_full st then 2 * st_num_alloc st else st_num_alloc st)) \<and>
    sk_push sys (Some st) p = Some (sk_insert sys (Some st) p (length (st_elems st)))"
  using sk_insert_wf[OF assms] length_st_elems[OF assms(1)] by (simp add: sk_push_def)

theorem sk_insert_refines_witness:
  "case sk_insert (\<lambda>n. n < 1000) (Some \<lparr>st_num = 3, st_data = [Some (Some 1), Some (Some 2), Some (Some (3 :: nat)), None],
      st_sorted = True, st_num_alloc = 4, st_comp = None\<rparr>) (Some 9) 1 of
      (n, None) \<Rightarrow> False
    | (n, Some st') \<Rightarrow> n = 4 \<and> st_wf st' \<and> st_comp st' = None \<and> \<not> st_sorted st' \<and>
        st_elems st' = [Some 1, Some 9, Some 2, Some 3] \<and> st_num_alloc st' = 8"
proof -
  let ?st = "\<lparr>st_num = 3, st_data = [Some (Some 1), Some (Some 2), Some (Some (3 :: nat)), None],
      st_sorted = True, st_num_alloc = 4, st_comp = None\<rparr>"
  have "st_wf ?st" by (auto simp: st_wf_def less_Suc_eq numeral_3_eq_3)
  moreover have "malloc_bounded (\<lambda>n. n < 1000)" by (simp add: malloc_bounded_def)
  moreover have "st_elems ?st = [Some 1, Some 2, Some 3]" by (simp add: st_elems_def)
  ultimately show ?thesis
    using sk_insert_refines[where st="?st" and sys="\<lambda>n. n < 1000" and p="Some 9" and pos=1]
    by (auto simp: st_full_def split: prod.splits option.splits)
qed

text \<open>
  Property C36: \<^verbatim>\<open>sk_delete\<close> (and so \<^verbatim>\<open>sk_pop\<close> and \<^verbatim>\<open>sk_shift\<close>) removes and returns exactly the
  element at its index, moving the later ones down, and keeps the sorted flag; out of range it
  returns NULL and changes nothing.
\<close>

theorem sk_delete_refines:
  assumes "st_wf st"
  shows "case sk_delete (Some st) pos of
      (ret, None) \<Rightarrow> False
    | (ret, Some st') \<Rightarrow>
        if pos < length (st_elems st)
        then ret = st_elems st ! pos \<and> st_wf st' \<and>
          st_elems st' = take pos (st_elems st) @ drop (Suc pos) (st_elems st) \<and>
          st_sorted st' = st_sorted st \<and> st_comp st' = st_comp st
        else ret = None \<and> st' = st"
  by (rule sk_delete_wf[OF assms])

theorem sk_delete_refines_witness:
  "case sk_delete (Some \<lparr>st_num = 3, st_data = [Some (Some 1), Some (Some 2), Some (Some (3 :: nat)), None],
      st_sorted = True, st_num_alloc = 4, st_comp = None\<rparr>) 1 of
      (ret, None) \<Rightarrow> False
    | (ret, Some st') \<Rightarrow> ret = Some 2 \<and> st_wf st' \<and> st_elems st' = [Some 1, Some 3] \<and>
        st_sorted st' = True \<and> st_comp st' = None"
proof -
  let ?st = "\<lparr>st_num = 3, st_data = [Some (Some 1), Some (Some 2), Some (Some (3 :: nat)), None],
      st_sorted = True, st_num_alloc = 4, st_comp = None\<rparr>"
  have "st_wf ?st" by (auto simp: st_wf_def less_Suc_eq numeral_3_eq_3)
  moreover have "st_elems ?st = [Some 1, Some 2, Some 3]" by (simp add: st_elems_def)
  ultimately show ?thesis
    using sk_delete_refines[of ?st 1] by (auto split: prod.splits option.splits)
qed

text \<open>
  \<^verbatim>\<open>sk_find\<close> with a comparison function. If the sorted flag tells the truth, the
  comparison is a total preorder and \<^verbatim>\<open>qsort\<close> and \<^verbatim>\<open>bsearch\<close> keep their contract, then it
  finds an element equal to \<open>p\<close> if and only if there is one; the index it reports is the first
  of the equal elements in the stack it leaves, which is sorted and a permutation of the old one.
\<close>

theorem sk_find_first_match:
  assumes "libc_sort qsort bsearch" "st_wf st" "st_comp st = Some c" "cmp_total (env c)"
    "st_sorted st \<longrightarrow> cmp_sorted (env c) (st_elems st)" "p \<noteq> None"
  shows "case sk_find qsort bsearch env (Some st) p of
      (r, None) \<Rightarrow> False
    | (r, Some st') \<Rightarrow> st_wf st' \<and> mset (st_elems st') = mset (st_elems st) \<and>
        st_sorted st' \<and> cmp_sorted (env c) (st_elems st') \<and>
        (case r of
           None \<Rightarrow> \<forall>x\<in>set (st_elems st). env c p x \<noteq> 0
         | Some i \<Rightarrow> i < length (st_elems st') \<and> env c p (st_elems st' ! i) = 0 \<and>
             (\<forall>j<i. env c p (st_elems st' ! j) \<noteq> 0))"
  by (rule libc_sort.sk_find_spec[where env=env and c=c, OF assms])

theorem sk_find_first_match_witness:
  "case sk_find insertion_sort bsearch_array (\<lambda>_. nat_cmp)
      (Some \<lparr>st_num = 3, st_data = [Some (Some 2), Some (Some 1), Some (Some 2), None],
      st_sorted = False, st_num_alloc = 4, st_comp = Some 0\<rparr>) (Some 2) of
      (r, None) \<Rightarrow> False
    | (r, Some st') \<Rightarrow> st_wf st' \<and> mset (st_elems st') = {#Some 2, Some 1, Some 2#} \<and>
        st_sorted st' \<and> cmp_sorted nat_cmp (st_elems st') \<and>
        (case r of
           None \<Rightarrow> \<forall>x\<in>{Some 1, Some 2}. nat_cmp (Some 2) x \<noteq> 0
         | Some i \<Rightarrow> i < length (st_elems st') \<and> nat_cmp (Some 2) (st_elems st' ! i) = 0 \<and>
             (\<forall>j<i. nat_cmp (Some 2) (st_elems st' ! j) \<noteq> 0))"
proof -
  let ?st = "\<lparr>st_num = 3, st_data = [Some (Some 2), Some (Some 1), Some (Some 2), None],
      st_sorted = False, st_num_alloc = 4, st_comp = Some 0\<rparr>"
  have wf: "st_wf ?st" by (auto simp: st_wf_def less_Suc_eq numeral_3_eq_3)
  have el: "st_elems ?st = [Some 2, Some 1, Some 2]" by (simp add: st_elems_def)
  have s: "mset [Some 2, Some 1, Some 2] = {#Some 2, Some 1, Some (2 :: nat)#}"
    "set [Some 2, Some 1, Some 2] = {Some 1, Some (2 :: nat)}" by auto
  have l: "libc_sort insertion_sort (bsearch_array :: nat bsearch)" by (rule ref_sort.libc_sort_axioms)
  have c: "st_comp ?st = Some 0" "st_sorted ?st \<longrightarrow> cmp_sorted nat_cmp (st_elems ?st)" "Some (2 :: nat) \<noteq> None"
    by simp_all
  from sk_find_first_match[where env="\<lambda>_. nat_cmp" and c=0, OF l wf c(1) nat_cmp_total c(2,3), unfolded el s]
  show ?thesis .
qed

text \<open>
  \<^verbatim>\<open>sk_set\<close> leaves the sorted flag set although it may break the order, contrary to
  what the header says of the flag: on a sorted stack of 1, 2, 3 whose first element is then
  set to 9, the stack still counts as sorted and \<^verbatim>\<open>sk_find\<close> does not find the 9 that is there.
\<close>

theorem sk_set_stale_sorted:
  "let sk = Some \<lparr>st_num = 3, st_data = [Some (Some 1), Some (Some 2), Some (Some 3), None],
         st_sorted = True, st_num_alloc = 4, st_comp = Some 0\<rparr>;
       sk' = snd (sk_set sk 0 (Some 9))
   in cmp_sorted nat_cmp (st_elems (the sk)) \<and> sk_is_sorted sk' \<and> sk_value sk' 0 = Some 9 \<and>
      fst (sk_find insertion_sort bsearch_array (\<lambda>_. nat_cmp) sk' (Some 9)) = None"
  by (simp add: sk_set_def sk_is_sorted_def sk_value_def st_get_def st_elems_def cmp_sorted_def
      nat_cmp_def sk_find_def sk_sort_def bsearch_array_def binary_search.simps Let_def)

end
