(* ===== verification/Bio_Base.thy ===== *)
theory Bio_Base
  imports Buf "HOL-Library.Monad_Syntax"
begin

text \<open>
  The objects of the BIO layer: \<^verbatim>\<open>struct bio_st\<close> of \<^verbatim>\<open>include/openssl/bio.h\<close>, the private
  structs behind its \<open>ptr\<close> field (\<^verbatim>\<open>struct bio_bio_st\<close> of \<^verbatim>\<open>crypto/bio/pair.c\<close>, the \<open>BUF_MEM\<close>
  of \<^verbatim>\<open>crypto/bio/bio_mem.c\<close>) and the flag operations of \<^verbatim>\<open>crypto/bio/bio.c\<close>.

  BIOs refer to each other (the peer of a pair, the next BIO of a chain), so the state is a
  heap from addresses to BIOs; \<open>None\<close> is an address that holds none. The struct behind
  \<open>ptr\<close> belongs to one BIO and is stored in it. A function returns \<open>None\<close> where the code
  would fail an assertion, follow a bad pointer or not return.
\<close>

section \<open>Conversions between \<open>int\<close>, \<open>long\<close> and \<open>size_t\<close>\<close>

definition size_of_int :: "int \<Rightarrow> nat" where
  "size_of_int i = unat (word_of_int i :: u64)"

definition int_of_size :: "nat \<Rightarrow> int" where
  "int_of_size n = sint (of_nat n :: u32)"

definition long_of_size :: "nat \<Rightarrow> int" where
  "long_of_size n = sint (of_nat n :: u64)"

lemma size_of_int_nonneg: "0 \<le> i \<Longrightarrow> i \<le> int INT_MAX \<Longrightarrow> size_of_int i = nat i"
  by (simp add: size_of_int_def INT_MAX_def unsigned_of_int nat_take_bit_eq take_bit_nat_eq_self_iff)

lemma int_of_size_small: "n \<le> INT_MAX \<Longrightarrow> int_of_size n = int n"
  by (simp add: int_of_size_def INT_MAX_def signed_of_nat signed_take_bit_int_eq_self)

lemma long_of_size_small: "n < 2 ^ 63 \<Longrightarrow> long_of_size n = int n"
  by (simp add: long_of_size_def signed_of_nat signed_take_bit_int_eq_self)

section \<open>The structs\<close>

record bio_bio =
  peer :: "nat option"
  closed :: bool
  bp_len :: nat
  bp_offset :: nat
  bp_size :: nat
  bp_buf :: "cell list option"
  bp_request :: nat

text \<open>
  A memory BIO's \<open>data\<close> pointer moves inside its block when the BIO is read-only:
  \<open>mb_skip\<close> is how far.
\<close>

record mem_bio =
  mb_mem :: BUF_MEM
  mb_skip :: nat

datatype bio_ptr = PtrNull | PtrPair bio_bio | PtrMem mem_bio

text \<open>The two method tables, \<^verbatim>\<open>methods_biop\<close> and \<^verbatim>\<open>mem_method\<close>.\<close>

datatype bio_method = methods_biop | mem_method

record BIO =
  bio_method :: "bio_method option"
  bio_init :: bool
  bio_shutdown :: int
  bio_flags :: u32
  bio_retry_reason :: int
  bio_num :: int
  bio_references :: nat
  bio_ptr :: bio_ptr
  bio_next :: "nat option"
  bio_num_read :: nat
  bio_num_write :: nat

type_synonym bio_heap = "nat \<Rightarrow> BIO option"

definition upd_bio :: "bio_heap \<Rightarrow> nat \<Rightarrow> (BIO \<Rightarrow> BIO) \<Rightarrow> bio_heap" where
  "upd_bio w i f = w(i := map_option f (w i))"

definition get_pair :: "bio_heap \<Rightarrow> nat \<Rightarrow> bio_bio option" where
  "get_pair w i = do { b \<leftarrow> w i; case bio_ptr b of PtrPair p \<Rightarrow> Some p | _ \<Rightarrow> None }"

definition put_pair :: "bio_heap \<Rightarrow> nat \<Rightarrow> bio_bio \<Rightarrow> bio_heap" where
  "put_pair w i p = upd_bio w i (\<lambda>b. b\<lparr>bio_ptr := PtrPair p\<rparr>)"

section \<open>Flags\<close>

definition BIO_FLAGS_READ :: u32 where "BIO_FLAGS_READ = 0x01"
definition BIO_FLAGS_WRITE :: u32 where "BIO_FLAGS_WRITE = 0x02"
definition BIO_FLAGS_IO_SPECIAL :: u32 where "BIO_FLAGS_IO_SPECIAL = 0x04"
definition BIO_FLAGS_RWS :: u32 where
  "BIO_FLAGS_RWS = BIO_FLAGS_READ OR BIO_FLAGS_WRITE OR BIO_FLAGS_IO_SPECIAL"
definition BIO_FLAGS_SHOULD_RETRY :: u32 where "BIO_FLAGS_SHOULD_RETRY = 0x08"
definition BIO_FLAGS_MEM_RDONLY :: u32 where "BIO_FLAGS_MEM_RDONLY = 0x200"

definition kRetryFlags :: u32 where
  "kRetryFlags = BIO_FLAGS_RWS OR BIO_FLAGS_SHOULD_RETRY"

definition BIO_set_flags :: "BIO \<Rightarrow> u32 \<Rightarrow> BIO" where
  "BIO_set_flags b flags = b\<lparr>bio_flags := bio_flags b OR flags\<rparr>"

definition BIO_test_flags :: "BIO \<Rightarrow> u32 \<Rightarrow> u32" where
  "BIO_test_flags b flags = bio_flags b AND flags"

definition BIO_should_read :: "BIO \<Rightarrow> u32" where
  "BIO_should_read b = BIO_test_flags b BIO_FLAGS_READ"

definition BIO_should_write :: "BIO \<Rightarrow> u32" where
  "BIO_should_write b = BIO_test_flags b BIO_FLAGS_WRITE"

definition BIO_should_retry :: "BIO \<Rightarrow> u32" where
  "BIO_should_retry b = BIO_test_flags b BIO_FLAGS_SHOULD_RETRY"

definition BIO_should_io_special :: "BIO \<Rightarrow> u32" where
  "BIO_should_io_special b = BIO_test_flags b BIO_FLAGS_IO_SPECIAL"

definition BIO_get_retry_reason :: "BIO \<Rightarrow> int" where
  "BIO_get_retry_reason b = bio_retry_reason b"

definition BIO_clear_flags :: "BIO \<Rightarrow> u32 \<Rightarrow> BIO" where
  "BIO_clear_flags b flags = b\<lparr>bio_flags := bio_flags b AND NOT flags\<rparr>"

definition BIO_set_retry_read :: "BIO \<Rightarrow> BIO" where
  "BIO_set_retry_read b =
     b\<lparr>bio_flags := bio_flags b OR (BIO_FLAGS_READ OR BIO_FLAGS_SHOULD_RETRY)\<rparr>"

definition BIO_set_retry_write :: "BIO \<Rightarrow> BIO" where
  "BIO_set_retry_write b =
     b\<lparr>bio_flags := bio_flags b OR (BIO_FLAGS_WRITE OR BIO_FLAGS_SHOULD_RETRY)\<rparr>"

definition BIO_set_retry_special :: "BIO \<Rightarrow> BIO" where
  "BIO_set_retry_special b =
     b\<lparr>bio_flags := bio_flags b OR (BIO_FLAGS_READ OR BIO_FLAGS_IO_SPECIAL)\<rparr>"

definition BIO_get_retry_flags :: "BIO \<Rightarrow> u32" where
  "BIO_get_retry_flags b = bio_flags b AND kRetryFlags"

definition BIO_clear_retry_flags :: "BIO \<Rightarrow> BIO" where
  "BIO_clear_retry_flags b =
     b\<lparr>bio_flags := bio_flags b AND NOT kRetryFlags, bio_retry_reason := 0\<rparr>"

section \<open>Lemmas\<close>

named_theorems bio

lemma upd_bio_simps [simp, bio]:
  "upd_bio w i f i = map_option f (w i)"
  "j \<noteq> i \<Longrightarrow> upd_bio w i f j = w j"
  "upd_bio w i (\<lambda>b. b) = w"
  by (auto simp: upd_bio_def option.map_id0[unfolded id_def])

lemma get_pair_Some: "get_pair w i = Some p \<longleftrightarrow> (\<exists>b. w i = Some b \<and> bio_ptr b = PtrPair p)"
  by (cases "w i"; cases "bio_ptr (the (w i))") (auto simp: get_pair_def)

lemma get_put_pair [simp, bio]:
  "get_pair (put_pair w i p) j = (if j = i \<and> w i \<noteq> None then Some p else get_pair w j)"
  by (cases "w i"; cases "j = i") (auto simp: get_pair_def put_pair_def)

lemma put_pair_None [simp, bio]: "put_pair w i p j = None \<longleftrightarrow> w j = None"
  by (cases "j = i") (simp_all add: put_pair_def)

lemma upd_bio_None [simp, bio]: "upd_bio w i f j = None \<longleftrightarrow> w j = None"
  by (cases "j = i") simp_all

lemma put_pair_other [simp, bio]: "j \<noteq> i \<Longrightarrow> put_pair w i p j = w j"
  by (simp add: put_pair_def)

lemma get_pair_upd [bio]:
  "(\<And>b. bio_ptr (f b) = bio_ptr b) \<Longrightarrow> get_pair (upd_bio w i f) j = get_pair w j"
  by (cases "j = i"; cases "w i") (auto simp: get_pair_def)

lemma retry_ptr [simp, bio]:
  "bio_ptr (BIO_clear_retry_flags b) = bio_ptr b"
  "bio_ptr (BIO_set_retry_read b) = bio_ptr b"
  "bio_ptr (BIO_set_retry_write b) = bio_ptr b"
  "bio_init (BIO_clear_retry_flags b) = bio_init b"
  "bio_init (BIO_set_retry_read b) = bio_init b"
  "bio_init (BIO_set_retry_write b) = bio_init b"
  by (simp_all add: BIO_clear_retry_flags_def BIO_set_retry_read_def BIO_set_retry_write_def)

end
