(* ===== verification/Bio_Pair.thy ===== *)
theory Bio_Pair
  imports Bio_Base
begin

text \<open>
  BIO pairs, \<^verbatim>\<open>crypto/bio/pair.c\<close>: two BIOs, each with a ring buffer for what it writes, which
  the other one reads. The methods \<open>bio_new\<close> to \<open>bio_ctrl\<close> as functions of the heap, the ring
  buffer refined to a byte queue, and the invariant of a connected pair.
\<close>

section \<open>Creation and destruction\<close>

definition sizeof_bio_bio_st :: nat where
  "sizeof_bio_bio_st = 56"

text \<open>The new BIO's private struct, or \<open>None\<close> for failure.\<close>

definition bio_new :: "sys_malloc \<Rightarrow> BIO \<Rightarrow> BIO option" where
  "bio_new sys bio =
     (if OPENSSL_malloc sys sizeof_bio_bio_st = None then None
      else Some (bio\<lparr>bio_ptr := PtrPair \<lparr>peer = None, closed = False, bp_len = 0, bp_offset = 0,
                       bp_size = 17 * 1024, bp_buf = None, bp_request = 0\<rparr>\<rparr>))"

definition empty_side :: "bio_heap \<Rightarrow> nat \<Rightarrow> bio_heap option" where
  "empty_side w i = do {
     p \<leftarrow> get_pair w i;
     C_assert (bp_buf p \<noteq> None);
     Some (put_pair w i (p\<lparr>bp_len := 0, bp_offset := 0\<rparr>)) }"

definition bio_destroy_pair :: "bio_heap \<Rightarrow> nat \<Rightarrow> bio_heap option" where
  "bio_destroy_pair w i = do {
     bio \<leftarrow> w i;
     if bio_ptr bio = PtrNull then Some w
     else do {
       b \<leftarrow> get_pair w i;
       case peer b of
         None \<Rightarrow> Some w
       | Some j \<Rightarrow> do {
           peer_b \<leftarrow> get_pair w j;
           C_assert (peer peer_b = Some i);
           let w = put_pair w j (peer_b\<lparr>peer := None\<rparr>);
           let w = upd_bio w j (\<lambda>b. b\<lparr>bio_init := False\<rparr>);
           w \<leftarrow> empty_side w j;
           b \<leftarrow> get_pair w i;
           let w = put_pair w i (b\<lparr>peer := None\<rparr>);
           let w = upd_bio w i (\<lambda>b. b\<lparr>bio_init := False\<rparr>);
           empty_side w i } } }"

text \<open>What is freed is no longer there to be followed.\<close>

definition bio_free :: "bio_heap \<Rightarrow> nat \<Rightarrow> bio_heap option" where
  "bio_free w i = do {
     b \<leftarrow> get_pair w i;
     w \<leftarrow> (if peer b \<noteq> None then bio_destroy_pair w i else Some w);
     Some (upd_bio w i (\<lambda>b. b\<lparr>bio_ptr := PtrNull\<rparr>)) }"

section \<open>Reading\<close>

text \<open>
  One iteration of the copying loop, on the peer's struct: the bytes copied, their number
  and the struct. A copy that would leave the allocated block has no result.
\<close>

definition read_chunk :: "bio_bio \<Rightarrow> nat \<Rightarrow> (cell list \<times> nat \<times> bio_bio) option" where
  "read_chunk p rest = do {
     C_assert (rest \<le> bp_len p);
     let chunk = (if size_add (bp_offset p) rest \<le> bp_size p then rest
                  else size_sub (bp_size p) (bp_offset p));
     C_assert (size_add (bp_offset p) chunk \<le> bp_size p);
     m \<leftarrow> bp_buf p;
     C_assert (bp_offset p + chunk \<le> length m);
     let out = take chunk (drop (bp_offset p) m);
     let p = p\<lparr>bp_len := size_sub (bp_len p) chunk\<rparr>;
     if bp_len p \<noteq> 0
     then do {
       let p = p\<lparr>bp_offset := size_add (bp_offset p) chunk\<rparr>;
       C_assert (bp_offset p \<le> bp_size p);
       Some (out, chunk, if bp_offset p = bp_size p then p\<lparr>bp_offset := 0\<rparr> else p) }
     else do {
       C_assert (chunk = rest);
       Some (out, chunk, p\<lparr>bp_offset := 0\<rparr>) } }"

partial_function (option) read_loop :: "bio_bio \<Rightarrow> nat \<Rightarrow> (cell list \<times> bio_bio) option" where
  "read_loop p rest = do {
     (out, chunk, p) \<leftarrow> read_chunk p rest;
     let rest = size_sub rest chunk;
     if rest \<noteq> 0
     then do { (more, p) \<leftarrow> read_loop p rest; Some (out @ more, p) }
     else Some (out, p) }"

declare read_loop.simps [code]

text \<open>\<open>buf\<close> says whether the destination is not NULL; the bytes stored there are a result.\<close>

definition bio_read :: "bio_heap \<Rightarrow> nat \<Rightarrow> bool \<Rightarrow> int \<Rightarrow> (int \<times> cell list \<times> bio_heap) option" where
  "bio_read w i buf size0 = do {
     let size = size_of_int size0;
     let w = upd_bio w i BIO_clear_retry_flags;
     bio \<leftarrow> w i;
     if \<not> bio_init bio then Some (0, [], w)
     else do {
       b \<leftarrow> get_pair w i;
       j \<leftarrow> peer b;
       peer_b \<leftarrow> get_pair w j;
       C_assert (bp_buf peer_b \<noteq> None);
       let peer_b = peer_b\<lparr>bp_request := 0\<rparr>;
       let w = put_pair w j peer_b;
       if \<not> buf \<or> size = 0 then Some (0, [], w)
       else if bp_len peer_b = 0
       then (if closed peer_b then Some (0, [], w)
             else let w = upd_bio w i BIO_set_retry_read;
                      request = (if size \<le> bp_size peer_b then size else bp_size peer_b)
                  in Some (-1, [], put_pair w j (peer_b\<lparr>bp_request := request\<rparr>)))
       else do {
         let size = (if bp_len peer_b < size then bp_len peer_b else size);
         C_assert (size > 0);
         (out, peer_b) \<leftarrow> read_loop peer_b size;
         Some (int_of_size size, out, put_pair w j peer_b) } } }"

section \<open>Writing\<close>

definition write_chunk :: "bio_bio \<Rightarrow> u8 list \<Rightarrow> (nat \<times> bio_bio) option" where
  "write_chunk b data = do {
     let rest = length data;
     C_assert (size_add (bp_len b) rest \<le> bp_size b);
     let write_offset = size_add (bp_offset b) (bp_len b);
     let write_offset = (if write_offset \<ge> bp_size b then size_sub write_offset (bp_size b)
                         else write_offset);
     let chunk = (if size_add write_offset rest \<le> bp_size b then rest
                  else size_sub (bp_size b) write_offset);
     m \<leftarrow> bp_buf b;
     C_assert (write_offset + chunk \<le> length m);
     let m = overwrite m write_offset (map Some (take chunk data));
     let b = b\<lparr>bp_buf := Some m, bp_len := size_add (bp_len b) chunk\<rparr>;
     C_assert (bp_len b \<le> bp_size b);
     Some (chunk, b) }"

partial_function (option) write_loop :: "bio_bio \<Rightarrow> u8 list \<Rightarrow> bio_bio option" where
  "write_loop b data = do {
     (chunk, b) \<leftarrow> write_chunk b data;
     let data = drop chunk data;
     if data \<noteq> [] then write_loop b data else Some b }"

declare write_loop.simps [code]

text \<open>\<open>buf\<close> is \<open>None\<close> for NULL and otherwise at least \<open>num0\<close> bytes.\<close>

definition bio_write :: "bio_heap \<Rightarrow> nat \<Rightarrow> u8 list option \<Rightarrow> int \<Rightarrow> (int \<times> bio_heap) option" where
  "bio_write w i buf num0 = do {
     let num = size_of_int num0;
     let w = upd_bio w i BIO_clear_retry_flags;
     bio \<leftarrow> w i;
     if \<not> bio_init bio \<or> buf = None \<or> num = 0 then Some (0, w)
     else do {
       b \<leftarrow> get_pair w i;
       C_assert (peer b \<noteq> None);
       C_assert (bp_buf b \<noteq> None);
       let b = b\<lparr>bp_request := 0\<rparr>;
       let w = put_pair w i b;
       if closed b then Some (-1, w)
       else do {
         C_assert (bp_len b \<le> bp_size b);
         if bp_len b = bp_size b then Some (-1, upd_bio w i BIO_set_retry_write)
         else do {
           let num = (if num > size_sub (bp_size b) (bp_len b)
                      then size_sub (bp_size b) (bp_len b) else num);
           C_assert (num > 0);
           C_assert (num \<le> length (the buf));
           b \<leftarrow> write_loop b (take num (the buf));
           Some (int_of_size num, put_pair w i b) } } } }"

section \<open>Connecting\<close>

text \<open>The ring buffer of one side, allocated unless it is there already.\<close>

definition alloc_side :: "sys_malloc \<Rightarrow> bio_bio \<Rightarrow> nat \<Rightarrow> bool \<times> bio_bio" where
  "alloc_side sys b writebuf_len =
     (if bp_buf b = None
      then let b = (if writebuf_len \<noteq> 0 then b\<lparr>bp_size := writebuf_len\<rparr> else b)
           in case OPENSSL_malloc sys (bp_size b) of
                None \<Rightarrow> (False, b)
              | Some m \<Rightarrow> (True, b\<lparr>bp_buf := Some m, bp_len := 0, bp_offset := 0\<rparr>)
      else (True, b))"

definition bio_make_pair ::
  "sys_malloc \<Rightarrow> bio_heap \<Rightarrow> nat \<Rightarrow> nat \<Rightarrow> nat \<Rightarrow> nat \<Rightarrow> (bool \<times> bio_heap) option" where
  "bio_make_pair sys w i1 i2 writebuf1_len writebuf2_len = do {
     b1 \<leftarrow> get_pair w i1;
     b2 \<leftarrow> get_pair w i2;
     if peer b1 \<noteq> None \<or> peer b2 \<noteq> None then Some (False, w)
     else do {
       let (ok, b1) = alloc_side sys b1 writebuf1_len;
       let w = put_pair w i1 b1;
       if \<not> ok then Some (False, w)
       else do {
         b2 \<leftarrow> get_pair w i2;
         let (ok, b2) = alloc_side sys b2 writebuf2_len;
         let w = put_pair w i2 b2;
         if \<not> ok then Some (False, w)
         else do {
           b1 \<leftarrow> get_pair w i1;
           let w = put_pair w i1 (b1\<lparr>peer := Some i2, closed := False, bp_request := 0\<rparr>);
           b2 \<leftarrow> get_pair w i2;
           let w = put_pair w i2 (b2\<lparr>peer := Some i1, closed := False, bp_request := 0\<rparr>);
           let w = upd_bio w i1 (\<lambda>b. b\<lparr>bio_init := True\<rparr>);
           let w = upd_bio w i2 (\<lambda>b. b\<lparr>bio_init := True\<rparr>);
           Some (True, w) } } } }"

section \<open>Control\<close>

definition BIO_CTRL_RESET :: int where "BIO_CTRL_RESET = 1"
definition BIO_CTRL_EOF :: int where "BIO_CTRL_EOF = 2"
definition BIO_CTRL_INFO :: int where "BIO_CTRL_INFO = 3"
definition BIO_CTRL_GET_CLOSE :: int where "BIO_CTRL_GET_CLOSE = 8"
definition BIO_CTRL_SET_CLOSE :: int where "BIO_CTRL_SET_CLOSE = 9"
definition BIO_CTRL_PENDING :: int where "BIO_CTRL_PENDING = 10"
definition BIO_CTRL_FLUSH :: int where "BIO_CTRL_FLUSH = 11"
definition BIO_CTRL_WPENDING :: int where "BIO_CTRL_WPENDING = 13"
definition BIO_C_GET_WRITE_BUF_SIZE :: int where "BIO_C_GET_WRITE_BUF_SIZE = 137"
definition BIO_C_GET_WRITE_GUARANTEE :: int where "BIO_C_GET_WRITE_GUARANTEE = 140"
definition BIO_C_GET_READ_REQUEST :: int where "BIO_C_GET_READ_REQUEST = 141"
definition BIO_C_SHUTDOWN_WR :: int where "BIO_C_SHUTDOWN_WR = 142"
definition BIO_C_RESET_READ_REQUEST :: int where "BIO_C_RESET_READ_REQUEST = 147"

definition int_of_long :: "int \<Rightarrow> int" where
  "int_of_long n = sint (word_of_int n :: u32)"

definition long_of_bool :: "bool \<Rightarrow> int" where
  "long_of_bool b = (if b then 1 else 0)"

text \<open>\<open>ptr\<close> is the address of another BIO, as the one command that reads it takes it.\<close>

definition bio_ctrl :: "bio_heap \<Rightarrow> nat \<Rightarrow> int \<Rightarrow> int \<Rightarrow> nat option \<Rightarrow> (int \<times> bio_heap) option" where
  "bio_ctrl w i cmd num ptr = do {
     bio \<leftarrow> w i;
     b \<leftarrow> get_pair w i;
     if cmd = BIO_C_GET_WRITE_BUF_SIZE then Some (long_of_size (bp_size b), w)
     else if cmd = BIO_C_GET_WRITE_GUARANTEE
     then Some (if peer b = None \<or> closed b then 0
                else long_of_size (size_sub (bp_size b) (bp_len b)), w)
     else if cmd = BIO_C_GET_READ_REQUEST then Some (long_of_size (bp_request b), w)
     else if cmd = BIO_C_RESET_READ_REQUEST then Some (1, put_pair w i (b\<lparr>bp_request := 0\<rparr>))
     else if cmd = BIO_C_SHUTDOWN_WR then Some (1, put_pair w i (b\<lparr>closed := True\<rparr>))
     else if cmd = BIO_CTRL_GET_CLOSE then Some (bio_shutdown bio, w)
     else if cmd = BIO_CTRL_SET_CLOSE
     then Some (1, upd_bio w i (\<lambda>b. b\<lparr>bio_shutdown := int_of_long num\<rparr>))
     else if cmd = BIO_CTRL_PENDING
     then (case peer b of
             None \<Rightarrow> Some (0, w)
           | Some j \<Rightarrow> do { peer_b \<leftarrow> get_pair w j; Some (long_of_size (bp_len peer_b), w) })
     else if cmd = BIO_CTRL_WPENDING
     then Some (if bp_buf b \<noteq> None then long_of_size (bp_len b) else 0, w)
     else if cmd = BIO_CTRL_FLUSH then Some (1, w)
     else if cmd = BIO_CTRL_EOF
     then (case ptr of
             None \<Rightarrow> Some (1, w)
           | Some k \<Rightarrow> do {
               other_b \<leftarrow> get_pair w k;
               Some (long_of_bool (bp_len other_b = 0 \<and> closed other_b), w) })
     else Some (0, w) }"

section \<open>The ring buffer\<close>

text \<open>The \<open>n\<close> cells from index \<open>off\<close> on, around the end of the buffer.\<close>

definition ring :: "'c list \<Rightarrow> nat \<Rightarrow> nat \<Rightarrow> 'c list" where
  "ring m off n = map (\<lambda>k. m ! ((off + k) mod length m)) [0..<n]"

lemma length_ring [simp]: "length (ring m off n) = n"
  by (simp add: ring_def)

lemma nth_ring: "k < n \<Longrightarrow> ring m off n ! k = m ! ((off + k) mod length m)"
  by (simp add: ring_def)

lemma mod_wrap: "a < s \<Longrightarrow> b \<le> s \<Longrightarrow> (a + b) mod s = (if a + b < s then a + b else a + b - s)" for a b s :: nat
  by (simp add: mod_if)

lemma ring_write:
  assumes m: "length m = s" "off < s" and fit: "n + length bs \<le> s" "n < s"
    and at: "at = (off + n) mod s" "at + length bs \<le> s"
  shows "ring (overwrite m at bs) off (n + length bs) = ring m off n @ bs"
proof (rule nth_equalityI)
  fix k assume "k < length (ring (overwrite m at bs) off (n + length bs))"
  then have k: "k < n + length bs" by simp
  have at': "at = (if off + n < s then off + n else off + n - s)"
    using at(1) m(2) fit(2) by (simp add: mod_wrap)
  have ix: "(off + k) mod s = (if off + k < s then off + k else off + k - s)"
    using m(2) k fit by (simp add: mod_wrap)
  have lt: "(off + k) mod s < s" using m(2) by simp
  have "overwrite m at bs ! ((off + k) mod s) = (if k < n then m ! ((off + k) mod s) else bs ! (k - n))"
  proof (cases "k < n")
    case True
    then have "\<not> (at \<le> (off + k) mod s \<and> (off + k) mod s < at + length bs)"
      using fit at' m(2) unfolding ix by (auto split: if_splits)
    then show ?thesis using True lt at(2) m(1) by (auto simp: nth_overwrite)
  next
    case False
    then have e: "(off + k) mod s = at + (k - n)" and j: "k - n < length bs"
      using k at' at(2) unfolding ix by (auto split: if_splits)
    have "overwrite m at bs ! (at + (k - n)) = bs ! (k - n)"
      using j at(2) m(1) by (subst nth_overwrite) auto
    then show ?thesis using False by (simp add: e)
  qed
  then show "ring (overwrite m at bs) off (n + length bs) ! k = (ring m off n @ bs) ! k"
    using k at(2) m(1) by (simp add: nth_ring nth_append)
qed simp

lemma ring_front:
  assumes "length m = s" "off + c \<le> s" "c \<le> n"
  shows "take c (drop off m) = take c (ring m off n)"
proof (rule nth_equalityI)
  fix k assume "k < length (take c (drop off m))"
  then show "take c (drop off m) ! k = take c (ring m off n) ! k"
    using assms by (simp add: nth_ring)
qed (use assms in simp)

lemma ring_rest:
  assumes "length m = s" "off' mod s = (off + c) mod s"
  shows "ring m off' (n - c) = drop c (ring m off n)"
proof (rule nth_equalityI)
  fix k assume k: "k < length (ring m off' (n - c))"
  have "(off' + k) mod s = (off + (c + k)) mod s"
    using mod_add_cong[OF assms(2), of k k] by (simp only: add.assoc)
  then show "ring m off' (n - c) ! k = drop c (ring m off n) ! k"
    using k assms(1) by (simp add: nth_ring)
qed simp

text \<open>A buffer that holds the bytes \<open>q\<close>.\<close>

definition ring_rep :: "bio_bio \<Rightarrow> u8 list \<Rightarrow> bool" where
  "ring_rep p q \<longleftrightarrow>
     (\<exists>m. bp_buf p = Some m \<and> length m = bp_size p \<and> ring m (bp_offset p) (bp_len p) = map Some q) \<and>
     0 < bp_size p \<and> bp_size p < 2 ^ 63 \<and> bp_offset p < bp_size p \<and> bp_len p \<le> bp_size p"

lemma ring_rep_len: "ring_rep p q \<Longrightarrow> bp_len p = length q"
  unfolding ring_rep_def by (metis length_map length_ring)

lemma ring_rep_bounds:
  "ring_rep p q \<Longrightarrow> length q \<le> bp_size p \<and> bp_size p < 2 ^ 63 \<and> 0 < bp_size p \<and> bp_buf p \<noteq> None"
proof -
  assume "ring_rep p q"
  with ring_rep_len[OF this] show ?thesis unfolding ring_rep_def by auto
qed

text \<open>What the copying loops change.\<close>

definition same_side :: "bio_bio \<Rightarrow> bio_bio \<Rightarrow> bool" where
  "same_side p p' \<longleftrightarrow> peer p' = peer p \<and> closed p' = closed p \<and> bp_size p' = bp_size p \<and>
     bp_request p' = bp_request p"

lemma same_side_trans: "same_side p p' \<Longrightarrow> same_side p' p'' \<Longrightarrow> same_side p p''"
  by (simp add: same_side_def)

lemmas size_exact = size_add_exact size_sub_exact

lemma read_loop_chunk:
  assumes rep: "ring_rep p q" and r: "0 < rest" "rest \<le> length q"
    and c: "c = (if bp_offset p + rest \<le> bp_size p then rest else bp_size p - bp_offset p)"
  obtains p' where "ring_rep p' (drop c q)" "same_side p p'"
    "bp_offset p' = (bp_offset p + c) mod bp_size p \<or> c = rest"
    "read_loop p rest =
       (if rest - c = 0 then Some (map Some (take c q), p')
        else do { (more, p'') \<leftarrow> read_loop p' (rest - c); Some (map Some (take c q) @ more, p'') })"
proof -
  from rep obtain m where m: "bp_buf p = Some m" "length m = bp_size p"
    "ring m (bp_offset p) (bp_len p) = map Some q"
    and s: "0 < bp_size p" "bp_size p < 2 ^ 63" "bp_offset p < bp_size p" "bp_len p \<le> bp_size p"
    by (auto simp: ring_rep_def)
  have len: "bp_len p = length q" using rep by (rule ring_rep_len)
  have M: "2 ^ 63 + 2 ^ 63 = SIZE_MOD" by (simp add: SIZE_MOD_def)
  have ex: "size_add (bp_offset p) rest = bp_offset p + rest"
      "size_sub (bp_size p) (bp_offset p) = bp_size p - bp_offset p"
    using s r len M by (auto intro!: size_exact)
  have ex_c: "(if size_add (bp_offset p) rest \<le> bp_size p then rest else size_sub (bp_size p) (bp_offset p)) = c"
    by (simp only: ex c)
  have c': "c \<le> rest" "bp_offset p + c \<le> bp_size p" "0 < c" using c s r by (auto split: if_splits)
  have ex2: "size_add (bp_offset p) c = bp_offset p + c" "size_sub (bp_len p) c = length q - c"
      "size_sub rest c = rest - c"
    using s r len M c' by (auto intro!: size_exact)
  define off' where "off' = (if length q - c \<noteq> 0
     then (if bp_offset p + c = bp_size p then 0 else bp_offset p + c) else 0)"
  define p' where "p' = p\<lparr>bp_len := length q - c, bp_offset := off'\<rparr>"
  have out: "take c (drop (bp_offset p) m) = map Some (take c q)"
    using ring_front[of m "bp_size p" "bp_offset p" c "bp_len p"] m c' r len by (simp add: take_map)
  have off_mod: "length q - c \<noteq> 0 \<Longrightarrow> off' mod bp_size p = (bp_offset p + c) mod bp_size p"
    using c' by (auto simp: off'_def)
  have rest_ring: "ring m off' (length q - c) = drop c (map Some q)"
  proof (cases "length q - c = 0")
    case True
    then show ?thesis by (simp add: ring_def)
  next
    case False
    show ?thesis
      using ring_rest[of m "bp_size p" off' "bp_offset p" c "bp_len p"] off_mod[OF False] m len by simp
  qed
  have rep': "ring_rep p' (drop c q)"
    using m s c' len rest_ring unfolding ring_rep_def p'_def by (auto simp: drop_map off'_def)
  have same: "same_side p p'" by (simp add: same_side_def p'_def)
  have offp: "bp_offset p' = (bp_offset p + c) mod bp_size p \<or> c = rest"
  proof (cases "length q - c = 0")
    case True
    then show ?thesis using c' r by simp
  next
    case False
    then show ?thesis using off_mod[OF False] s c' by (simp add: p'_def off'_def)
  qed
  have "read_chunk p rest = Some (map Some (take c q), c, p')"
  proof (cases "length q - c = 0")
    case True
    then have "rest = c" "bp_len p = c" using c' r len by simp_all
    then show ?thesis
      using c' m True out by (simp add: read_chunk_def Let_def ex ex2 size_sub_self p'_def off'_def)
  next
    case False
    then show ?thesis
      using c' m r len out unfolding read_chunk_def Let_def ex_c
      by (simp add: ex2[unfolded len] p'_def off'_def)
  qed
  then have run: "read_loop p rest =
       (if rest - c = 0 then Some (map Some (take c q), p')
        else do { (more, p'') \<leftarrow> read_loop p' (rest - c); Some (map Some (take c q) @ more, p'') })"
    by (subst read_loop.simps) (simp add: ex2)
  show ?thesis using that rep' same offp run by blast
qed

text \<open>One or two iterations read the first \<open>rest\<close> bytes.\<close>

lemma read_loop_rep:
  assumes rep: "ring_rep p q" and r: "0 < rest" "rest \<le> length q"
  shows "\<exists>p'. read_loop p rest = Some (map Some (take rest q), p') \<and> ring_rep p' (drop rest q) \<and> same_side p p'"
proof -
  define c where "c = (if bp_offset p + rest \<le> bp_size p then rest else bp_size p - bp_offset p)"
  obtain p1 where p1: "ring_rep p1 (drop c q)" "same_side p p1"
    "bp_offset p1 = (bp_offset p + c) mod bp_size p \<or> c = rest"
    "read_loop p rest =
       (if rest - c = 0 then Some (map Some (take c q), p1)
        else do { (more, p'') \<leftarrow> read_loop p1 (rest - c); Some (map Some (take c q) @ more, p'') })"
    using read_loop_chunk[OF rep r c_def] by metis
  show ?thesis
  proof (cases "c = rest")
    case True
    with p1 show ?thesis by auto
  next
    case False
    have s: "bp_offset p < bp_size p" "bp_size p1 = bp_size p" "length q \<le> bp_size p"
      using rep p1(2) ring_rep_bounds[OF rep] by (auto simp: ring_rep_def same_side_def)
    from False have c: "c = bp_size p - bp_offset p" "c < rest" by (auto simp: c_def split: if_splits)
    then have off1: "bp_offset p1 = 0" using p1(3) False s by simp
    define r1 where "r1 = rest - c"
    have r1: "0 < r1" "r1 \<le> length (drop c q)" using c r by (auto simp: r1_def)
    have fit: "r1 = (if bp_offset p1 + r1 \<le> bp_size p1 then r1 else bp_size p1 - bp_offset p1)"
      using off1 s r by (simp add: r1_def)
    obtain p2 where p2: "ring_rep p2 (drop r1 (drop c q))" "same_side p1 p2"
      "read_loop p1 r1 = Some (map Some (take r1 (drop c q)), p2)"
      using read_loop_chunk[OF p1(1) r1 fit] by (auto split: if_splits)
    have "take c q @ take r1 (drop c q) = take rest q"
      using take_add[of c r1 q] c by (simp add: r1_def)
    then have "map Some (take c q) @ map Some (take r1 (drop c q)) = map Some (take rest q)"
      by (simp flip: map_append)
    with p1 p2 r1 c show ?thesis by (auto simp: r1_def intro: same_side_trans)
  qed
qed

lemma write_loop_chunk:
  assumes rep: "ring_rep b q" and d: "data \<noteq> []" "length q + length data \<le> bp_size b"
    and at: "at = (bp_offset b + length q) mod bp_size b"
    and c: "c = (if at + length data \<le> bp_size b then length data else bp_size b - at)"
  obtains b' where "ring_rep b' (q @ take c data)" "same_side b b'" "bp_offset b' = bp_offset b" "0 < c"
    "write_loop b data = (if drop c data \<noteq> [] then write_loop b' (drop c data) else Some b')"
proof -
  from rep obtain m where m: "bp_buf b = Some m" "length m = bp_size b"
    "ring m (bp_offset b) (bp_len b) = map Some q"
    and s: "0 < bp_size b" "bp_size b < 2 ^ 63" "bp_offset b < bp_size b" "bp_len b \<le> bp_size b"
    by (auto simp: ring_rep_def)
  have len: "bp_len b = length q" using rep by (rule ring_rep_len)
  have M: "2 ^ 63 + 2 ^ 63 = SIZE_MOD" by (simp add: SIZE_MOD_def)
  have d0: "0 < length data" using d(1) by simp
  have at': "at = (if bp_offset b + length q < bp_size b then bp_offset b + length q
                   else bp_offset b + length q - bp_size b)"
    using s d d0 by (simp add: at mod_wrap)
  have at_lt: "at < bp_size b" using s by (simp add: at)
  have ex: "size_add (bp_len b) (length data) = length q + length data"
      "size_add (bp_offset b) (bp_len b) = bp_offset b + length q"
      "size_add at (length data) = at + length data"
      "size_sub (bp_size b) at = bp_size b - at"
    using s len M d at_lt by (auto intro!: size_exact)
  have ex_at: "(if bp_size b \<le> size_add (bp_offset b) (bp_len b)
               then size_sub (size_add (bp_offset b) (bp_len b)) (bp_size b)
               else size_add (bp_offset b) (bp_len b)) = at"
    unfolding ex using s len M d at' by (auto simp: size_sub_exact)
  have ex_c: "(if size_add at (length data) \<le> bp_size b then length data else size_sub (bp_size b) at) = c"
    by (simp only: ex c)
  have ex_fit: "size_add (bp_len b) (length data) \<le> bp_size b" using d by (simp add: ex)
  have c': "c \<le> length data" "at + c \<le> bp_size b" "0 < c" using c d0 at_lt by (auto split: if_splits)
  have ex2: "size_add (bp_len b) c = length q + c" using s len M d c' by (auto intro!: size_exact)
  define m' where "m' = overwrite m at (map Some (take c data))"
  define b' where "b' = b\<lparr>bp_buf := Some m', bp_len := length q + c\<rparr>"
  have "ring m' (bp_offset b) (length q + c) = map Some (q @ take c data)"
    using ring_write[of m "bp_size b" "bp_offset b" "length q" "map Some (take c data)" at] m s d d0 c' len at
    by (simp add: m'_def min_absorb2)
  then have rep': "ring_rep b' (q @ take c data)"
    using m s d c' unfolding ring_rep_def b'_def by (simp add: m'_def min_absorb2)
  have "write_chunk b data = Some (c, b')"
    using c' d m unfolding write_chunk_def Let_def ex_at ex_c by (simp add: ex_fit ex2 b'_def m'_def)
  then have run: "write_loop b data = (if drop c data \<noteq> [] then write_loop b' (drop c data) else Some b')"
    by (subst write_loop.simps) simp
  show ?thesis using that[OF rep' _ _ c'(3) run] by (simp add: same_side_def b'_def)
qed

lemma write_loop_rep:
  assumes rep: "ring_rep b q" and d: "data \<noteq> []" "length q + length data \<le> bp_size b"
  shows "\<exists>b'. write_loop b data = Some b' \<and> ring_rep b' (q @ data) \<and> same_side b b'"
proof -
  define at where "at = (bp_offset b + length q) mod bp_size b"
  define c where "c = (if at + length data \<le> bp_size b then length data else bp_size b - at)"
  obtain b1 where b1: "ring_rep b1 (q @ take c data)" "same_side b b1" "bp_offset b1 = bp_offset b" "0 < c"
    "write_loop b data = (if drop c data \<noteq> [] then write_loop b1 (drop c data) else Some b1)"
    using write_loop_chunk[OF rep d at_def c_def] by metis
  show ?thesis
  proof (cases "length data \<le> c")
    case True
    with b1 show ?thesis by auto
  next
    case False
    have s: "0 < bp_size b" "bp_size b1 = bp_size b" "bp_offset b < bp_size b"
      using rep b1(2) by (auto simp: ring_rep_def same_side_def)
    have at_lt: "at < bp_size b" using s by (simp add: at_def)
    have c: "c = bp_size b - at" using False by (auto simp: c_def split: if_splits)
    have "(bp_offset b + (length q + c)) mod bp_size b = ((bp_offset b + length q) mod bp_size b + c) mod bp_size b"
      by (simp only: mod_add_left_eq add.assoc)
    also have "\<dots> = 0" using c at_lt by (simp flip: at_def)
    finally have at1: "0 = (bp_offset b1 + length (q @ take c data)) mod bp_size b1"
      using b1(3) s False by simp
    define r where "r = drop c data"
    have r: "r \<noteq> []" "length (q @ take c data) + length r \<le> bp_size b1"
      using False d s by (auto simp: r_def)
    have fit: "length r = (if 0 + length r \<le> bp_size b1 then length r else bp_size b1 - 0)"
      using r by simp
    obtain b2 where b2: "ring_rep b2 (q @ data)" "same_side b1 b2" "write_loop b1 r = Some b2"
      using write_loop_chunk[OF b1(1) r at1 fit] by (auto simp: r_def split: if_splits)
    with b1 r show ?thesis by (auto simp: r_def intro: same_side_trans)
  qed
qed

section \<open>The invariant of the heap\<close>

text \<open>
  A BIO of a pair is initialised exactly while it has a peer; peers point at each other and
  both have their buffers; a buffer, once allocated, is a ring buffer with initialised
  contents.
\<close>

definition side_ok :: "bio_bio \<Rightarrow> bool" where
  "side_ok p \<longleftrightarrow> 0 < bp_size p \<and> (bp_buf p = None \<longrightarrow> peer p = None) \<and> (bp_buf p \<noteq> None \<longrightarrow> (\<exists>q. ring_rep p q))"

definition pair_ok :: "bio_heap \<Rightarrow> nat \<Rightarrow> BIO \<Rightarrow> bio_bio \<Rightarrow> bool" where
  "pair_ok w i b p \<longleftrightarrow>
     side_ok p \<and> bio_init b = (peer p \<noteq> None) \<and>
     (\<forall>j. peer p = Some j \<longrightarrow> j \<noteq> i \<and> (\<exists>p'. get_pair w j = Some p' \<and> peer p' = Some i))"

definition pairs_ok :: "bio_heap \<Rightarrow> bool" where
  "pairs_ok w \<longleftrightarrow> (\<forall>i b p. w i = Some b \<longrightarrow> bio_ptr b = PtrPair p \<longrightarrow> pair_ok w i b p)"

lemma pairs_okD: "pairs_ok w \<Longrightarrow> w i = Some b \<Longrightarrow> bio_ptr b = PtrPair p \<Longrightarrow> pair_ok w i b p"
  by (simp add: pairs_ok_def)

lemma pair_ok_cong:
  assumes "pair_ok w i b p" "side_ok p'" "peer p' = peer p" "bio_init b' = bio_init b"
    "\<And>j. map_option peer (get_pair w' j) = map_option peer (get_pair w j)"
  shows "pair_ok w' i b' p'"
proof -
  have "\<exists>p'. get_pair w' j = Some p' \<and> peer p' = Some i" if "get_pair w j = Some p1" "peer p1 = Some i" for j p1
    using assms(5)[of j] that by (cases "get_pair w' j") auto
  then show ?thesis using assms(1-4) unfolding pair_ok_def by metis
qed

text \<open>Changing one struct but not its peer, or fields of a BIO the invariant does not read.\<close>

lemma pairs_ok_put:
  assumes ok: "pairs_ok w" and p: "get_pair w i = Some p" and p': "side_ok p'" "peer p' = peer p"
  shows "pairs_ok (put_pair w i p')"
  unfolding pairs_ok_def
proof (intro allI impI)
  fix k b r assume k: "put_pair w i p' k = Some b" "bio_ptr b = PtrPair r"
  obtain b0 where b0: "w i = Some b0" "bio_ptr b0 = PtrPair p" using p by (auto simp: get_pair_Some)
  have peers: "map_option peer (get_pair (put_pair w i p') j) = map_option peer (get_pair w j)" for j
    using p p'(2) b0(1) by simp
  show "pair_ok (put_pair w i p') k b r"
  proof (cases "k = i")
    case True
    then have "r = p'" "bio_init b = bio_init b0" using k b0 by (auto simp: put_pair_def)
    then show ?thesis using pair_ok_cong[OF pairs_okD[OF ok b0] p' _ peers] True by simp
  next
    case False
    then have "w k = Some b" using k by simp
    from pairs_okD[OF ok this k(2)] have old: "pair_ok w k b r" .
    then have "side_ok r" by (simp add: pair_ok_def)
    then show ?thesis by (rule pair_ok_cong[OF old _ refl refl peers])
  qed
qed

lemma pairs_ok_upd:
  assumes ok: "pairs_ok w" and f: "\<And>b. bio_ptr (f b) = bio_ptr b" "\<And>b. bio_init (f b) = bio_init b"
  shows "pairs_ok (upd_bio w i f)"
  unfolding pairs_ok_def
proof (intro allI impI)
  fix k b r assume k: "upd_bio w i f k = Some b" "bio_ptr b = PtrPair r"
  obtain b0 where b0: "w k = Some b0" "bio_ptr b0 = PtrPair r" "bio_init b = bio_init b0"
    using k f by (cases "k = i") auto
  have peers: "map_option peer (get_pair (upd_bio w i f) j) = map_option peer (get_pair w j)" for j
    using f(1) by (simp add: get_pair_upd)
  from pairs_okD[OF ok b0(1,2)] have old: "pair_ok w k b0 r" .
  then have "side_ok r" by (simp add: pair_ok_def)
  then show "pair_ok (upd_bio w i f) k b r" by (rule pair_ok_cong[OF old _ refl b0(3) peers])
qed

lemma methods_kept [simp]:
  "map_option bio_method (put_pair w i p k) = map_option bio_method (w k)"
  "(\<And>b. bio_method (f b) = bio_method b) \<Longrightarrow> map_option bio_method (upd_bio w i f k) = map_option bio_method (w k)"
  by (cases "k = i"; cases "w k"; simp add: put_pair_def)+

lemma retry_method [simp]:
  "bio_method (BIO_clear_retry_flags b) = bio_method b"
  "bio_method (BIO_set_retry_read b) = bio_method b"
  "bio_method (BIO_set_retry_write b) = bio_method b"
  by (simp_all add: BIO_clear_retry_flags_def BIO_set_retry_read_def BIO_set_retry_write_def)

lemma ring_rep_cong:
  "ring_rep p q \<Longrightarrow> bp_buf p' = bp_buf p \<Longrightarrow> bp_len p' = bp_len p \<Longrightarrow> bp_offset p' = bp_offset p \<Longrightarrow>
   bp_size p' = bp_size p \<Longrightarrow> ring_rep p' q"
  by (simp add: ring_rep_def)

lemma side_okI: "ring_rep p q \<Longrightarrow> side_ok p"
  using ring_rep_bounds[of p q] by (auto simp: side_ok_def)

section \<open>What reading and writing do\<close>

text \<open>BIO \<open>i\<close> is connected to \<open>j\<close> and its buffer holds \<open>q\<close>, written and not yet read.\<close>

definition holds :: "bio_heap \<Rightarrow> nat \<Rightarrow> nat \<Rightarrow> bio_bio \<Rightarrow> u8 list \<Rightarrow> bool" where
  "holds w i j p q \<longleftrightarrow> get_pair w i = Some p \<and> peer p = Some j \<and> ring_rep p q"

lemma pairs_ok_connected:
  assumes "pairs_ok w" "w i = Some b" "bio_ptr b = PtrPair p" "bio_init b"
  obtains j q p' q' where "holds w i j p q" "holds w j i p' q'" "j \<noteq> i"
proof -
  have ok: "pair_ok w i b p" using assms(1-3) by (rule pairs_okD)
  then obtain j p' where j: "peer p = Some j" "j \<noteq> i" "get_pair w j = Some p'" "peer p' = Some i"
    using assms(4) by (auto simp: pair_ok_def)
  moreover obtain q where "ring_rep p q" using ok j(1) by (auto simp: pair_ok_def side_ok_def)
  moreover obtain b' where "w j = Some b'" "bio_ptr b' = PtrPair p'" using j(3) by (auto simp: get_pair_Some)
  then have "pair_ok w j b' p'" using assms(1) by (intro pairs_okD)
  then obtain q' where "ring_rep p' q'" using j(4) by (auto simp: pair_ok_def side_ok_def)
  ultimately show ?thesis using that assms by (auto simp: holds_def get_pair_Some)
qed

lemma write_amount:
  assumes "0 < n" "n \<le> int INT_MAX"
  shows "size_of_int n = nat n" "0 < size_of_int n"
    "m \<le> nat n \<Longrightarrow> int_of_size m = int m"
  using assms by (simp_all add: size_of_int_nonneg int_of_size_small)

lemma bio_write_rep:
  assumes ok: "pairs_ok w" and h: "holds w i j p q" and n: "0 < n" "n \<le> int INT_MAX" "nat n \<le> length data"
  shows "\<exists>r w' p'. bio_write w i (Some data) n = Some (r, w') \<and> pairs_ok w' \<and> (\<forall>k. k \<noteq> i \<longrightarrow> w' k = w k) \<and>
     (\<forall>k. map_option bio_method (w' k) = map_option bio_method (w k)) \<and>
     closed p' = closed p \<and> bp_size p' = bp_size p \<and>
     (let k = min (nat n) (bp_size p - length q)
      in if closed p \<or> k = 0 then r = -1 \<and> holds w' i j p' q
         else r = int k \<and> holds w' i j p' (q @ take k data))"
proof -
  let ?w0 = "upd_bio w i BIO_clear_retry_flags"
  let ?p0 = "p\<lparr>bp_request := 0\<rparr>"
  obtain b where b: "w i = Some b" "bio_ptr b = PtrPair p" and pq: "peer p = Some j" "ring_rep p q"
    using h by (auto simp: holds_def get_pair_Some)
  have init: "bio_init b" using pairs_okD[OF ok b] pq by (simp add: pair_ok_def)
  have bnd: "length q \<le> bp_size p" "bp_size p < 2 ^ 63" "bp_buf p \<noteq> None" "bp_len p = length q"
    using ring_rep_bounds[OF pq(2)] ring_rep_len[OF pq(2)] by auto
  have free: "size_sub (bp_size p) (length q) = bp_size p - length q"
    using bnd by (intro size_sub_exact) (simp_all add: SIZE_MOD_def)
  have p0: "ring_rep ?p0 q" using pq(2) by (rule ring_rep_cong) simp_all
  have g0: "get_pair ?w0 i = Some p" using b by (simp add: get_pair_upd get_pair_Some)
  have ok1: "pairs_ok (put_pair ?w0 i ?p0)"
    using ok g0 side_okI[OF p0] by (intro pairs_ok_put[of _ _ p] pairs_ok_upd) simp_all
  have nonempty: "?w0 i \<noteq> None" using b by simp
  have h1: "holds (put_pair ?w0 i ?p0) i j ?p0 q"
    using nonempty p0 pq(1) by (simp add: holds_def)
  note w0 = b init g0 bnd free pq(1) write_amount[OF n(1,2)]
  show ?thesis
  proof (cases "closed p")
    case True
    then have "bio_write w i (Some data) n = Some (-1, put_pair ?w0 i ?p0)"
      using w0 by (simp add: bio_write_def Let_def)
    with True ok1 h1 show ?thesis by (intro exI[of _ "-1"] exI[of _ "put_pair ?w0 i ?p0"] exI[of _ ?p0]) simp
  next
    case opened: False
    show ?thesis
    proof (cases "length q = bp_size p")
      case True
      let ?w2 = "upd_bio (put_pair ?w0 i ?p0) i BIO_set_retry_write"
      have "bio_write w i (Some data) n = Some (-1, ?w2)"
        using w0 opened True by (simp add: bio_write_def Let_def)
      moreover have "pairs_ok ?w2" using ok1 by (rule pairs_ok_upd) simp_all
      moreover have "holds ?w2 i j ?p0 q" using h1 by (simp add: holds_def get_pair_upd)
      ultimately show ?thesis using True
        by (intro exI[of _ "-1"] exI[of _ "?w2"] exI[of _ ?p0]) simp
    next
      case False
      define k where "k = min (nat n) (bp_size p - length q)"
      have k: "0 < k" "k \<le> nat n" "length q + k \<le> bp_size p" using False bnd(1) n by (auto simp: k_def)
      obtain b' where b': "write_loop ?p0 (take k data) = Some b'" "ring_rep b' (q @ take k data)" "same_side ?p0 b'"
        using write_loop_rep[OF p0, of "take k data"] k n by (cases "data = []") (auto simp: min_absorb2)
      let ?w2 = "put_pair (put_pair ?w0 i ?p0) i b'"
      have "bio_write w i (Some data) n = Some (int k, ?w2)"
      proof (cases "bp_size p - length q < nat n")
        case True
        then have e: "bp_size p - length q = k" by (simp add: k_def)
        show ?thesis using True w0 opened False k n b'(1) unfolding bio_write_def Let_def by (simp add: e)
      next
        case more: False
        then have e: "nat n = k" "n = int k" using n by (simp_all add: k_def)
        show ?thesis using more w0 opened False k n b'(1) unfolding bio_write_def Let_def by (simp add: e)
      qed
      moreover have "pairs_ok ?w2"
        by (rule pairs_ok_put[OF ok1, of i ?p0])
          (use side_okI[OF b'(2)] b'(3) nonempty in \<open>simp_all add: same_side_def\<close>)
      moreover have "holds ?w2 i j b' (q @ take k data)"
        using b' nonempty pq(1) by (simp add: holds_def same_side_def)
      ultimately show ?thesis using opened k b'(3) unfolding k_def[symmetric] Let_def
        by (intro exI[of _ "int k"] exI[of _ ?w2] exI[of _ b']) (simp add: same_side_def)
    qed
  qed
qed

lemma bio_read_rep:
  assumes ok: "pairs_ok w" and h: "holds w j i p q" and n: "0 < n" "n \<le> int INT_MAX" and ij: "i \<noteq> j"
  shows "\<exists>r out w' p'. bio_read w i True n = Some (r, out, w') \<and> pairs_ok w' \<and>
     (\<forall>k. k \<noteq> i \<longrightarrow> k \<noteq> j \<longrightarrow> w' k = w k) \<and> get_pair w' i = get_pair w i \<and>
     (\<forall>k. map_option bio_method (w' k) = map_option bio_method (w k)) \<and>
     closed p' = closed p \<and> bp_size p' = bp_size p \<and>
     (let k = min (nat n) (length q)
      in if k = 0 then r = (if closed p then 0 else -1) \<and> out = [] \<and> holds w' j i p' q
         else r = int k \<and> out = map Some (take k q) \<and> holds w' j i p' (drop k q))"
proof -
  let ?w0 = "upd_bio w i BIO_clear_retry_flags"
  let ?p0 = "p\<lparr>bp_request := 0\<rparr>"
  let ?w1 = "put_pair ?w0 j ?p0"
  obtain bj where bj: "w j = Some bj" "bio_ptr bj = PtrPair p" and pq: "peer p = Some i" "ring_rep p q"
    using h by (auto simp: holds_def get_pair_Some)
  obtain b pi where b: "w i = Some b" "bio_ptr b = PtrPair pi" "peer pi = Some j"
    using pairs_okD[OF ok bj] pq(1) by (auto simp: pair_ok_def get_pair_Some)
  have init: "bio_init b" using pairs_okD[OF ok b(1,2)] b(3) by (simp add: pair_ok_def)
  have bnd: "bp_size p < 2 ^ 63" "bp_buf p \<noteq> None" "bp_len p = length q"
    using ring_rep_bounds[OF pq(2)] ring_rep_len[OF pq(2)] by auto
  have p0: "ring_rep ?p0 q" using pq(2) by (rule ring_rep_cong) simp_all
  have g0: "get_pair ?w0 i = Some pi" "get_pair ?w0 j = Some p"
    using b bj by (simp_all add: get_pair_upd get_pair_Some)
  have ok1: "pairs_ok ?w1"
    using ok g0 side_okI[OF p0] by (intro pairs_ok_put[of _ _ p] pairs_ok_upd) simp_all
  have nonempty: "?w0 j \<noteq> None" using bj ij by simp
  have h1: "holds ?w1 j i ?p0 q" using nonempty p0 pq(1) by (simp add: holds_def)
  have gi: "get_pair ?w1 i = get_pair w i" using ij by (simp add: get_pair_upd)
  note w0 = b init g0 bnd pq(1) write_amount[OF n]
  show ?thesis
  proof (cases "q = []")
    case q: True
    show ?thesis
    proof (cases "closed p")
      case True
      then have "bio_read w i True n = Some (0, [], ?w1)"
        using w0 q by (simp add: bio_read_def Let_def)
      then show ?thesis using q True ok1 h1 gi
        by (intro exI[of _ 0] exI[of _ "[]"] exI[of _ ?w1] exI[of _ ?p0]) simp
    next
      case False
      define req where "req = (if size_of_int n \<le> bp_size p then size_of_int n else bp_size p)"
      let ?p2 = "?p0\<lparr>bp_request := req\<rparr>"
      let ?w2 = "put_pair (upd_bio ?w1 i BIO_set_retry_read) j ?p2"
      have "bio_read w i True n = Some (-1, [], ?w2)"
        using w0 q False by (simp add: bio_read_def Let_def req_def)
      moreover have p2: "ring_rep ?p2 q" using p0 by (rule ring_rep_cong) simp_all
      moreover have "pairs_ok (upd_bio ?w1 i BIO_set_retry_read)" using ok1 by (rule pairs_ok_upd) simp_all
      then have "pairs_ok ?w2"
        by (rule pairs_ok_put[of _ _ ?p0]) (use nonempty side_okI[OF p2] in \<open>simp_all add: get_pair_upd\<close>)
      moreover have "holds ?w2 j i ?p2 q" using p2 pq(1) ij nonempty by (auto simp: holds_def)
      moreover have "get_pair ?w2 i = get_pair w i" using ij by (simp add: get_pair_upd)
      ultimately show ?thesis using q False
        by (intro exI[of _ "-1"] exI[of _ "[]"] exI[of _ ?w2] exI[of _ ?p2]) simp
    qed
  next
    case q: False
    define k where "k = min (nat n) (length q)"
    have k: "0 < k" "k \<le> nat n" "k \<le> length q" using q n by (auto simp: k_def)
    obtain p' where p': "read_loop ?p0 k = Some (map Some (take k q), p')" "ring_rep p' (drop k q)" "same_side ?p0 p'"
      using read_loop_rep[OF p0 k(1,3)] by auto
    let ?w2 = "put_pair ?w1 j p'"
    have "bio_read w i True n = Some (int k, map Some (take k q), ?w2)"
    proof (cases "length q < nat n")
      case True
      then have e: "length q = k" by (simp add: k_def)
      show ?thesis using True w0 q k p'(1) unfolding bio_read_def Let_def by (simp add: e)
    next
      case False
      then have e: "nat n = k" "n = int k" using n by (simp_all add: k_def)
      show ?thesis using False w0 q k p'(1) unfolding bio_read_def Let_def by (simp add: e)
    qed
    moreover have "pairs_ok ?w2"
      by (rule pairs_ok_put[OF ok1, of j ?p0])
        (use side_okI[OF p'(2)] p'(3) nonempty in \<open>simp_all add: same_side_def\<close>)
    moreover have "holds ?w2 j i p' (drop k q)"
      using p' nonempty pq(1) by (simp add: holds_def same_side_def)
    moreover have "get_pair ?w2 i = get_pair w i" using ij by (simp add: get_pair_upd)
    ultimately show ?thesis using k p'(3) unfolding k_def[symmetric] Let_def
      by (intro exI[of _ "int k"] exI[of _ "map Some (take k q)"] exI[of _ ?w2] exI[of _ p']) (simp add: same_side_def)
  qed
qed

section \<open>Connecting and disconnecting keep the invariant\<close>

text \<open>Storing at \<open>i\<close> something that is not connected, where nothing connected was.\<close>

definition loose :: "BIO option \<Rightarrow> bool" where
  "loose x \<longleftrightarrow> (\<forall>b p. x = Some b \<longrightarrow> bio_ptr b = PtrPair p \<longrightarrow> side_ok p \<and> peer p = None \<and> \<not> bio_init b)"

lemma pairs_ok_set:
  assumes ok: "pairs_ok w" and old: "\<forall>p. get_pair w i = Some p \<longrightarrow> peer p = None" and x: "loose x"
  shows "pairs_ok (w(i := x))"
  unfolding pairs_ok_def
proof (intro allI impI)
  fix k b p assume k: "(w(i := x)) k = Some b" "bio_ptr b = PtrPair p"
  show "pair_ok (w(i := x)) k b p"
  proof (cases "k = i")
    case True
    then show ?thesis using k x by (auto simp: loose_def pair_ok_def)
  next
    case False
    then have old_ok: "pair_ok w k b p" using k by (intro pairs_okD[OF ok]) simp_all
    have "get_pair (w(i := x)) j = get_pair w j" if "peer p = Some j" for j
      using old_ok that old by (auto simp: pair_ok_def get_pair_def)
    then show ?thesis using old_ok unfolding pair_ok_def by (metis (no_types))
  qed
qed

definition unlinked :: "BIO \<Rightarrow> bio_bio \<Rightarrow> BIO" where
  "unlinked b p = b\<lparr>bio_init := False, bio_ptr := PtrPair (p\<lparr>peer := None, bp_len := 0, bp_offset := 0\<rparr>)\<rparr>"

lemma side_ok_unlinked: "side_ok p \<Longrightarrow> side_ok (p\<lparr>peer := None, bp_len := 0, bp_offset := 0\<rparr>)"
  unfolding side_ok_def ring_rep_def by (auto simp: ring_def)

lemma pairs_ok_unlink:
  assumes ok: "pairs_ok w" and i: "w i = Some b" "bio_ptr b = PtrPair p" "peer p = Some j"
    and j: "w j = Some b'" "bio_ptr b' = PtrPair p'"
  shows "pairs_ok (w(i \<mapsto> unlinked b p, j \<mapsto> unlinked b' p'))"
  unfolding pairs_ok_def
proof (intro allI impI)
  let ?w = "w(i \<mapsto> unlinked b p, j \<mapsto> unlinked b' p')"
  have oki: "pair_ok w i b p" and okj: "pair_ok w j b' p'" using pairs_okD[OF ok] i j by auto
  have pj: "peer p' = Some i" using oki i j by (auto simp: pair_ok_def get_pair_Some)
  fix k c r assume k: "?w k = Some c" "bio_ptr c = PtrPair r"
  show "pair_ok ?w k c r"
  proof (cases "k = i \<or> k = j")
    case True
    then show ?thesis using k oki okj
      by (auto simp: pair_ok_def unlinked_def dest: side_ok_unlinked split: if_splits)
  next
    case False
    then have c: "pair_ok w k c r" using k by (intro pairs_okD[OF ok]) simp_all
    have "get_pair ?w l = get_pair w l" if "peer r = Some l" for l
      using c that False i j pj by (auto simp: pair_ok_def get_pair_def)
    then show ?thesis using c unfolding pair_ok_def by (metis (no_types))
  qed
qed

lemma bio_destroy_pair_rep:
  assumes ok: "pairs_ok w" and i: "w i = Some b" "bio_ptr b = PtrPair p" "peer p = Some j"
  shows "\<exists>b' p'. w j = Some b' \<and> bio_ptr b' = PtrPair p' \<and> j \<noteq> i \<and>
     bio_destroy_pair w i = Some (w(i \<mapsto> unlinked b p, j \<mapsto> unlinked b' p'))"
proof -
  have oki: "pair_ok w i b p" using pairs_okD[OF ok] i by auto
  then obtain b' p' where j: "w j = Some b'" "bio_ptr b' = PtrPair p'" "peer p' = Some i" "j \<noteq> i"
    using i by (auto simp: pair_ok_def get_pair_Some)
  have okj: "pair_ok w j b' p'" using pairs_okD[OF ok] j by auto
  have bufs: "bp_buf p \<noteq> None" "bp_buf p' \<noteq> None" using oki okj i j by (auto simp: pair_ok_def side_ok_def)
  have gi: "get_pair w i = Some p" "get_pair w j = Some p'" using i j by (auto simp: get_pair_Some)
  have "bio_destroy_pair w i = Some (w(i \<mapsto> unlinked b p, j \<mapsto> unlinked b' p'))"
    using i j bufs gi
    by (auto simp: bio_destroy_pair_def empty_side_def get_pair_upd unlinked_def put_pair_def upd_bio_def
        get_pair_def)
  then show ?thesis using j by blast
qed

lemma bio_free_rep:
  assumes ok: "pairs_ok w" and i: "w i = Some b" "bio_ptr b = PtrPair p"
  shows "\<exists>w' b'. bio_free w i = Some w' \<and> pairs_ok w' \<and> w' i = Some b' \<and> bio_ptr b' = PtrNull \<and>
     (\<forall>k. k \<noteq> i \<longrightarrow> peer p \<noteq> Some k \<longrightarrow> w' k = w k) \<and> (\<forall>k. w' k = None \<longleftrightarrow> w k = None)"
proof (cases "peer p")
  case None
  let ?w = "w(i \<mapsto> b\<lparr>bio_ptr := PtrNull\<rparr>)"
  have "bio_free w i = Some ?w" using i None by (simp add: bio_free_def get_pair_def upd_bio_def)
  moreover have "pairs_ok ?w"
    by (rule pairs_ok_set[OF ok]) (use i None in \<open>simp_all add: get_pair_def loose_def\<close>)
  ultimately show ?thesis using i by auto
next
  case (Some j)
  obtain b' p' where j: "w j = Some b'" "bio_ptr b' = PtrPair p'" "j \<noteq> i"
      "bio_destroy_pair w i = Some (w(i \<mapsto> unlinked b p, j \<mapsto> unlinked b' p'))"
    using bio_destroy_pair_rep[OF ok i Some] by auto
  let ?w1 = "w(i \<mapsto> unlinked b p, j \<mapsto> unlinked b' p')"
  let ?w = "?w1(i \<mapsto> (unlinked b p)\<lparr>bio_ptr := PtrNull\<rparr>)"
  have "bio_free w i = Some ?w"
    using i Some j by (simp add: bio_free_def get_pair_def upd_bio_def)
  moreover have "pairs_ok ?w"
    by (rule pairs_ok_set[OF pairs_ok_unlink[OF ok i Some j(1,2)]])
      (use j(3) in \<open>simp_all add: get_pair_def loose_def unlinked_def\<close>)
  ultimately show ?thesis using i j Some by (intro exI[of _ ?w]) auto
qed

lemma bio_new_loose:
  "bio_new sys b0 = Some b \<Longrightarrow> \<not> bio_init b0 \<Longrightarrow> loose (Some b) \<and> bio_init b = bio_init b0 \<and> (\<exists>p. bio_ptr b = PtrPair p \<and> peer p = None \<and> bp_buf p = None \<and> bp_size p = 17 * 1024)"
  by (auto simp: bio_new_def loose_def side_ok_def split: if_splits)

lemma alloc_side_rep:
  assumes sys: "malloc_bounded sys" and n: "n < SIZE_MOD - 8" and p: "side_ok p" "peer p = None"
      "bp_size p < SIZE_MOD - 8" "bp_buf p \<noteq> None \<longrightarrow> bp_len p = 0"
    and r: "alloc_side sys p n = (ok, p')"
  shows "side_ok p' \<and> peer p' = None \<and> bp_size p' < SIZE_MOD - 8 \<and> (ok \<longrightarrow> ring_rep p' []) \<and>
     (bp_buf p = None \<longrightarrow> bp_size p' = (if n \<noteq> 0 then n else bp_size p)) \<and>
     (bp_buf p' \<noteq> None \<longrightarrow> bp_len p' = 0)"
proof (cases "bp_buf p")
  case None
  define s where "s = (if n \<noteq> 0 then n else bp_size p)"
  have s: "0 < s" "s < SIZE_MOD - 8" using n p by (auto simp: s_def side_ok_def)
  have upd: "(if n \<noteq> 0 then p\<lparr>bp_size := n\<rparr> else p) = p\<lparr>bp_size := s\<rparr>"
    by (rule bio_bio.equality) (simp_all add: s_def)
  have step: "alloc_side sys p n = (case OPENSSL_malloc sys s of None \<Rightarrow> (False, p\<lparr>bp_size := s\<rparr>)
      | Some m \<Rightarrow> (True, p\<lparr>bp_size := s, bp_buf := Some m, bp_len := 0, bp_offset := 0\<rparr>))"
    using None unfolding alloc_side_def upd Let_def by simp
  show ?thesis
  proof (cases "OPENSSL_malloc sys s")
    case Fail: None
    then have p': "p' = p\<lparr>bp_size := s\<rparr>" "ok = False" using r step by simp_all
    have "s = (if n \<noteq> 0 then n else bp_size p)" by (rule s_def)
    moreover have "side_ok p'" using None p s by (simp add: side_ok_def p')
    ultimately show ?thesis using None p s by (simp add: p')
  next
    case (Some m)
    have sa: "size_add s 8 = s + 8" using s by (intro size_add_exact) simp
    from Some have m: "m = replicate s None" "s < 2 ^ 63"
      using sys by (auto simp: OPENSSL_malloc_def OPENSSL_MALLOC_PREFIX_def Let_def sa malloc_bounded_def split: if_splits)
    have p': "p' = p\<lparr>bp_size := s, bp_buf := Some m, bp_len := 0, bp_offset := 0\<rparr>" "ok = True"
      using r step Some by simp_all
    have "ring_rep p' []" using m s by (simp add: ring_rep_def ring_def p')
    moreover from this have "side_ok p'" by (rule side_okI)
    moreover have "s = (if n \<noteq> 0 then n else bp_size p)" by (rule s_def)
    ultimately show ?thesis using None p s m by (simp add: p')
  qed
next
  case (Some m)
  then have "ok = True" "p' = p" using r by (simp_all add: alloc_side_def)
  moreover obtain q where q: "ring_rep p q" using Some p(1) by (auto simp: side_ok_def)
  moreover have "q = []" using ring_rep_len[OF q] p(4) Some by simp
  ultimately show ?thesis using p Some by simp
qed

lemma pairs_ok_link:
  assumes ok: "pairs_ok w" and i: "w i = Some b" "bio_ptr b = PtrPair p" "peer p = None" "ring_rep p q"
    and j: "w j = Some b'" "bio_ptr b' = PtrPair p'" "peer p' = None" "ring_rep p' q'" and ij: "i \<noteq> j"
  shows "pairs_ok (w(i \<mapsto> b\<lparr>bio_init := True, bio_ptr := PtrPair (p\<lparr>peer := Some j, closed := False, bp_request := 0\<rparr>)\<rparr>,
                    j \<mapsto> b'\<lparr>bio_init := True, bio_ptr := PtrPair (p'\<lparr>peer := Some i, closed := False, bp_request := 0\<rparr>)\<rparr>))"
    (is "pairs_ok ?w")
  unfolding pairs_ok_def
proof (intro allI impI)
  have side: "side_ok (p\<lparr>peer := Some j, closed := False, bp_request := 0\<rparr>)"
      "side_ok (p'\<lparr>peer := Some i, closed := False, bp_request := 0\<rparr>)"
    by (rule side_okI[OF ring_rep_cong[OF i(4)]]; simp) (rule side_okI[OF ring_rep_cong[OF j(4)]]; simp)
  fix k c r assume k: "?w k = Some c" "bio_ptr c = PtrPair r"
  show "pair_ok ?w k c r"
  proof (cases "k = i \<or> k = j")
    case True
    then show ?thesis using k side ij by (auto simp: pair_ok_def get_pair_def split: if_splits)
  next
    case False
    then have c: "pair_ok w k c r" using k by (intro pairs_okD[OF ok]) simp_all
    have "get_pair ?w l = get_pair w l" if "peer r = Some l" for l
      using c that False i j by (auto simp: pair_ok_def get_pair_def)
    then show ?thesis using c unfolding pair_ok_def by (metis (no_types))
  qed
qed

lemma holds_put:
  assumes "holds w i j p q" "peer p' = peer p" "ring_rep p' q"
  shows "holds (put_pair w i p') i j p' q"
proof -
  have "w i \<noteq> None" using assms(1) by (auto simp: holds_def get_pair_Some)
  then show ?thesis using assms by (simp add: holds_def)
qed

text \<open>Control commands on one side of a pair lose no byte.\<close>

lemma bio_ctrl_rep:
  assumes ok: "pairs_ok w" and h: "holds w i j p q" "holds w j i p' q'" and ij: "i \<noteq> j"
  shows "\<exists>r w' p1. bio_ctrl w i cmd num None = Some (r, w') \<and> pairs_ok w' \<and> holds w' i j p1 q \<and>
    (\<forall>k. k \<noteq> i \<longrightarrow> w' k = w k) \<and> (\<forall>k. map_option bio_method (w' k) = map_option bio_method (w k))"
proof -
  obtain b where b: "w i = Some b" "bio_ptr b = PtrPair p" using h(1) by (auto simp: holds_def get_pair_Some)
  have g: "get_pair w i = Some p" "get_pair w j = Some p'" "peer p = Some j" "ring_rep p q"
    using h by (auto simp: holds_def)
  note un = bio_ctrl_def BIO_C_GET_WRITE_BUF_SIZE_def BIO_C_GET_WRITE_GUARANTEE_def BIO_C_GET_READ_REQUEST_def
    BIO_C_RESET_READ_REQUEST_def BIO_C_SHUTDOWN_WR_def BIO_CTRL_GET_CLOSE_def BIO_CTRL_SET_CLOSE_def
    BIO_CTRL_PENDING_def BIO_CTRL_WPENDING_def BIO_CTRL_FLUSH_def BIO_CTRL_EOF_def
  have put: ?thesis if "bio_ctrl w i cmd num None = Some (1, put_pair w i p1)" "peer p1 = peer p" "ring_rep p1 q" for p1
  proof -
    have "pairs_ok (put_pair w i p1)"
      by (rule pairs_ok_put[OF ok g(1)]) (use that side_okI in auto)
    then show ?thesis using that holds_put[OF h(1)] by (intro exI[of _ 1] exI[of _ "put_pair w i p1"] exI[of _ p1]) auto
  qed
  consider "cmd = BIO_C_RESET_READ_REQUEST" | "cmd = BIO_C_SHUTDOWN_WR" | "cmd = BIO_CTRL_SET_CLOSE"
    | "cmd \<noteq> BIO_C_RESET_READ_REQUEST" "cmd \<noteq> BIO_C_SHUTDOWN_WR" "cmd \<noteq> BIO_CTRL_SET_CLOSE" by blast
  then show ?thesis
  proof cases
    case 1
    then show ?thesis by (intro put[of "p\<lparr>bp_request := 0\<rparr>"]) (use b g in \<open>auto simp: un intro: ring_rep_cong\<close>)
  next
    case 2
    then show ?thesis by (intro put[of "p\<lparr>closed := True\<rparr>"]) (use b g in \<open>auto simp: un intro: ring_rep_cong\<close>)
  next
    case 3
    let ?w = "upd_bio w i (\<lambda>b. b\<lparr>bio_shutdown := int_of_long num\<rparr>)"
    have "bio_ctrl w i cmd num None = Some (1, ?w)" using 3 b g by (simp add: un)
    moreover have "pairs_ok ?w" using ok by (rule pairs_ok_upd) simp_all
    moreover have "holds ?w i j p q" using h(1) by (simp add: holds_def get_pair_upd)
    ultimately show ?thesis by (intro exI[of _ 1] exI[of _ ?w] exI[of _ p]) simp
  next
    case 4
    have "\<exists>r. bio_ctrl w i cmd num None = Some (r, w)"
      using 4 b g unfolding bio_ctrl_def by auto
    then show ?thesis using ok h(1) by auto
  qed
qed

definition fresh_side :: "bio_bio \<Rightarrow> bool" where
  "fresh_side p \<longleftrightarrow> peer p = None \<and> bp_buf p = None \<and> bp_len p = 0 \<and> bp_size p = 17 * 1024"

lemma bio_make_pair_fresh:
  assumes ok: "pairs_ok w" and sys: "malloc_bounded sys" "n1 < SIZE_MOD - 8" "n2 < SIZE_MOD - 8"
    and i: "w i = Some b" "bio_ptr b = PtrPair p" "fresh_side p"
    and j: "w j = Some b'" "bio_ptr b' = PtrPair p'" "fresh_side p'" and ij: "i \<noteq> j"
    and r: "bio_make_pair sys w i j n1 n2 = Some (True, w')"
  shows "pairs_ok w' \<and> (\<exists>q q'. holds w' i j q [] \<and> holds w' j i q' []) \<and>
    (\<forall>k. map_option bio_method (w' k) = map_option bio_method (w k))"
proof -
  have g: "get_pair w i = Some p" "get_pair w j = Some p'" using i j by (auto simp: get_pair_Some)
  obtain ok1 q where a1: "alloc_side sys p n1 = (ok1, q)" by fastforce
  obtain ok2 q' where a2: "alloc_side sys p' n2 = (ok2, q')" by fastforce
  have small: "17 * 1024 < SIZE_MOD - 8" by (simp add: SIZE_MOD_def)
  have side: "side_ok p" "side_ok p'" using i(3) j(3) by (simp_all add: fresh_side_def side_ok_def)
  have A1: "side_ok q \<and> peer q = None \<and> (ok1 \<longrightarrow> ring_rep q [])"
    using alloc_side_rep[OF sys(1,2) side(1) _ _ _ a1] i(3) small by (auto simp: fresh_side_def)
  have A2: "side_ok q' \<and> peer q' = None \<and> (ok2 \<longrightarrow> ring_rep q' [])"
    using alloc_side_rep[OF sys(1,3) side(2) _ _ _ a2] j(3) small by (auto simp: fresh_side_def)
  let ?w1 = "put_pair (put_pair w i q) j q'"
  let ?qi = "q\<lparr>peer := Some j, closed := False, bp_request := 0\<rparr>"
  let ?qj = "q'\<lparr>peer := Some i, closed := False, bp_request := 0\<rparr>"
  have oks: "ok1" "ok2" using r i j g a1 a2 ij unfolding bio_make_pair_def Let_def
    by (auto simp: fresh_side_def split: if_splits)
  have w': "w' = upd_bio (upd_bio (put_pair (put_pair ?w1 i ?qi) j ?qj) i (\<lambda>b. b\<lparr>bio_init := True\<rparr>)) j (\<lambda>b. b\<lparr>bio_init := True\<rparr>)"
    using r i j g a1 a2 ij oks unfolding bio_make_pair_def Let_def by (simp add: fresh_side_def)
  have ok1: "pairs_ok (put_pair w i q)"
    by (rule pairs_ok_put[OF ok g(1)]) (use A1 i(3) in \<open>auto simp: fresh_side_def\<close>)
  have w1: "pairs_ok ?w1"
    by (rule pairs_ok_put[OF ok1, of j p']) (use A2 j(3) g(2) ij in \<open>auto simp: fresh_side_def\<close>)
  have wi: "?w1 i = Some (b\<lparr>bio_ptr := PtrPair q\<rparr>)" "?w1 j = Some (b'\<lparr>bio_ptr := PtrPair q'\<rparr>)"
    using i j ij by (simp_all add: put_pair_def)
  have "w' = ?w1(i \<mapsto> (b\<lparr>bio_ptr := PtrPair q\<rparr>)\<lparr>bio_init := True, bio_ptr := PtrPair ?qi\<rparr>,
      j \<mapsto> (b'\<lparr>bio_ptr := PtrPair q'\<rparr>)\<lparr>bio_init := True, bio_ptr := PtrPair ?qj\<rparr>)"
    unfolding w' using wi ij by (auto simp: put_pair_def upd_bio_def fun_eq_iff)
  then have "pairs_ok w'"
    using pairs_ok_link[OF w1 wi(1) _ _ _ wi(2) _ _ _ ij, of q "[]" q' "[]"] A1 A2 oks by simp
  moreover have "holds w' i j ?qi []" "holds w' j i ?qj []"
    using A1 A2 oks i j ij by (auto simp: holds_def w' get_pair_upd intro: ring_rep_cong)
  moreover have "\<forall>k. map_option bio_method (w' k) = map_option bio_method (w k)"
    by (simp add: w')
  ultimately show ?thesis by blast
qed

end
