(* ===== verification/Bio_Mem.thy ===== *)
theory Bio_Mem
  imports Bio_Pair
begin

text \<open>
  Memory BIOs, \<^verbatim>\<open>crypto/bio/bio_mem.c\<close>: a \<open>BUF_MEM\<close> behind the BIO interface, either owned and
  growing or a read-only view of the caller's bytes. The methods as functions of the BIO, and
  the byte queue they implement.
\<close>

section \<open>The methods\<close>

definition get_mem :: "BIO \<Rightarrow> mem_bio option" where
  "get_mem b = (case bio_ptr b of PtrMem m \<Rightarrow> Some m | _ \<Rightarrow> None)"

definition put_mem :: "BIO \<Rightarrow> mem_bio \<Rightarrow> BIO" where
  "put_mem b m = b\<lparr>bio_ptr := PtrMem m\<rparr>"

text \<open>The cells from the \<open>data\<close> pointer on.\<close>

definition mb_cells :: "mem_bio \<Rightarrow> cell list" where
  "mb_cells m = drop (mb_skip m) (bm_cells (mb_mem m))"

definition is_rdonly :: "BIO \<Rightarrow> bool" where
  "is_rdonly b \<longleftrightarrow> bio_flags b AND BIO_FLAGS_MEM_RDONLY \<noteq> 0"

definition sizeof_BUF_MEM :: nat where
  "sizeof_BUF_MEM = 24"

definition mem_new :: "sys_malloc \<Rightarrow> BIO \<Rightarrow> BIO option" where
  "mem_new sys bio =
     (if OPENSSL_malloc sys sizeof_BUF_MEM = None then None
      else Some (bio\<lparr>bio_shutdown := 1, bio_init := True, bio_num := -1,
                     bio_ptr := PtrMem \<lparr>mb_mem = BUF_MEM_new, mb_skip = 0\<rparr>\<rparr>))"

definition mem_free :: "BIO \<Rightarrow> BIO" where
  "mem_free bio =
     (if bio_shutdown bio = 0 \<or> \<not> bio_init bio \<or> bio_ptr bio = PtrNull then bio
      else bio\<lparr>bio_ptr := PtrNull\<rparr>)"

definition mem_take :: "BIO \<Rightarrow> mem_bio \<Rightarrow> nat \<Rightarrow> mem_bio" where
  "mem_take bio b n =
     (let mem = mb_mem b; len = size_sub (bm_length mem) n
      in if is_rdonly bio then b\<lparr>mb_mem := mem\<lparr>bm_length := len\<rparr>, mb_skip := mb_skip b + n\<rparr>
         else b\<lparr>mb_mem := mem\<lparr>bm_length := len,
                bm_data := map_option (\<lambda>d. overwrite d 0 (take len (drop n d))) (bm_data mem)\<rparr>\<rparr>)"

definition mem_read :: "BIO \<Rightarrow> int \<Rightarrow> (int \<times> cell list \<times> BIO) option" where
  "mem_read bio outl = do {
     b \<leftarrow> get_mem bio;
     let bio = BIO_clear_retry_flags bio;
     let len = bm_length (mb_mem b);
     let ret = (if len < INT_MAX \<and> outl > int_of_size len then int_of_size len else outl);
     if ret > 0
     then do {
       C_assert (nat ret \<le> length (mb_cells b));
       Some (ret, take (nat ret) (mb_cells b), put_mem bio (mem_take bio b (nat ret))) }
     else if len = 0
     then Some (bio_num bio, [], if bio_num bio \<noteq> 0 then BIO_set_retry_read bio else bio)
     else Some (ret, [], bio) }"

text \<open>
  The sums are computed as \<open>int\<close>s; a length above \<open>INT_MAX\<close>, for which the subtraction
  would overflow, has no result.
\<close>

definition mem_write :: "sys_malloc \<Rightarrow> BIO \<Rightarrow> u8 list \<Rightarrow> int \<Rightarrow> (int \<times> BIO) option" where
  "mem_write sys bio inp inl = do {
     b \<leftarrow> get_mem bio;
     if is_rdonly bio then Some (-1, bio)
     else do {
       let bio = BIO_clear_retry_flags bio;
       let blen = int_of_size (bm_length (mb_mem b));
       C_assert (0 \<le> blen);
       if int INT_MAX - blen < inl then Some (-1, bio)
       else do {
         let (mem, n) = BUF_MEM_grow_clean sys (mb_mem b) (size_of_int (blen + inl));
         let bio = put_mem bio (b\<lparr>mb_mem := mem\<rparr>);
         if n \<noteq> size_add (size_of_int blen) (size_of_int inl) then Some (-1, bio)
         else do {
           C_assert (0 \<le> inl \<and> nat inl \<le> length inp);
           C_assert (nat blen + nat inl \<le> length (bm_cells mem));
           Some (inl, put_mem bio (b\<lparr>mb_mem := bm_store mem (nat blen) (take (nat inl) inp)\<rparr>)) } } } }"

text \<open>How many of the first \<open>j\<close> cells go up to and including the first newline.\<close>

fun gets_len :: "cell list \<Rightarrow> nat \<Rightarrow> nat" where
  "gets_len (c # cs) (Suc j) = (if c = Some 10 then 1 else Suc (gets_len cs j))"
| "gets_len cs j = 0"

definition mem_gets :: "BIO \<Rightarrow> int \<Rightarrow> (int \<times> cell list \<times> BIO) option" where
  "mem_gets bio size0 = do {
     b \<leftarrow> get_mem bio;
     let bio = BIO_clear_retry_flags bio;
     let j = int_of_size (bm_length (mb_mem b));
     let j = (if size0 - 1 < j then size0 - 1 else j);
     if j \<le> 0 then Some (0, if size0 > 0 then [Some 0] else [], bio)
     else do {
       C_assert (nat j \<le> length (mb_cells b));
       let i = gets_len (mb_cells b) (nat j);
       (i, out, bio) \<leftarrow> mem_read bio (int i);
       Some (i, if i > 0 then out @ [Some 0] else out, bio) } }"

section \<open>Control\<close>

definition BIO_C_SET_BUF_MEM :: int where "BIO_C_SET_BUF_MEM = 114"
definition BIO_C_GET_BUF_MEM_PTR :: int where "BIO_C_GET_BUF_MEM_PTR = 115"
definition BIO_C_SET_BUF_MEM_EOF_RETURN :: int where "BIO_C_SET_BUF_MEM_EOF_RETURN = 130"

definition mem_reset :: "BIO \<Rightarrow> mem_bio \<Rightarrow> BIO" where
  "mem_reset bio b =
     (let mem = mb_mem b
      in if bm_data mem = None then bio
         else if is_rdonly bio
         then put_mem bio (b\<lparr>mb_skip := mb_skip b - (bm_max mem - bm_length mem),
                              mb_mem := mem\<lparr>bm_length := bm_max mem\<rparr>\<rparr>)
         else put_mem bio (b\<lparr>mb_mem := (bm_store mem 0 (replicate (bm_max mem) 0))\<lparr>bm_length := 0\<rparr>\<rparr>))"

text \<open>
  \<open>ptr\<close> is the \<open>BUF_MEM\<close> that \<open>BIO_C_SET_BUF_MEM\<close> installs; the commands that store a pointer
  through it do not change the BIO.
\<close>

definition mem_ctrl :: "BIO \<Rightarrow> int \<Rightarrow> int \<Rightarrow> BUF_MEM option \<Rightarrow> (int \<times> BIO) option" where
  "mem_ctrl bio cmd num ptr = do {
     b \<leftarrow> get_mem bio;
     let len = bm_length (mb_mem b);
     if cmd = BIO_CTRL_RESET then Some (1, mem_reset bio b)
     else if cmd = BIO_CTRL_EOF then Some (long_of_bool (len = 0), bio)
     else if cmd = BIO_C_SET_BUF_MEM_EOF_RETURN then Some (1, bio\<lparr>bio_num := int_of_long num\<rparr>)
     else if cmd = BIO_CTRL_INFO then Some (long_of_size len, bio)
     else if cmd = BIO_C_SET_BUF_MEM
     then Some (1, (mem_free bio)\<lparr>bio_shutdown := int_of_long num,
                      bio_ptr := (case ptr of None \<Rightarrow> PtrNull
                                  | Some m \<Rightarrow> PtrMem \<lparr>mb_mem = m, mb_skip = 0\<rparr>)\<rparr>)
     else if cmd = BIO_C_GET_BUF_MEM_PTR then Some (1, bio)
     else if cmd = BIO_CTRL_GET_CLOSE then Some (bio_shutdown bio, bio)
     else if cmd = BIO_CTRL_SET_CLOSE then Some (1, bio\<lparr>bio_shutdown := int_of_long num\<rparr>)
     else if cmd = BIO_CTRL_WPENDING then Some (0, bio)
     else if cmd = BIO_CTRL_PENDING then Some (long_of_size len, bio)
     else if cmd = BIO_CTRL_FLUSH then Some (1, bio)
     else Some (0, bio) }"

section \<open>The bytes a memory BIO holds\<close>

definition mem_rep :: "BIO \<Rightarrow> u8 list \<Rightarrow> bool" where
  "mem_rep bio q \<longleftrightarrow>
     (\<exists>b. bio_ptr bio = PtrMem b \<and> length q = bm_length (mb_mem b) \<and> length q \<le> INT_MAX \<and>
        (if is_rdonly bio
         then mb_skip b + length q = bm_max (mb_mem b) \<and> bm_max (mb_mem b) \<le> length (bm_cells (mb_mem b))
         else mb_skip b = 0 \<and> bm_wf (mb_mem b)) \<and>
        take (length q) (mb_cells b) = map Some q)"

lemma is_rdonly_retry [simp]:
  "is_rdonly (BIO_clear_retry_flags b) = is_rdonly b"
  "is_rdonly (BIO_set_retry_read b) = is_rdonly b"
proof -
  have "(f AND NOT kRetryFlags) AND BIO_FLAGS_MEM_RDONLY = f AND BIO_FLAGS_MEM_RDONLY" for f
  proof -
    have "NOT kRetryFlags AND BIO_FLAGS_MEM_RDONLY = BIO_FLAGS_MEM_RDONLY"
      by (simp add: kRetryFlags_def BIO_FLAGS_RWS_def BIO_FLAGS_READ_def BIO_FLAGS_WRITE_def
          BIO_FLAGS_IO_SPECIAL_def BIO_FLAGS_SHOULD_RETRY_def BIO_FLAGS_MEM_RDONLY_def)
    then show ?thesis by (simp add: and.assoc)
  qed
  moreover have "(f OR (BIO_FLAGS_READ OR BIO_FLAGS_SHOULD_RETRY)) AND BIO_FLAGS_MEM_RDONLY = f AND BIO_FLAGS_MEM_RDONLY" for f
  proof -
    have "(BIO_FLAGS_READ OR BIO_FLAGS_SHOULD_RETRY) AND BIO_FLAGS_MEM_RDONLY = 0"
      by (simp add: BIO_FLAGS_READ_def BIO_FLAGS_SHOULD_RETRY_def BIO_FLAGS_MEM_RDONLY_def)
    then show ?thesis by (simp only: bit.conj_disj_distrib2 or.right_neutral)
  qed
  ultimately show "is_rdonly (BIO_clear_retry_flags b) = is_rdonly b"
      "is_rdonly (BIO_set_retry_read b) = is_rdonly b"
    by (simp_all add: is_rdonly_def BIO_clear_retry_flags_def BIO_set_retry_read_def)
qed

text \<open>The fields that reading and writing leave alone.\<close>

definition same_bio :: "BIO \<Rightarrow> BIO \<Rightarrow> bool" where
  "same_bio b b' \<longleftrightarrow> is_rdonly b' = is_rdonly b \<and> bio_init b' = bio_init b \<and> bio_num b' = bio_num b \<and>
     bio_method b' = bio_method b \<and> bio_num_read b' = bio_num_read b \<and> bio_num_write b' = bio_num_write b \<and>
     bio_next b' = bio_next b \<and> bio_references b' = bio_references b \<and> bio_shutdown b' = bio_shutdown b"

lemma is_rdonly_put [simp]: "is_rdonly (put_mem b m) = is_rdonly b"
  by (simp add: put_mem_def is_rdonly_def)

lemma kept_fields [simp]:
  assumes "f \<in> {\<lambda>b. put_mem b m, BIO_clear_retry_flags, BIO_set_retry_read, BIO_set_retry_write}"
  shows "bio_init (f b) = bio_init b" "bio_num (f b) = bio_num b" "bio_method (f b) = bio_method b"
    "bio_num_read (f b) = bio_num_read b" "bio_num_write (f b) = bio_num_write b" "bio_next (f b) = bio_next b"
    "bio_references (f b) = bio_references b" "bio_shutdown (f b) = bio_shutdown b"
  using assms
  by (auto simp: put_mem_def BIO_clear_retry_flags_def BIO_set_retry_read_def BIO_set_retry_write_def)

lemmas kept_simps [simp] =
  kept_fields[of "BIO_clear_retry_flags", simplified] kept_fields[of "BIO_set_retry_read", simplified]
  kept_fields[of "\<lambda>b. put_mem b m" m for m, simplified]

lemma same_bio_simps [simp]:
  "same_bio b b"
  "same_bio b (put_mem c m) \<longleftrightarrow> same_bio b c"
  "same_bio b (BIO_clear_retry_flags b)"
  "same_bio b (BIO_set_retry_read (BIO_clear_retry_flags b))"
  by (simp_all add: same_bio_def)

lemma mem_rep_cong: "mem_rep b q \<Longrightarrow> bio_ptr b' = bio_ptr b \<Longrightarrow> is_rdonly b' = is_rdonly b \<Longrightarrow> mem_rep b' q"
  by (simp add: mem_rep_def)

lemma bm_cells_upd [simp]:
  "bm_cells (m\<lparr>bm_length := k\<rparr>) = bm_cells m"
  "bm_cells (m\<lparr>bm_data := Some d\<rparr>) = d"
  by (simp_all add: bm_cells_def)

lemma mem_rep_put:
  "mem_rep (put_mem bio b) q \<longleftrightarrow> length q = bm_length (mb_mem b) \<and> length q \<le> INT_MAX \<and>
        (if is_rdonly bio
         then mb_skip b + length q = bm_max (mb_mem b) \<and> bm_max (mb_mem b) \<le> length (bm_cells (mb_mem b))
         else mb_skip b = 0 \<and> bm_wf (mb_mem b)) \<and>
        take (length q) (mb_cells b) = map Some q"
  unfolding mem_rep_def is_rdonly_put by (simp add: put_mem_def)

lemma map_Some_the: "None \<notin> set xs \<Longrightarrow> map Some (map the xs) = xs"
  by (induction xs) auto

lemma bm_wf_front:
  assumes "bm_wf m" "k \<le> bm_length m" "take k d = take k (drop n (bm_cells m))" "n + k \<le> bm_length m" "length d = bm_max m"
  shows "bm_wf (m\<lparr>bm_length := k, bm_data := Some d\<rparr>)"
proof -
  have "set (take k (drop n (bm_cells m))) \<subseteq> set (take (bm_length m) (bm_cells m))"
  proof -
    have "take k (drop n (bm_cells m)) = take k (drop n (take (n + k) (bm_cells m)))" by (simp add: drop_take)
    also have "set \<dots> \<subseteq> set (take (n + k) (bm_cells m))" by (meson order_trans set_drop_subset set_take_subset)
    also have "\<dots> \<subseteq> set (take (bm_length m) (bm_cells m))" using assms(4) by (rule set_take_subset_set_take)
    finally show ?thesis .
  qed
  then show ?thesis using assms by (auto simp: bm_wf_def bm_cells_def)
qed

lemma mem_take_rep:
  assumes r: "mem_rep bio q" and b: "bio_ptr bio = PtrMem b" and n: "n \<le> length q" "0 < n"
  shows "mem_rep (put_mem bio (mem_take bio b n)) (drop n q)"
proof -
  let ?m = "mb_mem b"
  have len: "bm_length ?m = length q" and q: "take (length q) (mb_cells b) = map Some q" and
      small: "length q \<le> INT_MAX"
    using r b by (auto simp: mem_rep_def)
  have ss: "size_sub (bm_length ?m) n = length q - n"
    using len n small by (simp add: size_sub_exact SIZE_MOD_def INT_MAX_def)
  have rest: "take (length q - n) (drop n (mb_cells b)) = map Some (drop n q)"
    using q by (metis drop_map drop_take)
  show ?thesis
  proof (cases "is_rdonly bio")
    case True
    then have s: "mb_skip b + length q = bm_max ?m" "bm_max ?m \<le> length (bm_cells ?m)"
      using r b by (auto simp: mem_rep_def)
    have "drop (mb_skip b + n) (bm_cells ?m) = drop n (mb_cells b)" by (simp add: mb_cells_def add.commute)
    then show ?thesis
      using True s rest n small ss
      by (simp add: mem_rep_put mem_take_def Let_def) (simp add: mb_cells_def)
  next
    case False
    then have s: "mb_skip b = 0" "bm_wf ?m" using r b by (auto simp: mem_rep_def)
    obtain d where d: "bm_data ?m = Some d"
      using s(2) len n by (cases "bm_data ?m") (auto simp: bm_wf_def bm_cells_def)
    let ?k = "length q - n"
    let ?d = "overwrite d 0 (take ?k (drop n d))"
    have ld: "length d = bm_max ?m" "length q \<le> length d" "bm_cells ?m = d"
      using s(2) d len by (auto simp: bm_wf_def bm_cells_def)
    have dt: "take ?k ?d = take ?k (drop n d)"
    proof -
      have "length (take ?k (drop n d)) = ?k" using ld n by simp
      then show ?thesis using take_overwrite_upto[of 0 d "take ?k (drop n d)"] by simp
    qed
    have dl: "length ?d = bm_max ?m" using ld n by (subst length_overwrite) auto
    have wf: "bm_wf (?m\<lparr>bm_length := ?k, bm_data := Some ?d\<rparr>)"
      using s(2) len n dt dl ld by (intro bm_wf_front[of _ _ _ n]) auto
    have "take ?k ?d = map Some (drop n q)" using rest dt s(1) ld by (simp add: mb_cells_def)
    then show ?thesis
      using False s wf d n small ss
      by (simp add: mem_rep_put mem_take_def Let_def) (simp add: mb_cells_def)
  qed
qed

lemma mem_read_rep:
  assumes r: "mem_rep bio q" and n: "0 < n" "n \<le> int INT_MAX"
  shows "\<exists>ret out bio'. mem_read bio n = Some (ret, out, bio') \<and> same_bio bio bio' \<and>
     mem_rep bio' (drop (nat n) q) \<and>
     (let k = min (nat n) (length q)
      in if k = 0 then ret = bio_num bio \<and> out = [] else ret = int k \<and> out = map Some (take k q))"
proof -
  let ?bio = "BIO_clear_retry_flags bio"
  obtain b where b: "bio_ptr bio = PtrMem b" using r by (auto simp: mem_rep_def)
  then have g: "get_mem bio = Some b" by (simp add: get_mem_def)
  have len: "bm_length (mb_mem b) = length q" "length q \<le> INT_MAX" "take (length q) (mb_cells b) = map Some q"
    using r b by (auto simp: mem_rep_def)
  have r0: "mem_rep ?bio q" using r by (rule mem_rep_cong) simp_all
  have num: "bio_num ?bio = bio_num bio" by (simp add: BIO_clear_retry_flags_def)
  define k where "k = min (nat n) (length q)"
  show ?thesis
  proof (cases "k = 0")
    case True
    then have q: "q = []" using n by (auto simp: k_def min_def split: if_splits)
    have "mem_rep (BIO_set_retry_read ?bio) q" using r0 by (rule mem_rep_cong) simp_all
    then show ?thesis
      using True q g r0 len num n by (auto simp: mem_read_def int_of_size_small Let_def INT_MAX_def)
  next
    case False
    have "length q \<le> length (mb_cells b)" using len(3) by (metis length_map length_take min.absorb_iff2)
    then have kl: "k \<le> length (mb_cells b)" by (simp add: k_def)
    have "take k (mb_cells b) = take k (take (length q) (mb_cells b))" by (simp add: k_def)
    then have out: "take k (mb_cells b) = map Some (take k q)" by (simp only: len(3) take_map)
    have "mem_read bio n = Some (int k, map Some (take k q), put_mem ?bio (mem_take ?bio b k))"
    proof (cases "length q < INT_MAX \<and> n > int (length q)")
      case True
      then have "k = length q" by (auto simp: k_def)
      then show ?thesis using True False g kl out len(1,2) by (simp add: mem_read_def Let_def int_of_size_small)
    next
      case more: False
      then have "n = int k" using len(2) n by (auto simp: k_def)
      then show ?thesis using more False g kl out len(1,2)
        unfolding mem_read_def Let_def by (auto simp: int_of_size_small)
    qed
    moreover have "mem_rep (put_mem ?bio (mem_take ?bio b k)) (drop k q)"
      using mem_take_rep[OF r0, of b k] b False by (simp add: k_def)
    moreover have "drop k q = drop (nat n) q" by (simp add: k_def min_def)
    ultimately show ?thesis using False by (simp flip: k_def)
  qed
qed

lemma mem_write_rep:
  assumes r: "mem_rep bio q" "\<not> is_rdonly bio" and n: "0 < n" "n \<le> int INT_MAX" "nat n \<le> length data"
  shows "\<exists>ret bio'. mem_write sys bio data n = Some (ret, bio') \<and> same_bio bio bio' \<and>
     (ret = n \<and> mem_rep bio' (q @ take (nat n) data) \<or> ret = -1 \<and> mem_rep bio' q)"
proof -
  let ?bio = "BIO_clear_retry_flags bio"
  obtain b where b: "bio_ptr bio = PtrMem b" using r by (auto simp: mem_rep_def)
  then have g: "get_mem bio = Some b" by (simp add: get_mem_def)
  have len: "bm_length (mb_mem b) = length q" "length q \<le> INT_MAX" "take (length q) (mb_cells b) = map Some q"
      "mb_skip b = 0" "bm_wf (mb_mem b)"
    using r b by (auto simp: mem_rep_def)
  have r0: "mem_rep ?bio q" using r(1) by (rule mem_rep_cong) simp_all
  have bq: "bm_bytes (mb_mem b) = q" using len by (simp add: bm_bytes_def mb_cells_def comp_def)
  show ?thesis
  proof (cases "int INT_MAX - int (length q) < n")
    case True
    then show ?thesis using g r len r0 by (simp add: mem_write_def Let_def int_of_size_small)
  next
    case fits: False
    define t where "t = length q + nat n"
    have t: "t \<le> INT_MAX" "nat (int (length q) + n) = t" using fits n by (auto simp: t_def)
    have sz: "size_of_int (int (length q) + n) = t" "size_of_int (int (length q)) = length q" "size_of_int n = nat n"
        "size_add (length q) (nat n) = t"
      using t n len(2) by (auto simp: size_of_int_nonneg size_add_exact t_def SIZE_MOD_def INT_MAX_def)
    obtain m k where grow: "BUF_MEM_grow_clean sys (mb_mem b) t = (m, k)" by fastforce
    have "t \<le> 2 ^ 62" using t(1) by (simp add: INT_MAX_def)
    from BUF_MEM_grow_rep[OF len(5) this, of sys] grow bq
    have m: "bm_wf m" "k = t \<and> bm_bytes m = take t q @ replicate (t - length q) 0 \<or> k = 0 \<and> m = mb_mem b"
      by simp_all
    have t0: "t \<noteq> 0" "length q \<le> t" using n by (auto simp: t_def)
    show ?thesis
    proof (cases "k = t")
      case False
      then have "m = mb_mem b" using m(2) by simp
      then have "mem_write sys bio data n = Some (-1, put_mem ?bio b)"
        using g r len fits sz grow False by (simp add: mem_write_def Let_def int_of_size_small)
      moreover have "mem_rep (put_mem ?bio b) q"
        using r0 by (rule mem_rep_cong) (simp_all add: put_mem_def b is_rdonly_def)
      ultimately show ?thesis by simp
    next
      case True
      then have mb: "bm_bytes m = q @ replicate (t - length q) 0" using m(2) t0 by simp
      have ml: "bm_length m = t"
      proof -
        have "length (bm_bytes m) = bm_length m" using m(1) by (auto simp: bm_bytes_def bm_wf_def)
        then show ?thesis using mb t0 by simp
      qed
      let ?d = "take (nat n) data"
      have st: "bm_wf (bm_store m (length q) ?d) \<and> bm_bytes (bm_store m (length q) ?d) = take (length q) (bm_bytes m) @ ?d \<and>
          bm_length (bm_store m (length q) ?d) = bm_length m"
        using bm_store_within[OF m(1), of "length q" ?d] ml n by (simp add: t_def)
      then have bytes: "bm_bytes (bm_store m (length q) ?d) = q @ ?d" using mb by simp
      have fitc: "length q + nat n \<le> length (bm_cells m)" using m(1) ml by (auto simp: bm_wf_def t_def)
      have "mem_write sys bio data n = Some (n, put_mem ?bio (b\<lparr>mb_mem := bm_store m (length q) ?d\<rparr>))"
        using g r len fits sz grow True n fitc by (simp add: mem_write_def Let_def int_of_size_small put_mem_def)
      moreover have "take t (bm_cells (bm_store m (length q) ?d)) = map Some (q @ ?d)"
      proof -
        have "map Some (map the (take t (bm_cells (bm_store m (length q) ?d)))) = take t (bm_cells (bm_store m (length q) ?d))"
          using st ml by (intro map_Some_the) (metis bm_wf_def)
        then show ?thesis using bytes st ml unfolding bm_bytes_def by metis
      qed
      then have "mem_rep (put_mem ?bio (b\<lparr>mb_mem := bm_store m (length q) ?d\<rparr>)) (q @ ?d)"
        using r(2) len st ml t n by (simp add: mem_rep_put mb_cells_def t_def min_absorb2)
      ultimately show ?thesis by simp
    qed
  qed
qed

end
