(* ===== verification/Bio.thy ===== *)
theory Bio
  imports Bio_Mem
begin

text \<open>
  The BIO interface, \<^verbatim>\<open>crypto/bio/bio.c\<close>: creation, reference counts and chains, the calls that
  dispatch to a BIO's methods, and the functions built on them, of which \<^verbatim>\<open>BIO_read_asn1\<close> reads
  one ASN.1 element. Also the constructors at the end of \<^verbatim>\<open>pair.c\<close> and \<^verbatim>\<open>bio_mem.c\<close>, and the
  reference counts of \<^verbatim>\<open>crypto/refcount_lock.c\<close>.
\<close>

section \<open>Reference counts\<close>

definition CRYPTO_REFCOUNT_MAX :: nat where
  "CRYPTO_REFCOUNT_MAX = 0xffffffff"

definition CRYPTO_refcount_inc :: "nat \<Rightarrow> nat" where
  "CRYPTO_refcount_inc count = (if count < CRYPTO_REFCOUNT_MAX then count + 1 else count)"

definition CRYPTO_refcount_dec_and_test_zero :: "nat \<Rightarrow> (bool \<times> nat) option" where
  "CRYPTO_refcount_dec_and_test_zero count = do {
     C_assert (count \<noteq> 0);
     let count = (if count < CRYPTO_REFCOUNT_MAX then count - 1 else count);
     Some (count = 0, count) }"

section \<open>Method dispatch\<close>

fun method_create :: "bio_method \<Rightarrow> sys_malloc \<Rightarrow> BIO \<Rightarrow> BIO option" where
  "method_create methods_biop sys bio = bio_new sys bio"
| "method_create mem_method sys bio = mem_new sys bio"

fun method_destroy :: "bio_method \<Rightarrow> bio_heap \<Rightarrow> nat \<Rightarrow> bio_heap option" where
  "method_destroy methods_biop w i = bio_free w i"
| "method_destroy mem_method w i = Some (upd_bio w i mem_free)"

fun method_bread :: "bio_method \<Rightarrow> bio_heap \<Rightarrow> nat \<Rightarrow> int \<Rightarrow> (int \<times> cell list \<times> bio_heap) option" where
  "method_bread methods_biop w i len = bio_read w i True len"
| "method_bread mem_method w i len = do {
     bio \<leftarrow> w i;
     (ret, out, bio) \<leftarrow> mem_read bio len;
     Some (ret, out, w(i \<mapsto> bio)) }"

fun method_bwrite :: "bio_method \<Rightarrow> sys_malloc \<Rightarrow> bio_heap \<Rightarrow> nat \<Rightarrow> u8 list \<Rightarrow> int \<Rightarrow> (int \<times> bio_heap) option" where
  "method_bwrite methods_biop sys w i inp inl = bio_write w i (Some inp) inl"
| "method_bwrite mem_method sys w i inp inl = do {
     bio \<leftarrow> w i;
     (ret, bio) \<leftarrow> mem_write sys bio inp inl;
     Some (ret, w(i \<mapsto> bio)) }"

text \<open>What \<open>parg\<close> points at, for the commands that read it.\<close>

datatype ctrl_arg = NoArg | OtherBio nat | Buffer BUF_MEM

fun method_ctrl :: "bio_method \<Rightarrow> bio_heap \<Rightarrow> nat \<Rightarrow> int \<Rightarrow> int \<Rightarrow> ctrl_arg \<Rightarrow> (int \<times> bio_heap) option" where
  "method_ctrl methods_biop w i cmd larg parg =
     bio_ctrl w i cmd larg (case parg of OtherBio k \<Rightarrow> Some k | _ \<Rightarrow> None)"
| "method_ctrl mem_method w i cmd larg parg = do {
     bio \<leftarrow> w i;
     (ret, bio) \<leftarrow> mem_ctrl bio cmd larg (case parg of Buffer m \<Rightarrow> Some m | _ \<Rightarrow> None);
     Some (ret, w(i \<mapsto> bio)) }"

section \<open>Creation, chains and release\<close>

definition sizeof_BIO :: nat where
  "sizeof_BIO = 64"

definition bio_zeroed :: BIO where
  "bio_zeroed = \<lparr>bio_method = None, bio_init = False, bio_shutdown = 0, bio_flags = 0,
     bio_retry_reason = 0, bio_num = 0, bio_references = 0, bio_ptr = PtrNull, bio_next = None,
     bio_num_read = 0, bio_num_write = 0\<rparr>"

text \<open>\<open>i\<close> is the address the allocator returns.\<close>

definition BIO_new :: "sys_malloc \<Rightarrow> bio_heap \<Rightarrow> nat \<Rightarrow> bio_method \<Rightarrow> bool \<times> bio_heap" where
  "BIO_new sys w i method =
     (if OPENSSL_malloc sys sizeof_BIO = None then (False, w)
      else let ret = bio_zeroed\<lparr>bio_method := Some method, bio_shutdown := 1, bio_references := 1\<rparr>
           in case method_create method sys ret of
                None \<Rightarrow> (False, w)
              | Some ret \<Rightarrow> (True, w(i \<mapsto> ret)))"

text \<open>The end of the chain that starts at \<open>i\<close>, if it has one.\<close>

partial_function (option) last_bio :: "bio_heap \<Rightarrow> nat \<Rightarrow> nat option" where
  "last_bio w i = do {
     bio \<leftarrow> w i;
     case bio_next bio of None \<Rightarrow> Some i | Some j \<Rightarrow> last_bio w j }"

declare last_bio.simps [code]

definition BIO_push :: "bio_heap \<Rightarrow> nat option \<Rightarrow> nat option \<Rightarrow> bio_heap option" where
  "BIO_push w bio appended_bio =
     (case bio of
        None \<Rightarrow> Some w
      | Some i \<Rightarrow> do { l \<leftarrow> last_bio w i; Some (upd_bio w l (\<lambda>b. b\<lparr>bio_next := appended_bio\<rparr>)) })"

definition BIO_pop :: "bio_heap \<Rightarrow> nat option \<Rightarrow> (nat option \<times> bio_heap) option" where
  "BIO_pop w bio =
     (case bio of
        None \<Rightarrow> Some (None, w)
      | Some i \<Rightarrow> do { b \<leftarrow> w i; Some (bio_next b, upd_bio w i (\<lambda>b. b\<lparr>bio_next := None\<rparr>)) })"

definition BIO_next :: "bio_heap \<Rightarrow> nat option \<Rightarrow> nat option option" where
  "BIO_next w bio = (case bio of None \<Rightarrow> Some None | Some i \<Rightarrow> do { b \<leftarrow> w i; Some (bio_next b) })"

partial_function (option) BIO_free :: "bio_heap \<Rightarrow> nat option \<Rightarrow> (bool \<times> bio_heap) option" where
  "BIO_free w bio =
     (case bio of
        None \<Rightarrow> Some (True, w)
      | Some i \<Rightarrow> do {
          b \<leftarrow> w i;
          (zero, count) \<leftarrow> CRYPTO_refcount_dec_and_test_zero (bio_references b);
          let w = upd_bio w i (\<lambda>b. b\<lparr>bio_references := count\<rparr>);
          if \<not> zero then Some (False, w)
          else do {
            (next_bio, w) \<leftarrow> BIO_pop w (Some i);
            w \<leftarrow> (case bio_method b of None \<Rightarrow> Some w | Some m \<Rightarrow> method_destroy m w i);
            BIO_free (w(i := None)) next_bio } })"

declare BIO_free.simps [code]

definition BIO_up_ref :: "bio_heap \<Rightarrow> nat \<Rightarrow> bio_heap" where
  "BIO_up_ref w i = upd_bio w i (\<lambda>b. b\<lparr>bio_references := CRYPTO_refcount_inc (bio_references b)\<rparr>)"

fun method_type :: "bio_method \<Rightarrow> u32" where
  "method_type methods_biop = 19 OR 0x0400"
| "method_type mem_method = 1 OR 0x0400"

partial_function (option) find_type :: "bio_heap \<Rightarrow> nat \<Rightarrow> u32 \<Rightarrow> nat option option" where
  "find_type w i type = do {
     bio \<leftarrow> w i;
     if (case bio_method bio of
           None \<Rightarrow> False
         | Some m \<Rightarrow> (if type AND 0xff = 0 then method_type m AND type \<noteq> 0 else method_type m = type))
     then Some (Some i)
     else case bio_next bio of None \<Rightarrow> Some None | Some j \<Rightarrow> find_type w j type }"

declare find_type.simps [code]

definition BIO_find_type :: "bio_heap \<Rightarrow> nat option \<Rightarrow> u32 \<Rightarrow> nat option option" where
  "BIO_find_type w bio type = (case bio of None \<Rightarrow> Some None | Some i \<Rightarrow> find_type w i type)"

definition BIO_copy_next_retry :: "bio_heap \<Rightarrow> nat \<Rightarrow> bio_heap option" where
  "BIO_copy_next_retry w i = do {
     let w = upd_bio w i BIO_clear_retry_flags;
     bio \<leftarrow> w i;
     j \<leftarrow> bio_next bio;
     next_bio \<leftarrow> w j;
     let w = upd_bio w i (\<lambda>b. BIO_set_flags b (BIO_get_retry_flags next_bio));
     next_bio \<leftarrow> w j;
     Some (upd_bio w i (\<lambda>b. b\<lparr>bio_retry_reason := bio_retry_reason next_bio\<rparr>)) }"

section \<open>Input and output\<close>

text \<open>A \<open>None\<close> BIO is a NULL pointer. The destination of a read is never NULL.\<close>

definition BIO_read :: "bio_heap \<Rightarrow> nat option \<Rightarrow> int \<Rightarrow> (int \<times> cell list \<times> bio_heap) option" where
  "BIO_read w bio len =
     (case bio of
        None \<Rightarrow> Some (-2, [], w)
      | Some i \<Rightarrow> do {
          b \<leftarrow> w i;
          case bio_method b of
            None \<Rightarrow> Some (-2, [], w)
          | Some m \<Rightarrow>
              if \<not> bio_init b then Some (-2, [], w)
              else if len \<le> 0 then Some (0, [], w)
              else do {
                (ret, out, w) \<leftarrow> method_bread m w i len;
                let w = (if ret > 0
                         then upd_bio w i (\<lambda>b. b\<lparr>bio_num_read := size_add (bio_num_read b) (size_of_int ret)\<rparr>)
                         else w);
                Some (ret, out, w) } })"

definition BIO_gets :: "bio_heap \<Rightarrow> nat option \<Rightarrow> int \<Rightarrow> (int \<times> cell list \<times> bio_heap) option" where
  "BIO_gets w bio len =
     (case bio of
        None \<Rightarrow> Some (-2, [], w)
      | Some i \<Rightarrow> do {
          b \<leftarrow> w i;
          if bio_method b \<noteq> Some mem_method then Some (-2, [], w)
          else if \<not> bio_init b then Some (-2, [], w)
          else if len \<le> 0 then Some (0, [], w)
          else do {
            (ret, out, b) \<leftarrow> mem_gets b len;
            let w = w(i \<mapsto> b);
            let w = (if ret > 0
                     then upd_bio w i (\<lambda>b. b\<lparr>bio_num_read := size_add (bio_num_read b) (size_of_int ret)\<rparr>)
                     else w);
            Some (ret, out, w) } })"

definition BIO_write :: "sys_malloc \<Rightarrow> bio_heap \<Rightarrow> nat option \<Rightarrow> u8 list \<Rightarrow> int \<Rightarrow> (int \<times> bio_heap) option" where
  "BIO_write sys w bio inp inl =
     (case bio of
        None \<Rightarrow> Some (-2, w)
      | Some i \<Rightarrow> do {
          b \<leftarrow> w i;
          case bio_method b of
            None \<Rightarrow> Some (-2, w)
          | Some m \<Rightarrow>
              if \<not> bio_init b then Some (-2, w)
              else if inl \<le> 0 then Some (0, w)
              else do {
                (ret, w) \<leftarrow> method_bwrite m sys w i inp inl;
                let w = (if ret > 0
                         then upd_bio w i (\<lambda>b. b\<lparr>bio_num_write := size_add (bio_num_write b) (size_of_int ret)\<rparr>)
                         else w);
                Some (ret, w) } })"

definition BIO_puts :: "sys_malloc \<Rightarrow> bio_heap \<Rightarrow> nat option \<Rightarrow> u8 list \<Rightarrow> (int \<times> bio_heap) option" where
  "BIO_puts sys w bio inp = do { n \<leftarrow> strlen inp; BIO_write sys w bio inp (int_of_size n) }"

definition BIO_ctrl :: "bio_heap \<Rightarrow> nat option \<Rightarrow> int \<Rightarrow> int \<Rightarrow> ctrl_arg \<Rightarrow> (int \<times> bio_heap) option" where
  "BIO_ctrl w bio cmd larg parg =
     (case bio of
        None \<Rightarrow> Some (0, w)
      | Some i \<Rightarrow> do {
          b \<leftarrow> w i;
          case bio_method b of None \<Rightarrow> Some (-2, w) | Some m \<Rightarrow> method_ctrl m w i cmd larg parg })"

text \<open>The calls that are one control command; the \<open>long\<close> result is returned as an \<open>int\<close>.\<close>

definition int_ctrl :: "bio_heap \<Rightarrow> nat option \<Rightarrow> int \<Rightarrow> int \<Rightarrow> ctrl_arg \<Rightarrow> (int \<times> bio_heap) option" where
  "int_ctrl w bio cmd larg parg = do { (r, w) \<leftarrow> BIO_ctrl w bio cmd larg parg; Some (int_of_long r, w) }"

definition BIO_flush where "BIO_flush w bio = int_ctrl w bio BIO_CTRL_FLUSH 0 NoArg"
definition BIO_reset where "BIO_reset w bio = int_ctrl w bio BIO_CTRL_RESET 0 NoArg"
definition BIO_eof where "BIO_eof w bio = int_ctrl w bio BIO_CTRL_EOF 0 NoArg"
definition BIO_set_close where "BIO_set_close w bio flag = int_ctrl w bio BIO_CTRL_SET_CLOSE flag NoArg"
definition BIO_shutdown_wr where "BIO_shutdown_wr w bio = int_ctrl w bio BIO_C_SHUTDOWN_WR 0 NoArg"
definition BIO_set_mem_buf where
  "BIO_set_mem_buf w bio b take_ownership = int_ctrl w bio BIO_C_SET_BUF_MEM take_ownership (Buffer b)"
definition BIO_set_mem_eof_return where
  "BIO_set_mem_eof_return w bio v = int_ctrl w bio BIO_C_SET_BUF_MEM_EOF_RETURN v NoArg"

definition size_ctrl :: "bio_heap \<Rightarrow> nat option \<Rightarrow> int \<Rightarrow> (nat \<times> bio_heap) option" where
  "size_ctrl w bio cmd = do { (r, w) \<leftarrow> BIO_ctrl w bio cmd 0 NoArg; Some (size_of_int r, w) }"

definition BIO_ctrl_get_read_request where
  "BIO_ctrl_get_read_request w bio = size_ctrl w bio BIO_C_GET_READ_REQUEST"
definition BIO_ctrl_get_write_guarantee where
  "BIO_ctrl_get_write_guarantee w bio = size_ctrl w bio BIO_C_GET_WRITE_GUARANTEE"

definition BIO_pending :: "bio_heap \<Rightarrow> nat option \<Rightarrow> (nat \<times> bio_heap) option" where
  "BIO_pending w bio = do {
     (r, w) \<leftarrow> BIO_ctrl w bio BIO_CTRL_PENDING 0 NoArg;
     C_assert (r \<ge> 0);
     Some (size_of_int r, w) }"

definition BIO_wpending :: "bio_heap \<Rightarrow> nat option \<Rightarrow> (nat \<times> bio_heap) option" where
  "BIO_wpending w bio = do {
     (r, w) \<leftarrow> BIO_ctrl w bio BIO_CTRL_WPENDING 0 NoArg;
     C_assert (r \<ge> 0);
     Some (size_of_int r, w) }"

fun indent_loop :: "sys_malloc \<Rightarrow> bio_heap \<Rightarrow> nat option \<Rightarrow> nat \<Rightarrow> (bool \<times> bio_heap) option" where
  "indent_loop sys w bio 0 = Some (True, w)"
| "indent_loop sys w bio (Suc n) = do {
     (r, w) \<leftarrow> BIO_puts sys w bio [0x20, 0];
     if r \<noteq> 1 then Some (False, w) else indent_loop sys w bio n }"

definition BIO_indent :: "sys_malloc \<Rightarrow> bio_heap \<Rightarrow> nat option \<Rightarrow> nat \<Rightarrow> nat \<Rightarrow> (bool \<times> bio_heap) option" where
  "BIO_indent sys w bio indent max_indent =
     indent_loop sys w bio (if indent > max_indent then max_indent else indent)"

section \<open>Constructors\<close>

text \<open>\<open>i1\<close> and \<open>i2\<close> are the addresses of the two BIOs.\<close>

definition BIO_new_bio_pair ::
  "sys_malloc \<Rightarrow> bio_heap \<Rightarrow> nat \<Rightarrow> nat \<Rightarrow> nat \<Rightarrow> nat \<Rightarrow> (bool \<times> bio_heap) option" where
  "BIO_new_bio_pair sys w i1 i2 writebuf1_len writebuf2_len = do {
     let (ok1, w) = BIO_new sys w i1 methods_biop;
     let (ok2, w) = BIO_new sys w i2 methods_biop;
     (ok, w) \<leftarrow> (if ok1 \<and> ok2 then bio_make_pair sys w i1 i2 writebuf1_len writebuf2_len
                else Some (False, w));
     if \<not> ok
     then do {
       (_, w) \<leftarrow> BIO_free w (if ok1 then Some i1 else None);
       (_, w) \<leftarrow> BIO_free w (if ok2 then Some i2 else None);
       Some (False, w) }
     else Some (True, w) }"

text \<open>The size is computed before the test for a NULL \<open>buf\<close>.\<close>

definition BIO_new_mem_buf ::
  "sys_malloc \<Rightarrow> bio_heap \<Rightarrow> nat \<Rightarrow> u8 list option \<Rightarrow> int \<Rightarrow> (nat option \<times> bio_heap) option" where
  "BIO_new_mem_buf sys w i buf len = do {
     size \<leftarrow> (if len < 0 then Option.bind buf strlen else Some (nat len));
     if buf = None \<and> len \<noteq> 0 then Some (None, w)
     else let (ok, w) = BIO_new sys w i mem_method
       in if \<not> ok then Some (None, w)
          else Some (Some i, upd_bio w i (\<lambda>b. b\<lparr>
            bio_ptr := PtrMem \<lparr>mb_mem = \<lparr>bm_length = size, bm_data = map_option (map Some) buf, bm_max = size\<rparr>,
                               mb_skip = 0\<rparr>,
            bio_flags := bio_flags b OR BIO_FLAGS_MEM_RDONLY, bio_num := 0\<rparr>)) }"

text \<open>The bytes \<^verbatim>\<open>BIO_mem_contents\<close> points at; \<open>None\<close> for a BIO of another type.\<close>

definition BIO_mem_contents :: "BIO \<Rightarrow> cell list option" where
  "BIO_mem_contents b =
     (if bio_method b \<noteq> Some mem_method then None
      else do { m \<leftarrow> get_mem b; Some (take (bm_length (mb_mem m)) (mb_cells m)) })"

section \<open>Reading one ASN.1 element\<close>

definition kChunkSize :: nat where
  "kChunkSize = 4096"

partial_function (option) read_all_loop ::
  "sys_malloc \<Rightarrow> bio_heap \<Rightarrow> nat option \<Rightarrow> cell list \<Rightarrow> nat \<Rightarrow> nat \<Rightarrow> nat \<Rightarrow> (cell list option \<times> bio_heap) option" where
  "read_all_loop sys w bio out len done max_len =
     (if done = len then Some (None, w)
      else do {
        let todo = size_sub len done;
        C_assert (todo < INT_MAX);
        (n, bytes, w) \<leftarrow> BIO_read w bio (int_of_size todo);
        if n = 0 then Some (Some (take done out), w)
        else if n = -1 then Some (None, w)
        else do {
          let out = overwrite out done bytes;
          let done = size_add done (size_of_int n);
          if len < max_len \<and> size_sub len done < kChunkSize div 2
          then do {
            let len = size_add len kChunkSize;
            let len = (if len < kChunkSize \<or> len > max_len then max_len else len);
            case OPENSSL_realloc sys (Some out) len of
              None \<Rightarrow> Some (None, w)
            | Some out \<Rightarrow> read_all_loop sys w bio out len done max_len }
          else read_all_loop sys w bio out len done max_len } })"

declare read_all_loop.simps [code]

definition bio_read_all ::
  "sys_malloc \<Rightarrow> bio_heap \<Rightarrow> nat option \<Rightarrow> cell list \<Rightarrow> nat \<Rightarrow> (cell list option \<times> bio_heap) option" where
  "bio_read_all sys w bio pre max_len =
     (let prefix_len = length pre;
          len = size_add prefix_len kChunkSize;
          len = (if len > max_len then max_len else len)
      in if len < prefix_len then Some (None, w)
         else case OPENSSL_malloc sys len of
             None \<Rightarrow> Some (None, w)
           | Some out \<Rightarrow> read_all_loop sys w bio (overwrite out 0 pre) len prefix_len max_len)"

text \<open>The part after the header, of which \<open>header_len\<close> bytes were read: \<open>len\<close> more bytes follow.\<close>

definition read_body ::
  "sys_malloc \<Rightarrow> bio_heap \<Rightarrow> nat option \<Rightarrow> cell list \<Rightarrow> nat \<Rightarrow> nat \<Rightarrow> nat \<Rightarrow> (cell list option \<times> bio_heap) option" where
  "read_body sys w bio header header_len len max_len =
     (if size_add len header_len < len \<or> size_add len header_len > max_len \<or> len > INT_MAX
      then Some (None, w)
      else let len = size_add len header_len
        in case OPENSSL_malloc sys len of
            None \<Rightarrow> Some (None, w)
          | Some out \<Rightarrow> do {
              C_assert (header_len \<le> length out);
              let out = overwrite out 0 (take header_len header);
              (n, bytes, w) \<leftarrow> BIO_read w bio (int_of_size (size_sub len header_len));
              if n \<noteq> int_of_size (size_sub len header_len) then Some (None, w)
              else Some (Some (overwrite out header_len bytes), w) })"

text \<open>
  The local array \<open>header\<close> starts uninitialised. The result: \<open>*out\<close>, whose length is
  \<open>*out_len\<close>, or \<open>None\<close> for failure.
\<close>

definition BIO_read_asn1 ::
  "sys_malloc \<Rightarrow> bio_heap \<Rightarrow> nat option \<Rightarrow> nat \<Rightarrow> (cell list option \<times> bio_heap) option" where
  "BIO_read_asn1 sys w bio max_len = do {
     (n, bytes, w) \<leftarrow> BIO_read w bio 2;
     let header = overwrite (replicate 6 None) 0 bytes;
     if n \<noteq> 2 then Some (None, w)
     else do {
       tag \<leftarrow> header ! 0;
       length_byte \<leftarrow> header ! 1;
       if tag AND 0x1f = 0x1f then Some (None, w)
       else if length_byte AND 0x80 = 0
       then read_body sys w bio header 2 (unat length_byte) max_len
       else do {
         let num_bytes = unat (length_byte AND 0x7f);
         if tag AND 0x20 \<noteq> 0 \<and> num_bytes = 0 then bio_read_all sys w bio (take 2 header) max_len
         else if num_bytes = 0 \<or> num_bytes > 4 then Some (None, w)
         else do {
           (n, bytes, w) \<leftarrow> BIO_read w bio (int num_bytes);
           let header = overwrite header 2 bytes;
           if n \<noteq> int num_bytes then Some (None, w)
           else do {
             C_assert (None \<notin> set (take num_bytes (drop 2 header)));
             let len32 = foldl (\<lambda>l b. push_bit 8 l OR ucast b) (0 :: u32)
               (map the (take num_bytes (drop 2 header)));
             if len32 < 128 then Some (None, w)
             else if drop_bit ((num_bytes - 1) * 8) len32 = 0 then Some (None, w)
             else read_body sys w bio header (2 + num_bytes) (unat len32) max_len } } } } }"

section \<open>A memory BIO on the heap\<close>

text \<open>
  BIO \<open>i\<close> is a memory BIO that holds the bytes \<open>q\<close> and does not report a positive number
  when it has run out of them.
\<close>

definition mem_at :: "bio_heap \<Rightarrow> nat \<Rightarrow> u8 list \<Rightarrow> bool" where
  "mem_at w i q \<longleftrightarrow> (\<exists>b. w i = Some b \<and> bio_method b = Some mem_method \<and> bio_init b \<and> bio_num b \<le> 0 \<and> mem_rep b q)"

lemma BIO_read_mem:
  assumes "mem_at w i q" "0 \<le> n" "n \<le> int INT_MAX"
  shows "\<exists>r w'. BIO_read w (Some i) n = Some (r, map Some (take (nat n) q), w') \<and>
     mem_at w' i (drop (nat n) q) \<and> (r = n \<longleftrightarrow> nat n \<le> length q) \<and>
     (min (nat n) (length q) \<noteq> 0 \<longrightarrow> r = int (min (nat n) (length q)))"
proof -
  obtain b where b: "w i = Some b" "bio_method b = Some mem_method" "bio_init b" "bio_num b \<le> 0" "mem_rep b q"
    using assms(1) by (auto simp: mem_at_def)
  show ?thesis
  proof (cases "n = 0")
    case True
    then show ?thesis using b assms by (auto simp: BIO_read_def mem_at_def)
  next
    case False
    then have n: "0 < n" using assms(2) by simp
    let ?k = "min (nat n) (length q)"
    obtain r out b' where m: "mem_read b n = Some (r, out, b')" "same_bio b b'" "mem_rep b' (drop (nat n) q)"
      "if ?k = 0 then r = bio_num b \<and> out = [] else r = int ?k \<and> out = map Some (take ?k q)"
      using mem_read_rep[OF b(5) n assms(3)] unfolding Let_def by blast
    have out: "out = map Some (take (nat n) q)" using m(4) n by (auto simp: min_def split: if_splits)
    define b2 where "b2 = (if r > 0 then b'\<lparr>bio_num_read := size_add (bio_num_read b') (size_of_int r)\<rparr> else b')"
    have "BIO_read w (Some i) n = Some (r, out, w(i \<mapsto> b2))"
      using b n m(1) by (simp add: BIO_read_def b2_def upd_bio_def)
    moreover have "mem_at (w(i \<mapsto> b2)) i (drop (nat n) q)"
    proof -
      have "mem_rep b2 (drop (nat n) q)" using m(3) by (rule mem_rep_cong) (simp_all add: b2_def is_rdonly_def)
      then show ?thesis using b m(2) by (simp add: mem_at_def b2_def same_bio_def)
    qed
    moreover have "r = n \<longleftrightarrow> nat n \<le> length q"
      using m(4) n b(4) by (auto simp: min_def split: if_splits)
    ultimately show ?thesis using m(4) by (auto simp: out split: if_splits)
  qed
qed

lemma read_body_mem:
  assumes m: "mem_at w i q" and h: "hl \<le> length header" "hl < 10" and len: "len < 2 ^ 32"
  shows "\<exists>w'. read_body sys w (Some i) header hl len max_len =
     Some (if len + hl \<le> max_len \<and> len \<le> INT_MAX \<and> OPENSSL_malloc sys (len + hl) \<noteq> None \<and> len \<le> length q
           then Some (take hl header @ map Some (take len q)) else None, w') \<and>
     (len + hl \<le> max_len \<and> len \<le> INT_MAX \<and> OPENSSL_malloc sys (len + hl) \<noteq> None \<and> len \<le> length q \<longrightarrow>
        mem_at w' i (drop len q))"
proof -
  have sz: "size_add len hl = len + hl" "size_sub (len + hl) hl = len"
    using h len by (simp_all add: size_add_exact size_sub_exact SIZE_MOD_def)
  show ?thesis
  proof (cases "len + hl \<le> max_len \<and> len \<le> INT_MAX \<and> OPENSSL_malloc sys (len + hl) \<noteq> None")
    case False
    then show ?thesis using sz by (auto simp: read_body_def Let_def split: option.splits)
  next
    case True
    then obtain out where out: "OPENSSL_malloc sys (len + hl) = Some out" by blast
    have lo: "length out = len + hl"
      using out h len by (auto simp: OPENSSL_malloc_def Let_def OPENSSL_MALLOC_PREFIX_def size_add_exact SIZE_MOD_def split: if_splits)
    obtain r w' where r: "BIO_read w (Some i) (int len) = Some (r, map Some (take len q), w')"
      "mem_at w' i (drop len q)" "r = int len \<longleftrightarrow> len \<le> length q"
      using BIO_read_mem[OF m, of "int len"] True by auto
    have "overwrite (overwrite out 0 (take hl header)) hl (map Some (take len q)) = take hl header @ map Some (take len q)"
      if "len \<le> length q"
      using that lo h by (simp add: overwrite_def min_absorb2)
    then show ?thesis using True out lo r sz h
      by (auto simp: read_body_def Let_def int_of_size_small)
  qed
qed

end
