(* ===== verification/Bio_Asn1.thy ===== *)
theory Bio_Asn1
  imports Bio CBS
begin

text \<open>
  \<^verbatim>\<open>BIO_read_asn1\<close> (\<^verbatim>\<open>crypto/bio/bio.c\<close>) against the DER elements of the \<^verbatim>\<open>CBS\<close> parser: the two
  readers of ASN.1 in the library accept the same elements.
\<close>

lemma asn1_header_element:
  "asn1_header False q = Some (tag, n, hl) \<and> n \<le> length q \<longleftrightarrow>
     (\<exists>body rest. q = der_element tag body @ rest \<and> der_tag_ok tag \<and> length body < 2 ^ 32 \<and>
        n = length (der_element tag body) \<and> hl + length body = n)"
proof
  assume "asn1_header False q = Some (tag, n, hl) \<and> n \<le> length q"
  then obtain m r where m: "q = tag # der_len m @ r" "der_tag_ok tag" "m < 2 ^ 32"
      "hl = 1 + length (der_len m)" "n = hl + m" "n \<le> length q"
    using asn1_header_is_der[of q tag n hl] by auto
  then have "length (take m r) = m" by simp
  then show "\<exists>body rest. q = der_element tag body @ rest \<and> der_tag_ok tag \<and> length body < 2 ^ 32 \<and>
        n = length (der_element tag body) \<and> hl + length body = n"
    using m by (intro exI[of _ "take m r"] exI[of _ "drop m r"]) (simp add: der_element_def)
next
  assume "\<exists>body rest. q = der_element tag body @ rest \<and> der_tag_ok tag \<and> length body < 2 ^ 32 \<and>
        n = length (der_element tag body) \<and> hl + length body = n"
  then show "asn1_header False q = Some (tag, n, hl) \<and> n \<le> length q"
    by (auto simp: der_element_def asn1_header_der)
qed

text \<open>What \<open>BIO_read_asn1\<close> accepts, over the header parser of the \<open>CBS\<close> model.\<close>

definition readable :: "sys_malloc \<Rightarrow> nat \<Rightarrow> nat \<Rightarrow> nat \<Rightarrow> bool" where
  "readable sys max_len n hl \<longleftrightarrow> n \<le> max_len \<and> n - hl \<le> INT_MAX \<and> OPENSSL_malloc sys n \<noteq> None"

definition read_asn1_spec :: "sys_malloc \<Rightarrow> nat \<Rightarrow> u8 list \<Rightarrow> nat option" where
  "read_asn1_spec sys max_len q =
     (case asn1_header False q of
        None \<Rightarrow> None
      | Some (tag, n, hl) \<Rightarrow> if n \<le> length q \<and> readable sys max_len n hl then Some n else None)"

definition indefinite_head :: "u8 list \<Rightarrow> bool" where
  "indefinite_head q \<longleftrightarrow> (\<exists>tag rest. q = tag # 0x80 # rest \<and> bit tag 5)"

lemma bit_5_and: "tag AND 0x20 \<noteq> 0 \<longleftrightarrow> bit (tag :: u8) 5"
  using and_push_bit_1_eq_0[of tag 5] by (simp add: push_bit_eq_mult)

lemma read_body_element:
  assumes m: "mem_at w i q'" and h: "hl \<le> length header" "hl < 10" "take hl header = map Some pre"
    and len: "len < 2 ^ 32"
  shows "\<exists>w'. read_body sys w (Some i) header hl len max_len =
      Some (if len \<le> length q' \<and> readable sys max_len (hl + len) hl then Some (map Some (pre @ take len q')) else None, w') \<and>
     (len \<le> length q' \<and> readable sys max_len (hl + len) hl \<longrightarrow> mem_at w' i (drop len q'))"
  using read_body_mem[OF m h(1,2) len, of sys max_len] h(3)
  unfolding readable_def by (auto simp: add.commute)

lemma BIO_read_asn1_header:
  assumes m: "mem_at w i q" and ind: "\<not> indefinite_head q"
  shows "\<exists>w'. BIO_read_asn1 sys w (Some i) max_len =
      Some (map_option (\<lambda>n. map Some (take n q)) (read_asn1_spec sys max_len q), w') \<and>
     (\<forall>n. read_asn1_spec sys max_len q = Some n \<longrightarrow> mem_at w' i (drop n q))"
proof -
  obtain r w1 where r: "BIO_read w (Some i) 2 = Some (r, map Some (take 2 q), w1)"
      "mem_at w1 i (drop 2 q)" "r = 2 \<longleftrightarrow> 2 \<le> length q"
    using BIO_read_mem[OF m, of 2] by (auto simp: INT_MAX_def)
  show ?thesis
  proof (cases "2 \<le> length q")
    case False
    then have "asn1_header False q = None"
      by (cases q; cases "tl q") auto
    then show ?thesis using r False by (auto simp: BIO_read_asn1_def read_asn1_spec_def)
  next
    case True
    then obtain tag l bs where q: "q = tag # l # bs" by (cases q; cases "tl q") auto
    let ?h = "overwrite (replicate 6 None) 0 (map Some (take 2 q)) :: cell list"
    have h: "?h ! 0 = Some tag" "?h ! 1 = Some l" "length ?h = 6" "take 2 ?h = map Some [tag, l]"
      by (simp_all add: q overwrite_def)
    have r': "BIO_read w (Some i) 2 = Some (2, map Some (take 2 q), w1)" "mem_at w1 i bs"
      using r True by (simp_all add: q)
    show ?thesis
    proof (cases "tag AND 0x1f = 0x1f")
      case True
      then have "asn1_header False q = None" by (simp add: q)
      moreover have "BIO_read_asn1 sys w (Some i) max_len = Some (None, w1)"
        using r'(1) h True by (simp add: BIO_read_asn1_def Let_def)
      ultimately show ?thesis by (simp add: read_asn1_spec_def)
    next
      case tag: False
      show ?thesis
      proof (cases "unat l < 128")
        case True
        have "BIO_read_asn1 sys w (Some i) max_len = read_body sys w1 (Some i) ?h 2 (unat l) max_len"
          using r'(1) h tag True by (simp add: BIO_read_asn1_def Let_def u8_and_80)
        moreover have "read_asn1_spec sys max_len q =
            (if unat l \<le> length bs \<and> readable sys max_len (2 + unat l) 2 then Some (unat l + 2) else None)"
          using tag True by (simp add: read_asn1_spec_def q add.commute)
        ultimately show ?thesis
          using read_body_element[OF r'(2), of 2 ?h "[tag, l]" "unat l" sys max_len] h True by (auto simp: q)
      next
        case long: False
        let ?k = "unat (l AND 0x7f)"
        have k: "?k = unat l - 128"
          using long unat_u8_lt[of l] by (simp add: u8_and_7f mod_if)
        have l80: "l AND 0x80 \<noteq> 0" using long by (simp add: u8_and_80)
        have not_ind: "\<not> (tag AND 0x20 \<noteq> 0 \<and> ?k = 0)"
        proof
          assume a: "tag AND 0x20 \<noteq> 0 \<and> ?k = 0"
          then have "unat l = 128" using k long unat_u8_lt[of l] by simp
          then have "l = 0x80" by (simp add: word_unat_eq_iff)
          then show False using a ind by (simp add: indefinite_head_def q bit_5_and)
        qed
        show ?thesis
        proof (cases "?k = 0 \<or> ?k > 4")
          case True
          then have "asn1_header False q = None" using tag long k by (auto simp: q Let_def)
          moreover have "BIO_read_asn1 sys w (Some i) max_len = Some (None, w1)"
            using r'(1) h tag l80 not_ind True unfolding BIO_read_asn1_def Let_def by auto
          ultimately show ?thesis by (simp add: read_asn1_spec_def)
        next
          case False
          then have k4: "0 < ?k" "?k \<le> 4" by auto
          obtain r2 w2 where r2: "BIO_read w1 (Some i) (int ?k) = Some (r2, map Some (take ?k bs), w2)"
              "mem_at w2 i (drop ?k bs)" "r2 = int ?k \<longleftrightarrow> ?k \<le> length bs"
          proof -
            have "?k \<le> INT_MAX" using k4 by (simp add: INT_MAX_def)
            then have "int ?k \<le> int INT_MAX" by (simp only: of_nat_le_iff)
            from BIO_read_mem[OF r'(2) _ this] show ?thesis using that by (auto simp only: nat_int of_nat_0_le_iff)
          qed
          let ?h2 = "overwrite ?h 2 (map Some (take ?k bs))"
          have run: "BIO_read_asn1 sys w (Some i) max_len =
              (if r2 \<noteq> int ?k then Some (None, w2)
               else do {
                 C_assert (None \<notin> set (take ?k (drop 2 ?h2)));
                 let len32 = foldl (\<lambda>l b. push_bit 8 l OR ucast b) (0 :: u32) (map the (take ?k (drop 2 ?h2)));
                 if len32 < 128 then Some (None, w2)
                 else if drop_bit ((?k - 1) * 8) len32 = 0 then Some (None, w2)
                 else read_body sys w2 (Some i) ?h2 (2 + ?k) (unat len32) max_len })"
            using r'(1) h tag l80 not_ind False r2(1) unfolding BIO_read_asn1_def Let_def by auto
          show ?thesis
          proof (cases "?k \<le> length bs")
            case False
            then have "asn1_header False q = None" using tag long k k4 by (auto simp: q Let_def)
            then show ?thesis using run r2 False by (simp add: read_asn1_spec_def)
          next
            case True
            let ?v = "be_val (take ?k bs)"
            have d: "take ?k (drop 2 ?h2) = map Some (take ?k bs)" "length ?h2 = 6"
                "take (2 + ?k) ?h2 = map Some (tag # l # take ?k bs)"
              using True k4 h(3,4) by (simp_all add: overwrite_def min_absorb2)
            have v: "?v < 256 ^ 4"
              using be_val_lt[of "take ?k bs"] True k4 power_increasing[of ?k 4 "256 :: nat"] by simp
            have f: "foldl (\<lambda>l b. push_bit 8 l OR ucast b) (0 :: u32) (take ?k bs) = of_nat ?v"
              using k4 by (intro word_eq_of_nat foldl_shift_u32) simp
            note tests = u32_length_tests[OF v k4(2,1)]
            have run2: "BIO_read_asn1 sys w (Some i) max_len =
                (if ?v < 128 \<or> ?v < 256 ^ (?k - 1) then Some (None, w2)
                 else read_body sys w2 (Some i) ?h2 (2 + ?k) ?v max_len)"
              unfolding run d(1) using r2(3) True
              by (simp add: Let_def f tests comp_def image_iff del: of_nat_add One_nat_def)
            have spec: "read_asn1_spec sys max_len q =
                (if ?v < 128 \<or> ?v < 256 ^ (?k - 1) then None
                 else if ?v \<le> length (drop ?k bs) \<and> readable sys max_len (2 + ?k + ?v) (2 + ?k)
                 then Some (2 + ?k + ?v) else None)"
              using tag long k k4 True by (auto simp: read_asn1_spec_def q Let_def add_ac)
            have pre: "(tag # l # take ?k bs) @ take ?v (drop ?k bs) = take (2 + ?k + ?v) q"
              by (simp add: q take_add)
            show ?thesis
            proof (cases "?v < 128 \<or> ?v < 256 ^ (?k - 1)")
              case True
              then show ?thesis using run2 spec by simp
            next
              case ok: False
              have dr: "drop ?v (drop ?k bs) = drop (2 + ?k + ?v) q" by (simp add: q add.commute)
              obtain w3 where "read_body sys w2 (Some i) ?h2 (2 + ?k) ?v max_len =
                  Some (if ?v \<le> length (drop ?k bs) \<and> readable sys max_len (2 + ?k + ?v) (2 + ?k)
                        then Some (map Some (take (2 + ?k + ?v) q)) else None, w3)"
                "?v \<le> length (drop ?k bs) \<and> readable sys max_len (2 + ?k + ?v) (2 + ?k) \<longrightarrow>
                  mem_at w3 i (drop (2 + ?k + ?v) q)"
                using read_body_element[OF r2(2), of "2 + ?k" ?h2 "tag # l # take ?k bs" ?v sys max_len] d k4 v
                unfolding pre dr by auto
              then show ?thesis using run2 spec ok by (auto split: if_splits)
            qed
          qed
        qed
      qed
    qed
  qed
qed

lemma read_asn1_spec_iff:
  "read_asn1_spec sys max_len q = Some n \<longleftrightarrow>
      (\<exists>tag body rest. q = der_element tag body @ rest \<and> der_tag_ok tag \<and> n = length (der_element tag body) \<and>
         n \<le> max_len \<and> length body \<le> INT_MAX \<and> OPENSSL_malloc sys n \<noteq> None)"
proof -
  have "read_asn1_spec sys max_len q = Some n \<longleftrightarrow>
      (\<exists>tag hl. (asn1_header False q = Some (tag, n, hl) \<and> n \<le> length q) \<and> readable sys max_len n hl)"
    by (auto simp: read_asn1_spec_def split: option.splits)
  also have "\<dots> \<longleftrightarrow> (\<exists>tag hl body rest. q = der_element tag body @ rest \<and> der_tag_ok tag \<and> length body < 2 ^ 32 \<and>
        n = length (der_element tag body) \<and> hl + length body = n \<and> readable sys max_len n hl)"
    unfolding asn1_header_element by blast
  also have "\<dots> \<longleftrightarrow> (\<exists>tag body rest. q = der_element tag body @ rest \<and> der_tag_ok tag \<and> n = length (der_element tag body) \<and>
         n \<le> max_len \<and> length body \<le> INT_MAX \<and> OPENSSL_malloc sys n \<noteq> None)"
  proof -
    have "n - hl = length body" if "hl + length body = n" for hl and body :: "u8 list" using that by simp
    moreover have "\<exists>hl. hl + length body = length (der_element tag body)" for tag body
      by (intro exI[of _ "1 + length (der_len (length body))"]) (simp add: der_element_def)
    moreover have "length (body :: u8 list) < 2 ^ 32" if "length body \<le> INT_MAX" for body
      using that by (simp add: INT_MAX_def)
    ultimately show ?thesis unfolding readable_def by metis
  qed
  finally show ?thesis .
qed

section \<open>Property\<close>

text \<open>
  Property C21: \<^verbatim>\<open>BIO_read_asn1\<close> on a memory BIO reads exactly one DER element, unless the
  element has indefinite length. It returns \<open>out\<close> iff the bytes of the BIO start with a DER
  element, that element is \<open>out\<close>, it fits \<open>max_len\<close> and \<open>INT_MAX\<close>, and memory can be had; then
  the BIO is left with exactly the bytes behind the element. It always returns.
\<close>

theorem BIO_read_asn1_exact:
  assumes "mem_at w i q" "\<not> indefinite_head q"
  shows "\<exists>res w'. BIO_read_asn1 sys w (Some i) max_len = Some (res, w') \<and>
    (\<forall>out. res = Some out \<longleftrightarrow>
      (\<exists>tag body rest. q = der_element tag body @ rest \<and> der_tag_ok tag \<and> out = map Some (der_element tag body) \<and>
         length (der_element tag body) \<le> max_len \<and> length body \<le> INT_MAX \<and>
         OPENSSL_malloc sys (length (der_element tag body)) \<noteq> None)) \<and>
    (\<forall>el rest. res = Some (map Some el) \<longrightarrow> q = el @ rest \<longrightarrow> mem_at w' i rest)"
proof -
  obtain w' where run: "BIO_read_asn1 sys w (Some i) max_len =
      Some (map_option (\<lambda>n. map Some (take n q)) (read_asn1_spec sys max_len q), w')"
    and left: "\<And>n. read_asn1_spec sys max_len q = Some n \<Longrightarrow> mem_at w' i (drop n q)"
    using BIO_read_asn1_header[OF assms] by blast
  have spec: "read_asn1_spec sys max_len q = Some n \<longleftrightarrow>
      (\<exists>tag body rest. q = der_element tag body @ rest \<and> der_tag_ok tag \<and> n = length (der_element tag body) \<and>
         n \<le> max_len \<and> length body \<le> INT_MAX \<and> OPENSSL_malloc sys n \<noteq> None)" for n
    by (rule read_asn1_spec_iff)
  have taken: "take (length el) (el @ rest) = el" for el rest :: "u8 list" by simp
  have len: "n = length el" if "read_asn1_spec sys max_len q = Some n" "map Some (take n q) = map Some el"
      for n and el :: "u8 list"
  proof -
    have "take n q = el" using that(2) by (simp add: inj_map_eq_map)
    moreover have "n \<le> length q" using that(1) by (auto simp: spec)
    ultimately show ?thesis by auto
  qed
  define res where "res = map_option (\<lambda>n. map Some (take n q)) (read_asn1_spec sys max_len q)"
  have "res = Some out \<longleftrightarrow> (\<exists>n. read_asn1_spec sys max_len q = Some n \<and> out = map Some (take n q))" for out
    by (auto simp: res_def)
  then have "res = Some out \<longleftrightarrow>
      (\<exists>tag body rest. q = der_element tag body @ rest \<and> der_tag_ok tag \<and> out = map Some (der_element tag body) \<and>
         length (der_element tag body) \<le> max_len \<and> length body \<le> INT_MAX \<and>
         OPENSSL_malloc sys (length (der_element tag body)) \<noteq> None)" for out
    unfolding spec by (metis taken)
  moreover have "mem_at w' i rest" if "res = Some (map Some el)" "q = el @ rest" for el rest
  proof -
    from that(1) obtain n where n: "read_asn1_spec sys max_len q = Some n" "map Some (take n q) = map Some el"
      by (auto simp: res_def)
    then show ?thesis using left[OF n(1)] len[OF n] that(2) by simp
  qed
  ultimately show ?thesis using run unfolding res_def[symmetric] by blast
qed

text \<open>A read-only memory BIO over an \<^verbatim>\<open>INTEGER\<close> and one more byte.\<close>

definition sample_heap :: bio_heap where
  "sample_heap = (\<lambda>_. None)(0 \<mapsto> bio_zeroed\<lparr>bio_method := Some mem_method, bio_init := True,
     bio_flags := BIO_FLAGS_MEM_RDONLY, bio_references := 1,
     bio_ptr := PtrMem \<lparr>mb_mem = \<lparr>bm_length = 4, bm_data = Some (map Some [2, 1, 7, 9]), bm_max = 4\<rparr>, mb_skip = 0\<rparr>\<rparr>)"

lemma sample_heap_mem: "mem_at sample_heap 0 [2, 1, 7, 9]"
  by (simp add: mem_at_def sample_heap_def bio_zeroed_def mem_rep_def is_rdonly_def mb_cells_def
      bm_cells_def BIO_FLAGS_MEM_RDONLY_def INT_MAX_def)

theorem BIO_read_asn1_exact_witness:
  "\<exists>res w'. BIO_read_asn1 (\<lambda>_. True) sample_heap (Some 0) 100 = Some (res, w') \<and>
     res = Some (map Some [2, 1, 7]) \<and> mem_at w' 0 [9]"
proof -
  have "\<not> indefinite_head [2, 1, 7, 9]" by (simp add: indefinite_head_def)
  from BIO_read_asn1_exact[OF sample_heap_mem this, of "\<lambda>_. True" 100]
  obtain res w' where r: "BIO_read_asn1 (\<lambda>_. True) sample_heap (Some 0) 100 = Some (res, w')"
    "\<forall>out. res = Some out \<longleftrightarrow>
      (\<exists>tag body rest. [2, 1, 7, 9] = der_element tag body @ rest \<and> der_tag_ok tag \<and> out = map Some (der_element tag body) \<and>
         length (der_element tag body) \<le> 100 \<and> length body \<le> INT_MAX \<and>
         OPENSSL_malloc (\<lambda>_. True) (length (der_element tag body)) \<noteq> None)"
    "\<forall>el rest. res = Some (map Some el) \<longrightarrow> [2, 1, 7, 9] = el @ rest \<longrightarrow> mem_at w' 0 rest"
    by blast
  have el: "der_element 2 [7] = [2, 1, 7]" by (simp add: der_element_def der_len_def)
  have "res = Some (map Some (der_element 2 [7]))"
    unfolding r(2)[rule_format]
    by (intro exI[of _ 2] exI[of _ "[7]"] exI[of _ "[9]"])
      (simp add: el der_tag_ok_def INT_MAX_def OPENSSL_malloc_def Let_def)
  then have "res = Some (map Some [2, 1, 7])" by (simp only: el)
  moreover from this have "mem_at w' 0 [9]" using r(3) by (metis append_Cons append_Nil)
  ultimately show ?thesis using r(1) by blast
qed

end
