(* ===== verification/Bio_Stream.thy ===== *)
theory Bio_Stream
  imports Bio
begin

text \<open>
  BIOs as byte streams. The interface a reader and a writer rely on is a locale, with the
  order of bytes through any sequence of calls proved once; BIO pairs and memory BIOs are
  interpretations of it. The calls on a connected pair, both directions interleaved with
  control commands, are a step relation, with its invariant and the progress of its reads.
\<close>

section \<open>The interface\<close>

text \<open>Calls on a stream, and what they do in sequence: the bytes sent and the cells received.\<close>

datatype 'b stream_op = Send "'b list" | Recv nat

fun stream_run ::
  "('s \<Rightarrow> 'b list \<Rightarrow> (int \<times> 's) option) \<Rightarrow> ('s \<Rightarrow> nat \<Rightarrow> (int \<times> 'b option list \<times> 's) option) \<Rightarrow>
   's \<Rightarrow> 'b stream_op list \<Rightarrow> ('b list \<times> 'b option list \<times> 's) option" where
  "stream_run send recv s [] = Some ([], [], s)"
| "stream_run send recv s (Send xs # ops) = do {
     (r, s) \<leftarrow> send s xs;
     (sent, got, s) \<leftarrow> stream_run send recv s ops;
     Some (take (nat r) xs @ sent, got, s) }"
| "stream_run send recv s (Recv n # ops) = do {
     (r, out, s) \<leftarrow> recv s n;
     (sent, got, s) \<leftarrow> stream_run send recv s ops;
     Some (sent, out @ got, s) }"

fun op_ok :: "'b stream_op \<Rightarrow> bool" where
  "op_ok (Send xs) = (length xs \<le> INT_MAX)"
| "op_ok (Recv n) = (n \<le> INT_MAX)"

locale byte_stream =
  fixes rep :: "'s \<Rightarrow> 'b list \<Rightarrow> bool"
    and send :: "'s \<Rightarrow> 'b list \<Rightarrow> (int \<times> 's) option"
    and recv :: "'s \<Rightarrow> nat \<Rightarrow> (int \<times> 'b option list \<times> 's) option"
  assumes send_ok: "rep s q \<Longrightarrow> length xs \<le> INT_MAX \<Longrightarrow>
      \<exists>r s'. send s xs = Some (r, s') \<and> rep s' (q @ take (nat r) xs)"
    and recv_ok: "rep s q \<Longrightarrow> n \<le> INT_MAX \<Longrightarrow>
      \<exists>r s'. recv s n = Some (r, map Some (take n q), s') \<and> rep s' (drop n q)"
begin

text \<open>No call fails, and what was received is a prefix of what was there or sent.\<close>

lemma run_fifo:
  "rep s q \<Longrightarrow> list_all op_ok ops \<Longrightarrow>
   \<exists>sent got s' q'. stream_run send recv s ops = Some (sent, map Some got, s') \<and> rep s' q' \<and> q @ sent = got @ q'"
proof (induction ops arbitrary: s q)
  case Nil
  then show ?case by auto
next
  case (Cons a ops)
  show ?case
  proof (cases a)
    case (Send xs)
    obtain r s1 where s1: "send s xs = Some (r, s1)" "rep s1 (q @ take (nat r) xs)"
      using send_ok[OF Cons.prems(1), of xs] Cons.prems(2) Send by auto
    obtain sent got s' q' where "stream_run send recv s1 ops = Some (sent, map Some got, s')" "rep s' q'"
        "(q @ take (nat r) xs) @ sent = got @ q'"
      using Cons.IH[OF s1(2)] Cons.prems(2) by auto
    then show ?thesis using Send s1(1) by auto
  next
    case (Recv n)
    obtain r s1 where s1: "recv s n = Some (r, map Some (take n q), s1)" "rep s1 (drop n q)"
      using recv_ok[OF Cons.prems(1), of n] Cons.prems(2) Recv by auto
    obtain sent got s' q' where run: "stream_run send recv s1 ops = Some (sent, map Some got, s')" "rep s' q'"
        "drop n q @ sent = got @ q'"
      using Cons.IH[OF s1(2)] Cons.prems(2) by auto
    have "q @ sent = take n q @ drop n q @ sent" by simp
    then have "q @ sent = (take n q @ got) @ q'" using run(3) by simp
    then show ?thesis using Recv s1(1) run(1,2) by (intro exI[of _ sent] exI[of _ "take n q @ got"]) auto
  qed
qed

end

section \<open>A connected pair\<close>

definition connected :: "nat \<Rightarrow> nat \<Rightarrow> bio_heap \<Rightarrow> u8 list \<Rightarrow> u8 list \<Rightarrow> bool" where
  "connected i j w q q' \<longleftrightarrow> i \<noteq> j \<and> pairs_ok w \<and> (\<exists>p p'. holds w i j p q \<and> holds w j i p' q') \<and>
     map_option bio_method (w i) = Some (Some methods_biop) \<and> map_option bio_method (w j) = Some (Some methods_biop)"

lemma connected_sym: "connected i j w q q' \<longleftrightarrow> connected j i w q' q"
  by (auto simp: connected_def)

lemma connected_bio:
  assumes "connected i j w q q'"
  obtains b where "w i = Some b" "bio_method b = Some methods_biop" "bio_init b"
proof -
  obtain p where p: "holds w i j p q" and ok: "pairs_ok w" and m: "map_option bio_method (w i) = Some (Some methods_biop)"
    using assms by (auto simp: connected_def)
  then obtain b where b: "w i = Some b" "bio_ptr b = PtrPair p" "peer p = Some j"
    by (auto simp: holds_def get_pair_Some)
  then have "bio_init b" using pairs_okD[OF ok b(1,2)] by (simp add: pair_ok_def)
  then show ?thesis using that b m by auto
qed

text \<open>The byte counters of \<open>BIO_read\<close> and \<open>BIO_write\<close> are outside the invariant.\<close>

lemma connected_upd:
  assumes "connected i j w q q'" "\<And>b. bio_ptr (f b) = bio_ptr b" "\<And>b. bio_init (f b) = bio_init b"
    "\<And>b. bio_method (f b) = bio_method b"
  shows "connected i j (upd_bio w k f) q q'"
  using assms pairs_ok_upd[of w f k] by (auto simp: connected_def holds_def get_pair_upd)

text \<open>
  What a write of \<open>n\<close> bytes returns when \<open>k\<close> bytes are in the ring, and a read of \<open>n\<close> bytes when the other
  end's ring holds \<open>k\<close>: the bytes there is room for, or that are there; -1 without any, and 0 at the end of a closed
  stream.
\<close>

definition write_return :: "bio_bio \<Rightarrow> nat \<Rightarrow> int \<Rightarrow> int" where
  "write_return p k n = (if n \<le> 0 then 0 else if closed p \<or> k = bp_size p then -1 else int (min (nat n) (bp_size p - k)))"

definition read_return :: "bio_bio \<Rightarrow> nat \<Rightarrow> int \<Rightarrow> int" where
  "read_return p k n = (if n \<le> 0 then 0 else if k = 0 then if closed p then 0 else -1 else int (min (nat n) k))"

lemma BIO_write_pair:
  assumes c: "connected i j w q q'" and n: "n \<le> int INT_MAX" "nat n \<le> length data"
  shows "\<exists>r w' p. BIO_write sys w (Some i) data n = Some (r, w') \<and> connected i j w' (q @ take (nat r) data) q' \<and>
    get_pair w i = Some p \<and> length q \<le> bp_size p \<and> r = write_return p (length q) n"
proof -
  obtain b where b: "w i = Some b" "bio_method b = Some methods_biop" "bio_init b" using c by (rule connected_bio)
  obtain p p' where p: "holds w i j p q" "holds w j i p' q'" and ok: "pairs_ok w" "i \<noteq> j"
    using c by (auto simp: connected_def)
  have size: "get_pair w i = Some p" "length q \<le> bp_size p" using p(1) ring_rep_bounds[of p q] ring_rep_len[of p q] by (auto simp: holds_def)
  show ?thesis
  proof (cases "n \<le> 0")
    case True
    then show ?thesis using b c size by (intro exI[of _ 0] exI[of _ w] exI[of _ p]) (simp add: BIO_write_def write_return_def)
  next
    case False
    then have n0: "0 < n" by simp
    obtain r w1 p1 where w1: "bio_write w i (Some data) n = Some (r, w1)" "pairs_ok w1" "\<forall>k. k \<noteq> i \<longrightarrow> w1 k = w k"
        "\<forall>k. map_option bio_method (w1 k) = map_option bio_method (w k)"
        "let k = min (nat n) (bp_size p - length q)
         in if closed p \<or> k = 0 then r = -1 \<and> holds w1 i j p1 q else r = int k \<and> holds w1 i j p1 (q @ take k data)"
      using bio_write_rep[OF ok(1) p(1) n0 n] by blast
    have h1: "holds w1 i j p1 (q @ take (nat r) data)" "r = write_return p (length q) n"
      using w1(5) n0 size(2) by (auto simp: Let_def write_return_def split: if_splits)
    have "holds w1 j i p' q'" using p(2) w1(3) ok(2) by (simp add: holds_def get_pair_def)
    then have c1: "connected i j w1 (q @ take (nat r) data) q'"
      using h1 w1(2,4) c ok(2) unfolding connected_def by metis
    let ?w2 = "if r > 0 then upd_bio w1 i (\<lambda>b. b\<lparr>bio_num_write := size_add (bio_num_write b) (size_of_int r)\<rparr>) else w1"
    have "BIO_write sys w (Some i) data n = Some (r, ?w2)"
      using b n0 w1(1) by (simp add: BIO_write_def)
    moreover have "connected i j ?w2 (q @ take (nat r) data) q'"
      using c1 connected_upd[OF c1] by (cases "r > 0") simp_all
    ultimately show ?thesis using h1(2) size by blast
  qed
qed

lemma BIO_read_pair:
  assumes c: "connected i j w q q'" and n: "n \<le> int INT_MAX"
  shows "\<exists>r w' p. BIO_read w (Some j) n = Some (r, map Some (take (nat n) q), w') \<and> connected i j w' (drop (nat n) q) q' \<and>
    get_pair w i = Some p \<and> r = read_return p (length q) n"
proof -
  obtain b where b: "w j = Some b" "bio_method b = Some methods_biop" "bio_init b"
    using c unfolding connected_sym[of i] by (rule connected_bio)
  obtain p p' where p: "holds w i j p q" "holds w j i p' q'" and ok: "pairs_ok w" "i \<noteq> j"
    using c by (auto simp: connected_def)
  have pi: "get_pair w i = Some p" using p(1) by (simp add: holds_def)
  show ?thesis
  proof (cases "n \<le> 0")
    case True
    then show ?thesis using b c pi by (intro exI[of _ 0] exI[of _ w] exI[of _ p]) (simp add: BIO_read_def read_return_def)
  next
    case False
    then have n0: "0 < n" by simp
    obtain r out w1 p1 where w1: "bio_read w j True n = Some (r, out, w1)" "pairs_ok w1" "get_pair w1 j = get_pair w j"
        "\<forall>k. map_option bio_method (w1 k) = map_option bio_method (w k)"
        "let k = min (nat n) (length q)
         in if k = 0 then r = (if closed p then 0 else -1) \<and> out = [] \<and> holds w1 i j p1 q
            else r = int k \<and> out = map Some (take k q) \<and> holds w1 i j p1 (drop k q)"
      using bio_read_rep[OF ok(1) p(1) n0 n ok(2)[symmetric]] by blast
    define k where "k = min (nat n) (length q)"
    have k: "take k q = take (nat n) q" "drop k q = drop (nat n) q" "k = 0 \<longleftrightarrow> q = []"
      using n0 by (auto simp: k_def min_def)
    have h1: "holds w1 i j p1 (drop (nat n) q)" "out = map Some (take (nat n) q)" "r = read_return p (length q) n"
      using w1(5) k n0 unfolding Let_def k_def[symmetric] read_return_def by (auto simp: k_def split: if_splits)
    have "holds w1 j i p' q'" using p(2) w1(3) by (simp add: holds_def)
    then have c1: "connected i j w1 (drop (nat n) q) q'"
      using h1 w1(2,4) c ok(2) unfolding connected_def by metis
    let ?w2 = "if r > 0 then upd_bio w1 j (\<lambda>b. b\<lparr>bio_num_read := size_add (bio_num_read b) (size_of_int r)\<rparr>) else w1"
    have "BIO_read w (Some j) n = Some (r, map Some (take (nat n) q), ?w2)"
      using b n0 w1(1) h1(2) by (simp add: BIO_read_def)
    moreover have "connected i j ?w2 (drop (nat n) q) q'"
      using c1 connected_upd[OF c1] by (cases "r > 0") simp_all
    ultimately show ?thesis using h1(3) pi by blast
  qed
qed

lemma BIO_ctrl_pair:
  assumes c: "connected i j w q q'"
  shows "\<exists>r w'. BIO_ctrl w (Some i) cmd larg NoArg = Some (r, w') \<and> connected i j w' q q'"
proof -
  obtain b where b: "w i = Some b" "bio_method b = Some methods_biop" using c by (rule connected_bio)
  obtain p p' where p: "holds w i j p q" "holds w j i p' q'" and ok: "pairs_ok w" "i \<noteq> j"
    using c by (auto simp: connected_def)
  obtain r w1 p1 where w1: "bio_ctrl w i cmd larg None = Some (r, w1)" "pairs_ok w1" "holds w1 i j p1 q"
      "\<forall>k. k \<noteq> i \<longrightarrow> w1 k = w k" "\<forall>k. map_option bio_method (w1 k) = map_option bio_method (w k)"
    using bio_ctrl_rep[OF ok(1) p ok(2)] by blast
  have "holds w1 j i p' q'" using p(2) w1(4) ok(2) by (simp add: holds_def get_pair_def)
  then have "connected i j w1 q q'" using w1 c ok(2) unfolding connected_def by metis
  then show ?thesis using b w1(1) by (auto simp: BIO_ctrl_def)
qed

definition pair_send :: "sys_malloc \<Rightarrow> nat \<Rightarrow> bio_heap \<Rightarrow> u8 list \<Rightarrow> (int \<times> bio_heap) option" where
  "pair_send sys i w xs = BIO_write sys w (Some i) xs (int (length xs))"

definition bio_recv :: "nat \<Rightarrow> bio_heap \<Rightarrow> nat \<Rightarrow> (int \<times> cell list \<times> bio_heap) option" where
  "bio_recv j w n = BIO_read w (Some j) (int n)"

interpretation pair_stream: byte_stream "\<lambda>w q. \<exists>q'. connected i j w q q'" "pair_send sys i" "bio_recv j"
  for sys i j
proof
  fix w q and xs :: "u8 list"
  assume "\<exists>q'. connected i j w q q'" "length xs \<le> INT_MAX"
  then show "\<exists>r s'. pair_send sys i w xs = Some (r, s') \<and> (\<exists>q'. connected i j s' (q @ take (nat r) xs) q')"
    using BIO_write_pair[of i j w q _ "int (length xs)" xs sys] by (fastforce simp: pair_send_def)
next
  fix w q n
  assume "\<exists>q'. connected i j w q q'" "n \<le> INT_MAX"
  then show "\<exists>r s'. bio_recv j w n = Some (r, map Some (take n q), s') \<and> (\<exists>q'. connected i j s' (drop n q) q')"
    using BIO_read_pair[of i j w q _ "int n"] by (fastforce simp: bio_recv_def)
qed

section \<open>A memory BIO\<close>

definition writable :: "nat \<Rightarrow> bio_heap \<Rightarrow> bool" where
  "writable i w \<longleftrightarrow> (\<exists>b. w i = Some b \<and> \<not> is_rdonly b)"

lemma BIO_write_mem:
  assumes m: "mem_at w i q" "writable i w" and n: "n \<le> int INT_MAX" "nat n \<le> length data"
  shows "\<exists>r w'. BIO_write sys w (Some i) data n = Some (r, w') \<and> mem_at w' i (q @ take (nat r) data) \<and> writable i w'"
proof -
  obtain b where b: "w i = Some b" "bio_method b = Some mem_method" "bio_init b" "bio_num b \<le> 0" "mem_rep b q" "\<not> is_rdonly b"
    using m by (auto simp: mem_at_def writable_def)
  show ?thesis
  proof (cases "n \<le> 0")
    case True
    then show ?thesis using b m by (intro exI[of _ 0] exI[of _ w]) (simp add: BIO_write_def)
  next
    case False
    then have n0: "0 < n" by simp
    obtain r b' where r: "mem_write sys b data n = Some (r, b')" "same_bio b b'"
        "r = n \<and> mem_rep b' (q @ take (nat n) data) \<or> r = -1 \<and> mem_rep b' q"
      using mem_write_rep[OF b(5,6) n0 n] by blast
    have rep: "mem_rep b' (q @ take (nat r) data)" using r(3) by auto
    define b2 where "b2 = (if r > 0 then b'\<lparr>bio_num_write := size_add (bio_num_write b') (size_of_int r)\<rparr> else b')"
    have "mem_rep b2 (q @ take (nat r) data)" using rep by (rule mem_rep_cong) (simp_all add: b2_def is_rdonly_def)
    moreover have "BIO_write sys w (Some i) data n = Some (r, w(i \<mapsto> b2))"
      using b n0 r(1) by (simp add: BIO_write_def b2_def upd_bio_def)
    moreover have "\<not> is_rdonly b2" using r(2) b(6) by (simp add: same_bio_def b2_def is_rdonly_def)
    ultimately show ?thesis using b r(2)
      by (intro exI[of _ r] exI[of _ "w(i \<mapsto> b2)"]) (simp add: mem_at_def writable_def b2_def same_bio_def)
  qed
qed

lemma BIO_read_mem_writable:
  assumes "mem_at w i q" "writable i w" "0 \<le> n" "n \<le> int INT_MAX"
  shows "\<exists>r w'. BIO_read w (Some i) n = Some (r, map Some (take (nat n) q), w') \<and> mem_at w' i (drop (nat n) q) \<and> writable i w'"
proof -
  obtain b where b: "w i = Some b" "bio_method b = Some mem_method" "bio_init b" "mem_rep b q" "\<not> is_rdonly b"
    using assms by (auto simp: mem_at_def writable_def)
  obtain r w' where r: "BIO_read w (Some i) n = Some (r, map Some (take (nat n) q), w')" "mem_at w' i (drop (nat n) q)"
    using BIO_read_mem[OF assms(1,3,4)] by blast
  have "writable i w'"
  proof (cases "n \<le> 0")
    case True
    then show ?thesis using r(1) assms(2) b by (simp add: BIO_read_def)
  next
    case False
    then obtain r1 out b' where m: "mem_read b n = Some (r1, out, b')" "same_bio b b'"
      using mem_read_rep[OF b(4), of n] assms(4) by (auto simp: not_le)
    then have "w' = (if r1 > 0 then upd_bio (w(i \<mapsto> b')) i (\<lambda>b. b\<lparr>bio_num_read := size_add (bio_num_read b) (size_of_int r1)\<rparr>) else w(i \<mapsto> b'))"
      using r(1) b False by (auto simp: BIO_read_def)
    then show ?thesis using m(2) b(5) by (auto simp: writable_def same_bio_def is_rdonly_def)
  qed
  then show ?thesis using r by blast
qed

interpretation mem_stream: byte_stream "\<lambda>w q. mem_at w i q \<and> writable i w" "pair_send sys i" "bio_recv i"
  for sys i
proof
  fix w q and xs :: "u8 list"
  assume "mem_at w i q \<and> writable i w" "length xs \<le> INT_MAX"
  then show "\<exists>r s'. pair_send sys i w xs = Some (r, s') \<and> mem_at s' i (q @ take (nat r) xs) \<and> writable i s'"
    using BIO_write_mem[of w i q "int (length xs)" xs sys] by (auto simp: pair_send_def)
next
  fix w q n
  assume "mem_at w i q \<and> writable i w" "n \<le> INT_MAX"
  then show "\<exists>r s'. bio_recv i w n = Some (r, map Some (take n q), s') \<and> mem_at s' i (drop n q) \<and> writable i s'"
    using BIO_read_mem_writable[of w i q "int n"] by (auto simp: bio_recv_def)
qed

section \<open>Calls on a pair as steps\<close>

text \<open>
  What each side has sent and received so far, by the address of its BIO. The pair is made by
  \<open>BIO_new_bio_pair\<close> in a heap where the two addresses are free.
\<close>

inductive pair_run ::
  "sys_malloc \<Rightarrow> nat \<Rightarrow> nat \<Rightarrow> bio_heap \<Rightarrow> (nat \<Rightarrow> u8 list) \<Rightarrow> (nat \<Rightarrow> u8 list) \<Rightarrow> bool"
  for sys :: sys_malloc and i j :: nat where
  starts: "BIO_new_bio_pair sys w0 i j n1 n2 = Some (True, w) \<Longrightarrow> pairs_ok w0 \<Longrightarrow> w0 i = None \<Longrightarrow> w0 j = None \<Longrightarrow>
    n1 < SIZE_MOD - 8 \<Longrightarrow> n2 < SIZE_MOD - 8 \<Longrightarrow> pair_run sys i j w (\<lambda>_. []) (\<lambda>_. [])"
| sends: "pair_run sys i j w sent got \<Longrightarrow> k \<in> {i, j} \<Longrightarrow> n \<le> int INT_MAX \<Longrightarrow> nat n \<le> length data \<Longrightarrow>
    BIO_write sys w (Some k) data n = Some (r, w') \<Longrightarrow>
    pair_run sys i j w' (sent(k := sent k @ take (nat r) data)) got"
| reads: "pair_run sys i j w sent got \<Longrightarrow> k \<in> {i, j} \<Longrightarrow> n \<le> int INT_MAX \<Longrightarrow>
    BIO_read w (Some k) n = Some (r, out, w') \<Longrightarrow>
    pair_run sys i j w' sent (got(k := got k @ map the out))"
| ctrls: "pair_run sys i j w sent got \<Longrightarrow> k \<in> {i, j} \<Longrightarrow>
    BIO_ctrl w (Some k) cmd larg NoArg = Some (r, w') \<Longrightarrow> pair_run sys i j w' sent got"

lemma BIO_new_bio_pair_connected:
  assumes new: "BIO_new_bio_pair sys w0 i j n1 n2 = Some (True, w)" and sys: "malloc_bounded sys"
    and w0: "pairs_ok w0" "w0 i = None" "w0 j = None" and ij: "i \<noteq> j"
    and n: "n1 < SIZE_MOD - 8" "n2 < SIZE_MOD - 8"
  shows "connected i j w [] []"
proof -
  obtain ok1 w1 where b1: "BIO_new sys w0 i methods_biop = (ok1, w1)" by fastforce
  obtain ok2 w2 where b2: "BIO_new sys w1 j methods_biop = (ok2, w2)" by fastforce
  have run: "ok1" "ok2" "bio_make_pair sys w2 i j n1 n2 = Some (True, w)"
    using new unfolding BIO_new_bio_pair_def b1 b2 Let_def
    by (auto simp: b1 b2 bind_eq_Some_conv split: if_splits)
  obtain b p where bi: "w1 = w0(i \<mapsto> b)" "bio_ptr b = PtrPair p" "fresh_side p" "\<not> bio_init b" "bio_method b = Some methods_biop"
    using b1 run(1) by (auto simp: BIO_new_def bio_new_def bio_zeroed_def fresh_side_def Let_def split: if_splits)
  obtain b' p' where bj: "w2 = w1(j \<mapsto> b')" "bio_ptr b' = PtrPair p'" "fresh_side p'" "\<not> bio_init b'" "bio_method b' = Some methods_biop"
    using b2 run(2) by (auto simp: BIO_new_def bio_new_def bio_zeroed_def fresh_side_def Let_def split: if_splits)
  have "loose (Some b)" "loose (Some b')" using bi bj by (auto simp: loose_def fresh_side_def side_ok_def)
  then have "pairs_ok w2" unfolding bj(1) bi(1)
    using w0 ij by (intro pairs_ok_set) (auto simp: get_pair_def)
  then have "pairs_ok w \<and> (\<exists>q q'. holds w i j q [] \<and> holds w j i q' []) \<and>
      (\<forall>k. map_option bio_method (w k) = map_option bio_method (w2 k))"
    using bi bj ij by (intro bio_make_pair_fresh[OF _ sys n _ bi(2,3) _ bj(2,3) ij run(3)]) simp_all
  then show ?thesis using bi bj ij by (auto simp: connected_def)
qed

lemma pair_run_connected:
  assumes "pair_run sys i j w sent got" "malloc_bounded sys" "i \<noteq> j"
  shows "\<exists>q q'. connected i j w q q' \<and> sent i = got j @ q \<and> sent j = got i @ q'"
  using assms(1)
proof induction
  case (starts w0 n1 n2 w)
  then show ?case using BIO_new_bio_pair_connected[OF starts(1) assms(2) starts(2-4) assms(3) starts(5,6)] by auto
next
  case (sends w sent got k n data r w')
  then obtain q q' where c: "connected i j w q q'" "sent i = got j @ q" "sent j = got i @ q'" by blast
  show ?case
  proof (cases "k = i")
    case True
    then have "connected i j w' (q @ take (nat r) data) q'"
      using BIO_write_pair[OF c(1) sends(3,4), of sys] sends(5) by auto
    then show ?thesis using c True assms(3) by auto
  next
    case False
    then have "k = j" using sends(2) by simp
    moreover from this have "connected j i w' (q' @ take (nat r) data) q"
      using BIO_write_pair[OF c(1)[unfolded connected_sym[of i]] sends(3,4), of sys] sends(5) by auto
    ultimately show ?thesis using c False by (auto simp: connected_sym[of j])
  qed
next
  case (reads w sent got k n r out w')
  then obtain q q' where c: "connected i j w q q'" "sent i = got j @ q" "sent j = got i @ q'" by blast
  show ?case
  proof (cases "k = j")
    case True
    then have "connected i j w' (drop (nat n) q) q'" "out = map Some (take (nat n) q)"
      using BIO_read_pair[OF c(1) reads(3)] reads(4) by auto
    then show ?thesis using c True assms(3) by (auto simp: comp_def)
  next
    case False
    then have "k = i" using reads(2) by simp
    moreover from this have "connected j i w' (drop (nat n) q') q" "out = map Some (take (nat n) q')"
      using BIO_read_pair[OF c(1)[unfolded connected_sym[of i]] reads(3)] reads(4) by auto
    ultimately show ?thesis using c False by (auto simp: connected_sym[of j] comp_def)
  qed
next
  case (ctrls w sent got k cmd larg r w')
  then obtain q q' where c: "connected i j w q q'" "sent i = got j @ q" "sent j = got i @ q'" by blast
  have "connected i j w' q q'"
  proof (cases "k = i")
    case True
    then show ?thesis using BIO_ctrl_pair[OF c(1), of cmd larg] ctrls(3) by auto
  next
    case False
    then show ?thesis using BIO_ctrl_pair[OF c(1)[unfolded connected_sym[of i]], of cmd larg] ctrls(2,3)
      by (auto simp: connected_sym[of j])
  qed
  then show ?case using c by blast
qed

section \<open>A concrete pair\<close>

definition sample_sys :: sys_malloc where "sample_sys n \<longleftrightarrow> n < 2 ^ 63"

definition sample_side :: "nat \<Rightarrow> BIO" where
  "sample_side j = bio_zeroed\<lparr>bio_method := Some methods_biop, bio_init := True, bio_shutdown := 1, bio_references := 1,
     bio_ptr := PtrPair \<lparr>peer = Some j, closed = False, bp_len = 0, bp_offset = 0, bp_size = 4,
       bp_buf = Some [None, None, None, None], bp_request = 0\<rparr>\<rparr>"

definition sample_pair :: bio_heap where "sample_pair = (\<lambda>_. None)(0 \<mapsto> sample_side 1, 1 \<mapsto> sample_side 0)"

lemma replicate_4: "replicate 4 x = [x, x, x, x]"
  by (simp add: numeral_eq_Suc)

lemma sample_new: "BIO_new_bio_pair sample_sys (\<lambda>_. None) 0 1 4 4 = Some (True, sample_pair)"
  by (auto simp: BIO_new_bio_pair_def BIO_new_def bio_new_def OPENSSL_malloc_def sample_sys_def
      size_add_def SIZE_MOD_def OPENSSL_MALLOC_PREFIX_def sizeof_BIO_def sizeof_bio_bio_st_def Let_def
      bio_make_pair_def alloc_side_def get_pair_def put_pair_def upd_bio_def bio_zeroed_def
      sample_pair_def sample_side_def fun_eq_iff replicate_4)

lemma sample_write: "\<exists>w. BIO_write sample_sys sample_pair (Some 0) [1,2] 2 = Some (2, w)"
  by (simp add: BIO_write_def sample_pair_def sample_side_def bio_write_def upd_bio_def get_pair_def
      put_pair_def BIO_clear_retry_flags_def size_of_int_def size_sub_def SIZE_MOD_def write_loop.simps
      write_chunk_def size_add_def Let_def int_of_size_def overwrite_def bio_zeroed_def signed_of_nat)
lemma sample_run: "pair_run sample_sys 0 1 sample_pair (\<lambda>_. []) (\<lambda>_. [])"
  by (rule pair_run.starts[OF sample_new]) (simp_all add: pairs_ok_def SIZE_MOD_def)

lemma sample_bounded: "malloc_bounded sample_sys"
  by (simp add: malloc_bounded_def sample_sys_def)

lemma sample_run_written:
  "\<exists>w. pair_run sample_sys 0 1 w ((\<lambda>_. [])(0 := [1, 2])) (\<lambda>_. [])"
proof -
  obtain w where w: "BIO_write sample_sys sample_pair (Some 0) [1, 2] 2 = Some (2, w)"
    using sample_write by blast
  from pair_run.sends[OF sample_run _ _ _ w] show ?thesis
    by (auto simp: INT_MAX_def)
qed

section \<open>Properties\<close>

text \<open>
  Property C19: the invariant of a BIO pair. However writes, reads and control commands
  on the two ends are interleaved since \<^verbatim>\<open>BIO_new_bio_pair\<close>, the two BIOs stay connected and
  well formed, and the bytes one end has accepted are exactly those the other has returned,
  in order, followed by those in the ring buffer: nothing is lost, repeated or reordered.
\<close>

theorem BIO_pair_invariant:
  assumes "pair_run sys i j w sent got" "malloc_bounded sys" "i \<noteq> j"
  shows "pairs_ok w \<and> (\<exists>p p' q q'. holds w i j p q \<and> holds w j i p' q' \<and>
    sent i = got j @ q \<and> sent j = got i @ q')"
  using pair_run_connected[OF assms] by (auto simp: connected_def)

theorem BIO_pair_invariant_witness:
  "\<exists>w. pairs_ok w \<and> (\<exists>p p' q q'. holds w 0 1 p q \<and> holds w 1 0 p' q' \<and>
    [1, 2] = [] @ q \<and> [] = [] @ q')"
proof -
  obtain w where "pair_run sample_sys 0 1 w ((\<lambda>_. [])(0 := [1, 2])) (\<lambda>_. [])"
    using sample_run_written by blast
  from BIO_pair_invariant[OF this sample_bounded] show ?thesis by auto
qed

text \<open>
  Property C20: a pair never stalls. In every reachable state every call on either end returns: no assertion of
  \<^verbatim>\<open>pair.c\<close> fails, no pointer is bad, the copying loops end. For a positive length, a write takes as many bytes as there is room for in the
  ring of its end, and -1 is returned only if that is full or was shut down for writing; a read returns the next of
  the bytes still to come from the other end, as many as asked for and there, and -1, or 0 after a shutdown, only if there are
  none. A control command always returns.
\<close>

theorem BIO_pair_progress:
  assumes "pair_run sys i j w sent got" "malloc_bounded sys" "i \<noteq> j" "k \<in> {i, j}" "n \<le> int INT_MAX"
  shows "let l = (if k = i then j else i);
      written = drop (length (got l)) (sent k);
      coming = drop (length (got k)) (sent l)
    in (\<exists>p p'. get_pair w k = Some p \<and> get_pair w l = Some p' \<and> length written \<le> bp_size p \<and>
         (nat n \<le> length data \<longrightarrow> (\<exists>w'. BIO_write sys w (Some k) data n = Some (write_return p (length written) n, w'))) \<and>
         (\<exists>w'. BIO_read w (Some k) n = Some (read_return p' (length coming) n, map Some (take (nat n) coming), w'))) \<and>
       BIO_ctrl w (Some k) cmd larg NoArg \<noteq> None"
proof -
  obtain q q' where c: "connected i j w q q'" "sent i = got j @ q" "sent j = got i @ q'"
    using pair_run_connected[OF assms(1-3)] by blast
  define l where "l = (if k = i then j else i)"
  obtain u v where kl: "connected k l w u v" "sent k = got l @ u" "sent l = got k @ v"
    using c assms(3,4) by (cases "k = i") (auto simp: l_def connected_sym[of j])
  have q: "drop (length (got l)) (sent k) = u" "drop (length (got k)) (sent l) = v" using kl by simp_all
  obtain r w' p' where r: "BIO_read w (Some k) n = Some (r, map Some (take (nat n) v), w')" "get_pair w l = Some p'"
      "r = read_return p' (length v) n"
    using BIO_read_pair[OF kl(1)[unfolded connected_sym[of k]] assms(5)] by blast
  obtain p where p: "get_pair w k = Some p" "length u \<le> bp_size p"
    using BIO_write_pair[OF kl(1), of 0 "[]" sys] by (auto simp: INT_MAX_def)
  have "\<exists>w'. BIO_write sys w (Some k) data n = Some (write_return p (length u) n, w')" if "nat n \<le> length data"
    using BIO_write_pair[OF kl(1) assms(5) that, of sys] p(1) by auto
  moreover have "BIO_ctrl w (Some k) cmd larg NoArg \<noteq> None"
    using BIO_ctrl_pair[OF kl(1), of cmd larg] by auto
  ultimately show ?thesis using r p unfolding l_def[symmetric] Let_def q by blast
qed

theorem BIO_pair_progress_witness:
  "\<exists>w p w' w''. get_pair w 0 = Some p \<and> BIO_write sample_sys w (Some 0) [7, 8, 9] 3 = Some (write_return p 2 3, w') \<and>
    BIO_read w (Some 1) 5 = Some (2, [Some 1, Some 2], w'')"
proof -
  obtain w where w: "pair_run sample_sys 0 1 w ((\<lambda>_. [])(0 := [1, 2])) (\<lambda>_. [])"
    using sample_run_written by blast
  from BIO_pair_progress[OF w sample_bounded, of 0 3 "[7, 8, 9]" 0 0]
    BIO_pair_progress[OF w sample_bounded, of 1 5 "[]" 0 0] show ?thesis
    by (auto simp: Let_def INT_MAX_def read_return_def numeral_2_eq_2)
qed

text \<open>
  Property C18: BIO pairs and memory BIOs are byte queues. For any sequence of
  \<^verbatim>\<open>BIO_write\<close> and \<^verbatim>\<open>BIO_read\<close> calls, on the two ends of a pair or on one writable memory BIO,
  every call returns and the bytes received are the first of those that were there or were
  sent since, in order; the rest is what is still there.
\<close>

theorem BIO_streams_fifo:
  assumes "list_all op_ok ops"
  shows "(connected i j w q u \<longrightarrow>
      (\<exists>sent got w' q' u'. stream_run (pair_send sys i) (bio_recv j) w ops = Some (sent, map Some got, w') \<and>
        connected i j w' q' u' \<and> q @ sent = got @ q')) \<and>
    (mem_at w i q \<and> writable i w \<longrightarrow>
      (\<exists>sent got w' q'. stream_run (pair_send sys i) (bio_recv i) w ops = Some (sent, map Some got, w') \<and>
        mem_at w' i q' \<and> q @ sent = got @ q'))"
  using pair_stream.run_fifo[of i j w q ops sys] mem_stream.run_fifo[of w i q ops sys] assms by blast

theorem BIO_streams_fifo_witness:
  "\<exists>sent got w' q' u'.
     stream_run (pair_send sample_sys 0) (bio_recv 1) sample_pair [Send [1, 2], Recv 1, Send [3], Recv 7] =
       Some (sent, map Some got, w') \<and> connected 0 1 w' q' u' \<and> [] @ sent = got @ q'"
proof -
  have "connected 0 1 sample_pair [] []"
    by (rule BIO_new_bio_pair_connected[OF sample_new sample_bounded]) (simp_all add: pairs_ok_def SIZE_MOD_def)
  then show ?thesis
    using BIO_streams_fifo[of "[Send [1, 2], Recv 1, Send [3], Recv 7]" 0 1 sample_pair "[]" "[]" sample_sys]
    by (auto simp: INT_MAX_def)
qed

end
