(* ===== verification/Modes.thy ===== *)
theory Modes
  imports Prelude
begin

unbundle bit_operations_syntax

text \<open>
  Block cipher modes that make a byte stream out of a block cipher: OFB, CFB and CTR, the
  files \<^verbatim>\<open>ofb.c\<close>, \<^verbatim>\<open>cfb.c\<close> and \<^verbatim>\<open>ctr.c\<close> under \<^verbatim>\<open>crypto/fipsmodule/modes\<close>. The block cipher is a
  parameter, as it is in the code (\<open>block\<close> with its key). Input and output are disjoint or the
  same buffer, so that the output is a function of the input bytes. Each mode has a fast path
  that works on whole blocks, word by word; it is refined to processing one byte at a time.
\<close>

section \<open>Words in memory\<close>

text \<open>The loads and stores of \<^verbatim>\<open>internal.h\<close>: a little-endian machine, and a byte swap where big-endian is wanted.\<close>

fun load_word_le :: "u8 list \<Rightarrow> u64" where
  "load_word_le [] = 0"
| "load_word_le (b # bs) = ucast b OR push_bit 8 (load_word_le bs)"

definition store_word_le :: "u64 \<Rightarrow> u8 list" where
  "store_word_le v = map (\<lambda>i. ucast (drop_bit (8 * i) v)) [0..<8]"

definition GETU32 :: "u8 list \<Rightarrow> u32" where
  "GETU32 bs = of_nat (be_val (take 4 bs))"

definition PUTU32 :: "u32 \<Rightarrow> u8 list" where
  "PUTU32 v = be_bytes 4 (unat v)"

type_synonym block_fn = "u8 list \<Rightarrow> u8 list"

definition is_block_fn :: "block_fn \<Rightarrow> bool" where
  "is_block_fn block \<longleftrightarrow> (\<forall>x. length x = 16 \<longrightarrow> length (block x) = 16)"

definition xor_bytes :: "u8 list \<Rightarrow> u8 list \<Rightarrow> u8 list" where
  "xor_bytes a b = map2 (XOR) a b"

section \<open>The loops\<close>

text \<open>
  The three loops of every mode, over the state \<open>c\<close> of the mode and the position \<open>n\<close> in its
  block. First \<^verbatim>\<open>while (n && len)\<close>, which uses up the current block: the output, the input left,
  the state and the position.
\<close>

fun head_loop :: "('c \<Rightarrow> nat \<Rightarrow> u8 \<Rightarrow> u8 \<times> 'c) \<Rightarrow> 'c \<Rightarrow> nat \<Rightarrow> u8 list \<Rightarrow> u8 list \<times> u8 list \<times> 'c \<times> nat" where
  "head_loop byte c n [] = ([], [], c, n)"
| "head_loop byte c n (x # xs) =
     (if n \<noteq> 0
      then let (y, c) = byte c n x;
               (ys, rest, c, n) = head_loop byte c ((n + 1) mod 16) xs
           in (y # ys, rest, c, n)
      else ([], x # xs, c, n))"

text \<open>\<^verbatim>\<open>while (len >= 16)\<close>: whole blocks.\<close>

function block_loop :: "('c \<Rightarrow> u8 list \<Rightarrow> u8 list \<times> 'c) \<Rightarrow> 'c \<Rightarrow> u8 list \<Rightarrow> u8 list \<times> u8 list \<times> 'c" where
  "block_loop blk c inp =
     (if length inp \<ge> 16
      then let (o1, c) = blk c (take 16 inp);
               (o2, rest, c) = block_loop blk c (drop 16 inp)
           in (o1 @ o2, rest, c)
      else ([], inp, c))"
  by pat_completeness auto

termination by (relation "measure (\<lambda>(blk, c, inp). length inp)") auto

declare block_loop.simps [simp del]

text \<open>\<^verbatim>\<open>while (len--)\<close>: the last, partial block, from position 0.\<close>

fun tail_loop :: "('c \<Rightarrow> nat \<Rightarrow> u8 \<Rightarrow> u8 \<times> 'c) \<Rightarrow> 'c \<Rightarrow> nat \<Rightarrow> u8 list \<Rightarrow> u8 list \<times> 'c \<times> nat" where
  "tail_loop byte c n [] = ([], c, n)"
| "tail_loop byte c n (x # xs) =
     (let (y, c) = byte c n x; (ys, c, n) = tail_loop byte c (n + 1) xs in (y # ys, c, n))"

text \<open>\<^verbatim>\<open>while (l < len)\<close>: the byte by byte loop of the strict alignment paths.\<close>

fun byte_loop :: "('c \<Rightarrow> 'c) \<Rightarrow> ('c \<Rightarrow> nat \<Rightarrow> u8 \<Rightarrow> u8 \<times> 'c) \<Rightarrow> 'c \<Rightarrow> nat \<Rightarrow> u8 list \<Rightarrow> u8 list \<times> 'c \<times> nat" where
  "byte_loop refill byte c n [] = ([], c, n)"
| "byte_loop refill byte c n (x # xs) =
     (let c = (if n = 0 then refill c else c);
          (y, c) = byte c n x;
          (ys, c, n) = byte_loop refill byte c ((n + 1) mod 16) xs
      in (y # ys, c, n))"

text \<open>The inner loop over the words of a block, \<^verbatim>\<open>for (; n < 16; n += sizeof(size_t))\<close>.\<close>

function word_loop :: "(u64 \<Rightarrow> u64 \<Rightarrow> u64) \<Rightarrow> nat \<Rightarrow> u8 list \<Rightarrow> u8 list \<Rightarrow> u8 list" where
  "word_loop f n a b =
     (if n < 16
      then store_word_le (f (load_word_le (take 8 (drop n a))) (load_word_le (take 8 (drop n b)))) @
           word_loop f (n + 8) a b
      else [])"
  by pat_completeness auto

termination by (relation "measure (\<lambda>(f, n, a, b). 16 - n)") auto

declare word_loop.simps [simp del]

section \<open>OFB\<close>

definition ofb_byte :: "u8 list \<Rightarrow> nat \<Rightarrow> u8 \<Rightarrow> u8 \<times> u8 list" where
  "ofb_byte ivec n x = (x XOR ivec ! n, ivec)"

definition ofb_block :: "block_fn \<Rightarrow> u8 list \<Rightarrow> u8 list \<Rightarrow> u8 list \<times> u8 list" where
  "ofb_block block ivec inp = (let ivec = block ivec in (word_loop (XOR) 0 inp ivec, ivec))"

text \<open>The results: the output, \<open>ivec\<close> and \<open>*num\<close>.\<close>

definition CRYPTO_ofb128_encrypt :: "block_fn \<Rightarrow> u8 list \<Rightarrow> u8 list \<Rightarrow> nat \<Rightarrow> u8 list \<times> u8 list \<times> nat" where
  "CRYPTO_ofb128_encrypt block inp ivec num =
     (let (o1, inp, ivec, n) = head_loop ofb_byte ivec num inp;
          (o2, inp, ivec) = block_loop (ofb_block block) ivec inp
      in if inp \<noteq> []
         then let ivec = block ivec; (o3, ivec, n) = tail_loop ofb_byte ivec n inp
              in (o1 @ o2 @ o3, ivec, n)
         else (o1 @ o2, ivec, n))"

section \<open>CFB\<close>

definition cfb_enc_byte :: "u8 list \<Rightarrow> nat \<Rightarrow> u8 \<Rightarrow> u8 \<times> u8 list" where
  "cfb_enc_byte ivec n x = (let y = ivec ! n XOR x in (y, ivec[n := y]))"

definition cfb_dec_byte :: "u8 list \<Rightarrow> nat \<Rightarrow> u8 \<Rightarrow> u8 \<times> u8 list" where
  "cfb_dec_byte ivec n x = (ivec ! n XOR x, ivec[n := x])"

definition cfb_enc_block :: "block_fn \<Rightarrow> u8 list \<Rightarrow> u8 list \<Rightarrow> u8 list \<times> u8 list" where
  "cfb_enc_block block ivec inp =
     (let ivec = block ivec; tmp = word_loop (XOR) 0 ivec inp in (tmp, tmp))"

definition cfb_dec_block :: "block_fn \<Rightarrow> u8 list \<Rightarrow> u8 list \<Rightarrow> u8 list \<times> u8 list" where
  "cfb_dec_block block ivec inp =
     (let ivec = block ivec
      in (word_loop (XOR) 0 ivec inp, word_loop (\<lambda>_ t. t) 0 ivec inp))"

text \<open>\<open>strict\<close>: the target needs aligned words and a pointer is not aligned.\<close>

definition CRYPTO_cfb128_encrypt ::
  "block_fn \<Rightarrow> bool \<Rightarrow> u8 list \<Rightarrow> u8 list \<Rightarrow> nat \<Rightarrow> bool \<Rightarrow> u8 list \<times> u8 list \<times> nat" where
  "CRYPTO_cfb128_encrypt block strict inp ivec num enc =
     (let byte = (if enc then cfb_enc_byte else cfb_dec_byte);
          blk = (if enc then cfb_enc_block block else cfb_dec_block block);
          (o1, inp, ivec, n) = head_loop byte ivec num inp
      in if strict
         then let (o2, ivec, n) = byte_loop block byte ivec n inp in (o1 @ o2, ivec, n)
         else let (o2, inp, ivec) = block_loop blk ivec inp
           in if inp \<noteq> []
              then let ivec = block ivec; (o3, ivec, n) = tail_loop byte ivec n inp
                   in (o1 @ o2 @ o3, ivec, n)
              else (o1 @ o2, ivec, n))"

section \<open>CTR\<close>

text \<open>The carry loop, from byte \<open>n - 1\<close> down to byte 0.\<close>

fun inc_loop :: "nat \<Rightarrow> u32 \<Rightarrow> u8 list \<Rightarrow> u8 list" where
  "inc_loop 0 c counter = counter"
| "inc_loop (Suc n) c counter =
     (let c = c + ucast (counter ! n)
      in inc_loop n (drop_bit 8 c) (counter[n := ucast c]))"

definition ctr128_inc :: "u8 list \<Rightarrow> u8 list" where
  "ctr128_inc counter = inc_loop 16 1 counter"

definition ctr96_inc :: "u8 list \<Rightarrow> u8 list" where
  "ctr96_inc counter = inc_loop 12 1 counter"

text \<open>The state is \<open>ivec\<close> and \<open>ecount_buf\<close>.\<close>

definition ctr_byte :: "u8 list \<times> u8 list \<Rightarrow> nat \<Rightarrow> u8 \<Rightarrow> u8 \<times> u8 list \<times> u8 list" where
  "ctr_byte = (\<lambda>(ivec, ecount) n x. (x XOR ecount ! n, ivec, ecount))"

definition ctr_refill :: "block_fn \<Rightarrow> u8 list \<times> u8 list \<Rightarrow> u8 list \<times> u8 list" where
  "ctr_refill block = (\<lambda>(ivec, ecount). (ctr128_inc ivec, block ivec))"

definition ctr_block :: "block_fn \<Rightarrow> u8 list \<times> u8 list \<Rightarrow> u8 list \<Rightarrow> u8 list \<times> u8 list \<times> u8 list" where
  "ctr_block block c inp =
     (let (ivec, ecount) = ctr_refill block c in (word_loop (XOR) 0 inp ecount, ivec, ecount))"

text \<open>The results: the output, \<open>ivec\<close>, \<open>ecount_buf\<close> and \<open>*num\<close>.\<close>

definition CRYPTO_ctr128_encrypt ::
  "block_fn \<Rightarrow> bool \<Rightarrow> u8 list \<Rightarrow> u8 list \<Rightarrow> u8 list \<Rightarrow> nat \<Rightarrow> u8 list \<times> (u8 list \<times> u8 list) \<times> nat" where
  "CRYPTO_ctr128_encrypt block strict inp ivec ecount_buf num =
     (let (o1, inp, c, n) = head_loop ctr_byte (ivec, ecount_buf) num inp
      in if strict
         then let (o2, c, n) = byte_loop (ctr_refill block) ctr_byte c n inp in (o1 @ o2, c, n)
         else let (o2, inp, c) = block_loop (ctr_block block) c inp
           in if inp \<noteq> []
              then let c = ctr_refill block c; (o3, c, n) = tail_loop ctr_byte c n inp
                   in (o1 @ o2 @ o3, c, n)
              else (o1 @ o2, c, n))"

subsection \<open>With a 32-bit counter function\<close>

text \<open>
  \<open>func inp blocks ivec\<close> is \<^verbatim>\<open>ctr128_f\<close>: it encrypts whole blocks and counts in the last four
  bytes of the counter only.
\<close>

type_synonym ctr_fn = "u8 list \<Rightarrow> nat \<Rightarrow> u8 list \<Rightarrow> u8 list"

text \<open>How many blocks the next call does, and the counter behind them.\<close>

definition ctr32_blocks :: "nat \<Rightarrow> u32 \<Rightarrow> nat \<times> u32" where
  "ctr32_blocks len ctr32 =
     (let blocks = len div 16;
          blocks = (if blocks > 2 ^ 28 then 2 ^ 28 else blocks);
          ctr32 = ctr32 + of_nat blocks
      in if unat ctr32 < blocks then (blocks - unat ctr32, 0) else (blocks, ctr32))"

definition set_ctr32 :: "u8 list \<Rightarrow> u32 \<Rightarrow> u8 list" where
  "set_ctr32 ivec ctr32 =
     (let ivec = overwrite ivec 12 (PUTU32 ctr32) in if ctr32 = 0 then ctr96_inc ivec else ivec)"

lemma ctr32_blocks_pos:
  assumes "(b, ctr') = ctr32_blocks len ctr32" "16 \<le> len"
  shows "0 < b \<and> 16 * b \<le> len"
proof -
  have "1 \<le> len div 16" using assms by (simp add: less_eq_div_iff_mult_less_eq)
  moreover have "16 * (len div 16) \<le> len" by simp
  ultimately show ?thesis using assms by (auto simp: ctr32_blocks_def Let_def split: if_splits)
qed

function ctr32_loop :: "ctr_fn \<Rightarrow> u8 list \<Rightarrow> u8 list \<Rightarrow> u32 \<Rightarrow> u8 list \<times> u8 list \<times> u8 list \<times> u32" where
  "ctr32_loop func inp ivec ctr32 =
     (if length inp \<ge> 16
      then let (blocks, ctr32) = ctr32_blocks (length inp) ctr32;
               o1 = func (take (16 * blocks) inp) blocks ivec;
               ivec = set_ctr32 ivec ctr32;
               (o2, rest, ivec, ctr32) = ctr32_loop func (drop (16 * blocks) inp) ivec ctr32
           in (o1 @ o2, rest, ivec, ctr32)
      else ([], inp, ivec, ctr32))"
  by pat_completeness auto

termination
  by (relation "measure (\<lambda>(func, inp, ivec, ctr32). length inp)")
    (auto dest!: ctr32_blocks_pos)

declare ctr32_loop.simps [simp del]

definition CRYPTO_ctr128_encrypt_ctr32 ::
  "ctr_fn \<Rightarrow> u8 list \<Rightarrow> u8 list \<Rightarrow> u8 list \<Rightarrow> nat \<Rightarrow> u8 list \<times> (u8 list \<times> u8 list) \<times> nat" where
  "CRYPTO_ctr128_encrypt_ctr32 func inp ivec ecount_buf num =
     (let (o1, inp, (ivec, ecount_buf), n) = head_loop ctr_byte (ivec, ecount_buf) num inp;
          ctr32 = GETU32 (drop 12 ivec);
          (o2, inp, ivec, ctr32) = ctr32_loop func inp ivec ctr32
      in if inp \<noteq> []
         then let ecount_buf = func (replicate 16 0) 1 ivec;
                  ivec = set_ctr32 ivec (ctr32 + 1);
                  (o3, c, n) = tail_loop ctr_byte (ivec, ecount_buf) n inp
              in (o1 @ o2 @ o3, c, n)
         else (o1 @ o2, (ivec, ecount_buf), n))"

section \<open>Words are bytes\<close>

lemma bit_load_word_le:
  "bit (load_word_le bs) n \<longleftrightarrow> n < 64 \<and> n div 8 < length bs \<and> bit (bs ! (n div 8)) (n mod 8)"
proof (induction bs arbitrary: n)
  case Nil
  then show ?case by simp
next
  case (Cons b bs)
  show ?case
  proof (cases "n < 8")
    case True
    then show ?thesis by (auto simp: bit_or_iff bit_ucast_iff bit_push_bit_iff)
  next
    case False
    then have "n div 8 = Suc ((n - 8) div 8)" "(n - 8) mod 8 = n mod 8"
      by (simp_all add: le_div_geq le_mod_geq)
    then show ?thesis using False Cons.IH[of "n - 8"] bit_u8_high[of n b]
      by (auto simp: bit_or_iff bit_ucast_iff bit_push_bit_iff)
  qed
qed

lemma length_store_word_le [simp]: "length (store_word_le v) = 8"
  by (simp add: store_word_le_def)

lemma store_word_le_eqI:
  assumes "length bs = 8" "\<And>i j. i < 8 \<Longrightarrow> j < 8 \<Longrightarrow> bit v (8 * i + j) = bit (bs ! i) j"
  shows "store_word_le v = bs"
proof (rule nth_equalityI)
  fix i assume "i < length (store_word_le v)"
  then have i: "i < 8" by simp
  have "bit (ucast (drop_bit (8 * i) v) :: u8) j = bit (bs ! i) j" for j
  proof (cases "j < 8")
    case True
    then show ?thesis using assms(2)[OF i True] by (simp add: bit_ucast_iff bit_drop_bit_eq)
  next
    case False
    then show ?thesis by (simp add: bit_u8_high not_less)
  qed
  then show "store_word_le v ! i = bs ! i" using i by (simp add: store_word_le_def bit_eq_iff)
qed (use assms in simp)

lemma word_index: "j < 8 \<Longrightarrow> (8 * i + j) div 8 = i" "j < 8 \<Longrightarrow> (8 * i + j) mod 8 = j" for i j :: nat
  by simp_all

lemma store_load: "length bs = 8 \<Longrightarrow> store_word_le (load_word_le bs) = bs"
  by (rule store_word_le_eqI) (auto simp: bit_load_word_le)

lemma store_xor:
  "length a = 8 \<Longrightarrow> length b = 8 \<Longrightarrow> store_word_le (load_word_le a XOR load_word_le b) = xor_bytes a b"
  by (rule store_word_le_eqI) (auto simp: xor_bytes_def bit_load_word_le bit_xor_iff)

lemma length_xor_bytes [simp]: "length (xor_bytes a b) = min (length a) (length b)"
  by (simp add: xor_bytes_def)

lemma nth_xor_bytes: "i < length a \<Longrightarrow> i < length b \<Longrightarrow> xor_bytes a b ! i = a ! i XOR b ! i"
  by (simp add: xor_bytes_def)

lemma xor_bytes_append: "length a = length b \<Longrightarrow> xor_bytes (a @ c) (b @ d) = xor_bytes a b @ xor_bytes c d"
  by (simp add: xor_bytes_def)

lemma halves: "length xs = 16 \<Longrightarrow> take 8 xs @ take 8 (drop 8 xs) = xs"
  by (metis append_take_drop_id length_drop take_all_iff diff_le_self numeral_Bit0 add_diff_cancel_left' nle_le)

lemma word_loop_xor:
  assumes "length a = 16" "length b = 16"
  shows "word_loop (XOR) 0 a b = xor_bytes a b"
proof -
  have "word_loop (XOR) 0 a b = xor_bytes (take 8 a) (take 8 b) @ xor_bytes (take 8 (drop 8 a)) (take 8 (drop 8 b))"
    using assms by (simp add: word_loop.simps[of _ 0] word_loop.simps[of _ 8] word_loop.simps[of _ 16] store_xor)
  also have "\<dots> = xor_bytes (take 8 a @ take 8 (drop 8 a)) (take 8 b @ take 8 (drop 8 b))"
    using assms by (simp only: xor_bytes_append length_take)
  finally show ?thesis using assms by (simp only: halves)
qed

lemma word_loop_copy:
  assumes "length a = 16" "length b = 16"
  shows "word_loop (\<lambda>_ t. t) 0 a b = b"
proof -
  have "word_loop (\<lambda>_ t. t) 0 a b = take 8 b @ take 8 (drop 8 b)"
    using assms by (simp add: word_loop.simps[of _ 0] word_loop.simps[of _ 8] word_loop.simps[of _ 16] store_load)
  then show ?thesis using assms by (simp only: halves)
qed

section \<open>The fast path is the byte by byte path\<close>

text \<open>
  What a mode promises about its operations: the block operation is the byte operation, 16
  times, on a refilled block. Then the three loops are one loop over bytes, and the input may
  be cut anywhere.
\<close>

locale buffered_mode =
  fixes refill :: "'c \<Rightarrow> 'c" and byte :: "'c \<Rightarrow> nat \<Rightarrow> u8 \<Rightarrow> u8 \<times> 'c"
    and blk :: "'c \<Rightarrow> u8 list \<Rightarrow> u8 list \<times> 'c" and ok :: "'c \<Rightarrow> bool"
  assumes refill_ok: "ok c \<Longrightarrow> ok (refill c)"
    and byte_ok: "ok c \<Longrightarrow> n < 16 \<Longrightarrow> ok (snd (byte c n x))"
    and blk_bytes: "ok c \<Longrightarrow> length xs = 16 \<Longrightarrow>
      blk c xs = (let (ys, c, n) = tail_loop byte (refill c) 0 xs in (ys, c))"
begin

lemma byte_step_ok:
  "ok c \<Longrightarrow> n < 16 \<Longrightarrow> byte c n x = (y, c') \<Longrightarrow> ok c'"
  using byte_ok[of c n x] by simp

lemma head_then_bytes:
  "n < 16 \<Longrightarrow> ok c \<Longrightarrow> head_loop byte c n inp = (o1, rest, c', n') \<Longrightarrow>
   byte_loop refill byte c n inp = (let (o2, c'', n'') = byte_loop refill byte c' n' rest in (o1 @ o2, c'', n'')) \<and>
   ok c' \<and> n' < 16 \<and> (rest = [] \<or> n' = 0)"
proof (induction inp arbitrary: c n o1)
  case Nil
  then show ?case by auto
next
  case (Cons x xs)
  show ?case
  proof (cases "n = 0")
    case True
    then show ?thesis using Cons.prems by (auto split: prod.splits)
  next
    case False
    obtain y c1 where y: "byte c n x = (y, c1)" by fastforce
    obtain o2 where h: "head_loop byte c1 ((n + 1) mod 16) xs = (o2, rest, c', n')" "o1 = y # o2"
      using Cons.prems(3) False y by (auto split: prod.splits)
    have "(n + 1) mod 16 < 16" "ok c1" using byte_step_ok[OF Cons.prems(2,1) y] by auto
    from Cons.IH[OF this h(1)] show ?thesis
      using False y h(2) by (auto simp: Let_def split: prod.splits)
  qed
qed

text \<open>Inside a block, the byte loop is the tail loop, up to the position wrapping.\<close>

lemma bytes_in_block:
  "ok c \<Longrightarrow> 0 < n \<Longrightarrow> n + length xs \<le> 16 \<Longrightarrow> tail_loop byte c n xs = (o1, c', n') \<Longrightarrow>
   byte_loop refill byte c (n mod 16) (xs @ ys) =
     (let (o2, c'', n'') = byte_loop refill byte c' (n' mod 16) ys in (o1 @ o2, c'', n'')) \<and>
   ok c' \<and> n' = n + length xs"
proof (induction xs arbitrary: c n o1)
  case Nil
  then show ?case by auto
next
  case (Cons x xs)
  obtain y c1 where y: "byte c n x = (y, c1)" by fastforce
  obtain o2 where t: "tail_loop byte c1 (n + 1) xs = (o2, c', n')" "o1 = y # o2"
    using Cons.prems(4) y by (auto split: prod.splits)
  have n: "n < 16" "n mod 16 = n" "n mod 16 \<noteq> 0" using Cons.prems by auto
  have "ok c1" using byte_step_ok[OF Cons.prems(1) n(1) y] .
  from Cons.IH[OF this _ _ t(1)] Cons.prems
  show ?case using n y t(2) by (auto simp: Let_def split: prod.splits)
qed

lemma bytes_from_block_start:
  assumes "ok c" "0 < length xs" "length xs \<le> 16" "tail_loop byte (refill c) 0 xs = (o1, c', n')"
  shows "byte_loop refill byte c 0 (xs @ ys) =
     (let (o2, c'', n'') = byte_loop refill byte c' (n' mod 16) ys in (o1 @ o2, c'', n'')) \<and> ok c' \<and> n' = length xs"
proof -
  obtain x xs' where xs: "xs = x # xs'" using assms(2) by (cases xs) auto
  obtain y c1 where y: "byte (refill c) 0 x = (y, c1)" by fastforce
  obtain o2 where t: "tail_loop byte c1 1 xs' = (o2, c', n')" "o1 = y # o2"
    using assms(4) y xs by (auto split: prod.splits)
  have "ok c1" using byte_step_ok[OF refill_ok[OF assms(1)] _ y] by simp
  from bytes_in_block[OF this _ _ t(1), of ys] assms(3) xs
  show ?thesis using y t(2) by (auto simp: Let_def split: prod.splits)
qed

lemma blocks_then_bytes:
  "ok c \<Longrightarrow> block_loop blk c inp = (o1, rest, c') \<Longrightarrow>
   byte_loop refill byte c 0 inp = (let (o2, c'', n'') = byte_loop refill byte c' 0 rest in (o1 @ o2, c'', n'')) \<and>
   ok c' \<and> length rest < 16"
proof (induction "length inp" arbitrary: c inp o1 rule: less_induct)
  case less
  show ?case
  proof (cases "length inp \<ge> 16")
    case False
    then show ?thesis using less.prems by (auto simp: block_loop.simps[of blk c inp] split: prod.splits)
  next
    case True
    obtain ys c1 n1 where t: "tail_loop byte (refill c) 0 (take 16 inp) = (ys, c1, n1)" by (cases "tail_loop byte (refill c) 0 (take 16 inp)")
    have b: "blk c (take 16 inp) = (ys, c1)" using blk_bytes[OF less.prems(1), of "take 16 inp"] True t by simp
    obtain o2 where l: "block_loop blk c1 (drop 16 inp) = (o2, rest, c')" "o1 = ys @ o2"
      using less.prems(2) True b by (auto simp: block_loop.simps[of blk c inp] split: prod.splits)
    have s: "byte_loop refill byte c 0 (take 16 inp @ drop 16 inp) =
        (let (o2, c'', n'') = byte_loop refill byte c1 (n1 mod 16) (drop 16 inp) in (ys @ o2, c'', n'')) \<and> ok c1 \<and> n1 = 16"
      using bytes_from_block_start[OF less.prems(1) _ _ t, of "drop 16 inp"] True by simp
    have "length (drop 16 inp) < length inp" using True by simp
    from less.hyps[OF this _ l(1)] s show ?thesis using l(2) by (auto simp: Let_def split: prod.splits)
  qed
qed

text \<open>All the bytes at once, or the rest of the block, whole blocks and a last part.\<close>

lemma fast_path:
  assumes "ok c" "n < 16" and h: "head_loop byte c n inp = (o1, inp1, c1, n1)"
    and b: "block_loop blk c1 inp1 = (o2, inp2, c2)"
    and t: "tail_loop byte (refill c2) n1 inp2 = (o3, c3, n3)"
  shows "byte_loop refill byte c n inp =
    (if inp2 \<noteq> [] then (o1 @ o2 @ o3, c3, n3) else (o1 @ o2, c2, n1)) \<and> (inp2 \<noteq> [] \<longrightarrow> ok c3) \<and> ok c2 \<and> n1 < 16 \<and> (inp2 \<noteq> [] \<longrightarrow> n3 < 16)"
proof -
  note H = head_then_bytes[OF assms(2,1) h]
  show ?thesis
  proof (cases "inp1 = []")
    case True
    then have "inp2 = []" "o2 = []" "c2 = c1" using b by (auto simp: block_loop.simps)
    then show ?thesis using H True by simp
  next
    case False
    then have n1: "n1 = 0" using H by simp
    have "ok c1" using H by simp
    note B = blocks_then_bytes[OF this b]
    show ?thesis
    proof (cases "inp2 = []")
      case True
      then show ?thesis using H B n1 by (auto simp: Let_def split: prod.splits)
    next
      case nonempty: False
      have "byte_loop refill byte c2 0 (inp2 @ []) =
          (let (o4, c'', n'') = byte_loop refill byte c3 (n3 mod 16) [] in (o3 @ o4, c'', n'')) \<and> ok c3 \<and> n3 = length inp2"
        using B nonempty t n1 by (intro bytes_from_block_start) auto
      then show ?thesis using H B n1 nonempty by (auto simp: Let_def split: prod.splits)
    qed
  qed
qed

lemma byte_loop_state:
  "ok c \<Longrightarrow> n < 16 \<Longrightarrow> byte_loop refill byte c n xs = (ys, c', n') \<Longrightarrow> ok c' \<and> n' < 16"
proof (induction xs arbitrary: c n ys)
  case Nil
  then show ?case by auto
next
  case (Cons x xs)
  define c0 where "c0 = (if n = 0 then refill c else c)"
  have ok0: "ok c0" using Cons.prems refill_ok by (auto simp: c0_def)
  obtain y c1 where y: "byte c0 n x = (y, c1)" by fastforce
  obtain zs where z: "byte_loop refill byte c1 ((n + 1) mod 16) xs = (zs, c', n')"
    using Cons.prems(3) y unfolding byte_loop.simps c0_def[symmetric] Let_def by (auto split: prod.splits)
  have "ok c1" using byte_step_ok[OF ok0 Cons.prems(2) y] .
  from Cons.IH[OF this _ z] show ?case by simp
qed

lemma byte_loop_append:
  "byte_loop refill byte c n (xs @ ys) =
     (let (o1, c, n) = byte_loop refill byte c n xs; (o2, c, n) = byte_loop refill byte c n ys in (o1 @ o2, c, n))"
  by (induction xs arbitrary: c n) (auto simp: Let_def split: prod.splits)

end

text \<open>Two modes that undo each other byte by byte, from the same state.\<close>

locale inverse_modes =
  enc: buffered_mode refill byte blk ok + dec: buffered_mode refill byte' blk' ok
  for refill :: "'c \<Rightarrow> 'c" and byte byte' :: "'c \<Rightarrow> nat \<Rightarrow> u8 \<Rightarrow> u8 \<times> 'c"
    and blk blk' :: "'c \<Rightarrow> u8 list \<Rightarrow> u8 list \<times> 'c" and ok :: "'c \<Rightarrow> bool" +
  assumes inverse: "ok c \<Longrightarrow> n < 16 \<Longrightarrow> byte c n x = (y, c') \<Longrightarrow> byte' c n y = (x, c')"
begin

lemma roundtrip:
  "ok c \<Longrightarrow> n < 16 \<Longrightarrow> byte_loop refill byte c n xs = (ys, c', n') \<Longrightarrow>
   byte_loop refill byte' c n ys = (xs, c', n')"
proof (induction xs arbitrary: c n ys)
  case Nil
  then show ?case by auto
next
  case (Cons x xs)
  define c0 where "c0 = (if n = 0 then refill c else c)"
  have ok0: "ok c0" using Cons.prems enc.refill_ok by (auto simp: c0_def)
  obtain y c1 where y: "byte c0 n x = (y, c1)" by fastforce
  obtain zs where z: "byte_loop refill byte c1 ((n + 1) mod 16) xs = (zs, c', n')" "ys = y # zs"
    using Cons.prems(3) y unfolding byte_loop.simps c0_def[symmetric] Let_def by (auto split: prod.splits)
  have "ok c1" using enc.byte_step_ok[OF ok0 Cons.prems(2) y] .
  from Cons.IH[OF this _ z(1)] inverse[OF ok0 Cons.prems(2) y]
  show ?case unfolding z(2) byte_loop.simps c0_def[symmetric] Let_def by simp
qed

end

section \<open>The three modes keep the promise\<close>

lemma tail_ofb:
  "n + length xs \<le> length iv \<Longrightarrow> tail_loop ofb_byte iv n xs = (xor_bytes xs (drop n iv), iv, n + length xs)"
proof (induction xs arbitrary: n)
  case Nil
  then show ?case by (simp add: xor_bytes_def)
next
  case (Cons x xs)
  then have "drop n iv = iv ! n # drop (Suc n) iv" by (intro Cons_nth_drop_Suc[symmetric]) simp
  then show ?case using Cons by (simp add: ofb_byte_def xor_bytes_def)
qed

lemma tail_ctr:
  "tail_loop ctr_byte (iv, ec) n xs = (let (ys, ec, n) = tail_loop ofb_byte ec n xs in (ys, (iv, ec), n))"
  by (induction xs arbitrary: n) (auto simp: ctr_byte_def ofb_byte_def Let_def split: prod.splits)

lemma tail_cfb:
  assumes "byte = (if enc then cfb_enc_byte else cfb_dec_byte)"
  shows "n + length xs \<le> length iv \<Longrightarrow> tail_loop byte iv n xs =
    (xor_bytes (take (length xs) (drop n iv)) xs,
     take n iv @ (if enc then xor_bytes (take (length xs) (drop n iv)) xs else xs) @ drop (n + length xs) iv, n + length xs)"
proof (induction xs arbitrary: iv n)
  case Nil
  then show ?case by (simp add: xor_bytes_def)
next
  case (Cons x xs)
  let ?y = "iv ! n XOR x"
  let ?z = "if enc then ?y else x"
  let ?iv = "iv[n := ?z]"
  have step: "byte iv n x = (?y, ?iv)"
    by (simp add: assms cfb_enc_byte_def cfb_dec_byte_def Let_def)
  have d: "drop n iv = iv ! n # drop (Suc n) iv" using Cons.prems by (intro Cons_nth_drop_Suc[symmetric]) simp
  have e: "take (Suc n) ?iv = take n iv @ [?z]" "drop (Suc n) ?iv = drop (Suc n) iv"
      "drop (Suc n + length xs) ?iv = drop (Suc n + length xs) iv"
    using Cons.prems by (simp_all add: take_Suc_conv_app_nth)
  have "tail_loop byte ?iv (n + 1) xs =
    (xor_bytes (take (length xs) (drop (Suc n) iv)) xs,
     take n iv @ ?z # (if enc then xor_bytes (take (length xs) (drop (Suc n) iv)) xs else xs) @ drop (Suc n + length xs) iv,
     Suc n + length xs)"
    using Cons.IH[of "Suc n" ?iv] Cons.prems e by simp
  then show ?case unfolding tail_loop.simps step by (simp add: d xor_bytes_def)
qed

definition stream_ok :: "block_fn \<Rightarrow> u8 list \<Rightarrow> bool" where
  "stream_ok block iv \<longleftrightarrow> is_block_fn block \<and> length iv = 16"

lemma stream_ok_block: "stream_ok block iv \<Longrightarrow> stream_ok block (block iv) \<and> length (block iv) = 16"
  by (simp add: stream_ok_def is_block_fn_def)

interpretation ofb: buffered_mode block ofb_byte "ofb_block block" "stream_ok block" for block
proof
  fix c and xs :: "u8 list"
  assume "stream_ok block c" "length xs = 16"
  then show "ofb_block block c xs = (let (ys, c, n) = tail_loop ofb_byte (block c) 0 xs in (ys, c))"
    using stream_ok_block[of block c] by (simp add: ofb_block_def tail_ofb word_loop_xor Let_def)
qed (simp_all add: stream_ok_block ofb_byte_def)

interpretation ofb_ofb: inverse_modes block ofb_byte ofb_byte "ofb_block block" "ofb_block block" "stream_ok block" for block
  by unfold_locales (auto simp: ofb_byte_def xor.assoc)

interpretation cfb_enc: buffered_mode block cfb_enc_byte "cfb_enc_block block" "stream_ok block" for block
proof
  fix c and xs :: "u8 list"
  assume "stream_ok block c" "length xs = 16"
  then show "cfb_enc_block block c xs = (let (ys, c, n) = tail_loop cfb_enc_byte (block c) 0 xs in (ys, c))"
    using stream_ok_block[of block c] tail_cfb[of cfb_enc_byte True 0 xs "block c"]
    by (simp add: cfb_enc_block_def word_loop_xor Let_def)
qed (simp_all add: stream_ok_block cfb_enc_byte_def stream_ok_def Let_def)

interpretation cfb_dec: buffered_mode block cfb_dec_byte "cfb_dec_block block" "stream_ok block" for block
proof
  fix c and xs :: "u8 list"
  assume "stream_ok block c" "length xs = 16"
  then show "cfb_dec_block block c xs = (let (ys, c, n) = tail_loop cfb_dec_byte (block c) 0 xs in (ys, c))"
    using stream_ok_block[of block c] tail_cfb[of cfb_dec_byte False 0 xs "block c"]
    by (simp add: cfb_dec_block_def word_loop_xor word_loop_copy Let_def)
qed (simp_all add: stream_ok_block cfb_dec_byte_def stream_ok_def)

interpretation cfb: inverse_modes block cfb_enc_byte cfb_dec_byte "cfb_enc_block block" "cfb_dec_block block" "stream_ok block" for block
  by unfold_locales (auto simp: cfb_enc_byte_def cfb_dec_byte_def Let_def xor.assoc[symmetric])

definition ctr_ok :: "block_fn \<Rightarrow> u8 list \<times> u8 list \<Rightarrow> bool" where
  "ctr_ok block c \<longleftrightarrow> is_block_fn block \<and> length (fst c) = 16 \<and> length (snd c) = 16"

lemma length_inc_loop [simp]: "length (inc_loop n c ctr) = length ctr"
  by (induction n c ctr rule: inc_loop.induct) (simp_all add: Let_def)

lemma ctr_refill_ok: "ctr_ok block c \<Longrightarrow> ctr_ok block (ctr_refill block c)"
  by (cases c) (simp add: ctr_ok_def ctr_refill_def is_block_fn_def ctr128_inc_def)

interpretation ctr: buffered_mode "ctr_refill block" ctr_byte "ctr_block block" "ctr_ok block" for block
proof
  fix c and xs :: "u8 list"
  assume c: "ctr_ok block c" "length xs = 16"
  obtain iv ec where r: "ctr_refill block c = (iv, ec)" by fastforce
  then have "length ec = 16" using ctr_refill_ok[OF c(1)] by (simp add: ctr_ok_def)
  then show "ctr_block block c xs = (let (ys, c, n) = tail_loop ctr_byte (ctr_refill block c) 0 xs in (ys, c))"
    using c(2) by (simp add: ctr_block_def r tail_ctr tail_ofb word_loop_xor Let_def)
qed (auto simp: ctr_refill_ok ctr_byte_def)

interpretation ctr_ctr: inverse_modes "ctr_refill block" ctr_byte ctr_byte "ctr_block block" "ctr_block block" "ctr_ok block" for block
  by unfold_locales (auto simp: ctr_byte_def xor.assoc)

text \<open>Each entry point as one loop over bytes.\<close>

lemma CRYPTO_ofb128_encrypt_bytes:
  assumes "stream_ok block iv" "n < 16"
  shows "CRYPTO_ofb128_encrypt block inp iv n = byte_loop block ofb_byte iv n inp"
proof -
  obtain o1 inp1 c1 n1 where h: "head_loop ofb_byte iv n inp = (o1, inp1, c1, n1)" by (cases "head_loop ofb_byte iv n inp")
  obtain o2 inp2 c2 where b: "block_loop (ofb_block block) c1 inp1 = (o2, inp2, c2)" by (cases "block_loop (ofb_block block) c1 inp1")
  obtain o3 c3 n3 where t: "tail_loop ofb_byte (block c2) n1 inp2 = (o3, c3, n3)" by (cases "tail_loop ofb_byte (block c2) n1 inp2")
  show ?thesis using ofb.fast_path[OF assms h b t] by (simp add: CRYPTO_ofb128_encrypt_def h b t)
qed

lemma CRYPTO_cfb128_encrypt_bytes:
  assumes "stream_ok block iv" "n < 16"
  shows "CRYPTO_cfb128_encrypt block strict inp iv n enc =
    byte_loop block (if enc then cfb_enc_byte else cfb_dec_byte) iv n inp"
proof -
  let ?byte = "if enc then cfb_enc_byte else cfb_dec_byte"
  let ?blk = "if enc then cfb_enc_block block else cfb_dec_block block"
  obtain o1 inp1 c1 n1 where h: "head_loop ?byte iv n inp = (o1, inp1, c1, n1)" by (cases "head_loop ?byte iv n inp")
  obtain o2 inp2 c2 where b: "block_loop ?blk c1 inp1 = (o2, inp2, c2)" by (cases "block_loop ?blk c1 inp1")
  obtain o3 c3 n3 where t: "tail_loop ?byte (block c2) n1 inp2 = (o3, c3, n3)" by (cases "tail_loop ?byte (block c2) n1 inp2")
  have slow: "byte_loop block ?byte iv n inp = (let (o2, c'', n'') = byte_loop block ?byte c1 n1 inp1 in (o1 @ o2, c'', n''))"
    using cfb_enc.head_then_bytes[OF assms(2,1), of inp o1 inp1 c1 n1] cfb_dec.head_then_bytes[OF assms(2,1), of inp o1 inp1 c1 n1] h
    by (cases enc) simp_all
  have fast: "byte_loop block ?byte iv n inp = (if inp2 \<noteq> [] then (o1 @ o2 @ o3, c3, n3) else (o1 @ o2, c2, n1))"
    using cfb_enc.fast_path[OF assms, of inp o1 inp1 c1 n1 o2 inp2 c2 o3 c3 n3]
      cfb_dec.fast_path[OF assms, of inp o1 inp1 c1 n1 o2 inp2 c2 o3 c3 n3] h b t by (cases enc) simp_all
  show ?thesis
    unfolding CRYPTO_cfb128_encrypt_def Let_def h b t prod.case using slow fast
    by (cases strict) (simp_all only: Let_def if_True if_False)
qed

lemma CRYPTO_ctr128_encrypt_bytes:
  assumes "ctr_ok block (iv, ec)" "n < 16"
  shows "CRYPTO_ctr128_encrypt block strict inp iv ec n = byte_loop (ctr_refill block) ctr_byte (iv, ec) n inp"
proof -
  obtain o1 inp1 c1 n1 where h: "head_loop ctr_byte (iv, ec) n inp = (o1, inp1, c1, n1)" by (cases "head_loop ctr_byte (iv, ec) n inp")
  obtain o2 inp2 c2 where b: "block_loop (ctr_block block) c1 inp1 = (o2, inp2, c2)" by (cases "block_loop (ctr_block block) c1 inp1")
  obtain o3 c3 n3 where t: "tail_loop ctr_byte (ctr_refill block c2) n1 inp2 = (o3, c3, n3)" by (cases "tail_loop ctr_byte (ctr_refill block c2) n1 inp2")
  show ?thesis
    using ctr.fast_path[OF assms h b t] ctr.head_then_bytes[OF assms(2,1) h]
    by (simp add: CRYPTO_ctr128_encrypt_def h b t)
qed

section \<open>Counters\<close>

lemma be_bytes_cong: "v mod 256 ^ k = v' mod 256 ^ k \<Longrightarrow> be_bytes k v = be_bytes k v'"
  by (metis be_bytes_be_val be_val_be_bytes length_be_bytes)

lemma be_val_append: "be_val (a @ b) = be_val a * 256 ^ length b + be_val b"
proof (induction a)
  case Nil
  then show ?case by simp
next
  case (Cons x a)
  then show ?case by (simp add: be_val_Cons power_add algebra_simps)
qed

lemma inc_loop_eq:
  "n \<le> length ctr \<Longrightarrow> unat c \<le> 1 \<Longrightarrow>
   inc_loop n c ctr = be_bytes n (be_val (take n ctr) + unat c) @ drop n ctr"
proof (induction n arbitrary: c ctr)
  case 0
  then show ?case by simp
next
  case (Suc n)
  define b where "b = ctr ! n"
  define c' where "c' = c + ucast b"
  have u: "unat c' = unat c + unat b"
    using Suc.prems(2) unat_u8_lt[of b] by (simp add: c'_def unat_word_ariths unat_ucast_u8_u32)
  have d: "unat (drop_bit 8 c') = (unat c + unat b) div 256"
    unfolding unat_drop_bit_eq u by (simp add: drop_bit_eq_div)
  have d1: "unat (drop_bit 8 c') \<le> 1" unfolding d using Suc.prems(2) unat_u8_lt[of b]
    by (simp add: div_le_mono[of _ 511 256, simplified] less_Suc_eq_le)
  have t: "take (Suc n) ctr = take n ctr @ [b]" using Suc.prems(1) by (simp add: take_Suc_conv_app_nth b_def)
  let ?V = "be_val (take n ctr)"
  have low: "(ucast c' :: u8) = of_nat (?V * 256 + unat b + unat c)"
  proof (rule word_unat_eq_iff[THEN iffD2])
    have "unat (ucast c' :: u8) = unat c' mod 256" by (simp add: unsigned_ucast_eq take_bit_eq_mod)
    also have "\<dots> = (?V * 256 + (unat b + unat c)) mod 256" by (simp only: u mod_mult_self3) (simp add: add.commute)
    finally show "unat (ucast c' :: u8) = unat (of_nat (?V * 256 + unat b + unat c) :: u8)"
      by (simp add: unat_of_nat add.assoc del: of_nat_add of_nat_mult)
  qed
  have high: "(?V * 256 + unat b + unat c) div 256 = ?V + (unat c + unat b) div 256"
    by (simp add: add.assoc add.commute)
  have "inc_loop (Suc n) c ctr = inc_loop n (drop_bit 8 c') (ctr[n := ucast c'])"
    by (simp add: c'_def b_def Let_def)
  also have "\<dots> = be_bytes n (?V + (unat c + unat b) div 256) @ drop n (ctr[n := ucast c'])"
    using Suc.IH[of "ctr[n := ucast c']" "drop_bit 8 c'"] Suc.prems(1) d1 d by simp
  also have "drop n (ctr[n := ucast c']) = ucast c' # drop (Suc n) ctr"
    using Suc.prems(1) Cons_nth_drop_Suc[of n "ctr[n := ucast c']"] by simp
  finally show ?case by (simp add: t low high del: of_nat_add of_nat_mult)
qed

text \<open>The counter \<open>k\<close> blocks on, as a big-endian number modulo \<open>2 ^ 128\<close>.\<close>

definition iv_add :: "u8 list \<Rightarrow> nat \<Rightarrow> u8 list" where
  "iv_add iv k = be_bytes 16 (be_val iv + k)"

lemma length_iv_add [simp]: "length (iv_add iv k) = 16"
  by (simp add: iv_add_def)

lemma iv_add_add: "iv_add (iv_add iv j) k = iv_add iv (j + k)"
  unfolding iv_add_def by (rule be_bytes_cong) (simp add: mod_add_left_eq add.assoc)

lemma iv_add_0: "length iv = 16 \<Longrightarrow> iv_add iv 0 = iv"
  by (simp add: iv_add_def be_bytes_be_val)

lemma ctr128_inc_eq: "length iv = 16 \<Longrightarrow> ctr128_inc iv = iv_add iv 1"
  by (simp add: ctr128_inc_def inc_loop_eq iv_add_def)

lemma iv_add_split:
  assumes "length iv = 16"
  shows "iv_add iv k = be_bytes 12 (be_val (take 12 iv) + (be_val (drop 12 iv) + k) div 2 ^ 32) @
    be_bytes 4 (be_val (drop 12 iv) + k)"
proof -
  let ?h = "be_val (take 12 iv)" and ?l = "be_val (drop 12 iv)"
  have v: "be_val iv = ?h * 2 ^ 32 + ?l"
    using be_val_append[of "take 12 iv" "drop 12 iv"] assms by simp
  have "be_bytes (12 + 4) (be_val iv + k) = be_bytes 12 ((be_val iv + k) div 256 ^ 4) @ be_bytes 4 (be_val iv + k)"
    by (rule be_bytes_split)
  moreover have "(be_val iv + k) div 256 ^ 4 = ?h + (?l + k) div 2 ^ 32"
    by (simp add: v add.assoc)
  moreover have "be_bytes 4 (be_val iv + k) = be_bytes 4 (?l + k)"
    by (rule be_bytes_cong) (simp add: v add.assoc)
  ultimately show ?thesis by (simp add: iv_add_def)
qed

lemma GETU32_low:
  assumes "length iv = 16"
  shows "unat (GETU32 (drop 12 iv)) = be_val (drop 12 iv)" "be_val (drop 12 iv) < 2 ^ 32"
proof -
  show "be_val (drop 12 iv) < 2 ^ 32" using be_val_lt[of "drop 12 iv"] assms by simp
  then show "unat (GETU32 (drop 12 iv)) = be_val (drop 12 iv)"
    using assms by (simp add: GETU32_def unat_of_nat)
qed

lemma PUTU32_eq: "PUTU32 v = be_bytes 4 n" if "v = of_nat n"
  unfolding PUTU32_def that by (rule be_bytes_cong) (simp add: unat_of_nat)

lemma GETU32_iv_add:
  assumes "length iv = 16"
  shows "GETU32 (drop 12 (iv_add iv k)) = GETU32 (drop 12 iv) + of_nat k"
proof -
  have "GETU32 (drop 12 (iv_add iv k)) = of_nat ((be_val (drop 12 iv) + k) mod 2 ^ 32)"
    unfolding iv_add_split[OF assms] by (simp add: GETU32_def)
  also have "\<dots> = of_nat (be_val (drop 12 iv) + k)"
    by (rule word_unat_eq_iff[THEN iffD2]) (simp add: unat_of_nat del: of_nat_add)
  finally show ?thesis using assms by (simp add: GETU32_def)
qed

lemma ctr32_block_iv:
  assumes "length iv = 16" "be_val (drop 12 iv) + i < 2 ^ 32"
  shows "take 12 iv @ PUTU32 (GETU32 (drop 12 iv) + of_nat i) = iv_add iv i"
proof -
  have "GETU32 (drop 12 iv) + of_nat i = of_nat (be_val (drop 12 iv) + i)"
    using assms(1) by (simp add: GETU32_def)
  then have "PUTU32 (GETU32 (drop 12 iv) + of_nat i) = be_bytes 4 (be_val (drop 12 iv) + i)"
    by (rule PUTU32_eq)
  moreover have "be_bytes 12 (be_val (take 12 iv)) = take 12 iv" using assms(1) by (intro be_bytes_be_val) simp
  ultimately show ?thesis using assms by (simp add: iv_add_split)
qed

lemma set_ctr32_eq:
  assumes iv: "length iv = 16" and k: "0 < k" "be_val (drop 12 iv) + k \<le> 2 ^ 32"
  shows "set_ctr32 iv (GETU32 (drop 12 iv) + of_nat k) = iv_add iv k"
proof -
  let ?l = "be_val (drop 12 iv)" and ?h = "be_val (take 12 iv)"
  have w: "GETU32 (drop 12 iv) + of_nat k = (of_nat (?l + k) :: u32)" using iv by (simp add: GETU32_def)
  have ov: "overwrite iv 12 (PUTU32 (of_nat (?l + k))) = take 12 iv @ be_bytes 4 (?l + k)"
    using iv by (simp add: overwrite_def PUTU32_eq[OF refl] del: of_nat_add)
  show ?thesis
  proof (cases "?l + k = 2 ^ 32")
    case True
    then have z: "(of_nat (?l + k) :: u32) = 0" by (simp only:) simp
    have "set_ctr32 iv (of_nat (?l + k)) = ctr96_inc (take 12 iv @ be_bytes 4 (?l + k))"
      unfolding set_ctr32_def Let_def ov using z by simp
    also have "\<dots> = be_bytes 12 (?h + 1) @ be_bytes 4 (?l + k)"
      using iv by (simp add: ctr96_inc_def inc_loop_eq)
    finally show ?thesis unfolding w iv_add_split[OF iv] using True by simp
  next
    case False
    then have lt: "?l + k < 2 ^ 32" using k(2) by simp
    then have "unat (of_nat (?l + k) :: u32) = ?l + k" by (simp add: unat_of_nat del: of_nat_add)
    then have nz: "(of_nat (?l + k) :: u32) \<noteq> 0" using k(1) by (metis add_is_0 less_not_refl2 unat_0)
    have "be_bytes 12 ?h = take 12 iv" using iv by (intro be_bytes_be_val) simp
    then show ?thesis unfolding w set_ctr32_def Let_def ov iv_add_split[OF iv] using nz lt by simp
  qed
qed

lemma ctr32_blocks_eq:
  assumes "ctr32_blocks len ctr32 = (b, ctr')" "16 \<le> len"
  shows "0 < b" "16 * b \<le> len" "unat ctr32 + b \<le> 2 ^ 32" "ctr' = ctr32 + of_nat b"
proof -
  define b0 where "b0 = (if len div 16 > 2 ^ 28 then 2 ^ 28 else len div 16)"
  have b0: "b0 \<le> 2 ^ 28" by (simp add: b0_def)
  have r: "(b, ctr') = (if unat (ctr32 + of_nat b0) < b0 then (b0 - unat (ctr32 + of_nat b0), 0)
      else (b0, ctr32 + of_nat b0))"
    using assms(1) unfolding ctr32_blocks_def Let_def b0_def[symmetric] by simp
  show "0 < b" "16 * b \<le> len" using ctr32_blocks_pos[OF assms(1)[symmetric] assms(2)] by auto
  have lt: "unat ctr32 < 2 ^ 32" using unsigned_less[of ctr32, where 'a=nat] by simp
  have ub: "unat (of_nat b0 :: u32) = b0" using b0 by (simp add: unat_of_nat)
  have s: "unat (ctr32 + of_nat b0) = (if unat ctr32 + b0 < 2 ^ 32 then unat ctr32 + b0 else unat ctr32 + b0 - 2 ^ 32)"
    using lt b0 by (simp add: unat_word_ariths ub mod_if)
  show "unat ctr32 + b \<le> 2 ^ 32" using r s lt by (auto split: if_splits)
  show "ctr' = ctr32 + of_nat b"
  proof (cases "unat (ctr32 + of_nat b0) < b0")
    case True
    then have w: "\<not> unat ctr32 + b0 < 2 ^ 32" using s by (auto split: if_splits)
    then have "unat ctr32 + b = 2 ^ 32" using r s True lt b0 by auto
    then have "(of_nat (unat ctr32 + b) :: u32) = of_nat (2 ^ 32)" by simp
    then have "ctr32 + of_nat b = 0" by simp
    then show ?thesis using r True by simp
  next
    case False
    then show ?thesis using r by simp
  qed
qed

section \<open>The 32-bit counter version\<close>

definition keystream :: "block_fn \<Rightarrow> u8 list \<Rightarrow> nat \<Rightarrow> u8 list" where
  "keystream block iv b = concat (map (\<lambda>i. block (iv_add iv i)) [0..<b])"

text \<open>What \<^verbatim>\<open>internal.h\<close> asks of a \<^verbatim>\<open>ctr128_f\<close>: CTR mode with a 32-bit counter.\<close>

definition is_ctr32_fn :: "block_fn \<Rightarrow> ctr_fn \<Rightarrow> bool" where
  "is_ctr32_fn block func \<longleftrightarrow> (\<forall>inp b iv. length iv = 16 \<longrightarrow> length inp = 16 * b \<longrightarrow>
     func inp b iv = xor_bytes inp
       (concat (map (\<lambda>i. block (take 12 iv @ PUTU32 (GETU32 (drop 12 iv) + of_nat i))) [0..<b])))"

lemma is_ctr32_fnD:
  assumes "is_ctr32_fn block func" "length iv = 16" "length inp = 16 * b" "be_val (drop 12 iv) + b \<le> 2 ^ 32"
  shows "func inp b iv = xor_bytes inp (keystream block iv b)"
proof -
  have e: "map (\<lambda>i. block (take 12 iv @ PUTU32 (GETU32 (drop 12 iv) + of_nat i))) [0..<b] = map (\<lambda>i. block (iv_add iv i)) [0..<b]"
    using assms by (intro map_cong refl arg_cong[of _ _ block] ctr32_block_iv) auto
  show ?thesis using assms(1-3) unfolding is_ctr32_fn_def keystream_def e[symmetric] by blast
qed

lemma keystream_Suc:
  "length iv = 16 \<Longrightarrow> keystream block iv (Suc b) = block iv @ keystream block (iv_add iv 1) b"
proof -
  assume "length iv = 16"
  moreover have "map (\<lambda>i. block (iv_add iv i)) [0..<Suc b] = block (iv_add iv 0) # map (\<lambda>i. block (iv_add (iv_add iv 1) i)) [0..<b]"
    by (simp add: upt_conv_Cons map_Suc_upt[symmetric] iv_add_add comp_def del: upt_Suc)
  ultimately show ?thesis by (simp add: keystream_def iv_add_0 del: upt_Suc)
qed

text \<open>Whole blocks of CTR mode, in closed form.\<close>

lemma ctr_block_loop:
  "is_block_fn block \<Longrightarrow> length iv = 16 \<Longrightarrow> length xs = 16 * b \<Longrightarrow>
   \<exists>ec'. block_loop (ctr_block block) (iv, ec) (xs @ ys) =
     (let (o2, rest, c) = block_loop (ctr_block block) (iv_add iv b, ec') ys
      in (xor_bytes xs (keystream block iv b) @ o2, rest, c)) \<and> (b = 0 \<longrightarrow> ec' = ec)"
proof (induction b arbitrary: iv ec xs)
  case 0
  then show ?case by (auto simp: iv_add_0 xor_bytes_def split: prod.splits)
next
  case (Suc b)
  define x1 where "x1 = take 16 xs"
  define x2 where "x2 = drop 16 xs"
  have xs: "xs = x1 @ x2" "length x1 = 16" "length x2 = 16 * b" using Suc.prems(3) by (simp_all add: x1_def x2_def)
  have bl: "length (block iv) = 16" using Suc.prems by (simp add: is_block_fn_def)
  have step: "ctr_block block (iv, ec) x1 = (xor_bytes x1 (block iv), iv_add iv 1, block iv)"
    using bl xs(2) Suc.prems(2) by (simp add: ctr_block_def ctr_refill_def ctr128_inc_eq word_loop_xor)
  obtain ec' where ih: "block_loop (ctr_block block) (iv_add iv 1, block iv) (x2 @ ys) =
     (let (o2, rest, c) = block_loop (ctr_block block) (iv_add (iv_add iv 1) b, ec') ys
      in (xor_bytes x2 (keystream block (iv_add iv 1) b) @ o2, rest, c))"
    using Suc.IH[OF Suc.prems(1) length_iv_add xs(3)] by blast
  have "block_loop (ctr_block block) (iv, ec) (xs @ ys) =
      (let (o2, rest, c) = block_loop (ctr_block block) (iv_add iv 1, block iv) (x2 @ ys)
       in (xor_bytes x1 (block iv) @ o2, rest, c))"
    using xs step by (subst block_loop.simps) simp
  then show ?case
    unfolding ih xs(1) keystream_Suc[OF Suc.prems(2)] using xs bl
    by (intro exI[of _ ec']) (simp add: xor_bytes_append iv_add_add split: prod.splits)
qed

lemma ctr32_loop_blocks:
  assumes "is_block_fn block" "is_ctr32_fn block func"
  shows "length iv = 16 \<Longrightarrow> ctr32_loop func inp iv (GETU32 (drop 12 iv)) = (o1, rest, iv', ctr') \<Longrightarrow>
    length iv' = 16 \<and> ctr' = GETU32 (drop 12 iv') \<and> length rest < 16 \<and>
    (\<exists>ec'. block_loop (ctr_block block) (iv, ec) inp = (o1, rest, iv', ec') \<and> (length inp < 16 \<longrightarrow> ec' = ec))"
proof (induction "length inp" arbitrary: inp iv o1 ec rule: less_induct)
  case less
  show ?case
  proof (cases "16 \<le> length inp")
    case False
    then have "ctr32_loop func inp iv (GETU32 (drop 12 iv)) = ([], inp, iv, GETU32 (drop 12 iv))"
        "block_loop (ctr_block block) (iv, ec) inp = ([], inp, iv, ec)"
      by (simp_all add: ctr32_loop.simps[of func inp] block_loop.simps[of _ _ inp])
    then show ?thesis using less.prems False by auto
  next
    case True
    obtain b c1 where b: "ctr32_blocks (length inp) (GETU32 (drop 12 iv)) = (b, c1)" by fastforce
    note B = ctr32_blocks_eq[OF b True]
    note low = GETU32_low[OF less.prems(1)]
    let ?x = "take (16 * b) inp" and ?y = "drop (16 * b) inp"
    have iv1: "set_ctr32 iv c1 = iv_add iv b"
      unfolding B(4) using B(1,3) low by (intro set_ctr32_eq[OF less.prems(1)]) simp_all
    have c1: "c1 = GETU32 (drop 12 (iv_add iv b))" using B(4) GETU32_iv_add[OF less.prems(1)] by simp
    have f: "func ?x b iv = xor_bytes ?x (keystream block iv b)"
      using is_ctr32_fnD[OF assms(2) less.prems(1), of ?x b] B low by simp
    obtain o2 where l: "ctr32_loop func ?y (iv_add iv b) (GETU32 (drop 12 (iv_add iv b))) = (o2, rest, iv', ctr')"
        "o1 = xor_bytes ?x (keystream block iv b) @ o2"
      using less.prems(2) True b iv1 f c1 by (auto simp: ctr32_loop.simps[of func inp] Let_def split: prod.splits)
    have "length ?y < length inp" using True B by simp
    note IH = less.hyps[OF this length_iv_add l(1)]
    obtain ec' where e: "block_loop (ctr_block block) (iv, ec) (?x @ ?y) =
       (let (o2, rest, c) = block_loop (ctr_block block) (iv_add iv b, ec') ?y
        in (xor_bytes ?x (keystream block iv b) @ o2, rest, c))"
      using ctr_block_loop[OF assms(1) less.prems(1), of ?x b ec ?y] B by auto
    obtain ec2 where "block_loop (ctr_block block) (iv_add iv b, ec') ?y = (o2, rest, iv', ec2)"
      using IH by blast
    then have "block_loop (ctr_block block) (iv, ec) inp = (o1, rest, iv', ec2)"
      using e l(2) by simp
    then show ?thesis using IH True by auto
  qed
qed

lemma xor_zeros: "length bs = 16 \<Longrightarrow> xor_bytes (replicate 16 0) bs = bs"
  by (rule nth_equalityI) (simp_all add: nth_xor_bytes)

lemma head_loop_ctr:
  "head_loop ctr_byte (iv, ec) n inp = (o1, rest, c, n') \<Longrightarrow> c = (iv, ec)"
  by (induction inp arbitrary: n o1) (auto simp: ctr_byte_def Let_def split: if_splits prod.splits)

lemma tail_loop_ctr_state:
  "tail_loop ctr_byte (iv, ec) n xs = (ys, c, n') \<Longrightarrow> c = (iv, ec)"
  by (induction xs arbitrary: n ys) (auto simp: ctr_byte_def Let_def split: prod.splits)

lemma ctr32_refines:
  assumes block: "is_block_fn block" and func: "is_ctr32_fn block func"
    and len: "length iv = 16" "length ec = 16" "n < 16"
    and run: "CRYPTO_ctr128_encrypt_ctr32 func inp iv ec n = (out, (iv', ec'), n')"
  shows "\<exists>ec2. CRYPTO_ctr128_encrypt block False inp iv ec n = (out, (iv', ec2), n') \<and> (n' \<noteq> 0 \<longrightarrow> ec2 = ec')"
proof -
  obtain o1 inp1 n1 where h: "head_loop ctr_byte (iv, ec) n inp = (o1, inp1, (iv, ec), n1)"
    using head_loop_ctr[of iv ec n inp] by (cases "head_loop ctr_byte (iv, ec) n inp") auto
  obtain o2 inp2 iv2 c2 where l: "ctr32_loop func inp1 iv (GETU32 (drop 12 iv)) = (o2, inp2, iv2, c2)"
    by (cases "ctr32_loop func inp1 iv (GETU32 (drop 12 iv))")
  note L = ctr32_loop_blocks[OF block func len(1) l]
  obtain ec2 where b: "block_loop (ctr_block block) (iv, ec) inp1 = (o2, inp2, iv2, ec2)"
      "length inp1 < 16 \<longrightarrow> ec2 = ec"
    using L by blast
  have ok: "ctr_ok block (iv, ec)" using block len by (simp add: ctr_ok_def)
  have n1: "inp1 = [] \<or> n1 = 0" using ctr.head_then_bytes[OF len(3) ok h] by simp
  show ?thesis
  proof (cases "inp2 = []")
    case True
    then have e: "out = o1 @ o2" "iv' = iv2" "ec' = ec" "n' = n1"
      using run by (simp_all add: CRYPTO_ctr128_encrypt_ctr32_def h l Let_def)
    have "n1 \<noteq> 0 \<longrightarrow> ec2 = ec" using n1 b(2) by auto
    then show ?thesis using True e by (simp add: CRYPTO_ctr128_encrypt_def h b Let_def)
  next
    case False
    have iv2: "length iv2 = 16" "c2 = GETU32 (drop 12 iv2)" using L by auto
    have bl: "length (block iv2) = 16" using block iv2 by (simp add: is_block_fn_def)
    note low = GETU32_low[OF iv2(1)]
    have f: "func (replicate 16 0) 1 iv2 = block iv2"
      using is_ctr32_fnD[OF func iv2(1), of "replicate 16 0" 1] low
      by (simp add: keystream_def iv_add_0 iv2(1) xor_zeros bl)
    have s: "set_ctr32 iv2 (c2 + 1) = ctr128_inc iv2"
      using set_ctr32_eq[OF iv2(1), of 1] low iv2 by (simp add: ctr128_inc_eq)
    obtain o3 c3 n3 where t: "tail_loop ctr_byte (ctr128_inc iv2, block iv2) n1 inp2 = (o3, c3, n3)"
      by (cases "tail_loop ctr_byte (ctr128_inc iv2, block iv2) n1 inp2")
    have "out = o1 @ o2 @ o3" "c3 = (iv', ec')" "n' = n3"
      using run False by (simp_all add: CRYPTO_ctr128_encrypt_ctr32_def h l Let_def f[unfolded One_nat_def] s t)
    then show ?thesis using False by (simp add: CRYPTO_ctr128_encrypt_def h b Let_def ctr_refill_def t)
  qed
qed

section \<open>Properties\<close>

text \<open>
  Property C25: the fast paths are correct. For every position in the current block and every
  input, OFB, CFB in both directions and CTR compute what their byte by byte loop computes,
  with or without the strict alignment path: the output, the final \<open>ivec\<close> and \<open>*num\<close>.
\<close>

theorem stream_modes_fast_path:
  assumes "is_block_fn block" "length iv = 16" "length ec = 16" "n < 16"
  shows "CRYPTO_ofb128_encrypt block inp iv n = byte_loop block ofb_byte iv n inp \<and>
    CRYPTO_cfb128_encrypt block strict inp iv n enc =
      byte_loop block (if enc then cfb_enc_byte else cfb_dec_byte) iv n inp \<and>
    CRYPTO_ctr128_encrypt block strict inp iv ec n = byte_loop (ctr_refill block) ctr_byte (iv, ec) n inp"
  using assms CRYPTO_ofb128_encrypt_bytes CRYPTO_cfb128_encrypt_bytes CRYPTO_ctr128_encrypt_bytes
  by (simp add: stream_ok_def ctr_ok_def)

lemma is_block_fn_rotate1: "is_block_fn rotate1"
  by (simp add: is_block_fn_def)

theorem stream_modes_fast_path_witness:
  "CRYPTO_ctr128_encrypt rotate1 False [1, 2] (replicate 16 7) (replicate 16 0) 15 =
    byte_loop (ctr_refill rotate1) ctr_byte (replicate 16 7, replicate 16 0) 15 [1, 2]"
  using stream_modes_fast_path[OF is_block_fn_rotate1, of "replicate 16 7" "replicate 16 0" 15] by simp

text \<open>
  The modes are streams. Encrypting \<open>xs @ ys\<close> in one call gives the same
  bytes and the same final state as encrypting \<open>xs\<close> and then \<open>ys\<close> with the state the first
  call left, at any cut and any starting position.
\<close>

theorem stream_modes_append:
  assumes "is_block_fn block" "length iv = 16" "length ec = 16" "n < 16"
  shows "CRYPTO_ofb128_encrypt block (xs @ ys) iv n =
      (let (o1, iv, n) = CRYPTO_ofb128_encrypt block xs iv n; (o2, iv, n) = CRYPTO_ofb128_encrypt block ys iv n
       in (o1 @ o2, iv, n)) \<and>
    CRYPTO_cfb128_encrypt block strict (xs @ ys) iv n enc =
      (let (o1, iv, n) = CRYPTO_cfb128_encrypt block strict xs iv n enc;
           (o2, iv, n) = CRYPTO_cfb128_encrypt block strict ys iv n enc in (o1 @ o2, iv, n)) \<and>
    CRYPTO_ctr128_encrypt block strict (xs @ ys) iv ec n =
      (let (o1, (iv, ec), n) = CRYPTO_ctr128_encrypt block strict xs iv ec n;
           (o2, (iv, ec), n) = CRYPTO_ctr128_encrypt block strict ys iv ec n in (o1 @ o2, (iv, ec), n))"
proof (intro conjI)
  have ok: "stream_ok block iv" and okc: "ctr_ok block (iv, ec)" using assms by (simp_all add: stream_ok_def ctr_ok_def)
  show "CRYPTO_ofb128_encrypt block (xs @ ys) iv n =
      (let (o1, iv, n) = CRYPTO_ofb128_encrypt block xs iv n; (o2, iv, n) = CRYPTO_ofb128_encrypt block ys iv n
       in (o1 @ o2, iv, n))"
    using ofb.byte_loop_state[OF ok assms(4), of xs] ok assms(4)
    by (auto simp: CRYPTO_ofb128_encrypt_bytes ofb.byte_loop_append Let_def split: prod.splits)
  show "CRYPTO_cfb128_encrypt block strict (xs @ ys) iv n enc =
      (let (o1, iv, n) = CRYPTO_cfb128_encrypt block strict xs iv n enc;
           (o2, iv, n) = CRYPTO_cfb128_encrypt block strict ys iv n enc in (o1 @ o2, iv, n))"
    using cfb_enc.byte_loop_state[OF ok assms(4), of xs] cfb_dec.byte_loop_state[OF ok assms(4), of xs] ok assms(4)
    by (cases enc) (auto simp: CRYPTO_cfb128_encrypt_bytes cfb_enc.byte_loop_append cfb_dec.byte_loop_append Let_def split: prod.splits)
  show "CRYPTO_ctr128_encrypt block strict (xs @ ys) iv ec n =
      (let (o1, (iv, ec), n) = CRYPTO_ctr128_encrypt block strict xs iv ec n;
           (o2, (iv, ec), n) = CRYPTO_ctr128_encrypt block strict ys iv ec n in (o1 @ o2, (iv, ec), n))"
    using ctr.byte_loop_state[OF okc assms(4), of xs] okc assms(4)
    by (auto simp: CRYPTO_ctr128_encrypt_bytes ctr.byte_loop_append Let_def split: prod.splits)
qed

theorem stream_modes_append_witness:
  "CRYPTO_ofb128_encrypt rotate1 ([1] @ [2, 3]) (replicate 16 7) 0 =
    (let (o1, iv, n) = CRYPTO_ofb128_encrypt rotate1 [1] (replicate 16 7) 0;
         (o2, iv, n) = CRYPTO_ofb128_encrypt rotate1 [2, 3] iv n in (o1 @ o2, iv, n))"
  using stream_modes_append[OF is_block_fn_rotate1, of "replicate 16 7" "replicate 16 0" 0 "[1]" "[2, 3]"] by simp

text \<open>
  Property C26: decryption undoes encryption in OFB, CFB and CTR: from the same starting state
  it gives back the input and ends in the same state.
\<close>

theorem stream_modes_roundtrip:
  assumes "is_block_fn block" "length iv = 16" "length ec = 16" "n < 16"
  shows "(\<forall>ys iv' n'. CRYPTO_ofb128_encrypt block xs iv n = (ys, iv', n') \<longrightarrow>
      CRYPTO_ofb128_encrypt block ys iv n = (xs, iv', n')) \<and>
    (\<forall>ys iv' n'. CRYPTO_cfb128_encrypt block strict xs iv n True = (ys, iv', n') \<longrightarrow>
      CRYPTO_cfb128_encrypt block strict' ys iv n False = (xs, iv', n')) \<and>
    (\<forall>ys c' n'. CRYPTO_ctr128_encrypt block strict xs iv ec n = (ys, c', n') \<longrightarrow>
      CRYPTO_ctr128_encrypt block strict' ys iv ec n = (xs, c', n'))"
proof -
  have ok: "stream_ok block iv" and okc: "ctr_ok block (iv, ec)" using assms by (simp_all add: stream_ok_def ctr_ok_def)
  show ?thesis
    unfolding CRYPTO_ofb128_encrypt_bytes[OF ok assms(4)] CRYPTO_cfb128_encrypt_bytes[OF ok assms(4)]
      CRYPTO_ctr128_encrypt_bytes[OF okc assms(4)] if_True if_False simp_thms
    using ofb_ofb.roundtrip[OF ok assms(4), of xs] cfb.roundtrip[OF ok assms(4), of xs]
      ctr_ctr.roundtrip[OF okc assms(4), of xs]
    by blast
qed

theorem stream_modes_roundtrip_witness:
  "\<exists>ys c. CRYPTO_cfb128_encrypt rotate1 False [1, 2, 3] (replicate 16 7) 15 True = (ys, c) \<and>
     CRYPTO_cfb128_encrypt rotate1 False ys (replicate 16 7) 15 False = ([1, 2, 3], c)"
proof -
  define e where "e = CRYPTO_cfb128_encrypt rotate1 False [1, 2, 3] (replicate 16 7) 15 True"
  have l: "length (replicate 16 (7 :: 8 word)) = 16" "length (replicate 16 (0 :: 8 word)) = 16" "(15 :: nat) < 16"
    by simp_all
  note r = conjunct1[OF conjunct2[OF stream_modes_roundtrip[OF is_block_fn_rotate1 l, of "[1, 2, 3]" False False]]]
  have "e = (fst e, fst (snd e), snd (snd e))" by simp
  then have "CRYPTO_cfb128_encrypt rotate1 False (fst e) (replicate 16 7) 15 False = ([1, 2, 3], fst (snd e), snd (snd e))"
    using r unfolding e_def by blast
  then have "e = (fst e, snd e) \<and> CRYPTO_cfb128_encrypt rotate1 False (fst e) (replicate 16 7) 15 False = ([1, 2, 3], snd e)"
    by simp
  then show ?thesis unfolding e_def by blast
qed

text \<open>
  Property C17: the 32-bit counter version refines CTR mode with a 128-bit counter. With
  a function that counts in the last four bytes only, the splitting of the input at the points
  where these overflow (and at \<open>2 ^ 28\<close> blocks), and the carry into the upper 96 bits, give
  the same output, counter and position as \<^verbatim>\<open>CRYPTO_ctr128_encrypt\<close>; and the same
  \<open>ecount_buf\<close> wherever a later call reads it.
\<close>

theorem ctr32_refines_ctr128:
  assumes "is_block_fn block" "is_ctr32_fn block func" "length iv = 16" "length ec = 16" "n < 16"
    and "CRYPTO_ctr128_encrypt_ctr32 func inp iv ec n = (out, (iv', ec'), n')"
  shows "\<exists>ec2. CRYPTO_ctr128_encrypt block False inp iv ec n = (out, (iv', ec2), n') \<and> (n' \<noteq> 0 \<longrightarrow> ec2 = ec')"
  using assms by (rule ctr32_refines)

text \<open>A 32-bit counter function of the rotation, and a counter about to overflow.\<close>

definition sample_ctr32 :: ctr_fn where
  "sample_ctr32 inp b iv = xor_bytes inp
     (concat (map (\<lambda>i. rotate1 (take 12 iv @ PUTU32 (GETU32 (drop 12 iv) + of_nat i))) [0..<b]))"

theorem ctr32_refines_ctr128_witness:
  "\<exists>out iv' ec' ec2 n'. CRYPTO_ctr128_encrypt_ctr32 sample_ctr32 (replicate 40 1) (replicate 16 0xff) (replicate 16 0) 0 = (out, (iv', ec'), n') \<and>
     CRYPTO_ctr128_encrypt rotate1 False (replicate 40 1) (replicate 16 0xff) (replicate 16 0) 0 = (out, (iv', ec2), n')"
proof -
  have f: "is_ctr32_fn rotate1 sample_ctr32" by (simp add: is_ctr32_fn_def sample_ctr32_def)
  obtain out iv' ec' n' where r:
    "CRYPTO_ctr128_encrypt_ctr32 sample_ctr32 (replicate 40 1) (replicate 16 0xff) (replicate 16 0) 0 = (out, (iv', ec'), n')"
    by (cases "CRYPTO_ctr128_encrypt_ctr32 sample_ctr32 (replicate 40 1) (replicate 16 0xff) (replicate 16 0) 0") auto
  show ?thesis using ctr32_refines_ctr128[OF is_block_fn_rotate1 f _ _ _ r] r by auto
qed

end
