(* ===== verification/Cbc.thy ===== *)
theory Cbc
  imports Modes "HOL-Library.Monad_Syntax"
begin

text \<open>
  \<^verbatim>\<open>crypto/fipsmodule/modes/cbc.c\<close>: cipher block chaining over any block function. Input and
  output may overlap, and what the code does then depends on how far apart they are, so both
  are addresses in one memory; \<open>ivec\<close> is an array of its own. An access outside the memory and
  a failed \<^verbatim>\<open>assert\<close> have no result; the pointers are not NULL. \<open>strict\<close> says that the target needs
  aligned words and a pointer is not aligned, which selects the byte loops.
\<close>

section \<open>The two functions\<close>

definition ld :: "u8 list \<Rightarrow> nat \<Rightarrow> nat \<Rightarrow> u8 list option" where
  "ld m p n = (if p + n \<le> length m then Some (take n (drop p m)) else None)"

definition st :: "u8 list \<Rightarrow> nat \<Rightarrow> u8 list \<Rightarrow> u8 list option" where
  "st m p bs = (if p + length bs \<le> length m then Some (overwrite m p bs) else None)"

text \<open>The pointer \<open>iv\<close>: to the array \<open>ivec\<close>, or to a block of the input or output.\<close>

datatype iv_ptr = Ivec | At nat

fun iv_ld :: "u8 list \<Rightarrow> u8 list \<Rightarrow> iv_ptr \<Rightarrow> nat \<Rightarrow> nat \<Rightarrow> u8 list option" where
  "iv_ld ivec m Ivec n k = ld ivec n k"
| "iv_ld ivec m (At a) n k = ld m (a + n) k"

text \<open>A step of a loop over a block: a byte, or a word of \<^verbatim>\<open>sizeof(size_t)\<close> bytes.\<close>

definition step_size :: "bool \<Rightarrow> nat" where
  "step_size strict = (if strict then 1 else 8)"

definition step_xor :: "bool \<Rightarrow> u8 list \<Rightarrow> u8 list \<Rightarrow> u8 list" where
  "step_xor strict x y =
     (if strict then [hd x XOR hd y] else store_word_le (load_word_le x XOR load_word_le y))"

text \<open>\<^verbatim>\<open>out[n] = in[n] ^ iv[n]\<close> for \<open>k\<close> steps from \<open>n\<close> on.\<close>

fun xor_loop :: "bool \<Rightarrow> u8 list \<Rightarrow> nat \<Rightarrow> nat \<Rightarrow> u8 list \<Rightarrow> iv_ptr \<Rightarrow> nat \<Rightarrow> nat \<Rightarrow> u8 list option" where
  "xor_loop strict m inp outp ivec iv n 0 = Some m"
| "xor_loop strict m inp outp ivec iv n (Suc k) = do {
     x \<leftarrow> ld m (inp + n) (step_size strict);
     y \<leftarrow> iv_ld ivec m iv n (step_size strict);
     m \<leftarrow> st m (outp + n) (step_xor strict x y);
     xor_loop strict m inp outp ivec iv (n + step_size strict) k }"

fun copy_loop :: "u8 list \<Rightarrow> nat \<Rightarrow> u8 list \<Rightarrow> iv_ptr \<Rightarrow> nat \<Rightarrow> nat \<Rightarrow> u8 list option" where
  "copy_loop m outp ivec iv n 0 = Some m"
| "copy_loop m outp ivec iv n (Suc k) = do {
     y \<leftarrow> iv_ld ivec m iv n 1;
     m \<leftarrow> st m (outp + n) y;
     copy_loop m outp ivec iv (n + 1) k }"

definition call_block :: "block_fn \<Rightarrow> u8 list \<Rightarrow> nat \<Rightarrow> nat \<Rightarrow> u8 list option" where
  "call_block block m inp outp = do { b \<leftarrow> ld m inp 16; st m outp (block b) }"

text \<open>The loops \<^verbatim>\<open>while (len >= 16)\<close>: the memory, the pointers and the length left.\<close>

function enc_blocks ::
  "block_fn \<Rightarrow> bool \<Rightarrow> u8 list \<Rightarrow> nat \<Rightarrow> nat \<Rightarrow> nat \<Rightarrow> u8 list \<Rightarrow> iv_ptr \<Rightarrow> (u8 list \<times> nat \<times> nat \<times> nat \<times> iv_ptr) option" where
  "enc_blocks block strict m inp outp len ivec iv =
     (if len \<ge> 16 then do {
        m \<leftarrow> xor_loop strict m inp outp ivec iv 0 (16 div step_size strict);
        m \<leftarrow> call_block block m outp outp;
        enc_blocks block strict m (inp + 16) (outp + 16) (len - 16) ivec (At outp) }
      else Some (m, inp, outp, len, iv))"
  by pat_completeness auto

termination by (relation "measure (\<lambda>(block, strict, m, inp, outp, len, ivec, iv). len)") auto

declare enc_blocks.simps [simp del]

function enc_rest ::
  "block_fn \<Rightarrow> u8 list \<Rightarrow> nat \<Rightarrow> nat \<Rightarrow> nat \<Rightarrow> u8 list \<Rightarrow> iv_ptr \<Rightarrow> (u8 list \<times> iv_ptr) option" where
  "enc_rest block m inp outp len ivec iv =
     (if len = 0 then Some (m, iv)
      else do {
        m \<leftarrow> xor_loop True m inp outp ivec iv 0 (min 16 len);
        m \<leftarrow> copy_loop m outp ivec iv (min 16 len) (16 - min 16 len);
        m \<leftarrow> call_block block m outp outp;
        if len \<le> 16 then Some (m, At outp)
        else enc_rest block m (inp + 16) (outp + 16) (len - 16) ivec (At outp) })"
  by pat_completeness auto

termination by (relation "measure (\<lambda>(block, m, inp, outp, len, ivec, iv). len)") auto

declare enc_rest.simps [simp del]

text \<open>The results: the memory and \<open>ivec\<close>.\<close>

definition CRYPTO_cbc128_encrypt ::
  "block_fn \<Rightarrow> bool \<Rightarrow> u8 list \<Rightarrow> nat \<Rightarrow> nat \<Rightarrow> nat \<Rightarrow> u8 list \<Rightarrow> (u8 list \<times> u8 list) option" where
  "CRYPTO_cbc128_encrypt block strict m inp outp len ivec = do {
     (m, inp, outp, len, iv) \<leftarrow> enc_blocks block strict m inp outp len ivec Ivec;
     (m, iv) \<leftarrow> enc_rest block m inp outp len ivec iv;
     ivec \<leftarrow> iv_ld ivec m iv 0 16;
     Some (m, ivec) }"

function dec_blocks ::
  "block_fn \<Rightarrow> bool \<Rightarrow> u8 list \<Rightarrow> nat \<Rightarrow> nat \<Rightarrow> nat \<Rightarrow> u8 list \<Rightarrow> iv_ptr \<Rightarrow> (u8 list \<times> nat \<times> nat \<times> nat \<times> iv_ptr) option" where
  "dec_blocks block strict m inp outp len ivec iv =
     (if len \<ge> 16 then do {
        m \<leftarrow> call_block block m inp outp;
        m \<leftarrow> xor_loop strict m outp outp ivec iv 0 (16 div step_size strict);
        dec_blocks block strict m (inp + 16) (outp + 16) (len - 16) ivec (At inp) }
      else Some (m, inp, outp, len, iv))"
  by pat_completeness auto

termination by (relation "measure (\<lambda>(block, strict, m, inp, outp, len, ivec, iv). len)") auto

declare dec_blocks.simps [simp del]

text \<open>\<^verbatim>\<open>c = in[n]; out[n] = tmp[n] ^ ivec[n]; ivec[n] = c\<close> for \<open>k\<close> steps from \<open>n\<close> on.\<close>

fun tmp_loop :: "bool \<Rightarrow> u8 list \<Rightarrow> nat \<Rightarrow> nat \<Rightarrow> u8 list \<Rightarrow> u8 list \<Rightarrow> nat \<Rightarrow> nat \<Rightarrow> (u8 list \<times> u8 list) option" where
  "tmp_loop strict m inp outp tmp ivec n 0 = Some (m, ivec)"
| "tmp_loop strict m inp outp tmp ivec n (Suc k) = do {
     c \<leftarrow> ld m (inp + n) (step_size strict);
     t \<leftarrow> ld tmp n (step_size strict);
     y \<leftarrow> ld ivec n (step_size strict);
     m \<leftarrow> st m (outp + n) (step_xor strict t y);
     ivec \<leftarrow> st ivec n c;
     tmp_loop strict m inp outp tmp ivec (n + step_size strict) k }"

function dec_blocks_tmp ::
  "block_fn \<Rightarrow> bool \<Rightarrow> u8 list \<Rightarrow> nat \<Rightarrow> nat \<Rightarrow> nat \<Rightarrow> u8 list \<Rightarrow> (u8 list \<times> nat \<times> nat \<times> nat \<times> u8 list) option" where
  "dec_blocks_tmp block strict m inp outp len ivec =
     (if len \<ge> 16 then do {
        b \<leftarrow> ld m inp 16;
        (m, ivec) \<leftarrow> tmp_loop strict m inp outp (block b) ivec 0 (16 div step_size strict);
        dec_blocks_tmp block strict m (inp + 16) (outp + 16) (len - 16) ivec }
      else Some (m, inp, outp, len, ivec))"
  by pat_completeness auto

termination by (relation "measure (\<lambda>(block, strict, m, inp, outp, len, ivec). len)") auto

declare dec_blocks_tmp.simps [simp del]

function dec_rest :: "block_fn \<Rightarrow> u8 list \<Rightarrow> nat \<Rightarrow> nat \<Rightarrow> nat \<Rightarrow> u8 list \<Rightarrow> (u8 list \<times> u8 list) option" where
  "dec_rest block m inp outp len ivec =
     (if len = 0 then Some (m, ivec)
      else do {
        b \<leftarrow> ld m inp 16;
        (m, ivec) \<leftarrow> tmp_loop True m inp outp (block b) ivec 0 (min 16 len);
        if len \<le> 16 then do {
          r \<leftarrow> ld m (inp + min 16 len) (16 - min 16 len);
          ivec \<leftarrow> st ivec (min 16 len) r;
          Some (m, ivec) }
        else dec_rest block m (inp + 16) (outp + 16) (len - 16) ivec })"
  by pat_completeness auto

termination by (relation "measure (\<lambda>(block, m, inp, outp, len, ivec). len)") auto

declare dec_rest.simps [simp del]

definition CRYPTO_cbc128_decrypt ::
  "block_fn \<Rightarrow> bool \<Rightarrow> u8 list \<Rightarrow> nat \<Rightarrow> nat \<Rightarrow> nat \<Rightarrow> u8 list \<Rightarrow> (u8 list \<times> u8 list) option" where
  "CRYPTO_cbc128_decrypt block strict m inp outp len ivec = do {
     C_assert (inp \<ge> outp \<or> inp + len \<le> outp);
     (m, inp, outp, len, ivec) \<leftarrow>
       (if (inp \<ge> 32 \<and> outp \<le> inp - 32) \<or> inp < outp
        then do {
          (m, inp, outp, len, iv) \<leftarrow> dec_blocks block strict m inp outp len ivec Ivec;
          ivec \<leftarrow> iv_ld ivec m iv 0 16;
          Some (m, inp, outp, len, ivec) }
        else dec_blocks_tmp block strict m inp outp len ivec);
     dec_rest block m inp outp len ivec }"

section \<open>Memory\<close>

lemma ld_overwrite: "p + length bs \<le> a \<or> a + n \<le> p \<Longrightarrow> p + length bs \<le> length m \<Longrightarrow> ld (overwrite m p bs) a n = ld m a n"
  by (auto simp: ld_def overwrite_def take_drop min_def)

lemma ld_overwrite_same: "n = length bs \<Longrightarrow> p + length bs \<le> length m \<Longrightarrow> ld (overwrite m p bs) p n = Some bs"
  by (simp add: ld_def overwrite_def)

lemma ld_length: "ld m p n = Some bs \<Longrightarrow> length bs = n"
  by (auto simp: ld_def split: if_splits)

lemma ld_split:
  "ld m p (j + k) = Some bs \<longleftrightarrow> ld m p j = Some (take j bs) \<and> ld m (p + j) k = Some (drop j bs) \<and> j \<le> length bs"
  by (auto simp: ld_def take_add add.commute add.left_commute min_def split: if_splits)

lemma overwrite_append:
  "p + length xs + length ys \<le> length m \<Longrightarrow>
   overwrite (overwrite m p xs) (p + length xs) ys = overwrite m p (xs @ ys)"
  by (simp add: overwrite_def add.assoc add.left_commute add.commute)

lemma st_Some: "p + length bs \<le> length m \<Longrightarrow> st m p bs = Some (overwrite m p bs)"
  by (simp add: st_def)

text \<open>A step handles its bytes as the byte loop does.\<close>

lemma step_xor_eq:
  assumes "length x = step_size strict" "length y = step_size strict"
  shows "step_xor strict x y = xor_bytes x y"
proof (cases strict)
  case True
  then obtain a b where "x = [a]" "y = [b]" using assms by (auto simp: step_size_def length_Suc_conv)
  then show ?thesis using True by (simp add: step_xor_def xor_bytes_def)
next
  case False
  then show ?thesis using assms by (simp add: step_xor_def step_size_def store_xor)
qed

lemma xor_bytes_split:
  "length a = length b \<Longrightarrow> xor_bytes (take n a) (take n b) @ xor_bytes (drop n a) (drop n b) = xor_bytes a b"
  by (simp flip: xor_bytes_append)

text \<open>The region a pointer \<open>iv\<close> reads is not the one written.\<close>

fun iv_apart :: "iv_ptr \<Rightarrow> nat \<Rightarrow> nat \<Rightarrow> bool" where
  "iv_apart Ivec p n = True"
| "iv_apart (At a) p n = (a + 16 \<le> p \<or> p + n \<le> a)"

lemma iv_ld_overwrite:
  "iv_apart iv p (length bs) \<Longrightarrow> p + length bs \<le> length m \<Longrightarrow> n + k \<le> 16 \<Longrightarrow>
   iv_ld ivec (overwrite m p bs) iv n k = iv_ld ivec m iv n k"
  by (cases iv) (auto intro!: ld_overwrite)

lemma iv_ld_split:
  "iv_ld ivec m iv n (j + k) = Some bs \<longleftrightarrow>
   iv_ld ivec m iv n j = Some (take j bs) \<and> iv_ld ivec m iv (n + j) k = Some (drop j bs) \<and> j \<le> length bs"
  by (cases iv) (simp_all add: ld_split add.assoc)

lemma iv_ld_length: "iv_ld ivec m iv n k = Some bs \<Longrightarrow> length bs = k"
  by (cases iv) (auto dest: ld_length)

lemma iv_apart_mono: "iv_apart iv p n \<Longrightarrow> p \<le> q \<Longrightarrow> q + k \<le> p + n \<Longrightarrow> iv_apart iv q k"
  by (cases iv) auto

lemma xor_loop_eq:
  assumes "ld m (inp + n) (step_size strict * k) = Some X" "iv_ld ivec m iv n (step_size strict * k) = Some Y"
    and "outp \<le> inp \<or> inp + n + step_size strict * k \<le> outp + n" "iv_apart iv (outp + n) (step_size strict * k)"
    and "outp + n + step_size strict * k \<le> length m" "n + step_size strict * k \<le> 16"
  shows "xor_loop strict m inp outp ivec iv n k = Some (overwrite m (outp + n) (xor_bytes X Y))"
  using assms
proof (induction k arbitrary: m n X Y)
  case 0
  then show ?case by (auto simp: xor_bytes_def dest!: ld_length)
next
  case (Suc k)
  let ?s = "step_size strict"
  let ?x = "take ?s X" let ?y = "take ?s Y"
  have mul: "?s * Suc k = ?s + ?s * k" by simp
  have X: "ld m (inp + n) ?s = Some ?x" "ld m (inp + n + ?s) (?s * k) = Some (drop ?s X)" "?s \<le> length X"
    using Suc.prems(1) unfolding mul ld_split by auto
  have Y: "iv_ld ivec m iv n ?s = Some ?y" "iv_ld ivec m iv (n + ?s) (?s * k) = Some (drop ?s Y)" "?s \<le> length Y"
    using Suc.prems(2) unfolding mul iv_ld_split by auto
  have lX: "length X = ?s + ?s * k" "length Y = ?s + ?s * k"
    using ld_length[OF Suc.prems(1)] iv_ld_length[OF Suc.prems(2)] by simp_all
  have xy: "step_xor strict ?x ?y = xor_bytes ?x ?y" using X(3) Y(3) by (intro step_xor_eq) simp_all
  have lxy: "length (xor_bytes ?x ?y) = ?s" using X(3) Y(3) by simp
  let ?m = "overwrite m (outp + n) (xor_bytes ?x ?y)"
  have fit: "outp + n + ?s \<le> length m" using Suc.prems(5) by simp
  have st: "st m (outp + n) (step_xor strict ?x ?y) = Some ?m"
    using fit lxy by (simp add: xy st_Some)
  have "xor_loop strict ?m inp outp ivec iv (n + ?s) k
      = Some (overwrite ?m (outp + (n + ?s)) (xor_bytes (drop ?s X) (drop ?s Y)))"
  proof (rule Suc.IH)
    have "ld ?m (inp + n + ?s) (?s * k) = ld m (inp + n + ?s) (?s * k)"
      using Suc.prems(3) fit lxy by (intro ld_overwrite) auto
    then show "ld ?m (inp + (n + ?s)) (?s * k) = Some (drop ?s X)" using X(2) by (simp add: add.assoc)
    have "iv_ld ivec ?m iv (n + ?s) (?s * k) = iv_ld ivec m iv (n + ?s) (?s * k)"
      using Suc.prems(4,6) fit lxy by (intro iv_ld_overwrite) (auto elim: iv_apart_mono)
    then show "iv_ld ivec ?m iv (n + ?s) (?s * k) = Some (drop ?s Y)" using Y(2) by simp
    show "iv_apart iv (outp + (n + ?s)) (?s * k)" using Suc.prems(4) by (rule iv_apart_mono) auto
  qed (use Suc.prems(3,5,6) fit lxy in auto)
  moreover have "overwrite ?m (outp + (n + ?s)) (xor_bytes (drop ?s X) (drop ?s Y)) = overwrite m (outp + n) (xor_bytes X Y)"
  proof -
    have ld: "length (xor_bytes (drop ?s X) (drop ?s Y)) = ?s * k" using lX by simp
    have "outp + n + ?s + ?s * k \<le> length m" using Suc.prems(5) by simp
    then have "overwrite ?m (outp + n + ?s) (xor_bytes (drop ?s X) (drop ?s Y))
        = overwrite m (outp + n) (xor_bytes ?x ?y @ xor_bytes (drop ?s X) (drop ?s Y))"
      using overwrite_append[of "outp + n" "xor_bytes ?x ?y" "xor_bytes (drop ?s X) (drop ?s Y)" m]
      unfolding lxy ld by simp
    then show ?thesis using xor_bytes_split[of X Y ?s] lX by (simp add: add.assoc)
  qed
  ultimately show ?case using X(1) Y(1) st by simp
qed

text \<open>The loop over a whole block.\<close>

lemma step_size_16 [simp]: "step_size strict * (16 div step_size strict) = 16"
  by (simp add: step_size_def)

lemma xor_block_eq:
  assumes "ld m inp 16 = Some X" "iv_ld ivec m iv 0 16 = Some Y"
    and "outp \<le> inp \<or> inp + 16 \<le> outp" "iv_apart iv outp 16" "outp + 16 \<le> length m"
  shows "xor_loop strict m inp outp ivec iv 0 (16 div step_size strict) = Some (overwrite m outp (xor_bytes X Y))"
  using xor_loop_eq[of m inp 0 strict "16 div step_size strict" X ivec iv Y outp] assms by simp

lemma overwrite_twice: "length xs = length ys \<Longrightarrow> overwrite (overwrite m p xs) p ys = overwrite m p ys"
  if "p \<le> length m"
  using that by (simp add: overwrite_def)

section \<open>Encryption\<close>

function cbc_enc :: "block_fn \<Rightarrow> u8 list \<Rightarrow> u8 list \<Rightarrow> u8 list" where
  "cbc_enc block iv xs =
     (if length xs < 16 then []
      else let y = block (xor_bytes (take 16 xs) iv) in y @ cbc_enc block y (drop 16 xs))"
  by pat_completeness auto

termination by (relation "measure (\<lambda>(block, iv, xs). length xs)") auto

declare cbc_enc.simps [simp del]

text \<open>What is left in \<open>ivec\<close>: the last block of ciphertext.\<close>

definition last_block :: "u8 list \<Rightarrow> u8 list \<Rightarrow> u8 list" where
  "last_block iv xs = drop (length xs) (iv @ xs)"

lemma last_block_Nil [simp]: "last_block iv [] = iv"
  by (simp add: last_block_def)

lemma last_block_append: "length iv = 16 \<Longrightarrow> length b = 16 \<Longrightarrow> last_block iv (b @ xs) = last_block b xs"
  by (simp add: last_block_def)

lemma length_cbc_enc:
  assumes "is_block_fn block"
  shows "length iv = 16 \<Longrightarrow> length xs = 16 * j \<Longrightarrow> length (cbc_enc block iv xs) = 16 * j"
proof (induction j arbitrary: iv xs)
  case 0
  then show ?case by (simp add: cbc_enc.simps)
next
  case (Suc j)
  then have "length (block (xor_bytes (take 16 xs) iv)) = 16"
    using assms by (auto simp: is_block_fn_def)
  then show ?case using Suc by (subst cbc_enc.simps) (simp add: Let_def)
qed

lemma call_block_eq:
  "ld m inp 16 = Some b \<Longrightarrow> is_block_fn block \<Longrightarrow> outp + 16 \<le> length m \<Longrightarrow>
   call_block block m inp outp = Some (overwrite m outp (block b))"
  by (auto simp: call_block_def is_block_fn_def st_def dest!: ld_length)

lemma enc_blocks_eq:
  assumes blk: "is_block_fn block"
  shows "ld m inp (16 * j) = Some xs \<Longrightarrow> iv_ld ivec m iv 0 16 = Some V \<Longrightarrow>
    outp \<le> inp \<or> inp + 16 * j \<le> outp \<Longrightarrow> iv_apart iv outp (16 * j) \<Longrightarrow> outp + 16 * j \<le> length m \<Longrightarrow>
    \<exists>iv'. enc_blocks block strict m inp outp (16 * j) ivec iv =
        Some (overwrite m outp (cbc_enc block V xs), inp + 16 * j, outp + 16 * j, 0, iv') \<and>
      iv_ld ivec (overwrite m outp (cbc_enc block V xs)) iv' 0 16 = Some (last_block V (cbc_enc block V xs))"
proof (induction j arbitrary: m inp outp iv V xs)
  case 0
  then have "xs = []" using ld_length[of m inp 0 xs] by simp
  then show ?case using 0 by (simp add: enc_blocks.simps[of _ _ _ _ _ 0] cbc_enc.simps[of _ _ "[]"])
next
  case (Suc j)
  have mul: "16 * Suc j = 16 + 16 * j" by simp
  have X: "ld m inp 16 = Some (take 16 xs)" "ld m (inp + 16) (16 * j) = Some (drop 16 xs)" "16 \<le> length xs"
    using Suc.prems(1) unfolding mul ld_split by auto
  have lens: "length xs = 16 + 16 * j" "length V = 16"
    using ld_length[OF Suc.prems(1)] iv_ld_length[OF Suc.prems(2)] by simp_all
  let ?x = "xor_bytes (take 16 xs) V"
  let ?y = "block ?x"
  have lx: "length ?x = 16" using lens by simp
  have ly: "length ?y = 16" using blk lx by (simp add: is_block_fn_def)
  have fit: "outp + 16 + 16 * j \<le> length m" using Suc.prems(5) by simp
  have 1: "xor_loop strict m inp outp ivec iv 0 (16 div step_size strict) = Some (overwrite m outp ?x)"
    using Suc.prems(3-5) by (intro xor_block_eq[OF X(1) Suc.prems(2)]) (auto elim: iv_apart_mono)
  have 2: "call_block block (overwrite m outp ?x) outp outp = Some (overwrite m outp ?y)"
    using call_block_eq[of "overwrite m outp ?x" outp ?x block outp] ld_overwrite_same[of 16 ?x outp m]
      lx ly fit blk by (simp add: overwrite_twice)
  let ?m = "overwrite m outp ?y"
  have lm: "length ?m = length m" using ly fit by simp
  have "\<exists>iv'. enc_blocks block strict ?m (inp + 16) (outp + 16) (16 * j) ivec (At outp) =
        Some (overwrite ?m (outp + 16) (cbc_enc block ?y (drop 16 xs)), inp + 16 + 16 * j, outp + 16 + 16 * j, 0, iv') \<and>
      iv_ld ivec (overwrite ?m (outp + 16) (cbc_enc block ?y (drop 16 xs))) iv' 0 16
        = Some (last_block ?y (cbc_enc block ?y (drop 16 xs)))"
  proof (rule Suc.IH)
    show "ld ?m (inp + 16) (16 * j) = Some (drop 16 xs)"
      using Suc.prems(3) ly fit X(2) by (subst ld_overwrite) auto
    show "iv_ld ivec ?m (At outp) 0 16 = Some ?y" using ly fit by (simp add: ld_overwrite_same)
  qed (use Suc.prems(3) lm fit in auto)
  moreover have c: "cbc_enc block V xs = ?y @ cbc_enc block ?y (drop 16 xs)"
    using X(3) by (subst cbc_enc.simps) (simp add: Let_def)
  moreover have "overwrite ?m (outp + 16) (cbc_enc block ?y (drop 16 xs)) = overwrite m outp (cbc_enc block V xs)"
    unfolding c using overwrite_append[of outp ?y "cbc_enc block ?y (drop 16 xs)" m] ly fit
      length_cbc_enc[OF blk ly, of "drop 16 xs" j] lens by simp
  moreover have "last_block V (cbc_enc block V xs) = last_block ?y (cbc_enc block ?y (drop 16 xs))"
    unfolding c by (rule last_block_append[OF lens(2) ly])
  ultimately show ?case using 1 2 by (subst enc_blocks.simps) (simp add: algebra_simps)
qed

lemma cbc128_encrypt_eq:
  assumes "is_block_fn block" "length ivec = 16" "ld m inp (16 * j) = Some xs"
    and "outp \<le> inp \<or> inp + 16 * j \<le> outp" "outp + 16 * j \<le> length m"
  shows "CRYPTO_cbc128_encrypt block strict m inp outp (16 * j) ivec =
    Some (overwrite m outp (cbc_enc block ivec xs), last_block ivec (cbc_enc block ivec xs))"
proof -
  have "iv_ld ivec m Ivec 0 16 = Some ivec" using assms(2) by (simp add: ld_def)
  from enc_blocks_eq[OF assms(1,3) this assms(4) _ assms(5), of strict]
  show ?thesis by (auto simp: CRYPTO_cbc128_encrypt_def enc_rest.simps)
qed

section \<open>Decryption\<close>

function cbc_dec :: "block_fn \<Rightarrow> u8 list \<Rightarrow> u8 list \<Rightarrow> u8 list" where
  "cbc_dec block iv xs =
     (if length xs < 16 then []
      else xor_bytes (block (take 16 xs)) iv @ cbc_dec block (take 16 xs) (drop 16 xs))"
  by pat_completeness auto

termination by (relation "measure (\<lambda>(block, iv, xs). length xs)") auto

declare cbc_dec.simps [simp del]

lemma length_cbc_dec:
  assumes "is_block_fn block"
  shows "length iv = 16 \<Longrightarrow> length xs = 16 * j \<Longrightarrow> length (cbc_dec block iv xs) = 16 * j"
proof (induction j arbitrary: iv xs)
  case 0
  then show ?case by (simp add: cbc_dec.simps)
next
  case (Suc j)
  then have "length (block (take 16 xs)) = 16" using assms by (auto simp: is_block_fn_def)
  then show ?case using Suc by (subst cbc_dec.simps) simp
qed

text \<open>The inputs of a block and of the block in front of it are still there when they are read.\<close>

fun iv_behind :: "iv_ptr \<Rightarrow> nat \<Rightarrow> bool" where
  "iv_behind Ivec inp = True"
| "iv_behind (At a) inp = (a + 16 = inp)"

lemma dec_blocks_eq:
  assumes blk: "is_block_fn block"
  shows "ld m inp (16 * j) = Some xs \<Longrightarrow> iv_ld ivec m iv 0 16 = Some V \<Longrightarrow> iv_behind iv inp \<Longrightarrow>
    outp + 32 \<le> inp \<or> inp + 16 * j \<le> outp \<Longrightarrow> outp + 16 * j \<le> length m \<Longrightarrow>
    \<exists>iv'. dec_blocks block strict m inp outp (16 * j) ivec iv =
        Some (overwrite m outp (cbc_dec block V xs), inp + 16 * j, outp + 16 * j, 0, iv') \<and>
      iv_ld ivec (overwrite m outp (cbc_dec block V xs)) iv' 0 16 = Some (last_block V xs)"
proof (induction j arbitrary: m inp outp iv V xs)
  case 0
  then have "xs = []" using ld_length[of m inp 0 xs] by simp
  then show ?case using 0 by (simp add: dec_blocks.simps[of _ _ _ _ _ 0] cbc_dec.simps[of _ _ "[]"])
next
  case (Suc j)
  have mul: "16 * Suc j = 16 + 16 * j" by simp
  have X: "ld m inp 16 = Some (take 16 xs)" "ld m (inp + 16) (16 * j) = Some (drop 16 xs)" "16 \<le> length xs"
    using Suc.prems(1) unfolding mul ld_split by auto
  have lens: "length xs = 16 + 16 * j" "length V = 16"
    using ld_length[OF Suc.prems(1)] iv_ld_length[OF Suc.prems(2)] by simp_all
  let ?x = "block (take 16 xs)"
  let ?y = "xor_bytes ?x V"
  have lx: "length ?x = 16" using blk X(3) by (simp add: is_block_fn_def)
  have ly: "length ?y = 16" using lx lens by simp
  have fit: "outp + 16 + 16 * j \<le> length m" using Suc.prems(5) by simp
  have apart: "iv_apart iv outp 16" using Suc.prems(3,4) by (cases iv) auto
  have 1: "call_block block m inp outp = Some (overwrite m outp ?x)"
    using call_block_eq[OF X(1) blk] fit by simp
  have "iv_ld ivec (overwrite m outp ?x) iv 0 16 = Some V"
    using Suc.prems(2) apart lx fit by (subst iv_ld_overwrite) simp_all
  then have 2: "xor_loop strict (overwrite m outp ?x) outp outp ivec iv 0 (16 div step_size strict) = Some (overwrite m outp ?y)"
    using xor_block_eq[of "overwrite m outp ?x" outp ?x ivec iv V outp strict] apart lx ly fit
    by (simp add: ld_overwrite_same overwrite_twice)
  let ?m = "overwrite m outp ?y"
  have lm: "length ?m = length m" using ly fit by simp
  have c: "cbc_dec block V xs = ?y @ cbc_dec block (take 16 xs) (drop 16 xs)"
    using X(3) by (subst cbc_dec.simps) simp
  have "\<exists>iv'. dec_blocks block strict ?m (inp + 16) (outp + 16) (16 * j) ivec (At inp) =
        Some (overwrite ?m (outp + 16) (cbc_dec block (take 16 xs) (drop 16 xs)), inp + 16 + 16 * j, outp + 16 + 16 * j, 0, iv') \<and>
      iv_ld ivec (overwrite ?m (outp + 16) (cbc_dec block (take 16 xs) (drop 16 xs))) iv' 0 16
        = Some (last_block (take 16 xs) (drop 16 xs))"
  proof (rule Suc.IH)
    show "ld ?m (inp + 16) (16 * j) = Some (drop 16 xs)"
      using Suc.prems(4) ly fit X(2) by (subst ld_overwrite) auto
    show "iv_ld ivec ?m (At inp) 0 16 = Some (take 16 xs)"
      using Suc.prems(4) ly fit X(1) unfolding iv_ld.simps by (subst ld_overwrite) auto
  qed (use Suc.prems(4) lm fit in auto)
  moreover have "overwrite ?m (outp + 16) (cbc_dec block (take 16 xs) (drop 16 xs)) = overwrite m outp (cbc_dec block V xs)"
    unfolding c using overwrite_append[of outp ?y "cbc_dec block (take 16 xs) (drop 16 xs)" m] ly fit
      length_cbc_dec[OF blk, of "take 16 xs" "drop 16 xs" j] lens by simp
  moreover have "last_block (take 16 xs) (drop 16 xs) = last_block V xs"
    using last_block_append[of V "take 16 xs" "drop 16 xs"] lens X(3)
    by (simp only: append_take_drop_id length_take min_absorb2)
  ultimately show ?case using 1 2 by (subst dec_blocks.simps) (simp add: algebra_simps)
qed

lemma tmp_loop_eq:
  assumes "ld m (inp + n) (step_size strict * k) = Some C" "length tmp = 16" "length ivec = 16"
    and "outp \<le> inp" "outp + n + step_size strict * k \<le> length m" "n + step_size strict * k \<le> 16"
  shows "tmp_loop strict m inp outp tmp ivec n k =
    Some (overwrite m (outp + n) (xor_bytes (take (step_size strict * k) (drop n tmp)) (take (step_size strict * k) (drop n ivec))),
      overwrite ivec n C)"
  using assms
proof (induction k arbitrary: m ivec n C)
  case 0
  then show ?case by (auto simp: xor_bytes_def dest!: ld_length)
next
  case (Suc k)
  let ?s = "step_size strict"
  let ?t = "take ?s (drop n tmp)" let ?y = "take ?s (drop n ivec)"
  have mul: "?s * Suc k = ?s + ?s * k" by simp
  have C: "ld m (inp + n) ?s = Some (take ?s C)" "ld m (inp + n + ?s) (?s * k) = Some (drop ?s C)" "?s \<le> length C"
    using Suc.prems(1) unfolding mul ld_split by auto
  have n16: "n + ?s + ?s * k \<le> 16" using Suc.prems(6) by simp
  have t: "ld tmp n ?s = Some ?t" "ld ivec n ?s = Some ?y" using n16 Suc.prems(2,3) by (simp_all add: ld_def)
  have lty: "length ?t = ?s" "length ?y = ?s" using n16 Suc.prems(2,3) by simp_all
  have xy: "step_xor strict ?t ?y = xor_bytes ?t ?y" by (rule step_xor_eq[OF lty])
  have lxy: "length (xor_bytes ?t ?y) = ?s" using lty by simp
  let ?m = "overwrite m (outp + n) (xor_bytes ?t ?y)"
  let ?iv = "overwrite ivec n (take ?s C)"
  have fit: "outp + n + ?s + ?s * k \<le> length m" using Suc.prems(5) by simp
  have st: "st m (outp + n) (step_xor strict ?t ?y) = Some ?m" "st ivec n (take ?s C) = Some ?iv"
    using fit lxy n16 C(3) Suc.prems(3) by (simp_all add: xy st_Some)
  have liv: "length ?iv = 16" using n16 C(3) Suc.prems(3) by simp
  have "tmp_loop strict ?m inp outp tmp ?iv (n + ?s) k =
    Some (overwrite ?m (outp + (n + ?s)) (xor_bytes (take (?s * k) (drop (n + ?s) tmp)) (take (?s * k) (drop (n + ?s) ?iv))),
      overwrite ?iv (n + ?s) (drop ?s C))"
  proof (rule Suc.IH[OF _ Suc.prems(2) liv Suc.prems(4)])
    have "ld ?m (inp + n + ?s) (?s * k) = ld m (inp + n + ?s) (?s * k)"
      using Suc.prems(4) fit lxy by (intro ld_overwrite) auto
    then show "ld ?m (inp + (n + ?s)) (?s * k) = Some (drop ?s C)" using C(2) by (simp add: add.assoc)
  qed (use fit lxy n16 in auto)
  moreover have "overwrite ?m (outp + (n + ?s)) (xor_bytes (take (?s * k) (drop (n + ?s) tmp)) (take (?s * k) (drop (n + ?s) ?iv)))
      = overwrite m (outp + n) (xor_bytes (take (?s * Suc k) (drop n tmp)) (take (?s * Suc k) (drop n ivec)))"
  proof -
    have d: "drop (n + ?s) ?iv = drop (n + ?s) ivec" using n16 C(3) Suc.prems(3) by (simp add: overwrite_def)
    let ?r = "xor_bytes (take (?s * k) (drop (n + ?s) tmp)) (take (?s * k) (drop (n + ?s) ivec))"
    have lr: "length ?r = ?s * k" using n16 Suc.prems(2,3) by simp
    have "xor_bytes (take (?s * Suc k) (drop n tmp)) (take (?s * Suc k) (drop n ivec)) = xor_bytes ?t ?y @ ?r"
      unfolding mul take_add drop_drop using lty by (subst xor_bytes_append) (simp_all add: add.commute)
    then show ?thesis
      unfolding d using overwrite_append[of "outp + n" "xor_bytes ?t ?y" ?r m] fit lxy lr by (simp add: add.assoc)
  qed
  moreover have "overwrite ?iv (n + ?s) (drop ?s C) = overwrite ivec n C"
  proof -
    have l: "length (take ?s C) = ?s" "length (drop ?s C) = ?s * k" using C(3) ld_length[OF Suc.prems(1)] by simp_all
    then show ?thesis
      using overwrite_append[of n "take ?s C" "drop ?s C" ivec] n16 Suc.prems(3) unfolding l by simp
  qed
  ultimately show ?case using C(1) t st by simp
qed

lemma dec_blocks_tmp_eq:
  assumes blk: "is_block_fn block"
  shows "ld m inp (16 * j) = Some xs \<Longrightarrow> length ivec = 16 \<Longrightarrow> outp \<le> inp \<Longrightarrow> outp + 16 * j \<le> length m \<Longrightarrow>
    dec_blocks_tmp block strict m inp outp (16 * j) ivec =
      Some (overwrite m outp (cbc_dec block ivec xs), inp + 16 * j, outp + 16 * j, 0, last_block ivec xs)"
proof (induction j arbitrary: m inp outp ivec xs)
  case 0
  then have "xs = []" using ld_length[of m inp 0 xs] by simp
  then show ?case using 0 by (simp add: dec_blocks_tmp.simps[of _ _ _ _ _ 0] cbc_dec.simps[of _ _ "[]"])
next
  case (Suc j)
  have mul: "16 * Suc j = 16 + 16 * j" by simp
  have X: "ld m inp 16 = Some (take 16 xs)" "ld m (inp + 16) (16 * j) = Some (drop 16 xs)" "16 \<le> length xs"
    using Suc.prems(1) unfolding mul ld_split by auto
  have lens: "length xs = 16 + 16 * j" using ld_length[OF Suc.prems(1)] by simp
  let ?x = "block (take 16 xs)"
  let ?y = "xor_bytes ?x ivec"
  have lx: "length ?x = 16" using blk X(3) by (simp add: is_block_fn_def)
  have ly: "length ?y = 16" using lx Suc.prems(2) by simp
  have fit: "outp + 16 + 16 * j \<le> length m" using Suc.prems(4) by simp
  let ?m = "overwrite m outp ?y"
  have "overwrite ivec 0 (take 16 xs) = take 16 xs" using Suc.prems(2) X(3) by (simp add: overwrite_def)
  then have 1: "tmp_loop strict m inp outp ?x ivec 0 (16 div step_size strict) = Some (?m, take 16 xs)"
    using tmp_loop_eq[of m inp 0 strict "16 div step_size strict" "take 16 xs" ?x ivec outp] X(1) lx Suc.prems(2,3) fit
    by simp
  have c: "cbc_dec block ivec xs = ?y @ cbc_dec block (take 16 xs) (drop 16 xs)"
    using X(3) by (subst cbc_dec.simps) simp
  have "dec_blocks_tmp block strict ?m (inp + 16) (outp + 16) (16 * j) (take 16 xs) =
      Some (overwrite ?m (outp + 16) (cbc_dec block (take 16 xs) (drop 16 xs)), inp + 16 + 16 * j, outp + 16 + 16 * j, 0,
        last_block (take 16 xs) (drop 16 xs))"
  proof (rule Suc.IH)
    show "ld ?m (inp + 16) (16 * j) = Some (drop 16 xs)"
      using Suc.prems(3) ly fit X(2) by (subst ld_overwrite) auto
  qed (use Suc.prems(3) X(3) ly fit in auto)
  moreover have "overwrite ?m (outp + 16) (cbc_dec block (take 16 xs) (drop 16 xs)) = overwrite m outp (cbc_dec block ivec xs)"
    unfolding c using overwrite_append[of outp ?y "cbc_dec block (take 16 xs) (drop 16 xs)" m] ly fit
      length_cbc_dec[OF blk, of "take 16 xs" "drop 16 xs" j] lens by simp
  moreover have "last_block (take 16 xs) (drop 16 xs) = last_block ivec xs"
    using last_block_append[of ivec "take 16 xs" "drop 16 xs"] lens Suc.prems(2) X(3)
    by (simp only: append_take_drop_id length_take min_absorb2)
  ultimately show ?case using 1 X(1) by (subst dec_blocks_tmp.simps) (simp add: algebra_simps)
qed

lemma cbc128_decrypt_eq:
  assumes "is_block_fn block" "length ivec = 16" "ld m inp (16 * j) = Some xs"
    and "outp \<le> inp \<or> inp + 16 * j \<le> outp" "outp + 16 * j \<le> length m"
  shows "CRYPTO_cbc128_decrypt block strict m inp outp (16 * j) ivec =
    Some (overwrite m outp (cbc_dec block ivec xs), last_block ivec xs)"
proof (cases "(inp \<ge> 32 \<and> outp \<le> inp - 32) \<or> inp < outp")
  case True
  then have far: "outp + 32 \<le> inp \<or> inp + 16 * j \<le> outp" using assms(4) by linarith
  have "iv_ld ivec m Ivec 0 16 = Some ivec" using assms(2) by (simp add: ld_def)
  from dec_blocks_eq[OF assms(1,3) this _ far assms(5), of strict] True assms(4)
  show ?thesis by (auto simp: CRYPTO_cbc128_decrypt_def dec_rest.simps)
next
  case False
  then have "outp \<le> inp" by simp
  from dec_blocks_tmp_eq[OF assms(1,3,2) this assms(5), of strict] False assms(4)
  show ?thesis by (auto simp: CRYPTO_cbc128_decrypt_def dec_rest.simps)
qed

section \<open>What the functions guarantee\<close>

lemma cbc_dec_enc:
  assumes "is_block_fn enc" "\<And>b. length b = 16 \<Longrightarrow> dec (enc b) = b"
  shows "length iv = 16 \<Longrightarrow> length xs = 16 * j \<Longrightarrow> cbc_dec dec iv (cbc_enc enc iv xs) = xs"
proof (induction j arbitrary: iv xs)
  case 0
  then show ?case by (simp add: cbc_enc.simps[of _ _ "[]"] cbc_dec.simps[of _ _ "[]"])
next
  case (Suc j)
  let ?x = "xor_bytes (take 16 xs) iv"
  let ?y = "enc ?x"
  have ly: "length ?y = 16" using assms(1) Suc.prems by (simp add: is_block_fn_def)
  have e: "cbc_enc enc iv xs = ?y @ cbc_enc enc ?y (drop 16 xs)"
    using Suc.prems by (subst cbc_enc.simps) (simp add: Let_def)
  have "xor_bytes ?x iv = take 16 xs"
    using Suc.prems by (intro nth_equalityI) (simp_all add: nth_xor_bytes xor.assoc)
  then have "cbc_dec dec iv (cbc_enc enc iv xs) = take 16 xs @ cbc_dec dec ?y (cbc_enc enc ?y (drop 16 xs))"
    unfolding e using ly Suc.prems assms(2)[of ?x] by (subst cbc_dec.simps) simp
  then show ?case using Suc.IH[OF ly, of "drop 16 xs"] Suc.prems by simp
qed

text \<open>
  Property C22: decryption of whole blocks in CBC mode is right however input and output overlap. For every
  position of the output that the code's assertion admits (at the input, any distance behind
  it, or disjoint from it), byte loops and word loops, with or without the temporary block: no
  access is outside the memory, the output region holds the CBC decryption of the bytes that
  were in the input region, nothing else changes, and \<open>ivec\<close> is the last block of ciphertext.
\<close>

theorem CRYPTO_cbc128_decrypt_overlap:
  assumes "is_block_fn block" "length ivec = 16" "inp + 16 * j \<le> length m" "outp + 16 * j \<le> length m"
    and "outp \<le> inp \<or> inp + 16 * j \<le> outp"
  shows "CRYPTO_cbc128_decrypt block strict m inp outp (16 * j) ivec =
    Some (overwrite m outp (cbc_dec block ivec (take (16 * j) (drop inp m))), last_block ivec (take (16 * j) (drop inp m)))"
  by (rule cbc128_decrypt_eq[OF assms(1,2) _ assms(5,4)]) (use assms(3) in \<open>simp add: ld_def\<close>)

theorem CRYPTO_cbc128_decrypt_overlap_witness:
  "CRYPTO_cbc128_decrypt rev False (replicate 40 7) 20 4 (16 * 1) (replicate 16 1) =
    Some (overwrite (replicate 40 7) 4 (cbc_dec rev (replicate 16 1) (take (16 * 1) (drop 20 (replicate 40 7)))),
      last_block (replicate 16 1) (take (16 * 1) (drop 20 (replicate 40 7))))"
  by (rule CRYPTO_cbc128_decrypt_overlap) (simp_all add: is_block_fn_def)

text \<open>
  Property C23: CBC decryption undoes CBC encryption in memory. A message encrypted anywhere at
  or behind its place, or elsewhere, and the ciphertext decrypted again under the same rules
  leaves the message in the output region and both functions leave the same \<open>ivec\<close>; the paths
  (\<open>strict\<close> or not) of the two calls are independent.
\<close>

theorem CRYPTO_cbc128_roundtrip:
  assumes "is_block_fn enc" "is_block_fn dec" "\<forall>b. length b = 16 \<longrightarrow> dec (enc b) = b" "length ivec = 16"
    and "inp + 16 * j \<le> length m" "mid + 16 * j \<le> length m" "mid \<le> inp \<or> inp + 16 * j \<le> mid"
    and "outp + 16 * j \<le> length m" "outp \<le> mid \<or> mid + 16 * j \<le> outp"
  shows "\<exists>m1 m2 iv. CRYPTO_cbc128_encrypt enc strict m inp mid (16 * j) ivec = Some (m1, iv) \<and>
    CRYPTO_cbc128_decrypt dec strict' m1 mid outp (16 * j) ivec = Some (m2, iv) \<and>
    take (16 * j) (drop outp m2) = take (16 * j) (drop inp m)"
proof -
  let ?xs = "take (16 * j) (drop inp m)"
  let ?c = "cbc_enc enc ivec ?xs"
  let ?m1 = "overwrite m mid ?c"
  have lx: "length ?xs = 16 * j" using assms(5) by simp
  have lc: "length ?c = 16 * j" by (rule length_cbc_enc[OF assms(1,4) lx])
  have e: "CRYPTO_cbc128_encrypt enc strict m inp mid (16 * j) ivec = Some (?m1, last_block ivec ?c)"
    by (rule cbc128_encrypt_eq[OF assms(1,4) _ assms(7,6)]) (use assms(5) in \<open>simp add: ld_def\<close>)
  have d: "cbc_dec dec ivec ?c = ?xs" using assms(3) by (intro cbc_dec_enc[OF assms(1) _ assms(4) lx]) simp
  have "CRYPTO_cbc128_decrypt dec strict' ?m1 mid outp (16 * j) ivec =
      Some (overwrite ?m1 outp ?xs, last_block ivec ?c)"
    using cbc128_decrypt_eq[OF assms(2,4) ld_overwrite_same[of "16 * j" ?c mid m] assms(9), of strict'] lc assms(6,8)
    by (simp add: d)
  moreover have "take (16 * j) (drop outp (overwrite ?m1 outp ?xs)) = ?xs"
    using lx lc assms(6,8) by (simp add: overwrite_def)
  ultimately show ?thesis using e by blast
qed

theorem CRYPTO_cbc128_roundtrip_witness:
  "\<exists>m1 m2 iv. CRYPTO_cbc128_encrypt rev False (replicate 40 7) 8 8 (16 * 2) (replicate 16 1) = Some (m1, iv) \<and>
    CRYPTO_cbc128_decrypt rev True m1 8 3 (16 * 2) (replicate 16 1) = Some (m2, iv) \<and>
    take (16 * 2) (drop 3 m2) = take (16 * 2) (drop 8 (replicate 40 (7 :: u8)))"
  by (rule CRYPTO_cbc128_roundtrip) (simp_all add: is_block_fn_def)

end
