(* ===== verification/Cfb_Bits.thy ===== *)
theory Cfb_Bits
  imports Modes "HOL-Library.Monad_Syntax"
begin

text \<open>
  The rest of \<^verbatim>\<open>crypto/fipsmodule/modes/cfb.c\<close>: cipher feedback with segments of one bit and of
  one byte. The shift of the register by any number of bits is shown to be the shift of the
  register as a sequence of bits, and the modes are those of NIST SP 800-38A. Input and output
  are disjoint or the same buffer.
\<close>

section \<open>The functions\<close>

text \<open>\<^verbatim>\<open>ovec\<close>: 33 bytes, of which only those that were stored may be read.\<close>

definition ovec_shift :: "u8 option list \<Rightarrow> nat \<Rightarrow> nat \<Rightarrow> nat \<Rightarrow> u8 option" where
  "ovec_shift ovec num rem n = do {
     a \<leftarrow> ovec ! (n + num);
     b \<leftarrow> ovec ! (n + num + 1);
     Some (push_bit rem a OR drop_bit (8 - rem) b) }"

fun read_all :: "'a option list \<Rightarrow> 'a list option" where
  "read_all [] = Some []"
| "read_all (x # xs) = do { a \<leftarrow> x; as \<leftarrow> read_all xs; Some (a # as) }"

text \<open>The results: the bytes stored at \<open>out\<close>, and \<open>ivec\<close>.\<close>

definition cfbr_encrypt_block ::
  "u8 list \<Rightarrow> nat \<Rightarrow> u8 list \<Rightarrow> bool \<Rightarrow> block_fn \<Rightarrow> (u8 list \<times> u8 list) option" where
  "cfbr_encrypt_block inp nbits ivec enc block =
     (if nbits = 0 \<or> nbits > 128 then Some ([], ivec)
      else
        let ovec = map Some ivec @ replicate 17 None;
            ivec = block ivec;
            num = (nbits + 7) div 8;
            out = map (\<lambda>n. inp ! n XOR ivec ! n) [0..<num];
            ovec = overwrite ovec 16 (map Some (if enc then out else take num inp));
            rem = nbits mod 8;
            num = nbits div 8
        in if rem = 0 then do { ivec \<leftarrow> read_all (take 16 (drop num ovec)); Some (out, ivec) }
           else do { ivec \<leftarrow> read_all (map (ovec_shift ovec num rem) [0..<16]); Some (out, ivec) })"

text \<open>The loop of \<^verbatim>\<open>CRYPTO_cfb128_1_encrypt\<close>, from bit \<open>n\<close> on for \<open>k\<close> bits: the output and \<open>ivec\<close>.\<close>

fun cfb1_loop :: "u8 list \<Rightarrow> u8 list \<Rightarrow> nat \<Rightarrow> nat \<Rightarrow> u8 list \<Rightarrow> bool \<Rightarrow> block_fn \<Rightarrow> (u8 list \<times> u8 list) option" where
  "cfb1_loop inp out n 0 ivec enc block = Some (out, ivec)"
| "cfb1_loop inp out n (Suc k) ivec enc block = do {
     (d, ivec) \<leftarrow> cfbr_encrypt_block
       [if inp ! (n div 8) AND push_bit (7 - n mod 8) 1 \<noteq> 0 then 0x80 else 0] 1 ivec enc block;
     let out = out[n div 8 := (out ! (n div 8) AND NOT (push_bit (7 - n mod 8) 1)) OR
       drop_bit (n mod 8) (d ! 0 AND 0x80)];
     cfb1_loop inp out (n + 1) k ivec enc block }"

definition CRYPTO_cfb128_1_encrypt ::
  "u8 list \<Rightarrow> u8 list \<Rightarrow> nat \<Rightarrow> u8 list \<Rightarrow> nat \<Rightarrow> bool \<Rightarrow> block_fn \<Rightarrow> (u8 list \<times> u8 list) option" where
  "CRYPTO_cfb128_1_encrypt inp out bits ivec num enc block = do {
     C_assert (num = 0);
     cfb1_loop inp out 0 bits ivec enc block }"

fun cfb8_loop :: "u8 list \<Rightarrow> u8 list \<Rightarrow> bool \<Rightarrow> block_fn \<Rightarrow> (u8 list \<times> u8 list) option" where
  "cfb8_loop [] ivec enc block = Some ([], ivec)"
| "cfb8_loop (x # xs) ivec enc block = do {
     (d, ivec) \<leftarrow> cfbr_encrypt_block [x] 8 ivec enc block;
     (out, ivec) \<leftarrow> cfb8_loop xs ivec enc block;
     Some (d @ out, ivec) }"

definition CRYPTO_cfb128_8_encrypt ::
  "u8 list \<Rightarrow> u8 list \<Rightarrow> nat \<Rightarrow> bool \<Rightarrow> block_fn \<Rightarrow> (u8 list \<times> u8 list) option" where
  "CRYPTO_cfb128_8_encrypt inp ivec num enc block = do { C_assert (num = 0); cfb8_loop inp ivec enc block }"

section \<open>Bytes as bits\<close>

text \<open>The bits of a byte and of a sequence of bytes, the most significant first.\<close>

definition byte_bits :: "u8 \<Rightarrow> bool list" where
  "byte_bits b = map (\<lambda>j. bit b (7 - j)) [0..<8]"

definition bits_of :: "u8 list \<Rightarrow> bool list" where
  "bits_of bs = concat (map byte_bits bs)"

lemma length_byte_bits [simp]: "length (byte_bits b) = 8"
  by (simp add: byte_bits_def)

lemma bits_of_simps [simp]: "bits_of [] = []" "bits_of (b # bs) = byte_bits b @ bits_of bs"
  "bits_of (xs @ ys) = bits_of xs @ bits_of ys"
  by (simp_all add: bits_of_def)

lemma length_bits_of [simp]: "length (bits_of bs) = 8 * length bs"
  by (induction bs) simp_all

lemma nth_bits_of: "i < 8 * length bs \<Longrightarrow> bits_of bs ! i = bit (bs ! (i div 8)) (7 - i mod 8)"
proof (induction bs arbitrary: i)
  case Nil
  then show ?case by simp
next
  case (Cons b bs)
  show ?case
  proof (cases "i < 8")
    case True
    then show ?thesis by (simp add: nth_append byte_bits_def)
  next
    case False
    then have "i div 8 = Suc ((i - 8) div 8)" "(i - 8) mod 8 = i mod 8"
      by (simp_all add: le_div_geq le_mod_geq)
    then show ?thesis using False Cons by (simp add: nth_append)
  qed
qed

lemma take_bits_of: "take (8 * n) (bits_of bs) = bits_of (take n bs)"
proof (induction bs arbitrary: n)
  case (Cons b bs)
  then show ?case by (cases n) simp_all
qed simp

lemma drop_bits_of: "drop (8 * n) (bits_of bs) = bits_of (drop n bs)"
proof (induction bs arbitrary: n)
  case (Cons b bs)
  then show ?case by (cases n) simp_all
qed simp

lemma byte_eqI: "(\<And>j. j < 8 \<Longrightarrow> bit a (7 - j) = bit b (7 - j)) \<Longrightarrow> (a :: u8) = b"
proof (rule bit_word_eqI)
  fix n assume a: "\<And>j. j < 8 \<Longrightarrow> bit a (7 - j) = bit b (7 - j)" and "n < LENGTH(8)"
  then show "bit a n = bit b n" using a[of "7 - n"] by simp
qed

lemma bits_of_inject: "length xs = length ys \<Longrightarrow> bits_of xs = bits_of ys \<Longrightarrow> xs = ys"
proof (induction xs ys rule: list_induct2)
  case (Cons x xs y ys)
  have "bit x (7 - j) = bit y (7 - j)" if "j < 8" for j
    using Cons.prems that arg_cong[of "byte_bits x" "byte_bits y" "\<lambda>l. l ! j"] by (simp add: byte_bits_def)
  then show ?case using Cons by (simp add: byte_eqI)
qed simp

section \<open>Shifting the register\<close>

lemma read_all_Some [simp]: "read_all (map Some xs) = Some xs"
  by (induction xs) simp_all

lemma map_byte_shift:
  assumes "length os = 16 + num + 1" "0 < rem" "rem < 8"
  shows "bits_of (map (\<lambda>n. push_bit rem (os ! (n + num)) OR drop_bit (8 - rem) (os ! (n + num + 1))) [0..<16]) =
    take 128 (drop (8 * num + rem) (bits_of os))" (is "bits_of ?s = ?r")
proof (rule nth_equalityI)
  show "length (bits_of ?s) = length ?r" using assms by simp
  fix i assume "i < length (bits_of ?s)"
  then have i: "i < 128" "i div 8 < 16" by simp_all
  define j where "j = i mod 8"
  have ij: "i = 8 * (i div 8) + j" "j < 8" by (simp_all add: j_def)
  have r: "?r ! i = bits_of os ! (8 * (i div 8 + num) + (j + rem))"
  proof -
    have "i = 8 * q + j \<Longrightarrow> 8 * num + rem + i = 8 * (q + num) + (j + rem)" for q by simp
    then have "8 * num + rem + i = 8 * (i div 8 + num) + (j + rem)" using ij(1) .
    moreover have "?r ! i = bits_of os ! (8 * num + rem + i)"
      using i assms by (subst nth_take, simp, subst nth_drop, simp, simp)
    ultimately show ?thesis by (simp only:)
  qed
  have l: "bits_of ?s ! i = bit (push_bit rem (os ! (i div 8 + num)) OR drop_bit (8 - rem) (os ! (i div 8 + num + 1))) (7 - j)"
    using i by (simp add: nth_bits_of j_def)
  show "bits_of ?s ! i = ?r ! i"
  proof (cases "j + rem < 8")
    case True
    have "(8 * (i div 8 + num) + (j + rem)) div 8 = i div 8 + num" "(8 * (i div 8 + num) + (j + rem)) mod 8 = j + rem"
      by (rule word_index[OF True])+
    then have "?r ! i = bit (os ! (i div 8 + num)) (7 - (j + rem))"
      unfolding r using i assms(1) True by (subst nth_bits_of) auto
    moreover have "\<not> bit (os ! (i div 8 + num + 1)) (8 - rem + (7 - j))"
      using True by (intro bit_u8_high) linarith
    moreover have "7 - j - rem = 7 - (j + rem)" "rem \<le> 7 - j" "7 - j < 8" using True by linarith+
    ultimately show ?thesis unfolding l using ij(2) assms
      by (simp add: bit_or_iff bit_push_bit_iff bit_drop_bit_eq)
  next
    case False
    define d where "d = j + rem - 8"
    have d: "j + rem = 8 + d" "d < 8" using False ij(2) assms by (simp_all add: d_def)
    have e: "8 * (i div 8 + num) + (j + rem) = 8 * (i div 8 + num + 1) + d" using d by simp
    have "(8 * (i div 8 + num + 1) + d) div 8 = i div 8 + num + 1" "(8 * (i div 8 + num + 1) + d) mod 8 = d"
      by (rule word_index[OF d(2)])+
    then have "?r ! i = bit (os ! (i div 8 + num + 1)) (7 - d)"
      unfolding r e using i assms(1) d(2) by (subst nth_bits_of) auto
    moreover have "8 - rem + (7 - j) = 7 - d" "\<not> rem \<le> 7 - j" "7 - j < 8" using d ij(2) assms by linarith+
    ultimately show ?thesis unfolding l using ij(2) assms
      by (simp add: bit_or_iff bit_push_bit_iff bit_drop_bit_eq)
  qed
qed

lemma shift_bits:
  assumes "length iv = 16" "8 * length c \<ge> nbits" "nbits \<le> 128"
  shows "take 128 (drop nbits (bits_of (iv @ c))) = drop nbits (bits_of iv) @ take nbits (bits_of c)"
  using assms by simp

lemma cfbr_encrypt_block_eq:
  assumes blk: "is_block_fn block" and iv: "length ivec = 16"
    and n: "0 < nbits" "nbits \<le> 128" and inp: "(nbits + 7) div 8 \<le> length inp"
  shows "\<exists>ivec'. cfbr_encrypt_block inp nbits ivec enc block =
      Some (xor_bytes (take ((nbits + 7) div 8) inp) (take ((nbits + 7) div 8) (block ivec)), ivec') \<and>
    length ivec' = 16 \<and>
    bits_of ivec' = drop nbits (bits_of ivec) @ take nbits (bits_of
      (if enc then xor_bytes (take ((nbits + 7) div 8) inp) (take ((nbits + 7) div 8) (block ivec)) else inp))"
    (is "\<exists>ivec'. _ \<and> _ \<and> _ = ?reg")
proof -
  let ?num = "(nbits + 7) div 8"
  have num: "?num \<le> 16" using n by linarith
  have lb: "length (block ivec) = 16" using blk iv by (simp add: is_block_fn_def)
  let ?out = "xor_bytes (take ?num inp) (take ?num (block ivec))"
  have out: "map (\<lambda>n. inp ! n XOR block ivec ! n) [0..<?num] = ?out"
    using inp num lb by (intro nth_equalityI) (simp_all add: nth_xor_bytes)
  define c where "c = (if enc then ?out else take ?num inp)"
  have lc: "length c = ?num" using inp num lb by (simp add: c_def)
  have ov: "overwrite (map Some ivec @ replicate 17 None) 16 (map Some c) = map Some (ivec @ c) @ replicate (17 - ?num) None"
    using iv num lc by (simp add: overwrite_def)
  have bits: "take nbits (bits_of (if enc then ?out else inp)) = take nbits (bits_of c)"
  proof -
    have "take nbits (bits_of (take ?num inp)) = take nbits (bits_of inp)"
      unfolding take_bits_of[symmetric] by (simp add: min_def) linarith
    then show ?thesis by (simp add: c_def)
  qed
  have nb: "nbits \<le> 8 * length c" unfolding lc by linarith
  note sh = shift_bits[OF iv nb n(2)]
  let ?n = "nbits div 8"
  show ?thesis
  proof (cases "nbits mod 8 = 0")
    case True
    then have n8: "8 * ?n = nbits" "?n = ?num" by auto
    let ?iv = "take 16 (drop ?n (ivec @ c))"
    have "length (drop ?n (ivec @ c)) = 16" using iv lc n8(2) by (simp only: length_drop length_append)
    then have "length ?iv = 16" by (simp only: length_take)
    have "take 16 (drop ?n (map Some (ivec @ c) @ replicate (17 - ?num) None)) = map Some ?iv"
      using iv lc n8(2) by (simp flip: take_map drop_map)
    then have "cfbr_encrypt_block inp nbits ivec enc block = Some (?out, ?iv)"
      using n True ov lc unfolding cfbr_encrypt_block_def Let_def out c_def[symmetric] by (simp del: map_append)
    moreover have "bits_of ?iv = take 128 (drop nbits (bits_of (ivec @ c)))"
      using take_bits_of[of 16 "drop ?n (ivec @ c)"] drop_bits_of[of ?n "ivec @ c"] n8(1) by simp
    then have "bits_of ?iv = ?reg" unfolding sh bits .
    ultimately show ?thesis using \<open>length ?iv = 16\<close> by blast
  next
    case False
    let ?r = "nbits mod 8"
    have r: "0 < ?r" "?r < 8" "nbits = 8 * ?n + ?r" using False by simp_all
    have r4: "?num = ?n + 1"
    proof -
      have "8 * q + m + 7 = 8 * (q + 1) + (m - 1)" if "0 < m" for q m :: nat using that by simp
      from this[OF r(1), of ?n] have e: "nbits + 7 = 8 * (?n + 1) + (?r - 1)" using r(3) by simp
      show ?thesis unfolding e using r(2) by (intro word_index) simp
    qed
    let ?os = "ivec @ c"
    let ?iv = "map (\<lambda>n. push_bit ?r (?os ! (n + ?n)) OR drop_bit (8 - ?r) (?os ! (n + ?n + 1))) [0..<16]"
    have los: "length ?os = 16 + ?n + 1" using iv lc r4 by simp
    have "map (ovec_shift (map Some ?os @ replicate (17 - ?num) None) ?n ?r) [0..<16] = map Some ?iv"
    proof (rule nth_equalityI)
      fix i assume "i < length (map (ovec_shift (map Some ?os @ replicate (17 - ?num) None) ?n ?r) [0..<16])"
      then have i: "i < 16" by simp
      then have "i + ?n + 1 < length ?os" using los by simp
      then show "map (ovec_shift (map Some ?os @ replicate (17 - ?num) None) ?n ?r) [0..<16] ! i = map Some ?iv ! i"
        using i by (simp add: ovec_shift_def nth_append del: map_append length_append)
    qed simp
    then have "read_all (map (ovec_shift (map Some ?os @ replicate (17 - ?num) None) ?n ?r) [0..<16]) = Some ?iv"
      by (simp only: read_all_Some)
    then have "cfbr_encrypt_block inp nbits ivec enc block = Some (?out, ?iv)"
      using n False ov unfolding cfbr_encrypt_block_def Let_def out c_def[symmetric] by (simp del: map_append)
    moreover have "bits_of ?iv = take 128 (drop nbits (bits_of ?os))"
      using map_byte_shift[OF los r(1,2)] unfolding r(3)[symmetric] .
    then have "bits_of ?iv = ?reg" unfolding sh bits .
    moreover have "length ?iv = 16" by simp
    ultimately show ?thesis by blast
  qed
qed

section \<open>The modes of SP 800-38A\<close>

text \<open>The bytes of a sequence of bits, and a block function on bits.\<close>

definition bytes_of :: "bool list \<Rightarrow> u8 list" where
  "bytes_of bs = map (\<lambda>i. horner_sum of_bool 2 (rev (take 8 (drop (8 * i) bs)))) [0..<length bs div 8]"

lemma bytes_of_bits_of [simp]: "bytes_of (bits_of xs) = xs"
proof (rule nth_equalityI)
  fix i assume "i < length (bytes_of (bits_of xs))"
  then have i: "i < length xs" by (simp add: bytes_of_def)
  have "take 8 (drop (8 * i) (bits_of xs)) = bits_of (take 1 (drop i xs))"
    using take_bits_of[of 1 "drop i xs"] by (simp add: drop_bits_of)
  then have t: "take 8 (drop (8 * i) (bits_of xs)) = byte_bits (xs ! i)"
    using i by (simp add: take_Suc_conv_app_nth hd_drop_conv_nth)
  have "bytes_of (bits_of xs) ! i = horner_sum of_bool 2 (rev (byte_bits (xs ! i)))"
    using i t by (simp add: bytes_of_def)
  also have "\<dots> = xs ! i"
  proof (rule bit_word_eqI)
    fix n assume "n < LENGTH(8)"
    then have "n < 8" by simp
    then show "bit (horner_sum of_bool 2 (rev (byte_bits (xs ! i))) :: u8) n = bit (xs ! i) n"
      using nth_upt[of 0 "7 - n" 8] by (simp add: bit_horner_sum_bit_word_iff rev_nth byte_bits_def)
  qed
  finally show "bytes_of (bits_of xs) ! i = xs ! i" .
qed (simp add: bytes_of_def)

definition bit_block :: "block_fn \<Rightarrow> bool list \<Rightarrow> bool list" where
  "bit_block block reg = bits_of (block (bytes_of reg))"

definition xor_bits :: "bool list \<Rightarrow> bool list \<Rightarrow> bool list" where
  "xor_bits a b = map2 (\<noteq>) a b"

text \<open>
  Cipher feedback with segments of \<open>s\<close> bits: a segment is combined with the first \<open>s\<close> bits of the
  encrypted register, and the register drops \<open>s\<close> bits in front and takes in the ciphertext
  segment behind.
\<close>

fun cfb_spec :: "(bool list \<Rightarrow> bool list) \<Rightarrow> nat \<Rightarrow> bool \<Rightarrow> bool list \<Rightarrow> bool list list \<Rightarrow> bool list list \<times> bool list" where
  "cfb_spec E s enc reg [] = ([], reg)"
| "cfb_spec E s enc reg (p # ps) =
     (let q = xor_bits p (take s (E reg));
          (qs, reg') = cfb_spec E s enc (drop s reg @ (if enc then q else p)) ps
      in (q # qs, reg'))"

lemma byte_bits_xor: "byte_bits (a XOR b) = xor_bits (byte_bits a) (byte_bits b)"
  by (simp add: xor_bits_def byte_bits_def bit_xor_iff map2_map_map)

lemma bits_of_xor: "bits_of (xor_bytes a b) = xor_bits (bits_of a) (bits_of b)" if "length a = length b"
  using that by (induction a b rule: list_induct2) (simp_all add: xor_bytes_def byte_bits_xor xor_bits_def zip_append)

lemma cfb8_loop_eq:
  assumes blk: "is_block_fn block"
  shows "length ivec = 16 \<Longrightarrow> \<exists>out ivec'. cfb8_loop xs ivec enc block = Some (out, ivec') \<and> length ivec' = 16 \<and>
    cfb_spec (bit_block block) 8 enc (bits_of ivec) (map byte_bits xs) = (map byte_bits out, bits_of ivec')"
proof (induction xs arbitrary: ivec)
  case Nil
  then show ?case by simp
next
  case (Cons x xs)
  have lb: "length (block ivec) = 16" using blk Cons.prems by (simp add: is_block_fn_def)
  then obtain b bs where b: "block ivec = b # bs" by (cases "block ivec") simp_all
  from cfbr_encrypt_block_eq[OF blk Cons.prems, of 8 "[x]" enc] obtain iv1 where
    c: "cfbr_encrypt_block [x] 8 ivec enc block = Some ([x XOR b], iv1)" "length iv1 = 16"
    "bits_of iv1 = drop 8 (bits_of ivec) @ byte_bits (if enc then x XOR b else x)"
    by (auto simp: b xor_bytes_def)
  from Cons.IH[OF c(2)] obtain out iv2 where i: "cfb8_loop xs iv1 enc block = Some (out, iv2)" "length iv2 = 16"
    "cfb_spec (bit_block block) 8 enc (bits_of iv1) (map byte_bits xs) = (map byte_bits out, bits_of iv2)" by blast
  have e: "take 8 (bit_block block (bits_of ivec)) = byte_bits b" by (simp add: bit_block_def b)
  have "(if enc then byte_bits (x XOR b) else byte_bits x) = byte_bits (if enc then x XOR b else x)" by simp
  then show ?case using c i e by (simp add: byte_bits_xor[symmetric])
qed

lemma cfb_spec_length:
  "cfb_spec E s enc reg ps = (qs, reg') \<Longrightarrow> length qs = length ps"
  by (induction ps arbitrary: reg qs) (auto simp: Let_def split: prod.splits)

lemma and_bit_neq_0: "(a :: u8) AND push_bit n 1 \<noteq> 0 \<longleftrightarrow> bit a n"
  by (simp add: push_bit_of_1 and_exp_eq_0_iff_not_bit)

text \<open>Storing one bit of the output.\<close>

lemma store_bit:
  assumes "n < 8 * length out"
  shows "bits_of (out[n div 8 := (out ! (n div 8) AND NOT (push_bit (7 - n mod 8) 1)) OR drop_bit (n mod 8) (d AND 0x80)])
    = (bits_of out)[n := bit d 7]" (is "bits_of ?o = _")
proof (rule nth_equalityI)
  fix i assume "i < length (bits_of ?o)"
  then have i: "i < 8 * length out" "i div 8 < length out" by simp_all
  have d80: "bit (d AND 0x80) m \<longleftrightarrow> m = 7 \<and> bit d 7" for m
  proof -
    have "(0x80 :: u8) = 2 ^ 7" by simp
    then have "bit (0x80 :: u8) m \<longleftrightarrow> bit ((2 :: u8) ^ 7) m" by (simp only:)
    then have "bit (0x80 :: u8) m \<longleftrightarrow> m = 7" by (simp only: bit_exp_iff) auto
    then show ?thesis unfolding bit_and_iff by blast
  qed
  show "bits_of ?o ! i = (bits_of out)[n := bit d 7] ! i"
  proof (cases "i div 8 = n div 8")
    case False
    then have "i \<noteq> n" by blast
    then show ?thesis using False i by (simp add: nth_bits_of)
  next
    case True
    have lt: "n div 8 < length out" using assms by simp
    have "i = n \<longleftrightarrow> i mod 8 = n mod 8" using True by (metis div_mult_mod_eq)
    moreover have "n mod 8 + (7 - i mod 8) = 7 \<longleftrightarrow> i mod 8 = n mod 8"
    proof -
      have "i mod 8 < 8" by simp
      then show ?thesis by linarith
    qed
    moreover have "7 - n mod 8 = 7 - i mod 8 \<longleftrightarrow> i mod 8 = n mod 8"
    proof -
      have "i mod 8 < 8" "n mod 8 < 8" by simp_all
      then show ?thesis by linarith
    qed
    ultimately have eqs: "n mod 8 + (7 - i mod 8) = 7 \<longleftrightarrow> i = n" "7 - i mod 8 = 7 - n mod 8 \<longleftrightarrow> i = n" by auto
    have "bit (push_bit k (1 :: u8)) x \<longleftrightarrow> x = k" if "x < 8" for x k
      using that by (auto simp only: bit_push_bit_iff bit_1_iff possible_bit_word) auto
    then have pb: "bit (push_bit (7 - n mod 8) (1 :: u8)) (7 - i mod 8) \<longleftrightarrow> i = n" using eqs(2) by simp
    have "bits_of ?o ! i = bit (?o ! (i div 8)) (7 - i mod 8)" using i by (intro nth_bits_of) simp
    also have "\<dots> = (bit (out ! (n div 8)) (7 - i mod 8) \<and> i \<noteq> n \<or> i = n \<and> bit d 7)"
    proof -
      have "?o ! (i div 8) = (out ! (n div 8) AND NOT (push_bit (7 - n mod 8) 1)) OR drop_bit (n mod 8) (d AND 0x80)"
        using True lt by simp
      moreover have "bit (a AND NOT b :: u8) x \<longleftrightarrow> bit a x \<and> \<not> bit b x" for a b x
        using bit_imp_le_length[of a x] by (auto simp only: bit_and_iff bit_not_iff possible_bit_word)
      ultimately show ?thesis
        by (simp only: bit_or_iff bit_drop_bit_eq o_apply d80 pb eqs(1))
    qed
    also have "\<dots> = (bits_of out)[n := bit d 7] ! i"
    proof (cases "i = n")
      case True
      then show ?thesis using assms by simp
    next
      case False
      have "bits_of out ! i = bit (out ! (n div 8)) (7 - i mod 8)"
        unfolding \<open>i div 8 = n div 8\<close>[symmetric] by (rule nth_bits_of[OF i(1)])
      then show ?thesis using False by (simp only: nth_list_update_neq[OF False[symmetric]]) simp
    qed
    finally show ?thesis .
  qed
qed simp

lemma overwrite_update: "n < length xs \<Longrightarrow> n + 1 + length ys \<le> length xs \<Longrightarrow>
    overwrite (xs[n := x]) (n + 1) ys = overwrite xs n (x # ys)"
  by (simp add: overwrite_def take_Suc_conv_app_nth list_update_append)

lemma cfb1_loop_eq:
  assumes blk: "is_block_fn block"
  shows "length ivec = 16 \<Longrightarrow> n + k \<le> 8 * length inp \<Longrightarrow> n + k \<le> 8 * length out \<Longrightarrow>
    \<exists>out' ivec' os. cfb1_loop inp out n k ivec enc block = Some (out', ivec') \<and> length ivec' = 16 \<and>
      length out' = length out \<and> length os = k \<and>
      cfb_spec (bit_block block) 1 enc (bits_of ivec) (map (\<lambda>b. [b]) (take k (drop n (bits_of inp)))) =
        (map (\<lambda>b. [b]) os, bits_of ivec') \<and>
      bits_of out' = overwrite (bits_of out) n os"
proof (induction k arbitrary: out n ivec)
  case 0
  then show ?case by simp
next
  case (Suc k)
  have lb: "length (block ivec) = 16" using blk Suc.prems by (simp add: is_block_fn_def)
  then obtain b bs where b: "block ivec = b # bs" by (cases "block ivec") simp_all
  let ?p = "bits_of inp ! n"
  let ?c = "if inp ! (n div 8) AND push_bit (7 - n mod 8) 1 \<noteq> 0 then 0x80 else 0 :: u8"
  have p: "?p = bit (inp ! (n div 8)) (7 - n mod 8)" using Suc.prems by (intro nth_bits_of) simp
  have c: "take 1 (byte_bits ?c) = [?p]"
    unfolding and_bit_neq_0 p by (simp add: byte_bits_def upt_conv_Cons)
  have c7: "bit ?c 7 = ?p" unfolding and_bit_neq_0 p by simp
  from cfbr_encrypt_block_eq[OF blk Suc.prems(1), of 1 "[?c]" enc] obtain iv1 where
    e: "cfbr_encrypt_block [?c] 1 ivec enc block = Some ([?c XOR b], iv1)" "length iv1 = 16"
    "bits_of iv1 = drop 1 (bits_of ivec) @ take 1 (byte_bits (if enc then ?c XOR b else ?c))"
    by (auto simp: b xor_bytes_def simp del: take_Suc)
  let ?q = "bit (?c XOR b) 7"
  have t1: "take 1 (byte_bits x) = [bit x 7]" for x by (simp add: byte_bits_def upt_conv_Cons)
  have x1: "xor_bits [x] [y] = [x \<noteq> y]" for x y by (simp add: xor_bits_def)
  have q: "xor_bits [?p] (take 1 (bit_block block (bits_of ivec))) = [?q]"
    using c7 unfolding bit_block_def bytes_of_bits_of b bits_of_simps take_append t1 bit_xor_iff
    by (simp add: x1)
  let ?out = "out[n div 8 := (out ! (n div 8) AND NOT (push_bit (7 - n mod 8) 1)) OR
       drop_bit (n mod 8) ((?c XOR b) AND 0x80)]"
  have o: "bits_of ?out = (bits_of out)[n := ?q]" using Suc.prems by (intro store_bit) simp
  from Suc.IH[OF e(2), of "n + 1" ?out] Suc.prems obtain out' iv2 os where
    i: "cfb1_loop inp ?out (n + 1) k iv1 enc block = Some (out', iv2)" "length iv2 = 16"
      "length out' = length out" "length os = k"
      "cfb_spec (bit_block block) 1 enc (bits_of iv1) (map (\<lambda>b. [b]) (take k (drop (n + 1) (bits_of inp)))) =
        (map (\<lambda>b. [b]) os, bits_of iv2)"
      "bits_of out' = overwrite (bits_of ?out) (n + 1) os"
    by auto
  have reg: "bits_of iv1 = drop 1 (bits_of ivec) @ (if enc then [?q] else [?p])"
    unfolding e(3) t1 using c7 by simp
  have in': "take (Suc k) (drop n (bits_of inp)) = ?p # take k (drop (n + 1) (bits_of inp))"
    using Suc.prems by (simp flip: Cons_nth_drop_Suc)
  have "cfb_spec (bit_block block) 1 enc (bits_of ivec) (map (\<lambda>b. [b]) (take (Suc k) (drop n (bits_of inp)))) =
      (map (\<lambda>b. [b]) (?q # os), bits_of iv2)"
    unfolding in' list.map cfb_spec.simps Let_def q reg[symmetric] i(5) by simp
  moreover have "bits_of out' = overwrite (bits_of out) n (?q # os)"
    unfolding i(6) o using i(4) Suc.prems by (intro overwrite_update) simp_all
  moreover have "cfb1_loop inp out n (Suc k) ivec enc block = Some (out', iv2)"
    using e(1) i(1) by simp
  ultimately show ?case using i(2-4) by (intro exI[of _ out'] exI[of _ iv2] exI[of _ "?q # os"]) simp
qed

lemma cfb_spec_inverse:
  "cfb_spec E s True reg ps = (cs, reg') \<Longrightarrow> \<forall>p\<in>set ps. length p = s \<Longrightarrow> length reg = n \<Longrightarrow> s \<le> n \<Longrightarrow>
    (\<And>r. length r = n \<Longrightarrow> length (E r) = n) \<Longrightarrow> cfb_spec E s False reg cs = (ps, reg')"
proof (induction ps arbitrary: reg cs)
  case Nil
  then show ?case by simp
next
  case (Cons p ps)
  let ?q = "xor_bits p (take s (E reg))"
  obtain qs where q: "cfb_spec E s True (drop s reg @ ?q) ps = (qs, reg')" "cs = ?q # qs"
    using Cons.prems(1) by (auto simp: Let_def split: prod.splits)
  have l: "length (E reg) = n" "length p = s" using Cons.prems by simp_all
  then have "xor_bits ?q (take s (E reg)) = p" "length (drop s reg @ ?q) = n"
    using Cons.prems(3,4) by (auto intro!: nth_equalityI simp: xor_bits_def)
  then show ?case using Cons.IH[OF q(1)] Cons.prems(2,4,5) q(2) by simp
qed

lemma length_bit_block: "is_block_fn block \<Longrightarrow> length r = 128 \<Longrightarrow> length (bit_block block r) = 128"
  by (simp add: is_block_fn_def bit_block_def bytes_of_def)

section \<open>What the functions guarantee\<close>

text \<open>
  Property C24: one-bit CFB is the mode of NIST SP 800-38A. For any number of bits, multiple of
  eight or not, the function replaces the first \<open>bits\<close> bits of the output by the CFB-1
  combination of the input bits with the encrypted register and leaves the other bits of the
  output as they were, and \<open>ivec\<close> is the register shifted by the ciphertext bits.
\<close>

theorem CRYPTO_cfb128_1_encrypt_sp80038a:
  assumes "is_block_fn block" "length ivec = 16" "bits \<le> 8 * length inp" "bits \<le> 8 * length out"
  shows "\<exists>out' ivec'. CRYPTO_cfb128_1_encrypt inp out bits ivec 0 enc block = Some (out', ivec') \<and>
    length out' = length out \<and>
    cfb_spec (bit_block block) 1 enc (bits_of ivec) (map (\<lambda>b. [b]) (take bits (bits_of inp))) =
      (map (\<lambda>b. [b]) (take bits (bits_of out')), bits_of ivec') \<and>
    drop bits (bits_of out') = drop bits (bits_of out)"
proof -
  from cfb1_loop_eq[OF assms(1,2), of 0 bits inp out enc] assms(3,4) obtain out' ivec' os where
    l: "cfb1_loop inp out 0 bits ivec enc block = Some (out', ivec')" "length out' = length out" "length os = bits"
      "cfb_spec (bit_block block) 1 enc (bits_of ivec) (map (\<lambda>b. [b]) (take bits (bits_of inp))) =
        (map (\<lambda>b. [b]) os, bits_of ivec')" "bits_of out' = overwrite (bits_of out) 0 os"
    by auto
  have "take bits (bits_of out') = os" "drop bits (bits_of out') = drop bits (bits_of out)"
    using l(3) unfolding l(5) by (simp_all add: overwrite_def)
  then show ?thesis using l by (simp add: CRYPTO_cfb128_1_encrypt_def)
qed

theorem CRYPTO_cfb128_1_encrypt_sp80038a_witness:
  "\<exists>out' ivec'. CRYPTO_cfb128_1_encrypt [0xa5] [0xff] 3 (replicate 16 3) 0 True rev = Some (out', ivec') \<and>
    length out' = length [0xff :: u8] \<and>
    cfb_spec (bit_block rev) 1 True (bits_of (replicate 16 3)) (map (\<lambda>b. [b]) (take 3 (bits_of [0xa5]))) =
      (map (\<lambda>b. [b]) (take 3 (bits_of out')), bits_of ivec') \<and>
    drop 3 (bits_of out') = drop 3 (bits_of [0xff])"
  by (rule CRYPTO_cfb128_1_encrypt_sp80038a) (simp_all add: is_block_fn_def)

text \<open>
  The eight-bit mode is CFB-8, and decryption undoes encryption in both.
\<close>

lemma CRYPTO_cfb128_8_encrypt_sp80038a:
  assumes "is_block_fn block" "length ivec = 16"
  shows "\<exists>out ivec'. CRYPTO_cfb128_8_encrypt xs ivec 0 enc block = Some (out, ivec') \<and>
    cfb_spec (bit_block block) 8 enc (bits_of ivec) (map byte_bits xs) = (map byte_bits out, bits_of ivec')"
  using cfb8_loop_eq[OF assms, of xs enc] by (auto simp: CRYPTO_cfb128_8_encrypt_def)

lemma cfb8_roundtrip:
  assumes "is_block_fn block" "length ivec = 16"
  shows "\<exists>c ivec'. CRYPTO_cfb128_8_encrypt xs ivec 0 True block = Some (c, ivec') \<and>
    CRYPTO_cfb128_8_encrypt c ivec 0 False block = Some (xs, ivec')"
proof -
  from cfb8_loop_eq[OF assms, of xs True] obtain c iv1 where c: "cfb8_loop xs ivec True block = Some (c, iv1)"
    "length iv1 = 16"
    "cfb_spec (bit_block block) 8 True (bits_of ivec) (map byte_bits xs) = (map byte_bits c, bits_of iv1)" by blast
  from cfb8_loop_eq[OF assms, of c False] obtain d iv2 where d: "cfb8_loop c ivec False block = Some (d, iv2)"
    "length iv2 = 16"
    "cfb_spec (bit_block block) 8 False (bits_of ivec) (map byte_bits c) = (map byte_bits d, bits_of iv2)" by blast
  have "cfb_spec (bit_block block) 8 False (bits_of ivec) (map byte_bits c) = (map byte_bits xs, bits_of iv1)"
    using assms length_bit_block by (intro cfb_spec_inverse[OF c(3), of 128]) simp_all
  then have "map byte_bits d = map byte_bits xs" "iv2 = iv1"
    using c(2) d(2,3) by (auto intro: bits_of_inject)
  moreover from this(1) have "length d = length xs" by (metis length_map)
  ultimately have "d = xs" by (intro bits_of_inject) (simp_all add: bits_of_def)
  then show ?thesis using c(1) d(1) \<open>iv2 = iv1\<close> by (simp add: CRYPTO_cfb128_8_encrypt_def)
qed

end
