(* ===== verification/Md32.thy ===== *)
theory Md32
  imports Prelude "HOL-Library.Monad_Syntax"
begin

text \<open>
  The block collector of the 32-bit digests, \<^verbatim>\<open>crypto/fipsmodule/digest/md32_common.h\<close>. The
  header is included once per digest with \<^verbatim>\<open>HASH_BLOCK_DATA_ORDER\<close> and the byte order set by
  macros; here both are arguments, and what the collector needs of the block function is
  the locale \<open>md32\<close>. Its theorems: any sequence of updates refines the concatenation of the
  pieces, and the final call computes the iterated hash of the padded message.
\<close>

section \<open>The collector\<close>

datatype data_order = DATA_ORDER_IS_BIG_ENDIAN | DATA_ORDER_IS_LITTLE_ENDIAN

text \<open>\<open>hc_md_len\<close> is there for SHA-224 and SHA-256 only.\<close>

record hash_ctx =
  hc_h :: "u32 list"
  hc_Nl :: u32
  hc_Nh :: u32
  hc_data :: "u8 list"
  hc_num :: nat
  hc_md_len :: nat

text \<open>
  A block function takes the state, the data and the number of blocks; it has no result when it
  reads past the data.
\<close>

type_synonym block_order = "u32 list \<Rightarrow> u8 list \<Rightarrow> nat \<Rightarrow> u32 list option"

definition HASH_CBLOCK :: nat where
  "HASH_CBLOCK = 64"

fun HOST_c2l :: "data_order \<Rightarrow> u8 list \<Rightarrow> u32" where
  "HOST_c2l DATA_ORDER_IS_BIG_ENDIAN c =
     push_bit 24 (ucast (c ! 0)) OR push_bit 16 (ucast (c ! 1)) OR push_bit 8 (ucast (c ! 2)) OR ucast (c ! 3)"
| "HOST_c2l DATA_ORDER_IS_LITTLE_ENDIAN c =
     ucast (c ! 0) OR push_bit 8 (ucast (c ! 1)) OR push_bit 16 (ucast (c ! 2)) OR push_bit 24 (ucast (c ! 3))"

fun HOST_l2c :: "data_order \<Rightarrow> u32 \<Rightarrow> u8 list" where
  "HOST_l2c DATA_ORDER_IS_BIG_ENDIAN l =
     [ucast (drop_bit 24 l AND 0xff), ucast (drop_bit 16 l AND 0xff), ucast (drop_bit 8 l AND 0xff), ucast (l AND 0xff)]"
| "HOST_l2c DATA_ORDER_IS_LITTLE_ENDIAN l =
     [ucast (l AND 0xff), ucast (drop_bit 8 l AND 0xff), ucast (drop_bit 16 l AND 0xff), ucast (drop_bit 24 l AND 0xff)]"

text \<open>The end of \<^verbatim>\<open>HASH_UPDATE\<close>: whole blocks straight from the input, and the rest stored.\<close>

definition hash_rest :: "block_order \<Rightarrow> hash_ctx \<Rightarrow> u8 list \<Rightarrow> hash_ctx option" where
  "hash_rest block c data = do {
     let n = length data div HASH_CBLOCK;
     (c, data) \<leftarrow> (if n > 0
       then do {
         h \<leftarrow> block (hc_h c) data n;
         Some (c\<lparr>hc_h := h\<rparr>, drop (n * HASH_CBLOCK) data) }
       else Some (c, data));
     Some (if length data \<noteq> 0
       then c\<lparr>hc_num := length data, hc_data := overwrite (hc_data c) 0 data\<rparr>
       else c) }"

text \<open>The bit count, in two words.\<close>

definition hash_count :: "hash_ctx \<Rightarrow> nat \<Rightarrow> hash_ctx" where
  "hash_count c len =
     (let l = hc_Nl c + push_bit 3 (of_nat len);
          c = (if l < hc_Nl c then c\<lparr>hc_Nh := hc_Nh c + 1\<rparr> else c)
      in c\<lparr>hc_Nh := hc_Nh c + of_nat (len div 2 ^ 29), hc_Nl := l\<rparr>)"

definition HASH_UPDATE :: "block_order \<Rightarrow> hash_ctx \<Rightarrow> u8 list \<Rightarrow> hash_ctx option" where
  "HASH_UPDATE block c data =
     (let len = length data
      in if len = 0 then Some c
         else let c = hash_count c len; n = hc_num c
           in if n \<noteq> 0
              then if len \<ge> HASH_CBLOCK \<or> size_add len n \<ge> HASH_CBLOCK
                then do {
                  C_assert (n \<le> HASH_CBLOCK);
                  h \<leftarrow> block (hc_h c) (overwrite (hc_data c) n (take (HASH_CBLOCK - n) data)) 1;
                  hash_rest block (c\<lparr>hc_h := h, hc_num := 0, hc_data := replicate HASH_CBLOCK 0\<rparr>)
                    (drop (HASH_CBLOCK - n) data) }
                else Some (c\<lparr>hc_data := overwrite (hc_data c) n data, hc_num := n + len\<rparr>)
              else hash_rest block c data)"

definition HASH_TRANSFORM :: "block_order \<Rightarrow> hash_ctx \<Rightarrow> u8 list \<Rightarrow> hash_ctx option" where
  "HASH_TRANSFORM block c data = do {
     h \<leftarrow> block (hc_h c) data 1;
     Some (c\<lparr>hc_h := h\<rparr>) }"

text \<open>\<^verbatim>\<open>HASH_FINAL\<close> up to \<^verbatim>\<open>HASH_MAKE_STRING\<close>, which belongs to the digest.\<close>

definition HASH_FINAL :: "data_order \<Rightarrow> block_order \<Rightarrow> hash_ctx \<Rightarrow> hash_ctx option" where
  "HASH_FINAL order block c = do {
     let n = hc_num c;
     C_assert (n < HASH_CBLOCK);
     let d = overwrite (hc_data c) n [0x80];
     let n = n + 1;
     (h, d, n) \<leftarrow> (if n > HASH_CBLOCK - 8
       then do {
         let d = overwrite d n (replicate (HASH_CBLOCK - n) 0);
         h \<leftarrow> block (hc_h c) d 1;
         Some (h, d, 0) }
       else Some (hc_h c, d, n));
     let d = overwrite d n (replicate (HASH_CBLOCK - 8 - n) 0);
     let d = overwrite d (HASH_CBLOCK - 8) (case order of
           DATA_ORDER_IS_BIG_ENDIAN \<Rightarrow> HOST_l2c order (hc_Nh c) @ HOST_l2c order (hc_Nl c)
         | DATA_ORDER_IS_LITTLE_ENDIAN \<Rightarrow> HOST_l2c order (hc_Nl c) @ HOST_l2c order (hc_Nh c));
     h \<leftarrow> block h d 1;
     Some (c\<lparr>hc_h := h, hc_num := 0, hc_data := replicate HASH_CBLOCK 0\<rparr>) }"

text \<open>
  The loop \<^verbatim>\<open>while (num--)\<close> of the block functions, \<open>one\<close> being its body: the block read and the
  state.
\<close>

fun while_num :: "nat \<Rightarrow> ('s \<Rightarrow> u8 list \<Rightarrow> 's) \<Rightarrow> 's \<Rightarrow> u8 list \<Rightarrow> nat \<Rightarrow> 's option" where
  "while_num k one st data 0 = Some st"
| "while_num k one st data (Suc num) =
     (if length data < k then None else while_num k one (one st (take k data)) (drop k data) num)"

text \<open>Any sequence of updates.\<close>

fun feed :: "('c \<Rightarrow> u8 list \<Rightarrow> 'c option) \<Rightarrow> 'c \<Rightarrow> u8 list list \<Rightarrow> 'c option" where
  "feed update c [] = Some c"
| "feed update c (p # ps) = do { c \<leftarrow> update c p; feed update c ps }"

section \<open>Iterated hashing\<close>

text \<open>The reference: padding as in FIPS 180-4 and RFC 1321, and a fold over the blocks.\<close>

fun chunks :: "nat \<Rightarrow> 'a list \<Rightarrow> 'a list list" where
  "chunks k xs = (if k = 0 \<or> length xs < k then [] else take k xs # chunks k (drop k xs))"

declare chunks.simps [simp del]

definition count_bytes :: "data_order \<Rightarrow> nat \<Rightarrow> u8 list" where
  "count_bytes order len =
     (case order of DATA_ORDER_IS_BIG_ENDIAN \<Rightarrow> be_bytes 8 (8 * len)
                  | DATA_ORDER_IS_LITTLE_ENDIAN \<Rightarrow> rev (be_bytes 8 (8 * len)))"

definition md_pad :: "data_order \<Rightarrow> nat \<Rightarrow> u8 list" where
  "md_pad order len = [0x80] @ replicate ((119 - len mod 64) mod 64) 0 @ count_bytes order len"

definition md_hash :: "data_order \<Rightarrow> ('s \<Rightarrow> u8 list \<Rightarrow> 's) \<Rightarrow> 's \<Rightarrow> u8 list \<Rightarrow> 's" where
  "md_hash order one iv msg = foldl one iv (chunks 64 (msg @ md_pad order (length msg)))"

section \<open>Chunks\<close>

lemma chunks_short [simp]: "length xs < k \<Longrightarrow> chunks k xs = []"
  by (simp add: chunks.simps)

lemma chunks_Cons: "0 < k \<Longrightarrow> length b = k \<Longrightarrow> chunks k (b @ xs) = b # chunks k xs"
  by (simp add: chunks.simps[of k "b @ xs"])

lemma chunks_single: "0 < k \<Longrightarrow> length b = k \<Longrightarrow> chunks k b = [b]"
  using chunks_Cons[of k b "[]"] by simp

lemma chunks_append:
  "0 < k \<Longrightarrow> k dvd length xs \<Longrightarrow> chunks k (xs @ ys) = chunks k xs @ chunks k ys"
proof (induction k xs rule: chunks.induct)
  case (1 k xs)
  show ?case
  proof (cases "length xs < k")
    case True
    then show ?thesis using 1 by (auto dest: dvd_imp_le)
  next
    case False
    then have e: "xs = take k xs @ drop k xs" "length (take k xs) = k" by simp_all
    have "chunks k (drop k xs @ ys) = chunks k (drop k xs) @ chunks k ys"
      using 1 False by (intro "1.IH") (auto simp: dvd_minus_self)
    then show ?thesis
      using chunks_Cons[OF 1(2) e(2), of "drop k xs"] chunks_Cons[OF 1(2) e(2), of "drop k xs @ ys"] e(1)
      by (metis append.assoc append_Cons)
  qed
qed

lemma chunks_take: "0 < k \<Longrightarrow> chunks k (take (k * (length xs div k)) xs) = chunks k xs"
proof -
  assume k: "0 < k"
  let ?m = "k * (length xs div k)"
  have "?m \<le> length xs" by simp
  then have "chunks k (take ?m xs @ drop ?m xs) = chunks k (take ?m xs) @ chunks k (drop ?m xs)"
    using k by (intro chunks_append) simp_all
  moreover have "length (drop ?m xs) < k" using k by (simp add: minus_mult_div_eq_mod)
  ultimately show ?thesis by simp
qed

lemma while_num_fold:
  "0 < k \<Longrightarrow> k * n \<le> length data \<Longrightarrow> while_num k one st data n = Some (foldl one st (chunks k (take (k * n) data)))"
proof (induction n arbitrary: st data)
  case (Suc n)
  have e: "take (k * Suc n) data = take k data @ take (k * n) (drop k data)" by (simp add: take_add)
  have "length (take k data) = k" using Suc.prems by simp
  then show ?case using Suc unfolding e by (simp add: chunks_Cons)
qed simp

lemma foldl_chunks_cong:
  assumes "\<And>st b. length st = n \<Longrightarrow> length b = k \<Longrightarrow> f st b = g st b"
    and "\<And>st b. length st = n \<Longrightarrow> length (g st b) = n" and "0 < k" and "length st = n"
  shows "foldl f st (chunks k data) = foldl g st (chunks k data)"
  using assms
proof (induction k data arbitrary: st rule: chunks.induct)
  case (1 k xs)
  show ?case
  proof (cases "length xs < k")
    case False
    then have "chunks k xs = take k xs # chunks k (drop k xs)"
      using "1.prems" by (simp add: chunks.simps[of k xs])
    moreover have "foldl f (g st (take k xs)) (chunks k (drop k xs)) = foldl g (g st (take k xs)) (chunks k (drop k xs))"
      using 1 False by simp
    ultimately show ?thesis using 1 False by simp
  qed simp
qed

text \<open>Only the unfinished block of what came before matters for what follows.\<close>

definition rest :: "nat \<Rightarrow> 'a list \<Rightarrow> 'a list" where
  "rest k xs = drop (k * (length xs div k)) xs"

lemma length_rest [simp]: "length (rest k xs) = length xs mod k"
  by (simp add: rest_def minus_mult_div_eq_mod)

lemma chunks_rest: "0 < k \<Longrightarrow> chunks k (xs @ ys) = chunks k xs @ chunks k (rest k xs @ ys)"
proof -
  assume k: "0 < k"
  let ?m = "k * (length xs div k)"
  have "?m \<le> length xs" by simp
  then have "chunks k (take ?m xs @ (rest k xs @ ys)) = chunks k (take ?m xs) @ chunks k (rest k xs @ ys)"
    using k by (intro chunks_append) simp_all
  moreover have "take ?m xs @ rest k xs @ ys = xs @ ys" by (simp add: rest_def)
  ultimately show ?thesis using k by (simp add: chunks_take)
qed

lemma rest_append: "k dvd length xs \<Longrightarrow> rest k (xs @ ys) = rest k ys"
  by (cases "k = 0") (auto simp: rest_def div_plus_div_distrib_dvd_left distrib_left)

lemma rest_short: "length xs < k \<Longrightarrow> rest k xs = xs"
  by (simp add: rest_def)

lemma rest_rest: "length (rest k xs @ ys) < k \<Longrightarrow> rest k (xs @ ys) = rest k xs @ ys"
proof -
  assume a: "length (rest k xs @ ys) < k"
  let ?m = "k * (length xs div k)"
  have m: "?m \<le> length xs" by simp
  have "xs @ ys = take ?m xs @ (rest k xs @ ys)" by (simp add: rest_def)
  moreover have "k dvd length (take ?m xs)" using m by simp
  ultimately show ?thesis using a by (metis rest_append rest_short)
qed

section \<open>The bit count\<close>

lemma ucast_and_ff: "(ucast ((w :: u32) AND 0xff) :: u8) = ucast w"
proof -
  have "(0xff :: u32) = mask 8" by (simp add: mask_eq_exp_minus_1)
  then show ?thesis by (simp only:) (auto simp: bit_eq_iff bit_ucast_iff bit_and_iff bit_mask_iff)
qed

lemma ucast_byte: "(ucast (drop_bit k (l :: u32) AND 0xff) :: u8) = of_nat (unat l div 2 ^ k)"
proof -
  have "(ucast (drop_bit k l AND 0xff) :: u8) = of_nat (unat (drop_bit k l))"
    by (simp only: ucast_and_ff of_nat_unat)
  moreover have "unat (drop_bit k l) = unat l div 2 ^ k" 
    using trans[OF unat_drop_bit_eq[of k l] drop_bit_eq_div[of k "unat l"]] .
  ultimately show ?thesis by simp
qed

lemma be_bytes_4: "be_bytes 4 v = [of_nat (v div 2 ^ 24), of_nat (v div 2 ^ 16), of_nat (v div 2 ^ 8), of_nat v]"
proof -
  have e: "(4 :: nat) = Suc (Suc (Suc (Suc 0)))" by simp
  show ?thesis unfolding e be_bytes.simps by (simp add: div_mult2_eq[symmetric])
qed

lemma HOST_l2c_be: "HOST_l2c DATA_ORDER_IS_BIG_ENDIAN l = be_bytes 4 (unat l)"
  using ucast_byte[of 0 l] using ucast_byte[of 0 l] ucast_byte[of 8 l] ucast_byte[of 16 l] ucast_byte[of 24 l]
  by (simp add: be_bytes_4)

lemma HOST_l2c_le: "HOST_l2c DATA_ORDER_IS_LITTLE_ENDIAN l = rev (be_bytes 4 (unat l))"
  using HOST_l2c_be[of l] by (metis HOST_l2c.simps append.simps rev.simps)

definition hash_bits :: "hash_ctx \<Rightarrow> nat" where
  "hash_bits c = unat (hc_Nh c) * 2 ^ 32 + unat (hc_Nl c)"

lemma add_mod_wraps_iff: "a < M \<Longrightarrow> b < M \<Longrightarrow> (a + b) mod M < a \<longleftrightarrow> M \<le> a + b" for a b M :: nat
  by (cases "a + b < M") (simp_all add: le_mod_geq not_less)

lemma add_div_wraps: "a < M \<Longrightarrow> b < M \<Longrightarrow> (a + b) div M = (if M \<le> a + b then 1 else 0)" for a b M :: nat
  by (simp add: div_nat_eqI)

lemma two_words:
  fixes M n q x :: nat
  assumes "0 < M"
  shows "M * ((n + x div M + q) mod M) + x mod M = ((n + q) * M + x) mod (M * M)"
proof -
  have "((n + q) * M + x) div M = n + x div M + q" using assms by simp
  then show ?thesis by (simp only: mod_mult2_eq mod_mult_self3)
qed

text \<open>A bit count in two words of any width, as every collector keeps it.\<close>

lemma two_word_count:
  fixes nl nh :: "'a :: len word" and len :: nat
  assumes "3 \<le> LENGTH('a)"
  defines "l \<equiv> nl + push_bit 3 (of_nat len)"
  shows "(unat ((if l < nl then nh + 1 else nh) + of_nat (len div 2 ^ (LENGTH('a) - 3))) * 2 ^ LENGTH('a) + unat l) =
    (unat nh * 2 ^ LENGTH('a) + unat nl + 8 * len) mod (2 ^ LENGTH('a) * 2 ^ LENGTH('a))"
proof -
  define M :: nat where "M = 2 ^ LENGTH('a)"
  let ?a = "unat nl" and ?b = "8 * len mod M" and ?q = "8 * len div M" and ?n = "unat nh"
  let ?h = "(if l < nl then nh + 1 else nh) + of_nat (len div 2 ^ (LENGTH('a) - 3))"
  have M0: "0 < M" and a: "?a < M" using unsigned_less[of nl, where 'a=nat] by (simp_all add: M_def)
  have b: "?b < M" using M0 by simp
  have om: "unat (of_nat x :: 'a word) = x mod M" for x by (simp only: unat_of_nat M_def)
  have "push_bit 3 (of_nat len :: 'a word) = of_nat (8 * len)" by (simp add: push_bit_eq_mult)
  then have "l = of_nat (?a + 8 * len)" by (simp add: l_def)
  then have l: "unat l = (?a + ?b) mod M" by (simp only: om mod_add_right_eq)
  have "(?a + ?b) mod M < ?a \<longleftrightarrow> M \<le> ?a + ?b"
    using a b by (rule add_mod_wraps_iff)
  then have lt: "l < nl \<longleftrightarrow> M \<le> ?a + ?b" by (simp only: word_less_nat_alt l)
  have carry: "(?a + ?b) div M = (if M \<le> ?a + ?b then 1 else 0)"
    using a b by (rule add_div_wraps)
  have "M = 2 ^ (3 + (LENGTH('a) - 3))" using assms(1) by (simp add: M_def)
  also have "\<dots> = 8 * 2 ^ (LENGTH('a) - 3)" by (simp only: power_add) simp
  finally have k: "len div 2 ^ (LENGTH('a) - 3) = ?q"
    using div_mult_mult1[of "8 :: nat" len "2 ^ (LENGTH('a) - 3)"] by simp
  have "?h = of_nat (?n + (?a + ?b) div M + ?q)" unfolding lt k by (simp add: carry)
  then have h: "unat ?h = (?n + (?a + ?b) div M + ?q) mod M" by (metis om)
  have "unat ?h * M + unat l = M * ((?n + (?a + ?b) div M + ?q) mod M) + (?a + ?b) mod M"
    by (simp only: h l mult.commute)
  also have "\<dots> = ((?n + ?q) * M + (?a + ?b)) mod (M * M)"
    using M0 by (rule two_words)
  also have "(?n + ?q) * M + (?a + ?b) = ?n * M + ?a + 8 * len"
    using div_mult_mod_eq[of "8 * len" M] unfolding distrib_right by linarith
  finally show ?thesis by (simp only: M_def)
qed

lemma hash_count_bits:
  "hash_bits (hash_count c len) mod 2 ^ 64 = (hash_bits c + 8 * len) mod 2 ^ 64"
  using two_word_count[of "hc_Nl c" len "hc_Nh c"] by (simp add: hash_bits_def hash_count_def Let_def split: if_splits)

lemma hash_count_fields [simp]:
  "hc_h (hash_count c len) = hc_h c" "hc_data (hash_count c len) = hc_data c"
  "hc_num (hash_count c len) = hc_num c" "hc_md_len (hash_count c len) = hc_md_len c"
  by (simp_all add: hash_count_def Let_def)

lemma hash_bits_fields [simp]:
  "hash_bits (c\<lparr>hc_h := h\<rparr>) = hash_bits c" "hash_bits (c\<lparr>hc_data := d\<rparr>) = hash_bits c"
  "hash_bits (c\<lparr>hc_num := n\<rparr>) = hash_bits c"
  by (simp_all add: hash_bits_def)

lemma hash_bits_lt: "hash_bits c < 2 ^ 64"
  using unsigned_less[of "hc_Nl c", where 'a=nat] unsigned_less[of "hc_Nh c", where 'a=nat]
  by (simp add: hash_bits_def)

lemma count_bytes_words:
  assumes "hash_bits c = 8 * len mod 2 ^ 64"
  shows "count_bytes order len = (case order of
      DATA_ORDER_IS_BIG_ENDIAN \<Rightarrow> HOST_l2c order (hc_Nh c) @ HOST_l2c order (hc_Nl c)
    | DATA_ORDER_IS_LITTLE_ENDIAN \<Rightarrow> HOST_l2c order (hc_Nl c) @ HOST_l2c order (hc_Nh c))"
proof -
  have e: "be_bytes 4 (unat (hc_Nh c)) @ be_bytes 4 (unat (hc_Nl c)) = be_bytes 8 (8 * len)"
    using be_bytes_append[of "unat (hc_Nl c)" 4 4 "unat (hc_Nh c)"] be_bytes_mod[of 8 "8 * len"]
      unsigned_less[of "hc_Nl c", where 'a=nat] assms
    by (simp add: hash_bits_def)
  then show ?thesis
    by (cases order) (simp_all only: count_bytes_def HOST_l2c_be HOST_l2c_le data_order.case e[symmetric] rev_append)
qed

section \<open>Words of a block\<close>

definition be_words :: "u8 list \<Rightarrow> u32 list" where
  "be_words b = map (\<lambda>t. of_nat (be_val (take 4 (drop (4 * t) b)))) [0..<16]"

lemma HOST_c2l_be: "4 \<le> length c \<Longrightarrow> HOST_c2l DATA_ORDER_IS_BIG_ENDIAN c = of_nat (be_val (take 4 c))"
proof -
  assume "4 \<le> length c"
  then obtain c0 c1 c2 c3 cs where c: "c = c0 # c1 # c2 # c3 # cs" by (auto simp: numeral_eq_Suc Suc_le_length_iff)
  have h1: "unat (push_bit 8 (ucast c2) OR ucast c3 :: u32) = unat c2 * 2 ^ 8 + unat c3"
    using unat_push_bit_or[of "ucast c3 :: u32" 8 "ucast c2"] unat_u8_lt[of c2] unat_u8_lt[of c3]
    by (simp add: unat_ucast_u8_u32)
  have h2: "unat (push_bit 16 (ucast c1) OR push_bit 8 (ucast c2) OR ucast c3 :: u32) =
      unat c1 * 2 ^ 16 + (unat c2 * 2 ^ 8 + unat c3)"
    using unat_push_bit_or[of "push_bit 8 (ucast c2) OR ucast c3 :: u32" 16 "ucast c1"] h1
      unat_u8_lt[of c1] unat_u8_lt[of c2] unat_u8_lt[of c3] by (simp add: unat_ucast_u8_u32)
  have "unat (push_bit 24 (ucast c0) OR push_bit 16 (ucast c1) OR push_bit 8 (ucast c2) OR ucast c3 :: u32) =
      unat c0 * 2 ^ 24 + (unat c1 * 2 ^ 16 + (unat c2 * 2 ^ 8 + unat c3))"
    using unat_push_bit_or[of "push_bit 16 (ucast c1) OR push_bit 8 (ucast c2) OR ucast c3 :: u32" 24 "ucast c0"] h2
      unat_u8_lt[of c0] unat_u8_lt[of c1] unat_u8_lt[of c2] unat_u8_lt[of c3] by (simp add: unat_ucast_u8_u32)
  then have "unat (HOST_c2l DATA_ORDER_IS_BIG_ENDIAN c) = be_val (take 4 c)"
    by (simp add: c be_val_def)
  then show ?thesis by (rule word_eq_of_nat)
qed

lemma HOST_c2l_le: "4 \<le> length c \<Longrightarrow> HOST_c2l DATA_ORDER_IS_LITTLE_ENDIAN c = of_nat (be_val (rev (take 4 c)))"
proof -
  assume "4 \<le> length c"
  then obtain c0 c1 c2 c3 cs where c: "c = c0 # c1 # c2 # c3 # cs" by (auto simp: numeral_eq_Suc Suc_le_length_iff)
  have "HOST_c2l DATA_ORDER_IS_LITTLE_ENDIAN c = HOST_c2l DATA_ORDER_IS_BIG_ENDIAN [c3, c2, c1, c0]"
    by (simp add: c or.commute or.left_commute)
  then show ?thesis using HOST_c2l_be[of "[c3, c2, c1, c0]"] by (simp add: c)
qed

text \<open>The rotation macro.\<close>

lemma ROTATE_left: "0 < n \<Longrightarrow> n < 32 \<Longrightarrow> push_bit n x OR drop_bit (32 - n) x = word_rotl n x"
  for x :: u32
proof -
  assume n: "0 < n" "n < 32"
  have "bit (push_bit n x OR drop_bit (32 - n) x) i = bit (word_rotl n x) i" if i: "i < 32" for i
  proof (cases "i < n")
    case True
    then have "(i + (32 - n)) mod 32 = 32 - n + i" using n by simp
    then show ?thesis using n i True by (simp add: bit_simps bit_word_rotl_iff)
  next
    case False
    then have "i + (32 - n) = 32 + (i - n)" using n by simp
    then have "(i + (32 - n)) mod 32 = i - n" using i by (simp only: mod_add_self1) simp
    moreover have "\<not> bit x (32 - n + i)" using False n by (auto dest: bit_imp_le_length)
    ultimately show ?thesis using n i False by (simp add: bit_simps bit_word_rotl_iff)
  qed
  then show ?thesis by (auto intro: bit_word_eqI)
qed

section \<open>The contract of a block function\<close>

text \<open>\<open>one\<close> is the compression function on one block.\<close>

locale md32 =
  fixes order :: data_order and block :: block_order and one :: "u32 list \<Rightarrow> u8 list \<Rightarrow> u32 list"
    and words :: nat
  assumes block_fold: "length st = words \<Longrightarrow> 0 < n \<Longrightarrow> 64 * n \<le> length data \<Longrightarrow>
      block st data n = Some (foldl one st (chunks 64 (take (64 * n) data)))"
    and one_length: "length st = words \<Longrightarrow> length b = 64 \<Longrightarrow> length (one st b) = words"
begin

text \<open>The state after the message \<open>msg\<close>, started from \<open>iv\<close>.\<close>

definition rep :: "u32 list \<Rightarrow> hash_ctx \<Rightarrow> u8 list \<Rightarrow> bool" where
  "rep iv c msg \<longleftrightarrow>
     length iv = words \<and> length (hc_h c) = words \<and> hc_h c = foldl one iv (chunks 64 msg) \<and>
     length (hc_data c) = 64 \<and> hc_num c = length msg mod 64 \<and>
     take (hc_num c) (hc_data c) = rest 64 msg \<and> hash_bits c = 8 * length msg mod 2 ^ 64"

lemma repD:
  assumes "rep iv c msg"
  shows "length iv = words" "hc_h c = foldl one iv (chunks 64 msg)" "length (foldl one iv (chunks 64 msg)) = words"
    "length (hc_data c) = 64" "hc_num c = length msg mod 64" "take (length msg mod 64) (hc_data c) = rest 64 msg"
    "hash_bits c = 8 * length msg mod 2 ^ 64"
  using assms unfolding rep_def by metis+

lemma foldl_length: "length st = words \<Longrightarrow> length (foldl one st (chunks 64 data)) = words"
proof (induction "64 :: nat" data arbitrary: st rule: chunks.induct)
  case (1 xs)
  show ?case
  proof (cases "length xs < 64")
    case False
    then have "chunks 64 xs = take 64 xs # chunks 64 (drop 64 xs)" by (simp add: chunks.simps[of 64 xs])
    then show ?thesis using 1(1)[of "one st (take 64 xs)"] 1(2) one_length False by simp
  qed (use 1(2) in simp)
qed

lemma block_one: "length st = words \<Longrightarrow> length b = 64 \<Longrightarrow> block st b 1 = Some (one st b)"
  using block_fold[of st 1 b] by (simp add: chunks_single)

lemma hash_rest_rep:
  assumes "length iv = words" "hc_h c = foldl one iv (chunks 64 msg)" "length (hc_data c) = 64"
    and "hc_num c = 0" "64 dvd length msg" "hash_bits c = 8 * length (msg @ data) mod 2 ^ 64"
  shows "\<exists>c'. hash_rest block c data = Some c' \<and> rep iv c' (msg @ data) \<and> hc_md_len c' = hc_md_len c"
proof -
  let ?n = "length data div 64"
  have h: "length (hc_h c) = words" using assms(1,2) foldl_length by simp
  have cat: "chunks 64 (msg @ data) = chunks 64 msg @ chunks 64 data"
    using assms(5) by (intro chunks_append) simp_all
  have r: "rest 64 (msg @ data) = drop (?n * 64) data" "length (msg @ data) mod 64 = length data mod 64"
    using assms(5) by (simp_all add: rest_append, simp_all add: rest_def mult.commute mod_add_left_eq[symmetric])
  have b: "?n > 0 \<Longrightarrow> block (hc_h c) data ?n = Some (foldl one (hc_h c) (chunks 64 data))"
    using block_fold[OF h, of ?n data] chunks_take[of 64 data] by simp
  have z: "?n = 0 \<Longrightarrow> chunks 64 data = []" by (simp add: div_eq_0_iff)
  have ld: "length data - ?n * 64 = length data mod 64" by (simp add: minus_div_mult_eq_mod)
  have lt: "length data mod 64 < 64" by simp
  show ?thesis
    using assms(1-4,6) h cat r b z ld lt foldl_length[OF h, of data]
    by (cases "?n = 0")
      (auto simp: hash_rest_def HASH_CBLOCK_def rep_def Let_def overwrite_def div_eq_0_iff mult.commute)
qed

lemma update_rep:
  assumes "rep iv c msg"
  shows "\<exists>c'. HASH_UPDATE block c data = Some c' \<and> rep iv c' (msg @ data) \<and> hc_md_len c' = hc_md_len c"
proof -
  define n where "n = length msg mod 64"
  let ?c = "hash_count c (length data)"
  have n: "n < 64" by (simp add: n_def)
  have iv: "length iv = words" and h: "hc_h c = foldl one iv (chunks 64 msg)" "length (hc_h c) = words"
    and d: "length (hc_data c) = 64" "hc_num c = n" "take n (hc_data c) = rest 64 msg"
    and bits: "hash_bits c = 8 * length msg mod 2 ^ 64"
    using repD[OF assms] by (simp_all add: n_def)
  have bits': "hash_bits ?c = 8 * length (msg @ data) mod 2 ^ 64"
    using hash_count_bits[of c "length data"] hash_bits_lt[of ?c] bits
    by (simp add: distrib_left mod_add_left_eq)
  consider "data = []" | "data \<noteq> []" "n = 0" | "data \<noteq> []" "n \<noteq> 0" "n + length data < 64"
    | "data \<noteq> []" "n \<noteq> 0" "64 \<le> n + length data" by linarith
  then show ?thesis
  proof cases
    case 1
    then show ?thesis using assms by (simp add: HASH_UPDATE_def Let_def)
  next
    case 2
    have "64 dvd length msg" using 2(2) by (simp add: n_def mod_eq_0_iff_dvd)
    then show ?thesis
      using hash_rest_rep[OF iv, of ?c msg data] h d bits' 2 by (simp add: HASH_UPDATE_def Let_def)
  next
    case 3
    then have r: "rest 64 (msg @ data) = rest 64 msg @ data" by (intro rest_rest) (simp add: n_def)
    have s: "chunks 64 (msg @ data) = chunks 64 msg"
      using chunks_rest[of 64 msg data] 3 by (simp add: n_def)
    have m: "length (msg @ data) mod 64 = n + length data"
      using 3 by (simp add: n_def mod_add_left_eq[symmetric, of "length msg"])
    have "take (n + length data) (overwrite (hc_data c) n data) = rest 64 msg @ data"
      using d take_overwrite_upto[of n "hc_data c" data] n by simp
    then show ?thesis
      using 3 h iv d n bits' r s m
      by (simp add: HASH_UPDATE_def Let_def HASH_CBLOCK_def rep_def size_add_def SIZE_MOD_def add.commute)
  next
    case 4
    let ?t = "take (64 - n) data" and ?d = "drop (64 - n) data"
    let ?b = "overwrite (hc_data c) n ?t"
    have t: "length ?t = 64 - n" using 4 by simp
    have b: "?b = rest 64 msg @ ?t" using d n t by (simp add: overwrite_def)
    have lb: "length ?b = 64" unfolding b using n t by (simp add: n_def)
    have big: "length data \<ge> HASH_CBLOCK \<or> size_add (length data) n \<ge> HASH_CBLOCK"
      using 4 n by (cases "length data < 64") (simp_all add: HASH_CBLOCK_def size_add_exact SIZE_MOD_def)
    have c: "chunks 64 (msg @ ?t) = chunks 64 msg @ [?b]"
      unfolding chunks_rest[of 64 msg ?t, simplified] b[symmetric] chunks_single[OF _ lb, simplified] ..
    have dvd: "64 dvd length (msg @ ?t)"
    proof -
      have "64 * (length msg div 64) + n = length msg" unfolding n_def by simp
      then have "length (msg @ ?t) = 64 * (length msg div 64 + 1)" using n by (simp only: length_append t distrib_left)
      then show ?thesis by simp
    qed
    have "block (hc_h c) ?b 1 = Some (one (hc_h c) ?b)" using h lb by (intro block_one)
    moreover have "\<exists>c'. hash_rest block (?c\<lparr>hc_h := one (hc_h c) ?b, hc_num := 0, hc_data := replicate HASH_CBLOCK 0\<rparr>) ?d =
        Some c' \<and> rep iv c' ((msg @ ?t) @ ?d) \<and>
        hc_md_len c' = hc_md_len (?c\<lparr>hc_h := one (hc_h c) ?b, hc_num := 0, hc_data := replicate HASH_CBLOCK 0\<rparr>)"
      using h c dvd bits' by (intro hash_rest_rep[OF iv]) (simp_all add: HASH_CBLOCK_def)
    ultimately show ?thesis
      using 4 big n d by (simp add: HASH_UPDATE_def Let_def HASH_CBLOCK_def)
  qed
qed

lemma final_rep:
  assumes "rep iv c msg"
  shows "\<exists>c'. HASH_FINAL order block c = Some c' \<and> hc_h c' = md_hash order one iv msg \<and>
    length (hc_h c') = words \<and> hc_md_len c' = hc_md_len c"
proof -
  define n where "n = length msg mod 64"
  define r where "r = rest 64 msg"
  define cnt where "cnt = count_bytes order (length msg)"
  have n: "n < 64" by (simp add: n_def)
  have iv: "length iv = words" and h: "hc_h c = foldl one iv (chunks 64 msg)" "length (hc_h c) = words"
    and d: "length (hc_data c) = 64" "hc_num c = n" "take n (hc_data c) = r"
    and bits: "hash_bits c = 8 * length msg mod 2 ^ 64"
    using repD[OF assms] by (simp_all add: n_def r_def)
  have lr: "length r = n" by (simp add: r_def n_def)
  have lc: "length cnt = 8" by (simp add: cnt_def count_bytes_def split: data_order.split)
  have cnt: "(case order of DATA_ORDER_IS_BIG_ENDIAN \<Rightarrow> HOST_l2c order (hc_Nh c) @ HOST_l2c order (hc_Nl c)
         | DATA_ORDER_IS_LITTLE_ENDIAN \<Rightarrow> HOST_l2c order (hc_Nl c) @ HOST_l2c order (hc_Nh c)) = cnt"
    using count_bytes_words[OF bits, of order] by (simp add: cnt_def)
  have b1: "overwrite (hc_data c) n [0x80] = r @ [0x80] @ drop (n + 1) (hc_data c)"
    using d by (simp add: overwrite_def)
  have md: "md_hash order one iv msg = foldl one (hc_h c) (chunks 64 (r @ md_pad order (length msg)))"
    unfolding md_hash_def chunks_rest[of 64 msg, simplified] by (simp add: h(1) r_def)
  show ?thesis
  proof (cases "n + 1 > 56")
    case False
    then have "md_pad order (length msg) = [0x80] @ replicate (55 - n) 0 @ cnt"
      by (simp add: md_pad_def cnt_def n_def[symmetric] le_mod_geq)
    then have p: "r @ md_pad order (length msg) = r @ [0x80] @ replicate (55 - n) 0 @ cnt" by simp
    have b2: "overwrite (r @ [0x80] @ drop (n + 1) (hc_data c)) (n + 1) (replicate (55 - n) 0) =
        (r @ [0x80] @ replicate (55 - n) 0) @ drop 56 (hc_data c)"
      using lr False by (simp add: overwrite_def drop_Cons')
    have b3: "overwrite ((r @ [0x80] @ replicate (55 - n) 0) @ drop 56 (hc_data c)) 56 cnt =
        r @ [0x80] @ replicate (55 - n) 0 @ cnt"
    proof -
      have "length (r @ [0x80] @ replicate (55 - n) 0) = 56" using lr False by simp
      then show ?thesis using lc d unfolding overwrite_def by (simp only: take_append drop_append) simp
    qed
    have l: "length (r @ [0x80] @ replicate (55 - n) 0 @ cnt) = 64" using lr lc False by simp
    show ?thesis
      using block_one[OF h(2) l] one_length[OF h(2) l] chunks_single[OF _ l] False d b1 b2 b3 cnt
      by (simp add: HASH_FINAL_def HASH_CBLOCK_def Let_def md p)
  next
    case True
    let ?x = "r @ [0x80] @ replicate (63 - n) 0" and ?y = "replicate 56 0 @ cnt"
    have "md_pad order (length msg) = [0x80] @ replicate (63 - n + 56) 0 @ cnt"
      using True n by (simp add: md_pad_def cnt_def n_def[symmetric])
    then have p: "r @ md_pad order (length msg) = ?x @ ?y" by (simp only: replicate_add append_assoc)
    have b2: "overwrite (r @ [0x80] @ drop (n + 1) (hc_data c)) (n + 1) (replicate (63 - n) 0) = ?x"
      using lr n d by (simp add: overwrite_def)
    have lx: "length ?x = 64" and ly: "length ?y = 64" using lr lc n by simp_all
    have b3: "overwrite (overwrite ?x 0 (replicate 56 0)) 56 cnt = ?y"
      using lx lc by (simp add: overwrite_def)
    have o: "length (one (hc_h c) ?x) = words" by (rule one_length[OF h(2) lx])
    have ch: "chunks 64 (r @ md_pad order (length msg)) = [?x, ?y]"
      unfolding p using lx ly by (simp add: chunks_Cons chunks_single del: append_assoc)
    show ?thesis
      using block_one[OF h(2) lx] block_one[OF o ly] one_length[OF o ly] True n d b1 b2 b3 cnt
      by (simp add: HASH_FINAL_def HASH_CBLOCK_def Let_def md ch)
  qed
qed

lemma feed_rep:
  "rep iv c msg \<Longrightarrow> \<exists>c'. feed (HASH_UPDATE block) c ps = Some c' \<and> rep iv c' (msg @ concat ps) \<and> hc_md_len c' = hc_md_len c"
proof (induction ps arbitrary: c msg)
  case (Cons p ps)
  obtain c1 where "HASH_UPDATE block c p = Some c1" "rep iv c1 (msg @ p)" "hc_md_len c1 = hc_md_len c"
    using update_rep[OF Cons.prems] by blast
  then show ?case using Cons.IH[of c1 "msg @ p"] by auto
qed simp

text \<open>From a fresh context: any cutting of the message gives its hash.\<close>

lemma stream:
  assumes "length iv = words" "hc_h c = iv" "hc_Nl c = 0" "hc_Nh c = 0" "hc_num c = 0" "length (hc_data c) = 64"
  shows "\<exists>c1 c2. feed (HASH_UPDATE block) c ps = Some c1 \<and> HASH_FINAL order block c1 = Some c2 \<and>
    hc_h c2 = md_hash order one iv (concat ps) \<and> length (hc_h c2) = words \<and> hc_md_len c2 = hc_md_len c"
proof -
  have "rep iv c []" using assms by (simp add: rep_def hash_bits_def rest_def)
  then obtain c1 where "feed (HASH_UPDATE block) c ps = Some c1" "rep iv c1 (concat ps)" "hc_md_len c1 = hc_md_len c"
    using feed_rep[of iv c "[]" ps] by auto
  then show ?thesis using final_rep[of iv c1 "concat ps"] by auto
qed

end

end
