(* ===== verification/Sha2.thy ===== *)
theory Sha2
  imports Md32
begin

text \<open>
  What \<^verbatim>\<open>sha256.c\<close> and \<^verbatim>\<open>sha512.c\<close> share: the round macros over the eight working variables and
  the circular message schedule, for words of any width and any choice of the functions
  \<open>\<Sigma>\<close> and \<open>\<sigma>\<close> and the constants; and the proof that the unrolled rounds, in which the
  variables change roles instead of values, compute the iteration of FIPS 180-4.
\<close>

section \<open>The round macros\<close>

text \<open>The local variables of the block functions; a macro is called with the roles they have.\<close>

datatype var = Va | Vb | Vc | Vd | Ve | Vf | Vg | Vh

type_synonym 'a vars = "var \<Rightarrow> 'a word"

definition Ch :: "'a :: len word \<Rightarrow> 'a word \<Rightarrow> 'a word \<Rightarrow> 'a word" where
  "Ch x y z = (x AND y) XOR (NOT x AND z)"

definition Maj :: "'a :: len word \<Rightarrow> 'a word \<Rightarrow> 'a word \<Rightarrow> 'a word" where
  "Maj x y z = (x AND y) XOR (x AND z) XOR (y AND z)"

text \<open>\<open>k\<close> is the round's constant, \<^verbatim>\<open>K256[i]\<close> or \<^verbatim>\<open>K512[i]\<close>.\<close>

definition ROUND_00_15 ::
  "('a :: len word \<Rightarrow> 'a word) \<Rightarrow> ('a word \<Rightarrow> 'a word) \<Rightarrow> 'a word \<Rightarrow>
   var \<Rightarrow> var \<Rightarrow> var \<Rightarrow> var \<Rightarrow> var \<Rightarrow> var \<Rightarrow> var \<Rightarrow> var \<Rightarrow> 'a word \<Rightarrow> 'a vars \<Rightarrow> 'a vars" where
  "ROUND_00_15 Sigma0 Sigma1 k a b c d e f g h T1 s =
     (let T1 = T1 + (s h + Sigma1 (s e) + Ch (s e) (s f) (s g) + k);
          s = s(h := Sigma0 (s a) + Maj (s a) (s b) (s c));
          s = s(d := s d + T1);
          s = s(h := s h + T1)
      in s)"

text \<open>The schedule step of the later rounds: the array \<open>X\<close> of 16 words, and \<open>T1\<close>.\<close>

definition schedule_step ::
  "('a :: len word \<Rightarrow> 'a word) \<Rightarrow> ('a word \<Rightarrow> 'a word) \<Rightarrow> nat \<Rightarrow> 'a word list \<Rightarrow> 'a word list \<times> 'a word" where
  "schedule_step sigma0 sigma1 i X =
     (let s0 = sigma0 (X ! ((i + 1) mod 16));
          s1 = sigma1 (X ! ((i + 14) mod 16));
          T1 = X ! (i mod 16) + (s0 + s1 + X ! ((i + 9) mod 16))
      in (X[i mod 16 := T1], T1))"

definition ROUND_16 ::
  "('a :: len word \<Rightarrow> 'a word) \<Rightarrow> ('a word \<Rightarrow> 'a word) \<Rightarrow> ('a word \<Rightarrow> 'a word) \<Rightarrow> ('a word \<Rightarrow> 'a word) \<Rightarrow>
   'a word \<Rightarrow> nat \<Rightarrow> var \<Rightarrow> var \<Rightarrow> var \<Rightarrow> var \<Rightarrow> var \<Rightarrow> var \<Rightarrow> var \<Rightarrow> var \<Rightarrow>
   'a vars \<times> 'a word list \<Rightarrow> 'a vars \<times> 'a word list" where
  "ROUND_16 Sigma0 Sigma1 sigma0 sigma1 k i a b c d e f g h =
     (\<lambda>(s, X). let (X, T1) = schedule_step sigma0 sigma1 i X
               in (ROUND_00_15 Sigma0 Sigma1 k a b c d e f g h T1 s, X))"

text \<open>The variables at the start of a block, and what the end of the block adds to the state.\<close>

definition load_vars :: "'a word list \<Rightarrow> 'a :: len vars" where
  "load_vars state = (\<lambda>v. case v of Va \<Rightarrow> state ! 0 | Vb \<Rightarrow> state ! 1 | Vc \<Rightarrow> state ! 2 | Vd \<Rightarrow> state ! 3
     | Ve \<Rightarrow> state ! 4 | Vf \<Rightarrow> state ! 5 | Vg \<Rightarrow> state ! 6 | Vh \<Rightarrow> state ! 7)"

definition add_vars :: "'a word list \<Rightarrow> 'a vars \<Rightarrow> 'a :: len word list" where
  "add_vars state s = [state ! 0 + s Va, state ! 1 + s Vb, state ! 2 + s Vc, state ! 3 + s Vd,
     state ! 4 + s Ve, state ! 5 + s Vf, state ! 6 + s Vg, state ! 7 + s Vh]"

section \<open>FIPS 180-4\<close>

fun sha2_step ::
  "('a :: len word \<Rightarrow> 'a word) \<Rightarrow> ('a word \<Rightarrow> 'a word) \<Rightarrow> 'a word \<Rightarrow> 'a word \<Rightarrow> 'a word list \<Rightarrow> 'a word list" where
  "sha2_step S0 S1 k w [a, b, c, d, e, f, g, h] =
     (let T1 = h + S1 e + Ch e f g + k + w; T2 = S0 a + Maj a b c
      in [T1 + T2, a, b, c, d + T1, e, f, g])"
| "sha2_step S0 S1 k w st = st"

fun sha2_W :: "('a :: len word \<Rightarrow> 'a word) \<Rightarrow> ('a word \<Rightarrow> 'a word) \<Rightarrow> 'a word list \<Rightarrow> nat \<Rightarrow> 'a word" where
  "sha2_W s0 s1 m t =
     (if t < 16 then m ! t
      else s1 (sha2_W s0 s1 m (t - 2)) + sha2_W s0 s1 m (t - 7) +
           s0 (sha2_W s0 s1 m (t - 15)) + sha2_W s0 s1 m (t - 16))"

declare sha2_W.simps [simp del]

definition sha2_compress ::
  "('a :: len word \<Rightarrow> 'a word) \<Rightarrow> ('a word \<Rightarrow> 'a word) \<Rightarrow> ('a word \<Rightarrow> 'a word) \<Rightarrow> ('a word \<Rightarrow> 'a word) \<Rightarrow>
   'a word list \<Rightarrow> 'a word list \<Rightarrow> 'a word list \<Rightarrow> 'a word list" where
  "sha2_compress S0 S1 s0 s1 K m st =
     map2 (+) st (fold (\<lambda>t. sha2_step S0 S1 (K ! t) (sha2_W s0 s1 m t)) [0..<length K] st)"

section \<open>Rounds with rotating roles\<close>

text \<open>The values of variables in a list of roles.\<close>

definition view :: "var list \<Rightarrow> 'a vars \<Rightarrow> 'a word list" where
  "view rs s = map s rs"

lemma ROUND_view:
  assumes "distinct [a, b, c, d, e, f, g, h]"
  shows "view [h, a, b, c, d, e, f, g] (ROUND_00_15 S0 S1 k a b c d e f g h w s) =
    sha2_step S0 S1 k w (view [a, b, c, d, e, f, g, h] s)"
proof -
  have "distinct [h, g, f, e, d, c, b, a]" using assms by auto
  then show ?thesis using assms by (simp add: ROUND_00_15_def view_def Let_def add_ac)
qed

lemma length_sha2_step: "length st = 8 \<Longrightarrow> length (sha2_step S0 S1 k w st) = 8"
  by (cases "(S0, S1, k, w, st)" rule: sha2_step.cases) (simp_all add: Let_def)

text \<open>The circular schedule holds the last sixteen words.\<close>

definition window :: "(nat \<Rightarrow> 'a word) \<Rightarrow> nat \<Rightarrow> 'a word list \<Rightarrow> bool" where
  "window W i X \<longleftrightarrow> length X = 16 \<and> (\<forall>j. j < i \<and> i \<le> j + 16 \<longrightarrow> X ! (j mod 16) = W j)"

lemma mod16_eq: "i \<le> j \<Longrightarrow> j < i + 16 \<Longrightarrow> j mod 16 = i mod 16 \<Longrightarrow> j = (i :: nat)"
  using mod_eq_dvd_iff_nat[of i j 16] by (auto dest: dvd_imp_le)

lemma window_step: "window W i X \<Longrightarrow> window W (Suc i) (X[i mod 16 := W i])"
proof -
  assume "window W i X"
  then have X: "length X = 16" "\<And>j. j < i \<Longrightarrow> i \<le> j + 16 \<Longrightarrow> X ! (j mod 16) = W j"
    by (auto simp: window_def)
  have "X[i mod 16 := W i] ! (j mod 16) = W j" if j: "j < Suc i" "Suc i \<le> j + 16" for j
  proof (cases "j = i")
    case True
    then show ?thesis using X(1) by simp
  next
    case False
    then have "i mod 16 \<noteq> j mod 16" using j mod16_eq[of j i] by auto
    then show ?thesis using X(2)[of j] j False by simp
  qed
  then show ?thesis using X(1) by (simp add: window_def)
qed

lemma schedule_window:
  assumes "window (sha2_W s0 s1 m) i X" "16 \<le> i" "schedule_step s0 s1 i X = (X', T1)"
  shows "T1 = sha2_W s0 s1 m i \<and> window (sha2_W s0 s1 m) (Suc i) X'"
proof -
  let ?W = "sha2_W s0 s1 m"
  have X: "length X = 16" "\<And>j. j < i \<Longrightarrow> i \<le> j + 16 \<Longrightarrow> X ! (j mod 16) = ?W j"
    using assms(1) by (auto simp: window_def)
  have m: "i mod 16 = (i - 16) mod 16" "(i + 1) mod 16 = (i - 15) mod 16"
    "(i + 14) mod 16 = (i - 2) mod 16" "(i + 9) mod 16 = (i - 7) mod 16"
    using assms(2) by (simp_all add: mod_eq_dvd_iff_nat)
  have x: "X ! (i mod 16) = ?W (i - 16)" "X ! ((i + 1) mod 16) = ?W (i - 15)"
    "X ! ((i + 14) mod 16) = ?W (i - 2)" "X ! ((i + 9) mod 16) = ?W (i - 7)"
    unfolding m using assms(2) by (simp_all add: X(2))
  have T: "T1 = ?W i"
    using assms(2,3) x by (auto simp: schedule_step_def Let_def sha2_W.simps[of s0 s1 m i] add_ac)
  then show ?thesis using window_step[OF assms(1)] assms(3) by (auto simp: schedule_step_def Let_def)
qed

text \<open>The state of the code before round \<open>i\<close>, with the variables in the roles \<open>rs\<close>.\<close>

definition round_rel :: "(nat \<Rightarrow> 'a word) \<Rightarrow> nat \<Rightarrow> var list \<Rightarrow> 'a vars \<times> 'a word list \<Rightarrow> 'a word list \<Rightarrow> bool" where
  "round_rel W i rs sX st \<longleftrightarrow> window W i (snd sX) \<and> view rs (fst sX) = st"

lemma ROUND_16_rel:
  assumes "round_rel (sha2_W s0 s1 m) i [a, b, c, d, e, f, g, h] sX st" "16 \<le> i" "distinct [a, b, c, d, e, f, g, h]"
  shows "round_rel (sha2_W s0 s1 m) (Suc i) [h, a, b, c, d, e, f, g]
    (ROUND_16 S0 S1 s0 s1 k i a b c d e f g h sX) (sha2_step S0 S1 k (sha2_W s0 s1 m i) st)"
proof -
  obtain s X X' T1 where e: "sX = (s, X)" "schedule_step s0 s1 i X = (X', T1)"
    by (cases sX; cases "schedule_step s0 s1 i (snd sX)") auto
  have w: "window (sha2_W s0 s1 m) i X" "view [a, b, c, d, e, f, g, h] s = st"
    using assms(1) e by (auto simp: round_rel_def)
  have "T1 = sha2_W s0 s1 m i" "window (sha2_W s0 s1 m) (Suc i) X'"
    using schedule_window[OF w(1) assms(2) e(2)] by simp_all
  then show ?thesis
    using ROUND_view[OF assms(3), of S0 S1 k "sha2_W s0 s1 m i" s] w(2) e
    by (simp add: ROUND_16_def round_rel_def)
qed

lemma window_start: "length m = 16 \<Longrightarrow> window (sha2_W s0 s1 m) 16 m"
  by (auto simp: window_def sha2_W.simps)

lemma view_load: "length state = 8 \<Longrightarrow> view [Va, Vb, Vc, Vd, Ve, Vf, Vg, Vh] (load_vars state) = state"
  by (auto simp: view_def load_vars_def numeral_eq_Suc length_Suc_conv)

lemma add_vars_view: "length state = 8 \<Longrightarrow> add_vars state s = map2 (+) state (view [Va, Vb, Vc, Vd, Ve, Vf, Vg, Vh] s)"
  by (auto simp: view_def add_vars_def numeral_eq_Suc length_Suc_conv)

lemma upt_cat: "i \<le> j \<Longrightarrow> j \<le> k \<Longrightarrow> [i..<j] @ [j..<k] = [i..<k]"
  using upt_add_eq_append[of i j "k - j"] by simp

lemma length_sha2_fold: "length st = 8 \<Longrightarrow> length (fold (\<lambda>t. sha2_step S0 S1 (k t) (w t)) ts st) = 8"
  by (induction ts arbitrary: st) (simp_all add: length_sha2_step)

lemma sha2_W_first: "t < 16 \<Longrightarrow> sha2_W s0 s1 m t = m ! t"
  by (simp add: sha2_W.simps)

end
