(* ===== verification/Sha256.thy ===== *)
theory Sha256
  imports Sha2
begin

text \<open>
  SHA-224 and SHA-256, \<^verbatim>\<open>crypto/fipsmodule/sha/sha256.c\<close>, without assembly: the block
  function, and the collector of \<open>Md32\<close> around it. The block function computes the
  compression function of FIPS 180-4, and the digest functions the digests.
\<close>

section \<open>The block function\<close>

text \<open>A constant with the suffix \<^verbatim>\<open>UL\<close>, stored in a \<^verbatim>\<open>uint32_t\<close>.\<close>

abbreviation (input) UL :: "u32 \<Rightarrow> u32" where
  "UL x \<equiv> x"

definition K256 :: "u32 list" where
  "K256 =
  [UL 0x428a2f98, UL 0x71374491, UL 0xb5c0fbcf, UL 0xe9b5dba5, UL 0x3956c25b, UL 0x59f111f1,
   UL 0x923f82a4, UL 0xab1c5ed5, UL 0xd807aa98, UL 0x12835b01, UL 0x243185be, UL 0x550c7dc3,
   UL 0x72be5d74, UL 0x80deb1fe, UL 0x9bdc06a7, UL 0xc19bf174, UL 0xe49b69c1, UL 0xefbe4786,
   UL 0x0fc19dc6, UL 0x240ca1cc, UL 0x2de92c6f, UL 0x4a7484aa, UL 0x5cb0a9dc, UL 0x76f988da,
   UL 0x983e5152, UL 0xa831c66d, UL 0xb00327c8, UL 0xbf597fc7, UL 0xc6e00bf3, UL 0xd5a79147,
   UL 0x06ca6351, UL 0x14292967, UL 0x27b70a85, UL 0x2e1b2138, UL 0x4d2c6dfc, UL 0x53380d13,
   UL 0x650a7354, UL 0x766a0abb, UL 0x81c2c92e, UL 0x92722c85, UL 0xa2bfe8a1, UL 0xa81a664b,
   UL 0xc24b8b70, UL 0xc76c51a3, UL 0xd192e819, UL 0xd6990624, UL 0xf40e3585, UL 0x106aa070,
   UL 0x19a4c116, UL 0x1e376c08, UL 0x2748774c, UL 0x34b0bcb5, UL 0x391c0cb3, UL 0x4ed8aa4a,
   UL 0x5b9cca4f, UL 0x682e6ff3, UL 0x748f82ee, UL 0x78a5636f, UL 0x84c87814, UL 0x8cc70208,
   UL 0x90befffa, UL 0xa4506ceb, UL 0xbef9a3f7, UL 0xc67178f2]"

definition ROTATE :: "u32 \<Rightarrow> nat \<Rightarrow> u32" where
  "ROTATE a n = push_bit n a OR drop_bit (32 - n) a"

definition Sigma0 :: "u32 \<Rightarrow> u32" where
  "Sigma0 x = ROTATE x 30 XOR ROTATE x 19 XOR ROTATE x 10"

definition Sigma1 :: "u32 \<Rightarrow> u32" where
  "Sigma1 x = ROTATE x 26 XOR ROTATE x 21 XOR ROTATE x 7"

definition sigma0 :: "u32 \<Rightarrow> u32" where
  "sigma0 x = ROTATE x 25 XOR ROTATE x 14 XOR drop_bit 3 x"

definition sigma1 :: "u32 \<Rightarrow> u32" where
  "sigma1 x = ROTATE x 15 XOR ROTATE x 13 XOR drop_bit 10 x"

text \<open>The sixteen words of a block, which the code reads between the rounds.\<close>

definition load_block :: "u8 list \<Rightarrow> u32 list" where
  "load_block data = map (\<lambda>t. HOST_c2l DATA_ORDER_IS_BIG_ENDIAN (drop (4 * t) data)) [0..<16]"

definition sha256_rounds_00_15 :: "u32 list \<Rightarrow> 32 vars \<Rightarrow> 32 vars" where
  "sha256_rounds_00_15 X s =
     (let R = (\<lambda>i. ROUND_00_15 Sigma0 Sigma1 (K256 ! i));
        s = R 0 Va Vb Vc Vd Ve Vf Vg Vh (X ! 0) s;
        s = R 1 Vh Va Vb Vc Vd Ve Vf Vg (X ! 1) s;
        s = R 2 Vg Vh Va Vb Vc Vd Ve Vf (X ! 2) s;
        s = R 3 Vf Vg Vh Va Vb Vc Vd Ve (X ! 3) s;
        s = R 4 Ve Vf Vg Vh Va Vb Vc Vd (X ! 4) s;
        s = R 5 Vd Ve Vf Vg Vh Va Vb Vc (X ! 5) s;
        s = R 6 Vc Vd Ve Vf Vg Vh Va Vb (X ! 6) s;
        s = R 7 Vb Vc Vd Ve Vf Vg Vh Va (X ! 7) s;
        s = R 8 Va Vb Vc Vd Ve Vf Vg Vh (X ! 8) s;
        s = R 9 Vh Va Vb Vc Vd Ve Vf Vg (X ! 9) s;
        s = R 10 Vg Vh Va Vb Vc Vd Ve Vf (X ! 10) s;
        s = R 11 Vf Vg Vh Va Vb Vc Vd Ve (X ! 11) s;
        s = R 12 Ve Vf Vg Vh Va Vb Vc Vd (X ! 12) s;
        s = R 13 Vd Ve Vf Vg Vh Va Vb Vc (X ! 13) s;
        s = R 14 Vc Vd Ve Vf Vg Vh Va Vb (X ! 14) s;
        s = R 15 Vb Vc Vd Ve Vf Vg Vh Va (X ! 15) s
      in s)"

definition sha256_rounds_16_63 :: "nat \<Rightarrow> 32 vars \<times> u32 list \<Rightarrow> 32 vars \<times> u32 list" where
  "sha256_rounds_16_63 i sX =
     (let R = (\<lambda>i. ROUND_16 Sigma0 Sigma1 sigma0 sigma1 (K256 ! i) i);
        sX = R (i + 0) Va Vb Vc Vd Ve Vf Vg Vh sX;
        sX = R (i + 1) Vh Va Vb Vc Vd Ve Vf Vg sX;
        sX = R (i + 2) Vg Vh Va Vb Vc Vd Ve Vf sX;
        sX = R (i + 3) Vf Vg Vh Va Vb Vc Vd Ve sX;
        sX = R (i + 4) Ve Vf Vg Vh Va Vb Vc Vd sX;
        sX = R (i + 5) Vd Ve Vf Vg Vh Va Vb Vc sX;
        sX = R (i + 6) Vc Vd Ve Vf Vg Vh Va Vb sX;
        sX = R (i + 7) Vb Vc Vd Ve Vf Vg Vh Va sX
      in sX)"

definition sha256_block :: "u32 list \<Rightarrow> u8 list \<Rightarrow> u32 list" where
  "sha256_block state data =
     (let X = load_block data;
          s = sha256_rounds_00_15 X (load_vars state);
          (s, X) = fold sha256_rounds_16_63 [16, 24, 32, 40, 48, 56] (s, X)
      in add_vars state s)"

definition sha256_block_data_order :: block_order where
  "sha256_block_data_order state data num = while_num 64 sha256_block state data num"

section \<open>The digest functions\<close>

text \<open>A zeroed \<^verbatim>\<open>SHA256_CTX\<close>.\<close>

definition hash_ctx_zero :: "nat \<Rightarrow> hash_ctx" where
  "hash_ctx_zero words = \<lparr>hc_h = replicate words 0, hc_Nl = 0, hc_Nh = 0,
     hc_data = replicate HASH_CBLOCK 0, hc_num = 0, hc_md_len = 0\<rparr>"

definition SHA224_DIGEST_LENGTH :: nat where
  "SHA224_DIGEST_LENGTH = 28"

definition SHA256_DIGEST_LENGTH :: nat where
  "SHA256_DIGEST_LENGTH = 32"

definition SHA224_Init :: hash_ctx where
  "SHA224_Init = (hash_ctx_zero 8)\<lparr>hc_h :=
     [0xc1059ed8, 0x367cd507, 0x3070dd17, 0xf70e5939,
      0xffc00b31, 0x68581511, 0x64f98fa7, 0xbefa4fa4],
     hc_md_len := SHA224_DIGEST_LENGTH\<rparr>"

definition SHA256_Init :: hash_ctx where
  "SHA256_Init = (hash_ctx_zero 8)\<lparr>hc_h :=
     [0x6a09e667, 0xbb67ae85, 0x3c6ef372, 0xa54ff53a,
      0x510e527f, 0x9b05688c, 0x1f83d9ab, 0x5be0cd19],
     hc_md_len := SHA256_DIGEST_LENGTH\<rparr>"

definition SHA256_Update :: "hash_ctx \<Rightarrow> u8 list \<Rightarrow> hash_ctx option" where
  "SHA256_Update = HASH_UPDATE sha256_block_data_order"

definition SHA256_Transform :: "hash_ctx \<Rightarrow> u8 list \<Rightarrow> hash_ctx option" where
  "SHA256_Transform = HASH_TRANSFORM sha256_block_data_order"

text \<open>\<^verbatim>\<open>HASH_MAKE_STRING\<close>: the bytes stored, or \<open>None\<close> for the early return.\<close>

definition sha256_make_string :: "hash_ctx \<Rightarrow> u8 list option" where
  "sha256_make_string c =
     (let out = (\<lambda>n. concat (map (HOST_l2c DATA_ORDER_IS_BIG_ENDIAN) (take n (hc_h c))))
      in if hc_md_len c = SHA224_DIGEST_LENGTH then Some (out (SHA224_DIGEST_LENGTH div 4))
         else if hc_md_len c = SHA256_DIGEST_LENGTH then Some (out (SHA256_DIGEST_LENGTH div 4))
         else if hc_md_len c > SHA256_DIGEST_LENGTH then None
         else Some (out (hc_md_len c div 4)))"

text \<open>The bytes written, with \<open>None\<close> for the return value 0, and the context.\<close>

definition SHA256_Final :: "hash_ctx \<Rightarrow> (u8 list option \<times> hash_ctx) option" where
  "SHA256_Final c = do {
     c \<leftarrow> HASH_FINAL DATA_ORDER_IS_BIG_ENDIAN sha256_block_data_order c;
     Some (sha256_make_string c, c) }"

definition SHA224_Update :: "hash_ctx \<Rightarrow> u8 list \<Rightarrow> hash_ctx option" where
  "SHA224_Update ctx data = SHA256_Update ctx data"

definition SHA224_Final :: "hash_ctx \<Rightarrow> (u8 list option \<times> hash_ctx) option" where
  "SHA224_Final ctx = SHA256_Final ctx"

definition SHA224 :: "u8 list \<Rightarrow> u8 list option option" where
  "SHA224 data = do {
     ctx \<leftarrow> SHA224_Update SHA224_Init data;
     (out, ctx) \<leftarrow> SHA224_Final ctx;
     Some out }"

definition SHA256 :: "u8 list \<Rightarrow> u8 list option option" where
  "SHA256 data = do {
     ctx \<leftarrow> SHA256_Update SHA256_Init data;
     (out, ctx) \<leftarrow> SHA256_Final ctx;
     Some out }"

section \<open>FIPS 180-4\<close>

text \<open>The functions of the standard, by right rotations.\<close>

definition fips_Sigma0 :: "u32 \<Rightarrow> u32" where
  "fips_Sigma0 x = word_rotr 2 x XOR word_rotr 13 x XOR word_rotr 22 x"

definition fips_Sigma1 :: "u32 \<Rightarrow> u32" where
  "fips_Sigma1 x = word_rotr 6 x XOR word_rotr 11 x XOR word_rotr 25 x"

definition fips_sigma0 :: "u32 \<Rightarrow> u32" where
  "fips_sigma0 x = word_rotr 7 x XOR word_rotr 18 x XOR drop_bit 3 x"

definition fips_sigma1 :: "u32 \<Rightarrow> u32" where
  "fips_sigma1 x = word_rotr 17 x XOR word_rotr 19 x XOR drop_bit 10 x"

definition sha256_compress :: "u32 list \<Rightarrow> u8 list \<Rightarrow> u32 list" where
  "sha256_compress st b =
     sha2_compress fips_Sigma0 fips_Sigma1 fips_sigma0 fips_sigma1 K256 (be_words b) st"

text \<open>The digest of a message: the first \<open>n\<close> words of the iterated hash.\<close>

definition fips_digest :: "nat \<Rightarrow> u32 list \<Rightarrow> u8 list \<Rightarrow> u8 list" where
  "fips_digest n iv msg =
     concat (map (\<lambda>w. be_bytes 4 (unat w))
       (take n (md_hash DATA_ORDER_IS_BIG_ENDIAN sha256_compress iv msg)))"

section \<open>The block function is the compression function\<close>

lemma ROTATE_rotr: "0 < n \<Longrightarrow> n < 32 \<Longrightarrow> ROTATE x n = word_rotr (32 - n) x"
proof -
  assume n: "0 < n" "n < 32"
  have "bit (ROTATE x n) i = bit (word_rotr (32 - n) x) i" if i: "i < 32" for i
  proof (cases "i < n")
    case True
    then have "(i + (32 - n)) mod 32 = 32 - n + i" using n by simp
    then show ?thesis using n i True by (simp add: ROTATE_def bit_simps bit_word_rotr_iff)
  next
    case False
    then have "i + (32 - n) = 32 + (i - n)" using n by simp
    then have "(i + (32 - n)) mod 32 = i - n" using i by (simp only: mod_add_self1) simp
    moreover have "\<not> bit x (32 - n + i)" using False n by (auto dest: bit_imp_le_length)
    ultimately show ?thesis using n i False by (simp add: ROTATE_def bit_simps bit_word_rotr_iff)
  qed
  then show ?thesis by (auto intro: bit_word_eqI)
qed

lemma fips_functions:
  "Sigma0 = fips_Sigma0" "Sigma1 = fips_Sigma1" "sigma0 = fips_sigma0" "sigma1 = fips_sigma1"
  by (simp_all add: fun_eq_iff Sigma0_def Sigma1_def sigma0_def sigma1_def fips_Sigma0_def fips_Sigma1_def
      fips_sigma0_def fips_sigma1_def ROTATE_rotr)

lemma load_block_words: "length b = 64 \<Longrightarrow> load_block b = be_words b"
  by (simp add: load_block_def be_words_def HOST_c2l_be del: HOST_c2l.simps)

lemma length_load_block [simp]: "length (load_block b) = 16"
  by (simp add: load_block_def)

text \<open>Sixteen rounds on the words of the block, then eight at a time.\<close>

abbreviation fips_step :: "u32 list \<Rightarrow> nat \<Rightarrow> u32 list \<Rightarrow> u32 list" where
  "fips_step m t \<equiv> sha2_step Sigma0 Sigma1 (K256 ! t) (sha2_W sigma0 sigma1 m t)"

lemma rounds_00_15:
  "view [Va, Vb, Vc, Vd, Ve, Vf, Vg, Vh] (sha256_rounds_00_15 m s) =
   fold (fips_step m) [0..<16] (view [Va, Vb, Vc, Vd, Ve, Vf, Vg, Vh] s)"
proof -
  have u: "[0..<16] = [0, 1, 2, 3, 4, 5, 6, 7, 8, 9, 10, 11, 12, 13, 14, 15 :: nat]" by (simp add: upt_rec)
  show ?thesis
    unfolding u sha256_rounds_00_15_def Let_def
    by (simp add: ROUND_view sha2_W_first)
qed

lemma rounds_16_63:
  assumes "round_rel (sha2_W sigma0 sigma1 m) i [Va, Vb, Vc, Vd, Ve, Vf, Vg, Vh] sX st" "16 \<le> i"
  shows "round_rel (sha2_W sigma0 sigma1 m) (i + 8) [Va, Vb, Vc, Vd, Ve, Vf, Vg, Vh]
    (sha256_rounds_16_63 i sX) (fold (fips_step m) [i..<i + 8] st)"
proof -
  note R = ROUND_16_rel[where ?S0.0 = Sigma0 and ?S1.0 = Sigma1]
  note r1 = R[OF assms(1,2), where k = "K256 ! i"]
  note r2 = R[OF r1, where k = "K256 ! (i + 1)"]
  note r3 = R[OF r2, where k = "K256 ! (i + 2)"]
  note r4 = R[OF r3, where k = "K256 ! (i + 3)"]
  note r5 = R[OF r4, where k = "K256 ! (i + 4)"]
  note r6 = R[OF r5, where k = "K256 ! (i + 5)"]
  note r7 = R[OF r6, where k = "K256 ! (i + 6)"]
  note r8 = R[OF r7, where k = "K256 ! (i + 7)"]
  have u: "[i..<i + 8] = [i, Suc i, Suc (Suc i), i + 3, i + 4, i + 5, i + 6, i + 7]" by (simp add: upt_rec)
  show ?thesis
    unfolding u sha256_rounds_16_63_def Let_def
    using r8 assms(2) by (simp add: numeral_eq_Suc)
qed

lemma K256_length: "length K256 = 64"
  by (simp add: K256_def)

lemma sha256_block_compress:
  assumes "length st = 8" "length b = 64"
  shows "sha256_block st b = sha256_compress st b"
proof -
  let ?m = "load_block b" and ?rs = "[Va, Vb, Vc, Vd, Ve, Vf, Vg, Vh]"
  let ?W = "sha2_W sigma0 sigma1 ?m" and ?f = "fips_step ?m"
  define s1 where "s1 = sha256_rounds_00_15 ?m (load_vars st)"
  have "view ?rs s1 = fold ?f [0..<16] st"
    by (simp only: s1_def rounds_00_15 view_load[OF assms(1)])
  then have r1: "round_rel ?W 16 ?rs (s1, ?m) (fold ?f [0..<16] st)"
    by (simp add: round_rel_def window_start)
  note r2 = rounds_16_63[OF r1, simplified]
  note r3 = rounds_16_63[OF r2, simplified]
  note r4 = rounds_16_63[OF r3, simplified]
  note r5 = rounds_16_63[OF r4, simplified]
  note r6 = rounds_16_63[OF r5, simplified]
  note r7 = rounds_16_63[OF r6, simplified]
  define sX where "sX = fold sha256_rounds_16_63 [16, 24, 32, 40, 48, 56] (s1, ?m)"
  have u: "[0..<64] = [0..<16] @ [16..<24] @ [24..<32] @ [32..<40] @ [40..<48] @ [48..<56] @ [56..<64 :: nat]"
    by (simp add: upt_rec)
  have "view ?rs (fst sX) = fold ?f [0..<64] st"
    using r7 unfolding u fold_append comp_def sX_def by (simp add: round_rel_def)
  moreover have "sha256_block st b = add_vars st (fst sX)"
    by (simp add: sha256_block_def Let_def s1_def sX_def split_beta)
  ultimately show ?thesis
    using assms by (simp add: add_vars_view sha256_compress_def sha2_compress_def
        fips_functions[symmetric] load_block_words[symmetric] K256_length)
qed

section \<open>The digests\<close>

lemma length_sha256_compress: "length st = 8 \<Longrightarrow> length (sha256_compress st b) = 8"
  by (simp add: sha256_compress_def sha2_compress_def length_sha2_fold)

interpretation sha256: md32 DATA_ORDER_IS_BIG_ENDIAN sha256_block_data_order sha256_compress 8
proof
  fix st :: "u32 list" and n and data :: "u8 list"
  assume st: "length st = 8" and n: "0 < n" "64 * n \<le> length data"
  have "foldl sha256_block st (chunks 64 (take (64 * n) data)) = foldl sha256_compress st (chunks 64 (take (64 * n) data))"
    by (rule foldl_chunks_cong[where n = 8])
      (simp_all add: sha256_block_compress length_sha256_compress st)
  then show "sha256_block_data_order st data n = Some (foldl sha256_compress st (chunks 64 (take (64 * n) data)))"
    using n by (simp add: sha256_block_data_order_def while_num_fold)
qed (simp add: length_sha256_compress)

lemma HOST_l2c_be_fun: "HOST_l2c DATA_ORDER_IS_BIG_ENDIAN = (\<lambda>w. be_bytes 4 (unat w))"
  by (rule ext) (rule HOST_l2c_be)

lemma sha256_stream:
  assumes "length (hc_h c) = 8" "hc_Nl c = 0" "hc_Nh c = 0" "hc_num c = 0" "length (hc_data c) = 64"
    and "hc_md_len c = 4 * n" "n = 7 \<or> n = 8"
  shows "\<exists>c1 c2. feed SHA256_Update c ps = Some c1 \<and>
    SHA256_Final c1 = Some (Some (fips_digest n (hc_h c) (concat ps)), c2)"
proof -
  obtain c1 c2 where "feed (HASH_UPDATE sha256_block_data_order) c ps = Some c1"
    and "HASH_FINAL DATA_ORDER_IS_BIG_ENDIAN sha256_block_data_order c1 = Some c2"
    and "hc_h c2 = md_hash DATA_ORDER_IS_BIG_ENDIAN sha256_compress (hc_h c) (concat ps)"
    and "hc_md_len c2 = 4 * n"
    using sha256.stream[OF assms(1) refl assms(2-5), of ps] assms(6) by auto
  then show ?thesis
    using assms(7)
    by (auto simp: SHA256_Update_def SHA256_Final_def sha256_make_string_def fips_digest_def HOST_l2c_be_fun Let_def
        SHA224_DIGEST_LENGTH_def SHA256_DIGEST_LENGTH_def simp del: HOST_l2c.simps)
qed

lemma sha256_init_fields:
  "length (hc_h SHA256_Init) = 8" "hc_Nl SHA256_Init = 0" "hc_Nh SHA256_Init = 0" "hc_num SHA256_Init = 0"
  "length (hc_data SHA256_Init) = 64" "hc_md_len SHA256_Init = 4 * 8"
  by (simp_all add: SHA256_Init_def hash_ctx_zero_def SHA256_DIGEST_LENGTH_def HASH_CBLOCK_def)

lemma sha224_init_fields:
  "length (hc_h SHA224_Init) = 8" "hc_Nl SHA224_Init = 0" "hc_Nh SHA224_Init = 0" "hc_num SHA224_Init = 0"
  "length (hc_data SHA224_Init) = 64" "hc_md_len SHA224_Init = 4 * 7"
  by (simp_all add: SHA224_Init_def hash_ctx_zero_def SHA224_DIGEST_LENGTH_def HASH_CBLOCK_def)

definition fips_sha256 :: "u8 list \<Rightarrow> u8 list" where
  "fips_sha256 msg = fips_digest 8 (hc_h SHA256_Init) msg"

definition fips_sha224 :: "u8 list \<Rightarrow> u8 list" where
  "fips_sha224 msg = fips_digest 7 (hc_h SHA224_Init) msg"

lemma SHA256_feed:
  "\<exists>c1 c2. feed SHA256_Update SHA256_Init ps = Some c1 \<and> SHA256_Final c1 = Some (Some (fips_sha256 (concat ps)), c2)"
  using sha256_stream[OF sha256_init_fields, of ps] by (simp add: fips_sha256_def)

lemma SHA224_feed:
  "\<exists>c1 c2. feed SHA224_Update SHA224_Init ps = Some c1 \<and> SHA224_Final c1 = Some (Some (fips_sha224 (concat ps)), c2)"
proof -
  have "SHA224_Update = SHA256_Update" by (simp add: fun_eq_iff SHA224_Update_def)
  then show ?thesis
    using sha256_stream[OF sha224_init_fields, of ps] by (simp add: fips_sha224_def SHA224_Final_def)
qed

text \<open>
  Property C12: SHA-256 and SHA-224 are the functions of FIPS 180-4. However a message is cut into
  calls of the update function, the final call writes its digest: the unrolled rounds with
  rotating variables, the circular schedule, the buffering of partial blocks, the two-word
  bit count and the padding agree with the standard's iteration over the padded message.
\<close>

theorem SHA256_fips:
  "(\<exists>c c'. feed SHA256_Update SHA256_Init ps = Some c \<and> SHA256_Final c = Some (Some (fips_sha256 (concat ps)), c')) \<and>
   (\<exists>c c'. feed SHA224_Update SHA224_Init ps = Some c \<and> SHA224_Final c = Some (Some (fips_sha224 (concat ps)), c')) \<and>
   SHA256 msg = Some (Some (fips_sha256 msg)) \<and> SHA224 msg = Some (Some (fips_sha224 msg))"
  using SHA256_feed[of ps] SHA224_feed[of ps] SHA256_feed[of "[msg]"] SHA224_feed[of "[msg]"]
  by (auto simp: SHA256_def SHA224_def split: Option.bind_splits)

end
