(* ===== verification/Sha512.thy ===== *)
theory Sha512
  imports Sha2 Mem
begin

text \<open>
  SHA-384 and SHA-512, \<^verbatim>\<open>crypto/fipsmodule/sha/sha512.c\<close>, without assembly: the block function
  on 64-bit words and the digest's own collector, whose buffer is not cleared. The digest
  functions compute the digests of FIPS 180-4.
\<close>

section \<open>The block function\<close>

text \<open>\<^verbatim>\<open>UINT64_C\<close>, as the table writes its constants.\<close>

abbreviation (input) UINT64_C :: "u64 \<Rightarrow> u64" where
  "UINT64_C x \<equiv> x"

definition K512 :: "u64 list" where
  "K512 =
  [UINT64_C 0x428a2f98d728ae22, UINT64_C 0x7137449123ef65cd, UINT64_C 0xb5c0fbcfec4d3b2f, UINT64_C 0xe9b5dba58189dbbc,
   UINT64_C 0x3956c25bf348b538, UINT64_C 0x59f111f1b605d019, UINT64_C 0x923f82a4af194f9b, UINT64_C 0xab1c5ed5da6d8118,
   UINT64_C 0xd807aa98a3030242, UINT64_C 0x12835b0145706fbe, UINT64_C 0x243185be4ee4b28c, UINT64_C 0x550c7dc3d5ffb4e2,
   UINT64_C 0x72be5d74f27b896f, UINT64_C 0x80deb1fe3b1696b1, UINT64_C 0x9bdc06a725c71235, UINT64_C 0xc19bf174cf692694,
   UINT64_C 0xe49b69c19ef14ad2, UINT64_C 0xefbe4786384f25e3, UINT64_C 0x0fc19dc68b8cd5b5, UINT64_C 0x240ca1cc77ac9c65,
   UINT64_C 0x2de92c6f592b0275, UINT64_C 0x4a7484aa6ea6e483, UINT64_C 0x5cb0a9dcbd41fbd4, UINT64_C 0x76f988da831153b5,
   UINT64_C 0x983e5152ee66dfab, UINT64_C 0xa831c66d2db43210, UINT64_C 0xb00327c898fb213f, UINT64_C 0xbf597fc7beef0ee4,
   UINT64_C 0xc6e00bf33da88fc2, UINT64_C 0xd5a79147930aa725, UINT64_C 0x06ca6351e003826f, UINT64_C 0x142929670a0e6e70,
   UINT64_C 0x27b70a8546d22ffc, UINT64_C 0x2e1b21385c26c926, UINT64_C 0x4d2c6dfc5ac42aed, UINT64_C 0x53380d139d95b3df,
   UINT64_C 0x650a73548baf63de, UINT64_C 0x766a0abb3c77b2a8, UINT64_C 0x81c2c92e47edaee6, UINT64_C 0x92722c851482353b,
   UINT64_C 0xa2bfe8a14cf10364, UINT64_C 0xa81a664bbc423001, UINT64_C 0xc24b8b70d0f89791, UINT64_C 0xc76c51a30654be30,
   UINT64_C 0xd192e819d6ef5218, UINT64_C 0xd69906245565a910, UINT64_C 0xf40e35855771202a, UINT64_C 0x106aa07032bbd1b8,
   UINT64_C 0x19a4c116b8d2d0c8, UINT64_C 0x1e376c085141ab53, UINT64_C 0x2748774cdf8eeb99, UINT64_C 0x34b0bcb5e19b48a8,
   UINT64_C 0x391c0cb3c5c95a63, UINT64_C 0x4ed8aa4ae3418acb, UINT64_C 0x5b9cca4f7763e373, UINT64_C 0x682e6ff3d6b2b8a3,
   UINT64_C 0x748f82ee5defb2fc, UINT64_C 0x78a5636f43172f60, UINT64_C 0x84c87814a1f0ab72, UINT64_C 0x8cc702081a6439ec,
   UINT64_C 0x90befffa23631e28, UINT64_C 0xa4506cebde82bde9, UINT64_C 0xbef9a3f7b2c67915, UINT64_C 0xc67178f2e372532b,
   UINT64_C 0xca273eceea26619c, UINT64_C 0xd186b8c721c0c207, UINT64_C 0xeada7dd6cde0eb1e, UINT64_C 0xf57d4f7fee6ed178,
   UINT64_C 0x06f067aa72176fba, UINT64_C 0x0a637dc5a2c898a6, UINT64_C 0x113f9804bef90dae, UINT64_C 0x1b710b35131c471b,
   UINT64_C 0x28db77f523047d84, UINT64_C 0x32caab7b40c72493, UINT64_C 0x3c9ebe0a15c9bebc, UINT64_C 0x431d67c49c100d4c,
   UINT64_C 0x4cc5d4becb3e42b6, UINT64_C 0x597f299cfc657e2a, UINT64_C 0x5fcb6fab3ad6faec, UINT64_C 0x6c44198c4a475817]"

definition ROTR :: "u64 \<Rightarrow> nat \<Rightarrow> u64" where
  "ROTR x s = drop_bit s x OR push_bit (64 - s) x"

definition Sigma0_512 :: "u64 \<Rightarrow> u64" where
  "Sigma0_512 x = ROTR x 28 XOR ROTR x 34 XOR ROTR x 39"

definition Sigma1_512 :: "u64 \<Rightarrow> u64" where
  "Sigma1_512 x = ROTR x 14 XOR ROTR x 18 XOR ROTR x 41"

definition sigma0_512 :: "u64 \<Rightarrow> u64" where
  "sigma0_512 x = ROTR x 1 XOR ROTR x 8 XOR drop_bit 7 x"

definition sigma1_512 :: "u64 \<Rightarrow> u64" where
  "sigma1_512 x = ROTR x 19 XOR ROTR x 61 XOR drop_bit 6 x"

definition PULL64 :: "u8 list \<Rightarrow> u64" where
  "PULL64 x = push_bit 56 (ucast (x ! 0)) OR push_bit 48 (ucast (x ! 1)) OR push_bit 40 (ucast (x ! 2)) OR
     push_bit 32 (ucast (x ! 3)) OR push_bit 24 (ucast (x ! 4)) OR push_bit 16 (ucast (x ! 5)) OR
     push_bit 8 (ucast (x ! 6)) OR ucast (x ! 7)"

definition load_block_512 :: "u8 list \<Rightarrow> u64 list" where
  "load_block_512 W = map (\<lambda>t. PULL64 (drop (8 * t) W)) [0..<16]"

definition sha512_rounds_00_15 :: "u64 list \<Rightarrow> 64 vars \<Rightarrow> 64 vars" where
  "sha512_rounds_00_15 X s =
     (let R = (\<lambda>i. ROUND_00_15 Sigma0_512 Sigma1_512 (K512 ! i));
        s = R 0 Va Vb Vc Vd Ve Vf Vg Vh (X ! 0) s;
        s = R 1 Vh Va Vb Vc Vd Ve Vf Vg (X ! 1) s;
        s = R 2 Vg Vh Va Vb Vc Vd Ve Vf (X ! 2) s;
        s = R 3 Vf Vg Vh Va Vb Vc Vd Ve (X ! 3) s;
        s = R 4 Ve Vf Vg Vh Va Vb Vc Vd (X ! 4) s;
        s = R 5 Vd Ve Vf Vg Vh Va Vb Vc (X ! 5) s;
        s = R 6 Vc Vd Ve Vf Vg Vh Va Vb (X ! 6) s;
        s = R 7 Vb Vc Vd Ve Vf Vg Vh Va (X ! 7) s;
        s = R 8 Va Vb Vc Vd Ve Vf Vg Vh (X ! 8) s;
        s = R 9 Vh Va Vb Vc Vd Ve Vf Vg (X ! 9) s;
        s = R 10 Vg Vh Va Vb Vc Vd Ve Vf (X ! 10) s;
        s = R 11 Vf Vg Vh Va Vb Vc Vd Ve (X ! 11) s;
        s = R 12 Ve Vf Vg Vh Va Vb Vc Vd (X ! 12) s;
        s = R 13 Vd Ve Vf Vg Vh Va Vb Vc (X ! 13) s;
        s = R 14 Vc Vd Ve Vf Vg Vh Va Vb (X ! 14) s;
        s = R 15 Vb Vc Vd Ve Vf Vg Vh Va (X ! 15) s
      in s)"

definition sha512_rounds_16_80 :: "nat \<Rightarrow> 64 vars \<times> u64 list \<Rightarrow> 64 vars \<times> u64 list" where
  "sha512_rounds_16_80 i sX =
     (let R = (\<lambda>i. ROUND_16 Sigma0_512 Sigma1_512 sigma0_512 sigma1_512 (K512 ! i) i);
        sX = R (i + 0) Va Vb Vc Vd Ve Vf Vg Vh sX;
        sX = R (i + 1) Vh Va Vb Vc Vd Ve Vf Vg sX;
        sX = R (i + 2) Vg Vh Va Vb Vc Vd Ve Vf sX;
        sX = R (i + 3) Vf Vg Vh Va Vb Vc Vd Ve sX;
        sX = R (i + 4) Ve Vf Vg Vh Va Vb Vc Vd sX;
        sX = R (i + 5) Vd Ve Vf Vg Vh Va Vb Vc sX;
        sX = R (i + 6) Vc Vd Ve Vf Vg Vh Va Vb sX;
        sX = R (i + 7) Vb Vc Vd Ve Vf Vg Vh Va sX;
        sX = R (i + 8) Va Vb Vc Vd Ve Vf Vg Vh sX;
        sX = R (i + 9) Vh Va Vb Vc Vd Ve Vf Vg sX;
        sX = R (i + 10) Vg Vh Va Vb Vc Vd Ve Vf sX;
        sX = R (i + 11) Vf Vg Vh Va Vb Vc Vd Ve sX;
        sX = R (i + 12) Ve Vf Vg Vh Va Vb Vc Vd sX;
        sX = R (i + 13) Vd Ve Vf Vg Vh Va Vb Vc sX;
        sX = R (i + 14) Vc Vd Ve Vf Vg Vh Va Vb sX;
        sX = R (i + 15) Vb Vc Vd Ve Vf Vg Vh Va sX
      in sX)"

definition sha512_block :: "u64 list \<Rightarrow> u8 list \<Rightarrow> u64 list" where
  "sha512_block state W =
     (let X = load_block_512 W;
          s = sha512_rounds_00_15 X (load_vars state);
          (s, X) = fold sha512_rounds_16_80 [16, 32, 48, 64] (s, X)
      in add_vars state s)"

definition sha512_block_data_order :: "u64 list \<Rightarrow> u8 list \<Rightarrow> nat \<Rightarrow> u64 list option" where
  "sha512_block_data_order state W num = while_num 128 sha512_block state W num"

section \<open>The collector\<close>

text \<open>The buffer \<open>sc_p\<close> is not initialised.\<close>

record sha512_ctx =
  sc_h :: "u64 list"
  sc_Nl :: u64
  sc_Nh :: u64
  sc_p :: "cell list"
  sc_num :: nat
  sc_md_len :: nat

definition SHA384_DIGEST_LENGTH :: nat where
  "SHA384_DIGEST_LENGTH = 48"

definition SHA512_DIGEST_LENGTH :: nat where
  "SHA512_DIGEST_LENGTH = 64"

definition SHA384_Init :: "sha512_ctx \<Rightarrow> sha512_ctx" where
  "SHA384_Init sha = sha\<lparr>sc_h :=
     [0xcbbb9d5dc1059ed8, 0x629a292a367cd507, 0x9159015a3070dd17,
      0x152fecd8f70e5939, 0x67332667ffc00b31, 0x8eb44a8768581511,
      0xdb0c2e0d64f98fa7, 0x47b5481dbefa4fa4],
     sc_Nl := 0, sc_Nh := 0, sc_num := 0, sc_md_len := SHA384_DIGEST_LENGTH\<rparr>"

definition SHA512_Init :: "sha512_ctx \<Rightarrow> sha512_ctx" where
  "SHA512_Init sha = sha\<lparr>sc_h :=
     [0x6a09e667f3bcc908, 0xbb67ae8584caa73b, 0x3c6ef372fe94f82b,
      0xa54ff53a5f1d36f1, 0x510e527fade682d1, 0x9b05688c2b3e6c1f,
      0x1f83d9abfb41bd6b, 0x5be0cd19137e2179],
     sc_Nl := 0, sc_Nh := 0, sc_num := 0, sc_md_len := SHA512_DIGEST_LENGTH\<rparr>"

text \<open>One block from the buffer, every byte of which must have been written.\<close>

definition block_from_buffer :: "sha512_ctx \<Rightarrow> sha512_ctx option" where
  "block_from_buffer c = do {
     p \<leftarrow> those (sc_p c);
     h \<leftarrow> sha512_block_data_order (sc_h c) p 1;
     Some (c\<lparr>sc_h := h\<rparr>) }"

text \<open>The loop over misaligned data, which copies every block into the buffer.\<close>

function misaligned_loop :: "sha512_ctx \<Rightarrow> u8 list \<Rightarrow> (sha512_ctx \<times> u8 list) option" where
  "misaligned_loop c data =
     (if length data \<ge> 128
      then do {
        c \<leftarrow> block_from_buffer (c\<lparr>sc_p := overwrite (sc_p c) 0 (map Some (take 128 data))\<rparr>);
        misaligned_loop c (drop 128 data) }
      else Some (c, data))"
  by pat_completeness auto

termination
  by (relation "measure (\<lambda>(c, data). length data)") auto

declare misaligned_loop.simps [simp del]

definition sha512_count :: "sha512_ctx \<Rightarrow> nat \<Rightarrow> sha512_ctx" where
  "sha512_count c len =
     (let l = sc_Nl c + push_bit 3 (of_nat len);
          c = (if l < sc_Nl c then c\<lparr>sc_Nh := sc_Nh c + 1\<rparr> else c)
      in c\<lparr>sc_Nh := sc_Nh c + of_nat (len div 2 ^ 61), sc_Nl := l\<rparr>)"

text \<open>
  \<open>misaligned\<close> says whether the platform needs aligned words and the data left at the second
  test is not aligned.
\<close>

definition sha512_rest :: "bool \<Rightarrow> sha512_ctx \<Rightarrow> u8 list \<Rightarrow> sha512_ctx option" where
  "sha512_rest misaligned c data = do {
     (c, data) \<leftarrow> (if length data \<ge> 128
       then if misaligned then misaligned_loop c data
         else do {
           h \<leftarrow> sha512_block_data_order (sc_h c) data (length data div 128);
           Some (c\<lparr>sc_h := h\<rparr>, drop (length data - length data mod 128) data) }
       else Some (c, data));
     Some (if length data \<noteq> 0
       then c\<lparr>sc_p := overwrite (sc_p c) 0 (map Some data), sc_num := length data\<rparr>
       else c) }"

definition SHA512_Update :: "bool \<Rightarrow> sha512_ctx \<Rightarrow> u8 list \<Rightarrow> sha512_ctx option" where
  "SHA512_Update misaligned c data =
     (let len = length data
      in if len = 0 then Some c
         else let c = sha512_count c len
           in if sc_num c \<noteq> 0
              then let n = size_sub 128 (sc_num c)
                in if len < n
                   then Some (c\<lparr>sc_p := overwrite (sc_p c) (sc_num c) (map Some data), sc_num := sc_num c + len\<rparr>)
                   else do {
                     c \<leftarrow> block_from_buffer
                       (c\<lparr>sc_p := overwrite (sc_p c) (sc_num c) (map Some (take n data)), sc_num := 0\<rparr>);
                     sha512_rest misaligned c (drop n data) }
              else sha512_rest misaligned c data)"

text \<open>The sixteen stores of the bit count at the end of the buffer, in increasing order.\<close>

definition count_be :: "u64 \<Rightarrow> u8 list" where
  "count_be l = map (\<lambda>k. ucast (drop_bit k l)) [56, 48, 40, 32, 24, 16, 8, 0]"

text \<open>The loop over the words of the state.\<close>

definition store_words :: "nat \<Rightarrow> u64 list \<Rightarrow> u8 list" where
  "store_words n h = concat (map (\<lambda>t. [ucast (drop_bit 56 t), ucast (drop_bit 48 t), ucast (drop_bit 40 t),
     ucast (drop_bit 32 t), ucast (drop_bit 24 t), ucast (drop_bit 16 t), ucast (drop_bit 8 t), ucast t]) (take n h))"

text \<open>\<open>md\<close> says whether there is an output; the result is \<open>None\<close> for the return value 0.\<close>

definition SHA512_Final :: "bool \<Rightarrow> sha512_ctx \<Rightarrow> (u8 list option \<times> sha512_ctx) option" where
  "SHA512_Final md sha = do {
     let n = sc_num sha;
     C_assert (n < length (sc_p sha));
     let p = overwrite (sc_p sha) n [Some 0x80];
     let n = n + 1;
     (sha, n) \<leftarrow> (if n > 128 - 16
       then do {
         sha \<leftarrow> block_from_buffer (sha\<lparr>sc_p := overwrite p n (replicate (128 - n) (Some 0))\<rparr>);
         Some (sha, 0) }
       else Some (sha\<lparr>sc_p := p\<rparr>, n));
     let p = overwrite (sc_p sha) n (replicate (128 - 16 - n) (Some 0));
     let p = overwrite p (128 - 16) (map Some (count_be (sc_Nh sha) @ count_be (sc_Nl sha)));
     sha \<leftarrow> block_from_buffer (sha\<lparr>sc_p := p\<rparr>);
     Some (if \<not> md then None
           else if sc_md_len sha = SHA384_DIGEST_LENGTH then Some (store_words (SHA384_DIGEST_LENGTH div 8) (sc_h sha))
           else if sc_md_len sha = SHA512_DIGEST_LENGTH then Some (store_words (SHA512_DIGEST_LENGTH div 8) (sc_h sha))
           else None, sha) }"

definition SHA512_Transform :: "sha512_ctx \<Rightarrow> bool \<Rightarrow> u8 list \<Rightarrow> sha512_ctx option" where
  "SHA512_Transform c misaligned block =
     (if misaligned then block_from_buffer (c\<lparr>sc_p := overwrite (sc_p c) 0 (map Some (take 128 block))\<rparr>)
      else do {
        h \<leftarrow> sha512_block_data_order (sc_h c) block 1;
        Some (c\<lparr>sc_h := h\<rparr>) })"

definition SHA384_Update :: "bool \<Rightarrow> sha512_ctx \<Rightarrow> u8 list \<Rightarrow> sha512_ctx option" where
  "SHA384_Update misaligned sha data = SHA512_Update misaligned sha data"

definition SHA384_Final :: "bool \<Rightarrow> sha512_ctx \<Rightarrow> (u8 list option \<times> sha512_ctx) option" where
  "SHA384_Final md sha = SHA512_Final md sha"

text \<open>A context on the stack: nothing is written yet.\<close>

definition sha512_raw :: sha512_ctx where
  "sha512_raw = \<lparr>sc_h = [], sc_Nl = 0, sc_Nh = 0, sc_p = replicate 128 None, sc_num = 0, sc_md_len = 0\<rparr>"

definition SHA384 :: "bool \<Rightarrow> u8 list \<Rightarrow> u8 list option option" where
  "SHA384 misaligned data = do {
     ctx \<leftarrow> SHA384_Update misaligned (SHA384_Init sha512_raw) data;
     (out, ctx) \<leftarrow> SHA384_Final True ctx;
     Some out }"

definition SHA512 :: "bool \<Rightarrow> u8 list \<Rightarrow> u8 list option option" where
  "SHA512 misaligned data = do {
     ctx \<leftarrow> SHA512_Update misaligned (SHA512_Init sha512_raw) data;
     (out, ctx) \<leftarrow> SHA512_Final True ctx;
     Some out }"

section \<open>FIPS 180-4\<close>

definition fips512_Sigma0 :: "u64 \<Rightarrow> u64" where
  "fips512_Sigma0 x = word_rotr 28 x XOR word_rotr 34 x XOR word_rotr 39 x"

definition fips512_Sigma1 :: "u64 \<Rightarrow> u64" where
  "fips512_Sigma1 x = word_rotr 14 x XOR word_rotr 18 x XOR word_rotr 41 x"

definition fips512_sigma0 :: "u64 \<Rightarrow> u64" where
  "fips512_sigma0 x = word_rotr 1 x XOR word_rotr 8 x XOR drop_bit 7 x"

definition fips512_sigma1 :: "u64 \<Rightarrow> u64" where
  "fips512_sigma1 x = word_rotr 19 x XOR word_rotr 61 x XOR drop_bit 6 x"

definition be_words_512 :: "u8 list \<Rightarrow> u64 list" where
  "be_words_512 b = map (\<lambda>t. of_nat (be_val (take 8 (drop (8 * t) b)))) [0..<16]"

definition sha512_compress :: "u64 list \<Rightarrow> u8 list \<Rightarrow> u64 list" where
  "sha512_compress st b =
     sha2_compress fips512_Sigma0 fips512_Sigma1 fips512_sigma0 fips512_sigma1 K512 (be_words_512 b) st"

definition sha512_pad :: "nat \<Rightarrow> u8 list" where
  "sha512_pad len = [0x80] @ replicate ((239 - len mod 128) mod 128) 0 @ be_bytes 16 (8 * len)"

definition sha512_hash :: "u64 list \<Rightarrow> u8 list \<Rightarrow> u64 list" where
  "sha512_hash iv msg = foldl sha512_compress iv (chunks 128 (msg @ sha512_pad (length msg)))"

definition fips_digest_512 :: "nat \<Rightarrow> u64 list \<Rightarrow> u8 list \<Rightarrow> u8 list" where
  "fips_digest_512 n iv msg = concat (map (\<lambda>w. be_bytes 8 (unat w)) (take n (sha512_hash iv msg)))"

section \<open>The block function is the compression function\<close>

lemma ROTR_rotr: "0 < n \<Longrightarrow> n < 64 \<Longrightarrow> ROTR x n = word_rotr n x"
proof -
  assume n: "0 < n" "n < 64"
  have "bit (ROTR x n) i = bit (word_rotr n x) i" if i: "i < 64" for i
  proof (cases "i + n < 64")
    case True
    then have "\<not> 64 - n \<le> i" by simp
    then show ?thesis using n i True by (simp add: ROTR_def bit_simps bit_word_rotr_iff add.commute)
  next
    case False
    then have "(i + n) mod 64 = i + n - 64" using i n by (simp add: le_mod_geq)
    moreover have "\<not> bit x (n + i)" using False by (auto dest: bit_imp_le_length)
    moreover have "64 - n \<le> i" using False by simp
    ultimately show ?thesis using n i False
      by (simp add: ROTR_def bit_simps bit_word_rotr_iff add.commute)
  qed
  then show ?thesis by (auto intro: bit_word_eqI)
qed

lemma fips512_functions:
  "Sigma0_512 = fips512_Sigma0" "Sigma1_512 = fips512_Sigma1" "sigma0_512 = fips512_sigma0" "sigma1_512 = fips512_sigma1"
  by (simp_all add: fun_eq_iff Sigma0_512_def Sigma1_512_def sigma0_512_def sigma1_512_def fips512_Sigma0_def
      fips512_Sigma1_def fips512_sigma0_def fips512_sigma1_def ROTR_rotr)

lemma or_byte:
  assumes "unat y < 2 ^ k" "k \<le> 56"
  shows "unat (push_bit k (ucast (b :: u8)) OR y :: u64) = unat b * 2 ^ k + unat y"
    and "unat (push_bit k (ucast (b :: u8)) OR y :: u64) < 2 ^ (k + 8)"
proof -
  have "unat b * 2 ^ k < 2 ^ 8 * 2 ^ k" using unat_u8_lt[of b] by simp
  also have "\<dots> \<le> 2 ^ 64" using power_increasing[of "8 + k" 64 "2 :: nat"] assms(2) by (simp add: power_add)
  finally show e: "unat (push_bit k (ucast b) OR y :: u64) = unat b * 2 ^ k + unat y"
    using unat_push_bit_or[of y k "ucast b"] assms(1) by (simp add: unat_ucast_u8_u64)
  have "unat b * 2 ^ k + unat y < (unat b + 1) * 2 ^ k" using assms(1) by simp
  also have "\<dots> \<le> 2 ^ 8 * 2 ^ k" using unat_u8_lt[of b] by (intro mult_le_mono1) simp
  finally show "unat (push_bit k (ucast b) OR y :: u64) < 2 ^ (k + 8)" by (simp only: e power_add mult.commute)
qed

lemma PULL64_be: "8 \<le> length x \<Longrightarrow> PULL64 x = of_nat (be_val (take 8 x))"
proof -
  assume "8 \<le> length x"
  then obtain a b c d e f g h xs where x: "x = a # b # c # d # e # f # g # h # xs"
    by (auto simp: numeral_eq_Suc Suc_le_length_iff)
  have y0: "unat (ucast h :: u64) < 2 ^ 8" using unat_u8_lt[of h] by (simp add: unat_ucast_u8_u64)
  have y1: "unat (push_bit 8 (ucast g) OR ucast h :: u64) < 2 ^ 16"
    and e1: "unat (push_bit 8 (ucast g) OR ucast h :: u64) = unat g * 2 ^ 8 + unat (ucast h :: u64)"
    using or_byte[of "ucast h" 8 g] y0 by simp_all
  have y2: "unat (push_bit 16 (ucast f) OR push_bit 8 (ucast g) OR ucast h :: u64) < 2 ^ 24"
    and e2: "unat (push_bit 16 (ucast f) OR push_bit 8 (ucast g) OR ucast h :: u64) = unat f * 2 ^ 16 + unat (push_bit 8 (ucast g) OR ucast h :: u64)"
    using or_byte[of "push_bit 8 (ucast g) OR ucast h" 16 f] y1 by simp_all
  have y3: "unat (push_bit 24 (ucast e) OR push_bit 16 (ucast f) OR push_bit 8 (ucast g) OR ucast h :: u64) < 2 ^ 32"
    and e3: "unat (push_bit 24 (ucast e) OR push_bit 16 (ucast f) OR push_bit 8 (ucast g) OR ucast h :: u64) = unat e * 2 ^ 24 + unat (push_bit 16 (ucast f) OR push_bit 8 (ucast g) OR ucast h :: u64)"
    using or_byte[of "push_bit 16 (ucast f) OR push_bit 8 (ucast g) OR ucast h" 24 e] y2 by simp_all
  have y4: "unat (push_bit 32 (ucast d) OR push_bit 24 (ucast e) OR push_bit 16 (ucast f) OR push_bit 8 (ucast g) OR ucast h :: u64) < 2 ^ 40"
    and e4: "unat (push_bit 32 (ucast d) OR push_bit 24 (ucast e) OR push_bit 16 (ucast f) OR push_bit 8 (ucast g) OR ucast h :: u64) = unat d * 2 ^ 32 + unat (push_bit 24 (ucast e) OR push_bit 16 (ucast f) OR push_bit 8 (ucast g) OR ucast h :: u64)"
    using or_byte[of "push_bit 24 (ucast e) OR push_bit 16 (ucast f) OR push_bit 8 (ucast g) OR ucast h" 32 d] y3 by simp_all
  have y5: "unat (push_bit 40 (ucast c) OR push_bit 32 (ucast d) OR push_bit 24 (ucast e) OR push_bit 16 (ucast f) OR push_bit 8 (ucast g) OR ucast h :: u64) < 2 ^ 48"
    and e5: "unat (push_bit 40 (ucast c) OR push_bit 32 (ucast d) OR push_bit 24 (ucast e) OR push_bit 16 (ucast f) OR push_bit 8 (ucast g) OR ucast h :: u64) = unat c * 2 ^ 40 + unat (push_bit 32 (ucast d) OR push_bit 24 (ucast e) OR push_bit 16 (ucast f) OR push_bit 8 (ucast g) OR ucast h :: u64)"
    using or_byte[of "push_bit 32 (ucast d) OR push_bit 24 (ucast e) OR push_bit 16 (ucast f) OR push_bit 8 (ucast g) OR ucast h" 40 c] y4 by simp_all
  have y6: "unat (push_bit 48 (ucast b) OR push_bit 40 (ucast c) OR push_bit 32 (ucast d) OR push_bit 24 (ucast e) OR push_bit 16 (ucast f) OR push_bit 8 (ucast g) OR ucast h :: u64) < 2 ^ 56"
    and e6: "unat (push_bit 48 (ucast b) OR push_bit 40 (ucast c) OR push_bit 32 (ucast d) OR push_bit 24 (ucast e) OR push_bit 16 (ucast f) OR push_bit 8 (ucast g) OR ucast h :: u64) = unat b * 2 ^ 48 + unat (push_bit 40 (ucast c) OR push_bit 32 (ucast d) OR push_bit 24 (ucast e) OR push_bit 16 (ucast f) OR push_bit 8 (ucast g) OR ucast h :: u64)"
    using or_byte[of "push_bit 40 (ucast c) OR push_bit 32 (ucast d) OR push_bit 24 (ucast e) OR push_bit 16 (ucast f) OR push_bit 8 (ucast g) OR ucast h" 48 b] y5 by simp_all
  have y7: "unat (push_bit 56 (ucast a) OR push_bit 48 (ucast b) OR push_bit 40 (ucast c) OR push_bit 32 (ucast d) OR push_bit 24 (ucast e) OR push_bit 16 (ucast f) OR push_bit 8 (ucast g) OR ucast h :: u64) < 2 ^ 64"
    and e7: "unat (push_bit 56 (ucast a) OR push_bit 48 (ucast b) OR push_bit 40 (ucast c) OR push_bit 32 (ucast d) OR push_bit 24 (ucast e) OR push_bit 16 (ucast f) OR push_bit 8 (ucast g) OR ucast h :: u64) = unat a * 2 ^ 56 + unat (push_bit 48 (ucast b) OR push_bit 40 (ucast c) OR push_bit 32 (ucast d) OR push_bit 24 (ucast e) OR push_bit 16 (ucast f) OR push_bit 8 (ucast g) OR ucast h :: u64)"
    using or_byte[of "push_bit 48 (ucast b) OR push_bit 40 (ucast c) OR push_bit 32 (ucast d) OR push_bit 24 (ucast e) OR push_bit 16 (ucast f) OR push_bit 8 (ucast g) OR ucast h" 56 a] y6 by simp_all
  have "unat (PULL64 x) = be_val (take 8 x)"
    using e1 e2 e3 e4 e5 e6 e7 by (simp add: PULL64_def x be_val_def unat_ucast_u8_u64)
  then show ?thesis by (rule word_eq_of_nat)
qed

lemma load_block_512_words: "length b = 128 \<Longrightarrow> load_block_512 b = be_words_512 b"
  by (simp add: load_block_512_def be_words_512_def PULL64_be)

lemma length_load_block_512 [simp]: "length (load_block_512 b) = 16"
  by (simp add: load_block_512_def)

abbreviation fips_step_512 :: "u64 list \<Rightarrow> nat \<Rightarrow> u64 list \<Rightarrow> u64 list" where
  "fips_step_512 m t \<equiv> sha2_step Sigma0_512 Sigma1_512 (K512 ! t) (sha2_W sigma0_512 sigma1_512 m t)"

lemma rounds_512_00_15:
  "view [Va, Vb, Vc, Vd, Ve, Vf, Vg, Vh] (sha512_rounds_00_15 m s) =
   fold (fips_step_512 m) [0..<16] (view [Va, Vb, Vc, Vd, Ve, Vf, Vg, Vh] s)"
proof -
  have u: "[0..<16] = [0, 1, 2, 3, 4, 5, 6, 7, 8, 9, 10, 11, 12, 13, 14, 15 :: nat]" by (simp add: upt_rec)
  show ?thesis
    unfolding u sha512_rounds_00_15_def Let_def
    by (simp add: ROUND_view sha2_W_first)
qed

lemma rounds_512_16_80:
  assumes "round_rel (sha2_W sigma0_512 sigma1_512 m) i [Va, Vb, Vc, Vd, Ve, Vf, Vg, Vh] sX st" "16 \<le> i"
  shows "round_rel (sha2_W sigma0_512 sigma1_512 m) (i + 16) [Va, Vb, Vc, Vd, Ve, Vf, Vg, Vh]
    (sha512_rounds_16_80 i sX) (fold (fips_step_512 m) [i..<i + 16] st)"
proof -
  note R = ROUND_16_rel[where ?S0.0 = Sigma0_512 and ?S1.0 = Sigma1_512]
  note r1 = R[OF assms(1,2), where k = "K512 ! (i + 0)"]
  note r2 = R[OF r1, where k = "K512 ! (i + 1)"]
  note r3 = R[OF r2, where k = "K512 ! (i + 2)"]
  note r4 = R[OF r3, where k = "K512 ! (i + 3)"]
  note r5 = R[OF r4, where k = "K512 ! (i + 4)"]
  note r6 = R[OF r5, where k = "K512 ! (i + 5)"]
  note r7 = R[OF r6, where k = "K512 ! (i + 6)"]
  note r8 = R[OF r7, where k = "K512 ! (i + 7)"]
  note r9 = R[OF r8, where k = "K512 ! (i + 8)"]
  note r10 = R[OF r9, where k = "K512 ! (i + 9)"]
  note r11 = R[OF r10, where k = "K512 ! (i + 10)"]
  note r12 = R[OF r11, where k = "K512 ! (i + 11)"]
  note r13 = R[OF r12, where k = "K512 ! (i + 12)"]
  note r14 = R[OF r13, where k = "K512 ! (i + 13)"]
  note r15 = R[OF r14, where k = "K512 ! (i + 14)"]
  note r16 = R[OF r15, where k = "K512 ! (i + 15)"]

  have u: "[i..<i + 16] = [i, Suc i, Suc (Suc i), i + 3, i + 4, i + 5, i + 6, i + 7, i + 8, i + 9, i + 10,
      i + 11, i + 12, i + 13, i + 14, i + 15]" by (simp add: upt_rec)
  show ?thesis
    unfolding u sha512_rounds_16_80_def Let_def
    using r16 assms(2) by (simp add: numeral_eq_Suc)
qed

lemma K512_length: "length K512 = 80"
  by (simp add: K512_def)

lemma sha512_block_compress:
  assumes "length st = 8" "length b = 128"
  shows "sha512_block st b = sha512_compress st b"
proof -
  let ?m = "load_block_512 b" and ?rs = "[Va, Vb, Vc, Vd, Ve, Vf, Vg, Vh]"
  let ?W = "sha2_W sigma0_512 sigma1_512 ?m" and ?f = "fips_step_512 ?m"
  define s1 where "s1 = sha512_rounds_00_15 ?m (load_vars st)"
  have "view ?rs s1 = fold ?f [0..<16] st"
    by (simp only: s1_def rounds_512_00_15 view_load[OF assms(1)])
  then have r1: "round_rel ?W 16 ?rs (s1, ?m) (fold ?f [0..<16] st)"
    by (simp add: round_rel_def window_start)
  note r2 = rounds_512_16_80[OF r1, simplified]
  note r3 = rounds_512_16_80[OF r2, simplified]
  note r4 = rounds_512_16_80[OF r3, simplified]
  note r5 = rounds_512_16_80[OF r4, simplified]
  define sX where "sX = fold sha512_rounds_16_80 [16, 32, 48, 64] (s1, ?m)"
  have u: "[0..<80] = [0..<16] @ [16..<32] @ [32..<48] @ [48..<64] @ [64..<80 :: nat]"
    by (simp add: upt_rec)
  have "view ?rs (fst sX) = fold ?f [0..<80] st"
    using r5 unfolding u fold_append comp_def sX_def by (simp add: round_rel_def)
  moreover have "sha512_block st b = add_vars st (fst sX)"
    by (simp add: sha512_block_def Let_def s1_def sX_def split_beta)
  ultimately show ?thesis
    using assms by (simp add: add_vars_view sha512_compress_def sha2_compress_def
        fips512_functions[symmetric] load_block_512_words[symmetric] K512_length)
qed

lemma length_sha512_compress: "length st = 8 \<Longrightarrow> length (sha512_compress st b) = 8"
  by (simp add: sha512_compress_def sha2_compress_def length_sha2_fold)

lemma sha512_blocks:
  "length st = 8 \<Longrightarrow> 128 * n \<le> length data \<Longrightarrow>
   sha512_block_data_order st data n = Some (foldl sha512_compress st (chunks 128 (take (128 * n) data)))"
  using foldl_chunks_cong[of 8 128 sha512_block sha512_compress st "take (128 * n) data"]
  by (simp add: sha512_block_data_order_def while_num_fold sha512_block_compress length_sha512_compress)

section \<open>The collector\<close>

lemma those_Some [simp]: "those (map Some xs) = Some xs"
  by (induction xs) simp_all

lemma block_from_buffer_ok:
  assumes "length (sc_h c) = 8" "length b = 128"
  shows "block_from_buffer (c\<lparr>sc_p := map Some b\<rparr>) = Some (c\<lparr>sc_p := map Some b, sc_h := sha512_compress (sc_h c) b\<rparr>)"
  using sha512_blocks[of "sc_h c" 1 b] assms by (simp add: block_from_buffer_def chunks_single)

definition sha512_bits :: "sha512_ctx \<Rightarrow> nat" where
  "sha512_bits c = unat (sc_Nh c) * 2 ^ 64 + unat (sc_Nl c)"

lemma sha512_count_bits: "sha512_bits (sha512_count c len) = (sha512_bits c + 8 * len) mod 2 ^ 128"
  using two_word_count[of "sc_Nl c" len "sc_Nh c"]
  by (simp add: sha512_bits_def sha512_count_def Let_def split: if_splits)

lemma sha512_count_fields [simp]:
  "sc_h (sha512_count c len) = sc_h c" "sc_p (sha512_count c len) = sc_p c"
  "sc_num (sha512_count c len) = sc_num c" "sc_md_len (sha512_count c len) = sc_md_len c"
  by (simp_all add: sha512_count_def Let_def)

lemma sha512_bits_fields [simp]:
  "sha512_bits (c\<lparr>sc_h := h\<rparr>) = sha512_bits c" "sha512_bits (c\<lparr>sc_p := p\<rparr>) = sha512_bits c"
  "sha512_bits (c\<lparr>sc_num := n\<rparr>) = sha512_bits c"
  by (simp_all add: sha512_bits_def)

lemma count_be_bytes: "count_be l = be_bytes 8 (unat l)"
proof -
  have b: "(ucast (drop_bit k l) :: u8) = of_nat (unat l div 2 ^ k)" for k
  proof -
    have "(ucast (drop_bit k l) :: u8) = of_nat (unat (drop_bit k l))" by (simp only: of_nat_unat)
    moreover have "unat (drop_bit k l) = unat l div 2 ^ k"
      using trans[OF unat_drop_bit_eq[of k l] drop_bit_eq_div[of k "unat l"]] .
    ultimately show ?thesis by simp
  qed
  have e: "(8 :: nat) = Suc (Suc (Suc (Suc (Suc (Suc (Suc (Suc 0)))))))" by simp
  have "be_bytes 8 (unat l) = map (\<lambda>k. of_nat (unat l div 2 ^ k)) [56, 48, 40, 32, 24, 16, 8, 0]"
    unfolding e be_bytes.simps by (simp add: div_mult2_eq[symmetric])
  then show ?thesis by (simp only: count_be_def b)
qed

lemma count_be_append: "count_be (sc_Nh c) @ count_be (sc_Nl c) = be_bytes 16 (sha512_bits c)"
  using be_bytes_append[of "unat (sc_Nl c)" 8 8 "unat (sc_Nh c)"] unsigned_less[of "sc_Nl c", where 'a=nat]
  by (simp add: count_be_bytes sha512_bits_def)

lemma store_words_be: "store_words n h = concat (map (\<lambda>w. be_bytes 8 (unat w)) (take n h))"
  by (simp add: store_words_def count_be_bytes[symmetric] count_be_def)

text \<open>Everything but the hash state and the buffer is left alone.\<close>

definition sha512_same :: "sha512_ctx \<Rightarrow> sha512_ctx \<Rightarrow> bool" where
  "sha512_same c c' \<longleftrightarrow> sha512_bits c' = sha512_bits c \<and> sc_num c' = sc_num c \<and> sc_md_len c' = sc_md_len c"

lemma misaligned_loop_ok:
  "length (sc_h c) = 8 \<Longrightarrow> length (sc_p c) = 128 \<Longrightarrow>
   \<exists>c'. misaligned_loop c data = Some (c', rest 128 data) \<and> length (sc_p c') = 128 \<and>
     sc_h c' = foldl sha512_compress (sc_h c) (chunks 128 data) \<and> sha512_same c c'"
proof (induction c data rule: misaligned_loop.induct)
  case (1 c data)
  show ?case
  proof (cases "length data < 128")
    case True
    then show ?thesis using 1(3) by (simp add: misaligned_loop.simps[of c data] rest_short sha512_same_def)
  next
    case False
    let ?b = "take 128 data" and ?c = "c\<lparr>sc_p := map Some (take 128 data)\<rparr>"
    let ?c1 = "c\<lparr>sc_p := map Some ?b, sc_h := sha512_compress (sc_h c) ?b\<rparr>"
    have lb: "length ?b = 128" using False by simp
    have ov: "overwrite (sc_p c) 0 (map Some ?b) = map Some ?b" using 1(3) lb by (simp add: overwrite_def)
    have blk: "block_from_buffer (c\<lparr>sc_p := overwrite (sc_p c) 0 (map Some ?b)\<rparr>) = Some ?c1"
      unfolding ov by (rule block_from_buffer_ok[OF 1(2) lb])
    have l1: "length (sc_h ?c1) = 8" "length (sc_p ?c1) = 128" using 1(2) lb by (simp_all add: length_sha512_compress)
    obtain c' where c': "misaligned_loop ?c1 (drop 128 data) = Some (c', rest 128 (drop 128 data))"
      "length (sc_p c') = 128" "sc_h c' = foldl sha512_compress (sc_h ?c1) (chunks 128 (drop 128 data))"
      "sha512_same ?c1 c'"
      using 1(1)[OF _ blk l1] False by auto
    have e: "data = ?b @ drop 128 data" by simp
    have "chunks 128 data = ?b # chunks 128 (drop 128 data)"
      using chunks_Cons[OF _ lb, of "drop 128 data"] by simp
    moreover have "rest 128 data = rest 128 (drop 128 data)"
      using rest_append[of 128 ?b "drop 128 data"] lb by simp
    ultimately show ?thesis
      using c' blk False by (simp add: misaligned_loop.simps[of c data] sha512_same_def)
  qed
qed

definition sha512_rep :: "u64 list \<Rightarrow> sha512_ctx \<Rightarrow> u8 list \<Rightarrow> bool" where
  "sha512_rep iv c msg \<longleftrightarrow>
     length iv = 8 \<and> sc_h c = foldl sha512_compress iv (chunks 128 msg) \<and>
     length (sc_p c) = 128 \<and> sc_num c = length msg mod 128 \<and>
     take (length msg mod 128) (sc_p c) = map Some (rest 128 msg) \<and> sha512_bits c = 8 * length msg mod 2 ^ 128"

lemma length_foldl_compress: "length st = 8 \<Longrightarrow> length (foldl sha512_compress st bs) = 8"
  by (induction bs arbitrary: st) (simp_all add: length_sha512_compress)

lemma sha512_rest_rep:
  assumes "length iv = 8" "sc_h c = foldl sha512_compress iv (chunks 128 msg)" "length (sc_p c) = 128"
    and "sc_num c = 0" "128 dvd length msg" "sha512_bits c = 8 * length (msg @ data) mod 2 ^ 128"
  shows "\<exists>c'. sha512_rest mis c data = Some c' \<and> sha512_rep iv c' (msg @ data) \<and> sc_md_len c' = sc_md_len c"
proof -
  have h: "length (sc_h c) = 8" using assms(1,2) by (simp add: length_foldl_compress)
  have cat: "chunks 128 (msg @ data) = chunks 128 msg @ chunks 128 data"
    using assms(5) by (intro chunks_append) simp_all
  have r: "rest 128 (msg @ data) = rest 128 data" "length (msg @ data) mod 128 = length (rest 128 data)"
    using assms(5) by (simp_all add: rest_append mod_add_left_eq[symmetric])
  obtain c1 where c1: "(if length data \<ge> 128
       then if mis then misaligned_loop c data
         else do {
           h \<leftarrow> sha512_block_data_order (sc_h c) data (length data div 128);
           Some (c\<lparr>sc_h := h\<rparr>, drop (length data - length data mod 128) data) }
       else Some (c, data)) = Some (c1, rest 128 data)"
    and h1: "sc_h c1 = foldl sha512_compress iv (chunks 128 (msg @ data))" "length (sc_p c1) = 128" "sha512_same c c1"
  proof (cases "length data \<ge> 128 \<and> \<not> mis")
    case True
    have "drop (length data - length data mod 128) data = rest 128 data"
      by (simp add: rest_def minus_mod_eq_mult_div)
    moreover have "sha512_block_data_order (sc_h c) data (length data div 128) =
        Some (foldl sha512_compress (sc_h c) (chunks 128 data))"
      using sha512_blocks[OF h, of "length data div 128" data] by (simp add: chunks_take)
    ultimately show ?thesis
      using True assms(2,3) cat by (intro that[of "c\<lparr>sc_h := foldl sha512_compress (sc_h c) (chunks 128 data)\<rparr>"])
        (simp_all add: sha512_same_def)
  next
    case False
    show ?thesis
    proof (cases "length data \<ge> 128")
      case True
      then show ?thesis using False misaligned_loop_ok[OF h assms(3), of data] assms(2) cat that by auto
    next
      case short: False
      then show ?thesis using assms(2,3) cat that[of c] by (simp add: sha512_same_def rest_short)
    qed
  qed
  have lr: "rest 128 data = [] \<Longrightarrow> length data mod 128 = 0" by (metis length_rest list.size(3))
  show ?thesis
    using c1 h1 assms(1,4,6) r lr
    by (auto simp: sha512_rest_def sha512_rep_def sha512_same_def overwrite_def)
qed

lemma sha512_update_rep:
  assumes "sha512_rep iv c msg"
  shows "\<exists>c'. SHA512_Update mis c data = Some c' \<and> sha512_rep iv c' (msg @ data) \<and> sc_md_len c' = sc_md_len c"
proof -
  define n where "n = length msg mod 128"
  let ?c = "sha512_count c (length data)"
  have n: "n < 128" by (simp add: n_def)
  have iv: "length iv = 8" and h: "sc_h c = foldl sha512_compress iv (chunks 128 msg)"
    and d: "length (sc_p c) = 128" "sc_num c = n" "take n (sc_p c) = map Some (rest 128 msg)"
    and bits: "sha512_bits c = 8 * length msg mod 2 ^ 128"
    using assms by (simp_all add: sha512_rep_def n_def)
  have hl: "length (sc_h c) = 8" using h iv by (simp add: length_foldl_compress)
  have bits': "sha512_bits ?c = 8 * length (msg @ data) mod 2 ^ 128"
    using sha512_count_bits[of c "length data"] bits by (simp add: distrib_left mod_add_left_eq)
  have sub: "n \<noteq> 0 \<Longrightarrow> size_sub 128 n = 128 - n" using n by (intro size_sub_exact) (simp_all add: SIZE_MOD_def)
  consider "data = []" | "data \<noteq> []" "n = 0" | "data \<noteq> []" "n \<noteq> 0" "length data < 128 - n"
    | "data \<noteq> []" "n \<noteq> 0" "128 - n \<le> length data" by linarith
  then show ?thesis
  proof cases
    case 1
    then show ?thesis using assms by (simp add: SHA512_Update_def Let_def)
  next
    case 2
    have "128 dvd length msg" using 2(2) by (simp add: n_def mod_eq_0_iff_dvd)
    then show ?thesis
      using sha512_rest_rep[OF iv, of ?c msg data mis] h d bits' 2 by (simp add: SHA512_Update_def Let_def)
  next
    case 3
    then have r: "rest 128 (msg @ data) = rest 128 msg @ data" by (intro rest_rest) (simp add: n_def)
    have s: "chunks 128 (msg @ data) = chunks 128 msg"
      using chunks_rest[of 128 msg data] 3 by (simp add: n_def)
    have m: "length (msg @ data) mod 128 = n + length data"
      using 3 by (simp add: n_def mod_add_left_eq[symmetric, of "length msg"])
    have "take (n + length data) (overwrite (sc_p c) n (map Some data)) = map Some (rest 128 msg @ data)"
      using d take_overwrite_upto[of n "sc_p c" "map Some data"] n by simp
    then show ?thesis
      using 3 h iv d n bits' r s m sub by (simp add: SHA512_Update_def Let_def sha512_rep_def)
  next
    case 4
    let ?t = "take (128 - n) data" and ?d = "drop (128 - n) data"
    let ?b = "rest 128 msg @ ?t"
    have t: "length ?t = 128 - n" using 4 by simp
    have ov: "overwrite (sc_p c) n (map Some ?t) = map Some ?b" using d n t by (simp add: overwrite_def)
    have lb: "length ?b = 128" using n t by (simp add: n_def)
    have c: "chunks 128 (msg @ ?t) = chunks 128 msg @ [?b]"
      using chunks_rest[of 128 msg ?t] chunks_single[OF _ lb] by simp
    have dvd: "128 dvd length (msg @ ?t)"
    proof -
      have "128 * (length msg div 128) + n = length msg" unfolding n_def by simp
      then have "length (msg @ ?t) = 128 * (length msg div 128 + 1)" using n by (simp only: length_append t distrib_left)
      then show ?thesis by simp
    qed
    let ?c0 = "?c\<lparr>sc_num := 0\<rparr>"
    have b0: "block_from_buffer (?c0\<lparr>sc_p := map Some ?b\<rparr>) =
        Some (?c0\<lparr>sc_p := map Some ?b, sc_h := sha512_compress (sc_h ?c0) ?b\<rparr>)"
      using hl lb by (intro block_from_buffer_ok) simp_all
    have blk: "block_from_buffer (?c\<lparr>sc_p := overwrite (sc_p c) n (map Some ?t), sc_num := 0\<rparr>) =
        Some (?c0\<lparr>sc_p := map Some ?b, sc_h := sha512_compress (sc_h ?c0) ?b\<rparr>)"
    proof -
      have e: "?c\<lparr>sc_p := map Some ?b, sc_num := 0\<rparr> = ?c0\<lparr>sc_p := map Some ?b\<rparr>"
        by (rule sha512_ctx.equality) simp_all
      show ?thesis unfolding ov e by (rule b0)
    qed
    have "\<exists>c'. sha512_rest mis (?c0\<lparr>sc_p := map Some ?b, sc_h := sha512_compress (sc_h ?c0) ?b\<rparr>) ?d =
        Some c' \<and> sha512_rep iv c' ((msg @ ?t) @ ?d) \<and>
        sc_md_len c' = sc_md_len (?c0\<lparr>sc_p := map Some ?b, sc_h := sha512_compress (sc_h ?c0) ?b\<rparr>)"
      using h c dvd bits' lb by (intro sha512_rest_rep[OF iv]) simp_all
    then show ?thesis
      using 4 d blk sub by (simp add: SHA512_Update_def Let_def)
  qed
qed

lemma sha512_feed_rep:
  "sha512_rep iv c msg \<Longrightarrow>
   \<exists>c'. feed (SHA512_Update mis) c ps = Some c' \<and> sha512_rep iv c' (msg @ concat ps) \<and> sc_md_len c' = sc_md_len c"
proof (induction ps arbitrary: c msg)
  case (Cons p ps)
  obtain c1 where "SHA512_Update mis c p = Some c1" "sha512_rep iv c1 (msg @ p)" "sc_md_len c1 = sc_md_len c"
    using sha512_update_rep[OF Cons.prems] by blast
  then show ?case using Cons.IH[of c1 "msg @ p"] by auto
qed simp

text \<open>The digest, if the length is one of the two.\<close>

definition sha512_out :: "bool \<Rightarrow> nat \<Rightarrow> u64 list \<Rightarrow> u8 list \<Rightarrow> u8 list option" where
  "sha512_out md n iv msg = (if md \<and> (n = 48 \<or> n = 64) then Some (fips_digest_512 (n div 8) iv msg) else None)"

lemma sha512_final_rep:
  assumes "sha512_rep iv c msg"
  shows "\<exists>c'. SHA512_Final md c = Some (sha512_out md (sc_md_len c) iv msg, c')"
proof -
  define n where "n = length msg mod 128"
  define r where "r = rest 128 msg"
  define cnt where "cnt = be_bytes 16 (8 * length msg)"
  have n: "n < 128" by (simp add: n_def)
  have iv: "length iv = 8" and h: "sc_h c = foldl sha512_compress iv (chunks 128 msg)"
    and d: "length (sc_p c) = 128" "sc_num c = n" "take n (sc_p c) = map Some r"
    and bits: "sha512_bits c = 8 * length msg mod 2 ^ 128"
    using assms by (simp_all add: sha512_rep_def n_def r_def)
  have hl: "length (sc_h c) = 8" using h iv by (simp add: length_foldl_compress)
  have lr: "length r = n" by (simp add: r_def n_def)
  have lc: "length cnt = 16" by (simp add: cnt_def)
  have cnt: "count_be (sc_Nh c) @ count_be (sc_Nl c) = cnt"
    using be_bytes_mod[of 16 "8 * length msg"] by (simp add: count_be_append bits cnt_def)
  have b1: "overwrite (sc_p c) n [Some 0x80] = map Some (r @ [0x80]) @ drop (n + 1) (sc_p c)"
    using d by (simp add: overwrite_def)
  have md: "sha512_hash iv msg = foldl sha512_compress (sc_h c) (chunks 128 (r @ sha512_pad (length msg)))"
    unfolding sha512_hash_def chunks_rest[of 128 msg, simplified] by (simp add: h r_def)
  show ?thesis
  proof (cases "n + 1 > 112")
    case False
    let ?x = "r @ [0x80] @ replicate (111 - n) 0 @ cnt"
    have "sha512_pad (length msg) = [0x80] @ replicate (111 - n) 0 @ cnt"
      using False by (simp add: sha512_pad_def cnt_def n_def[symmetric] le_mod_geq)
    then have p: "r @ sha512_pad (length msg) = ?x" by simp
    have lx: "length ?x = 128" using lr lc False by simp
    have b2: "overwrite (map Some (r @ [0x80]) @ drop (n + 1) (sc_p c)) (n + 1) (replicate (111 - n) (Some 0)) =
        map Some (r @ [0x80] @ replicate (111 - n) 0) @ drop 112 (sc_p c)"
      using lr False by (simp add: overwrite_def drop_Cons')
    have b3: "overwrite (map Some (r @ [0x80] @ replicate (111 - n) 0) @ drop 112 (sc_p c)) 112 (map Some cnt) = map Some ?x"
    proof -
      have "length (map Some (r @ [0x80] @ replicate (111 - n) 0)) = 112" using lr False by simp
      then show ?thesis using lc d unfolding overwrite_def by (simp only: take_append drop_append) simp
    qed
    have blk: "block_from_buffer (c\<lparr>sc_p := map Some ?x\<rparr>) = Some (c\<lparr>sc_p := map Some ?x, sc_h := sha512_compress (sc_h c) ?x\<rparr>)"
      by (rule block_from_buffer_ok[OF hl lx])
    have "sha512_hash iv msg = sha512_compress (sc_h c) ?x"
      using chunks_single[OF _ lx] unfolding md p by (simp del: append_Cons append_Nil)
    then show ?thesis
      unfolding SHA512_Final_def Let_def d(2)
      using b1 b2 b3 blk False d cnt n
      by (simp add: sha512_out_def fips_digest_512_def store_words_be SHA384_DIGEST_LENGTH_def SHA512_DIGEST_LENGTH_def
          del: map_append)
  next
    case True
    let ?x = "r @ [0x80] @ replicate (127 - n) 0" and ?y = "replicate 112 0 @ cnt"
    have "sha512_pad (length msg) = [0x80] @ replicate (127 - n + 112) 0 @ cnt"
      using True n by (simp add: sha512_pad_def cnt_def n_def[symmetric])
    then have p: "r @ sha512_pad (length msg) = ?x @ ?y" by (simp only: replicate_add append_assoc)
    have lx: "length ?x = 128" and ly: "length ?y = 128" using lr lc n by simp_all
    have b2: "overwrite (map Some (r @ [0x80]) @ drop (n + 1) (sc_p c)) (n + 1) (replicate (127 - n) (Some 0)) = map Some ?x"
      using lr n d by (simp add: overwrite_def)
    have b3: "overwrite (overwrite (map Some ?x) 0 (replicate 112 (Some 0))) 112 (map Some cnt) = map Some ?y"
      using lx lc by (simp add: overwrite_def)
    let ?c1 = "c\<lparr>sc_p := map Some ?x, sc_h := sha512_compress (sc_h c) ?x\<rparr>"
    have blk: "block_from_buffer (c\<lparr>sc_p := map Some ?x\<rparr>) = Some ?c1"
      by (rule block_from_buffer_ok[OF hl lx])
    have "length (sc_h ?c1) = 8" using hl by (simp add: length_sha512_compress)
    then have blk2: "block_from_buffer (?c1\<lparr>sc_p := map Some ?y\<rparr>) =
        Some (?c1\<lparr>sc_p := map Some ?y, sc_h := sha512_compress (sc_h ?c1) ?y\<rparr>)"
      by (rule block_from_buffer_ok[OF _ ly])
    have "chunks 128 (r @ sha512_pad (length msg)) = [?x, ?y]"
      unfolding p using lx ly by (simp add: chunks_Cons chunks_single del: append_assoc)
    then have "sha512_hash iv msg = sha512_compress (sha512_compress (sc_h c) ?x) ?y" unfolding md by simp
    then show ?thesis
      unfolding SHA512_Final_def Let_def d(2)
      using b1 b2 b3 blk blk2 True d cnt n
      by (simp add: sha512_out_def fips_digest_512_def store_words_be SHA384_DIGEST_LENGTH_def SHA512_DIGEST_LENGTH_def
          del: map_append)
  qed
qed

lemma sha512_init_rep:
  assumes "length (sc_p c) = 128"
  shows "sha512_rep (sc_h (SHA512_Init c)) (SHA512_Init c) []" "sha512_rep (sc_h (SHA384_Init c)) (SHA384_Init c) []"
  using assms by (simp_all add: sha512_rep_def SHA512_Init_def SHA384_Init_def sha512_bits_def rest_def)

definition fips_sha512 :: "u8 list \<Rightarrow> u8 list" where
  "fips_sha512 msg = fips_digest_512 8 (sc_h (SHA512_Init sha512_raw)) msg"

definition fips_sha384 :: "u8 list \<Rightarrow> u8 list" where
  "fips_sha384 msg = fips_digest_512 6 (sc_h (SHA384_Init sha512_raw)) msg"

lemma SHA512_feed:
  assumes "length (sc_p c) = 128"
  shows "\<exists>c1 c2. feed (SHA512_Update mis) (SHA512_Init c) ps = Some c1 \<and>
    SHA512_Final True c1 = Some (Some (fips_sha512 (concat ps)), c2)"
proof -
  obtain c1 where c1: "feed (SHA512_Update mis) (SHA512_Init c) ps = Some c1"
    "sha512_rep (sc_h (SHA512_Init c)) c1 (concat ps)" "sc_md_len c1 = sc_md_len (SHA512_Init c)"
    using sha512_feed_rep[OF sha512_init_rep(1)[OF assms], of mis ps] by auto
  then show ?thesis
    using sha512_final_rep[OF c1(2), of True]
    by (auto simp: sha512_out_def fips_sha512_def SHA512_Init_def SHA512_DIGEST_LENGTH_def)
qed

lemma SHA384_feed:
  assumes "length (sc_p c) = 128"
  shows "\<exists>c1 c2. feed (SHA384_Update mis) (SHA384_Init c) ps = Some c1 \<and>
    SHA384_Final True c1 = Some (Some (fips_sha384 (concat ps)), c2)"
proof -
  have u: "SHA384_Update mis = SHA512_Update mis" by (simp add: fun_eq_iff SHA384_Update_def)
  obtain c1 where c1: "feed (SHA384_Update mis) (SHA384_Init c) ps = Some c1"
    "sha512_rep (sc_h (SHA384_Init c)) c1 (concat ps)" "sc_md_len c1 = sc_md_len (SHA384_Init c)"
    using sha512_feed_rep[OF sha512_init_rep(2)[OF assms], of mis ps] unfolding u by auto
  then show ?thesis
    using sha512_final_rep[OF c1(2), of True]
    by (auto simp: sha512_out_def fips_sha384_def SHA384_Init_def SHA384_DIGEST_LENGTH_def SHA384_Final_def)
qed

lemma sha512_raw_length: "length (sc_p sha512_raw) = 128"
  by (simp add: sha512_raw_def)

text \<open>
  Property C13: SHA-512 and SHA-384 are the functions of FIPS 180-4, from a context whose buffer is
  not initialised: no byte of it is read before it is written, for aligned and for misaligned
  data and any cutting of the message, and the digest written is the standard's.
\<close>

theorem SHA512_fips:
  "(\<exists>c c'. feed (SHA512_Update mis) (SHA512_Init sha512_raw) ps = Some c \<and>
      SHA512_Final True c = Some (Some (fips_sha512 (concat ps)), c')) \<and>
   (\<exists>c c'. feed (SHA384_Update mis) (SHA384_Init sha512_raw) ps = Some c \<and>
      SHA384_Final True c = Some (Some (fips_sha384 (concat ps)), c')) \<and>
   SHA512 mis msg = Some (Some (fips_sha512 msg)) \<and> SHA384 mis msg = Some (Some (fips_sha384 msg))"
  using SHA512_feed[OF sha512_raw_length, of mis ps] SHA384_feed[OF sha512_raw_length, of mis ps]
    SHA512_feed[OF sha512_raw_length, of mis "[msg]"] SHA384_feed[OF sha512_raw_length, of mis "[msg]"]
  by (auto simp: SHA512_def SHA384_def split: Option.bind_splits)

end
