(* ===== verification/Sha2_Constants.thy ===== *)
theory Sha2_Constants
  imports Sha256 Sha512
begin

text \<open>
  The constants of the SHA-2 digests are what FIPS 180-4 says they are: leading bits of
  the fractional parts of cube roots and square roots of the first primes.
\<close>

text \<open>
  \<open>k\<close> is the first \<open>w\<close> bits of the fractional part of the \<open>r\<close>-th root of \<open>p\<close>, whose integer part is
  \<open>i\<close>: scaled by \<open>2 ^ w\<close> and rounded down, the root is \<open>i * 2 ^ w + k\<close>.
\<close>

definition root_check :: "nat \<Rightarrow> nat \<Rightarrow> nat \<Rightarrow> nat \<Rightarrow> nat \<Rightarrow> bool" where
  "root_check r w p i k \<longleftrightarrow> k < 2 ^ w \<and>
     (i * 2 ^ w + k) ^ r \<le> p * 2 ^ (r * w) \<and> p * 2 ^ (r * w) < (i * 2 ^ w + k + 1) ^ r"

definition root_bits :: "nat \<Rightarrow> nat \<Rightarrow> nat \<Rightarrow> nat \<Rightarrow> bool" where
  "root_bits r w p k \<longleftrightarrow> (\<exists>i. root_check r w p i k)"

definition primes_80 :: "nat list" where
  "primes_80 = [2, 3, 5, 7, 11, 13, 17, 19, 23, 29, 31, 37, 41, 43, 47, 53, 59, 61, 67, 71, 73, 79, 83, 89, 97,
     101, 103, 107, 109, 113, 127, 131, 137, 139, 149, 151, 157, 163, 167, 173, 179, 181, 191, 193, 197, 199,
     211, 223, 227, 229, 233, 239, 241, 251, 257, 263, 269, 271, 277, 281, 283, 293, 307, 311, 313, 317, 331,
     337, 347, 349, 353, 359, 367, 373, 379, 383, 389, 397, 401, 409]"

text \<open>The integer parts of the roots are given.\<close>

fun root_checks :: "nat \<Rightarrow> nat \<Rightarrow> nat list \<Rightarrow> nat list \<Rightarrow> nat list \<Rightarrow> bool" where
  "root_checks r w (p # ps) (i # qs) (k # ks) \<longleftrightarrow> root_check r w p i k \<and> root_checks r w ps qs ks"
| "root_checks r w [] [] [] \<longleftrightarrow> True"
| "root_checks r w _ _ _ \<longleftrightarrow> False"

lemma root_checks_bits: "root_checks r w ps qs ks \<Longrightarrow> list_all2 (root_bits r w) ps ks"
  by (induction r w ps qs ks rule: root_checks.induct) (auto simp: root_bits_def)

lemma K256_roots: "list_all2 (root_bits 3 32) (take 64 primes_80) (map unat K256)"
  by (rule root_checks_bits[where qs = "[1, 1, 1, 1, 2, 2, 2, 2, 2, 3, 3, 3, 3, 3, 3, 3, 3, 3, 4, 4, 4, 4, 4, 4, 4, 4, 4, 4, 4, 4, 5, 5, 5, 5, 5, 5, 5, 5, 5, 5, 5, 5, 5, 5, 5, 5, 5, 6, 6, 6, 6, 6, 6, 6, 6, 6, 6, 6, 6, 6, 6, 6, 6, 6]"])
    (simp add: K256_def primes_80_def root_check_def)

lemma K512_roots: "list_all2 (root_bits 3 64) primes_80 (map unat K512)"
  by (rule root_checks_bits[where qs = "[1, 1, 1, 1, 2, 2, 2, 2, 2, 3, 3, 3, 3, 3, 3, 3, 3, 3, 4, 4, 4, 4, 4, 4, 4, 4, 4, 4, 4, 4, 5, 5, 5, 5, 5, 5, 5, 5, 5, 5, 5, 5, 5, 5, 5, 5, 5, 6, 6, 6, 6, 6, 6, 6, 6, 6, 6, 6, 6, 6, 6, 6, 6, 6, 6, 6, 6, 6, 7, 7, 7, 7, 7, 7, 7, 7, 7, 7, 7, 7]"])
    (simp add: K512_def primes_80_def root_check_def)

lemma SHA256_roots: "list_all2 (root_bits 2 32) (take 8 primes_80) (map unat (hc_h SHA256_Init))"
  by (rule root_checks_bits[where qs = "[1, 1, 2, 2, 3, 3, 4, 4]"])
    (simp add: SHA256_Init_def primes_80_def root_check_def)

lemma SHA512_roots: "list_all2 (root_bits 2 64) (take 8 primes_80) (map unat (sc_h (SHA512_Init c)))"
  by (rule root_checks_bits[where qs = "[1, 1, 2, 2, 3, 3, 4, 4]"])
    (simp add: SHA512_Init_def primes_80_def root_check_def)

lemma SHA384_roots: "list_all2 (root_bits 2 64) (take 8 (drop 8 primes_80)) (map unat (sc_h (SHA384_Init c)))"
  by (rule root_checks_bits[where qs = "[4, 5, 5, 6, 6, 6, 6, 7]"])
    (simp add: SHA384_Init_def primes_80_def root_check_def)

text \<open>
  Property C40: the tables of round constants and the initial hash values of the SHA-2 digests
  are those of FIPS 180-4: the first 32 (64) bits of the fractional parts of the cube roots of the first 64 (80)
  primes, of the square roots of the first eight primes, and, for SHA-384, of the ninth to the sixteenth;
  the words of SHA-224 are the second 32 bits of those of SHA-384.
\<close>

theorem sha2_constants:
  "list_all2 (root_bits 3 32) (take 64 primes_80) (map unat K256) \<and>
   list_all2 (root_bits 3 64) primes_80 (map unat K512) \<and>
   list_all2 (root_bits 2 32) (take 8 primes_80) (map unat (hc_h SHA256_Init)) \<and>
   list_all2 (root_bits 2 64) (take 8 primes_80) (map unat (sc_h (SHA512_Init c))) \<and>
   list_all2 (root_bits 2 64) (take 8 (drop 8 primes_80)) (map unat (sc_h (SHA384_Init c))) \<and>
   map unat (hc_h SHA224_Init) = map (\<lambda>w. unat w mod 2 ^ 32) (sc_h (SHA384_Init c))"
  using K256_roots K512_roots SHA256_roots SHA512_roots SHA384_roots
  by (simp add: SHA224_Init_def SHA384_Init_def)

end
