(* ===== verification/Sha1.thy ===== *)
theory Sha1
  imports Sha2
begin

text \<open>
  SHA-1, \<^verbatim>\<open>crypto/fipsmodule/sha/sha1.c\<close>, without assembly. The eighty macro calls of the block
  function are a program over its six rotating variables and its sixteen words; it
  computes the compression function of FIPS 180-4.
\<close>

section \<open>The block function\<close>

definition ROTATE_1 :: "u32 \<Rightarrow> nat \<Rightarrow> u32" where
  "ROTATE_1 a n = push_bit n a OR drop_bit (32 - n) a"

definition K_00_19 :: u32 where "K_00_19 = 0x5a827999"
definition K_20_39 :: u32 where "K_20_39 = 0x6ed9eba1"
definition K_40_59 :: u32 where "K_40_59 = 0x8f1bbcdc"
definition K_60_79 :: u32 where "K_60_79 = 0xca62c1d6"

definition F_00_19 :: "u32 \<Rightarrow> u32 \<Rightarrow> u32 \<Rightarrow> u32" where
  "F_00_19 b c d = ((c XOR d) AND b) XOR d"

definition F_20_39 :: "u32 \<Rightarrow> u32 \<Rightarrow> u32 \<Rightarrow> u32" where
  "F_20_39 b c d = b XOR c XOR d"

definition F_40_59 :: "u32 \<Rightarrow> u32 \<Rightarrow> u32 \<Rightarrow> u32" where
  "F_40_59 b c d = (b AND c) OR ((b OR c) AND d)"

definition F_60_79 :: "u32 \<Rightarrow> u32 \<Rightarrow> u32 \<Rightarrow> u32" where
  "F_60_79 b c d = F_20_39 b c d"

text \<open>The local variables, and the calls of the macros: variables by name, words by their number.\<close>

datatype reg = RA | RB | RC | RD | RE | RT

datatype sha1_call =
    BODY_00_15 nat reg reg reg reg reg reg nat
  | BODY_16_19 nat reg reg reg reg reg reg nat nat nat nat nat
  | BODY_20_31 nat reg reg reg reg reg reg nat nat nat nat nat
  | BODY_32_39 nat reg reg reg reg reg reg nat nat nat nat
  | BODY_40_59 nat reg reg reg reg reg reg nat nat nat nat
  | BODY_60_79 nat reg reg reg reg reg reg nat nat nat nat

type_synonym sha1_state = "(reg \<Rightarrow> u32) \<times> u32 list"

text \<open>\<^verbatim>\<open>Xupdate\<close> on the variable \<open>a\<close> and the word \<open>ix\<close>.\<close>

definition Xupdate :: "reg \<Rightarrow> nat \<Rightarrow> nat \<Rightarrow> nat \<Rightarrow> nat \<Rightarrow> nat \<Rightarrow> sha1_state \<Rightarrow> sha1_state" where
  "Xupdate a ix ia ib ic idx = (\<lambda>(s, X).
     let v = ROTATE_1 (X ! ia XOR X ! ib XOR X ! ic XOR X ! idx) 1 in (s(a := v), X[ix := v]))"

text \<open>The last two statements of every macro, \<open>f\<close> having its new summand \<open>x\<close>.\<close>

definition sha1_mix :: "u32 \<Rightarrow> (u32 \<Rightarrow> u32 \<Rightarrow> u32 \<Rightarrow> u32) \<Rightarrow> reg \<Rightarrow> reg \<Rightarrow> reg \<Rightarrow> reg \<Rightarrow> reg \<Rightarrow> reg \<Rightarrow> u32 \<Rightarrow>
    sha1_state \<Rightarrow> sha1_state" where
  "sha1_mix K F a b c d e f x = (\<lambda>(s, X).
     let s = s(f := x + s e + K + ROTATE_1 (s a) 5 + F (s b) (s c) (s d));
         s = s(b := ROTATE_1 (s b) 30)
     in (s, X))"

fun sha1_exec :: "sha1_call \<Rightarrow> sha1_state \<Rightarrow> sha1_state" where
  "sha1_exec (BODY_00_15 i a b c d e f xi) sX = sha1_mix K_00_19 F_00_19 a b c d e f (snd sX ! xi) sX"
| "sha1_exec (BODY_16_19 i a b c d e f xi xa xb xc xd) sX =
     (let sX = Xupdate f xi xa xb xc xd sX in sha1_mix K_00_19 F_00_19 a b c d e f (fst sX f) sX)"
| "sha1_exec (BODY_20_31 i a b c d e f xi xa xb xc xd) sX =
     (let sX = Xupdate f xi xa xb xc xd sX in sha1_mix K_20_39 F_20_39 a b c d e f (fst sX f) sX)"
| "sha1_exec (BODY_32_39 i a b c d e f xa xb xc xd) sX =
     (let sX = Xupdate f xa xa xb xc xd sX in sha1_mix K_20_39 F_20_39 a b c d e f (fst sX f) sX)"
| "sha1_exec (BODY_40_59 i a b c d e f xa xb xc xd) sX =
     (let sX = Xupdate f xa xa xb xc xd sX in sha1_mix K_40_59 F_40_59 a b c d e f (fst sX f) sX)"
| "sha1_exec (BODY_60_79 i a b c d e f xa xb xc xd) sX =
     (let sX = Xupdate f xa xa xb xc xd sX in sha1_mix K_60_79 F_60_79 a b c d e f (snd sX ! xa) sX)"

definition sha1_calls :: "sha1_call list" where
  "sha1_calls =
  [BODY_00_15 0 RA RB RC RD RE RT 0,
   BODY_00_15 1 RT RA RB RC RD RE 1,
   BODY_00_15 2 RE RT RA RB RC RD 2,
   BODY_00_15 3 RD RE RT RA RB RC 3,
   BODY_00_15 4 RC RD RE RT RA RB 4,
   BODY_00_15 5 RB RC RD RE RT RA 5,
   BODY_00_15 6 RA RB RC RD RE RT 6,
   BODY_00_15 7 RT RA RB RC RD RE 7,
   BODY_00_15 8 RE RT RA RB RC RD 8,
   BODY_00_15 9 RD RE RT RA RB RC 9,
   BODY_00_15 10 RC RD RE RT RA RB 10,
   BODY_00_15 11 RB RC RD RE RT RA 11,
   BODY_00_15 12 RA RB RC RD RE RT 12,
   BODY_00_15 13 RT RA RB RC RD RE 13,
   BODY_00_15 14 RE RT RA RB RC RD 14,
   BODY_00_15 15 RD RE RT RA RB RC 15,
   BODY_16_19 16 RC RD RE RT RA RB 0 0 2 8 13,
   BODY_16_19 17 RB RC RD RE RT RA 1 1 3 9 14,
   BODY_16_19 18 RA RB RC RD RE RT 2 2 4 10 15,
   BODY_16_19 19 RT RA RB RC RD RE 3 3 5 11 0,
   BODY_20_31 20 RE RT RA RB RC RD 4 4 6 12 1,
   BODY_20_31 21 RD RE RT RA RB RC 5 5 7 13 2,
   BODY_20_31 22 RC RD RE RT RA RB 6 6 8 14 3,
   BODY_20_31 23 RB RC RD RE RT RA 7 7 9 15 4,
   BODY_20_31 24 RA RB RC RD RE RT 8 8 10 0 5,
   BODY_20_31 25 RT RA RB RC RD RE 9 9 11 1 6,
   BODY_20_31 26 RE RT RA RB RC RD 10 10 12 2 7,
   BODY_20_31 27 RD RE RT RA RB RC 11 11 13 3 8,
   BODY_20_31 28 RC RD RE RT RA RB 12 12 14 4 9,
   BODY_20_31 29 RB RC RD RE RT RA 13 13 15 5 10,
   BODY_20_31 30 RA RB RC RD RE RT 14 14 0 6 11,
   BODY_20_31 31 RT RA RB RC RD RE 15 15 1 7 12,
   BODY_32_39 32 RE RT RA RB RC RD 0 2 8 13,
   BODY_32_39 33 RD RE RT RA RB RC 1 3 9 14,
   BODY_32_39 34 RC RD RE RT RA RB 2 4 10 15,
   BODY_32_39 35 RB RC RD RE RT RA 3 5 11 0,
   BODY_32_39 36 RA RB RC RD RE RT 4 6 12 1,
   BODY_32_39 37 RT RA RB RC RD RE 5 7 13 2,
   BODY_32_39 38 RE RT RA RB RC RD 6 8 14 3,
   BODY_32_39 39 RD RE RT RA RB RC 7 9 15 4,
   BODY_40_59 40 RC RD RE RT RA RB 8 10 0 5,
   BODY_40_59 41 RB RC RD RE RT RA 9 11 1 6,
   BODY_40_59 42 RA RB RC RD RE RT 10 12 2 7,
   BODY_40_59 43 RT RA RB RC RD RE 11 13 3 8,
   BODY_40_59 44 RE RT RA RB RC RD 12 14 4 9,
   BODY_40_59 45 RD RE RT RA RB RC 13 15 5 10,
   BODY_40_59 46 RC RD RE RT RA RB 14 0 6 11,
   BODY_40_59 47 RB RC RD RE RT RA 15 1 7 12,
   BODY_40_59 48 RA RB RC RD RE RT 0 2 8 13,
   BODY_40_59 49 RT RA RB RC RD RE 1 3 9 14,
   BODY_40_59 50 RE RT RA RB RC RD 2 4 10 15,
   BODY_40_59 51 RD RE RT RA RB RC 3 5 11 0,
   BODY_40_59 52 RC RD RE RT RA RB 4 6 12 1,
   BODY_40_59 53 RB RC RD RE RT RA 5 7 13 2,
   BODY_40_59 54 RA RB RC RD RE RT 6 8 14 3,
   BODY_40_59 55 RT RA RB RC RD RE 7 9 15 4,
   BODY_40_59 56 RE RT RA RB RC RD 8 10 0 5,
   BODY_40_59 57 RD RE RT RA RB RC 9 11 1 6,
   BODY_40_59 58 RC RD RE RT RA RB 10 12 2 7,
   BODY_40_59 59 RB RC RD RE RT RA 11 13 3 8,
   BODY_60_79 60 RA RB RC RD RE RT 12 14 4 9,
   BODY_60_79 61 RT RA RB RC RD RE 13 15 5 10,
   BODY_60_79 62 RE RT RA RB RC RD 14 0 6 11,
   BODY_60_79 63 RD RE RT RA RB RC 15 1 7 12,
   BODY_60_79 64 RC RD RE RT RA RB 0 2 8 13,
   BODY_60_79 65 RB RC RD RE RT RA 1 3 9 14,
   BODY_60_79 66 RA RB RC RD RE RT 2 4 10 15,
   BODY_60_79 67 RT RA RB RC RD RE 3 5 11 0,
   BODY_60_79 68 RE RT RA RB RC RD 4 6 12 1,
   BODY_60_79 69 RD RE RT RA RB RC 5 7 13 2,
   BODY_60_79 70 RC RD RE RT RA RB 6 8 14 3,
   BODY_60_79 71 RB RC RD RE RT RA 7 9 15 4,
   BODY_60_79 72 RA RB RC RD RE RT 8 10 0 5,
   BODY_60_79 73 RT RA RB RC RD RE 9 11 1 6,
   BODY_60_79 74 RE RT RA RB RC RD 10 12 2 7,
   BODY_60_79 75 RD RE RT RA RB RC 11 13 3 8,
   BODY_60_79 76 RC RD RE RT RA RB 12 14 4 9,
   BODY_60_79 77 RB RC RD RE RT RA 13 15 5 10,
   BODY_60_79 78 RA RB RC RD RE RT 14 0 6 11,
   BODY_60_79 79 RT RA RB RC RD RE 15 1 7 12]"

definition load_regs :: "u32 list \<Rightarrow> reg \<Rightarrow> u32" where
  "load_regs state = (\<lambda>v. case v of RA \<Rightarrow> state ! 0 | RB \<Rightarrow> state ! 1 | RC \<Rightarrow> state ! 2 | RD \<Rightarrow> state ! 3
     | RE \<Rightarrow> state ! 4 | RT \<Rightarrow> 0)"

text \<open>One iteration of the loop; the words of the block, read between the first calls, come first.\<close>

definition sha1_block :: "u32 list \<Rightarrow> u8 list \<Rightarrow> u32 list" where
  "sha1_block state data =
     (let X = map (\<lambda>t. HOST_c2l DATA_ORDER_IS_BIG_ENDIAN (drop (4 * t) data)) [0..<16];
          (s, X) = fold sha1_exec sha1_calls (load_regs state, X)
      in [state ! 0 + s RE, state ! 1 + s RT, state ! 2 + s RA, state ! 3 + s RB, state ! 4 + s RC])"

text \<open>The loop leaves at \<^verbatim>\<open>--num == 0\<close>, after the block.\<close>

function sha1_block_data_order :: block_order where
  "sha1_block_data_order state data num =
     (if length data < 64 then None
      else let state = sha1_block state (take 64 data); num = (if num = 0 then SIZE_MOD - 1 else num - 1)
        in if num = 0 then Some state else sha1_block_data_order state (drop 64 data) num)"
  by pat_completeness auto

termination
  by (relation "measure (\<lambda>(state, data, num). length data)") auto

declare sha1_block_data_order.simps [simp del]

section \<open>The digest functions\<close>

definition SHA1_Init :: hash_ctx where
  "SHA1_Init = \<lparr>hc_h = [0x67452301, 0xefcdab89, 0x98badcfe, 0x10325476, 0xc3d2e1f0],
     hc_Nl = 0, hc_Nh = 0, hc_data = replicate HASH_CBLOCK 0, hc_num = 0, hc_md_len = 0\<rparr>"

definition SHA1_Update :: "hash_ctx \<Rightarrow> u8 list \<Rightarrow> hash_ctx option" where
  "SHA1_Update = HASH_UPDATE sha1_block_data_order"

definition SHA1_Transform :: "hash_ctx \<Rightarrow> u8 list \<Rightarrow> hash_ctx option" where
  "SHA1_Transform = HASH_TRANSFORM sha1_block_data_order"

definition sha1_make_string :: "hash_ctx \<Rightarrow> u8 list" where
  "sha1_make_string c = (let l = (\<lambda>i. HOST_l2c DATA_ORDER_IS_BIG_ENDIAN (hc_h c ! i)) in l 0 @ l 1 @ l 2 @ l 3 @ l 4)"

definition SHA1_Final :: "hash_ctx \<Rightarrow> (u8 list \<times> hash_ctx) option" where
  "SHA1_Final c = do {
     c \<leftarrow> HASH_FINAL DATA_ORDER_IS_BIG_ENDIAN sha1_block_data_order c;
     Some (sha1_make_string c, c) }"

definition SHA1 :: "u8 list \<Rightarrow> u8 list option" where
  "SHA1 data = do {
     ctx \<leftarrow> SHA1_Update SHA1_Init data;
     (out, ctx) \<leftarrow> SHA1_Final ctx;
     Some out }"

section \<open>FIPS 180-4\<close>

definition sha1_K :: "nat \<Rightarrow> u32" where
  "sha1_K t = (if t < 20 then 0x5a827999 else if t < 40 then 0x6ed9eba1 else if t < 60 then 0x8f1bbcdc else 0xca62c1d6)"

definition sha1_f :: "nat \<Rightarrow> u32 \<Rightarrow> u32 \<Rightarrow> u32 \<Rightarrow> u32" where
  "sha1_f t x y z = (if t < 20 then Ch x y z else if t < 40 then x XOR y XOR z
     else if t < 60 then Maj x y z else x XOR y XOR z)"

fun sha1_W :: "u32 list \<Rightarrow> nat \<Rightarrow> u32" where
  "sha1_W m t =
     (if t < 16 then m ! t
      else word_rotl 1 (sha1_W m (t - 3) XOR sha1_W m (t - 8) XOR sha1_W m (t - 14) XOR sha1_W m (t - 16)))"

declare sha1_W.simps [simp del]

fun sha1_step :: "nat \<Rightarrow> u32 \<Rightarrow> u32 list \<Rightarrow> u32 list" where
  "sha1_step t w [a, b, c, d, e] = [word_rotl 5 a + sha1_f t b c d + e + sha1_K t + w, a, word_rotl 30 b, c, d]"
| "sha1_step t w st = st"

definition sha1_compress :: "u32 list \<Rightarrow> u8 list \<Rightarrow> u32 list" where
  "sha1_compress st b =
     map2 (+) st (fold (\<lambda>t. sha1_step t (sha1_W (be_words b) t)) [0..<80] st)"

text \<open>The initial hash value of the standard.\<close>

definition fips_sha1_H0 :: "u32 list" where
  "fips_sha1_H0 = [0x67452301, 0xefcdab89, 0x98badcfe, 0x10325476, 0xc3d2e1f0]"

definition fips_sha1 :: "u8 list \<Rightarrow> u8 list" where
  "fips_sha1 msg = concat (map (\<lambda>w. be_bytes 4 (unat w))
     (md_hash DATA_ORDER_IS_BIG_ENDIAN sha1_compress fips_sha1_H0 msg))"

lemma SHA1_Init_H0: "fips_sha1_H0 = hc_h SHA1_Init"
  by (simp add: fips_sha1_H0_def SHA1_Init_def)

section \<open>The calls follow one pattern\<close>

definition role :: "nat \<Rightarrow> nat \<Rightarrow> reg" where
  "role t k = [RA, RB, RC, RD, RE, RT] ! ((k + 5 * t) mod 6)"

definition sha1_gen :: "nat \<Rightarrow> sha1_call" where
  "sha1_gen t =
     (let r = role t; x = (\<lambda>k. (t + k) mod 16)
      in if t < 16 then BODY_00_15 t (r 0) (r 1) (r 2) (r 3) (r 4) (r 5) t
         else if t < 20 then BODY_16_19 t (r 0) (r 1) (r 2) (r 3) (r 4) (r 5) (x 0) (x 0) (x 2) (x 8) (x 13)
         else if t < 32 then BODY_20_31 t (r 0) (r 1) (r 2) (r 3) (r 4) (r 5) (x 0) (x 0) (x 2) (x 8) (x 13)
         else if t < 40 then BODY_32_39 t (r 0) (r 1) (r 2) (r 3) (r 4) (r 5) (x 0) (x 2) (x 8) (x 13)
         else if t < 60 then BODY_40_59 t (r 0) (r 1) (r 2) (r 3) (r 4) (r 5) (x 0) (x 2) (x 8) (x 13)
         else BODY_60_79 t (r 0) (r 1) (r 2) (r 3) (r 4) (r 5) (x 0) (x 2) (x 8) (x 13))"

lemma sha1_calls_gen: "sha1_calls = map sha1_gen [0..<80]"
  by code_simp

lemma role_Suc_Suc: "role (Suc t) (Suc k) = role t k"
proof -
  have "Suc k + 5 * Suc t = 6 + (k + 5 * t)" by simp
  then show ?thesis by (simp only: role_def mod_add_self1)
qed

lemma role_Suc: "role (Suc t) 0 = role t 5" "role (Suc t) 1 = role t 0" "role (Suc t) 2 = role t 1"
  "role (Suc t) 3 = role t 2" "role (Suc t) 4 = role t 3"
proof -
  show "role (Suc t) 0 = role t 5" by (simp add: role_def)
  have n: "(1 :: nat) = Suc 0" "(2 :: nat) = Suc 1" "(3 :: nat) = Suc 2" "(4 :: nat) = Suc 3" by simp_all
  show "role (Suc t) 1 = role t 0" by (subst n(1)) (rule role_Suc_Suc)
  show "role (Suc t) 2 = role t 1" by (subst n(2)) (rule role_Suc_Suc)
  show "role (Suc t) 3 = role t 2" by (subst n(3)) (rule role_Suc_Suc)
  show "role (Suc t) 4 = role t 3" by (subst n(4)) (rule role_Suc_Suc)
qed

lemma role_distinct: "distinct [role t 0, role t 1, role t 2, role t 3, role t 4, role t 5]"
proof -
  define j where "j = 5 * t mod 6"
  have r: "role t k = [RA, RB, RC, RD, RE, RT] ! ((k + j) mod 6)" for k
    by (simp add: role_def j_def mod_add_right_eq)
  have "j < 6" by (simp add: j_def)
  then have "j = 0 \<or> j = 1 \<or> j = 2 \<or> j = 3 \<or> j = 4 \<or> j = 5" by linarith
  then show ?thesis unfolding r by (elim disjE) simp_all
qed

section \<open>The block function is the compression function\<close>

lemma ROTATE_rotl: "0 < n \<Longrightarrow> n < 32 \<Longrightarrow> ROTATE_1 x n = word_rotl n x"
  unfolding ROTATE_1_def by (rule ROTATE_left)

lemma F_00_19_Ch: "F_00_19 b c d = Ch b c d"
  by (auto simp: F_00_19_def Ch_def bit_eq_iff bit_simps)

lemma F_40_59_Maj: "F_40_59 b c d = Maj b c d"
  by (auto simp: F_40_59_def Maj_def bit_eq_iff bit_simps)

lemma sha1_mix_view:
  assumes "distinct [a, b, c, d, e, f]"
  shows "map (fst (sha1_mix K F a b c d e f x (s, X))) [f, a, b, c, d] =
      [word_rotl 5 (s a) + F (s b) (s c) (s d) + s e + K + x, s a, word_rotl 30 (s b), s c, s d]"
    "snd (sha1_mix K F a b c d e f x (s, X)) = X"
proof -
  have "distinct [f, e, d, c, b, a]" using assms by auto
  then show "map (fst (sha1_mix K F a b c d e f x (s, X))) [f, a, b, c, d] =
      [word_rotl 5 (s a) + F (s b) (s c) (s d) + s e + K + x, s a, word_rotl 30 (s b), s c, s d]"
    "snd (sha1_mix K F a b c d e f x (s, X)) = X"
    using assms by (simp_all add: sha1_mix_def Let_def ROTATE_rotl add_ac)
qed

text \<open>The words: those of the block up to call 16, the circular schedule from then on.\<close>

definition sha1_words :: "u32 list \<Rightarrow> nat \<Rightarrow> u32 list \<Rightarrow> bool" where
  "sha1_words m t X \<longleftrightarrow> (if t < 16 then X = m else window (sha1_W m) t X)"

lemma sha1_window:
  assumes "window (sha1_W m) t X" "16 \<le> t"
    and "v = ROTATE_1 (X ! (t mod 16) XOR X ! ((t + 2) mod 16) XOR X ! ((t + 8) mod 16) XOR X ! ((t + 13) mod 16)) 1"
  shows "v = sha1_W m t \<and> window (sha1_W m) (Suc t) (X[t mod 16 := v])"
proof -
  let ?W = "sha1_W m"
  have X: "length X = 16" "\<And>j. j < t \<Longrightarrow> t \<le> j + 16 \<Longrightarrow> X ! (j mod 16) = ?W j"
    using assms(1) by (auto simp: window_def)
  have m: "t mod 16 = (t - 16) mod 16" "(t + 2) mod 16 = (t - 14) mod 16"
    "(t + 8) mod 16 = (t - 8) mod 16" "(t + 13) mod 16 = (t - 3) mod 16"
    using assms(2) by (simp_all add: mod_eq_dvd_iff_nat)
  have x: "X ! (t mod 16) = ?W (t - 16)" "X ! ((t + 2) mod 16) = ?W (t - 14)"
    "X ! ((t + 8) mod 16) = ?W (t - 8)" "X ! ((t + 13) mod 16) = ?W (t - 3)"
    unfolding m using assms(2) by (simp_all add: X(2))
  have T: "v = ?W t"
    using assms(2,3) x by (simp add: sha1_W.simps[of m t] ROTATE_rotl ac_simps)
  then show ?thesis using window_step[OF assms(1)] by simp
qed

lemma sha1_call_rel:
  assumes "sha1_words m t X" "length m = 16" "t < 80" "sha1_exec (sha1_gen t) (s, X) = (s', X')"
  shows "sha1_words m (Suc t) X' \<and>
    map s' (map (role (Suc t)) [0, 1, 2, 3, 4]) = sha1_step t (sha1_W m t) (map s (map (role t) [0, 1, 2, 3, 4]))"
proof -
  note D = role_distinct[of t]
  have r: "map (role (Suc t)) [0, 1, 2, 3, 4] = [role t 5, role t 0, role t 1, role t 2, role t 3]"
    by (simp only: list.map role_Suc)
  have nf: "(s0(role t 5 := v)) (role t k) = s0 (role t k)" if "k < 5" for s0 :: "reg \<Rightarrow> u32" and v k
  proof -
    have "k = 0 \<or> k = 1 \<or> k = 2 \<or> k = 3 \<or> k = 4" using that by linarith
    then show ?thesis using D by auto
  qed
  show ?thesis
  proof (cases "t < 16")
    case True
    then have x: "X = m" using assms(1) by (simp add: sha1_words_def)
    have W: "sha1_W m t = m ! t" using True by (simp add: sha1_W.simps)
    have "sha1_words m (Suc t) X"
    proof (cases "Suc t = 16")
      case True
      then have "window (sha1_W m) 16 m" using assms(2) by (auto simp: window_def sha1_W.simps)
      then show ?thesis using True x by (simp add: sha1_words_def)
    qed (use True x in \<open>simp add: sha1_words_def\<close>)
    then show ?thesis
      using assms(4) True sha1_mix_view[OF D, of K_00_19 F_00_19 "X ! t" s X] x
      unfolding r by (auto simp: sha1_gen_def Let_def W sha1_f_def sha1_K_def K_00_19_def F_00_19_Ch prod_eq_iff)
  next
    case False
    define v where "v = ROTATE_1 (X ! (t mod 16) XOR X ! ((t + 2) mod 16) XOR X ! ((t + 8) mod 16) XOR X ! ((t + 13) mod 16)) 1"
    have w: "window (sha1_W m) t X" using assms(1) False by (simp add: sha1_words_def)
    have "16 \<le> t" using False by simp
    note vw = sha1_window[OF w this v_def]
    note v = conjunct1[OF vw] and w' = conjunct2[OF vw]
    have vs: "ROTATE_1 (X ! (t mod 16) XOR X ! (Suc (Suc t) mod 16) XOR X ! ((t + 8) mod 16) XOR X ! ((t + 13) mod 16)) (Suc 0) = v"
      by (simp add: v_def)
    have lx: "X[t mod 16 := v] ! (t mod 16) = v" using w by (simp add: window_def)
    let ?s = "s(role t 5 := v)" and ?X = "X[t mod 16 := v]"
    have "sha1_exec (sha1_gen t) (s, X) = sha1_mix (sha1_K t) (sha1_f t)
        (role t 0) (role t 1) (role t 2) (role t 3) (role t 4) (role t 5) v (?s, ?X)"
      using False assms(3) lx
      by (simp add: sha1_gen_def Let_def Xupdate_def vs sha1_K_def sha1_f_def
          K_00_19_def K_20_39_def K_40_59_def K_60_79_def F_00_19_Ch F_20_39_def F_40_59_Maj F_60_79_def sha1_mix_def)
    then show ?thesis
      using assms(4) sha1_mix_view[OF D, of "sha1_K t" "sha1_f t" v ?s ?X] w' v False nf
      unfolding r by (auto simp: sha1_words_def prod_eq_iff)
  qed
qed

lemma sha1_fold_rel:
  assumes "length m = 16" "n \<le> 80" "fold sha1_exec (map sha1_gen [0..<n]) (s, m) = (s', X')"
  shows "sha1_words m n X' \<and>
    map s' (map (role n) [0, 1, 2, 3, 4]) = fold (\<lambda>t. sha1_step t (sha1_W m t)) [0..<n] (map s (map (role 0) [0, 1, 2, 3, 4]))"
  using assms(2,3)
proof (induction n arbitrary: s' X')
  case 0
  then show ?case by (simp add: sha1_words_def)
next
  case (Suc n)
  obtain s1 X1 where e: "fold sha1_exec (map sha1_gen [0..<n]) (s, m) = (s1, X1)"
    by (cases "fold sha1_exec (map sha1_gen [0..<n]) (s, m)")
  have IH: "sha1_words m n X1"
    "map s1 (map (role n) [0, 1, 2, 3, 4]) = fold (\<lambda>t. sha1_step t (sha1_W m t)) [0..<n] (map s (map (role 0) [0, 1, 2, 3, 4]))"
    using Suc.IH[OF _ e] Suc.prems(1) by simp_all
  have "sha1_exec (sha1_gen n) (s1, X1) = (s', X')" using Suc.prems(2) e by simp
  from sha1_call_rel[OF IH(1) assms(1) _ this] Suc.prems(1)
  have "sha1_words m (Suc n) X' \<and> map s' (map (role (Suc n)) [0, 1, 2, 3, 4]) =
      sha1_step n (sha1_W m n) (map s1 (map (role n) [0, 1, 2, 3, 4]))" by simp
  then show ?case unfolding IH(2) by simp
qed

lemma sha1_block_compress:
  assumes "length st = 5" "length b = 64"
  shows "sha1_block st b = sha1_compress st b"
proof -
  let ?m = "be_words b"
  have m: "map (\<lambda>t. HOST_c2l DATA_ORDER_IS_BIG_ENDIAN (drop (4 * t) b)) [0..<16] = ?m" "length ?m = 16"
    using assms(2) by (simp_all add: be_words_def HOST_c2l_be del: HOST_c2l.simps)
  obtain s X where e: "fold sha1_exec (map sha1_gen [0..<80]) (load_regs st, ?m) = (s, X)"
    by (cases "fold sha1_exec (map sha1_gen [0..<80]) (load_regs st, ?m)")
  obtain a0 a1 a2 a3 a4 where st: "st = [a0, a1, a2, a3, a4]"
    using assms(1) by (auto simp: length_Suc_conv numeral_eq_Suc)
  have l: "map (load_regs st) (map (role 0) [0, 1, 2, 3, 4]) = st"
    unfolding st by (simp add: role_def load_regs_def)
  have "map s (map (role 80) [0, 1, 2, 3, 4]) = fold (\<lambda>t. sha1_step t (sha1_W ?m t)) [0..<80] st"
    using conjunct2[OF sha1_fold_rel[OF m(2) _ e]] unfolding l by simp
  moreover have "map (role 80) [0, 1, 2, 3, 4] = [RE, RT, RA, RB, RC]" by (simp add: role_def)
  ultimately have f: "[s RE, s RT, s RA, s RB, s RC] = fold (\<lambda>t. sha1_step t (sha1_W ?m t)) [0..<80] st" by simp
  have "sha1_block st b = [st ! 0 + s RE, st ! 1 + s RT, st ! 2 + s RA, st ! 3 + s RB, st ! 4 + s RC]"
    by (simp only: sha1_block_def m(1) sha1_calls_gen e Let_def prod.case)
  also have "\<dots> = map2 (+) st [s RE, s RT, s RA, s RB, s RC]"
    unfolding st by simp
  finally show ?thesis by (simp only: f sha1_compress_def)
qed

lemma length_sha1_compress: "length st = 5 \<Longrightarrow> length (sha1_compress st b) = 5"
proof -
  have s: "length (sha1_step t w st) = 5" if "length st = 5" for t w st
    using that by (cases "(t, w, st)" rule: sha1_step.cases) simp_all
  have "length (fold (\<lambda>t. sha1_step t (w t)) ts st) = 5" if "length st = 5" for w ts st
    using that by (induction ts arbitrary: st) (simp_all add: s)
  then show "length st = 5 \<Longrightarrow> length (sha1_compress st b) = 5" by (simp add: sha1_compress_def)
qed

lemma sha1_loop:
  assumes "0 < n" "64 * n \<le> length data"
  shows "sha1_block_data_order st data n = Some (foldl sha1_block st (chunks 64 (take (64 * n) data)))"
  using assms
proof (induction n arbitrary: st data)
  case (Suc n)
  have e: "take (64 * Suc n) data = take 64 data @ take (64 * n) (drop 64 data)" by (simp add: take_add)
  have l: "length (take 64 data) = 64" using Suc.prems by simp
  show ?case
    using Suc l unfolding e by (cases "n = 0") (simp_all add: sha1_block_data_order.simps[of st data] chunks_Cons chunks_single)
qed simp

interpretation sha1: md32 DATA_ORDER_IS_BIG_ENDIAN sha1_block_data_order sha1_compress 5
proof
  fix st :: "u32 list" and n data
  assume a: "length st = 5" "0 < n" "64 * n \<le> length (data :: u8 list)"
  show "sha1_block_data_order st data n = Some (foldl sha1_compress st (chunks 64 (take (64 * n) data)))"
    unfolding sha1_loop[OF a(2,3)]
    using foldl_chunks_cong[of 5 64 sha1_block sha1_compress st] a(1)
    by (simp add: sha1_block_compress length_sha1_compress)
next
  fix st :: "u32 list" and b
  show "length st = 5 \<Longrightarrow> length (sha1_compress st b) = 5" by (rule length_sha1_compress)
qed

lemma sha1_make_string_list: "length (hc_h c) = 5 \<Longrightarrow> sha1_make_string c = concat (map (\<lambda>w. be_bytes 4 (unat w)) (hc_h c))"
proof -
  assume "length (hc_h c) = 5"
  then obtain a0 a1 a2 a3 a4 where h: "hc_h c = [a0, a1, a2, a3, a4]"
    by (auto simp: length_Suc_conv numeral_eq_Suc)
  show ?thesis by (simp add: sha1_make_string_def h Let_def HOST_l2c_be del: HOST_l2c.simps)
qed

lemma sha1_stream:
  "\<exists>c1 c2. feed SHA1_Update SHA1_Init ps = Some c1 \<and> SHA1_Final c1 = Some (fips_sha1 (concat ps), c2)"
proof -
  have "\<exists>c1 c2. feed (HASH_UPDATE sha1_block_data_order) SHA1_Init ps = Some c1 \<and>
      HASH_FINAL DATA_ORDER_IS_BIG_ENDIAN sha1_block_data_order c1 = Some c2 \<and>
      hc_h c2 = md_hash DATA_ORDER_IS_BIG_ENDIAN sha1_compress (hc_h SHA1_Init) (concat ps) \<and>
      length (hc_h c2) = 5 \<and> hc_md_len c2 = hc_md_len SHA1_Init"
    by (rule sha1.stream) (simp_all add: SHA1_Init_def HASH_CBLOCK_def)
  then show ?thesis
    by (auto simp: SHA1_Update_def SHA1_Final_def fips_sha1_def SHA1_Init_H0 sha1_make_string_list)
qed

text \<open>
  Property C14: SHA-1 over any sequence of updates, and in one call, is SHA-1 of FIPS 180-4 on the
  concatenated input: the eighty macro calls with their rotating variables and their circular
  schedule compute the compression function, and the collector pads and counts as the standard says.
\<close>

theorem SHA1_fips:
  "(\<exists>ctx. do { c \<leftarrow> feed SHA1_Update SHA1_Init ps; SHA1_Final c } = Some (fips_sha1 (concat ps), ctx)) \<and>
   SHA1 data = Some (fips_sha1 data)"
  using sha1_stream[of ps] sha1_stream[of "[data]"] by (auto simp: SHA1_def)

end
