(* ===== verification/Md5_Sines.thy ===== *)
theory Md5_Sines
  imports Complex_Main
begin

text \<open>
  The table of RFC 1321: the integer parts of \<open>2 ^ 32\<close> times the absolute values of the sines of 1
  to 64 radians. The sines are computed in fixed point with 52 fractional bits by the addition theorems,
  from Taylor polynomials of the sine and cosine of 1.
\<close>

definition rfc1321_T :: "nat \<Rightarrow> int" where
  "rfc1321_T i = \<lfloor>2 ^ 32 * \<bar>sin (real i)\<bar>\<rfloor>"

definition sines :: "int list" where
  "sines =
  [3614090360, 3905402710, 606105819, 3250441966, 4118548399, 1200080426,
   2821735955, 4249261313, 1770035416, 2336552879, 4294925233, 2304563134,
   1804603682, 4254626195, 2792965006, 1236535329, 4129170786, 3225465664,
   643717713, 3921069994, 3593408605, 38016083, 3634488961, 3889429448,
   568446438, 3275163606, 4107603335, 1163531501, 2850285829, 4243563512,
   1735328473, 2368359562, 4294588738, 2272392833, 1839030562, 4259657740,
   2763975236, 1272893353, 4139469664, 3200236656, 681279174, 3936430074,
   3572445317, 76029189, 3654602809, 3873151461, 530742520, 3299628645,
   4096336452, 1126891415, 2878612391, 4237533241, 1700485571, 2399980690,
   4293915773, 2240044497, 1873313359, 4264355552, 2734768916, 1309151649,
   4149444226, 3174756917, 718787259, 3951481745]"

definition fix_K :: int where
  "fix_K = 2 ^ 52"

definition fix_S1 :: int where
  "fix_S1 = 3789648413623927"

definition fix_C1 :: int where
  "fix_C1 = 2433305263375173"

text \<open>One step of the addition theorems, and the distance from the point at angle \<open>x\<close>.\<close>

definition fix_step :: "int \<times> int \<Rightarrow> int \<times> int" where
  "fix_step = (\<lambda>(S, C). ((S * fix_C1 + C * fix_S1) div fix_K, (C * fix_C1 - S * fix_S1) div fix_K))"

definition near :: "real \<Rightarrow> int \<times> int \<Rightarrow> real \<Rightarrow> bool" where
  "near e = (\<lambda>(S, C) x. cmod (Complex (of_int C) (of_int S) - of_int fix_K * cis x) \<le> e)"

lemma length_sines: "length sines = 64"
  by (simp add: sines_def)


lemma Maclaurin_cos_bound: "\<bar>cos x - (\<Sum>m<n. cos_coeff m * x ^ m)\<bar> \<le> inverse (fact n) * \<bar>x\<bar> ^ n"
proof -
  obtain t where t: "cos x = (\<Sum>m<n. cos_coeff m * x ^ m) + (cos (t + 1/2 * real n * pi) / fact n) * x ^ n"
    using Maclaurin_cos_expansion by blast
  define u where "u = cos (t + 1/2 * real n * pi)"
  have "\<bar>u\<bar> * (inverse (fact n) * \<bar>x\<bar> ^ n) \<le> 1 * (inverse (fact n) * \<bar>x\<bar> ^ n)"
    unfolding u_def by (rule mult_right_mono) simp_all
  moreover have "cos x - (\<Sum>m<n. cos_coeff m * x ^ m) = u * (inverse (fact n) * x ^ n)"
    using t unfolding u_def[symmetric] by (simp add: divide_inverse)
  ultimately show ?thesis by (simp add: abs_mult power_abs)
qed

lemma sum_numeral: "(\<Sum>m<numeral k. f m) = (\<Sum>m<pred_numeral k. f m) + f (pred_numeral k)"
  for f :: "nat \<Rightarrow> 'a :: comm_monoid_add"
  by (simp add: numeral_eq_Suc)

lemma sin_1_near: "\<bar>of_int fix_S1 - of_int fix_K * sin 1\<bar> \<le> (1 :: real)"
  using Maclaurin_sin_bound[of 1 20] unfolding abs_le_iff
  by (simp add: fix_S1_def fix_K_def sin_coeff_def fact_numeral sum_numeral)

lemma cos_1_near: "\<bar>of_int fix_C1 - of_int fix_K * cos 1\<bar> \<le> (1 :: real)"
  using Maclaurin_cos_bound[of 1 20] unfolding abs_le_iff
  by (simp add: fix_C1_def fix_K_def cos_coeff_def fact_numeral sum_numeral)

lemma cmod_le_2: "\<bar>a\<bar> \<le> 1 \<Longrightarrow> \<bar>b\<bar> \<le> 1 \<Longrightarrow> cmod (Complex a b) \<le> 2"
  using cmod_le[of "Complex a b"] by simp

lemma cis_1_near: "near 2 (fix_S1, fix_C1) 1"
proof -
  have "Complex (of_int fix_C1) (of_int fix_S1) - of_int fix_K * cis 1 =
      Complex (of_int fix_C1 - of_int fix_K * cos 1) (of_int fix_S1 - of_int fix_K * sin 1)"
    by (simp add: complex_eq_iff)
  then show ?thesis using cmod_le_2[OF cos_1_near sin_1_near] by (simp add: near_def)
qed

lemma floor_error: "\<bar>of_int (P div K) - of_int P / of_int K\<bar> \<le> (1 :: real)"
  using floor_divide_of_int_eq[of P K, where 'a=real] by linarith

lemma fix_step_near:
  assumes "near e SC x" "0 \<le> e" "2 * e \<le> of_int fix_K"
  shows "near (e + 5) (fix_step SC) (x + 1)"
proof -
  obtain S C where SC: "SC = (S, C)" by (cases SC)
  let ?K = "of_int fix_K :: complex"
  define Z W where "Z = Complex (of_int C) (of_int S)" and "W = Complex (of_int fix_C1) (of_int fix_S1)"
  define P where "P = Complex (of_int (C * fix_C1 - S * fix_S1)) (of_int (S * fix_C1 + C * fix_S1))"
  define Q where "Q = Complex (of_int ((C * fix_C1 - S * fix_S1) div fix_K)) (of_int ((S * fix_C1 + C * fix_S1) div fix_K))"
  have K: "cmod ?K = of_int fix_K" "0 < real_of_int fix_K" "?K \<noteq> 0" by (simp_all add: fix_K_def)
  have z: "cmod (Z - ?K * cis x) \<le> e" and w: "cmod (W - ?K * cis 1) \<le> 2"
    using assms(1) cis_1_near by (simp_all add: near_def SC Z_def W_def)
  have "cmod W \<le> cmod (W - ?K * cis 1) + cmod (?K * cis 1)" using norm_triangle_ineq[of "W - ?K * cis 1" "?K * cis 1"] by simp
  then have W: "cmod W \<le> of_int fix_K + 2" using w K by (simp add: norm_mult)
  have P: "P = Z * W" by (simp add: P_def Z_def W_def complex_eq_iff algebra_simps)
  have "P - ?K * (?K * cis (x + 1)) = (Z - ?K * cis x) * W + ?K * cis x * (W - ?K * cis 1)"
    by (simp add: P algebra_simps flip: cis_mult)
  then have "cmod (P - ?K * (?K * cis (x + 1))) \<le> cmod (Z - ?K * cis x) * cmod W + of_int fix_K * cmod (W - ?K * cis 1)"
    using norm_triangle_ineq[of "(Z - ?K * cis x) * W" "?K * cis x * (W - ?K * cis 1)"] K(1) by (simp add: norm_mult)
  also have "\<dots> \<le> e * (of_int fix_K + 2) + of_int fix_K * 2"
    using z w W K(2) assms(2) by (intro add_mono mult_mono) simp_all
  also have "\<dots> \<le> of_int fix_K * (e + 3)" using assms(3) by (simp add: algebra_simps)
  finally have "cmod (P - ?K * (?K * cis (x + 1))) / of_int fix_K \<le> e + 3" using K(2) by (simp add: field_simps)
  moreover have "P / ?K - ?K * cis (x + 1) = (P - ?K * (?K * cis (x + 1))) / ?K" using K(3) by (simp add: field_simps)
  ultimately have p: "cmod (P / ?K - ?K * cis (x + 1)) \<le> e + 3" using K(1) by (simp add: norm_divide)
  have "Q - P / ?K = Complex (Re Q - Re P / of_int fix_K) (Im Q - Im P / of_int fix_K)"
    by (simp add: complex_eq_iff Re_divide Im_divide power2_eq_square)
  moreover have "cmod (Complex (Re Q - Re P / of_int fix_K) (Im Q - Im P / of_int fix_K)) \<le> 2"
    unfolding Q_def P_def complex.sel by (rule cmod_le_2[OF floor_error floor_error])
  ultimately have "cmod (Q - P / ?K) \<le> 2" by simp
  then have "cmod (Q - ?K * cis (x + 1)) \<le> e + 5"
    using p norm_triangle_ineq[of "Q - P / ?K" "P / ?K - ?K * cis (x + 1)"] by simp
  then show ?thesis by (simp add: near_def SC fix_step_def Q_def)
qed

fun sines_ok :: "int list \<Rightarrow> int \<times> int \<Rightarrow> bool" where
  "sines_ok [] SC = True"
| "sines_ok (t # ts) SC =
     (t * fix_K + 2 ^ 42 \<le> \<bar>fst SC\<bar> * 2 ^ 32 \<and> \<bar>fst SC\<bar> * 2 ^ 32 + 2 ^ 42 \<le> (t + 1) * fix_K \<and>
      sines_ok ts (fix_step SC))"

lemma sines_ok_floor:
  assumes "t * fix_K + 2 ^ 42 \<le> \<bar>fst SC\<bar> * 2 ^ 32" "\<bar>fst SC\<bar> * 2 ^ 32 + 2 ^ 42 \<le> (t + 1) * fix_K"
    and "near e SC x" "e < 2 ^ 10"
  shows "\<lfloor>2 ^ 32 * \<bar>sin x\<bar>\<rfloor> = t"
proof -
  let ?K = "of_int fix_K :: real" and ?S = "of_int (fst SC) :: real" and ?y = "sin x"
  have K: "0 < ?K" by (simp add: fix_K_def)
  have "real_of_int (t * fix_K + 2 ^ 42) \<le> real_of_int (\<bar>fst SC\<bar> * 2 ^ 32)"
    "real_of_int (\<bar>fst SC\<bar> * 2 ^ 32 + 2 ^ 42) \<le> real_of_int ((t + 1) * fix_K)"
    using assms(1,2) by (simp_all only: of_int_le_iff)
  then have c: "of_int t * ?K + 2 ^ 42 \<le> \<bar>?S\<bar> * 2 ^ 32" "\<bar>?S\<bar> * 2 ^ 32 + 2 ^ 42 \<le> (of_int t + 1) * ?K"
    by simp_all
  have "\<bar>?S - ?K * ?y\<bar> \<le> e"
    using assms(3) abs_Im_le_cmod[of "Complex (of_int (snd SC)) ?S - of_int fix_K * cis x"]
    by (simp add: near_def split_beta)
  then have e: "\<bar>?S - ?K * ?y\<bar> < 2 ^ 10" using assms(4) by simp
  have "\<bar>?K * ?y\<bar> = ?K * \<bar>?y\<bar>" using K by (simp add: abs_mult)
  then have "\<bar>\<bar>?S\<bar> - ?K * \<bar>?y\<bar>\<bar> < 2 ^ 10" using e by linarith
  then have "of_int t * ?K < ?K * \<bar>?y\<bar> * 2 ^ 32" "?K * \<bar>?y\<bar> * 2 ^ 32 < (of_int t + 1) * ?K"
    using c by simp_all
  then have "of_int t < 2 ^ 32 * \<bar>?y\<bar>" "2 ^ 32 * \<bar>?y\<bar> < of_int t + 1"
    using K by (simp_all add: mult.commute[of ?K] mult.assoc[symmetric] mult_less_cancel_right)
  then show ?thesis by (simp add: floor_eq_iff)
qed

lemma sines_ok_T:
  "sines_ok ts SC \<Longrightarrow> near (2 + 5 * real n) SC (real m) \<Longrightarrow> n + length ts \<le> 66 \<Longrightarrow> i < length ts \<Longrightarrow>
   rfc1321_T (m + i) = ts ! i"
proof (induction ts arbitrary: SC n m i)
  case (Cons t ts)
  have "rfc1321_T m = t"
    using sines_ok_floor[of t SC "2 + 5 * real n" "real m"] Cons.prems(1-3) by (simp add: rfc1321_T_def)
  moreover have "rfc1321_T (Suc m + j) = ts ! j" if "j < length ts" for j
    using fix_step_near[OF Cons.prems(2)] Cons.prems(1,3) that
    by (intro Cons.IH[of "fix_step SC" "Suc n" "Suc m" j]) (simp_all add: fix_K_def add_ac)
  ultimately show ?case using Cons.prems(4) by (cases i) simp_all
qed simp

lemma sines_checked: "sines_ok sines (fix_S1, fix_C1)"
  by (simp add: sines_def fix_step_def fix_S1_def fix_C1_def fix_K_def)

lemma sines_T: "i < 64 \<Longrightarrow> sines ! i = rfc1321_T (i + 1)"
  using sines_ok_T[OF sines_checked, of 0 1 i] cis_1_near by (simp add: length_sines)

end
