(* ===== verification/Md5.thy ===== *)
theory Md5
  imports Md5_Sines Md32
begin

text \<open>
  MD5, \<^verbatim>\<open>crypto/fipsmodule/md5/md5.c\<close>, without assembly. As in \<^verbatim>\<open>sha1.c\<close>, the block function is a
  sequence of macro calls whose variables change roles; here it is a list of calls, and it
  computes the compression function of RFC 1321, sines included.
\<close>

section \<open>The block function\<close>

definition F :: "u32 \<Rightarrow> u32 \<Rightarrow> u32 \<Rightarrow> u32" where
  "F b c d = ((c XOR d) AND b) XOR d"

definition G :: "u32 \<Rightarrow> u32 \<Rightarrow> u32 \<Rightarrow> u32" where
  "G b c d = ((b XOR c) AND d) XOR c"

definition H :: "u32 \<Rightarrow> u32 \<Rightarrow> u32 \<Rightarrow> u32" where
  "H b c d = b XOR c XOR d"

definition I :: "u32 \<Rightarrow> u32 \<Rightarrow> u32 \<Rightarrow> u32" where
  "I b c d = (NOT d OR b) XOR c"

definition ROTATE_md :: "u32 \<Rightarrow> nat \<Rightarrow> u32" where
  "ROTATE_md a n = push_bit n a OR drop_bit (32 - n) a"

text \<open>The local variables, and the calls: variables by name, words by their number.\<close>

datatype mreg = MA | MB | MC | MD

datatype md5_call =
    R0 mreg mreg mreg mreg nat nat u32
  | R1 mreg mreg mreg mreg nat nat u32
  | R2 mreg mreg mreg mreg nat nat u32
  | R3 mreg mreg mreg mreg nat nat u32

text \<open>The three statements every macro has, \<open>f\<close> being its function.\<close>

definition md5_mix :: "(u32 \<Rightarrow> u32 \<Rightarrow> u32 \<Rightarrow> u32) \<Rightarrow> mreg \<Rightarrow> mreg \<Rightarrow> mreg \<Rightarrow> mreg \<Rightarrow> u32 \<Rightarrow> nat \<Rightarrow> u32 \<Rightarrow>
    (mreg \<Rightarrow> u32) \<Rightarrow> mreg \<Rightarrow> u32" where
  "md5_mix f a b c d k n t s =
     (let s = s(a := s a + (k + t + f (s b) (s c) (s d)));
          s = s(a := ROTATE_md (s a) n);
          s = s(a := s a + s b)
      in s)"

fun md5_exec :: "u32 list \<Rightarrow> md5_call \<Rightarrow> (mreg \<Rightarrow> u32) \<Rightarrow> mreg \<Rightarrow> u32" where
  "md5_exec X (R0 a b c d k n t) s = md5_mix F a b c d (X ! k) n t s"
| "md5_exec X (R1 a b c d k n t) s = md5_mix G a b c d (X ! k) n t s"
| "md5_exec X (R2 a b c d k n t) s = md5_mix H a b c d (X ! k) n t s"
| "md5_exec X (R3 a b c d k n t) s = md5_mix I a b c d (X ! k) n t s"

definition md5_calls :: "md5_call list" where
  "md5_calls =
  [R0 MA MB MC MD 0 7 0xd76aa478,
   R0 MD MA MB MC 1 12 0xe8c7b756,
   R0 MC MD MA MB 2 17 0x242070db,
   R0 MB MC MD MA 3 22 0xc1bdceee,
   R0 MA MB MC MD 4 7 0xf57c0faf,
   R0 MD MA MB MC 5 12 0x4787c62a,
   R0 MC MD MA MB 6 17 0xa8304613,
   R0 MB MC MD MA 7 22 0xfd469501,
   R0 MA MB MC MD 8 7 0x698098d8,
   R0 MD MA MB MC 9 12 0x8b44f7af,
   R0 MC MD MA MB 10 17 0xffff5bb1,
   R0 MB MC MD MA 11 22 0x895cd7be,
   R0 MA MB MC MD 12 7 0x6b901122,
   R0 MD MA MB MC 13 12 0xfd987193,
   R0 MC MD MA MB 14 17 0xa679438e,
   R0 MB MC MD MA 15 22 0x49b40821,
   R1 MA MB MC MD 1 5 0xf61e2562,
   R1 MD MA MB MC 6 9 0xc040b340,
   R1 MC MD MA MB 11 14 0x265e5a51,
   R1 MB MC MD MA 0 20 0xe9b6c7aa,
   R1 MA MB MC MD 5 5 0xd62f105d,
   R1 MD MA MB MC 10 9 0x02441453,
   R1 MC MD MA MB 15 14 0xd8a1e681,
   R1 MB MC MD MA 4 20 0xe7d3fbc8,
   R1 MA MB MC MD 9 5 0x21e1cde6,
   R1 MD MA MB MC 14 9 0xc33707d6,
   R1 MC MD MA MB 3 14 0xf4d50d87,
   R1 MB MC MD MA 8 20 0x455a14ed,
   R1 MA MB MC MD 13 5 0xa9e3e905,
   R1 MD MA MB MC 2 9 0xfcefa3f8,
   R1 MC MD MA MB 7 14 0x676f02d9,
   R1 MB MC MD MA 12 20 0x8d2a4c8a,
   R2 MA MB MC MD 5 4 0xfffa3942,
   R2 MD MA MB MC 8 11 0x8771f681,
   R2 MC MD MA MB 11 16 0x6d9d6122,
   R2 MB MC MD MA 14 23 0xfde5380c,
   R2 MA MB MC MD 1 4 0xa4beea44,
   R2 MD MA MB MC 4 11 0x4bdecfa9,
   R2 MC MD MA MB 7 16 0xf6bb4b60,
   R2 MB MC MD MA 10 23 0xbebfbc70,
   R2 MA MB MC MD 13 4 0x289b7ec6,
   R2 MD MA MB MC 0 11 0xeaa127fa,
   R2 MC MD MA MB 3 16 0xd4ef3085,
   R2 MB MC MD MA 6 23 0x04881d05,
   R2 MA MB MC MD 9 4 0xd9d4d039,
   R2 MD MA MB MC 12 11 0xe6db99e5,
   R2 MC MD MA MB 15 16 0x1fa27cf8,
   R2 MB MC MD MA 2 23 0xc4ac5665,
   R3 MA MB MC MD 0 6 0xf4292244,
   R3 MD MA MB MC 7 10 0x432aff97,
   R3 MC MD MA MB 14 15 0xab9423a7,
   R3 MB MC MD MA 5 21 0xfc93a039,
   R3 MA MB MC MD 12 6 0x655b59c3,
   R3 MD MA MB MC 3 10 0x8f0ccc92,
   R3 MC MD MA MB 10 15 0xffeff47d,
   R3 MB MC MD MA 1 21 0x85845dd1,
   R3 MA MB MC MD 8 6 0x6fa87e4f,
   R3 MD MA MB MC 15 10 0xfe2ce6e0,
   R3 MC MD MA MB 6 15 0xa3014314,
   R3 MB MC MD MA 13 21 0x4e0811a1,
   R3 MA MB MC MD 4 6 0xf7537e82,
   R3 MD MA MB MC 11 10 0xbd3af235,
   R3 MC MD MA MB 2 15 0x2ad7d2bb,
   R3 MB MC MD MA 9 21 0xeb86d391]"

definition load_mregs :: "u32 list \<Rightarrow> mreg \<Rightarrow> u32" where
  "load_mregs state = (\<lambda>v. case v of MA \<Rightarrow> state ! 0 | MB \<Rightarrow> state ! 1 | MC \<Rightarrow> state ! 2 | MD \<Rightarrow> state ! 3)"

text \<open>The words of the block, read between the first calls.\<close>

definition load_block_le :: "u8 list \<Rightarrow> u32 list" where
  "load_block_le data = map (\<lambda>i. HOST_c2l DATA_ORDER_IS_LITTLE_ENDIAN (drop (4 * i) data)) [0..<16]"

definition md5_block :: "u32 list \<Rightarrow> u8 list \<Rightarrow> u32 list" where
  "md5_block state data =
     (let X = load_block_le data;
          s = fold (md5_exec X) md5_calls (load_mregs state)
      in [state ! 0 + s MA, state ! 1 + s MB, state ! 2 + s MC, state ! 3 + s MD])"

definition md5_block_data_order :: block_order where
  "md5_block_data_order state data num = while_num 64 md5_block state data num"

section \<open>The digest functions\<close>

definition MD5_DIGEST_LENGTH :: nat where
  "MD5_DIGEST_LENGTH = 16"

definition MD5_Init :: hash_ctx where
  "MD5_Init = \<lparr>hc_h = [0x67452301, 0xefcdab89, 0x98badcfe, 0x10325476], hc_Nl = 0, hc_Nh = 0,
     hc_data = replicate HASH_CBLOCK 0, hc_num = 0, hc_md_len = 0\<rparr>"

definition MD5_Update :: "hash_ctx \<Rightarrow> u8 list \<Rightarrow> hash_ctx option" where
  "MD5_Update = HASH_UPDATE md5_block_data_order"

definition MD5_Transform :: "hash_ctx \<Rightarrow> u8 list \<Rightarrow> hash_ctx option" where
  "MD5_Transform = HASH_TRANSFORM md5_block_data_order"

definition md5_make_string :: "hash_ctx \<Rightarrow> u8 list" where
  "md5_make_string c = (let l = (\<lambda>i. HOST_l2c DATA_ORDER_IS_LITTLE_ENDIAN (hc_h c ! i)) in l 0 @ l 1 @ l 2 @ l 3)"

definition MD5_Final :: "hash_ctx \<Rightarrow> (u8 list \<times> hash_ctx) option" where
  "MD5_Final c = do {
     c \<leftarrow> HASH_FINAL DATA_ORDER_IS_LITTLE_ENDIAN md5_block_data_order c;
     Some (md5_make_string c, c) }"

definition MD5 :: "u8 list \<Rightarrow> u8 list option" where
  "MD5 data = do {
     ctx \<leftarrow> MD5_Update MD5_Init data;
     (out, ctx) \<leftarrow> MD5_Final ctx;
     Some out }"

section \<open>RFC 1321\<close>

text \<open>The function, the word and the shift of step \<open>i\<close>, counted from 0.\<close>

definition rfc1321_f :: "nat \<Rightarrow> u32 \<Rightarrow> u32 \<Rightarrow> u32 \<Rightarrow> u32" where
  "rfc1321_f i x y z =
     (if i < 16 then (x AND y) OR (NOT x AND z)
      else if i < 32 then (x AND z) OR (y AND NOT z)
      else if i < 48 then x XOR y XOR z
      else y XOR (x OR NOT z))"

definition rfc1321_k :: "nat \<Rightarrow> nat" where
  "rfc1321_k i =
     (if i < 16 then i else if i < 32 then (5 * i + 1) mod 16 else if i < 48 then (3 * i + 5) mod 16 else 7 * i mod 16)"

definition rfc1321_s :: "nat \<Rightarrow> nat" where
  "rfc1321_s i = [[7, 12, 17, 22], [5, 9, 14, 20], [4, 11, 16, 23], [6, 10, 15, 21]] ! (i div 16) ! (i mod 4)"

fun md5_step :: "(u32 \<Rightarrow> u32 \<Rightarrow> u32 \<Rightarrow> u32) \<Rightarrow> u32 \<Rightarrow> nat \<Rightarrow> u32 \<Rightarrow> u32 list \<Rightarrow> u32 list" where
  "md5_step f k n t [a, b, c, d] = [d, b + word_rotl n (a + f b c d + k + t), b, c]"
| "md5_step f k n t st = st"

definition le_words :: "u8 list \<Rightarrow> u32 list" where
  "le_words b = map (\<lambda>i. of_nat (be_val (rev (take 4 (drop (4 * i) b))))) [0..<16]"

definition md5_compress :: "u32 list \<Rightarrow> u8 list \<Rightarrow> u32 list" where
  "md5_compress st b = map2 (+) st
     (fold (\<lambda>i. md5_step (rfc1321_f i) (le_words b ! rfc1321_k i) (rfc1321_s i) (of_int (rfc1321_T (i + 1)))) [0..<64] st)"

definition le_digest :: "u32 list \<Rightarrow> u8 list" where
  "le_digest h = concat (map (\<lambda>w. rev (be_bytes 4 (unat w))) h)"

text \<open>The registers of the RFC, low-order bytes first.\<close>

definition rfc1321_registers :: "u32 list" where
  "rfc1321_registers = take 4 (le_words
     [0x01, 0x23, 0x45, 0x67, 0x89, 0xab, 0xcd, 0xef, 0xfe, 0xdc, 0xba, 0x98, 0x76, 0x54, 0x32, 0x10])"

definition rfc1321_md5 :: "u8 list \<Rightarrow> u8 list" where
  "rfc1321_md5 msg = le_digest (md_hash DATA_ORDER_IS_LITTLE_ENDIAN md5_compress rfc1321_registers msg)"

lemma MD5_Init_registers: "rfc1321_registers = hc_h MD5_Init"
  by (simp add: rfc1321_registers_def le_words_def take_map MD5_Init_def upt_rec be_val_def)

section \<open>The calls follow one pattern\<close>

definition mrole :: "nat \<Rightarrow> nat \<Rightarrow> mreg" where
  "mrole i j = [MA, MB, MC, MD] ! ((j + 3 * i) mod 4)"

definition md5_gen :: "nat \<Rightarrow> u32 \<Rightarrow> md5_call" where
  "md5_gen i t =
     (if i < 16 then R0 else if i < 32 then R1 else if i < 48 then R2 else R3)
       (mrole i 0) (mrole i 1) (mrole i 2) (mrole i 3) (rfc1321_k i) (rfc1321_s i) t"

fun md5_call_t :: "md5_call \<Rightarrow> u32" where
  "md5_call_t (R0 a b c d k n t) = t"
| "md5_call_t (R1 a b c d k n t) = t"
| "md5_call_t (R2 a b c d k n t) = t"
| "md5_call_t (R3 a b c d k n t) = t"

lemma md5_calls_gen: "md5_calls = map2 md5_gen [0..<64] (map md5_call_t md5_calls)"
  by code_simp

lemma md5_calls_t: "map md5_call_t md5_calls = map of_int sines"
  by (simp add: md5_calls_def sines_def)

lemma mrole_step: "mrole (Suc i) 0 = mrole i 3" "mrole (Suc i) 1 = mrole i 0" "mrole (Suc i) 2 = mrole i 1"
  "mrole (Suc i) 3 = mrole i 2"
proof -
  have e: "mrole (Suc i) (Suc j) = mrole i j" for j
  proof -
    have "Suc j + 3 * Suc i = 4 + (j + 3 * i)" by simp
    then show ?thesis by (simp only: mrole_def mod_add_self1)
  qed
  have n: "(1 :: nat) = Suc 0" "(2 :: nat) = Suc 1" "(3 :: nat) = Suc 2" by simp_all
  show "mrole (Suc i) 0 = mrole i 3" by (simp add: mrole_def)
  show "mrole (Suc i) 1 = mrole i 0" by (subst n(1)) (rule e)
  show "mrole (Suc i) 2 = mrole i 1" by (subst n(2)) (rule e)
  show "mrole (Suc i) 3 = mrole i 2" by (subst n(3)) (rule e)
qed

lemma mrole_distinct: "distinct [mrole i 0, mrole i 1, mrole i 2, mrole i 3]"
proof -
  define j where "j = 3 * i mod 4"
  have r: "mrole i k = [MA, MB, MC, MD] ! ((k + j) mod 4)" for k
    by (simp add: mrole_def j_def mod_add_right_eq)
  have "j < 4" by (simp add: j_def)
  then have "j = 0 \<or> j = 1 \<or> j = 2 \<or> j = 3" by linarith
  then show ?thesis unfolding r by (elim disjE) simp_all
qed

lemma mrole_neq: "p < 4 \<Longrightarrow> q < 4 \<Longrightarrow> p \<noteq> q \<Longrightarrow> mrole i p \<noteq> mrole i q"
  using mrole_distinct[of i] by (auto simp: less_Suc_eq numeral_eq_Suc)

definition mview :: "nat \<Rightarrow> (mreg \<Rightarrow> u32) \<Rightarrow> u32 list" where
  "mview i s = [s (mrole i 0), s (mrole i 1), s (mrole i 2), s (mrole i 3)]"

lemma mview_load:
  assumes "length state = 4"
  shows "mview 0 (load_mregs state) = state"
proof -
  obtain a b c d where "state = [a, b, c, d]" using assms by (auto simp: length_Suc_conv numeral_eq_Suc)
  then show ?thesis by (simp add: mview_def mrole_def load_mregs_def)
qed

lemma ROTATE_md_rotl: "0 < n \<Longrightarrow> n < 32 \<Longrightarrow> ROTATE_md x n = word_rotl n x"
  using ROTATE_left by (simp add: ROTATE_md_def)

section \<open>The block function is the compression function\<close>

lemma md5_functions:
  "F = (\<lambda>x y z. (x AND y) OR (NOT x AND z))" "G = (\<lambda>x y z. (x AND z) OR (y AND NOT z))"
  "H = (\<lambda>x y z. x XOR y XOR z)" "I = (\<lambda>x y z. y XOR (x OR NOT z))"
  by (auto simp: fun_eq_iff F_def G_def H_def I_def bit_eq_iff bit_simps)

lemma rfc1321_s_range: "i < 64 \<Longrightarrow> 0 < rfc1321_s i \<and> rfc1321_s i < 32"
proof -
  have "\<forall>i \<in> set [0..<64]. 0 < rfc1321_s i \<and> rfc1321_s i < 32" by code_simp
  then show "i < 64 \<Longrightarrow> 0 < rfc1321_s i \<and> rfc1321_s i < 32" by simp
qed

lemma md5_call_view:
  assumes "i < 64"
  shows "mview (Suc i) (md5_exec X (md5_gen i t) s) = md5_step (rfc1321_f i) (X ! rfc1321_k i) (rfc1321_s i) t (mview i s)"
proof -
  have f: "md5_exec X (md5_gen i t) s = md5_mix (rfc1321_f i) (mrole i 0) (mrole i 1) (mrole i 2) (mrole i 3)
      (X ! rfc1321_k i) (rfc1321_s i) t s"
    using assms by (simp add: md5_gen_def md5_functions rfc1321_f_def[abs_def])
  show ?thesis
    unfolding f mview_def mrole_step using rfc1321_s_range[OF assms] mrole_neq
    by (simp add: md5_mix_def Let_def ROTATE_md_rotl add_ac)
qed

lemma md5_fold_view:
  "n \<le> 64 \<Longrightarrow> length ts = n \<Longrightarrow>
    mview n (fold (md5_exec X) (map2 md5_gen [0..<n] ts) s) =
    fold (\<lambda>i. md5_step (rfc1321_f i) (X ! rfc1321_k i) (rfc1321_s i) (ts ! i)) [0..<n] (mview 0 s)"
proof (induction n arbitrary: ts)
  case (Suc n)
  obtain t us where ts: "ts = us @ [t]" "length us = n"
    using Suc.prems(2) by (cases ts rule: rev_cases) auto
  have "fold (\<lambda>i. md5_step (rfc1321_f i) (X ! rfc1321_k i) (rfc1321_s i) (ts ! i)) [0..<n] (mview 0 s) =
      fold (\<lambda>i. md5_step (rfc1321_f i) (X ! rfc1321_k i) (rfc1321_s i) (us ! i)) [0..<n] (mview 0 s)"
    by (rule fold_cong) (auto simp: ts nth_append)
  then show ?case
    using Suc.IH[of us] Suc.prems md5_call_view[of n X t] ts by (simp add: nth_append)
qed simp

lemma load_block_le_words: "length b = 64 \<Longrightarrow> load_block_le b = le_words b"
  by (simp add: load_block_le_def le_words_def HOST_c2l_le del: HOST_c2l.simps)

lemma md5_block_compress:
  assumes "length st = 4" "length b = 64"
  shows "md5_block st b = md5_compress st b"
proof -
  let ?X = "le_words b" and ?ts = "map of_int sines :: u32 list"
  let ?s = "fold (md5_exec ?X) md5_calls (load_mregs st)"
  obtain a0 a1 a2 a3 where st: "st = [a0, a1, a2, a3]" using assms(1) by (auto simp: length_Suc_conv numeral_eq_Suc)
  have T: "?ts ! i = of_int (rfc1321_T (i + 1))" if "i < 64" for i
    using that sines_T[of i] by (simp add: length_sines)
  have "mview 64 ?s = fold (\<lambda>i. md5_step (rfc1321_f i) (?X ! rfc1321_k i) (rfc1321_s i) (?ts ! i)) [0..<64] (mview 0 (load_mregs st))"
    using md5_fold_view[of 64 ?ts ?X] md5_calls_gen by (simp add: md5_calls_t length_sines)
  also have "mview 0 (load_mregs st) = st" using assms(1) by (simp add: mview_load)
  also have "fold (\<lambda>i. md5_step (rfc1321_f i) (?X ! rfc1321_k i) (rfc1321_s i) (?ts ! i)) [0..<64] st =
      fold (\<lambda>i. md5_step (rfc1321_f i) (?X ! rfc1321_k i) (rfc1321_s i) (of_int (rfc1321_T (i + 1)))) [0..<64] st"
    by (rule fold_cong) (auto simp: T)
  finally have v: "mview 64 ?s = \<dots>" .
  have m: "mview 64 ?s = [?s MA, ?s MB, ?s MC, ?s MD]" by (simp add: mview_def mrole_def)
  show ?thesis
    unfolding md5_compress_def v[symmetric] m md5_block_def load_block_le_words[OF assms(2)]
    by (simp add: st Let_def)
qed

lemma length_md5_compress: "length st = 4 \<Longrightarrow> length (md5_compress st b) = 4"
proof -
  have s: "length (md5_step f k n t st) = 4" if "length st = 4" for f k n t st
    using that by (cases "(f, k, n, t, st)" rule: md5_step.cases) simp_all
  have "length (fold (\<lambda>i. md5_step (f i) (k i) (n i) (t i)) is st) = 4" if "length st = 4" for f k n t and "is" :: "nat list" and st
    using that by (induction "is" arbitrary: st) (simp_all add: s)
  then show "length st = 4 \<Longrightarrow> length (md5_compress st b) = 4" by (simp add: md5_compress_def)
qed

interpretation md5: md32 DATA_ORDER_IS_LITTLE_ENDIAN md5_block_data_order md5_compress 4
proof
  fix st :: "u32 list" and n and data :: "u8 list"
  assume st: "length st = 4" and n: "0 < n" "64 * n \<le> length data"
  have "foldl md5_block st (chunks 64 (take (64 * n) data)) = foldl md5_compress st (chunks 64 (take (64 * n) data))"
    by (rule foldl_chunks_cong[where n = 4]) (simp_all add: md5_block_compress length_md5_compress st)
  then show "md5_block_data_order st data n = Some (foldl md5_compress st (chunks 64 (take (64 * n) data)))"
    using n by (simp add: md5_block_data_order_def while_num_fold)
qed (simp add: length_md5_compress)

lemma md5_make_string_list: "length (hc_h c) = 4 \<Longrightarrow> md5_make_string c = le_digest (hc_h c)"
proof -
  assume "length (hc_h c) = 4"
  then obtain w0 w1 w2 w3 where "hc_h c = [w0, w1, w2, w3]" by (auto simp: length_Suc_conv numeral_eq_Suc)
  then show ?thesis by (simp add: md5_make_string_def le_digest_def Let_def HOST_l2c_le del: HOST_l2c.simps)
qed

lemma md5_stream:
  "\<exists>c1 c2. feed MD5_Update MD5_Init ps = Some c1 \<and> MD5_Final c1 = Some (rfc1321_md5 (concat ps), c2)"
proof -
  have "\<exists>c1 c2. feed (HASH_UPDATE md5_block_data_order) MD5_Init ps = Some c1 \<and>
      HASH_FINAL DATA_ORDER_IS_LITTLE_ENDIAN md5_block_data_order c1 = Some c2 \<and>
      hc_h c2 = md_hash DATA_ORDER_IS_LITTLE_ENDIAN md5_compress (hc_h MD5_Init) (concat ps) \<and>
      length (hc_h c2) = 4 \<and> hc_md_len c2 = hc_md_len MD5_Init"
    by (rule md5.stream) (simp_all add: MD5_Init_def HASH_CBLOCK_def)
  then show ?thesis
    by (auto simp: MD5_Update_def MD5_Final_def rfc1321_md5_def MD5_Init_registers md5_make_string_list)
qed

text \<open>
  Property C30: MD5 over any sequence of updates, and in one call, is MD5 of RFC 1321 on the
  concatenated input, whose table holds the integer parts of \<open>2 ^ 32\<close> times the absolute values
  of the sines of 1 to 64.
\<close>

theorem MD5_rfc1321:
  "(\<exists>ctx. do { c \<leftarrow> feed MD5_Update MD5_Init ps; MD5_Final c } = Some (rfc1321_md5 (concat ps), ctx)) \<and>
   MD5 data = Some (rfc1321_md5 data)"
  using md5_stream[of ps] md5_stream[of "[data]"] by (auto simp: MD5_def)

end
