(* ===== verification/Md4.thy ===== *)
theory Md4
  imports Md5
begin

text \<open>
  MD4, \<^verbatim>\<open>crypto/fipsmodule/md4/md4.c\<close>, in the same style: three rounds of macro calls over rotating
  variables. The variables and their roles are those of \<open>Md5\<close>; the macros are MD4's own.
\<close>

section \<open>The block function\<close>

definition MD4_F :: "u32 \<Rightarrow> u32 \<Rightarrow> u32 \<Rightarrow> u32" where
  "MD4_F b c d = ((c XOR d) AND b) XOR d"

definition MD4_G :: "u32 \<Rightarrow> u32 \<Rightarrow> u32 \<Rightarrow> u32" where
  "MD4_G b c d = (b AND c) OR (b AND d) OR (c AND d)"

definition MD4_H :: "u32 \<Rightarrow> u32 \<Rightarrow> u32 \<Rightarrow> u32" where
  "MD4_H b c d = b XOR c XOR d"

datatype md4_call =
    MD4_R0 mreg mreg mreg mreg nat nat u32
  | MD4_R1 mreg mreg mreg mreg nat nat u32
  | MD4_R2 mreg mreg mreg mreg nat nat u32

definition md4_mix :: "(u32 \<Rightarrow> u32 \<Rightarrow> u32 \<Rightarrow> u32) \<Rightarrow> mreg \<Rightarrow> mreg \<Rightarrow> mreg \<Rightarrow> mreg \<Rightarrow> u32 \<Rightarrow> nat \<Rightarrow> u32 \<Rightarrow>
    (mreg \<Rightarrow> u32) \<Rightarrow> mreg \<Rightarrow> u32" where
  "md4_mix f a b c d k n t s =
     (let s = s(a := s a + (k + t + f (s b) (s c) (s d)));
          s = s(a := ROTATE_md (s a) n)
      in s)"

fun md4_exec :: "u32 list \<Rightarrow> md4_call \<Rightarrow> (mreg \<Rightarrow> u32) \<Rightarrow> mreg \<Rightarrow> u32" where
  "md4_exec X (MD4_R0 a b c d k n t) s = md4_mix MD4_F a b c d (X ! k) n t s"
| "md4_exec X (MD4_R1 a b c d k n t) s = md4_mix MD4_G a b c d (X ! k) n t s"
| "md4_exec X (MD4_R2 a b c d k n t) s = md4_mix MD4_H a b c d (X ! k) n t s"

definition md4_calls :: "md4_call list" where
  "md4_calls =
  [MD4_R0 MA MB MC MD 0 3 0,
   MD4_R0 MD MA MB MC 1 7 0,
   MD4_R0 MC MD MA MB 2 11 0,
   MD4_R0 MB MC MD MA 3 19 0,
   MD4_R0 MA MB MC MD 4 3 0,
   MD4_R0 MD MA MB MC 5 7 0,
   MD4_R0 MC MD MA MB 6 11 0,
   MD4_R0 MB MC MD MA 7 19 0,
   MD4_R0 MA MB MC MD 8 3 0,
   MD4_R0 MD MA MB MC 9 7 0,
   MD4_R0 MC MD MA MB 10 11 0,
   MD4_R0 MB MC MD MA 11 19 0,
   MD4_R0 MA MB MC MD 12 3 0,
   MD4_R0 MD MA MB MC 13 7 0,
   MD4_R0 MC MD MA MB 14 11 0,
   MD4_R0 MB MC MD MA 15 19 0,
   MD4_R1 MA MB MC MD 0 3 0x5A827999,
   MD4_R1 MD MA MB MC 4 5 0x5A827999,
   MD4_R1 MC MD MA MB 8 9 0x5A827999,
   MD4_R1 MB MC MD MA 12 13 0x5A827999,
   MD4_R1 MA MB MC MD 1 3 0x5A827999,
   MD4_R1 MD MA MB MC 5 5 0x5A827999,
   MD4_R1 MC MD MA MB 9 9 0x5A827999,
   MD4_R1 MB MC MD MA 13 13 0x5A827999,
   MD4_R1 MA MB MC MD 2 3 0x5A827999,
   MD4_R1 MD MA MB MC 6 5 0x5A827999,
   MD4_R1 MC MD MA MB 10 9 0x5A827999,
   MD4_R1 MB MC MD MA 14 13 0x5A827999,
   MD4_R1 MA MB MC MD 3 3 0x5A827999,
   MD4_R1 MD MA MB MC 7 5 0x5A827999,
   MD4_R1 MC MD MA MB 11 9 0x5A827999,
   MD4_R1 MB MC MD MA 15 13 0x5A827999,
   MD4_R2 MA MB MC MD 0 3 0x6ED9EBA1,
   MD4_R2 MD MA MB MC 8 9 0x6ED9EBA1,
   MD4_R2 MC MD MA MB 4 11 0x6ED9EBA1,
   MD4_R2 MB MC MD MA 12 15 0x6ED9EBA1,
   MD4_R2 MA MB MC MD 2 3 0x6ED9EBA1,
   MD4_R2 MD MA MB MC 10 9 0x6ED9EBA1,
   MD4_R2 MC MD MA MB 6 11 0x6ED9EBA1,
   MD4_R2 MB MC MD MA 14 15 0x6ED9EBA1,
   MD4_R2 MA MB MC MD 1 3 0x6ED9EBA1,
   MD4_R2 MD MA MB MC 9 9 0x6ED9EBA1,
   MD4_R2 MC MD MA MB 5 11 0x6ED9EBA1,
   MD4_R2 MB MC MD MA 13 15 0x6ED9EBA1,
   MD4_R2 MA MB MC MD 3 3 0x6ED9EBA1,
   MD4_R2 MD MA MB MC 11 9 0x6ED9EBA1,
   MD4_R2 MC MD MA MB 7 11 0x6ED9EBA1,
   MD4_R2 MB MC MD MA 15 15 0x6ED9EBA1]"

definition md4_block :: "u32 list \<Rightarrow> u8 list \<Rightarrow> u32 list" where
  "md4_block state data =
     (let X = map (\<lambda>i. HOST_c2l DATA_ORDER_IS_LITTLE_ENDIAN (drop (4 * i) data)) [0..<16];
          s = fold (md4_exec X) md4_calls (load_mregs state)
      in [state ! 0 + s MA, state ! 1 + s MB, state ! 2 + s MC, state ! 3 + s MD])"

definition md4_block_data_order :: block_order where
  "md4_block_data_order state data num = while_num 64 md4_block state data num"

section \<open>The digest functions\<close>

definition MD4_DIGEST_LENGTH :: nat where
  "MD4_DIGEST_LENGTH = 16"

definition MD4_Init :: hash_ctx where
  "MD4_Init = \<lparr>hc_h = [0x67452301, 0xefcdab89, 0x98badcfe, 0x10325476], hc_Nl = 0, hc_Nh = 0,
     hc_data = replicate HASH_CBLOCK 0, hc_num = 0, hc_md_len = 0\<rparr>"

definition MD4_Update :: "hash_ctx \<Rightarrow> u8 list \<Rightarrow> hash_ctx option" where
  "MD4_Update = HASH_UPDATE md4_block_data_order"

definition MD4_Transform :: "hash_ctx \<Rightarrow> u8 list \<Rightarrow> hash_ctx option" where
  "MD4_Transform = HASH_TRANSFORM md4_block_data_order"

definition md4_make_string :: "hash_ctx \<Rightarrow> u8 list" where
  "md4_make_string c = (let l = (\<lambda>i. HOST_l2c DATA_ORDER_IS_LITTLE_ENDIAN (hc_h c ! i)) in l 0 @ l 1 @ l 2 @ l 3)"

definition MD4_Final :: "hash_ctx \<Rightarrow> (u8 list \<times> hash_ctx) option" where
  "MD4_Final c = do {
     c \<leftarrow> HASH_FINAL DATA_ORDER_IS_LITTLE_ENDIAN md4_block_data_order c;
     Some (md4_make_string c, c) }"

definition MD4 :: "u8 list \<Rightarrow> u8 list option" where
  "MD4 data = do {
     ctx \<leftarrow> MD4_Update MD4_Init data;
     (out, ctx) \<leftarrow> MD4_Final ctx;
     Some out }"

section \<open>RFC 1320\<close>

definition rfc1320_f :: "nat \<Rightarrow> u32 \<Rightarrow> u32 \<Rightarrow> u32 \<Rightarrow> u32" where
  "rfc1320_f i x y z =
     (if i < 16 then (x AND y) OR (NOT x AND z)
      else if i < 32 then (x AND y) OR (x AND z) OR (y AND z)
      else x XOR y XOR z)"

text \<open>The word: in order, by columns, and with the bits of the index reversed.\<close>

definition rfc1320_k :: "nat \<Rightarrow> nat" where
  "rfc1320_k i =
     (if i < 16 then i
      else if i < 32 then 4 * (i mod 4) + (i - 16) div 4
      else 8 * (i mod 2) + 4 * (i div 2 mod 2) + 2 * (i div 4 mod 2) + i div 8 mod 2)"

definition rfc1320_s :: "nat \<Rightarrow> nat" where
  "rfc1320_s i = [[3, 7, 11, 19], [3, 5, 9, 13], [3, 9, 11, 15]] ! (i div 16) ! (i mod 4)"

text \<open>The integer parts of \<open>2 ^ 30\<close> times the square roots of 2 and 3.\<close>

definition rfc1320_t :: "nat \<Rightarrow> nat" where
  "rfc1320_t i = (if i < 16 then 0 else nat \<lfloor>2 ^ 30 * sqrt (if i < 32 then 2 else 3)\<rfloor>)"

fun md4_step :: "(u32 \<Rightarrow> u32 \<Rightarrow> u32 \<Rightarrow> u32) \<Rightarrow> u32 \<Rightarrow> nat \<Rightarrow> u32 \<Rightarrow> u32 list \<Rightarrow> u32 list" where
  "md4_step f k n t [a, b, c, d] = [d, word_rotl n (a + f b c d + k + t), b, c]"
| "md4_step f k n t st = st"

definition md4_compress :: "u32 list \<Rightarrow> u8 list \<Rightarrow> u32 list" where
  "md4_compress st b = map2 (+) st
     (fold (\<lambda>i. md4_step (rfc1320_f i) (le_words b ! rfc1320_k i) (rfc1320_s i) (of_nat (rfc1320_t i))) [0..<48] st)"

definition rfc1320_md4 :: "u8 list \<Rightarrow> u8 list" where
  "rfc1320_md4 msg = le_digest (md_hash DATA_ORDER_IS_LITTLE_ENDIAN md4_compress rfc1321_registers msg)"

text \<open>The registers of RFC 1320 are those of RFC 1321.\<close>

lemma MD4_Init_registers: "rfc1321_registers = hc_h MD4_Init"
  by (simp add: rfc1321_registers_def le_words_def take_map MD4_Init_def upt_rec be_val_def)

section \<open>The block function is the compression function\<close>

definition md4_t :: "nat \<Rightarrow> u32" where
  "md4_t i = (if i < 16 then 0 else if i < 32 then 0x5A827999 else 0x6ED9EBA1)"

definition md4_gen :: "nat \<Rightarrow> md4_call" where
  "md4_gen i =
     (if i < 16 then MD4_R0 else if i < 32 then MD4_R1 else MD4_R2)
       (mrole i 0) (mrole i 1) (mrole i 2) (mrole i 3) (rfc1320_k i) (rfc1320_s i) (md4_t i)"

lemma md4_calls_gen: "md4_calls = map md4_gen [0..<48]"
  by code_simp

lemma floor_sqrt:
  assumes "t ^ 2 \<le> 2 ^ 60 * m" "2 ^ 60 * m < (t + 1) ^ 2"
  shows "nat \<lfloor>2 ^ 30 * sqrt (real m)\<rfloor> = t"
proof -
  have e: "2 ^ 30 * sqrt (real m) = sqrt (real (2 ^ 60 * m))" by (simp add: real_sqrt_mult)
  have "real t = sqrt (real (t ^ 2))" "real t + 1 = sqrt (real ((t + 1) ^ 2))" by simp_all
  then have "real t \<le> 2 ^ 30 * sqrt (real m)" "2 ^ 30 * sqrt (real m) < real t + 1"
    unfolding e using assms by (simp_all only: real_sqrt_le_iff real_sqrt_less_iff of_nat_le_iff of_nat_less_iff)
  then have "\<lfloor>2 ^ 30 * sqrt (real m)\<rfloor> = int t" by (simp add: floor_eq_iff)
  then show ?thesis by simp
qed

lemma md4_t_sqrt: "md4_t i = of_nat (rfc1320_t i)"
proof -
  have "rfc1320_t i = (if i < 16 then 0 else if i < 32 then 1518500249 else 1859775393)"
    using floor_sqrt[of 1518500249 2] floor_sqrt[of 1859775393 3] by (simp add: rfc1320_t_def)
  then show ?thesis by (simp add: md4_t_def)
qed

lemma md4_functions:
  "MD4_F = (\<lambda>x y z. (x AND y) OR (NOT x AND z))" "MD4_G = (\<lambda>x y z. (x AND y) OR (x AND z) OR (y AND z))"
  "MD4_H = (\<lambda>x y z. x XOR y XOR z)"
  by (auto simp: fun_eq_iff MD4_F_def MD4_G_def MD4_H_def bit_eq_iff bit_simps)

lemma rfc1320_s_range: "i < 48 \<Longrightarrow> 0 < rfc1320_s i \<and> rfc1320_s i < 32"
proof -
  have "\<forall>i \<in> set [0..<48]. 0 < rfc1320_s i \<and> rfc1320_s i < 32" by code_simp
  then show "i < 48 \<Longrightarrow> 0 < rfc1320_s i \<and> rfc1320_s i < 32" by simp
qed

lemma md4_call_view:
  assumes "i < 48"
  shows "mview (Suc i) (md4_exec X (md4_gen i) s) = md4_step (rfc1320_f i) (X ! rfc1320_k i) (rfc1320_s i) (md4_t i) (mview i s)"
proof -
  have f: "md4_exec X (md4_gen i) s = md4_mix (rfc1320_f i) (mrole i 0) (mrole i 1) (mrole i 2) (mrole i 3)
      (X ! rfc1320_k i) (rfc1320_s i) (md4_t i) s"
    by (simp add: md4_gen_def md4_functions rfc1320_f_def[abs_def])
  show ?thesis
    unfolding f mview_def mrole_step using rfc1320_s_range[OF assms] mrole_neq
    by (simp add: md4_mix_def Let_def ROTATE_md_rotl add_ac)
qed

lemma md4_fold_view:
  "n \<le> 48 \<Longrightarrow> mview n (fold (md4_exec X) (map md4_gen [0..<n]) s) =
    fold (\<lambda>i. md4_step (rfc1320_f i) (X ! rfc1320_k i) (rfc1320_s i) (md4_t i)) [0..<n] (mview 0 s)"
  by (induction n) (simp_all add: md4_call_view)

lemma md4_block_compress:
  assumes "length st = 4" "length b = 64"
  shows "md4_block st b = md4_compress st b"
proof -
  let ?s = "fold (md4_exec (le_words b)) md4_calls (load_mregs st)"
  obtain a0 a1 a2 a3 where st: "st = [a0, a1, a2, a3]" using assms(1) by (auto simp: length_Suc_conv numeral_eq_Suc)
  have X: "map (\<lambda>i. HOST_c2l DATA_ORDER_IS_LITTLE_ENDIAN (drop (4 * i) b)) [0..<16] = le_words b"
    using load_block_le_words[OF assms(2)] by (simp add: load_block_le_def del: HOST_c2l.simps)
  have v: "fold (\<lambda>i. md4_step (rfc1320_f i) (le_words b ! rfc1320_k i) (rfc1320_s i) (of_nat (rfc1320_t i))) [0..<48] st = mview 48 ?s"
    using md4_fold_view[of 48 "le_words b" "load_mregs st"] assms(1) by (simp add: md4_calls_gen mview_load md4_t_sqrt)
  have m: "mview 48 ?s = [?s MA, ?s MB, ?s MC, ?s MD]" by (simp add: mview_def mrole_def)
  show ?thesis
    unfolding md4_compress_def v m md4_block_def X by (simp add: st Let_def)
qed

lemma length_md4_compress: "length st = 4 \<Longrightarrow> length (md4_compress st b) = 4"
proof -
  have s: "length (md4_step f k n t st) = 4" if "length st = 4" for f k n t st
    using that by (cases "(f, k, n, t, st)" rule: md4_step.cases) simp_all
  have "length (fold (\<lambda>i. md4_step (f i) (k i) (n i) (t i)) is st) = 4" if "length st = 4" for f k n t and "is" :: "nat list" and st
    using that by (induction "is" arbitrary: st) (simp_all add: s)
  then show "length st = 4 \<Longrightarrow> length (md4_compress st b) = 4" by (simp add: md4_compress_def)
qed

interpretation md4: md32 DATA_ORDER_IS_LITTLE_ENDIAN md4_block_data_order md4_compress 4
proof
  fix st :: "u32 list" and n and data :: "u8 list"
  assume st: "length st = 4" and n: "0 < n" "64 * n \<le> length data"
  have "foldl md4_block st (chunks 64 (take (64 * n) data)) = foldl md4_compress st (chunks 64 (take (64 * n) data))"
    by (rule foldl_chunks_cong[where n = 4]) (simp_all add: md4_block_compress length_md4_compress st)
  then show "md4_block_data_order st data n = Some (foldl md4_compress st (chunks 64 (take (64 * n) data)))"
    using n by (simp add: md4_block_data_order_def while_num_fold)
qed (simp add: length_md4_compress)

lemma md4_make_string_list: "length (hc_h c) = 4 \<Longrightarrow> md4_make_string c = le_digest (hc_h c)"
  using md5_make_string_list[of c] by (simp only: md4_make_string_def md5_make_string_def)

lemma md4_stream:
  "\<exists>c1 c2. feed MD4_Update MD4_Init ps = Some c1 \<and> MD4_Final c1 = Some (rfc1320_md4 (concat ps), c2)"
proof -
  have "\<exists>c1 c2. feed (HASH_UPDATE md4_block_data_order) MD4_Init ps = Some c1 \<and>
      HASH_FINAL DATA_ORDER_IS_LITTLE_ENDIAN md4_block_data_order c1 = Some c2 \<and>
      hc_h c2 = md_hash DATA_ORDER_IS_LITTLE_ENDIAN md4_compress (hc_h MD4_Init) (concat ps) \<and>
      length (hc_h c2) = 4 \<and> hc_md_len c2 = hc_md_len MD4_Init"
    by (rule md4.stream) (simp_all add: MD4_Init_def HASH_CBLOCK_def)
  then show ?thesis
    by (auto simp: MD4_Update_def MD4_Final_def rfc1320_md4_def MD4_Init_registers md4_make_string_list)
qed

text \<open>
  MD4 over any sequence of updates, and in one call, is MD4 of RFC 1320 on the
  concatenated input, whose constants come from the square roots of 2 and 3.
\<close>

theorem MD4_rfc1320:
  "(\<exists>ctx. do { c \<leftarrow> feed MD4_Update MD4_Init ps; MD4_Final c } = Some (rfc1320_md4 (concat ps), ctx)) \<and>
   MD4 data = Some (rfc1320_md4 data)"
  using md4_stream[of ps] md4_stream[of "[data]"] by (auto simp: MD4_def)

end
