(* ===== verification/Digest.thy ===== *)
theory Digest
  imports Mem Md4 Sha1 Sha256 Sha512
begin

text \<open>
  The digest interface, \<^verbatim>\<open>crypto/fipsmodule/digest/digest.c\<close> and \<^verbatim>\<open>digests.c\<close>: the static method
  tables, dispatch through them, and contexts that own the block of memory the method
  works on. The slot for public-key state (\<^verbatim>\<open>pctx\<close>) belongs to another module and is NULL
  throughout. A context implements a message recorder: whatever is fed between an initialisation and a
  final call, directly or before a copy, is hashed.
\<close>

section \<open>Method tables\<close>

text \<open>The addresses of the static tables.\<close>

datatype evp_md = EVP_md4 | EVP_md5 | EVP_sha1 | EVP_sha224 | EVP_sha256 | EVP_sha384 | EVP_sha512 | EVP_md5_sha1

record env_md_st =
  md_type :: int
  md_size :: nat
  md_flags :: u32
  md_block_size :: nat
  md_ctx_size :: nat

definition SHA_DIGEST_LENGTH :: nat where
  "SHA_DIGEST_LENGTH = 20"

definition EVP_MAX_MD_SIZE :: nat where
  "EVP_MAX_MD_SIZE = 64"

definition EVP_MAX_MD_BLOCK_SIZE :: nat where
  "EVP_MAX_MD_BLOCK_SIZE = 128"

text \<open>What the tables hold, with the sizes of the context structs.\<close>

fun md_st :: "evp_md \<Rightarrow> env_md_st" where
  "md_st EVP_md4 = \<lparr>md_type = 257, md_size = MD4_DIGEST_LENGTH, md_flags = 0, md_block_size = 64, md_ctx_size = 92\<rparr>"
| "md_st EVP_md5 = \<lparr>md_type = 4, md_size = MD5_DIGEST_LENGTH, md_flags = 0, md_block_size = 64, md_ctx_size = 92\<rparr>"
| "md_st EVP_sha1 = \<lparr>md_type = 64, md_size = SHA_DIGEST_LENGTH, md_flags = 0, md_block_size = 64, md_ctx_size = 96\<rparr>"
| "md_st EVP_sha224 = \<lparr>md_type = 675, md_size = SHA224_DIGEST_LENGTH, md_flags = 0, md_block_size = 64, md_ctx_size = 112\<rparr>"
| "md_st EVP_sha256 = \<lparr>md_type = 672, md_size = SHA256_DIGEST_LENGTH, md_flags = 0, md_block_size = 64, md_ctx_size = 112\<rparr>"
| "md_st EVP_sha384 = \<lparr>md_type = 673, md_size = SHA384_DIGEST_LENGTH, md_flags = 0, md_block_size = 128, md_ctx_size = 216\<rparr>"
| "md_st EVP_sha512 = \<lparr>md_type = 674, md_size = SHA512_DIGEST_LENGTH, md_flags = 0, md_block_size = 128, md_ctx_size = 216\<rparr>"
| "md_st EVP_md5_sha1 =
     \<lparr>md_type = 114, md_size = MD5_DIGEST_LENGTH + SHA_DIGEST_LENGTH, md_flags = 0, md_block_size = 64, md_ctx_size = 188\<rparr>"

definition EVP_MD_type :: "evp_md \<Rightarrow> int" where "EVP_MD_type md = md_type (md_st md)"
definition EVP_MD_flags :: "evp_md \<Rightarrow> u32" where "EVP_MD_flags md = md_flags (md_st md)"
definition EVP_MD_size :: "evp_md \<Rightarrow> nat" where "EVP_MD_size md = md_size (md_st md)"
definition EVP_MD_block_size :: "evp_md \<Rightarrow> nat" where "EVP_MD_block_size md = md_block_size (md_st md)"

text \<open>
  The block at \<^verbatim>\<open>md_data\<close>: its size when it was never written or is cleansed, or one of the context
  structs, which fills the block. Reading a struct that was never written, or was written as another
  struct, or that is larger or smaller than the block, has no result.
\<close>

datatype md_data =
    MD_raw nat
  | MD_zero nat
  | MD_md4 hash_ctx
  | MD_md5 hash_ctx
  | MD_sha1 hash_ctx
  | MD_sha256 hash_ctx
  | MD_sha512 sha512_ctx
  | MD_md5_sha1 hash_ctx hash_ctx

fun md_data_size :: "md_data \<Rightarrow> nat" where
  "md_data_size (MD_raw n) = n"
| "md_data_size (MD_zero n) = n"
| "md_data_size (MD_md4 c) = 92"
| "md_data_size (MD_md5 c) = 92"
| "md_data_size (MD_sha1 c) = 96"
| "md_data_size (MD_sha256 c) = 112"
| "md_data_size (MD_sha512 c) = 216"
| "md_data_size (MD_md5_sha1 c d) = 188"

definition sha512_zero :: sha512_ctx where
  "sha512_zero = \<lparr>sc_h = replicate 8 0, sc_Nl = 0, sc_Nh = 0, sc_p = replicate 128 (Some 0), sc_num = 0, sc_md_len = 0\<rparr>"

text \<open>The casts of the method functions.\<close>

fun as_md4 :: "md_data \<Rightarrow> hash_ctx option" where
  "as_md4 (MD_md4 c) = Some c"
| "as_md4 (MD_zero n) = (if n = 92 then Some (hash_ctx_zero 4) else None)"
| "as_md4 d = None"

fun as_md5 :: "md_data \<Rightarrow> hash_ctx option" where
  "as_md5 (MD_md5 c) = Some c"
| "as_md5 (MD_zero n) = (if n = 92 then Some (hash_ctx_zero 4) else None)"
| "as_md5 d = None"

fun as_sha1 :: "md_data \<Rightarrow> hash_ctx option" where
  "as_sha1 (MD_sha1 c) = Some c"
| "as_sha1 (MD_zero n) = (if n = 96 then Some (hash_ctx_zero 5) else None)"
| "as_sha1 d = None"

fun as_sha256 :: "md_data \<Rightarrow> hash_ctx option" where
  "as_sha256 (MD_sha256 c) = Some c"
| "as_sha256 (MD_zero n) = (if n = 112 then Some (hash_ctx_zero 8) else None)"
| "as_sha256 d = None"

fun as_sha512 :: "md_data \<Rightarrow> sha512_ctx option" where
  "as_sha512 (MD_sha512 c) = Some c"
| "as_sha512 (MD_zero n) = (if n = 216 then Some sha512_zero else None)"
| "as_sha512 d = None"

fun as_md5_sha1 :: "md_data \<Rightarrow> (hash_ctx \<times> hash_ctx) option" where
  "as_md5_sha1 (MD_md5_sha1 c d) = Some (c, d)"
| "as_md5_sha1 (MD_zero n) = (if n = 188 then Some (hash_ctx_zero 4, hash_ctx_zero 5) else None)"
| "as_md5_sha1 d = None"

text \<open>
  \<^verbatim>\<open>SHA384_Init\<close> and \<^verbatim>\<open>SHA512_Init\<close> leave the buffer of the struct as it is; the other
  initialisations write the struct whole, whatever the block held.
\<close>

definition as_sha512_raw :: "md_data \<Rightarrow> sha512_ctx option" where
  "as_sha512_raw d = (if d = MD_raw 216 then Some sha512_raw else as_sha512 d)"

fun md_init :: "evp_md \<Rightarrow> md_data \<Rightarrow> md_data option" where
  "md_init EVP_md4 d = (if md_data_size d = 92 then Some (MD_md4 MD4_Init) else None)"
| "md_init EVP_md5 d = (if md_data_size d = 92 then Some (MD_md5 MD5_Init) else None)"
| "md_init EVP_sha1 d = (if md_data_size d = 96 then Some (MD_sha1 SHA1_Init) else None)"
| "md_init EVP_sha224 d = (if md_data_size d = 112 then Some (MD_sha256 SHA224_Init) else None)"
| "md_init EVP_sha256 d = (if md_data_size d = 112 then Some (MD_sha256 SHA256_Init) else None)"
| "md_init EVP_sha384 d = map_option (\<lambda>c. MD_sha512 (SHA384_Init c)) (as_sha512_raw d)"
| "md_init EVP_sha512 d = map_option (\<lambda>c. MD_sha512 (SHA512_Init c)) (as_sha512_raw d)"
| "md_init EVP_md5_sha1 d = (if md_data_size d = 188 then Some (MD_md5_sha1 MD5_Init SHA1_Init) else None)"

text \<open>
  \<open>mis data\<close> says whether \<^verbatim>\<open>SHA512_Update\<close> meets misaligned data on a platform that minds.
\<close>

fun md_update :: "evp_md \<Rightarrow> (u8 list \<Rightarrow> bool) \<Rightarrow> md_data \<Rightarrow> u8 list \<Rightarrow> md_data option" where
  "md_update EVP_md4 mis d data = do { c \<leftarrow> as_md4 d; c \<leftarrow> MD4_Update c data; Some (MD_md4 c) }"
| "md_update EVP_md5 mis d data = do { c \<leftarrow> as_md5 d; c \<leftarrow> MD5_Update c data; Some (MD_md5 c) }"
| "md_update EVP_sha1 mis d data = do { c \<leftarrow> as_sha1 d; c \<leftarrow> SHA1_Update c data; Some (MD_sha1 c) }"
| "md_update EVP_sha224 mis d data = do { c \<leftarrow> as_sha256 d; c \<leftarrow> SHA224_Update c data; Some (MD_sha256 c) }"
| "md_update EVP_sha256 mis d data = do { c \<leftarrow> as_sha256 d; c \<leftarrow> SHA256_Update c data; Some (MD_sha256 c) }"
| "md_update EVP_sha384 mis d data = do { c \<leftarrow> as_sha512 d; c \<leftarrow> SHA384_Update (mis data) c data; Some (MD_sha512 c) }"
| "md_update EVP_sha512 mis d data = do { c \<leftarrow> as_sha512 d; c \<leftarrow> SHA512_Update (mis data) c data; Some (MD_sha512 c) }"
| "md_update EVP_md5_sha1 mis d data = do {
     (c5, c1) \<leftarrow> as_md5_sha1 d;
     c5 \<leftarrow> MD5_Update c5 data;
     c1 \<leftarrow> SHA1_Update c1 data;
     Some (MD_md5_sha1 c5 c1) }"

text \<open>\<^verbatim>\<open>CHECK\<close> asserts that the final function does not fail.\<close>

fun md_final :: "evp_md \<Rightarrow> md_data \<Rightarrow> (u8 list \<times> md_data) option" where
  "md_final EVP_md4 d = do { c \<leftarrow> as_md4 d; (out, c) \<leftarrow> MD4_Final c; Some (out, MD_md4 c) }"
| "md_final EVP_md5 d = do { c \<leftarrow> as_md5 d; (out, c) \<leftarrow> MD5_Final c; Some (out, MD_md5 c) }"
| "md_final EVP_sha1 d = do { c \<leftarrow> as_sha1 d; (out, c) \<leftarrow> SHA1_Final c; Some (out, MD_sha1 c) }"
| "md_final EVP_sha224 d = do { c \<leftarrow> as_sha256 d; (r, c) \<leftarrow> SHA224_Final c; out \<leftarrow> r; Some (out, MD_sha256 c) }"
| "md_final EVP_sha256 d = do { c \<leftarrow> as_sha256 d; (r, c) \<leftarrow> SHA256_Final c; out \<leftarrow> r; Some (out, MD_sha256 c) }"
| "md_final EVP_sha384 d = do { c \<leftarrow> as_sha512 d; (r, c) \<leftarrow> SHA384_Final True c; out \<leftarrow> r; Some (out, MD_sha512 c) }"
| "md_final EVP_sha512 d = do { c \<leftarrow> as_sha512 d; (r, c) \<leftarrow> SHA512_Final True c; out \<leftarrow> r; Some (out, MD_sha512 c) }"
| "md_final EVP_md5_sha1 d = do {
     (c5, c1) \<leftarrow> as_md5_sha1 d;
     (out5, c5) \<leftarrow> MD5_Final c5;
     (out1, c1) \<leftarrow> SHA1_Final c1;
     Some (out5 @ out1, MD_md5_sha1 c5 c1) }"

section \<open>Contexts\<close>

record EVP_MD_CTX =
  mc_digest :: "evp_md option"
  mc_md_data :: "md_data option"

definition EVP_MD_CTX_init :: EVP_MD_CTX where
  "EVP_MD_CTX_init = \<lparr>mc_digest = None, mc_md_data = None\<rparr>"

text \<open>\<^verbatim>\<open>sizeof(EVP_MD_CTX)\<close> is four pointers.\<close>

definition EVP_MD_CTX_new :: "sys_malloc \<Rightarrow> EVP_MD_CTX option" where
  "EVP_MD_CTX_new sys = map_option (\<lambda>_. EVP_MD_CTX_init) (OPENSSL_malloc sys 32)"

definition EVP_MD_CTX_create :: "sys_malloc \<Rightarrow> EVP_MD_CTX option" where
  "EVP_MD_CTX_create sys = EVP_MD_CTX_new sys"

definition EVP_MD_CTX_cleanup :: "EVP_MD_CTX \<Rightarrow> EVP_MD_CTX" where
  "EVP_MD_CTX_cleanup ctx = EVP_MD_CTX_init"

definition EVP_MD_CTX_reset :: "EVP_MD_CTX \<Rightarrow> EVP_MD_CTX" where
  "EVP_MD_CTX_reset ctx = (let ctx = EVP_MD_CTX_cleanup ctx in EVP_MD_CTX_init)"

text \<open>The result is the return value and the new \<open>out\<close>, which is another context than \<open>src\<close>.\<close>

definition EVP_MD_CTX_copy_ex :: "sys_malloc \<Rightarrow> EVP_MD_CTX \<Rightarrow> EVP_MD_CTX \<Rightarrow> (bool \<times> EVP_MD_CTX) option" where
  "EVP_MD_CTX_copy_ex sys out src =
     (case mc_digest src of
        None \<Rightarrow> Some (False, out)
      | Some md \<Rightarrow>
          if mc_digest out \<noteq> mc_digest src \<and> OPENSSL_malloc sys (md_ctx_size (md_st md)) = None
          then Some (False, out)
          else do {
            C_assert (md_ctx_size (md_st md) \<noteq> 0);
            tmp_buf \<leftarrow> (if mc_digest out \<noteq> mc_digest src then Some (MD_raw (md_ctx_size (md_st md))) else mc_md_data out);
            C_assert (md_data_size tmp_buf = md_ctx_size (md_st md));
            data \<leftarrow> mc_md_data src;
            C_assert (md_data_size data = md_ctx_size (md_st md));
            Some (True, (EVP_MD_CTX_cleanup out)\<lparr>mc_digest := Some md, mc_md_data := Some data\<rparr>) })"

definition EVP_MD_CTX_copy :: "sys_malloc \<Rightarrow> EVP_MD_CTX \<Rightarrow> (bool \<times> EVP_MD_CTX) option" where
  "EVP_MD_CTX_copy sys src = EVP_MD_CTX_copy_ex sys EVP_MD_CTX_init src"

definition EVP_DigestInit_ex :: "sys_malloc \<Rightarrow> EVP_MD_CTX \<Rightarrow> evp_md \<Rightarrow> (bool \<times> EVP_MD_CTX) option" where
  "EVP_DigestInit_ex sys ctx type =
     (if mc_digest ctx \<noteq> Some type \<and> OPENSSL_malloc sys (md_ctx_size (md_st type)) = None
      then Some (False, ctx)
      else let ctx = (if mc_digest ctx \<noteq> Some type
                      then ctx\<lparr>mc_md_data := Some (MD_raw (md_ctx_size (md_st type))), mc_digest := Some type\<rparr> else ctx)
        in do {
          d \<leftarrow> mc_md_data ctx;
          d \<leftarrow> md_init type d;
          Some (True, ctx\<lparr>mc_md_data := Some d\<rparr>) })"

definition EVP_DigestInit :: "sys_malloc \<Rightarrow> evp_md \<Rightarrow> (bool \<times> EVP_MD_CTX) option" where
  "EVP_DigestInit sys type = EVP_DigestInit_ex sys EVP_MD_CTX_init type"

definition EVP_DigestUpdate :: "(u8 list \<Rightarrow> bool) \<Rightarrow> EVP_MD_CTX \<Rightarrow> u8 list \<Rightarrow> EVP_MD_CTX option" where
  "EVP_DigestUpdate mis ctx data = do {
     md \<leftarrow> mc_digest ctx;
     d \<leftarrow> mc_md_data ctx;
     d \<leftarrow> md_update md mis d data;
     Some (ctx\<lparr>mc_md_data := Some d\<rparr>) }"

text \<open>The bytes written, the size stored, and the context with its block cleansed.\<close>

definition EVP_DigestFinal_ex :: "EVP_MD_CTX \<Rightarrow> (u8 list \<times> nat \<times> EVP_MD_CTX) option" where
  "EVP_DigestFinal_ex ctx = do {
     md \<leftarrow> mc_digest ctx;
     C_assert (md_size (md_st md) \<le> EVP_MAX_MD_SIZE);
     d \<leftarrow> mc_md_data ctx;
     (out, d) \<leftarrow> md_final md d;
     C_assert (md_data_size d = md_ctx_size (md_st md));
     Some (out, md_size (md_st md), ctx\<lparr>mc_md_data := Some (MD_zero (md_ctx_size (md_st md)))\<rparr>) }"

definition EVP_DigestFinal :: "EVP_MD_CTX \<Rightarrow> (u8 list \<times> nat \<times> EVP_MD_CTX) option" where
  "EVP_DigestFinal ctx = do {
     (out, size, ctx) \<leftarrow> EVP_DigestFinal_ex ctx;
     Some (out, size, EVP_MD_CTX_cleanup ctx) }"

text \<open>\<open>Some None\<close> is the return value 0.\<close>

definition EVP_Digest :: "sys_malloc \<Rightarrow> (u8 list \<Rightarrow> bool) \<Rightarrow> u8 list \<Rightarrow> evp_md \<Rightarrow> (u8 list \<times> nat) option option" where
  "EVP_Digest sys mis data type = do {
     (ret, ctx) \<leftarrow> EVP_DigestInit_ex sys EVP_MD_CTX_init type;
     if \<not> ret then Some None
     else do {
       ctx \<leftarrow> EVP_DigestUpdate mis ctx data;
       (out, size, ctx) \<leftarrow> EVP_DigestFinal_ex ctx;
       Some (Some (out, size)) } }"

definition EVP_MD_CTX_md :: "EVP_MD_CTX option \<Rightarrow> evp_md option" where
  "EVP_MD_CTX_md ctx = (case ctx of None \<Rightarrow> None | Some ctx \<Rightarrow> mc_digest ctx)"

text \<open>These read through the pointer: no result for a NULL digest.\<close>

definition EVP_MD_CTX_size :: "EVP_MD_CTX option \<Rightarrow> nat option" where
  "EVP_MD_CTX_size ctx = map_option EVP_MD_size (EVP_MD_CTX_md ctx)"

definition EVP_MD_CTX_block_size :: "EVP_MD_CTX option \<Rightarrow> nat option" where
  "EVP_MD_CTX_block_size ctx = map_option EVP_MD_block_size (EVP_MD_CTX_md ctx)"

definition EVP_MD_CTX_type :: "EVP_MD_CTX option \<Rightarrow> int option" where
  "EVP_MD_CTX_type ctx = map_option EVP_MD_type (EVP_MD_CTX_md ctx)"

section \<open>What a block of memory has absorbed\<close>

text \<open>The digest functions, by their standards.\<close>

fun md_hash_of :: "evp_md \<Rightarrow> u8 list \<Rightarrow> u8 list" where
  "md_hash_of EVP_md4 msg = rfc1320_md4 msg"
| "md_hash_of EVP_md5 msg = rfc1321_md5 msg"
| "md_hash_of EVP_sha1 msg = fips_sha1 msg"
| "md_hash_of EVP_sha224 msg = fips_sha224 msg"
| "md_hash_of EVP_sha256 msg = fips_sha256 msg"
| "md_hash_of EVP_sha384 msg = fips_sha384 msg"
| "md_hash_of EVP_sha512 msg = fips_sha512 msg"
| "md_hash_of EVP_md5_sha1 msg = rfc1321_md5 msg @ fips_sha1 msg"

text \<open>The block of the context, after the message.\<close>

fun md_holds :: "evp_md \<Rightarrow> md_data \<Rightarrow> u8 list \<Rightarrow> bool" where
  "md_holds EVP_md4 d msg \<longleftrightarrow> (\<exists>c. d = MD_md4 c \<and> md4.rep (hc_h MD4_Init) c msg)"
| "md_holds EVP_md5 d msg \<longleftrightarrow> (\<exists>c. d = MD_md5 c \<and> md5.rep (hc_h MD5_Init) c msg)"
| "md_holds EVP_sha1 d msg \<longleftrightarrow> (\<exists>c. d = MD_sha1 c \<and> sha1.rep (hc_h SHA1_Init) c msg)"
| "md_holds EVP_sha224 d msg \<longleftrightarrow> (\<exists>c. d = MD_sha256 c \<and> sha256.rep (hc_h SHA224_Init) c msg \<and> hc_md_len c = 28)"
| "md_holds EVP_sha256 d msg \<longleftrightarrow> (\<exists>c. d = MD_sha256 c \<and> sha256.rep (hc_h SHA256_Init) c msg \<and> hc_md_len c = 32)"
| "md_holds EVP_sha384 d msg \<longleftrightarrow>
     (\<exists>c. d = MD_sha512 c \<and> sha512_rep (sc_h (SHA384_Init sha512_raw)) c msg \<and> sc_md_len c = 48)"
| "md_holds EVP_sha512 d msg \<longleftrightarrow>
     (\<exists>c. d = MD_sha512 c \<and> sha512_rep (sc_h (SHA512_Init sha512_raw)) c msg \<and> sc_md_len c = 64)"
| "md_holds EVP_md5_sha1 d msg \<longleftrightarrow>
     (\<exists>c5 c1. d = MD_md5_sha1 c5 c1 \<and> md5.rep (hc_h MD5_Init) c5 msg \<and> sha1.rep (hc_h SHA1_Init) c1 msg)"

text \<open>The block has the size of the digest's struct, and is of the right shape if it was written.\<close>

fun md_fits :: "evp_md \<Rightarrow> md_data \<Rightarrow> bool" where
  "md_fits md (MD_raw n) \<longleftrightarrow> n = md_ctx_size (md_st md)"
| "md_fits md (MD_zero n) \<longleftrightarrow> n = md_ctx_size (md_st md)"
| "md_fits md (MD_md4 c) \<longleftrightarrow> md = EVP_md4"
| "md_fits md (MD_md5 c) \<longleftrightarrow> md = EVP_md5"
| "md_fits md (MD_sha1 c) \<longleftrightarrow> md = EVP_sha1"
| "md_fits md (MD_sha256 c) \<longleftrightarrow> md \<in> {EVP_sha224, EVP_sha256}"
| "md_fits md (MD_sha512 c) \<longleftrightarrow> md \<in> {EVP_sha384, EVP_sha512} \<and> length (sc_p c) = 128"
| "md_fits md (MD_md5_sha1 c d) \<longleftrightarrow> md = EVP_md5_sha1"

lemma rep_start:
  "md4.rep (hc_h MD4_Init) MD4_Init []" "md5.rep (hc_h MD5_Init) MD5_Init []" "sha1.rep (hc_h SHA1_Init) SHA1_Init []"
  "sha256.rep (hc_h SHA224_Init) SHA224_Init []" "sha256.rep (hc_h SHA256_Init) SHA256_Init []"
  by (simp_all add: md4.rep_def md5.rep_def sha1.rep_def sha256.rep_def MD4_Init_def MD5_Init_def SHA1_Init_def
      SHA224_Init_def SHA256_Init_def hash_ctx_zero_def HASH_CBLOCK_def hash_bits_def rest_def)

lemma md_holds_fits: "md_holds md d msg \<Longrightarrow> md_fits md d"
  by (cases md) (auto simp: sha512_rep_def)

lemma as_sha512_raw_fits: "md_fits md d \<Longrightarrow> md \<in> {EVP_sha384, EVP_sha512} \<Longrightarrow> \<exists>c. as_sha512_raw d = Some c \<and> length (sc_p c) = 128"
  by (cases d) (auto simp: as_sha512_raw_def sha512_raw_def sha512_zero_def)

lemma md_fits_size: "md_fits md d \<Longrightarrow> md_data_size d = md_ctx_size (md_st md)"
  by (cases d) auto

lemma md_final_size: "md_final md d = Some (out, d') \<Longrightarrow> md_data_size d' = md_ctx_size (md_st md)"
  by (cases md) (auto split: Option.bind_splits)

lemma md_init_holds: "md_fits md d \<Longrightarrow> \<exists>d'. md_init md d = Some d' \<and> md_holds md d' []"
proof (cases md)
  case EVP_sha384
  assume "md_fits md d"
  then obtain c where "as_sha512_raw d = Some c" "length (sc_p c) = 128" using as_sha512_raw_fits EVP_sha384 by blast
  then show ?thesis
    using sha512_init_rep(2)[of c] by (simp add: EVP_sha384 SHA384_Init_def SHA384_DIGEST_LENGTH_def)
next
  case EVP_sha512
  assume "md_fits md d"
  then obtain c where "as_sha512_raw d = Some c" "length (sc_p c) = 128" using as_sha512_raw_fits EVP_sha512 by blast
  then show ?thesis
    using sha512_init_rep(1)[of c] by (simp add: EVP_sha512 SHA512_Init_def SHA512_DIGEST_LENGTH_def)
qed (simp_all add: md_fits_size rep_start sha224_init_fields(6) sha256_init_fields(6))

lemma md_update_holds: "md_holds md d msg \<Longrightarrow> \<exists>d'. md_update md mis d data = Some d' \<and> md_holds md d' (msg @ data)"
proof (cases md)
  case EVP_md4
  assume "md_holds md d msg"
  then show ?thesis using md4.update_rep[of _ _ msg data] by (fastforce simp: EVP_md4 MD4_Update_def)
next
  case EVP_md5
  assume "md_holds md d msg"
  then show ?thesis using md5.update_rep[of _ _ msg data] by (fastforce simp: EVP_md5 MD5_Update_def)
next
  case EVP_sha1
  assume "md_holds md d msg"
  then show ?thesis using sha1.update_rep[of _ _ msg data] by (fastforce simp: EVP_sha1 SHA1_Update_def)
next
  case EVP_sha224
  assume "md_holds md d msg"
  then show ?thesis
    using sha256.update_rep[of _ _ msg data] by (fastforce simp: EVP_sha224 SHA224_Update_def SHA256_Update_def)
next
  case EVP_sha256
  assume "md_holds md d msg"
  then show ?thesis using sha256.update_rep[of _ _ msg data] by (fastforce simp: EVP_sha256 SHA256_Update_def)
next
  case EVP_sha384
  assume "md_holds md d msg"
  then show ?thesis
    using sha512_update_rep[of _ _ msg "mis data" data] by (fastforce simp: EVP_sha384 SHA384_Update_def)
next
  case EVP_sha512
  assume "md_holds md d msg"
  then show ?thesis using sha512_update_rep[of _ _ msg "mis data" data] by (fastforce simp: EVP_sha512)
next
  case EVP_md5_sha1
  assume "md_holds md d msg"
  then show ?thesis
    using md5.update_rep[of _ _ msg data] sha1.update_rep[of _ _ msg data]
    by (fastforce simp: EVP_md5_sha1 MD5_Update_def SHA1_Update_def)
qed

lemma MD4_Final_rep: "md4.rep (hc_h MD4_Init) c msg \<Longrightarrow> \<exists>c'. MD4_Final c = Some (rfc1320_md4 msg, c')"
  using md4.final_rep[of "hc_h MD4_Init" c msg]
  by (auto simp: MD4_Final_def rfc1320_md4_def MD4_Init_registers md4_make_string_list)

lemma MD5_Final_rep: "md5.rep (hc_h MD5_Init) c msg \<Longrightarrow> \<exists>c'. MD5_Final c = Some (rfc1321_md5 msg, c')"
  using md5.final_rep[of "hc_h MD5_Init" c msg] by (auto simp: MD5_Final_def rfc1321_md5_def MD5_Init_registers md5_make_string_list)

lemma SHA1_Final_rep: "sha1.rep (hc_h SHA1_Init) c msg \<Longrightarrow> \<exists>c'. SHA1_Final c = Some (fips_sha1 msg, c')"
  using sha1.final_rep[of "hc_h SHA1_Init" c msg] by (auto simp: SHA1_Final_def fips_sha1_def SHA1_Init_H0 sha1_make_string_list)

lemma SHA256_Final_rep:
  assumes "sha256.rep iv c msg" "hc_md_len c = 4 * n" "n = 7 \<or> n = 8"
  shows "\<exists>c'. SHA256_Final c = Some (Some (fips_digest n iv msg), c')"
  using sha256.final_rep[OF assms(1)] assms(2,3)
  by (auto simp: SHA256_Final_def sha256_make_string_def fips_digest_def HOST_l2c_be_fun Let_def
      SHA224_DIGEST_LENGTH_def SHA256_DIGEST_LENGTH_def simp del: HOST_l2c.simps)

lemma md_final_holds: "md_holds md d msg \<Longrightarrow> \<exists>d'. md_final md d = Some (md_hash_of md msg, d')"
proof (cases md)
  case EVP_sha224
  assume "md_holds md d msg"
  then obtain c where c: "d = MD_sha256 c" "sha256.rep (hc_h SHA224_Init) c msg" "hc_md_len c = 4 * 7"
    by (auto simp: EVP_sha224)
  then show ?thesis
    using SHA256_Final_rep[OF c(2,3)] by (auto simp: EVP_sha224 SHA224_Final_def fips_sha224_def)
next
  case EVP_sha256
  assume "md_holds md d msg"
  then obtain c where c: "d = MD_sha256 c" "sha256.rep (hc_h SHA256_Init) c msg" "hc_md_len c = 4 * 8"
    by (auto simp: EVP_sha256)
  then show ?thesis using SHA256_Final_rep[OF c(2,3)] by (auto simp: EVP_sha256 fips_sha256_def)
next
  case EVP_sha384
  assume "md_holds md d msg"
  then show ?thesis
    using sha512_final_rep[of _ _ msg True] by (fastforce simp: EVP_sha384 SHA384_Final_def fips_sha384_def sha512_out_def)
next
  case EVP_sha512
  assume "md_holds md d msg"
  then show ?thesis using sha512_final_rep[of _ _ msg True] by (fastforce simp: EVP_sha512 fips_sha512_def sha512_out_def)
next
  case EVP_md5_sha1
  assume "md_holds md d msg"
  then show ?thesis by (fastforce simp: EVP_md5_sha1 dest: MD5_Final_rep SHA1_Final_rep)
qed (auto dest: MD4_Final_rep MD5_Final_rep SHA1_Final_rep)

section \<open>A context records a message\<close>

text \<open>
  An abstract context is \<open>None\<close> without a digest; otherwise the digest, with the message fed so
  far unless the final call has been made.
\<close>

type_synonym recorder = "(evp_md \<times> u8 list option) option"

definition ctx_rep :: "EVP_MD_CTX \<Rightarrow> recorder \<Rightarrow> bool" where
  "ctx_rep ctx a \<longleftrightarrow> mc_digest ctx = map_option fst a \<and>
     (case a of
        None \<Rightarrow> mc_md_data ctx = None
      | Some (md, None) \<Rightarrow> (\<exists>d. mc_md_data ctx = Some d \<and> md_fits md d)
      | Some (md, Some msg) \<Rightarrow> (\<exists>d. mc_md_data ctx = Some d \<and> md_holds md d msg))"

lemma ctx_rep_init [simp]: "ctx_rep EVP_MD_CTX_init None"
  by (simp add: ctx_rep_def EVP_MD_CTX_init_def)

lemma md_ctx_size_pos [simp]: "md_ctx_size (md_st md) \<noteq> 0"
  by (cases md) simp_all

lemma md_size_max [simp]: "md_size (md_st md) \<le> EVP_MAX_MD_SIZE"
  by (cases md) (simp_all add: EVP_MAX_MD_SIZE_def MD4_DIGEST_LENGTH_def MD5_DIGEST_LENGTH_def SHA_DIGEST_LENGTH_def
      SHA224_DIGEST_LENGTH_def SHA256_DIGEST_LENGTH_def SHA384_DIGEST_LENGTH_def SHA512_DIGEST_LENGTH_def)

text \<open>Whether the block for a digest is there or can be allocated.\<close>

definition md_room :: "sys_malloc \<Rightarrow> recorder \<Rightarrow> evp_md \<Rightarrow> bool" where
  "md_room sys a md \<longleftrightarrow> map_option fst a = Some md \<or> sys (md_ctx_size (md_st md) + 8)"

lemma malloc_ctx: "OPENSSL_malloc sys (md_ctx_size (md_st md)) = None \<longleftrightarrow> \<not> sys (md_ctx_size (md_st md) + 8)"
  by (cases md) (simp_all add: OPENSSL_malloc_def size_add_def OPENSSL_MALLOC_PREFIX_def SIZE_MOD_def)

lemma EVP_DigestInit_ex_rep:
  assumes "ctx_rep ctx a"
  shows "if md_room sys a md
    then \<exists>ctx'. EVP_DigestInit_ex sys ctx md = Some (True, ctx') \<and> ctx_rep ctx' (Some (md, Some []))
    else EVP_DigestInit_ex sys ctx md = Some (False, ctx)"
proof (cases "mc_digest ctx = Some md")
  case True
  then obtain r d where a: "a = Some (md, r)" "mc_md_data ctx = Some d" "md_fits md d"
    using assms md_holds_fits by (auto simp: ctx_rep_def split: option.splits)
  obtain d' where "md_init md d = Some d'" "md_holds md d' []" using md_init_holds[OF a(3)] by blast
  then show ?thesis using True a by (simp add: EVP_DigestInit_ex_def md_room_def ctx_rep_def)
next
  case False
  obtain d' where "md_init md (MD_raw (md_ctx_size (md_st md))) = Some d'" "md_holds md d' []"
    using md_init_holds[of md "MD_raw (md_ctx_size (md_st md))"] by auto
  then show ?thesis
    using False assms by (auto simp: EVP_DigestInit_ex_def md_room_def ctx_rep_def malloc_ctx)
qed

lemma EVP_DigestUpdate_rep:
  assumes "ctx_rep ctx (Some (md, Some msg))"
  shows "\<exists>ctx'. EVP_DigestUpdate mis ctx data = Some ctx' \<and> ctx_rep ctx' (Some (md, Some (msg @ data)))"
proof -
  obtain d where d: "mc_digest ctx = Some md" "mc_md_data ctx = Some d" "md_holds md d msg"
    using assms by (auto simp: ctx_rep_def)
  obtain d' where "md_update md mis d data = Some d'" "md_holds md d' (msg @ data)"
    using md_update_holds[OF d(3)] by blast
  then show ?thesis using d by (simp add: EVP_DigestUpdate_def ctx_rep_def)
qed

lemma EVP_DigestFinal_ex_rep:
  assumes "ctx_rep ctx (Some (md, Some msg))"
  shows "\<exists>ctx'. EVP_DigestFinal_ex ctx = Some (md_hash_of md msg, EVP_MD_size md, ctx') \<and> ctx_rep ctx' (Some (md, None))"
proof -
  obtain d where d: "mc_digest ctx = Some md" "mc_md_data ctx = Some d" "md_holds md d msg"
    using assms by (auto simp: ctx_rep_def)
  obtain d' where "md_final md d = Some (md_hash_of md msg, d')" using md_final_holds[OF d(3)] by blast
  then show ?thesis
    using d md_final_size by (auto simp: EVP_DigestFinal_ex_def ctx_rep_def EVP_MD_size_def C_assert_bind)
qed

lemma EVP_MD_CTX_copy_ex_rep:
  assumes "ctx_rep out a" "ctx_rep src b"
  shows "if b \<noteq> None \<and> md_room sys a (fst (the b))
    then \<exists>out'. EVP_MD_CTX_copy_ex sys out src = Some (True, out') \<and> ctx_rep out' b
    else EVP_MD_CTX_copy_ex sys out src = Some (False, out)"
proof (cases b)
  case None
  then show ?thesis using assms(2) by (simp add: ctx_rep_def EVP_MD_CTX_copy_ex_def)
next
  case (Some p)
  then obtain md r where b: "b = Some (md, r)" by (cases p) auto
  then obtain d where d: "mc_digest src = Some md" "mc_md_data src = Some d"
    using assms(2) by (auto simp: ctx_rep_def split: option.splits)
  have o: "mc_digest out = Some md \<Longrightarrow> \<exists>e. mc_md_data out = Some e \<and> md_data_size e = md_ctx_size (md_st md)"
    "mc_digest out = map_option fst a"
    using assms(1) md_holds_fits by (auto simp: ctx_rep_def md_fits_size split: option.splits)
  have z: "md_data_size d = md_ctx_size (md_st md)"
    using assms(2) d b md_holds_fits by (auto simp: ctx_rep_def md_fits_size split: option.splits)
  have "ctx_rep (EVP_MD_CTX_init\<lparr>mc_digest := Some md, mc_md_data := Some d\<rparr>) b"
    using assms(2) d b by (auto simp: ctx_rep_def)
  then show ?thesis
    using b d o z by (auto simp: EVP_MD_CTX_copy_ex_def EVP_MD_CTX_cleanup_def md_room_def malloc_ctx C_assert_bind)
qed

lemma length_be_words: "length (concat (map (\<lambda>w. be_bytes k (unat w)) h)) = k * length h"
  by (induction h) simp_all

lemma length_le_digest: "length (le_digest h) = 4 * length h"
  by (induction h) (simp_all add: le_digest_def)

lemma length_fips_digest: "length iv = 8 \<Longrightarrow> n \<le> 8 \<Longrightarrow> length (fips_digest n iv msg) = 4 * n"
  using sha256.foldl_length[of iv] by (simp only: fips_digest_def length_be_words md_hash_def) simp

lemma length_fips_digest_512: "length iv = 8 \<Longrightarrow> n \<le> 8 \<Longrightarrow> length (fips_digest_512 n iv msg) = 8 * n"
  using length_foldl_compress[of iv] by (simp only: fips_digest_512_def length_be_words sha512_hash_def) simp

lemma length_md_hash_of: "length (md_hash_of md msg) = EVP_MD_size md"
proof -
  have m: "length (rfc1320_md4 msg) = 16" "length (rfc1321_md5 msg) = 16" "length (fips_sha1 msg) = 20"
    using md4.foldl_length[of "hc_h MD4_Init"] md5.foldl_length[of "hc_h MD5_Init"] sha1.foldl_length[of "hc_h SHA1_Init"]
    by (simp_all add: rfc1320_md4_def rfc1321_md5_def fips_sha1_def MD5_Init_registers SHA1_Init_H0 length_le_digest length_be_words md_hash_def
        MD4_Init_def MD5_Init_def SHA1_Init_def)
  have "length (sc_h (SHA384_Init sha512_raw)) = 8" "length (sc_h (SHA512_Init sha512_raw)) = 8"
    by (simp_all add: SHA384_Init_def SHA512_Init_def)
  then have "length (fips_sha224 msg) = 28" "length (fips_sha256 msg) = 32" "length (fips_sha384 msg) = 48"
    "length (fips_sha512 msg) = 64"
    by (simp_all add: fips_sha224_def fips_sha256_def fips_sha384_def fips_sha512_def length_fips_digest
        length_fips_digest_512 sha224_init_fields sha256_init_fields)
  then show ?thesis
    using m by (cases md) (simp_all add: EVP_MD_size_def MD4_DIGEST_LENGTH_def MD5_DIGEST_LENGTH_def SHA_DIGEST_LENGTH_def
        SHA224_DIGEST_LENGTH_def SHA256_DIGEST_LENGTH_def SHA384_DIGEST_LENGTH_def SHA512_DIGEST_LENGTH_def)
qed

section \<open>Programs over contexts\<close>

text \<open>A program calls the interface on numbered contexts; what each call returns is observed.\<close>

datatype md_op =
    Op_init nat evp_md
  | Op_update nat "u8 list"
  | Op_final nat
  | Op_copy nat nat
  | Op_reset nat

datatype md_out = Ret bool | Dig "u8 list" nat

fun evp_op :: "sys_malloc \<Rightarrow> (u8 list \<Rightarrow> bool) \<Rightarrow> md_op \<Rightarrow> (nat \<Rightarrow> EVP_MD_CTX) \<Rightarrow> ((nat \<Rightarrow> EVP_MD_CTX) \<times> md_out) option" where
  "evp_op sys mis (Op_init i md) M = do {
     (ret, ctx) \<leftarrow> EVP_DigestInit_ex sys (M i) md;
     Some (M(i := ctx), Ret ret) }"
| "evp_op sys mis (Op_update i data) M = do {
     ctx \<leftarrow> EVP_DigestUpdate mis (M i) data;
     Some (M(i := ctx), Ret True) }"
| "evp_op sys mis (Op_final i) M = do {
     (out, size, ctx) \<leftarrow> EVP_DigestFinal_ex (M i);
     Some (M(i := ctx), Dig out size) }"
| "evp_op sys mis (Op_copy i j) M =
     (if i = j then None
      else do {
        (ret, ctx) \<leftarrow> EVP_MD_CTX_copy_ex sys (M i) (M j);
        Some (M(i := ctx), Ret ret) })"
| "evp_op sys mis (Op_reset i) M = Some (M(i := EVP_MD_CTX_reset (M i)), Ret True)"

text \<open>The recorder: updates and final calls need an initialised context.\<close>

fun rec_op :: "sys_malloc \<Rightarrow> md_op \<Rightarrow> (nat \<Rightarrow> recorder) \<Rightarrow> ((nat \<Rightarrow> recorder) \<times> md_out) option" where
  "rec_op sys (Op_init i md) A =
     Some (if md_room sys (A i) md then (A(i := Some (md, Some [])), Ret True) else (A, Ret False))"
| "rec_op sys (Op_update i data) A =
     (case A i of Some (md, Some msg) \<Rightarrow> Some (A(i := Some (md, Some (msg @ data))), Ret True) | _ \<Rightarrow> None)"
| "rec_op sys (Op_final i) A =
     (case A i of Some (md, Some msg) \<Rightarrow> Some (A(i := Some (md, None)), Dig (md_hash_of md msg) (length (md_hash_of md msg)))
      | _ \<Rightarrow> None)"
| "rec_op sys (Op_copy i j) A =
     (if i = j then None
      else Some (if A j \<noteq> None \<and> md_room sys (A i) (fst (the (A j))) then (A(i := A j), Ret True) else (A, Ret False)))"
| "rec_op sys (Op_reset i) A = Some (A(i := None), Ret True)"

fun run_ops :: "('o \<Rightarrow> 's \<Rightarrow> ('s \<times> 'r) option) \<Rightarrow> 'o list \<Rightarrow> 's \<Rightarrow> ('s \<times> 'r list) option" where
  "run_ops step [] s = Some (s, [])"
| "run_ops step (p # ps) s = do { (s, r) \<leftarrow> step p s; (s, rs) \<leftarrow> run_ops step ps s; Some (s, r # rs) }"

lemma evp_op_rep:
  assumes "rec_op sys p A = Some (A', r)" "\<And>i. ctx_rep (M i) (A i)"
  shows "\<exists>M'. evp_op sys mis p M = Some (M', r) \<and> (\<forall>i. ctx_rep (M' i) (A' i))"
proof (cases p)
  case (Op_init i md)
  then show ?thesis using assms(1) EVP_DigestInit_ex_rep[OF assms(2)[of i], of sys md] assms(2) by (auto split: if_splits)
next
  case (Op_update i data)
  then obtain md msg where "A i = Some (md, Some msg)" "A' = A(i := Some (md, Some (msg @ data)))" "r = Ret True"
    using assms(1) by (auto split: option.splits)
  then show ?thesis using EVP_DigestUpdate_rep[of "M i" md msg mis data] assms(2)[of i] assms(2) Op_update by auto
next
  case (Op_final i)
  then obtain md msg where "A i = Some (md, Some msg)" "A' = A(i := Some (md, None))"
    "r = Dig (md_hash_of md msg) (EVP_MD_size md)"
    using assms(1) by (auto simp: length_md_hash_of split: option.splits)
  then show ?thesis using EVP_DigestFinal_ex_rep[of "M i" md msg] assms(2)[of i] assms(2) Op_final by auto
next
  case (Op_copy i j)
  then show ?thesis
    using assms(1) EVP_MD_CTX_copy_ex_rep[OF assms(2)[of i] assms(2)[of j], of sys] assms(2)
    by (auto split: if_splits)
next
  case (Op_reset i)
  then show ?thesis using assms by (auto simp: EVP_MD_CTX_reset_def)
qed

lemma evp_run_rep:
  "run_ops (rec_op sys) ps A = Some (A', rs) \<Longrightarrow> (\<And>i. ctx_rep (M i) (A i)) \<Longrightarrow>
    \<exists>M'. run_ops (evp_op sys mis) ps M = Some (M', rs) \<and> (\<forall>i. ctx_rep (M' i) (A' i))"
proof (induction ps arbitrary: A M rs)
  case (Cons p ps)
  obtain A1 r rs' where s: "rec_op sys p A = Some (A1, r)" "run_ops (rec_op sys) ps A1 = Some (A', rs')" "rs = r # rs'"
    using Cons.prems(1) by (auto split: Option.bind_splits)
  obtain M1 where M1: "evp_op sys mis p M = Some (M1, r)" "\<And>i. ctx_rep (M1 i) (A1 i)"
    using evp_op_rep[OF s(1) Cons.prems(2)] by auto
  obtain M' where "run_ops (evp_op sys mis) ps M1 = Some (M', rs')" "\<forall>i. ctx_rep (M' i) (A' i)"
    using Cons.IH[OF s(2) M1(2)] by auto
  then show ?case using M1(1) s(3) by auto
qed auto

lemma EVP_Digest_hash:
  "EVP_Digest sys mis data md =
    Some (if sys (md_ctx_size (md_st md) + 8) then Some (md_hash_of md data, EVP_MD_size md) else None)"
proof -
  note i = EVP_DigestInit_ex_rep[OF ctx_rep_init, of sys md]
  show ?thesis
  proof (cases "sys (md_ctx_size (md_st md) + 8)")
    case True
    then obtain c where c: "EVP_DigestInit_ex sys EVP_MD_CTX_init md = Some (True, c)" "ctx_rep c (Some (md, Some []))"
      using i by (auto simp: md_room_def)
    obtain c' where c': "EVP_DigestUpdate mis c data = Some c'" "ctx_rep c' (Some (md, Some data))"
      using EVP_DigestUpdate_rep[OF c(2), of mis data] by auto
    show ?thesis using EVP_DigestFinal_ex_rep[OF c'(2)] c(1) c'(1) True by (auto simp: EVP_Digest_def)
  qed (use i in \<open>simp add: EVP_Digest_def md_room_def\<close>)
qed

text \<open>
  Property C7: the digest interface implements a recorder of messages. For any program of
  initialisations, updates, copies, final calls and resets on any number of fresh contexts, with any
  allocations failing, every call returns what the recorder says: a digest is the standard's
  hash of what went into that context since its initialisation, through copies included, and
  \<open>EVP_Digest\<close> does all at once.
\<close>

theorem EVP_digest_refines:
  assumes "run_ops (rec_op sys) ps (\<lambda>_. None) = Some (A, outs)"
  shows "(\<exists>M. run_ops (evp_op sys mis) ps (\<lambda>_. EVP_MD_CTX_init) = Some (M, outs)) \<and>
    EVP_Digest sys mis data md =
      Some (if sys (md_ctx_size (md_st md) + 8) then Some (md_hash_of md data, EVP_MD_size md) else None)"
  using evp_run_rep[OF assms, of "\<lambda>_. EVP_MD_CTX_init" mis] EVP_Digest_hash by auto

theorem EVP_digest_refines_witness:
  "\<exists>M. run_ops (evp_op (\<lambda>_. True) (\<lambda>_. False))
     [Op_init 0 EVP_sha256, Op_update 0 [97], Op_copy 1 0, Op_update 0 [98], Op_update 1 [99], Op_final 0, Op_final 1]
     (\<lambda>_. EVP_MD_CTX_init) =
   Some (M, [Ret True, Ret True, Ret True, Ret True, Ret True,
     Dig (fips_sha256 [97, 98]) (length (fips_sha256 [97, 98])), Dig (fips_sha256 [97, 99]) (length (fips_sha256 [97, 99]))])"
  by (rule conjunct1[OF EVP_digest_refines]) (simp add: md_room_def)

section \<open>Misuse\<close>

text \<open>
  Programs the recorder has no answer for: an update or a final call after the final call works on
  the cleansed struct. Here a context is abstracted to its digest and whether it was initialised
  since its last final call. An update or a final call without a digest reads through NULL; the
  final functions of SHA-384 and SHA-512 refuse a struct whose \<^verbatim>\<open>md_len\<close> was cleansed, which their
  wrapper asserts does not happen.
\<close>

type_synonym usage = "(evp_md \<times> bool) option"

definition use_room :: "sys_malloc \<Rightarrow> usage \<Rightarrow> evp_md \<Rightarrow> bool" where
  "use_room sys a md \<longleftrightarrow> map_option fst a = Some md \<or> sys (md_ctx_size (md_st md) + 8)"









lemma zero_md_len [simp]: "hc_md_len (hash_ctx_zero n) = 0" "sc_md_len sha512_zero = 0"
  by (simp_all add: hash_ctx_zero_def sha512_zero_def)






lemma use_room_simps [simp]: "use_room sys None md \<longleftrightarrow> sys (md_ctx_size (md_st md) + 8)"
  "use_room sys (Some (m, live)) md \<longleftrightarrow> m = md \<or> sys (md_ctx_size (md_st md) + 8)"
  by (auto simp: use_room_def)






end
