(* ===== verification/Hmac.thy ===== *)
theory Hmac
  imports Digest
begin

text \<open>
  HMAC, \<^verbatim>\<open>crypto/fipsmodule/hmac/hmac.c\<close>, on the digest interface: three digest contexts, of which two
  hold the keyed inner and outer states so that a context can be rewound. It computes
  RFC 2104 for every digest, every key length and any cutting of the message.
\<close>

section \<open>The functions\<close>

record HMAC_CTX =
  hm_md :: "evp_md option"
  hm_md_ctx :: EVP_MD_CTX
  hm_i_ctx :: EVP_MD_CTX
  hm_o_ctx :: EVP_MD_CTX

definition HMAC_CTX_init :: HMAC_CTX where
  "HMAC_CTX_init = \<lparr>hm_md = None, hm_md_ctx = EVP_MD_CTX_init, hm_i_ctx = EVP_MD_CTX_init, hm_o_ctx = EVP_MD_CTX_init\<rparr>"

text \<open>\<^verbatim>\<open>sizeof(HMAC_CTX)\<close> is a pointer and three contexts of four pointers.\<close>

definition HMAC_CTX_new :: "sys_malloc \<Rightarrow> HMAC_CTX option" where
  "HMAC_CTX_new sys = map_option (\<lambda>_. HMAC_CTX_init) (OPENSSL_malloc sys 104)"

text \<open>Cleansing leaves a context of zeros, which is a fresh one.\<close>

definition HMAC_CTX_cleanup :: "HMAC_CTX \<Rightarrow> HMAC_CTX" where
  "HMAC_CTX_cleanup ctx =
     (let ctx = ctx\<lparr>hm_i_ctx := EVP_MD_CTX_cleanup (hm_i_ctx ctx), hm_o_ctx := EVP_MD_CTX_cleanup (hm_o_ctx ctx),
                    hm_md_ctx := EVP_MD_CTX_cleanup (hm_md_ctx ctx)\<rparr>
      in \<lparr>hm_md = None, hm_md_ctx = EVP_MD_CTX_init, hm_i_ctx = EVP_MD_CTX_init, hm_o_ctx = EVP_MD_CTX_init\<rparr>)"

definition HMAC_CTX_reset :: "HMAC_CTX \<Rightarrow> HMAC_CTX" where
  "HMAC_CTX_reset ctx = (let ctx = HMAC_CTX_cleanup ctx in HMAC_CTX_init)"

text \<open>The bytes at the start of \<^verbatim>\<open>key_block\<close>: long keys are hashed, in the context \<^verbatim>\<open>md_ctx\<close>.\<close>

definition hmac_key_bytes ::
  "sys_malloc \<Rightarrow> (u8 list \<Rightarrow> bool) \<Rightarrow> HMAC_CTX \<Rightarrow> u8 list \<Rightarrow> evp_md \<Rightarrow> (u8 list option \<times> HMAC_CTX) option" where
  "hmac_key_bytes sys mis ctx key md =
     (let block_size = EVP_MD_block_size md
      in if block_size < length key
         then do {
           (ret, c) \<leftarrow> EVP_DigestInit_ex sys (hm_md_ctx ctx) md;
           if \<not> ret then Some (None, ctx\<lparr>hm_md_ctx := c\<rparr>)
           else do {
             c \<leftarrow> EVP_DigestUpdate mis c key;
             (out, size, c) \<leftarrow> EVP_DigestFinal_ex c;
             Some (Some (take size out), ctx\<lparr>hm_md_ctx := c\<rparr>) } }
         else do {
           C_assert (length key \<le> EVP_MAX_MD_BLOCK_SIZE);
           Some (Some key, ctx) })"

text \<open>One of the two keyed states: the pad byte, and the context it goes to.\<close>

definition hmac_pad_ctx ::
  "sys_malloc \<Rightarrow> (u8 list \<Rightarrow> bool) \<Rightarrow> EVP_MD_CTX \<Rightarrow> u8 \<Rightarrow> u8 list \<Rightarrow> evp_md \<Rightarrow> (bool \<times> EVP_MD_CTX) option" where
  "hmac_pad_ctx sys mis c b key_block md = do {
     let pad = map (\<lambda>k. b XOR k) key_block;
     (ret, c) \<leftarrow> EVP_DigestInit_ex sys c md;
     if \<not> ret then Some (False, c)
     else do {
       c \<leftarrow> EVP_DigestUpdate mis c (take (EVP_MD_block_size md) pad);
       Some (True, c) } }"

definition hmac_set_key ::
  "sys_malloc \<Rightarrow> (u8 list \<Rightarrow> bool) \<Rightarrow> HMAC_CTX \<Rightarrow> u8 list \<Rightarrow> evp_md \<Rightarrow> (bool \<times> HMAC_CTX) option" where
  "hmac_set_key sys mis ctx key md = do {
     C_assert (EVP_MD_block_size md \<le> EVP_MAX_MD_BLOCK_SIZE);
     (kb, ctx) \<leftarrow> hmac_key_bytes sys mis ctx key md;
     case kb of
       None \<Rightarrow> Some (False, ctx)
     | Some k \<Rightarrow> do {
         let key_block = k @ replicate (EVP_MAX_MD_BLOCK_SIZE - length k) 0;
         (ret, c) \<leftarrow> hmac_pad_ctx sys mis (hm_i_ctx ctx) 0x36 key_block md;
         let ctx = ctx\<lparr>hm_i_ctx := c\<rparr>;
         if \<not> ret then Some (False, ctx)
         else do {
           (ret, c) \<leftarrow> hmac_pad_ctx sys mis (hm_o_ctx ctx) 0x5c key_block md;
           let ctx = ctx\<lparr>hm_o_ctx := c\<rparr>;
           if \<not> ret then Some (False, ctx)
           else Some (True, ctx\<lparr>hm_md := Some md\<rparr>) } } }"

text \<open>\<open>None\<close> stands for NULL, as a key and as a digest.\<close>

definition HMAC_Init_ex ::
  "sys_malloc \<Rightarrow> (u8 list \<Rightarrow> bool) \<Rightarrow> HMAC_CTX \<Rightarrow> u8 list option \<Rightarrow> evp_md option \<Rightarrow> (bool \<times> HMAC_CTX) option" where
  "HMAC_Init_ex sys mis ctx key md = do {
     let md = (if md = None then hm_md ctx else md);
     (ret, ctx) \<leftarrow> (if md \<noteq> hm_md ctx \<or> key \<noteq> None
       then do { m \<leftarrow> md; hmac_set_key sys mis ctx (case key of None \<Rightarrow> [] | Some k \<Rightarrow> k) m }
       else Some (True, ctx));
     if \<not> ret then Some (False, ctx)
     else do {
       (ret, c) \<leftarrow> EVP_MD_CTX_copy_ex sys (hm_md_ctx ctx) (hm_i_ctx ctx);
       Some (ret, ctx\<lparr>hm_md_ctx := c\<rparr>) } }"

definition HMAC_Update :: "(u8 list \<Rightarrow> bool) \<Rightarrow> HMAC_CTX \<Rightarrow> u8 list \<Rightarrow> HMAC_CTX option" where
  "HMAC_Update mis ctx data = do {
     c \<leftarrow> EVP_DigestUpdate mis (hm_md_ctx ctx) data;
     Some (ctx\<lparr>hm_md_ctx := c\<rparr>) }"

text \<open>
  The bytes written and the size, or \<open>None\<close> for the return value 0. \<open>has_len\<close> says that
  \<^verbatim>\<open>out_len\<close> is not NULL; on failure the code writes through it.
\<close>

definition HMAC_Final ::
  "sys_malloc \<Rightarrow> (u8 list \<Rightarrow> bool) \<Rightarrow> bool \<Rightarrow> HMAC_CTX \<Rightarrow> ((u8 list \<times> nat) option \<times> HMAC_CTX) option" where
  "HMAC_Final sys mis has_len ctx = do {
     (buf, i, c) \<leftarrow> EVP_DigestFinal_ex (hm_md_ctx ctx);
     (ret, c) \<leftarrow> EVP_MD_CTX_copy_ex sys c (hm_o_ctx ctx);
     if \<not> ret
     then do {
       C_assert has_len;
       Some (None, ctx\<lparr>hm_md_ctx := c\<rparr>) }
     else do {
       c \<leftarrow> EVP_DigestUpdate mis c (take i buf);
       (out, size, c) \<leftarrow> EVP_DigestFinal_ex c;
       Some (Some (out, size), ctx\<lparr>hm_md_ctx := c\<rparr>) } }"

definition HMAC_size :: "HMAC_CTX \<Rightarrow> nat option" where
  "HMAC_size ctx = map_option EVP_MD_size (hm_md ctx)"

definition HMAC_CTX_copy_ex :: "sys_malloc \<Rightarrow> HMAC_CTX \<Rightarrow> HMAC_CTX \<Rightarrow> (bool \<times> HMAC_CTX) option" where
  "HMAC_CTX_copy_ex sys dest src = do {
     (ret, c) \<leftarrow> EVP_MD_CTX_copy_ex sys (hm_i_ctx dest) (hm_i_ctx src);
     let dest = dest\<lparr>hm_i_ctx := c\<rparr>;
     if \<not> ret then Some (False, dest)
     else do {
       (ret, c) \<leftarrow> EVP_MD_CTX_copy_ex sys (hm_o_ctx dest) (hm_o_ctx src);
       let dest = dest\<lparr>hm_o_ctx := c\<rparr>;
       if \<not> ret then Some (False, dest)
       else do {
         (ret, c) \<leftarrow> EVP_MD_CTX_copy_ex sys (hm_md_ctx dest) (hm_md_ctx src);
         let dest = dest\<lparr>hm_md_ctx := c\<rparr>;
         if \<not> ret then Some (False, dest)
         else Some (True, dest\<lparr>hm_md := hm_md src\<rparr>) } } }"

definition HMAC_CTX_copy :: "sys_malloc \<Rightarrow> HMAC_CTX \<Rightarrow> (bool \<times> HMAC_CTX) option" where
  "HMAC_CTX_copy sys src = HMAC_CTX_copy_ex sys HMAC_CTX_init src"

definition HMAC_Init ::
  "sys_malloc \<Rightarrow> (u8 list \<Rightarrow> bool) \<Rightarrow> HMAC_CTX \<Rightarrow> u8 list option \<Rightarrow> evp_md option \<Rightarrow> (bool \<times> HMAC_CTX) option" where
  "HMAC_Init sys mis ctx key md =
     (let ctx = (if key \<noteq> None \<and> md \<noteq> None then HMAC_CTX_init else ctx)
      in HMAC_Init_ex sys mis ctx key md)"

text \<open>\<open>Some None\<close> is the NULL result.\<close>

definition HMAC ::
  "sys_malloc \<Rightarrow> (u8 list \<Rightarrow> bool) \<Rightarrow> evp_md \<Rightarrow> u8 list option \<Rightarrow> u8 list \<Rightarrow> (u8 list \<times> nat) option option" where
  "HMAC sys mis md key data = do {
     (ret, ctx) \<leftarrow> HMAC_Init_ex sys mis HMAC_CTX_init key (Some md);
     if \<not> ret then Some None
     else do {
       ctx \<leftarrow> HMAC_Update mis ctx data;
       (r, ctx) \<leftarrow> HMAC_Final sys mis True ctx;
       Some r } }"

section \<open>RFC 2104\<close>

definition rfc2104_key :: "evp_md \<Rightarrow> u8 list \<Rightarrow> u8 list" where
  "rfc2104_key md key =
     (let k = (if EVP_MD_block_size md < length key then md_hash_of md key else key)
      in k @ replicate (EVP_MD_block_size md - length k) 0)"

definition rfc2104_pad :: "evp_md \<Rightarrow> u8 \<Rightarrow> u8 list \<Rightarrow> u8 list" where
  "rfc2104_pad md b key = map (\<lambda>k. k XOR b) (rfc2104_key md key)"

definition rfc2104_hmac :: "evp_md \<Rightarrow> u8 list \<Rightarrow> u8 list \<Rightarrow> u8 list" where
  "rfc2104_hmac md key msg =
     md_hash_of md (rfc2104_pad md 0x5c key @ md_hash_of md (rfc2104_pad md 0x36 key @ msg))"

section \<open>What a context holds\<close>

text \<open>The key is set; the working context is anything of the same digest.\<close>

definition hmac_keyed :: "HMAC_CTX \<Rightarrow> evp_md \<Rightarrow> u8 list \<Rightarrow> bool" where
  "hmac_keyed ctx md key \<longleftrightarrow> hm_md ctx = Some md \<and>
     ctx_rep (hm_i_ctx ctx) (Some (md, Some (rfc2104_pad md 0x36 key))) \<and>
     ctx_rep (hm_o_ctx ctx) (Some (md, Some (rfc2104_pad md 0x5c key))) \<and>
     (ctx_rep (hm_md_ctx ctx) (Some (md, None)) \<or> (\<exists>m. ctx_rep (hm_md_ctx ctx) (Some (md, Some m))))"

definition hmac_rep :: "HMAC_CTX \<Rightarrow> evp_md \<Rightarrow> u8 list \<Rightarrow> u8 list \<Rightarrow> bool" where
  "hmac_rep ctx md key msg \<longleftrightarrow> hmac_keyed ctx md key \<and>
     ctx_rep (hm_md_ctx ctx) (Some (md, Some (rfc2104_pad md 0x36 key @ msg)))"

definition hmac_wf :: "HMAC_CTX \<Rightarrow> bool" where
  "hmac_wf ctx \<longleftrightarrow> (\<exists>a b c. ctx_rep (hm_md_ctx ctx) a \<and> ctx_rep (hm_i_ctx ctx) b \<and> ctx_rep (hm_o_ctx ctx) c)"

lemma hmac_wf_init: "hmac_wf HMAC_CTX_init"
  unfolding hmac_wf_def by (intro exI[of _ None]) (simp add: HMAC_CTX_init_def)

lemma block_size_bounds: "EVP_MD_block_size md \<le> 128" "EVP_MD_size md \<le> EVP_MD_block_size md"
  by (cases md; simp add: EVP_MD_block_size_def EVP_MD_size_def MD4_DIGEST_LENGTH_def MD5_DIGEST_LENGTH_def
      SHA_DIGEST_LENGTH_def SHA224_DIGEST_LENGTH_def SHA256_DIGEST_LENGTH_def SHA384_DIGEST_LENGTH_def
      SHA512_DIGEST_LENGTH_def)+

lemma md_room_sys: "sys (md_ctx_size (md_st md) + 8) \<Longrightarrow> md_room sys a md"
  by (simp add: md_room_def)

definition key_bytes :: "evp_md \<Rightarrow> u8 list \<Rightarrow> u8 list" where
  "key_bytes md key = (if EVP_MD_block_size md < length key then md_hash_of md key else key)"

lemma length_key_bytes: "length (key_bytes md key) \<le> EVP_MD_block_size md"
  using block_size_bounds(2)[of md] by (simp add: key_bytes_def length_md_hash_of)

text \<open>The pad of the code is that of the RFC, although it is computed for the largest block.\<close>

lemma pad_bytes:
  "take (EVP_MD_block_size md) (map (\<lambda>k. b XOR k) (key_bytes md key @ replicate (EVP_MAX_MD_BLOCK_SIZE - length (key_bytes md key)) 0))
   = rfc2104_pad md b key"
proof -
  have "EVP_MD_block_size md - length (key_bytes md key) \<le> EVP_MAX_MD_BLOCK_SIZE - length (key_bytes md key)"
    using block_size_bounds(1)[of md] by (simp add: EVP_MAX_MD_BLOCK_SIZE_def)
  then show ?thesis
    using length_key_bytes[of md key]
    by (simp add: rfc2104_pad_def rfc2104_key_def key_bytes_def[symmetric] Let_def take_map xor.commute min_absorb1)
qed

lemma hmac_key_bytes_rep:
  assumes "ctx_rep (hm_md_ctx ctx) a"
  shows "if EVP_MD_block_size md < length key \<and> \<not> md_room sys a md
    then hmac_key_bytes sys mis ctx key md = Some (None, ctx)
    else \<exists>c a'. hmac_key_bytes sys mis ctx key md = Some (Some (key_bytes md key), ctx\<lparr>hm_md_ctx := c\<rparr>) \<and> ctx_rep c a'"
proof (cases "EVP_MD_block_size md < length key")
  case True
  note i = EVP_DigestInit_ex_rep[OF assms, of sys md]
  show ?thesis
  proof (cases "md_room sys a md")
    case room: True
    then obtain c1 where c1: "EVP_DigestInit_ex sys (hm_md_ctx ctx) md = Some (True, c1)" "ctx_rep c1 (Some (md, Some []))"
      using i by auto
    obtain c2 where c2: "EVP_DigestUpdate mis c1 key = Some c2" "ctx_rep c2 (Some (md, Some key))"
      using EVP_DigestUpdate_rep[OF c1(2), of mis key] by auto
    show ?thesis
      using EVP_DigestFinal_ex_rep[OF c2(2)] c1(1) c2(1) True room
      by (auto simp: hmac_key_bytes_def key_bytes_def length_md_hash_of)
  qed (use i True in \<open>simp add: hmac_key_bytes_def\<close>)
next
  case False
  then have "hmac_key_bytes sys mis ctx key md = Some (Some (key_bytes md key), ctx\<lparr>hm_md_ctx := hm_md_ctx ctx\<rparr>)"
    using block_size_bounds(1)[of md] by (simp add: hmac_key_bytes_def key_bytes_def EVP_MAX_MD_BLOCK_SIZE_def)
  then show ?thesis using False assms by (auto intro!: exI[of _ "hm_md_ctx ctx"] simp del: HMAC_CTX.update_convs)
qed

lemma hmac_pad_ctx_rep:
  assumes "ctx_rep c a"
  shows "if md_room sys a md
    then \<exists>c'. hmac_pad_ctx sys mis c b kb md = Some (True, c') \<and>
      ctx_rep c' (Some (md, Some (take (EVP_MD_block_size md) (map (\<lambda>k. b XOR k) kb))))
    else hmac_pad_ctx sys mis c b kb md = Some (False, c)"
proof (cases "md_room sys a md")
  case True
  then obtain c1 where c1: "EVP_DigestInit_ex sys c md = Some (True, c1)" "ctx_rep c1 (Some (md, Some []))"
    using EVP_DigestInit_ex_rep[OF assms, of sys md] by auto
  show ?thesis
    using EVP_DigestUpdate_rep[OF c1(2), of mis "take (EVP_MD_block_size md) (map (\<lambda>k. b XOR k) kb)"] c1(1) True
    by (auto simp: hmac_pad_ctx_def Let_def)
qed (use EVP_DigestInit_ex_rep[OF assms, of sys md] in \<open>simp add: hmac_pad_ctx_def Let_def\<close>)

lemma hmac_set_key_rep:
  assumes "hmac_wf ctx" "sys (md_ctx_size (md_st md) + 8)"
  shows "\<exists>ctx'. hmac_set_key sys mis ctx key md = Some (True, ctx') \<and> hm_md ctx' = Some md \<and>
    ctx_rep (hm_i_ctx ctx') (Some (md, Some (rfc2104_pad md 0x36 key))) \<and>
    ctx_rep (hm_o_ctx ctx') (Some (md, Some (rfc2104_pad md 0x5c key))) \<and> (\<exists>a. ctx_rep (hm_md_ctx ctx') a)"
proof -
  obtain a b c where r: "ctx_rep (hm_md_ctx ctx) a" "ctx_rep (hm_i_ctx ctx) b" "ctx_rep (hm_o_ctx ctx) c"
    using assms(1) by (auto simp: hmac_wf_def)
  let ?kb = "key_bytes md key @ replicate (EVP_MAX_MD_BLOCK_SIZE - length (key_bytes md key)) 0"
  obtain w a' where w: "hmac_key_bytes sys mis ctx key md = Some (Some (key_bytes md key), ctx\<lparr>hm_md_ctx := w\<rparr>)" "ctx_rep w a'"
    using hmac_key_bytes_rep[OF r(1), of md key sys mis] md_room_sys[of sys md a] assms(2) by auto
  obtain i' where i': "hmac_pad_ctx sys mis (hm_i_ctx ctx) 0x36 ?kb md = Some (True, i')"
    "ctx_rep i' (Some (md, Some (rfc2104_pad md 0x36 key)))"
    using hmac_pad_ctx_rep[OF r(2), where sys = sys and md = md and mis = mis and b = "0x36" and kb = ?kb] md_room_sys[of sys md b] assms(2) unfolding pad_bytes by auto
  obtain o' where o': "hmac_pad_ctx sys mis (hm_o_ctx ctx) 0x5c ?kb md = Some (True, o')"
    "ctx_rep o' (Some (md, Some (rfc2104_pad md 0x5c key)))"
    using hmac_pad_ctx_rep[OF r(3), where sys = sys and md = md and mis = mis and b = "0x5c" and kb = ?kb] md_room_sys[of sys md c] assms(2) unfolding pad_bytes by auto
  show ?thesis
    using w i' o' block_size_bounds(1)[of md] by (auto simp: hmac_set_key_def Let_def EVP_MAX_MD_BLOCK_SIZE_def)
qed

lemma HMAC_Init_ex_key:
  assumes "hmac_wf ctx" "sys (md_ctx_size (md_st md) + 8)" "hm_md ctx \<noteq> Some md \<or> key \<noteq> None"
  shows "\<exists>ctx'. HMAC_Init_ex sys mis ctx key (Some md) = Some (True, ctx') \<and>
    hmac_rep ctx' md (case key of None \<Rightarrow> [] | Some k \<Rightarrow> k) []"
proof -
  let ?key = "case key of None \<Rightarrow> [] | Some k \<Rightarrow> k"
  obtain ctx1 a where 1: "hmac_set_key sys mis ctx ?key md = Some (True, ctx1)" "hm_md ctx1 = Some md"
    "ctx_rep (hm_i_ctx ctx1) (Some (md, Some (rfc2104_pad md 0x36 ?key)))"
    "ctx_rep (hm_o_ctx ctx1) (Some (md, Some (rfc2104_pad md 0x5c ?key)))" "ctx_rep (hm_md_ctx ctx1) a"
    using hmac_set_key_rep[of ctx sys md mis ?key] assms(1,2) by auto
  obtain c where "EVP_MD_CTX_copy_ex sys (hm_md_ctx ctx1) (hm_i_ctx ctx1) = Some (True, c)"
    "ctx_rep c (Some (md, Some (rfc2104_pad md 0x36 ?key)))"
    using EVP_MD_CTX_copy_ex_rep[OF 1(5,3), of sys] md_room_sys[of sys md a] assms(2) by auto
  then show ?thesis
    using 1 assms(3) by (auto simp: HMAC_Init_ex_def Let_def hmac_rep_def hmac_keyed_def)
qed

text \<open>Without a key and a digest the context is rewound, and nothing is allocated.\<close>

lemma keyed_room:
  assumes "hmac_keyed ctx md key"
  obtains a where "ctx_rep (hm_md_ctx ctx) a" "md_room sys a md"
  using assms by (auto simp: hmac_keyed_def md_room_def)

lemma HMAC_Init_ex_rewind:
  assumes "hmac_keyed ctx md key"
  shows "\<exists>ctx'. HMAC_Init_ex sys mis ctx None None = Some (True, ctx') \<and> hmac_rep ctx' md key []"
proof -
  obtain a where a: "ctx_rep (hm_md_ctx ctx) a" "md_room sys a md" using keyed_room[OF assms] .
  have i: "ctx_rep (hm_i_ctx ctx) (Some (md, Some (rfc2104_pad md 0x36 key)))"
    using assms by (simp add: hmac_keyed_def)
  show ?thesis
    using EVP_MD_CTX_copy_ex_rep[OF a(1) i, of sys] a(2) assms
    by (auto simp: HMAC_Init_ex_def hmac_rep_def hmac_keyed_def)
qed

lemma HMAC_Update_rep:
  assumes "hmac_rep ctx md key msg"
  shows "\<exists>ctx'. HMAC_Update mis ctx data = Some ctx' \<and> hmac_rep ctx' md key (msg @ data)"
  using assms EVP_DigestUpdate_rep[of "hm_md_ctx ctx" md "rfc2104_pad md 0x36 key @ msg" mis data]
  by (auto simp: HMAC_Update_def hmac_rep_def hmac_keyed_def)

lemma HMAC_feed_rep:
  "hmac_rep ctx md key msg \<Longrightarrow> \<exists>ctx'. feed (HMAC_Update mis) ctx ps = Some ctx' \<and> hmac_rep ctx' md key (msg @ concat ps)"
proof (induction ps arbitrary: ctx msg)
  case (Cons p ps)
  obtain c where "HMAC_Update mis ctx p = Some c" "hmac_rep c md key (msg @ p)" using HMAC_Update_rep[OF Cons.prems] by blast
  then show ?case using Cons.IH[of c "msg @ p"] by auto
qed simp

lemma HMAC_Final_rep:
  assumes "hmac_rep ctx md key msg"
  shows "\<exists>ctx'. HMAC_Final sys mis has_len ctx = Some (Some (rfc2104_hmac md key msg, EVP_MD_size md), ctx') \<and>
    hmac_keyed ctx' md key"
proof -
  let ?inner = "md_hash_of md (rfc2104_pad md 0x36 key @ msg)"
  obtain c1 where c1: "EVP_DigestFinal_ex (hm_md_ctx ctx) = Some (?inner, EVP_MD_size md, c1)" "ctx_rep c1 (Some (md, None))"
    using EVP_DigestFinal_ex_rep[of "hm_md_ctx ctx" md "rfc2104_pad md 0x36 key @ msg"] assms by (auto simp: hmac_rep_def)
  have o: "ctx_rep (hm_o_ctx ctx) (Some (md, Some (rfc2104_pad md 0x5c key)))"
    using assms by (simp add: hmac_rep_def hmac_keyed_def)
  obtain c2 where c2: "EVP_MD_CTX_copy_ex sys c1 (hm_o_ctx ctx) = Some (True, c2)"
    "ctx_rep c2 (Some (md, Some (rfc2104_pad md 0x5c key)))"
    using EVP_MD_CTX_copy_ex_rep[OF c1(2) o, of sys] by (auto simp: md_room_def)
  obtain c3 where c3: "EVP_DigestUpdate mis c2 ?inner = Some c3" "ctx_rep c3 (Some (md, Some (rfc2104_pad md 0x5c key @ ?inner)))"
    using EVP_DigestUpdate_rep[OF c2(2), of mis ?inner] by auto
  show ?thesis
    using EVP_DigestFinal_ex_rep[OF c3(2)] c1(1) c2(1) c3(1) assms
    by (auto simp: HMAC_Final_def rfc2104_hmac_def length_md_hash_of hmac_keyed_def hmac_rep_def)
qed

lemma HMAC_Init_ex_fails:
  assumes "\<not> sys (md_ctx_size (md_st md) + 8)"
  shows "\<exists>ctx'. HMAC_Init_ex sys mis HMAC_CTX_init key (Some md) = Some (False, ctx')"
proof -
  let ?c = HMAC_CTX_init and ?key = "case key of None \<Rightarrow> [] | Some k \<Rightarrow> k"
  have r: "ctx_rep (hm_md_ctx ?c) None" "hm_i_ctx ?c = EVP_MD_CTX_init" by (simp_all add: HMAC_CTX_init_def)
  have room: "\<not> md_room sys None md" using assms by (simp add: md_room_def)
  have p: "hmac_pad_ctx sys mis EVP_MD_CTX_init 0x36 kb md = Some (False, EVP_MD_CTX_init)" for kb
    using hmac_pad_ctx_rep[OF ctx_rep_init, where sys = sys and md = md and mis = mis and b = "0x36" and kb = kb] room by simp
  have "\<exists>ctx'. hmac_set_key sys mis ?c ?key md = Some (False, ctx')"
  proof (cases "EVP_MD_block_size md < length ?key")
    case True
    then have "hmac_key_bytes sys mis ?c ?key md = Some (None, ?c)"
      using hmac_key_bytes_rep[OF r(1), of md ?key sys mis] room by simp
    then show ?thesis using block_size_bounds(1)[of md] by (simp add: hmac_set_key_def EVP_MAX_MD_BLOCK_SIZE_def)
  next
    case False
    then have "hmac_key_bytes sys mis ?c ?key md = Some (Some ?key, ?c)"
      using block_size_bounds(1)[of md] by (simp add: hmac_key_bytes_def EVP_MAX_MD_BLOCK_SIZE_def)
    then show ?thesis
      using block_size_bounds(1)[of md] p r(2) by (simp add: hmac_set_key_def Let_def EVP_MAX_MD_BLOCK_SIZE_def)
  qed
  then show ?thesis by (auto simp: HMAC_Init_ex_def Let_def HMAC_CTX_init_def)
qed

lemma HMAC_rfc:
  "HMAC sys mis md key data =
    Some (if sys (md_ctx_size (md_st md) + 8)
          then Some (rfc2104_hmac md (case key of None \<Rightarrow> [] | Some k \<Rightarrow> k) data, EVP_MD_size md) else None)"
proof (cases "sys (md_ctx_size (md_st md) + 8)")
  case True
  let ?key = "case key of None \<Rightarrow> [] | Some k \<Rightarrow> k"
  obtain c1 where c1: "HMAC_Init_ex sys mis HMAC_CTX_init key (Some md) = Some (True, c1)" "hmac_rep c1 md ?key []"
    using HMAC_Init_ex_key[of HMAC_CTX_init sys md key mis] hmac_wf_init True by (auto simp: HMAC_CTX_init_def)
  obtain c2 where c2: "HMAC_Update mis c1 data = Some c2" "hmac_rep c2 md ?key data"
    using HMAC_Update_rep[OF c1(2), of mis data] by auto
  show ?thesis using HMAC_Final_rep[OF c2(2), of sys mis True] c1(1) c2(1) True by (auto simp: HMAC_def)
next
  case False
  then show ?thesis using HMAC_Init_ex_fails[of sys md mis key] by (auto simp: HMAC_def)
qed

text \<open>
  Property C6: HMAC is RFC 2104. For every digest, key (shorter or longer than a block, or NULL)
  and cutting of the message, a context initialised with the key returns the code of the message;
  initialising it again without key and digest rewinds it to the same key, with no allocation at
  all; and the one-shot function returns the code, or NULL exactly when the system gives no memory.
\<close>

theorem HMAC_rfc2104:
  assumes "sys (md_ctx_size (md_st md) + 8)"
  shows "(\<exists>c1 c2 c3 c4 c5 c6.
      HMAC_Init_ex sys mis HMAC_CTX_init (Some key) (Some md) = Some (True, c1) \<and>
      feed (HMAC_Update mis) c1 ps = Some c2 \<and>
      HMAC_Final (\<lambda>_. False) mis False c2 = Some (Some (rfc2104_hmac md key (concat ps), EVP_MD_size md), c3) \<and>
      HMAC_Init_ex (\<lambda>_. False) mis c3 None None = Some (True, c4) \<and>
      feed (HMAC_Update mis) c4 qs = Some c5 \<and>
      HMAC_Final (\<lambda>_. False) mis False c5 = Some (Some (rfc2104_hmac md key (concat qs), EVP_MD_size md), c6)) \<and>
    (\<forall>sys mis key data. HMAC sys mis md key data =
      Some (if sys (md_ctx_size (md_st md) + 8)
            then Some (rfc2104_hmac md (case key of None \<Rightarrow> [] | Some k \<Rightarrow> k) data, EVP_MD_size md) else None))"
proof -
  obtain c1 where c1: "HMAC_Init_ex sys mis HMAC_CTX_init (Some key) (Some md) = Some (True, c1)" "hmac_rep c1 md key []"
    using HMAC_Init_ex_key[of HMAC_CTX_init sys md "Some key" mis] hmac_wf_init assms by auto
  obtain c2 where c2: "feed (HMAC_Update mis) c1 ps = Some c2" "hmac_rep c2 md key (concat ps)"
    using HMAC_feed_rep[OF c1(2), of mis ps] by auto
  obtain c3 where c3: "HMAC_Final (\<lambda>_. False) mis False c2 = Some (Some (rfc2104_hmac md key (concat ps), EVP_MD_size md), c3)"
    "hmac_keyed c3 md key"
    using HMAC_Final_rep[OF c2(2), of "\<lambda>_. False" mis False] by auto
  obtain c4 where c4: "HMAC_Init_ex (\<lambda>_. False) mis c3 None None = Some (True, c4)" "hmac_rep c4 md key []"
    using HMAC_Init_ex_rewind[OF c3(2), of "\<lambda>_. False" mis] by auto
  obtain c5 where c5: "feed (HMAC_Update mis) c4 qs = Some c5" "hmac_rep c5 md key (concat qs)"
    using HMAC_feed_rep[OF c4(2), of mis qs] by auto
  show ?thesis
    using c1(1) c2(1) c3(1) c4(1) c5(1) HMAC_Final_rep[OF c5(2), of "\<lambda>_. False" mis False] HMAC_rfc by blast
qed

theorem HMAC_rfc2104_witness:
  "HMAC (\<lambda>_. True) (\<lambda>_. False) EVP_sha256 (Some [1, 2, 3]) [97] = Some (Some (rfc2104_hmac EVP_sha256 [1, 2, 3] [97], 32))"
  using conjunct2[OF HMAC_rfc2104[of "\<lambda>_. True" EVP_sha256 "\<lambda>_. False" "[]" "[]" "[]"]]
  by (simp add: EVP_MD_size_def SHA256_DIGEST_LENGTH_def)

end
