(* ===== verification/Kdf.thy ===== *)
theory Kdf
  imports Hmac
begin

text \<open>
  Key derivation on HMAC: \<^verbatim>\<open>crypto/hkdf/hkdf.c\<close>, which is RFC 5869, and \<^verbatim>\<open>crypto/evp/pbkdf.c\<close>, which
  is PBKDF2 of RFC 8018. Both keep one keyed context and rewind it for every block of output.
\<close>

section \<open>HKDF\<close>

text \<open>\<open>Some None\<close> is the return value 0, here and below.\<close>

definition HKDF_extract ::
  "sys_malloc \<Rightarrow> (u8 list \<Rightarrow> bool) \<Rightarrow> evp_md \<Rightarrow> u8 list \<Rightarrow> u8 list option \<Rightarrow> (u8 list \<times> nat) option option" where
  "HKDF_extract sys mis digest secret salt = do {
     r \<leftarrow> HMAC sys mis digest salt secret;
     case r of
       None \<Rightarrow> Some None
     | Some (out_key, len) \<Rightarrow> do {
         C_assert (len = EVP_MD_size digest);
         Some (Some (out_key, len)) } }"

text \<open>
  The loop, from block \<open>i\<close>: the context, the previous block (not yet written at first) and the output
  so far.
\<close>

function hkdf_loop ::
  "sys_malloc \<Rightarrow> (u8 list \<Rightarrow> bool) \<Rightarrow> nat \<Rightarrow> nat \<Rightarrow> u8 list \<Rightarrow> nat \<Rightarrow> nat \<Rightarrow> HMAC_CTX \<Rightarrow> u8 list \<Rightarrow> u8 list \<Rightarrow>
   u8 list option option" where
  "hkdf_loop sys mis digest_len out_len info n i hmac previous out =
     (if i < n
      then do {
        let ctr = (of_nat (i + 1) :: u8);
        (ok, hmac) \<leftarrow> (if i \<noteq> 0
          then do {
            (ret, hmac) \<leftarrow> HMAC_Init_ex sys mis hmac None None;
            if \<not> ret then Some (False, hmac)
            else do {
              hmac \<leftarrow> HMAC_Update mis hmac (take digest_len previous);
              Some (True, hmac) } }
          else Some (True, hmac));
        if \<not> ok then Some None
        else do {
          hmac \<leftarrow> HMAC_Update mis hmac info;
          hmac \<leftarrow> HMAC_Update mis hmac [ctr];
          (r, hmac) \<leftarrow> HMAC_Final sys mis False hmac;
          case r of
            None \<Rightarrow> Some None
          | Some (previous, _) \<Rightarrow>
              let todo = (if size_add (length out) digest_len > out_len then size_sub out_len (length out) else digest_len)
              in hkdf_loop sys mis digest_len out_len info n (i + 1) hmac previous (out @ take todo previous) } }
      else Some (Some out))"
  by pat_completeness auto

termination
  by (relation "measure (\<lambda>(sys, mis, digest_len, out_len, info, n, i, hmac, previous, out). n - i)") auto

declare hkdf_loop.simps [simp del]

definition HKDF_expand ::
  "sys_malloc \<Rightarrow> (u8 list \<Rightarrow> bool) \<Rightarrow> nat \<Rightarrow> evp_md \<Rightarrow> u8 list \<Rightarrow> u8 list \<Rightarrow> u8 list option option" where
  "HKDF_expand sys mis out_len digest prk info = do {
     let digest_len = EVP_MD_size digest;
     let n = size_sub (size_add out_len digest_len) 1 div digest_len;
     if size_add out_len digest_len < out_len \<or> n > 255 then Some None
     else do {
       (ret, hmac) \<leftarrow> HMAC_Init_ex sys mis HMAC_CTX_init (Some prk) (Some digest);
       if \<not> ret then Some None
       else hkdf_loop sys mis digest_len out_len info n 0 hmac [] [] } }"

definition HKDF ::
  "sys_malloc \<Rightarrow> (u8 list \<Rightarrow> bool) \<Rightarrow> nat \<Rightarrow> evp_md \<Rightarrow> u8 list \<Rightarrow> u8 list option \<Rightarrow> u8 list \<Rightarrow> u8 list option option" where
  "HKDF sys mis out_len digest secret salt info = do {
     r \<leftarrow> HKDF_extract sys mis digest secret salt;
     case r of
       None \<Rightarrow> Some None
     | Some (prk, prk_len) \<Rightarrow> HKDF_expand sys mis out_len digest (take prk_len prk) info }"

lemma EVP_MD_size_pos [simp]: "0 < EVP_MD_size md"
  by (cases md) (simp_all add: EVP_MD_size_def MD4_DIGEST_LENGTH_def MD5_DIGEST_LENGTH_def
      SHA_DIGEST_LENGTH_def SHA224_DIGEST_LENGTH_def SHA256_DIGEST_LENGTH_def SHA384_DIGEST_LENGTH_def
      SHA512_DIGEST_LENGTH_def)

section \<open>PBKDF2\<close>

text \<open>The loop over \<open>j\<close>, run \<open>m\<close> more times: the context, \<^verbatim>\<open>digest_tmp\<close> and the bytes of the block.\<close>

fun pbkdf2_inner ::
  "sys_malloc \<Rightarrow> (u8 list \<Rightarrow> bool) \<Rightarrow> nat \<Rightarrow> nat \<Rightarrow> HMAC_CTX \<Rightarrow> u8 list \<Rightarrow> u8 list \<Rightarrow> (u8 list option \<times> HMAC_CTX) option" where
  "pbkdf2_inner sys mis md_len 0 hctx digest_tmp block = Some (Some block, hctx)"
| "pbkdf2_inner sys mis md_len (Suc m) hctx digest_tmp block = do {
     (ret, hctx) \<leftarrow> HMAC_Init_ex sys mis hctx None None;
     if \<not> ret then Some (None, hctx)
     else do {
       hctx \<leftarrow> HMAC_Update mis hctx (take md_len digest_tmp);
       (r, hctx) \<leftarrow> HMAC_Final sys mis False hctx;
       case r of
         None \<Rightarrow> Some (None, hctx)
       | Some (digest_tmp, _) \<Rightarrow>
           pbkdf2_inner sys mis md_len m hctx digest_tmp (map2 (XOR) block digest_tmp) } }"

definition pbkdf2_block ::
  "sys_malloc \<Rightarrow> (u8 list \<Rightarrow> bool) \<Rightarrow> nat \<Rightarrow> u8 list \<Rightarrow> nat \<Rightarrow> u32 \<Rightarrow> nat \<Rightarrow> HMAC_CTX \<Rightarrow> (u8 list option \<times> HMAC_CTX) option" where
  "pbkdf2_block sys mis md_len salt iterations i todo hctx = do {
     let i_buf = [ucast (drop_bit 24 i AND 0xff), ucast (drop_bit 16 i AND 0xff), ucast (drop_bit 8 i AND 0xff),
                  ucast (i AND 0xff)];
     (ret, hctx) \<leftarrow> HMAC_Init_ex sys mis hctx None None;
     if \<not> ret then Some (None, hctx)
     else do {
       hctx \<leftarrow> HMAC_Update mis hctx salt;
       hctx \<leftarrow> HMAC_Update mis hctx i_buf;
       (r, hctx) \<leftarrow> HMAC_Final sys mis False hctx;
       case r of
         None \<Rightarrow> Some (None, hctx)
       | Some (digest_tmp, _) \<Rightarrow>
           pbkdf2_inner sys mis md_len (iterations - 1) hctx digest_tmp (take todo digest_tmp) } }"

text \<open>
  The loop over the output. It ends because every digest has bytes: \<^verbatim>\<open>todo\<close> is not 0. The result is
  whether the loop finished, and the bytes written.
\<close>

function pbkdf2_loop ::
  "sys_malloc \<Rightarrow> (u8 list \<Rightarrow> bool) \<Rightarrow> evp_md \<Rightarrow> u8 list \<Rightarrow> nat \<Rightarrow> nat \<Rightarrow> u32 \<Rightarrow> HMAC_CTX \<Rightarrow> u8 list \<Rightarrow>
   (bool \<times> u8 list) option" where
  "pbkdf2_loop sys mis digest salt iterations key_len i hctx out =
     (if key_len > 0
      then do {
        let md_len = EVP_MD_size digest;
        let todo = (if md_len > key_len then key_len else md_len);
        (r, hctx) \<leftarrow> pbkdf2_block sys mis md_len salt iterations i todo hctx;
        case r of
          None \<Rightarrow> Some (False, out)
        | Some block \<Rightarrow>
            pbkdf2_loop sys mis digest salt iterations (key_len - todo) (i + 1) hctx (out @ block) }
      else Some (True, out))"
  by pat_completeness auto

termination
  by (relation "measure (\<lambda>(sys, mis, digest, salt, iterations, key_len, i, hctx, out). key_len)")
    (auto split: if_splits)

declare pbkdf2_loop.simps [simp del]

text \<open>The return value and the bytes of \<^verbatim>\<open>out_key\<close> that were written.\<close>

definition PKCS5_PBKDF2_HMAC ::
  "sys_malloc \<Rightarrow> (u8 list \<Rightarrow> bool) \<Rightarrow> u8 list \<Rightarrow> u8 list \<Rightarrow> nat \<Rightarrow> evp_md \<Rightarrow> nat \<Rightarrow> (bool \<times> u8 list) option" where
  "PKCS5_PBKDF2_HMAC sys mis password salt iterations digest key_len = do {
     (ret, hctx) \<leftarrow> HMAC_Init_ex sys mis HMAC_CTX_init (Some password) (Some digest);
     if \<not> ret then Some (False, [])
     else do {
       (ok, out) \<leftarrow> pbkdf2_loop sys mis digest salt iterations key_len 1 hctx [];
       if \<not> ok then Some (False, out)
       else if iterations = 0 then Some (False, out)
       else Some (True, out) } }"

definition PKCS5_PBKDF2_HMAC_SHA1 ::
  "sys_malloc \<Rightarrow> (u8 list \<Rightarrow> bool) \<Rightarrow> u8 list \<Rightarrow> u8 list \<Rightarrow> nat \<Rightarrow> nat \<Rightarrow> (bool \<times> u8 list) option" where
  "PKCS5_PBKDF2_HMAC_SHA1 sys mis password salt iterations key_len =
     PKCS5_PBKDF2_HMAC sys mis password salt iterations EVP_sha1 key_len"

section \<open>RFC 5869\<close>

fun rfc5869_T :: "evp_md \<Rightarrow> u8 list \<Rightarrow> u8 list \<Rightarrow> nat \<Rightarrow> u8 list" where
  "rfc5869_T md prk info 0 = []"
| "rfc5869_T md prk info (Suc i) = rfc2104_hmac md prk (rfc5869_T md prk info i @ info @ [of_nat (Suc i)])"

definition rfc5869_expand :: "evp_md \<Rightarrow> u8 list \<Rightarrow> u8 list \<Rightarrow> nat \<Rightarrow> u8 list" where
  "rfc5869_expand md prk info L =
     take L (concat (map (rfc5869_T md prk info) [1..<Suc ((L + EVP_MD_size md - 1) div EVP_MD_size md)]))"

section \<open>RFC 8018\<close>

fun rfc8018_U :: "evp_md \<Rightarrow> u8 list \<Rightarrow> u8 list \<Rightarrow> nat \<Rightarrow> nat \<Rightarrow> u8 list" where
  "rfc8018_U md P S i 0 = rfc2104_hmac md P (S @ be_bytes 4 i)"
| "rfc8018_U md P S i (Suc j) = rfc2104_hmac md P (rfc8018_U md P S i j)"

definition rfc8018_F :: "evp_md \<Rightarrow> u8 list \<Rightarrow> u8 list \<Rightarrow> nat \<Rightarrow> nat \<Rightarrow> u8 list" where
  "rfc8018_F md P S c i = foldl (map2 (XOR)) (rfc8018_U md P S i 0) (map (rfc8018_U md P S i) [1..<c])"

text \<open>
  Section 5.2: step 1 rejects a key that is too long, the others concatenate the blocks \<open>1\<close> to \<open>l\<close>, whose number \<open>INT(i)\<close>
  has four bytes.
\<close>

definition rfc8018_PBKDF2 :: "evp_md \<Rightarrow> u8 list \<Rightarrow> u8 list \<Rightarrow> nat \<Rightarrow> nat \<Rightarrow> u8 list option" where
  "rfc8018_PBKDF2 md P S c dkLen =
     (if dkLen > (2 ^ 32 - 1) * EVP_MD_size md then None
      else let l = (dkLen + EVP_MD_size md - 1) div EVP_MD_size md
           in Some (take dkLen (concat (map (rfc8018_F md P S c) [1..<Suc l]))))"

text \<open>The same blocks with the number of a block reduced to 32 bits, for any length.\<close>

definition wrapped_PBKDF2 :: "evp_md \<Rightarrow> u8 list \<Rightarrow> u8 list \<Rightarrow> nat \<Rightarrow> nat \<Rightarrow> u8 list" where
  "wrapped_PBKDF2 md P S c dkLen =
     (let l = (dkLen + EVP_MD_size md - 1) div EVP_MD_size md
      in take dkLen (concat (map (\<lambda>i. rfc8018_F md P S c (i mod 2 ^ 32)) [1..<Suc l])))"

section \<open>HKDF computes RFC 5869\<close>

lemma length_hmac [simp]: "length (rfc2104_hmac md key msg) = EVP_MD_size md"
  by (simp add: rfc2104_hmac_def length_md_hash_of)

lemma length_T: "0 < i \<Longrightarrow> length (rfc5869_T md prk info i) = EVP_MD_size md"
  by (cases i) simp_all

lemma length_concat_T: "length (concat (map (rfc5869_T md prk info) [1..<Suc i])) = i * EVP_MD_size md"
  by (induction i) (simp_all add: length_T)

text \<open>The context of a block before the information is fed.\<close>

lemma hkdf_previous:
  assumes "if i = 0 then hmac_rep hmac md prk [] else hmac_keyed hmac md prk \<and> previous = rfc5869_T md prk info i"
  shows "\<exists>hm. (if i \<noteq> 0
      then do {
        (ret, hmac) \<leftarrow> HMAC_Init_ex sys mis hmac None None;
        if \<not> ret then Some (False, hmac)
        else do {
          hmac \<leftarrow> HMAC_Update mis hmac (take (EVP_MD_size md) previous);
          Some (True, hmac) } }
      else Some (True, hmac)) = Some (True, hm) \<and> hmac_rep hm md prk (rfc5869_T md prk info i)"
proof (cases "i = 0")
  case False
  then have k: "hmac_keyed hmac md prk" "previous = rfc5869_T md prk info i" using assms by simp_all
  obtain h1 where h1: "HMAC_Init_ex sys mis hmac None None = Some (True, h1)" "hmac_rep h1 md prk []"
    using HMAC_Init_ex_rewind[OF k(1), of sys mis] by auto
  show ?thesis
    using HMAC_Update_rep[OF h1(2), of mis previous] h1(1) k(2) False by (auto simp: length_T)
qed (use assms in simp)

lemma hkdf_loop_T:
  assumes "if i = 0 then hmac_rep hmac md prk [] else hmac_keyed hmac md prk \<and> previous = rfc5869_T md prk info i"
    and "i \<le> n" "n = (out_len + EVP_MD_size md - 1) div EVP_MD_size md" "out_len + EVP_MD_size md < SIZE_MOD"
    and "out = take out_len (concat (map (rfc5869_T md prk info) [1..<Suc i]))"
  shows "hkdf_loop sys mis (EVP_MD_size md) out_len info n i hmac previous out = Some (Some (rfc5869_expand md prk info out_len))"
  using assms
proof (induction "n - i" arbitrary: i hmac previous out)
  case 0
  then have "i = n" by simp
  have "hkdf_loop sys mis (EVP_MD_size md) out_len info n n hmac previous out = Some (Some out)"
    by (subst hkdf_loop.simps) simp
  then show ?case unfolding rfc5869_expand_def "0.prems"(3)[symmetric] using \<open>i = n\<close> "0.prems"(5) by (simp only:)
next
  case (Suc d)
  let ?h = "EVP_MD_size md" and ?T = "rfc5869_T md prk info"
  have i: "i < n" using Suc.hyps(2) by simp
  then have "(i + 1) * ?h \<le> out_len + ?h - 1"
    using Suc.prems(3) by (metis Suc_eq_plus1 Suc_leI le_trans div_times_less_eq_dividend mult_le_mono1)
  then have "i * ?h + ?h \<le> out_len + ?h - 1" by (simp add: add.commute)
  moreover have "0 < ?h" by simp
  ultimately have lt: "i * ?h < out_len" by linarith
  have lo: "length out = i * ?h" using Suc.prems(5) lt length_concat_T[of md prk info i] by simp
  then have o: "out = concat (map ?T [1..<Suc i])" using Suc.prems(5) lt length_concat_T[of md prk info i] by simp
  obtain h1 where h1: "(if i \<noteq> 0
      then do {
        (ret, hmac) \<leftarrow> HMAC_Init_ex sys mis hmac None None;
        if \<not> ret then Some (False, hmac)
        else do {
          hmac \<leftarrow> HMAC_Update mis hmac (take ?h previous);
          Some (True, hmac) } }
      else Some (True, hmac)) = Some (True, h1)" "hmac_rep h1 md prk (?T i)"
    using hkdf_previous[OF Suc.prems(1), of sys mis] by auto
  obtain h2 where h2: "HMAC_Update mis h1 info = Some h2" "hmac_rep h2 md prk (?T i @ info)"
    using HMAC_Update_rep[OF h1(2)] by blast
  obtain h3 where h3: "HMAC_Update mis h2 [of_nat (i + 1)] = Some h3" "hmac_rep h3 md prk (?T i @ info @ [of_nat (i + 1)])"
    using HMAC_Update_rep[OF h2(2), of mis "[of_nat (i + 1)]"] by auto
  obtain h4 where h4: "HMAC_Final sys mis False h3 = Some (Some (?T (Suc i), ?h), h4)" "hmac_keyed h4 md prk"
    using HMAC_Final_rep[OF h3(2), of sys mis False] by auto
  let ?todo = "if size_add (length out) ?h > out_len then size_sub out_len (length out) else ?h"
  have "size_add (length out) ?h = length out + ?h" "size_sub out_len (length out) = out_len - length out"
    using lt lo Suc.prems(4) by (simp_all add: size_add_exact size_sub_exact)
  then have "take ?todo (?T (Suc i)) = take (out_len - length out) (?T (Suc i))" by simp
  moreover have "take out_len (out @ ?T (Suc i)) = out @ take (out_len - length out) (?T (Suc i))"
    using lt lo by simp
  moreover have "concat (map ?T [1..<Suc (Suc i)]) = out @ ?T (Suc i)" by (simp add: o)
  ultimately have out: "out @ take ?todo (?T (Suc i)) = take out_len (concat (map ?T [1..<Suc (Suc i)]))"
    by (simp del: upt_Suc rfc5869_T.simps)
  have "hkdf_loop sys mis ?h out_len info n (i + 1) h4 (?T (Suc i)) (out @ take ?todo (?T (Suc i))) =
      Some (Some (rfc5869_expand md prk info out_len))"
    using Suc.hyps(2) Suc.prems(3,4) i h4(2) out
    by (intro Suc.hyps(1)) (simp_all del: upt_Suc rfc5869_T.simps)
  then show ?case
    using i h1(1) h2(1) h3(1) h4(1) unfolding hkdf_loop.simps[of sys mis ?h out_len info n i]
    by (simp only: Let_def if_True Option.bind.simps prod.case not_True_eq_False if_False option.case)
qed

lemma HKDF_expand_rfc:
  assumes "out_len < SIZE_MOD"
  shows "HKDF_expand sys mis out_len md prk info =
    Some (if sys (md_ctx_size (md_st md) + 8) \<and> out_len \<le> 255 * EVP_MD_size md
          then Some (rfc5869_expand md prk info out_len) else None)"
proof (cases "out_len + EVP_MD_size md < SIZE_MOD")
  case True
  let ?h = "EVP_MD_size md"
  have pos: "0 < ?h" by simp
  have nn: "size_sub (size_add out_len ?h) 1 div ?h = (out_len + ?h - 1) div ?h"
  proof -
    have "1 \<le> out_len + ?h" using pos by linarith
    then show ?thesis using True by (simp only: size_add_exact size_sub_exact)
  qed
  have "(out_len + ?h - 1) div ?h \<le> 255 \<longleftrightarrow> out_len + ?h - 1 < 256 * ?h"
    using div_less_iff_less_mult[OF pos, of "out_len + ?h - 1" 256] by (simp add: less_Suc_eq_le[symmetric])
  also have "\<dots> \<longleftrightarrow> out_len \<le> 255 * ?h" using pos by linarith
  finally have le: "(out_len + ?h - 1) div ?h > 255 \<longleftrightarrow> \<not> out_len \<le> 255 * ?h" by linarith
  have so: "\<not> size_add out_len ?h < out_len" using True by (simp add: size_add_exact)
  define n where "n = (out_len + ?h - 1) div ?h"
  have e: "HKDF_expand sys mis out_len md prk info =
      (if out_len \<le> 255 * ?h
       then do {
         (ret, hmac) \<leftarrow> HMAC_Init_ex sys mis HMAC_CTX_init (Some prk) (Some md);
         if \<not> ret then Some None else hkdf_loop sys mis ?h out_len info n 0 hmac [] [] }
       else Some None)"
    unfolding HKDF_expand_def Let_def nn n_def[symmetric] using so le by (auto simp: n_def)
  show ?thesis
  proof (cases "sys (md_ctx_size (md_st md) + 8)")
    case ok: True
    obtain c where c: "HMAC_Init_ex sys mis HMAC_CTX_init (Some prk) (Some md) = Some (True, c)" "hmac_rep c md prk []"
      using HMAC_Init_ex_key[of HMAC_CTX_init sys md "Some prk" mis] hmac_wf_init ok by auto
    show ?thesis
      using hkdf_loop_T[of 0 c md prk "[]" info n out_len "[]" sys mis] c True ok by (auto simp: e n_def)
  next
    case False
    then show ?thesis using HMAC_Init_ex_fails[of sys md mis "Some prk"] by (auto simp: e)
  qed
next
  case False
  have s: "EVP_MD_size md \<le> 64" using md_size_max[of md] by (simp add: EVP_MD_size_def EVP_MAX_MD_SIZE_def)
  then have "size_add out_len (EVP_MD_size md) < out_len"
    using False assms size_add_wraps_iff[of out_len "EVP_MD_size md"] by (simp add: SIZE_MOD_def)
  moreover have "\<not> out_len \<le> 255 * EVP_MD_size md" using False s by (simp add: SIZE_MOD_def)
  ultimately show ?thesis by (simp add: HKDF_expand_def Let_def)
qed

text \<open>
  Property C27: HKDF is RFC 5869. Extraction and expansion with the rewound context, the block
  counter and the previous block give the first \<open>out_len\<close> bytes of the standard's output, salt
  absent or not; the result is 0 exactly when the system gives no memory or more than 255 blocks are asked
  for, the sums on \<open>size_t\<close> included.
\<close>

theorem HKDF_rfc5869:
  assumes "out_len < SIZE_MOD"
  shows "HKDF sys mis out_len md secret salt info =
    Some (if sys (md_ctx_size (md_st md) + 8) \<and> out_len \<le> 255 * EVP_MD_size md
          then Some (rfc5869_expand md (rfc2104_hmac md (case salt of None \<Rightarrow> [] | Some s \<Rightarrow> s) secret) info out_len)
          else None)"
  by (simp add: HKDF_def HKDF_extract_def HMAC_rfc HKDF_expand_rfc[OF assms])

theorem HKDF_rfc5869_witness:
  "HKDF (\<lambda>_. True) (\<lambda>_. False) 42 EVP_sha256 [1, 2] None [3] =
    Some (Some (rfc5869_expand EVP_sha256 (rfc2104_hmac EVP_sha256 [] [1, 2]) [3] 42))"
  using HKDF_rfc5869[of 42 "\<lambda>_. True" "\<lambda>_. False" EVP_sha256 "[1, 2]" None "[3]"]
  by (simp add: SIZE_MOD_def EVP_MD_size_def SHA256_DIGEST_LENGTH_def)

section \<open>PBKDF2 computes RFC 8018\<close>

lemma length_U: "length (rfc8018_U md P S i j) = EVP_MD_size md"
  by (cases j) simp_all

lemma length_foldl_map2: "length x = n \<Longrightarrow> (\<And>y. y \<in> set ys \<Longrightarrow> length y = n) \<Longrightarrow> length (foldl (map2 f) x ys) = n"
  by (induction ys arbitrary: x) simp_all

lemma length_F: "length (rfc8018_F md P S c i) = EVP_MD_size md"
  unfolding rfc8018_F_def by (rule length_foldl_map2) (auto simp: length_U)

lemma take_map2: "map2 f (take n xs) ys = take n (map2 f xs ys)"
proof (induction xs arbitrary: n ys)
  case (Cons x xs)
  show ?case by (cases n; cases ys) (simp_all add: Cons.IH)
qed simp

text \<open>Only the bytes that are needed are combined.\<close>

lemma pbkdf2_inner_rep:
  "hmac_keyed hctx md P \<Longrightarrow>
   \<exists>h'. pbkdf2_inner sys mis (EVP_MD_size md) m hctx (rfc8018_U md P S i j) (take todo x) =
     Some (Some (take todo (foldl (map2 (XOR)) x (map (rfc8018_U md P S i) [Suc j..<Suc j + m]))), h') \<and> hmac_keyed h' md P"
proof (induction m arbitrary: hctx j x)
  case (Suc m)
  let ?U = "rfc8018_U md P S i"
  obtain h1 where h1: "HMAC_Init_ex sys mis hctx None None = Some (True, h1)" "hmac_rep h1 md P []"
    using HMAC_Init_ex_rewind[OF Suc.prems, of sys mis] by auto
  obtain h2 where h2: "HMAC_Update mis h1 (?U j) = Some h2" "hmac_rep h2 md P (?U j)"
    using HMAC_Update_rep[OF h1(2), of mis "?U j"] by auto
  obtain h3 where h3: "HMAC_Final sys mis False h2 = Some (Some (?U (Suc j), EVP_MD_size md), h3)" "hmac_keyed h3 md P"
    using HMAC_Final_rep[OF h2(2), of sys mis False] by auto
  have "[Suc j..<Suc j + Suc m] = Suc j # [Suc (Suc j)..<Suc (Suc j) + m]" by (simp add: upt_conv_Cons)
  then show ?case
    using Suc.IH[OF h3(2), of "Suc j" "map2 (XOR) x (?U (Suc j))"] h1(1) h2(1) h3(1)
    by (simp add: length_U take_map2 del: rfc8018_U.simps upt_Suc)
qed simp

lemma pbkdf2_block_rep:
  assumes "hmac_keyed hctx md P"
  shows "\<exists>h'. pbkdf2_block sys mis (EVP_MD_size md) salt c (of_nat k) todo hctx =
    Some (Some (take todo (rfc8018_F md P salt c k)), h') \<and> hmac_keyed h' md P"
proof -
  let ?i = "of_nat k :: u32" and ?U = "rfc8018_U md P salt k"
  have b: "[ucast (drop_bit 24 ?i AND 0xff), ucast (drop_bit 16 ?i AND 0xff), ucast (drop_bit 8 ?i AND 0xff),
      ucast (?i AND 0xff)] = be_bytes 4 k"
    using HOST_l2c_be[of ?i] be_bytes_mod[of 4 k] by (simp add: unat_of_nat)
  obtain h1 where h1: "HMAC_Init_ex sys mis hctx None None = Some (True, h1)" "hmac_rep h1 md P []"
    using HMAC_Init_ex_rewind[OF assms, of sys mis] by auto
  obtain h2 where h2: "HMAC_Update mis h1 salt = Some h2" "hmac_rep h2 md P salt"
    using HMAC_Update_rep[OF h1(2), of mis salt] by auto
  obtain h3 where h3: "HMAC_Update mis h2 (be_bytes 4 k) = Some h3" "hmac_rep h3 md P (salt @ be_bytes 4 k)"
    using HMAC_Update_rep[OF h2(2)] by blast
  obtain h4 where h4: "HMAC_Final sys mis False h3 = Some (Some (?U 0, EVP_MD_size md), h4)" "hmac_keyed h4 md P"
    using HMAC_Final_rep[OF h3(2), of sys mis False] by auto
  have "[Suc 0..<Suc 0 + (c - 1)] = [1..<c]" by (cases c) simp_all
  then show ?thesis
    using pbkdf2_inner_rep[OF h4(2), of sys mis "c - 1" salt k 0 todo "?U 0"] h1(1) h2(1) h3(1) h4(1)
    unfolding pbkdf2_block_def b rfc8018_F_def Let_def
    by (simp only: Option.bind.simps prod.case not_True_eq_False if_False option.case)
qed

lemma blocks_Suc: "0 < (h :: nat) \<Longrightarrow> h < n \<Longrightarrow> (n + h - 1) div h = Suc ((n - h + h - 1) div h)"
proof -
  assume h: "0 < h" "h < n"
  then have "n + h - 1 = (n - h + h - 1) + h" by linarith
  then show ?thesis using h(1) by (simp only: div_add_self2)
qed

lemma pbkdf2_loop_rep:
  "hmac_keyed hctx md P \<Longrightarrow>
   pbkdf2_loop sys mis md salt c key_len (of_nat k) hctx out =
     Some (True, out @ take key_len (concat (map (rfc8018_F md P salt c)
       [k..<k + (key_len + EVP_MD_size md - 1) div EVP_MD_size md])))"
proof (induction key_len arbitrary: hctx k out rule: less_induct)
  case (less n)
  let ?h = "EVP_MD_size md" and ?F = "rfc8018_F md P salt c"
  have pos: "0 < ?h" by simp
  show ?case
  proof (cases "n = 0")
    case True
    then show ?thesis by (simp add: pbkdf2_loop.simps)
  next
    case False
    let ?todo = "if ?h > n then n else ?h"
    obtain h1 where h1: "pbkdf2_block sys mis ?h salt c (of_nat k) ?todo hctx = Some (Some (take ?todo (?F k)), h1)"
      "hmac_keyed h1 md P"
      using pbkdf2_block_rep[OF less.prems] by blast
    have "pbkdf2_loop sys mis md salt c n (of_nat k) hctx out =
        pbkdf2_loop sys mis md salt c (n - ?todo) (of_nat (Suc k)) h1 (out @ take ?todo (?F k))"
      using False h1(1) by (subst pbkdf2_loop.simps) (simp add: Let_def add.commute)
    also have "\<dots> = Some (True, (out @ take ?todo (?F k)) @ take (n - ?todo) (concat (map ?F
        [Suc k..<Suc k + (n - ?todo + ?h - 1) div ?h])))"
      using False pos by (intro less.IH[OF _ h1(2)]) simp
    finally have e: "pbkdf2_loop sys mis md salt c n (of_nat k) hctx out = \<dots>" .
    show ?thesis
    proof (cases "n \<le> ?h")
      case True
      then have "n + ?h - 1 = (n - 1) + ?h" "n - 1 < ?h" using False pos by linarith+
      then have "(n + ?h - 1) div ?h = 1" using pos by (simp only: div_add_self2) simp
      then show ?thesis unfolding e using True by (simp add: length_F)
    next
      case False
      then have "(n + ?h - 1) div ?h = Suc ((n - ?h + ?h - 1) div ?h)" using pos by (intro blocks_Suc) simp_all
      moreover have "[k..<k + Suc N] = k # [Suc k..<Suc k + N]" for N by (simp add: upt_conv_Cons del: upt_Suc)
      ultimately show ?thesis unfolding e using False by (simp add: length_F del: upt_Suc)
    qed
  qed
qed

lemma rfc8018_F_wraps: "rfc8018_F md P S c (i mod 2 ^ 32) = rfc8018_F md P S c i"
proof -
  have "be_bytes 4 (i mod 2 ^ 32) = be_bytes 4 i" using be_bytes_mod[of 4 i] by simp
  then have "rfc8018_U md P S (i mod 2 ^ 32) j = rfc8018_U md P S i j" for j by (induction j) simp_all
  then have U: "rfc8018_U md P S (i mod 2 ^ 32) = rfc8018_U md P S i" by (rule ext)
  show ?thesis unfolding rfc8018_F_def U by (rule refl)
qed

text \<open>
  Property C28: PBKDF2. For every digest, password, salt and length the loops end. The key written is that of
  RFC 8018 for every length the RFC allows; a longer one, which its step 1 rejects, is accepted by the code, and its
  blocks are numbered modulo \<open>2 ^ 32\<close>, so that they repeat. Only the needed bytes of the last
  block are combined; an iteration count of 0 is treated as 1 but reported as failure; the only
  other failure is a system without memory, and then nothing is written.
\<close>

theorem PBKDF2_rfc8018:
  "PKCS5_PBKDF2_HMAC sys mis password salt iterations md key_len =
    Some (if sys (md_ctx_size (md_st md) + 8)
          then (iterations \<noteq> 0,
            case rfc8018_PBKDF2 md password salt (max 1 iterations) key_len of
              Some key \<Rightarrow> key
            | None \<Rightarrow> wrapped_PBKDF2 md password salt (max 1 iterations) key_len)
          else (False, []))"
proof (cases "sys (md_ctx_size (md_st md) + 8)")
  case True
  obtain c where c: "HMAC_Init_ex sys mis HMAC_CTX_init (Some password) (Some md) = Some (True, c)" "hmac_rep c md password []"
    using HMAC_Init_ex_key[of HMAC_CTX_init sys md "Some password" mis] hmac_wf_init True by auto
  have F: "rfc8018_F md password salt (max 1 iterations) = rfc8018_F md password salt iterations"
    by (cases iterations) (simp_all add: rfc8018_F_def fun_eq_iff)
  have out: "(case rfc8018_PBKDF2 md password salt (max 1 iterations) key_len of
        Some key \<Rightarrow> key | None \<Rightarrow> wrapped_PBKDF2 md password salt (max 1 iterations) key_len) =
      take key_len (concat (map (rfc8018_F md password salt iterations)
        [1..<Suc ((key_len + EVP_MD_size md - 1) div EVP_MD_size md)]))"
    unfolding rfc8018_PBKDF2_def wrapped_PBKDF2_def rfc8018_F_wraps F Let_def by (simp del: upt_Suc)
  have "hmac_keyed c md password" using c(2) by (simp add: hmac_rep_def)
  then have "pbkdf2_loop sys mis md salt iterations key_len 1 c [] =
      Some (True, take key_len (concat (map (rfc8018_F md password salt iterations)
        [1..<1 + (key_len + EVP_MD_size md - 1) div EVP_MD_size md])))"
    using pbkdf2_loop_rep[of c md password sys mis salt iterations key_len 1 "[]"] by simp
  then show ?thesis unfolding out using c(1) True by (simp add: PKCS5_PBKDF2_HMAC_def del: upt_Suc)
next
  case False
  then show ?thesis using HMAC_Init_ex_fails[of sys md mis "Some password"] by (auto simp: PKCS5_PBKDF2_HMAC_def)
qed

end
