(* ===== verification/Digest_Extra.thy ===== *)
theory Digest_Extra
  imports CBB_Spec Lhash Digest
begin

text \<open>
  \<^verbatim>\<open>crypto/digest_extra/digest_extra.c\<close>: digests by NID, by name and by object identifier, and
  the parser and the writer of a digest's \<^verbatim>\<open>AlgorithmIdentifier\<close>. They are clients of the
  byte-string parser, of the builder and of the digest interface; the theorems compose the
  three.
\<close>

section \<open>The tables\<close>

definition NID_undef :: int where "NID_undef = 0"
definition NID_md5 :: int where "NID_md5 = 4"
definition NID_sha1 :: int where "NID_sha1 = 64"
definition NID_md5_sha1 :: int where "NID_md5_sha1 = 114"
definition NID_md4 :: int where "NID_md4 = 257"
definition NID_sha256 :: int where "NID_sha256 = 672"
definition NID_sha384 :: int where "NID_sha384 = 673"
definition NID_sha512 :: int where "NID_sha512 = 674"
definition NID_sha224 :: int where "NID_sha224 = 675"

lemmas NID_defs = NID_undef_def NID_md5_def NID_sha1_def NID_md5_sha1_def NID_md4_def
  NID_sha256_def NID_sha384_def NID_sha512_def NID_sha224_def

text \<open>The characters of a C string in front of its terminator.\<close>

definition cstr :: "string \<Rightarrow> u8 list" where
  "cstr s = map of_char s"

record nid_to_digest =
  nd_nid :: int
  nd_md_func :: evp_md
  nd_short_name :: "u8 list option"
  nd_long_name :: "u8 list option"

definition nid_to_digest_entry :: "int \<Rightarrow> evp_md \<Rightarrow> string \<Rightarrow> string option \<Rightarrow> nid_to_digest" where
  "nid_to_digest_entry nid md sn lname =
     \<lparr>nd_nid = nid, nd_md_func = md, nd_short_name = Some (cstr sn), nd_long_name = map_option cstr lname\<rparr>"

definition nid_to_digest_mapping :: "nid_to_digest list" where
  "nid_to_digest_mapping =
    [nid_to_digest_entry NID_md4 EVP_md4 ''MD4'' (Some ''md4''),
     nid_to_digest_entry NID_md5 EVP_md5 ''MD5'' (Some ''md5''),
     nid_to_digest_entry NID_sha1 EVP_sha1 ''SHA1'' (Some ''sha1''),
     nid_to_digest_entry NID_sha224 EVP_sha224 ''SHA224'' (Some ''sha224''),
     nid_to_digest_entry NID_sha256 EVP_sha256 ''SHA256'' (Some ''sha256''),
     nid_to_digest_entry NID_sha384 EVP_sha384 ''SHA384'' (Some ''sha384''),
     nid_to_digest_entry NID_sha512 EVP_sha512 ''SHA512'' (Some ''sha512''),
     nid_to_digest_entry NID_md5_sha1 EVP_md5_sha1 ''MD5-SHA1'' (Some ''md5-sha1''),
     nid_to_digest_entry NID_undef EVP_sha1 ''DSA-SHA'' (Some ''dsaWithSHA''),
     nid_to_digest_entry NID_undef EVP_sha1 ''DSA-SHA1'' (Some ''dsaWithSHA1''),
     nid_to_digest_entry NID_undef EVP_sha1 ''ecdsa-with-SHA1'' None,
     nid_to_digest_entry NID_undef EVP_md5 ''RSA-MD5'' (Some ''md5WithRSAEncryption''),
     nid_to_digest_entry NID_undef EVP_sha1 ''RSA-SHA1'' (Some ''sha1WithRSAEncryption''),
     nid_to_digest_entry NID_undef EVP_sha224 ''RSA-SHA224'' (Some ''sha224WithRSAEncryption''),
     nid_to_digest_entry NID_undef EVP_sha256 ''RSA-SHA256'' (Some ''sha256WithRSAEncryption''),
     nid_to_digest_entry NID_undef EVP_sha384 ''RSA-SHA384'' (Some ''sha384WithRSAEncryption''),
     nid_to_digest_entry NID_undef EVP_sha512 ''RSA-SHA512'' (Some ''sha512WithRSAEncryption'')]"

text \<open>The loops over the table, from the entry at its head on.\<close>

fun digestbynid_loop :: "nid_to_digest list \<Rightarrow> int \<Rightarrow> evp_md option" where
  "digestbynid_loop [] nid = None"
| "digestbynid_loop (e # es) nid = (if nd_nid e = nid then Some (nd_md_func e) else digestbynid_loop es nid)"

definition EVP_get_digestbynid :: "int \<Rightarrow> evp_md option" where
  "EVP_get_digestbynid nid =
     (if nid = NID_undef then None else digestbynid_loop nid_to_digest_mapping nid)"

fun digestbyname_loop :: "nid_to_digest list \<Rightarrow> u8 list \<Rightarrow> evp_md option" where
  "digestbyname_loop [] name = None"
| "digestbyname_loop (e # es) name =
     (if (case nd_short_name e of None \<Rightarrow> False | Some s \<Rightarrow> strcmp s name = 0) \<or>
         (case nd_long_name e of None \<Rightarrow> False | Some s \<Rightarrow> strcmp s name = 0)
      then Some (nd_md_func e) else digestbyname_loop es name)"

definition EVP_get_digestbyname :: "u8 list \<Rightarrow> evp_md option" where
  "EVP_get_digestbyname name = digestbyname_loop nid_to_digest_mapping name"

record md_oid =
  mo_oid :: "u8 list"
  mo_oid_len :: u8
  mo_nid :: int

text \<open>An initialiser shorter than the array leaves zeros behind it.\<close>

definition md_oid_entry :: "u8 list \<Rightarrow> u8 \<Rightarrow> int \<Rightarrow> md_oid" where
  "md_oid_entry oid n nid = \<lparr>mo_oid = oid @ replicate (9 - length oid) 0, mo_oid_len = n, mo_nid = nid\<rparr>"

definition kMDOIDs :: "md_oid list" where
  "kMDOIDs =
    [md_oid_entry [0x2a, 0x86, 0x48, 0x86, 0xf7, 0x0d, 0x02, 0x04] 8 NID_md4,
     md_oid_entry [0x2a, 0x86, 0x48, 0x86, 0xf7, 0x0d, 0x02, 0x05] 8 NID_md5,
     md_oid_entry [0x2b, 0x0e, 0x03, 0x02, 0x1a] 5 NID_sha1,
     md_oid_entry [0x60, 0x86, 0x48, 0x01, 0x65, 0x03, 0x04, 0x02, 0x01] 9 NID_sha256,
     md_oid_entry [0x60, 0x86, 0x48, 0x01, 0x65, 0x03, 0x04, 0x02, 0x02] 9 NID_sha384,
     md_oid_entry [0x60, 0x86, 0x48, 0x01, 0x65, 0x03, 0x04, 0x02, 0x03] 9 NID_sha512,
     md_oid_entry [0x60, 0x86, 0x48, 0x01, 0x65, 0x03, 0x04, 0x02, 0x04] 9 NID_sha224]"

section \<open>Parsing\<close>

text \<open>C's \<^verbatim>\<open>memcmp\<close> on two buffers of at least \<open>n\<close> bytes.\<close>

fun memcmp :: "u8 list \<Rightarrow> u8 list \<Rightarrow> nat \<Rightarrow> int" where
  "memcmp s1 s2 0 = 0"
| "memcmp s1 s2 (Suc n) = (if hd s1 = hd s2 then memcmp (tl s1) (tl s2) n else uint (hd s1) - uint (hd s2))"

definition OPENSSL_memcmp :: "u8 list \<Rightarrow> u8 list \<Rightarrow> nat \<Rightarrow> int" where
  "OPENSSL_memcmp s1 s2 n = (if n = 0 then 0 else memcmp s1 s2 n)"

fun cbs_to_md_loop :: "md_oid list \<Rightarrow> CBS \<Rightarrow> evp_md option" where
  "cbs_to_md_loop [] c = None"
| "cbs_to_md_loop (e # es) c =
     (if CBS_len c = unat (mo_oid_len e) \<and>
         OPENSSL_memcmp (drop (CBS_data c) (cbs_buf c)) (mo_oid e) (unat (mo_oid_len e)) = 0
      then EVP_get_digestbynid (mo_nid e) else cbs_to_md_loop es c)"

definition cbs_to_md :: "CBS \<Rightarrow> evp_md option" where
  "cbs_to_md c = cbs_to_md_loop kMDOIDs c"

text \<open>The two fields of an \<^verbatim>\<open>ASN1_OBJECT\<close> that are read: its NID and its encoding.\<close>

definition EVP_get_digestbyobj :: "int \<Rightarrow> u8 list \<Rightarrow> evp_md option" where
  "EVP_get_digestbyobj obj_nid obj_data =
     (if obj_nid \<noteq> NID_undef then EVP_get_digestbynid obj_nid
      else cbs_to_md (CBS_init obj_data 0 (length obj_data)))"

definition CBS_ASN1_NULL :: u32 where "CBS_ASN1_NULL = 0x5"
definition CBS_ASN1_OBJECT :: u32 where "CBS_ASN1_OBJECT = 0x6"
definition CBS_ASN1_SEQUENCE :: u32 where "CBS_ASN1_SEQUENCE = 0x10 OR CBS_ASN1_CONSTRUCTED"

text \<open>The errors on the queue.\<close>

datatype digest_error = DIGEST_R_DECODE_ERROR | DIGEST_R_UNKNOWN_HASH

definition EVP_parse_digest_algorithm :: "CBS \<Rightarrow> (digest_error + evp_md) \<times> CBS" where
  "EVP_parse_digest_algorithm c =
     (case CBS_get_asn1 c CBS_ASN1_SEQUENCE of
        (None, c) \<Rightarrow> (Inl DIGEST_R_DECODE_ERROR, c)
      | (Some algorithm, c) \<Rightarrow>
          case CBS_get_asn1 algorithm CBS_ASN1_OBJECT of
            (None, algorithm) \<Rightarrow> (Inl DIGEST_R_DECODE_ERROR, c)
          | (Some oid, algorithm) \<Rightarrow>
              case cbs_to_md oid of
                None \<Rightarrow> (Inl DIGEST_R_UNKNOWN_HASH, c)
              | Some ret \<Rightarrow>
                  if CBS_len algorithm > 0
                  then (case CBS_get_asn1 algorithm CBS_ASN1_NULL of
                          (None, algorithm) \<Rightarrow> (Inl DIGEST_R_DECODE_ERROR, c)
                        | (Some param, algorithm) \<Rightarrow>
                            if CBS_len param \<noteq> 0 \<or> CBS_len algorithm \<noteq> 0
                            then (Inl DIGEST_R_DECODE_ERROR, c)
                            else (Inr ret, c))
                  else (Inr ret, c))"

section \<open>Writing\<close>

text \<open>The loop that writes the identifier: whether it returned from the function, and \<open>found\<close>.\<close>

fun marshal_oid_loop ::
  "sys_malloc \<Rightarrow> cbb_world \<Rightarrow> nat \<Rightarrow> int \<Rightarrow> md_oid list \<Rightarrow> (bool \<times> bool \<times> cbb_world) option" where
  "marshal_oid_loop sys w oid nid [] = Some (True, False, w)"
| "marshal_oid_loop sys w oid nid (e # es) =
     (if nid = mo_nid e
      then (case CBB_add_bytes sys w oid (take (unat (mo_oid_len e)) (mo_oid e)) of
              None \<Rightarrow> None
            | Some (ok, w) \<Rightarrow> if \<not> ok then Some (False, False, w) else Some (True, True, w))
      else marshal_oid_loop sys w oid nid es)"

text \<open>\<open>algorithm\<close>, \<open>oid\<close> and \<open>null\<close> are the addresses of the local variables of those names.\<close>

definition EVP_marshal_digest_algorithm ::
  "sys_malloc \<Rightarrow> cbb_world \<Rightarrow> nat \<Rightarrow> nat \<Rightarrow> nat \<Rightarrow> nat \<Rightarrow> evp_md \<Rightarrow> bool cbb_result" where
  "EVP_marshal_digest_algorithm sys w cbb algorithm oid null md =
     and_then (CBB_add_asn1 sys w cbb algorithm CBS_ASN1_SEQUENCE) (\<lambda>w.
       and_then (CBB_add_asn1 sys w algorithm oid CBS_ASN1_OBJECT) (\<lambda>w.
         case marshal_oid_loop sys w oid (EVP_MD_type md) kMDOIDs of
           None \<Rightarrow> None
         | Some (ok, found, w) \<Rightarrow>
             if \<not> ok then Some (False, w)
             else if \<not> found then Some (False, w)
             else and_then (CBB_add_asn1 sys w algorithm null CBS_ASN1_NULL) (\<lambda>w.
               CBB_flush sys w cbb)))"

section \<open>Lookups\<close>

text \<open>The identifier of each digest; the combination of MD5 and SHA-1 has none.\<close>

fun digest_oid :: "evp_md \<Rightarrow> u8 list" where
  "digest_oid EVP_md4 = [0x2a, 0x86, 0x48, 0x86, 0xf7, 0x0d, 0x02, 0x04]"
| "digest_oid EVP_md5 = [0x2a, 0x86, 0x48, 0x86, 0xf7, 0x0d, 0x02, 0x05]"
| "digest_oid EVP_sha1 = [0x2b, 0x0e, 0x03, 0x02, 0x1a]"
| "digest_oid EVP_sha256 = [0x60, 0x86, 0x48, 0x01, 0x65, 0x03, 0x04, 0x02, 0x01]"
| "digest_oid EVP_sha384 = [0x60, 0x86, 0x48, 0x01, 0x65, 0x03, 0x04, 0x02, 0x02]"
| "digest_oid EVP_sha512 = [0x60, 0x86, 0x48, 0x01, 0x65, 0x03, 0x04, 0x02, 0x03]"
| "digest_oid EVP_sha224 = [0x60, 0x86, 0x48, 0x01, 0x65, 0x03, 0x04, 0x02, 0x04]"
| "digest_oid EVP_md5_sha1 = []"

lemma memcmp_eq_0_iff:
  "n \<le> length a \<Longrightarrow> n \<le> length b \<Longrightarrow> memcmp a b n = 0 \<longleftrightarrow> take n a = take n b"
proof (induction a b n rule: memcmp.induct)
  case (2 a b n)
  then show ?case by (cases a; cases b) (auto simp: word_uint_eq_iff)
qed simp

lemma OPENSSL_memcmp_eq_0_iff:
  "n \<le> length a \<Longrightarrow> n \<le> length b \<Longrightarrow> OPENSSL_memcmp a b n = 0 \<longleftrightarrow> take n a = take n b"
  by (simp add: OPENSSL_memcmp_def memcmp_eq_0_iff)

lemma cbs_to_md_entry:
  assumes "cbs_wf c" "unat n = length oid" "length oid \<le> 9"
  shows "CBS_len c = unat n \<and> OPENSSL_memcmp (drop (CBS_data c) (cbs_buf c)) (mo_oid (md_oid_entry oid n nid)) (unat n) = 0
    \<longleftrightarrow> cbs_view c = oid"
proof (cases "cbs_len c = length oid")
  case True
  then have "length oid \<le> length (drop (cbs_off c) (cbs_buf c))"
    using assms(1) by (simp add: cbs_wf_def)
  then show ?thesis using True assms
    by (simp add: CBS_len_def CBS_data_def OPENSSL_memcmp_eq_0_iff md_oid_entry_def cbs_view_def mem_bytes_def)
next
  case False
  then show ?thesis using assms length_cbs_view[OF assms(1)] by (auto simp: CBS_len_def)
qed

lemma md_oid_entry_sel [simp]:
  "mo_oid_len (md_oid_entry oid n nid) = n" "mo_nid (md_oid_entry oid n nid) = nid"
  by (simp_all add: md_oid_entry_def)

lemma cbs_to_md_loop_entry [simp]:
  assumes "cbs_wf c" "unat n = length oid" "length oid \<le> 9"
  shows "cbs_to_md_loop (md_oid_entry oid n nid # es) c =
    (if cbs_view c = oid then EVP_get_digestbynid nid else cbs_to_md_loop es c)"
  using cbs_to_md_entry[OF assms, of nid] by simp

lemma EVP_get_digestbynid_type: "EVP_get_digestbynid (EVP_MD_type md) = Some md"
  by (cases md)
    (simp_all add: EVP_get_digestbynid_def nid_to_digest_mapping_def nid_to_digest_entry_def NID_defs EVP_MD_type_def)

lemma EVP_get_digestbynid_eq:
  "EVP_get_digestbynid NID_md4 = Some EVP_md4" "EVP_get_digestbynid NID_md5 = Some EVP_md5"
  "EVP_get_digestbynid NID_sha1 = Some EVP_sha1" "EVP_get_digestbynid NID_sha256 = Some EVP_sha256"
  "EVP_get_digestbynid NID_sha384 = Some EVP_sha384" "EVP_get_digestbynid NID_sha512 = Some EVP_sha512"
  "EVP_get_digestbynid NID_sha224 = Some EVP_sha224"
  by (simp_all add: EVP_get_digestbynid_def nid_to_digest_mapping_def nid_to_digest_entry_def NID_defs)

lemma cbs_to_md_eq:
  assumes "cbs_wf c"
  shows "cbs_to_md c =
    (if cbs_view c = digest_oid EVP_md4 then Some EVP_md4 else if cbs_view c = digest_oid EVP_md5 then Some EVP_md5
     else if cbs_view c = digest_oid EVP_sha1 then Some EVP_sha1 else if cbs_view c = digest_oid EVP_sha256 then Some EVP_sha256
     else if cbs_view c = digest_oid EVP_sha384 then Some EVP_sha384 else if cbs_view c = digest_oid EVP_sha512 then Some EVP_sha512
     else if cbs_view c = digest_oid EVP_sha224 then Some EVP_sha224 else None)"
  unfolding cbs_to_md_def kMDOIDs_def digest_oid.simps
  by (subst cbs_to_md_loop_entry, rule assms, simp, simp)+ (simp only: EVP_get_digestbynid_eq cbs_to_md_loop.simps)

lemma digest_oid_inject:
  "md \<noteq> EVP_md5_sha1 \<Longrightarrow> digest_oid md = digest_oid md' \<longleftrightarrow> md = md'"
  by (cases md; cases md') simp_all

lemma cbs_to_md_iff:
  assumes "cbs_wf c"
  shows "cbs_to_md c = Some md \<longleftrightarrow> md \<noteq> EVP_md5_sha1 \<and> cbs_view c = digest_oid md"
proof
  assume "cbs_to_md c = Some md"
  then show "md \<noteq> EVP_md5_sha1 \<and> cbs_view c = digest_oid md"
    unfolding cbs_to_md_eq[OF assms] by (auto simp only: split: if_splits)
next
  assume "md \<noteq> EVP_md5_sha1 \<and> cbs_view c = digest_oid md"
  then show "cbs_to_md c = Some md"
    unfolding cbs_to_md_eq[OF assms] by (cases md) (simp_all only: digest_oid_inject evp_md.simps simp_thms if_True if_False)
qed

section \<open>Algorithm identifiers\<close>

lemma asn1_tags:
  "CBS_ASN1_SEQUENCE = ucast (0x30 :: u8)" "CBS_ASN1_OBJECT = ucast (6 :: u8)" "CBS_ASN1_NULL = ucast (5 :: u8)"
  by (simp_all add: CBS_ASN1_SEQUENCE_def CBS_ASN1_OBJECT_def CBS_ASN1_NULL_def CBS_ASN1_CONSTRUCTED_def)

lemma digest_tags_ok [simp]: "der_tag_ok 0x30" "der_tag_ok 6" "der_tag_ok 5"
  by (simp_all add: der_tag_ok_def)

lemma length_digest_oid: "length (digest_oid md) \<le> 9"
  by (cases md) simp_all

lemma get_asn1_view:
  assumes "cbs_wf c" "cbs_view c = der_element t contents @ r" "der_tag_ok t" "length contents < 2 ^ 32"
  obtains out where "CBS_get_asn1 c (ucast t) = (Some out, cbs_adv (length (der_element t contents)) c)"
    "cbs_wf out" "cbs_view out = contents" "cbs_len out = length contents"
  using get_asn1_der[OF assms] cbs_view_contents[OF assms(1,2)] by simp

lemma get_asn1_viewD:
  assumes "cbs_wf c" "CBS_get_asn1 c (ucast (t :: u8)) = (Some out, c')"
  obtains contents r where "cbs_view c = der_element t contents @ r" "length contents < 2 ^ 32"
    "cbs_wf out" "cbs_view out = contents" "cbs_len out = length contents"
    "c' = cbs_adv (length (der_element t contents)) c" "cbs_wf c'" "cbs_view c' = r"
proof -
  from get_asn1_derD[OF assms] obtain t' contents r where d: "cbs_view c = der_element t' contents @ r"
    "length contents < 2 ^ 32" "(ucast t :: u32) = ucast t'"
    "out = CBS_init (cbs_buf c) (cbs_off c + 1 + length (der_len (length contents))) (length contents)"
    "c' = cbs_adv (length (der_element t' contents)) c" .
  have "length (der_element t' contents) \<le> cbs_len c"
    using d(1) length_cbs_view[OF assms(1)] by simp
  then show ?thesis
    using that d cbs_view_contents[OF assms(1) d(1)] assms(1) by simp
qed

text \<open>
  The identifier of a digest, with its parameters \<^verbatim>\<open>NULL\<close> or absent, and the windows the
  parser accepts: exactly those.
\<close>

definition digest_algorithm :: "evp_md \<Rightarrow> u8 list \<Rightarrow> u8 list" where
  "digest_algorithm md params = der_element 0x30 (der_element 6 (digest_oid md) @ params)"

lemma length_der_element_short: "length bs < 128 \<Longrightarrow> length (der_element t bs) = 2 + length bs"
  by (simp add: der_element_def der_len_def)

lemma length_digest_algorithm:
  "params \<in> {[], der_element 5 []} \<Longrightarrow> length (der_element 6 (digest_oid md) @ params) < 2 ^ 32"
  using length_digest_oid[of md] by (auto simp: length_der_element_short)

lemma parse_digest_algorithm:
  assumes "cbs_wf c" "cbs_view c = digest_algorithm md params @ r" "md \<noteq> EVP_md5_sha1"
    "params \<in> {[], der_element 5 []}"
  shows "EVP_parse_digest_algorithm c = (Inr md, cbs_adv (length (digest_algorithm md params)) c)"
proof -
  note len = length_digest_algorithm[OF assms(4), of md]
  from get_asn1_view[OF assms(1) assms(2)[unfolded digest_algorithm_def] _ len] obtain alg where
    alg: "CBS_get_asn1 c CBS_ASN1_SEQUENCE = (Some alg, cbs_adv (length (digest_algorithm md params)) c)"
    "cbs_wf alg" "cbs_view alg = der_element 6 (digest_oid md) @ params"
    by (auto simp: asn1_tags digest_algorithm_def)
  have l9: "length (digest_oid md) < 2 ^ 32" using length_digest_oid[of md] by simp
  from get_asn1_view[OF alg(2,3) _ l9] obtain oid where
    oid: "CBS_get_asn1 alg CBS_ASN1_OBJECT = (Some oid, cbs_adv (length (der_element 6 (digest_oid md))) alg)"
    "cbs_wf oid" "cbs_view oid = digest_oid md"
    by (auto simp: asn1_tags)
  let ?alg = "cbs_adv (length (der_element 6 (digest_oid md))) alg"
  have le: "length (der_element 6 (digest_oid md)) \<le> cbs_len alg"
    using alg(3) length_cbs_view[OF alg(2)] by simp
  have alg': "cbs_wf ?alg" "cbs_view ?alg = params" using alg(2,3) le by simp_all
  have md: "cbs_to_md oid = Some md" using cbs_to_md_iff[OF oid(2)] oid(3) assms(3) by simp
  show ?thesis
  proof (cases "params = []")
    case True
    then have "CBS_len ?alg = 0" using alg' length_cbs_view[OF alg'(1)] by (simp add: CBS_len_def)
    then show ?thesis using alg(1) oid(1) md by (simp add: EVP_parse_digest_algorithm_def)
  next
    case False
    then have p: "cbs_view ?alg = der_element 5 [] @ []" using alg'(2) assms(4) by simp
    then have "CBS_len ?alg = length (der_element 5 [])"
      using length_cbs_view[OF alg'(1)] by (simp add: CBS_len_def)
    moreover from get_asn1_view[OF alg'(1) p] obtain param where
      "CBS_get_asn1 ?alg CBS_ASN1_NULL = (Some param, cbs_adv (length (der_element 5 [])) ?alg)" "cbs_len param = 0"
      by (auto simp: asn1_tags)
    ultimately show ?thesis using alg(1) oid(1) md
      by (simp add: EVP_parse_digest_algorithm_def CBS_len_def length_der_element_short)
  qed
qed

lemma parse_digest_algorithmD:
  assumes "cbs_wf c" "EVP_parse_digest_algorithm c = (Inr md, c')"
  obtains params r where "cbs_view c = digest_algorithm md params @ r" "md \<noteq> EVP_md5_sha1"
    "params \<in> {[], der_element 5 []}"
proof -
  from assms(2) obtain alg c1 oid alg1 where
    alg: "CBS_get_asn1 c CBS_ASN1_SEQUENCE = (Some alg, c1)"
    and oid: "CBS_get_asn1 alg CBS_ASN1_OBJECT = (Some oid, alg1)" and md: "cbs_to_md oid = Some md"
    and params: "CBS_len alg1 > 0 \<longrightarrow> (\<exists>param alg2.
      CBS_get_asn1 alg1 CBS_ASN1_NULL = (Some param, alg2) \<and> cbs_len param = 0 \<and> cbs_len alg2 = 0)"
    by (auto simp: EVP_parse_digest_algorithm_def CBS_len_def split: prod.splits option.splits if_splits)
  from get_asn1_viewD[OF assms(1) alg[unfolded asn1_tags]] obtain contents r where
    c: "cbs_view c = der_element 0x30 contents @ r" "cbs_wf alg" "cbs_view alg = contents" .
  from get_asn1_viewD[OF c(2) oid[unfolded asn1_tags]] obtain o' p where
    a: "cbs_view alg = der_element 6 o' @ p" "cbs_wf oid" "cbs_view oid = o'" "cbs_wf alg1" "cbs_view alg1 = p" .
  have m: "md \<noteq> EVP_md5_sha1" "o' = digest_oid md" using cbs_to_md_iff[OF a(2), of md] md a(3) by auto
  have "p \<in> {[], der_element 5 []}"
  proof (cases "CBS_len alg1 > 0")
    case False
    then show ?thesis using a(5) length_cbs_view[OF a(4)] by (simp add: CBS_len_def)
  next
    case True
    then obtain param alg2 where q: "CBS_get_asn1 alg1 CBS_ASN1_NULL = (Some param, alg2)"
      "cbs_len param = 0" "cbs_len alg2 = 0" using params by blast
    from get_asn1_viewD[OF a(4) q(1)[unfolded asn1_tags]] obtain n s where
      n: "cbs_view alg1 = der_element 5 n @ s" "cbs_len param = length n" "cbs_wf alg2" "cbs_view alg2 = s" .
    then show ?thesis using q(2,3) length_cbs_view[OF n(3)] a(5) by simp
  qed
  then show ?thesis using that[of p r] c a(1) m by (simp add: digest_algorithm_def)
qed

section \<open>The builder, one call after another\<close>

definition reaches :: "sys_malloc \<Rightarrow> nat set \<Rightarrow> cbb_world \<Rightarrow> bool cbb_result \<Rightarrow> frame list \<Rightarrow> bool" where
  "reaches sys A w m fs \<longleftrightarrow> (\<exists>ok w'. m = Some (ok, w') \<and> promise sys w (Some fs) A {} ok w')"

lemma reachesI:
  assumes "\<exists>ok w'. m = Some (ok, w') \<and> promise sys w (Some fs) A' S ok w'" "A' \<subseteq> A"
  shows "reaches sys A w m fs"
proof -
  from assms(1) obtain ok w' where m: "m = Some (ok, w')" "promise sys w (Some fs) A' S ok w'" by blast
  from promise_weaken[OF m(2) assms(2), of "{}"] m(1) show ?thesis by (auto simp: reaches_def)
qed

lemma reaches_then:
  assumes "reaches sys A w m fs1" "\<And>w1. rep w1 fs1 \<Longrightarrow> reaches sys A w1 (f w1) fs2"
    and "length (flat fs1) \<le> length (flat fs2)"
  shows "reaches sys A w (and_then m f) fs2"
proof -
  from assms(1) obtain ok w' where m: "m = Some (ok, w')" "promise sys w (Some fs1) A {} ok w'"
    by (auto simp: reaches_def)
  have "\<exists>ok w2. and_then m f = Some (ok, w2) \<and> promise sys w (Some fs2) (A \<union> A) ({} - A \<union> {}) ok w2"
    by (rule promise_seq[OF m _ assms(3)]) (use assms(2) in \<open>auto simp: reaches_def\<close>)
  then show ?thesis by (simp add: reaches_def)
qed

lemma reaches_add_asn1:
  assumes "malloc_bounded sys" "rep w (pre @ (p, k, bs) # fs)" "q \<notin> insert p (fst ` set pre)" "der_tag_ok t"
    "close_frames fs = Some ts" "insert q (insert p (fst ` set fs)) \<subseteq> A"
  shows "reaches sys A w (CBB_add_asn1 sys w p q (ucast t)) (pre @ [(p, k, bs @ ts @ [t]), (q, Asn1, [])])"
  using CBB_add_asn1_rep[OF assms(1-4)] assms(5)
  by (intro reachesI[OF _ assms(6)]) (simp add: opened_def)

lemma reaches_add_bytes:
  assumes "malloc_bounded sys" "rep w (pre @ [(p, k, bs)])" "length data + 8 < 2 ^ 63" "p \<in> A"
  shows "reaches sys A w (CBB_add_bytes sys w p data) (pre @ [(p, k, bs @ data)])"
  using CBB_add_bytes_rep[OF assms(1,2,3)] assms(4)
  by (auto simp: reaches_def write_promise_iff intro: promise_weaken)

lemma reaches_flush:
  assumes "malloc_bounded sys" "rep w (pre @ (p, k, bs) # fs)" "close_frames fs = Some ts"
    "insert p (fst ` set fs) \<subseteq> A"
  shows "reaches sys A w (CBB_flush sys w p) (pre @ [(p, k, bs @ ts)])"
  using CBB_flush_rep[OF assms(1,2)] assms(3)
  by (intro reachesI[OF _ assms(4)]) (simp add: flush_promise_iff appended_def)

lemma marshal_oid:
  "md \<noteq> EVP_md5_sha1 \<Longrightarrow>
   (case marshal_oid_loop sys w oid (EVP_MD_type md) kMDOIDs of
      None \<Rightarrow> None
    | Some (ok, found, w) \<Rightarrow> if \<not> ok then Some (False, w) else if \<not> found then Some (False, w) else f w) =
   and_then (CBB_add_bytes sys w oid (digest_oid md)) f"
  by (cases md) (simp_all add: kMDOIDs_def NID_defs EVP_MD_type_def md_oid_entry_def and_then_def
      split: option.split prod.split)

lemma marshal_no_oid:
  "marshal_oid_loop sys w oid (EVP_MD_type EVP_md5_sha1) kMDOIDs = Some (True, False, w)"
  by (simp add: kMDOIDs_def NID_defs EVP_MD_type_def)

lemma marshal_reaches:
  assumes sys: "malloc_bounded sys" and r: "rep w (pre @ [(p, k, c), (a, Asn1, [])])"
    and d: "distinct [a, oid, null]" "{a, oid, null} \<inter> insert p (fst ` set pre) = {}" and md: "md \<noteq> EVP_md5_sha1"
    and A: "{p, a, oid, null} \<subseteq> A"
  shows "reaches sys A w (and_then (CBB_add_asn1 sys w a oid CBS_ASN1_OBJECT) (\<lambda>w.
       and_then (CBB_add_bytes sys w oid (digest_oid md)) (\<lambda>w.
         and_then (CBB_add_asn1 sys w a null CBS_ASN1_NULL) (\<lambda>w. CBB_flush sys w p))))
     (pre @ [(p, k, c @ tl (digest_algorithm md (der_element 5 [])))])"
proof -
  let ?o = "digest_oid md"
  let ?F = "pre @ [(p, k, c)]"
  let ?T = "pre @ [(p, k, c @ tl (digest_algorithm md (der_element 5 [])))]"
  have l: "length ?o \<le> 9" by (rule length_digest_oid)
  then have dl: "der_len (length ?o) = [of_nat (length ?o)]" by (simp add: der_len_def)
  have flush: "reaches sys A w (CBB_flush sys w p) ?T"
    if "rep w (?F @ [(a, Asn1, (6 # der_len (length ?o) @ ?o) @ [5]), (null, Asn1, [])])" for w
  proof (rule reaches_flush[OF sys])
    show "rep w (pre @ (p, k, c) # [(a, Asn1, (6 # der_len (length ?o) @ ?o) @ [5]), (null, Asn1, [])])"
      using that by simp
    show "close_frames [(a, Asn1, (6 # der_len (length ?o) @ ?o) @ [5]), (null, Asn1, [])]
        = Some (tl (digest_algorithm md (der_element 5 [])))"
      using l by (simp add: digest_algorithm_def der_element_def dl) (simp add: der_len_def)
  qed (use A in auto)
  show ?thesis
  proof (rule reaches_then)
    show "reaches sys A w (CBB_add_asn1 sys w a oid CBS_ASN1_OBJECT) (?F @ [(a, Asn1, [] @ [] @ [6]), (oid, Asn1, [])])"
      unfolding asn1_tags using r d A by (intro reaches_add_asn1[OF sys, where fs="[]"]) auto
    fix w assume r: "rep w (?F @ [(a, Asn1, [] @ [] @ [6]), (oid, Asn1, [])])"
    show "reaches sys A w (and_then (CBB_add_bytes sys w oid ?o) (\<lambda>w.
         and_then (CBB_add_asn1 sys w a null CBS_ASN1_NULL) (\<lambda>w. CBB_flush sys w p))) ?T"
    proof (rule reaches_then)
      show "reaches sys A w (CBB_add_bytes sys w oid ?o) ((?F @ [(a, Asn1, [6])]) @ [(oid, Asn1, [] @ ?o)])"
        using r l A by (intro reaches_add_bytes[OF sys]) auto
      fix w assume r: "rep w ((?F @ [(a, Asn1, [6])]) @ [(oid, Asn1, [] @ ?o)])"
      show "reaches sys A w (and_then (CBB_add_asn1 sys w a null CBS_ASN1_NULL) (\<lambda>w. CBB_flush sys w p)) ?T"
      proof (rule reaches_then[OF _ flush])
        show "reaches sys A w (CBB_add_asn1 sys w a null CBS_ASN1_NULL)
            (?F @ [(a, Asn1, (6 # der_len (length ?o) @ ?o) @ [5]), (null, Asn1, [])])"
          using reaches_add_asn1[OF sys, of w ?F a Asn1 "[6]" "[(oid, Asn1, ?o)]" null 5 "der_len (length ?o) @ ?o" A]
            r d A l by (auto simp: asn1_tags)
      qed (use l in \<open>simp_all add: digest_algorithm_def der_element_def der_len_def\<close>)
    qed (use l in \<open>simp_all add: digest_algorithm_def der_element_def der_len_def\<close>)
  qed (use l in \<open>simp_all add: digest_algorithm_def der_element_def der_len_def\<close>)
qed

lemma marshal_promise:
  assumes sys: "malloc_bounded sys" and r: "rep w (pre @ (p, k, bs) # fs)"
    and d: "distinct [a, oid, null]" "{a, oid, null} \<inter> insert p (fst ` set pre) = {}" and md: "md \<noteq> EVP_md5_sha1"
  shows "\<exists>ok w'. EVP_marshal_digest_algorithm sys w p a oid null md = Some (ok, w') \<and>
    promise sys w (appended pre p k bs fs (digest_algorithm md (der_element 5 [])))
      ({p, a, oid, null} \<union> fst ` set fs) {} ok w'"
proof -
  let ?d = "tl (digest_algorithm md (der_element 5 []))"
  let ?A = "{p, a, oid, null}"
  let ?f = "\<lambda>w. and_then (CBB_add_asn1 sys w a oid CBS_ASN1_OBJECT) (\<lambda>w.
       and_then (CBB_add_bytes sys w oid (digest_oid md)) (\<lambda>w.
         and_then (CBB_add_asn1 sys w a null CBS_ASN1_NULL) (\<lambda>w. CBB_flush sys w p)))"
  let ?G = "\<lambda>fs. case rev fs of _ # (_, _, c) # _ \<Rightarrow> Some (pre @ [(p, k, c @ ?d)]) | _ \<Rightarrow> None"
  have eq: "EVP_marshal_digest_algorithm sys w p a oid null md = and_then (CBB_add_asn1 sys w p a CBS_ASN1_SEQUENCE) ?f"
    unfolding EVP_marshal_digest_algorithm_def marshal_oid[OF md] ..
  have a: "a \<notin> insert p (fst ` set pre)" using d(2) by auto
  from CBB_add_asn1_rep[OF sys r a, of "0x30"] obtain ok1 w1 where
    m: "CBB_add_asn1 sys w p a CBS_ASN1_SEQUENCE = Some (ok1, w1)"
      "promise sys w (opened pre p k bs fs [0x30] a Asn1) (insert a (insert p (fst ` set fs)))
        (fst ` set fs - {p, a}) ok1 w1"
    unfolding asn1_tags by auto
  have "\<exists>ok w2. and_then (CBB_add_asn1 sys w p a CBS_ASN1_SEQUENCE) ?f = Some (ok, w2) \<and>
    promise sys w (Option.bind (opened pre p k bs fs [0x30] a Asn1) ?G)
      (insert a (insert p (fst ` set fs)) \<union> ?A) (fst ` set fs - {p, a} - ?A \<union> {}) ok w2"
  proof (rule promise_then[OF m])
    fix fs1 w1
    assume f1: "opened pre p k bs fs [0x30] a Asn1 = Some fs1" and r1: "rep w1 fs1"
    then obtain ts where fs1: "fs1 = pre @ [(p, k, bs @ ts @ [0x30]), (a, Asn1, [])]" by (auto simp: opened_def)
    show "\<exists>ok w2. ?f w1 = Some (ok, w2) \<and> promise sys w1 (?G fs1) ?A {} ok w2"
      using marshal_reaches[OF sys r1[unfolded fs1] d md, of ?A] by (simp add: reaches_def fs1)
  qed (auto simp: opened_def digest_algorithm_def der_element_def der_len_def)
  moreover have "Option.bind (opened pre p k bs fs [0x30] a Asn1) ?G =
      appended pre p k bs fs (digest_algorithm md (der_element 5 []))"
    by (cases "close_frames fs") (simp_all add: appended_def opened_def digest_algorithm_def der_element_def)
  moreover have "insert a (insert p (fst ` set fs)) \<union> ?A = ?A \<union> fst ` set fs" by auto
  ultimately show ?thesis unfolding eq using promise_weaken by fastforce
qed

section \<open>What the module guarantees\<close>

text \<open>
  Property C8: writing a digest's \<^verbatim>\<open>AlgorithmIdentifier\<close> and reading it back is the identity.
  On any builder, \<^verbatim>\<open>EVP_marshal_digest_algorithm\<close> appends exactly the DER \<^verbatim>\<open>SEQUENCE\<close> of the
  digest's object identifier and a \<^verbatim>\<open>NULL\<close> (or fails for lack of room, in the error state), and
  \<^verbatim>\<open>EVP_parse_digest_algorithm\<close> on any window that starts with these bytes returns the digest
  and leaves the window behind them.
\<close>

theorem digest_algorithm_roundtrip:
  assumes "malloc_bounded sys" "rep w (pre @ (p, k, bs) # fs)"
    and "distinct [a, oid, null]" "{a, oid, null} \<inter> insert p (fst ` set pre) = {}" and "md \<noteq> EVP_md5_sha1"
  shows "(\<exists>ok w'. EVP_marshal_digest_algorithm sys w p a oid null md = Some (ok, w') \<and>
      promise sys w (appended pre p k bs fs (digest_algorithm md (der_element 5 [])))
        ({p, a, oid, null} \<union> fst ` set fs) {} ok w') \<and>
    (\<forall>c r. cbs_wf c \<longrightarrow> cbs_view c = digest_algorithm md (der_element 5 []) @ r \<longrightarrow>
      EVP_parse_digest_algorithm c = (Inr md, cbs_adv (length (digest_algorithm md (der_element 5 []))) c))"
  using marshal_promise[OF assms] parse_digest_algorithm[OF _ _ assms(5), of _ "der_element 5 []"] by auto

theorem digest_algorithm_roundtrip_witness:
  "(\<exists>ok w'. EVP_marshal_digest_algorithm (\<lambda>n. n < 1000)
     \<lparr>base = \<lparr>bb_buf = Some [], bb_len = 0, bb_cap = 0, bb_can_resize = True, bb_error = False\<rparr>,
      cbbs = \<lambda>_. \<lparr>cbb_base = True, cbb_child = None, cbb_offset = 0,
        cbb_pending_len_len = 0, cbb_pending_is_asn1 = False, cbb_is_top_level = True\<rparr>\<rparr> 3 4 5 6 EVP_sha1 = Some (ok, w') \<and>
    promise (\<lambda>n. n < 1000)
     \<lparr>base = \<lparr>bb_buf = Some [], bb_len = 0, bb_cap = 0, bb_can_resize = True, bb_error = False\<rparr>,
      cbbs = \<lambda>_. \<lparr>cbb_base = True, cbb_child = None, cbb_offset = 0,
        cbb_pending_len_len = 0, cbb_pending_is_asn1 = False, cbb_is_top_level = True\<rparr>\<rparr>
      (Some [(3, Top, [0x30, 9, 6, 5, 0x2b, 0x0e, 0x03, 0x02, 0x1a, 5, 0])]) {3, 4, 5, 6} {} ok w') \<and>
   EVP_parse_digest_algorithm (cbs_of ([0x30, 9, 6, 5, 0x2b, 0x0e, 0x03, 0x02, 0x1a, 5, 0] @ [7])) =
     (Inr EVP_sha1, cbs_adv 11 (cbs_of ([0x30, 9, 6, 5, 0x2b, 0x0e, 0x03, 0x02, 0x1a, 5, 0] @ [7])))"
proof -
  let ?w = "\<lparr>base = \<lparr>bb_buf = Some [], bb_len = 0, bb_cap = 0, bb_can_resize = True, bb_error = False\<rparr>,
      cbbs = \<lambda>_. \<lparr>cbb_base = True, cbb_child = None, cbb_offset = 0,
        cbb_pending_len_len = 0, cbb_pending_is_asn1 = False, cbb_is_top_level = True\<rparr>\<rparr> :: cbb_world"
  let ?d = "[0x30, 9, 6, 5, 0x2b, 0x0e, 0x03, 0x02, 0x1a, 5, 0] :: u8 list"
  have h: "malloc_bounded (\<lambda>n. n < 1000)" "rep ?w ([] @ (3, Top, []) # [])"
    "distinct [4, 5, 6 :: nat]" "{4, 5, 6} \<inter> insert 3 (fst ` set ([] :: frame list)) = {}" "EVP_sha1 \<noteq> EVP_md5_sha1"
    by (simp_all add: malloc_bounded_def rep_def kinds_ok_def cbb_ok_def buf_rep_def)
  have d: "digest_algorithm EVP_sha1 (der_element 5 []) = ?d"
    by (simp add: digest_algorithm_def der_element_def der_len_def)
  note th = digest_algorithm_roundtrip[OF h, unfolded d]
  have "EVP_parse_digest_algorithm (cbs_of (?d @ [7])) = (Inr EVP_sha1, cbs_adv (length ?d) (cbs_of (?d @ [7])))"
    by (rule th[THEN conjunct2, rule_format]) (rule cbs_wf_of, rule cbs_view_of)
  moreover have "length ?d = 11" by simp
  ultimately show ?thesis using th[THEN conjunct1] by (simp only: appended_Nil append_Nil) simp
qed

text \<open>
  Property C33: \<^verbatim>\<open>EVP_parse_digest_algorithm\<close> accepts exactly the DER \<^verbatim>\<open>AlgorithmIdentifier\<close>s of
  the known digests: the \<^verbatim>\<open>SEQUENCE\<close> of the object identifier of a digest and parameters that
  are \<^verbatim>\<open>NULL\<close> or omitted, nothing else inside; anything else is an error (another encoding, an
  unknown identifier, other or further parameters).
\<close>

theorem EVP_parse_digest_algorithm_iff:
  assumes "cbs_wf c"
  shows "fst (EVP_parse_digest_algorithm c) = Inr md \<longleftrightarrow>
    md \<noteq> EVP_md5_sha1 \<and> (\<exists>params r. cbs_view c = digest_algorithm md params @ r \<and> params \<in> {[], der_element 5 []})"
proof
  assume "fst (EVP_parse_digest_algorithm c) = Inr md"
  then have "EVP_parse_digest_algorithm c = (Inr md, snd (EVP_parse_digest_algorithm c))"
    by (simp add: prod_eq_iff)
  from parse_digest_algorithmD[OF assms this]
  show "md \<noteq> EVP_md5_sha1 \<and> (\<exists>params r. cbs_view c = digest_algorithm md params @ r \<and> params \<in> {[], der_element 5 []})"
    by blast
next
  assume "md \<noteq> EVP_md5_sha1 \<and> (\<exists>params r. cbs_view c = digest_algorithm md params @ r \<and> params \<in> {[], der_element 5 []})"
  then show "fst (EVP_parse_digest_algorithm c) = Inr md"
    using parse_digest_algorithm[OF assms] by fastforce
qed

theorem EVP_parse_digest_algorithm_iff_witness:
  "fst (EVP_parse_digest_algorithm (cbs_of [0x30, 7, 6, 5, 0x2b, 0x0e, 0x03, 0x02, 0x1a])) = Inr EVP_sha1"
proof -
  have "cbs_view (cbs_of [0x30, 7, 6, 5, 0x2b, 0x0e, 0x03, 0x02, 0x1a]) = digest_algorithm EVP_sha1 [] @ []"
    by (simp add: digest_algorithm_def der_element_def der_len_def)
  then show ?thesis
    using EVP_parse_digest_algorithm_iff[of "cbs_of [0x30, 7, 6, 5, 0x2b, 0x0e, 0x03, 0x02, 0x1a]" EVP_sha1]
    by (simp del: cbs_view_of) blast
qed

end
