(* ===== verification/Aes.thy ===== *)
theory Aes
  imports Aes_Tables "HOL-Library.Monad_Syntax"
begin

text \<open>
  \<^verbatim>\<open>crypto/fipsmodule/aes/aes.c\<close>, the C implementation by tables, which the pod compiles because it
  defines \<^verbatim>\<open>OPENSSL_NO_ASM\<close>: key schedules and single blocks. The pointer \<open>rk\<close> is an offset into the
  array of round keys; a read outside the array has no result. Both forms of the rounds are
  modelled, the loop and the one under \<^verbatim>\<open>FULL_UNROLL\<close>.
\<close>

section \<open>Key schedules\<close>

record AES_KEY =
  rd_key :: "u32 list"
  aes_rounds :: nat

text \<open>The four table lookups that start a group of words of the schedule.\<close>

definition key_core :: "u32 \<Rightarrow> nat \<Rightarrow> u32" where
  "key_core temp i =
     (Te2 ! unat (drop_bit 16 temp AND 0xff) AND 0xff000000) XOR
     (Te3 ! unat (drop_bit 8 temp AND 0xff) AND 0x00ff0000) XOR
     (Te0 ! unat (temp AND 0xff) AND 0x0000ff00) XOR
     (Te1 ! unat (drop_bit 24 temp) AND 0x000000ff) XOR rcon ! i"

text \<open>The bodies of the three loops, for the value \<open>i\<close>, with \<open>rk\<close> at offset \<open>p\<close>.\<close>

definition expand_128 :: "u32 list \<Rightarrow> nat \<Rightarrow> nat \<Rightarrow> u32 list" where
  "expand_128 rk p i =
     (let temp = rk ! (p + 3);
          rk = rk[p + 4 := rk ! p XOR key_core temp i];
          rk = rk[p + 5 := rk ! (p + 1) XOR rk ! (p + 4)];
          rk = rk[p + 6 := rk ! (p + 2) XOR rk ! (p + 5)]
      in rk[p + 7 := rk ! (p + 3) XOR rk ! (p + 6)])"

definition expand_192 :: "u32 list \<Rightarrow> nat \<Rightarrow> nat \<Rightarrow> u32 list" where
  "expand_192 rk p i =
     (let temp = rk ! (p + 5);
          rk = rk[p + 6 := rk ! p XOR key_core temp i];
          rk = rk[p + 7 := rk ! (p + 1) XOR rk ! (p + 6)];
          rk = rk[p + 8 := rk ! (p + 2) XOR rk ! (p + 7)];
          rk = rk[p + 9 := rk ! (p + 3) XOR rk ! (p + 8)]
      in if i + 1 = 8 then rk
         else
           let rk = rk[p + 10 := rk ! (p + 4) XOR rk ! (p + 9)]
           in rk[p + 11 := rk ! (p + 5) XOR rk ! (p + 10)])"

definition expand_256 :: "u32 list \<Rightarrow> nat \<Rightarrow> nat \<Rightarrow> u32 list" where
  "expand_256 rk p i =
     (let temp = rk ! (p + 7);
          rk = rk[p + 8 := rk ! p XOR key_core temp i];
          rk = rk[p + 9 := rk ! (p + 1) XOR rk ! (p + 8)];
          rk = rk[p + 10 := rk ! (p + 2) XOR rk ! (p + 9)];
          rk = rk[p + 11 := rk ! (p + 3) XOR rk ! (p + 10)]
      in if i + 1 = 7 then rk
         else
           let temp = rk ! (p + 11);
               rk = rk[p + 12 := rk ! (p + 4) XOR
                 (Te2 ! unat (drop_bit 24 temp) AND 0xff000000) XOR
                 (Te3 ! unat (drop_bit 16 temp AND 0xff) AND 0x00ff0000) XOR
                 (Te0 ! unat (drop_bit 8 temp AND 0xff) AND 0x0000ff00) XOR
                 (Te1 ! unat (temp AND 0xff) AND 0x000000ff)];
               rk = rk[p + 13 := rk ! (p + 5) XOR rk ! (p + 12)];
               rk = rk[p + 14 := rk ! (p + 6) XOR rk ! (p + 13)]
           in rk[p + 15 := rk ! (p + 7) XOR rk ! (p + 14)])"

text \<open>
  \<open>key\<close> is \<open>None\<close> when it is NULL; \<open>aeskey\<close> is not NULL. The loops run until the break in their
  body, which the number of iterations stands for.
\<close>

definition load_key :: "u32 list \<Rightarrow> u8 list \<Rightarrow> nat \<Rightarrow> u32 list" where
  "load_key rk key n = foldl (\<lambda>rk i. rk[i := GETU32 (drop (4 * i) key)]) rk [0..<n]"

definition AES_set_encrypt_key :: "u8 list option \<Rightarrow> nat \<Rightarrow> AES_KEY \<Rightarrow> int \<times> AES_KEY" where
  "AES_set_encrypt_key key bits aeskey =
     (case key of
        None \<Rightarrow> (-1, aeskey)
      | Some key \<Rightarrow>
          if bits = 128
          then (0, aeskey\<lparr>aes_rounds := 10,
            rd_key := foldl (\<lambda>rk i. expand_128 rk (4 * i) i) (load_key (rd_key aeskey) key 4) [0..<10]\<rparr>)
          else if bits = 192
          then (0, aeskey\<lparr>aes_rounds := 12,
            rd_key := foldl (\<lambda>rk i. expand_192 rk (6 * i) i) (load_key (rd_key aeskey) key 6) [0..<8]\<rparr>)
          else if bits = 256
          then (0, aeskey\<lparr>aes_rounds := 14,
            rd_key := foldl (\<lambda>rk i. expand_256 rk (8 * i) i) (load_key (rd_key aeskey) key 8) [0..<7]\<rparr>)
          else (-2, aeskey))"

text \<open>The order of the round keys is inverted, four words at a time.\<close>

definition swap_words :: "u32 list \<Rightarrow> nat \<Rightarrow> nat \<Rightarrow> u32 list" where
  "swap_words rk i j = (let temp = rk ! i; rk = rk[i := rk ! j] in rk[j := temp])"

function invert_order :: "u32 list \<Rightarrow> nat \<Rightarrow> nat \<Rightarrow> u32 list" where
  "invert_order rk i j =
     (if i < j
      then let rk = swap_words rk i j; rk = swap_words rk (i + 1) (j + 1);
               rk = swap_words rk (i + 2) (j + 2); rk = swap_words rk (i + 3) (j + 3)
           in invert_order rk (i + 4) (j - 4)
      else rk)"
  by pat_completeness auto

termination by (relation "measure (\<lambda>(rk, i, j). j - i)") auto

declare invert_order.simps [simp del]

definition inv_mix_word :: "u32 \<Rightarrow> u32" where
  "inv_mix_word w =
     Td0 ! unat (Te1 ! unat (drop_bit 24 w) AND 0xff) XOR
     Td1 ! unat (Te1 ! unat (drop_bit 16 w AND 0xff) AND 0xff) XOR
     Td2 ! unat (Te1 ! unat (drop_bit 8 w AND 0xff) AND 0xff) XOR
     Td3 ! unat (Te1 ! unat (w AND 0xff) AND 0xff)"

definition inv_mix_key :: "u32 list \<Rightarrow> nat \<Rightarrow> u32 list" where
  "inv_mix_key rk p =
     (let rk = rk[p := inv_mix_word (rk ! p)]; rk = rk[p + 1 := inv_mix_word (rk ! (p + 1))];
          rk = rk[p + 2 := inv_mix_word (rk ! (p + 2))]
      in rk[p + 3 := inv_mix_word (rk ! (p + 3))])"

definition AES_set_decrypt_key :: "u8 list option \<Rightarrow> nat \<Rightarrow> AES_KEY \<Rightarrow> int \<times> AES_KEY" where
  "AES_set_decrypt_key key bits aeskey =
     (let (status, aeskey) = AES_set_encrypt_key key bits aeskey
      in if status < 0 then (status, aeskey)
         else
           let rk = invert_order (rd_key aeskey) 0 (4 * aes_rounds aeskey);
               rk = foldl (\<lambda>rk i. inv_mix_key rk (4 * i)) rk [1..<aes_rounds aeskey]
           in (0, aeskey\<lparr>rd_key := rk\<rparr>))"

section \<open>Blocks\<close>

type_synonym aes_state = "u32 \<times> u32 \<times> u32 \<times> u32"

definition load_state :: "u8 list \<Rightarrow> u32 list \<Rightarrow> aes_state" where
  "load_state inp rk =
     (GETU32 inp XOR rk ! 0, GETU32 (drop 4 inp) XOR rk ! 1, GETU32 (drop 8 inp) XOR rk ! 2,
      GETU32 (drop 12 inp) XOR rk ! 3)"

definition store_state :: "aes_state \<Rightarrow> u8 list" where
  "store_state = (\<lambda>(s0, s1, s2, s3). PUTU32 s0 @ PUTU32 s1 @ PUTU32 s2 @ PUTU32 s3)"

text \<open>One word of a round, and a round with the keys from offset \<open>p\<close> on.\<close>

definition enc_word :: "u32 \<Rightarrow> u32 \<Rightarrow> u32 \<Rightarrow> u32 \<Rightarrow> u32 \<Rightarrow> u32" where
  "enc_word a b c d k =
     Te0 ! unat (drop_bit 24 a) XOR Te1 ! unat (drop_bit 16 b AND 0xff) XOR
     Te2 ! unat (drop_bit 8 c AND 0xff) XOR Te3 ! unat (d AND 0xff) XOR k"

definition enc_round :: "u32 list \<Rightarrow> nat \<Rightarrow> aes_state \<Rightarrow> aes_state" where
  "enc_round rk p = (\<lambda>(s0, s1, s2, s3).
     (enc_word s0 s1 s2 s3 (rk ! p), enc_word s1 s2 s3 s0 (rk ! (p + 1)),
      enc_word s2 s3 s0 s1 (rk ! (p + 2)), enc_word s3 s0 s1 s2 (rk ! (p + 3))))"

definition enc_last_word :: "u32 \<Rightarrow> u32 \<Rightarrow> u32 \<Rightarrow> u32 \<Rightarrow> u32 \<Rightarrow> u32" where
  "enc_last_word a b c d k =
     (Te2 ! unat (drop_bit 24 a) AND 0xff000000) XOR (Te3 ! unat (drop_bit 16 b AND 0xff) AND 0x00ff0000) XOR
     (Te0 ! unat (drop_bit 8 c AND 0xff) AND 0x0000ff00) XOR (Te1 ! unat (d AND 0xff) AND 0x000000ff) XOR k"

definition enc_last :: "u32 list \<Rightarrow> nat \<Rightarrow> aes_state \<Rightarrow> aes_state" where
  "enc_last rk p = (\<lambda>(t0, t1, t2, t3).
     (enc_last_word t0 t1 t2 t3 (rk ! p), enc_last_word t1 t2 t3 t0 (rk ! (p + 1)),
      enc_last_word t2 t3 t0 t1 (rk ! (p + 2)), enc_last_word t3 t0 t1 t2 (rk ! (p + 3))))"

definition dec_word :: "u32 \<Rightarrow> u32 \<Rightarrow> u32 \<Rightarrow> u32 \<Rightarrow> u32 \<Rightarrow> u32" where
  "dec_word a b c d k =
     Td0 ! unat (drop_bit 24 a) XOR Td1 ! unat (drop_bit 16 b AND 0xff) XOR
     Td2 ! unat (drop_bit 8 c AND 0xff) XOR Td3 ! unat (d AND 0xff) XOR k"

definition dec_round :: "u32 list \<Rightarrow> nat \<Rightarrow> aes_state \<Rightarrow> aes_state" where
  "dec_round rk p = (\<lambda>(s0, s1, s2, s3).
     (dec_word s0 s3 s2 s1 (rk ! p), dec_word s1 s0 s3 s2 (rk ! (p + 1)),
      dec_word s2 s1 s0 s3 (rk ! (p + 2)), dec_word s3 s2 s1 s0 (rk ! (p + 3))))"

definition dec_last_word :: "u32 \<Rightarrow> u32 \<Rightarrow> u32 \<Rightarrow> u32 \<Rightarrow> u32 \<Rightarrow> u32" where
  "dec_last_word a b c d k =
     push_bit 24 (ucast (Td4 ! unat (drop_bit 24 a))) XOR push_bit 16 (ucast (Td4 ! unat (drop_bit 16 b AND 0xff))) XOR
     push_bit 8 (ucast (Td4 ! unat (drop_bit 8 c AND 0xff))) XOR ucast (Td4 ! unat (d AND 0xff)) XOR k"

definition dec_last :: "u32 list \<Rightarrow> nat \<Rightarrow> aes_state \<Rightarrow> aes_state" where
  "dec_last rk p = (\<lambda>(t0, t1, t2, t3).
     (dec_last_word t0 t3 t2 t1 (rk ! p), dec_last_word t1 t0 t3 t2 (rk ! (p + 1)),
      dec_last_word t2 t1 t0 t3 (rk ! (p + 2)), dec_last_word t3 t2 t1 t0 (rk ! (p + 3))))"

text \<open>The loop \<^verbatim>\<open>for (;;)\<close> over pairs of rounds, with \<open>r\<close> pairs to do: the state \<open>t\<close> and the offset.\<close>

function round_loop :: "(nat \<Rightarrow> aes_state \<Rightarrow> aes_state) \<Rightarrow> nat \<Rightarrow> nat \<Rightarrow> aes_state \<Rightarrow> aes_state \<times> nat" where
  "round_loop rnd p r s =
     (let t = rnd (p + 4) s; p = p + 8; r = r - 1
      in if r = 0 then (t, p) else round_loop rnd p r (rnd p t))"
  by pat_completeness auto

termination by (relation "measure (\<lambda>(rnd, p, r, s). r)") auto

declare round_loop.simps [simp del]

text \<open>\<^verbatim>\<open>FULL_UNROLL\<close>: the same rounds written out, up to the number of rounds.\<close>

definition unrolled_rounds :: "(nat \<Rightarrow> aes_state \<Rightarrow> aes_state) \<Rightarrow> nat \<Rightarrow> aes_state \<Rightarrow> aes_state \<times> nat" where
  "unrolled_rounds rnd rounds s =
     (let t = rnd 4 s; s = rnd 8 t; t = rnd 12 s; s = rnd 16 t; t = rnd 20 s; s = rnd 24 t;
          t = rnd 28 s; s = rnd 32 t; t = rnd 36 s;
          t = (if rounds > 10
               then let s = rnd 40 t; t = rnd 44 s
                 in if rounds > 12 then let s = rnd 48 t in rnd 52 s else t
               else t)
      in (t, 4 * rounds))"

text \<open>Every round key that is read is inside the array, and the loop ends.\<close>

definition AES_MAXNR :: nat where "AES_MAXNR = 14"

definition key_readable :: "AES_KEY \<Rightarrow> bool" where
  "key_readable key \<longleftrightarrow> length (rd_key key) = 4 * (AES_MAXNR + 1) \<and> 2 \<le> aes_rounds key \<and> aes_rounds key \<le> AES_MAXNR"

definition AES_encrypt :: "u8 list \<Rightarrow> AES_KEY \<Rightarrow> u8 list option" where
  "AES_encrypt inp key = do {
     C_assert (key_readable key);
     let rk = rd_key key;
     let (t, p) = round_loop (enc_round rk) 0 (aes_rounds key div 2) (load_state inp rk);
     Some (store_state (enc_last rk p t)) }"

definition AES_encrypt_unrolled :: "u8 list \<Rightarrow> AES_KEY \<Rightarrow> u8 list option" where
  "AES_encrypt_unrolled inp key = do {
     C_assert (key_readable key);
     let rk = rd_key key;
     let (t, p) = unrolled_rounds (enc_round rk) (aes_rounds key) (load_state inp rk);
     Some (store_state (enc_last rk p t)) }"

definition AES_decrypt :: "u8 list \<Rightarrow> AES_KEY \<Rightarrow> u8 list option" where
  "AES_decrypt inp key = do {
     C_assert (key_readable key);
     let rk = rd_key key;
     let (t, p) = round_loop (dec_round rk) 0 (aes_rounds key div 2) (load_state inp rk);
     Some (store_state (dec_last rk p t)) }"

definition AES_decrypt_unrolled :: "u8 list \<Rightarrow> AES_KEY \<Rightarrow> u8 list option" where
  "AES_decrypt_unrolled inp key = do {
     C_assert (key_readable key);
     let rk = rd_key key;
     let (t, p) = unrolled_rounds (dec_round rk) (aes_rounds key) (load_state inp rk);
     Some (store_state (dec_last rk p t)) }"

end
