(* ===== verification/Aes_Spec.thy ===== *)
theory Aes_Spec
  imports Aes
begin

text \<open>
  FIPS 197: the cipher, its inverse and the key expansion on states of 16 bytes, and that the code
  of \<open>Aes\<close> computes them.
\<close>

section \<open>FIPS 197\<close>

text \<open>A state is its 16 bytes, column after column.\<close>

definition sub_bytes :: "u8 list \<Rightarrow> u8 list" where
  "sub_bytes s = map sbox s"

definition shift_rows :: "u8 list \<Rightarrow> u8 list" where
  "shift_rows s = map (\<lambda>i. s ! ((i + 4 * (i mod 4)) mod 16)) [0..<16]"

definition mix_column :: "u8 \<Rightarrow> u8 \<Rightarrow> u8 \<Rightarrow> u8 \<Rightarrow> u8 list" where
  "mix_column a b c d =
     [gmul 2 a XOR gmul 3 b XOR c XOR d, a XOR gmul 2 b XOR gmul 3 c XOR d,
      a XOR b XOR gmul 2 c XOR gmul 3 d, gmul 3 a XOR b XOR c XOR gmul 2 d]"

definition mix_columns :: "u8 list \<Rightarrow> u8 list" where
  "mix_columns s = concat (map (\<lambda>j. mix_column (s ! (4 * j)) (s ! (4 * j + 1)) (s ! (4 * j + 2)) (s ! (4 * j + 3))) [0..<4])"

definition inv_sub_bytes :: "u8 list \<Rightarrow> u8 list" where
  "inv_sub_bytes s = map inv_sbox s"

definition inv_shift_rows :: "u8 list \<Rightarrow> u8 list" where
  "inv_shift_rows s = map (\<lambda>i. s ! ((i + 12 * (i mod 4)) mod 16)) [0..<16]"

definition inv_mix_column :: "u8 \<Rightarrow> u8 \<Rightarrow> u8 \<Rightarrow> u8 \<Rightarrow> u8 list" where
  "inv_mix_column a b c d =
     [gmul 0xe a XOR gmul 0xb b XOR gmul 0xd c XOR gmul 9 d, gmul 9 a XOR gmul 0xe b XOR gmul 0xb c XOR gmul 0xd d,
      gmul 0xd a XOR gmul 9 b XOR gmul 0xe c XOR gmul 0xb d, gmul 0xb a XOR gmul 0xd b XOR gmul 9 c XOR gmul 0xe d]"

definition inv_mix_columns :: "u8 list \<Rightarrow> u8 list" where
  "inv_mix_columns s = concat (map (\<lambda>j. inv_mix_column (s ! (4 * j)) (s ! (4 * j + 1)) (s ! (4 * j + 2)) (s ! (4 * j + 3))) [0..<4])"

text \<open>The words of round key \<open>r\<close> as bytes.\<close>

definition round_key :: "(nat \<Rightarrow> u32) \<Rightarrow> nat \<Rightarrow> u8 list" where
  "round_key w r = concat (map (\<lambda>c. PUTU32 (w (4 * r + c))) [0..<4])"

definition cipher :: "nat \<Rightarrow> (nat \<Rightarrow> u32) \<Rightarrow> u8 list \<Rightarrow> u8 list" where
  "cipher nr w inp =
     (let s = xor_bytes inp (round_key w 0);
          s = foldl (\<lambda>s r. xor_bytes (mix_columns (shift_rows (sub_bytes s))) (round_key w r)) s [1..<nr]
      in xor_bytes (shift_rows (sub_bytes s)) (round_key w nr))"

definition inv_cipher :: "nat \<Rightarrow> (nat \<Rightarrow> u32) \<Rightarrow> u8 list \<Rightarrow> u8 list" where
  "inv_cipher nr w inp =
     (let s = xor_bytes inp (round_key w nr);
          s = foldl (\<lambda>s r. inv_mix_columns (xor_bytes (inv_sub_bytes (inv_shift_rows s)) (round_key w r))) s (rev [1..<nr])
      in xor_bytes (inv_sub_bytes (inv_shift_rows s)) (round_key w 0))"

text \<open>The key expansion, for a key of \<open>nk\<close> words.\<close>

definition sub_word :: "u32 \<Rightarrow> u32" where
  "sub_word w = GETU32 (map sbox (PUTU32 w))"

definition rot_word :: "u32 \<Rightarrow> u32" where
  "rot_word w = GETU32 (rotate1 (PUTU32 w))"

fun key_word :: "nat \<Rightarrow> u8 list \<Rightarrow> nat \<Rightarrow> u32" where
  "key_word nk key i =
     (if i < nk \<or> nk = 0 then GETU32 (drop (4 * i) key)
      else
        let temp = key_word nk key (i - 1);
            temp = (if i mod nk = 0 then sub_word (rot_word temp) XOR GETU32 [x_power (i div nk - 1), 0, 0, 0]
                    else if nk > 6 \<and> i mod nk = 4 then sub_word temp else temp)
        in key_word nk key (i - nk) XOR temp)"

declare key_word.simps [simp del]

section \<open>Columns and states\<close>

lemma GETU32_column: "GETU32 (a # b # c # d # xs) = column a b c d"
  by (simp add: GETU32_def be_val_Cons column_eval)

lemma column_cases:
  obtains a b c d where "w = column a b c d"
proof
  show "w = column (ucast (drop_bit 24 w)) (ucast (drop_bit 16 w)) (ucast (drop_bit 8 w)) (ucast w)"
  proof (rule bit_word_eqI)
    fix n assume "n < LENGTH(32)"
    then show "bit w n = bit (column (ucast (drop_bit 24 w)) (ucast (drop_bit 16 w)) (ucast (drop_bit 8 w)) (ucast w)) n"
      by (cases "n < 8"; cases "n < 16"; cases "n < 24") (auto simp: bit_column bit_simps not_less)
  qed
qed

lemma PUTU32_column: "PUTU32 (column a b c d) = [a, b, c, d]"
proof -
  have "be_bytes 4 (be_val [a, b, c, d]) = [a, b, c, d]" by (rule be_bytes_be_val) simp
  moreover have "be_val [a, b, c, d] < 2 ^ 32" using be_val_lt[of "[a, b, c, d]"] by simp
  then have "unat (of_nat (be_val [a, b, c, d]) :: u32) = be_val [a, b, c, d]" by (simp add: unat_of_nat)
  moreover have "column a b c d = of_nat (be_val [a, b, c, d])"
    using GETU32_column[of a b c d "[]"] by (simp add: GETU32_def)
  ultimately show ?thesis by (simp only: PUTU32_def)
qed

lemma and_ff_32: "(w :: u32) AND 0xff = ucast (ucast w :: u8)"
proof -
  have m: "(0xff :: u32) = mask 8" by (simp add: mask_eq_exp_minus_1)
  show ?thesis unfolding m by (rule bit_word_eqI) (auto simp: bit_simps)
qed

text \<open>The indices of the tables.\<close>

lemma column_indices:
  "unat (drop_bit 24 (column a b c d)) = unat a" "unat (drop_bit 16 (column a b c d) AND 0xff) = unat b"
  "unat (drop_bit 8 (column a b c d) AND 0xff) = unat c" "unat (column a b c d AND 0xff) = unat d"
  "unat (column 0 0 0 d) = unat d"
proof -
  have "drop_bit 24 (column a b c d) = ucast a"
    by (rule bit_word_eqI) (auto simp: bit_column bit_simps dest: bit_imp_le_length)
  then show "unat (drop_bit 24 (column a b c d)) = unat a" by (simp add: unat_ucast_u8_u32)
  show "unat (column 0 0 0 d) = unat d" by (simp add: column_def unat_ucast_u8_u32)
qed (simp_all add: and_ff_32 column_bytes unat_ucast_u8_u32)

lemma column_masks:
  "column a b c d AND 0xff000000 = column a 0 0 0" "column a b c d AND 0x00ff0000 = column 0 b 0 0"
  "column a b c d AND 0x0000ff00 = column 0 0 c 0" "column a b c d AND 0x000000ff = column 0 0 0 d"
proof -
  have and_col: "column a b c d AND column a' b' c' d' = column (a AND a') (b AND b') (c AND c') (d AND d')" for a' b' c' d'
    by (rule bit_word_eqI) (auto simp: bit_column bit_and_iff)
  have m: "column 0xff 0 0 0 = 0xff000000" "column 0 0xff 0 0 = 0x00ff0000"
    "column 0 0 0xff 0 = 0x0000ff00" "column 0 0 0 0xff = 0x000000ff" by (simp_all add: column_eval)
  show "column a b c d AND 0xff000000 = column a 0 0 0" "column a b c d AND 0x00ff0000 = column 0 b 0 0"
    "column a b c d AND 0x0000ff00 = column 0 0 c 0" "column a b c d AND 0x000000ff = column 0 0 0 d"
    unfolding m[symmetric] and_col and_ff by simp_all
qed

lemma column_td4: "ucast d = column 0 0 0 d" "push_bit 24 (column 0 0 0 a) = column a 0 0 0"
  "push_bit 16 (column 0 0 0 b) = column 0 b 0 0" "push_bit 8 (column 0 0 0 c) = column 0 0 c 0"
  by (simp_all add: column_def)

lemmas column_simps = column_indices column_masks column_xor PUTU32_column GETU32_column

definition cols :: "u8 list \<Rightarrow> aes_state" where
  "cols s =
     (column (s ! 0) (s ! 1) (s ! 2) (s ! 3), column (s ! 4) (s ! 5) (s ! 6) (s ! 7),
      column (s ! 8) (s ! 9) (s ! 10) (s ! 11), column (s ! 12) (s ! 13) (s ! 14) (s ! 15))"

lemma length_16_cases:
  assumes "length s = 16"
  obtains a0 a1 a2 a3 a4 a5 a6 a7 a8 a9 a10 a11 a12 a13 a14 a15 where
    "s = [a0, a1, a2, a3, a4, a5, a6, a7, a8, a9, a10, a11, a12, a13, a14, a15]"
proof -
  have "s = map ((!) s) [0..<16]" using map_nth[of s] assms by simp
  also have "[0..<16] = [0, 1, 2, 3, 4, 5, 6, 7, 8, 9, 10, 11, 12, 13, 14, 15 :: nat]" by (simp add: upt_rec)
  finally show thesis by (intro that) simp
qed

lemma upt_16: "[0..<16] = [0, 1, 2, 3, 4, 5, 6, 7, 8, 9, 10, 11, 12, 13, 14, 15 :: nat]"
  by (simp add: upt_rec)

lemma upt_4: "[0..<4] = [0, 1, 2, 3 :: nat]"
  by (simp add: upt_rec)

lemma store_cols: "length s = 16 \<Longrightarrow> store_state (cols s) = s"
  by (erule length_16_cases) (simp add: store_state_def cols_def PUTU32_column)

text \<open>The round key at offset \<open>p\<close>.\<close>

definition key_at :: "u32 list \<Rightarrow> nat \<Rightarrow> u8 list" where
  "key_at rk p = PUTU32 (rk ! p) @ PUTU32 (rk ! (p + 1)) @ PUTU32 (rk ! (p + 2)) @ PUTU32 (rk ! (p + 3))"

lemma key_at_cases:
  obtains a0 a1 a2 a3 a4 a5 a6 a7 a8 a9 a10 a11 a12 a13 a14 a15 where
    "rk ! p = column a0 a1 a2 a3" "rk ! (p + 1) = column a4 a5 a6 a7"
    "rk ! (p + 2) = column a8 a9 a10 a11" "rk ! (p + 3) = column a12 a13 a14 a15"
    "key_at rk p = [a0, a1, a2, a3, a4, a5, a6, a7, a8, a9, a10, a11, a12, a13, a14, a15]"
proof -
  obtain a0 a1 a2 a3 where 0: "rk ! p = column a0 a1 a2 a3" by (rule column_cases)
  obtain a4 a5 a6 a7 where 1: "rk ! (p + 1) = column a4 a5 a6 a7" by (rule column_cases)
  obtain a8 a9 a10 a11 where 2: "rk ! (p + 2) = column a8 a9 a10 a11" by (rule column_cases)
  obtain a12 a13 a14 a15 where 3: "rk ! (p + 3) = column a12 a13 a14 a15" by (rule column_cases)
  have "key_at rk p = [a0, a1, a2, a3, a4, a5, a6, a7, a8, a9, a10, a11, a12, a13, a14, a15]"
    unfolding key_at_def 0 1 2 3 PUTU32_column by simp
  with 0 1 2 3 show thesis by (rule that)
qed

lemma xor_bytes_simps [simp]:
  "xor_bytes [] ys = []" "xor_bytes (x # xs) (y # ys) = (x XOR y) # xor_bytes xs ys"
  by (simp_all add: xor_bytes_def)

section \<open>Rounds\<close>

lemmas spec_steps = sub_bytes_def shift_rows_def mix_columns_def mix_column_def
  inv_sub_bytes_def inv_shift_rows_def inv_mix_columns_def inv_mix_column_def upt_16 upt_4

lemma enc_round_cols:
  assumes "length s = 16"
  shows "enc_round rk p (cols s) = cols (xor_bytes (mix_columns (shift_rows (sub_bytes s))) (key_at rk p))"
  by (rule length_16_cases[OF assms], rule key_at_cases[of rk p])
    (simp add: enc_round_def enc_word_def cols_def column_simps Te_lookup spec_steps xor.assoc)

lemma enc_last_cols:
  assumes "length s = 16"
  shows "enc_last rk p (cols s) = cols (xor_bytes (shift_rows (sub_bytes s)) (key_at rk p))"
  by (rule length_16_cases[OF assms], rule key_at_cases[of rk p])
    (simp add: enc_last_def enc_last_word_def cols_def column_simps Te_lookup spec_steps xor.assoc)

lemma dec_round_cols:
  assumes "length s = 16"
  shows "dec_round rk p (cols s) = cols (xor_bytes (inv_mix_columns (inv_sub_bytes (inv_shift_rows s))) (key_at rk p))"
  by (rule length_16_cases[OF assms], rule key_at_cases[of rk p])
    (simp add: dec_round_def dec_word_def cols_def column_simps Td_lookup spec_steps xor.assoc)

lemma dec_last_cols:
  assumes "length s = 16"
  shows "dec_last rk p (cols s) = cols (xor_bytes (inv_sub_bytes (inv_shift_rows s)) (key_at rk p))"
  by (rule length_16_cases[OF assms], rule key_at_cases[of rk p])
    (simp add: dec_last_def dec_last_word_def cols_def column_simps Td4_inv_sbox column_td4 spec_steps xor.assoc)

lemma load_state_cols:
  assumes "length s = 16"
  shows "load_state s rk = cols (xor_bytes s (key_at rk 0))"
  by (rule length_16_cases[OF assms], rule key_at_cases[of rk 0])
    (simp add: load_state_def cols_def column_simps numeral_eq_Suc)

section \<open>The block functions\<close>

lemma lengths:
  "length (shift_rows s) = 16" "length (inv_shift_rows s) = 16"
  "length (mix_columns s) = 16" "length (inv_mix_columns s) = 16"
  "length (sub_bytes s) = length s" "length (inv_sub_bytes s) = length s"
  by (simp_all add: spec_steps)

lemma length_key_at [simp]: "length (key_at rk p) = 16"
  by (simp add: key_at_def PUTU32_def)

text \<open>The loop is the sequence of the rounds, one round key after the other.\<close>

lemma round_loop_fold:
  "round_loop rnd (4 * q) (Suc r) s =
     (foldl (\<lambda>s j. rnd (4 * j) s) s [q + 1..<q + 2 * r + 2], 4 * (q + 2 * r + 2))"
proof (induction r arbitrary: q s)
  case 0
  show ?case by (subst round_loop.simps) (simp add: Let_def algebra_simps)
next
  case (Suc r)
  have u: "[q + 1..<q + 2 * Suc r + 2] = (q + 1) # (q + 2) # [(q + 2) + 1..<(q + 2) + 2 * r + 2]"
    by (simp add: upt_conv_Cons)
  have "round_loop rnd (4 * q) (Suc (Suc r)) s = round_loop rnd (4 * (q + 2)) (Suc r) (rnd (4 * (q + 2)) (rnd (4 * (q + 1)) s))"
    by (subst round_loop.simps) (simp add: Let_def algebra_simps)
  then show ?case unfolding Suc.IH u by (simp add: algebra_simps)
qed

lemma round_loop_rounds:
  assumes "nr \<in> {10, 12, 14}"
  shows "round_loop rnd 0 (nr div 2) s = (foldl (\<lambda>s j. rnd (4 * j) s) s [1..<nr], 4 * nr)"
  using assms round_loop_fold[of rnd 0 4 s] round_loop_fold[of rnd 0 5 s] round_loop_fold[of rnd 0 6 s] by auto

lemma unrolled_eq_loop:
  assumes "nr \<in> {10, 12, 14}"
  shows "unrolled_rounds rnd nr s = round_loop rnd 0 (nr div 2) s"
proof -
  have u: "[1..<10] = [1, 2, 3, 4, 5, 6, 7, 8, 9 :: nat]" "[1..<12] = [1, 2, 3, 4, 5, 6, 7, 8, 9, 10, 11 :: nat]"
    "[1..<14] = [1, 2, 3, 4, 5, 6, 7, 8, 9, 10, 11, 12, 13 :: nat]" by (simp_all add: upt_rec)
  consider "nr = 10" | "nr = 12" | "nr = 14" using assms by auto
  then show ?thesis
    unfolding round_loop_rounds[OF assms] by cases (simp_all only: u foldl.simps, simp_all add: unrolled_rounds_def Let_def)
qed

lemma rounds_cols:
  assumes "\<And>s p. length s = 16 \<Longrightarrow> rnd rk p (cols s) = cols (xor_bytes (f s) (key_at rk p))"
    and "\<And>s. length s = 16 \<Longrightarrow> length (f s) = 16"
  shows "length s = 16 \<Longrightarrow>
    foldl (\<lambda>s j. rnd rk (4 * j) s) (cols s) rs = cols (foldl (\<lambda>s j. xor_bytes (f s) (key_at rk (4 * j))) s rs) \<and>
    length (foldl (\<lambda>s j. xor_bytes (f s) (key_at rk (4 * j))) s rs) = 16"
  by (induction rs arbitrary: s) (simp_all add: assms)

lemma key_at_round_key:
  assumes "\<And>c. c < 4 \<Longrightarrow> rk ! (p + c) = w (4 * r + c)"
  shows "key_at rk p = round_key w r"
  using assms[of 0] assms[of 1] assms[of 2] assms[of 3] by (simp add: key_at_def round_key_def upt_4)

definition expanded :: "AES_KEY \<Rightarrow> nat \<Rightarrow> (nat \<Rightarrow> u32) \<Rightarrow> bool" where
  "expanded key nr w \<longleftrightarrow>
     nr \<in> {10, 12, 14} \<and> aes_rounds key = nr \<and> length (rd_key key) = 60 \<and>
     (\<forall>i < 4 * (nr + 1). rd_key key ! i = w i)"

lemma expanded_readable: "expanded key nr w \<Longrightarrow> key_readable key"
  by (auto simp: expanded_def key_readable_def AES_MAXNR_def)

lemma expanded_round_key: "expanded key nr w \<Longrightarrow> r \<le> nr \<Longrightarrow> key_at (rd_key key) (4 * r) = round_key w r"
  by (rule key_at_round_key) (auto simp: expanded_def)

lemma foldl_upt_cong: "(\<And>s r. r \<in> set rs \<Longrightarrow> f s r = g s r) \<Longrightarrow> foldl f s rs = foldl g s rs"
  by (rule foldl_cong) simp_all

lemma AES_encrypt_cipher:
  assumes k: "expanded key nr w" and l: "length inp = 16"
  shows "AES_encrypt inp key = Some (cipher nr w inp)"
proof -
  let ?rk = "rd_key key"
  have nr: "nr \<in> {10, 12, 14}" "aes_rounds key = nr" using k by (auto simp: expanded_def)
  let ?f = "\<lambda>s. mix_columns (shift_rows (sub_bytes s))"
  let ?init = "xor_bytes inp (round_key w 0)"
  let ?s = "foldl (\<lambda>s r. xor_bytes (?f s) (round_key w r)) ?init [1..<nr]"
  have start: "load_state inp ?rk = cols ?init"
    using load_state_cols[OF l, of ?rk] expanded_round_key[OF k, of 0] by simp
  have ls0: "length ?init = 16" using l expanded_round_key[OF k, of 0] by (metis length_key_at length_xor_bytes le0 min.idem)
  have keys: "foldl (\<lambda>s j. xor_bytes (?f s) (key_at ?rk (4 * j))) ?init [1..<nr] = ?s"
    by (rule foldl_upt_cong) (simp add: expanded_round_key[OF k])
  from rounds_cols[of enc_round ?rk ?f, OF enc_round_cols _ ls0, of "[1..<nr]"]
  have rounds: "foldl (\<lambda>s j. enc_round ?rk (4 * j) s) (cols ?init) [1..<nr] = cols ?s" "length ?s = 16"
    unfolding keys by (simp_all add: lengths)
  show ?thesis
    using expanded_readable[OF k] rounds round_loop_rounds[OF nr(1), of "enc_round ?rk" "cols ?init"]
      expanded_round_key[OF k, of nr]
    by (simp add: AES_encrypt_def nr(2) start enc_last_cols store_cols cipher_def Let_def lengths)
qed

section \<open>The inverse cipher\<close>

lemma shift_rows_inverse: "length s = 16 \<Longrightarrow> inv_shift_rows (shift_rows s) = s"
  by (erule length_16_cases) (simp add: spec_steps)

lemma inv_sub_bytes_shift_rows: "inv_sub_bytes (inv_shift_rows s) = inv_shift_rows (inv_sub_bytes s)" if "length s = 16"
  using that by (elim length_16_cases) (simp add: spec_steps)

lemma sub_shift_inverse: "length s = 16 \<Longrightarrow> inv_sub_bytes (inv_shift_rows (shift_rows (sub_bytes s))) = s"
  by (simp add: shift_rows_inverse lengths) (simp add: sub_bytes_def inv_sub_bytes_def inv_sbox_sbox map_idI)

lemma mix_column_inverse:
  assumes "mix_column a b c d = [a', b', c', d']"
  shows "inv_mix_column a' b' c' d' = [a, b, c, d]"
  using assms by (auto simp: mix_column_def inv_mix_column_def gmul_small xtime_xor ac_simps)

lemma mix_columns_inverse: "length s = 16 \<Longrightarrow> inv_mix_columns (mix_columns s) = s"
  by (erule length_16_cases)
    (simp add: mix_columns_def inv_mix_columns_def upt_4 mix_column_def mix_column_inverse[unfolded mix_column_def])

lemma inv_mix_columns_xor:
  "length s = 16 \<Longrightarrow> length t = 16 \<Longrightarrow>
   inv_mix_columns (xor_bytes s t) = xor_bytes (inv_mix_columns s) (inv_mix_columns t)"
  by (elim length_16_cases) (simp add: spec_steps gmul_xor ac_simps)

lemma xor_bytes_cancel: "length s = length k \<Longrightarrow> xor_bytes (xor_bytes s k) k = s"
  by (rule nth_equalityI) (simp_all add: nth_xor_bytes xor.assoc)

lemma length_round_key [simp]: "length (round_key w r) = 16"
  by (simp add: round_key_def upt_4 PUTU32_def)

lemma rounds_inverse:
  fixes w :: "nat \<Rightarrow> u32"
  defines "F \<equiv> \<lambda>s r. xor_bytes (mix_columns (shift_rows (sub_bytes s))) (round_key w r)"
    and "G \<equiv> \<lambda>s r. inv_mix_columns (xor_bytes (inv_sub_bytes (inv_shift_rows s)) (round_key w r))"
  assumes "length s = 16"
  shows "foldl G (shift_rows (sub_bytes (foldl F s rs))) (rev rs) = shift_rows (sub_bytes s)"
    and "length (foldl F s rs) = 16"
proof (induction rs rule: rev_induct)
  case (snoc r rs)
  let ?t = "foldl F s rs"
  { case 2 show ?case by (simp add: F_def lengths) }
  case 1
  have "length (F ?t r) = 16" by (simp add: F_def lengths)
  then have "G (shift_rows (sub_bytes (F ?t r))) r = shift_rows (sub_bytes ?t)"
    by (simp add: G_def sub_shift_inverse) (simp add: F_def lengths xor_bytes_cancel mix_columns_inverse)
  then show ?case using snoc(1) by simp
qed (use assms in simp_all)

lemma inv_cipher_cipher:
  assumes "length inp = 16"
  shows "inv_cipher nr w (cipher nr w inp) = inp"
proof -
  let ?init = "xor_bytes inp (round_key w 0)"
  have l: "length ?init = 16" using assms by simp
  show ?thesis
    by (simp add: cipher_def inv_cipher_def Let_def xor_bytes_cancel lengths rounds_inverse[OF l]
        sub_shift_inverse[OF l] assms)
qed

text \<open>The keys of the equivalent inverse cipher: mixed, except the first and the last.\<close>

definition dec_expanded :: "AES_KEY \<Rightarrow> nat \<Rightarrow> (nat \<Rightarrow> u32) \<Rightarrow> bool" where
  "dec_expanded key nr w \<longleftrightarrow>
     nr \<in> {10, 12, 14} \<and> aes_rounds key = nr \<and> length (rd_key key) = 60 \<and>
     (\<forall>r \<le> nr. \<forall>c < 4. rd_key key ! (4 * r + c) =
        (if r = 0 \<or> r = nr then w (4 * (nr - r) + c) else inv_mix_word (w (4 * (nr - r) + c))))"

lemma inv_mix_word_column:
  "inv_mix_word (column a b c d) = GETU32 (inv_mix_column a b c d)"
  by (simp add: inv_mix_word_def inv_mix_column_def column_simps Te_lookup Td_lookup inv_sbox_sbox xor.assoc)

lemma PUTU32_inv_mix_word: "PUTU32 (inv_mix_word (column a b c d)) = inv_mix_column a b c d"
  unfolding inv_mix_word_column by (simp add: inv_mix_column_def GETU32_column PUTU32_column)

lemma round_key_inv_mix:
  "round_key (\<lambda>i. inv_mix_word (w i)) r = inv_mix_columns (round_key w r)"
proof -
  have w: "\<exists>a b c d. w i = column a b c d" for i by (meson column_cases)
  obtain a0 a1 a2 a3 where 0: "w (4 * r) = column a0 a1 a2 a3" using w by blast
  obtain b0 b1 b2 b3 where 1: "w (4 * r + 1) = column b0 b1 b2 b3" using w by blast
  obtain c0 c1 c2 c3 where 2: "w (4 * r + 2) = column c0 c1 c2 c3" using w by blast
  obtain d0 d1 d2 d3 where 3: "w (4 * r + 3) = column d0 d1 d2 d3" using w by blast
  show ?thesis
    using 0 1 2 3 by (simp add: round_key_def upt_4 PUTU32_column PUTU32_inv_mix_word inv_mix_columns_def)
qed

lemma dec_round_key:
  assumes "dec_expanded key nr w" "r \<le> nr"
  shows "key_at (rd_key key) (4 * r) =
    (if r = 0 \<or> r = nr then round_key w (nr - r) else inv_mix_columns (round_key w (nr - r)))"
  unfolding round_key_inv_mix[symmetric]
  using assms by (auto simp: dec_expanded_def intro!: key_at_round_key)

lemma rev_upt_minus: "rev [1..<n] = map (\<lambda>j. n - j) [1..<n]"
  by (rule nth_equalityI) (auto simp: rev_nth)

lemma AES_decrypt_inv_cipher:
  assumes k: "dec_expanded key nr w" and l: "length inp = 16"
  shows "AES_decrypt inp key = Some (inv_cipher nr w inp)"
proof -
  let ?rk = "rd_key key"
  have nr: "nr \<in> {10, 12, 14}" "aes_rounds key = nr" using k by (auto simp: dec_expanded_def)
  then have pos: "0 < nr" by auto
  let ?f = "\<lambda>s. inv_mix_columns (inv_sub_bytes (inv_shift_rows s))"
  let ?G = "\<lambda>s r. inv_mix_columns (xor_bytes (inv_sub_bytes (inv_shift_rows s)) (round_key w r))"
  let ?init = "xor_bytes inp (round_key w nr)"
  let ?s = "foldl ?G ?init (rev [1..<nr])"
  have k0: "key_at ?rk 0 = round_key w nr" using dec_round_key[OF k, of 0] by simp
  have kn: "key_at ?rk (4 * nr) = round_key w 0" using dec_round_key[OF k, of nr] pos by simp
  have start: "load_state inp ?rk = cols ?init" using load_state_cols[OF l, of ?rk] k0 by simp
  have linit: "length ?init = 16" using l by simp
  have keys: "foldl (\<lambda>s j. xor_bytes (?f s) (key_at ?rk (4 * j))) ?init [1..<nr] = ?s"
    unfolding rev_upt_minus foldl_map
    by (rule foldl_upt_cong) (simp add: dec_round_key[OF k] inv_mix_columns_xor lengths)
  from rounds_cols[of dec_round ?rk ?f, OF dec_round_cols _ linit, of "[1..<nr]"]
  have rounds: "foldl (\<lambda>s j. dec_round ?rk (4 * j) s) (cols ?init) [1..<nr] = cols ?s" "length ?s = 16"
    unfolding keys by (simp_all add: lengths)
  have "key_readable key" using k by (auto simp: dec_expanded_def key_readable_def AES_MAXNR_def)
  then show ?thesis
    using rounds round_loop_rounds[OF nr(1), of "dec_round ?rk" "cols ?init"] kn
    by (simp add: AES_decrypt_def nr(2) start dec_last_cols store_cols inv_cipher_def Let_def lengths)
qed

section \<open>The key schedules\<close>

lemma key_core_eq: "i < 10 \<Longrightarrow> key_core temp i = sub_word (rot_word temp) XOR GETU32 [x_power i, 0, 0, 0]"
  by (rule column_cases[of temp])
    (simp add: key_core_def rot_word_def sub_word_def column_simps Te_lookup rcon_powers)

lemma sub_word_eq:
  "(Te2 ! unat (drop_bit 24 temp) AND 0xff000000) XOR (Te3 ! unat (drop_bit 16 temp AND 0xff) AND 0x00ff0000) XOR
   (Te0 ! unat (drop_bit 8 temp AND 0xff) AND 0x0000ff00) XOR (Te1 ! unat (temp AND 0xff) AND 0x000000ff) = sub_word temp"
  by (rule column_cases[of temp]) (simp add: sub_word_def column_simps Te_lookup)

lemma key_word_first: "i < nk \<Longrightarrow> key_word nk key i = GETU32 (drop (4 * i) key)"
  by (subst key_word.simps) simp

lemma key_word_next:
  assumes "c < nk"
  shows "key_word nk key (nk * Suc i + c) = key_word nk key (nk * i + c) XOR
    (let temp = key_word nk key (nk * Suc i + c - 1)
     in if c = 0 then sub_word (rot_word temp) XOR GETU32 [x_power i, 0, 0, 0]
        else if nk > 6 \<and> c = 4 then sub_word temp else temp)"
proof -
  have "(nk * Suc i + c) mod nk = c" "(nk * Suc i + c) div nk = Suc i" using assms by (simp_all add: div_mult_self2 del: mult_Suc_right)
  then show ?thesis using assms by (subst key_word.simps) (simp add: Let_def del: mult_Suc_right, simp add: add.assoc)
qed

text \<open>The first \<open>n\<close> words are those of the expansion.\<close>

definition words_done :: "nat \<Rightarrow> u8 list \<Rightarrow> nat \<Rightarrow> u32 list \<Rightarrow> bool" where
  "words_done nk key n rk \<longleftrightarrow> length rk = 60 \<and> (\<forall>j < n. rk ! j = key_word nk key j)"

lemma words_done_Suc:
  "words_done nk key n rk \<Longrightarrow> n < 60 \<Longrightarrow> v = key_word nk key n \<Longrightarrow> words_done nk key (Suc n) (rk[n := v])"
  by (auto simp: words_done_def less_Suc_eq)

lemma words_doneD: "words_done nk key n rk \<Longrightarrow> j < n \<Longrightarrow> rk ! j = key_word nk key j"
  by (simp add: words_done_def)

lemma load_key_done:
  assumes "length rk = 60" "n \<le> nk" "nk \<le> 60"
  shows "words_done nk key n (load_key rk key n)"
  using assms(2)
proof (induction n)
  case (Suc n)
  then show ?case using assms(3)
    by (auto simp: load_key_def key_word_first intro: words_done_Suc[of nk key n])
qed (use assms in \<open>simp add: load_key_def words_done_def\<close>)

lemma word_step:
  "words_done nk key n rk \<Longrightarrow> v = key_word nk key n \<Longrightarrow> n < 60 \<Longrightarrow> m = Suc n \<Longrightarrow> words_done nk key m (rk[n := v])"
  using words_done_Suc by blast

lemma key_word_at:
  assumes "p = nk * i" "c < nk" "n = p + nk + c"
  shows "key_word nk key n = key_word nk key (p + c) XOR
    (if c = 0 then sub_word (rot_word (key_word nk key (n - 1))) XOR GETU32 [x_power i, 0, 0, 0]
     else if nk > 6 \<and> c = 4 then sub_word (key_word nk key (n - 1)) else key_word nk key (n - 1))"
proof -
  have "n = nk * Suc i + c" "p + c = nk * i + c" using assms by simp_all
  then show ?thesis using key_word_next[OF assms(2), of key i] by (simp only: Let_def)
qed

lemma expand_128_done:
  assumes d: "words_done 4 key (p + 4) rk" and p: "p = 4 * i" and i: "i < 10"
  shows "words_done 4 key (p + 8) (expand_128 rk p i)"
proof -
  have b: "p \<le> 36" using p i by simp
  define r0 where "r0 = rk[p + 4 := rk ! p XOR key_core (rk ! (p + 3)) i]"
  define r1 where "r1 = r0[p + 5 := r0 ! (p + 1) XOR r0 ! (p + 4)]"
  define r2 where "r2 = r1[p + 6 := r1 ! (p + 2) XOR r1 ! (p + 5)]"
  define r3 where "r3 = r2[p + 7 := r2 ! (p + 3) XOR r2 ! (p + 6)]"
  have 0: "words_done 4 key (p + 5) r0"
    unfolding r0_def using key_word_at[OF p, of 0 "p + 4" key] b i
    by (intro word_step[OF d]) (simp_all add: words_doneD[OF d] key_core_eq add.commute)
  have 1: "words_done 4 key (p + 6) r1"
    unfolding r1_def using key_word_at[OF p, of 1 "p + 5" key] b i
    by (intro word_step[OF 0]) (simp_all add: words_doneD[OF 0] add.commute)
  have 2: "words_done 4 key (p + 7) r2"
    unfolding r2_def using key_word_at[OF p, of 2 "p + 6" key] b i
    by (intro word_step[OF 1]) (simp_all add: words_doneD[OF 1] add.commute)
  have 3: "words_done 4 key (p + 8) r3"
    unfolding r3_def using key_word_at[OF p, of 3 "p + 7" key] b i
    by (intro word_step[OF 2]) (simp_all add: words_doneD[OF 2] add.commute)
  have "expand_128 rk p i = r3" by (simp add: expand_128_def Let_def r0_def r1_def r2_def r3_def)
  then show ?thesis using 3 by simp
qed

lemma expand_192_done:
  assumes d: "words_done 6 key (p + 6) rk" and p: "p = 6 * i" and i: "i < 8"
  shows "words_done 6 key (if i + 1 = 8 then p + 10 else p + 12) (expand_192 rk p i)"
proof -
  have b: "p \<le> 42" using p i by simp
  define r0 where "r0 = rk[p + 6 := rk ! p XOR key_core (rk ! (p + 5)) i]"
  define r1 where "r1 = r0[p + 7 := r0 ! (p + 1) XOR r0 ! (p + 6)]"
  define r2 where "r2 = r1[p + 8 := r1 ! (p + 2) XOR r1 ! (p + 7)]"
  define r3 where "r3 = r2[p + 9 := r2 ! (p + 3) XOR r2 ! (p + 8)]"
  define r4 where "r4 = r3[p + 10 := r3 ! (p + 4) XOR r3 ! (p + 9)]"
  define r5 where "r5 = r4[p + 11 := r4 ! (p + 5) XOR r4 ! (p + 10)]"
  have 0: "words_done 6 key (p + 7) r0"
    unfolding r0_def using key_word_at[OF p, of 0 "p + 6" key] b i
    by (intro word_step[OF d]) (simp_all add: words_doneD[OF d] key_core_eq add.commute)
  have 1: "words_done 6 key (p + 8) r1"
    unfolding r1_def using key_word_at[OF p, of 1 "p + 7" key] b i
    by (intro word_step[OF 0]) (simp_all add: words_doneD[OF 0] add.commute)
  have 2: "words_done 6 key (p + 9) r2"
    unfolding r2_def using key_word_at[OF p, of 2 "p + 8" key] b i
    by (intro word_step[OF 1]) (simp_all add: words_doneD[OF 1] add.commute)
  have 3: "words_done 6 key (p + 10) r3"
    unfolding r3_def using key_word_at[OF p, of 3 "p + 9" key] b i
    by (intro word_step[OF 2]) (simp_all add: words_doneD[OF 2] add.commute)
  have 4: "words_done 6 key (p + 11) r4" if "i + 1 < 8"
    unfolding r4_def using key_word_at[OF p, of 4 "p + 10" key] b i that
    by (intro word_step[OF 3]) (simp_all add: words_doneD[OF 3] add.commute)
  have 5: "words_done 6 key (p + 12) r5" if "i + 1 < 8"
    unfolding r5_def using key_word_at[OF p, of 5 "p + 11" key] b i that
    by (intro word_step[OF 4[OF that]]) (simp_all add: words_doneD[OF 4[OF that]] add.commute)
  have "expand_192 rk p i = (if i + 1 = 8 then r3 else r5)"
    unfolding expand_192_def Let_def r0_def r1_def r2_def r3_def r4_def r5_def by simp
  then show ?thesis using 3 5 i by auto
qed

lemma expand_256_done:
  assumes d: "words_done 8 key (p + 8) rk" and p: "p = 8 * i" and i: "i < 7"
  shows "words_done 8 key (if i + 1 = 7 then p + 12 else p + 16) (expand_256 rk p i)"
proof -
  have b: "p \<le> 48" using p i by simp
  have b': "p \<le> 40" if "i + 1 < 7" using p that by simp
  define r0 where "r0 = rk[p + 8 := rk ! p XOR key_core (rk ! (p + 7)) i]"
  define r1 where "r1 = r0[p + 9 := r0 ! (p + 1) XOR r0 ! (p + 8)]"
  define r2 where "r2 = r1[p + 10 := r1 ! (p + 2) XOR r1 ! (p + 9)]"
  define r3 where "r3 = r2[p + 11 := r2 ! (p + 3) XOR r2 ! (p + 10)]"
  define r4 where "r4 = r3[p + 12 := r3 ! (p + 4) XOR sub_word (r3 ! (p + 11))]"
  define r5 where "r5 = r4[p + 13 := r4 ! (p + 5) XOR r4 ! (p + 12)]"
  define r6 where "r6 = r5[p + 14 := r5 ! (p + 6) XOR r5 ! (p + 13)]"
  define r7 where "r7 = r6[p + 15 := r6 ! (p + 7) XOR r6 ! (p + 14)]"
  have 0: "words_done 8 key (p + 9) r0"
    unfolding r0_def using key_word_at[OF p, of 0 "p + 8" key] b i
    by (intro word_step[OF d]) (simp_all add: words_doneD[OF d] key_core_eq add.commute)
  have 1: "words_done 8 key (p + 10) r1"
    unfolding r1_def using key_word_at[OF p, of 1 "p + 9" key] b i
    by (intro word_step[OF 0]) (simp_all add: words_doneD[OF 0] add.commute)
  have 2: "words_done 8 key (p + 11) r2"
    unfolding r2_def using key_word_at[OF p, of 2 "p + 10" key] b i
    by (intro word_step[OF 1]) (simp_all add: words_doneD[OF 1] add.commute)
  have 3: "words_done 8 key (p + 12) r3"
    unfolding r3_def using key_word_at[OF p, of 3 "p + 11" key] b i
    by (intro word_step[OF 2]) (simp_all add: words_doneD[OF 2] add.commute)
  have 4: "words_done 8 key (p + 13) r4" if "i + 1 < 7"
    unfolding r4_def using key_word_at[OF p, of 4 "p + 12" key] b'[OF that]
    by (intro word_step[OF 3]) (simp_all add: words_doneD[OF 3] add.commute)
  have 5: "words_done 8 key (p + 14) r5" if "i + 1 < 7"
    unfolding r5_def using key_word_at[OF p, of 5 "p + 13" key] b'[OF that]
    by (intro word_step[OF 4[OF that]]) (simp_all add: words_doneD[OF 4[OF that]] add.commute)
  have 6: "words_done 8 key (p + 15) r6" if "i + 1 < 7"
    unfolding r6_def using key_word_at[OF p, of 6 "p + 14" key] b'[OF that]
    by (intro word_step[OF 5[OF that]]) (simp_all add: words_doneD[OF 5[OF that]] add.commute)
  have 7: "words_done 8 key (p + 16) r7" if "i + 1 < 7"
    unfolding r7_def using key_word_at[OF p, of 7 "p + 15" key] b'[OF that]
    by (intro word_step[OF 6[OF that]]) (simp_all add: words_doneD[OF 6[OF that]] add.commute)
  have "expand_256 rk p i = (if i + 1 = 7 then r3 else r7)"
    unfolding expand_256_def Let_def r0_def r1_def r2_def r3_def r4_def r5_def r6_def r7_def sub_word_eq by simp
  then show ?thesis using 3 7 i by auto
qed

lemma foldl_done:
  assumes "\<And>rk i. i < n \<Longrightarrow> D i rk \<Longrightarrow> D (Suc i) (f rk i)" "D 0 rk"
  shows "D n (foldl f rk [0..<n])"
  using assms(1)
proof (induction n)
  case (Suc n)
  then have "D n (foldl f rk [0..<n])" by simp
  then show ?case using Suc.prems by simp
qed (use assms(2) in simp)

text \<open>The number of rounds for a key.\<close>

definition key_rounds :: "u8 list \<Rightarrow> nat" where
  "key_rounds key = length key div 4 + 6"

lemma set_encrypt_key_expanded:
  assumes key: "length key \<in> {16, 24, 32}" and l: "length (rd_key k0) = 60"
  shows "\<exists>k. AES_set_encrypt_key (Some key) (8 * length key) k0 = (0, k) \<and>
    expanded k (key_rounds key) (key_word (length key div 4) key)"
proof -
  consider "length key = 16" | "length key = 24" | "length key = 32" using key by auto
  then show ?thesis
  proof cases
    case 1
    let ?rk = "foldl (\<lambda>rk i. expand_128 rk (4 * i) i) (load_key (rd_key k0) key 4) [0..<10]"
    have "words_done 4 key (4 * Suc 10) ?rk"
      by (rule foldl_done[of 10 "\<lambda>i. words_done 4 key (4 * Suc i)"])
        (use expand_128_done load_key_done[OF l, of 4 4] in \<open>auto simp: add.commute\<close>)
    then show ?thesis using 1 by (simp add: AES_set_encrypt_key_def expanded_def key_rounds_def words_done_def)
  next
    case 2
    let ?rk = "foldl (\<lambda>rk i. expand_192 rk (6 * i) i) (load_key (rd_key k0) key 6) [0..<8]"
    have step: "words_done 6 key (if Suc i = 8 then 52 else 6 * Suc (Suc i)) (expand_192 rk (6 * i) i)"
      if "i < 8" "words_done 6 key (if i = 8 then 52 else 6 * Suc i) rk" for rk i
      using expand_192_done[of key "6 * i" rk i] that by (auto simp: add.commute split: if_splits)
    have "words_done 6 key (if (8 :: nat) = 8 then 52 else 6 * Suc 8) ?rk"
      by (rule foldl_done[of 8 "\<lambda>i. words_done 6 key (if i = 8 then 52 else 6 * Suc i)", OF step])
        (use load_key_done[OF l, of 6 6] in simp_all)
    then show ?thesis using 2 by (simp add: AES_set_encrypt_key_def expanded_def key_rounds_def words_done_def)
  next
    case 3
    let ?rk = "foldl (\<lambda>rk i. expand_256 rk (8 * i) i) (load_key (rd_key k0) key 8) [0..<7]"
    have step: "words_done 8 key (if Suc i = 7 then 60 else 8 * Suc (Suc i)) (expand_256 rk (8 * i) i)"
      if "i < 7" "words_done 8 key (if i = 7 then 60 else 8 * Suc i) rk" for rk i
      using expand_256_done[of key "8 * i" rk i] that by (auto simp: add.commute split: if_splits)
    have "words_done 8 key (if (7 :: nat) = 7 then 60 else 8 * Suc 7) ?rk"
      by (rule foldl_done[of 7 "\<lambda>i. words_done 8 key (if i = 7 then 60 else 8 * Suc i)", OF step])
        (use load_key_done[OF l, of 8 8] in simp_all)
    then show ?thesis using 3 by (simp add: AES_set_encrypt_key_def expanded_def key_rounds_def words_done_def)
  qed
qed

text \<open>The schedule for decryption: the order inverted, then the keys in the middle mixed.\<close>

lemma word_index_eq: "c < 4 \<Longrightarrow> k < 4 \<Longrightarrow> 4 * r + c = 4 * a + k \<longleftrightarrow> r = a \<and> c = k" for r a c k :: nat
proof
  assume "c < 4" "k < 4" "4 * r + c = 4 * a + k"
  then show "r = a \<and> c = k" by presburger
qed simp

lemma length_swap_words [simp]: "length (swap_words rk i j) = length rk"
  by (simp add: swap_words_def Let_def)

lemma nth_swap_words:
  "i < length rk \<Longrightarrow> j < length rk \<Longrightarrow> swap_words rk i j ! n = rk ! (if n = i then j else if n = j then i else n)"
  by (auto simp: swap_words_def Let_def nth_list_update)

definition swap_keys :: "u32 list \<Rightarrow> nat \<Rightarrow> nat \<Rightarrow> u32 list" where
  "swap_keys rk i j = swap_words (swap_words (swap_words (swap_words rk i j) (i + 1) (j + 1)) (i + 2) (j + 2)) (i + 3) (j + 3)"

lemma nth_swap_keys:
  assumes "a < b" "4 * b + 3 < length rk" "c < 4"
  shows "swap_keys rk (4 * a) (4 * b) ! (4 * r + c) = rk ! (4 * (if r = a then b else if r = b then a else r) + c)"
proof -
  have ne: "4 * r \<noteq> 4 * a + 3" "4 * r \<noteq> Suc (Suc (4 * a))" "4 * r \<noteq> Suc (4 * a)" by presburger+
  have "c = 0 \<or> c = 1 \<or> c = 2 \<or> c = 3" using assms(3) by auto
  then show ?thesis
    using assms(1,2) unfolding swap_keys_def by (elim disjE) (simp_all add: nth_swap_words ne)
qed

lemma length_swap_keys [simp]: "length (swap_keys rk i j) = length rk"
  by (simp add: swap_keys_def)

lemma invert_order_keys:
  "4 * b + 3 < length rk \<Longrightarrow>
   length (invert_order rk (4 * a) (4 * b)) = length rk \<and>
   (\<forall>r c. c < 4 \<longrightarrow> invert_order rk (4 * a) (4 * b) ! (4 * r + c) =
      rk ! (4 * (if a \<le> r \<and> r \<le> b then a + b - r else r) + c))"
proof (induction "b - a" arbitrary: a b rk rule: less_induct)
  case less
  show ?case
  proof (cases "a < b")
    case False
    then have "a \<le> r \<and> r \<le> b \<Longrightarrow> a + b - r = r" for r by auto
    then show ?thesis using False by (subst (1 2) invert_order.simps) auto
  next
    case True
    let ?rk = "swap_keys rk (4 * a) (4 * b)"
    have eq: "invert_order rk (4 * a) (4 * b) = invert_order ?rk (4 * (a + 1)) (4 * (b - 1))"
      using True by (subst invert_order.simps) (simp add: Let_def swap_keys_def algebra_simps)
    from less.hyps[of "b - 1" "a + 1" ?rk] True less.prems
    have IH: "length (invert_order ?rk (4 * (a + 1)) (4 * (b - 1))) = length rk"
      "c < 4 \<Longrightarrow> invert_order ?rk (4 * (a + 1)) (4 * (b - 1)) ! (4 * r + c) =
        ?rk ! (4 * (if a + 1 \<le> r \<and> r \<le> b - 1 then a + 1 + (b - 1) - r else r) + c)" for r c
      by auto
    have "invert_order rk (4 * a) (4 * b) ! (4 * r + c) = rk ! (4 * (if a \<le> r \<and> r \<le> b then a + b - r else r) + c)"
      if "c < 4" for r c
      unfolding eq IH(2)[OF that] nth_swap_keys[OF True less.prems that] using True by auto
    then show ?thesis using IH(1) eq by simp
  qed
qed

lemma inv_mix_key_nth:
  assumes "4 * a + 3 < length rk" "c < 4"
  shows "inv_mix_key rk (4 * a) ! (4 * r + c) = (if r = a then inv_mix_word (rk ! (4 * r + c)) else rk ! (4 * r + c))"
proof -
  have ne: "4 * a + 3 \<noteq> 4 * r" "Suc (Suc (4 * a)) \<noteq> 4 * r" "Suc (4 * a) \<noteq> 4 * r"
    "4 * a \<noteq> 4 * r + 3" "4 * a \<noteq> Suc (Suc (4 * r))" "4 * a \<noteq> Suc (4 * r)" by presburger+
  have "c = 0 \<or> c = 1 \<or> c = 2 \<or> c = 3" using assms(2) by auto
  then show ?thesis
    using assms(1) by (elim disjE) (simp_all add: inv_mix_key_def Let_def nth_list_update ne)
qed

lemma length_inv_mix_key [simp]: "length (inv_mix_key rk p) = length rk"
  by (simp add: inv_mix_key_def Let_def)

lemma inv_mix_keys:
  assumes "4 * n \<le> length rk"
  shows "length (foldl (\<lambda>rk i. inv_mix_key rk (4 * i)) rk [1..<n]) = length rk \<and>
    (\<forall>r c. c < 4 \<longrightarrow> foldl (\<lambda>rk i. inv_mix_key rk (4 * i)) rk [1..<n] ! (4 * r + c) =
       (if 1 \<le> r \<and> r < n then inv_mix_word (rk ! (4 * r + c)) else rk ! (4 * r + c)))"
  using assms
proof (induction n)
  case (Suc n)
  show ?case
  proof (cases "n = 0")
    case False
    then have "[1..<Suc n] = [1..<n] @ [n]" by simp
    then show ?thesis using Suc by (auto simp: inv_mix_key_nth less_Suc_eq simp del: upt_Suc)
  qed simp
qed simp

lemma set_decrypt_key_expanded:
  assumes key: "length key \<in> {16, 24, 32}" and l: "length (rd_key k0) = 60"
  shows "\<exists>k. AES_set_decrypt_key (Some key) (8 * length key) k0 = (0, k) \<and>
    dec_expanded k (key_rounds key) (key_word (length key div 4) key)"
proof -
  let ?nr = "key_rounds key" let ?w = "key_word (length key div 4) key"
  from set_encrypt_key_expanded[OF assms] obtain k where
    k: "AES_set_encrypt_key (Some key) (8 * length key) k0 = (0, k)" "expanded k ?nr ?w" by auto
  have nr: "?nr \<in> {10, 12, 14}" "aes_rounds k = ?nr" "length (rd_key k) = 60"
    and w: "i < 4 * (?nr + 1) \<Longrightarrow> rd_key k ! i = ?w i" for i
    using k(2) by (simp_all add: expanded_def)
  have b: "4 * ?nr + 3 < length (rd_key k)" "4 * ?nr \<le> length (rd_key k)" using nr by auto
  let ?inv = "invert_order (rd_key k) 0 (4 * ?nr)"
  let ?rk = "foldl (\<lambda>rk i. inv_mix_key rk (4 * i)) ?inv [1..<?nr]"
  have inv: "length ?inv = 60" "\<And>r c. c < 4 \<Longrightarrow> r \<le> ?nr \<Longrightarrow> ?inv ! (4 * r + c) = ?w (4 * (?nr - r) + c)"
    using invert_order_keys[OF b(1), of 0] nr(3) w by auto
  have mixed: "length ?rk = 60"
    "\<And>r c. c < 4 \<Longrightarrow> ?rk ! (4 * r + c) = (if 1 \<le> r \<and> r < ?nr then inv_mix_word (?inv ! (4 * r + c)) else ?inv ! (4 * r + c))"
    using inv_mix_keys[of ?nr ?inv] inv(1) b(2) nr(3) by auto
  have "?rk ! (4 * r + c) = (if r = 0 \<or> r = ?nr then ?w (4 * (?nr - r) + c) else inv_mix_word (?w (4 * (?nr - r) + c)))"
    if "r \<le> ?nr" "c < 4" for r c
    unfolding mixed(2)[OF that(2)] inv(2)[OF that(2,1)] using nr(1) that by auto
  then have "dec_expanded (k\<lparr>rd_key := ?rk\<rparr>) ?nr ?w"
    unfolding dec_expanded_def using nr mixed(1) by simp
  then show ?thesis using k(1) nr(2) by (simp add: AES_set_decrypt_key_def Let_def)
qed

section \<open>Properties\<close>

text \<open>
  Property C10: AES by tables is AES of FIPS 197. For a key of 128, 192 or 256 bits both schedules are
  set up, whatever the structures held before; a block is then encrypted as the standard's cipher
  does with the standard's key expansion and decrypted as its inverse cipher does, although the
  code decrypts with transformed keys in inverted order. The unrolled form of the rounds returns
  the same.
\<close>

theorem AES_fips197:
  assumes "length key \<in> {16, 24, 32}" "length (rd_key k0) = 60" "length inp = 16"
  shows "\<exists>ek dk. AES_set_encrypt_key (Some key) (8 * length key) k0 = (0, ek) \<and>
    AES_set_decrypt_key (Some key) (8 * length key) k0 = (0, dk) \<and>
    AES_encrypt inp ek = Some (cipher (key_rounds key) (key_word (length key div 4) key) inp) \<and>
    AES_decrypt inp dk = Some (inv_cipher (key_rounds key) (key_word (length key div 4) key) inp) \<and>
    AES_encrypt_unrolled inp ek = AES_encrypt inp ek \<and> AES_decrypt_unrolled inp dk = AES_decrypt inp dk"
proof -
  let ?nr = "key_rounds key" let ?w = "key_word (length key div 4) key"
  from set_encrypt_key_expanded[OF assms(1,2)] obtain ek where
    ek: "AES_set_encrypt_key (Some key) (8 * length key) k0 = (0, ek)" "expanded ek ?nr ?w" by auto
  from set_decrypt_key_expanded[OF assms(1,2)] obtain dk where
    dk: "AES_set_decrypt_key (Some key) (8 * length key) k0 = (0, dk)" "dec_expanded dk ?nr ?w" by auto
  have "aes_rounds ek \<in> {10, 12, 14}" "aes_rounds dk \<in> {10, 12, 14}"
    using ek(2) dk(2) by (auto simp: expanded_def dec_expanded_def)
  then have "AES_encrypt_unrolled inp ek = AES_encrypt inp ek" "AES_decrypt_unrolled inp dk = AES_decrypt inp dk"
    by (simp_all only: AES_encrypt_unrolled_def AES_encrypt_def AES_decrypt_unrolled_def AES_decrypt_def unrolled_eq_loop)
  then show ?thesis
    using ek(1) dk(1) AES_encrypt_cipher[OF ek(2) assms(3)] AES_decrypt_inv_cipher[OF dk(2) assms(3)] by blast
qed

theorem AES_fips197_witness:
  "\<exists>ek dk. AES_set_encrypt_key (Some (replicate 24 7)) 192 \<lparr>rd_key = replicate 60 0, aes_rounds = 0\<rparr> = (0, ek) \<and>
    AES_set_decrypt_key (Some (replicate 24 7)) 192 \<lparr>rd_key = replicate 60 0, aes_rounds = 0\<rparr> = (0, dk) \<and>
    AES_encrypt (replicate 16 1) ek = Some (cipher 12 (key_word 6 (replicate 24 7)) (replicate 16 1)) \<and>
    AES_decrypt (replicate 16 1) dk = Some (inv_cipher 12 (key_word 6 (replicate 24 7)) (replicate 16 1)) \<and>
    AES_encrypt_unrolled (replicate 16 1) ek = AES_encrypt (replicate 16 1) ek \<and>
    AES_decrypt_unrolled (replicate 16 1) dk = AES_decrypt (replicate 16 1) dk"
  using AES_fips197[of "replicate 24 7" "\<lparr>rd_key = replicate 60 0, aes_rounds = 0\<rparr>" "replicate 16 1"]
  by (simp add: key_rounds_def)

text \<open>What the modes of operation use: under the two schedules of a key, decryption undoes encryption.\<close>

definition aes_key_pair :: "u8 list \<Rightarrow> AES_KEY \<Rightarrow> AES_KEY \<Rightarrow> bool" where
  "aes_key_pair key ek dk \<longleftrightarrow>
     expanded ek (key_rounds key) (key_word (length key div 4) key) \<and>
     dec_expanded dk (key_rounds key) (key_word (length key div 4) key)"

lemma aes_key_pair_blocks:
  assumes "aes_key_pair key ek dk" "length b = 16"
  shows "\<exists>c. AES_encrypt b ek = Some c \<and> length c = 16 \<and> AES_decrypt c dk = Some b"
proof -
  let ?c = "cipher (key_rounds key) (key_word (length key div 4) key) b"
  have l: "length ?c = 16" by (simp add: cipher_def Let_def lengths)
  show ?thesis
    using AES_encrypt_cipher[of ek _ _ b] AES_decrypt_inv_cipher[of dk _ _ ?c] inv_cipher_cipher assms l
    by (auto simp: aes_key_pair_def)
qed

lemma inv_cipher_length: "length inp = 16 \<Longrightarrow> length (inv_cipher nr w inp) = 16"
  by (simp add: inv_cipher_def Let_def lengths)

end
