(* ===== verification/Cipher.thy ===== *)
theory Cipher
  imports Mem "HOL-Library.Monad_Syntax"
begin

text \<open>
  \<^verbatim>\<open>crypto/fipsmodule/cipher/cipher.c\<close>: contexts of ciphers, their buffering of partial blocks and
  the padding of the last block. A cipher is a table of functions, which is the parameter \<open>tbl\<close>:
  from the address of a table, which a context keeps, to its fields. Functions return their
  result, the bytes they stored from \<open>out\<close> on, the value of \<open>*out_len\<close> where they set it, and
  the context; input and output are disjoint. A failed \<^verbatim>\<open>assert\<close> and a signed overflow have no
  result.
\<close>

section \<open>Contexts and tables\<close>

definition EVP_MAX_IV_LENGTH :: nat where "EVP_MAX_IV_LENGTH = 16"
definition EVP_MAX_BLOCK_LENGTH :: nat where "EVP_MAX_BLOCK_LENGTH = 32"

definition EVP_CIPH_STREAM_CIPHER :: u32 where "EVP_CIPH_STREAM_CIPHER = 0x0"
definition EVP_CIPH_ECB_MODE :: u32 where "EVP_CIPH_ECB_MODE = 0x1"
definition EVP_CIPH_CBC_MODE :: u32 where "EVP_CIPH_CBC_MODE = 0x2"
definition EVP_CIPH_CFB_MODE :: u32 where "EVP_CIPH_CFB_MODE = 0x3"
definition EVP_CIPH_OFB_MODE :: u32 where "EVP_CIPH_OFB_MODE = 0x4"
definition EVP_CIPH_CTR_MODE :: u32 where "EVP_CIPH_CTR_MODE = 0x5"
definition EVP_CIPH_VARIABLE_LENGTH :: u32 where "EVP_CIPH_VARIABLE_LENGTH = 0x40"
definition EVP_CIPH_ALWAYS_CALL_INIT :: u32 where "EVP_CIPH_ALWAYS_CALL_INIT = 0x80"
definition EVP_CIPH_CUSTOM_IV :: u32 where "EVP_CIPH_CUSTOM_IV = 0x100"
definition EVP_CIPH_CTRL_INIT :: u32 where "EVP_CIPH_CTRL_INIT = 0x200"
definition EVP_CIPH_FLAG_CUSTOM_CIPHER :: u32 where "EVP_CIPH_FLAG_CUSTOM_CIPHER = 0x400"
definition EVP_CIPH_CUSTOM_COPY :: u32 where "EVP_CIPH_CUSTOM_COPY = 0x1000"
definition EVP_CIPH_NO_PADDING :: u32 where "EVP_CIPH_NO_PADDING = 0x800"
definition EVP_CIPH_MODE_MASK :: u32 where "EVP_CIPH_MODE_MASK = 0x3f"
definition EVP_CTRL_INIT :: int where "EVP_CTRL_INIT = 0"
definition EVP_CTRL_COPY :: int where "EVP_CTRL_COPY = 8"

text \<open>The block at \<^verbatim>\<open>cipher_data\<close>: never written, or the state of the cipher.\<close>

datatype 'd data_block = Raw | Data 'd

record ('c, 'd) EVP_CIPHER_CTX =
  cx_cipher :: "'c option"
  cx_app_data :: "nat option"
  cx_cipher_data :: "'d data_block option"
  cx_key_len :: nat
  cx_encrypt :: int
  cx_flags :: u32
  cx_oiv :: "u8 list"
  cx_iv :: "u8 list"
  cx_buf :: "u8 list"
  cx_buf_len :: int
  cx_num :: nat
  cx_final_used :: bool
  cx_block_mask :: int
  cx_final :: "u8 list"

type_synonym ('c, 'd) ctx = "('c, 'd) EVP_CIPHER_CTX"

text \<open>
  The method \<open>ci_cipher\<close> takes \<open>in\<close> (\<open>None\<close> is NULL) and \<open>inl\<close>, and returns its result, the bytes it
  stores and the context; \<open>ci_ctrl\<close> takes a command, its argument and, for \<^verbatim>\<open>EVP_CTRL_COPY\<close>, the
  other context, which it may change.
\<close>

record ('c, 'd) EVP_CIPHER =
  ci_nid :: int
  ci_block_size :: nat
  ci_key_len :: nat
  ci_iv_len :: nat
  ci_ctx_size :: nat
  ci_flags :: u32
  ci_init :: "('c, 'd) ctx \<Rightarrow> u8 list option \<Rightarrow> u8 list option \<Rightarrow> int \<Rightarrow> bool \<times> ('c, 'd) ctx"
  ci_cipher :: "('c, 'd) ctx \<Rightarrow> u8 list option \<Rightarrow> nat \<Rightarrow> (int \<times> u8 list \<times> ('c, 'd) ctx) option"
  ci_cleanup :: "(('c, 'd) ctx \<Rightarrow> ('c, 'd) ctx) option"
  ci_ctrl :: "(('c, 'd) ctx \<Rightarrow> int \<Rightarrow> int \<Rightarrow> ('c, 'd) ctx option \<Rightarrow> int \<times> ('c, 'd) ctx \<times> ('c, 'd) ctx option) option"

definition int_add :: "int \<Rightarrow> int \<Rightarrow> int option" where
  "int_add a b = (if - (2 ^ 31) \<le> a + b \<and> a + b < 2 ^ 31 then Some (a + b) else None)"

section \<open>Set-up\<close>

definition EVP_CIPHER_CTX_init :: "('c, 'd) ctx" where
  "EVP_CIPHER_CTX_init =
     \<lparr>cx_cipher = None, cx_app_data = None, cx_cipher_data = None, cx_key_len = 0, cx_encrypt = 0, cx_flags = 0,
      cx_oiv = replicate EVP_MAX_IV_LENGTH 0, cx_iv = replicate EVP_MAX_IV_LENGTH 0,
      cx_buf = replicate EVP_MAX_BLOCK_LENGTH 0, cx_buf_len = 0, cx_num = 0, cx_final_used = False,
      cx_block_mask = 0, cx_final = replicate EVP_MAX_BLOCK_LENGTH 0\<rparr>"

text \<open>\<^verbatim>\<open>sizeof(EVP_CIPHER_CTX)\<close> on the LP64 targets.\<close>

definition EVP_CIPHER_CTX_new :: "sys_malloc \<Rightarrow> ('c, 'd) ctx option" where
  "EVP_CIPHER_CTX_new sys = map_option (\<lambda>_. EVP_CIPHER_CTX_init) (OPENSSL_malloc sys 152)"

definition EVP_CIPHER_CTX_cleanup :: "('c \<Rightarrow> ('c, 'd) EVP_CIPHER) \<Rightarrow> ('c, 'd) ctx \<Rightarrow> bool \<times> ('c, 'd) ctx" where
  "EVP_CIPHER_CTX_cleanup tbl c =
     (let c = (case cx_cipher c of
                 None \<Rightarrow> c
               | Some ci \<Rightarrow> (case ci_cleanup (tbl ci) of None \<Rightarrow> c | Some cleanup \<Rightarrow> cleanup c))
      in (True, EVP_CIPHER_CTX_init))"

text \<open>\<open>out\<close> is another context than \<open>src\<close>; the result has both.\<close>

definition EVP_CIPHER_CTX_copy ::
  "('c \<Rightarrow> ('c, 'd) EVP_CIPHER) \<Rightarrow> sys_malloc \<Rightarrow> ('c, 'd) ctx \<Rightarrow> ('c, 'd) ctx option \<Rightarrow>
    (bool \<times> ('c, 'd) ctx \<times> ('c, 'd) ctx option) option" where
  "EVP_CIPHER_CTX_copy tbl sys out src =
     (case src of
        None \<Rightarrow> Some (False, out, None)
      | Some i \<Rightarrow>
          case cx_cipher i of
            None \<Rightarrow> Some (False, out, src)
          | Some ci \<Rightarrow>
              let (_, out) = EVP_CIPHER_CTX_cleanup tbl out;
                  out = i;
                  copied = cx_cipher_data i \<noteq> None \<and> ci_ctx_size (tbl ci) \<noteq> 0
              in if copied \<and> OPENSSL_malloc sys (ci_ctx_size (tbl ci)) = None
                 then Some (False, out\<lparr>cx_cipher_data := None, cx_cipher := None\<rparr>, src)
                 else if ci_flags (tbl ci) AND EVP_CIPH_CUSTOM_COPY \<noteq> 0
                 then do {
                   ctrl \<leftarrow> ci_ctrl (tbl ci);
                   (r, i, out) \<leftarrow> Some (ctrl i EVP_CTRL_COPY 0 (Some out));
                   out \<leftarrow> out;
                   if r = 0 then Some (False, out\<lparr>cx_cipher := None\<rparr>, Some i) else Some (True, out, Some i) }
                 else Some (True, out, src))"

definition EVP_CIPHER_CTX_reset :: "('c \<Rightarrow> ('c, 'd) EVP_CIPHER) \<Rightarrow> ('c, 'd) ctx \<Rightarrow> ('c, 'd) ctx" where
  "EVP_CIPHER_CTX_reset tbl ctx = (let (_, ctx) = EVP_CIPHER_CTX_cleanup tbl ctx in EVP_CIPHER_CTX_init)"

section \<open>Accessors\<close>

definition EVP_CIPHER_CTX_cipher :: "('c, 'd) ctx \<Rightarrow> 'c option" where
  "EVP_CIPHER_CTX_cipher ctx = cx_cipher ctx"

definition EVP_CIPHER_CTX_nid :: "('c \<Rightarrow> ('c, 'd) EVP_CIPHER) \<Rightarrow> ('c, 'd) ctx \<Rightarrow> int option" where
  "EVP_CIPHER_CTX_nid tbl ctx = do { ci \<leftarrow> cx_cipher ctx; Some (ci_nid (tbl ci)) }"

definition EVP_CIPHER_CTX_block_size :: "('c \<Rightarrow> ('c, 'd) EVP_CIPHER) \<Rightarrow> ('c, 'd) ctx \<Rightarrow> nat option" where
  "EVP_CIPHER_CTX_block_size tbl ctx = do { ci \<leftarrow> cx_cipher ctx; Some (ci_block_size (tbl ci)) }"

definition EVP_CIPHER_CTX_key_length :: "('c, 'd) ctx \<Rightarrow> nat" where
  "EVP_CIPHER_CTX_key_length ctx = cx_key_len ctx"

definition EVP_CIPHER_CTX_iv_length :: "('c \<Rightarrow> ('c, 'd) EVP_CIPHER) \<Rightarrow> ('c, 'd) ctx \<Rightarrow> nat option" where
  "EVP_CIPHER_CTX_iv_length tbl ctx = do { ci \<leftarrow> cx_cipher ctx; Some (ci_iv_len (tbl ci)) }"

definition EVP_CIPHER_CTX_get_app_data :: "('c, 'd) ctx \<Rightarrow> nat option" where
  "EVP_CIPHER_CTX_get_app_data ctx = cx_app_data ctx"

definition EVP_CIPHER_CTX_set_app_data :: "('c, 'd) ctx \<Rightarrow> nat option \<Rightarrow> ('c, 'd) ctx" where
  "EVP_CIPHER_CTX_set_app_data ctx data = ctx\<lparr>cx_app_data := data\<rparr>"

definition EVP_CIPHER_CTX_flags :: "('c \<Rightarrow> ('c, 'd) EVP_CIPHER) \<Rightarrow> ('c, 'd) ctx \<Rightarrow> u32 option" where
  "EVP_CIPHER_CTX_flags tbl ctx = do { ci \<leftarrow> cx_cipher ctx; Some (ci_flags (tbl ci) AND NOT EVP_CIPH_MODE_MASK) }"

definition EVP_CIPHER_CTX_mode :: "('c \<Rightarrow> ('c, 'd) EVP_CIPHER) \<Rightarrow> ('c, 'd) ctx \<Rightarrow> u32 option" where
  "EVP_CIPHER_CTX_mode tbl ctx = do { ci \<leftarrow> cx_cipher ctx; Some (ci_flags (tbl ci) AND EVP_CIPH_MODE_MASK) }"

definition EVP_CIPHER_CTX_ctrl ::
  "('c \<Rightarrow> ('c, 'd) EVP_CIPHER) \<Rightarrow> ('c, 'd) ctx \<Rightarrow> int \<Rightarrow> int \<Rightarrow> ('c, 'd) ctx option \<Rightarrow>
    int \<times> ('c, 'd) ctx \<times> ('c, 'd) ctx option" where
  "EVP_CIPHER_CTX_ctrl tbl ctx command arg ptr =
     (case cx_cipher ctx of
        None \<Rightarrow> (0, ctx, ptr)
      | Some ci \<Rightarrow>
          case ci_ctrl (tbl ci) of
            None \<Rightarrow> (0, ctx, ptr)
          | Some ctrl \<Rightarrow>
              let (ret, ctx, ptr) = ctrl ctx command arg ptr
              in if ret = -1 then (0, ctx, ptr) else (ret, ctx, ptr))"

definition EVP_CIPHER_CTX_set_padding :: "('c, 'd) ctx \<Rightarrow> int \<Rightarrow> bool \<times> ('c, 'd) ctx" where
  "EVP_CIPHER_CTX_set_padding ctx pad =
     (True, if pad \<noteq> 0 then ctx\<lparr>cx_flags := cx_flags ctx AND NOT EVP_CIPH_NO_PADDING\<rparr>
            else ctx\<lparr>cx_flags := cx_flags ctx OR EVP_CIPH_NO_PADDING\<rparr>)"

definition EVP_CIPHER_CTX_set_key_length ::
  "('c \<Rightarrow> ('c, 'd) EVP_CIPHER) \<Rightarrow> ('c, 'd) ctx \<Rightarrow> nat \<Rightarrow> (bool \<times> ('c, 'd) ctx) option" where
  "EVP_CIPHER_CTX_set_key_length tbl c key_len =
     (if cx_key_len c = key_len then Some (True, c)
      else if key_len = 0 then Some (False, c)
      else do {
        ci \<leftarrow> cx_cipher c;
        if ci_flags (tbl ci) AND EVP_CIPH_VARIABLE_LENGTH = 0 then Some (False, c)
        else Some (True, c\<lparr>cx_key_len := key_len\<rparr>) })"

definition EVP_CIPHER_nid :: "('c, 'd) EVP_CIPHER \<Rightarrow> int" where "EVP_CIPHER_nid cipher = ci_nid cipher"
definition EVP_CIPHER_block_size :: "('c, 'd) EVP_CIPHER \<Rightarrow> nat" where "EVP_CIPHER_block_size cipher = ci_block_size cipher"
definition EVP_CIPHER_key_length :: "('c, 'd) EVP_CIPHER \<Rightarrow> nat" where "EVP_CIPHER_key_length cipher = ci_key_len cipher"
definition EVP_CIPHER_iv_length :: "('c, 'd) EVP_CIPHER \<Rightarrow> nat" where "EVP_CIPHER_iv_length cipher = ci_iv_len cipher"

definition EVP_CIPHER_flags :: "('c, 'd) EVP_CIPHER \<Rightarrow> u32" where
  "EVP_CIPHER_flags cipher = ci_flags cipher AND NOT EVP_CIPH_MODE_MASK"

definition EVP_CIPHER_mode :: "('c, 'd) EVP_CIPHER \<Rightarrow> u32" where
  "EVP_CIPHER_mode cipher = ci_flags cipher AND EVP_CIPH_MODE_MASK"

section \<open>Initialisation\<close>

text \<open>The first part: a new cipher is put in place, or the old one is kept.\<close>

definition set_cipher ::
  "('c \<Rightarrow> ('c, 'd) EVP_CIPHER) \<Rightarrow> sys_malloc \<Rightarrow> ('c, 'd) ctx \<Rightarrow> 'c option \<Rightarrow> int \<Rightarrow> bool \<times> ('c, 'd) ctx" where
  "set_cipher tbl sys ctx cipher enc =
     (case cipher of
        None \<Rightarrow> (cx_cipher ctx \<noteq> None, ctx)
      | Some ci \<Rightarrow>
          let ctx = (if cx_cipher ctx \<noteq> None
                     then (let (_, ctx) = EVP_CIPHER_CTX_cleanup tbl ctx in ctx\<lparr>cx_encrypt := enc\<rparr>) else ctx);
              ctx = ctx\<lparr>cx_cipher := Some ci\<rparr>
          in if ci_ctx_size (tbl ci) \<noteq> 0 \<and> OPENSSL_malloc sys (ci_ctx_size (tbl ci)) = None
             then (False, ctx\<lparr>cx_cipher_data := None, cx_cipher := None\<rparr>)
             else
               let ctx = ctx\<lparr>cx_cipher_data := (if ci_ctx_size (tbl ci) \<noteq> 0 then Some Raw else None),
                     cx_key_len := ci_key_len (tbl ci), cx_flags := 0\<rparr>
               in if ci_flags (tbl ci) AND EVP_CIPH_CTRL_INIT \<noteq> 0
                  then (let (r, ctx, _) = EVP_CIPHER_CTX_ctrl tbl ctx EVP_CTRL_INIT 0 None
                        in if r = 0 then (False, ctx\<lparr>cx_cipher := None\<rparr>) else (True, ctx))
                  else (True, ctx))"

text \<open>The \<^verbatim>\<open>switch\<close> on the mode, for ciphers that do not manage their IV themselves.\<close>

definition set_iv :: "u32 \<Rightarrow> nat \<Rightarrow> ('c, 'd) ctx \<Rightarrow> u8 list option \<Rightarrow> (bool \<times> ('c, 'd) ctx) option" where
  "set_iv mode iv_len ctx iv =
     (if mode = EVP_CIPH_STREAM_CIPHER \<or> mode = EVP_CIPH_ECB_MODE then Some (True, ctx)
      else if mode = EVP_CIPH_CFB_MODE \<or> mode = EVP_CIPH_CBC_MODE
      then let ctx = (if mode = EVP_CIPH_CFB_MODE then ctx\<lparr>cx_num := 0\<rparr> else ctx)
        in do {
          C_assert (iv_len \<le> length (cx_iv ctx));
          let ctx = (case iv of None \<Rightarrow> ctx | Some iv \<Rightarrow> ctx\<lparr>cx_oiv := overwrite (cx_oiv ctx) 0 (take iv_len iv)\<rparr>);
          Some (True, ctx\<lparr>cx_iv := overwrite (cx_iv ctx) 0 (take iv_len (cx_oiv ctx))\<rparr>) }
      else if mode = EVP_CIPH_CTR_MODE \<or> mode = EVP_CIPH_OFB_MODE
      then let ctx = ctx\<lparr>cx_num := 0\<rparr>
        in (case iv of
              None \<Rightarrow> Some (True, ctx)
            | Some iv \<Rightarrow>
                if iv_len \<le> length (cx_iv ctx)
                then Some (True, ctx\<lparr>cx_iv := overwrite (cx_iv ctx) 0 (take iv_len iv)\<rparr>) else None)
      else Some (False, ctx))"

definition EVP_CipherInit_ex ::
  "('c \<Rightarrow> ('c, 'd) EVP_CIPHER) \<Rightarrow> sys_malloc \<Rightarrow> ('c, 'd) ctx \<Rightarrow> 'c option \<Rightarrow> u8 list option \<Rightarrow> u8 list option \<Rightarrow>
    int \<Rightarrow> (bool \<times> ('c, 'd) ctx) option" where
  "EVP_CipherInit_ex tbl sys ctx cipher key iv enc =
     (let (enc, ctx) = (if enc = -1 then (cx_encrypt ctx, ctx)
                        else let enc = (if enc \<noteq> 0 then 1 else 0) in (enc, ctx\<lparr>cx_encrypt := enc\<rparr>));
          (ok, ctx) = set_cipher tbl sys ctx cipher enc
      in if \<not> ok then Some (False, ctx)
         else do {
           ci \<leftarrow> map_option tbl (cx_cipher ctx);
           C_assert (ci_block_size ci = 1 \<or> ci_block_size ci = 8 \<or> ci_block_size ci = 16);
           (ok, ctx) \<leftarrow> (if ci_flags ci AND NOT EVP_CIPH_MODE_MASK AND EVP_CIPH_CUSTOM_IV = 0
                         then set_iv (ci_flags ci AND EVP_CIPH_MODE_MASK) (ci_iv_len ci) ctx iv
                         else Some (True, ctx));
           if \<not> ok then Some (False, ctx)
           else
             let (ok, ctx) = (if key \<noteq> None \<or> ci_flags ci AND EVP_CIPH_ALWAYS_CALL_INIT \<noteq> 0
                              then ci_init ci ctx key iv enc else (True, ctx))
             in if \<not> ok then Some (False, ctx)
                else Some (True, ctx\<lparr>cx_buf_len := 0, cx_final_used := False,
                       cx_block_mask := int (ci_block_size ci) - 1\<rparr>) })"

definition EVP_EncryptInit_ex ::
  "('c \<Rightarrow> ('c, 'd) EVP_CIPHER) \<Rightarrow> sys_malloc \<Rightarrow> ('c, 'd) ctx \<Rightarrow> 'c option \<Rightarrow> u8 list option \<Rightarrow> u8 list option \<Rightarrow>
    (bool \<times> ('c, 'd) ctx) option" where
  "EVP_EncryptInit_ex tbl sys ctx cipher key iv = EVP_CipherInit_ex tbl sys ctx cipher key iv 1"

definition EVP_DecryptInit_ex ::
  "('c \<Rightarrow> ('c, 'd) EVP_CIPHER) \<Rightarrow> sys_malloc \<Rightarrow> ('c, 'd) ctx \<Rightarrow> 'c option \<Rightarrow> u8 list option \<Rightarrow> u8 list option \<Rightarrow>
    (bool \<times> ('c, 'd) ctx) option" where
  "EVP_DecryptInit_ex tbl sys ctx cipher key iv = EVP_CipherInit_ex tbl sys ctx cipher key iv 0"

definition EVP_CipherInit ::
  "('c \<Rightarrow> ('c, 'd) EVP_CIPHER) \<Rightarrow> sys_malloc \<Rightarrow> ('c, 'd) ctx \<Rightarrow> 'c option \<Rightarrow> u8 list option \<Rightarrow> u8 list option \<Rightarrow>
    int \<Rightarrow> (bool \<times> ('c, 'd) ctx) option" where
  "EVP_CipherInit tbl sys ctx cipher key iv enc =
     EVP_CipherInit_ex tbl sys (if cipher \<noteq> None then EVP_CIPHER_CTX_init else ctx) cipher key iv enc"

definition EVP_EncryptInit ::
  "('c \<Rightarrow> ('c, 'd) EVP_CIPHER) \<Rightarrow> sys_malloc \<Rightarrow> ('c, 'd) ctx \<Rightarrow> 'c option \<Rightarrow> u8 list option \<Rightarrow> u8 list option \<Rightarrow>
    (bool \<times> ('c, 'd) ctx) option" where
  "EVP_EncryptInit tbl sys ctx cipher key iv = EVP_CipherInit tbl sys ctx cipher key iv 1"

definition EVP_DecryptInit ::
  "('c \<Rightarrow> ('c, 'd) EVP_CIPHER) \<Rightarrow> sys_malloc \<Rightarrow> ('c, 'd) ctx \<Rightarrow> 'c option \<Rightarrow> u8 list option \<Rightarrow> u8 list option \<Rightarrow>
    (bool \<times> ('c, 'd) ctx) option" where
  "EVP_DecryptInit tbl sys ctx cipher key iv = EVP_CipherInit tbl sys ctx cipher key iv 0"

section \<open>Updates\<close>

text \<open>
  The result of an operation: the return value, the bytes stored from \<open>out\<close> on and \<open>*out_len\<close>
  where it is set.
\<close>

type_synonym ('c, 'd) cipher_result = "(bool \<times> u8 list \<times> int option \<times> ('c, 'd) ctx) option"

text \<open>The conversion of an \<open>int\<close> to \<^verbatim>\<open>size_t\<close>.\<close>

definition to_size :: "int \<Rightarrow> nat" where
  "to_size n = nat (n mod 2 ^ 64)"

text \<open>A custom cipher is passed everything; \<open>inp\<close> is \<open>None\<close> for the last call.\<close>

definition custom_cipher ::
  "('c, 'd) EVP_CIPHER \<Rightarrow> ('c, 'd) ctx \<Rightarrow> u8 list option \<Rightarrow> nat \<Rightarrow> int option \<Rightarrow> ('c, 'd) cipher_result" where
  "custom_cipher ci ctx inp len on_error = do {
     (i, out, ctx) \<leftarrow> ci_cipher ci ctx inp len;
     if i < 0 then Some (False, out, on_error, ctx) else Some (True, out, Some i, ctx) }"

text \<open>What follows the completion of the partial block: \<open>out1\<close> is stored already, \<open>len1\<close> is \<^verbatim>\<open>*out_len\<close>.\<close>

definition encrypt_blocks ::
  "('c, 'd) EVP_CIPHER \<Rightarrow> ('c, 'd) ctx \<Rightarrow> u8 list \<Rightarrow> int \<Rightarrow> u8 list \<Rightarrow> int \<Rightarrow> ('c, 'd) cipher_result" where
  "encrypt_blocks ci ctx inp in_len out1 len1 =
     (let i = in_len AND cx_block_mask ctx;
          in_len = in_len - i
      in do {
        (ret, out2, len, ctx) \<leftarrow>
          (if in_len > 0
           then do {
             (ret, out2, ctx) \<leftarrow> ci_cipher ci ctx (Some (take (nat in_len) inp)) (nat in_len);
             if ret = 0 then Some (False, out2, len1, ctx)
             else do { len \<leftarrow> int_add len1 in_len; Some (True, out2, len, ctx) } }
           else Some (True, [], len1, ctx));
        if \<not> ret then Some (False, out1 @ out2, Some len, ctx)
        else
          let ctx = (if i \<noteq> 0 then ctx\<lparr>cx_buf := overwrite (cx_buf ctx) 0 (take (nat i) (drop (nat in_len) inp))\<rparr> else ctx)
          in Some (True, out1 @ out2, Some len, ctx\<lparr>cx_buf_len := i\<rparr>) })"

definition EVP_EncryptUpdate ::
  "('c \<Rightarrow> ('c, 'd) EVP_CIPHER) \<Rightarrow> ('c, 'd) ctx \<Rightarrow> u8 list \<Rightarrow> int \<Rightarrow> ('c, 'd) cipher_result" where
  "EVP_EncryptUpdate tbl ctx inp in_len = do {
     ci \<leftarrow> map_option tbl (cx_cipher ctx);
     if ci_flags ci AND EVP_CIPH_FLAG_CUSTOM_CIPHER \<noteq> 0
     then custom_cipher ci ctx (Some inp) (to_size in_len) None
     else if in_len \<le> 0 then Some (in_len = 0, [], Some 0, ctx)
     else if cx_buf_len ctx = 0 \<and> in_len AND cx_block_mask ctx = 0
     then do {
       (ret, out, ctx) \<leftarrow> ci_cipher ci ctx (Some (take (nat in_len) inp)) (nat in_len);
       if ret \<noteq> 0 then Some (True, out, Some in_len, ctx) else Some (False, out, Some 0, ctx) }
     else
       let i = cx_buf_len ctx; bl = int (ci_block_size ci)
       in do {
         C_assert (bl \<le> int (length (cx_buf ctx)));
         if i \<noteq> 0
         then
           if bl - i > in_len
           then let ctx = ctx\<lparr>cx_buf := overwrite (cx_buf ctx) (nat i) (take (nat in_len) inp)\<rparr>
             in Some (True, [], Some 0, ctx\<lparr>cx_buf_len := cx_buf_len ctx + in_len\<rparr>)
           else
             let j = bl - i;
                 ctx = ctx\<lparr>cx_buf := overwrite (cx_buf ctx) (nat i) (take (nat j) inp)\<rparr>
             in do {
               (ret, out1, ctx) \<leftarrow> ci_cipher ci ctx (Some (take (nat bl) (cx_buf ctx))) (nat bl);
               if ret = 0 then Some (False, out1, None, ctx)
               else encrypt_blocks ci ctx (drop (nat j) inp) (in_len - j) out1 bl }
         else encrypt_blocks ci ctx inp in_len [] 0 } }"

text \<open>The loop that fills the block, from byte \<open>i\<close> on.\<close>

fun pad_loop :: "u8 list \<Rightarrow> nat \<Rightarrow> nat \<Rightarrow> u8 \<Rightarrow> u8 list" where
  "pad_loop buf i 0 n = buf"
| "pad_loop buf i (Suc k) n = pad_loop (buf[i := n]) (i + 1) k n"

definition EVP_EncryptFinal_ex :: "('c \<Rightarrow> ('c, 'd) EVP_CIPHER) \<Rightarrow> ('c, 'd) ctx \<Rightarrow> ('c, 'd) cipher_result" where
  "EVP_EncryptFinal_ex tbl ctx = do {
     ci \<leftarrow> map_option tbl (cx_cipher ctx);
     if ci_flags ci AND EVP_CIPH_FLAG_CUSTOM_CIPHER \<noteq> 0 then custom_cipher ci ctx None 0 None
     else
       let b = ci_block_size ci
       in do {
         C_assert (b \<le> length (cx_buf ctx));
         if b = 1 then Some (True, [], Some 0, ctx)
         else
           let bl = nat (cx_buf_len ctx)
           in if cx_flags ctx AND EVP_CIPH_NO_PADDING \<noteq> 0
              then (if bl \<noteq> 0 then Some (False, [], None, ctx) else Some (True, [], Some 0, ctx))
              else
                let n = b - bl;
                    ctx = ctx\<lparr>cx_buf := pad_loop (cx_buf ctx) bl (b - bl) (of_nat n)\<rparr>
                in do {
                  (ret, out, ctx) \<leftarrow> ci_cipher ci ctx (Some (take b (cx_buf ctx))) b;
                  Some (ret \<noteq> 0, out, if ret \<noteq> 0 then Some (int b) else None, ctx) } } }"

definition EVP_DecryptUpdate ::
  "('c \<Rightarrow> ('c, 'd) EVP_CIPHER) \<Rightarrow> ('c, 'd) ctx \<Rightarrow> u8 list \<Rightarrow> int \<Rightarrow> ('c, 'd) cipher_result" where
  "EVP_DecryptUpdate tbl ctx inp in_len = do {
     ci \<leftarrow> map_option tbl (cx_cipher ctx);
     if ci_flags ci AND EVP_CIPH_FLAG_CUSTOM_CIPHER \<noteq> 0
     then custom_cipher ci ctx (Some inp) (to_size in_len) (Some 0)
     else if in_len \<le> 0 then Some (in_len = 0, [], Some 0, ctx)
     else if cx_flags ctx AND EVP_CIPH_NO_PADDING \<noteq> 0 then EVP_EncryptUpdate tbl ctx inp in_len
     else
       let b = ci_block_size ci
       in do {
         C_assert (b \<le> length (cx_final ctx));
         let fix_len = cx_final_used ctx;
         let out1 = (if fix_len then take b (cx_final ctx) else []);
         (ret, out2, out_len, ctx) \<leftarrow> EVP_EncryptUpdate tbl ctx inp in_len;
         if \<not> ret then Some (False, out1 @ out2, out_len, ctx)
         else do {
           n \<leftarrow> out_len;
           (n, ctx) \<leftarrow>
             (if b > 1 \<and> cx_buf_len ctx = 0
              then let n = n - int b
                in if n < 0 then None
                   else Some (n, ctx\<lparr>cx_final_used := True,
                     cx_final := overwrite (cx_final ctx) 0 (take b (drop (nat n) out2))\<rparr>)
              else Some (n, ctx\<lparr>cx_final_used := False\<rparr>));
           n \<leftarrow> (if fix_len then int_add n (int b) else Some n);
           Some (True, out1 @ out2, Some n, ctx) } } }"

text \<open>The check of the padding: the loop over the last \<open>k\<close> bytes before \<open>b\<close>.\<close>

fun pad_check :: "u8 list \<Rightarrow> nat \<Rightarrow> nat \<Rightarrow> u8 \<Rightarrow> bool" where
  "pad_check final b 0 n = True"
| "pad_check final b (Suc k) n = (if final ! (b - 1) \<noteq> n then False else pad_check final (b - 1) k n)"

definition EVP_DecryptFinal_ex :: "('c \<Rightarrow> ('c, 'd) EVP_CIPHER) \<Rightarrow> ('c, 'd) ctx \<Rightarrow> ('c, 'd) cipher_result" where
  "EVP_DecryptFinal_ex tbl ctx = do {
     ci \<leftarrow> map_option tbl (cx_cipher ctx);
     if ci_flags ci AND EVP_CIPH_FLAG_CUSTOM_CIPHER \<noteq> 0 then custom_cipher ci ctx None 0 (Some 0)
     else
       let b = ci_block_size ci
       in if cx_flags ctx AND EVP_CIPH_NO_PADDING \<noteq> 0
          then (if cx_buf_len ctx \<noteq> 0 then Some (False, [], Some 0, ctx) else Some (True, [], Some 0, ctx))
          else if b > 1
          then
            if cx_buf_len ctx \<noteq> 0 \<or> \<not> cx_final_used ctx then Some (False, [], Some 0, ctx)
            else do {
              C_assert (b \<le> length (cx_final ctx));
              let n = unat (cx_final ctx ! (b - 1));
              if n = 0 \<or> n > b then Some (False, [], Some 0, ctx)
              else if \<not> pad_check (cx_final ctx) b n (of_nat n) then Some (False, [], Some 0, ctx)
              else let n = b - n in Some (True, take n (cx_final ctx), Some (int n), ctx) }
          else Some (True, [], Some 0, ctx) }"

definition EVP_Cipher ::
  "('c \<Rightarrow> ('c, 'd) EVP_CIPHER) \<Rightarrow> ('c, 'd) ctx \<Rightarrow> u8 list option \<Rightarrow> nat \<Rightarrow> (int \<times> u8 list \<times> ('c, 'd) ctx) option" where
  "EVP_Cipher tbl ctx inp in_len = do { ci \<leftarrow> map_option tbl (cx_cipher ctx); ci_cipher ci ctx inp in_len }"

definition EVP_CipherUpdate ::
  "('c \<Rightarrow> ('c, 'd) EVP_CIPHER) \<Rightarrow> ('c, 'd) ctx \<Rightarrow> u8 list \<Rightarrow> int \<Rightarrow> ('c, 'd) cipher_result" where
  "EVP_CipherUpdate tbl ctx inp in_len =
     (if cx_encrypt ctx \<noteq> 0 then EVP_EncryptUpdate tbl ctx inp in_len else EVP_DecryptUpdate tbl ctx inp in_len)"

definition EVP_CipherFinal_ex :: "('c \<Rightarrow> ('c, 'd) EVP_CIPHER) \<Rightarrow> ('c, 'd) ctx \<Rightarrow> ('c, 'd) cipher_result" where
  "EVP_CipherFinal_ex tbl ctx =
     (if cx_encrypt ctx \<noteq> 0 then EVP_EncryptFinal_ex tbl ctx else EVP_DecryptFinal_ex tbl ctx)"

end
