(* ===== verification/Cipher_Spec.thy ===== *)
theory Cipher_Spec
  imports Cipher
begin

text \<open>
  What \<^verbatim>\<open>cipher.c\<close> makes of a block cipher's methods. The locale \<open>block_methods\<close> states what it
  relies on: a method that processes whole blocks one after the other and keeps out of the
  buffers of the context. From it follows that updates may cut the data anywhere, and what the
  padding of the last block does.
\<close>

section \<open>The contract of a block cipher's methods\<close>

text \<open>The fields of a context that belong to the methods, and those that belong to the buffering.\<close>

definition method_state :: "('c, 'd) ctx \<Rightarrow> 'd data_block option \<times> u8 list \<times> nat \<times> int" where
  "method_state ctx = (cx_cipher_data ctx, cx_iv ctx, cx_num ctx, cx_encrypt ctx)"

definition same_buffers :: "('c, 'd) ctx \<Rightarrow> ('c, 'd) ctx \<Rightarrow> bool" where
  "same_buffers ctx ctx' \<longleftrightarrow>
     cx_cipher ctx' = cx_cipher ctx \<and> cx_flags ctx' = cx_flags ctx \<and> cx_buf ctx' = cx_buf ctx \<and>
     cx_buf_len ctx' = cx_buf_len ctx \<and> cx_final_used ctx' = cx_final_used ctx \<and>
     cx_block_mask ctx' = cx_block_mask ctx \<and> cx_final ctx' = cx_final ctx"

lemma method_state_update [simp]:
  "method_state (ctx\<lparr>cx_buf := x\<rparr>) = method_state ctx" "method_state (ctx\<lparr>cx_buf_len := y\<rparr>) = method_state ctx"
  "method_state (ctx\<lparr>cx_final_used := z\<rparr>) = method_state ctx" "method_state (ctx\<lparr>cx_final := v\<rparr>) = method_state ctx"
  "method_state (ctx\<lparr>cx_block_mask := w\<rparr>) = method_state ctx"
  by (simp_all add: method_state_def)

lemma and_block_mask:
  "b \<in> {8, 16} \<Longrightarrow> int n AND (int b - 1) = int (n mod b)"
proof -
  have 8: "int n AND 7 = int n mod 8" using take_bit_eq_mask[of 3 "int n"] by (simp add: take_bit_eq_mod mask_eq_exp_minus_1)
  have 16: "int n AND 15 = int n mod 16" using take_bit_eq_mask[of 4 "int n"] by (simp add: take_bit_eq_mod mask_eq_exp_minus_1)
  assume "b \<in> {8, 16}"
  then show ?thesis using 8 16 by (auto simp: zmod_int)
qed

text \<open>A whole message: updates with the chunks of a list and the final call, the output appended.\<close>

fun run_updates ::
  "(('c, 'd) ctx \<Rightarrow> u8 list \<Rightarrow> int \<Rightarrow> ('c, 'd) cipher_result) \<Rightarrow> ('c, 'd) ctx \<Rightarrow> u8 list list \<Rightarrow>
    (u8 list \<times> ('c, 'd) ctx) option" where
  "run_updates update ctx [] = Some ([], ctx)"
| "run_updates update ctx (x # xs) = do {
     (ret, out, n, ctx) \<leftarrow> update ctx x (int (length x));
     n \<leftarrow> n;
     if \<not> ret then None
     else do { (out', ctx) \<leftarrow> run_updates update ctx xs; Some (take (nat n) out @ out', ctx) } }"

definition run_cipher ::
  "(('c, 'd) ctx \<Rightarrow> u8 list \<Rightarrow> int \<Rightarrow> ('c, 'd) cipher_result) \<Rightarrow> (('c, 'd) ctx \<Rightarrow> ('c, 'd) cipher_result) \<Rightarrow>
    ('c, 'd) ctx \<Rightarrow> u8 list list \<Rightarrow> (bool \<times> u8 list) option" where
  "run_cipher update final ctx xs = do {
     (out, ctx) \<leftarrow> run_updates update ctx xs;
     (ret, out', n, ctx) \<leftarrow> final ctx;
     n \<leftarrow> n;
     Some (ret, out @ take (nat n) out') }"

text \<open>The padding: \<open>n\<close> bytes of value \<open>n\<close>, at least one.\<close>

definition pkcs_pad :: "nat \<Rightarrow> u8 list \<Rightarrow> u8 list" where
  "pkcs_pad b xs = (let n = b - length xs mod b in xs @ replicate n (of_nat n))"

definition pkcs_unpad :: "nat \<Rightarrow> u8 list \<Rightarrow> u8 list option" where
  "pkcs_unpad b xs =
     (let n = unat (last xs)
      in if n = 0 \<or> n > b \<or> \<not> list_all (\<lambda>x. x = last xs) (drop (length xs - n) xs) then None
         else Some (take (length xs - n) xs))"

lemma pkcs_unpad_pad:
  assumes "0 < b" "b < 256"
  shows "pkcs_unpad b (pkcs_pad b xs) = Some xs"
proof -
  define n where "n = b - length xs mod b"
  have n: "0 < n" "n \<le> b" using assms by (simp_all add: n_def)
  then have "unat (of_nat n :: u8) = n" using assms by (simp add: unat_of_nat)
  moreover have "last (xs @ replicate n (of_nat n :: u8)) = of_nat n" using n by simp
  ultimately show ?thesis
    using n unfolding pkcs_pad_def Let_def n_def[symmetric] by (simp add: pkcs_unpad_def list_all_iff)
qed

lemma length_pkcs_pad: "0 < b \<Longrightarrow> length (pkcs_pad b xs) = b * (length xs div b + 1)"
proof -
  assume "0 < b"
  then have "length xs mod b < b" by simp
  then have "length (pkcs_pad b xs) = (length xs - length xs mod b) + b"
    by (simp add: pkcs_pad_def Let_def)
  then show ?thesis by (simp add: minus_mod_eq_mult_div)
qed

lemma pad_loop_eq: "i + k \<le> length buf \<Longrightarrow> pad_loop buf i k n = overwrite buf i (replicate k n)"
proof (induction k arbitrary: buf i)
  case (Suc k)
  have "pad_loop (buf[i := n]) (i + 1) k n = overwrite (buf[i := n]) (i + 1) (replicate k n)"
    using Suc.prems by (intro Suc.IH) simp
  also have "\<dots> = overwrite buf i (replicate (Suc k) n)"
    using Suc.prems by (simp add: overwrite_def take_Suc_conv_app_nth list_update_append)
  finally show ?case by simp
qed simp

lemma pad_check_iff:
  "k \<le> b \<Longrightarrow> b \<le> length final \<Longrightarrow> pad_check final b k n \<longleftrightarrow> list_all (\<lambda>x. x = n) (drop (b - k) (take b final))"
proof (induction k arbitrary: b)
  case (Suc k)
  have "drop (b - Suc k) (take b final) = drop (b - Suc k) (take (b - 1) final) @ [final ! (b - 1)]"
  proof -
    have "take b final = take (b - 1) final @ [final ! (b - 1)]"
      using Suc.prems take_Suc_conv_app_nth[of "b - 1" final] by simp
    then show ?thesis using Suc.prems by simp
  qed
  moreover have "b - 1 - k = b - Suc k" by simp
  moreover have "pad_check final (b - 1) k n \<longleftrightarrow> list_all (\<lambda>x. x = n) (drop (b - 1 - k) (take (b - 1) final))"
    using Suc.prems by (intro Suc.IH) simp_all
  ultimately show ?case by (simp only: pad_check.simps list_all_append) simp
qed simp

lemma take_drop_prefix:
  "n = length xs + m \<Longrightarrow> take n (xs @ ys) = xs @ take m ys"
  "n = length xs + m \<Longrightarrow> drop n (xs @ ys) = drop m ys"
  by simp_all

locale block_methods =
  fixes tbl :: "'c \<Rightarrow> ('c, 'd) EVP_CIPHER" and c :: 'c and b :: nat
    and run :: "'s \<Rightarrow> u8 list \<Rightarrow> u8 list \<times> 's"
    and state :: "'d data_block option \<times> u8 list \<times> nat \<times> int \<Rightarrow> 's"
    and ok :: "'d data_block option \<times> u8 list \<times> nat \<times> int \<Rightarrow> bool"
  assumes block: "ci_block_size (tbl c) = b" "b \<in> {8, 16}"
    and plain: "ci_flags (tbl c) AND EVP_CIPH_FLAG_CUSTOM_CIPHER = 0"
    and method_spec: "cx_cipher ctx = Some c \<Longrightarrow> ok (method_state ctx) \<Longrightarrow> length xs = b * j \<Longrightarrow>
      \<exists>ctx'. ci_cipher (tbl c) ctx (Some xs) (b * j) = Some (1, fst (run (state (method_state ctx)) xs), ctx') \<and>
        ok (method_state ctx') \<and> state (method_state ctx') = snd (run (state (method_state ctx)) xs) \<and>
        same_buffers ctx ctx'"
    and run_length: "length xs = b * j \<Longrightarrow> length (fst (run s xs)) = b * j"
    and run_Nil: "run s [] = ([], s)"
    and run_append: "length xs = b * j \<Longrightarrow> length ys = b * k \<Longrightarrow>
      run s (xs @ ys) = (fst (run s xs) @ fst (run (snd (run s xs)) ys), snd (run (snd (run s xs)) ys))"
begin

lemma b_bounds: "1 < b" "b \<le> 16"
  using block(2) by auto

text \<open>A context with the whole blocks processed and \<open>pend\<close> left over.\<close>

definition holds :: "('c, 'd) ctx \<Rightarrow> 's \<Rightarrow> u8 list \<Rightarrow> bool" where
  "holds ctx s pend \<longleftrightarrow>
     cx_cipher ctx = Some c \<and> ok (method_state ctx) \<and> state (method_state ctx) = s \<and>
     length (cx_buf ctx) = 32 \<and> cx_buf_len ctx = int (length pend) \<and> take (length pend) (cx_buf ctx) = pend \<and>
     length pend < b \<and> cx_block_mask ctx = int b - 1"

definition whole :: "u8 list \<Rightarrow> nat" where
  "whole xs = b * (length xs div b)"

lemma whole_le: "whole xs \<le> length xs"
  by (simp add: whole_def)

lemma length_take_whole: "length (take (whole xs) xs) = b * (length xs div b)"
  using whole_le[of xs] by (simp add: whole_def)

lemma length_drop_whole: "length (drop (whole xs) xs) = length xs mod b"
  by (simp add: whole_def minus_mult_div_eq_mod)

lemma length_drop_whole_lt: "length (drop (whole xs) xs) < b"
  using b_bounds by (simp only: length_drop_whole) simp

lemma whole_append: "length xs = b * j \<Longrightarrow> whole (xs @ ys) = b * j + whole ys"
  using b_bounds by (simp add: whole_def distrib_left)

lemma minus_mask_whole: "int (length xs) - (int (length xs) AND (int b - 1)) = int (whole xs)"
  unfolding and_block_mask[OF block(2)] whole_def minus_mod_eq_mult_div[symmetric] by (simp add: of_nat_diff)

text \<open>Chunks that leave room in an \<^verbatim>\<open>int\<close> for the lengths computed from them.\<close>

definition small :: "u8 list \<Rightarrow> bool" where
  "small xs \<longleftrightarrow> length xs + 32 < 2 ^ 31"

lemma small_whole:
  assumes "holds ctx s pend" "small xs"
  shows "whole (pend @ xs) < 2 ^ 31"
  using assms whole_le[of "pend @ xs"] b_bounds by (simp add: holds_def small_def)

text \<open>One call of the method.\<close>

lemma method_call:
  assumes "cx_cipher ctx = Some c" "ok (method_state ctx)" "length xs = b * j" "n = b * j"
  obtains ctx' where "ci_cipher (tbl c) ctx (Some xs) n = Some (1, fst (run (state (method_state ctx)) xs), ctx')"
    "ok (method_state ctx')" "state (method_state ctx') = snd (run (state (method_state ctx)) xs)"
    "same_buffers ctx ctx'"
  using method_spec[OF assms(1-3)] assms(4) by blast

section \<open>Updates\<close>

lemma encrypt_blocks_holds:
  assumes cx: "cx_cipher ctx = Some c" "ok (method_state ctx)" "length (cx_buf ctx) = 32" "cx_block_mask ctx = int b - 1"
    and n: "0 \<le> len1" "len1 + int (whole xs) < 2 ^ 31"
  shows "\<exists>ctx'. encrypt_blocks (tbl c) ctx xs (int (length xs)) out1 len1 =
      Some (True, out1 @ fst (run (state (method_state ctx)) (take (whole xs) xs)), Some (len1 + int (whole xs)), ctx') \<and>
    holds ctx' (snd (run (state (method_state ctx)) (take (whole xs) xs))) (drop (whole xs) xs) \<and>
    cx_flags ctx' = cx_flags ctx \<and> cx_final ctx' = cx_final ctx \<and> cx_final_used ctx' = cx_final_used ctx"
proof -
  let ?r = "run (state (method_state ctx)) (take (whole xs) xs)"
  have i: "int (length xs) AND cx_block_mask ctx = int (length xs mod b)"
    unfolding cx(4) by (rule and_block_mask[OF block(2)])
  have w: "int (length xs) - int (length xs mod b) = int (whole xs)"
    using minus_mask_whole[of xs] unfolding and_block_mask[OF block(2)] .
  have wn: "nat (int (whole xs)) = whole xs" "nat (int (length xs mod b)) = length xs mod b" by simp_all
  obtain ctx1 where m: "(if int (whole xs) > 0
       then do {
         (ret, out2, ctx) \<leftarrow> ci_cipher (tbl c) ctx (Some (take (whole xs) xs)) (whole xs);
         if ret = 0 then Some (False, out2, len1, ctx)
         else do { len \<leftarrow> int_add len1 (int (whole xs)); Some (True, out2, len, ctx) } }
       else Some (True, [], len1, ctx)) = Some (True, fst ?r, len1 + int (whole xs), ctx1)"
    and c1: "ok (method_state ctx1)" "state (method_state ctx1) = snd ?r" "same_buffers ctx ctx1"
  proof (cases "0 < whole xs")
    case True
    obtain ctx' where "ci_cipher (tbl c) ctx (Some (take (whole xs) xs)) (whole xs) = Some (1, fst ?r, ctx')"
      "ok (method_state ctx')" "state (method_state ctx') = snd ?r" "same_buffers ctx ctx'"
      by (rule method_call[OF cx(1,2) length_take_whole whole_def])
    moreover have "int_add len1 (int (whole xs)) = Some (len1 + int (whole xs))"
      using n by (simp add: int_add_def)
    ultimately show ?thesis using True that[of ctx'] by simp
  next
    case False
    then show ?thesis using that[of ctx] cx(2) run_Nil by (simp add: same_buffers_def)
  qed
  let ?i = "length xs mod b"
  let ?ctx2 = "if int ?i \<noteq> 0 then ctx1\<lparr>cx_buf := overwrite (cx_buf ctx1) 0 (take ?i (drop (whole xs) xs))\<rparr> else ctx1"
  let ?ctx3 = "?ctx2\<lparr>cx_buf_len := int ?i\<rparr>"
  have eq: "encrypt_blocks (tbl c) ctx xs (int (length xs)) out1 len1 =
      Some (True, out1 @ fst ?r, Some (len1 + int (whole xs)), ?ctx3)"
    unfolding encrypt_blocks_def Let_def i w wn m by simp
  have ld: "length (drop (whole xs) xs) = ?i" by (rule length_drop_whole)
  have "?i < b" using b_bounds by simp
  then have "?i + (32 - ?i) = 32" using b_bounds by linarith
  moreover note \<open>?i < b\<close>
  ultimately have "take ?i (cx_buf ?ctx3) = drop (whole xs) xs" "length (cx_buf ?ctx3) = 32"
    using ld cx(3) c1(3) by (auto simp: overwrite_def same_buffers_def)
  moreover note \<open>?i < b\<close>
  moreover have "method_state ?ctx3 = method_state ctx1" by simp
  ultimately have "holds ?ctx3 (snd ?r) (drop (whole xs) xs)"
    using cx c1 unfolding holds_def ld by (auto simp: same_buffers_def)
  moreover have "cx_flags ?ctx3 = cx_flags ctx" "cx_final ?ctx3 = cx_final ctx" "cx_final_used ?ctx3 = cx_final_used ctx"
    using c1(3) by (simp_all add: same_buffers_def)
  ultimately show ?thesis using eq by blast
qed

lemma update_holds:
  assumes h: "holds ctx s pend" and n: "whole (pend @ xs) < 2 ^ 31"
  shows "\<exists>ctx'. EVP_EncryptUpdate tbl ctx xs (int (length xs)) =
      Some (True, fst (run s (take (whole (pend @ xs)) (pend @ xs))), Some (int (whole (pend @ xs))), ctx') \<and>
    holds ctx' (snd (run s (take (whole (pend @ xs)) (pend @ xs)))) (drop (whole (pend @ xs)) (pend @ xs)) \<and>
    cx_flags ctx' = cx_flags ctx \<and> cx_final ctx' = cx_final ctx \<and>
    (xs \<noteq> [] \<longrightarrow> cx_final_used ctx' = cx_final_used ctx) \<and> (xs = [] \<longrightarrow> ctx' = ctx)"
proof -
  have cx: "cx_cipher ctx = Some c" "ok (method_state ctx)" "length (cx_buf ctx) = 32" "cx_block_mask ctx = int b - 1"
    and s: "state (method_state ctx) = s" and p: "cx_buf_len ctx = int (length pend)"
      "take (length pend) (cx_buf ctx) = pend" "length pend < b"
    using h by (simp_all add: holds_def)
  have asst: "int b \<le> int (length (cx_buf ctx))" using cx(3) b_bounds by simp
  have pos: "\<not> int (length xs) \<le> 0" if "xs \<noteq> []" using that by simp
  note simps = EVP_EncryptUpdate_def cx(1) option.map bind.bind_lunit plain block(1) Let_def p(1)
  consider (empty) "xs = []" | (aligned) "xs \<noteq> []" "pend = []" "length xs mod b = 0"
    | (short) "xs \<noteq> []" "pend \<noteq> []" "length xs < b - length pend"
    | (complete) "xs \<noteq> []" "pend \<noteq> []" "b - length pend \<le> length xs"
    | (start) "xs \<noteq> []" "pend = []" "length xs mod b \<noteq> 0" by linarith
  then show ?thesis
  proof cases
    case empty
    then have "whole (pend @ xs) = 0" using p(3) by (simp add: whole_def)
    then show ?thesis using empty h run_Nil by (simp add: EVP_EncryptUpdate_def cx(1) plain)
  next
    case aligned
    have w: "whole xs = length xs" using aligned(3) by (simp add: whole_def mod_eq_0_iff_dvd)
    have m: "int (length xs) AND cx_block_mask ctx = 0"
      unfolding cx(4) and_block_mask[OF block(2)] using aligned(3) by simp
    obtain ctx' where "ci_cipher (tbl c) ctx (Some xs) (length xs) = Some (1, fst (run s xs), ctx')"
      "ok (method_state ctx')" "state (method_state ctx') = snd (run s xs)" "same_buffers ctx ctx'"
      using method_call[OF cx(1,2), of xs "length xs div b" "length xs"] w unfolding whole_def s by metis
    then show ?thesis using aligned w m h pos
      by (auto simp: EVP_EncryptUpdate_def plain p(1) holds_def same_buffers_def)
  next
    case short
    then have "whole (pend @ xs) = 0" using p(3) by (simp add: whole_def)
    moreover have "int b - int (length pend) > int (length xs)" using short(3) by linarith
    moreover have "length pend + length xs < b" using short(3) by linarith
    moreover from this have "length pend + length xs \<le> 32" using b_bounds by linarith
    ultimately show ?thesis using short h run_Nil pos asst
      by (auto simp: EVP_EncryptUpdate_def plain block(1) Let_def holds_def overwrite_def)
  next
    case complete
    let ?j = "b - length pend"
    let ?ctx1 = "ctx\<lparr>cx_buf := overwrite (cx_buf ctx) (length pend) (take ?j xs)\<rparr>"
    let ?B = "pend @ take ?j xs"
    have j: "nat (int b - int (length pend)) = ?j" "int b - int (length pend) = int ?j" using p(3) by linarith+
    have lB: "length ?B = b * 1" using complete(3) p(3) by simp
    have b1: "cx_cipher ?ctx1 = Some c" "ok (method_state ?ctx1)" using cx by simp_all
    have buf1: "take b (cx_buf ?ctx1) = ?B" "length (cx_buf ?ctx1) = 32"
      using lB p cx(3) b_bounds complete(3) by (simp_all add: overwrite_def)
    obtain ctx2 where c2: "ci_cipher (tbl c) ?ctx1 (Some ?B) b = Some (1, fst (run s ?B), ctx2)"
      "ok (method_state ctx2)" "state (method_state ctx2) = snd (run s ?B)" "same_buffers ?ctx1 ctx2"
      using method_call[OF b1 lB, of b] s by auto
    let ?xs = "drop ?j xs"
    have px: "pend @ xs = ?B @ ?xs" by simp
    have w: "whole (pend @ xs) = b + whole ?xs"
      using whole_append[OF lB, of ?xs] unfolding px[symmetric] by simp
    have "cx_cipher ctx2 = Some c" "length (cx_buf ctx2) = 32" "cx_block_mask ctx2 = int b - 1"
      using c2(4) cx buf1(2) by (simp_all add: same_buffers_def)
    moreover have "0 \<le> int b" "int b + int (whole ?xs) < 2 ^ 31" using n unfolding w by simp_all
    ultimately obtain ctx3 where e: "encrypt_blocks (tbl c) ctx2 ?xs (int (length ?xs)) (fst (run s ?B)) (int b) =
        Some (True, fst (run s ?B) @ fst (run (snd (run s ?B)) (take (whole ?xs) ?xs)), Some (int b + int (whole ?xs)), ctx3)"
      "holds ctx3 (snd (run (snd (run s ?B)) (take (whole ?xs) ?xs))) (drop (whole ?xs) ?xs)"
      "cx_flags ctx3 = cx_flags ctx2 \<and> cx_final ctx3 = cx_final ctx2 \<and> cx_final_used ctx3 = cx_final_used ctx2"
      using encrypt_blocks_holds[OF _ c2(2), of "int b" ?xs "fst (run s ?B)"] unfolding c2(3) by blast
    have t: "take (whole (pend @ xs)) (pend @ xs) = ?B @ take (whole ?xs) ?xs"
      "drop (whole (pend @ xs)) (pend @ xs) = drop (whole ?xs) ?xs"
    proof -
      have n: "whole (pend @ xs) = length ?B + whole ?xs" using w lB by simp
      show "take (whole (pend @ xs)) (pend @ xs) = ?B @ take (whole ?xs) ?xs"
        using take_drop_prefix(1)[OF n, of ?xs] unfolding px[symmetric] .
      show "drop (whole (pend @ xs)) (pend @ xs) = drop (whole ?xs) ?xs"
        using take_drop_prefix(2)[OF n, of ?xs] unfolding px[symmetric] .
    qed
    have len: "int (length xs) - int ?j = int (length ?xs)" using complete(3) by simp
    have "EVP_EncryptUpdate tbl ctx xs (int (length xs)) =
      encrypt_blocks (tbl c) ctx2 ?xs (int (length ?xs)) (fst (run s ?B)) (int b)"
    proof -
      have "\<not> int b - int (length pend) > int (length xs)" using complete(3) by linarith
      then show ?thesis using complete(2) pos[OF complete(1)] asst c2(1) buf1(1)
        by (simp add: EVP_EncryptUpdate_def cx(1) plain block(1) Let_def p(1) j(1) j(2)[symmetric] len[symmetric])
    qed
    moreover have "cx_flags ctx2 = cx_flags ctx" "cx_final ctx2 = cx_final ctx" "cx_final_used ctx2 = cx_final_used ctx"
      using c2(4) by (simp_all add: same_buffers_def)
    moreover have r: "run s (take (whole (pend @ xs)) (pend @ xs)) =
        (fst (run s ?B) @ fst (run (snd (run s ?B)) (take (whole ?xs) ?xs)), snd (run (snd (run s ?B)) (take (whole ?xs) ?xs)))"
      unfolding t(1) by (rule run_append[OF lB length_take_whole])
    ultimately show ?thesis unfolding r t(2) fst_conv snd_conv unfolding w of_nat_add using e complete(1) by auto
  next
    case start
    from encrypt_blocks_holds[OF cx, of 0 xs "[]"] n start(2) obtain ctx' where
      e: "encrypt_blocks (tbl c) ctx xs (int (length xs)) [] 0 =
        Some (True, fst (run s (take (whole xs) xs)), Some (int (whole xs)), ctx')"
      "holds ctx' (snd (run s (take (whole xs) xs))) (drop (whole xs) xs)"
      "cx_flags ctx' = cx_flags ctx \<and> cx_final ctx' = cx_final ctx \<and> cx_final_used ctx' = cx_final_used ctx"
      by (auto simp: s)
    have m: "int (length xs) AND cx_block_mask ctx \<noteq> 0"
      unfolding cx(4) and_block_mask[OF block(2)] using start(3) by simp
    have "EVP_EncryptUpdate tbl ctx xs (int (length xs)) = encrypt_blocks (tbl c) ctx xs (int (length xs)) [] 0"
      using start pos m asst by (simp add: EVP_EncryptUpdate_def cx(1) plain block(1) Let_def p(1))
    then show ?thesis using e start by auto
  qed
qed

text \<open>
  A chunk that completes the partial block and brings more than \<^verbatim>\<open>INT_MAX\<close> bytes of output in all
  overflows \<^verbatim>\<open>*out_len\<close>.
\<close>

lemma update_overflow:
  assumes h: "holds ctx s pend" and ne: "pend \<noteq> []" and n: "2 ^ 31 \<le> whole (pend @ xs)"
  shows "EVP_EncryptUpdate tbl ctx xs (int (length xs)) = None"
proof -
  have cx: "cx_cipher ctx = Some c" "ok (method_state ctx)" "length (cx_buf ctx) = 32" "cx_block_mask ctx = int b - 1"
    and p: "cx_buf_len ctx = int (length pend)" "take (length pend) (cx_buf ctx) = pend" "length pend < b"
    using h by (simp_all add: holds_def)
  let ?j = "b - length pend" let ?xs = "drop ?j xs"
  have big: "?j \<le> length xs" "xs \<noteq> []" using n whole_le[of "pend @ xs"] b_bounds p(3) by auto
  let ?ctx1 = "ctx\<lparr>cx_buf := overwrite (cx_buf ctx) (length pend) (take ?j xs)\<rparr>"
  let ?B = "pend @ take ?j xs"
  have j: "nat (int b - int (length pend)) = ?j" "int b - int (length pend) = int ?j" using p(3) by linarith+
  have lB: "length ?B = b * 1" using big(1) p(3) by simp
  have b1: "cx_cipher ?ctx1 = Some c" "ok (method_state ?ctx1)" using cx by simp_all
  have buf1: "take b (cx_buf ?ctx1) = ?B" "length (cx_buf ?ctx1) = 32"
    using lB p cx(3) b_bounds big(1) by (simp_all add: overwrite_def)
  obtain ctx2 out where c2: "ci_cipher (tbl c) ?ctx1 (Some ?B) b = Some (1, out, ctx2)"
    "ok (method_state ctx2)" "same_buffers ?ctx1 ctx2"
    by (rule method_call[OF b1 lB, of b]) simp
  have w: "whole (pend @ xs) = b + whole ?xs" using whole_append[OF lB, of ?xs] by simp
  have c: "cx_cipher ctx2 = Some c" "cx_block_mask ctx2 = int b - 1" using c2(3) cx by (simp_all add: same_buffers_def)
  obtain ctx3 out3 where "ci_cipher (tbl c) ctx2 (Some (take (whole ?xs) ?xs)) (whole ?xs) = Some (1, out3, ctx3)"
    by (rule method_call[OF c(1) c2(2) length_take_whole whole_def])
  moreover have "int (length ?xs) - (int (length ?xs) AND cx_block_mask ctx2) = int (whole ?xs)"
    unfolding c(2) by (rule minus_mask_whole)
  moreover have "int_add (int b) (int (whole ?xs)) = None" "0 < whole ?xs" using n b_bounds unfolding w by (simp_all add: int_add_def)
  ultimately have e: "encrypt_blocks (tbl c) ctx2 ?xs (int (length ?xs)) out (int b) = None"
    by (simp add: encrypt_blocks_def)
  have len: "int (length xs) - int ?j = int (length ?xs)" using big(1) by simp
  have "\<not> int b - int (length pend) > int (length xs)" using big(1) by linarith
  moreover have "int b \<le> int (length (cx_buf ctx))" using cx(3) b_bounds by simp
  ultimately show ?thesis using ne big(2) c2(1) buf1(1) e
    by (simp add: EVP_EncryptUpdate_def cx(1) plain block(1) Let_def p(1) j(1) j(2)[symmetric] len[symmetric])
qed

section \<open>Encryption of a message\<close>

lemma take_whole_append:
  "take (whole (xs @ ys)) (xs @ ys) =
     take (whole xs) xs @ take (whole (drop (whole xs) xs @ ys)) (drop (whole xs) xs @ ys)"
  and drop_whole_append:
  "drop (whole (xs @ ys)) (xs @ ys) = drop (whole (drop (whole xs) xs @ ys)) (drop (whole xs) xs @ ys)"
proof -
  have e: "xs @ ys = take (whole xs) xs @ (drop (whole xs) xs @ ys)" by simp
  have w: "whole (xs @ ys) = length (take (whole xs) xs) + whole (drop (whole xs) xs @ ys)"
    by (subst e, subst whole_append[OF length_take_whole]) (simp only: length_take_whole)
  show "take (whole (xs @ ys)) (xs @ ys) =
     take (whole xs) xs @ take (whole (drop (whole xs) xs @ ys)) (drop (whole xs) xs @ ys)"
    using take_drop_prefix(1)[OF w, of "drop (whole xs) xs @ ys"] unfolding e[symmetric] .
  show "drop (whole (xs @ ys)) (xs @ ys) = drop (whole (drop (whole xs) xs @ ys)) (drop (whole xs) xs @ ys)"
    using take_drop_prefix(2)[OF w, of "drop (whole xs) xs @ ys"] unfolding e[symmetric] .
qed

lemma run_whole_append:
  "run s (take (whole (xs @ ys)) (xs @ ys)) =
    (let (o1, s1) = run s (take (whole xs) xs); ys' = drop (whole xs) xs @ ys;
         (o2, s2) = run s1 (take (whole ys') ys') in (o1 @ o2, s2))"
  unfolding take_whole_append[of xs ys] Let_def run_append[OF length_take_whole length_take_whole]
  by (simp add: case_prod_beta)

lemma length_run_whole: "length (fst (run s (take (whole xs) xs))) = whole xs"
  using run_length[OF length_take_whole] by (simp add: whole_def)

lemma updates_holds:
  "holds ctx s pend \<Longrightarrow> list_all small xss \<Longrightarrow>
    \<exists>ctx'. run_updates (EVP_EncryptUpdate tbl) ctx xss =
      Some (fst (run s (take (whole (pend @ concat xss)) (pend @ concat xss))), ctx') \<and>
    holds ctx' (snd (run s (take (whole (pend @ concat xss)) (pend @ concat xss)))) (drop (whole (pend @ concat xss)) (pend @ concat xss)) \<and>
    cx_flags ctx' = cx_flags ctx"
proof (induction xss arbitrary: ctx s pend)
  case Nil
  then have "whole pend = 0" by (simp add: holds_def whole_def)
  then show ?case using Nil by (simp add: run_Nil)
next
  case (Cons x xss)
  let ?d = "pend @ x"
  let ?r = "run s (take (whole ?d) ?d)"
  let ?pend = "drop (whole ?d) ?d"
  have "whole (pend @ x) < 2 ^ 31" using Cons.prems by (intro small_whole) simp_all
  from update_holds[OF Cons.prems(1) this] obtain ctx1 where
    u: "EVP_EncryptUpdate tbl ctx x (int (length x)) = Some (True, fst ?r, Some (int (whole ?d)), ctx1)"
    "holds ctx1 (snd ?r) ?pend" "cx_flags ctx1 = cx_flags ctx" by blast
  from Cons.IH[OF u(2)] Cons.prems(2) obtain ctx' where
    i: "run_updates (EVP_EncryptUpdate tbl) ctx1 xss =
      Some (fst (run (snd ?r) (take (whole (?pend @ concat xss)) (?pend @ concat xss))), ctx')"
    "holds ctx' (snd (run (snd ?r) (take (whole (?pend @ concat xss)) (?pend @ concat xss))))
      (drop (whole (?pend @ concat xss)) (?pend @ concat xss))" "cx_flags ctx' = cx_flags ctx1" by auto
  have "pend @ concat (x # xss) = ?d @ concat xss" by simp
  moreover have "take (whole ?d) (fst ?r) = fst ?r" using length_run_whole[of s ?d] by simp
  ultimately show ?case
    using u i drop_whole_append[of ?d "concat xss"] run_whole_append[of s ?d "concat xss"]
    by (simp only: run_updates.simps) (simp add: Let_def case_prod_beta)
qed

lemma final_holds:
  assumes h: "holds ctx s pend" and p: "cx_flags ctx AND EVP_CIPH_NO_PADDING = 0"
  shows "\<exists>ctx'. EVP_EncryptFinal_ex tbl ctx = Some (True, fst (run s (pkcs_pad b pend)), Some (int b), ctx')"
proof -
  let ?n = "b - length pend"
  let ?ctx = "ctx\<lparr>cx_buf := pad_loop (cx_buf ctx) (length pend) ?n (of_nat ?n)\<rparr>"
  have c: "cx_cipher ?ctx = Some c" "ok (method_state ?ctx)" "state (method_state ?ctx) = s"
    and lp: "length pend < b" "length (cx_buf ctx) = 32" "take (length pend) (cx_buf ctx) = pend"
      "cx_buf_len ctx = int (length pend)"
    using h by (simp_all add: holds_def)
  have pad: "pkcs_pad b pend = pend @ replicate ?n (of_nat ?n)" using lp(1) by (simp add: pkcs_pad_def Let_def)
  have lpad: "length (pkcs_pad b pend) = b * 1" using lp(1) unfolding pad by simp
  have "length pend + ?n \<le> 32" using lp(1) b_bounds by simp
  then have t: "take b (cx_buf ?ctx) = pkcs_pad b pend"
    using lp b_bounds unfolding pad by (simp add: pad_loop_eq overwrite_def)
  obtain ctx' where "ci_cipher (tbl c) ?ctx (Some (pkcs_pad b pend)) b = Some (1, fst (run s (pkcs_pad b pend)), ctx')"
    using method_call[OF c(1,2) lpad, of b] unfolding c(3) by auto
  then show ?thesis using t p plain lp(2,4) b_bounds c(1)
    by (simp add: EVP_EncryptFinal_ex_def block(1) Let_def)
qed

text \<open>The output is the cipher on the padded message.\<close>

lemma encrypt_message:
  assumes "holds ctx s []" "cx_flags ctx AND EVP_CIPH_NO_PADDING = 0" "list_all small xss"
  shows "run_cipher (EVP_EncryptUpdate tbl) (EVP_EncryptFinal_ex tbl) ctx xss =
    Some (True, fst (run s (pkcs_pad b (concat xss))))"
proof -
  let ?d = "concat xss"
  let ?r = "run s (take (whole ?d) ?d)"
  let ?p = "drop (whole ?d) ?d"
  from updates_holds[OF assms(1,3)] obtain ctx' where
    u: "run_updates (EVP_EncryptUpdate tbl) ctx xss = Some (fst ?r, ctx')"
    "holds ctx' (snd ?r) ?p" "cx_flags ctx' = cx_flags ctx" by auto
  from final_holds[OF u(2)] u(3) assms(2) obtain ctx'' where
    f: "EVP_EncryptFinal_ex tbl ctx' = Some (True, fst (run (snd ?r) (pkcs_pad b ?p)), Some (int b), ctx'')"
    by auto
  have lp: "length ?p = length ?d mod b" by (rule length_drop_whole)
  have pp: "pkcs_pad b ?d = take (whole ?d) ?d @ pkcs_pad b ?p"
    unfolding pkcs_pad_def lp Let_def by simp
  have l1: "length (pkcs_pad b ?p) = b * 1"
    using length_pkcs_pad[of b ?p] length_drop_whole_lt[of ?d] b_bounds by simp
  have "length (fst (run (snd ?r) (pkcs_pad b ?p))) = b" using run_length[OF l1] by simp
  then show ?thesis
    unfolding run_cipher_def pp run_append[OF length_take_whole l1] using u(1) f by simp
qed

section \<open>Decryption of a message\<close>

text \<open>
  A context that has been given \<open>D\<close> and has returned \<open>out\<close>: everything decrypted, except that the
  last block is kept back in \<^verbatim>\<open>final\<close> when \<open>D\<close> ends with a whole block.
\<close>

definition dec_holds :: "('c, 'd) ctx \<Rightarrow> 's \<Rightarrow> u8 list \<Rightarrow> u8 list \<Rightarrow> bool" where
  "dec_holds ctx s D out \<longleftrightarrow>
     holds ctx (snd (run s (take (whole D) D))) (drop (whole D) D) \<and>
     cx_flags ctx AND EVP_CIPH_NO_PADDING = 0 \<and> length (cx_final ctx) = 32 \<and>
     (let R = fst (run s (take (whole D) D))
      in if D \<noteq> [] \<and> whole D = length D
         then cx_final_used ctx \<and> R = out @ take b (cx_final ctx)
         else \<not> cx_final_used ctx \<and> out = R)"

lemma whole_eq_iff: "whole D = length D \<longleftrightarrow> length D mod b = 0"
  using whole_le[of D] length_drop_whole[of D] by auto

lemma holds_final_fields [simp]:
  "holds (ctx\<lparr>cx_final_used := u\<rparr>) s pend = holds ctx s pend"
  "holds (ctx\<lparr>cx_final := f\<rparr>) s pend = holds ctx s pend"
  by (simp_all add: holds_def)

lemma decrypt_update_holds:
  assumes h: "dec_holds ctx s D out" and n: "small xs"
  shows "\<exists>w m ctx'. EVP_DecryptUpdate tbl ctx xs (int (length xs)) = Some (True, w, Some m, ctx') \<and>
    dec_holds ctx' s (D @ xs) (out @ take (nat m) w) \<and> 0 \<le> m"
proof (cases "xs = []")
  case True
  have "cx_cipher ctx = Some c" using h by (simp add: dec_holds_def holds_def)
  then show ?thesis using True h plain
    by (intro exI[of _ "[]"] exI[of _ 0] exI[of _ ctx]) (simp add: EVP_DecryptUpdate_def)
next
  case ne: False
  let ?r = "run s (take (whole D) D)"
  let ?pend = "drop (whole D) D"
  define d where "d = ?pend @ xs"
  let ?q = "run (snd ?r) (take (whole d) d)"
  have ho: "holds ctx (snd ?r) ?pend" and fl: "cx_flags ctx AND EVP_CIPH_NO_PADDING = 0" "length (cx_final ctx) = 32"
    using h by (simp_all add: dec_holds_def)
  have cx: "cx_cipher ctx = Some c" using ho by (simp add: holds_def)
  have "length xs + 32 < 2 ^ 31" using n by (simp add: small_def)
  from update_holds[OF ho small_whole[OF ho n], folded d_def] ne obtain ctx1 where
    u: "EVP_EncryptUpdate tbl ctx xs (int (length xs)) = Some (True, fst ?q, Some (int (whole d)), ctx1)"
    "holds ctx1 (snd ?q) (drop (whole d) d)" "cx_flags ctx1 = cx_flags ctx" "cx_final ctx1 = cx_final ctx" by blast
  have lq: "length (fst ?q) = whole d" by (rule length_run_whole)
  define F where "F = (if cx_final_used ctx then take b (cx_final ctx) else [])"
  have lF: "length F = (if cx_final_used ctx then b else 0)" using fl(2) b_bounds by (simp add: F_def)
  have R: "fst ?r = out @ F" using h by (auto simp: dec_holds_def F_def Let_def split: if_splits)
  have run': "run s (take (whole (D @ xs)) (D @ xs)) = (fst ?r @ fst ?q, snd ?q)"
    unfolding run_whole_append[of s D xs] Let_def case_prod_beta d_def ..
  have d': "drop (whole (D @ xs)) (D @ xs) = drop (whole d) d" unfolding d_def by (rule drop_whole_append)
  have len1: "cx_buf_len ctx1 = int (length d mod b)" using u(2) unfolding holds_def length_drop_whole by simp
  have small': "whole d + b < 2 ^ 31"
    using whole_le[of d] length_drop_whole_lt[of D] b_bounds \<open>length xs + 32 < 2 ^ 31\<close> by (simp add: d_def)
  have Dxs: "whole (D @ xs) = length (D @ xs) \<longleftrightarrow> length d mod b = 0"
    unfolding whole_eq_iff using arg_cong[OF d', of length] by (simp only: length_drop_whole)
  have upd: "EVP_DecryptUpdate tbl ctx xs (int (length xs)) = do {
      (n, ctx2) \<leftarrow> (if cx_buf_len ctx1 = 0
        then let n = int (whole d) - int b
          in if n < 0 then None
             else Some (n, ctx1\<lparr>cx_final_used := True, cx_final := overwrite (cx_final ctx1) 0 (take b (drop (nat n) (fst ?q)))\<rparr>)
        else Some (int (whole d), ctx1\<lparr>cx_final_used := False\<rparr>));
      n \<leftarrow> (if cx_final_used ctx then int_add n (int b) else Some n);
      Some (True, F @ fst ?q, Some n, ctx2) }"
    using ne fl b_bounds by (simp add: EVP_DecryptUpdate_def cx plain u(1) block(1) Let_def F_def)
  show ?thesis
  proof (cases "length d mod b = 0")
    case True
    then have w: "whole d = length d" by (simp add: whole_eq_iff)
    have "length d \<noteq> 0" using ne by (simp add: d_def)
    then have bl: "b \<le> length d" using True by (meson dvd_imp_le mod_eq_0_iff_dvd not_gr_zero)
    let ?L = "drop (length d - b) (fst ?q)"
    let ?f = "overwrite (cx_final ctx1) 0 ?L"
    let ?ctx2 = "ctx1\<lparr>cx_final_used := True, cx_final := ?f\<rparr>"
    let ?m = "int (length d - b) + int (length F)"
    have lL: "length ?L = b" using lq w bl by simp
    have f: "take b ?f = ?L" "length ?f = 32" using lL b_bounds fl(2) u(4) by (simp_all add: overwrite_def)
    have nn: "int (length d) - int b = int (length d - b)" "nat (int (length d) - int b) = length d - b"
      using bl by simp_all
    have "EVP_DecryptUpdate tbl ctx xs (int (length xs)) = Some (True, F @ fst ?q, Some ?m, ?ctx2)"
      unfolding upd len1 True w Let_def using nn lL small' w bl lF by (simp add: int_add_def)
    moreover have "dec_holds ?ctx2 s (D @ xs) (out @ take (nat ?m) (F @ fst ?q))"
    proof -
      have "nat ?m = length F + (length d - b)" by simp
      then have t: "take (nat ?m) (F @ fst ?q) = F @ take (length d - b) (fst ?q)" by simp
      have "fst ?r @ fst ?q = (out @ take (nat ?m) (F @ fst ?q)) @ take b ?f" unfolding R t f(1) by simp
      moreover have "D @ xs \<noteq> [] \<and> whole (D @ xs) = length (D @ xs)" using ne Dxs True by blast
      ultimately show ?thesis
        unfolding dec_holds_def run' d' Let_def fst_conv snd_conv using u(2,3) fl f(2) by simp
    qed
    ultimately show ?thesis by force
  next
    case False
    let ?ctx2 = "ctx1\<lparr>cx_final_used := False\<rparr>"
    let ?m = "int (whole d) + int (length F)"
    have "EVP_DecryptUpdate tbl ctx xs (int (length xs)) = Some (True, F @ fst ?q, Some ?m, ?ctx2)"
      unfolding upd len1 using False small' lF by (simp add: int_add_def)
    moreover have "dec_holds ?ctx2 s (D @ xs) (out @ take (nat ?m) (F @ fst ?q))"
    proof -
      have "nat ?m = length F + length (fst ?q)" using lq by simp
      then have "take (nat ?m) (F @ fst ?q) = F @ fst ?q" by simp
      moreover have "\<not> (D @ xs \<noteq> [] \<and> whole (D @ xs) = length (D @ xs))" using Dxs False by blast
      ultimately show ?thesis
        unfolding dec_holds_def run' d' Let_def fst_conv snd_conv using u(2,3,4) fl R by simp
    qed
    ultimately show ?thesis by force
  qed
qed

lemma decrypt_updates_holds:
  "dec_holds ctx s D out \<Longrightarrow> list_all small xss \<Longrightarrow>
   \<exists>out' ctx'. run_updates (EVP_DecryptUpdate tbl) ctx xss = Some (out', ctx') \<and>
     dec_holds ctx' s (D @ concat xss) (out @ out')"
proof (induction xss arbitrary: ctx D out)
  case Nil
  then show ?case by simp
next
  case (Cons x xss)
  from decrypt_update_holds[OF Cons.prems(1), of x] Cons.prems(2) obtain w m ctx1 where
    u: "EVP_DecryptUpdate tbl ctx x (int (length x)) = Some (True, w, Some m, ctx1)"
    "dec_holds ctx1 s (D @ x) (out @ take (nat m) w)" by auto
  from Cons.IH[OF u(2)] Cons.prems(2) obtain out' ctx' where
    "run_updates (EVP_DecryptUpdate tbl) ctx1 xss = Some (out', ctx')"
    "dec_holds ctx' s ((D @ x) @ concat xss) ((out @ take (nat m) w) @ out')" by auto
  then show ?case using u(1) by auto
qed

text \<open>The last call removes the padding, or fails when there is none.\<close>

lemma decrypt_final_holds:
  assumes h: "dec_holds ctx s D out"
  shows "\<exists>ctx'. (case (if D \<noteq> [] \<and> length D mod b = 0 then pkcs_unpad b (fst (run s D)) else None) of
      None \<Rightarrow> EVP_DecryptFinal_ex tbl ctx = Some (False, [], Some 0, ctx')
    | Some P \<Rightarrow> \<exists>w. EVP_DecryptFinal_ex tbl ctx = Some (True, w, Some (int (length w)), ctx') \<and> P = out @ w)"
proof (cases "D \<noteq> [] \<and> length D mod b = 0")
  case False
  then have "\<not> cx_final_used ctx" "cx_cipher ctx = Some c" "cx_flags ctx AND EVP_CIPH_NO_PADDING = 0"
    using h by (auto simp: dec_holds_def whole_eq_iff holds_def Let_def)
  then have "EVP_DecryptFinal_ex tbl ctx = Some (False, [], Some 0, ctx)"
    using plain b_bounds by (simp add: EVP_DecryptFinal_ex_def block(1) Let_def)
  moreover have "(if D \<noteq> [] \<and> length D mod b = 0 then pkcs_unpad b (fst (run s D)) else None) = None"
    using False by auto
  ultimately show ?thesis by (simp only: option.case) blast
next
  case True
  then have w: "whole D = length D" by (simp add: whole_eq_iff)
  let ?f = "cx_final ctx"
  have cx: "cx_cipher ctx = Some c" "cx_buf_len ctx = 0" "cx_final_used ctx" "cx_flags ctx AND EVP_CIPH_NO_PADDING = 0"
    "length ?f = 32" and R: "fst (run s D) = out @ take b ?f"
    using h True w by (auto simp: dec_holds_def holds_def Let_def)
  let ?R = "fst (run s D)"
  have cond: "(if D \<noteq> [] \<and> length D mod b = 0 then pkcs_unpad b ?R else None) = pkcs_unpad b ?R"
    using True by simp
  have lastR: "last ?R = ?f ! (b - 1)"
  proof -
    have "?f \<noteq> []" using cx(5) by auto
    then show ?thesis using cx(5) b_bounds unfolding R by (simp add: last_append last_conv_nth)
  qed
  let ?n = "unat (?f ! (b - 1))"
  have eq: "EVP_DecryptFinal_ex tbl ctx =
      (if ?n = 0 \<or> ?n > b \<or> \<not> pad_check ?f b ?n (of_nat ?n) then Some (False, [], Some 0, ctx)
       else Some (True, take (b - ?n) ?f, Some (int (b - ?n)), ctx))"
    using cx b_bounds plain by (simp add: EVP_DecryptFinal_ex_def block(1) Let_def)
  show ?thesis
  proof (cases "?n = 0 \<or> ?n > b")
    case True
    then have "pkcs_unpad b ?R = None" unfolding pkcs_unpad_def lastR Let_def by auto
    moreover have "EVP_DecryptFinal_ex tbl ctx = Some (False, [], Some 0, ctx)" unfolding eq using True by auto
    ultimately show ?thesis unfolding cond by simp
  next
    case False
    then have n: "?n \<le> b" by simp
    have lR: "length ?R = length out + b" unfolding R using cx(5) b_bounds by simp
    have dR: "drop (length ?R - ?n) ?R = drop (b - ?n) (take b ?f)" unfolding lR unfolding R using n by simp
    have tR: "take (length ?R - ?n) ?R = out @ take (b - ?n) ?f" unfolding lR unfolding R using n by (simp add: min_def)
    have pc: "pad_check ?f b ?n (of_nat ?n) \<longleftrightarrow> list_all (\<lambda>x. x = ?f ! (b - 1)) (drop (b - ?n) (take b ?f))"
      using n cx(5) b_bounds by (simp add: pad_check_iff)
    have lt: "length (take (b - ?n) ?f) = b - ?n" using cx(5) b_bounds by simp
    show ?thesis
    proof (cases "pad_check ?f b ?n (of_nat ?n)")
      case False
      then have "pkcs_unpad b ?R = None" unfolding pkcs_unpad_def lastR Let_def dR using pc by simp
      moreover have "EVP_DecryptFinal_ex tbl ctx = Some (False, [], Some 0, ctx)" unfolding eq using False by auto
      ultimately show ?thesis unfolding cond by simp
    next
      case True
      then have "pkcs_unpad b ?R = Some (out @ take (b - ?n) ?f)"
        unfolding pkcs_unpad_def lastR Let_def dR tR using pc \<open>\<not> (?n = 0 \<or> ?n > b)\<close> by simp
      moreover have "EVP_DecryptFinal_ex tbl ctx = Some (True, take (b - ?n) ?f, Some (int (length (take (b - ?n) ?f))), ctx)"
        unfolding eq lt using True \<open>\<not> (?n = 0 \<or> ?n > b)\<close> by auto
      ultimately show ?thesis unfolding cond by (simp only: option.case) blast
    qed
  qed
qed

lemma decrypt_message:
  assumes "holds ctx s []" "cx_flags ctx AND EVP_CIPH_NO_PADDING = 0" "length (cx_final ctx) = 32"
    "\<not> cx_final_used ctx" "list_all small xss"
  shows "case (if concat xss \<noteq> [] \<and> length (concat xss) mod b = 0 then pkcs_unpad b (fst (run s (concat xss))) else None) of
      None \<Rightarrow> \<exists>out. run_cipher (EVP_DecryptUpdate tbl) (EVP_DecryptFinal_ex tbl) ctx xss = Some (False, out)
    | Some P \<Rightarrow> run_cipher (EVP_DecryptUpdate tbl) (EVP_DecryptFinal_ex tbl) ctx xss = Some (True, P)"
proof -
  have "dec_holds ctx s [] []" using assms run_Nil by (simp add: dec_holds_def whole_def)
  from decrypt_updates_holds[OF this assms(5)] obtain out ctx' where
    u: "run_updates (EVP_DecryptUpdate tbl) ctx xss = Some (out, ctx')" "dec_holds ctx' s (concat xss) out" by auto
  from decrypt_final_holds[OF u(2)] obtain ctx'' where f:
    "case (if concat xss \<noteq> [] \<and> length (concat xss) mod b = 0 then pkcs_unpad b (fst (run s (concat xss))) else None) of
      None \<Rightarrow> EVP_DecryptFinal_ex tbl ctx' = Some (False, [], Some 0, ctx'')
    | Some P \<Rightarrow> \<exists>w. EVP_DecryptFinal_ex tbl ctx' = Some (True, w, Some (int (length w)), ctx'') \<and> P = out @ w"
    by blast
  show ?thesis
  proof (cases "if concat xss \<noteq> [] \<and> length (concat xss) mod b = 0 then pkcs_unpad b (fst (run s (concat xss))) else None")
    case None
    then show ?thesis using f u(1) by (simp only: option.case) (simp add: run_cipher_def)
  next
    case (Some P)
    then show ?thesis using f u(1) by (simp only: option.case) (auto simp: run_cipher_def)
  qed
qed

end

end
