(* ===== verification/E_Aes.thy ===== *)
theory E_Aes
  imports Aes Cbc Cipher
begin

text \<open>
  AES in its modes of operation: \<^verbatim>\<open>crypto/fipsmodule/aes/mode_wrappers.c\<close>, and the methods and tables
  of \<^verbatim>\<open>crypto/fipsmodule/cipher/e_aes.c\<close> for the CBC, CTR, ECB and OFB modes, in the configuration of
  the pod (\<^verbatim>\<open>OPENSSL_NO_ASM\<close>, where no accelerated implementation is capable). The key schedule is
  read when a block is processed; a schedule that was never set up has no result.
\<close>

section \<open>Blocks and wrappers\<close>

text \<open>A pointer to \<^verbatim>\<open>AES_encrypt\<close> or \<^verbatim>\<open>AES_decrypt\<close>, cast to \<^verbatim>\<open>block128_f\<close>, with its key.\<close>

datatype block128 = Aes_encrypt | Aes_decrypt

definition aes_block :: "block128 \<Rightarrow> AES_KEY \<Rightarrow> block_fn" where
  "aes_block f key b = the ((case f of Aes_encrypt \<Rightarrow> AES_encrypt | Aes_decrypt \<Rightarrow> AES_decrypt) b key)"

text \<open>
  The buffers of a mode are apart: the memory is the input followed by the output. Both are aligned
  enough on the LP64 targets, where \<^verbatim>\<open>STRICT_ALIGNMENT\<close> is 0.
\<close>

definition apart :: "u8 list \<Rightarrow> nat \<Rightarrow> u8 list" where
  "apart inp len = take len inp @ replicate len 0"

definition AES_cbc_encrypt ::
  "u8 list \<Rightarrow> nat \<Rightarrow> nat \<Rightarrow> nat \<Rightarrow> AES_KEY \<Rightarrow> u8 list \<Rightarrow> bool \<Rightarrow> (u8 list \<times> u8 list) option" where
  "AES_cbc_encrypt m inp outp len key ivec enc = do {
     C_assert (key_readable key);
     if enc then CRYPTO_cbc128_encrypt (aes_block Aes_encrypt key) False m inp outp len ivec
     else CRYPTO_cbc128_decrypt (aes_block Aes_decrypt key) False m inp outp len ivec }"

definition AES_ctr128_encrypt ::
  "u8 list \<Rightarrow> AES_KEY \<Rightarrow> u8 list \<Rightarrow> u8 list \<Rightarrow> nat \<Rightarrow> (u8 list \<times> (u8 list \<times> u8 list) \<times> nat) option" where
  "AES_ctr128_encrypt inp key ivec ecount_buf num = do {
     C_assert (key_readable key);
     Some (CRYPTO_ctr128_encrypt (aes_block Aes_encrypt key) False inp ivec ecount_buf num) }"

definition AES_ecb_encrypt :: "u8 list \<Rightarrow> AES_KEY \<Rightarrow> int \<Rightarrow> u8 list option" where
  "AES_ecb_encrypt inp key enc = do {
     C_assert (enc = 1 \<or> enc = 0);
     if enc = 1 then AES_encrypt inp key else AES_decrypt inp key }"

text \<open>\<^verbatim>\<open>num\<close> is an \<^verbatim>\<open>int\<close> here and is converted to \<^verbatim>\<open>unsigned\<close> and back.\<close>

definition to_unsigned :: "int \<Rightarrow> nat" where
  "to_unsigned n = nat (n mod 2 ^ 32)"

definition of_unsigned :: "nat \<Rightarrow> int" where
  "of_unsigned n = (if n < 2 ^ 31 then int n else int n - 2 ^ 32)"

definition AES_ofb128_encrypt :: "u8 list \<Rightarrow> AES_KEY \<Rightarrow> u8 list \<Rightarrow> int \<Rightarrow> (u8 list \<times> u8 list \<times> int) option" where
  "AES_ofb128_encrypt inp key ivec num = do {
     C_assert (key_readable key);
     let (out, ivec, num_u) = CRYPTO_ofb128_encrypt (aes_block Aes_encrypt key) inp ivec (to_unsigned num);
     Some (out, ivec, of_unsigned num_u) }"

definition AES_cfb128_encrypt ::
  "u8 list \<Rightarrow> AES_KEY \<Rightarrow> u8 list \<Rightarrow> int \<Rightarrow> bool \<Rightarrow> (u8 list \<times> u8 list \<times> int) option" where
  "AES_cfb128_encrypt inp key ivec num enc = do {
     C_assert (key_readable key);
     let (out, ivec, num_u) = CRYPTO_cfb128_encrypt (aes_block Aes_encrypt key) False inp ivec (to_unsigned num) enc;
     Some (out, ivec, of_unsigned num_u) }"

section \<open>Methods\<close>

text \<open>
  \<^verbatim>\<open>stream.cbc\<close> is NULL or \<^verbatim>\<open>AES_cbc_encrypt\<close>; \<^verbatim>\<open>stream.ctr\<close> is the same field and NULL for the
  modes that read it.
\<close>

record EVP_AES_KEY =
  dat_ks :: AES_KEY
  dat_block :: block128
  dat_stream_cbc :: bool

text \<open>The ciphers, by the names of their tables.\<close>

datatype evp_aes =
    aes_128_cbc_generic | aes_128_ctr_generic | aes_128_ecb_generic | aes_128_ofb_generic
  | aes_192_cbc_generic | aes_192_ctr_generic | aes_192_ecb_generic
  | aes_256_cbc_generic | aes_256_ctr_generic | aes_256_ecb_generic | aes_256_ofb_generic

type_synonym aes_ctx = "(evp_aes, EVP_AES_KEY) ctx"

text \<open>\<^verbatim>\<open>out->flags\<close> and \<^verbatim>\<open>out->block_size\<close> of the tables below, which the methods read.\<close>

definition aes_flags :: "evp_aes \<Rightarrow> u32" where
  "aes_flags ci =
     (if ci \<in> {aes_128_cbc_generic, aes_192_cbc_generic, aes_256_cbc_generic} then EVP_CIPH_CBC_MODE
      else if ci \<in> {aes_128_ctr_generic, aes_192_ctr_generic, aes_256_ctr_generic} then EVP_CIPH_CTR_MODE
      else if ci \<in> {aes_128_ecb_generic, aes_192_ecb_generic, aes_256_ecb_generic} then EVP_CIPH_ECB_MODE
      else EVP_CIPH_OFB_MODE)"

definition aes_block_size :: "evp_aes \<Rightarrow> nat" where
  "aes_block_size ci = (if aes_flags ci = EVP_CIPH_CBC_MODE \<or> aes_flags ci = EVP_CIPH_ECB_MODE then 16 else 1)"

text \<open>
  A new block for the key holds nothing that is read before it is stored: no rounds, so that its
  schedule cannot be used.
\<close>

definition raw_key :: AES_KEY where
  "raw_key = \<lparr>rd_key = replicate 60 0, aes_rounds = 0\<rparr>"

definition aes_init_key :: "aes_ctx \<Rightarrow> u8 list option \<Rightarrow> u8 list option \<Rightarrow> int \<Rightarrow> bool \<times> aes_ctx" where
  "aes_init_key ctx key iv enc =
     (let ks = (case cx_cipher_data ctx of Some (Data dat) \<Rightarrow> dat_ks dat | _ \<Rightarrow> raw_key);
          mode = aes_flags (the (cx_cipher ctx)) AND EVP_CIPH_MODE_MASK;
          (ret, dat) =
            (if (mode = EVP_CIPH_ECB_MODE \<or> mode = EVP_CIPH_CBC_MODE) \<and> enc = 0
             then let (ret, ks) = AES_set_decrypt_key key (cx_key_len ctx * 8) ks
               in (ret, \<lparr>dat_ks = ks, dat_block = Aes_decrypt, dat_stream_cbc = (mode = EVP_CIPH_CBC_MODE)\<rparr>)
             else let (ret, ks) = AES_set_encrypt_key key (cx_key_len ctx * 8) ks
               in (ret, \<lparr>dat_ks = ks, dat_block = Aes_encrypt, dat_stream_cbc = (mode = EVP_CIPH_CBC_MODE)\<rparr>));
          ctx = ctx\<lparr>cx_cipher_data := Some (Data dat)\<rparr>
      in if ret < 0 then (False, ctx) else (True, ctx))"

text \<open>The struct behind \<^verbatim>\<open>cipher_data\<close>, once it was stored.\<close>

definition aes_data :: "aes_ctx \<Rightarrow> EVP_AES_KEY option" where
  "aes_data ctx = (case cx_cipher_data ctx of Some (Data dat) \<Rightarrow> Some dat | _ \<Rightarrow> None)"

definition aes_cbc_cipher :: "aes_ctx \<Rightarrow> u8 list option \<Rightarrow> nat \<Rightarrow> (int \<times> u8 list \<times> aes_ctx) option" where
  "aes_cbc_cipher ctx inp len = do {
     dat \<leftarrow> aes_data ctx;
     inp \<leftarrow> inp;
     C_assert (key_readable (dat_ks dat));
     (m, iv) \<leftarrow>
       (if dat_stream_cbc dat
        then AES_cbc_encrypt (apart inp len) 0 len len (dat_ks dat) (cx_iv ctx) (cx_encrypt ctx \<noteq> 0)
        else if cx_encrypt ctx \<noteq> 0
        then CRYPTO_cbc128_encrypt (aes_block (dat_block dat) (dat_ks dat)) False (apart inp len) 0 len len (cx_iv ctx)
        else CRYPTO_cbc128_decrypt (aes_block (dat_block dat) (dat_ks dat)) False (apart inp len) 0 len len (cx_iv ctx));
     Some (1, drop len m, ctx\<lparr>cx_iv := iv\<rparr>) }"

text \<open>The loop over the blocks, from byte \<open>i\<close> on up to \<open>len\<close>, the start of the last block.\<close>

function ecb_loop :: "block_fn \<Rightarrow> nat \<Rightarrow> u8 list \<Rightarrow> nat \<Rightarrow> nat \<Rightarrow> u8 list" where
  "ecb_loop block bl inp i len =
     (if i \<le> len \<and> 0 < bl then block (take 16 (drop i inp)) @ ecb_loop block bl inp (i + bl) len else [])"
  by pat_completeness auto

termination by (relation "measure (\<lambda>(block, bl, inp, i, len). Suc len - i)") auto

declare ecb_loop.simps [simp del]

definition aes_ecb_cipher :: "aes_ctx \<Rightarrow> u8 list option \<Rightarrow> nat \<Rightarrow> (int \<times> u8 list \<times> aes_ctx) option" where
  "aes_ecb_cipher ctx inp len = do {
     ci \<leftarrow> cx_cipher ctx;
     dat \<leftarrow> aes_data ctx;
     inp \<leftarrow> inp;
     let bl = aes_block_size ci;
     if len < bl then Some (1, [], ctx)
     else do {
       C_assert (key_readable (dat_ks dat));
       Some (1, ecb_loop (aes_block (dat_block dat) (dat_ks dat)) bl inp 0 (len - bl), ctx) } }"

text \<open>The encrypted counter is kept in \<^verbatim>\<open>ctx->buf\<close>, of which 16 bytes are used.\<close>

definition aes_ctr_cipher :: "aes_ctx \<Rightarrow> u8 list option \<Rightarrow> nat \<Rightarrow> (int \<times> u8 list \<times> aes_ctx) option" where
  "aes_ctr_cipher ctx inp len = do {
     dat \<leftarrow> aes_data ctx;
     inp \<leftarrow> inp;
     C_assert (key_readable (dat_ks dat) \<and> \<not> dat_stream_cbc dat);
     let (out, (iv, ecount), num) =
       CRYPTO_ctr128_encrypt (aes_block (dat_block dat) (dat_ks dat)) False (take len inp) (cx_iv ctx)
         (take 16 (cx_buf ctx)) (cx_num ctx);
     Some (1, out, ctx\<lparr>cx_iv := iv, cx_buf := overwrite (cx_buf ctx) 0 ecount, cx_num := num\<rparr>) }"

definition aes_ofb_cipher :: "aes_ctx \<Rightarrow> u8 list option \<Rightarrow> nat \<Rightarrow> (int \<times> u8 list \<times> aes_ctx) option" where
  "aes_ofb_cipher ctx inp len = do {
     dat \<leftarrow> aes_data ctx;
     inp \<leftarrow> inp;
     C_assert (key_readable (dat_ks dat));
     let (out, iv, num) =
       CRYPTO_ofb128_encrypt (aes_block (dat_block dat) (dat_ks dat)) (take len inp) (cx_iv ctx) (cx_num ctx);
     Some (1, out, ctx\<lparr>cx_iv := iv, cx_num := num\<rparr>) }"

section \<open>Tables\<close>

text \<open>\<^verbatim>\<open>sizeof(EVP_AES_KEY)\<close>: the schedule in its union and two pointers.\<close>

definition sizeof_EVP_AES_KEY :: nat where "sizeof_EVP_AES_KEY = 264"

definition aes_table :: "int \<Rightarrow> nat \<Rightarrow> nat \<Rightarrow> nat \<Rightarrow> u32 \<Rightarrow>
    (aes_ctx \<Rightarrow> u8 list option \<Rightarrow> nat \<Rightarrow> (int \<times> u8 list \<times> aes_ctx) option) \<Rightarrow> (evp_aes, EVP_AES_KEY) EVP_CIPHER" where
  "aes_table nid block_size key_len iv_len flags cipher =
     \<lparr>ci_nid = nid, ci_block_size = block_size, ci_key_len = key_len, ci_iv_len = iv_len,
      ci_ctx_size = sizeof_EVP_AES_KEY, ci_flags = flags, ci_init = aes_init_key, ci_cipher = cipher,
      ci_cleanup = None, ci_ctrl = None\<rparr>"

text \<open>The numbers are those of \<^verbatim>\<open>include/openssl/nid.h\<close>.\<close>

definition aes_128_cbc_data :: "(evp_aes, EVP_AES_KEY) EVP_CIPHER" where
  "aes_128_cbc_data = aes_table 419 16 16 16 EVP_CIPH_CBC_MODE aes_cbc_cipher"

definition aes_128_ctr_data :: "(evp_aes, EVP_AES_KEY) EVP_CIPHER" where
  "aes_128_ctr_data = aes_table 904 1 16 16 EVP_CIPH_CTR_MODE aes_ctr_cipher"

definition aes_128_ecb_data :: "(evp_aes, EVP_AES_KEY) EVP_CIPHER" where
  "aes_128_ecb_data = aes_table 418 16 16 0 EVP_CIPH_ECB_MODE aes_ecb_cipher"

definition aes_128_ofb_data :: "(evp_aes, EVP_AES_KEY) EVP_CIPHER" where
  "aes_128_ofb_data = aes_table 420 1 16 16 EVP_CIPH_OFB_MODE aes_ofb_cipher"

definition aes_192_cbc_data :: "(evp_aes, EVP_AES_KEY) EVP_CIPHER" where
  "aes_192_cbc_data = aes_table 423 16 24 16 EVP_CIPH_CBC_MODE aes_cbc_cipher"

definition aes_192_ctr_data :: "(evp_aes, EVP_AES_KEY) EVP_CIPHER" where
  "aes_192_ctr_data = aes_table 905 1 24 16 EVP_CIPH_CTR_MODE aes_ctr_cipher"

definition aes_192_ecb_data :: "(evp_aes, EVP_AES_KEY) EVP_CIPHER" where
  "aes_192_ecb_data = aes_table 422 16 24 0 EVP_CIPH_ECB_MODE aes_ecb_cipher"

definition aes_256_cbc_data :: "(evp_aes, EVP_AES_KEY) EVP_CIPHER" where
  "aes_256_cbc_data = aes_table 427 16 32 16 EVP_CIPH_CBC_MODE aes_cbc_cipher"

definition aes_256_ctr_data :: "(evp_aes, EVP_AES_KEY) EVP_CIPHER" where
  "aes_256_ctr_data = aes_table 906 1 32 16 EVP_CIPH_CTR_MODE aes_ctr_cipher"

definition aes_256_ecb_data :: "(evp_aes, EVP_AES_KEY) EVP_CIPHER" where
  "aes_256_ecb_data = aes_table 426 16 32 0 EVP_CIPH_ECB_MODE aes_ecb_cipher"

definition aes_256_ofb_data :: "(evp_aes, EVP_AES_KEY) EVP_CIPHER" where
  "aes_256_ofb_data = aes_table 428 1 32 16 EVP_CIPH_OFB_MODE aes_ofb_cipher"

text \<open>The table at each address.\<close>

fun aes_tbl :: "evp_aes \<Rightarrow> (evp_aes, EVP_AES_KEY) EVP_CIPHER" where
  "aes_tbl aes_128_cbc_generic = aes_128_cbc_data"
| "aes_tbl aes_128_ctr_generic = aes_128_ctr_data"
| "aes_tbl aes_128_ecb_generic = aes_128_ecb_data"
| "aes_tbl aes_128_ofb_generic = aes_128_ofb_data"
| "aes_tbl aes_192_cbc_generic = aes_192_cbc_data"
| "aes_tbl aes_192_ctr_generic = aes_192_ctr_data"
| "aes_tbl aes_192_ecb_generic = aes_192_ecb_data"
| "aes_tbl aes_256_cbc_generic = aes_256_cbc_data"
| "aes_tbl aes_256_ctr_generic = aes_256_ctr_data"
| "aes_tbl aes_256_ecb_generic = aes_256_ecb_data"
| "aes_tbl aes_256_ofb_generic = aes_256_ofb_data"

lemmas aes_data_defs = aes_128_cbc_data_def aes_128_ctr_data_def aes_128_ecb_data_def aes_128_ofb_data_def aes_192_cbc_data_def aes_192_ctr_data_def
  aes_192_ecb_data_def aes_256_cbc_data_def aes_256_ctr_data_def aes_256_ecb_data_def aes_256_ofb_data_def aes_table_def sizeof_EVP_AES_KEY_def

end
