(* ===== verification/E_Aes_Spec.thy ===== *)
theory E_Aes_Spec
  imports E_Aes Aes_Spec Cipher_Spec
begin

text \<open>
  What a caller of the cipher interface gets from AES: the CBC and ECB methods satisfy the contract
  \<open>block_methods\<close> of \<open>Cipher_Spec\<close>, in both directions and for the three key sizes, so that messages
  cut anywhere are encrypted as FIPS 197 and SP 800-38A say, and decrypted back.
\<close>

section \<open>The modes on whole blocks\<close>

lemma aes_block_fn: "key_readable key \<Longrightarrow> is_block_fn (aes_block f key)"
  by (cases f)
    (auto simp: is_block_fn_def aes_block_def AES_encrypt_def AES_decrypt_def store_state_def PUTU32_def
      Let_def split: prod.splits)

lemma last_block_last_block: "last_block (last_block iv xs) ys = last_block iv (xs @ ys)"
proof -
  have "drop (length xs) ((iv @ xs) @ ys) = drop (length xs) (iv @ xs) @ ys" by (subst drop_append) simp
  then have "drop (length ys + length xs) ((iv @ xs) @ ys) = drop (length ys) (drop (length xs) (iv @ xs) @ ys)"
    by (metis drop_drop)
  then show ?thesis by (simp add: last_block_def add.commute)
qed

lemma length_last_block: "length (last_block iv xs) = length iv"
  by (simp add: last_block_def)

lemma cbc_enc_append:
  assumes "is_block_fn blk"
  shows "length iv = 16 \<Longrightarrow> length xs = 16 * j \<Longrightarrow>
    cbc_enc blk iv (xs @ ys) = cbc_enc blk iv xs @ cbc_enc blk (last_block iv (cbc_enc blk iv xs)) ys"
proof (induction j arbitrary: iv xs)
  case 0
  then show ?case by (simp add: cbc_enc.simps[of _ _ "[]"])
next
  case (Suc j)
  let ?y = "blk (xor_bytes (take 16 xs) iv)"
  have y: "length ?y = 16" using assms Suc.prems by (simp add: is_block_fn_def)
  have "cbc_enc blk iv (xs @ ys) = ?y @ cbc_enc blk ?y (drop 16 xs @ ys)"
    using Suc.prems by (subst cbc_enc.simps) (simp add: Let_def)
  moreover have "cbc_enc blk iv xs = ?y @ cbc_enc blk ?y (drop 16 xs)"
    using Suc.prems by (subst cbc_enc.simps) (simp add: Let_def)
  ultimately show ?case using Suc.IH[OF y, of "drop 16 xs"] Suc.prems y by (simp add: last_block_append)
qed

lemma cbc_dec_append:
  assumes "is_block_fn blk"
  shows "length iv = 16 \<Longrightarrow> length xs = 16 * j \<Longrightarrow>
    cbc_dec blk iv (xs @ ys) = cbc_dec blk iv xs @ cbc_dec blk (last_block iv xs) ys"
proof (induction j arbitrary: iv xs)
  case 0
  then show ?case by (simp add: cbc_dec.simps[of _ _ "[]"])
next
  case (Suc j)
  let ?x = "take 16 xs"
  have x: "length ?x = 16" using Suc.prems by simp
  have "cbc_dec blk iv (xs @ ys) = xor_bytes (blk ?x) iv @ cbc_dec blk ?x (drop 16 xs @ ys)"
    using Suc.prems by (subst cbc_dec.simps) simp
  moreover have "cbc_dec blk iv xs = xor_bytes (blk ?x) iv @ cbc_dec blk ?x (drop 16 xs)"
    using Suc.prems by (subst cbc_dec.simps) simp
  moreover have "last_block iv xs = last_block ?x (drop 16 xs)"
    using last_block_append[OF Suc.prems(1) x, of "drop 16 xs"] by simp
  ultimately show ?case using Suc.IH[OF x, of "drop 16 xs"] Suc.prems by simp
qed

lemma cbc_enc_cong:
  assumes "\<And>b. length b = 16 \<Longrightarrow> f b = g b \<and> length (g b) = 16"
  shows "length iv = 16 \<Longrightarrow> length xs = 16 * j \<Longrightarrow> cbc_enc f iv xs = cbc_enc g iv xs"
proof (induction j arbitrary: iv xs)
  case 0
  then show ?case by (simp add: cbc_enc.simps[of _ _ "[]"])
next
  case (Suc j)
  have "length (xor_bytes (take 16 xs) iv) = 16" using Suc.prems by simp
  then show ?case using Suc assms[of "xor_bytes (take 16 xs) iv"] by (subst (1 2) cbc_enc.simps) (simp add: Let_def)
qed

text \<open>ECB: every block by itself.\<close>

function ecb :: "block_fn \<Rightarrow> u8 list \<Rightarrow> u8 list" where
  "ecb blk xs = (if length xs < 16 then [] else blk (take 16 xs) @ ecb blk (drop 16 xs))"
  by pat_completeness auto

termination by (relation "measure (\<lambda>(blk, xs). length xs)") auto

declare ecb.simps [simp del]

lemma length_ecb: "is_block_fn blk \<Longrightarrow> length xs = 16 * j \<Longrightarrow> length (ecb blk xs) = 16 * j"
proof (induction j arbitrary: xs)
  case 0
  then show ?case by (simp add: ecb.simps[of _ "[]"])
next
  case (Suc j)
  then show ?case by (subst ecb.simps) (simp add: is_block_fn_def)
qed

lemma ecb_append: "length xs = 16 * j \<Longrightarrow> ecb blk (xs @ ys) = ecb blk xs @ ecb blk ys"
proof (induction j arbitrary: xs)
  case 0
  then show ?case by (simp add: ecb.simps[of _ "[]"])
next
  case (Suc j)
  then show ?case by (subst (1 2) ecb.simps) simp
qed

lemma ecb_loop_eq: "length xs = 16 * (i + Suc j) \<Longrightarrow> ecb_loop blk 16 xs (16 * i) (length xs - 16) = ecb blk (drop (16 * i) xs)"
proof (induction j arbitrary: i)
  case 0
  then show ?case by (subst ecb_loop.simps, subst ecb_loop.simps, subst ecb.simps) (simp add: ecb.simps[of _ "[]"])
next
  case (Suc j)
  have "ecb_loop blk 16 xs (16 * Suc i) (length xs - 16) = ecb blk (drop (16 * Suc i) xs)"
    using Suc.prems by (intro Suc.IH) simp
  then show ?case using Suc.prems by (subst ecb_loop.simps, subst ecb.simps) (simp add: add.commute)
qed

section \<open>The contract\<close>

text \<open>The state of the CBC methods: the block function under the key, and the last block.\<close>

definition cbc_run :: "bool \<Rightarrow> block_fn \<times> u8 list \<Rightarrow> u8 list \<Rightarrow> u8 list \<times> block_fn \<times> u8 list" where
  "cbc_run enc = (\<lambda>(blk, iv) xs.
     if is_block_fn blk \<and> length iv = 16
     then if enc then (cbc_enc blk iv xs, blk, last_block iv (cbc_enc blk iv xs))
          else (cbc_dec blk iv xs, blk, last_block iv xs)
     else (replicate (length xs) 0, blk, iv))"

type_synonym method_view = "EVP_AES_KEY data_block option \<times> u8 list \<times> nat \<times> int"

fun cbc_state :: "bool \<Rightarrow> method_view \<Rightarrow> block_fn \<times> u8 list" where
  "cbc_state enc (Some (Data dat), iv, num, e) = (aes_block (if enc then Aes_encrypt else Aes_decrypt) (dat_ks dat), iv)"
| "cbc_state enc (cd, iv, num, e) = (id, iv)"

fun cbc_ok :: "bool \<Rightarrow> method_view \<Rightarrow> bool" where
  "cbc_ok enc (Some (Data dat), iv, num, e) \<longleftrightarrow>
     dat_stream_cbc dat \<and> key_readable (dat_ks dat) \<and> length iv = 16 \<and> (e \<noteq> 0 \<longleftrightarrow> enc)"
| "cbc_ok enc (cd, iv, num, e) \<longleftrightarrow> False"

definition aes_cbc :: "nat \<Rightarrow> evp_aes" where
  "aes_cbc key_len =
     (if key_len = 16 then aes_128_cbc_generic else if key_len = 24 then aes_192_cbc_generic else aes_256_cbc_generic)"

lemma aes_cbc_table:
  "ci_cipher (aes_tbl (aes_cbc n)) = aes_cbc_cipher" "ci_flags (aes_tbl (aes_cbc n)) = EVP_CIPH_CBC_MODE"
  "ci_block_size (aes_tbl (aes_cbc n)) = 16" "ci_init (aes_tbl (aes_cbc n)) = aes_init_key"
  "ci_iv_len (aes_tbl (aes_cbc n)) = 16" "ci_ctx_size (aes_tbl (aes_cbc n)) = 264" "ci_cleanup (aes_tbl (aes_cbc n)) = None"
  "n \<in> {16, 24, 32} \<Longrightarrow> ci_key_len (aes_tbl (aes_cbc n)) = n" "aes_flags (aes_cbc n) = EVP_CIPH_CBC_MODE"
  by (auto simp: aes_cbc_def aes_data_defs aes_flags_def)

lemma apart_buffers:
  assumes "length xs = n"
  shows "ld (apart xs n) 0 n = Some xs" "length (apart xs n) = 2 * n"
    "length ys = n \<Longrightarrow> drop n (overwrite (apart xs n) n ys) = ys"
  using assms by (simp_all add: ld_def apart_def overwrite_def)

lemma cbc_method:
  assumes "cbc_ok enc (method_state ctx)" "length xs = 16 * j"
  shows "\<exists>ctx'. aes_cbc_cipher ctx (Some xs) (16 * j) = Some (1, fst (cbc_run enc (cbc_state enc (method_state ctx)) xs), ctx') \<and>
    cbc_ok enc (method_state ctx') \<and> cbc_state enc (method_state ctx') = snd (cbc_run enc (cbc_state enc (method_state ctx)) xs) \<and>
    same_buffers ctx ctx'"
proof -
  obtain dat where dat: "cx_cipher_data ctx = Some (Data dat)" "dat_stream_cbc dat" "key_readable (dat_ks dat)"
      "length (cx_iv ctx) = 16" "cx_encrypt ctx \<noteq> 0 \<longleftrightarrow> enc"
    using assms(1) unfolding method_state_def by (elim cbc_ok.elims) auto
  let ?iv = "cx_iv ctx"
  define blk where "blk = aes_block (if enc then Aes_encrypt else Aes_decrypt) (dat_ks dat)"
  have blk: "is_block_fn blk" using dat(3) by (simp add: blk_def aes_block_fn)
  define out where "out = (if enc then cbc_enc blk ?iv xs else cbc_dec blk ?iv xs)"
  define iv where "iv = last_block ?iv (if enc then out else xs)"
  note buf = apart_buffers[OF assms(2)]
  have "length out = 16 * j" using length_cbc_enc[OF blk dat(4) assms(2)] length_cbc_dec[OF blk dat(4) assms(2)] by (simp add: out_def)
  moreover have "AES_cbc_encrypt (apart xs (16 * j)) 0 (16 * j) (16 * j) (dat_ks dat) ?iv enc =
      Some (overwrite (apart xs (16 * j)) (16 * j) out, iv)"
    using cbc128_encrypt_eq[OF blk dat(4) buf(1), of "16 * j" False] cbc128_decrypt_eq[OF blk dat(4) buf(1), of "16 * j" False]
      buf(2) dat(3) by (auto simp: AES_cbc_encrypt_def blk_def out_def iv_def)
  ultimately have "aes_cbc_cipher ctx (Some xs) (16 * j) = Some (1, out, ctx\<lparr>cx_iv := iv\<rparr>)"
    using dat buf(3)[of out] by (simp add: aes_cbc_cipher_def aes_data_def)
  moreover have "cbc_run enc (cbc_state enc (method_state ctx)) xs = (out, blk, iv)"
    using dat blk by (simp add: cbc_run_def method_state_def blk_def out_def iv_def)
  moreover have "length iv = 16" using dat(4) by (simp add: iv_def length_last_block)
  ultimately show ?thesis using dat by (auto simp: method_state_def same_buffers_def blk_def)
qed

interpretation aes_cbc: block_methods aes_tbl "aes_cbc n" 16 "cbc_run enc" "cbc_state enc" "cbc_ok enc" for n enc
proof unfold_locales
  show "\<And>s. cbc_run enc s [] = ([], s)"
    by (auto simp: cbc_run_def cbc_enc.simps[of _ _ "[]"] cbc_dec.simps[of _ _ "[]"])
  show "\<And>xs j s. length xs = 16 * j \<Longrightarrow> length (fst (cbc_run enc s xs)) = 16 * j"
    by (auto simp: cbc_run_def length_cbc_enc length_cbc_dec)
  show "\<And>xs j ys k s. length xs = 16 * j \<Longrightarrow> length ys = 16 * k \<Longrightarrow> cbc_run enc s (xs @ ys) =
      (fst (cbc_run enc s xs) @ fst (cbc_run enc (snd (cbc_run enc s xs)) ys), snd (cbc_run enc (snd (cbc_run enc s xs)) ys))"
    by (auto simp: cbc_run_def cbc_enc_append cbc_dec_append last_block_last_block length_last_block replicate_add)
qed (auto simp: aes_cbc_table cbc_method EVP_CIPH_CBC_MODE_def EVP_CIPH_FLAG_CUSTOM_CIPHER_def)

text \<open>ECB has no state but the key.\<close>

definition ecb_run :: "block_fn \<Rightarrow> u8 list \<Rightarrow> u8 list \<times> block_fn" where
  "ecb_run blk xs = (if is_block_fn blk then ecb blk xs else replicate (length xs) 0, blk)"

fun ecb_state :: "method_view \<Rightarrow> block_fn" where
  "ecb_state (Some (Data dat), iv, num, e) = aes_block (dat_block dat) (dat_ks dat)"
| "ecb_state (cd, iv, num, e) = id"

fun ecb_ok :: "method_view \<Rightarrow> bool" where
  "ecb_ok (Some (Data dat), iv, num, e) \<longleftrightarrow> key_readable (dat_ks dat)"
| "ecb_ok (cd, iv, num, e) \<longleftrightarrow> False"

definition aes_ecb :: "nat \<Rightarrow> evp_aes" where
  "aes_ecb key_len =
     (if key_len = 16 then aes_128_ecb_generic else if key_len = 24 then aes_192_ecb_generic else aes_256_ecb_generic)"

lemma aes_ecb_table:
  "ci_cipher (aes_tbl (aes_ecb n)) = aes_ecb_cipher" "ci_flags (aes_tbl (aes_ecb n)) = EVP_CIPH_ECB_MODE"
  "ci_block_size (aes_tbl (aes_ecb n)) = 16" "aes_block_size (aes_ecb n) = 16"
  by (auto simp: aes_ecb_def aes_data_defs aes_flags_def aes_block_size_def)

lemma ecb_method:
  assumes "cx_cipher ctx = Some (aes_ecb n)" "ecb_ok (method_state ctx)" "length xs = 16 * j"
  shows "\<exists>ctx'. aes_ecb_cipher ctx (Some xs) (16 * j) = Some (1, fst (ecb_run (ecb_state (method_state ctx)) xs), ctx') \<and>
    ecb_ok (method_state ctx') \<and> ecb_state (method_state ctx') = snd (ecb_run (ecb_state (method_state ctx)) xs) \<and>
    same_buffers ctx ctx'"
proof -
  obtain dat where dat: "cx_cipher_data ctx = Some (Data dat)" "key_readable (dat_ks dat)"
    using assms(2) unfolding method_state_def by (elim ecb_ok.elims) auto
  let ?blk = "aes_block (dat_block dat) (dat_ks dat)"
  have blk: "is_block_fn ?blk" using dat(2) by (rule aes_block_fn)
  have "aes_ecb_cipher ctx (Some xs) (16 * j) = Some (1, ecb ?blk xs, ctx)"
  proof (cases j)
    case 0
    then show ?thesis using assms dat by (simp add: aes_ecb_cipher_def aes_data_def aes_ecb_table ecb.simps[of _ "[]"])
  next
    case (Suc i)
    then show ?thesis using assms dat ecb_loop_eq[of xs 0 i ?blk]
      by (simp add: aes_ecb_cipher_def aes_data_def aes_ecb_table)
  qed
  then show ?thesis using dat blk by (auto simp: ecb_run_def method_state_def same_buffers_def)
qed

interpretation aes_ecb: block_methods aes_tbl "aes_ecb n" 16 ecb_run ecb_state ecb_ok for n
proof unfold_locales
  show "\<And>xs j s. length xs = 16 * j \<Longrightarrow> length (fst (ecb_run s xs)) = 16 * j"
    by (auto simp: ecb_run_def length_ecb)
  show "\<And>xs j ys k s. length xs = 16 * j \<Longrightarrow> length ys = 16 * k \<Longrightarrow> ecb_run s (xs @ ys) =
      (fst (ecb_run s xs) @ fst (ecb_run (snd (ecb_run s xs)) ys), snd (ecb_run (snd (ecb_run s xs)) ys))"
    by (auto simp: ecb_run_def ecb_append replicate_add)
  show "\<And>s. ecb_run s [] = ([], s)" by (simp add: ecb_run_def ecb.simps[of _ "[]"])
qed (auto simp: aes_ecb_table ecb_method EVP_CIPH_ECB_MODE_def EVP_CIPH_FLAG_CUSTOM_CIPHER_def)

section \<open>Messages\<close>

text \<open>A new context of a CBC cipher.\<close>

lemma cbc_init:
  assumes key: "length key \<in> {16, 24, 32}" and iv: "length iv = 16" and sys: "OPENSSL_malloc sys 264 \<noteq> None"
    and enc: "enc \<in> {0, 1}"
  shows "\<exists>ctx k. EVP_CipherInit_ex aes_tbl sys EVP_CIPHER_CTX_init (Some (aes_cbc (length key))) (Some key) (Some iv) enc = Some (True, ctx) \<and>
    (if enc = 1 then AES_set_encrypt_key (Some key) (8 * length key) raw_key = (0, k)
     else AES_set_decrypt_key (Some key) (8 * length key) raw_key = (0, k)) \<and>
    aes_cbc.holds (length key) (enc = 1) ctx (aes_block (if enc = 1 then Aes_encrypt else Aes_decrypt) k, iv) [] \<and>
    cx_flags ctx = 0 \<and> length (cx_final ctx) = 32 \<and> \<not> cx_final_used ctx"
proof -
  have raw: "length (rd_key raw_key) = 60" by (simp add: raw_key_def)
  obtain ek where ek: "AES_set_encrypt_key (Some key) (8 * length key) raw_key = (0, ek)" "key_readable ek"
    using set_encrypt_key_expanded[OF key raw] expanded_readable by blast
  obtain dk where dk: "AES_set_decrypt_key (Some key) (8 * length key) raw_key = (0, dk)" "key_readable dk"
    using set_decrypt_key_expanded[OF key raw] by (auto simp: dec_expanded_def key_readable_def AES_MAXNR_def)
  have mode: "EVP_CIPH_CBC_MODE AND EVP_CIPH_MODE_MASK = EVP_CIPH_CBC_MODE"
      "EVP_CIPH_CBC_MODE AND EVP_CIPH_CTRL_INIT = 0" "EVP_CIPH_CBC_MODE AND NOT EVP_CIPH_MODE_MASK AND EVP_CIPH_CUSTOM_IV = 0"
    by (simp_all add: EVP_CIPH_CBC_MODE_def EVP_CIPH_MODE_MASK_def EVP_CIPH_CTRL_INIT_def EVP_CIPH_CUSTOM_IV_def)
  note table = aes_cbc_table(1-7,9)[of "length key"] aes_cbc_table(8)[OF key]
  note init = EVP_CipherInit_ex_def set_cipher_def set_iv_def EVP_CIPHER_CTX_init_def table mode aes_init_key_def
    EVP_MAX_IV_LENGTH_def EVP_MAX_BLOCK_LENGTH_def overwrite_def Let_def
  note view = aes_cbc.holds_def method_state_def
  have modes: "EVP_CIPH_CBC_MODE \<noteq> EVP_CIPH_STREAM_CIPHER" "EVP_CIPH_CBC_MODE \<noteq> EVP_CIPH_ECB_MODE"
      "EVP_CIPH_CBC_MODE \<noteq> EVP_CIPH_CFB_MODE"
    by (simp_all add: EVP_CIPH_CBC_MODE_def EVP_CIPH_STREAM_CIPHER_def EVP_CIPH_ECB_MODE_def EVP_CIPH_CFB_MODE_def)
  consider "enc = 1" | "enc = 0" using enc by auto
  then show ?thesis
  proof cases
    case 1
    then show ?thesis using ek[unfolded mult.commute[of 8]] iv sys unfolding mult.commute[of 8]
      by (simp add: init modes view)
  next
    case 2
    then show ?thesis using dk[unfolded mult.commute[of 8]] iv sys unfolding mult.commute[of 8]
      by (simp add: init modes view)
  qed
qed

text \<open>The block functions under the two schedules of a key.\<close>

lemma cipher_block_fn: "is_block_fn (cipher nr w)"
  by (simp add: is_block_fn_def cipher_def Let_def lengths)

lemma aes_schedules:
  assumes key: "length key \<in> {16, 24, 32}"
    and ek: "AES_set_encrypt_key (Some key) (8 * length key) raw_key = (0, ek)"
    and dk: "AES_set_decrypt_key (Some key) (8 * length key) raw_key = (0, dk)"
  shows "is_block_fn (aes_block Aes_encrypt ek)" "is_block_fn (aes_block Aes_decrypt dk)"
    "length b = 16 \<Longrightarrow> aes_block Aes_encrypt ek b = cipher (key_rounds key) (key_word (length key div 4) key) b"
    "length b = 16 \<Longrightarrow> aes_block Aes_decrypt dk (aes_block Aes_encrypt ek b) = b"
proof -
  have raw: "length (rd_key raw_key) = 60" by (simp add: raw_key_def)
  have p: "aes_key_pair key ek dk"
    using set_encrypt_key_expanded[OF key raw] set_decrypt_key_expanded[OF key raw] ek dk by (auto simp: aes_key_pair_def)
  then have "key_readable ek" "key_readable dk"
    using expanded_readable by (auto simp: aes_key_pair_def dec_expanded_def key_readable_def AES_MAXNR_def)
  then show "is_block_fn (aes_block Aes_encrypt ek)" "is_block_fn (aes_block Aes_decrypt dk)" by (simp_all add: aes_block_fn)
  show "aes_block Aes_encrypt ek b = cipher (key_rounds key) (key_word (length key div 4) key) b" if "length b = 16"
    using AES_encrypt_cipher[of ek _ _ b] p that by (auto simp: aes_key_pair_def aes_block_def)
  show "aes_block Aes_decrypt dk (aes_block Aes_encrypt ek b) = b" if "length b = 16"
    using aes_key_pair_blocks[OF p that] by (auto simp: aes_block_def)
qed

text \<open>
  Property C9: a message survives CBC through the cipher interface. For a key of 16, 24 or 32 bytes and
  an IV of 16, a context set up by \<^verbatim>\<open>EVP_EncryptInit_ex\<close> turns the message, whatever chunks the calls of
  \<^verbatim>\<open>EVP_EncryptUpdate\<close> cut it into, into the CBC encryption (SP 800-38A) under the cipher of FIPS 197 of
  the message with its PKCS padding, the last block coming from \<^verbatim>\<open>EVP_EncryptFinal_ex\<close>; a context set up
  by \<^verbatim>\<open>EVP_DecryptInit_ex\<close> with the same key and IV turns that ciphertext, whatever chunks it comes in, into
  the message, without the padding. No call fails, provided that a context can be allocated and that chunks
  are shorter than \<open>2 ^ 31 - 32\<close> bytes, so that no output length overflows.
\<close>

theorem EVP_aes_cbc_message:
  assumes key: "length key \<in> {16, 24, 32}" and iv: "length iv = 16" and sys: "OPENSSL_malloc sys 264 \<noteq> None"
    and chunks: "list_all (\<lambda>x. length x + 32 < 2 ^ 31) xss" "list_all (\<lambda>y. length y + 32 < 2 ^ 31) yss"
  shows "\<exists>ectx dctx ct.
    EVP_EncryptInit_ex aes_tbl sys EVP_CIPHER_CTX_init (Some (aes_cbc (length key))) (Some key) (Some iv) = Some (True, ectx) \<and>
    EVP_DecryptInit_ex aes_tbl sys EVP_CIPHER_CTX_init (Some (aes_cbc (length key))) (Some key) (Some iv) = Some (True, dctx) \<and>
    run_cipher (EVP_EncryptUpdate aes_tbl) (EVP_EncryptFinal_ex aes_tbl) ectx xss = Some (True, ct) \<and>
    ct = cbc_enc (cipher (key_rounds key) (key_word (length key div 4) key)) iv (pkcs_pad 16 (concat xss)) \<and>
    (concat yss = ct \<longrightarrow>
      run_cipher (EVP_DecryptUpdate aes_tbl) (EVP_DecryptFinal_ex aes_tbl) dctx yss = Some (True, concat xss))"
proof -
  let ?c = "cipher (key_rounds key) (key_word (length key div 4) key)" let ?p = "pkcs_pad 16 (concat xss)"
  from cbc_init[OF key iv sys, of 1] obtain ectx ek where e:
    "EVP_CipherInit_ex aes_tbl sys EVP_CIPHER_CTX_init (Some (aes_cbc (length key))) (Some key) (Some iv) 1 = Some (True, ectx)"
    "AES_set_encrypt_key (Some key) (8 * length key) raw_key = (0, ek)"
    "aes_cbc.holds (length key) True ectx (aes_block Aes_encrypt ek, iv) []" "cx_flags ectx = 0" by auto
  from cbc_init[OF key iv sys, of 0] obtain dctx dk where d:
    "EVP_CipherInit_ex aes_tbl sys EVP_CIPHER_CTX_init (Some (aes_cbc (length key))) (Some key) (Some iv) 0 = Some (True, dctx)"
    "AES_set_decrypt_key (Some key) (8 * length key) raw_key = (0, dk)"
    "aes_cbc.holds (length key) False dctx (aes_block Aes_decrypt dk, iv) []" "cx_flags dctx = 0"
    "length (cx_final dctx) = 32" "\<not> cx_final_used dctx" by auto
  note pair = aes_schedules[OF key e(2) d(2)]
  have small: "list_all aes_cbc.small xss" "list_all aes_cbc.small yss"
    using chunks by (simp_all add: list_all_iff aes_cbc.small_def)
  have lp: "length ?p = 16 * (length (concat xss) div 16 + 1)" by (rule length_pkcs_pad) simp
  let ?ct = "cbc_enc ?c iv ?p"
  have ct: "cbc_enc (aes_block Aes_encrypt ek) iv ?p = ?ct" by (rule cbc_enc_cong[OF _ iv lp]) (use pair(3) cipher_block_fn in \<open>simp add: is_block_fn_def\<close>)
  have "run_cipher (EVP_EncryptUpdate aes_tbl) (EVP_EncryptFinal_ex aes_tbl) ectx xss = Some (True, ?ct)"
    using aes_cbc.encrypt_message[OF e(3) _ small(1)] e(4) pair(1) iv ct by (simp add: cbc_run_def)
  moreover have "run_cipher (EVP_DecryptUpdate aes_tbl) (EVP_DecryptFinal_ex aes_tbl) dctx yss = Some (True, concat xss)"
    if y: "concat yss = ?ct"
  proof -
    have "length ?ct = 16 * (length (concat xss) div 16 + 1)" using length_cbc_enc[OF pair(1) iv lp] by (simp only: ct)
    then have "?ct \<noteq> []" "length ?ct mod 16 = 0" by auto
    moreover have "cbc_dec (aes_block Aes_decrypt dk) iv ?ct = ?p"
      unfolding ct[symmetric] by (rule cbc_dec_enc[OF pair(1) pair(4) iv lp])
    ultimately show ?thesis
      using aes_cbc.decrypt_message[OF d(3) _ d(5,6) small(2)] d(4) pair(2) iv
      by (simp add: cbc_run_def y pkcs_unpad_pad)
  qed
  ultimately show ?thesis using e(1) d(1) by (auto simp: EVP_EncryptInit_ex_def EVP_DecryptInit_ex_def)
qed

theorem EVP_aes_cbc_message_witness:
  "let ct = cbc_enc (cipher 12 (key_word 6 (replicate 24 7))) (replicate 16 1) (pkcs_pad 16 [1, 2, 3, 4])
   in \<exists>ectx dctx.
    EVP_EncryptInit_ex aes_tbl (\<lambda>_. True) EVP_CIPHER_CTX_init (Some (aes_cbc 24)) (Some (replicate 24 7)) (Some (replicate 16 1)) =
      Some (True, ectx) \<and>
    EVP_DecryptInit_ex aes_tbl (\<lambda>_. True) EVP_CIPHER_CTX_init (Some (aes_cbc 24)) (Some (replicate 24 7)) (Some (replicate 16 1)) =
      Some (True, dctx) \<and>
    run_cipher (EVP_EncryptUpdate aes_tbl) (EVP_EncryptFinal_ex aes_tbl) ectx [[1, 2, 3], [4]] = Some (True, ct) \<and>
    run_cipher (EVP_DecryptUpdate aes_tbl) (EVP_DecryptFinal_ex aes_tbl) dctx [take 5 ct, drop 5 ct] = Some (True, [1, 2, 3, 4])"
proof -
  let ?ct = "cbc_enc (cipher 12 (key_word 6 (replicate 24 7))) (replicate 16 1) (pkcs_pad 16 [1, 2, 3, 4])"
  have "length ?ct = 16" using length_cbc_enc[OF cipher_block_fn, of "replicate 16 1" "pkcs_pad 16 [1, 2, 3, 4]" 1]
    by (simp add: pkcs_pad_def)
  then show ?thesis
    using EVP_aes_cbc_message[of "replicate 24 7" "replicate 16 1" "\<lambda>_. True" "[[1, 2, 3], [4]]" "[take 5 ?ct, drop 5 ?ct]"]
    by (simp add: key_rounds_def OPENSSL_malloc_def)
qed

text \<open>
  Property C39: the length of the output is an \<^verbatim>\<open>int\<close> and nothing keeps it in range. A call of
  \<^verbatim>\<open>EVP_EncryptUpdate\<close> on a CBC context that holds \<open>k\<close> bytes of a block has a result unless the whole blocks
  among these bytes and the new ones are \<^verbatim>\<open>INT_MAX\<close> bytes or more; then adding them up in \<^verbatim>\<open>*out_len\<close>
  overflows, after the output was written. It happens exactly for \<open>k > 0\<close> and the last lengths that an
  \<^verbatim>\<open>int\<close> can have.
\<close>

theorem EVP_EncryptUpdate_out_len:
  assumes "cx_cipher ctx = Some (aes_cbc n)" "cbc_ok enc (method_state ctx)"
    "cx_block_mask ctx = 15" "length (cx_buf ctx) = 32" "cx_buf_len ctx = int k" "k < 16" "length xs < 2 ^ 31"
  shows "EVP_EncryptUpdate aes_tbl ctx xs (int (length xs)) = None \<longleftrightarrow> 2 ^ 31 \<le> 16 * ((k + length xs) div 16)"
proof -
  let ?pend = "take k (cx_buf ctx)"
  have p: "length ?pend = k" using assms by simp
  have h: "aes_cbc.holds n enc ctx (cbc_state enc (method_state ctx)) ?pend"
    unfolding aes_cbc.holds_def p using assms by simp
  have w: "aes_cbc.whole (?pend @ xs) = 16 * ((k + length xs) div 16)" by (simp only: aes_cbc.whole_def length_append p)
  show ?thesis
  proof (cases "2 ^ 31 \<le> 16 * ((k + length xs) div 16)")
    case True
    moreover from this assms(7) have "?pend \<noteq> []" using p by (cases k) auto
    ultimately show ?thesis using aes_cbc.update_overflow[OF h, of xs] by (simp add: w)
  next
    case False
    then show ?thesis using aes_cbc.update_holds[OF h, of xs] by (auto simp: w)
  qed
qed

theorem EVP_EncryptUpdate_out_len_witness:
  "let dat = \<lparr>dat_ks = \<lparr>rd_key = replicate 60 0, aes_rounds = 10\<rparr>, dat_block = Aes_encrypt, dat_stream_cbc = True\<rparr>;
       ctx = EVP_CIPHER_CTX_init\<lparr>cx_cipher := Some aes_128_cbc_generic, cx_cipher_data := Some (Data dat),
         cx_encrypt := 1, cx_buf_len := 15, cx_block_mask := 15\<rparr>
   in EVP_EncryptUpdate aes_tbl ctx (replicate (2 ^ 31 - 1) 0) (2 ^ 31 - 1) = None \<and>
     EVP_EncryptUpdate aes_tbl ctx (replicate (2 ^ 31 - 16) 0) (2 ^ 31 - 16) \<noteq> None"
  using EVP_EncryptUpdate_out_len[of "EVP_CIPHER_CTX_init\<lparr>cx_cipher := Some aes_128_cbc_generic,
      cx_cipher_data := Some (Data \<lparr>dat_ks = \<lparr>rd_key = replicate 60 0, aes_rounds = 10\<rparr>, dat_block = Aes_encrypt,
        dat_stream_cbc = True\<rparr>), cx_encrypt := 1, cx_buf_len := 15, cx_block_mask := 15\<rparr>" 16 True 15
      "replicate (2 ^ 31 - 1) 0"]
    EVP_EncryptUpdate_out_len[of "EVP_CIPHER_CTX_init\<lparr>cx_cipher := Some aes_128_cbc_generic,
      cx_cipher_data := Some (Data \<lparr>dat_ks = \<lparr>rd_key = replicate 60 0, aes_rounds = 10\<rparr>, dat_block = Aes_encrypt,
        dat_stream_cbc = True\<rparr>), cx_encrypt := 1, cx_buf_len := 15, cx_block_mask := 15\<rparr>" 16 True 15
      "replicate (2 ^ 31 - 16) 0"]
  by (simp add: aes_cbc_def method_state_def EVP_CIPHER_CTX_init_def EVP_MAX_IV_LENGTH_def EVP_MAX_BLOCK_LENGTH_def
      key_readable_def AES_MAXNR_def of_nat_diff)

end
