(* ===== verification/Key_Wrap.thy ===== *)
theory Key_Wrap
  imports Aes_Spec Cbc Constant_Time
begin

text \<open>
  \<^verbatim>\<open>crypto/fipsmodule/aes/key_wrap.c\<close>: AES key wrap. Input and output are regions of one memory, so that
  they may overlap; a read or write outside of it has no result. The theorems state that it is RFC 3394
  and that the unwrapping function accepts exactly what the wrapping function produces.
\<close>

section \<open>The code\<close>

definition kDefaultIV :: "u8 list" where
  "kDefaultIV = [0xa6, 0xa6, 0xa6, 0xa6, 0xa6, 0xa6, 0xa6, 0xa6]"

definition kBound :: u32 where "kBound = 6"

definition key_iv :: "u8 list option \<Rightarrow> u8 list" where
  "key_iv iv = (case iv of None \<Rightarrow> kDefaultIV | Some iv \<Rightarrow> iv)"

text \<open>The four statements that XOR the step number into \<open>A\<close>.\<close>

definition xor_counter :: "u8 list \<Rightarrow> u32 \<Rightarrow> u8 list" where
  "xor_counter A t =
     (let A = A[7 := A ! 7 XOR ucast (t AND 0xff)];
          A = A[6 := A ! 6 XOR ucast (drop_bit 8 t AND 0xff)];
          A = A[5 := A ! 5 XOR ucast (drop_bit 16 t AND 0xff)]
      in A[4 := A ! 4 XOR ucast (drop_bit 24 t AND 0xff)])"

text \<open>
  The bodies of the inner loops. \<^verbatim>\<open>n * j + i\<close> is computed in \<^verbatim>\<open>size_t\<close> and converted to 32 bits, of which
  only the value modulo \<open>2 ^ 32\<close> is left.
\<close>

definition wrap_step ::
  "AES_KEY \<Rightarrow> nat \<Rightarrow> u32 \<Rightarrow> nat \<Rightarrow> nat \<Rightarrow> u8 list \<times> u8 list \<Rightarrow> (u8 list \<times> u8 list) option" where
  "wrap_step key n j outp i = (\<lambda>(A, m). do {
     b \<leftarrow> ld m (outp + 8 * i) 8;
     A \<leftarrow> AES_encrypt (overwrite A 8 b) key;
     let t = of_nat (n * unat j + i);
     let A = xor_counter A t;
     m \<leftarrow> st m (outp + 8 * i) (drop 8 A);
     Some (A, m) })"

definition unwrap_step ::
  "AES_KEY \<Rightarrow> nat \<Rightarrow> u32 \<Rightarrow> nat \<Rightarrow> nat \<Rightarrow> u8 list \<times> u8 list \<Rightarrow> (u8 list \<times> u8 list) option" where
  "unwrap_step key n j outp i = (\<lambda>(A, m). do {
     let t = of_nat (n * unat j + i);
     let A = xor_counter A t;
     b \<leftarrow> ld m (outp + 8 * (i - 1)) 8;
     A \<leftarrow> AES_decrypt (overwrite A 8 b) key;
     m \<leftarrow> st m (outp + 8 * (i - 1)) (drop 8 A);
     Some (A, m) })"

text \<open>The inner loops, from \<open>i\<close> on, upwards and downwards.\<close>

function wrap_blocks ::
  "AES_KEY \<Rightarrow> nat \<Rightarrow> u32 \<Rightarrow> nat \<Rightarrow> nat \<Rightarrow> u8 list \<times> u8 list \<Rightarrow> (u8 list \<times> u8 list) option" where
  "wrap_blocks key n j outp i s =
     (if i \<le> n then do { s \<leftarrow> wrap_step key n j outp i s; wrap_blocks key n j outp (i + 1) s } else Some s)"
  by pat_completeness auto

termination by (relation "measure (\<lambda>(key, n, j, outp, i, s). Suc n - i)") auto

fun unwrap_blocks ::
  "AES_KEY \<Rightarrow> nat \<Rightarrow> u32 \<Rightarrow> nat \<Rightarrow> nat \<Rightarrow> u8 list \<times> u8 list \<Rightarrow> (u8 list \<times> u8 list) option" where
  "unwrap_blocks key n j outp 0 s = Some s"
| "unwrap_blocks key n j outp (Suc i) s = do {
     s \<leftarrow> unwrap_step key n j outp (Suc i) s;
     unwrap_blocks key n j outp i s }"

text \<open>The outer loops. The second one counts down and ends when \<open>j\<close> wraps around.\<close>

function wrap_rounds :: "AES_KEY \<Rightarrow> nat \<Rightarrow> nat \<Rightarrow> u32 \<Rightarrow> u8 list \<times> u8 list \<Rightarrow> (u8 list \<times> u8 list) option" where
  "wrap_rounds key n outp j s =
     (if j < kBound then do { s \<leftarrow> wrap_blocks key n j outp 1 s; wrap_rounds key n outp (j + 1) s } else Some s)"
  by pat_completeness auto

lemma below_kBound: "j < kBound \<longleftrightarrow> unat j < 6"
  by (simp add: kBound_def word_less_nat_alt)

termination wrap_rounds
proof (relation "measure (\<lambda>(key, n, outp, j, s). 6 - unat j)")
  fix key n outp and j :: u32 and s s' :: "u8 list \<times> u8 list"
  assume "j < kBound"
  then have "unat j < 6" by (simp add: below_kBound)
  then show "((key, n, outp, j + 1, s'), key, n, outp, j, s) \<in> measure (\<lambda>(key, n, outp, j, s). 6 - unat j)"
    by (simp add: unat_word_ariths)
qed simp

function unwrap_rounds :: "AES_KEY \<Rightarrow> nat \<Rightarrow> nat \<Rightarrow> u32 \<Rightarrow> u8 list \<times> u8 list \<Rightarrow> (u8 list \<times> u8 list) option" where
  "unwrap_rounds key n outp j s =
     (if j < kBound then do { s \<leftarrow> unwrap_blocks key n j outp n s; unwrap_rounds key n outp (j - 1) s } else Some s)"
  by pat_completeness auto

lemma pred_kBound: "unat j < 6 \<Longrightarrow> unat (j - 1 :: u32) = (if unat j = 0 then 2 ^ 32 - 1 else unat j - 1)"
  by (cases "j = 0") (auto simp: unat_minus_one unat_eq_0 unsigned_minus_1_eq_mask mask_eq_exp_minus_1)

termination unwrap_rounds
proof (relation "measure (\<lambda>(key, n, outp, j, s). if j < kBound then Suc (unat j) else 0)")
  fix key n outp and j :: u32 and s s' :: "u8 list \<times> u8 list"
  assume "j < kBound"
  then show "((key, n, outp, j - 1, s'), key, n, outp, j, s) \<in>
      measure (\<lambda>(key, n, outp, j, s). if j < kBound then Suc (unat j) else 0)"
    by (simp add: below_kBound pred_kBound)
qed simp

declare wrap_blocks.simps [simp del] wrap_rounds.simps [simp del] unwrap_rounds.simps [simp del]

text \<open>The upper half of \<open>A\<close> is stored before it is read.\<close>

definition AES_wrap_key ::
  "AES_KEY \<Rightarrow> u8 list option \<Rightarrow> u8 list \<Rightarrow> nat \<Rightarrow> nat \<Rightarrow> nat \<Rightarrow> (int \<times> u8 list) option" where
  "AES_wrap_key key iv m outp inp in_len =
     (if in_len > 2147483647 - 8 \<or> in_len < 8 \<or> in_len mod 8 \<noteq> 0 then Some (-1, m)
      else do {
        bs \<leftarrow> ld m inp in_len;
        m \<leftarrow> st m (outp + 8) bs;
        let A = take 8 (key_iv iv) @ replicate 8 0;
        let n = in_len div 8;
        (A, m) \<leftarrow> wrap_rounds key n outp 0 (A, m);
        m \<leftarrow> st m outp (take 8 A);
        Some (int in_len + 8, m) })"

definition AES_unwrap_key ::
  "AES_KEY \<Rightarrow> u8 list option \<Rightarrow> u8 list \<Rightarrow> nat \<Rightarrow> nat \<Rightarrow> nat \<Rightarrow> (int \<times> u8 list) option" where
  "AES_unwrap_key key iv m outp inp in_len =
     (if in_len > 2147483647 \<or> in_len < 16 \<or> in_len mod 8 \<noteq> 0 then Some (-1, m)
      else do {
        a \<leftarrow> ld m inp 8;
        let A = a @ replicate 8 0;
        bs \<leftarrow> ld m (inp + 8) (in_len - 8);
        m \<leftarrow> st m outp bs;
        let n = in_len div 8 - 1;
        (A, m) \<leftarrow> unwrap_rounds key n outp (kBound - 1) (A, m);
        if CRYPTO_memcmp A (key_iv iv) 8 \<noteq> 0 then Some (-1, m) else Some (int in_len - 8, m) })"

section \<open>RFC 3394\<close>

text \<open>
  The steps of sections 2.2.1 and 2.2.2 in their index form, for the step number \<open>t\<close>: \<open>A\<close> is the integrity
  register and \<open>R\<close> the sequence of \<open>n\<close> blocks of 8 bytes.
\<close>

definition kw_pos :: "nat \<Rightarrow> nat \<Rightarrow> nat" where
  "kw_pos n t = 8 * ((t - 1) mod n)"

definition kw_step :: "block_fn \<Rightarrow> nat \<Rightarrow> u8 list \<times> u8 list \<Rightarrow> nat \<Rightarrow> u8 list \<times> u8 list" where
  "kw_step enc n = (\<lambda>(A, R) t.
     let B = enc (A @ take 8 (drop (kw_pos n t) R))
     in (xor_bytes (take 8 B) (be_bytes 8 t), overwrite R (kw_pos n t) (drop 8 B)))"

definition ku_step :: "block_fn \<Rightarrow> nat \<Rightarrow> u8 list \<times> u8 list \<Rightarrow> nat \<Rightarrow> u8 list \<times> u8 list" where
  "ku_step dec n = (\<lambda>(A, R) t.
     let B = dec (xor_bytes A (be_bytes 8 t) @ take 8 (drop (kw_pos n t) R))
     in (take 8 B, overwrite R (kw_pos n t) (drop 8 B)))"

definition kw_wrap :: "block_fn \<Rightarrow> u8 list \<Rightarrow> u8 list \<Rightarrow> u8 list" where
  "kw_wrap enc iv P =
     (let n = length P div 8; (A, R) = foldl (kw_step enc n) (iv, P) [1..<6 * n + 1] in A @ R)"

definition kw_unwrap :: "block_fn \<Rightarrow> u8 list \<Rightarrow> u8 list \<times> u8 list" where
  "kw_unwrap dec C =
     (let n = length C div 8 - 1 in foldl (ku_step dec n) (take 8 C, drop 8 C) (rev [1..<6 * n + 1]))"

definition kw_ok :: "nat \<Rightarrow> u8 list \<times> u8 list \<Rightarrow> bool" where
  "kw_ok n s \<longleftrightarrow> length (fst s) = 8 \<and> length (snd s) = 8 * n"

lemma kw_pos_bound: "0 < n \<Longrightarrow> kw_pos n t + 8 \<le> 8 * n"
  using mod_less_divisor[of n "t - 1"] unfolding kw_pos_def by linarith

lemma kw_block:
  assumes "kw_ok n s" "0 < n"
  shows "length (take 8 (drop (kw_pos n t) (snd s))) = 8"
  using assms kw_pos_bound[OF assms(2), of t] by (simp add: kw_ok_def)

lemma kw_step_ok:
  assumes "is_block_fn f" "kw_ok n s" "0 < n"
  shows "kw_ok n (kw_step f n s t)" "kw_ok n (ku_step f n s t)"
proof -
  obtain A R where s: "s = (A, R)" by (cases s)
  note l = kw_block[OF assms(2,3), of t]
  show "kw_ok n (kw_step f n s t)" "kw_ok n (ku_step f n s t)"
    using assms l kw_pos_bound[OF assms(3), of t]
    by (simp_all add: s kw_ok_def kw_step_def ku_step_def is_block_fn_def Let_def xor_bytes_def)
qed

lemma overwrite_back:
  assumes "p + 8 \<le> length R" "length x = 8"
  shows "overwrite (overwrite R p x) p (take 8 (drop p R)) = R" "take 8 (drop p (overwrite R p x)) = x"
proof -
  have "overwrite R p (take 8 (drop p R)) = R"
    using assms(1) by (simp add: overwrite_def drop_drop[symmetric] add.commute[of p] del: drop_drop)
  then show "overwrite (overwrite R p x) p (take 8 (drop p R)) = R"
    using assms overwrite_twice[of p R x "take 8 (drop p R)"] by simp
  show "take 8 (drop p (overwrite R p x)) = x" using assms by (simp add: overwrite_def)
qed

lemma ku_step_kw_step:
  assumes "\<And>b. length b = 16 \<Longrightarrow> length (enc b) = 16 \<and> dec (enc b) = b" "kw_ok n s" "0 < n"
  shows "ku_step dec n (kw_step enc n s t) t = s"
proof -
  obtain A R where s: "s = (A, R)" by (cases s)
  define p where "p = kw_pos n t"
  define b where "b = A @ take 8 (drop p R)"
  have l: "length A = 8" "p + 8 \<le> length R"
    using assms(2) kw_pos_bound[OF assms(3), of t] by (simp_all add: s kw_ok_def p_def)
  have e: "length (enc b) = 16" "dec (enc b) = b" using assms(1)[of b] l by (auto simp: b_def)
  have "kw_step enc n s t = (xor_bytes (take 8 (enc b)) (be_bytes 8 t), overwrite R p (drop 8 (enc b)))"
    by (simp add: s kw_step_def Let_def p_def[symmetric] b_def[symmetric])
  moreover have "xor_bytes (xor_bytes (take 8 (enc b)) (be_bytes 8 t)) (be_bytes 8 t) = take 8 (enc b)"
    using e by (intro xor_bytes_cancel) simp
  moreover note overwrite_back[OF l(2), of "drop 8 (enc b)"]
  ultimately show ?thesis using e l by (simp add: ku_step_def Let_def p_def[symmetric] s b_def)
qed

lemma kw_step_ku_step:
  assumes "\<And>b. length b = 16 \<Longrightarrow> length (dec b) = 16 \<and> enc (dec b) = b" "kw_ok n s" "0 < n"
  shows "kw_step enc n (ku_step dec n s t) t = s"
proof -
  obtain A R where s: "s = (A, R)" by (cases s)
  define p where "p = kw_pos n t"
  define b where "b = xor_bytes A (be_bytes 8 t) @ take 8 (drop p R)"
  have l: "length A = 8" "p + 8 \<le> length R"
    using assms(2) kw_pos_bound[OF assms(3), of t] by (simp_all add: s kw_ok_def p_def)
  have e: "length (dec b) = 16" "enc (dec b) = b" using assms(1)[of b] l by (auto simp: b_def)
  have "ku_step dec n s t = (take 8 (dec b), overwrite R p (drop 8 (dec b)))"
    by (simp add: s ku_step_def Let_def p_def[symmetric] b_def[symmetric])
  moreover have "xor_bytes (xor_bytes A (be_bytes 8 t)) (be_bytes 8 t) = A"
    using l by (intro xor_bytes_cancel) simp
  moreover note overwrite_back[OF l(2), of "drop 8 (dec b)"]
  ultimately show ?thesis using e l by (simp add: kw_step_def Let_def p_def[symmetric] s b_def)
qed

text \<open>Undoing a sequence of steps.\<close>

lemma foldl_undo:
  assumes "\<And>s x. P s \<Longrightarrow> P (f s x) \<and> g (f s x) x = s"
  shows "P s \<Longrightarrow> P (foldl f s xs) \<and> foldl g (foldl f s xs) (rev xs) = s"
proof (induction xs rule: rev_induct)
  case (snoc x xs)
  then show ?case using assms[of "foldl f s xs" x] by simp
qed simp

section \<open>The code is the RFC\<close>

lemma ucast_counter_byte: "t < 2 ^ 32 \<Longrightarrow> ucast (drop_bit k (of_nat t :: u32) AND 0xff) = (of_nat (t div 2 ^ k) :: u8)"
proof -
  assume t: "t < 2 ^ 32"
  let ?w = "drop_bit k (of_nat t :: u32)"
  have m: "(mask 8 :: u32) = 0xff" by (simp add: mask_eq_exp_minus_1)
  have ff: "bit (0xff :: u32) i \<longleftrightarrow> i < 8" for i unfolding m[symmetric] bit_mask_iff by auto
  have "ucast (?w AND 0xff) = (ucast ?w :: u8)"
  proof (rule bit_eqI)
    fix n assume "possible_bit TYPE(u8) n"
    then have "n < 8" by simp
    then show "bit (ucast (?w AND 0xff) :: u8) n \<longleftrightarrow> bit (ucast ?w :: u8) n"
      using ff[of n] by (simp add: bit_simps)
  qed
  also have "\<dots> = of_nat (unat ?w)" by simp
  also have "unat ?w = unat (of_nat t :: u32) div 2 ^ k" by (subst unat_drop_bit_eq) (simp only: drop_bit_eq_div)
  also have "unat (of_nat t :: u32) = t" using t by (simp add: unat_of_nat)
  finally show ?thesis .
qed

lemma be_bytes_8:
  assumes "t < 2 ^ 32"
  shows "be_bytes 8 t = [0, 0, 0, 0, of_nat (t div 2 ^ 24), of_nat (t div 2 ^ 16), of_nat (t div 2 ^ 8), of_nat t]"
proof -
  have z: "t div 256 div 256 div 256 div 256 = 0" using assms by (simp add: div_mult2_eq[symmetric])
  have n: "(8 :: nat) = Suc (Suc (Suc (Suc 4)))" "(4 :: nat) = Suc (Suc (Suc (Suc 0)))" by simp_all
  have "be_bytes 8 t = be_bytes 4 (t div 256 div 256 div 256 div 256) @ [of_nat (t div 256 div 256 div 256),
      of_nat (t div 256 div 256), of_nat (t div 256), of_nat t]"
    unfolding n(1) be_bytes.simps by simp
  moreover have "be_bytes 4 0 = [0, 0, 0, 0]" unfolding n(2) be_bytes.simps by simp
  ultimately show ?thesis unfolding z by (simp add: div_mult2_eq[symmetric])
qed

lemma xor_counter_eq:
  assumes "length B = 16" "t < 2 ^ 32"
  shows "xor_counter B (of_nat t) = xor_bytes (take 8 B) (be_bytes 8 t) @ drop 8 B"
  unfolding be_bytes_8[OF assms(2)]
  using ucast_counter_byte[OF assms(2), of 0] ucast_counter_byte[OF assms(2), of 8] ucast_counter_byte[OF assms(2), of 16] ucast_counter_byte[OF assms(2), of 24]
  by (rule_tac length_16_cases[OF assms(1)]) (simp add: xor_counter_def Let_def)

lemma ld_region:
  "p + k \<le> length R \<Longrightarrow> base + length R \<le> length m \<Longrightarrow> ld (overwrite m base R) (base + p) k = Some (take k (drop p R))"
  by (simp add: ld_def overwrite_def)

lemma overwrite_region:
  "p + length x \<le> length R \<Longrightarrow> base + length R \<le> length m \<Longrightarrow>
   overwrite (overwrite m base R) (base + p) x = overwrite m base (overwrite R p x)"
  by (simp add: overwrite_def add.assoc add.left_commute)

text \<open>The state of the loops and the registers of the RFC, which are in memory from \<open>base\<close> on.\<close>

definition kw_mem :: "nat \<Rightarrow> nat \<Rightarrow> u8 list \<Rightarrow> u8 list \<times> u8 list \<Rightarrow> u8 list \<times> u8 list \<Rightarrow> bool" where
  "kw_mem n base m s S \<longleftrightarrow>
     length (fst s) = 16 \<and> take 8 (fst s) = fst S \<and> snd s = overwrite m base (snd S) \<and>
     kw_ok n S \<and> base + 8 * n \<le> length m"

lemma kw_pos_step: "q < n \<Longrightarrow> kw_pos n (n * j + Suc q) = 8 * q"
  by (simp add: kw_pos_def)

lemma wrap_step_eq:
  assumes key: "\<And>b. length b = 16 \<Longrightarrow> AES_encrypt b key = Some (enc b) \<and> length (enc b) = 16"
    and mem: "kw_mem n (outp + 8) m s S" and q: "q < n" "n * unat j + Suc q < 2 ^ 32"
  shows "\<exists>s'. wrap_step key n j outp (Suc q) s = Some s' \<and> kw_mem n (outp + 8) m s' (kw_step enc n S (n * unat j + Suc q))"
proof -
  obtain A a R where s: "s = (A, overwrite m (outp + 8) R)" "S = (a, R)" using mem by (cases s; cases S) (auto simp: kw_mem_def)
  have l: "length A = 16" "take 8 A = a" "length a = 8" "length R = 8 * n" "outp + 8 + 8 * n \<le> length m"
    using mem by (auto simp: kw_mem_def kw_ok_def s)
  let ?t = "n * unat j + Suc q"
  define b where "b = take 8 (drop (8 * q) R)"
  have lb: "length b = 8" using l q by (simp add: b_def)
  have e: "AES_encrypt (a @ b) key = Some (enc (a @ b))" "length (enc (a @ b)) = 16" using key[of "a @ b"] l lb by auto
  have "overwrite A 8 b = a @ b" using l lb by (simp add: overwrite_def)
  moreover have "ld (overwrite m (outp + 8) R) (outp + 8 * Suc q) 8 = Some b"
    using ld_region[of "8 * q" 8 R "outp + 8" m] l q by (simp add: b_def add.assoc add.commute add.left_commute)
  moreover have "overwrite (overwrite m (outp + 8) R) (outp + 8 * Suc q) (drop 8 (enc (a @ b))) =
      overwrite m (outp + 8) (overwrite R (8 * q) (drop 8 (enc (a @ b))))"
    using overwrite_region[of "8 * q" "drop 8 (enc (a @ b))" R "outp + 8" m] l q e(2)
    by (simp add: add.assoc add.commute add.left_commute)
  moreover have "xor_counter (enc (a @ b)) (of_nat ?t) = xor_bytes (take 8 (enc (a @ b))) (be_bytes 8 ?t) @ drop 8 (enc (a @ b))"
    by (rule xor_counter_eq[OF e(2) q(2)])
  moreover have "outp + 8 * Suc q + 8 \<le> length m" using l q by simp
  ultimately have "wrap_step key n j outp (Suc q) s =
      Some (xor_bytes (take 8 (enc (a @ b))) (be_bytes 8 ?t) @ drop 8 (enc (a @ b)),
        overwrite m (outp + 8) (overwrite R (8 * q) (drop 8 (enc (a @ b)))))"
    using e l q by (simp add: wrap_step_def s st_def Let_def del: of_nat_add of_nat_mult mult_Suc_right)
  moreover have "kw_step enc n S ?t = (xor_bytes (take 8 (enc (a @ b))) (be_bytes 8 ?t), overwrite R (8 * q) (drop 8 (enc (a @ b))))"
    using q by (simp add: kw_step_def s kw_pos_step b_def Let_def del: add_Suc_right)
  ultimately show ?thesis using l q e by (simp add: kw_mem_def kw_ok_def)
qed

lemma unwrap_step_eq:
  assumes key: "\<And>b. length b = 16 \<Longrightarrow> AES_decrypt b key = Some (dec b) \<and> length (dec b) = 16"
    and mem: "kw_mem n outp m s S" and q: "q < n" "n * unat j + Suc q < 2 ^ 32"
  shows "\<exists>s'. unwrap_step key n j outp (Suc q) s = Some s' \<and> kw_mem n outp m s' (ku_step dec n S (n * unat j + Suc q))"
proof -
  obtain A a R where s: "s = (A, overwrite m outp R)" "S = (a, R)" using mem by (cases s; cases S) (auto simp: kw_mem_def)
  have l: "length A = 16" "take 8 A = a" "length a = 8" "length R = 8 * n" "outp + 8 * n \<le> length m"
    using mem by (auto simp: kw_mem_def kw_ok_def s)
  let ?t = "n * unat j + Suc q"
  define b where "b = take 8 (drop (8 * q) R)"
  define x where "x = xor_bytes a (be_bytes 8 ?t)"
  have lb: "length b = 8" "length x = 8" using l q by (simp_all add: b_def x_def)
  have e: "AES_decrypt (x @ b) key = Some (dec (x @ b))" "length (dec (x @ b)) = 16" using key[of "x @ b"] lb by auto
  have "overwrite (xor_counter A (of_nat ?t)) 8 b = x @ b"
    unfolding xor_counter_eq[OF l(1) q(2)] using l lb by (simp add: overwrite_def x_def del: of_nat_add of_nat_mult mult_Suc_right)
  moreover have "ld (overwrite m outp R) (outp + 8 * q) 8 = Some b"
    using ld_region[of "8 * q" 8 R outp m] l q by (simp add: b_def)
  moreover have "overwrite (overwrite m outp R) (outp + 8 * q) (drop 8 (dec (x @ b))) =
      overwrite m outp (overwrite R (8 * q) (drop 8 (dec (x @ b))))"
    using overwrite_region[of "8 * q" "drop 8 (dec (x @ b))" R outp m] l q e(2) by simp
  moreover have "outp + 8 * q + 8 \<le> length m" using l q by simp
  ultimately have "unwrap_step key n j outp (Suc q) s =
      Some (dec (x @ b), overwrite m outp (overwrite R (8 * q) (drop 8 (dec (x @ b)))))"
    using e l q by (simp add: unwrap_step_def s st_def Let_def del: of_nat_add of_nat_mult mult_Suc_right)
  moreover have "ku_step dec n S ?t = (take 8 (dec (x @ b)), overwrite R (8 * q) (drop 8 (dec (x @ b))))"
    using q by (simp add: ku_step_def s kw_pos_step b_def x_def Let_def del: add_Suc_right)
  ultimately show ?thesis using l q e by (simp add: kw_mem_def kw_ok_def)
qed

text \<open>The loops run through the steps of the RFC in order, and in reverse order.\<close>

lemma wrap_blocks_eq:
  assumes key: "\<And>b. length b = 16 \<Longrightarrow> AES_encrypt b key = Some (enc b) \<and> length (enc b) = 16"
  shows "q + k = n \<Longrightarrow> n * unat j + n < 2 ^ 32 \<Longrightarrow> kw_mem n (outp + 8) m s S \<Longrightarrow>
    \<exists>s'. wrap_blocks key n j outp (Suc q) s = Some s' \<and>
      kw_mem n (outp + 8) m s' (foldl (kw_step enc n) S [n * unat j + Suc q..<n * unat j + Suc n])"
proof (induction k arbitrary: q s S)
  case 0
  then show ?case by (simp add: wrap_blocks.simps[of _ n _ _ "Suc n"])
next
  case (Suc k)
  have q: "q < n" "n * unat j + Suc q < 2 ^ 32" "Suc q + k = n" using Suc.prems(1,2) by linarith+
  from wrap_step_eq[OF key Suc.prems(3) q(1,2)] obtain s1 where
    s1: "wrap_step key n j outp (Suc q) s = Some s1" "kw_mem n (outp + 8) m s1 (kw_step enc n S (n * unat j + Suc q))" by blast
  have "[n * unat j + Suc q..<n * unat j + Suc n] = (n * unat j + Suc q) # [n * unat j + Suc (Suc q)..<n * unat j + Suc n]"
    using q(1) by (simp add: upt_conv_Cons)
  then show ?case using Suc.IH[OF q(3) Suc.prems(2) s1(2)] s1(1) q(1)
    by (subst wrap_blocks.simps) (simp del: upt_Suc)
qed

lemma upt_split: "i \<le> j \<Longrightarrow> j \<le> k \<Longrightarrow> [i..<k] = [i..<j] @ [j..<k]" for k :: nat
  using upt_add_eq_append[of i j "k - j"] by simp

lemma wrap_rounds_eq:
  assumes key: "\<And>b. length b = 16 \<Longrightarrow> AES_encrypt b key = Some (enc b) \<and> length (enc b) = 16" and n: "6 * n < 2 ^ 32"
  shows "unat j + k = 6 \<Longrightarrow> kw_mem n (outp + 8) m s S \<Longrightarrow>
    \<exists>s'. wrap_rounds key n outp j s = Some s' \<and>
      kw_mem n (outp + 8) m s' (foldl (kw_step enc n) S [n * unat j + 1..<6 * n + 1])"
proof (induction k arbitrary: j s S)
  case 0
  then show ?case by (subst wrap_rounds.simps) (simp add: below_kBound mult.commute)
next
  case (Suc k)
  have j: "unat j < 6" "unat (j + 1) = unat j + 1" "unat (j + 1) + k = 6"
    using Suc.prems(1) by (simp_all add: unat_word_ariths)
  have "n * unat j \<le> n * 5" using j(1) by (intro mult_left_mono) simp_all
  then have b: "n * unat j + n < 2 ^ 32" "n * unat j + Suc n \<le> 6 * n + 1" using n by linarith+
  from wrap_blocks_eq[OF key _ b(1) Suc.prems(2), of 0 n] obtain s1 where
    s1: "wrap_blocks key n j outp 1 s = Some s1"
      "kw_mem n (outp + 8) m s1 (foldl (kw_step enc n) S [n * unat j + 1..<n * unat j + Suc n])" by auto
  have "[n * unat j + 1..<6 * n + 1] = [n * unat j + 1..<n * unat j + Suc n] @ [n * unat (j + 1) + 1..<6 * n + 1]"
    using upt_split[OF _ b(2), of "n * unat j + 1"] unfolding j(2) by (simp add: algebra_simps del: upt_Suc)
  then show ?case using Suc.IH[OF j(3) s1(2)] s1(1) j(1)
    by (subst wrap_rounds.simps) (simp add: below_kBound del: upt_Suc)
qed

lemma unwrap_blocks_eq:
  assumes key: "\<And>b. length b = 16 \<Longrightarrow> AES_decrypt b key = Some (dec b) \<and> length (dec b) = 16"
  shows "i \<le> n \<Longrightarrow> n * unat j + n < 2 ^ 32 \<Longrightarrow> kw_mem n outp m s S \<Longrightarrow>
    \<exists>s'. unwrap_blocks key n j outp i s = Some s' \<and>
      kw_mem n outp m s' (foldl (ku_step dec n) S (rev [n * unat j + 1..<n * unat j + i + 1]))"
proof (induction i arbitrary: s S)
  case (Suc i)
  have q: "i < n" "n * unat j + Suc i < 2 ^ 32" using Suc.prems(1,2) by linarith+
  from unwrap_step_eq[OF key Suc.prems(3) q] obtain s1 where
    s1: "unwrap_step key n j outp (Suc i) s = Some s1" "kw_mem n outp m s1 (ku_step dec n S (n * unat j + Suc i))" by blast
  then show ?case using Suc.IH[OF _ Suc.prems(2) s1(2)] q(1) by simp
qed simp

lemma unwrap_rounds_eq:
  assumes key: "\<And>b. length b = 16 \<Longrightarrow> AES_decrypt b key = Some (dec b) \<and> length (dec b) = 16" and n: "6 * n < 2 ^ 32"
  shows "unat j = k \<Longrightarrow> k < 6 \<Longrightarrow> kw_mem n outp m s S \<Longrightarrow>
    \<exists>s'. unwrap_rounds key n outp j s = Some s' \<and>
      kw_mem n outp m s' (foldl (ku_step dec n) S (rev [1..<n * k + n + 1]))"
proof (induction k arbitrary: j s S)
  case 0
  then have j: "\<not> j - 1 < kBound" by (simp add: below_kBound pred_kBound)
  from unwrap_blocks_eq[OF key _ _ 0(3), of n j] 0(1) n obtain s1 where
    "unwrap_blocks key n j outp n s = Some s1" "kw_mem n outp m s1 (foldl (ku_step dec n) S (rev [1..<n + 1]))" by auto
  moreover have "unwrap_rounds key n outp (j - 1) s1 = Some s1" using j by (subst unwrap_rounds.simps) simp
  ultimately show ?case using 0(1) by (subst unwrap_rounds.simps) (simp add: below_kBound del: upt_Suc)
next
  case (Suc k)
  have j: "unat (j - 1) = k" "k < 6" using Suc.prems(1,2) by (simp_all add: pred_kBound)
  have "n * Suc k \<le> n * 5" using Suc.prems(2) by (intro mult_left_mono) simp_all
  then have b: "n * unat j + n < 2 ^ 32" using n unfolding Suc.prems(1) by linarith
  from unwrap_blocks_eq[OF key order_refl b Suc.prems(3)] obtain s1 where
    s1: "unwrap_blocks key n j outp n s = Some s1"
      "kw_mem n outp m s1 (foldl (ku_step dec n) S (rev [n * unat j + 1..<n * unat j + n + 1]))" by blast
  have "[1..<n * Suc k + n + 1] = [1..<n * k + n + 1] @ [n * unat j + 1..<n * unat j + n + 1]"
    using upt_split[of 1 "n * k + n + 1" "n * Suc k + n + 1"] Suc.prems(1) by (simp add: algebra_simps del: upt_Suc)
  then show ?case using Suc.IH[OF j s1(2)] s1(1) Suc.prems(1,2)
    by (subst unwrap_rounds.simps) (simp add: below_kBound del: upt_Suc)
qed

text \<open>Single blocks under the two schedules of a key.\<close>

lemma bytes_permutation:
  fixes f g :: block_fn
  assumes "\<And>b. length b = 16 \<Longrightarrow> length (f b) = 16 \<and> g (f b) = b" and b: "length b = 16"
  shows "f (g b) = b"
proof -
  let ?S = "{b :: u8 list. set b \<subseteq> UNIV \<and> length b = 16}"
  have "finite ?S" by (rule finite_lists_length_eq) simp
  moreover have "inj_on f ?S" by (rule inj_on_inverseI[of _ g]) (simp add: assms(1))
  moreover have "f ` ?S \<subseteq> ?S" using assms(1) by auto
  ultimately have "f ` ?S = ?S" by (intro endo_inj_surj)
  then obtain c where "b = f c" "length c = 16" using b by blast
  then show ?thesis using assms(1)[of c] by simp
qed

definition aes_cipher :: "u8 list \<Rightarrow> block_fn" where
  "aes_cipher key = cipher (key_rounds key) (key_word (length key div 4) key)"

definition aes_inv_cipher :: "u8 list \<Rightarrow> block_fn" where
  "aes_inv_cipher key = inv_cipher (key_rounds key) (key_word (length key div 4) key)"

lemma aes_cipher_blocks:
  assumes "length b = 16"
  shows "length (aes_cipher key b) = 16" "length (aes_inv_cipher key b) = 16"
    "aes_inv_cipher key (aes_cipher key b) = b" "aes_cipher key (aes_inv_cipher key b) = b"
proof -
  have l: "length (aes_cipher key b) = 16" "aes_inv_cipher key (aes_cipher key b) = b" if "length b = 16" for b
    using that inv_cipher_cipher by (simp_all add: aes_cipher_def aes_inv_cipher_def cipher_def Let_def lengths)
  show "length (aes_cipher key b) = 16" "aes_inv_cipher key (aes_cipher key b) = b" using l assms by simp_all
  show "length (aes_inv_cipher key b) = 16" using inv_cipher_length assms by (simp add: aes_inv_cipher_def)
  show "aes_cipher key (aes_inv_cipher key b) = b" using bytes_permutation[of "aes_cipher key"] l assms by blast
qed

text \<open>The results of the whole functions.\<close>

lemma kw_mem_start:
  assumes "length a = 8" "length R = 8 * n" "base + 8 * n \<le> length m"
  shows "kw_mem n base m (a @ replicate 8 0, overwrite m base R) (a, R)"
  using assms by (simp add: kw_mem_def kw_ok_def)

lemma AES_wrap_key_eq:
  assumes key: "\<And>b. length b = 16 \<Longrightarrow> AES_encrypt b ek = Some (enc b) \<and> length (enc b) = 16"
    and iv: "length (key_iv iv) = 8" and P: "ld m inp len = Some P"
    and len: "8 \<le> len" "len + 8 < 2 ^ 31" "len mod 8 = 0" and mem: "outp + len + 8 \<le> length m"
  shows "AES_wrap_key ek iv m outp inp len = Some (int len + 8, overwrite m outp (kw_wrap enc (key_iv iv) P))"
proof -
  define n where "n = len div 8"
  have n: "len = 8 * n" "0 < n" using len(1,3) by (auto simp: n_def)
  have lP: "length P = 8 * n" using ld_length[OF P] n by simp
  let ?m = "overwrite m (outp + 8) P" let ?S = "foldl (kw_step enc n) (key_iv iv, P) [1..<6 * n + 1]"
  have b: "6 * n < 2 ^ 32" using len n by simp
  have "kw_mem n (outp + 8) m (key_iv iv @ replicate 8 0, ?m) (key_iv iv, P)"
    by (rule kw_mem_start[OF iv lP]) (use mem n in simp)
  from wrap_rounds_eq[OF key b _ this, of 0 6] obtain s where
    s: "wrap_rounds ek n outp 0 (key_iv iv @ replicate 8 0, ?m) = Some s" "kw_mem n (outp + 8) m s ?S" by auto
  obtain A a R where d: "s = (A, overwrite m (outp + 8) R)" "?S = (a, R)" "take 8 A = a" "length A = 16" "length R = 8 * n" "length a = 8"
    using s(2) by (cases s; cases ?S) (auto simp: kw_mem_def kw_ok_def)
  have "overwrite (overwrite m (outp + 8) R) outp a = overwrite m outp (a @ R)"
    using d(5,6) mem n by (simp add: overwrite_def min_def add.assoc)
  moreover have "kw_wrap enc (key_iv iv) P = a @ R" using d(2) lP by (simp add: kw_wrap_def del: upt_Suc)
  ultimately show ?thesis
    using P s(1) d iv len mem lP n by (simp add: AES_wrap_key_def st_def)
qed

lemma AES_unwrap_key_eq:
  assumes key: "\<And>b. length b = 16 \<Longrightarrow> AES_decrypt b dk = Some (dec b) \<and> length (dec b) = 16"
    and iv: "length (key_iv iv) = 8" and C: "ld m inp len = Some C"
    and len: "16 \<le> len" "len < 2 ^ 31" "len mod 8 = 0" and mem: "outp + len \<le> length m + 8"
  shows "length (snd (kw_unwrap dec C)) = len - 8"
    "AES_unwrap_key dk iv m outp inp len =
      Some (if fst (kw_unwrap dec C) = key_iv iv then int len - 8 else -1, overwrite m outp (snd (kw_unwrap dec C)))"
proof -
  define n where "n = len div 8 - 1"
  have n: "len = 8 * (n + 1)" "0 < n" using len(1,3) by (auto simp: n_def)
  have lC: "length C = 8 * (n + 1)" using ld_length[OF C] n by simp
  let ?a = "take 8 C" let ?R = "drop 8 C"
  have ld: "ld m inp 8 = Some ?a" "ld m (inp + 8) (len - 8) = Some ?R"
    using C ld_split[of m inp 8 "len - 8" C] n by simp_all
  let ?m = "overwrite m outp ?R" let ?S = "foldl (ku_step dec n) (?a, ?R) (rev [1..<6 * n + 1])"
  have b: "6 * n < 2 ^ 32" using len n by simp
  have "kw_mem n outp m (?a @ replicate 8 0, ?m) (?a, ?R)"
    by (rule kw_mem_start) (use mem n lC in simp_all)
  from unwrap_rounds_eq[OF key b _ _ this, of "kBound - 1" 5] obtain s where
    s: "unwrap_rounds dk n outp (kBound - 1) (?a @ replicate 8 0, ?m) = Some s" "kw_mem n outp m s ?S"
    by (auto simp: kBound_def mult.commute)
  have S: "?S = kw_unwrap dec C" using lC by (simp add: kw_unwrap_def del: upt_Suc)
  obtain A a R where d: "s = (A, overwrite m outp R)" "kw_unwrap dec C = (a, R)" "take 8 A = a" "length A = 16" "length R = 8 * n"
    using s(2) unfolding S by (cases s; cases "kw_unwrap dec C") (auto simp: kw_mem_def kw_ok_def)
  show "length (snd (kw_unwrap dec C)) = len - 8" using d n by simp
  show "AES_unwrap_key dk iv m outp inp len =
      Some (if fst (kw_unwrap dec C) = key_iv iv then int len - 8 else -1, overwrite m outp (snd (kw_unwrap dec C)))"
    using ld s(1) d iv len mem lC n CRYPTO_memcmp_zero_iff[of 8 A "key_iv iv"]
    by (auto simp: AES_unwrap_key_def st_def)
qed

lemma aes_key_functions:
  assumes key: "length key \<in> {16, 24, 32}" and k0: "length (rd_key k0) = 60"
    and ek: "AES_set_encrypt_key (Some key) (8 * length key) k0 = (0, ek)"
    and dk: "AES_set_decrypt_key (Some key) (8 * length key) k0 = (0, dk)" and b: "length b = 16"
  shows "AES_encrypt b ek = Some (aes_cipher key b)" "AES_decrypt b dk = Some (aes_inv_cipher key b)"
  using set_encrypt_key_expanded[OF key k0] set_decrypt_key_expanded[OF key k0] ek dk AES_encrypt_cipher[OF _ b]
    AES_decrypt_inv_cipher[OF _ b] by (auto simp: aes_cipher_def aes_inv_cipher_def)

lemma kw_unwrap_wrap:
  assumes "length iv = 8" "length P = 8 * n" "0 < n"
  shows "kw_unwrap (aes_inv_cipher key) (kw_wrap (aes_cipher key) iv P) = (iv, P)" (is ?A)
    "length (kw_wrap (aes_cipher key) iv P) = 8 * n + 8" (is ?B)
proof -
  let ?f = "kw_step (aes_cipher key) n" let ?ts = "[1..<6 * n + 1]"
  have blk: "is_block_fn (aes_cipher key)" by (simp add: is_block_fn_def aes_cipher_blocks)
  have "kw_ok n (foldl ?f (iv, P) ?ts) \<and> foldl (ku_step (aes_inv_cipher key) n) (foldl ?f (iv, P) ?ts) (rev ?ts) = (iv, P)"
  proof (rule foldl_undo[where P = "kw_ok n"])
    show "kw_ok n (iv, P)" using assms by (simp add: kw_ok_def)
    show "kw_ok n (?f s t) \<and> ku_step (aes_inv_cipher key) n (?f s t) t = s" if "kw_ok n s" for s t
      using kw_step_ok(1)[OF blk that assms(3)] ku_step_kw_step[OF _ that assms(3)] aes_cipher_blocks by blast
  qed
  then show ?A ?B using assms by (auto simp: kw_wrap_def kw_unwrap_def kw_ok_def Let_def split: prod.splits simp del: upt_Suc)
qed

lemma kw_wrap_unwrap:
  assumes "length C = 8 * n + 8" "0 < n"
  shows "C = (let (A, R) = kw_unwrap (aes_inv_cipher key) C in kw_wrap (aes_cipher key) A R)"
proof -
  let ?g = "ku_step (aes_inv_cipher key) n" let ?ts = "rev [1..<6 * n + 1]"
  let ?s = "(take 8 C, drop 8 C)"
  have blk: "is_block_fn (aes_inv_cipher key)" by (simp add: is_block_fn_def aes_cipher_blocks)
  have "kw_ok n (foldl ?g ?s ?ts) \<and> foldl (kw_step (aes_cipher key) n) (foldl ?g ?s ?ts) (rev ?ts) = ?s"
  proof (rule foldl_undo[where P = "kw_ok n"])
    show "kw_ok n ?s" using assms by (simp add: kw_ok_def)
    show "kw_ok n (?g s t) \<and> kw_step (aes_cipher key) n (?g s t) t = s" if "kw_ok n s" for s t
      using kw_step_ok(2)[OF blk that assms(2)] kw_step_ku_step[OF _ that assms(2)] aes_cipher_blocks by blast
  qed
  moreover have "kw_unwrap (aes_inv_cipher key) C = foldl ?g ?s ?ts" using assms by (simp add: kw_unwrap_def del: upt_Suc)
  ultimately show ?thesis by (auto simp: kw_wrap_def kw_ok_def Let_def split: prod.splits simp del: upt_Suc)
qed

section \<open>Properties\<close>

text \<open>
  Property C11: \<^verbatim>\<open>AES_wrap_key\<close> and \<^verbatim>\<open>AES_unwrap_key\<close> are the wrapping of RFC 3394 and its inverse. For a
  key of any of the three sizes, an IV of 8 bytes or NULL, and any multiple of 8 bytes, wrapping stores the
  ciphertext of the RFC at \<open>out\<close>, wherever it overlaps the input, and returns its length; unwrapping it, to
  anywhere, gives the input back. The 32 bits of the step number that the code uses are enough, and the outer
  loop of the second function, which counts an unsigned variable down below zero, ends.
\<close>

theorem AES_key_wrap_rfc3394:
  assumes key: "length key \<in> {16, 24, 32}" "length (rd_key k0) = 60"
      "AES_set_encrypt_key (Some key) (8 * length key) k0 = (0, ek)"
      "AES_set_decrypt_key (Some key) (8 * length key) k0 = (0, dk)"
    and iv: "length (key_iv iv) = 8" and P: "ld m inp len = Some P"
    and len: "8 \<le> len" "len + 8 < 2 ^ 31" "len mod 8 = 0"
    and mem: "outp + len + 8 \<le> length m" "outp' + len \<le> length m"
  shows "AES_wrap_key ek iv m outp inp len = Some (int len + 8, overwrite m outp (kw_wrap (aes_cipher key) (key_iv iv) P)) \<and>
    AES_unwrap_key dk iv (overwrite m outp (kw_wrap (aes_cipher key) (key_iv iv) P)) outp' outp (len + 8) =
      Some (int len, overwrite (overwrite m outp (kw_wrap (aes_cipher key) (key_iv iv) P)) outp' P)"
proof -
  let ?C = "kw_wrap (aes_cipher key) (key_iv iv) P"
  have "length P = 8 * (len div 8)" "0 < len div 8" using ld_length[OF P] len(1,3) by auto
  note u = kw_unwrap_wrap[OF iv this, of key]
  have lC: "length ?C = len + 8" using u(2) mult_div_mod_eq[of 8 len] len(3) by simp
  have "AES_wrap_key ek iv m outp inp len = Some (int len + 8, overwrite m outp ?C)"
    by (rule AES_wrap_key_eq[OF _ iv P len mem(1)]) (use aes_key_functions(1)[OF key] aes_cipher_blocks(1) in blast)
  moreover have ldC: "ld (overwrite m outp ?C) outp (len + 8) = Some ?C" using lC mem by (intro ld_overwrite_same) simp_all
  have "AES_unwrap_key dk iv (overwrite m outp ?C) outp' outp (len + 8) =
      Some (if fst (kw_unwrap (aes_inv_cipher key) ?C) = key_iv iv then int (len + 8) - 8 else -1,
        overwrite (overwrite m outp ?C) outp' (snd (kw_unwrap (aes_inv_cipher key) ?C)))"
    by (rule AES_unwrap_key_eq(2)[OF _ iv ldC])
      (use aes_key_functions(2)[OF key] aes_cipher_blocks(2) len lC mem in \<open>simp_all add: mod_simps\<close>)
  ultimately show ?thesis using u(1) by simp
qed

theorem AES_key_wrap_rfc3394_witness:
  "\<exists>ek dk. AES_set_encrypt_key (Some (replicate 16 3)) 128 \<lparr>rd_key = replicate 60 0, aes_rounds = 0\<rparr> = (0, ek) \<and>
    AES_set_decrypt_key (Some (replicate 16 3)) 128 \<lparr>rd_key = replicate 60 0, aes_rounds = 0\<rparr> = (0, dk) \<and>
    (let m = replicate 40 7; C = kw_wrap (aes_cipher (replicate 16 3)) kDefaultIV (replicate 16 7)
     in AES_wrap_key ek None m 8 4 16 = Some (24, overwrite m 8 C) \<and>
       AES_unwrap_key dk None (overwrite m 8 C) 20 8 24 = Some (16, overwrite (overwrite m 8 C) 20 (replicate 16 7)))"
proof -
  let ?k0 = "\<lparr>rd_key = replicate 60 0, aes_rounds = 0\<rparr>"
  obtain ek dk where k: "AES_set_encrypt_key (Some (replicate 16 3)) 128 ?k0 = (0, ek)"
    "AES_set_decrypt_key (Some (replicate 16 3)) 128 ?k0 = (0, dk)"
    using set_encrypt_key_expanded[of "replicate 16 3" ?k0] set_decrypt_key_expanded[of "replicate 16 3" ?k0] by auto
  then show ?thesis
    using AES_key_wrap_rfc3394[of "replicate 16 3" ?k0 ek dk None "replicate 40 7" 4 16 "replicate 16 7" 8 20]
    by (simp add: key_iv_def kDefaultIV_def ld_def Let_def)
qed

text \<open>
  Property C38: unwrapping authenticates. Whatever the input and its length, \<^verbatim>\<open>AES_unwrap_key\<close> returns the
  length of the key if the input is two to \<open>2 ^ 28 - 1\<close> blocks that are the wrapping of some key, and that
  key is then the output; in every other case it returns -1. It stores 8 bytes less than it reads, and nothing when the
  length is refused.
\<close>

theorem AES_unwrap_key_accepts:
  assumes key: "length key \<in> {16, 24, 32}" "length (rd_key k0) = 60"
      "AES_set_encrypt_key (Some key) (8 * length key) k0 = (0, ek)"
      "AES_set_decrypt_key (Some key) (8 * length key) k0 = (0, dk)"
    and iv: "length (key_iv iv) = 8" and C: "ld m inp len = Some C" and mem: "outp + len \<le> length m + 8"
  shows "let blocks = (16 \<le> len \<and> len < 2 ^ 31 \<and> len mod 8 = 0);
      wraps = (\<lambda>P. length P = len - 8 \<and> C = kw_wrap (aes_cipher key) (key_iv iv) P)
    in \<exists>R. length R = (if blocks then len - 8 else 0) \<and>
      AES_unwrap_key dk iv m outp inp len = Some (if blocks \<and> (\<exists>P. wraps P) then int len - 8 else -1, overwrite m outp R) \<and>
      (\<forall>P. blocks \<and> wraps P \<longrightarrow> R = P)"
proof (cases "16 \<le> len \<and> len < 2 ^ 31 \<and> len mod 8 = 0")
  case False
  have "AES_unwrap_key dk iv m outp inp len = Some (-1, m)" using False by (auto simp: AES_unwrap_key_def)
  then show ?thesis unfolding Let_def using False by (intro exI[of _ "[]"]) auto
next
  case True
  then have len: "16 \<le> len" "len < 2 ^ 31" "len mod 8 = 0" by blast+
  let ?u = "kw_unwrap (aes_inv_cipher key) C"
  let ?n = "len div 8 - 1"
  have n: "len = 8 * ?n + 8" "0 < ?n" "len - 8 = 8 * ?n" using len(1,3) by auto
  have lC: "length C = 8 * ?n + 8" using ld_length[OF C] n(1) by simp
  have dec: "AES_decrypt b dk = Some (aes_inv_cipher key b) \<and> length (aes_inv_cipher key b) = 16" if "length b = 16" for b
    using aes_key_functions(2)[OF key that] aes_cipher_blocks(2)[OF that] by simp
  note r = AES_unwrap_key_eq[OF dec iv C len mem]
  have one: "?u = (key_iv iv, P)" if "length P = len - 8" "C = kw_wrap (aes_cipher key) (key_iv iv) P" for P
    using kw_unwrap_wrap(1)[OF iv _ n(2), of P key] that n(3) by simp
  have "fst ?u = key_iv iv \<longleftrightarrow> (\<exists>P. length P = len - 8 \<and> C = kw_wrap (aes_cipher key) (key_iv iv) P)"
    using one kw_wrap_unwrap[OF lC n(2), of key] r(1) by (auto simp: case_prod_beta Let_def)
  then show ?thesis unfolding Let_def using r one len by (intro exI[of _ "snd ?u"]) auto
qed

theorem AES_unwrap_key_accepts_witness:
  "\<exists>ek dk R. AES_set_encrypt_key (Some (replicate 16 3)) 128 \<lparr>rd_key = replicate 60 0, aes_rounds = 0\<rparr> = (0, ek) \<and>
    AES_set_decrypt_key (Some (replicate 16 3)) 128 \<lparr>rd_key = replicate 60 0, aes_rounds = 0\<rparr> = (0, dk) \<and> length R = 16 \<and>
    AES_unwrap_key dk None (replicate 40 7) 16 0 24 =
      Some (if \<exists>P. length P = 16 \<and> replicate 24 7 = kw_wrap (aes_cipher (replicate 16 3)) kDefaultIV P then 16 else -1,
        overwrite (replicate 40 7) 16 R)"
proof -
  let ?k0 = "\<lparr>rd_key = replicate 60 0, aes_rounds = 0\<rparr>"
  obtain ek dk where k: "AES_set_encrypt_key (Some (replicate 16 3)) 128 ?k0 = (0, ek)"
    "AES_set_decrypt_key (Some (replicate 16 3)) 128 ?k0 = (0, dk)"
    using set_encrypt_key_expanded[of "replicate 16 3" ?k0] set_decrypt_key_expanded[of "replicate 16 3" ?k0] by auto
  then show ?thesis
    using AES_unwrap_key_accepts[of "replicate 16 3" ?k0 ek dk None "replicate 40 7" 0 24 "replicate 24 7" 16]
    by (auto simp: key_iv_def kDefaultIV_def ld_def Let_def)
qed

end
