(* ===== verification/Bn_Words.thy ===== *)
theory Bn_Words
  imports Prelude "HOL-Library.Monad_Syntax"
begin

text \<open>
  \<^verbatim>\<open>crypto/fipsmodule/bn/generic.c\<close>: the operations on arrays of 64-bit words, least significant word
  first, from which big-number arithmetic is built. The pod compiles them because it defines
  \<^verbatim>\<open>OPENSSL_NO_ASM\<close>; \<^verbatim>\<open>BN_ULLONG\<close>, the 128-bit integer, exists on LP64 targets. Arrays are blocks of
  memory and a pointer is a block with an offset, so that operands may be the same array; an access
  outside of a block has no result.
\<close>

section \<open>Words and memory\<close>

type_synonym u128 = "128 word"

definition BN_BITS2 :: nat where "BN_BITS2 = 64"

definition Lw :: "u128 \<Rightarrow> u64" where "Lw t = ucast t"
definition Hw :: "u128 \<Rightarrow> u64" where "Hw t = ucast (drop_bit BN_BITS2 t)"

type_synonym limb_mem = "nat \<Rightarrow> u64 list"
type_synonym limb_ptr = "nat \<times> nat"

definition rd :: "limb_mem \<Rightarrow> limb_ptr \<Rightarrow> nat \<Rightarrow> u64 option" where
  "rd m p i = (if snd p + i < length (m (fst p)) then Some (m (fst p) ! (snd p + i)) else None)"

definition wr :: "limb_mem \<Rightarrow> limb_ptr \<Rightarrow> nat \<Rightarrow> u64 \<Rightarrow> limb_mem option" where
  "wr m p i v =
     (if snd p + i < length (m (fst p)) then Some (m(fst p := (m (fst p))[snd p + i := v])) else None)"

section \<open>Multiplication of one word by another\<close>

text \<open>The macros \<^verbatim>\<open>mul_add\<close>, \<^verbatim>\<open>mul\<close> and \<^verbatim>\<open>sqr\<close>: the new values of the operands they assign.\<close>

definition mul_add :: "u64 \<Rightarrow> u64 \<Rightarrow> u64 \<Rightarrow> u64 \<Rightarrow> u64 \<times> u64" where
  "mul_add r a w c = (let t = (ucast w :: u128) * ucast a + ucast r + ucast c in (Lw t, Hw t))"

definition mul_w :: "u64 \<Rightarrow> u64 \<Rightarrow> u64 \<Rightarrow> u64 \<times> u64" where
  "mul_w a w c = (let t = (ucast w :: u128) * ucast a + ucast c in (Lw t, Hw t))"

definition sqr_w :: "u64 \<Rightarrow> u64 \<times> u64" where
  "sqr_w a = (let t = (ucast a :: u128) * ucast a in (Lw t, Hw t))"

section \<open>The loops over words\<close>

text \<open>
  Every function has two loops: \<^verbatim>\<open>while (n & ~3)\<close> does four words at a time, \<^verbatim>\<open>while (n)\<close> the rest.
  \<open>step i\<close> is the block of statements for word \<open>i\<close>; the pointers are advanced with it.
\<close>

function words_by_4 :: "(nat \<Rightarrow> 's \<Rightarrow> 's option) \<Rightarrow> nat \<Rightarrow> nat \<Rightarrow> 's \<Rightarrow> (nat \<times> nat \<times> 's) option" where
  "words_by_4 step i n s =
     (if n div 4 \<noteq> 0
      then do {
        s \<leftarrow> step i s; s \<leftarrow> step (i + 1) s; s \<leftarrow> step (i + 2) s; s \<leftarrow> step (i + 3) s;
        words_by_4 step (i + 4) (n - 4) s }
      else Some (i, n, s))"
  by pat_completeness auto

termination by (relation "measure (\<lambda>(step, i, n, s). n)") auto

declare words_by_4.simps [simp del]

fun words_by_1 :: "(nat \<Rightarrow> 's \<Rightarrow> 's option) \<Rightarrow> nat \<Rightarrow> nat \<Rightarrow> 's \<Rightarrow> 's option" where
  "words_by_1 step i 0 s = Some s"
| "words_by_1 step i (Suc n) s = do { s \<leftarrow> step i s; words_by_1 step (i + 1) n s }"

definition words_loop :: "(nat \<Rightarrow> 's \<Rightarrow> 's option) \<Rightarrow> nat \<Rightarrow> 's \<Rightarrow> 's option" where
  "words_loop step n s = do { (i, n, s) \<leftarrow> words_by_4 step 0 n s; words_by_1 step i n s }"

definition mul_add_step :: "limb_ptr \<Rightarrow> limb_ptr \<Rightarrow> u64 \<Rightarrow> nat \<Rightarrow> u64 \<times> limb_mem \<Rightarrow> (u64 \<times> limb_mem) option" where
  "mul_add_step rp ap w i = (\<lambda>(c1, m). do {
     r \<leftarrow> rd m rp i; a \<leftarrow> rd m ap i;
     let (r, c1) = mul_add r a w c1;
     m \<leftarrow> wr m rp i r;
     Some (c1, m) })"

definition bn_mul_add_words :: "limb_mem \<Rightarrow> limb_ptr \<Rightarrow> limb_ptr \<Rightarrow> nat \<Rightarrow> u64 \<Rightarrow> (u64 \<times> limb_mem) option" where
  "bn_mul_add_words m rp ap num w = (if num = 0 then Some (0, m) else words_loop (mul_add_step rp ap w) num (0, m))"

definition mul_step :: "limb_ptr \<Rightarrow> limb_ptr \<Rightarrow> u64 \<Rightarrow> nat \<Rightarrow> u64 \<times> limb_mem \<Rightarrow> (u64 \<times> limb_mem) option" where
  "mul_step rp ap w i = (\<lambda>(c1, m). do {
     a \<leftarrow> rd m ap i;
     let (r, c1) = mul_w a w c1;
     m \<leftarrow> wr m rp i r;
     Some (c1, m) })"

definition bn_mul_words :: "limb_mem \<Rightarrow> limb_ptr \<Rightarrow> limb_ptr \<Rightarrow> nat \<Rightarrow> u64 \<Rightarrow> (u64 \<times> limb_mem) option" where
  "bn_mul_words m rp ap num w = (if num = 0 then Some (0, m) else words_loop (mul_step rp ap w) num (0, m))"

definition sqr_step :: "limb_ptr \<Rightarrow> limb_ptr \<Rightarrow> nat \<Rightarrow> limb_mem \<Rightarrow> limb_mem option" where
  "sqr_step r a i m = do {
     x \<leftarrow> rd m a i;
     let (r0, r1) = sqr_w x;
     m \<leftarrow> wr m r (2 * i) r0;
     wr m r (2 * i + 1) r1 }"

definition bn_sqr_words :: "limb_mem \<Rightarrow> limb_ptr \<Rightarrow> limb_ptr \<Rightarrow> nat \<Rightarrow> limb_mem option" where
  "bn_sqr_words m r a n = (if n = 0 then Some m else words_loop (sqr_step r a) n m)"

definition add_step ::
  "limb_ptr \<Rightarrow> limb_ptr \<Rightarrow> limb_ptr \<Rightarrow> nat \<Rightarrow> u128 \<times> limb_mem \<Rightarrow> (u128 \<times> limb_mem) option" where
  "add_step r a b i = (\<lambda>(ll, m). do {
     x \<leftarrow> rd m a i; y \<leftarrow> rd m b i;
     let ll = ll + (ucast x + ucast y);
     m \<leftarrow> wr m r i (ucast ll);
     Some (drop_bit BN_BITS2 ll, m) })"

definition bn_add_words :: "limb_mem \<Rightarrow> limb_ptr \<Rightarrow> limb_ptr \<Rightarrow> limb_ptr \<Rightarrow> nat \<Rightarrow> (u64 \<times> limb_mem) option" where
  "bn_add_words m r a b n =
     (if n = 0 then Some (0, m)
      else do { (ll, m) \<leftarrow> words_loop (add_step r a b) n (0, m); Some (ucast ll, m) })"

text \<open>The version for targets without \<^verbatim>\<open>BN_ULLONG\<close>, where the carry is found by comparing.\<close>

definition add_compare_step ::
  "limb_ptr \<Rightarrow> limb_ptr \<Rightarrow> limb_ptr \<Rightarrow> nat \<Rightarrow> u64 \<times> limb_mem \<Rightarrow> (u64 \<times> limb_mem) option" where
  "add_compare_step r a b i = (\<lambda>(c, m). do {
     t \<leftarrow> rd m a i;
     let t = t + c;
     let c = (if t < c then 1 else 0);
     y \<leftarrow> rd m b i;
     let l = t + y;
     let c = c + (if l < t then 1 else 0);
     m \<leftarrow> wr m r i l;
     Some (c, m) })"

definition bn_add_words_compare ::
  "limb_mem \<Rightarrow> limb_ptr \<Rightarrow> limb_ptr \<Rightarrow> limb_ptr \<Rightarrow> nat \<Rightarrow> (u64 \<times> limb_mem) option" where
  "bn_add_words_compare m r a b n =
     (if n = 0 then Some (0, m) else words_loop (add_compare_step r a b) n (0, m))"

definition sub_step :: "limb_ptr \<Rightarrow> limb_ptr \<Rightarrow> limb_ptr \<Rightarrow> nat \<Rightarrow> bool \<times> limb_mem \<Rightarrow> (bool \<times> limb_mem) option" where
  "sub_step r a b i = (\<lambda>(c, m). do {
     t1 \<leftarrow> rd m a i; t2 \<leftarrow> rd m b i;
     m \<leftarrow> wr m r i (t1 - t2 - (if c then 1 else 0));
     Some (if t1 \<noteq> t2 then t1 < t2 else c, m) })"

definition bn_sub_words :: "limb_mem \<Rightarrow> limb_ptr \<Rightarrow> limb_ptr \<Rightarrow> limb_ptr \<Rightarrow> nat \<Rightarrow> (u64 \<times> limb_mem) option" where
  "bn_sub_words m r a b n =
     (if n = 0 then Some (0, m)
      else do { (c, m) \<leftarrow> words_loop (sub_step r a b) n (False, m); Some (if c then 1 else 0, m) })"

section \<open>Products by columns\<close>

text \<open>
  The macros that add a product, or twice a product, to a number of three words: the new values of
  \<open>c0\<close>, \<open>c1\<close>, \<open>c2\<close>.
\<close>

definition carry_hi :: "u64 \<Rightarrow> u64 \<Rightarrow> u64 \<Rightarrow> u64 \<times> u64" where
  "carry_hi hi c1 c2 = (let c1 = c1 + hi in (c1, if c1 < hi then c2 + 1 else c2))"

definition mul_add_c :: "u64 \<Rightarrow> u64 \<Rightarrow> u64 \<Rightarrow> u64 \<Rightarrow> u64 \<Rightarrow> u64 \<times> u64 \<times> u64" where
  "mul_add_c a b c0 c1 c2 =
     (let t = (ucast a :: u128) * ucast b;
          t = t + ucast c0;
          c0 = Lw t;
          (c1, c2) = carry_hi (Hw t) c1 c2
      in (c0, c1, c2))"

definition mul_add_c2 :: "u64 \<Rightarrow> u64 \<Rightarrow> u64 \<Rightarrow> u64 \<Rightarrow> u64 \<Rightarrow> u64 \<times> u64 \<times> u64" where
  "mul_add_c2 a b c0 c1 c2 =
     (let t = (ucast a :: u128) * ucast b;
          tt = t + ucast c0;
          c0 = Lw tt;
          (c1, c2) = carry_hi (Hw tt) c1 c2;
          t = t + ucast c0;
          c0 = Lw t;
          (c1, c2) = carry_hi (Hw t) c1 c2
      in (c0, c1, c2))"

definition sqr_add_c :: "u64 \<Rightarrow> u64 \<Rightarrow> u64 \<Rightarrow> u64 \<Rightarrow> u64 \<times> u64 \<times> u64" where
  "sqr_add_c a c0 c1 c2 =
     (let t = (ucast a :: u128) * ucast a;
          t = t + ucast c0;
          c0 = Lw t;
          (c1, c2) = carry_hi (Hw t) c1 c2
      in (c0, c1, c2))"

text \<open>
  The functions below are sequences of these macros on \<open>a[i]\<close> and \<open>b[j]\<close>, of stores \<^verbatim>\<open>r[i] = c\<close> and of
  \<^verbatim>\<open>c = 0\<close>, on three variables in changing roles.
\<close>

datatype creg = C1 | C2 | C3

datatype comba =
    Mac nat nat creg creg creg
  | Sqr nat creg creg creg
  | Sqr2 nat nat creg creg creg
  | Put nat creg
  | Clr creg

definition set_regs :: "(creg \<Rightarrow> u64) \<Rightarrow> creg \<Rightarrow> creg \<Rightarrow> creg \<Rightarrow> u64 \<times> u64 \<times> u64 \<Rightarrow> creg \<Rightarrow> u64" where
  "set_regs c x y z = (\<lambda>(p, q, r). c(x := p, y := q, z := r))"

fun comba_exec ::
  "limb_ptr \<Rightarrow> limb_ptr \<Rightarrow> limb_ptr \<Rightarrow> comba \<Rightarrow> (creg \<Rightarrow> u64) \<times> limb_mem \<Rightarrow> ((creg \<Rightarrow> u64) \<times> limb_mem) option" where
  "comba_exec r a b (Mac i j x y z) (c, m) = do {
     u \<leftarrow> rd m a i; v \<leftarrow> rd m b j;
     Some (set_regs c x y z (mul_add_c u v (c x) (c y) (c z)), m) }"
| "comba_exec r a b (Sqr i x y z) (c, m) = do {
     u \<leftarrow> rd m a i;
     Some (set_regs c x y z (sqr_add_c u (c x) (c y) (c z)), m) }"
| "comba_exec r a b (Sqr2 i j x y z) (c, m) = do {
     u \<leftarrow> rd m a i; v \<leftarrow> rd m a j;
     Some (set_regs c x y z (mul_add_c2 u v (c x) (c y) (c z)), m) }"
| "comba_exec r a b (Put i x) (c, m) = do { m \<leftarrow> wr m r i (c x); Some (c, m) }"
| "comba_exec r a b (Clr x) (c, m) = Some (c(x := 0), m)"

fun comba_run ::
  "limb_ptr \<Rightarrow> limb_ptr \<Rightarrow> limb_ptr \<Rightarrow> comba list \<Rightarrow> (creg \<Rightarrow> u64) \<times> limb_mem \<Rightarrow> ((creg \<Rightarrow> u64) \<times> limb_mem) option" where
  "comba_run r a b [] s = Some s"
| "comba_run r a b (x # xs) s = do { s \<leftarrow> comba_exec r a b x s; comba_run r a b xs s }"

definition mul_comba8_calls :: "comba list" where
  "mul_comba8_calls = [
     Clr C1, Clr C2, Clr C3, Mac 0 0 C1 C2 C3, Put 0 C1, Clr C1, Mac 0 1 C2 C3 C1, Mac 1 0 C2 C3 C1, Put 1 C2,
     Clr C2, Mac 2 0 C3 C1 C2, Mac 1 1 C3 C1 C2, Mac 0 2 C3 C1 C2, Put 2 C3, Clr C3, Mac 0 3 C1 C2 C3,
     Mac 1 2 C1 C2 C3, Mac 2 1 C1 C2 C3, Mac 3 0 C1 C2 C3, Put 3 C1, Clr C1, Mac 4 0 C2 C3 C1, Mac 3 1 C2 C3 C1,
     Mac 2 2 C2 C3 C1, Mac 1 3 C2 C3 C1, Mac 0 4 C2 C3 C1, Put 4 C2, Clr C2, Mac 0 5 C3 C1 C2, Mac 1 4 C3 C1 C2,
     Mac 2 3 C3 C1 C2, Mac 3 2 C3 C1 C2, Mac 4 1 C3 C1 C2, Mac 5 0 C3 C1 C2, Put 5 C3, Clr C3, Mac 6 0 C1 C2 C3,
     Mac 5 1 C1 C2 C3, Mac 4 2 C1 C2 C3, Mac 3 3 C1 C2 C3, Mac 2 4 C1 C2 C3, Mac 1 5 C1 C2 C3, Mac 0 6 C1 C2 C3,
     Put 6 C1, Clr C1, Mac 0 7 C2 C3 C1, Mac 1 6 C2 C3 C1, Mac 2 5 C2 C3 C1, Mac 3 4 C2 C3 C1, Mac 4 3 C2 C3 C1,
     Mac 5 2 C2 C3 C1, Mac 6 1 C2 C3 C1, Mac 7 0 C2 C3 C1, Put 7 C2, Clr C2, Mac 7 1 C3 C1 C2, Mac 6 2 C3 C1 C2,
     Mac 5 3 C3 C1 C2, Mac 4 4 C3 C1 C2, Mac 3 5 C3 C1 C2, Mac 2 6 C3 C1 C2, Mac 1 7 C3 C1 C2, Put 8 C3, Clr C3,
     Mac 2 7 C1 C2 C3, Mac 3 6 C1 C2 C3, Mac 4 5 C1 C2 C3, Mac 5 4 C1 C2 C3, Mac 6 3 C1 C2 C3, Mac 7 2 C1 C2 C3,
     Put 9 C1, Clr C1, Mac 7 3 C2 C3 C1, Mac 6 4 C2 C3 C1, Mac 5 5 C2 C3 C1, Mac 4 6 C2 C3 C1, Mac 3 7 C2 C3 C1,
     Put 10 C2, Clr C2, Mac 4 7 C3 C1 C2, Mac 5 6 C3 C1 C2, Mac 6 5 C3 C1 C2, Mac 7 4 C3 C1 C2, Put 11 C3, Clr C3,
     Mac 7 5 C1 C2 C3, Mac 6 6 C1 C2 C3, Mac 5 7 C1 C2 C3, Put 12 C1, Clr C1, Mac 6 7 C2 C3 C1, Mac 7 6 C2 C3 C1,
     Put 13 C2, Clr C2, Mac 7 7 C3 C1 C2, Put 14 C3, Put 15 C1]"

definition mul_comba4_calls :: "comba list" where
  "mul_comba4_calls = [
     Clr C1, Clr C2, Clr C3, Mac 0 0 C1 C2 C3, Put 0 C1, Clr C1, Mac 0 1 C2 C3 C1, Mac 1 0 C2 C3 C1, Put 1 C2,
     Clr C2, Mac 2 0 C3 C1 C2, Mac 1 1 C3 C1 C2, Mac 0 2 C3 C1 C2, Put 2 C3, Clr C3, Mac 0 3 C1 C2 C3,
     Mac 1 2 C1 C2 C3, Mac 2 1 C1 C2 C3, Mac 3 0 C1 C2 C3, Put 3 C1, Clr C1, Mac 3 1 C2 C3 C1, Mac 2 2 C2 C3 C1,
     Mac 1 3 C2 C3 C1, Put 4 C2, Clr C2, Mac 2 3 C3 C1 C2, Mac 3 2 C3 C1 C2, Put 5 C3, Clr C3, Mac 3 3 C1 C2 C3,
     Put 6 C1, Put 7 C2]"

definition sqr_comba8_calls :: "comba list" where
  "sqr_comba8_calls = [
     Clr C1, Clr C2, Clr C3, Sqr 0 C1 C2 C3, Put 0 C1, Clr C1, Sqr2 1 0 C2 C3 C1, Put 1 C2, Clr C2, Sqr 1 C3 C1 C2,
     Sqr2 2 0 C3 C1 C2, Put 2 C3, Clr C3, Sqr2 3 0 C1 C2 C3, Sqr2 2 1 C1 C2 C3, Put 3 C1, Clr C1, Sqr 2 C2 C3 C1,
     Sqr2 3 1 C2 C3 C1, Sqr2 4 0 C2 C3 C1, Put 4 C2, Clr C2, Sqr2 5 0 C3 C1 C2, Sqr2 4 1 C3 C1 C2, Sqr2 3 2 C3 C1 C2,
     Put 5 C3, Clr C3, Sqr 3 C1 C2 C3, Sqr2 4 2 C1 C2 C3, Sqr2 5 1 C1 C2 C3, Sqr2 6 0 C1 C2 C3, Put 6 C1, Clr C1,
     Sqr2 7 0 C2 C3 C1, Sqr2 6 1 C2 C3 C1, Sqr2 5 2 C2 C3 C1, Sqr2 4 3 C2 C3 C1, Put 7 C2, Clr C2, Sqr 4 C3 C1 C2,
     Sqr2 5 3 C3 C1 C2, Sqr2 6 2 C3 C1 C2, Sqr2 7 1 C3 C1 C2, Put 8 C3, Clr C3, Sqr2 7 2 C1 C2 C3, Sqr2 6 3 C1 C2 C3,
     Sqr2 5 4 C1 C2 C3, Put 9 C1, Clr C1, Sqr 5 C2 C3 C1, Sqr2 6 4 C2 C3 C1, Sqr2 7 3 C2 C3 C1, Put 10 C2, Clr C2,
     Sqr2 7 4 C3 C1 C2, Sqr2 6 5 C3 C1 C2, Put 11 C3, Clr C3, Sqr 6 C1 C2 C3, Sqr2 7 5 C1 C2 C3, Put 12 C1, Clr C1,
     Sqr2 7 6 C2 C3 C1, Put 13 C2, Clr C2, Sqr 7 C3 C1 C2, Put 14 C3, Put 15 C1]"

definition sqr_comba4_calls :: "comba list" where
  "sqr_comba4_calls = [
     Clr C1, Clr C2, Clr C3, Sqr 0 C1 C2 C3, Put 0 C1, Clr C1, Sqr2 1 0 C2 C3 C1, Put 1 C2, Clr C2, Sqr 1 C3 C1 C2,
     Sqr2 2 0 C3 C1 C2, Put 2 C3, Clr C3, Sqr2 3 0 C1 C2 C3, Sqr2 2 1 C1 C2 C3, Put 3 C1, Clr C1, Sqr 2 C2 C3 C1,
     Sqr2 3 1 C2 C3 C1, Put 4 C2, Clr C2, Sqr2 3 2 C3 C1 C2, Put 5 C3, Clr C3, Sqr 3 C1 C2 C3, Put 6 C1, Put 7 C2]"

text \<open>The variables are not initialised before they are cleared.\<close>

definition bn_mul_comba8 :: "(creg \<Rightarrow> u64) \<Rightarrow> limb_mem \<Rightarrow> limb_ptr \<Rightarrow> limb_ptr \<Rightarrow> limb_ptr \<Rightarrow> limb_mem option" where
  "bn_mul_comba8 c m r a b = map_option snd (comba_run r a b mul_comba8_calls (c, m))"

definition bn_mul_comba4 :: "(creg \<Rightarrow> u64) \<Rightarrow> limb_mem \<Rightarrow> limb_ptr \<Rightarrow> limb_ptr \<Rightarrow> limb_ptr \<Rightarrow> limb_mem option" where
  "bn_mul_comba4 c m r a b = map_option snd (comba_run r a b mul_comba4_calls (c, m))"

definition bn_sqr_comba8 :: "(creg \<Rightarrow> u64) \<Rightarrow> limb_mem \<Rightarrow> limb_ptr \<Rightarrow> limb_ptr \<Rightarrow> limb_mem option" where
  "bn_sqr_comba8 c m r a = map_option snd (comba_run r a a sqr_comba8_calls (c, m))"

definition bn_sqr_comba4 :: "(creg \<Rightarrow> u64) \<Rightarrow> limb_mem \<Rightarrow> limb_ptr \<Rightarrow> limb_ptr \<Rightarrow> limb_mem option" where
  "bn_sqr_comba4 c m r a = map_option snd (comba_run r a a sqr_comba4_calls (c, m))"

end
