(* ===== verification/Bn_Words_Spec.thy ===== *)
theory Bn_Words_Spec
  imports Bn_Words
begin

text \<open>
  What the word loops compute: arrays of words are natural numbers in base \<open>2 ^ 64\<close>, and every function is
  the operation on numbers that its comment in \<^verbatim>\<open>bn/internal.h\<close> states, with the carry or borrow that it returns,
  when the result is stored over an operand too.
\<close>

section \<open>Words as digits\<close>

abbreviation LIMB :: nat where "LIMB \<equiv> 18446744073709551616"

primrec limbs_val :: "u64 list \<Rightarrow> nat" where
  "limbs_val [] = 0"
| "limbs_val (x # xs) = unat x + LIMB * limbs_val xs"

lemma limbs_val_append: "limbs_val (xs @ ys) = limbs_val xs + LIMB ^ length xs * limbs_val ys"
  by (induction xs) (simp_all add: algebra_simps)

lemma unat_limb: "unat (x :: u64) < LIMB"
  using unsigned_less[of x, where 'a = nat] by simp

lemma limbs_val_less: "limbs_val xs < LIMB ^ length xs"
proof (induction xs)
  case (Cons x xs)
  have "unat x + LIMB * limbs_val xs < LIMB * (limbs_val xs + 1)" using unat_limb[of x] by simp
  also have "\<dots> \<le> LIMB * LIMB ^ length xs" using Cons by (intro mult_le_mono2) simp
  finally show ?case by simp
qed simp

lemma limbs_val_take_Suc: "k < length xs \<Longrightarrow> limbs_val (take (Suc k) xs) = limbs_val (take k xs) + LIMB ^ k * unat (xs ! k)"
  by (simp add: take_Suc_conv_app_nth limbs_val_append)

lemma limbs_val_zeros [simp]: "limbs_val (replicate n 0) = 0"
  by (induction n) simp_all

lemma limbs_val_eqI: "length xs = length ys \<Longrightarrow> limbs_val xs = limbs_val ys \<Longrightarrow> xs = ys"
proof (induction xs ys rule: list_induct2)
  case (Cons x xs y ys)
  have "(unat x + LIMB * limbs_val xs) mod LIMB = (unat y + LIMB * limbs_val ys) mod LIMB" using Cons.prems by simp
  then have "unat x = unat y" using unat_limb[of x] unat_limb[of y] by simp
  then show ?case using Cons by (simp add: word_unat_eq_iff)
qed simp

section \<open>Loops that store one word per step\<close>

lemma words_by_1_Suc_fun: "words_by_1 step i (Suc n) = (\<lambda>s. Option.bind (step i s) (words_by_1 step (i + 1) n))"
  by (rule ext) simp

lemma words_by_4_steps:
  "Option.bind (words_by_4 step i n s) (\<lambda>(i, n, s). words_by_1 step i n s) = words_by_1 step i n s"
proof (induction n arbitrary: i s rule: less_induct)
  case (less n)
  show ?case
  proof (cases "n div 4 = 0")
    case True
    then show ?thesis by (simp add: words_by_4.simps[of step i n s])
  next
    case False
    define k where "k = n - 4"
    have "4 \<le> n" using False by (metis div_less not_less)
    then have n: "n = Suc (Suc (Suc (Suc k)))" by (simp add: k_def)
    then have IH: "Option.bind (words_by_4 step i' k s') (\<lambda>(i, n, s). words_by_1 step i n s) = words_by_1 step i' k s'" for i' s'
      using less.IH[of k] by simp
    have i: "i + 3 = Suc (Suc (Suc i))" "i + 4 = Suc (Suc (Suc (Suc i)))" by simp_all
    show ?thesis unfolding n
      by (subst words_by_4.simps) (simp add: IH i words_by_1_Suc_fun add.commute[of 4] div_add_self2)
  qed
qed

lemma words_loop_steps: "words_loop step n s = words_by_1 step 0 n s"
  using words_by_4_steps[of step 0 n s] by (simp add: words_loop_def)

text \<open>A step that reads at the same index of two arrays, and stores its result there in a third one.\<close>

definition pointwise ::
  "('c \<Rightarrow> u64 \<Rightarrow> u64 \<Rightarrow> u64 \<times> 'c) \<Rightarrow> limb_ptr \<Rightarrow> limb_ptr \<Rightarrow> limb_ptr \<Rightarrow> nat \<Rightarrow> 'c \<times> limb_mem \<Rightarrow> ('c \<times> limb_mem) option" where
  "pointwise g r a b i = (\<lambda>(c, m). do {
     x \<leftarrow> rd m a i; y \<leftarrow> rd m b i;
     m \<leftarrow> wr m r i (fst (g c x y));
     Some (snd (g c x y), m) })"

fun digits :: "('c \<Rightarrow> u64 \<Rightarrow> u64 \<Rightarrow> u64 \<times> 'c) \<Rightarrow> 'c \<Rightarrow> u64 list \<Rightarrow> u64 list \<Rightarrow> u64 list \<times> 'c" where
  "digits g c (x # xs) (y # ys) = (let (z, c) = g c x y; (zs, c) = digits g c xs ys in (z # zs, c))"
| "digits g c xs ys = ([], c)"

definition limbs_at :: "limb_mem \<Rightarrow> limb_ptr \<Rightarrow> nat \<Rightarrow> u64 list" where
  "limbs_at m p n = take n (drop (snd p) (m (fst p)))"

definition limbs_in :: "limb_mem \<Rightarrow> limb_ptr \<Rightarrow> nat \<Rightarrow> bool" where
  "limbs_in m p n \<longleftrightarrow> snd p + n \<le> length (m (fst p))"

definition store_limbs :: "limb_mem \<Rightarrow> limb_ptr \<Rightarrow> u64 list \<Rightarrow> limb_mem" where
  "store_limbs m p xs = m(fst p := overwrite (m (fst p)) (snd p) xs)"

text \<open>The arrays are the same or do not overlap.\<close>

definition same_or_apart :: "limb_ptr \<Rightarrow> limb_ptr \<Rightarrow> nat \<Rightarrow> bool" where
  "same_or_apart r a n \<longleftrightarrow> r = a \<or> fst r \<noteq> fst a \<or> snd r + n \<le> snd a \<or> snd a + n \<le> snd r"

lemma length_digits: "length xs = length ys \<Longrightarrow> length (fst (digits g c xs ys)) = length ys"
  by (induction xs ys arbitrary: c rule: list_induct2) (simp_all add: split_beta)

definition shift_ptr :: "limb_ptr \<Rightarrow> nat \<Rightarrow> limb_ptr" where
  "shift_ptr p i = (fst p, snd p + i)"

lemma limbs_at_Suc: "limbs_in m p (Suc n) \<Longrightarrow> limbs_at m p (Suc n) = m (fst p) ! snd p # limbs_at m (shift_ptr p 1) n"
  by (simp add: limbs_at_def limbs_in_def shift_ptr_def Cons_nth_drop_Suc[symmetric])

lemma limbs_in_shift: "limbs_in m p (i + n) \<Longrightarrow> limbs_in m (shift_ptr p i) n"
  by (simp add: limbs_in_def shift_ptr_def)

lemma length_limbs_at: "limbs_in m p n \<Longrightarrow> length (limbs_at m p n) = n"
  by (simp add: limbs_at_def limbs_in_def)

lemma nth_limbs_at: "limbs_in m p n \<Longrightarrow> i < n \<Longrightarrow> limbs_at m p n ! i = m (fst p) ! (snd p + i)"
  by (simp add: limbs_at_def limbs_in_def)

lemma limbs_at_store:
  assumes "limbs_in m r (length zs)" "limbs_in m p n" "fst r \<noteq> fst p \<or> snd p + n \<le> snd r \<or> snd r + length zs \<le> snd p"
  shows "limbs_at (store_limbs m r zs) p n = limbs_at m p n" "limbs_in (store_limbs m r zs) p n"
proof -
  show i: "limbs_in (store_limbs m r zs) p n" using assms by (auto simp: limbs_in_def store_limbs_def)
  have "store_limbs m r zs (fst p) ! (snd p + k) = m (fst p) ! (snd p + k)" if "k < n" for k
    using assms that nth_overwrite[of "snd r" zs "m (fst r)" "snd p + k"] by (auto simp: store_limbs_def limbs_in_def)
  then show "limbs_at (store_limbs m r zs) p n = limbs_at m p n"
    using assms(2) i by (intro nth_equalityI) (simp_all add: nth_limbs_at length_limbs_at)
qed

text \<open>The loop from index \<open>i\<close> on is the loop at pointers \<open>i\<close> words ahead.\<close>

lemma pointwise_shift: "pointwise g r a b (i + k) = pointwise g (shift_ptr r i) (shift_ptr a i) (shift_ptr b i) k"
  by (rule ext) (simp add: pointwise_def rd_def wr_def shift_ptr_def add.assoc split: prod.splits)

lemma words_by_1_shift:
  "words_by_1 (pointwise g r a b) (i + k) n s =
   words_by_1 (pointwise g (shift_ptr r i) (shift_ptr a i) (shift_ptr b i)) k n s"
proof (induction n arbitrary: k s)
  case (Suc n)
  have "words_by_1 (pointwise g r a b) (i + k + 1) n s = words_by_1 (pointwise g (shift_ptr r i) (shift_ptr a i) (shift_ptr b i)) (k + 1) n s" for s
    using Suc[of "k + 1"] by (simp add: add.assoc)
  then have "words_by_1 (pointwise g r a b) (i + k + 1) n = words_by_1 (pointwise g (shift_ptr r i) (shift_ptr a i) (shift_ptr b i)) (k + 1) n"
    by (rule ext)
  then show ?case by (simp add: pointwise_shift)
qed simp

lemma store_limbs_Nil [simp]: "store_limbs m p [] = m"
  by (simp add: store_limbs_def)

lemma pointwise_loop:
  "limbs_in m r n \<Longrightarrow> limbs_in m a n \<Longrightarrow> limbs_in m b n \<Longrightarrow> same_or_apart r a n \<Longrightarrow> same_or_apart r b n \<Longrightarrow>
   words_by_1 (pointwise g r a b) 0 n (c, m) =
     (let (zs, c') = digits g c (limbs_at m a n) (limbs_at m b n) in Some (c', store_limbs m r zs))"
proof (induction n arbitrary: c m r a b)
  case 0
  then show ?case by (simp add: limbs_at_def)
next
  case (Suc n)
  let ?x = "m (fst a) ! snd a" and ?y = "m (fst b) ! snd b"
  obtain z c1 where g: "g c ?x ?y = (z, c1)" by (cases "g c ?x ?y")
  let ?m = "store_limbs m r [z]"
  let ?r = "shift_ptr r 1" and ?a = "shift_ptr a 1" and ?b = "shift_ptr b 1"
  have step: "pointwise g r a b 0 (c, m) = Some (c1, ?m)"
    using Suc.prems(1-3) g by (simp add: pointwise_def rd_def wr_def limbs_in_def store_limbs_def overwrite_def upd_conv_take_nth_drop)
  have apart: "same_or_apart ?r ?a n" "same_or_apart ?r ?b n"
    using Suc.prems(4,5) by (auto simp: same_or_apart_def shift_ptr_def)
  have one: "limbs_in m r (length [z])" using Suc.prems(1) by (simp add: limbs_in_def)
  have keep: "limbs_at ?m (shift_ptr p 1) n = limbs_at m (shift_ptr p 1) n" "limbs_in ?m (shift_ptr p 1) n"
    if "same_or_apart r p (Suc n)" "limbs_in m p (Suc n)" for p
    using limbs_at_store[OF one limbs_in_shift[of m p 1 n]] that by (auto simp: same_or_apart_def shift_ptr_def)
  have ins: "limbs_in ?m ?r n" "limbs_in ?m ?a n" "limbs_in ?m ?b n"
    using keep(2) Suc.prems by (auto simp: same_or_apart_def)
  have put: "store_limbs ?m ?r zs = store_limbs m r (z # zs)" if "length zs = n" for zs
    using that Suc.prems(1) by (simp add: store_limbs_def shift_ptr_def limbs_in_def overwrite_def add.commute[of n])
  have len: "length (fst (digits g c1 (limbs_at m ?a n) (limbs_at m ?b n))) = n"
    using Suc.prems(2,3) by (subst length_digits) (simp_all add: length_limbs_at limbs_in_shift)
  have "words_by_1 (pointwise g r a b) 1 n (c1, ?m) = words_by_1 (pointwise g ?r ?a ?b) 0 n (c1, ?m)"
    using words_by_1_shift[of g r a b 1 0 n] by simp
  also have "\<dots> = (let (zs, c') = digits g c1 (limbs_at m ?a n) (limbs_at m ?b n) in Some (c', store_limbs ?m ?r zs))"
    using Suc.IH[OF ins apart] keep(1)[OF Suc.prems(4,2)] keep(1)[OF Suc.prems(5,3)] by simp
  finally show ?case
    using step g put len limbs_at_Suc[OF Suc.prems(2)] limbs_at_Suc[OF Suc.prems(3)]
    by (simp add: Let_def split_beta)
qed

section \<open>Addition, subtraction, multiplication by a word\<close>

lemma unat_Lw: "unat (Lw t) = unat t mod LIMB"
  by (simp add: Lw_def unsigned_ucast_eq take_bit_eq_mod)

lemma unat_drop_64: "unat (drop_bit BN_BITS2 t :: u128) = unat t div LIMB"
  unfolding BN_BITS2_def unat_drop_bit_eq by (simp add: drop_bit_eq_div)

lemma unat_Hw: "unat (Hw t) = unat t div LIMB"
proof -
  have "unat t < LIMB * LIMB" using unsigned_less[of t, where 'a = nat] by simp
  then have "unat t div LIMB < LIMB" by (simp add: less_mult_imp_div_less)
  then show ?thesis using unat_drop_64[of t] by (simp add: Hw_def unsigned_ucast_eq take_bit_eq_mod)
qed

lemma Lw_Hw: "unat (Lw t) + LIMB * unat (Hw t) = unat t"
  by (simp add: unat_Lw unat_Hw)

lemma unat_u128_ucast: "unat (ucast (x :: u64) :: u128) = unat x"
  by (simp add: unsigned_ucast_eq take_bit_nat_eq_self_iff) (use unat_limb[of x] in simp)

lemma limb_prod: "unat (x :: u64) * unat (y :: u64) \<le> (LIMB - 1) * (LIMB - 1)"
  using unat_limb[of x] unat_limb[of y] by (intro mult_mono) simp_all

lemma unat_mul_add:
  "unat ((ucast x :: u128) * ucast y + ucast z + ucast c) = unat (x :: u64) * unat (y :: u64) + unat (z :: u64) + unat (c :: u64)"
proof -
  have "unat x * unat y + unat z + unat c < 2 ^ 128"
    using limb_prod[of x y] unat_limb[of z] unat_limb[of c] by simp
  then show ?thesis using limb_prod[of x y] by (simp add: unat_word_ariths unat_u128_ucast mod_simps)
qed

lemma unat_mul_1: "unat ((ucast x :: u128) * ucast y + ucast c) = unat (x :: u64) * unat (y :: u64) + unat (c :: u64)"
  using unat_mul_add[of x y 0 c] by simp

lemma unat_mul_0: "unat ((ucast x :: u128) * ucast y) = unat (x :: u64) * unat (y :: u64)"
  using unat_mul_add[of x y 0 0] by simp

definition add_g :: "u128 \<Rightarrow> u64 \<Rightarrow> u64 \<Rightarrow> u64 \<times> u128" where
  "add_g ll x y = (let ll = ll + (ucast x + ucast y) in (ucast ll, drop_bit BN_BITS2 ll))"

definition sub_g :: "bool \<Rightarrow> u64 \<Rightarrow> u64 \<Rightarrow> u64 \<times> bool" where
  "sub_g c x y = (x - y - (if c then 1 else 0), if x \<noteq> y then x < y else c)"

lemma steps_pointwise:
  "add_step r a b = pointwise add_g r a b"
  "sub_step r a b = pointwise sub_g r a b"
  by (rule ext; rule ext; simp add: add_step_def sub_step_def pointwise_def add_g_def sub_g_def Let_def split: prod.splits)+

lemma carry_step:
  fixes B :: nat
  assumes "z + B * c = s" "Z + P * c' = V + c"
  shows "(z + B * Z) + B * P * c' = s + B * V"
proof -
  have "B * (Z + P * c') = B * (V + c)" using assms(2) by simp
  then show ?thesis using assms(1) by (simp only: distrib_left mult.assoc)
qed

lemma borrow_step:
  fixes B :: nat
  assumes "z + y + c = x + B * b" "Z + Y + b = X + P * b'"
  shows "(z + B * Z) + (y + B * Y) + c = (x + B * X) + B * P * b'"
proof -
  have "B * (Z + Y + b) = B * (X + P * b')" using assms(2) by simp
  then show ?thesis using assms(1) by (simp only: distrib_left mult.assoc)
qed

lemma digits_add:
  "length xs = length ys \<Longrightarrow> unat c \<le> 1 \<Longrightarrow>
   limbs_val (fst (digits add_g c xs ys)) + LIMB ^ length ys * unat (snd (digits add_g c xs ys)) =
     limbs_val xs + limbs_val ys + unat c \<and> unat (snd (digits add_g c xs ys)) \<le> 1"
proof (induction xs ys arbitrary: c rule: list_induct2)
  case (Cons x xs y ys)
  let ?ll = "c + (ucast x + ucast y) :: u128"
  have sum: "unat c + (unat x + unat y) < 2 * LIMB" using Cons.prems unat_limb[of x] unat_limb[of y] by simp
  then have ll: "unat ?ll = unat c + (unat x + unat y)" by (simp add: unat_word_ariths unat_u128_ucast)
  let ?z = "ucast ?ll :: u64" let ?c = "drop_bit BN_BITS2 ?ll"
  have zc: "unat ?z + LIMB * unat ?c = unat c + (unat x + unat y)"
    using ll Lw_Hw[of ?ll] by (simp add: unat_drop_64 unat_Hw Lw_def)
  have "unat ?c \<le> 1" using sum unfolding unat_drop_64 ll by (simp add: less_Suc_eq_le[symmetric] less_mult_imp_div_less)
  note IH = Cons.IH[OF this]
  obtain zs c' where d: "digits add_g ?c xs ys = (zs, c')" by (cases "digits add_g ?c xs ys")
  then have "digits add_g c (x # xs) (y # ys) = (?z # zs, c')" by (simp add: add_g_def Let_def)
  moreover have "limbs_val zs + LIMB ^ length ys * unat c' = limbs_val xs + limbs_val ys + unat ?c" "unat c' \<le> 1"
    using IH d by simp_all
  from carry_step[OF zc this(1)] have "(unat ?z + LIMB * limbs_val zs) + LIMB * LIMB ^ length ys * unat c' =
      unat c + (unat x + unat y) + LIMB * (limbs_val xs + limbs_val ys)" .
  ultimately show ?case using \<open>unat c' \<le> 1\<close> by simp
qed simp

lemma int_mod_window: "- n \<le> v \<Longrightarrow> v < n \<Longrightarrow> 0 < n \<Longrightarrow> v mod n = (if v < 0 then v + n else v)" for v n :: int
  by (auto simp: mod_pos_pos_trivial intro!: int_mod_pos_eq[of _ _ "-1"])

lemma digits_sub:
  "length xs = length ys \<Longrightarrow>
   limbs_val (fst (digits sub_g c xs ys)) + limbs_val ys + of_bool c =
     limbs_val xs + LIMB ^ length ys * of_bool (snd (digits sub_g c xs ys))"
proof (induction xs ys arbitrary: c rule: list_induct2)
  case (Cons x xs y ys)
  let ?z = "x - y - (if c then 1 else 0)" let ?c = "if x \<noteq> y then x < y else c"
  have zc: "unat ?z + unat y + of_bool c = unat x + LIMB * of_bool ?c"
  proof -
    let ?v = "int (unat x) - int (unat y) - of_bool c"
    have "int (unat ?z) = ?v mod int LIMB"
      unfolding uint_nat[symmetric] by (auto simp: uint_word_ariths mod_simps)
    moreover have "?v mod int LIMB = (if ?v < 0 then ?v + int LIMB else ?v)"
    proof (rule int_mod_window)
      have "0 \<le> (of_bool c :: int)" "of_bool c \<le> (1 :: int)" by simp_all
      then show "- int LIMB \<le> ?v" "?v < int LIMB" using unat_limb[of x] unat_limb[of y] by linarith+
    qed simp
    ultimately have v: "int (unat ?z) = (if ?v < 0 then ?v + int LIMB else ?v)" by simp
    have eq: "x = y \<longleftrightarrow> unat x = unat y" "x < y \<longleftrightarrow> unat x < unat y" by (simp_all add: word_unat_eq_iff word_less_nat_alt)
    define X Y Z where "X = unat x" and "Y = unat y" and "Z = unat ?z"
    have "X < LIMB" "Y < LIMB" using unat_limb by (simp_all only: X_def Y_def)
    with v show ?thesis unfolding eq X_def[symmetric] Y_def[symmetric] Z_def[symmetric]
      by (cases c) (auto split: if_splits)
  qed
  obtain zs c' where d: "digits sub_g ?c xs ys = (zs, c')" by (cases "digits sub_g ?c xs ys")
  then have "digits sub_g c (x # xs) (y # ys) = (?z # zs, c')" by (simp add: sub_g_def Let_def)
  moreover have "limbs_val zs + limbs_val ys + of_bool ?c = limbs_val xs + LIMB ^ length ys * of_bool c'"
    using Cons.IH[of ?c] d by simp
  from borrow_step[OF zc this] have "(unat ?z + LIMB * limbs_val zs) + (unat y + LIMB * limbs_val ys) + of_bool c =
      (unat x + LIMB * limbs_val xs) + LIMB * LIMB ^ length ys * of_bool c'" .
  ultimately show ?case by simp
qed simp

definition mul_add_g :: "u64 \<Rightarrow> u64 \<Rightarrow> u64 \<Rightarrow> u64 \<Rightarrow> u64 \<times> u64" where
  "mul_add_g w c r a = mul_add r a w c"

definition mul_g :: "u64 \<Rightarrow> u64 \<Rightarrow> u64 \<Rightarrow> u64 \<Rightarrow> u64 \<times> u64" where
  "mul_g w c a a' = mul_w a w c"

lemma mul_steps_pointwise:
  "mul_add_step rp ap w = pointwise (mul_add_g w) rp rp ap"
  "mul_step rp ap w = pointwise (mul_g w) rp ap ap"
   by (rule ext; rule ext; simp add: mul_add_step_def mul_step_def pointwise_def mul_add_g_def mul_g_def mul_add_def mul_w_def Let_def
    bind_eq_Some_conv split: prod.splits bind_splits)+

lemma digits_mul_add:
  "length rs = length xs \<Longrightarrow>
   limbs_val (fst (digits (mul_add_g w) c rs xs)) + LIMB ^ length xs * unat (snd (digits (mul_add_g w) c rs xs)) =
     limbs_val rs + unat w * limbs_val xs + unat c"
proof (induction rs xs arbitrary: c rule: list_induct2)
  case (Cons r rs x xs)
  obtain z c1 where g: "mul_add_g w c r x = (z, c1)" by (cases "mul_add_g w c r x")
  then have zc: "unat z + LIMB * unat c1 = unat w * unat x + unat r + unat c"
    using Lw_Hw unat_mul_add[of w x r c] by (auto simp: mul_add_g_def mul_add_def Let_def)
  obtain zs c' where d: "digits (mul_add_g w) c1 rs xs = (zs, c')" by (cases "digits (mul_add_g w) c1 rs xs")
  then have "limbs_val zs + LIMB ^ length xs * unat c' = (limbs_val rs + unat w * limbs_val xs) + unat c1"
    using Cons.IH[of c1] by simp
  from carry_step[OF zc this] show ?case using g d by (simp add: distrib_left mult.left_commute)
qed simp

lemma digits_mul:
  "limbs_val (fst (digits (mul_g w) c xs xs)) + LIMB ^ length xs * unat (snd (digits (mul_g w) c xs xs)) =
     unat w * limbs_val xs + unat c"
proof (induction xs arbitrary: c)
  case (Cons x xs)
  obtain z c1 where g: "mul_g w c x x = (z, c1)" by (cases "mul_g w c x x")
  then have zc: "unat z + LIMB * unat c1 = unat w * unat x + unat c"
    using Lw_Hw unat_mul_1[of w x c] by (auto simp: mul_g_def mul_w_def Let_def)
  obtain zs c' where d: "digits (mul_g w) c1 xs xs = (zs, c')" by (cases "digits (mul_g w) c1 xs xs")
  then have "limbs_val zs + LIMB ^ length xs * unat c' = unat w * limbs_val xs + unat c1"
    using Cons.IH[of c1] by simp
  from carry_step[OF zc this] show ?case using g d by (simp add: distrib_left mult.left_commute)
qed simp

text \<open>The functions. The arrays are inside their blocks and the same or apart.\<close>

lemma same_or_apart_refl [simp]: "same_or_apart r r n"
  by (simp add: same_or_apart_def)

lemma bn_add_words_spec:
  assumes "limbs_in m r n" "limbs_in m a n" "limbs_in m b n" "same_or_apart r a n" "same_or_apart r b n"
  shows "\<exists>zs c. bn_add_words m r a b n = Some (c, store_limbs m r zs) \<and> length zs = n \<and> unat c \<le> 1 \<and>
    limbs_val zs + LIMB ^ n * unat c = limbs_val (limbs_at m a n) + limbs_val (limbs_at m b n)"
proof (cases "n = 0")
  case True
  then show ?thesis by (auto simp: bn_add_words_def limbs_at_def)
next
  case False
  let ?d = "digits add_g 0 (limbs_at m a n) (limbs_at m b n)"
  have l: "length (limbs_at m a n) = n" "length (limbs_at m b n) = n" using assms by (simp_all add: length_limbs_at)
  note d = digits_add[of "limbs_at m a n" "limbs_at m b n" 0]
  have "snd ?d = of_nat (unat (snd ?d))" by simp
  then have u: "unat (ucast (snd ?d) :: u64) = unat (snd ?d)"
    using d l by (simp add: unsigned_ucast_eq take_bit_nat_eq_self_iff)
  have "bn_add_words m r a b n = Some (ucast (snd ?d), store_limbs m r (fst ?d))"
    using False pointwise_loop[OF assms, of add_g 0]
    by (simp add: bn_add_words_def words_loop_steps steps_pointwise split_beta)
  then show ?thesis using d l u
    by (intro exI[of _ "fst ?d"] exI[of _ "ucast (snd ?d)"] conjI) (simp_all add: length_digits)
qed

lemma bn_sub_words_spec:
  assumes "limbs_in m r n" "limbs_in m a n" "limbs_in m b n" "same_or_apart r a n" "same_or_apart r b n"
  shows "\<exists>zs c. bn_sub_words m r a b n = Some (of_bool c, store_limbs m r zs) \<and> length zs = n \<and>
    limbs_val zs + limbs_val (limbs_at m b n) = limbs_val (limbs_at m a n) + LIMB ^ n * of_bool c"
proof (cases "n = 0")
  case True
  then show ?thesis by (auto simp: bn_sub_words_def limbs_at_def intro!: exI[of _ "[]"] exI[of _ False])
next
  case False
  let ?d = "digits sub_g False (limbs_at m a n) (limbs_at m b n)"
  have l: "length (limbs_at m a n) = n" "length (limbs_at m b n) = n" using assms by (simp_all add: length_limbs_at)
  have "bn_sub_words m r a b n = Some (of_bool (snd ?d), store_limbs m r (fst ?d))"
    using False pointwise_loop[OF assms, of sub_g False]
    by (simp add: bn_sub_words_def words_loop_steps steps_pointwise split_beta)
  moreover have "length (fst ?d) = n" using l by (simp add: length_digits)
  ultimately show ?thesis using digits_sub[of "limbs_at m a n" "limbs_at m b n" False] l
    by (intro exI[of _ "fst ?d"] exI[of _ "snd ?d"] conjI) simp_all
qed

lemma bn_mul_add_words_spec:
  assumes "limbs_in m r n" "limbs_in m a n" "same_or_apart r a n"
  shows "\<exists>zs c. bn_mul_add_words m r a n w = Some (c, store_limbs m r zs) \<and> length zs = n \<and>
    limbs_val zs + LIMB ^ n * unat c = limbs_val (limbs_at m r n) + unat w * limbs_val (limbs_at m a n)"
proof (cases "n = 0")
  case True
  then show ?thesis by (auto simp: bn_mul_add_words_def limbs_at_def)
next
  case False
  let ?d = "digits (mul_add_g w) 0 (limbs_at m r n) (limbs_at m a n)"
  have l: "length (limbs_at m a n) = n" "length (limbs_at m r n) = n" using assms by (simp_all add: length_limbs_at)
  have "bn_mul_add_words m r a n w = Some (snd ?d, store_limbs m r (fst ?d))"
    using False pointwise_loop[OF assms(1,1,2) same_or_apart_refl assms(3), of "mul_add_g w" 0]
    by (simp add: bn_mul_add_words_def words_loop_steps mul_steps_pointwise split_beta)
  then show ?thesis using digits_mul_add[of "limbs_at m r n" "limbs_at m a n" w 0] l
    by (intro exI[of _ "fst ?d"] exI[of _ "snd ?d"] conjI) (simp_all add: length_digits)
qed

lemma bn_mul_words_spec:
  assumes "limbs_in m r n" "limbs_in m a n" "same_or_apart r a n"
  shows "\<exists>zs c. bn_mul_words m r a n w = Some (c, store_limbs m r zs) \<and> length zs = n \<and>
    limbs_val zs + LIMB ^ n * unat c = unat w * limbs_val (limbs_at m a n)"
proof (cases "n = 0")
  case True
  then show ?thesis by (auto simp: bn_mul_words_def limbs_at_def)
next
  case False
  let ?d = "digits (mul_g w) 0 (limbs_at m a n) (limbs_at m a n)"
  have l: "length (limbs_at m a n) = n" using assms by (simp add: length_limbs_at)
  have "bn_mul_words m r a n w = Some (snd ?d, store_limbs m r (fst ?d))"
    using False pointwise_loop[OF assms(1,2,2,3,3), of "mul_g w" 0]
    by (simp add: bn_mul_words_def words_loop_steps mul_steps_pointwise split_beta)
  then show ?thesis using digits_mul[of w 0 "limbs_at m a n"] l
    by (intro exI[of _ "fst ?d"] exI[of _ "snd ?d"] conjI) (simp_all add: length_digits)
qed

section \<open>Squares of words\<close>

primrec squares_val :: "u64 list \<Rightarrow> nat" where
  "squares_val [] = 0"
| "squares_val (x # xs) = unat x * unat x + LIMB * (LIMB * squares_val xs)"

definition squares :: "u64 list \<Rightarrow> u64 list" where
  "squares xs = concat (map (\<lambda>x. [fst (sqr_w x), snd (sqr_w x)]) xs)"

lemma squares_simps [simp]: "squares [] = []" "squares (x # xs) = fst (sqr_w x) # snd (sqr_w x) # squares xs"
  by (simp_all add: squares_def)

lemma length_squares [simp]: "length (squares xs) = 2 * length xs"
  by (induction xs) simp_all

lemma limbs_val_squares: "limbs_val (squares xs) = squares_val xs"
proof (induction xs)
  case (Cons x xs)
  have "unat (fst (sqr_w x)) + LIMB * unat (snd (sqr_w x)) = unat x * unat x"
    using Lw_Hw[of "(ucast x :: u128) * ucast x"] unat_mul_0[of x x] by (simp add: sqr_w_def Let_def)
  then show ?case using Cons by (simp add: distrib_left)
qed simp

lemma sqr_step_shift: "sqr_step r a (i + k) = sqr_step (shift_ptr r (2 * i)) (shift_ptr a i) k"
  by (rule ext) (simp add: sqr_step_def rd_def wr_def shift_ptr_def distrib_left add.assoc sqr_w_def Let_def)

lemma sqr_loop_shift:
  "words_by_1 (sqr_step r a) (i + k) n m = words_by_1 (sqr_step (shift_ptr r (2 * i)) (shift_ptr a i)) k n m"
proof (induction n arbitrary: k m)
  case (Suc n)
  have "words_by_1 (sqr_step r a) (i + k + 1) n = words_by_1 (sqr_step (shift_ptr r (2 * i)) (shift_ptr a i)) (k + 1) n"
    using Suc[of "k + 1"] by (intro ext) (simp add: add.assoc)
  then show ?case by (simp add: sqr_step_shift)
qed simp

lemma sqr_loop:
  "limbs_in m r (2 * n) \<Longrightarrow> limbs_in m a n \<Longrightarrow> fst r \<noteq> fst a \<or> snd r + 2 * n \<le> snd a \<or> snd a + n \<le> snd r \<Longrightarrow>
   words_by_1 (sqr_step r a) 0 n m = Some (store_limbs m r (squares (limbs_at m a n)))"
proof (induction n arbitrary: m r a)
  case 0
  then show ?case by (simp add: limbs_at_def)
next
  case (Suc n)
  let ?x = "m (fst a) ! snd a"
  let ?zs = "[fst (sqr_w ?x), snd (sqr_w ?x)]"
  let ?m = "store_limbs m r ?zs" and ?r = "shift_ptr r 2" and ?a = "shift_ptr a 1"
  have two: "(m (fst r))[snd r := p, Suc (snd r) := q] = overwrite (m (fst r)) (snd r) [p, q]" for p q
    using Suc.prems(1) by (intro nth_equalityI) (auto simp: nth_overwrite limbs_in_def nth_list_update less_Suc_eq)
  have step: "sqr_step r a 0 m = Some ?m"
    using Suc.prems(1,2) two by (simp add: sqr_step_def rd_def wr_def limbs_in_def store_limbs_def split_beta Let_def)
  have ins: "limbs_in ?m ?r (2 * n)" "limbs_in ?m ?a n"
    using Suc.prems(1,2) by (auto simp: limbs_in_def shift_ptr_def store_limbs_def)
  have apart: "fst ?r \<noteq> fst ?a \<or> snd ?r + 2 * n \<le> snd ?a \<or> snd ?a + n \<le> snd ?r"
    using Suc.prems(3) by (auto simp: shift_ptr_def)
  have "limbs_in m r (length ?zs)" using Suc.prems(1) by (simp add: limbs_in_def)
  then have keep: "limbs_at ?m ?a n = limbs_at m ?a n"
    using limbs_at_store(1)[of m r ?zs ?a n] Suc.prems by (auto simp: shift_ptr_def limbs_in_def)
  have "words_by_1 (sqr_step r a) 1 n ?m = words_by_1 (sqr_step ?r ?a) 0 n ?m"
    using sqr_loop_shift[of r a 1 0 n ?m] by simp
  also have "\<dots> = Some (store_limbs ?m ?r (squares (limbs_at m ?a n)))" using Suc.IH[OF ins apart] keep by simp
  also have "store_limbs ?m ?r zs = store_limbs m r (?zs @ zs)" if "length zs = 2 * n" for zs
    using that Suc.prems(1)
    by (simp add: store_limbs_def shift_ptr_def limbs_in_def overwrite_def add.commute[of _ "Suc (Suc _)"] add.commute[of "2 * n"])
  finally show ?case using step limbs_at_Suc[OF Suc.prems(2)] Suc.prems(2) by (simp add: length_limbs_at limbs_in_shift)
qed

lemma bn_sqr_words_spec:
  assumes "limbs_in m r (2 * n)" "limbs_in m a n" "fst r \<noteq> fst a \<or> snd r + 2 * n \<le> snd a \<or> snd a + n \<le> snd r"
  shows "bn_sqr_words m r a n = Some (store_limbs m r (squares (limbs_at m a n)))"
  using sqr_loop[OF assms] by (auto simp: bn_sqr_words_def words_loop_steps limbs_at_def)

section \<open>The two forms of addition\<close>

lemma carry_compare: "a + b < b \<longleftrightarrow> LIMB \<le> unat a + unat (b :: u64)"
  using unat_limb[of a] unat_limb[of b] by (auto simp: word_less_nat_alt unat_plus_if')

lemma word_carry: "unat (a + b :: u64) + LIMB * of_bool (a + b < b) = unat a + unat b"
proof (cases "unat a + unat b < LIMB")
  case True
  then show ?thesis by (simp add: unat_plus_if' carry_compare)
next
  case False
  then show ?thesis by (simp add: unat_plus_if' carry_compare)
qed

lemma add_compare_carry:
  assumes "unat c \<le> 1"
  shows "ucast (ucast c + (ucast x + ucast y) :: u128) = x + c + (y :: u64)"
    "drop_bit BN_BITS2 (ucast c + (ucast x + ucast y) :: u128) =
       ucast ((if x + c < c then 1 else 0) + (if x + c + y < x + c then 1 else 0) :: u64)"
    "unat ((if x + c < c then 1 else 0) + (if x + c + y < x + c then 1 else 0) :: u64) \<le> 1"
proof -
  define X Y C where "X = unat x" and "Y = unat y" and "C = unat c"
  have l: "X < LIMB" "Y < LIMB" "C \<le> 1" using unat_limb assms by (simp_all only: X_def Y_def C_def)
  let ?s = "ucast c + (ucast x + ucast y) :: u128"
  have s: "unat ?s = C + (X + Y)" using l by (simp add: unat_word_ariths unat_u128_ucast X_def Y_def C_def)
  have xc: "unat (x + c) = (if X + C < LIMB then X + C else X + C - LIMB)"
    using l by (simp add: unat_plus_if' X_def C_def)
  have b1: "x + c < c \<longleftrightarrow> LIMB \<le> X + C" using carry_compare[of x c] by (simp add: X_def C_def)
  have b2: "x + c + y < x + c \<longleftrightarrow> LIMB \<le> unat (x + c) + Y" using carry_compare[of y "x + c"] by (simp add: add.commute Y_def)
  have "(C + (X + Y)) div LIMB = (if LIMB \<le> C + (X + Y) then 1 else 0)"
    using l by (auto intro!: div_nat_eqI)
  moreover have "x + c < c \<or> x + c + y < x + c \<longleftrightarrow> LIMB \<le> C + (X + Y)" "\<not> (x + c < c \<and> x + c + y < x + c)"
    using l unfolding b1 b2 xc by (auto split: if_splits)
  ultimately have w: "unat ((if x + c < c then 1 else 0) + (if x + c + y < x + c then 1 else 0) :: u64) = (C + (X + Y)) div LIMB"
    by (cases "x + c < c"; cases "x + c + y < x + c") simp_all
  have "(C + (X + Y)) div LIMB \<le> 1" using l by (simp add: less_Suc_eq_le[symmetric] less_mult_imp_div_less)
  then show "unat ((if x + c < c then 1 else 0) + (if x + c + y < x + c then 1 else 0) :: u64) \<le> 1" using w by simp
  show "drop_bit BN_BITS2 ?s = ucast ((if x + c < c then 1 else 0) + (if x + c + y < x + c then 1 else 0) :: u64)"
    by (simp only: word_unat_eq_iff unat_drop_64 unat_u128_ucast s w)
  have "unat (x + c + y) = ((X + C) mod LIMB + Y) mod LIMB" by (simp add: unat_word_ariths X_def Y_def C_def)
  also have "\<dots> = (C + (X + Y)) mod LIMB" by (simp only: mod_add_left_eq) (simp only: add.commute add.left_commute)
  finally show "ucast ?s = x + c + y" unfolding word_unat_eq_iff unat_Lw[unfolded Lw_def] s by (rule sym)
qed

text \<open>Both forms of addition, from related states: the carry is a word in one and a double word in the other.\<close>

lemma add_compare_step_eq:
  assumes "unat c \<le> 1"
  shows "add_step r a b i (ucast c, m) = map_option (\<lambda>(c, m). (ucast c, m)) (add_compare_step r a b i (c, m))"
    "add_compare_step r a b i (c, m) = Some (c', m') \<Longrightarrow> unat c' \<le> 1"
proof -
  let ?k = "\<lambda>x y. (if x + c < c then 1 else 0) + (if x + c + y < x + c then 1 else 0) :: u64"
  have C: "add_compare_step r a b i (c, m) = do {
      x \<leftarrow> rd m a i; y \<leftarrow> rd m b i; m \<leftarrow> wr m r i (x + c + y); Some (?k x y, m) }"
    by (simp only: add_compare_step_def Let_def prod.case)
  have A: "add_step r a b i (ucast c, m) = do {
      x \<leftarrow> rd m a i; y \<leftarrow> rd m b i; m \<leftarrow> wr m r i (x + c + y); Some (ucast (?k x y), m) }"
    by (simp only: add_step_def Let_def prod.case add_compare_carry(1,2)[OF assms])
  show "add_step r a b i (ucast c, m) = map_option (\<lambda>(c, m). (ucast c, m)) (add_compare_step r a b i (c, m))"
    unfolding A C by (simp only: map_option_bind o_def option.map prod.case)
  show "add_compare_step r a b i (c, m) = Some (c', m') \<Longrightarrow> unat c' \<le> 1"
    unfolding C using add_compare_carry(3)[OF assms] by (auto simp only: bind_eq_Some_conv option.inject prod.inject)
qed

lemma add_compare_loop:
  "unat c \<le> 1 \<Longrightarrow>
   words_by_1 (add_step r a b) i n (ucast c, m) =
     map_option (\<lambda>(c, m). (ucast c, m)) (words_by_1 (add_compare_step r a b) i n (c, m))"
proof (induction n arbitrary: i c m)
  case (Suc n)
  show ?case
    using add_compare_step_eq(1)[OF Suc.prems, of r a b i m] add_compare_step_eq(2)[OF Suc.prems, of r a b i m] Suc.IH
    by (cases "add_compare_step r a b i (c, m)") (auto split: prod.splits)
qed simp

theorem bn_add_words_forms: "bn_add_words_compare m r a b n = bn_add_words m r a b n"
proof -
  have "ucast (ucast (c :: u64) :: u128) = c" for c
    using unat_limb[of c] unfolding word_unat_eq_iff unat_Lw[unfolded Lw_def] unat_u128_ucast by simp
  then show ?thesis using add_compare_loop[of 0 r a b 0 n m]
    by (cases "words_by_1 (add_compare_step r a b) 0 n (0, m)")
       (auto simp: bn_add_words_def bn_add_words_compare_def words_loop_steps split: prod.splits)
qed

end
