(* ===== verification/Bn_Comba.thy ===== *)
theory Bn_Comba
  imports Bn_Words_Spec
begin

text \<open>
  The multiplications by columns of \<^verbatim>\<open>bn/generic.c\<close>: the sequences of calls are columns of products,
  one column per word of the result, accumulated in three words whose roles rotate. No column
  overflows the three words, and the words stored are the product of the operands, or the square.
\<close>

section \<open>The accumulator\<close>

lemma word_suc: "unat c + of_bool q < LIMB \<Longrightarrow> unat (if q then c + 1 else c :: u64) = unat c + of_bool q"
  by (cases q) (simp_all add: unat_plus_if')

lemma carry_hi_val:
  assumes "carry_hi hi c1 c2 = (d1, d2)" "unat c1 + unat hi + LIMB * unat c2 < LIMB * LIMB"
  shows "unat d1 + LIMB * unat d2 = unat c1 + unat hi + LIMB * unat c2"
proof -
  have d: "d1 = c1 + hi" "d2 = (if c1 + hi < hi then c2 + 1 else c2)"
    using assms(1) by (auto simp: carry_hi_def Let_def)
  define q :: nat where "q = of_bool (c1 + hi < hi)"
  have w: "unat d1 + LIMB * q = unat c1 + unat hi" using word_carry[of c1 hi] by (simp only: d q_def)
  then have "LIMB * (unat c2 + q) < LIMB * LIMB" using assms(2) unfolding distrib_left by linarith
  then have "unat c2 + q < LIMB" by (simp only: mult_less_cancel1)
  then have "unat d2 = unat c2 + q" using word_suc[of c2 "c1 + hi < hi"] by (simp only: d q_def)
  then show ?thesis using w by (simp add: distrib_left)
qed

definition acc :: "u64 \<times> u64 \<times> u64 \<Rightarrow> nat" where
  "acc = (\<lambda>(p, q, r). unat p + LIMB * (unat q + LIMB * unat r))"

lemma add_to_acc:
  assumes "unat t = n + unat c0" "carry_hi (Hw t) c1 c2 = (d1, d2)" "acc (c0, c1, c2) + n < LIMB * (LIMB * LIMB)"
  shows "acc (Lw t, d1, d2) = acc (c0, c1, c2) + n"
proof -
  define h l where "h = unat (Hw t)" and "l = unat (Lw t)"
  have t: "l + LIMB * h = n + unat c0" using Lw_Hw[of t] assms(1) by (simp only: h_def l_def)
  define u where "u = unat c1 + h + LIMB * unat c2"
  have T: "acc (c0, c1, c2) + n = l + LIMB * u" using t by (simp add: acc_def u_def distrib_left)
  then have "LIMB * u < LIMB * (LIMB * LIMB)" using assms(3) by linarith
  then have "unat d1 + LIMB * unat d2 = u" using carry_hi_val[OF assms(2)] by (simp add: u_def h_def)
  then show ?thesis unfolding T by (simp add: acc_def l_def)
qed

lemma mul_add_c_val:
  assumes "acc (c0, c1, c2) + unat a * unat b < LIMB * (LIMB * LIMB)"
  shows "acc (mul_add_c a b c0 c1 c2) = acc (c0, c1, c2) + unat a * unat b"
  using add_to_acc[OF unat_mul_1[of a b c0] _ assms]
  by (cases "carry_hi (Hw ((ucast a :: u128) * ucast b + ucast c0)) c1 c2") (simp add: mul_add_c_def Let_def)

lemma sqr_add_c_val:
  assumes "acc (c0, c1, c2) + unat a * unat a < LIMB * (LIMB * LIMB)"
  shows "acc (sqr_add_c a c0 c1 c2) = acc (c0, c1, c2) + unat a * unat a"
  using add_to_acc[OF unat_mul_1[of a a c0] _ assms]
  by (cases "carry_hi (Hw ((ucast a :: u128) * ucast a + ucast c0)) c1 c2") (simp add: sqr_add_c_def Let_def)

lemma mul_add_c2_val:
  assumes "acc (c0, c1, c2) + 2 * (unat a * unat b) < LIMB * (LIMB * LIMB)"
  shows "acc (mul_add_c2 a b c0 c1 c2) = acc (c0, c1, c2) + 2 * (unat a * unat b)"
proof -
  let ?t = "(ucast a :: u128) * ucast b"
  obtain d1 d2 where d: "carry_hi (Hw (?t + ucast c0)) c1 c2 = (d1, d2)" by fastforce
  obtain e1 e2 where e: "carry_hi (Hw (?t + ucast (Lw (?t + ucast c0)))) d1 d2 = (e1, e2)" by fastforce
  have 1: "acc (Lw (?t + ucast c0), d1, d2) = acc (c0, c1, c2) + unat a * unat b"
    using add_to_acc[OF unat_mul_1[of a b c0] d] assms by linarith
  have "acc (Lw (?t + ucast (Lw (?t + ucast c0))), e1, e2) = acc (Lw (?t + ucast c0), d1, d2) + unat a * unat b"
    using add_to_acc[OF unat_mul_1[of a b "Lw (?t + ucast c0)"] e] assms 1 by linarith
  then show ?thesis using 1 d e by (simp add: mul_add_c2_def Let_def)
qed

section \<open>Columns\<close>

datatype product = Prod nat nat | Square nat | Twice nat nat

fun product_call :: "creg \<Rightarrow> creg \<Rightarrow> creg \<Rightarrow> product \<Rightarrow> comba" where
  "product_call x y z (Prod i j) = Mac i j x y z"
| "product_call x y z (Square i) = Sqr i x y z"
| "product_call x y z (Twice i j) = Sqr2 i j x y z"

fun comba_columns :: "nat \<Rightarrow> creg \<Rightarrow> creg \<Rightarrow> creg \<Rightarrow> product list list \<Rightarrow> comba list" where
  "comba_columns k x y z [] = []"
| "comba_columns k x y z [c] = map (product_call x y z) c @ [Put k x, Put (k + 1) y]"
| "comba_columns k x y z (c # d # cs) = map (product_call x y z) c @ Put k x # Clr x # comba_columns (k + 1) y z x (d # cs)"

definition comba_program :: "product list list \<Rightarrow> comba list" where
  "comba_program cs = Clr C1 # Clr C2 # Clr C3 # comba_columns 0 C1 C2 C3 cs"

text \<open>The pairs of indices whose products a call adds, and their sum.\<close>

fun product_pairs :: "product \<Rightarrow> (nat \<times> nat) list" where
  "product_pairs (Prod i j) = [(i, j)]"
| "product_pairs (Square i) = [(i, i)]"
| "product_pairs (Twice i j) = [(i, j), (j, i)]"

definition column_pairs :: "product list \<Rightarrow> (nat \<times> nat) list" where
  "column_pairs c = concat (map product_pairs c)"

definition pair_sum :: "u64 list \<Rightarrow> u64 list \<Rightarrow> (nat \<times> nat) list \<Rightarrow> nat" where
  "pair_sum as bs ps = sum_list (map (\<lambda>(i, j). unat (as ! i) * unat (bs ! j)) ps)"

lemma pair_sum_simps [simp]: "pair_sum as bs [] = 0" "pair_sum as bs ((i, j) # ps) = unat (as ! i) * unat (bs ! j) + pair_sum as bs ps"
  "pair_sum as bs (ps @ qs) = pair_sum as bs ps + pair_sum as bs qs"
  by (simp_all add: pair_sum_def)

lemma pair_sum_le: "pair_sum as bs ps \<le> length ps * ((LIMB - 1) * (LIMB - 1))"
proof (induction ps)
  case (Cons p ps)
  then show ?case using limb_prod[of "as ! fst p" "bs ! snd p"] by (cases p) simp
qed simp

text \<open>What a call may read: both operands of a product are squared operands where the calls square.\<close>

definition product_ok :: "limb_ptr \<Rightarrow> limb_ptr \<Rightarrow> nat \<Rightarrow> product \<Rightarrow> bool" where
  "product_ok a b n p \<longleftrightarrow> (\<forall>(i, j) \<in> set (product_pairs p). i < n \<and> j < n) \<and> ((\<exists>i j. p = Prod i j) \<or> a = b)"

definition regs_acc :: "(creg \<Rightarrow> u64) \<Rightarrow> creg \<Rightarrow> creg \<Rightarrow> creg \<Rightarrow> nat" where
  "regs_acc c x y z = acc (c x, c y, c z)"

lemma rd_limbs: "limbs_in m p n \<Longrightarrow> i < n \<Longrightarrow> rd m p i = Some (limbs_at m p n ! i)"
  by (simp add: rd_def limbs_in_def limbs_at_def)

lemma regs_acc_set: "distinct [x, y, z] \<Longrightarrow> regs_acc (set_regs c x y z t) x y z = acc t"
  by (cases t) (simp add: regs_acc_def set_regs_def)

lemma product_exec:
  assumes "product_ok a b n p" "limbs_in m a n" "limbs_in m b n" "distinct [x, y, z]"
    "regs_acc c x y z + pair_sum (limbs_at m a n) (limbs_at m b n) (product_pairs p) < LIMB * (LIMB * LIMB)"
  shows "\<exists>c'. comba_exec r a b (product_call x y z p) (c, m) = Some (c', m) \<and>
    regs_acc c' x y z = regs_acc c x y z + pair_sum (limbs_at m a n) (limbs_at m b n) (product_pairs p)"
proof (cases p)
  case (Prod i j)
  then show ?thesis using assms mul_add_c_val[of "c x" "c y" "c z" "limbs_at m a n ! i" "limbs_at m b n ! j"]
    by (simp add: product_ok_def rd_limbs regs_acc_set) (simp add: regs_acc_def)
next
  case (Square i)
  then show ?thesis using assms sqr_add_c_val[of "c x" "c y" "c z" "limbs_at m a n ! i"]
    by (simp add: product_ok_def rd_limbs regs_acc_set) (simp add: regs_acc_def)
next
  case (Twice i j)
  then show ?thesis using assms mul_add_c2_val[of "c x" "c y" "c z" "limbs_at m a n ! i" "limbs_at m a n ! j"]
    by (simp add: product_ok_def rd_limbs regs_acc_set mult.commute mult_2) (simp add: regs_acc_def mult.commute mult_2)
qed

lemma comba_run_append: "comba_run r a b (xs @ ys) s = Option.bind (comba_run r a b xs s) (comba_run r a b ys)"
proof (induction xs arbitrary: s)
  case (Cons x xs)
  then show ?case by (cases "comba_exec r a b x s") simp_all
qed simp

lemma column_run:
  "\<forall>p \<in> set ps. product_ok a b n p \<Longrightarrow> limbs_in m a n \<Longrightarrow> limbs_in m b n \<Longrightarrow> distinct [x, y, z] \<Longrightarrow>
   regs_acc c x y z + pair_sum (limbs_at m a n) (limbs_at m b n) (column_pairs ps) < LIMB * (LIMB * LIMB) \<Longrightarrow>
   \<exists>c'. comba_run r a b (map (product_call x y z) ps) (c, m) = Some (c', m) \<and>
     regs_acc c' x y z = regs_acc c x y z + pair_sum (limbs_at m a n) (limbs_at m b n) (column_pairs ps)"
proof (induction ps arbitrary: c)
  case (Cons p ps)
  let ?S = "pair_sum (limbs_at m a n) (limbs_at m b n)"
  have S: "?S (column_pairs (p # ps)) = ?S (product_pairs p) + ?S (column_pairs ps)" by (simp add: column_pairs_def)
  then obtain c1 where 1: "comba_exec r a b (product_call x y z p) (c, m) = Some (c1, m)"
      "regs_acc c1 x y z = regs_acc c x y z + ?S (product_pairs p)"
    using product_exec[of a b n p m x y z c r] Cons.prems by auto
  then show ?case using Cons.IH[of c1] Cons.prems S by auto
qed (simp add: column_pairs_def)

fun columns_sum :: "u64 list \<Rightarrow> u64 list \<Rightarrow> product list list \<Rightarrow> nat" where
  "columns_sum as bs [] = 0"
| "columns_sum as bs (c # cs) = pair_sum as bs (column_pairs c) + LIMB * columns_sum as bs cs"

lemma columns_sum_last: "columns_sum as bs [c] = pair_sum as bs (column_pairs c)"
  by simp

lemma put_exec: "limbs_in m r n \<Longrightarrow> k < n \<Longrightarrow> comba_exec r a b (Put k x) (c, m) = Some (c, store_limbs m (shift_ptr r k) [c x])"
  by (simp add: wr_def limbs_in_def store_limbs_def overwrite_def shift_ptr_def upd_conv_take_nth_drop)

lemma store_limbs_Cons:
  "limbs_in m p (Suc (length zs)) \<Longrightarrow> store_limbs (store_limbs m p [z]) (shift_ptr p 1) zs = store_limbs m p (z # zs)"
  by (simp add: store_limbs_def shift_ptr_def limbs_in_def overwrite_def add.commute[of "length zs"])

lemma comba_columns_run:
  assumes "cs \<noteq> []" "\<forall>col \<in> set cs. length (column_pairs col) \<le> 8 \<and> (\<forall>p \<in> set col. product_ok a b n p)"
    "limbs_in m a n" "limbs_in m b n" "limbs_in m r N" "k + length cs < N" "distinct [x, y, z]"
    "fst r \<noteq> fst a \<or> snd a + n \<le> snd r \<or> snd r + N \<le> snd a" "fst r \<noteq> fst b \<or> snd b + n \<le> snd r \<or> snd r + N \<le> snd b"
    "c z = 0"
  shows "\<exists>c' zs e. comba_run r a b (comba_columns k x y z cs) (c, m) = Some (c', store_limbs m (shift_ptr r k) zs) \<and>
    length zs = length cs + 1 \<and>
    limbs_val zs + LIMB ^ (length cs + 1) * e = regs_acc c x y z + columns_sum (limbs_at m a n) (limbs_at m b n) cs"
  using assms
proof (induction cs arbitrary: k x y z c m)
  case (Cons col cs)
  let ?S = "pair_sum (limbs_at m a n) (limbs_at m b n) (column_pairs col)"
  have "?S \<le> 8 * ((LIMB - 1) * (LIMB - 1))"
    using pair_sum_le[of "limbs_at m a n" "limbs_at m b n" "column_pairs col"] mult_le_mono1[of "length (column_pairs col)" 8] Cons.prems(2)
    by (meson le_trans list.set_intros(1))
  moreover have "regs_acc c x y z < LIMB * LIMB"
    using unat_limb[of "c x"] unat_limb[of "c y"] Cons.prems(10) by (simp add: regs_acc_def acc_def)
  ultimately have "regs_acc c x y z + ?S < LIMB * (LIMB * LIMB)" by simp
  then obtain c1 where c1: "comba_run r a b (map (product_call x y z) col) (c, m) = Some (c1, m)"
      "regs_acc c1 x y z = regs_acc c x y z + ?S"
    using column_run[of col a b n m x y z c r] Cons.prems by auto
  let ?m = "store_limbs m (shift_ptr r k) [c1 x]"
  have put: "comba_exec r a b (Put k x) (c1, m) = Some (c1, ?m)" using put_exec[OF Cons.prems(5)] Cons.prems(6) by simp
  have one: "limbs_in m (shift_ptr r k) (length [c1 x])" using Cons.prems(5,6) by (simp add: limbs_in_def shift_ptr_def)
  have a: "limbs_at ?m a n = limbs_at m a n" "limbs_in ?m a n" and b: "limbs_at ?m b n = limbs_at m b n" "limbs_in ?m b n"
    using limbs_at_store[OF one Cons.prems(3)] limbs_at_store[OF one Cons.prems(4)] Cons.prems(6,8,9) by (auto simp: shift_ptr_def)
  have r: "limbs_in ?m r N" using Cons.prems(5,6) by (simp add: limbs_in_def store_limbs_def shift_ptr_def)
  have T: "regs_acc c1 x y z = unat (c1 x) + LIMB * (unat (c1 y) + LIMB * unat (c1 z))" by (simp add: regs_acc_def acc_def)
  have shift: "shift_ptr (shift_ptr r k) 1 = shift_ptr r (k + 1)" by (simp add: shift_ptr_def)
  show ?case
  proof (cases cs)
    case Nil
    have "comba_exec r a b (Put (k + 1) y) (c1, ?m) = Some (c1, store_limbs ?m (shift_ptr r (k + 1)) [c1 y])"
      using put_exec[OF r] Cons.prems(6) Nil by simp
    also have "store_limbs ?m (shift_ptr r (k + 1)) [c1 y] = store_limbs m (shift_ptr r k) [c1 x, c1 y]"
      using store_limbs_Cons[of m "shift_ptr r k" "[c1 y]" "c1 x"] Cons.prems(5,6) Nil shift by (simp add: limbs_in_def shift_ptr_def)
    finally show ?thesis
      using Nil c1 put T by (intro exI[of _ c1] exI[of _ "[c1 x, c1 y]"] exI[of _ "unat (c1 z)"]) (simp add: comba_run_append)
  next
    case (Cons d ds)
    let ?c = "c1(x := 0)"
    have dist: "distinct [y, z, x]" "?c x = 0" using Cons.prems(7) by auto
    have len: "k + 1 + length cs < N" using Cons.prems(6) by simp
    have cs: "cs \<noteq> []" "\<forall>col \<in> set cs. length (column_pairs col) \<le> 8 \<and> (\<forall>p \<in> set col. product_ok a b n p)"
      using Cons Cons.prems(2) by auto
    obtain c2 zs e where IH: "comba_run r a b (comba_columns (k + 1) y z x cs) (?c, ?m) = Some (c2, store_limbs ?m (shift_ptr r (k + 1)) zs)"
        "length zs = length cs + 1" "limbs_val zs + LIMB ^ (length cs + 1) * e = regs_acc ?c y z x + columns_sum (limbs_at m a n) (limbs_at m b n) cs"
      using Cons.IH[where m = ?m and k = "k + 1" and x = y and y = z and z = x and c = ?c,
          OF cs a(2) b(2) r len dist(1) Cons.prems(8,9) dist(2)]
      unfolding a(1) b(1) by blast
    have "limbs_in m (shift_ptr r k) (Suc (length zs))" using Cons.prems(5,6) IH(2) by (simp add: limbs_in_def shift_ptr_def)
    from store_limbs_Cons[OF this, of "c1 x"] have st: "store_limbs ?m (shift_ptr r (k + 1)) zs = store_limbs m (shift_ptr r k) (c1 x # zs)"
      by (simp only: shift)
    have "regs_acc ?c y z x = unat (c1 y) + LIMB * unat (c1 z)" using Cons.prems(7) by (auto simp: regs_acc_def acc_def)
    then have "regs_acc c1 x y z + LIMB * columns_sum (limbs_at m a n) (limbs_at m b n) cs =
        unat (c1 x) + LIMB * (limbs_val zs + LIMB ^ (length cs + 1) * e)"
      using T IH(3) by (simp add: distrib_left)
    then show ?thesis
      using c1 put IH(1,2) st Cons by (intro exI[of _ c2] exI[of _ "c1 x # zs"] exI[of _ e]) (simp add: comba_run_append distrib_left)
  qed
qed simp

section \<open>The product of the operands\<close>

fun on_diagonals :: "nat \<Rightarrow> product list list \<Rightarrow> bool" where
  "on_diagonals k [] \<longleftrightarrow> True"
| "on_diagonals k (c # cs) \<longleftrightarrow> list_all (\<lambda>(i, j). i + j = k) (column_pairs c) \<and> on_diagonals (Suc k) cs"

definition all_pairs :: "product list list \<Rightarrow> (nat \<times> nat) list" where
  "all_pairs cs = concat (map column_pairs cs)"

definition digit_product :: "u64 list \<Rightarrow> u64 list \<Rightarrow> nat \<times> nat \<Rightarrow> nat" where
  "digit_product as bs = (\<lambda>(i, j). LIMB ^ (i + j) * (unat (as ! i) * unat (bs ! j)))"

lemma column_digit_products:
  "list_all (\<lambda>(i, j). i + j = k) ps \<Longrightarrow> sum_list (map (digit_product as bs) ps) = LIMB ^ k * pair_sum as bs ps"
  by (induction ps) (auto simp: digit_product_def distrib_left)

lemma columns_sum_digits:
  "on_diagonals k cs \<Longrightarrow> LIMB ^ k * columns_sum as bs cs = sum_list (map (digit_product as bs) (all_pairs cs))"
proof (induction cs arbitrary: k)
  case (Cons c cs)
  have "LIMB ^ Suc k * columns_sum as bs cs = sum_list (map (digit_product as bs) (all_pairs cs))"
    using Cons.IH[of "Suc k"] Cons.prems by simp
  then show ?case using Cons.prems column_digit_products[of k "column_pairs c" as bs]
    by (simp add: all_pairs_def distrib_left mult.assoc mult.left_commute[of LIMB])
qed (simp add: all_pairs_def)

lemma limbs_val_sum: "limbs_val xs = (\<Sum>i < length xs. LIMB ^ i * unat (xs ! i))"
proof (induction xs)
  case (Cons x xs)
  show ?case unfolding list.size(4) limbs_val.simps Cons by (simp add: sum.lessThan_Suc_shift sum_distrib_left mult.assoc del: sum.lessThan_Suc)
qed simp

lemma product_digits:
  "limbs_val as * limbs_val bs = sum (digit_product as bs) ({..< length as} \<times> {..< length bs})"
  unfolding limbs_val_sum sum_product sum.cartesian_product
  by (intro sum.cong) (auto simp: digit_product_def power_add mult.assoc mult.left_commute)

text \<open>What makes a list of columns a multiplication of \<open>n\<close> by \<open>n\<close> words.\<close>

definition columns_ok :: "nat \<Rightarrow> product list list \<Rightarrow> bool" where
  "columns_ok n cs \<longleftrightarrow> length cs = 2 * n - 1 \<and> on_diagonals 0 cs \<and> list_all (\<lambda>c. length (column_pairs c) \<le> 8) cs \<and>
     distinct (all_pairs cs) \<and> list_all (\<lambda>(i, j). i < n \<and> j < n) (all_pairs cs) \<and> length (all_pairs cs) = n * n"

lemma columns_product:
  assumes "columns_ok n cs" "length as = n" "length bs = n"
  shows "columns_sum as bs cs = limbs_val as * limbs_val bs"
proof -
  have d: "distinct (all_pairs cs)" and l: "length (all_pairs cs) = n * n" and s: "set (all_pairs cs) \<subseteq> {..< n} \<times> {..< n}"
    using assms(1) by (auto simp: columns_ok_def list_all_iff)
  have "card (set (all_pairs cs)) = card ({..< n} \<times> {..< n})" using d l by (simp add: distinct_card)
  then have e: "set (all_pairs cs) = {..< n} \<times> {..< n}" using s by (intro card_subset_eq) simp_all
  have "columns_sum as bs cs = sum_list (map (digit_product as bs) (all_pairs cs))"
    using columns_sum_digits[of 0 cs as bs] assms(1) by (simp add: columns_ok_def)
  also have "\<dots> = sum (digit_product as bs) (set (all_pairs cs))" using d by (rule sum_list_distinct_conv_sum_set)
  finally show ?thesis unfolding e product_digits assms(2,3) .
qed

lemma comba_program_run:
  assumes "columns_ok n cs" "0 < n" "limbs_in m a n" "limbs_in m b n" "limbs_in m r (2 * n)"
    "fst r \<noteq> fst a \<or> snd a + n \<le> snd r \<or> snd r + 2 * n \<le> snd a" "fst r \<noteq> fst b \<or> snd b + n \<le> snd r \<or> snd r + 2 * n \<le> snd b"
    "a = b \<or> list_all (list_all (\<lambda>p. case p of Prod i j \<Rightarrow> True | _ \<Rightarrow> False)) cs"
  shows "\<exists>zs. map_option snd (comba_run r a b (comba_program cs) (c, m)) = Some (store_limbs m r zs) \<and>
    length zs = 2 * n \<and> limbs_val zs = limbs_val (limbs_at m a n) * limbs_val (limbs_at m b n)"
proof -
  let ?c = "c(C1 := 0, C2 := 0, C3 := 0)"
  let ?A = "limbs_val (limbs_at m a n)" and ?B = "limbs_val (limbs_at m b n)"
  have len: "length cs + 1 = 2 * n" "cs \<noteq> []" using assms(1,2) by (auto simp: columns_ok_def)
  have "\<forall>col \<in> set cs. length (column_pairs col) \<le> 8 \<and> (\<forall>p \<in> set col. product_ok a b n p)"
  proof (intro ballI conjI)
    fix col p
    assume col: "col \<in> set cs"
    then show "length (column_pairs col) \<le> 8" using assms(1) by (auto simp: columns_ok_def list_all_iff)
    assume p: "p \<in> set col"
    then have "set (product_pairs p) \<subseteq> set (all_pairs cs)" using col by (auto simp: all_pairs_def column_pairs_def)
    moreover have "\<forall>q \<in> set (all_pairs cs). fst q < n \<and> snd q < n" using assms(1) by (auto simp: columns_ok_def list_all_iff)
    moreover have "a = b \<or> (\<exists>i j. p = Prod i j)" using assms(8) col p by (cases p) (force simp: list_all_iff)+
    ultimately show "product_ok a b n p" unfolding product_ok_def by force
  qed
  moreover have "0 + length cs < 2 * n" using len by simp
  ultimately obtain c' zs e where run: "comba_run r a b (comba_columns 0 C1 C2 C3 cs) (?c, m) = Some (c', store_limbs m (shift_ptr r 0) zs)"
      "length zs = length cs + 1"
      "limbs_val zs + LIMB ^ (length cs + 1) * e = regs_acc ?c C1 C2 C3 + columns_sum (limbs_at m a n) (limbs_at m b n) cs"
    using comba_columns_run[OF len(2) _ assms(3,4,5) _ _ assms(6,7), of 0 C1 C2 C3 ?c] by auto
  have "columns_sum (limbs_at m a n) (limbs_at m b n) cs = ?A * ?B"
    using columns_product[OF assms(1)] assms(3,4) by (simp add: length_limbs_at)
  then have v: "limbs_val zs + LIMB ^ (2 * n) * e = ?A * ?B"
    using run(3) unfolding len(1) by (simp add: regs_acc_def acc_def)
  have "?A * ?B < LIMB ^ n * LIMB ^ n"
    using limbs_val_less[of "limbs_at m a n"] limbs_val_less[of "limbs_at m b n"] assms(3,4)
    by (intro mult_strict_mono') (simp_all add: length_limbs_at)
  then have "?A * ?B < LIMB ^ (2 * n)" by (simp only: mult_2 power_add)
  then have "LIMB ^ (2 * n) * e < LIMB ^ (2 * n) * 1" using v by linarith
  then have "e = 0" by (simp only: mult_less_cancel1) simp
  then show ?thesis using run(1,2) v len by (intro exI[of _ zs]) (simp add: comba_program_def shift_ptr_def)
qed

section \<open>The four routines\<close>

definition mul_comba8_columns :: "product list list" where
  "mul_comba8_columns = [
     [Prod 0 0], [Prod 0 1, Prod 1 0], [Prod 2 0, Prod 1 1, Prod 0 2], [Prod 0 3, Prod 1 2, Prod 2 1, Prod 3 0],
     [Prod 4 0, Prod 3 1, Prod 2 2, Prod 1 3, Prod 0 4],
     [Prod 0 5, Prod 1 4, Prod 2 3, Prod 3 2, Prod 4 1, Prod 5 0],
     [Prod 6 0, Prod 5 1, Prod 4 2, Prod 3 3, Prod 2 4, Prod 1 5, Prod 0 6],
     [Prod 0 7, Prod 1 6, Prod 2 5, Prod 3 4, Prod 4 3, Prod 5 2, Prod 6 1, Prod 7 0],
     [Prod 7 1, Prod 6 2, Prod 5 3, Prod 4 4, Prod 3 5, Prod 2 6, Prod 1 7],
     [Prod 2 7, Prod 3 6, Prod 4 5, Prod 5 4, Prod 6 3, Prod 7 2],
     [Prod 7 3, Prod 6 4, Prod 5 5, Prod 4 6, Prod 3 7], [Prod 4 7, Prod 5 6, Prod 6 5, Prod 7 4],
     [Prod 7 5, Prod 6 6, Prod 5 7], [Prod 6 7, Prod 7 6], [Prod 7 7]]"

definition mul_comba4_columns :: "product list list" where
  "mul_comba4_columns = [
     [Prod 0 0], [Prod 0 1, Prod 1 0], [Prod 2 0, Prod 1 1, Prod 0 2], [Prod 0 3, Prod 1 2, Prod 2 1, Prod 3 0],
     [Prod 3 1, Prod 2 2, Prod 1 3], [Prod 2 3, Prod 3 2], [Prod 3 3]]"

definition sqr_comba8_columns :: "product list list" where
  "sqr_comba8_columns = [
     [Square 0], [Twice 1 0], [Square 1, Twice 2 0], [Twice 3 0, Twice 2 1], [Square 2, Twice 3 1, Twice 4 0],
     [Twice 5 0, Twice 4 1, Twice 3 2], [Square 3, Twice 4 2, Twice 5 1, Twice 6 0],
     [Twice 7 0, Twice 6 1, Twice 5 2, Twice 4 3], [Square 4, Twice 5 3, Twice 6 2, Twice 7 1],
     [Twice 7 2, Twice 6 3, Twice 5 4], [Square 5, Twice 6 4, Twice 7 3], [Twice 7 4, Twice 6 5],
     [Square 6, Twice 7 5], [Twice 7 6], [Square 7]]"

definition sqr_comba4_columns :: "product list list" where
  "sqr_comba4_columns = [
     [Square 0], [Twice 1 0], [Square 1, Twice 2 0], [Twice 3 0, Twice 2 1], [Square 2, Twice 3 1], [Twice 3 2],
     [Square 3]]"

lemma comba_programs:
  "mul_comba8_calls = comba_program mul_comba8_columns"
  "mul_comba4_calls = comba_program mul_comba4_columns"
  "sqr_comba8_calls = comba_program sqr_comba8_columns"
  "sqr_comba4_calls = comba_program sqr_comba4_columns"
  by (simp_all add: mul_comba8_calls_def mul_comba8_columns_def mul_comba4_calls_def mul_comba4_columns_def
      sqr_comba8_calls_def sqr_comba8_columns_def sqr_comba4_calls_def sqr_comba4_columns_def comba_program_def)

lemma comba_columns_ok:
  "columns_ok 8 mul_comba8_columns" "columns_ok 4 mul_comba4_columns"
  "columns_ok 8 sqr_comba8_columns" "columns_ok 4 sqr_comba4_columns"
  by code_simp+

text \<open>The arrays do not overlap.\<close>

definition apart :: "limb_ptr \<Rightarrow> nat \<Rightarrow> limb_ptr \<Rightarrow> nat \<Rightarrow> bool" where
  "apart r k a n \<longleftrightarrow> fst r \<noteq> fst a \<or> snd a + n \<le> snd r \<or> snd r + k \<le> snd a"

theorem bn_mul_comba8_product:
  assumes "limbs_in m a 8" "limbs_in m b 8" "limbs_in m r 16" "apart r 16 a 8" "apart r 16 b 8"
  shows "\<exists>zs. bn_mul_comba8 c m r a b = Some (store_limbs m r zs) \<and> length zs = 16 \<and>
    limbs_val zs = limbs_val (limbs_at m a 8) * limbs_val (limbs_at m b 8)"
  using comba_program_run[OF comba_columns_ok(1), of m a b r c] assms
  by (simp add: bn_mul_comba8_def comba_programs apart_def mul_comba8_columns_def)

theorem bn_mul_comba4_product:
  assumes "limbs_in m a 4" "limbs_in m b 4" "limbs_in m r 8" "apart r 8 a 4" "apart r 8 b 4"
  shows "\<exists>zs. bn_mul_comba4 c m r a b = Some (store_limbs m r zs) \<and> length zs = 8 \<and>
    limbs_val zs = limbs_val (limbs_at m a 4) * limbs_val (limbs_at m b 4)"
  using comba_program_run[OF comba_columns_ok(2), of m a b r c] assms
  by (simp add: bn_mul_comba4_def comba_programs apart_def mul_comba4_columns_def)

theorem bn_sqr_comba8_square:
  assumes "limbs_in m a 8" "limbs_in m r 16" "apart r 16 a 8"
  shows "\<exists>zs. bn_sqr_comba8 c m r a = Some (store_limbs m r zs) \<and> length zs = 16 \<and>
    limbs_val zs = limbs_val (limbs_at m a 8) * limbs_val (limbs_at m a 8)"
  using comba_program_run[OF comba_columns_ok(3), of m a a r c] assms by (simp add: bn_sqr_comba8_def comba_programs apart_def)

theorem bn_sqr_comba4_square:
  assumes "limbs_in m a 4" "limbs_in m r 8" "apart r 8 a 4"
  shows "\<exists>zs. bn_sqr_comba4 c m r a = Some (store_limbs m r zs) \<and> length zs = 8 \<and>
    limbs_val zs = limbs_val (limbs_at m a 4) * limbs_val (limbs_at m a 4)"
  using comba_program_run[OF comba_columns_ok(4), of m a a r c] assms by (simp add: bn_sqr_comba4_def comba_programs apart_def)

end
