(* ===== verification/Bn_Mul.thy ===== *)
theory Bn_Mul
  imports Bn_Comba
begin

text \<open>
  Schoolbook multiplication of arrays of words (\<^verbatim>\<open>bn_mul_normal\<close>, \<^verbatim>\<open>bn_mul_small\<close> of
  \<^verbatim>\<open>crypto/fipsmodule/bn/mul.c\<close>): the result is the product of the operands, of any lengths. Karatsuba's
  recursion and the squaring functions of that file are not modelled.
\<close>

section \<open>Definitions\<close>

text \<open>One statement \<^verbatim>\<open>rr[k] = bn_mul_add_words(&(r[k]), a, na, b[k])\<close>.\<close>

definition mul_normal_step :: "limb_ptr \<Rightarrow> limb_ptr \<Rightarrow> limb_ptr \<Rightarrow> nat \<Rightarrow> limb_ptr \<Rightarrow> nat \<Rightarrow> limb_mem \<Rightarrow> limb_mem option" where
  "mul_normal_step r rr a na b k m = do {
     w \<leftarrow> rd m b k;
     (c, m) \<leftarrow> bn_mul_add_words m (fst r, snd r + k) a na w;
     wr m rr k c }"

text \<open>The loop, four words of \<open>b\<close> to a round.\<close>

function mul_normal_loop :: "limb_ptr \<Rightarrow> limb_ptr \<Rightarrow> limb_ptr \<Rightarrow> nat \<Rightarrow> limb_ptr \<Rightarrow> nat \<Rightarrow> limb_mem \<Rightarrow> limb_mem option" where
  "mul_normal_loop r rr a na b nb m =
     (let step = mul_normal_step r rr a na b
      in if nb \<le> 1 then Some m else do {
           m \<leftarrow> step 1 m;
           if nb = 2 then Some m else do {
             m \<leftarrow> step 2 m;
             if nb = 3 then Some m else do {
               m \<leftarrow> step 3 m;
               if nb = 4 then Some m else do {
                 m \<leftarrow> step 4 m;
                 mul_normal_loop (fst r, snd r + 4) (fst rr, snd rr + 4) a na (fst b, snd b + 4) (nb - 4) m }}}})"
  by pat_completeness auto

termination by (relation "measure (\<lambda>(r, rr, a, na, b, nb, m). nb)") auto

declare mul_normal_loop.simps [simp del]

fun limb_memset0 :: "limb_ptr \<Rightarrow> nat \<Rightarrow> limb_mem \<Rightarrow> limb_mem option" where
  "limb_memset0 r 0 m = Some m"
| "limb_memset0 r (Suc n) m = do { m \<leftarrow> wr m r n 0; limb_memset0 r n m }"

definition bn_mul_normal :: "limb_mem \<Rightarrow> limb_ptr \<Rightarrow> limb_ptr \<Rightarrow> nat \<Rightarrow> limb_ptr \<Rightarrow> nat \<Rightarrow> limb_mem option" where
  "bn_mul_normal m r a na b nb =
     (let (a, na, b, nb) = (if na < nb then (b, nb, a, na) else (a, na, b, nb));
          rr = (fst r, snd r + na)
      in if nb = 0 then limb_memset0 r na m
         else do {
           w \<leftarrow> rd m b 0;
           (c, m) \<leftarrow> bn_mul_words m r a na w;
           m \<leftarrow> wr m rr 0 c;
           mul_normal_loop r rr a na b nb m })"

definition bn_mul_small ::
  "(creg \<Rightarrow> u64) \<Rightarrow> limb_mem \<Rightarrow> limb_ptr \<Rightarrow> nat \<Rightarrow> limb_ptr \<Rightarrow> nat \<Rightarrow> limb_ptr \<Rightarrow> nat \<Rightarrow> (bool \<times> limb_mem) option" where
  "bn_mul_small c m r num_r a num_a b num_b =
     (if num_r \<noteq> num_a + num_b then Some (False, m)
      else do {
        m \<leftarrow> (if num_a = 8 \<and> num_b = 8 then bn_mul_comba8 c m r a b else bn_mul_normal m r a num_a b num_b);
        Some (True, m) })"

section \<open>Writes into a stored result\<close>

lemma limbs_in_le: "limbs_in m p n \<Longrightarrow> k \<le> n \<Longrightarrow> limbs_in m p k"
  by (simp add: limbs_in_def)

lemma limbs_in_store [simp]: "limbs_in m r (length zs) \<Longrightarrow> limbs_in (store_limbs m r zs) p n \<longleftrightarrow> limbs_in m p n"
  by (simp add: limbs_in_def store_limbs_def)

lemma limbs_at_stored:
  "limbs_in m r (length xs + length ys) \<Longrightarrow> limbs_at (store_limbs m r (xs @ ys)) (shift_ptr r (length xs)) (length ys) = ys"
  by (simp add: limbs_at_def store_limbs_def limbs_in_def shift_ptr_def overwrite_def)

lemma store_in_stored:
  "limbs_in m r (length xs + length ys) \<Longrightarrow> length zs = length ys \<Longrightarrow>
   store_limbs (store_limbs m r (xs @ ys)) (shift_ptr r (length xs)) zs = store_limbs m r (xs @ zs)"
  by (simp add: store_limbs_def limbs_in_def shift_ptr_def overwrite_def)

lemma wr_after_stored:
  "limbs_in m r (length xs + 1) \<Longrightarrow> wr (store_limbs m r xs) r (length xs) v = Some (store_limbs m r (xs @ [v]))"
  by (simp add: wr_def store_limbs_def limbs_in_def overwrite_def list_update_append Cons_nth_drop_Suc[symmetric])

lemma wr_shift: "wr m (fst r, snd r + i) k v = wr m r (i + k) v"
  by (simp add: wr_def add.assoc)

lemma memset0_stored: "limbs_in m r n \<Longrightarrow> limb_memset0 r n m = Some (store_limbs m r (replicate n 0))"
proof (induction n arbitrary: m)
  case (Suc n)
  let ?m = "m(fst r := (m (fst r))[snd r + n := 0])"
  have "limb_memset0 r n ?m = Some (store_limbs ?m r (replicate n 0))"
    by (rule Suc.IH) (use Suc.prems in \<open>simp add: limbs_in_def\<close>)
  moreover have "store_limbs ?m r (replicate n 0) = store_limbs m r (replicate (Suc n) 0)"
    using Suc.prems by (simp add: store_limbs_def limbs_in_def overwrite_def upd_conv_take_nth_drop replicate_append_same[symmetric])
  ultimately show ?case using Suc.prems by (simp add: wr_def limbs_in_def)
qed simp

section \<open>The loop\<close>

fun mul_normal_steps :: "limb_ptr \<Rightarrow> limb_ptr \<Rightarrow> limb_ptr \<Rightarrow> nat \<Rightarrow> limb_ptr \<Rightarrow> nat \<Rightarrow> nat \<Rightarrow> limb_mem \<Rightarrow> limb_mem option" where
  "mul_normal_steps r rr a na b k 0 m = Some m"
| "mul_normal_steps r rr a na b k (Suc n) m = do { m \<leftarrow> mul_normal_step r rr a na b k m; mul_normal_steps r rr a na b (k + 1) n m }"

lemma steps_fun:
  "mul_normal_steps r rr a na b k 0 = Some"
  "mul_normal_steps r rr a na b k (Suc n) = (\<lambda>m. Option.bind (mul_normal_step r rr a na b k m) (mul_normal_steps r rr a na b (k + 1) n))"
  by (rule ext, simp)+

lemma step_shift: "mul_normal_step (fst r, snd r + i) (fst rr, snd rr + i) a na (fst b, snd b + i) k m = mul_normal_step r rr a na b (i + k) m"
  by (simp add: mul_normal_step_def rd_def wr_def add.assoc cong: if_cong)

lemma steps_shift:
  "mul_normal_steps (fst r, snd r + i) (fst rr, snd rr + i) a na (fst b, snd b + i) k n m = mul_normal_steps r rr a na b (i + k) n m"
proof (induction n arbitrary: k m)
  case (Suc n)
  show ?case by (cases "mul_normal_step r rr a na b (i + k) m") (simp_all add: step_shift Suc)
qed simp

lemma mul_normal_loop_steps: "mul_normal_loop r rr a na b nb m = mul_normal_steps r rr a na b 1 (nb - 1) m"
proof (induction nb arbitrary: r rr b m rule: less_induct)
  case (less nb)
  show ?case
  proof (cases "nb \<le> 4")
    case True
    then consider "nb \<le> 1" | "nb = 2" | "nb = 3" | "nb = 4" by linarith
    then show ?thesis by cases (simp_all add: mul_normal_loop.simps numeral_eq_Suc Let_def steps_fun)
  next
    case False
    define k where "k = nb - 5"
    then have nb: "nb = Suc (Suc (Suc (Suc (Suc k))))" using False by simp
    have IH: "mul_normal_loop (fst r, snd r + 4) (fst rr, snd rr + 4) a na (fst b, snd b + 4) (Suc k) m =
        mul_normal_steps r rr a na b 5 k m" for m :: limb_mem
      using less.IH[of "Suc k" "(fst r, snd r + 4)" "(fst rr, snd rr + 4)" "(fst b, snd b + 4)" m]
        steps_shift[of r 4 rr a na b 1 k m] nb by simp
    then have IH: "mul_normal_loop (fst r, Suc (Suc (Suc (Suc (snd r))))) (fst rr, Suc (Suc (Suc (Suc (snd rr))))) a na
        (fst b, Suc (Suc (Suc (Suc (snd b))))) (Suc k) = mul_normal_steps r rr a na b (Suc (Suc (Suc (Suc (Suc 0))))) k"
      by (intro ext) (simp add: numeral_eq_Suc)
    show ?thesis unfolding nb by (subst mul_normal_loop.simps) (simp add: IH numeral_eq_Suc Let_def steps_fun)
  qed
qed

section \<open>The product\<close>

lemma limbs_at_take: "limbs_in m p n \<Longrightarrow> k \<le> n \<Longrightarrow> limbs_at m p k = take k (limbs_at m p n)"
  by (simp add: limbs_at_def min_def)

text \<open>One step: with the product by the words of \<open>b\<close> below \<open>k\<close> in \<open>r\<close>, the word \<open>k\<close> joins.\<close>

lemma mul_normal_step_val:
  assumes r: "limbs_in m r (na + nb)" and a: "limbs_in m a na" "apart r (na + nb) a na"
    and b: "limbs_in m b nb" "apart r (na + nb) b nb" and k: "k < nb" and zs: "length zs = na + k"
  shows "\<exists>zs'. mul_normal_step r (fst r, snd r + na) a na b k (store_limbs m r zs) = Some (store_limbs m r zs') \<and>
    length zs' = na + (k + 1) \<and>
    limbs_val zs' = limbs_val zs + LIMB ^ k * (unat (limbs_at m b nb ! k) * limbs_val (limbs_at m a na))"
proof -
  let ?m = "store_limbs m r zs" and ?r = "shift_ptr r k" and ?w = "limbs_at m b nb ! k"
  define xs ys where "xs = take k zs" and "ys = drop k zs"
  have z: "zs = xs @ ys" "length xs = k" "length ys = na" using zs by (simp_all add: xs_def ys_def)
  have rz: "limbs_in m r (length zs)" using r zs k by (simp add: limbs_in_def)
  have A: "limbs_at ?m a na = limbs_at m a na" and B: "limbs_at ?m b nb = limbs_at m b nb"
    using limbs_at_store(1)[OF rz a(1)] limbs_at_store(1)[OF rz b(1)] a(2) b(2) zs k by (auto simp: apart_def)
  have rd: "rd ?m b k = Some ?w" using rd_limbs[of ?m b nb k] rz b(1) k by (simp add: B)
  have in_r: "limbs_in ?m ?r na" using rz r k by (simp add: limbs_in_def shift_ptr_def store_limbs_def)
  have "same_or_apart ?r a na" using a(2) k by (auto simp: same_or_apart_def apart_def shift_ptr_def)
  then obtain us c where mul: "bn_mul_add_words ?m ?r a na ?w = Some (c, store_limbs ?m ?r us)" "length us = na"
      "limbs_val us + LIMB ^ na * unat c = limbs_val (limbs_at ?m ?r na) + unat ?w * limbs_val (limbs_at m a na)"
    using bn_mul_add_words_spec[OF in_r, of a ?w] a(1) rz A by auto
  have ys: "limbs_at ?m ?r na = ys" using limbs_at_stored[of m r xs ys] rz z by simp
  have st: "store_limbs ?m ?r us = store_limbs m r (xs @ us)" using store_in_stored[of m r xs ys us] rz z mul(2) by simp
  have "limbs_in m r (length (xs @ us) + 1)" using r z mul(2) k by (simp add: limbs_in_def)
  from wr_after_stored[OF this] have "wr (store_limbs m r (xs @ us)) (fst r, snd r + na) k c = Some (store_limbs m r (xs @ us @ [c]))"
    using z mul(2) by (simp add: wr_shift add.commute[of k])
  then have "mul_normal_step r (fst r, snd r + na) a na b k ?m = Some (store_limbs m r (xs @ us @ [c]))"
    using rd mul(1) st by (simp add: mul_normal_step_def shift_ptr_def)
  moreover have "limbs_val (xs @ us @ [c]) = limbs_val zs + LIMB ^ k * (unat ?w * limbs_val (limbs_at m a na))"
    using mul(2) mul(3)[unfolded ys] z(2,3) unfolding z(1) by (simp add: limbs_val_append flip: distrib_left)
  ultimately show ?thesis using z mul(2) by (intro exI[of _ "xs @ us @ [c]"]) simp
qed

lemma mul_normal_steps_val:
  assumes r: "limbs_in m r (na + nb)" and a: "limbs_in m a na" "apart r (na + nb) a na"
    and b: "limbs_in m b nb" "apart r (na + nb) b nb"
  shows "k + n \<le> nb \<Longrightarrow> length zs = na + k \<Longrightarrow> limbs_val zs = limbs_val (limbs_at m a na) * limbs_val (take k (limbs_at m b nb)) \<Longrightarrow>
    \<exists>zs'. mul_normal_steps r (fst r, snd r + na) a na b k n (store_limbs m r zs) = Some (store_limbs m r zs') \<and>
      length zs' = na + (k + n) \<and> limbs_val zs' = limbs_val (limbs_at m a na) * limbs_val (take (k + n) (limbs_at m b nb))"
proof (induction n arbitrary: k zs)
  case (Suc n)
  let ?A = "limbs_val (limbs_at m a na)" and ?B = "limbs_at m b nb"
  have k: "k < nb" using Suc.prems(1) by simp
  obtain zs1 where 1: "mul_normal_step r (fst r, snd r + na) a na b k (store_limbs m r zs) = Some (store_limbs m r zs1)"
      "length zs1 = na + (k + 1)" "limbs_val zs1 = limbs_val zs + LIMB ^ k * (unat (?B ! k) * ?A)"
    using mul_normal_step_val[OF r a b k Suc.prems(2)] by blast
  have "limbs_val (take (k + 1) ?B) = limbs_val (take k ?B) + LIMB ^ k * unat (?B ! k)"
    using limbs_val_take_Suc[of k ?B] k b(1) by (simp add: length_limbs_at)
  then have "limbs_val zs1 = ?A * limbs_val (take (k + 1) ?B)"
    using 1(3) Suc.prems(3) by (simp only: distrib_left mult.commute mult.left_commute)
  then show ?case using Suc.IH[of "k + 1" zs1] Suc.prems(1) 1(1,2) by simp
qed auto

lemma mul_normal_val:
  assumes r: "limbs_in m r (na + nb)" and a: "limbs_in m a na" "apart r (na + nb) a na"
    and b: "limbs_in m b nb" "apart r (na + nb) b nb" and "nb \<le> na"
  shows "\<exists>zs. bn_mul_normal m r a na b nb = Some (store_limbs m r zs) \<and> length zs = na + nb \<and>
    limbs_val zs = limbs_val (limbs_at m a na) * limbs_val (limbs_at m b nb)"
proof (cases "nb = 0")
  case True
  then show ?thesis using assms(6) memset0_stored[of m r na] r
    by (intro exI[of _ "replicate na 0"]) (simp add: bn_mul_normal_def limbs_at_def)
next
  case False
  let ?A = "limbs_val (limbs_at m a na)" and ?w = "limbs_at m b nb ! 0"
  have "same_or_apart r a na" using a(2) by (auto simp: same_or_apart_def apart_def)
  then obtain us c where mul: "bn_mul_words m r a na ?w = Some (c, store_limbs m r us)" "length us = na"
      "limbs_val us + LIMB ^ na * unat c = unat ?w * ?A"
    using bn_mul_words_spec[OF limbs_in_le[OF r] a(1), of ?w] by auto
  have "limbs_in m r (length us + 1)" using r mul(2) False by (simp add: limbs_in_def)
  from wr_after_stored[OF this, of c] have put: "wr (store_limbs m r us) (fst r, snd r + na) 0 c = Some (store_limbs m r (us @ [c]))"
    using mul(2) by (simp add: wr_shift)
  have "take 1 (limbs_at m b nb) = [?w]" using False b(1) by (simp add: take_Suc_conv_app_nth length_limbs_at)
  then have "limbs_val (us @ [c]) = ?A * limbs_val (take 1 (limbs_at m b nb))"
    using mul by (simp add: limbs_val_append mult.commute)
  moreover have "1 + (nb - 1) \<le> nb" "length (us @ [c]) = na + 1" using False mul(2) by simp_all
  ultimately obtain zs where "mul_normal_steps r (fst r, snd r + na) a na b 1 (nb - 1) (store_limbs m r (us @ [c])) = Some (store_limbs m r zs)"
      "length zs = na + nb" "limbs_val zs = ?A * limbs_val (limbs_at m b nb)"
    using mul_normal_steps_val[OF r a b, of 1 "nb - 1" "us @ [c]"] False b(1) by (auto simp: length_limbs_at)
  then show ?thesis
    using assms(6) False mul(1) put rd_limbs[OF b(1), of 0]
    by (intro exI[of _ zs]) (simp add: bn_mul_normal_def mul_normal_loop_steps)
qed

lemma bn_mul_normal_swap: "na < nb \<Longrightarrow> bn_mul_normal m r a na b nb = bn_mul_normal m r b nb a na"
  by (simp add: bn_mul_normal_def)

theorem bn_mul_normal_product:
  assumes "limbs_in m r (na + nb)" "limbs_in m a na" "apart r (na + nb) a na" "limbs_in m b nb" "apart r (na + nb) b nb"
  shows "\<exists>zs. bn_mul_normal m r a na b nb = Some (store_limbs m r zs) \<and> length zs = na + nb \<and>
    limbs_val zs = limbs_val (limbs_at m a na) * limbs_val (limbs_at m b nb)"
proof (cases "na < nb")
  case True
  then show ?thesis unfolding bn_mul_normal_swap[OF True] using mul_normal_val[of m r nb na b a] assms
    by (simp add: add.commute mult.commute)
next
  case False
  then show ?thesis using mul_normal_val[OF assms] by simp
qed

end
