(* ===== verification/Bn.thy ===== *)
theory Bn
  imports Bn_Words Mem Constant_Time
begin

text \<open>
  Big numbers (\<^verbatim>\<open>crypto/fipsmodule/bn\<close>: \<^verbatim>\<open>bn.c\<close>, \<^verbatim>\<open>cmp.c\<close>, \<^verbatim>\<open>add.c\<close>): the structure, its storage,
  comparison, addition and subtraction. An operation on one number takes and returns a \<^verbatim>\<open>BIGNUM\<close>; one
  on several takes their addresses in a store, so that the result may be an operand too, as the
  callers do. The array of a number is the block of memory with the number's address. \<open>None\<close> is an
  access outside of an array.
\<close>

section \<open>The structure\<close>

record BIGNUM =
  bn_d :: "u64 list"
  bn_top :: nat
  bn_dmax :: nat
  bn_neg :: bool
  bn_flags :: u32

definition BN_FLG_MALLOCED :: u32 where "BN_FLG_MALLOCED = 1"
definition BN_FLG_STATIC_DATA :: u32 where "BN_FLG_STATIC_DATA = 2"
definition sizeof_BIGNUM :: nat where "sizeof_BIGNUM = 24"
definition BN_BYTES :: nat where "BN_BYTES = 8"

text \<open>What the allocator does: which sizes the system grants, and what new words hold.\<close>

record bn_env =
  bn_sys :: sys_malloc
  bn_junk :: "nat \<Rightarrow> u64"

definition alloc_words :: "bn_env \<Rightarrow> nat \<Rightarrow> u64 list option" where
  "alloc_words E words =
     (if OPENSSL_malloc (bn_sys E) (size_mul BN_BYTES words) = None then None else Some (map (bn_junk E) [0..<words]))"

definition limb :: "u64 list \<Rightarrow> nat \<Rightarrow> u64 option" where
  "limb xs i = (if i < length xs then Some (xs ! i) else None)"

definition set_limb :: "u64 list \<Rightarrow> nat \<Rightarrow> u64 \<Rightarrow> u64 list option" where
  "set_limb xs i v = (if i < length xs then Some (xs[i := v]) else None)"

section \<open>\<^verbatim>\<open>bn.c\<close>\<close>

definition BN_init :: BIGNUM where
  "BN_init = \<lparr>bn_d = [], bn_top = 0, bn_dmax = 0, bn_neg = False, bn_flags = 0\<rparr>"

definition BN_new :: "bn_env \<Rightarrow> BIGNUM option" where
  "BN_new E =
     (if OPENSSL_malloc (bn_sys E) sizeof_BIGNUM = None then None else Some (BN_init\<lparr>bn_flags := BN_FLG_MALLOCED\<rparr>))"

definition bn_wexpand :: "bn_env \<Rightarrow> BIGNUM \<Rightarrow> nat \<Rightarrow> bool \<times> BIGNUM" where
  "bn_wexpand E bn words =
     (if words \<le> bn_dmax bn then (True, bn)
      else if words > INT_MAX div (4 * BN_BITS2) then (False, bn)
      else if bn_flags bn AND BN_FLG_STATIC_DATA \<noteq> 0 then (False, bn)
      else case alloc_words E words of
             None \<Rightarrow> (False, bn)
           | Some a \<Rightarrow> (True, bn\<lparr>bn_d := overwrite a 0 (take (bn_top bn) (bn_d bn)), bn_dmax := words\<rparr>))"

definition bn_expand :: "bn_env \<Rightarrow> BIGNUM \<Rightarrow> nat \<Rightarrow> bool \<times> BIGNUM" where
  "bn_expand E bn bits =
     (if size_sub (size_add bits BN_BITS2) 1 < bits then (False, bn)
      else bn_wexpand E bn ((bits + BN_BITS2 - 1) div BN_BITS2))"

fun correct_top_loop :: "u64 list \<Rightarrow> nat \<Rightarrow> nat option" where
  "correct_top_loop d 0 = Some 0"
| "correct_top_loop d (Suc n) = do { x \<leftarrow> limb d n; if x \<noteq> 0 then Some (Suc n) else correct_top_loop d n }"

definition bn_correct_top :: "BIGNUM \<Rightarrow> BIGNUM option" where
  "bn_correct_top bn = do {
     tmp_top \<leftarrow> (if bn_top bn > 0 then correct_top_loop (bn_d bn) (bn_top bn) else Some (bn_top bn));
     let bn = bn\<lparr>bn_top := tmp_top\<rparr>;
     Some (if bn_top bn = 0 then bn\<lparr>bn_neg := False\<rparr> else bn) }"

definition BN_copy :: "bn_env \<Rightarrow> BIGNUM \<Rightarrow> BIGNUM \<Rightarrow> bool \<times> BIGNUM" where
  "BN_copy E dest src =
     (let (ok, dest) = bn_wexpand E dest (bn_top src)
      in if \<not> ok then (False, dest)
         else (True, dest\<lparr>bn_d := overwrite (bn_d dest) 0 (take (bn_top src) (bn_d src)),
                          bn_top := bn_top src, bn_neg := bn_neg src\<rparr>))"

definition BN_dup :: "bn_env \<Rightarrow> BIGNUM option \<Rightarrow> BIGNUM option" where
  "BN_dup E src = do {
     src \<leftarrow> src;
     copy \<leftarrow> BN_new E;
     let (ok, copy) = BN_copy E copy src;
     if ok then Some copy else None }"

definition BN_clear :: "BIGNUM \<Rightarrow> BIGNUM" where
  "BN_clear bn = bn\<lparr>bn_d := overwrite (bn_d bn) 0 (replicate (bn_dmax bn) 0), bn_top := 0, bn_neg := False\<rparr>"

definition BN_value_one :: BIGNUM where
  "BN_value_one = \<lparr>bn_d = [1], bn_top = 1, bn_dmax = 1, bn_neg = False, bn_flags = BN_FLG_STATIC_DATA\<rparr>"

definition bits_table :: "nat list" where
  "bits_table = [
     0, 1, 2, 2, 3, 3, 3, 3, 4, 4, 4, 4, 4, 4, 4, 4, 5, 5, 5, 5, 5, 5, 5, 5,
     5, 5, 5, 5, 5, 5, 5, 5, 6, 6, 6, 6, 6, 6, 6, 6, 6, 6, 6, 6, 6, 6, 6, 6,
     6, 6, 6, 6, 6, 6, 6, 6, 6, 6, 6, 6, 6, 6, 6, 6, 7, 7, 7, 7, 7, 7, 7, 7,
     7, 7, 7, 7, 7, 7, 7, 7, 7, 7, 7, 7, 7, 7, 7, 7, 7, 7, 7, 7, 7, 7, 7, 7,
     7, 7, 7, 7, 7, 7, 7, 7, 7, 7, 7, 7, 7, 7, 7, 7, 7, 7, 7, 7, 7, 7, 7, 7,
     7, 7, 7, 7, 7, 7, 7, 7, 8, 8, 8, 8, 8, 8, 8, 8, 8, 8, 8, 8, 8, 8, 8, 8,
     8, 8, 8, 8, 8, 8, 8, 8, 8, 8, 8, 8, 8, 8, 8, 8, 8, 8, 8, 8, 8, 8, 8, 8,
     8, 8, 8, 8, 8, 8, 8, 8, 8, 8, 8, 8, 8, 8, 8, 8, 8, 8, 8, 8, 8, 8, 8, 8,
     8, 8, 8, 8, 8, 8, 8, 8, 8, 8, 8, 8, 8, 8, 8, 8, 8, 8, 8, 8, 8, 8, 8, 8,
     8, 8, 8, 8, 8, 8, 8, 8, 8, 8, 8, 8, 8, 8, 8, 8, 8, 8, 8, 8, 8, 8, 8, 8,
     8, 8, 8, 8, 8, 8, 8, 8, 8, 8, 8, 8, 8, 8, 8, 8]"

definition bits_at :: "u64 \<Rightarrow> nat" where
  "bits_at i = bits_table ! unat i"

definition BN_num_bits_word :: "u64 \<Rightarrow> nat" where
  "BN_num_bits_word l =
     (if l AND 0xffffffff00000000 \<noteq> 0
      then if l AND 0xffff000000000000 \<noteq> 0
           then if l AND 0xff00000000000000 \<noteq> 0 then bits_at (drop_bit 56 l) + 56 else bits_at (drop_bit 48 l) + 48
           else if l AND 0x0000ff0000000000 \<noteq> 0 then bits_at (drop_bit 40 l) + 40 else bits_at (drop_bit 32 l) + 32
      else if l AND 0xffff0000 \<noteq> 0
           then if l AND 0xff000000 \<noteq> 0 then bits_at (drop_bit 24 l) + 24 else bits_at (drop_bit 16 l) + 16
           else if l AND 0xff00 \<noteq> 0 then bits_at (drop_bit 8 l) + 8 else bits_at l)"

definition BN_is_zero :: "BIGNUM \<Rightarrow> bool" where
  "BN_is_zero bn \<longleftrightarrow> bn_top bn = 0"

definition BN_num_bits :: "BIGNUM \<Rightarrow> nat option" where
  "BN_num_bits bn =
     (if BN_is_zero bn then Some 0
      else do { l \<leftarrow> limb (bn_d bn) (bn_top bn - 1); Some ((bn_top bn - 1) * BN_BITS2 + BN_num_bits_word l) })"

definition BN_num_bytes :: "BIGNUM \<Rightarrow> nat option" where
  "BN_num_bytes bn = do { n \<leftarrow> BN_num_bits bn; Some ((n + 7) div 8) }"

definition BN_zero :: "BIGNUM \<Rightarrow> BIGNUM" where
  "BN_zero bn = bn\<lparr>bn_neg := False, bn_top := 0\<rparr>"

definition BN_set_word :: "bn_env \<Rightarrow> BIGNUM \<Rightarrow> u64 \<Rightarrow> (bool \<times> BIGNUM) option" where
  "BN_set_word E bn value =
     (if value = 0 then Some (True, BN_zero bn)
      else let (ok, bn) = bn_wexpand E bn 1
           in if \<not> ok then Some (False, bn)
              else do {
                d \<leftarrow> set_limb (bn_d bn) 0 value;
                Some (True, bn\<lparr>bn_neg := False, bn_d := d, bn_top := 1\<rparr>) })"

definition BN_one :: "bn_env \<Rightarrow> BIGNUM \<Rightarrow> (bool \<times> BIGNUM) option" where
  "BN_one E bn = BN_set_word E bn 1"

definition BN_set_u64 :: "bn_env \<Rightarrow> BIGNUM \<Rightarrow> u64 \<Rightarrow> (bool \<times> BIGNUM) option" where
  "BN_set_u64 E bn value = BN_set_word E bn value"

definition bn_set_words :: "bn_env \<Rightarrow> BIGNUM \<Rightarrow> u64 list \<Rightarrow> (bool \<times> BIGNUM) option" where
  "bn_set_words E bn words =
     (let num = length words;
          (ok, bn) = bn_wexpand E bn num
      in if \<not> ok then Some (False, bn)
         else do {
           bn \<leftarrow> bn_correct_top (bn\<lparr>bn_d := overwrite (bn_d bn) 0 words, bn_top := num\<rparr>);
           Some (True, bn\<lparr>bn_neg := False\<rparr>) })"

definition BN_is_negative :: "BIGNUM \<Rightarrow> bool" where
  "BN_is_negative bn \<longleftrightarrow> bn_neg bn"

definition BN_set_negative :: "BIGNUM \<Rightarrow> bool \<Rightarrow> BIGNUM" where
  "BN_set_negative bn sign = (if sign \<and> \<not> BN_is_zero bn then bn\<lparr>bn_neg := True\<rparr> else bn\<lparr>bn_neg := False\<rparr>)"

section \<open>\<^verbatim>\<open>cmp.c\<close>\<close>

text \<open>The loop from the highest word down; \<open>gt\<close> and \<open>lt\<close> are what it answers at a difference.\<close>

fun cmp_loop :: "int \<Rightarrow> int \<Rightarrow> u64 list \<Rightarrow> u64 list \<Rightarrow> nat \<Rightarrow> int option" where
  "cmp_loop gt lt ap bp 0 = Some 0"
| "cmp_loop gt lt ap bp (Suc i) = do {
     t1 \<leftarrow> limb ap i; t2 \<leftarrow> limb bp i;
     if t1 \<noteq> t2 then Some (if t1 > t2 then gt else lt) else cmp_loop gt lt ap bp i }"

definition BN_ucmp :: "BIGNUM \<Rightarrow> BIGNUM \<Rightarrow> int option" where
  "BN_ucmp a b =
     (let i = int (bn_top a) - int (bn_top b)
      in if i \<noteq> 0 then Some i else cmp_loop 1 (- 1) (bn_d a) (bn_d b) (bn_top a))"

definition BN_cmp :: "BIGNUM option \<Rightarrow> BIGNUM option \<Rightarrow> int option" where
  "BN_cmp a b =
     (case (a, b) of
        (None, None) \<Rightarrow> Some 0
      | (Some _, None) \<Rightarrow> Some (- 1)
      | (None, Some _) \<Rightarrow> Some 1
      | (Some a, Some b) \<Rightarrow>
          if bn_neg a \<noteq> bn_neg b then Some (if bn_neg a then - 1 else 1)
          else let (gt, lt) = (if \<not> bn_neg a then (1, - 1) else (- 1, 1))
               in if bn_top a > bn_top b then Some gt
                  else if bn_top a < bn_top b then Some lt
                  else cmp_loop gt lt (bn_d a) (bn_d b) (bn_top a))"

definition bn_cmp_words :: "u64 list \<Rightarrow> u64 list \<Rightarrow> nat \<Rightarrow> int option" where
  "bn_cmp_words a b n = (if n = 0 then None else cmp_loop 1 (- 1) a b n)"

text \<open>The scans for a word that is not zero, from index \<open>cl + k - 1\<close> down to \<open>cl\<close>.\<close>

fun nonzero_above :: "u64 list \<Rightarrow> nat \<Rightarrow> nat \<Rightarrow> bool option" where
  "nonzero_above a cl 0 = Some False"
| "nonzero_above a cl (Suc k) = do { x \<leftarrow> limb a (cl + k); if x \<noteq> 0 then Some True else nonzero_above a cl k }"

definition bn_cmp_part_words :: "u64 list \<Rightarrow> u64 list \<Rightarrow> nat \<Rightarrow> int \<Rightarrow> int option" where
  "bn_cmp_part_words a b cl dl = do {
     lt \<leftarrow> (if dl < 0 then nonzero_above b cl (nat (- dl)) else Some False);
     if lt then Some (- 1) else do {
       gt \<leftarrow> (if dl > 0 then nonzero_above a cl (nat dl) else Some False);
       if gt then Some 1 else bn_cmp_words a b cl }}"

fun less_than_words_loop :: "32 word \<Rightarrow> u64 list \<Rightarrow> u64 list \<Rightarrow> nat \<Rightarrow> nat \<Rightarrow> 32 word option" where
  "less_than_words_loop ret a b i 0 = Some ret"
| "less_than_words_loop ret a b i (Suc n) = do {
     x \<leftarrow> limb a i; y \<leftarrow> limb b i;
     let eq = constant_time_eq_w x y;
     let lt = constant_time_lt_w x y;
     less_than_words_loop (constant_time_select_int eq ret (constant_time_select_int lt 1 0)) a b (i + 1) n }"

definition bn_less_than_words :: "u64 list \<Rightarrow> u64 list \<Rightarrow> nat \<Rightarrow> 32 word option" where
  "bn_less_than_words a b len = less_than_words_loop 0 a b 0 len"

definition BN_abs_is_word :: "BIGNUM \<Rightarrow> u64 \<Rightarrow> bool option" where
  "BN_abs_is_word bn w =
     (if bn_top bn = 1 then do { x \<leftarrow> limb (bn_d bn) 0; Some (x = w) }
      else if bn_top bn = 0 then Some (w = 0) else Some False)"

definition BN_cmp_word :: "BIGNUM option \<Rightarrow> u64 \<Rightarrow> int option" where
  "BN_cmp_word a b =
     BN_cmp a (Some (BN_init\<lparr>bn_d := [b], bn_top := of_bool (b > 0), bn_dmax := 1, bn_flags := BN_FLG_STATIC_DATA\<rparr>))"

definition BN_is_one :: "BIGNUM \<Rightarrow> bool option" where
  "BN_is_one bn = (if \<not> bn_neg bn then BN_abs_is_word bn 1 else Some False)"

definition BN_is_word :: "BIGNUM \<Rightarrow> u64 \<Rightarrow> bool option" where
  "BN_is_word bn w = do { e \<leftarrow> BN_abs_is_word bn w; Some (e \<and> (w = 0 \<or> \<not> bn_neg bn)) }"

definition BN_is_odd :: "BIGNUM \<Rightarrow> bool option" where
  "BN_is_odd bn = (if bn_top bn > 0 then do { x \<leftarrow> limb (bn_d bn) 0; Some (x AND 1 = 1) } else Some False)"

fun all_zero_below :: "u64 list \<Rightarrow> nat \<Rightarrow> nat \<Rightarrow> bool option" where
  "all_zero_below d i 0 = Some True"
| "all_zero_below d i (Suc n) = do { x \<leftarrow> limb d i; if x \<noteq> 0 then Some False else all_zero_below d (i + 1) n }"

definition BN_is_pow2 :: "BIGNUM \<Rightarrow> bool option" where
  "BN_is_pow2 bn =
     (if bn_top bn = 0 \<or> bn_neg bn then Some False
      else do {
        z \<leftarrow> all_zero_below (bn_d bn) 0 (bn_top bn - 1);
        if \<not> z then Some False
        else do { x \<leftarrow> limb (bn_d bn) (bn_top bn - 1); Some (x AND (x - 1) = 0) }})"

section \<open>\<^verbatim>\<open>add.c\<close>\<close>

type_synonym bns = "nat \<Rightarrow> BIGNUM"

definition bn_mem :: "bns \<Rightarrow> limb_mem" where
  "bn_mem st = (\<lambda>i. bn_d (st i))"

definition bn_put :: "bns \<Rightarrow> limb_mem \<Rightarrow> bns" where
  "bn_put st m = (\<lambda>i. (st i)\<lparr>bn_d := m i\<rparr>)"

definition wexpand_at :: "bn_env \<Rightarrow> bns \<Rightarrow> nat \<Rightarrow> nat \<Rightarrow> bool \<times> bns" where
  "wexpand_at E st r words = (let (ok, bn) = bn_wexpand E (st r) words in (ok, st(r := bn)))"

text \<open>\<^verbatim>\<open>while (dif)\<close> adds the carry, or takes the borrow, until it stops; the rest of the words is copied.\<close>

fun uadd_carry :: "nat \<Rightarrow> nat \<Rightarrow> nat \<Rightarrow> nat \<Rightarrow> limb_mem \<Rightarrow> (bool \<times> nat \<times> nat \<times> limb_mem) option" where
  "uadd_carry r a i 0 m = Some (True, i, 0, m)"
| "uadd_carry r a i (Suc dif) m = do {
     t1 \<leftarrow> rd m (a, 0) i;
     let t2 = t1 + 1;
     m \<leftarrow> wr m (r, 0) i t2;
     if t2 \<noteq> 0 then Some (False, i + 1, dif, m) else uadd_carry r a (i + 1) dif m }"

fun usub_borrow :: "nat \<Rightarrow> nat \<Rightarrow> nat \<Rightarrow> nat \<Rightarrow> limb_mem \<Rightarrow> (nat \<times> nat \<times> limb_mem) option" where
  "usub_borrow r a i 0 m = Some (i, 0, m)"
| "usub_borrow r a i (Suc dif) m = do {
     t1 \<leftarrow> rd m (a, 0) i;
     let t2 = t1 - 1;
     m \<leftarrow> wr m (r, 0) i t2;
     if t1 \<noteq> 0 then Some (i + 1, dif, m) else usub_borrow r a (i + 1) dif m }"

fun copy_words :: "nat \<Rightarrow> nat \<Rightarrow> nat \<Rightarrow> nat \<Rightarrow> limb_mem \<Rightarrow> limb_mem option" where
  "copy_words r a i 0 m = Some m"
| "copy_words r a i (Suc dif) m = do { t \<leftarrow> rd m (a, 0) i; m \<leftarrow> wr m (r, 0) i t; copy_words r a (i + 1) dif m }"

definition BN_uadd :: "bn_env \<Rightarrow> bns \<Rightarrow> nat \<Rightarrow> nat \<Rightarrow> nat \<Rightarrow> (bool \<times> bns) option" where
  "BN_uadd E st r a b =
     (let (a, b) = (if bn_top (st a) < bn_top (st b) then (b, a) else (a, b));
          max = bn_top (st a);
          min = bn_top (st b);
          dif = max - min;
          (ok, st) = wexpand_at E st r (max + 1)
      in if \<not> ok then Some (False, st)
         else do {
           let st = st(r := (st r)\<lparr>bn_top := max\<rparr>);
           (carry, m) \<leftarrow> bn_add_words (bn_mem st) (r, 0) (a, 0) (b, 0) min;
           (grow, i, dif, m) \<leftarrow>
             (if carry \<noteq> 0
              then do {
                (carry, i, dif, m) \<leftarrow> uadd_carry r a min dif m;
                m \<leftarrow> (if carry then wr m (r, 0) i 1 else Some m);
                Some (carry, i, dif, m) }
              else Some (False, min, dif, m));
           m \<leftarrow> (if dif \<noteq> 0 \<and> r \<noteq> a then copy_words r a i dif m else Some m);
           let st = bn_put st m;
           let st = st(r := (st r)\<lparr>bn_top := (if grow then bn_top (st r) + 1 else bn_top (st r))\<rparr>);
           Some (True, st(r := (st r)\<lparr>bn_neg := False\<rparr>)) })"

definition usub_step :: "nat \<Rightarrow> nat \<Rightarrow> nat \<Rightarrow> nat \<Rightarrow> bool \<times> limb_mem \<Rightarrow> (bool \<times> limb_mem) option" where
  "usub_step r a b i = (\<lambda>(carry, m). do {
     t1 \<leftarrow> rd m (a, 0) i; t2 \<leftarrow> rd m (b, 0) i;
     let (carry, t1) = (if carry then (t1 \<le> t2, t1 - (t2 + 1)) else (t1 < t2, t1 - t2));
     m \<leftarrow> wr m (r, 0) i t1;
     Some (carry, m) })"

definition BN_usub :: "bn_env \<Rightarrow> bns \<Rightarrow> nat \<Rightarrow> nat \<Rightarrow> nat \<Rightarrow> (bool \<times> bns) option" where
  "BN_usub E st r a b =
     (let max = bn_top (st a);
          min = bn_top (st b)
      in if max < min then Some (False, st)
         else let dif = max - min;
                  (ok, st) = wexpand_at E st r max
              in if \<not> ok then Some (False, st)
                 else do {
                   (carry, m) \<leftarrow> words_by_1 (usub_step r a b) 0 min (False, bn_mem st);
                   if carry \<and> dif = 0 then Some (False, bn_put st m)
                   else do {
                     (i, dif, m) \<leftarrow> (if carry then usub_borrow r a min dif m else Some (min, dif, m));
                     m \<leftarrow> (if dif > 0 \<and> r \<noteq> a then copy_words r a i dif m else Some m);
                     let st = bn_put st m;
                     bn \<leftarrow> bn_correct_top ((st r)\<lparr>bn_top := max, bn_neg := False\<rparr>);
                     Some (True, st(r := bn)) }})"

text \<open>The tail that \<open>BN_add\<close> and \<open>BN_sub\<close> share: the difference of the magnitudes, with its sign.\<close>

definition signed_usub :: "bn_env \<Rightarrow> bns \<Rightarrow> nat \<Rightarrow> nat \<Rightarrow> nat \<Rightarrow> (bool \<times> bns) option" where
  "signed_usub E st r a b = do {
     c \<leftarrow> BN_ucmp (st a) (st b);
     if c < 0
     then do {
       (ok, st) \<leftarrow> BN_usub E st r b a;
       Some (if \<not> ok then (False, st) else (True, st(r := (st r)\<lparr>bn_neg := True\<rparr>))) }
     else do {
       (ok, st) \<leftarrow> BN_usub E st r a b;
       Some (if \<not> ok then (False, st) else (True, st(r := (st r)\<lparr>bn_neg := False\<rparr>))) }}"

definition BN_add :: "bn_env \<Rightarrow> bns \<Rightarrow> nat \<Rightarrow> nat \<Rightarrow> nat \<Rightarrow> (bool \<times> bns) option" where
  "BN_add E st r a b =
     (let a_neg = bn_neg (st a)
      in if a_neg \<noteq> bn_neg (st b)
         then let (a, b) = (if a_neg then (b, a) else (a, b)) in signed_usub E st r a b
         else do {
           (ret, st) \<leftarrow> BN_uadd E st r a b;
           Some (ret, st(r := (st r)\<lparr>bn_neg := a_neg\<rparr>)) })"

definition BN_sub :: "bn_env \<Rightarrow> bns \<Rightarrow> nat \<Rightarrow> nat \<Rightarrow> nat \<Rightarrow> (bool \<times> bns) option" where
  "BN_sub E st r a b =
     (let (add, neg, a, b) =
            (if bn_neg (st a) then if bn_neg (st b) then (False, False, b, a) else (True, True, a, b)
             else if bn_neg (st b) then (True, False, a, b) else (False, False, a, b))
      in if add
         then do {
           (ok, st) \<leftarrow> BN_uadd E st r a b;
           Some (if \<not> ok then (False, st) else (True, st(r := (st r)\<lparr>bn_neg := neg\<rparr>))) }
         else let max = (if bn_top (st a) > bn_top (st b) then bn_top (st a) else bn_top (st b));
                  (ok, st) = wexpand_at E st r max
              in if \<not> ok then Some (False, st) else signed_usub E st r a b)"

text \<open>
  A word added to, or subtracted from, a number: on a negative number each calls the other one with the sign
  cleared, which does not call back.
\<close>

fun add_word_loop :: "u64 list \<Rightarrow> u64 \<Rightarrow> nat \<Rightarrow> nat \<Rightarrow> (u64 list \<times> u64 \<times> nat) option" where
  "add_word_loop d w i 0 = Some (d, w, i)"
| "add_word_loop d w i (Suc n) =
     (if w = 0 then Some (d, w, i)
      else do {
        x \<leftarrow> limb d i;
        let l = x + w;
        d \<leftarrow> set_limb d i l;
        add_word_loop d (if w > l then 1 else 0) (i + 1) n })"

function sub_word_loop :: "u64 list \<Rightarrow> u64 \<Rightarrow> nat \<Rightarrow> (u64 list \<times> nat) option" where
  "sub_word_loop d w i =
     (if i < length d
      then if d ! i \<ge> w then Some (d[i := d ! i - w], i) else sub_word_loop (d[i := d ! i - w]) 1 (i + 1)
      else None)"
  by pat_completeness auto

termination by (relation "measure (\<lambda>(d, w, i). length d - i)") auto

declare sub_word_loop.simps [simp del]

function BN_add_word :: "bn_env \<Rightarrow> BIGNUM \<Rightarrow> u64 \<Rightarrow> (bool \<times> BIGNUM) option"
  and BN_sub_word :: "bn_env \<Rightarrow> BIGNUM \<Rightarrow> u64 \<Rightarrow> (bool \<times> BIGNUM) option" where
  "BN_add_word E a w =
     (if w = 0 then Some (True, a)
      else if BN_is_zero a then BN_set_word E a w
      else if bn_neg a
      then do {
        (i, a) \<leftarrow> BN_sub_word E (a\<lparr>bn_neg := False\<rparr>) w;
        Some (i, if \<not> BN_is_zero a then a\<lparr>bn_neg := \<not> bn_neg a\<rparr> else a) }
      else do {
        (d, w, i) \<leftarrow> add_word_loop (bn_d a) w 0 (bn_top a);
        let a = a\<lparr>bn_d := d\<rparr>;
        if w \<noteq> 0 \<and> i = bn_top a
        then let (ok, a) = bn_wexpand E a (bn_top a + 1)
             in if \<not> ok then Some (False, a)
                else do { d \<leftarrow> set_limb (bn_d a) i w; Some (True, a\<lparr>bn_top := bn_top a + 1, bn_d := d\<rparr>) }
        else Some (True, a) })"
| "BN_sub_word E a w =
     (if w = 0 then Some (True, a)
      else if BN_is_zero a
      then do {
        (i, a) \<leftarrow> BN_set_word E a w;
        Some (i, if i then BN_set_negative a True else a) }
      else if bn_neg a
      then do {
        (i, a) \<leftarrow> BN_add_word E (a\<lparr>bn_neg := False\<rparr>) w;
        Some (i, a\<lparr>bn_neg := True\<rparr>) }
      else do {
        x \<leftarrow> limb (bn_d a) 0;
        if bn_top a = 1 \<and> x < w
        then do { d \<leftarrow> set_limb (bn_d a) 0 (w - x); Some (True, a\<lparr>bn_d := d, bn_neg := True\<rparr>) }
        else do {
          (d, i) \<leftarrow> sub_word_loop (bn_d a) w 0;
          Some (True, a\<lparr>bn_d := d, bn_top := (if d ! i = 0 \<and> i = bn_top a - 1 then bn_top a - 1 else bn_top a)\<rparr>) }})"
  by pat_completeness auto

termination by (relation "measure (\<lambda>x. case x of Inl (E, a, w) \<Rightarrow> of_bool (bn_neg a) | Inr (E, a, w) \<Rightarrow> of_bool (bn_neg a))") auto

declare BN_add_word.simps [simp del]
declare BN_sub_word.simps [simp del]

text \<open>\<^verbatim>\<open>mul.c\<close>'s multiplication by a word.\<close>

definition BN_mul_word :: "bn_env \<Rightarrow> bns \<Rightarrow> nat \<Rightarrow> u64 \<Rightarrow> (bool \<times> bns) option" where
  "BN_mul_word E st bn w =
     (if bn_top (st bn) = 0 then Some (True, st)
      else if w = 0 then Some (True, st(bn := BN_zero (st bn)))
      else do {
        (ll, m) \<leftarrow> bn_mul_words (bn_mem st) (bn, 0) (bn, 0) (bn_top (st bn)) w;
        let st = bn_put st m;
        if ll \<noteq> 0
        then let (ok, st) = wexpand_at E st bn (bn_top (st bn) + 1)
             in if \<not> ok then Some (False, st)
                else do {
                  d \<leftarrow> set_limb (bn_d (st bn)) (bn_top (st bn)) ll;
                  Some (True, st(bn := (st bn)\<lparr>bn_d := d, bn_top := bn_top (st bn) + 1\<rparr>)) }
        else Some (True, st) })"

end
