(* ===== verification/Bn_Spec.thy ===== *)
theory Bn_Spec
  imports Bn Bn_Words_Spec
begin

text \<open>
  What the operations of \<^theory_text>\<open>Bn\<close> compute. A number stands for an integer; the structures the operations
  take and leave have no leading zero word and no sign on zero. Addition, subtraction and comparison are those
  of the integers, whichever of their operands are the same structure.
\<close>

section \<open>The integer of a structure\<close>

definition bn_limbs :: "BIGNUM \<Rightarrow> u64 list" where
  "bn_limbs A = take (bn_top A) (bn_d A)"

definition bn_abs :: "BIGNUM \<Rightarrow> nat" where
  "bn_abs A = limbs_val (bn_limbs A)"

definition bn_val :: "BIGNUM \<Rightarrow> int" where
  "bn_val A = (if bn_neg A then - int (bn_abs A) else int (bn_abs A))"

text \<open>The array has the size it says, and holds the words in use.\<close>

definition bn_stored :: "BIGNUM \<Rightarrow> bool" where
  "bn_stored A \<longleftrightarrow> length (bn_d A) = bn_dmax A \<and> bn_top A \<le> bn_dmax A"

definition bn_wf :: "BIGNUM \<Rightarrow> bool" where
  "bn_wf A \<longleftrightarrow> bn_stored A \<and> (0 < bn_top A \<longrightarrow> bn_d A ! (bn_top A - 1) \<noteq> 0) \<and> (bn_neg A \<longrightarrow> 0 < bn_top A)"

lemma bn_wf_stored [simp]: "bn_wf A \<Longrightarrow> bn_stored A"
  by (simp add: bn_wf_def)

lemma length_bn_limbs [simp]: "bn_stored A \<Longrightarrow> length (bn_limbs A) = bn_top A"
  by (simp add: bn_limbs_def bn_stored_def)

lemma bn_abs_less: "bn_stored A \<Longrightarrow> bn_abs A < LIMB ^ bn_top A"
  using limbs_val_less[of "bn_limbs A"] by (simp add: bn_abs_def)

lemma limbs_val_top: "k < length xs \<Longrightarrow> xs ! k \<noteq> 0 \<Longrightarrow> LIMB ^ k \<le> limbs_val (take (Suc k) xs)"
proof -
  assume k: "k < length xs" and "xs ! k \<noteq> 0"
  then have "1 \<le> unat (xs ! k)" by (simp add: Suc_le_eq unat_gt_0)
  then have "LIMB ^ k * 1 \<le> LIMB ^ k * unat (xs ! k)" by (rule mult_le_mono2)
  then show ?thesis unfolding limbs_val_take_Suc[OF k] by linarith
qed

lemma bn_abs_ge: "bn_wf A \<Longrightarrow> 0 < bn_top A \<Longrightarrow> LIMB ^ (bn_top A - 1) \<le> bn_abs A"
  by (cases "bn_top A") (use limbs_val_top[of "bn_top A - 1" "bn_d A"] in \<open>simp_all add: bn_wf_def bn_stored_def bn_abs_def bn_limbs_def\<close>)

lemma bn_top_zero_iff: "bn_wf A \<Longrightarrow> bn_top A = 0 \<longleftrightarrow> bn_abs A = 0"
proof (cases "bn_top A = 0")
  case True
  then show ?thesis by (simp add: bn_abs_def bn_limbs_def)
next
  case False
  assume "bn_wf A"
  then have "LIMB ^ (bn_top A - 1) \<le> bn_abs A" using False by (intro bn_abs_ge) simp_all
  moreover have "0 < LIMB ^ (bn_top A - 1)" by simp
  ultimately show ?thesis using False by linarith
qed

lemma bn_top_less: "bn_wf A \<Longrightarrow> bn_wf B \<Longrightarrow> bn_top A < bn_top B \<Longrightarrow> bn_abs A < bn_abs B"
proof -
  assume A: "bn_wf A" and B: "bn_wf B" and less: "bn_top A < bn_top B"
  have "bn_abs A < LIMB ^ bn_top A" using A by (simp add: bn_abs_less)
  also have "\<dots> \<le> LIMB ^ (bn_top B - 1)" using less by (intro power_increasing) simp_all
  also have "\<dots> \<le> bn_abs B" using B less by (intro bn_abs_ge) simp_all
  finally show ?thesis .
qed

section \<open>Comparison\<close>

lemma cmp_loop_val:
  "n \<le> length xs \<Longrightarrow> n \<le> length ys \<Longrightarrow>
   cmp_loop gt lt xs ys n = Some (if limbs_val (take n ys) < limbs_val (take n xs) then gt
     else if limbs_val (take n xs) < limbs_val (take n ys) then lt else 0)"
proof (induction n)
  case (Suc n)
  let ?x = "unat (xs ! n)" and ?y = "unat (ys ! n)"
  let ?X = "limbs_val (take n xs)" and ?Y = "limbs_val (take n ys)"
  have l: "?X < LIMB ^ n" "?Y < LIMB ^ n" using limbs_val_less[of "take n xs"] limbs_val_less[of "take n ys"] Suc.prems by simp_all
  have less: "U + LIMB ^ n * u < V + LIMB ^ n * v" if "u < v" "U < LIMB ^ n" for U V u v :: nat
  proof -
    have "U + LIMB ^ n * u < LIMB ^ n * (u + 1)" using that(2) by simp
    also have "\<dots> \<le> LIMB ^ n * v" using that(1) by (intro mult_le_mono2) simp
    finally show ?thesis by simp
  qed
  have eq: "xs ! n \<noteq> ys ! n \<longleftrightarrow> ?x \<noteq> ?y" "ys ! n < xs ! n \<longleftrightarrow> ?y < ?x" by (simp_all add: word_unat_eq_iff word_less_nat_alt)
  have "?x = ?y \<or> ?x < ?y \<or> ?y < ?x" by linarith
  then show ?case
    using Suc less[of ?x ?y ?X ?Y] less[of ?y ?x ?Y ?X] l unfolding eq
    by (auto simp: limb_def limbs_val_take_Suc eq)
qed simp

lemma cmp_loop_bn:
  assumes "bn_wf A" "bn_wf B" "bn_top A = bn_top B"
  shows "cmp_loop gt lt (bn_d A) (bn_d B) (bn_top A) = Some (if bn_abs B < bn_abs A then gt else if bn_abs A < bn_abs B then lt else 0)"
  using cmp_loop_val[of "bn_top A" "bn_d A" "bn_d B" gt lt] assms
  by (simp add: bn_wf_def bn_stored_def bn_abs_def bn_limbs_def)

lemma BN_ucmp_sgn:
  assumes "bn_wf A" "bn_wf B"
  shows "\<exists>c. BN_ucmp A B = Some c \<and> sgn c = sgn (int (bn_abs A) - int (bn_abs B))"
proof -
  consider "bn_top A < bn_top B" | "bn_top B < bn_top A" | "bn_top A = bn_top B" by linarith
  then show ?thesis
  proof cases
    case 1
    then show ?thesis using bn_top_less[OF assms 1] by (simp add: BN_ucmp_def sgn_if)
  next
    case 2
    then show ?thesis using bn_top_less[OF assms(2,1) 2] by (simp add: BN_ucmp_def sgn_if)
  next
    case 3
    then show ?thesis using cmp_loop_bn[OF assms 3, of 1 "- 1"] by (simp add: BN_ucmp_def sgn_if)
  qed
qed

lemma BN_cmp_sgn:
  assumes "bn_wf A" "bn_wf B"
  shows "BN_cmp (Some A) (Some B) = Some (sgn (bn_val A - bn_val B))"
proof -
  have z: "bn_neg A \<Longrightarrow> bn_abs A \<noteq> 0" "bn_neg B \<Longrightarrow> bn_abs B \<noteq> 0"
    using bn_top_zero_iff[OF assms(1)] bn_top_zero_iff[OF assms(2)] assms by (auto simp: bn_wf_def)
  consider "bn_top A < bn_top B" | "bn_top B < bn_top A" | "bn_top A = bn_top B" by linarith
  then show ?thesis
  proof cases
    case 1
    then show ?thesis using bn_top_less[OF assms 1] z by (auto simp: BN_cmp_def bn_val_def sgn_if)
  next
    case 2
    then show ?thesis using bn_top_less[OF assms(2,1) 2] z by (auto simp: BN_cmp_def bn_val_def sgn_if)
  next
    case 3
    then show ?thesis using cmp_loop_bn[OF assms 3] z by (auto simp: BN_cmp_def bn_val_def sgn_if Let_def)
  qed
qed

section \<open>Storage\<close>

lemma overwrite_keeps: "k \<le> length bs \<Longrightarrow> length bs \<le> length m \<Longrightarrow> take k (overwrite m 0 bs) = take k bs"
  by (simp add: overwrite_def)

lemma bn_wexpand_keeps:
  assumes "bn_stored A" "bn_wexpand E A n = (ok, A')"
  shows "bn_stored A'" "bn_limbs A' = bn_limbs A" "bn_top A' = bn_top A" "bn_neg A' = bn_neg A" "ok \<Longrightarrow> n \<le> bn_dmax A'"
    "\<not> ok \<Longrightarrow> A' = A" "bn_flags A' = bn_flags A"
proof -
  have "bn_stored A' \<and> bn_limbs A' = bn_limbs A \<and> bn_top A' = bn_top A \<and> bn_neg A' = bn_neg A \<and> (ok \<longrightarrow> n \<le> bn_dmax A') \<and>
    (\<not> ok \<longrightarrow> A' = A) \<and> bn_flags A' = bn_flags A"
    using assms by (auto simp: bn_wexpand_def bn_stored_def bn_limbs_def alloc_words_def overwrite_keeps split: if_splits option.splits)
  then show "bn_stored A'" "bn_limbs A' = bn_limbs A" "bn_top A' = bn_top A" "bn_neg A' = bn_neg A" "ok \<Longrightarrow> n \<le> bn_dmax A'"
    "\<not> ok \<Longrightarrow> A' = A" "bn_flags A' = bn_flags A" by blast+
qed

lemma bn_val_keeps: "bn_limbs A' = bn_limbs A \<Longrightarrow> bn_neg A' = bn_neg A \<Longrightarrow> bn_val A' = bn_val A"
  by (simp add: bn_val_def bn_abs_def)

lemma correct_top_loop_val:
  "n \<le> length d \<Longrightarrow> \<exists>k. correct_top_loop d n = Some k \<and> k \<le> n \<and> (0 < k \<longrightarrow> d ! (k - 1) \<noteq> 0) \<and> limbs_val (take k d) = limbs_val (take n d)"
proof (induction n)
  case (Suc n)
  then obtain k where "correct_top_loop d n = Some k" "k \<le> n" "0 < k \<longrightarrow> d ! (k - 1) \<noteq> 0" "limbs_val (take k d) = limbs_val (take n d)"
    by auto
  then show ?case using Suc.prems by (auto simp: limb_def limbs_val_take_Suc)
qed simp

lemma bn_correct_top_val:
  assumes "bn_stored A"
  shows "\<exists>A'. bn_correct_top A = Some A' \<and> bn_wf A' \<and> bn_abs A' = bn_abs A \<and> bn_neg A' = (bn_neg A \<and> bn_abs A \<noteq> 0) \<and>
    bn_d A' = bn_d A \<and> bn_dmax A' = bn_dmax A \<and> bn_flags A' = bn_flags A"
proof -
  obtain k where k: "correct_top_loop (bn_d A) (bn_top A) = Some k" "k \<le> bn_top A" "0 < k \<longrightarrow> bn_d A ! (k - 1) \<noteq> 0"
      "limbs_val (take k (bn_d A)) = limbs_val (take (bn_top A) (bn_d A))"
    using correct_top_loop_val[of "bn_top A" "bn_d A"] assms by (auto simp: bn_stored_def)
  let ?B = "A\<lparr>bn_top := k\<rparr>"
  let ?A = "if k = 0 then ?B\<lparr>bn_neg := False\<rparr> else ?B"
  have eq: "bn_correct_top A = Some ?A" using k(1) by (cases "bn_top A = 0") (auto simp: bn_correct_top_def Let_def)
  have wf: "bn_wf ?A" using k(2,3) assms by (auto simp: bn_wf_def bn_stored_def)
  have abs: "bn_abs ?A = bn_abs A" unfolding bn_abs_def bn_limbs_def using k(4) by (cases "k = 0") simp_all
  have "k = 0 \<longleftrightarrow> bn_abs A = 0" using bn_top_zero_iff[OF wf] unfolding abs by (cases "k = 0") simp_all
  then have "bn_neg ?A = (bn_neg A \<and> bn_abs A \<noteq> 0)" by auto
  then show ?thesis using eq wf abs by auto
qed

section \<open>The tails of addition and subtraction\<close>

lemma store_limbs_same: "limbs_in m p n \<Longrightarrow> store_limbs m p (limbs_at m p n) = m"
  by (simp add: store_limbs_def limbs_at_def limbs_in_def overwrite_def drop_drop add.commute[of n] flip: take_add)
    (metis append_take_drop_id fun_upd_triv take_add append_assoc add.commute)

lemma store_limbs_first:
  "limbs_in m (r, i) (Suc (length zs)) \<Longrightarrow> store_limbs (store_limbs m (r, i) [z]) (r, i + 1) zs = store_limbs m (r, i) (z # zs)"
  by (simp add: store_limbs_def limbs_in_def overwrite_def add.commute[of "length zs"])

lemma wr_store: "limbs_in m (r, i) (Suc n) \<Longrightarrow> wr m (r, 0) i v = Some (store_limbs m (r, i) [v])"
  by (simp add: wr_def limbs_in_def store_limbs_def overwrite_def upd_conv_take_nth_drop)

lemma rd_first: "limbs_in m (a, i) (Suc n) \<Longrightarrow> rd m (a, 0) i = Some (m a ! i)"
  by (simp add: rd_def limbs_in_def)

lemma limbs_at_first: "limbs_in m (a, i) (Suc n) \<Longrightarrow> limbs_at m (a, i) (Suc n) = m a ! i # limbs_at m (a, i + 1) n"
  using limbs_at_Suc[of m "(a, i)" n] by (simp add: shift_ptr_def)

lemma after_first:
  assumes "limbs_in m (r, i) (Suc n)" "limbs_in m (a, i) (Suc n)"
  shows "limbs_in (store_limbs m (r, i) [v]) (r, i + 1) n" "limbs_in (store_limbs m (r, i) [v]) (a, i + 1) n"
    "limbs_at (store_limbs m (r, i) [v]) (a, i + 1) n = limbs_at m (a, i + 1) n"
proof -
  have 1: "limbs_in m (r, i) (length [v])" and 2: "limbs_in m (a, i + 1) n" using assms by (simp_all add: limbs_in_def)
  show "limbs_in (store_limbs m (r, i) [v]) (r, i + 1) n" using assms(1) by (simp add: limbs_in_def store_limbs_def)
  show "limbs_in (store_limbs m (r, i) [v]) (a, i + 1) n" "limbs_at (store_limbs m (r, i) [v]) (a, i + 1) n = limbs_at m (a, i + 1) n"
    using limbs_at_store[OF 1 2] by simp_all
qed

lemma copy_words_store:
  "limbs_in m (r, i) n \<Longrightarrow> limbs_in m (a, i) n \<Longrightarrow> copy_words r a i n m = Some (store_limbs m (r, i) (limbs_at m (a, i) n))"
proof (induction n arbitrary: i m)
  case 0
  then show ?case by (simp add: limbs_at_def)
next
  case (Suc n)
  note a = after_first[OF Suc.prems, of "m a ! i"]
  show ?case
    using Suc.IH[OF a(1,2)] a(3) store_limbs_first[of m r i "limbs_at m (a, i + 1) n"] Suc.prems length_limbs_at[of m "(a, i + 1)" n]
    by (simp add: rd_first[OF Suc.prems(2)] wr_store[OF Suc.prems(1)] limbs_at_first[OF Suc.prems(2)] limbs_in_def)
qed

text \<open>The copy that is left out when the result is the operand changes nothing then.\<close>

lemma copy_rest:
  assumes "limbs_in m (r, i) n" "limbs_in m (a, i) n"
  shows "(if n \<noteq> 0 \<and> r \<noteq> a then copy_words r a i n m else Some m) = Some (store_limbs m (r, i) (limbs_at m (a, i) n))"
  using copy_words_store[OF assms] store_limbs_same[OF assms(1)] by (auto simp: limbs_at_def)

lemma limbs_val_incr: "unat (x + 1 :: u64) + LIMB * of_bool (x + 1 = 0) = unat x + 1"
proof (cases "x + 1 = 0")
  case True
  then have "x = - 1" by (simp add: eq_neg_iff_add_eq_0)
  then show ?thesis by (simp add: unsigned_minus_1_eq_mask mask_eq_exp_minus_1)
next
  case False
  then show ?thesis using unatSuc[of x] by (simp add: add.commute)
qed

lemma limbs_val_decr: "unat (x - 1 :: u64) + 1 = unat x + LIMB * of_bool (x = 0)"
  using limbs_val_incr[of "x - 1"] by (simp add: ac_simps)

lemma uadd_tail:
  "limbs_in m (r, i) n \<Longrightarrow> limbs_in m (a, i) n \<Longrightarrow>
   \<exists>grow i' n' m' zs. uadd_carry r a i n m = Some (grow, i', n', m') \<and>
     (if n' \<noteq> 0 \<and> r \<noteq> a then copy_words r a i' n' m' else Some m') = Some (store_limbs m (r, i) zs) \<and>
     length zs = n \<and> limbs_val zs + LIMB ^ n * of_bool grow = limbs_val (limbs_at m (a, i) n) + 1 \<and>
     (grow \<longrightarrow> i' = i + n \<and> n' = 0)"
proof (induction n arbitrary: i m)
  case 0
  show ?case by (intro exI[of _ True] exI[of _ i] exI[of _ 0] exI[of _ m] exI[of _ "[]"]) (simp add: limbs_at_def)
next
  case (Suc n)
  let ?x = "m a ! i" and ?m = "store_limbs m (r, i) [m a ! i + 1]"
  note a = after_first[OF Suc.prems, of "?x + 1"]
  have put: "store_limbs ?m (r, i + 1) zs = store_limbs m (r, i) ((?x + 1) # zs)" if "length zs = n" for zs
    using store_limbs_first[of m r i zs] that Suc.prems(1) by simp
  have A: "limbs_at m (a, i) (Suc n) = ?x # limbs_at m (a, i + 1) n" using Suc.prems(2) by (rule limbs_at_first)
  have len: "length (limbs_at m (a, i + 1) n) = n" using Suc.prems(2) by (simp add: length_limbs_at limbs_in_def)
  have run: "uadd_carry r a i (Suc n) m = (if ?x + 1 \<noteq> 0 then Some (False, i + 1, n, ?m) else uadd_carry r a (i + 1) n ?m)"
    using rd_first[OF Suc.prems(2)] wr_store[OF Suc.prems(1)] by (simp add: Let_def)
  show ?case
  proof (cases "?x + 1 = 0")
    case True
    obtain grow i' n' m' zs where IH: "uadd_carry r a (i + 1) n ?m = Some (grow, i', n', m')"
        "(if n' \<noteq> 0 \<and> r \<noteq> a then copy_words r a i' n' m' else Some m') = Some (store_limbs ?m (r, i + 1) zs)"
        "length zs = n" "limbs_val zs + LIMB ^ n * of_bool grow = limbs_val (limbs_at m (a, i + 1) n) + 1"
        "grow \<longrightarrow> i' = i + 1 + n \<and> n' = 0"
      using Suc.IH[OF a(1,2)] unfolding a(3) by blast
    have "LIMB * (limbs_val zs + LIMB ^ n * of_bool grow) = LIMB * (limbs_val (limbs_at m (a, i + 1) n) + 1)" using IH(4) by simp
    then have "limbs_val ((?x + 1) # zs) + LIMB ^ Suc n * of_bool grow = limbs_val (limbs_at m (a, i) (Suc n)) + 1"
      using limbs_val_incr[of ?x] True unfolding A by (simp add: distrib_left)
    then show ?thesis
      using run True IH(1,2,3,5) put[OF IH(3)] by (intro exI[of _ grow] exI[of _ i'] exI[of _ n'] exI[of _ m'] exI[of _ "(?x + 1) # zs"]) simp
  next
    case False
    have "limbs_val ((?x + 1) # limbs_at m (a, i + 1) n) + LIMB ^ Suc n * of_bool False = limbs_val (limbs_at m (a, i) (Suc n)) + 1"
      using limbs_val_incr[of ?x] False unfolding A by simp
    then show ?thesis
      using run False copy_rest[OF a(1,2)] put[OF len] len unfolding a(3)
      by (intro exI[of _ False] exI[of _ "i + 1"] exI[of _ n] exI[of _ ?m] exI[of _ "(?x + 1) # limbs_at m (a, i + 1) n"]) simp
  qed
qed

lemma usub_tail:
  "limbs_in m (r, i) n \<Longrightarrow> limbs_in m (a, i) n \<Longrightarrow> limbs_val (limbs_at m (a, i) n) \<noteq> 0 \<Longrightarrow>
   \<exists>i' n' m' zs. usub_borrow r a i n m = Some (i', n', m') \<and>
     (if n' \<noteq> 0 \<and> r \<noteq> a then copy_words r a i' n' m' else Some m') = Some (store_limbs m (r, i) zs) \<and>
     length zs = n \<and> limbs_val zs + 1 = limbs_val (limbs_at m (a, i) n)"
proof (induction n arbitrary: i m)
  case 0
  then show ?case by (simp add: limbs_at_def)
next
  case (Suc n)
  let ?x = "m a ! i" and ?m = "store_limbs m (r, i) [m a ! i - 1]"
  note a = after_first[OF Suc.prems(1,2), of "?x - 1"]
  have put: "store_limbs ?m (r, i + 1) zs = store_limbs m (r, i) ((?x - 1) # zs)" if "length zs = n" for zs
    using store_limbs_first[of m r i zs] that Suc.prems(1) by simp
  have A: "limbs_at m (a, i) (Suc n) = ?x # limbs_at m (a, i + 1) n" using Suc.prems(2) by (rule limbs_at_first)
  have len: "length (limbs_at m (a, i + 1) n) = n" using Suc.prems(2) by (simp add: length_limbs_at limbs_in_def)
  have run: "usub_borrow r a i (Suc n) m = (if ?x \<noteq> 0 then Some (i + 1, n, ?m) else usub_borrow r a (i + 1) n ?m)"
    using rd_first[OF Suc.prems(2)] wr_store[OF Suc.prems(1)] by (simp add: Let_def)
  show ?case
  proof (cases "?x = 0")
    case True
    have "limbs_val (limbs_at ?m (a, i + 1) n) \<noteq> 0" using Suc.prems(3) True unfolding A a(3) by simp
    from Suc.IH[OF a(1,2) this] obtain i' n' m' zs where IH: "usub_borrow r a (i + 1) n ?m = Some (i', n', m')"
        "(if n' \<noteq> 0 \<and> r \<noteq> a then copy_words r a i' n' m' else Some m') = Some (store_limbs ?m (r, i + 1) zs)"
        "length zs = n" "limbs_val zs + 1 = limbs_val (limbs_at m (a, i + 1) n)"
      unfolding a(3) by blast
    have "LIMB * (limbs_val zs + 1) = LIMB * limbs_val (limbs_at m (a, i + 1) n)" using IH(4) by simp
    then have "limbs_val ((?x - 1) # zs) + 1 = limbs_val (limbs_at m (a, i) (Suc n))"
      using limbs_val_decr[of ?x] True unfolding A by (simp add: distrib_left)
    then show ?thesis
      using run True IH(1,2,3) put[OF IH(3)] by (intro exI[of _ i'] exI[of _ n'] exI[of _ m'] exI[of _ "(?x - 1) # zs"]) simp
  next
    case False
    have "limbs_val ((?x - 1) # limbs_at m (a, i + 1) n) + 1 = limbs_val (limbs_at m (a, i) (Suc n))"
      using limbs_val_decr[of ?x] False unfolding A by simp
    then show ?thesis
      using run False copy_rest[OF a(1,2)] put[OF len] len unfolding a(3)
      by (intro exI[of _ "i + 1"] exI[of _ n] exI[of _ ?m] exI[of _ "(?x - 1) # limbs_at m (a, i + 1) n"]) simp
  qed
qed

section \<open>Addition and subtraction of magnitudes\<close>

lemma bn_mem_upd [simp]: "bn_mem (st(r := A)) = (bn_mem st)(r := bn_d A)"
  by (auto simp: bn_mem_def)

lemma bn_put_store: "bn_put st (store_limbs (bn_mem st) (r, 0) zs) = st(r := (st r)\<lparr>bn_d := overwrite (bn_d (st r)) 0 zs\<rparr>)"
  by (rule ext) (simp add: bn_put_def store_limbs_def bn_mem_def)

lemma bn_put_same [simp]: "bn_put st (bn_mem st) = st"
  by (rule ext) (simp add: bn_put_def bn_mem_def)

lemma limbs_of_bn: "bn_stored (st a) \<Longrightarrow> n = bn_top (st a) \<Longrightarrow> limbs_at (bn_mem st) (a, 0) n = bn_limbs (st a)"
  by (simp add: limbs_at_def bn_limbs_def bn_mem_def)

lemma limbs_in_bn: "bn_stored (st a) \<Longrightarrow> n \<le> bn_dmax (st a) \<Longrightarrow> limbs_in (bn_mem st) (a, 0) n"
  by (simp add: limbs_in_def bn_mem_def bn_stored_def)

lemma wexpand_at_keeps:
  assumes "bn_stored (st r)" "wexpand_at E st r n = (ok, st')"
  shows "st' = st(r := st' r)" "bn_stored (st' r)" "bn_limbs (st' i) = bn_limbs (st i)" "bn_top (st' i) = bn_top (st i)"
    "bn_neg (st' i) = bn_neg (st i)" "ok \<Longrightarrow> n \<le> bn_dmax (st' r)" "\<not> ok \<Longrightarrow> st' = st" "bn_stored (st i) \<Longrightarrow> bn_stored (st' i)"
proof -
  obtain bn where bn: "bn_wexpand E (st r) n = (ok, bn)" "st' = st(r := bn)"
    using assms(2) by (auto simp: wexpand_at_def split: prod.splits)
  note k = bn_wexpand_keeps[OF assms(1) bn(1)]
  show "st' = st(r := st' r)" "bn_stored (st' r)" "ok \<Longrightarrow> n \<le> bn_dmax (st' r)" "\<not> ok \<Longrightarrow> st' = st"
    using bn(2) k by auto
  show "bn_limbs (st' i) = bn_limbs (st i)" "bn_top (st' i) = bn_top (st i)" "bn_neg (st' i) = bn_neg (st i)"
    "bn_stored (st i) \<Longrightarrow> bn_stored (st' i)"
    using bn(2) k by (cases "i = r", simp_all)+
qed

lemma limbs_at_split: "limbs_at m (a, i) (j + n) = limbs_at m (a, i) j @ limbs_at m (a, i + j) n"
  by (simp add: limbs_at_def take_add add.commute)

lemma store_limbs_append:
  "limbs_in m (r, i) (length xs + length ys) \<Longrightarrow> store_limbs (store_limbs m (r, i) xs) (r, i + length xs) ys = store_limbs m (r, i) (xs @ ys)"
  by (simp add: store_limbs_def limbs_in_def overwrite_def add.commute[of _ "length xs"] add.left_commute[of _ "length xs"])
    (simp add: add.commute)

lemma top_word_nonzero:
  assumes "k < length xs" "LIMB ^ k \<le> limbs_val (take (Suc k) xs)"
  shows "xs ! k \<noteq> 0"
proof
  assume "xs ! k = 0"
  then have "limbs_val (take (Suc k) xs) = limbs_val (take k xs)" using limbs_val_take_Suc[OF assms(1)] by simp
  also have "\<dots> < LIMB ^ k" using limbs_val_less[of "take k xs"] assms(1) by simp
  finally show False using assms(2) by simp
qed

text \<open>The structure left in \<open>r\<close> when its words are replaced.\<close>

lemma bn_of_words:
  assumes "bn_stored A" "length zs \<le> bn_dmax A" "0 < length zs \<Longrightarrow> LIMB ^ (length zs - 1) \<le> limbs_val zs"
  shows "bn_wf (A\<lparr>bn_d := overwrite (bn_d A) 0 zs, bn_top := length zs, bn_neg := False\<rparr>)"
    "bn_val (A\<lparr>bn_d := overwrite (bn_d A) 0 zs, bn_top := length zs, bn_neg := False\<rparr>) = int (limbs_val zs)"
proof -
  have "overwrite (bn_d A) 0 zs ! (length zs - 1) \<noteq> 0" if "0 < length zs"
    using top_word_nonzero[of "length zs - 1" zs] assms(3) that by (simp add: overwrite_def nth_append)
  then show "bn_wf (A\<lparr>bn_d := overwrite (bn_d A) 0 zs, bn_top := length zs, bn_neg := False\<rparr>)"
    using assms(1,2) by (simp add: bn_wf_def bn_stored_def)
  show "bn_val (A\<lparr>bn_d := overwrite (bn_d A) 0 zs, bn_top := length zs, bn_neg := False\<rparr>) = int (limbs_val zs)"
    by (simp add: bn_val_def bn_abs_def bn_limbs_def overwrite_def)
qed

lemma uadd_words:
  assumes "limbs_in m (r, 0) (k + n)" "limbs_in m (a, 0) (k + n)" "limbs_in m (b, 0) k"
  shows "\<exists>zs c. bn_add_words m (r, 0) (a, 0) (b, 0) k = Some (c, store_limbs m (r, 0) zs) \<and> length zs = k \<and>
    limbs_val zs + LIMB ^ k * unat c = limbs_val (limbs_at m (a, 0) k) + limbs_val (limbs_at m (b, 0) k) \<and> unat c \<le> 1 \<and>
    limbs_in (store_limbs m (r, 0) zs) (r, k) n \<and> limbs_in (store_limbs m (r, 0) zs) (a, k) n \<and>
    limbs_at (store_limbs m (r, 0) zs) (a, k) n = limbs_at m (a, k) n"
proof -
  have 1: "limbs_in m (r, 0) k" "limbs_in m (a, 0) k" "limbs_in m (a, k) n" using assms by (simp_all add: limbs_in_def)
  have "same_or_apart (r, 0) (a, 0) k" "same_or_apart (r, 0) (b, 0) k" by (simp_all add: same_or_apart_def)
  then obtain zs c where zs: "bn_add_words m (r, 0) (a, 0) (b, 0) k = Some (c, store_limbs m (r, 0) zs)" "length zs = k" "unat c \<le> 1"
      "limbs_val zs + LIMB ^ k * unat c = limbs_val (limbs_at m (a, 0) k) + limbs_val (limbs_at m (b, 0) k)"
    using bn_add_words_spec[OF 1(1,2) assms(3)] by blast
  have "limbs_in m (r, 0) (length zs)" using zs(2) 1(1) by simp
  from limbs_at_store[OF this 1(3)] zs show ?thesis using assms(1)
    by (intro exI[of _ zs] exI[of _ c]) (simp add: limbs_in_def store_limbs_def)
qed

lemma nonzero_word: "c \<noteq> 0 \<Longrightarrow> unat c \<le> 1 \<Longrightarrow> unat (c :: u64) = 1"
  using unat_gt_0[of c] by linarith

text \<open>The words of the result, however far the carry runs.\<close>

lemma BN_uadd_words:
  assumes in_r: "limbs_in m (r, 0) (k + n + 1)" and in_a: "limbs_in m (a, 0) (k + n)" and in_b: "limbs_in m (b, 0) k"
  shows "\<exists>c m0 grow i' n' m1 zs. bn_add_words m (r, 0) (a, 0) (b, 0) k = Some (c, m0) \<and>
    (if c \<noteq> 0
     then do {
       (carry, i, dif, m) \<leftarrow> uadd_carry r a k n m0;
       m \<leftarrow> (if carry then wr m (r, 0) i 1 else Some m);
       Some (carry, i, dif, m) }
     else Some (False, k, n, m0)) = Some (grow, i', n', m1) \<and>
    (if n' \<noteq> 0 \<and> r \<noteq> a then copy_words r a i' n' m1 else Some m1) = Some (store_limbs m (r, 0) zs) \<and>
    length zs = k + n + (if grow then 1 else 0) \<and> (grow \<longrightarrow> last zs = 1) \<and>
    limbs_val zs = limbs_val (limbs_at m (a, 0) (k + n)) + limbs_val (limbs_at m (b, 0) k)"
proof -
  have "limbs_in m (r, 0) (k + n)" using in_r by (simp add: limbs_in_def)
  from uadd_words[OF this in_a in_b] obtain zs c where zs: "bn_add_words m (r, 0) (a, 0) (b, 0) k = Some (c, store_limbs m (r, 0) zs)" "length zs = k"
      "limbs_val zs + LIMB ^ k * unat c = limbs_val (limbs_at m (a, 0) k) + limbs_val (limbs_at m (b, 0) k)" "unat c \<le> 1"
      "limbs_in (store_limbs m (r, 0) zs) (r, k) n" "limbs_in (store_limbs m (r, 0) zs) (a, k) n"
      "limbs_at (store_limbs m (r, 0) zs) (a, k) n = limbs_at m (a, k) n"
    by blast
  let ?m = "store_limbs m (r, 0) zs" and ?A = "limbs_at m (a, k) n"
  have A: "limbs_val (limbs_at m (a, 0) (k + n)) = limbs_val (limbs_at m (a, 0) k) + LIMB ^ k * limbs_val ?A"
    using limbs_at_split[of m a 0 k n] in_a by (simp add: limbs_val_append length_limbs_at limbs_in_def)
  have put: "store_limbs ?m (r, k) ys = store_limbs m (r, 0) (zs @ ys)" if "length ys \<le> n + 1" for ys
    using store_limbs_append[of m r 0 zs ys] zs(2) in_r that by (simp add: limbs_in_def)
  show ?thesis
  proof (cases "c = 0")
    case True
    have "length ?A = n" using in_a by (simp add: length_limbs_at limbs_in_def)
    moreover have "limbs_val (zs @ ?A) = limbs_val (limbs_at m (a, 0) (k + n)) + limbs_val (limbs_at m (b, 0) k)"
      using zs(2,3) True unfolding A by (simp add: limbs_val_append)
    moreover have "(if n \<noteq> 0 \<and> r \<noteq> a then copy_words r a k n ?m else Some ?m) = Some (store_limbs m (r, 0) (zs @ ?A))"
      using copy_rest[OF zs(5,6)] put[of ?A] \<open>length ?A = n\<close> unfolding zs(7) by simp
    ultimately show ?thesis using zs(1,2) True
      by (intro exI[of _ c] exI[of _ ?m] exI[of _ False] exI[of _ k] exI[of _ n] exI[of _ ?m] exI[of _ "zs @ ?A"]) simp
  next
    case False
    then have c1: "unat c = 1" using zs(4) by (rule nonzero_word)
    obtain grow i' n' m' ys where t: "uadd_carry r a k n ?m = Some (grow, i', n', m')"
        "(if n' \<noteq> 0 \<and> r \<noteq> a then copy_words r a i' n' m' else Some m') = Some (store_limbs ?m (r, k) ys)"
        "length ys = n" "limbs_val ys + LIMB ^ n * of_bool grow = limbs_val ?A + 1" "grow \<longrightarrow> i' = k + n \<and> n' = 0"
      using uadd_tail[OF zs(5,6)] unfolding zs(7) by blast
    have "LIMB ^ k * (limbs_val ys + LIMB ^ n * of_bool grow) = LIMB ^ k * (limbs_val ?A + 1)" using t(4) by simp
    then have v: "limbs_val (zs @ ys) + LIMB ^ (k + n) * of_bool grow = limbs_val (limbs_at m (a, 0) (k + n)) + limbs_val (limbs_at m (b, 0) k)"
      using zs(2,3) c1 unfolding A by (simp add: limbs_val_append distrib_left power_add mult.assoc)
    have p: "store_limbs ?m (r, k) ys = store_limbs m (r, 0) (zs @ ys)" using put[of ys] t(3) by simp
    show ?thesis
    proof (cases grow)
      case True
      then have m': "m' = store_limbs m (r, 0) (zs @ ys)" using t(2,5) p by simp
      have "wr m' (r, 0) (k + n) 1 = Some (store_limbs m (r, 0) (zs @ ys @ [1]))"
        using wr_store[of m' r "k + n" 0 1] in_r t(3) zs(2) store_limbs_append[of m r 0 "zs @ ys" "[1]"]
        by (simp add: m' limbs_in_def store_limbs_def)
      then show ?thesis using zs(1,2) t(1,3,5) v False True
        by (intro exI[of _ c] exI[of _ ?m] exI[of _ True] exI[of _ "k + n"] exI[of _ 0] exI[of _ "store_limbs m (r, 0) (zs @ ys @ [1])"]
            exI[of _ "zs @ ys @ [1]"]) (simp add: limbs_val_append power_add distrib_left)
    next
      case F: False
      then show ?thesis using zs(1,2) t(1,2,3) v False p
        by (intro exI[of _ c] exI[of _ ?m] exI[of _ False] exI[of _ i'] exI[of _ n'] exI[of _ m'] exI[of _ "zs @ ys"]) simp
    qed
  qed
qed

text \<open>An operation with result \<open>r\<close> that may fail for want of memory: what it does to the store.\<close>

definition bn_result :: "bool \<Rightarrow> bns \<Rightarrow> nat \<Rightarrow> int \<Rightarrow> (bool \<times> bns) option \<Rightarrow> bool" where
  "bn_result granted st r v res \<longleftrightarrow>
     (\<exists>ok st'. res = Some (ok, st') \<and> st' = st(r := st' r) \<and> bn_stored (st' r) \<and>
       (ok \<longrightarrow> bn_wf (st' r) \<and> bn_val (st' r) = v) \<and> (granted \<longrightarrow> ok))"

text \<open>Room for up to \<open>n\<close> words is there or can be had, so that such an operation has no reason to fail.\<close>

definition bn_granted :: "bn_env \<Rightarrow> BIGNUM \<Rightarrow> nat \<Rightarrow> bool" where
  "bn_granted E A n \<longleftrightarrow> list_all (\<lambda>k. fst (bn_wexpand E A k)) [0..<n + 1]"

lemma bn_granted_wexpand: "bn_granted E (st r) n \<Longrightarrow> k \<le> n \<Longrightarrow> wexpand_at E st r k = (ok, st') \<Longrightarrow> ok"
  by (auto simp: bn_granted_def list_all_iff wexpand_at_def simp del: upt_Suc split: prod.splits dest!: bspec[of _ _ k])

lemma bn_granted_room: "n \<le> bn_dmax A \<Longrightarrow> bn_granted E A n"
  by (auto simp: bn_granted_def list_all_iff bn_wexpand_def)

lemma bn_resultI:
  "res = Some (ok, st(r := A)) \<Longrightarrow> bn_stored A \<Longrightarrow> (ok \<Longrightarrow> bn_wf A \<and> bn_val A = v) \<Longrightarrow> (g \<Longrightarrow> ok) \<Longrightarrow> bn_result g st r v res"
  by (auto simp: bn_result_def)

lemma limbs_val_top_le: "zs \<noteq> [] \<Longrightarrow> last zs = 1 \<Longrightarrow> LIMB ^ (length zs - 1) \<le> limbs_val zs"
  by (cases zs rule: rev_cases) (simp_all add: limbs_val_append)

lemma BN_uadd_ordered:
  assumes "bn_stored (st r)" "bn_wf (st a)" "bn_wf (st b)" "\<not> bn_top (st a) < bn_top (st b)" "bn_top (st a) < n"
  shows "bn_result (bn_granted E (st r) n) st r (int (bn_abs (st a) + bn_abs (st b))) (BN_uadd E st r a b)"
proof -
  let ?k = "bn_top (st b)" and ?n = "bn_top (st a) - bn_top (st b)"
  obtain ok st1 where w: "wexpand_at E st r (bn_top (st a) + 1) = (ok, st1)" by fastforce
  note k = wexpand_at_keeps[OF assms(1) w]
  have max: "bn_top (st a) = ?k + ?n" using assms(4) by simp
  show ?thesis
  proof (cases ok)
    case False
    then show ?thesis using w k(7) assms(1,4) bn_granted_wexpand[OF _ _ w, of n] assms(5)
      by (intro bn_resultI[of _ False _ _ "st r"]) (simp_all add: BN_uadd_def)
  next
    case True
    let ?st2 = "st1(r := (st1 r)\<lparr>bn_top := bn_top (st a)\<rparr>)"
    let ?m = "bn_mem st1"
    have m: "bn_mem ?st2 = ?m" by (rule ext) (simp add: bn_mem_def)
    have ab: "bn_stored (st1 a)" "bn_stored (st1 b)" using k(8) assms(2,3) by simp_all
    have in_r: "limbs_in ?m (r, 0) (?k + ?n + 1)" using limbs_in_bn[of st1 r] k(2,6) True max by simp
    have in_a: "limbs_in ?m (a, 0) (?k + ?n)" and in_b: "limbs_in ?m (b, 0) ?k"
      using limbs_in_bn[of st1 a] limbs_in_bn[of st1 b] ab k(4) max by (simp_all add: bn_stored_def)
    have vals: "limbs_at ?m (a, 0) (?k + ?n) = bn_limbs (st a)" "limbs_at ?m (b, 0) ?k = bn_limbs (st b)"
      using limbs_of_bn[of st1 a] limbs_of_bn[of st1 b] ab k(3,4) max by simp_all
    obtain c m0 grow i' n' m1 zs where run: "bn_add_words ?m (r, 0) (a, 0) (b, 0) ?k = Some (c, m0)"
        "(if c \<noteq> 0
          then do {
            (carry, i, dif, m) \<leftarrow> uadd_carry r a ?k ?n m0;
            m \<leftarrow> (if carry then wr m (r, 0) i 1 else Some m);
            Some (carry, i, dif, m) }
          else Some (False, ?k, ?n, m0)) = Some (grow, i', n', m1)"
        "(if n' \<noteq> 0 \<and> r \<noteq> a then copy_words r a i' n' m1 else Some m1) = Some (store_limbs ?m (r, 0) zs)"
        "length zs = ?k + ?n + (if grow then 1 else 0)" "grow \<longrightarrow> last zs = 1"
        "limbs_val zs = limbs_val (bn_limbs (st a)) + limbs_val (bn_limbs (st b))"
      using BN_uadd_words[OF in_r in_a in_b] unfolding vals by blast
    let ?A = "(st1 r)\<lparr>bn_d := overwrite (bn_d (st1 r)) 0 zs, bn_top := length zs, bn_neg := False\<rparr>"
    have put: "bn_put ?st2 (store_limbs ?m (r, 0) zs) =
        ?st2(r := (?st2 r)\<lparr>bn_d := overwrite (bn_d (?st2 r)) 0 zs\<rparr>)"
      using bn_put_store[of ?st2 r zs] unfolding m .
    have "BN_uadd E st r a b = Some (True, st1(r := ?A))"
      using assms(4) w True run(4) max
      by (simp add: BN_uadd_def Let_def m run(1) run(2) run(3)[unfolded neq0_conv] put del: bn_mem_upd)
    then have eq: "BN_uadd E st r a b = Some (True, st(r := ?A))" by (subst (asm) k(1)) simp
    have top: "LIMB ^ (length zs - 1) \<le> limbs_val zs" if "0 < length zs"
    proof (cases grow)
      case True
      then show ?thesis using limbs_val_top_le[of zs] run(5) that by simp
    next
      case False
      then have "length zs = bn_top (st a)" using run(4) max by simp
      then have "LIMB ^ (length zs - 1) \<le> bn_abs (st a)" using bn_abs_ge[OF assms(2)] that by simp
      then show ?thesis unfolding run(6) bn_abs_def by simp
    qed
    have "length zs \<le> bn_dmax (st1 r)" using k(6) True run(4) max by simp
    from bn_of_words[OF k(2) this top] show ?thesis
      unfolding eq using run(6) by (intro bn_resultI[of _ True _ _ ?A]) (simp_all add: bn_abs_def)
  qed
qed

lemma BN_uadd_swap: "bn_top (st a) < bn_top (st b) \<Longrightarrow> BN_uadd E st r a b = BN_uadd E st r b a"
  unfolding BN_uadd_def by simp

lemma BN_uadd_val:
  assumes "bn_stored (st r)" "bn_wf (st a)" "bn_wf (st b)" "bn_top (st a) < n" "bn_top (st b) < n"
  shows "bn_result (bn_granted E (st r) n) st r (int (bn_abs (st a) + bn_abs (st b))) (BN_uadd E st r a b)"
proof (cases "bn_top (st a) < bn_top (st b)")
  case True
  then show ?thesis using BN_uadd_ordered[OF assms(1,3,2) _ assms(5)] True unfolding BN_uadd_swap[OF True] by (simp add: add.commute)
next
  case False
  then show ?thesis by (rule BN_uadd_ordered[OF assms(1-3) _ assms(4)])
qed

lemma usub_step_pointwise: "usub_step r a b = pointwise sub_g (r, 0) (a, 0) (b, 0)"
proof -
  have "(if c then (x \<le> y, x - (y + 1)) else (x < y, x - y)) = (snd (sub_g c x y), fst (sub_g c x y))" for c and x y :: u64
    by (cases c) (auto simp: sub_g_def)
  then show ?thesis by (intro ext) (simp add: usub_step_def pointwise_def split: prod.splits)
qed

lemma usub_words:
  assumes "limbs_in m (r, 0) (k + n)" "limbs_in m (a, 0) (k + n)" "limbs_in m (b, 0) k"
  shows "\<exists>zs c. words_by_1 (usub_step r a b) 0 k (False, m) = Some (c, store_limbs m (r, 0) zs) \<and> length zs = k \<and>
    limbs_val zs + limbs_val (limbs_at m (b, 0) k) = limbs_val (limbs_at m (a, 0) k) + LIMB ^ k * of_bool c \<and>
    limbs_in (store_limbs m (r, 0) zs) (r, k) n \<and> limbs_in (store_limbs m (r, 0) zs) (a, k) n \<and>
    limbs_at (store_limbs m (r, 0) zs) (a, k) n = limbs_at m (a, k) n"
proof -
  have 1: "limbs_in m (r, 0) k" "limbs_in m (a, 0) k" "limbs_in m (a, k) n" using assms by (simp_all add: limbs_in_def)
  let ?d = "digits sub_g False (limbs_at m (a, 0) k) (limbs_at m (b, 0) k)"
  have l: "length (limbs_at m (a, 0) k) = k" "length (limbs_at m (b, 0) k) = k" using 1 assms(3) by (simp_all add: length_limbs_at)
  have "same_or_apart (r, 0) (a, 0) k" "same_or_apart (r, 0) (b, 0) k" by (simp_all add: same_or_apart_def)
  from pointwise_loop[OF 1(1,2) assms(3) this, of sub_g False]
  have run: "words_by_1 (usub_step r a b) 0 k (False, m) = Some (snd ?d, store_limbs m (r, 0) (fst ?d))"
    by (simp add: usub_step_pointwise split_beta)
  have len: "length (fst ?d) = k" using l by (simp add: length_digits)
  then have "limbs_in m (r, 0) (length (fst ?d))" using 1(1) by simp
  from limbs_at_store[OF this 1(3)] run len digits_sub[of "limbs_at m (a, 0) k" "limbs_at m (b, 0) k" False] show ?thesis
    using assms(1) l by (intro exI[of _ "fst ?d"] exI[of _ "snd ?d"]) (simp add: limbs_in_def store_limbs_def)
qed

lemma BN_usub_words:
  assumes in_r: "limbs_in m (r, 0) (k + n)" and in_a: "limbs_in m (a, 0) (k + n)" and in_b: "limbs_in m (b, 0) k"
    and le: "limbs_val (limbs_at m (b, 0) k) \<le> limbs_val (limbs_at m (a, 0) (k + n))"
  shows "\<exists>c m0 i' n' m1 zs. words_by_1 (usub_step r a b) 0 k (False, m) = Some (c, m0) \<and> \<not> (c \<and> n = 0) \<and>
    (if c then usub_borrow r a k n m0 else Some (k, n, m0)) = Some (i', n', m1) \<and>
    (if n' \<noteq> 0 \<and> r \<noteq> a then copy_words r a i' n' m1 else Some m1) = Some (store_limbs m (r, 0) zs) \<and>
    length zs = k + n \<and>
    limbs_val zs + limbs_val (limbs_at m (b, 0) k) = limbs_val (limbs_at m (a, 0) (k + n))"
proof -
  from usub_words[OF in_r in_a in_b] obtain zs c where zs: "words_by_1 (usub_step r a b) 0 k (False, m) = Some (c, store_limbs m (r, 0) zs)"
      "length zs = k" "limbs_val zs + limbs_val (limbs_at m (b, 0) k) = limbs_val (limbs_at m (a, 0) k) + LIMB ^ k * of_bool c"
      "limbs_in (store_limbs m (r, 0) zs) (r, k) n" "limbs_in (store_limbs m (r, 0) zs) (a, k) n"
      "limbs_at (store_limbs m (r, 0) zs) (a, k) n = limbs_at m (a, k) n"
    by blast
  let ?m = "store_limbs m (r, 0) zs" and ?A = "limbs_at m (a, k) n"
  have A: "limbs_val (limbs_at m (a, 0) (k + n)) = limbs_val (limbs_at m (a, 0) k) + LIMB ^ k * limbs_val ?A"
    using limbs_at_split[of m a 0 k n] in_a by (simp add: limbs_val_append length_limbs_at limbs_in_def)
  have len: "length ?A = n" using in_a by (simp add: length_limbs_at limbs_in_def)
  have put: "store_limbs ?m (r, k) ys = store_limbs m (r, 0) (zs @ ys)" if "length ys = n" for ys
    using store_limbs_append[of m r 0 zs ys] zs(2) in_r that by (simp add: limbs_in_def)
  show ?thesis
  proof (cases c)
    case False
    then show ?thesis using zs(1,2,3) copy_rest[OF zs(4,5)] put[OF len] len unfolding zs(6) A
      by (intro exI[of _ c] exI[of _ ?m] exI[of _ k] exI[of _ n] exI[of _ ?m] exI[of _ "zs @ ?A"]) (simp add: limbs_val_append)
  next
    case True
    have "limbs_val zs < LIMB ^ k" using limbs_val_less[of zs] zs(2) by simp
    then have nz: "limbs_val (limbs_at ?m (a, k) n) \<noteq> 0" using zs(3) le True unfolding A zs(6) by (intro notI) simp
    from usub_tail[OF zs(4,5) nz] obtain i' n' m' ys where t: "usub_borrow r a k n ?m = Some (i', n', m')"
        "(if n' \<noteq> 0 \<and> r \<noteq> a then copy_words r a i' n' m' else Some m') = Some (store_limbs ?m (r, k) ys)"
        "length ys = n" "limbs_val ys + 1 = limbs_val ?A"
      unfolding zs(6) by blast
    have "LIMB ^ k * (limbs_val ys + 1) = LIMB ^ k * limbs_val ?A" using t(4) by simp
    then have "limbs_val (zs @ ys) + limbs_val (limbs_at m (b, 0) k) = limbs_val (limbs_at m (a, 0) (k + n))"
      using zs(2,3) True unfolding A by (simp add: limbs_val_append distrib_left)
    moreover have "n \<noteq> 0" using nz unfolding zs(6) by (cases n) (simp_all add: limbs_at_def)
    ultimately show ?thesis using zs(1,2) t(1,2,3) True put[OF t(3)]
      by (intro exI[of _ c] exI[of _ ?m] exI[of _ i'] exI[of _ n'] exI[of _ m'] exI[of _ "zs @ ys"]) simp
  qed
qed

lemma BN_usub_val:
  assumes "bn_stored (st r)" "bn_wf (st a)" "bn_wf (st b)" "bn_abs (st b) \<le> bn_abs (st a)" "bn_top (st a) \<le> n"
  shows "bn_result (bn_granted E (st r) n) st r (int (bn_abs (st a)) - int (bn_abs (st b))) (BN_usub E st r a b)"
proof -
  let ?k = "bn_top (st b)" and ?n = "bn_top (st a) - bn_top (st b)"
  have le: "\<not> bn_top (st a) < bn_top (st b)" using bn_top_less[OF assms(2,3)] assms(4) by auto
  then have max: "bn_top (st a) = ?k + ?n" by simp
  obtain ok st1 where w: "wexpand_at E st r (bn_top (st a)) = (ok, st1)" by fastforce
  note k = wexpand_at_keeps[OF assms(1) w]
  show ?thesis
  proof (cases ok)
    case False
    then show ?thesis using w k(7) assms(1) le bn_granted_wexpand[OF _ _ w, of n] assms(5)
      by (intro bn_resultI[of _ False _ _ "st r"]) (simp_all add: BN_usub_def)
  next
    case True
    let ?m = "bn_mem st1"
    have ab: "bn_stored (st1 a)" "bn_stored (st1 b)" using k(8) assms(2,3) by simp_all
    have in_r: "limbs_in ?m (r, 0) (?k + ?n)" using limbs_in_bn[of st1 r] k(2,6) True max by simp
    have in_a: "limbs_in ?m (a, 0) (?k + ?n)" and in_b: "limbs_in ?m (b, 0) ?k"
      using limbs_in_bn[of st1 a] limbs_in_bn[of st1 b] ab k(4) max by (simp_all add: bn_stored_def)
    have vals: "limbs_at ?m (a, 0) (?k + ?n) = bn_limbs (st a)" "limbs_at ?m (b, 0) ?k = bn_limbs (st b)"
      using limbs_of_bn[of st1 a] limbs_of_bn[of st1 b] ab k(3,4) max by simp_all
    have "limbs_val (limbs_at ?m (b, 0) ?k) \<le> limbs_val (limbs_at ?m (a, 0) (?k + ?n))"
      using assms(4) unfolding vals bn_abs_def .
    from BN_usub_words[OF in_r in_a in_b this] obtain c m0 i' n' m1 zs where
        run: "words_by_1 (usub_step r a b) 0 ?k (False, ?m) = Some (c, m0)" "\<not> (c \<and> ?n = 0)"
        "(if c then usub_borrow r a ?k ?n m0 else Some (?k, ?n, m0)) = Some (i', n', m1)"
        "(if n' \<noteq> 0 \<and> r \<noteq> a then copy_words r a i' n' m1 else Some m1) = Some (store_limbs ?m (r, 0) zs)"
        "length zs = ?k + ?n" "limbs_val zs + limbs_val (bn_limbs (st b)) = limbs_val (bn_limbs (st a))"
      unfolding vals by blast
    let ?B = "(st1 r)\<lparr>bn_d := overwrite (bn_d (st1 r)) 0 zs, bn_top := bn_top (st a), bn_neg := False\<rparr>"
    have "length zs \<le> bn_dmax (st1 r)" using k(6) True run(5) max by simp
    then have B: "bn_stored ?B" using k(2) run(5) max by (simp add: bn_stored_def)
    have absB: "bn_abs ?B = limbs_val zs" using run(5) max by (simp add: bn_abs_def bn_limbs_def overwrite_def)
    obtain B where cor: "bn_correct_top ?B = Some B" "bn_wf B" "bn_abs B = limbs_val zs" "\<not> bn_neg B"
      using bn_correct_top_val[OF B] absB by auto
    have c: "(c \<and> bn_top (st a) = bn_top (st b)) = False" using run(2) max by auto
    have "BN_usub E st r a b = Some (True, st1(r := B))"
      using le w True run(2) cor(1)
      by (simp add: BN_usub_def Let_def run(1) run(3) run(4)[unfolded neq0_conv] bn_put_store del: bn_mem_upd)
    then have eq: "BN_usub E st r a b = Some (True, st(r := B))" by (subst (asm) k(1)) simp
    have "bn_val B = int (bn_abs (st a)) - int (bn_abs (st b))"
      using cor(3,4) run(6) by (simp add: bn_val_def bn_abs_def)
    then show ?thesis unfolding eq using cor(2) by (intro bn_resultI[of _ True _ _ B]) simp_all
  qed
qed

section \<open>Addition and subtraction of integers\<close>

lemma signed_usub_val:
  assumes "bn_stored (st r)" "bn_wf (st a)" "bn_wf (st b)" "bn_top (st a) \<le> n" "bn_top (st b) \<le> n"
  shows "bn_result (bn_granted E (st r) n) st r (int (bn_abs (st a)) - int (bn_abs (st b))) (signed_usub E st r a b)"
proof -
  obtain c where c: "BN_ucmp (st a) (st b) = Some c" "sgn c = sgn (int (bn_abs (st a)) - int (bn_abs (st b)))"
    using BN_ucmp_sgn[OF assms(2,3)] by blast
  show ?thesis
  proof (cases "c < 0")
    case True
    then have less: "bn_abs (st a) < bn_abs (st b)" using c(2) by (auto simp: sgn_if split: if_splits)
    then obtain ok st' where u: "BN_usub E st r b a = Some (ok, st')" "st' = st(r := st' r)" "bn_stored (st' r)"
        "ok \<longrightarrow> bn_wf (st' r) \<and> bn_val (st' r) = int (bn_abs (st b)) - int (bn_abs (st a))" "bn_granted E (st r) n \<longrightarrow> ok"
      using BN_usub_val[OF assms(1,3,2) _ assms(5), of E] by (auto simp: bn_result_def)
    show ?thesis
    proof (cases ok)
      case False
      then show ?thesis using u c(1) True by (intro bn_resultI[of _ False _ _ "st' r"]) (simp_all add: signed_usub_def flip: u(2))
    next
      case ok: True
      let ?A = "(st' r)\<lparr>bn_neg := True\<rparr>"
      have "\<not> bn_neg (st' r)" "bn_abs (st' r) = bn_abs (st b) - bn_abs (st a)"
        using u(4) ok less by (auto simp: bn_val_def split: if_splits)
      moreover have "0 < bn_top (st' r)" using bn_top_zero_iff[of "st' r"] u(4) ok less calculation(2) by auto
      ultimately have "bn_wf ?A" "bn_val ?A = int (bn_abs (st a)) - int (bn_abs (st b))"
        using u(4) ok less by (auto simp: bn_wf_def bn_stored_def bn_val_def bn_abs_def bn_limbs_def)
      moreover have "signed_usub E st r a b = Some (True, st(r := ?A))"
        using u(1) c(1) True ok by (simp add: signed_usub_def) (metis u(2) fun_upd_upd)
      ultimately show ?thesis by (intro bn_resultI[of _ True _ _ ?A]) simp_all
    qed
  next
    case False
    then have le: "bn_abs (st b) \<le> bn_abs (st a)" using c(2) by (auto simp: sgn_if split: if_splits)
    then obtain ok st' where u: "BN_usub E st r a b = Some (ok, st')" "st' = st(r := st' r)" "bn_stored (st' r)"
        "ok \<longrightarrow> bn_wf (st' r) \<and> bn_val (st' r) = int (bn_abs (st a)) - int (bn_abs (st b))" "bn_granted E (st r) n \<longrightarrow> ok"
      using BN_usub_val[OF assms(1-3) _ assms(4), of E] by (auto simp: bn_result_def)
    show ?thesis
    proof (cases ok)
      case F: False
      then show ?thesis using u c(1) False by (intro bn_resultI[of _ False _ _ "st' r"]) (simp_all add: signed_usub_def flip: u(2))
    next
      case ok: True
      have "\<not> bn_neg (st' r)"
      proof
        assume n: "bn_neg (st' r)"
        then have "0 < bn_abs (st' r)" using u(4) ok bn_top_zero_iff[of "st' r"] by (auto simp: bn_wf_def)
        then show False using u(4) ok le n by (simp add: bn_val_def)
      qed
      then have "(st' r)\<lparr>bn_neg := False\<rparr> = st' r" by simp
      then have "signed_usub E st r a b = Some (True, st(r := st' r))"
        using u(1) c(1) False ok by (simp add: signed_usub_def flip: u(2))
      then show ?thesis using u(3,4) ok by (intro bn_resultI[of _ True _ _ "st' r"]) simp_all
    qed
  qed
qed

lemma bn_wf_keeps:
  assumes "bn_wf A" "bn_stored A'" "bn_limbs A' = bn_limbs A" "bn_top A' = bn_top A" "bn_neg A' = bn_neg A"
  shows "bn_wf A'"
proof -
  have word: "bn_limbs B ! (bn_top B - 1) = bn_d B ! (bn_top B - 1)" if "0 < bn_top B" for B
    using that by (simp add: bn_limbs_def)
  show ?thesis using assms word[of A] word[of A'] by (simp add: bn_wf_def)
qed

lemma bn_result_after: "bn_result g1 st1 r v res \<Longrightarrow> st1 = st(r := st1 r) \<Longrightarrow> (g \<Longrightarrow> g1) \<Longrightarrow> bn_result g st r v res"
  unfolding bn_result_def by (metis fun_upd_upd)

text \<open>The sum of the magnitudes, with a sign.\<close>

lemma signed_uadd_val:
  assumes "bn_stored (st r)" "bn_wf (st a)" "bn_wf (st b)" "bn_top (st a) < n" "bn_top (st b) < n" "s \<Longrightarrow> bn_abs (st a) + bn_abs (st b) \<noteq> 0"
  shows "bn_result (bn_granted E (st r) n) st r (if s then - int (bn_abs (st a) + bn_abs (st b)) else int (bn_abs (st a) + bn_abs (st b)))
      (Option.bind (BN_uadd E st r a b) (\<lambda>(ok, st). Some (ok, if ok \<or> f then st(r := (st r)\<lparr>bn_neg := s\<rparr>) else st)))"
proof -
  obtain ok st' where u: "BN_uadd E st r a b = Some (ok, st')" "st' = st(r := st' r)" "bn_stored (st' r)"
      "ok \<longrightarrow> bn_wf (st' r) \<and> bn_val (st' r) = int (bn_abs (st a) + bn_abs (st b))" "bn_granted E (st r) n \<longrightarrow> ok"
    using BN_uadd_val[OF assms(1-5), of E] by (auto simp: bn_result_def)
  let ?A = "(st' r)\<lparr>bn_neg := s\<rparr>"
  have wf: "bn_wf ?A \<and> bn_val ?A = (if s then - int (bn_abs (st a) + bn_abs (st b)) else int (bn_abs (st a) + bn_abs (st b)))" if ok
  proof -
    have "\<not> bn_neg (st' r)"
    proof
      assume n: "bn_neg (st' r)"
      then have "0 < bn_abs (st' r)" using u(4) that bn_top_zero_iff[of "st' r"] by (auto simp: bn_wf_def)
      then show False using u(4) that n by (simp add: bn_val_def)
    qed
    then have abs: "bn_abs (st' r) = bn_abs (st a) + bn_abs (st b)" using u(4) that by (simp add: bn_val_def)
    then have "s \<longrightarrow> 0 < bn_top (st' r)" using bn_top_zero_iff[of "st' r"] u(4) that assms(6) by auto
    then show ?thesis using u(4) that abs by (auto simp: bn_wf_def bn_stored_def bn_val_def bn_abs_def bn_limbs_def)
  qed
  have upd: "st'(r := ?A) = st(r := ?A)" by (subst u(2)) simp
  show ?thesis
  proof (cases "ok \<or> f")
    case True
    then show ?thesis using u(1,3,5) wf upd by (intro bn_resultI[of _ ok _ _ ?A]) (simp_all add: bn_stored_def)
  next
    case False
    then show ?thesis using u(1,2,3,5) by (intro bn_resultI[of _ ok _ _ "st' r"]) simp_all
  qed
qed

lemma BN_add_val:
  assumes "bn_stored (st r)" "bn_wf (st a)" "bn_wf (st b)" "bn_top (st a) < n" "bn_top (st b) < n"
  shows "bn_result (bn_granted E (st r) n) st r (bn_val (st a) + bn_val (st b)) (BN_add E st r a b)"
proof (cases "bn_neg (st a) = bn_neg (st b)")
  case True
  have nz: "bn_neg (st a) \<Longrightarrow> bn_abs (st a) + bn_abs (st b) \<noteq> 0"
    using assms(2) bn_top_zero_iff[OF assms(2)] by (auto simp: bn_wf_def)
  have v: "bn_val (st a) + bn_val (st b) =
      (if bn_neg (st a) then - int (bn_abs (st a) + bn_abs (st b)) else int (bn_abs (st a) + bn_abs (st b)))"
    using True by (simp add: bn_val_def)
  have eq: "BN_add E st r a b =
      Option.bind (BN_uadd E st r a b) (\<lambda>(ok, st'). Some (ok, if ok \<or> True then st'(r := (st' r)\<lparr>bn_neg := bn_neg (st a)\<rparr>) else st'))"
    using True by (simp add: BN_add_def)
  show ?thesis unfolding v eq by (rule signed_uadd_val[OF assms nz])
next
  case False
  show ?thesis
  proof (cases "bn_neg (st a)")
    case True
    then have "bn_val (st a) + bn_val (st b) = int (bn_abs (st b)) - int (bn_abs (st a))" using False by (simp add: bn_val_def)
    then show ?thesis using signed_usub_val[OF assms(1,3,2), of n E] assms(4,5) True False by (simp add: BN_add_def)
  next
    case pos: False
    then have "bn_val (st a) + bn_val (st b) = int (bn_abs (st a)) - int (bn_abs (st b))" using False by (simp add: bn_val_def)
    then show ?thesis using signed_usub_val[OF assms(1-3), of n E] assms(4,5) pos False by (simp add: BN_add_def)
  qed
qed

lemma expanded_signed_usub_val:
  assumes "bn_stored (st r)" "bn_wf (st a)" "bn_wf (st b)" "bn_top (st a) \<le> j" "bn_top (st b) \<le> j" "j \<le> n"
  shows "bn_result (bn_granted E (st r) n) st r (int (bn_abs (st a)) - int (bn_abs (st b)))
    (let (ok, st) = wexpand_at E st r j in if \<not> ok then Some (False, st) else signed_usub E st r a b)"
proof -
  obtain ok st1 where w: "wexpand_at E st r j = (ok, st1)" by fastforce
  note k = wexpand_at_keeps[OF assms(1) w]
  have wf: "bn_wf (st1 a)" "bn_wf (st1 b)"
    using bn_wf_keeps[OF assms(2), of "st1 a"] bn_wf_keeps[OF assms(3), of "st1 b"] k(3-5,8) assms(2,3) by simp_all
  show ?thesis
  proof (cases ok)
    case False
    then show ?thesis using w k(7) assms(1) bn_granted_wexpand[OF _ assms(6) w] by (intro bn_resultI[of _ False _ _ "st r"]) simp_all
  next
    case True
    have g: "bn_granted E (st1 r) j" using bn_granted_room k(6) True by blast
    have "bn_abs (st1 a) = bn_abs (st a)" "bn_abs (st1 b) = bn_abs (st b)" using k(3) by (simp_all add: bn_abs_def)
    then show ?thesis using bn_result_after[OF signed_usub_val[OF k(2) wf, of j E] k(1)] assms(4,5) k(4) g w True by simp
  qed
qed

lemma BN_sub_val:
  assumes "bn_stored (st r)" "bn_wf (st a)" "bn_wf (st b)" "bn_top (st a) < n" "bn_top (st b) < n"
  shows "bn_result (bn_granted E (st r) n) st r (bn_val (st a) - bn_val (st b)) (BN_sub E st r a b)"
proof (cases "bn_neg (st a) = bn_neg (st b)")
  case True
  show ?thesis
  proof (cases "bn_neg (st a)")
    case neg: True
    then have "bn_val (st a) - bn_val (st b) = int (bn_abs (st b)) - int (bn_abs (st a))" using True by (simp add: bn_val_def)
    then show ?thesis using expanded_signed_usub_val[OF assms(1,3,2), of "if bn_top (st a) > bn_top (st b) then bn_top (st a) else bn_top (st b)" n E] assms(4,5) True neg by (cases "bn_top (st a) > bn_top (st b)") (simp_all add: BN_sub_def)
  next
    case pos: False
    then have "bn_val (st a) - bn_val (st b) = int (bn_abs (st a)) - int (bn_abs (st b))" using True by (simp add: bn_val_def)
    then show ?thesis using expanded_signed_usub_val[OF assms(1-3), of "if bn_top (st a) > bn_top (st b) then bn_top (st a) else bn_top (st b)" n E] assms(4,5) True pos by (cases "bn_top (st a) > bn_top (st b)") (simp_all add: BN_sub_def)
  qed
next
  case False
  have nz: "bn_neg (st a) \<Longrightarrow> bn_abs (st a) + bn_abs (st b) \<noteq> 0"
    using assms(2) bn_top_zero_iff[OF assms(2)] by (auto simp: bn_wf_def)
  have v: "bn_val (st a) - bn_val (st b) =
      (if bn_neg (st a) then - int (bn_abs (st a) + bn_abs (st b)) else int (bn_abs (st a) + bn_abs (st b)))"
    using False by (simp add: bn_val_def)
  have eq: "BN_sub E st r a b =
      Option.bind (BN_uadd E st r a b) (\<lambda>(ok, st'). Some (ok, if ok \<or> False then st'(r := (st' r)\<lparr>bn_neg := bn_neg (st a)\<rparr>) else st'))"
    using False by (cases "bn_neg (st a)") (auto simp: BN_sub_def split: prod.splits intro!: Option.bind_cong)
  show ?thesis unfolding v eq by (rule signed_uadd_val[OF assms nz])
qed

end
