(* ===== verification/Bn_Small.thy ===== *)
theory Bn_Small
  imports Bn_Spec
begin

text \<open>
  The operations of big numbers with one word: each is the operation on integers that its comment in
  \<^verbatim>\<open>openssl/bn.h\<close> states. At the end, all operations together.
\<close>

section \<open>Results of operations on one number\<close>

definition word_result :: "bool \<Rightarrow> int \<Rightarrow> (bool \<times> BIGNUM) option \<Rightarrow> bool" where
  "word_result granted v res \<longleftrightarrow>
     (\<exists>ok A. res = Some (ok, A) \<and> bn_stored A \<and> (ok \<longrightarrow> bn_wf A \<and> bn_val A = v) \<and> (granted \<longrightarrow> ok))"

lemma word_resultI:
  "res = Some (ok, A) \<Longrightarrow> bn_stored A \<Longrightarrow> (ok \<Longrightarrow> bn_wf A \<and> bn_val A = v) \<Longrightarrow> (g \<Longrightarrow> ok) \<Longrightarrow> word_result g v res"
  by (auto simp: word_result_def)

lemma word_result_okI: "res = Some (True, A) \<Longrightarrow> bn_wf A \<Longrightarrow> bn_val A = v \<Longrightarrow> word_result g v res"
  by (auto simp: word_result_def)

lemma granted_wexpand: "bn_granted E A n \<Longrightarrow> k \<le> n \<Longrightarrow> bn_wexpand E A k = (ok, A') \<Longrightarrow> ok"
  by (auto simp: bn_granted_def list_all_iff simp del: upt_Suc dest!: bspec[of _ _ k])

lemma bn_zero_val: "bn_stored A \<Longrightarrow> bn_wf (BN_zero A) \<and> bn_val (BN_zero A) = 0"
  by (simp add: BN_zero_def bn_wf_def bn_stored_def bn_val_def bn_abs_def bn_limbs_def)

lemma BN_set_word_val:
  assumes "bn_stored A"
  shows "word_result (bn_granted E A 1) (int (unat w)) (BN_set_word E A w)"
proof (cases "w = 0")
  case True
  then show ?thesis using bn_zero_val[OF assms] by (intro word_resultI[of _ True "BN_zero A"]) (simp_all add: BN_set_word_def)
next
  case False
  obtain ok A' where x: "bn_wexpand E A 1 = (ok, A')" by fastforce
  note k = bn_wexpand_keeps[OF assms x]
  show ?thesis
  proof (cases ok)
    case F: False
    then show ?thesis using x False k granted_wexpand[OF _ _ x]
      by (intro word_resultI[of _ False A']) (simp_all add: BN_set_word_def)
  next
    case True
    have "0 < length (bn_d A')" using k(1,5) True by (simp add: bn_stored_def)
    then obtain x xs where d: "bn_d A' = x # xs" by (cases "bn_d A'") auto
    let ?A = "A'\<lparr>bn_neg := False, bn_d := (bn_d A')[0 := w], bn_top := 1\<rparr>"
    have "bn_stored ?A" "bn_wf ?A" "bn_val ?A = int (unat w)"
      using k(1) k(5)[OF True] d False by (simp_all add: bn_wf_def bn_stored_def bn_val_def bn_abs_def bn_limbs_def)
    then show ?thesis using x False True d by (intro word_resultI[of _ True ?A]) (simp_all add: BN_set_word_def set_limb_def)
  qed
qed

section \<open>Adding and subtracting a word\<close>

lemma add_word_loop_val:
  "i + n \<le> length d \<Longrightarrow>
   \<exists>d' w' i'. add_word_loop d w i n = Some (d', w', i') \<and> length d' = length d \<and> (w' \<noteq> 0 \<longrightarrow> i' = i + n) \<and>
     limbs_val (take (i + n) d') + LIMB ^ (i + n) * unat w' = limbs_val (take (i + n) d) + LIMB ^ i * unat w"
proof (induction n arbitrary: d w i)
  case (Suc n)
  show ?case
  proof (cases "w = 0")
    case False
    let ?l = "d ! i + w" and ?d = "d[i := d ! i + w]" and ?w = "if w > d ! i + w then 1 else 0 :: u64"
    have l: "i + 1 + n \<le> length ?d" and i: "i < length d" using Suc.prems by simp_all
    obtain d' w' i' where IH: "add_word_loop ?d ?w (i + 1) n = Some (d', w', i')" "length d' = length d" "w' \<noteq> 0 \<longrightarrow> i' = i + 1 + n"
        "limbs_val (take (i + 1 + n) d') + LIMB ^ (i + 1 + n) * unat w' = limbs_val (take (i + 1 + n) ?d) + LIMB ^ (i + 1) * unat ?w"
      using Suc.IH[OF l, of ?w] by auto
    have split: "limbs_val (take (i + 1 + n) xs) = limbs_val (take i xs) + LIMB ^ i * (unat (xs ! i) + LIMB * limbs_val (take n (drop (i + 1) xs)))"
      if "i < length xs" for xs
      using that unfolding take_add[of "i + 1" n] by (simp add: limbs_val_append take_Suc_conv_app_nth distrib_left)
    have u: "unat ?w = of_bool (d ! i + w < w)" by simp
    have "LIMB ^ i * (unat ?l + LIMB * unat ?w) = LIMB ^ i * (unat (d ! i) + unat w)" using word_carry[of "d ! i" w] unfolding u by simp
    then have "limbs_val (take (i + 1 + n) ?d) + LIMB ^ (i + 1) * unat ?w = limbs_val (take (i + 1 + n) d) + LIMB ^ i * unat w"
      using split[of d] split[of ?d] i by (simp add: distrib_left)
    then show ?thesis using IH False i by (auto simp: limb_def set_limb_def Let_def)
  qed (use Suc.prems in simp)
qed simp

lemma set_limb_top:
  assumes "bn_stored A" "bn_top A < bn_dmax A" "v \<noteq> 0"
  shows "bn_wf (A\<lparr>bn_d := (bn_d A)[bn_top A := v], bn_top := bn_top A + 1\<rparr>)"
    "bn_abs (A\<lparr>bn_d := (bn_d A)[bn_top A := v], bn_top := bn_top A + 1\<rparr>) = bn_abs A + LIMB ^ bn_top A * unat v"
  using assms by (simp_all add: bn_wf_def bn_stored_def bn_abs_def bn_limbs_def limbs_val_take_Suc)

lemma bn_wf_geI:
  assumes "bn_stored A" "0 < bn_top A" "LIMB ^ (bn_top A - 1) \<le> bn_abs A"
  shows "bn_wf A"
  by (cases "bn_top A") (use assms top_word_nonzero[of "bn_top A - 1" "bn_d A"] in \<open>simp_all add: bn_wf_def bn_stored_def bn_abs_def bn_limbs_def\<close>)

lemma BN_add_word_nonneg:
  assumes "bn_wf A" "\<not> bn_neg A"
  shows "word_result (bn_granted E A (bn_top A + 1)) (bn_val A + int (unat w)) (BN_add_word E A w)"
proof (cases "w = 0 \<or> BN_is_zero A")
  case True
  have g: "bn_granted E A (bn_top A + 1) \<Longrightarrow> bn_granted E A 1"
    by (auto simp: bn_granted_def list_all_iff simp del: upt_Suc)
  show ?thesis
  proof (cases "w = 0")
    case True
    then show ?thesis using assms by (intro word_resultI[of _ True A]) (simp_all add: BN_add_word.simps)
  next
    case False
    then have z: "BN_is_zero A" using True by simp
    then have "bn_val A = 0" by (simp add: BN_is_zero_def bn_val_def bn_abs_def bn_limbs_def)
    then show ?thesis using BN_set_word_val[of A E w] assms(1) False z g by (auto simp: BN_add_word.simps word_result_def)
  qed
next
  case False
  then have top: "0 < bn_top A" "w \<noteq> 0" by (simp_all add: BN_is_zero_def)
  have st: "length (bn_d A) = bn_dmax A" "bn_top A \<le> bn_dmax A" using assms(1) by (simp_all add: bn_wf_def bn_stored_def)
  obtain d w' i where L: "add_word_loop (bn_d A) w 0 (bn_top A) = Some (d, w', i)" "length d = bn_dmax A" "w' \<noteq> 0 \<longrightarrow> i = bn_top A"
      "limbs_val (take (bn_top A) d) + LIMB ^ bn_top A * unat w' = bn_abs A + unat w"
    using add_word_loop_val[of 0 "bn_top A" "bn_d A" w] st by (auto simp: bn_abs_def bn_limbs_def)
  let ?A = "A\<lparr>bn_d := d\<rparr>"
  have sA: "bn_stored ?A" using L(2) st by (simp add: bn_stored_def)
  have absA: "bn_abs ?A = limbs_val (take (bn_top A) d)" by (simp add: bn_abs_def bn_limbs_def)
  have run: "BN_add_word E A w =
      (if w' \<noteq> 0
       then let (ok, a) = bn_wexpand E ?A (bn_top A + 1)
            in if \<not> ok then Some (False, a)
               else do { d \<leftarrow> set_limb (bn_d a) i w'; Some (True, a\<lparr>bn_top := bn_top a + 1, bn_d := d\<rparr>) }
       else Some (True, ?A))"
    using False assms(2) L(1,3) by (subst BN_add_word.simps) (simp add: Let_def)
  show ?thesis
  proof (cases "w' = 0")
    case True
    have "LIMB ^ (bn_top A - 1) \<le> bn_abs ?A" using bn_abs_ge[OF assms(1) top(1)] L(4) True unfolding absA by simp
    then have "bn_wf ?A" using sA top(1) by (intro bn_wf_geI) simp_all
    moreover have "bn_val ?A = bn_val A + int (unat w)" using L(4) True assms(2) absA by (simp add: bn_val_def)
    ultimately show ?thesis using run True sA by (intro word_resultI[of _ True ?A]) simp_all
  next
    case w': False
    obtain ok B where x: "bn_wexpand E ?A (bn_top A + 1) = (ok, B)" by fastforce
    note k = bn_wexpand_keeps[OF sA x]
    have grant: "bn_granted E A (bn_top A + 1) \<Longrightarrow> ok"
    proof -
      assume "bn_granted E A (bn_top A + 1)"
      then have "fst (bn_wexpand E A (bn_top A + 1))" using granted_wexpand[of E A _ "bn_top A + 1"] by (cases "bn_wexpand E A (bn_top A + 1)") auto
      then have "fst (bn_wexpand E ?A (bn_top A + 1))" by (auto simp: bn_wexpand_def split: option.splits if_splits)
      then show ok using x by simp
    qed
    show ?thesis
    proof (cases ok)
      case False
      then show ?thesis using run x w' k(1) grant by (intro word_resultI[of _ False B]) simp_all
    next
      case True
      let ?B = "B\<lparr>bn_d := (bn_d B)[bn_top B := w'], bn_top := bn_top B + 1\<rparr>"
      have t: "bn_top B = bn_top A" "bn_top B < bn_dmax B" "\<not> bn_neg B" using k(3,4) k(5)[OF True] assms(2) by simp_all
      then have "bn_top B < length (bn_d B)" using k(1) by (simp add: bn_stored_def)
      then have "BN_add_word E A w = Some (True, ?B)" using run x w' True L(3) t(1) by (simp add: set_limb_def)
      moreover have "bn_abs B = limbs_val (take (bn_top A) d)" using k(2) by (simp add: bn_abs_def bn_limbs_def)
      then have "bn_val ?B = bn_val A + int (unat w)"
        using set_limb_top(2)[OF k(1) t(2) w'] L(4) t(1,3) assms(2) by (simp add: bn_val_def)
      ultimately show ?thesis using set_limb_top(1)[OF k(1) t(2) w'] by (intro word_resultI[of _ True ?B]) simp_all
    qed
  qed
qed

lemma sub_word_loop_val:
  "i < n \<Longrightarrow> n \<le> length d \<Longrightarrow> unat w \<le> limbs_val (drop i (take n d)) \<Longrightarrow>
   \<exists>d' j. sub_word_loop d w i = Some (d', j) \<and> i \<le> j \<and> j < n \<and> length d' = length d \<and> take i d' = take i d \<and>
     limbs_val (drop i (take n d')) + unat w = limbs_val (drop i (take n d)) \<and> (i < j \<longrightarrow> d' ! (j - 1) \<noteq> 0) \<and>
     drop (j + 1) d' = drop (j + 1) d"
proof (induction d w i rule: sub_word_loop.induct)
  case (1 d w i)
  have i: "i < length d" using "1.prems" by simp
  have split: "drop i (take n xs) = xs ! i # drop (i + 1) (take n xs)" if "i < length xs" for xs
    using that "1.prems"(1) by (simp add: Cons_nth_drop_Suc[symmetric])
  let ?d = "d[i := d ! i - w]"
  have rest: "drop (i + 1) (take n ?d) = drop (i + 1) (take n d)" by (simp add: take_update_swap drop_update_cancel)
  show ?case
  proof (cases "w \<le> d ! i")
    case True
    then have "unat (d ! i - w) + unat w = unat (d ! i)" by (simp add: unat_sub word_le_nat_alt)
    then show ?thesis using True i "1.prems"(1,2) split[of d] split[of ?d] rest
      by (intro exI[of _ ?d] exI[of _ i]) (simp add: sub_word_loop.simps)
  next
    case False
    then have less: "unat (d ! i) < unat w" by (simp add: word_le_nat_alt)
    have "unat w \<le> unat (d ! i) + LIMB * limbs_val (drop (i + 1) (take n d))" using "1.prems"(3) split[of d] i by simp
    then have one: "1 \<le> limbs_val (drop (i + 1) (take n d))" using less by (cases "limbs_val (drop (i + 1) (take n d))") simp_all
    then have "i + 1 < n" by (cases "i + 1 < n") simp_all
    then obtain d' j where IH: "sub_word_loop ?d 1 (i + 1) = Some (d', j)" "i + 1 \<le> j" "j < n" "length d' = length d"
        "take (i + 1) d' = take (i + 1) ?d" "limbs_val (drop (i + 1) (take n d')) + 1 = limbs_val (drop (i + 1) (take n d))"
        "i + 1 < j \<longrightarrow> d' ! (j - 1) \<noteq> 0" "drop (j + 1) d' = drop (j + 1) ?d"
      using "1.IH"[OF i] False "1.prems"(2) one unfolding rest by auto
    have d'i: "d' ! i = d ! i - w" using arg_cong[OF IH(5), of "\<lambda>xs. xs ! i"] i by simp
    have "unat (d ! i - w) + unat w = unat (d ! i) + LIMB" using less unat_limb[of w] by (simp add: unat_sub_if')
    moreover have "LIMB * (limbs_val (drop (i + 1) (take n d')) + 1) = LIMB * limbs_val (drop (i + 1) (take n d))" using IH(6) by simp
    ultimately have "limbs_val (drop i (take n d')) + unat w = limbs_val (drop i (take n d))"
      using split[of d] split[of d'] i IH(4) d'i by simp
    moreover have "take i d' = take i d" using arg_cong[OF IH(5), of "take i"] by (simp add: min_def)
    moreover have "d' ! (j - 1) \<noteq> 0"
    proof (cases "i + 1 = j")
      case True
      then show ?thesis using d'i False by auto
    next
      case F: False
      then show ?thesis using IH(2,7) by simp
    qed
    moreover have "drop (j + 1) d' = drop (j + 1) d" using IH(2,8) by simp
    ultimately show ?thesis using IH(1,2,3,4) False i
      by (intro exI[of _ d'] exI[of _ j]) (simp add: sub_word_loop.simps)
  qed
qed

lemma granted_neg [simp]: "bn_granted E (A\<lparr>bn_neg := s\<rparr>) n = bn_granted E A n"
proof -
  have "fst (bn_wexpand E (A\<lparr>bn_neg := s\<rparr>) k) = fst (bn_wexpand E A k)" for k
    by (simp add: bn_wexpand_def split: option.splits)
  then show ?thesis by (simp only: bn_granted_def)
qed

lemma bn_stored_neg [simp]: "bn_stored (A\<lparr>bn_neg := s\<rparr>) = bn_stored A"
  by (simp add: bn_stored_def)

lemma bn_abs_neg [simp]: "bn_abs (A\<lparr>bn_neg := s\<rparr>) = bn_abs A"
  by (simp add: bn_abs_def bn_limbs_def)

lemma bn_wf_neg: "bn_wf A \<Longrightarrow> (s \<Longrightarrow> 0 < bn_top A) \<Longrightarrow> bn_wf (A\<lparr>bn_neg := s\<rparr>)"
  by (simp add: bn_wf_def)

lemma is_zero_val: "bn_wf A \<Longrightarrow> BN_is_zero A \<longleftrightarrow> bn_val A = 0"
  using bn_top_zero_iff[of A] by (auto simp: BN_is_zero_def bn_val_def)

lemma negated_val: "bn_wf A \<Longrightarrow> \<not> BN_is_zero A \<Longrightarrow> bn_wf (A\<lparr>bn_neg := \<not> bn_neg A\<rparr>) \<and> bn_val (A\<lparr>bn_neg := \<not> bn_neg A\<rparr>) = - bn_val A"
  by (auto simp: BN_is_zero_def bn_val_def intro: bn_wf_neg)

lemma positive_facts: "bn_wf A \<Longrightarrow> 0 < bn_val A \<Longrightarrow> \<not> BN_is_zero A \<and> \<not> bn_neg A"
  using is_zero_val[of A] by (auto simp: bn_val_def split: if_splits)

lemma BN_sub_word_less:
  assumes "bn_wf A" "\<not> bn_neg A" "bn_top A = 1" "bn_d A ! 0 < w"
  shows "word_result g (bn_val A - int (unat w)) (BN_sub_word E A w)"
proof -
  have st: "length (bn_d A) = bn_dmax A" "1 \<le> bn_dmax A" using assms(1,3) by (simp_all add: bn_wf_def bn_stored_def)
  then obtain x xs where d: "bn_d A = x # xs" by (cases "bn_d A") auto
  let ?A = "A\<lparr>bn_d := (bn_d A)[0 := w - x], bn_neg := True\<rparr>"
  have less: "x < w" "w \<noteq> 0" "w - x \<noteq> 0" using assms(4) d by (auto simp: word_less_nat_alt)
  have "BN_sub_word E A w = Some (True, ?A)"
    using assms(2,3) d less by (subst BN_sub_word.simps) (simp add: BN_is_zero_def limb_def set_limb_def)
  moreover have "bn_wf ?A" using st assms(3) d less by (simp add: bn_wf_def bn_stored_def)
  moreover have "int (unat (w - x)) = int (unat w) - int (unat x)" using less(1) by (simp add: unat_sub word_le_nat_alt word_less_nat_alt of_nat_diff)
  then have "bn_val ?A = bn_val A - int (unat w)"
    using assms(2,3) d by (simp add: bn_val_def bn_abs_def bn_limbs_def)
  ultimately show ?thesis by (rule word_result_okI)
qed

lemma BN_sub_word_rest:
  assumes "bn_wf A" "\<not> bn_neg A" "0 < bn_top A" "\<not> (bn_top A = 1 \<and> bn_d A ! 0 < w)" "w \<noteq> 0"
  shows "word_result g (bn_val A - int (unat w)) (BN_sub_word E A w)"
proof -
  have st: "length (bn_d A) = bn_dmax A" "bn_top A \<le> bn_dmax A" "0 < length (bn_d A)"
    using assms(1,3) by (auto simp: bn_wf_def bn_stored_def)
  have "unat w \<le> bn_abs A"
  proof (cases "bn_top A = 1")
    case True
    then have "bn_limbs A = [bn_d A ! 0]" using st(3) by (simp add: bn_limbs_def take_Suc_conv_app_nth)
    then show ?thesis using assms(4) True by (simp add: bn_abs_def word_le_nat_alt[symmetric] not_less)
  next
    case False
    then have "LIMB ^ 1 \<le> LIMB ^ (bn_top A - 1)" using assms(3) by (intro power_increasing) simp_all
    then have "LIMB \<le> LIMB ^ (bn_top A - 1)" by (simp only: power_one_right)
    then show ?thesis using bn_abs_ge[OF assms(1,3)] unat_limb[of w] by linarith
  qed
  then obtain d j where L: "sub_word_loop (bn_d A) w 0 = Some (d, j)" "j < bn_top A" "length d = bn_dmax A"
      "limbs_val (take (bn_top A) d) + unat w = bn_abs A" "0 < j \<longrightarrow> d ! (j - 1) \<noteq> 0" "drop (j + 1) d = drop (j + 1) (bn_d A)"
    using sub_word_loop_val[of 0 "bn_top A" "bn_d A" w] assms(3) st by (auto simp: bn_abs_def bn_limbs_def)
  define z where "z \<longleftrightarrow> d ! j = 0 \<and> j = bn_top A - 1"
  let ?A = "A\<lparr>bn_d := d, bn_top := (if z then bn_top A - 1 else bn_top A)\<rparr>"
  have run: "BN_sub_word E A w = Some (True, ?A)"
  proof -
    have "BN_sub_word E A w = Option.bind (sub_word_loop (bn_d A) w 0) (\<lambda>(d, i).
        Some (True, A\<lparr>bn_d := d, bn_top := (if d ! i = 0 \<and> i = bn_top A - 1 then bn_top A - 1 else bn_top A)\<rparr>))"
      using assms(2-5) st(3) by (cases "bn_top A = 1"; subst BN_sub_word.simps) (simp_all add: BN_is_zero_def limb_def)
    then show ?thesis by (simp add: L(1) z_def)
  qed
  have top: "bn_d A ! (bn_top A - 1) \<noteq> 0" using assms(1,3) by (simp add: bn_wf_def)
  have same: "d ! (bn_top A - 1) = bn_d A ! (bn_top A - 1)" if "j \<noteq> bn_top A - 1"
  proof -
    have "bn_top A - 1 = j + 1 + (bn_top A - 1 - (j + 1))" using that L(2) by linarith
    then obtain k where k: "bn_top A - 1 = j + 1 + k" by blast
    then have "j + 1 + k < length d" "j + 1 + k < length (bn_d A)" using L(3) st assms(3) by simp_all
    then show ?thesis unfolding k using arg_cong[OF L(6), of "\<lambda>xs. xs ! k"] by simp
  qed
  have "bn_wf ?A"
  proof (cases z)
    case True
    then have "j = bn_top A - 1" by (simp add: z_def)
    then show ?thesis using True L(2,3,5) st assms(2) by (auto simp: bn_wf_def bn_stored_def)
  next
    case False
    then have "d ! (bn_top A - 1) \<noteq> 0" using same top by (cases "j = bn_top A - 1") (auto simp: z_def)
    then show ?thesis using False L(3) st assms(2,3) by (simp add: bn_wf_def bn_stored_def)
  qed
  have "bn_abs ?A = limbs_val (take (bn_top A) d)"
  proof (cases z)
    case True
    then obtain k where k: "bn_top A = Suc k" "d ! k = 0" using assms(3) by (cases "bn_top A") (auto simp: z_def)
    then show ?thesis using True L(3) st(2) by (simp add: bn_abs_def bn_limbs_def limbs_val_take_Suc)
  next
    case False
    then show ?thesis by (simp add: bn_abs_def bn_limbs_def)
  qed
  then have "bn_abs ?A + unat w = bn_abs A" using L(4) by (simp only:)
  then have "int (bn_abs ?A) = int (bn_abs A) - int (unat w)" by linarith
  moreover have "\<not> bn_neg ?A" using assms(2) by simp
  ultimately have "bn_val ?A = bn_val A - int (unat w)" unfolding bn_val_def using assms(2) by (simp only: if_False)
  with \<open>bn_wf ?A\<close> have "bn_wf ?A" "bn_val ?A = bn_val A - int (unat w)" .
  then show ?thesis by (rule word_result_okI[OF run])
qed

lemma BN_sub_word_nonneg:
  assumes "bn_wf A" "\<not> bn_neg A"
  shows "word_result (bn_granted E A (bn_top A + 1)) (bn_val A - int (unat w)) (BN_sub_word E A w)"
proof -
  consider "w = 0" | "w \<noteq> 0" "bn_top A = 0" | "w \<noteq> 0" "bn_top A = 1" "bn_d A ! 0 < w"
    | "w \<noteq> 0" "0 < bn_top A" "\<not> (bn_top A = 1 \<and> bn_d A ! 0 < w)" by fastforce
  then show ?thesis
  proof cases
    case 1
    then show ?thesis using assms by (intro word_resultI[of _ True A]) (simp_all add: BN_sub_word.simps)
  next
    case 2
    then have z: "BN_is_zero A" "bn_val A = 0" by (simp_all add: BN_is_zero_def bn_val_def bn_abs_def bn_limbs_def)
    obtain ok B where B: "BN_set_word E A w = Some (ok, B)" "bn_stored B" "ok \<longrightarrow> bn_wf B \<and> bn_val B = int (unat w)"
        "bn_granted E A 1 \<longrightarrow> ok"
      using BN_set_word_val[of A E w] assms(1) by (auto simp: word_result_def)
    have g: "bn_granted E A (bn_top A + 1) \<Longrightarrow> ok" using B(4) 2 by simp
    show ?thesis
    proof (cases ok)
      case False
      then show ?thesis using 2 z B g by (intro word_resultI[of _ False B]) (simp_all add: BN_sub_word.simps)
    next
      case True
      have "0 < int (unat w)" using 2 by (simp only: of_nat_0_less_iff unat_gt_0 not_False_eq_True)
      then have "0 < bn_val B" using B(3) True by (simp only:)
      then have "\<not> BN_is_zero B" "\<not> bn_neg B" using positive_facts[of B] B(3) True by simp_all
      then show ?thesis using 2 z B True negated_val[of B]
        by (intro word_resultI[of _ True "B\<lparr>bn_neg := True\<rparr>"]) (simp_all add: BN_sub_word.simps BN_set_negative_def)
    qed
  next
    case 3
    then show ?thesis using BN_sub_word_less[OF assms] by simp
  next
    case 4
    then show ?thesis using BN_sub_word_rest[OF assms] by simp
  qed
qed

lemma negative_facts: "bn_wf A \<Longrightarrow> bn_neg A \<Longrightarrow> \<not> BN_is_zero A \<and> bn_wf (A\<lparr>bn_neg := False\<rparr>) \<and> bn_val (A\<lparr>bn_neg := False\<rparr>) = - bn_val A"
  by (auto simp: bn_wf_def BN_is_zero_def bn_val_def)

lemma BN_add_word_val:
  assumes "bn_wf A"
  shows "word_result (bn_granted E A (bn_top A + 1)) (bn_val A + int (unat w)) (BN_add_word E A w)"
proof (cases "bn_neg A \<and> w \<noteq> 0")
  case True
  note n = negative_facts[OF assms] True
  obtain ok B where B: "BN_sub_word E (A\<lparr>bn_neg := False\<rparr>) w = Some (ok, B)" "bn_stored B"
      "ok \<longrightarrow> bn_wf B \<and> bn_val B = - bn_val A - int (unat w)" "bn_granted E A (bn_top A + 1) \<longrightarrow> ok"
    using BN_sub_word_nonneg[of "A\<lparr>bn_neg := False\<rparr>" E w] n by (auto simp: word_result_def)
  let ?B = "if \<not> BN_is_zero B then B\<lparr>bn_neg := \<not> bn_neg B\<rparr> else B"
  have "BN_add_word E A w = Some (ok, ?B)" using n B(1) by (subst BN_add_word.simps) simp
  moreover have "bn_stored ?B" using B(2) by simp
  moreover have "ok \<Longrightarrow> bn_wf ?B \<and> bn_val ?B = bn_val A + int (unat w)"
    using B(3) negated_val[of B] is_zero_val[of B] by (cases "BN_is_zero B") auto
  ultimately show ?thesis using B(4) by (intro word_resultI[of _ ok ?B]) simp_all
next
  case False
  show ?thesis
  proof (cases "w = 0")
    case True
    then show ?thesis using assms by (intro word_resultI[of _ True A]) (simp_all add: BN_add_word.simps)
  next
    case w: False
    then show ?thesis using BN_add_word_nonneg[OF assms] False by simp
  qed
qed

lemma BN_sub_word_val:
  assumes "bn_wf A"
  shows "word_result (bn_granted E A (bn_top A + 1)) (bn_val A - int (unat w)) (BN_sub_word E A w)"
proof (cases "bn_neg A \<and> w \<noteq> 0")
  case True
  note n = negative_facts[OF assms] True
  obtain ok B where B: "BN_add_word E (A\<lparr>bn_neg := False\<rparr>) w = Some (ok, B)" "bn_stored B"
      "ok \<longrightarrow> bn_wf B \<and> bn_val B = - bn_val A + int (unat w)" "bn_granted E A (bn_top A + 1) \<longrightarrow> ok"
    using BN_add_word_nonneg[of "A\<lparr>bn_neg := False\<rparr>" E w] n by (auto simp: word_result_def)
  let ?B = "B\<lparr>bn_neg := True\<rparr>"
  have "BN_sub_word E A w = Some (ok, ?B)" using n B(1) by (subst BN_sub_word.simps) simp
  moreover have "ok \<Longrightarrow> bn_wf ?B \<and> bn_val ?B = bn_val A - int (unat w)"
  proof -
    assume ok
    have "0 < - bn_val A" using n by (auto simp: bn_val_def is_zero_val[OF assms])
    moreover have "0 \<le> int (unat w)" by simp
    ultimately have pos: "0 < bn_val B" using B(3) \<open>ok\<close> by linarith
    then have "\<not> bn_neg B" "\<not> BN_is_zero B" using positive_facts[of B] B(3) \<open>ok\<close> by simp_all
    then show ?thesis using negated_val[of B] B(3) \<open>ok\<close> by simp
  qed
  ultimately show ?thesis using B(2,4) by (intro word_resultI[of _ ok ?B]) simp_all
next
  case False
  show ?thesis
  proof (cases "w = 0")
    case True
    then show ?thesis using assms by (intro word_resultI[of _ True A]) (simp_all add: BN_sub_word.simps)
  next
    case w: False
    then show ?thesis using BN_sub_word_nonneg[OF assms] False by simp
  qed
qed

section \<open>Multiplication by a word\<close>

lemma bn_of_words_sign:
  assumes "bn_stored A" "length zs \<le> bn_dmax A" "0 < length zs" "LIMB ^ (length zs - 1) \<le> limbs_val zs"
  shows "bn_wf (A\<lparr>bn_d := overwrite (bn_d A) 0 zs, bn_top := length zs\<rparr>)"
    "bn_val (A\<lparr>bn_d := overwrite (bn_d A) 0 zs, bn_top := length zs\<rparr>) =
      (if bn_neg A then - int (limbs_val zs) else int (limbs_val zs))"
proof -
  have zs: "0 < length zs \<Longrightarrow> LIMB ^ (length zs - 1) \<le> limbs_val zs" using assms(4) by simp
  show "bn_wf (A\<lparr>bn_d := overwrite (bn_d A) 0 zs, bn_top := length zs\<rparr>)"
    using bn_of_words(1)[OF assms(1,2) zs] assms(3) by (simp add: bn_wf_def bn_stored_def)
  show "bn_val (A\<lparr>bn_d := overwrite (bn_d A) 0 zs, bn_top := length zs\<rparr>) =
      (if bn_neg A then - int (limbs_val zs) else int (limbs_val zs))"
    by (simp add: bn_val_def bn_abs_def bn_limbs_def overwrite_def)
qed

lemma set_after_words: "take n d = zs \<Longrightarrow> n < length d \<Longrightarrow> d[n := c] = overwrite d 0 (zs @ [c])"
  by (auto simp: overwrite_def upd_conv_take_nth_drop)

lemma BN_mul_word_val:
  assumes "bn_wf (st a)"
  shows "bn_result (bn_granted E (st a) (bn_top (st a) + 1)) st a (bn_val (st a) * int (unat w)) (BN_mul_word E st a w)"
proof -
  let ?n = "bn_top (st a)"
  consider "?n = 0" | "?n \<noteq> 0" "w = 0" | "?n \<noteq> 0" "w \<noteq> 0" by blast
  then show ?thesis
  proof cases
    case 1
    then have "bn_val (st a) = 0" using bn_top_zero_iff[OF assms] by (simp add: bn_val_def)
    then show ?thesis using 1 assms by (intro bn_resultI[of _ True _ _ "st a"]) (simp_all add: BN_mul_word_def)
  next
    case 2
    then show ?thesis using bn_zero_val[of "st a"] assms
      by (intro bn_resultI[of _ True _ _ "BN_zero (st a)"]) (simp_all add: BN_mul_word_def)
  next
    case 3
    have stored: "bn_stored (st a)" "?n \<le> bn_dmax (st a)" "length (bn_d (st a)) = bn_dmax (st a)"
      using assms by (simp_all add: bn_wf_def bn_stored_def)
    have in_a: "limbs_in (bn_mem st) (a, 0) ?n" using limbs_in_bn[of st a] stored by simp
    obtain zs c where zs: "bn_mul_words (bn_mem st) (a, 0) (a, 0) ?n w = Some (c, store_limbs (bn_mem st) (a, 0) zs)"
        "length zs = ?n" "limbs_val zs + LIMB ^ ?n * unat c = unat w * bn_abs (st a)"
      using bn_mul_words_spec[OF in_a in_a, of w] limbs_of_bn[of st a] stored by (auto simp: same_or_apart_def bn_abs_def)
    let ?A = "(st a)\<lparr>bn_d := overwrite (bn_d (st a)) 0 zs\<rparr>"
    have put: "bn_put st (store_limbs (bn_mem st) (a, 0) zs) = st(a := ?A)" by (rule bn_put_store)
    have sA: "bn_stored ?A" "bn_limbs ?A = zs" using stored zs(2) by (simp_all add: bn_stored_def bn_limbs_def overwrite_def)
    have w: "1 \<le> unat w" using 3 unat_gt_0[of w] by linarith
    have big: "LIMB ^ (?n - 1) \<le> unat w * bn_abs (st a)"
      using bn_abs_ge[OF assms] 3(1) mult_le_mono[OF w, of "LIMB ^ (?n - 1)" "bn_abs (st a)"] by simp
    have val: "bn_val (st a) * int (unat w) = (if bn_neg (st a) then - int (unat w * bn_abs (st a)) else int (unat w * bn_abs (st a)))"
      by (simp add: bn_val_def mult.commute)
    show ?thesis
    proof (cases "c = 0")
      case True
      then have v: "limbs_val zs = unat w * bn_abs (st a)" using zs(3) by simp
      have "length zs \<le> bn_dmax (st a)" "0 < length zs" "LIMB ^ (length zs - 1) \<le> limbs_val zs"
        using zs(2) stored 3(1) big v by simp_all
      note A = bn_of_words_sign[OF stored(1) this]
      have "(st a)\<lparr>bn_d := overwrite (bn_d (st a)) 0 zs, bn_top := length zs\<rparr> = ?A" using zs(2) by simp
      then have "bn_wf ?A" "bn_val ?A = bn_val (st a) * int (unat w)" using A unfolding val v by simp_all
      then show ?thesis using 3 zs(1) True put
        by (intro bn_resultI[of _ True _ _ ?A]) (simp_all add: BN_mul_word_def)
    next
      case False
      obtain ok B where B: "bn_wexpand E ?A (?n + 1) = (ok, B)" by fastforce
      note k = bn_wexpand_keeps[OF sA(1) B]
      have g: "bn_granted E (st a) (?n + 1) \<Longrightarrow> ok"
      proof -
        assume "bn_granted E (st a) (?n + 1)"
        moreover have "fst (bn_wexpand E ?A (?n + 1)) = fst (bn_wexpand E (st a) (?n + 1))"
          by (simp add: bn_wexpand_def split: option.splits)
        ultimately show ok using B by (auto simp: bn_granted_def list_all_iff)
      qed
      show ?thesis
      proof (cases ok)
        case no: False
        then show ?thesis using 3 zs(1) False put B g k(1)
          by (intro bn_resultI[of _ False _ _ B]) (simp_all add: BN_mul_word_def wexpand_at_def)
      next
        case True
        have room: "?n < length (bn_d B)" using k(1,5) True by (simp add: bn_stored_def)
        have "take ?n (bn_d B) = zs" using k(2,3) sA(2) by (simp add: bn_limbs_def)
        note d = set_after_words[OF this room, of c]
        let ?zs = "zs @ [c]"
        let ?B = "B\<lparr>bn_d := overwrite (bn_d B) 0 ?zs, bn_top := length ?zs\<rparr>"
        have v: "limbs_val ?zs = unat w * bn_abs (st a)" using zs(2,3) by (simp add: limbs_val_append)
        have "1 \<le> unat c" using False unat_gt_0[of c] by linarith
        then have "LIMB ^ ?n \<le> LIMB ^ ?n * unat c" by simp
        then have "LIMB ^ ?n \<le> limbs_val ?zs" unfolding v zs(3)[symmetric] by (rule trans_le_add2)
        then have top: "LIMB ^ (length ?zs - 1) \<le> limbs_val ?zs" using zs(2) by simp
        have "length ?zs \<le> bn_dmax B" "0 < length ?zs" using k(5) True zs(2) by simp_all
        note W = bn_of_words_sign[OF k(1) this top]
        have "BN_mul_word E st a w = Some (True, st(a := ?B))"
          using 3 zs(1,2) False put B True room k(3) d by (simp add: BN_mul_word_def wexpand_at_def set_limb_def)
        moreover have "bn_val ?B = bn_val (st a) * int (unat w)" unfolding W(2) val v using k(4) by simp
        ultimately show ?thesis using W(1) by (intro bn_resultI[of _ True _ _ ?B]) simp_all
      qed
    qed
  qed
qed

lemma bn_granted_less: "bn_granted E A n \<Longrightarrow> k \<le> n \<Longrightarrow> bn_granted E A k"
  by (auto simp: bn_granted_def list_all_iff simp del: upt_Suc)

lemma bn_result_weaken: "bn_result g st r v res \<Longrightarrow> (h \<Longrightarrow> g) \<Longrightarrow> bn_result h st r v res"
  by (auto simp: bn_result_def)

lemma word_result_weaken: "word_result g v res \<Longrightarrow> (h \<Longrightarrow> g) \<Longrightarrow> word_result h v res"
  by (auto simp: word_result_def)

lemma bn_resultD: "bn_result True st r v res \<Longrightarrow> \<exists>st'. res = Some (True, st') \<and> bn_wf (st' r) \<and> bn_val (st' r) = v"
  by (auto simp: bn_result_def)

section \<open>The operations together\<close>

text \<open>
  Property C31: big-number addition, subtraction and comparison are those of the integers, on numbers of any
  size and sign. \<open>BN_add\<close> and \<open>BN_sub\<close> leave the sum and the difference in \<open>r\<close>, which may be
  an operand, and no other number changes; \<open>BN_add_word\<close>, \<open>BN_sub_word\<close> and \<open>BN_mul_word\<close>
  do the same with one word. No array is read or written outside of its bounds; the result has no leading
  zero word and no negative zero; and an operation fails only if the words the result may need, at most one
  more than the longer operand has, are neither there nor granted by \<open>bn_wexpand\<close>. \<open>BN_cmp\<close> gives
  the order of the integers.
\<close>

theorem BN_integers:
  assumes "bn_stored (st r)" "bn_wf (st a)" "bn_wf (st b)"
  defines "n \<equiv> max (bn_top (st a)) (bn_top (st b)) + 1"
  shows "bn_result (bn_granted E (st r) n) st r (bn_val (st a) + bn_val (st b)) (BN_add E st r a b) \<and>
    bn_result (bn_granted E (st r) n) st r (bn_val (st a) - bn_val (st b)) (BN_sub E st r a b) \<and>
    bn_result (bn_granted E (st a) n) st a (bn_val (st a) * int (unat w)) (BN_mul_word E st a w) \<and>
    word_result (bn_granted E (st a) n) (bn_val (st a) + int (unat w)) (BN_add_word E (st a) w) \<and>
    word_result (bn_granted E (st a) n) (bn_val (st a) - int (unat w)) (BN_sub_word E (st a) w) \<and>
    BN_cmp (Some (st a)) (Some (st b)) = Some (sgn (bn_val (st a) - bn_val (st b)))"
proof -
  have n: "bn_top (st a) < n" "bn_top (st b) < n" by (simp_all add: n_def)
  have g: "bn_granted E (st a) n \<Longrightarrow> bn_granted E (st a) (bn_top (st a) + 1)"
    using n(1) bn_granted_less[of E "st a" n "bn_top (st a) + 1"] by simp
  have m: "bn_result (bn_granted E (st a) n) st a (bn_val (st a) * int (unat w)) (BN_mul_word E st a w)"
    by (rule bn_result_weaken[OF BN_mul_word_val[of st a E w, OF assms(2)]]) (rule g)
  have p: "word_result (bn_granted E (st a) n) (bn_val (st a) + int (unat w)) (BN_add_word E (st a) w)"
    by (rule word_result_weaken[OF BN_add_word_val[of "st a" E w, OF assms(2)]]) (rule g)
  have q: "word_result (bn_granted E (st a) n) (bn_val (st a) - int (unat w)) (BN_sub_word E (st a) w)"
    by (rule word_result_weaken[OF BN_sub_word_val[of "st a" E w, OF assms(2)]]) (rule g)
  show ?thesis
    by (intro conjI BN_add_val[OF assms(1-3) n] BN_sub_val[OF assms(1-3) n] m p q BN_cmp_sgn[OF assms(2,3)])
qed

text \<open>\<open>2 ^ 64 - 1\<close> plus one, in place, in an array of two words.\<close>

theorem BN_integers_witness:
  "\<exists>st'. BN_add \<lparr>bn_sys = (\<lambda>_. False), bn_junk = (\<lambda>_. 0)\<rparr>
      (\<lambda>i. if i = 0 then \<lparr>bn_d = [0xffffffffffffffff, 5], bn_top = 1, bn_dmax = 2, bn_neg = False, bn_flags = 0\<rparr> else BN_value_one) 0 0 1 =
    Some (True, st') \<and> bn_wf (st' 0) \<and> bn_val (st' 0) = 2 ^ 64"
proof -
  define st where "st = (\<lambda>i :: nat. if i = 0 then \<lparr>bn_d = [0xffffffffffffffff, 5], bn_top = 1, bn_dmax = 2, bn_neg = False, bn_flags = 0\<rparr>
    else BN_value_one)"
  define E where "E = \<lparr>bn_sys = (\<lambda>_. False), bn_junk = (\<lambda>_. 0)\<rparr>"
  have wf: "bn_stored (st 0)" "bn_wf (st 0)" "bn_wf (st 1)"
    by (simp_all add: st_def bn_wf_def bn_stored_def BN_value_one_def)
  have v: "bn_val (st 0) + bn_val (st 1) = 2 ^ 64"
    by (simp add: st_def bn_val_def bn_abs_def bn_limbs_def BN_value_one_def)
  have g: "bn_granted E (st 0) (max (bn_top (st 0)) (bn_top (st 1)) + 1)"
    by (rule bn_granted_room) (simp add: st_def BN_value_one_def)
  have "bn_result True st 0 (2 ^ 64) (BN_add E st 0 0 1)"
    using conjunct1[OF BN_integers[OF wf, of E 0]] by (simp only: v g)
  then show ?thesis using bn_resultD unfolding st_def E_def by blast
qed

end
