(* ===== verification/Spec2Isabelle.thy ===== *)
theory Spec2Isabelle
  imports Prelude Constant_Time Mem Base64 Buf CBS CBB CBB_Spec Ber Lhash Stack
    Bio_Base Bio_Pair Bio_Mem Bio Bio_Asn1 Bio_Stream Modes Cbc Cfb_Bits
    Md32 Sha2 Sha256 Sha512 Sha2_Constants Sha1 Md5_Sines Md5 Md4
    Digest Hmac Kdf Digest_Extra
    Aes_Tables Aes Aes_Spec Cipher Cipher_Spec E_Aes E_Aes_Spec Key_Wrap
    Bn_Words Bn_Words_Spec Bn_Comba Bn_Mul Bn Bn_Spec Bn_Small
begin

text \<open>
  The C core of the cryptography library that the iOS application PV239 links through its pods,
  BoringSSL, under \<^verbatim>\<open>src/PV239 project/Pods/BoringSSL\<close>. Paths below are relative to it.

  \<^bold>\<open>The program.\<close> The application is Swift; its C code is what its pods bring: BoringSSL, nanopb,
  gRPC's C surface and the Objective-C runtimes of Protobuf and Firebase. BoringSSL's library
  proper sits on a few modules that everything else calls: byte-string parsing and building,
  buffers, containers, I/O objects, and the modes of operation of block ciphers. These are
  modelled here, each as the functions of its C file. Calls go upwards in this list:

  \<^item> \<open>Prelude\<close>: the integers of the LP64 targets, C's arithmetic on \<open>size_t\<close>, memory as lists of
    cells (\<open>None\<close> is a byte that was never written), bytes as big-endian numbers; the
    collections \<open>c_mem\<close> and \<open>c_word\<close>.
  \<^item> \<open>Constant_Time\<close>: \<^verbatim>\<open>crypto/internal.h\<close>, the branch-free masks, and \<^verbatim>\<open>CRYPTO_memcmp\<close>.
  \<^item> \<open>Mem\<close>: \<^verbatim>\<open>crypto/mem.c\<close>, allocation over an abstract system allocator, C strings.
  \<^item> \<open>Base64\<close>: \<^verbatim>\<open>crypto/base64/base64.c\<close>, on \<open>Constant_Time\<close>.
  \<^item> \<open>Buf\<close>: \<^verbatim>\<open>crypto/buf/buf.c\<close>, \<open>BUF_MEM\<close> and the bounded string functions, on \<open>Mem\<close>.
  \<^item> \<open>CBS\<close>: \<^verbatim>\<open>crypto/bytestring/cbs.c\<close>, the parser.
  \<^item> \<open>CBB\<close> and \<open>CBB_Spec\<close>: \<^verbatim>\<open>crypto/bytestring/cbb.c\<close> and \<^verbatim>\<open>asn1_compat.c\<close>, the builder, and the
    abstract builder it implements.
  \<^item> \<open>Ber\<close>: \<^verbatim>\<open>crypto/bytestring/ber.c\<close>, which reads with \<open>CBS\<close> and writes with \<open>CBB\<close>.
  \<^item> \<open>Lhash\<close>: \<^verbatim>\<open>crypto/lhash/lhash.c\<close>, the hash table.
  \<^item> \<open>Stack\<close>: \<^verbatim>\<open>crypto/stack/stack.c\<close>, the array of pointers.
  \<^item> \<open>Bio_Base\<close>, \<open>Bio_Pair\<close>, \<open>Bio_Mem\<close>, \<open>Bio\<close>, \<open>Bio_Asn1\<close>, \<open>Bio_Stream\<close>: \<^verbatim>\<open>crypto/bio/bio.c\<close>,
    \<^verbatim>\<open>pair.c\<close>, \<^verbatim>\<open>bio_mem.c\<close> and \<^verbatim>\<open>crypto/refcount_lock.c\<close>, the I/O objects, on \<open>Buf\<close>.
  \<^item> \<open>Modes\<close>, \<open>Cfb_Bits\<close> and \<open>Cbc\<close>: \<^verbatim>\<open>crypto/fipsmodule/modes/\<close> \<^verbatim>\<open>ofb.c\<close>, \<^verbatim>\<open>cfb.c\<close>, \<^verbatim>\<open>ctr.c\<close> and
    \<^verbatim>\<open>cbc.c\<close>, over any block function; \<open>Cbc\<close> in one memory, where buffers overlap.
  \<^item> \<open>Md32\<close>: \<^verbatim>\<open>crypto/fipsmodule/digest/md32_common.h\<close>, the collector of the 32-bit digests; \<open>Sha2\<close>, the
    rounds common to the SHA-2 digests; \<open>Sha256\<close>, \<open>Sha512\<close>, \<open>Sha1\<close>: \<^verbatim>\<open>crypto/fipsmodule/sha/\<close>;
    \<open>Sha2_Constants\<close>: where their constants come from. \<open>Md5\<close>, \<open>Md4\<close>: \<^verbatim>\<open>crypto/fipsmodule/md5/md5.c\<close> and
    \<^verbatim>\<open>md4/md4.c\<close>, with \<open>Md5_Sines\<close> for the table of sines.
  \<^item> \<open>Digest\<close>: \<^verbatim>\<open>crypto/fipsmodule/digest/digest.c\<close> and \<^verbatim>\<open>digests.c\<close>, the method tables and contexts, on the
    digests; \<open>Hmac\<close>: \<^verbatim>\<open>crypto/fipsmodule/hmac/hmac.c\<close>, on \<open>Digest\<close>; \<open>Kdf\<close>: \<^verbatim>\<open>crypto/hkdf/hkdf.c\<close> and
    \<^verbatim>\<open>crypto/evp/pbkdf.c\<close>, on \<open>Hmac\<close>; \<open>Digest_Extra\<close>: \<^verbatim>\<open>crypto/digest_extra/digest_extra.c\<close>, on
    \<open>Digest\<close>, \<open>CBS\<close> and \<open>CBB\<close>.
  \<^item> \<open>Aes_Tables\<close> and \<open>Aes\<close>: \<^verbatim>\<open>crypto/fipsmodule/aes/aes.c\<close>, the tables, and the key schedules and blocks in C,
    which the pod compiles because it defines \<^verbatim>\<open>OPENSSL_NO_ASM\<close>; \<open>Aes_Spec\<close>: FIPS 197. \<open>Cipher\<close>:
    \<^verbatim>\<open>crypto/fipsmodule/cipher/cipher.c\<close>, contexts over any table of methods, with \<open>Cipher_Spec\<close>; \<open>E_Aes\<close>:
    \<^verbatim>\<open>aes/mode_wrappers.c\<close> and the methods of \<^verbatim>\<open>cipher/e_aes.c\<close>, on \<open>Aes\<close>, \<open>Modes\<close>, \<open>Cbc\<close> and \<open>Cipher\<close>, with
    \<open>E_Aes_Spec\<close>; \<open>Key_Wrap\<close>: \<^verbatim>\<open>aes/key_wrap.c\<close>, on \<open>Aes\<close>.
  \<^item> \<open>Bn_Words\<close>: \<^verbatim>\<open>crypto/fipsmodule/bn/generic.c\<close>, arithmetic on arrays of words, with \<open>Bn_Words_Spec\<close>, and
    \<open>Bn_Comba\<close> for its unrolled products; \<open>Bn_Mul\<close>: the schoolbook multiplication of \<^verbatim>\<open>mul.c\<close>; \<open>Bn\<close>: the
    big numbers of \<^verbatim>\<open>bn.c\<close>, \<^verbatim>\<open>cmp.c\<close> and \<^verbatim>\<open>add.c\<close>, on \<open>Bn_Words\<close>, with \<open>Bn_Spec\<close> and \<open>Bn_Small\<close>.

  \<^bold>\<open>How state corresponds.\<close> A C struct is a record with the struct's fields. A pointer into a
  buffer is an offset; a block of memory is a list of cells whose length is its size, and an access
  outside it, like a failed \<^verbatim>\<open>assert\<close> or a read of a byte never written where the code uses its
  value, has no result (\<open>None\<close> of the option type). Two theories depart from this and say where: in
  \<open>CBB\<close> the assertions of \<^verbatim>\<open>cbb.c\<close> are left out and a store behind the buffer does nothing or
  extends the list, and
  in \<open>CBS\<close> the readers index a list whose length they have compared, and \<^verbatim>\<open>assert(0)\<close> is the
  failure that the code returns without assertions. Structs that are reached through several
  pointers live in a store: \<open>cbb_world\<close> for the \<^verbatim>\<open>CBB\<close> structs and their shared buffer, \<open>bio_heap\<close>
  for the BIOs, whose peers and chains are addresses, \<open>bns\<close> for big numbers, of which a result may be an operand. A pointer out-parameter is a component of
  the result. A \<open>size_t\<close> is a natural number with its wrap-around written out
  (\<open>size_add\<close>, \<open>size_mul\<close>, \<open>size_sub\<close>) wherever the code computes with it; other integers are
  words of their width, or \<open>int\<close> with explicit conversions. Return codes are booleans, options or
  the \<open>int\<close> itself. The error queue is not modelled: \<^verbatim>\<open>OPENSSL_PUT_ERROR\<close> changes no state here.

  \<^bold>\<open>Parameters.\<close> The system's \<^verbatim>\<open>malloc\<close> is a predicate on sizes (which requests succeed), so that
  every allocation failure is a branch; \<^verbatim>\<open>qsort\<close> and \<^verbatim>\<open>bsearch\<close> are parameters of the stack, with
  the C standard's contract as the locale \<open>libc_sort\<close>; hash and comparison functions are the
  fields of the hash table, with the locale \<open>hash_key\<close> as their contract; the block cipher of a mode
  is a function of 16 bytes; the table of methods of a cipher context is a function from its
  address, with the locale \<open>block_methods\<close> as the contract of the methods of a block cipher. Every locale is interpreted on concrete functions of the model.

  \<^bold>\<open>What is shown.\<close>
  \<^item> Parser: the element parsers accept exactly the DER (or BER) elements and stay inside their
    window; the numeric, bit-string and optional readers are characterised on every input.
  \<^item> Builder: an abstract stack of open frames, and a refinement theorem for \<open>CBB_flush\<close> and the
    operations that start with it, including the moves of the contents when a DER length
    needs more bytes.
  \<^item> BER conversion: DER input is left alone; a counterexample shows which BER is not found.
  \<^item> Base64: the RFC 4648 encoding, one-shot and streaming; round trips under any cutting of
    the data; bounds on what is written.
  \<^item> Hash table, stack and buffers: refinements to a finite map, a list and a byte string.
  \<^item> BIOs: each ring buffer refines a byte queue; pairs and memory BIOs satisfy one stream
    contract (locale \<open>byte_stream\<close>) from which first-in-first-out delivery follows for every
    interleaving; the invariant of a pair under every operation; progress; \<open>BIO_read_asn1\<close>.
  \<^item> Modes: the word loops equal the byte definitions (locale \<open>buffered_mode\<close>), messages may be
    cut anywhere, decryption undoes encryption (locale \<open>inverse_modes\<close>), and the version with a
    32-bit counter function refines the 128-bit counter. One-bit CFB is the mode of SP 800-38A; CBC
    decryption is right for every overlap the code admits and undoes encryption.
  \<^item> Digests: for any cutting of a message into updates, SHA-1, SHA-224, SHA-256, SHA-384 and SHA-512 return the
    digest of FIPS 180-4, MD5 and MD4 those of RFC 1321 and RFC 1320, stated on whole messages with
    unbounded lengths counted modulo the width of the length field (locale \<open>md32\<close> for the
    collector over any block function); tables of constants are derived from roots and sines.
  \<^item> Digest contexts: programs of calls on any number of contexts return what a recorder of messages
    says, with any allocations failing; exactly which programs return, and that no block is used as the
    struct of another digest. HMAC, HKDF and PBKDF2 are RFC 2104, RFC 5869 and RFC 8018, for every
    digest and every length that these allow; what PBKDF2 computes beyond is stated too.
    The writer and the parser of a digest's \<^verbatim>\<open>AlgorithmIdentifier\<close> are inverse, and the parser
    accepts nothing else.
  \<^item> AES: the tables and the code on them are FIPS 197, whose S-box is defined by inversion in the field;
    decryption undoes encryption. A cipher context, for any methods that satisfy the contract, processes a
    message cut anywhere as one sequence of blocks, with PKCS padding added and removed; AES-CBC and
    AES-ECB satisfy it. The output length that overflows is characterised. Key wrapping is RFC 3394 and
    accepts nothing but wrapped keys.
  \<^item> Big numbers: the loops over words add, subtract and multiply with carries, the unrolled products are
    products, and addition, subtraction and comparison of signed numbers are those of the integers, wherever
    the operands are and whether or not memory can be had.

  \<^bold>\<open>Bounds and loops.\<close> Loops over lists are structural or have a measure. Loops whose end depends
  on linked structs (\<open>CBB_flush\<close>, the BER recursion, BIO chains, the ring-buffer copies) are partial
  functions into \<open>option\<close>; the theorems about them state that they return. Theorems assume what the
  platform guarantees: objects are smaller than \<open>2 ^ 63\<close> bytes.

  \<^bold>\<open>Not modelled.\<close> Functions that only release memory; error reporting; locks (every model is of one
  thread, the reference count aside); user-defined BIO methods and socket, file and printing BIOs,
  which call the operating system; DES, division, modular arithmetic and the public-key code, X.509 and TLS, which
  rest on the modules above; the GCM mode and the AEADs. The other pods are Objective-C and C++ or
  generated code; nanopb is C, and open.
\<close>

end
